(* ===== verification/Prelude.thy ===== *)
theory Prelude imports Main "HOL-Library.Signed_Division" "HOL-Library.Sublist" begin

text \<open>
  What every component of the development shares: the result type of an operation
  that can hit a debug check or touch a dead object, the pointer type, generic lemmas
  on lists of slots, and the collections of simplification rules the component proofs
  use.

  A C++ pointer that may be NULL is an option.  An operation whose source has a
  \<open>DCHECK\<close>, a \<open>NOTREACHED\<close> or a dereference returns a value of the sum
  type \<open>'a res\<close>: \<open>Inl\<close> carries the kind of failure (what a debug build
  stops at), \<open>Inr\<close> the result.
\<close>

section \<open>Results of operations\<close>

datatype fault =
    DcheckFailed string
  | NotReached string
  | NullDeref string
  | UseAfterFree string
  | OutOfBounds string
  | OutOfTurns

type_synonym 'a res = "fault + 'a"

type_synonym 'o ptr = "'o option"

definition bindR :: "'a res \<Rightarrow> ('a \<Rightarrow> 'b res) \<Rightarrow> 'b res" where
  "bindR m f = (case m of Inl e \<Rightarrow> Inl e | Inr x \<Rightarrow> f x)"

definition dcheck :: "bool \<Rightarrow> string \<Rightarrow> unit res" where
  "dcheck b msg = (if b then Inr () else Inl (DcheckFailed msg))"

named_theorems res_simps
named_theorems time_simps

lemma bindR_Inl [simp, res_simps]: "bindR (Inl e) f = Inl e"
  by (simp add: bindR_def)

lemma bindR_Inr [simp, res_simps]: "bindR (Inr x) f = f x"
  by (simp add: bindR_def)

lemma bindR_eq_Inr [res_simps]: "bindR m f = Inr y \<longleftrightarrow> (\<exists>x. m = Inr x \<and> f x = Inr y)"
  by (cases m) auto

lemma bindR_eq_Inl [res_simps]:
  "bindR m f = Inl e \<longleftrightarrow> m = Inl e \<or> (\<exists>x. m = Inr x \<and> f x = Inl e)"
  by (cases m) auto

lemma bindR_assoc: "bindR (bindR m f) g = bindR m (\<lambda>x. bindR (f x) g)"
  by (cases m) auto

lemma dcheck_True [simp, res_simps]: "dcheck True msg = Inr ()"
  by (simp add: dcheck_def)

lemma dcheck_eq_Inr [simp, res_simps]: "dcheck b msg = Inr u \<longleftrightarrow> b"
  by (simp add: dcheck_def)

lemma dcheck_eq_Inl [simp, res_simps]: "dcheck b msg = Inl e \<longleftrightarrow> \<not> b \<and> e = DcheckFailed msg"
  by (auto simp: dcheck_def)

section \<open>Slots: a vector of pointers some of which are NULL\<close>

primrec live :: "'o ptr list \<Rightarrow> 'o list" where
  "live [] = []"
| "live (p # ps) = (case p of None \<Rightarrow> live ps | Some x \<Rightarrow> x # live ps)"

lemma live_append [simp]: "live (xs @ ys) = live xs @ live ys"
  by (induction xs) (auto split: option.splits)

lemma in_set_live [simp]: "x \<in> set (live ps) \<longleftrightarrow> Some x \<in> set ps"
  by (induction ps) (auto split: option.splits)

lemma live_map_Some [simp]: "live (map Some xs) = xs"
  by (induction xs) auto

lemma live_replicate_None [simp]: "live (replicate n None) = []"
  by (induction n) auto

lemma live_eq_Nil: "live ps = [] \<longleftrightarrow> set ps \<subseteq> {None}"
  by (induction ps) (auto split: option.splits)

lemma live_filter_Some [simp]: "live (filter (\<lambda>p. \<exists>y. p = Some y) ps) = live ps"
  by (induction ps) (auto split: option.splits)

lemma filter_Some_id [simp]: "None \<notin> set ps \<Longrightarrow> filter (\<lambda>p. \<exists>y. p = Some y) ps = ps"
  by (rule filter_True) (metis not_None_eq)

lemma map_Some_live: "map Some (live ps) = filter (\<lambda>p. p \<noteq> None) ps"
  by (induction ps) (auto split: option.splits)

lemma live_const_None [simp]: "live (map (\<lambda>_. None) ps) = []"
  by (induction ps) auto

text \<open>\<open>slots_le xs ys\<close>: \<open>ys\<close> is \<open>xs\<close> with some slots set to NULL and new slots at the end.\<close>

definition slots_le :: "'o ptr list \<Rightarrow> 'o ptr list \<Rightarrow> bool" where
  "slots_le xs ys \<longleftrightarrow> length xs \<le> length ys \<and>
     (\<forall>i<length xs. ys ! i = xs ! i \<or> ys ! i = None)"

lemma slots_le_refl [simp]: "slots_le xs xs"
  by (simp add: slots_le_def)

lemma slots_le_trans: "slots_le xs ys \<Longrightarrow> slots_le ys zs \<Longrightarrow> slots_le xs zs"
  unfolding slots_le_def by (metis le_trans less_le_trans)

lemma slots_le_append [simp]: "slots_le xs (xs @ ys)"
  by (simp add: slots_le_def nth_append)

lemma slots_le_update_None: "slots_le xs (xs[i := None])"
  by (cases "i < length xs") (auto simp: slots_le_def nth_list_update)

lemma slots_le_map_None: "slots_le xs (map (\<lambda>_. None) xs)"
  by (simp add: slots_le_def)

lemma slots_le_length: "slots_le xs ys \<Longrightarrow> length xs \<le> length ys"
  by (simp add: slots_le_def)

lemma slots_le_nth: "slots_le xs ys \<Longrightarrow> i < length xs \<Longrightarrow> ys ! i = Some x \<Longrightarrow> xs ! i = Some x"
  unfolding slots_le_def by (metis option.distinct(1))

primrec fold_res :: "('o \<Rightarrow> 's \<Rightarrow> 's res) \<Rightarrow> 'o list \<Rightarrow> 's \<Rightarrow> 's res" where
  "fold_res f [] s = Inr s"
| "fold_res f (x # xs) s = bindR (f x s) (fold_res f xs)"

lemma fold_res_append: "fold_res f (xs @ ys) s = bindR (fold_res f xs s) (fold_res f ys)"
  by (induction xs arbitrary: s) (auto simp: bindR_def split: sum.splits)

lemma live_subseq:
  assumes "slots_le xs ys" "m \<le> length xs"
  shows "subseq (live (drop i (take m ys))) (live (drop i (take m xs)))"
proof -
  have "list_all2 (\<lambda>x y. y = x \<or> y = None) (drop i (take m xs)) (drop i (take m ys))"
  proof (rule list_all2_all_nthI)
    show "length (drop i (take m xs)) = length (drop i (take m ys))"
      using assms slots_le_length [OF assms(1)] by simp
    fix k
    assume k: "k < length (drop i (take m xs))"
    then have "i + k < length xs" "i + k < m" by auto
    moreover from this have "ys ! (i + k) = xs ! (i + k) \<or> ys ! (i + k) = None"
      using assms(1) by (auto simp: slots_le_def)
    ultimately show "drop i (take m ys) ! k = drop i (take m xs) ! k \<or> drop i (take m ys) ! k = None"
      using assms slots_le_length [OF assms(1)] by simp
  qed
  then show ?thesis
    by (induction rule: list_all2_induct) (auto split: option.splits)
qed

lemma subseq_distinct: "subseq xs ys \<Longrightarrow> distinct ys \<Longrightarrow> distinct xs"
  by (metis distinct_nthsI subseq_conv_nths)

end
