(* ===== verification/Times.thy ===== *)
theory Times imports Prelude begin

text \<open>
  \<open>base/time.h\<close> and \<open>base/time.cc\<close>: \<open>TimeDelta\<close>, \<open>Time\<close> and \<open>TimeTicks\<close>,
  each a count of microseconds behind its own type.  The counts are \<open>int64\<close> in the
  source; signed overflow is undefined there, so the model uses unbounded integers and
  speaks about the values for which the code is defined.  Division truncates towards
  zero as in C++ (\<open>sdiv\<close> of the library).  Conversions through \<open>double\<close>,
  calendars and the operating system's clocks are not modelled here.
\<close>

section \<open>Types\<close>

datatype time_delta = TimeDelta (delta_us: int)
datatype time = Time (time_us: int)
datatype time_ticks = TimeTicks (ticks_us: int)

definition kMillisecondsPerSecond :: int where
  "kMillisecondsPerSecond = 1000"

definition kMicrosecondsPerMillisecond :: int where
  "kMicrosecondsPerMillisecond = 1000"

definition kMicrosecondsPerSecond :: int where
  "kMicrosecondsPerSecond = kMicrosecondsPerMillisecond * kMillisecondsPerSecond"

definition kMicrosecondsPerMinute :: int where
  "kMicrosecondsPerMinute = kMicrosecondsPerSecond * 60"

definition kMicrosecondsPerHour :: int where
  "kMicrosecondsPerHour = kMicrosecondsPerMinute * 60"

definition kMicrosecondsPerDay :: int where
  "kMicrosecondsPerDay = kMicrosecondsPerHour * 24"

lemmas time_consts [simp, time_simps] =
  kMillisecondsPerSecond_def kMicrosecondsPerMillisecond_def kMicrosecondsPerSecond_def
  kMicrosecondsPerMinute_def kMicrosecondsPerHour_def kMicrosecondsPerDay_def

section \<open>Comparison operators: the three types are linear orders\<close>

definition delta_le :: "time_delta \<Rightarrow> time_delta \<Rightarrow> bool" where
  "delta_le a b \<longleftrightarrow> delta_us a \<le> delta_us b"

definition delta_less :: "time_delta \<Rightarrow> time_delta \<Rightarrow> bool" where
  "delta_less a b \<longleftrightarrow> delta_us a < delta_us b"

instantiation time_delta :: linorder
begin

definition less_eq_time_delta :: "time_delta \<Rightarrow> time_delta \<Rightarrow> bool" where
  "less_eq_time_delta = delta_le"

definition less_time_delta :: "time_delta \<Rightarrow> time_delta \<Rightarrow> bool" where
  "less_time_delta = delta_less"

instance
  by standard (auto simp: less_eq_time_delta_def less_time_delta_def delta_le_def delta_less_def time_delta.expand)

end

definition time_le :: "time \<Rightarrow> time \<Rightarrow> bool" where
  "time_le a b \<longleftrightarrow> time_us a \<le> time_us b"

definition time_less :: "time \<Rightarrow> time \<Rightarrow> bool" where
  "time_less a b \<longleftrightarrow> time_us a < time_us b"

instantiation time :: linorder
begin

definition less_eq_time :: "time \<Rightarrow> time \<Rightarrow> bool" where
  "less_eq_time = time_le"

definition less_time :: "time \<Rightarrow> time \<Rightarrow> bool" where
  "less_time = time_less"

instance
  by standard (auto simp: less_eq_time_def less_time_def time_le_def time_less_def time.expand)

end

definition ticks_le :: "time_ticks \<Rightarrow> time_ticks \<Rightarrow> bool" where
  "ticks_le a b \<longleftrightarrow> ticks_us a \<le> ticks_us b"

definition ticks_less :: "time_ticks \<Rightarrow> time_ticks \<Rightarrow> bool" where
  "ticks_less a b \<longleftrightarrow> ticks_us a < ticks_us b"

instantiation time_ticks :: linorder
begin

definition less_eq_time_ticks :: "time_ticks \<Rightarrow> time_ticks \<Rightarrow> bool" where
  "less_eq_time_ticks = ticks_le"

definition less_time_ticks :: "time_ticks \<Rightarrow> time_ticks \<Rightarrow> bool" where
  "less_time_ticks = ticks_less"

instance
  by standard (auto simp: less_eq_time_ticks_def less_time_ticks_def ticks_le_def ticks_less_def time_ticks.expand)

end

lemmas time_order_defs [simp, time_simps] =
  less_eq_time_delta_def less_time_delta_def less_eq_time_def less_time_def
  less_eq_time_ticks_def less_time_ticks_def
  delta_le_def delta_less_def time_le_def time_less_def ticks_le_def ticks_less_def

section \<open>TimeDelta\<close>

definition FromDays :: "int \<Rightarrow> time_delta" where
  "FromDays days = TimeDelta (days * kMicrosecondsPerDay)"

definition FromHours :: "int \<Rightarrow> time_delta" where
  "FromHours hours = TimeDelta (hours * kMicrosecondsPerHour)"

definition FromMinutes :: "int \<Rightarrow> time_delta" where
  "FromMinutes minutes = TimeDelta (minutes * kMicrosecondsPerMinute)"

definition FromSeconds :: "int \<Rightarrow> time_delta" where
  "FromSeconds secs = TimeDelta (secs * kMicrosecondsPerSecond)"

definition FromMilliseconds :: "int \<Rightarrow> time_delta" where
  "FromMilliseconds ms = TimeDelta (ms * kMicrosecondsPerMillisecond)"

definition FromMicroseconds :: "int \<Rightarrow> time_delta" where
  "FromMicroseconds us = TimeDelta us"

definition InDays :: "time_delta \<Rightarrow> int" where
  "InDays d = delta_us d sdiv kMicrosecondsPerDay"

definition InHours :: "time_delta \<Rightarrow> int" where
  "InHours d = delta_us d sdiv kMicrosecondsPerHour"

definition InMinutes :: "time_delta \<Rightarrow> int" where
  "InMinutes d = delta_us d sdiv kMicrosecondsPerMinute"

definition InSeconds :: "time_delta \<Rightarrow> int" where
  "InSeconds d = delta_us d sdiv kMicrosecondsPerSecond"

definition InMilliseconds :: "time_delta \<Rightarrow> int" where
  "InMilliseconds d = delta_us d sdiv kMicrosecondsPerMillisecond"

definition InMillisecondsRoundedUp :: "time_delta \<Rightarrow> int" where
  "InMillisecondsRoundedUp d =
     (delta_us d + kMicrosecondsPerMillisecond - 1) sdiv kMicrosecondsPerMillisecond"

definition InMicroseconds :: "time_delta \<Rightarrow> int" where
  "InMicroseconds d = delta_us d"

definition delta_add :: "time_delta \<Rightarrow> time_delta \<Rightarrow> time_delta" where
  "delta_add a b = TimeDelta (delta_us a + delta_us b)"

definition delta_sub :: "time_delta \<Rightarrow> time_delta \<Rightarrow> time_delta" where
  "delta_sub a b = TimeDelta (delta_us a - delta_us b)"

definition delta_neg :: "time_delta \<Rightarrow> time_delta" where
  "delta_neg a = TimeDelta (- delta_us a)"

definition delta_times :: "time_delta \<Rightarrow> int \<Rightarrow> time_delta" where
  "delta_times d a = TimeDelta (delta_us d * a)"

definition delta_div :: "time_delta \<Rightarrow> int \<Rightarrow> time_delta" where
  "delta_div d a = TimeDelta (delta_us d sdiv a)"

definition delta_ratio :: "time_delta \<Rightarrow> time_delta \<Rightarrow> int" where
  "delta_ratio a b = delta_us a sdiv delta_us b"

lemmas delta_defs [time_simps] =
  FromDays_def FromHours_def FromMinutes_def FromSeconds_def FromMilliseconds_def
  FromMicroseconds_def InDays_def InHours_def InMinutes_def InSeconds_def
  InMilliseconds_def InMillisecondsRoundedUp_def InMicroseconds_def delta_add_def
  delta_sub_def delta_neg_def delta_times_def delta_div_def delta_ratio_def

section \<open>Time and TimeTicks\<close>

definition time_is_null :: "time \<Rightarrow> bool" where
  "time_is_null t \<longleftrightarrow> time_us t = 0"

definition time_plus :: "time \<Rightarrow> time_delta \<Rightarrow> time" where
  "time_plus t d = Time (time_us t + delta_us d)"

definition time_minus :: "time \<Rightarrow> time_delta \<Rightarrow> time" where
  "time_minus t d = Time (time_us t - delta_us d)"

definition time_diff :: "time \<Rightarrow> time \<Rightarrow> time_delta" where
  "time_diff a b = TimeDelta (time_us a - time_us b)"

definition FromTimeT :: "int \<Rightarrow> int \<Rightarrow> time" where
  \<comment> \<open>the platform's \<open>kTimeTToMicrosecondsOffset\<close> is the first argument\<close>
  "FromTimeT off tt = (if tt = 0 then Time 0 else Time (tt * kMicrosecondsPerSecond + off))"

definition ToTimeT :: "int \<Rightarrow> time \<Rightarrow> int" where
  "ToTimeT off t = (if time_us t = 0 then 0 else (time_us t - off) sdiv kMicrosecondsPerSecond)"

definition ticks_is_null :: "time_ticks \<Rightarrow> bool" where
  "ticks_is_null t \<longleftrightarrow> ticks_us t = 0"

definition null_ticks :: time_ticks where
  "null_ticks = TimeTicks 0"

definition ticks_plus :: "time_ticks \<Rightarrow> time_delta \<Rightarrow> time_ticks" where
  "ticks_plus t d = TimeTicks (ticks_us t + delta_us d)"

definition ticks_minus :: "time_ticks \<Rightarrow> time_delta \<Rightarrow> time_ticks" where
  "ticks_minus t d = TimeTicks (ticks_us t - delta_us d)"

definition ticks_diff :: "time_ticks \<Rightarrow> time_ticks \<Rightarrow> time_delta" where
  "ticks_diff a b = TimeDelta (ticks_us a - ticks_us b)"

record exploded =
  ex_year :: int
  ex_month :: int
  ex_day_of_week :: int
  ex_day_of_month :: int
  ex_hour :: int
  ex_minute :: int
  ex_second :: int
  ex_millisecond :: int

definition is_in_range :: "int \<Rightarrow> int \<Rightarrow> int \<Rightarrow> bool" where
  "is_in_range value lo hi \<longleftrightarrow> lo \<le> value \<and> value \<le> hi"

definition HasValidValues :: "exploded \<Rightarrow> bool" where
  "HasValidValues e \<longleftrightarrow>
     is_in_range (ex_month e) 1 12 \<and>
     is_in_range (ex_day_of_week e) 0 6 \<and>
     is_in_range (ex_day_of_month e) 1 31 \<and>
     is_in_range (ex_hour e) 0 23 \<and>
     is_in_range (ex_minute e) 0 59 \<and>
     is_in_range (ex_second e) 0 60 \<and>
     is_in_range (ex_millisecond e) 0 999"

lemmas time_defs [time_simps] =
  time_is_null_def time_plus_def time_minus_def time_diff_def
  ticks_is_null_def null_ticks_def ticks_plus_def ticks_minus_def ticks_diff_def

definition UnixEpoch :: "int \<Rightarrow> time" where
  "UnixEpoch off = Time off"

section \<open>Properties\<close>

lemma sdiv_mult [simp]: "0 < (c::int) \<Longrightarrow> (n * c) sdiv c = n"
  by (simp add: signed_divide_int_def sgn_mult abs_mult) (metis mult_sgn_abs mult.commute)

lemma sdiv_nonneg: "0 \<le> (a::int) \<Longrightarrow> 0 < c \<Longrightarrow> a sdiv c = a div c"
  by (cases "a = 0") (simp_all add: signed_divide_int_def)

text \<open>
  A duration built from a whole number of days, hours, minutes, seconds, milliseconds or
  microseconds, of either sign, reads back as that number in the same unit.
\<close>

theorem duration_units_roundtrip:
  "InDays (FromDays n) = n \<and> InHours (FromHours n) = n \<and> InMinutes (FromMinutes n) = n \<and>
   InSeconds (FromSeconds n) = n \<and> InMilliseconds (FromMilliseconds n) = n \<and>
   InMicroseconds (FromMicroseconds n) = n"
  by (simp add: delta_defs)

text \<open>
  \<open>InMillisecondsRoundedUp\<close> is the least number of milliseconds that covers a duration
  that is not negative; for a negative one the division truncates towards zero after the
  addition, so that minus one millisecond, an exact number of them, becomes zero.
\<close>

theorem rounded_up_milliseconds:
  "(0 \<le> delta_us d \<longrightarrow>
      delta_us d \<le> InMillisecondsRoundedUp d * 1000 \<and> InMillisecondsRoundedUp d * 1000 < delta_us d + 1000) \<and>
   InMillisecondsRoundedUp (FromMilliseconds (- 1)) = 0"
proof (intro conjI impI)
  assume "0 \<le> delta_us d"
  then have "InMillisecondsRoundedUp d = (delta_us d + 999) div 1000"
    by (simp add: InMillisecondsRoundedUp_def sdiv_nonneg)
  then show "delta_us d \<le> InMillisecondsRoundedUp d * 1000" "InMillisecondsRoundedUp d * 1000 < delta_us d + 1000"
    by linarith+
qed (simp add: delta_defs signed_divide_int_def)

theorem rounded_up_milliseconds_witness:
  "InMillisecondsRoundedUp (TimeDelta 1001) * 1000 < 2001"
  using rounded_up_milliseconds [of "TimeDelta 1001"] by simp

text \<open>
  A \<open>time_t\<close> survives the conversion to \<open>Time\<close> and back, the null value included,
  unless it is the one instant whose internal value would be the null time.
\<close>

theorem time_t_roundtrip:
  assumes "tt * 1000000 + off \<noteq> 0"
  shows "ToTimeT off (FromTimeT off tt) = tt \<and> (time_is_null (FromTimeT off tt) \<longleftrightarrow> tt = 0)"
  using assms by (simp add: ToTimeT_def FromTimeT_def time_is_null_def)

theorem time_t_roundtrip_witness:
  "ToTimeT 11644473600000000 (FromTimeT 11644473600000000 (- 7)) = - 7"
  using time_t_roundtrip [of "- 7" 11644473600000000] by simp

end
