(* ===== verification/Observers.thy ===== *)
theory Observers imports Prelude begin

text \<open>
  \<open>base/observer_list.h\<close>: \<open>ObserverListBase\<close>, its \<open>Iterator\<close>, \<open>ObserverList\<close>
  and the \<open>FOR_EACH_OBSERVER\<close> macro.  The vector of observer pointers is a list of
  slots (\<open>None\<close> is NULL); while a notification is running, a removal only clears
  its slot, and the iterator that brings the depth back to zero compacts the vector.
  The iterator holds a weak pointer to the list, so its operations take an optional
  list: \<open>None\<close> is a list that has been destroyed meanwhile.

  The callbacks are client code: a parameter of \<open>for_each_observer\<close> that may
  change the whole state, the list included.  The abstract view of a running
  notification is the list of observers still to be notified, \<open>pending\<close>.
\<close>

section \<open>The list\<close>

datatype notification_type = NOTIFY_ALL | NOTIFY_EXISTING_ONLY

record 'o olist =
  observers :: "'o ptr list"
  notify_depth :: int
  ntype :: notification_type

definition new_olist :: "notification_type \<Rightarrow> 'o olist" where
  "new_olist t = \<lparr>observers = [], notify_depth = 0, ntype = t\<rparr>"

definition AddObserver :: "'o ptr \<Rightarrow> 'o olist \<Rightarrow> 'o olist res" where
  "AddObserver obs l =
     (if obs \<in> set (observers l)
      then Inl (NotReached ''Observers can only be added once!'')
      else Inr (l\<lparr>observers := observers l @ [obs]\<rparr>))"

primrec find_slot :: "'o ptr \<Rightarrow> 'o ptr list \<Rightarrow> nat option" where
  "find_slot obs [] = None"
| "find_slot obs (p # ps) = (if p = obs then Some 0 else map_option Suc (find_slot obs ps))"

primrec erase_at :: "nat \<Rightarrow> 'a list \<Rightarrow> 'a list" where
  "erase_at i [] = []"
| "erase_at i (x # xs) = (case i of 0 \<Rightarrow> xs | Suc j \<Rightarrow> x # erase_at j xs)"

definition RemoveObserver :: "'o ptr \<Rightarrow> 'o olist \<Rightarrow> 'o olist" where
  "RemoveObserver obs l =
     (case find_slot obs (observers l) of
        None \<Rightarrow> l
      | Some i \<Rightarrow>
          if notify_depth l \<noteq> 0 then l\<lparr>observers := (observers l)[i := None]\<rparr>
          else l\<lparr>observers := erase_at i (observers l)\<rparr>)"

definition HasObserver :: "'o ptr \<Rightarrow> 'o olist \<Rightarrow> bool" where
  "HasObserver obs l = list_ex (\<lambda>p. p = obs) (observers l)"

definition Clear :: "'o olist \<Rightarrow> 'o olist" where
  "Clear l =
     (if notify_depth l \<noteq> 0 then l\<lparr>observers := map (\<lambda>_. None) (observers l)\<rparr>
      else l\<lparr>observers := []\<rparr>)"

definition olist_size :: "'o olist \<Rightarrow> nat" where
  "olist_size l = length (observers l)"

definition Compact :: "'o olist \<Rightarrow> 'o olist" where
  "Compact l = l\<lparr>observers := filter (\<lambda>p. p \<noteq> None) (observers l)\<rparr>"

definition might_have_observers :: "'o olist \<Rightarrow> bool" where
  "might_have_observers l \<longleftrightarrow> olist_size l \<noteq> 0"

definition destroy_olist :: "bool \<Rightarrow> 'o olist \<Rightarrow> unit res" where
  "destroy_olist check_empty l =
     (if check_empty then dcheck (olist_size (Compact l) = 0) ''size() == 0'' else Inr ())"

section \<open>The iterator\<close>

text \<open>
  \<open>max_index = None\<close> is \<open>numeric_limits<size_t>::max()\<close>, which bounds the
  size of every vector, so the minimum with it is the size.
\<close>

record iterator =
  index :: nat
  max_index :: "nat option"

definition iter_begin :: "'o olist \<Rightarrow> iterator \<times> 'o olist" where
  "iter_begin l =
     (\<lparr>index = 0, max_index = (if ntype l = NOTIFY_ALL then None else Some (olist_size l))\<rparr>,
      l\<lparr>notify_depth := notify_depth l + 1\<rparr>)"

definition iter_end :: "'o olist \<Rightarrow> 'o olist" where
  "iter_end l =
     (let l' = l\<lparr>notify_depth := notify_depth l - 1\<rparr>
      in if notify_depth l' = 0 then Compact l' else l')"

definition upto_index :: "iterator \<Rightarrow> 'o ptr list \<Rightarrow> nat" where
  "upto_index it obs =
     (case max_index it of None \<Rightarrow> length obs | Some m \<Rightarrow> min m (length obs))"

function advance :: "'o ptr list \<Rightarrow> nat \<Rightarrow> nat \<Rightarrow> nat" where
  "advance obs i m = (if i < m \<and> obs ! i = None then advance obs (Suc i) m else i)"
  by pat_completeness auto
termination
  by (relation "measure (\<lambda>(obs, i, m). m - i)") auto

declare advance.simps [simp del]

definition GetNext :: "iterator \<Rightarrow> 'o olist option \<Rightarrow> 'o ptr \<times> iterator" where
  "GetNext it lst =
     (case lst of
        None \<Rightarrow> (None, it)
      | Some l \<Rightarrow>
          (let obs = observers l; m = upto_index it obs; i = advance obs (index it) m
           in if i < m then (obs ! i, it\<lparr>index := Suc i\<rparr>) else (None, it\<lparr>index := i\<rparr>)))"

section \<open>FOR_EACH_OBSERVER\<close>

text \<open>
  The loop of the macro over any state \<open>'s\<close> that holds the list (\<open>get\<close> reads it,
  \<open>put\<close> writes it back; \<open>get s = None\<close> when the list is gone) and any callback.
  The loop may run forever when callbacks keep adding observers to a
  \<open>NOTIFY_ALL\<close> list: fuel counts the calls of \<open>GetNext\<close> and running out is
  \<open>None\<close>.
\<close>

fun notify_loop ::
  "nat \<Rightarrow> ('s \<Rightarrow> 'o olist option) \<Rightarrow> ('o \<Rightarrow> 's \<Rightarrow> 's res) \<Rightarrow> iterator \<Rightarrow> 's \<Rightarrow> 's res option"
where
  "notify_loop 0 get func it s = None"
| "notify_loop (Suc n) get func it s =
     (case GetNext it (get s) of
        (None, it') \<Rightarrow> Some (Inr s)
      | (Some obs, it') \<Rightarrow>
          (case func obs s of
             Inl e \<Rightarrow> Some (Inl e)
           | Inr s' \<Rightarrow> notify_loop n get func it' s'))"

definition for_each_observer ::
  "nat \<Rightarrow> ('s \<Rightarrow> 'o olist option) \<Rightarrow> ('o olist \<Rightarrow> 's \<Rightarrow> 's) \<Rightarrow>
   ('o \<Rightarrow> 's \<Rightarrow> 's res) \<Rightarrow> 's \<Rightarrow> 's res option"
where
  "for_each_observer n get put func s =
     (case get s of
        None \<Rightarrow> Some (Inl (UseAfterFree ''observer list''))
      | Some l \<Rightarrow>
          if might_have_observers l then
            (let (it, l') = iter_begin l in
             map_option (\<lambda>r. bindR r (\<lambda>s'.
               case get s' of None \<Rightarrow> Inr s' | Some l'' \<Rightarrow> Inr (put (iter_end l'') s')))
               (notify_loop n get func it (put l' s)))
          else Some (Inr s))"

section \<open>Invariant of the list\<close>

text \<open>
  No observer is registered twice, and a cleared slot remains only while a
  notification is running.
\<close>

definition olist_inv :: "'o olist \<Rightarrow> bool" where
  "olist_inv l \<longleftrightarrow> distinct (live (observers l)) \<and> 0 \<le> notify_depth l \<and>
     (None \<in> set (observers l) \<longrightarrow> 0 < notify_depth l)"

lemma find_slot_None [simp]: "find_slot obs ps = None \<longleftrightarrow> obs \<notin> set ps"
  by (induction ps) auto

lemma find_slot_Some: "find_slot obs ps = Some i \<Longrightarrow> i < length ps \<and> ps ! i = obs \<and> obs \<notin> set (take i ps)"
  by (induction ps arbitrary: i) (auto split: if_splits)

lemma live_update_None:
  "distinct (live ps) \<Longrightarrow> find_slot (Some x) ps = Some i \<Longrightarrow>
   live (ps[i := None]) = removeAll x (live ps)"
  by (induction ps arbitrary: i) (auto split: if_splits option.splits)

lemma live_erase_at:
  "distinct (live ps) \<Longrightarrow> find_slot (Some x) ps = Some i \<Longrightarrow>
   live (erase_at i ps) = removeAll x (live ps)"
  by (induction ps arbitrary: i) (auto split: if_splits option.splits)

lemma set_erase_at: "set (erase_at i ps) \<subseteq> set ps"
  by (induction ps arbitrary: i) (fastforce split: nat.splits)+

lemma live_RemoveObserver:
  assumes "distinct (live (observers l))"
  shows "live (observers (RemoveObserver (Some x) l)) = removeAll x (live (observers l))"
  using assms
  by (auto simp: RemoveObserver_def live_update_None live_erase_at split: option.splits)

lemma live_Clear [simp]: "live (observers (Clear l)) = []"
  by (simp add: Clear_def)

lemma live_Compact [simp]: "live (observers (Compact l)) = live (observers l)"
  by (simp add: Compact_def)

lemma HasObserver_iff [simp]: "HasObserver obs l \<longleftrightarrow> obs \<in> set (observers l)"
  by (auto simp: HasObserver_def list_ex_iff)

lemma AddObserver_inv: "AddObserver (Some x) l = Inr l' \<Longrightarrow> olist_inv l \<Longrightarrow> olist_inv l'"
  by (auto simp: AddObserver_def olist_inv_def split: if_splits)

lemma RemoveObserver_inv:
  assumes "olist_inv l"
  shows "olist_inv (RemoveObserver (Some x) l)"
proof -
  have "distinct (live (observers (RemoveObserver (Some x) l)))"
    using assms by (auto simp: olist_inv_def live_RemoveObserver intro: distinct_removeAll)
  moreover have "None \<in> set (observers (RemoveObserver (Some x) l)) \<longrightarrow> 0 < notify_depth l"
    using assms set_erase_at[of _ "observers l"]
    by (auto simp: RemoveObserver_def olist_inv_def split: option.splits)
  moreover have "notify_depth (RemoveObserver (Some x) l) = notify_depth l"
    by (simp add: RemoveObserver_def split: option.splits)
  ultimately show ?thesis using assms by (simp add: olist_inv_def)
qed

lemma Clear_inv: "olist_inv l \<Longrightarrow> olist_inv (Clear l)"
  by (auto simp: Clear_def olist_inv_def)

lemma iter_begin_inv: "olist_inv l \<Longrightarrow> olist_inv (snd (iter_begin l))"
  by (auto simp: iter_begin_def olist_inv_def)

lemma iter_end_inv: "olist_inv l \<Longrightarrow> 0 < notify_depth l \<Longrightarrow> olist_inv (iter_end l)"
  by (auto simp: iter_end_def olist_inv_def Let_def Compact_def)

lemma new_olist_inv [simp]: "olist_inv (new_olist t)"
  by (simp add: new_olist_def olist_inv_def)

section \<open>A running notification, abstractly: the observers still to be notified\<close>

definition pending :: "iterator \<Rightarrow> 'o olist \<Rightarrow> 'o list" where
  "pending it l = live (drop (index it) (take (upto_index it (observers l)) (observers l)))"

definition iter_ok :: "iterator \<Rightarrow> 'o olist \<Rightarrow> bool" where
  "iter_ok it l \<longleftrightarrow> (case max_index it of None \<Rightarrow> True | Some m \<Rightarrow> m \<le> length (observers l))"

lemma upto_index_le: "upto_index it obs \<le> length obs"
  by (simp add: upto_index_def split: option.splits)

lemma upto_index_mono:
  "slots_le (observers l) (observers l') \<Longrightarrow> iter_ok it l \<Longrightarrow>
   upto_index it (observers l) \<le> upto_index it (observers l')"
  by (auto simp: upto_index_def iter_ok_def dest: slots_le_length split: option.splits)

lemma iter_ok_mono: "slots_le (observers l) (observers l') \<Longrightarrow> iter_ok it l \<Longrightarrow> iter_ok it l'"
  by (auto simp: iter_ok_def dest: slots_le_length split: option.splits)

lemma advance_spec:
  "i \<le> m \<Longrightarrow> i \<le> advance obs i m \<and> advance obs i m \<le> m \<and>
   (\<forall>k. i \<le> k \<longrightarrow> k < advance obs i m \<longrightarrow> obs ! k = None) \<and>
   (advance obs i m < m \<longrightarrow> obs ! advance obs i m \<noteq> None)"
proof (induction obs i m rule: advance.induct)
  case (1 obs i m)
  show ?case
  proof (cases "i < m \<and> obs ! i = None")
    case True
    with "1.IH" have "Suc i \<le> advance obs (Suc i) m \<and> advance obs (Suc i) m \<le> m \<and>
      (\<forall>k. Suc i \<le> k \<longrightarrow> k < advance obs (Suc i) m \<longrightarrow> obs ! k = None) \<and>
      (advance obs (Suc i) m < m \<longrightarrow> obs ! advance obs (Suc i) m \<noteq> None)" by simp
    moreover have "advance obs i m = advance obs (Suc i) m"
      using True by (simp add: advance.simps [of obs i m])
    ultimately show ?thesis using True by (metis Suc_leI Suc_leD le_eq_less_or_eq)
  next
    case False
    with "1.prems" show ?thesis by (auto simp: advance.simps [of obs i m])
  qed
qed

lemma advance_stop: "m \<le> i \<Longrightarrow> advance obs i m = i"
  by (simp add: advance.simps)

lemma live_drop_None: "i < length ps \<Longrightarrow> ps ! i = None \<Longrightarrow> live (drop i ps) = live (drop (Suc i) ps)"
  by (simp add: Cons_nth_drop_Suc [symmetric])

lemma live_drop_Some: "i < length ps \<Longrightarrow> ps ! i = Some x \<Longrightarrow> live (drop i ps) = x # live (drop (Suc i) ps)"
  by (simp add: Cons_nth_drop_Suc [symmetric])

lemma live_drop_advance:
  "m \<le> length obs \<Longrightarrow> live (drop (advance obs i m) (take m obs)) = live (drop i (take m obs))"
proof (induction obs i m rule: advance.induct)
  case (1 obs i m)
  show ?case
  proof (cases "i < m \<and> obs ! i = None")
    case True
    then have "live (drop i (take m obs)) = live (drop (Suc i) (take m obs))"
      using "1.prems" by (intro live_drop_None) auto
    with True "1" show ?thesis by (simp add: advance.simps [of obs i m])
  next
    case False
    then have "advance obs i m = i" by (auto simp: advance.simps [of obs i m])
    then show ?thesis by simp
  qed
qed

text \<open>\<open>GetNext\<close> returns the first pending observer and leaves the rest pending.\<close>

lemma GetNext_pending:
  "GetNext it (Some l) = (None, it') \<Longrightarrow> pending it l = []"
  "GetNext it (Some l) = (Some x, it') \<Longrightarrow>
     pending it l = x # pending it' l \<and> max_index it' = max_index it \<and> index it < index it' \<and>
     index it' \<le> upto_index it (observers l) \<and> observers l ! (index it' - 1) = Some x \<and>
     (\<forall>k. index it \<le> k \<longrightarrow> k < index it' - 1 \<longrightarrow> observers l ! k = None)"
proof -
  define m where "m = upto_index it (observers l)"
  define j where "j = advance (observers l) (index it) m"
  have m: "m \<le> length (observers l)" by (simp add: m_def upto_index_le)
  have p: "pending it l = live (drop j (take m (observers l)))"
    using m by (simp add: pending_def live_drop_advance j_def m_def [symmetric])
  have spec: "index it \<le> m \<Longrightarrow> index it \<le> j \<and> j \<le> m \<and>
      (\<forall>k. index it \<le> k \<longrightarrow> k < j \<longrightarrow> observers l ! k = None) \<and>
      (j < m \<longrightarrow> observers l ! j \<noteq> None)"
    unfolding j_def by (rule advance_spec)
  have stop: "m \<le> index it \<Longrightarrow> j = index it" by (simp add: j_def advance_stop)
  {
    assume g: "GetNext it (Some l) = (None, it')"
    have "m \<le> j"
    proof (rule ccontr)
      assume "\<not> m \<le> j"
      then have "j < m" by simp
      moreover from this have "index it \<le> m" using stop by linarith
      ultimately have "observers l ! j \<noteq> None" using spec by blast
      with \<open>j < m\<close> g show False
        by (simp add: GetNext_def Let_def j_def [symmetric] m_def [symmetric])
    qed
    then show "pending it l = []" using p by simp
  }
  {
    assume g: "GetNext it (Some l) = (Some x, it')"
    then have jm: "j < m" and x: "observers l ! j = Some x" and it': "it' = it\<lparr>index := Suc j\<rparr>"
      by (auto simp: GetNext_def Let_def j_def [symmetric] m_def [symmetric] split: if_splits)
    have "index it \<le> m" using stop jm by linarith
    then have sp: "index it \<le> j" "\<forall>k. index it \<le> k \<longrightarrow> k < j \<longrightarrow> observers l ! k = None"
      using spec by auto
    have "pending it l = x # live (drop (Suc j) (take m (observers l)))"
      using p jm m x by (simp add: live_drop_Some)
    moreover have "pending it' l = live (drop (Suc j) (take m (observers l)))"
      using it' by (simp add: pending_def upto_index_def m_def)
    ultimately show "pending it l = x # pending it' l \<and> max_index it' = max_index it \<and>
      index it < index it' \<and> index it' \<le> upto_index it (observers l) \<and>
      observers l ! (index it' - 1) = Some x \<and>
      (\<forall>k. index it \<le> k \<longrightarrow> k < index it' - 1 \<longrightarrow> observers l ! k = None)"
      using it' jm x sp by (simp add: m_def)
  }
qed

lemma pending_begin: "iter_begin l = (it, l') \<Longrightarrow> pending it l' = live (observers l)"
  by (auto simp: iter_begin_def pending_def upto_index_def olist_size_def split: if_splits)

lemma iter_begin_ok: "iter_begin l = (it, l') \<Longrightarrow> iter_ok it l' \<and> index it = 0 \<and> observers l' = observers l
   \<and> notify_depth l' = notify_depth l + 1 \<and> ntype l' = ntype l
   \<and> (ntype l = NOTIFY_ALL \<longleftrightarrow> max_index it = None)"
  by (auto simp: iter_begin_def iter_ok_def olist_size_def split: if_splits)

text \<open>What the operations do to the observers a running notification has still to visit.\<close>

lemma update_None_as_map:
  "find_slot (Some x) ps = Some i \<Longrightarrow> distinct (live ps) \<Longrightarrow>
   ps[i := None] = map (\<lambda>p. if p = Some x then None else p) ps"
  by (induction ps arbitrary: i) (auto split: if_splits option.splits intro!: map_idI [symmetric])

lemma live_map_clear: "live (map (\<lambda>p. if p = Some x then None else p) ps) = removeAll x (live ps)"
  by (induction ps) (auto split: option.splits)

lemma pending_RemoveObserver:
  assumes "distinct (live (observers l))" "notify_depth l \<noteq> 0"
  shows "pending it (RemoveObserver (Some x) l) = removeAll x (pending it l)"
proof (cases "find_slot (Some x) (observers l)")
  case None
  then have "x \<notin> set (pending it l)"
    by (auto simp: pending_def dest!: in_set_dropD in_set_takeD)
  then show ?thesis unfolding RemoveObserver_def None by simp
next
  case (Some i)
  have "observers (RemoveObserver (Some x) l) =
        map (\<lambda>p. if p = Some x then None else p) (observers l)"
    using Some assms by (simp add: RemoveObserver_def update_None_as_map)
  then show ?thesis
    by (simp add: pending_def upto_index_def take_map drop_map live_map_clear cong: option.case_cong)
qed

lemma pending_AddObserver:
  assumes "AddObserver (Some x) l = Inr l'" "iter_ok it l" "index it \<le> length (observers l)"
  shows "pending it l' = pending it l @ (if max_index it = None then [x] else [])"
  using assms
  by (auto simp: AddObserver_def pending_def upto_index_def iter_ok_def split: if_splits option.splits)

lemma pending_Clear: "notify_depth l \<noteq> 0 \<Longrightarrow> pending it (Clear l) = []"
  by (auto simp: pending_def Clear_def live_eq_Nil dest!: in_set_dropD in_set_takeD)

lemma GetNext_registered: "GetNext it (Some l) = (Some x, it') \<Longrightarrow> HasObserver (Some x) l"
proof -
  assume g: "GetNext it (Some l) = (Some x, it')"
  have "index it' - 1 < length (observers l)"
    using GetNext_pending(2) [OF g] upto_index_le [of it "observers l"] by linarith
  then show ?thesis using GetNext_pending(2) [OF g] by (metis HasObserver_iff nth_mem)
qed

section \<open>Callbacks\<close>

text \<open>
  What a callback may do to the list it is called from: nothing, any sequence of
  registrations, removals and notifications (a cleared slot stays cleared, a slot never
  gets another observer), or destroy the list.
\<close>

definition callback_ok :: "('s \<Rightarrow> 'o olist option) \<Rightarrow> ('o \<Rightarrow> 's \<Rightarrow> 's res) \<Rightarrow> bool" where
  "callback_ok get func \<longleftrightarrow> (\<forall>x s s' l. get s = Some l \<longrightarrow> olist_inv l \<longrightarrow> 0 < notify_depth l \<longrightarrow>
     func x s = Inr s' \<longrightarrow>
     (case get s' of None \<Rightarrow> True
      | Some l' \<Rightarrow> olist_inv l' \<and> notify_depth l' = notify_depth l \<and> ntype l' = ntype l \<and>
          slots_le (observers l) (observers l')))"

text \<open>The same loop with each call of the callback recorded beside the state.\<close>

definition logged :: "('o \<Rightarrow> 's \<Rightarrow> 's res) \<Rightarrow> 'o \<Rightarrow> 's \<times> 'o list \<Rightarrow> ('s \<times> 'o list) res" where
  "logged func x st = bindR (func x (fst st)) (\<lambda>s'. Inr (s', snd st @ [x]))"

lemma drop_Suc_subset: "set (drop (Suc k) xs) \<subseteq> set (drop k xs)"
  by (simp add: set_drop_subset_set_drop)

lemma logged_eq_Inr: "logged func x st = Inr y \<longleftrightarrow> (\<exists>s'. func x (fst st) = Inr s' \<and> y = (s', snd st @ [x]))"
  by (auto simp: logged_def bindR_eq_Inr)

lemma loop_grows: "notify_loop n get (logged func) it st = Some (Inr st') \<Longrightarrow> \<exists>tr. snd st' = snd st @ tr"
proof (induction n arbitrary: it st)
  case 0
  then show ?case by simp
next
  case (Suc n)
  then show ?case
    by (fastforce simp: logged_eq_Inr split: prod.splits option.splits sum.splits dest: Suc.IH)
qed

locale observer_callback =
  fixes get :: "'s \<Rightarrow> 'o olist option"
    and func :: "'o \<Rightarrow> 's \<Rightarrow> 's res"
  assumes callback: "get s = Some l \<Longrightarrow> olist_inv l \<Longrightarrow> 0 < notify_depth l \<Longrightarrow> func x s = Inr s' \<Longrightarrow>
     get s' = Some l' \<Longrightarrow>
     olist_inv l' \<and> notify_depth l' = notify_depth l \<and> ntype l' = ntype l \<and>
     slots_le (observers l) (observers l')"
begin

lemma is_callback_ok: "callback_ok get func"
  unfolding callback_ok_def
proof (intro allI impI)
  fix x s s' l
  assume "get s = Some l" "olist_inv l" "0 < notify_depth l" "func x s = Inr s'"
  then show "case get s' of None \<Rightarrow> True | Some l' \<Rightarrow> olist_inv l' \<and> notify_depth l' = notify_depth l \<and>
      ntype l' = ntype l \<and> slots_le (observers l) (observers l')"
    using callback [of s l x s'] by (cases "get s'") simp_all
qed

text \<open>The list after the loop, if it still exists, keeps its slots and its depth.\<close>

lemma loop_keeps_list:
  assumes "notify_loop n (\<lambda>st. get (fst st)) (logged func) it st = Some (Inr st')"
    and "get (fst st) = Some l" "olist_inv l" "0 < notify_depth l" "get (fst st') = Some l'"
  shows "olist_inv l' \<and> notify_depth l' = notify_depth l \<and> ntype l' = ntype l \<and>
     slots_le (observers l) (observers l')"
  using assms
proof (induction n arbitrary: it st l)
  case 0
  then show ?case by simp
next
  case (Suc n)
  obtain nx it' where g: "GetNext it (Some l) = (nx, it')" by (cases "GetNext it (Some l)")
  show ?case
  proof (cases nx)
    case None
    with Suc.prems g show ?thesis by simp
  next
    case (Some x)
    with Suc.prems(1,2) g obtain s1 where s1: "func x (fst st) = Inr s1"
      and rest: "notify_loop n (\<lambda>st. get (fst st)) (logged func) it' (s1, snd st @ [x]) = Some (Inr st')"
      by (auto simp: logged_eq_Inr split: sum.splits)
    show ?thesis
    proof (cases "get s1")
      case None
      have "st' = (s1, snd st @ [x])"
        using rest None by (cases n) (auto simp: GetNext_def)
      with None Suc.prems(5) show ?thesis by simp
    next
      case (Some l1)
      have c: "olist_inv l1 \<and> notify_depth l1 = notify_depth l \<and> ntype l1 = ntype l \<and>
        slots_le (observers l) (observers l1)"
        using callback [OF Suc.prems(2,3,4) s1 Some] .
      have "olist_inv l' \<and> notify_depth l' = notify_depth l1 \<and> ntype l' = ntype l1 \<and>
        slots_le (observers l1) (observers l')"
        by (rule Suc.IH [OF rest]) (use Some c Suc.prems in auto)
      with c show ?thesis using slots_le_trans by metis
    qed
  qed
qed

text \<open>
  Completeness: an observer whose slot, not yet passed by the iterator and inside its
  range, still holds it when the loop returns, has been notified.
\<close>

lemma loop_notifies_survivors:
  assumes "notify_loop n (\<lambda>st. get (fst st)) (logged func) it st = Some (Inr st')"
    and "get (fst st) = Some l" "olist_inv l" "0 < notify_depth l" "iter_ok it l"
    and "get (fst st') = Some l'" "index it \<le> i" "i < upto_index it (observers l')"
    and "observers l' ! i = Some x"
  shows "x \<in> set (drop (length (snd st)) (snd st')) \<and> length (snd st) \<le> length (snd st')"
  using assms
proof (induction n arbitrary: it st l)
  case 0
  then show ?case by simp
next
  case (Suc n)
  obtain nx it' where g: "GetNext it (Some l) = (nx, it')" by (cases "GetNext it (Some l)")
  show ?case
  proof (cases nx)
    case None
    with Suc.prems(1,2,6) g have "l' = l" by simp
    have "pending it l = []" using GetNext_pending(1) g None by simp
    moreover have "Some x \<in> set (drop (index it) (take (upto_index it (observers l)) (observers l)))"
      using Suc.prems(7,8,9) \<open>l' = l\<close> upto_index_le [of it "observers l"]
      by (auto simp: in_set_conv_nth intro!: exI [of _ "i - index it"])
    ultimately show ?thesis unfolding pending_def live_eq_Nil by auto
  next
    case (Some y)
    with g have g': "GetNext it (Some l) = (Some y, it')" by simp
    note gn = GetNext_pending(2) [OF g']
    from Suc.prems(1,2) g' obtain s1 where s1: "func y (fst st) = Inr s1"
      and rest: "notify_loop n (\<lambda>st. get (fst st)) (logged func) it' (s1, snd st @ [y]) = Some (Inr st')"
      by (auto simp: logged_eq_Inr split: sum.splits)
    have all: "slots_le (observers l) (observers l')"
      using loop_keeps_list [OF Suc.prems(1-4,6)] by blast
    show ?thesis
    proof (cases "get s1")
      case None
      have "st' = (s1, snd st @ [y])" using rest None by (cases n) (auto simp: GetNext_def)
      with None Suc.prems(6) show ?thesis by simp
    next
      case (Some l1)
      have c: "olist_inv l1 \<and> notify_depth l1 = notify_depth l \<and> slots_le (observers l) (observers l1)"
        using callback [OF Suc.prems(2,3,4) s1 Some] by blast
      have ok: "iter_ok it' l1"
        using gn c Suc.prems(5) iter_ok_mono [of l l1 it] by (simp add: iter_ok_def)
      have u: "upto_index it' (observers l') = upto_index it (observers l')"
        using gn by (simp add: upto_index_def)
      consider "i < index it' - 1" | "i = index it' - 1" | "index it' \<le> i" by linarith
      then show ?thesis
      proof cases
        case 1
        then have "observers l ! i = None" using gn Suc.prems(7) by blast
        moreover have "i < length (observers l)"
          using 1 gn upto_index_le [of it "observers l"] by linarith
        ultimately have "observers l' ! i = None" using all by (auto simp: slots_le_def)
        with Suc.prems(9) show ?thesis by simp
      next
        case 2
        then have "i < length (observers l)"
          using gn upto_index_le [of it "observers l"] by linarith
        with all Suc.prems(9) have "observers l ! i = Some x" by (metis slots_le_nth)
        with gn 2 have "y = x" by simp
        with loop_grows [OF rest] show ?thesis by auto
      next
        case 3
        have "x \<in> set (drop (length (snd st @ [y])) (snd st')) \<and> length (snd st @ [y]) \<le> length (snd st')"
          using Suc.IH [OF rest _ _ _ ok Suc.prems(6) 3 _ Suc.prems(9)] c Some Suc.prems(4,8) u
          by simp
        then show ?thesis by (metis Suc_leD drop_Suc_subset in_mono length_append_singleton)
      qed
    qed
  qed
qed

text \<open>
  Soundness, for a bounded iterator: the notified observers are, in order, among those
  that were pending, and each at most once.
\<close>

lemma loop_notifies_pending:
  assumes "notify_loop n (\<lambda>st. get (fst st)) (logged func) it st = Some (Inr st')"
    and "get (fst st) = Some l" "olist_inv l" "0 < notify_depth l" "iter_ok it l"
    and "max_index it = Some m"
  shows "\<exists>tr. snd st' = snd st @ tr \<and> subseq tr (pending it l)"
  using assms
proof (induction n arbitrary: it st l)
  case 0
  then show ?case by simp
next
  case (Suc n)
  obtain nx it' where g: "GetNext it (Some l) = (nx, it')" by (cases "GetNext it (Some l)")
  show ?case
  proof (cases nx)
    case None
    with Suc.prems(1,2) g show ?thesis by simp
  next
    case (Some y)
    with g have g': "GetNext it (Some l) = (Some y, it')" by simp
    note gn = GetNext_pending(2) [OF g']
    from Suc.prems(1,2) g' obtain s1 where s1: "func y (fst st) = Inr s1"
      and rest: "notify_loop n (\<lambda>st. get (fst st)) (logged func) it' (s1, snd st @ [y]) = Some (Inr st')"
      by (auto simp: logged_eq_Inr split: sum.splits)
    show ?thesis
    proof (cases "get s1")
      case None
      have "st' = (s1, snd st @ [y])" using rest None by (cases n) (auto simp: GetNext_def)
      with gn show ?thesis by simp
    next
      case (Some l1)
      have c: "olist_inv l1 \<and> notify_depth l1 = notify_depth l \<and> slots_le (observers l) (observers l1)"
        using callback [OF Suc.prems(2,3,4) s1 Some] by blast
      have m: "max_index it' = Some m" and ml: "m \<le> length (observers l)"
        using gn Suc.prems(5,6) by (auto simp: iter_ok_def)
      have ok: "iter_ok it' l1" using m ml c slots_le_length by (fastforce simp: iter_ok_def)
      obtain tr where tr: "snd st' = (snd st @ [y]) @ tr" "subseq tr (pending it' l1)"
        using Suc.IH [OF rest _ _ _ ok m] c Some Suc.prems(4) by auto
      have "subseq (pending it' l1) (pending it' l)"
        using live_subseq [of "observers l" "observers l1" m "index it'"] c m ml slots_le_length
        by (fastforce simp: pending_def upto_index_def min_def)
      with tr(2) have "subseq tr (pending it' l)" by (rule subseq_order.trans)
      with tr(1) gn show ?thesis by simp
    qed
  qed
qed

end

section \<open>Termination\<close>

text \<open>
  A bounded iterator stops whatever the callbacks do; an unbounded one stops when the
  callbacks add no observer.
\<close>

lemma loop_bounded_terminates:
  "max_index it = Some m \<Longrightarrow> m - index it < n \<Longrightarrow>
   notify_loop n get func it s \<noteq> None"
proof (induction n arbitrary: it s)
  case 0
  then show ?case by simp
next
  case (Suc n)
  obtain nx it' where g: "GetNext it (get s) = (nx, it')" by (cases "GetNext it (get s)")
  show ?case
  proof (cases nx)
    case None
    with g show ?thesis by simp
  next
    case (Some x)
    with g obtain l where "GetNext it (Some l) = (Some x, it')"
      by (cases "get s") (auto simp: GetNext_def)
    note gn = GetNext_pending(2) [OF this]
    moreover have "upto_index it (observers l) \<le> m" using Suc.prems by (simp add: upto_index_def)
    ultimately have "m - index it' < n" and "max_index it' = Some m"
      using Suc.prems by auto
    with Suc.IH g Some show ?thesis by (auto split: sum.splits)
  qed
qed

lemma loop_no_add_terminates:
  assumes "\<And>x s s' l'. func x s = Inr s' \<Longrightarrow> get s' = Some l' \<Longrightarrow>
      (\<exists>l. get s = Some l \<and> length (observers l') \<le> length (observers l))"
    and "case get s of None \<Rightarrow> 0 < n | Some l \<Rightarrow> length (observers l) - index it < n"
  shows "notify_loop n get func it s \<noteq> None"
  using assms(2)
proof (induction n arbitrary: it s)
  case 0
  then show ?case by (simp split: option.splits)
next
  case (Suc n)
  obtain nx it' where g: "GetNext it (get s) = (nx, it')" by (cases "GetNext it (get s)")
  show ?case
  proof (cases nx)
    case None
    with g show ?thesis by simp
  next
    case (Some x)
    with g obtain l where l: "get s = Some l" and g': "GetNext it (Some l) = (Some x, it')"
      by (cases "get s") (auto simp: GetNext_def)
    note gn = GetNext_pending(2) [OF g']
    have i: "index it' \<le> length (observers l)" using gn upto_index_le [of it "observers l"] by linarith
    have "notify_loop n get func it' s' \<noteq> None" if "func x s = Inr s'" for s'
    proof -
      have "case get s' of None \<Rightarrow> 0 < n | Some l' \<Rightarrow> length (observers l') - index it' < n"
        using assms(1) [OF that] l gn Suc.prems i by (fastforce split: option.splits)
      then show ?thesis by (rule Suc.IH)
    qed
    with g Some show ?thesis by (auto split: sum.splits)
  qed
qed

section \<open>The whole macro\<close>

definition list_lens :: "('s \<Rightarrow> 'o olist option) \<Rightarrow> ('o olist \<Rightarrow> 's \<Rightarrow> 's) \<Rightarrow> bool" where
  "list_lens get put \<longleftrightarrow>
     (\<forall>s l l0. get s = Some l0 \<longrightarrow> get (put l s) = Some l) \<and>
     (\<forall>s l l'. put l' (put l s) = put l' s) \<and> (\<forall>s l. get s = Some l \<longrightarrow> put l s = s)"

definition log_put :: "('o olist \<Rightarrow> 's \<Rightarrow> 's) \<Rightarrow> 'o olist \<Rightarrow> 's \<times> 'o list \<Rightarrow> 's \<times> 'o list" where
  "log_put put l st = (put l (fst st), snd st)"

lemma log_put_fst [simp]: "fst (log_put put l st) = put l (fst st)"
  by (simp add: log_put_def)

lemma log_put_snd [simp]: "snd (log_put put l st) = snd st"
  by (simp add: log_put_def)

locale observer_notification = observer_callback +
  fixes put :: "'b olist \<Rightarrow> 'a \<Rightarrow> 'a"
  assumes get_put: "get s = Some l0 \<Longrightarrow> get (put l s) = Some l"
begin

text \<open>
  The run of the macro taken apart: the list \<open>l\<close> it starts on, the list \<open>l2\<close> the loop
  leaves, and the one after the iterator's destructor.
\<close>

lemma for_each_cases:
  assumes run: "for_each_observer n (\<lambda>st. get (fst st)) (log_put put) (logged func) (s, []) = Some (Inr (s', tr))"
    and l: "get s = Some l" "olist_inv l" "might_have_observers l" and l': "get s' = Some l'"
  obtains it l1 s2 l2 where "iter_begin l = (it, l1)"
    "notify_loop n (\<lambda>st. get (fst st)) (logged func) it (put l1 s, []) = Some (Inr (s2, tr))"
    "get (put l1 s) = Some l1" "olist_inv l1" "0 < notify_depth l1" "iter_ok it l1"
    "get s2 = Some l2" "olist_inv l2" "notify_depth l2 = notify_depth l + 1"
    "ntype l2 = ntype l" "slots_le (observers l) (observers l2)" "l' = iter_end l2"
proof -
  obtain it l1 where b: "iter_begin l = (it, l1)" by (cases "iter_begin l")
  note ok = iter_begin_ok [OF b]
  have g1: "get (put l1 s) = Some l1" by (rule get_put [OF l(1)])
  have i1: "olist_inv l1" using iter_begin_inv [OF l(2)] b by simp
  have d1: "0 < notify_depth l1" using ok l(2) by (simp add: olist_inv_def)
  obtain st2 where st2:
      "notify_loop n (\<lambda>st. get (fst st)) (logged func) it (put l1 s, []) = Some (Inr st2)"
    and fin: "(case get (fst st2) of None \<Rightarrow> Inr st2 | Some l'' \<Rightarrow> Inr (log_put put (iter_end l'') st2)) = (Inr (s', tr) :: _ res)"
    using run l b by (auto simp: for_each_observer_def log_put_def bindR_eq_Inr)
  have "get (fst st2) \<noteq> None"
    using fin l' by (cases "get (fst st2)") auto
  then obtain l2 where l2: "get (fst st2) = Some l2" by auto
  with fin have e: "s' = put (iter_end l2) (fst st2)" "tr = snd st2" by (auto simp: log_put_def)
  have "l' = iter_end l2" using e l' get_put [OF l2, of "iter_end l2"] by simp
  moreover have "olist_inv l2 \<and> notify_depth l2 = notify_depth l1 \<and> ntype l2 = ntype l1 \<and>
      slots_le (observers l1) (observers l2)"
    by (rule loop_keeps_list [OF st2]) (use g1 i1 d1 l2 in auto)
  moreover have "st2 = (fst st2, tr)" using e by simp
  ultimately show thesis
    using that [OF b _ g1 i1 d1 _ l2] st2 ok by metis
qed

lemma iter_end_facts: "olist_inv l2 \<Longrightarrow> notify_depth l2 = d + 1 \<Longrightarrow> 0 \<le> d \<Longrightarrow>
  olist_inv (iter_end l2) \<and> notify_depth (iter_end l2) = d \<and> ntype (iter_end l2) = ntype l2 \<and>
  live (observers (iter_end l2)) = live (observers l2)"
  using iter_end_inv [of l2] by (auto simp: iter_end_def Let_def Compact_def)

lemma notify_all_complete:
  assumes run: "for_each_observer n (\<lambda>st. get (fst st)) (log_put put) (logged func) (s, []) = Some (Inr (s', tr))"
    and l: "get s = Some l" "olist_inv l" "ntype l = NOTIFY_ALL" and l': "get s' = Some l'"
  shows "olist_inv l' \<and> notify_depth l' = notify_depth l \<and> set (live (observers l')) \<subseteq> set tr"
proof (cases "might_have_observers l")
  case False
  then have "s' = s" "observers l = []"
    using run l by (auto simp: for_each_observer_def might_have_observers_def olist_size_def)
  with l l' show ?thesis by simp
next
  case True
  obtain it l1 s2 l2 where r: "iter_begin l = (it, l1)"
    "notify_loop n (\<lambda>st. get (fst st)) (logged func) it (put l1 s, []) = Some (Inr (s2, tr))"
    "get (put l1 s) = Some l1" "olist_inv l1" "0 < notify_depth l1" "iter_ok it l1"
    "get s2 = Some l2" "olist_inv l2" "notify_depth l2 = notify_depth l + 1"
    "ntype l2 = ntype l" "slots_le (observers l) (observers l2)" "l' = iter_end l2"
    using for_each_cases [OF run l(1,2) True l'] by metis
  note ok = iter_begin_ok [OF r(1)]
  have "x \<in> set tr" if "Some x \<in> set (observers l2)" for x
  proof -
    from that obtain i where i: "i < length (observers l2)" "observers l2 ! i = Some x"
      by (auto simp: in_set_conv_nth)
    have "i < upto_index it (observers l2)" using i ok l(3) by (simp add: upto_index_def)
    then have "x \<in> set (drop 0 tr)"
      using loop_notifies_survivors [OF r(2), of l1 l2 i x] r ok i by simp
    then show ?thesis by simp
  qed
  moreover have "0 \<le> notify_depth l" using l(2) by (simp add: olist_inv_def)
  ultimately show ?thesis using iter_end_facts [OF r(8,9)] r(12) by auto
qed

lemma notify_existing_only:
  assumes run: "for_each_observer n (\<lambda>st. get (fst st)) (log_put put) (logged func) (s, []) = Some (Inr (s', tr))"
    and l: "get s = Some l" "olist_inv l" "ntype l = NOTIFY_EXISTING_ONLY" and l': "get s' = Some l'"
  shows "olist_inv l' \<and> notify_depth l' = notify_depth l \<and> subseq tr (live (observers l)) \<and> distinct tr \<and>
    (\<exists>surv added. live (observers l') = surv @ added \<and> set surv \<subseteq> set tr \<and> subseq surv (live (observers l)))"
proof (cases "might_have_observers l")
  case False
  then have "s' = s" "observers l = []" "tr = []"
    using run l by (auto simp: for_each_observer_def might_have_observers_def olist_size_def)
  with l l' show ?thesis by simp
next
  case True
  obtain it l1 s2 l2 where r: "iter_begin l = (it, l1)"
    "notify_loop n (\<lambda>st. get (fst st)) (logged func) it (put l1 s, []) = Some (Inr (s2, tr))"
    "get (put l1 s) = Some l1" "olist_inv l1" "0 < notify_depth l1" "iter_ok it l1"
    "get s2 = Some l2" "olist_inv l2" "notify_depth l2 = notify_depth l + 1"
    "ntype l2 = ntype l" "slots_le (observers l) (observers l2)" "l' = iter_end l2"
    using for_each_cases [OF run l(1,2) True l'] by metis
  note ok = iter_begin_ok [OF r(1)]
  define m where "m = length (observers l)"
  have mi: "max_index it = Some m"
    using r(1) l(3) by (auto simp: iter_begin_def olist_size_def m_def)
  have ml: "m \<le> length (observers l2)" using slots_le_length [OF r(11)] m_def by simp
  have "\<exists>t. snd (s2, tr) = snd (put l1 s, [] :: 'b list) @ t \<and> subseq t (pending it l1)"
    by (rule loop_notifies_pending [OF r(2)]) (use r mi in auto)
  then have sub: "subseq tr (live (observers l))" using pending_begin [OF r(1)] by simp
  then have "distinct tr"
    using l(2) by (auto simp: olist_inv_def intro: subseq_distinct)
  have surv: "x \<in> set tr" if "Some x \<in> set (take m (observers l2))" for x
  proof -
    from that ml obtain i where i: "i < m" "observers l2 ! i = Some x"
      by (auto simp: in_set_conv_nth)
    have "i < upto_index it (observers l2)" using i ml mi by (simp add: upto_index_def)
    then have "x \<in> set (drop 0 tr)"
      using loop_notifies_survivors [OF r(2), of l1 l2 i x] r ok i by simp
    then show ?thesis by simp
  qed
  have "live (observers l2) = live (take m (observers l2)) @ live (drop m (observers l2))"
    by (metis append_take_drop_id live_append)
  moreover have "subseq (live (take m (observers l2))) (live (observers l))"
    using live_subseq [OF r(11), of m 0] m_def by simp
  moreover have "0 \<le> notify_depth l" using l(2) by (simp add: olist_inv_def)
  ultimately show ?thesis
    using iter_end_facts [OF r(8,9)] r(12) sub \<open>distinct tr\<close> surv by auto
qed

end

section \<open>Callbacks that leave the list alone\<close>

locale quiet_notification =
  fixes get :: "'s \<Rightarrow> 'o olist option"
    and put :: "'o olist \<Rightarrow> 's \<Rightarrow> 's"
    and func :: "'o \<Rightarrow> 's \<Rightarrow> 's res"
  assumes lens: "list_lens get put"
    and quiet: "func x s = Inr s' \<Longrightarrow> get s' = get s"
    and commute: "get s \<noteq> None \<Longrightarrow> func x (put l s) = bindR (func x s) (\<lambda>s'. Inr (put l s'))"
begin

lemma lens_simps:
  "get s = Some l0 \<Longrightarrow> get (put l s) = Some l"
  "put l' (put l s) = put l' s"
  "get s = Some l0 \<Longrightarrow> put l0 s = s"
  using lens by (auto simp: list_lens_def)

lemma quiet_loop:
  assumes "get s = Some l" "length (pending it l) < n"
  shows "notify_loop n get func it s = Some (fold_res func (pending it l) s)"
  using assms
proof (induction n arbitrary: it s)
  case 0
  then show ?case by simp
next
  case (Suc n)
  obtain nx it' where g: "GetNext it (Some l) = (nx, it')" by (cases "GetNext it (Some l)")
  show ?case
  proof (cases nx)
    case None
    with g Suc.prems show ?thesis by (simp add: GetNext_pending(1))
  next
    case (Some x)
    with g have "GetNext it (Some l) = (Some x, it')" by simp
    then have p: "pending it l = x # pending it' l" by (rule GetNext_pending(2) [THEN conjunct1])
    show ?thesis
    proof (cases "func x s")
      case (Inl e)
      with g p Some Suc.prems show ?thesis by simp
    next
      case (Inr s')
      with quiet Suc.prems have "get s' = Some l" by fastforce
      then have "notify_loop n get func it' s' = Some (fold_res func (pending it' l) s')"
        using Suc.IH Suc.prems p by simp
      with g p Some Inr Suc.prems show ?thesis by simp
    qed
  qed
qed

lemma quiet_fold:
  assumes "get s = Some l"
  shows "fold_res func xs (put l' s) = bindR (fold_res func xs s) (\<lambda>s'. Inr (put l' s'))"
  using assms
proof (induction xs arbitrary: s)
  case Nil
  then show ?case by simp
next
  case (Cons x xs)
  have c: "func x (put l' s) = bindR (func x s) (\<lambda>s'. Inr (put l' s'))"
    using commute [of s x l'] Cons.prems by simp
  show ?case
  proof (cases "func x s")
    case (Inl e)
    with c show ?thesis by simp
  next
    case (Inr s1)
    with quiet Cons.prems have "get s1 = Some l" by fastforce
    with Cons.IH Inr c show ?thesis by simp
  qed
qed

lemma fold_keeps_list: "fold_res func xs s = Inr s' \<Longrightarrow> get s' = get s"
  by (induction xs arbitrary: s) (auto simp: bindR_eq_Inr dest: quiet)

text \<open>The macro is then a plain loop over the registered observers, and the list is as before.\<close>

lemma for_each_quiet:
  assumes "get s = Some l" "olist_inv l" "length (live (observers l)) < n"
  shows "for_each_observer n get put func s = Some (fold_res func (live (observers l)) s)"
proof (cases "might_have_observers l")
  case False
  with assms show ?thesis
    by (auto simp: for_each_observer_def might_have_observers_def olist_size_def)
next
  case True
  obtain it l1 where b: "iter_begin l = (it, l1)" by (cases "iter_begin l")
  note ok = iter_begin_ok [OF b]
  have g1: "get (put l1 s) = Some l1" by (rule lens_simps(1) [OF assms(1)])
  have "notify_loop n get func it (put l1 s) = Some (fold_res func (live (observers l)) (put l1 s))"
    using quiet_loop [OF g1, of it n] pending_begin [OF b] assms(3) by simp
  also have "\<dots> = Some (bindR (fold_res func (live (observers l)) s) (\<lambda>s'. Inr (put l1 s')))"
    by (simp add: quiet_fold [OF assms(1)])
  finally have run: "notify_loop n get func it (put l1 s) =
      Some (bindR (fold_res func (live (observers l)) s) (\<lambda>s'. Inr (put l1 s')))" .
  have "iter_end l1 = l"
    using b assms(2)
    by (cases l) (auto simp: iter_begin_def iter_end_def Let_def Compact_def olist_inv_def)
  then have "bindR (fold_res func (live (observers l)) s)
      (\<lambda>s'. case get (put l1 s') of None \<Rightarrow> Inr (put l1 s') | Some l'' \<Rightarrow> Inr (put (iter_end l'') (put l1 s')))
      = fold_res func (live (observers l)) s"
    using fold_keeps_list [of "live (observers l)" s] assms(1)
    by (cases "fold_res func (live (observers l)) s") (auto simp: lens_simps(1,2) dest!: lens_simps(3))
  then show ?thesis
    using run b True assms(1) by (simp add: for_each_observer_def bindR_assoc)
qed

end

section \<open>The list operations as callbacks\<close>

lemma RemoveObserver_contract:
  "olist_inv l \<Longrightarrow> 0 < notify_depth l \<Longrightarrow>
   olist_inv (RemoveObserver (Some x) l) \<and> notify_depth (RemoveObserver (Some x) l) = notify_depth l \<and>
   ntype (RemoveObserver (Some x) l) = ntype l \<and> slots_le (observers l) (observers (RemoveObserver (Some x) l))"
  using RemoveObserver_inv [of l x]
  by (auto simp: RemoveObserver_def slots_le_update_None split: option.splits)

lemma AddObserver_contract:
  "AddObserver (Some x) l = Inr l' \<Longrightarrow> olist_inv l \<Longrightarrow>
   olist_inv l' \<and> notify_depth l' = notify_depth l \<and> ntype l' = ntype l \<and> slots_le (observers l) (observers l')"
  using AddObserver_inv [of x l l'] by (auto simp: AddObserver_def split: if_splits)

lemma Clear_contract:
  "olist_inv l \<Longrightarrow> 0 < notify_depth l \<Longrightarrow>
   olist_inv (Clear l) \<and> notify_depth (Clear l) = notify_depth l \<and> ntype (Clear l) = ntype l \<and>
   slots_le (observers l) (observers (Clear l))"
  using Clear_inv [of l] by (auto simp: Clear_def slots_le_map_None)

text \<open>Recording the calls does not change what the loop does.\<close>

lemma loop_logged:
  "map_option (map_sum id fst) (notify_loop n (\<lambda>st. get (fst st)) (logged func) it st) =
   notify_loop n get func it (fst st)"
proof (induction n arbitrary: it st)
  case 0
  then show ?case by simp
next
  case (Suc n)
  obtain nx it' where g: "GetNext it (get (fst st)) = (nx, it')" by (cases "GetNext it (get (fst st))")
  show ?case
  proof (cases nx)
    case None
    with g show ?thesis by simp
  next
    case (Some x)
    with g Suc.IH [of it' "(s', snd st @ [x])" for s'] show ?thesis
      by (cases "func x (fst st)") (simp_all add: logged_def)
  qed
qed

locale reentrant_notification = observer_notification +
  assumes vanished: "get s = None \<Longrightarrow> get (put l s) = None"
begin

text \<open>A notification run from inside a callback is itself a permitted callback.\<close>

lemma nested_contract:
  assumes "for_each_observer n get put func s = Some (Inr s')"
    and "get s = Some l" "olist_inv l" "0 < notify_depth l" "get s' = Some l'"
  shows "olist_inv l' \<and> notify_depth l' = notify_depth l \<and> ntype l' = ntype l \<and>
    slots_le (observers l) (observers l')"
proof (cases "might_have_observers l")
  case False
  with assms show ?thesis by (auto simp: for_each_observer_def)
next
  case True
  obtain it l1 where b: "iter_begin l = (it, l1)" by (cases "iter_begin l")
  note ok = iter_begin_ok [OF b]
  have i1: "olist_inv l1" using iter_begin_inv [OF assms(3)] b by simp
  obtain s2 where s2: "notify_loop n get func it (put l1 s) = Some (Inr s2)"
    and fin: "(case get s2 of None \<Rightarrow> Inr s2 | Some l'' \<Rightarrow> Inr (put (iter_end l'') s2)) = (Inr s' :: 'a res)"
    using assms(1,2) b True by (auto simp: for_each_observer_def bindR_eq_Inr)
  obtain tr where lg: "notify_loop n (\<lambda>st. get (fst st)) (logged func) it (put l1 s, []) = Some (Inr (s2, tr))"
  proof -
    from s2 loop_logged [of n get func it "(put l1 s, [])"] obtain z where
      z: "notify_loop n (\<lambda>st. get (fst st)) (logged func) it (put l1 s, []) = Some z" "map_sum id fst z = Inr s2"
      by auto
    then obtain q where "z = Inr q" "fst q = s2" by (cases z) auto
    with z that [of "snd q"] show thesis by (cases q) simp
  qed
  from fin assms(5) obtain l2 where l2: "get s2 = Some l2" by (cases "get s2") auto
  have "olist_inv l2 \<and> notify_depth l2 = notify_depth l1 \<and> ntype l2 = ntype l1 \<and>
      slots_le (observers l1) (observers l2)"
    by (rule loop_keeps_list [OF lg]) (use get_put [OF assms(2)] i1 ok assms(4) l2 in auto)
  moreover have "l' = iter_end l2" using fin l2 assms(5) get_put [OF l2, of "iter_end l2"] by auto
  ultimately show ?thesis
    using ok assms(4) iter_end_inv [of l2] by (auto simp: iter_end_def Let_def)
qed

end

lemma observer_notificationI:
  "callback_ok get func \<Longrightarrow> list_lens get put \<Longrightarrow> observer_notification get func put"
proof (unfold_locales, goal_cases)
  case (1 s l x s' l')
  then have "case get s' of None \<Rightarrow> True
      | Some l' \<Rightarrow> olist_inv l' \<and> notify_depth l' = notify_depth l \<and> ntype l' = ntype l \<and>
          slots_le (observers l) (observers l')"
    unfolding callback_ok_def by blast
  with 1 show ?case by simp
next
  case (2 s l0 l)
  then show ?case unfolding list_lens_def by blast
qed

section \<open>Properties\<close>

text \<open>
  C7: a notification on a \<open>NOTIFY_ALL\<close> list, whatever registrations, removals and nested
  notifications the callbacks perform, has called every observer that is registered when
  it returns, restores the depth, and leaves no cleared slot behind at the outermost level.
\<close>

theorem notify_all_reaches_remaining:
  assumes "callback_ok get func" "list_lens get put"
    and "get s = Some l" "olist_inv l" "ntype l = NOTIFY_ALL"
    and "for_each_observer n (\<lambda>st. get (fst st)) (log_put put) (logged func) (s, []) = Some (Inr (s', tr))"
    and "get s' = Some l'"
  shows "olist_inv l' \<and> notify_depth l' = notify_depth l \<and> set (live (observers l')) \<subseteq> set tr"
  using observer_notification.notify_all_complete [OF observer_notificationI [OF assms(1,2)] assms(6,3,4,5,7)] .

text \<open>The client of the witnesses: observer 1, when called, removes observer 2 and registers 7.\<close>

definition swap_callback :: "nat \<Rightarrow> nat olist option \<Rightarrow> nat olist option res" where
  "swap_callback x s =
     (case s of None \<Rightarrow> Inr None
      | Some l \<Rightarrow> if x = 1 then bindR (AddObserver (Some 7) (RemoveObserver (Some 2) l)) (\<lambda>l'. Inr (Some l'))
          else Inr s)"

lemma swap_callback_ok: "callback_ok (\<lambda>s. s) swap_callback"
  unfolding callback_ok_def
proof (intro allI impI)
  fix x s s' and l :: "nat olist"
  assume a: "s = Some l" "olist_inv l" "0 < notify_depth l" "swap_callback x s = Inr s'"
  note r = RemoveObserver_contract [OF a(2,3), of 2]
  show "case s' of None \<Rightarrow> True | Some l' \<Rightarrow> olist_inv l' \<and> notify_depth l' = notify_depth l \<and>
      ntype l' = ntype l \<and> slots_le (observers l) (observers l')"
  proof (cases "x = 1")
    case True
    with a obtain l' where "AddObserver (Some 7) (RemoveObserver (Some 2) l) = Inr l'" "s' = Some l'"
      by (auto simp: swap_callback_def bindR_eq_Inr)
    with r AddObserver_contract [of 7 "RemoveObserver (Some 2) l" l'] show ?thesis
      using slots_le_trans by auto
  next
    case False
    with a show ?thesis by (auto simp: swap_callback_def)
  qed
qed

lemma some_lens: "list_lens (\<lambda>s. s) (\<lambda>l s. Some l)"
  by (auto simp: list_lens_def)

definition demo_list :: "notification_type \<Rightarrow> nat olist" where
  "demo_list t = \<lparr>observers = [Some 1, Some 2, Some 3], notify_depth = 0, ntype = t\<rparr>"

lemma demo_run_all:
  "for_each_observer 5 (\<lambda>st. fst st) (log_put (\<lambda>l s. Some l)) (logged swap_callback) (Some (demo_list NOTIFY_ALL), [])
   = Some (Inr (Some \<lparr>observers = [Some 1, Some 3, Some 7], notify_depth = 0, ntype = NOTIFY_ALL\<rparr>, [1, 3, 7]))"
  by code_simp

theorem notify_all_reaches_remaining_witness:
  "set (live [Some 1, Some 3, Some 7]) \<subseteq> set [1, 3, 7::nat]"
  using notify_all_reaches_remaining [OF swap_callback_ok some_lens _ _ _ demo_run_all]
  by (simp add: demo_list_def olist_inv_def)

text \<open>
  On a \<open>NOTIFY_EXISTING_ONLY\<close> list the callbacks are run in registration order, at
  most once each, only for observers registered beforehand; of the list that remains, every
  survivor of the original observers has been called and the rest were added meanwhile.
\<close>

theorem notify_existing_only_sound:
  assumes "callback_ok get func" "list_lens get put"
    and "get s = Some l" "olist_inv l" "ntype l = NOTIFY_EXISTING_ONLY"
    and "for_each_observer n (\<lambda>st. get (fst st)) (log_put put) (logged func) (s, []) = Some (Inr (s', tr))"
    and "get s' = Some l'"
  shows "olist_inv l' \<and> notify_depth l' = notify_depth l \<and> subseq tr (live (observers l)) \<and> distinct tr \<and>
    (\<exists>surv added. live (observers l') = surv @ added \<and> set surv \<subseteq> set tr \<and> subseq surv (live (observers l)))"
  using observer_notification.notify_existing_only [OF observer_notificationI [OF assms(1,2)] assms(6,3,4,5,7)] .

lemma demo_run_existing:
  "for_each_observer 5 (\<lambda>st. fst st) (log_put (\<lambda>l s. Some l)) (logged swap_callback)
     (Some (demo_list NOTIFY_EXISTING_ONLY), [])
   = Some (Inr (Some \<lparr>observers = [Some 1, Some 3, Some 7], notify_depth = 0, ntype = NOTIFY_EXISTING_ONLY\<rparr>, [1, 3]))"
  by code_simp

theorem notify_existing_only_sound_witness:
  "subseq [1, 3::nat] [1, 2, 3] \<and> distinct [1, 3::nat]"
  using notify_existing_only_sound [OF swap_callback_ok some_lens _ _ _ demo_run_existing]
  by (simp add: demo_list_def olist_inv_def)

text \<open>
  C8: a notification on a \<open>NOTIFY_EXISTING_ONLY\<close> list returns whatever the callbacks do,
  after at most one call of \<open>GetNext\<close> more than there are slots.
\<close>

theorem notify_existing_only_returns:
  assumes "get s = Some l" "ntype l = NOTIFY_EXISTING_ONLY" "olist_size l < n"
  shows "for_each_observer n get put func s \<noteq> None"
proof -
  obtain it l1 where b: "iter_begin l = (it, l1)" by (cases "iter_begin l")
  then have "max_index it = Some (olist_size l)" "index it = 0"
    using assms(2) by (auto simp: iter_begin_def)
  then have "notify_loop n get func it (put l1 s) \<noteq> None"
    using assms(3) by (intro loop_bounded_terminates) auto
  then show ?thesis using assms(1) b by (simp add: for_each_observer_def)
qed

text \<open>A callback that registers a fresh observer each time it is called.\<close>

definition grow_callback :: "nat \<Rightarrow> nat olist option \<Rightarrow> nat olist option res" where
  "grow_callback x s =
     (case s of None \<Rightarrow> Inr None
      | Some l \<Rightarrow> bindR (AddObserver (Some (x + 1000)) l) (\<lambda>l'. Inr (Some l')))"

theorem notify_existing_only_returns_witness:
  "for_each_observer 4 (\<lambda>s. s) (\<lambda>l s. Some l) grow_callback (Some (demo_list NOTIFY_EXISTING_ONLY)) \<noteq> None"
  by (rule notify_existing_only_returns [where l = "demo_list NOTIFY_EXISTING_ONLY"])
     (simp_all add: demo_list_def olist_size_def)

text \<open>
  C9: the abstract effect of the list operations on a running notification: a removed
  observer is no longer pending, a cleared list has nothing pending, and an observer added
  meanwhile is pending last on a \<open>NOTIFY_ALL\<close> list and not at all otherwise.
\<close>

theorem running_notification_refinement:
  assumes "olist_inv l" "0 < notify_depth l" "iter_ok it l" "index it \<le> length (observers l)"
  shows "pending it (RemoveObserver (Some x) l) = removeAll x (pending it l) \<and>
    pending it (Clear l) = [] \<and>
    (\<forall>l'. AddObserver (Some x) l = Inr l' \<longrightarrow>
       pending it l' = pending it l @ (if max_index it = None then [x] else [])) \<and>
    (case GetNext it (Some l) of
       (None, _) \<Rightarrow> pending it l = []
     | (Some y, it') \<Rightarrow> pending it l = y # pending it' l \<and> HasObserver (Some y) l)"
proof -
  have "distinct (live (observers l))" "notify_depth l \<noteq> 0" using assms by (auto simp: olist_inv_def)
  moreover have "case GetNext it (Some l) of
       (None, _) \<Rightarrow> pending it l = []
     | (Some y, it') \<Rightarrow> pending it l = y # pending it' l \<and> HasObserver (Some y) l"
  proof -
    obtain nx it' where g: "GetNext it (Some l) = (nx, it')" by (cases "GetNext it (Some l)")
    show ?thesis
    proof (cases nx)
      case None
      with g show ?thesis using GetNext_pending(1) by fastforce
    next
      case (Some y)
      with g have "GetNext it (Some l) = (Some y, it')" by simp
      from GetNext_pending(2) [OF this] GetNext_registered [OF this] g Some show ?thesis by simp
    qed
  qed
  ultimately show ?thesis
    by (intro conjI allI impI pending_RemoveObserver pending_Clear pending_AddObserver [OF _ assms(3,4)])
qed

theorem running_notification_refinement_witness:
  "pending \<lparr>index = 1, max_index = None\<rparr>
     (RemoveObserver (Some 2) ((demo_list NOTIFY_ALL)\<lparr>notify_depth := 1\<rparr>)) = removeAll 2 [2, 3]"
  using running_notification_refinement
    [of "(demo_list NOTIFY_ALL)\<lparr>notify_depth := 1\<rparr>" "\<lparr>index = 1, max_index = None\<rparr>" 2]
  by (simp add: demo_list_def olist_inv_def iter_ok_def pending_def upto_index_def)

end
