(* ===== verification/Doubles.thy ===== *)
theory Doubles imports Complex_Main Prelude begin

text \<open>
  The two places where the program divides in floating point:
  \<open>static_cast<int64>(1e6 / speed_)\<close> in \<open>Factory::Schedule\<close> and
  \<open>static_cast<int64>(1.0 / freq_ * 1e6)\<close> in \<open>FreqFactoryHostStub::OnDataProduced\<close>.
  A positive \<open>double\<close> in the normal range is a mantissa of 53 bits over a power of two,
  \<open>(m, k)\<close> for \<open>m / 2^k\<close>; an operation is the exact rational result rounded to the
  nearest such value, ties to even, as IEEE 754 has it; the cast truncates.
\<close>

section \<open>Rounding to 53 bits\<close>

fun bits :: "nat \<Rightarrow> nat" where
  "bits n = (if n = 0 then 0 else Suc (bits (n div 2)))"

declare bits.simps [simp del]

definition round_half_even :: "nat \<Rightarrow> nat \<Rightarrow> nat" where
  "round_half_even n d =
     (let q = n div d; r = n mod d in
      if 2 * r < d then q else if d < 2 * r then Suc q else if even q then q else Suc q)"

definition fl_round :: "nat \<Rightarrow> nat \<Rightarrow> nat \<times> nat" where
  "fl_round n d =
     (let k = 53 + bits d - bits n;
          k' = (if 2 ^ 53 \<le> n * 2 ^ k div d then k - 1 else k)
      in (round_half_even (n * 2 ^ k') d, k'))"

definition trunc_double :: "nat \<times> nat \<Rightarrow> nat" where
  "trunc_double x = (case x of (m, k) \<Rightarrow> m div 2 ^ k)"

text \<open>\<open>static_cast<int64>(1e6 / speed)\<close> for a positive \<open>int\<close>.\<close>

definition micros_per_item :: "nat \<Rightarrow> nat" where
  "micros_per_item speed = trunc_double (fl_round 1000000 speed)"

text \<open>\<open>static_cast<int64>(1.0 / freq * 1e6)\<close> for a positive \<open>int\<close>.\<close>

definition micros_per_notify :: "nat \<Rightarrow> nat" where
  "micros_per_notify freq =
     (case fl_round 1 freq of (m, k) \<Rightarrow> trunc_double (fl_round (m * 1000000) (2 ^ k)))"

section \<open>Rounding error\<close>

lemma bits_bounds: "0 < n \<Longrightarrow> 2 ^ (bits n - 1) \<le> n \<and> n < 2 ^ bits n \<and> 0 < bits n"
proof (induction n rule: bits.induct)
  case (1 n)
  show ?case
  proof (cases "n = 1")
    case True
    then show ?thesis by (simp add: bits.simps [of "Suc 0"] bits.simps [of 0])
  next
    case False
    with "1.prems" have "0 < n div 2" by auto
    with "1" have ih: "2 ^ (bits (n div 2) - 1) \<le> n div 2" "n div 2 < 2 ^ bits (n div 2)" "0 < bits (n div 2)"
      by auto
    have b: "bits n = Suc (bits (n div 2))" using "1.prems" by (simp add: bits.simps [of n])
    have "2 * 2 ^ (bits (n div 2) - 1) = (2::nat) ^ bits (n div 2)"
      using ih(3) by (metis Suc_diff_1 power_Suc)
    moreover have "2 * (n div 2) \<le> n" "n < 2 * (n div 2) + 2" by auto
    ultimately show ?thesis using ih b by simp linarith
  qed
qed

lemma bits_power: "bits (2 ^ k) = Suc k"
  by (induction k) (simp_all add: bits.simps [of 1] bits.simps [of 0] bits.simps [of "Suc 0"] bits.simps [of "2 * _"])

lemma bits_mono_bound: "n < 2 ^ j \<Longrightarrow> bits n \<le> j"
proof (rule ccontr)
  assume "n < 2 ^ j" "\<not> bits n \<le> j"
  then have "0 < n" by (cases n) (auto simp: bits.simps)
  then have "(2::nat) ^ (bits n - 1) \<le> n" using bits_bounds by blast
  moreover have "(2::nat) ^ j \<le> 2 ^ (bits n - 1)" using \<open>\<not> bits n \<le> j\<close> by (intro power_increasing) auto
  ultimately show False using \<open>n < 2 ^ j\<close> by linarith
qed

lemma round_half_even_error:
  assumes "0 < d"
  shows "\<bar>real (round_half_even n d) - real n / real d\<bar> \<le> 1 / 2"
    and "n div d \<le> round_half_even n d"
proof -
  define q where "q = n div d"
  define r where "r = n mod d"
  have n: "n = q * d + r" "r < d" using assms by (simp_all add: q_def r_def)
  then have e: "real n / real d = real q + real r / real d"
    using assms by (simp add: field_simps)
  have "round_half_even n d = q \<and> 2 * r \<le> d \<or> round_half_even n d = Suc q \<and> d \<le> 2 * r"
    by (auto simp: round_half_even_def Let_def q_def r_def)
  moreover have "0 \<le> real r / real d" "real r / real d \<le> 1" using n(2) assms by auto
  moreover have "2 * r \<le> d \<Longrightarrow> real r / real d \<le> 1 / 2" using assms by (simp add: field_simps)
  moreover have "d \<le> 2 * r \<Longrightarrow> 1 / 2 \<le> real r / real d"
  proof -
    assume "d \<le> 2 * r"
    then have "real d \<le> 2 * real r" by linarith
    then show ?thesis using assms by (simp add: field_simps)
  qed
  ultimately show "\<bar>real (round_half_even n d) - real n / real d\<bar> \<le> 1 / 2"
    using e by (auto simp: abs_le_iff)
  show "n div d \<le> round_half_even n d"
    by (simp add: round_half_even_def Let_def)
qed

text \<open>
  The result of a rounding: at least 52 bits of mantissa, so the error is at most
  \<open>2^-53\<close> of the exact value's binary order, \<open>2^-52\<close> of the value itself being ample.
\<close>

lemma fl_round_spec:
  assumes "0 < n" "0 < d" "bits n \<le> 52 + bits d" "fl_round n d = (m, k)"
  shows "\<bar>real m / 2 ^ k - real n / real d\<bar> \<le> (real n / real d) / 2 ^ 53" and "2 ^ 52 \<le> m"
proof -
  define k0 where "k0 = 53 + bits d - bits n"
  have k0: "0 < k0" "k0 + bits n = 53 + bits d" using assms(3) by (auto simp: k0_def)
  have k: "k = (if 2 ^ 53 \<le> n * 2 ^ k0 div d then k0 - 1 else k0)" and m: "m = round_half_even (n * 2 ^ k) d"
    using assms(4) by (auto simp: fl_round_def k0_def Let_def)
  note bn = bits_bounds [OF assms(1)] and bd = bits_bounds [OF assms(2)]
  have "d * 2 ^ 52 \<le> 2 ^ bits d * (2::nat) ^ 52" using bd by simp
  also have "\<dots> = 2 ^ (bits d + 52)" by (simp only: power_add)
  also have "bits d + 52 = (bits n - 1) + k0" using k0(2) bn by simp
  also have "(2::nat) ^ ((bits n - 1) + k0) = 2 ^ (bits n - 1) * 2 ^ k0" by (simp only: power_add)
  also have "\<dots> \<le> n * 2 ^ k0" using bn by simp
  finally have lo0: "2 ^ 52 \<le> n * 2 ^ k0 div d" using assms(2) by (simp add: less_eq_div_iff_mult_less_eq mult.commute)
  have dbl: "2 * (n * 2 ^ (k0 - 1)) = n * 2 ^ k0" using k0(1) by (metis Suc_diff_1 mult.left_commute power_Suc)
  have lo: "2 ^ 52 \<le> n * 2 ^ k div d"
  proof (cases "2 ^ 53 \<le> n * 2 ^ k0 div d")
    case True
    then have "2 ^ 53 * d \<le> n * 2 ^ k0" using assms(2) by (simp add: less_eq_div_iff_mult_less_eq)
    moreover have "(2::nat) ^ 53 * d = 2 * (2 ^ 52 * d)" by simp
    ultimately have "2 ^ 52 * d \<le> n * 2 ^ (k0 - 1)" using dbl by linarith
    then show ?thesis using True k assms(2) by (simp add: less_eq_div_iff_mult_less_eq)
  next
    case False
    then show ?thesis using k lo0 by simp
  qed
  then show m52: "2 ^ 52 \<le> m" using round_half_even_error(2) [OF assms(2)] m le_trans by blast
  have "2 ^ 52 * d \<le> n * 2 ^ k" using lo assms(2) by (simp add: less_eq_div_iff_mult_less_eq)
  then have "real (2 ^ 52 * d) \<le> real (n * 2 ^ k)" by (rule of_nat_mono)
  then have "2 ^ 52 * real d \<le> real n * 2 ^ k" by simp
  then have small: "1 / 2 / 2 ^ k \<le> (real n / real d) / 2 ^ 53"
    using assms(2) by (simp add: field_simps)
  have "\<bar>real m - real n * 2 ^ k / real d\<bar> \<le> 1 / 2"
    using round_half_even_error(1) [OF assms(2), of "n * 2 ^ k"] m by simp
  then have "\<bar>real m - real n * 2 ^ k / real d\<bar> / 2 ^ k \<le> 1 / 2 / 2 ^ k"
    by (intro divide_right_mono) auto
  moreover have "\<bar>real m - real n * 2 ^ k / real d\<bar> / 2 ^ k = \<bar>real m / 2 ^ k - real n / real d\<bar>"
  proof -
    have "real m / 2 ^ k - real n / real d = (real m - real n * 2 ^ k / real d) / 2 ^ k"
      by (simp add: diff_divide_distrib)
    then show ?thesis by simp
  qed
  ultimately show "\<bar>real m / 2 ^ k - real n / real d\<bar> \<le> (real n / real d) / 2 ^ 53"
    using small by linarith
qed

text \<open>A value close enough to a quotient with a small denominator truncates to the same integer.\<close>

lemma trunc_close:
  assumes "0 < d" "\<bar>real m / 2 ^ k - real n / real d\<bar> < 1 / real d" "n mod d \<noteq> 0"
  shows "m div 2 ^ k = n div d"
proof -
  define q where "q = n div d"
  define r where "r = n mod d"
  have n: "n = q * d + r" "1 \<le> r" "r + 1 \<le> d" using assms by (auto simp: q_def r_def Suc_le_eq)
  have "real n / real d = real q + real r / real d" using n(1) assms(1) by (simp add: field_simps)
  moreover have "1 / real d \<le> real r / real d" using n(2) assms(1) by (intro divide_right_mono) auto
  moreover have "real r / real d + 1 / real d \<le> 1"
  proof -
    have "real r + 1 \<le> real d" using n(3) by linarith
    then show ?thesis using assms(1) by (simp add: field_simps)
  qed
  ultimately have "real q < real m / 2 ^ k" "real m / 2 ^ k < real q + 1" using assms(2) by linarith+
  then have "real q * 2 ^ k < real m" "real m < (real q + 1) * 2 ^ k" by (simp_all add: field_simps)
  then have "real (q * 2 ^ k) < real m" "real m < real ((q + 1) * 2 ^ k)" by (simp_all add: algebra_simps)
  then have "q * 2 ^ k < m" "m < (q + 1) * 2 ^ k" by (simp_all only: of_nat_less_iff)
  then have "m div 2 ^ k = q" by (intro div_nat_eqI) (auto simp: algebra_simps)
  then show ?thesis by (simp add: q_def)
qed

section \<open>The two periods\<close>

text \<open>Evaluation on numerals.\<close>

lemma bits_num:
  "bits (numeral w) = Suc (bits (numeral w div 2))"
  "bits (Suc 0) = 1" "bits 1 = 1" "bits 0 = 0"
  by (simp_all add: bits.simps [of "numeral w"] bits.simps [of "Suc 0"] bits.simps [of 0])

lemmas fl_round_num =
  fl_round_def [of "numeral a" "numeral b" for a b]
  fl_round_def [of "Suc 0" "numeral b" for b]
  fl_round_def [of "numeral a" "Suc 0" for a]
  fl_round_def [of "Suc 0" "Suc 0"]

lemmas round_num =
  round_half_even_def [of "numeral a" "numeral b" for a b]
  round_half_even_def [of "numeral a" "Suc 0" for a]

lemmas eval_double = micros_per_item_def micros_per_notify_def trunc_double_def
  fl_round_num round_num bits_num Let_def

text \<open>
  The divisors of one million are the case where a rounding error downwards would show: the
  exact quotient is an integer.  They are evaluated, by the power of 5 they contain.
\<close>

lemma notify_exact_5_0:
  "f \<in> {1, 2, 4, 8, 16, 32, 64} \<Longrightarrow> micros_per_notify f = 1000000 div f"
  by (elim insertE emptyE) (simp_all add: eval_double)

lemma notify_exact_5_1:
  "f \<in> {5, 10, 20, 40, 80, 160, 320} \<Longrightarrow> micros_per_notify f = 1000000 div f"
  by (elim insertE emptyE) (simp_all add: eval_double)

lemma notify_exact_5_2:
  "f \<in> {25, 50, 100, 200, 400, 800, 1600} \<Longrightarrow> micros_per_notify f = 1000000 div f"
  by (elim insertE emptyE) (simp_all add: eval_double)

lemma notify_exact_5_3:
  "f \<in> {125, 250, 500, 1000, 2000, 4000, 8000} \<Longrightarrow> micros_per_notify f = 1000000 div f"
  by (elim insertE emptyE) (simp_all add: eval_double)

lemma notify_exact_5_4:
  "f \<in> {625, 1250, 2500, 5000, 10000, 20000, 40000} \<Longrightarrow> micros_per_notify f = 1000000 div f"
  by (elim insertE emptyE) (simp_all add: eval_double)

lemma notify_exact_5_5:
  "f \<in> {3125, 6250, 12500, 25000, 50000, 100000, 200000} \<Longrightarrow> micros_per_notify f = 1000000 div f"
  by (elim insertE emptyE) (simp_all add: eval_double)

lemma notify_exact_5_6:
  "f \<in> {15625, 31250, 62500, 125000, 250000, 500000, 1000000} \<Longrightarrow> micros_per_notify f = 1000000 div f"
  by (elim insertE emptyE) (simp_all add: eval_double)

lemma dvd_small_power:
  fixes p y :: nat
  assumes "\<And>d. d dvd p \<Longrightarrow> d = 1 \<or> d = p" "y dvd p ^ n" "0 < p"
  shows "\<exists>a\<le>n. y = p ^ a"
  using assms(2)
proof (induction n arbitrary: y)
  case 0
  then show ?case by simp
next
  case (Suc n)
  show ?case
  proof (cases "p dvd y")
    case True
    then obtain z where z: "y = p * z" by blast
    with Suc.prems assms(3) have "z dvd p ^ n" by simp
    with Suc.IH obtain a where "a \<le> n" "z = p ^ a" by blast
    with z show ?thesis by (intro exI [of _ "Suc a"]) simp
  next
    case False
    have "gcd y p = 1 \<or> gcd y p = p" by (rule assms(1)) simp
    with False have "coprime y p" by (metis coprime_iff_gcd_eq_1 gcd_dvd1)
    then have "coprime y (p ^ Suc n)" by simp
    with Suc.prems have "y = 1" by (metis coprime_common_divisor_nat dvd_refl)
    then show ?thesis by (intro exI [of _ 0]) simp
  qed
qed

lemma dvd_2_5: "d dvd 2 \<Longrightarrow> d = 1 \<or> d = (2::nat)" "d dvd 5 \<Longrightarrow> d = 1 \<or> d = (5::nat)"
proof -
  assume "d dvd 2"
  then have "d \<le> 2" by (auto dest: dvd_imp_le)
  with \<open>d dvd 2\<close> show "d = 1 \<or> d = (2::nat)" by (cases "d = 0") auto
next
  assume d: "d dvd 5"
  then have "d \<le> 5" by (auto dest: dvd_imp_le)
  then have "d = 0 \<or> d = 1 \<or> d = 2 \<or> d = 3 \<or> d = 4 \<or> d = 5" by linarith
  with d show "d = 1 \<or> d = (5::nat)" by auto
qed

lemma million_dvd: "f dvd (1000000::nat) \<Longrightarrow> \<exists>a\<le>6. \<exists>b\<le>(6::nat). f = 2 ^ a * 5 ^ b"
proof -
  assume f: "f dvd 1000000"
  have "(1000000::nat) = 2 ^ 6 * 5 ^ 6" by simp
  with f have "f dvd 2 ^ 6 * 5 ^ 6" by metis
  then obtain x y where xy: "f = x * y" "x dvd 2 ^ 6" "y dvd 5 ^ 6"
    by (rule dvd_productE)
  from dvd_small_power [OF dvd_2_5(1) xy(2)] dvd_small_power [OF dvd_2_5(2) xy(3)] xy(1)
  show ?thesis by auto
qed

lemma le6: "(a::nat) \<le> 6 \<Longrightarrow> a = 0 \<or> a = 1 \<or> a = 2 \<or> a = 3 \<or> a = 4 \<or> a = 5 \<or> a = 6"
  by linarith

lemma notify_exact_divisor: "f dvd 1000000 \<Longrightarrow> micros_per_notify f = 1000000 div f"
proof -
  assume "f dvd 1000000"
  then obtain a b where ab: "a \<le> 6" "b \<le> 6" "f = 2 ^ a * 5 ^ b" using million_dvd by blast
  have "f \<in> {5 ^ b, 2 * 5 ^ b, 4 * 5 ^ b, 8 * 5 ^ b, 16 * 5 ^ b, 32 * 5 ^ b, 64 * 5 ^ b}"
    using le6 [OF ab(1)] ab(3) by auto
  then show ?thesis
    using le6 [OF ab(2)] notify_exact_5_0 notify_exact_5_1 notify_exact_5_2 notify_exact_5_3
      notify_exact_5_4 notify_exact_5_5 notify_exact_5_6
    by (elim disjE) simp_all
qed

lemma bits_int_bound: "0 < f \<Longrightarrow> 1 \<le> bits f"
  using bits_bounds [of f] by simp

lemma pow52: "(1000000::real) / 2 ^ 53 < 1" "(2::real) ^ 53 = 9007199254740992"
  by simp_all

lemma micros_per_item_div:
  assumes "0 < speed"
  shows "micros_per_item speed = 1000000 div speed"
proof -
  obtain m k where mk: "fl_round 1000000 speed = (m, k)" by (cases "fl_round 1000000 speed")
  have err: "\<bar>real m / 2 ^ k - real 1000000 / real speed\<bar> \<le> (real 1000000 / real speed) / 2 ^ 53"
    by (rule fl_round_spec(1) [OF _ assms _ mk]) (use bits_int_bound [OF assms] in \<open>simp_all add: bits_num\<close>)
  show ?thesis
  proof (cases "1000000 mod speed = 0")
    case False
    have "(real 1000000 / real speed) / 2 ^ 53 < 1 / real speed"
      using assms by (simp add: field_simps)
    with err have "\<bar>real m / 2 ^ k - real 1000000 / real speed\<bar> < 1 / real speed" by linarith
    then have "m div 2 ^ k = 1000000 div speed" by (rule trunc_close [OF assms _ False])
    then show ?thesis using mk by (simp add: micros_per_item_def trunc_double_def)
  next
    case True
    then obtain q where q: "1000000 = speed * q" by (metis mod_0_imp_dvd dvdE)
    have "m = round_half_even (1000000 * 2 ^ k) speed"
      using mk by (auto simp: fl_round_def Let_def)
    also have "\<dots> = q * 2 ^ k"
      using assms by (simp add: q round_half_even_def Let_def)
    finally have "micros_per_item speed = q" using mk by (simp add: micros_per_item_def trunc_double_def)
    moreover have "1000000 div speed = q" using q assms by (metis nonzero_mult_div_cancel_left less_not_refl2)
    ultimately show ?thesis by simp
  qed
qed

lemma micros_per_notify_div:
  assumes "0 < freq"
  shows "micros_per_notify freq = 1000000 div freq"
proof (cases "1000000 mod freq = 0")
  case True
  then show ?thesis by (intro notify_exact_divisor) auto
next
  case False
  obtain m k where mk: "fl_round 1 freq = (m, k)" by (cases "fl_round 1 freq")
  obtain m2 k2 where mk2: "fl_round (m * 1000000) (2 ^ k) = (m2, k2)" by (cases "fl_round (m * 1000000) (2 ^ k)")
  define x where "x = 1 / real freq"
  define y where "y = real m / 2 ^ k"
  define z where "z = real m2 / 2 ^ k2"
  have x: "0 < x" using assms by (simp add: x_def)
  have yx: "\<bar>y - x\<bar> \<le> x / 2 ^ 53" and m52: "2 ^ 52 \<le> m"
    using fl_round_spec [OF _ assms(1) _ mk] by (auto simp: bits_num y_def x_def)
  have "x \<le> 1" using assms by (simp add: x_def)
  have "y - x \<le> x / 2 ^ 53" using yx by (simp only: abs_le_iff)
  moreover have "x / 2 ^ 53 \<le> x" using x by simp
  ultimately have "y \<le> 2" using \<open>x \<le> 1\<close> by linarith
  then have "real m \<le> real (2 * 2 ^ k)" by (simp add: y_def field_simps)
  then have "m \<le> 2 * 2 ^ k" by (simp only: of_nat_le_iff)
  moreover have "(0::nat) < 2 ^ k" by simp
  ultimately have "m * 1000000 < 2097152 * 2 ^ k" by linarith
  then have "m * 1000000 < 2 ^ (k + 21)" by (simp add: power_add)
  then have "bits (m * 1000000) \<le> 52 + bits (2 ^ k)"
    using bits_mono_bound [of "m * 1000000" "k + 21"] by (simp add: bits_power)
  then have "\<bar>z - real (m * 1000000) / real (2 ^ k)\<bar> \<le> (real (m * 1000000) / real (2 ^ k)) / 2 ^ 53"
    using fl_round_spec(1) [OF _ _ _ mk2] m52 by (simp add: z_def)
  then have "\<bar>z - 1000000 * y\<bar> \<le> 1000000 * y / 2 ^ 53" by (simp add: y_def mult.commute)
  then have "z - 1000000 * y \<le> 1000000 * y / 2 ^ 53" "1000000 * y - z \<le> 1000000 * y / 2 ^ 53"
    by (simp_all only: abs_le_iff minus_diff_eq)
  moreover have "y - x \<le> x / 2 ^ 53" "x - y \<le> x / 2 ^ 53"
    using yx by (simp_all only: abs_le_iff minus_diff_eq)
  moreover have "x / 2 ^ 53 = x / 9007199254740992" "1000000 * y / 2 ^ 53 = 1000000 * y / 9007199254740992"
    by simp_all
  ultimately have "z - 1000000 * x < x" "1000000 * x - z < x" using x by linarith+
  then have "\<bar>z - 1000000 * x\<bar> < x" by linarith
  then have "\<bar>real m2 / 2 ^ k2 - real 1000000 / real freq\<bar> < 1 / real freq"
    by (simp add: z_def x_def)
  then have "m2 div 2 ^ k2 = 1000000 div freq" by (rule trunc_close [OF assms(1) _ False])
  then show ?thesis using mk mk2 by (simp add: micros_per_notify_def trunc_double_def)
qed

section \<open>Properties\<close>

text \<open>
  C11: the two floating point periods are the integer quotients: for every positive rate the
  rounded double, truncated, is the number of whole microseconds in one period, so the two
  formulas agree and no rounding error ever reaches the timers.
\<close>

theorem periods_exact:
  assumes "0 < rate"
  shows "micros_per_item rate = 1000000 div rate \<and> micros_per_notify rate = 1000000 div rate"
  using micros_per_item_div [OF assms] micros_per_notify_div [OF assms] by simp

theorem periods_exact_witness:
  "micros_per_item 351 = 2849 \<and> micros_per_notify 351 = 2849"
  using periods_exact [of 351] by simp

end
