(* ===== verification/OscState.thy ===== *)
theory OscState imports Times Observers Doubles begin

text \<open>
  The data of the program proper, \<open>osc_data_process/\<close>: the produced data
  (\<open>factory_data.h\<close>), the fields of \<open>Factory\<close> (\<open>factory.h\<close>), of
  \<open>ObserverCrossThread\<close> with its subclasses \<open>FactoryHost\<close> and \<open>FreqFactoryHost\<close>
  (\<open>observer_cross_thread.h\<close>, \<open>factory_host.h\<close>, \<open>freq_factory_host.h\<close>), and of
  their stubs on the factory thread.  Objects live in heaps indexed by address; a deleted
  object is absent.  The message loops of the threads appear as their task runners: per
  thread a FIFO of closures and the delayed closures with their due time.  A closure is a
  \<open>base::Bind\<close> of the program, one constructor per bound function.
\<close>

type_synonym tid = nat  \<comment> \<open>a thread, that is the task runner of its message loop\<close>
type_synonym fid = nat  \<comment> \<open>address of a \<open>Factory\<close>\<close>
type_synonym hid = nat  \<comment> \<open>address of an \<open>ObserverCrossThread\<close>\<close>
type_synonym sid = nat  \<comment> \<open>address of a \<open>Stub\<close>\<close>

section \<open>FactoryData\<close>

record factory_data =
  fd_data :: "char list"
  fd_id :: int

definition new_FactoryData :: factory_data where
  "new_FactoryData = \<lparr>fd_data = [], fd_id = 0\<rparr>"

definition set_data :: "char list \<Rightarrow> factory_data \<Rightarrow> factory_data" where
  "set_data data d = d\<lparr>fd_data := data\<rparr>"

definition set_id :: "int \<Rightarrow> factory_data \<Rightarrow> factory_data" where
  "set_id i d = d\<lparr>fd_id := i\<rparr>"

section \<open>Factories, stubs, hosts\<close>

text \<open>
  The observers of a factory: the program's stubs, and other \<open>FactoryObserver\<close>s, of which
  only the number of calls is kept (\<open>TestFactoryObserver\<close> of the unit test).
\<close>

datatype observer = StubObs sid | ExtObs nat

record factory =
  f_start :: bool
  f_speed :: int
  f_last_ticks :: time_ticks
  f_thread :: tid
  f_data :: factory_data
  f_observers :: "observer olist"
  f_weak_gen :: nat  \<comment> \<open>number of \<open>InvalidateWeakPtrs\<close> so far: the weak pointers of another number are NULL\<close>

datatype stub_kind =
    FactoryStub
  | FreqFactoryHostStub int time  \<comment> \<open>\<open>freq_\<close>, \<open>last_notify_time_\<close>\<close>

record stub =
  st_observer :: hid
  st_factory :: "fid ptr"
  st_kind :: stub_kind

record host =
  h_stub :: "sid ptr"
  h_task_thread :: tid
  h_host_thread :: tid
  h_init :: bool
  h_destroy :: bool
  h_data :: "factory_data ptr"
  h_receive :: int
  h_destroy_time :: int
  h_factory_destroy :: int
  h_init_freq :: "int option"  \<comment> \<open>\<open>Some f\<close>: a \<open>FreqFactoryHost\<close> with \<open>init_freq_ = f\<close>\<close>

section \<open>Closures and task runners\<close>

datatype closure =
    BindSchedule fid nat          \<comment> \<open>\<open>Bind(&Factory::Schedule, weak_factory_.GetWeakPtr())\<close>\<close>
  | BindPostInit hid
  | BindReplyInit hid
  | BindPostDestroy hid
  | BindReplyDestroy hid
  | BindHostData hid factory_data \<comment> \<open>\<open>Bind(&FactoryHost::OnDataProduced, AsFactoryHost(), data)\<close>\<close>
  | BindHostFactoryDestroy hid
  | BindRelayRun closure closure tid \<comment> \<open>\<open>PostTaskAndReplyRelay::Run\<close>: task, reply, origin loop\<close>
  | BindRelayReply closure           \<comment> \<open>\<open>PostTaskAndReplyRelay::RunReplyAndSelfDestruct\<close>\<close>

record sys =
  factories :: "fid \<Rightarrow> factory option"
  stubs :: "sid \<Rightarrow> stub option"
  hosts :: "hid \<Rightarrow> host option"
  g_factory :: "fid ptr"
  produce_id :: int  \<comment> \<open>\<open>static int id\<close> of \<open>Factory::Produce\<close>, a 32-bit \<open>int\<close>: see \<open>int32_succ\<close>\<close>
  next_addr :: nat   \<comment> \<open>the allocator: addresses from here on are unused\<close>
  queue :: "tid \<Rightarrow> closure list"
  delayed :: "tid \<Rightarrow> (time_ticks \<times> closure) list"
  ext_count :: "nat \<Rightarrow> int"
  now_ticks :: time_ticks
  now_time :: time

text \<open>
  \<open>++id\<close> on a 32-bit \<open>int\<close>.  Past the largest value C++ leaves it undefined; the model has
  what the compilers of the program do, the wrap to the smallest.  The counters of a host
  (\<open>h_receive\<close>, \<open>h_destroy_time\<close>, \<open>h_factory_destroy\<close>, also \<open>int\<close>) advance at most once per
  production or per call of the client and are kept unbounded.
\<close>

definition int32_succ :: "int \<Rightarrow> int" where
  "int32_succ i = (if i = 2 ^ 31 - 1 then - (2 ^ 31) else i + 1)"

lemma int32_succ_below [simp]: "i < 2 ^ 31 - 1 \<Longrightarrow> int32_succ i = i + 1"
  by (simp add: int32_succ_def)

definition init_sys :: sys where
  "init_sys = \<lparr>factories = (\<lambda>_. None), stubs = (\<lambda>_. None), hosts = (\<lambda>_. None),
     g_factory = None, produce_id = 0, next_addr = 0, queue = (\<lambda>_. []), delayed = (\<lambda>_. []),
     ext_count = (\<lambda>_. 0), now_ticks = TimeTicks 1, now_time = Time 1\<rparr>"

definition PostTask :: "tid \<Rightarrow> closure \<Rightarrow> sys \<Rightarrow> sys" where
  "PostTask t c s = s\<lparr>queue := (queue s)(t := queue s t @ [c])\<rparr>"

text \<open>A delay that is not positive gives a null run time: an immediate task (\<open>CalculateDelayedRuntime\<close>).\<close>

definition PostDelayedTask :: "tid \<Rightarrow> closure \<Rightarrow> time_delta \<Rightarrow> sys \<Rightarrow> sys" where
  "PostDelayedTask t c delay s =
     (if TimeDelta 0 < delay
      then s\<lparr>delayed := (delayed s)(t := delayed s t @ [(ticks_plus (now_ticks s) delay, c)])\<rparr>
      else PostTask t c s)"

text \<open>\<open>TaskRunner::PostTaskAndReply\<close>: the relay remembers the loop \<open>cur\<close> it is created on.\<close>

definition PostTaskAndReply :: "tid \<Rightarrow> tid \<Rightarrow> closure \<Rightarrow> closure \<Rightarrow> sys \<Rightarrow> sys" where
  "PostTaskAndReply cur t task reply s = PostTask t (BindRelayRun task reply cur) s"

section \<open>Heap access\<close>

definition get_factory :: "fid \<Rightarrow> sys \<Rightarrow> factory res" where
  "get_factory f s = (case factories s f of None \<Rightarrow> Inl (UseAfterFree ''Factory'') | Some x \<Rightarrow> Inr x)"

definition get_stub :: "sid \<Rightarrow> sys \<Rightarrow> stub res" where
  "get_stub i s = (case stubs s i of None \<Rightarrow> Inl (UseAfterFree ''Stub'') | Some x \<Rightarrow> Inr x)"

definition get_host :: "hid \<Rightarrow> sys \<Rightarrow> host res" where
  "get_host h s = (case hosts s h of None \<Rightarrow> Inl (UseAfterFree ''ObserverCrossThread'') | Some x \<Rightarrow> Inr x)"

definition put_factory :: "fid \<Rightarrow> factory \<Rightarrow> sys \<Rightarrow> sys" where
  "put_factory f x s = s\<lparr>factories := (factories s)(f \<mapsto> x)\<rparr>"

definition put_stub :: "sid \<Rightarrow> stub \<Rightarrow> sys \<Rightarrow> sys" where
  "put_stub i x s = s\<lparr>stubs := (stubs s)(i \<mapsto> x)\<rparr>"

definition put_host :: "hid \<Rightarrow> host \<Rightarrow> sys \<Rightarrow> sys" where
  "put_host h x s = s\<lparr>hosts := (hosts s)(h \<mapsto> x)\<rparr>"

text \<open>The observer list of a factory, as the notification macro reads and writes it.\<close>

definition observers_of :: "fid \<Rightarrow> sys \<Rightarrow> observer olist option" where
  "observers_of f s = map_option f_observers (factories s f)"

definition put_observers :: "fid \<Rightarrow> observer olist \<Rightarrow> sys \<Rightarrow> sys" where
  "put_observers f l s =
     (case factories s f of None \<Rightarrow> s | Some x \<Rightarrow> put_factory f (x\<lparr>f_observers := l\<rparr>) s)"

section \<open>Rendering of the id: StringPrintf("Data id:%d.", id)\<close>

fun digits_of :: "nat \<Rightarrow> string" where
  "digits_of n =
     (if n < 10 then [char_of (48 + n)] else digits_of (n div 10) @ [char_of (48 + n mod 10)])"

declare digits_of.simps [simp del]

definition print_int :: "int \<Rightarrow> string" where
  "print_int i = (if i < 0 then CHR ''-'' # digits_of (nat (- i)) else digits_of (nat i))"

definition data_string :: "int \<Rightarrow> string" where
  "data_string i = ''Data id:'' @ print_int i @ ''.''"

end
