(* ===== verification/CrossThread.thy ===== *)
theory CrossThread imports OscState begin

text \<open>
  \<open>osc_data_process/observer_cross_thread.cc\<close>, \<open>factory_host.cc\<close> and
  \<open>freq_factory_host.cc\<close>: the handshake that creates a stub on the factory (task) thread
  and destroys it, from the host's side and from the factory's side, and the callbacks that
  carry produced data to the host thread.  One definition per C++ function; virtual calls
  are resolved by the kind of the object.
\<close>

section \<open>Factory's observer registration (used by the stubs)\<close>

definition Factory_AddObserver :: "fid \<Rightarrow> observer \<Rightarrow> sys \<Rightarrow> sys res" where
  "Factory_AddObserver f obs s =
     bindR (get_factory f s) (\<lambda>x.
     bindR (AddObserver (Some obs) (f_observers x)) (\<lambda>l.
       Inr (put_factory f (x\<lparr>f_observers := l\<rparr>) s)))"

definition Factory_RemoveObserver :: "fid \<Rightarrow> observer \<Rightarrow> sys \<Rightarrow> sys res" where
  "Factory_RemoveObserver f obs s =
     bindR (get_factory f s) (\<lambda>x.
       Inr (put_factory f (x\<lparr>f_observers := RemoveObserver (Some obs) (f_observers x)\<rparr>) s))"

definition Factory_HasObserver :: "fid \<Rightarrow> observer \<Rightarrow> sys \<Rightarrow> bool res" where
  "Factory_HasObserver f obs s =
     bindR (get_factory f s) (\<lambda>x. Inr (HasObserver (Some obs) (f_observers x)))"

definition GetFactory :: "sys \<Rightarrow> fid res" where
  "GetFactory s =
     (case g_factory s of None \<Rightarrow> Inl (DcheckFailed ''need create Factory first.'') | Some f \<Rightarrow> Inr f)"

definition GetLastData :: "fid \<Rightarrow> sys \<Rightarrow> factory_data res" where
  "GetLastData f s = bindR (get_factory f s) (\<lambda>x. Inr (f_data x))"

section \<open>Stubs: construction and destruction\<close>

text \<open>
  \<open>new FactoryStub(factory, host)\<close> (also the base of \<open>FreqFactoryHostStub\<close>): takes the
  last data over to the host and registers with the factory.
\<close>

definition new_FactoryStub :: "stub_kind \<Rightarrow> fid \<Rightarrow> hid \<Rightarrow> sys \<Rightarrow> (sid \<times> sys) res" where
  "new_FactoryStub kind f h s =
     bindR (GetLastData f s) (\<lambda>data.
     bindR (get_host h s) (\<lambda>x.
       let i = next_addr s;
           s1 = put_stub i \<lparr>st_observer = h, st_factory = Some f, st_kind = kind\<rparr> (s\<lparr>next_addr := Suc i\<rparr>);
           s2 = put_host h (x\<lparr>h_data := Some data\<rparr>) s1
       in bindR (Factory_AddObserver f (StubObs i) s2) (\<lambda>s3. Inr (i, s3))))"

text \<open>\<open>delete stub_\<close>: the virtual destructor \<open>~FactoryStub\<close>.\<close>

definition delete_stub :: "sid \<Rightarrow> sys \<Rightarrow> sys res" where
  "delete_stub i s =
     bindR (get_stub i s) (\<lambda>x.
       let freed = (\<lambda>s'. Inr (s'\<lparr>stubs := (stubs s')(i := None)\<rparr>)) in
       case st_factory x of
         None \<Rightarrow> freed s
       | Some f \<Rightarrow>
           bindR (Factory_HasObserver f (StubObs i) s) (\<lambda>has.
             if has then bindR (Factory_RemoveObserver f (StubObs i) s) freed else freed s))"

section \<open>ObserverCrossThread\<close>

text \<open>\<open>CreateStub\<close>, virtual: \<open>FactoryHost\<close> or \<open>FreqFactoryHost\<close> (whose stub gets its frequency by \<open>set_freq\<close>).\<close>

definition CreateStub :: "hid \<Rightarrow> sys \<Rightarrow> (sid \<times> sys) res" where
  "CreateStub h s =
     bindR (get_host h s) (\<lambda>x.
     bindR (GetFactory s) (\<lambda>f.
       case h_init_freq x of
         None \<Rightarrow> new_FactoryStub FactoryStub f h s
       | Some freq \<Rightarrow> new_FactoryStub (FreqFactoryHostStub freq (Time 0)) f h s))"

definition new_host :: "tid \<Rightarrow> tid \<Rightarrow> int option \<Rightarrow> sys \<Rightarrow> (hid \<times> sys) res" where
  "new_host task_thread host_thread init_freq s =
     bindR (case init_freq of None \<Rightarrow> Inr () | Some freq \<Rightarrow> dcheck (0 < freq) ''freq > 0'') (\<lambda>_.
       let h = next_addr s in
       Inr (h, put_host h \<lparr>h_stub = None, h_task_thread = task_thread, h_host_thread = host_thread,
           h_init = False, h_destroy = False, h_data = None, h_receive = 0, h_destroy_time = 0,
           h_factory_destroy = 0, h_init_freq = init_freq\<rparr> (s\<lparr>next_addr := Suc h\<rparr>)))"

definition Init :: "tid \<Rightarrow> hid \<Rightarrow> sys \<Rightarrow> sys res" where
  "Init cur h s =
     bindR (get_host h s) (\<lambda>x.
     bindR (dcheck (\<not> h_init x) ''call init more then once.'') (\<lambda>_.
       Inr (PostTaskAndReply cur (h_task_thread x) (BindPostInit h) (BindReplyInit h) s)))"

definition PostInit :: "hid \<Rightarrow> sys \<Rightarrow> sys res" where
  "PostInit h s =
     bindR (get_host h s) (\<lambda>x.
     bindR (dcheck (h_stub x = None) ''call init more then once.'') (\<lambda>_.
     bindR (CreateStub h s) (\<lambda>(i, s1).
     bindR (get_host h s1) (\<lambda>x1.
       Inr (put_host h (x1\<lparr>h_stub := Some i\<rparr>) s1)))))"

text \<open>\<open>OnInit\<close> is empty in every class of the program.\<close>

definition ReplyInit :: "hid \<Rightarrow> sys \<Rightarrow> sys res" where
  "ReplyInit h s =
     bindR (get_host h s) (\<lambda>x.
     bindR (dcheck (\<not> h_destroy x) ''destroy before init. very bad happen'') (\<lambda>_.
       Inr (put_host h (x\<lparr>h_init := True\<rparr>) s)))"

definition Destroy :: "tid \<Rightarrow> hid \<Rightarrow> sys \<Rightarrow> sys res" where
  "Destroy cur h s =
     bindR (get_host h s) (\<lambda>x.
     bindR (dcheck (h_init x \<and> \<not> h_destroy x) ''Destroy before Init or call Destroy more then once.'') (\<lambda>_.
       Inr (PostTaskAndReply cur (h_task_thread x) (BindPostDestroy h) (BindReplyDestroy h) s)))"

definition PostDestroy :: "hid \<Rightarrow> sys \<Rightarrow> sys res" where
  "PostDestroy h s =
     bindR (get_host h s) (\<lambda>x.
       case h_stub x of
         None \<Rightarrow> Inl (DcheckFailed ''no create stub before.'')
       | Some i \<Rightarrow>
           bindR (delete_stub i s) (\<lambda>s1.
           bindR (get_host h s1) (\<lambda>x1.
             Inr (put_host h (x1\<lparr>h_stub := None\<rparr>) s1))))"

definition OnDestroy :: "host \<Rightarrow> host" where
  "OnDestroy x = x\<lparr>h_destroy_time := h_destroy_time x + 1\<rparr>"

definition ReplyDestroy :: "hid \<Rightarrow> sys \<Rightarrow> sys res" where
  "ReplyDestroy h s =
     bindR (get_host h s) (\<lambda>x. Inr (put_host h (OnDestroy (x\<lparr>h_destroy := True\<rparr>)) s))"

text \<open>The destructor's check, for the deletion by the last reference.\<close>

definition host_destructor_check :: "host \<Rightarrow> unit res" where
  "host_destructor_check x =
     dcheck ((h_init x \<and> h_destroy x) \<or> (\<not> h_init x \<and> \<not> h_destroy x)) ''~ObserverCrossThread''"

definition set_task_thread :: "tid \<Rightarrow> host \<Rightarrow> host res" where
  "set_task_thread t x =
     bindR (dcheck (\<not> h_init x) ''can no set the task thread after init.'') (\<lambda>_. Inr (x\<lparr>h_task_thread := t\<rparr>))"

definition set_host_thread :: "tid \<Rightarrow> host \<Rightarrow> host res" where
  "set_host_thread t x =
     bindR (dcheck (\<not> h_init x) ''can no set the host thread after init.'') (\<lambda>_. Inr (x\<lparr>h_host_thread := t\<rparr>))"

text \<open>
  \<open>Stub::Destroy\<close>: the stub has the host delete it, on the factory thread, then replies to the host thread.  The
  local \<open>scoped_refptr\<close> keeps the host alive until the reply holds it; its release at the end of the call follows the
  posting in the same step, so that the reply's reference always outlasts it there.  (That another thread could run
  the reply before this release, and the last reference then go on the factory thread, is not a step of its own.)
\<close>

definition Stub_Destroy :: "sid \<Rightarrow> sys \<Rightarrow> sys res" where
  "Stub_Destroy i s =
     bindR (get_stub i s) (\<lambda>x.
     bindR (get_host (st_observer x) s) (\<lambda>o'.
       let h = st_observer x; host = h_host_thread o' in
       bindR (PostDestroy h s) (\<lambda>s1.
         Inr (PostTask host (BindReplyDestroy h) s1))))"

section \<open>FactoryHost: what arrives on the host thread\<close>

definition Host_OnDataProduced :: "hid \<Rightarrow> factory_data \<Rightarrow> sys \<Rightarrow> sys res" where
  "Host_OnDataProduced h data s =
     bindR (get_host h s) (\<lambda>x.
       Inr (put_host h (x\<lparr>h_data := Some data, h_receive := h_receive x + 1\<rparr>) s))"

definition Host_OnFactoryDestory :: "hid \<Rightarrow> sys \<Rightarrow> sys res" where
  "Host_OnFactoryDestory h s =
     bindR (get_host h s) (\<lambda>x.
       Inr (put_host h (x\<lparr>h_factory_destroy := h_factory_destroy x + 1\<rparr>) s))"

section \<open>FactoryStub and FreqFactoryHostStub: callbacks on the factory thread\<close>

definition FactoryStub_OnDataProduced :: "sid \<Rightarrow> factory_data \<Rightarrow> sys \<Rightarrow> sys res" where
  "FactoryStub_OnDataProduced i data s =
     bindR (get_stub i s) (\<lambda>x.
     bindR (get_host (st_observer x) s) (\<lambda>o'.
       Inr (PostTask (h_host_thread o') (BindHostData (st_observer x) data) s)))"

text \<open>
  The decision of the frequency limiter: given the frequency, the clock and the time of the
  last notification, whether to notify and the new time.
\<close>

definition freq_decide :: "int \<Rightarrow> time \<Rightarrow> time \<Rightarrow> bool \<times> time" where
  "freq_decide freq now last_notify_time =
     (if time_is_null last_notify_time then (True, now)
      else
        (let micro_second = int (micros_per_notify (nat freq));
             delta = FromMicroseconds micro_second
         in if time_plus last_notify_time delta \<le> now
            then (True, time_plus last_notify_time delta)
            else (False, last_notify_time)))"

definition FreqStub_OnDataProduced :: "sid \<Rightarrow> factory_data \<Rightarrow> sys \<Rightarrow> sys res" where
  "FreqStub_OnDataProduced i data s =
     bindR (get_stub i s) (\<lambda>x.
       case st_kind x of
         FactoryStub \<Rightarrow> FactoryStub_OnDataProduced i data s
       | FreqFactoryHostStub freq last_notify \<Rightarrow>
           (let (notify, last_notify') = freq_decide freq (now_time s) last_notify;
                s1 = put_stub i (x\<lparr>st_kind := FreqFactoryHostStub freq last_notify'\<rparr>) s
            in if notify then FactoryStub_OnDataProduced i data s1 else Inr s1))"

definition FactoryStub_OnFactoryDestroy :: "sid \<Rightarrow> sys \<Rightarrow> sys res" where
  "FactoryStub_OnFactoryDestroy i s =
     bindR (get_stub i s) (\<lambda>x.
       case st_factory x of
         None \<Rightarrow> Inl (NullDeref ''factory_'')
       | Some f \<Rightarrow>
           bindR (Factory_RemoveObserver f (StubObs i) s) (\<lambda>s1.
           bindR (get_host (st_observer x) s1) (\<lambda>o'.
             Stub_Destroy i
               (PostTask (h_host_thread o') (BindHostFactoryDestroy (st_observer x))
                 (put_stub i (x\<lparr>st_factory := None\<rparr>) s1)))))"

end
