(* ===== verification/Factories.thy ===== *)
theory Factories imports CrossThread begin

text \<open>
  \<open>osc_data_process/factory.cc\<close>: the producer.  \<open>Schedule\<close> posts itself again with a
  delay of one period and produces one datum; \<open>Produce\<close> hands it to every observer through
  \<open>FOR_EACH_OBSERVER\<close>; \<open>Destroy\<close> tells the observers, invalidates the weak pointers of
  the posted schedules and deletes the factory.
\<close>

section \<open>Notification\<close>

definition observer_OnDataProduced :: "factory_data \<Rightarrow> observer \<Rightarrow> sys \<Rightarrow> sys res" where
  "observer_OnDataProduced data obs s =
     (case obs of
        StubObs i \<Rightarrow> FreqStub_OnDataProduced i data s
      | ExtObs n \<Rightarrow> Inr (s\<lparr>ext_count := (ext_count s)(n := ext_count s n + 1)\<rparr>))"

definition observer_OnFactoryDestroy :: "observer \<Rightarrow> sys \<Rightarrow> sys res" where
  "observer_OnFactoryDestroy obs s =
     (case obs of
        StubObs i \<Rightarrow> FactoryStub_OnFactoryDestroy i s
      | ExtObs n \<Rightarrow> Inr s)"

text \<open>
  The fuel of the two notifications: one call of \<open>GetNext\<close> more than there are slots.  It
  suffices because no callback of the program registers an observer.
\<close>

definition notify_fuel :: "fid \<Rightarrow> sys \<Rightarrow> nat" where
  "notify_fuel f s = (case observers_of f s of None \<Rightarrow> 1 | Some l \<Rightarrow> Suc (olist_size l))"

definition run_notification :: "fid \<Rightarrow> (observer \<Rightarrow> sys \<Rightarrow> sys res) \<Rightarrow> sys \<Rightarrow> sys res" where
  "run_notification f func s =
     (case for_each_observer (notify_fuel f s) (observers_of f) (put_observers f) func s of
        None \<Rightarrow> Inl (NotReached ''endless notification'')
      | Some r \<Rightarrow> r)"

definition NotifyProduced :: "fid \<Rightarrow> sys \<Rightarrow> sys res" where
  "NotifyProduced f s =
     bindR (get_factory f s) (\<lambda>x. run_notification f (observer_OnDataProduced (f_data x)) s)"

definition NotifyDestroy :: "fid \<Rightarrow> sys \<Rightarrow> sys res" where
  "NotifyDestroy f s = run_notification f observer_OnFactoryDestroy s"

section \<open>Factory\<close>

definition new_Factory :: "tid \<Rightarrow> sys \<Rightarrow> fid \<times> sys" where
  "new_Factory factory_thread s =
     (let f = next_addr s in
      (f, (put_factory f \<lparr>f_start = False, f_speed = 1000, f_last_ticks = null_ticks,
             f_thread = factory_thread, f_data = set_id (- 1) new_FactoryData,
             f_observers = new_olist NOTIFY_ALL, f_weak_gen = 0\<rparr> (s\<lparr>next_addr := Suc f\<rparr>))
          \<lparr>g_factory := Some f\<rparr>))"

definition Start :: "fid \<Rightarrow> sys \<Rightarrow> sys res" where
  "Start f s =
     bindR (get_factory f s) (\<lambda>x.
       if f_start x then Inr s
       else Inr (PostTask (f_thread x) (BindSchedule f (f_weak_gen x)) (put_factory f (x\<lparr>f_start := True\<rparr>) s)))"

definition Stop :: "fid \<Rightarrow> sys \<Rightarrow> sys res" where
  "Stop f s =
     bindR (get_factory f s) (\<lambda>x.
       if \<not> f_start x then Inr s else Inr (put_factory f (x\<lparr>f_start := False\<rparr>) s))"

definition Produce :: "fid \<Rightarrow> sys \<Rightarrow> sys res" where
  "Produce f s =
     bindR (get_factory f s) (\<lambda>x.
       let i = produce_id s;
           data = set_data (data_string i) (set_id i new_FactoryData)
       in bindR (NotifyProduced f (put_factory f (x\<lparr>f_data := data\<rparr>) s)) (\<lambda>s1.
            Inr (s1\<lparr>produce_id := int32_succ (produce_id s1)\<rparr>)))"

definition Schedule :: "fid \<Rightarrow> sys \<Rightarrow> sys res" where
  "Schedule f s =
     bindR (get_factory f s) (\<lambda>x.
       let s1 = put_factory f (x\<lparr>f_last_ticks := now_ticks s\<rparr>) s in
       if \<not> f_start x then Inr s1
       else
         bindR (dcheck (0 < f_speed x) ''speed_ > 0'') (\<lambda>_.
           let us = int (micros_per_item (nat (f_speed x))) in
           Produce f (PostDelayedTask (f_thread x) (BindSchedule f (f_weak_gen x)) (FromMicroseconds us) s1)))"

text \<open>\<open>delete this\<close> runs \<open>~Factory\<close>, which resets \<open>g_factory\<close>.\<close>

definition Factory_Destroy :: "fid \<Rightarrow> sys \<Rightarrow> sys res" where
  "Factory_Destroy f s =
     bindR (NotifyDestroy f s) (\<lambda>s1.
     bindR (get_factory f s1) (\<lambda>x.
       let s2 = put_factory f (x\<lparr>f_weak_gen := Suc (f_weak_gen x)\<rparr>) s1
       in Inr (s2\<lparr>factories := (factories s2)(f := None), g_factory := None\<rparr>)))"

section \<open>Running a closure\<close>

text \<open>
  What a thread does with the closure at the head of its queue.  A method bound to a weak
  pointer that has become NULL is not called.  The relay runs the task and posts the reply
  to the loop it came from.
\<close>

fun run_closure :: "closure \<Rightarrow> sys \<Rightarrow> sys res" where
  "run_closure (BindSchedule f gen) s =
     (case factories s f of
        None \<Rightarrow> Inr s
      | Some x \<Rightarrow> if f_weak_gen x = gen then Schedule f s else Inr s)"
| "run_closure (BindPostInit h) s = PostInit h s"
| "run_closure (BindReplyInit h) s = ReplyInit h s"
| "run_closure (BindPostDestroy h) s = PostDestroy h s"
| "run_closure (BindReplyDestroy h) s = ReplyDestroy h s"
| "run_closure (BindHostData h data) s = Host_OnDataProduced h data s"
| "run_closure (BindHostFactoryDestroy h) s = Host_OnFactoryDestory h s"
| "run_closure (BindRelayRun task reply origin) s =
     bindR (run_closure task s) (\<lambda>s1. Inr (PostTask origin (BindRelayReply reply) s1))"
| "run_closure (BindRelayReply reply) s = run_closure reply s"

end
