(* ===== verification/OscInv.thy ===== *)
theory OscInv imports Factories begin

text \<open>
  The invariant that ties factories, observer lists, stubs and hosts together, and its
  preservation by every operation of \<open>osc_data_process/\<close>.  It makes the raw pointers of
  the program safe: \<open>FactoryStub::factory_\<close>, the observer pointers in the factory's list
  and \<open>ObserverCrossThread::stub_\<close> never dangle.  The only failures left are debug checks.

  \<open>detach\<close> is the abstract effect of taking a stub away; \<open>PostDestroy\<close> and the
  notification of \<open>Factory::Destroy\<close> are shown to be built from it.
\<close>

section \<open>The invariant\<close>

definition registered :: "sid \<Rightarrow> fid \<Rightarrow> sys \<Rightarrow> bool" where
  "registered i f s \<longleftrightarrow>
     (case factories s f of None \<Rightarrow> False | Some x \<Rightarrow> Some (StubObs i) \<in> set (observers (f_observers x)))"

fun closure_hosts :: "closure \<Rightarrow> hid list" where
  "closure_hosts (BindSchedule f gen) = []"
| "closure_hosts (BindPostInit h) = [h]"
| "closure_hosts (BindReplyInit h) = [h]"
| "closure_hosts (BindPostDestroy h) = [h]"
| "closure_hosts (BindReplyDestroy h) = [h]"
| "closure_hosts (BindHostData h data) = [h]"
| "closure_hosts (BindHostFactoryDestroy h) = [h]"
| "closure_hosts (BindRelayRun task reply origin) = closure_hosts task @ closure_hosts reply"
| "closure_hosts (BindRelayReply reply) = closure_hosts reply"

definition closures_of :: "tid \<Rightarrow> sys \<Rightarrow> closure list" where
  "closures_of t s = queue s t @ map snd (delayed s t)"

definition factories_ok :: "(fid \<Rightarrow> int) \<Rightarrow> sys \<Rightarrow> bool" where
  "factories_ok d s \<longleftrightarrow>
     (\<forall>f x. factories s f = Some x \<longrightarrow> f < next_addr s \<and> olist_inv (f_observers x) \<and>
        notify_depth (f_observers x) = d f \<and> ntype (f_observers x) = NOTIFY_ALL \<and> 0 < f_speed x) \<and>
     (\<forall>f. g_factory s = Some f \<longrightarrow> factories s f \<noteq> None)"

definition stubs_ok :: "sys \<Rightarrow> bool" where
  "stubs_ok s \<longleftrightarrow>
     (\<forall>i st. stubs s i = Some st \<longrightarrow> i < next_addr s \<and>
        (\<exists>h. hosts s (st_observer st) = Some h \<and> h_stub h = Some i) \<and>
        (\<exists>f. st_factory st = Some f \<and> registered i f s)) \<and>
     (\<forall>f i. registered i f s \<longrightarrow> (\<exists>st. stubs s i = Some st \<and> st_factory st = Some f))"

definition hosts_ok :: "sys \<Rightarrow> bool" where
  "hosts_ok s \<longleftrightarrow>
     (\<forall>h x. hosts s h = Some x \<longrightarrow> h < next_addr s \<and>
        (\<forall>i. h_stub x = Some i \<longrightarrow> (\<exists>st. stubs s i = Some st \<and> st_observer st = h)))"

definition queues_ok :: "sys \<Rightarrow> bool" where
  "queues_ok s \<longleftrightarrow>
     (\<forall>t c h. c \<in> set (closures_of t s) \<longrightarrow> h \<in> set (closure_hosts c) \<longrightarrow> hosts s h \<noteq> None)"

text \<open>\<open>d f\<close> is the notification depth of factory \<open>f\<close>: 0 for every factory between tasks.\<close>

definition sys_inv :: "(fid \<Rightarrow> int) \<Rightarrow> sys \<Rightarrow> bool" where
  "sys_inv d s \<longleftrightarrow> factories_ok d s \<and> stubs_ok s \<and> hosts_ok s \<and> queues_ok s"

abbreviation idle_inv :: "sys \<Rightarrow> bool" where
  "idle_inv \<equiv> sys_inv (\<lambda>_. 0)"

named_theorems sys_simps

lemmas [sys_simps] = put_factory_def put_stub_def put_host_def get_factory_def get_stub_def
  get_host_def PostTask_def

lemmas inv_defs = sys_inv_def factories_ok_def stubs_ok_def hosts_ok_def queues_ok_def

lemma init_sys_inv: "idle_inv init_sys"
  by (simp add: inv_defs init_sys_def registered_def closures_of_def)

text \<open>What the invariant gives to a proof that meets a pointer.\<close>

lemma inv_factory:
  "sys_inv d s \<Longrightarrow> factories s f = Some x \<Longrightarrow> olist_inv (f_observers x) \<and> notify_depth (f_observers x) = d f
     \<and> ntype (f_observers x) = NOTIFY_ALL \<and> 0 < f_speed x \<and> f < next_addr s"
  unfolding sys_inv_def factories_ok_def by blast

lemma inv_current: "sys_inv d s \<Longrightarrow> g_factory s = Some f \<Longrightarrow> \<exists>x. factories s f = Some x"
  unfolding sys_inv_def factories_ok_def by blast

lemma inv_closure:
  "sys_inv d s \<Longrightarrow> c \<in> set (closures_of t s) \<Longrightarrow> h \<in> set (closure_hosts c) \<Longrightarrow> hosts s h \<noteq> None"
  unfolding sys_inv_def queues_ok_def by blast

lemma inv_registered:
  assumes "sys_inv d s" "registered i f s"
  obtains st x o' where "stubs s i = Some st" "st_factory st = Some f" "factories s f = Some x"
    "Some (StubObs i) \<in> set (observers (f_observers x))" "hosts s (st_observer st) = Some o'" "h_stub o' = Some i"
proof -
  obtain st where st: "stubs s i = Some st" "st_factory st = Some f"
    using assms unfolding sys_inv_def stubs_ok_def by blast
  then obtain o' where "hosts s (st_observer st) = Some o'" "h_stub o' = Some i"
    using assms unfolding sys_inv_def stubs_ok_def by blast
  with st assms(2) show thesis
    using that unfolding registered_def by (auto split: option.splits)
qed

lemma inv_stub:
  assumes "sys_inv d s" "stubs s i = Some st"
  obtains f where "st_factory st = Some f" "registered i f s"
  using assms unfolding sys_inv_def stubs_ok_def by blast

lemma inv_host_stub:
  assumes "sys_inv d s" "hosts s h = Some x" "h_stub x = Some i"
  obtains st f where "stubs s i = Some st" "st_observer st = h" "st_factory st = Some f" "registered i f s"
proof -
  obtain st where "stubs s i = Some st" "st_observer st = h"
    using assms unfolding sys_inv_def hosts_ok_def by blast
  moreover from this inv_stub [OF assms(1)] obtain f where "st_factory st = Some f" "registered i f s"
    by metis
  ultimately show thesis using that by blast
qed

lemma registered_unique: "sys_inv d s \<Longrightarrow> registered i f s \<Longrightarrow> registered i g s \<Longrightarrow> f = g"
  by (metis inv_registered option.inject)

section \<open>Updates that keep the invariant\<close>

lemma closures_of_PostTask: "set (closures_of t' (PostTask t c s)) = set (closures_of t' s) \<union> (if t' = t then {c} else {})"
  by (auto simp: closures_of_def PostTask_def)

lemma registered_PostTask [simp]: "registered i f (PostTask t c s) = registered i f s"
  by (simp add: registered_def PostTask_def)

lemma PostTask_simps [simp]:
  "factories (PostTask t c s) = factories s" "stubs (PostTask t c s) = stubs s" "hosts (PostTask t c s) = hosts s"
  "g_factory (PostTask t c s) = g_factory s" "next_addr (PostTask t c s) = next_addr s"
  "produce_id (PostTask t c s) = produce_id s" "delayed (PostTask t c s) = delayed s"
  "now_time (PostTask t c s) = now_time s" "now_ticks (PostTask t c s) = now_ticks s"
  by (simp_all add: PostTask_def)

lemma PostTask_inv:
  "sys_inv d s \<Longrightarrow> (\<And>h. h \<in> set (closure_hosts c) \<Longrightarrow> hosts s h \<noteq> None) \<Longrightarrow> sys_inv d (PostTask t c s)"
  unfolding inv_defs by (auto simp: closures_of_PostTask split: if_splits)

lemma PostDelayedTask_inv:
  assumes "sys_inv d s" "\<And>h. h \<in> set (closure_hosts c) \<Longrightarrow> hosts s h \<noteq> None"
  shows "sys_inv d (PostDelayedTask t c delay s)"
proof (cases "TimeDelta 0 < delay")
  case True
  with assms show ?thesis
    unfolding inv_defs by (auto simp: PostDelayedTask_def closures_of_def registered_def)
next
  case False
  with PostTask_inv [OF assms] show ?thesis by (simp add: PostDelayedTask_def)
qed

text \<open>An update that keeps the relations between the parts keeps the invariant.\<close>

lemma sys_inv_frame:
  assumes "sys_inv d s"
    and "\<And>f. map_option (\<lambda>x. (f_observers x, f_speed x)) (factories s' f) =
             map_option (\<lambda>x. (f_observers x, f_speed x)) (factories s f)"
    and "\<And>i. map_option (\<lambda>x. (st_observer x, st_factory x)) (stubs s' i) =
             map_option (\<lambda>x. (st_observer x, st_factory x)) (stubs s i)"
    and "\<And>h. map_option h_stub (hosts s' h) = map_option h_stub (hosts s h)"
    and "g_factory s' = g_factory s" "next_addr s \<le> next_addr s'" "\<And>t. closures_of t s' = closures_of t s"
  shows "sys_inv d s'"
proof -
  have reg: "registered i f s' = registered i f s" for i f
    using assms(2) [of f] by (auto simp: registered_def split: option.splits)
  have fx: "\<exists>y. factories s f = Some y \<and> f_observers y = f_observers x \<and> f_speed y = f_speed x"
    if "factories s' f = Some x" for f x
    using assms(2) [of f] that by (cases "factories s f") auto
  have fn: "factories s' f = None \<longleftrightarrow> factories s f = None" for f
    using assms(2) [of f] by (cases "factories s f"; cases "factories s' f") auto
  have sx: "\<exists>y. stubs s i = Some y \<and> st_observer y = st_observer x \<and> st_factory y = st_factory x"
    if "stubs s' i = Some x" for i x
    using assms(3) [of i] that by (cases "stubs s i") auto
  have sx': "\<exists>y. stubs s' i = Some y \<and> st_observer y = st_observer x \<and> st_factory y = st_factory x"
    if "stubs s i = Some x" for i x
    using assms(3) [of i] that by (cases "stubs s' i") auto
  have hx: "\<exists>y. hosts s h = Some y \<and> h_stub y = h_stub x" if "hosts s' h = Some x" for h x
    using assms(4) [of h] that by (cases "hosts s h") auto
  have hx': "\<exists>y. hosts s' h = Some y \<and> h_stub y = h_stub x" if "hosts s h = Some x" for h x
    using assms(4) [of h] that by (cases "hosts s' h") auto
  have "factories_ok d s'"
    unfolding factories_ok_def
  proof (intro conjI allI impI)
    fix f x
    assume "factories s' f = Some x"
    from fx [OF this] inv_factory [OF assms(1)] assms(6)
    show "f < next_addr s'" "olist_inv (f_observers x)" "notify_depth (f_observers x) = d f"
      "ntype (f_observers x) = NOTIFY_ALL" "0 < f_speed x" by force+
  next
    fix f
    assume "g_factory s' = Some f"
    with inv_current [OF assms(1), of f] assms(5) fn show "factories s' f \<noteq> None" by simp
  qed
  moreover have "stubs_ok s'"
    unfolding stubs_ok_def reg
  proof (intro conjI allI impI)
    fix i st
    assume "stubs s' i = Some st"
    then obtain y where y: "stubs s i = Some y" "st_observer y = st_observer st" "st_factory y = st_factory st"
      using sx by blast
    with assms(1) have "i < next_addr s" "\<exists>h. hosts s (st_observer st) = Some h \<and> h_stub h = Some i"
      "\<exists>f. st_factory st = Some f \<and> registered i f s" unfolding sys_inv_def stubs_ok_def by metis+
    with hx' assms(6) show "i < next_addr s'" "\<exists>h. hosts s' (st_observer st) = Some h \<and> h_stub h = Some i"
      "\<exists>f. st_factory st = Some f \<and> registered i f s" by (force, metis, blast)
  next
    fix f i
    assume "registered i f s"
    with assms(1) obtain y where "stubs s i = Some y" "st_factory y = Some f"
      by (metis inv_registered)
    with sx' [of i y] show "\<exists>st. stubs s' i = Some st \<and> st_factory st = Some f" by auto
  qed
  moreover have "hosts_ok s'"
    unfolding hosts_ok_def
  proof (intro conjI allI impI)
    fix h x
    assume "hosts s' h = Some x"
    then obtain y where y: "hosts s h = Some y" "h_stub y = h_stub x" using hx by blast
    with assms(1,6) show "h < next_addr s'" unfolding sys_inv_def hosts_ok_def by force
    fix i
    assume "h_stub x = Some i"
    with y assms(1) obtain st where "stubs s i = Some st" "st_observer st = h"
      by (metis inv_host_stub)
    with sx' [of i st] show "\<exists>st. stubs s' i = Some st \<and> st_observer st = h" by auto
  qed
  moreover have "queues_ok s'"
    unfolding queues_ok_def assms(7)
  proof (intro allI impI)
    fix t c h
    assume "c \<in> set (closures_of t s)" "h \<in> set (closure_hosts c)"
    with assms(1) have "hosts s h \<noteq> None" unfolding sys_inv_def queues_ok_def by blast
    with hx' show "hosts s' h \<noteq> None" by force
  qed
  ultimately show ?thesis by (simp add: sys_inv_def)
qed

lemma put_host_inv:
  "sys_inv d s \<Longrightarrow> hosts s h = Some x \<Longrightarrow> h_stub x' = h_stub x \<Longrightarrow> sys_inv d (put_host h x' s)"
  by (rule sys_inv_frame) (auto simp: put_host_def closures_of_def)

lemma put_factory_inv:
  "sys_inv d s \<Longrightarrow> factories s f = Some x \<Longrightarrow> f_observers x' = f_observers x \<Longrightarrow> f_speed x' = f_speed x \<Longrightarrow>
   sys_inv d (put_factory f x' s)"
  by (rule sys_inv_frame) (auto simp: put_factory_def closures_of_def)

lemma put_stub_inv:
  "sys_inv d s \<Longrightarrow> stubs s i = Some st \<Longrightarrow> st_observer st' = st_observer st \<Longrightarrow> st_factory st' = st_factory st \<Longrightarrow>
   sys_inv d (put_stub i st' s)"
  by (rule sys_inv_frame) (auto simp: put_stub_def closures_of_def)

section \<open>Taking a stub away\<close>

definition detach :: "sid \<Rightarrow> fid \<Rightarrow> hid \<Rightarrow> sys \<Rightarrow> sys" where
  "detach i f h s =
     (case factories s f of None \<Rightarrow> s
      | Some x \<Rightarrow> (case hosts s h of None \<Rightarrow> s
         | Some o' \<Rightarrow> s\<lparr>factories := (factories s)(f \<mapsto> x\<lparr>f_observers := RemoveObserver (Some (StubObs i)) (f_observers x)\<rparr>),
             stubs := (stubs s)(i := None), hosts := (hosts s)(h \<mapsto> o'\<lparr>h_stub := None\<rparr>)\<rparr>))"

lemma RemoveObserver_keeps [simp]:
  "notify_depth (RemoveObserver p l) = notify_depth l" "ntype (RemoveObserver p l) = ntype l"
  by (simp_all add: RemoveObserver_def split: option.splits)

lemma set_RemoveObserver:
  assumes "olist_inv l"
  shows "Some y \<in> set (observers (RemoveObserver (Some x) l)) \<longleftrightarrow> Some y \<in> set (observers l) \<and> y \<noteq> x"
proof -
  have "y \<in> set (live (observers (RemoveObserver (Some x) l))) \<longleftrightarrow> y \<in> set (live (observers l)) \<and> y \<noteq> x"
    using assms by (subst live_RemoveObserver) (auto simp: olist_inv_def)
  then show ?thesis by simp
qed

lemma detach_eq:
  assumes "sys_inv d s" "registered i f s" "stubs s i = Some st" "st_observer st = h"
  obtains x o' where "factories s f = Some x" "hosts s h = Some o'" "h_stub o' = Some i"
    "detach i f h s = s\<lparr>factories := (factories s)(f \<mapsto> x\<lparr>f_observers := RemoveObserver (Some (StubObs i)) (f_observers x)\<rparr>),
             stubs := (stubs s)(i := None), hosts := (hosts s)(h \<mapsto> o'\<lparr>h_stub := None\<rparr>)\<rparr>"
proof -
  obtain st' x o' where "stubs s i = Some st'" "factories s f = Some x"
    "hosts s (st_observer st') = Some o'" "h_stub o' = Some i"
    using inv_registered [OF assms(1,2)] by metis
  with assms(3,4) show thesis by (intro that) (auto simp: detach_def)
qed

lemma registered_detach:
  assumes "sys_inv d s" "registered i f s" "stubs s i = Some st" "st_observer st = h"
  shows "registered j g (detach i f h s) \<longleftrightarrow> registered j g s \<and> j \<noteq> i"
proof -
  obtain x o' where x: "factories s f = Some x"
    "detach i f h s = s\<lparr>factories := (factories s)(f \<mapsto> x\<lparr>f_observers := RemoveObserver (Some (StubObs i)) (f_observers x)\<rparr>),
             stubs := (stubs s)(i := None), hosts := (hosts s)(h \<mapsto> o'\<lparr>h_stub := None\<rparr>)\<rparr>"
    using detach_eq [OF assms] by metis
  have "olist_inv (f_observers x)" using inv_factory [OF assms(1) x(1)] by blast
  note rem = set_RemoveObserver [OF this]
  show ?thesis
  proof (cases "g = f")
    case True
    then show ?thesis using x rem by (simp add: registered_def)
  next
    case False
    then have "\<not> registered i g s" using registered_unique [OF assms(1,2)] by blast
    moreover from False have "registered j g (detach i f h s) = registered j g s"
      using x by (simp add: registered_def)
    ultimately show ?thesis by metis
  qed
qed

lemma detach_inv:
  assumes "sys_inv d s" "registered i f s" "stubs s i = Some st" "st_observer st = h"
  shows "sys_inv d (detach i f h s)"
proof -
  obtain x o' where x: "factories s f = Some x" "hosts s h = Some o'" "h_stub o' = Some i"
    "detach i f h s = s\<lparr>factories := (factories s)(f \<mapsto> x\<lparr>f_observers := RemoveObserver (Some (StubObs i)) (f_observers x)\<rparr>),
             stubs := (stubs s)(i := None), hosts := (hosts s)(h \<mapsto> o'\<lparr>h_stub := None\<rparr>)\<rparr>"
    using detach_eq [OF assms] by metis
  note reg = registered_detach [OF assms]
  note fx = inv_factory [OF assms(1)]
  have "factories_ok d (detach i f h s)"
    unfolding factories_ok_def
  proof (intro conjI allI impI)
    fix g y
    assume "factories (detach i f h s) g = Some y"
    then have "factories s g = Some y \<or>
        g = f \<and> y = x\<lparr>f_observers := RemoveObserver (Some (StubObs i)) (f_observers x)\<rparr>"
      using x(4) by (auto split: if_splits)
    then show "g < next_addr (detach i f h s)" "olist_inv (f_observers y)" "notify_depth (f_observers y) = d g"
      "ntype (f_observers y) = NOTIFY_ALL" "0 < f_speed y"
      using fx [OF x(1)] fx [of g y] x(4) by (auto intro: RemoveObserver_inv)
  next
    fix g
    assume "g_factory (detach i f h s) = Some g"
    then show "factories (detach i f h s) g \<noteq> None" using inv_current [OF assms(1), of g] x(4) by auto
  qed
  moreover have "stubs_ok (detach i f h s)"
    unfolding stubs_ok_def reg
  proof (intro conjI allI impI)
    fix j st'
    assume "stubs (detach i f h s) j = Some st'"
    then have j: "stubs s j = Some st'" "j \<noteq> i" using x(4) by (auto split: if_splits)
    with assms(1) obtain o2 where o2: "j < next_addr s" "hosts s (st_observer st') = Some o2" "h_stub o2 = Some j"
      unfolding sys_inv_def stubs_ok_def by metis
    with x j have "st_observer st' \<noteq> h" by auto
    with o2 x(4) show "j < next_addr (detach i f h s)"
      "\<exists>h'. hosts (detach i f h s) (st_observer st') = Some h' \<and> h_stub h' = Some j" by auto
    from inv_stub [OF assms(1) j(1)] j(2)
    show "\<exists>f. st_factory st' = Some f \<and> registered j f s \<and> j \<noteq> i" by metis
  next
    fix g j
    assume "registered j g s \<and> j \<noteq> i"
    then show "\<exists>st. stubs (detach i f h s) j = Some st \<and> st_factory st = Some g"
      using x(4) by simp (metis assms(1) inv_registered)
  qed
  moreover have "hosts_ok (detach i f h s)"
    unfolding hosts_ok_def
  proof (intro conjI allI impI)
    fix k y
    assume y: "hosts (detach i f h s) k = Some y"
    then have y': "k \<noteq> h \<and> hosts s k = Some y \<or> k = h \<and> h_stub y = None" using x(4) by (auto split: if_splits)
    with x(2,4) assms(1) show "k < next_addr (detach i f h s)" unfolding sys_inv_def hosts_ok_def by auto
    fix j
    assume j: "h_stub y = Some j"
    with y' obtain st' where st': "k \<noteq> h" "stubs s j = Some st'" "st_observer st' = k"
      using inv_host_stub [OF assms(1), of k y j] by auto
    with assms(3,4) have "j \<noteq> i" by auto
    with st' x(4) show "\<exists>st. stubs (detach i f h s) j = Some st \<and> st_observer st = k" by simp
  qed
  moreover have "queues_ok (detach i f h s)"
    using assms(1) x(4) unfolding sys_inv_def queues_ok_def by (auto simp: closures_of_def)
  ultimately show ?thesis by (simp add: sys_inv_def)
qed

text \<open>\<open>PostDestroy\<close> is \<open>detach\<close>; without a stub its debug check fails.\<close>

lemma PostDestroy_detach:
  assumes "sys_inv d s" "registered i f s" "stubs s i = Some st" "st_observer st = h"
  shows "PostDestroy h s = Inr (detach i f h s)"
proof -
  obtain x o' where x: "factories s f = Some x" "hosts s h = Some o'" "h_stub o' = Some i"
    "detach i f h s = s\<lparr>factories := (factories s)(f \<mapsto> x\<lparr>f_observers := RemoveObserver (Some (StubObs i)) (f_observers x)\<rparr>),
             stubs := (stubs s)(i := None), hosts := (hosts s)(h \<mapsto> o'\<lparr>h_stub := None\<rparr>)\<rparr>"
    using detach_eq [OF assms] by metis
  have "st_factory st = Some f" "Some (StubObs i) \<in> set (observers (f_observers x))"
    using inv_registered [OF assms(1,2)] assms(3) x(1) by (metis option.inject)+
  with x assms(3) show ?thesis
    by (simp add: PostDestroy_def delete_stub_def Factory_HasObserver_def Factory_RemoveObserver_def
        Let_def sys_simps)
qed

lemma PostDestroy_none:
  "hosts s h = Some x \<Longrightarrow> h_stub x = None \<Longrightarrow> PostDestroy h s = Inl (DcheckFailed ''no create stub before.'')"
  by (simp add: PostDestroy_def sys_simps)

section \<open>Putting a stub in place\<close>

definition stub_kind_of :: "host \<Rightarrow> stub_kind" where
  "stub_kind_of x = (case h_init_freq x of None \<Rightarrow> FactoryStub | Some freq \<Rightarrow> FreqFactoryHostStub freq (Time 0))"

definition attach :: "fid \<Rightarrow> hid \<Rightarrow> sys \<Rightarrow> sys" where
  "attach f h s =
     (case factories s f of None \<Rightarrow> s
      | Some y \<Rightarrow> (case hosts s h of None \<Rightarrow> s
         | Some x \<Rightarrow>
             s\<lparr>factories := (factories s)(f \<mapsto> y\<lparr>f_observers := (f_observers y)\<lparr>observers :=
                   observers (f_observers y) @ [Some (StubObs (next_addr s))]\<rparr>\<rparr>),
               stubs := (stubs s)(next_addr s \<mapsto> \<lparr>st_observer = h, st_factory = Some f, st_kind = stub_kind_of x\<rparr>),
               hosts := (hosts s)(h \<mapsto> x\<lparr>h_data := Some (f_data y), h_stub := Some (next_addr s)\<rparr>),
               next_addr := Suc (next_addr s)\<rparr>))"

lemma attach_eq:
  "factories s f = Some y \<Longrightarrow> hosts s h = Some x \<Longrightarrow> attach f h s =
     s\<lparr>factories := (factories s)(f \<mapsto> y\<lparr>f_observers := (f_observers y)\<lparr>observers :=
                   observers (f_observers y) @ [Some (StubObs (next_addr s))]\<rparr>\<rparr>),
               stubs := (stubs s)(next_addr s \<mapsto> \<lparr>st_observer = h, st_factory = Some f, st_kind = stub_kind_of x\<rparr>),
               hosts := (hosts s)(h \<mapsto> x\<lparr>h_data := Some (f_data y), h_stub := Some (next_addr s)\<rparr>),
               next_addr := Suc (next_addr s)\<rparr>"
  by (simp add: attach_def)

lemma fresh_unregistered: "sys_inv d s \<Longrightarrow> next_addr s \<le> i \<Longrightarrow> \<not> registered i f s \<and> stubs s i = None"
proof (intro conjI notI)
  assume a: "sys_inv d s" "next_addr s \<le> i"
  then show "stubs s i = None"
    unfolding sys_inv_def stubs_ok_def by (metis leD not_Some_eq)
  then show "registered i f s \<Longrightarrow> False"
    using inv_registered [OF a(1)] by (metis option.distinct(1))
qed

lemma registered_attach:
  assumes "sys_inv d s" "factories s f = Some y" "hosts s h = Some x"
  shows "registered j g (attach f h s) \<longleftrightarrow> registered j g s \<or> j = next_addr s \<and> g = f"
  using assms(2,3) fresh_unregistered [OF assms(1) order_refl]
  by (auto simp: attach_eq registered_def)

lemma attach_inv:
  assumes inv: "sys_inv d s" and y: "factories s f = Some y" and x: "hosts s h = Some x" "h_stub x = None"
  shows "sys_inv d (attach f h s)"
proof -
  note eq = attach_eq [OF y x(1)] and reg = registered_attach [OF inv y x(1)] and fx = inv_factory [OF inv]
  note fresh = fresh_unregistered [OF inv order_refl]
  have "factories_ok d (attach f h s)"
    unfolding factories_ok_def
  proof (intro conjI allI impI)
    fix g z
    assume "factories (attach f h s) g = Some z"
    then have z: "factories s g = Some z \<or> g = f \<and> z = y\<lparr>f_observers := (f_observers y)\<lparr>observers :=
                   observers (f_observers y) @ [Some (StubObs (next_addr s))]\<rparr>\<rparr>"
      by (auto simp: eq split: if_splits)
    have "olist_inv ((f_observers y)\<lparr>observers := observers (f_observers y) @ [Some (StubObs (next_addr s))]\<rparr>)"
      using fx [OF y] fresh [of f] y by (auto simp: olist_inv_def registered_def)
    with z fx [OF y] fx [of g z] show "g < next_addr (attach f h s)" "olist_inv (f_observers z)"
      "notify_depth (f_observers z) = d g" "ntype (f_observers z) = NOTIFY_ALL" "0 < f_speed z"
      by (auto simp: eq)
  next
    fix g
    assume "g_factory (attach f h s) = Some g"
    then show "factories (attach f h s) g \<noteq> None" using inv_current [OF inv, of g] by (auto simp: eq)
  qed
  moreover have "stubs_ok (attach f h s)"
    unfolding stubs_ok_def reg
  proof (intro conjI allI impI)
    fix j st
    assume st: "stubs (attach f h s) j = Some st"
    show "j < next_addr (attach f h s) "
      using st inv unfolding sys_inv_def stubs_ok_def by (auto simp: eq split: if_splits intro: less_SucI)
    show "\<exists>h'. hosts (attach f h s) (st_observer st) = Some h' \<and> h_stub h' = Some j"
    proof (cases "j = next_addr s")
      case True
      with st show ?thesis by (auto simp: eq)
    next
      case False
      with st have j: "stubs s j = Some st" by (simp add: eq)
      then obtain o2 where "hosts s (st_observer st) = Some o2" "h_stub o2 = Some j"
        using inv unfolding sys_inv_def stubs_ok_def by metis
      moreover from this x have "st_observer st \<noteq> h" by auto
      ultimately show ?thesis by (simp add: eq)
    qed
    show "\<exists>g. st_factory st = Some g \<and> (registered j g s \<or> j = next_addr s \<and> g = f)"
    proof (cases "j = next_addr s")
      case True
      with st show ?thesis by (auto simp: eq)
    next
      case False
      with st have "stubs s j = Some st" by (simp add: eq)
      then show ?thesis using inv_stub [OF inv] by metis
    qed
  next
    fix g j
    assume "registered j g s \<or> j = next_addr s \<and> g = f"
    then show "\<exists>st. stubs (attach f h s) j = Some st \<and> st_factory st = Some g"
    proof
      assume "registered j g s"
      with fresh have "j \<noteq> next_addr s" by metis
      with \<open>registered j g s\<close> show ?thesis by (simp add: eq) (metis inv inv_registered)
    qed (simp add: eq)
  qed
  moreover have "hosts_ok (attach f h s)"
    unfolding hosts_ok_def
  proof (intro conjI allI impI)
    fix k z
    assume z: "hosts (attach f h s) k = Some z"
    then have z': "k \<noteq> h \<and> hosts s k = Some z \<or> k = h \<and> h_stub z = Some (next_addr s)"
      by (auto simp: eq split: if_splits)
    with inv x show "k < next_addr (attach f h s)"
      unfolding sys_inv_def hosts_ok_def by (auto simp: eq intro: less_SucI)
    fix j
    assume j: "h_stub z = Some j"
    show "\<exists>st. stubs (attach f h s) j = Some st \<and> st_observer st = k"
    proof (cases "k = h")
      case True
      with z' j show ?thesis by (auto simp: eq)
    next
      case False
      with z' j obtain st where "stubs s j = Some st" "st_observer st = k"
        using inv_host_stub [OF inv, of k z j] by metis
      moreover from this fresh have "j \<noteq> next_addr s" by auto
      ultimately show ?thesis by (simp add: eq)
    qed
  qed
  moreover have "queues_ok (attach f h s)"
    using inv unfolding sys_inv_def queues_ok_def by (auto simp: closures_of_def eq)
  ultimately show ?thesis by (simp add: sys_inv_def)
qed

text \<open>\<open>PostInit\<close> is \<open>attach\<close> to the current factory; its debug checks are the only failures.\<close>

lemma PostInit_attach:
  assumes inv: "sys_inv d s" and x: "hosts s h = Some x" "h_stub x = None" and f: "g_factory s = Some f"
  shows "PostInit h s = Inr (attach f h s)"
proof -
  obtain y where y: "factories s f = Some y" using inv_current [OF inv f] by blast
  have new: "Some (StubObs (next_addr s)) \<notin> set (observers (f_observers y))"
    using fresh_unregistered [OF inv order_refl, of f] y by (simp add: registered_def)
  show ?thesis
    using x y new f
    by (cases "h_init_freq x")
      (simp_all add: PostInit_def CreateStub_def GetFactory_def new_FactoryStub_def GetLastData_def
        Factory_AddObserver_def AddObserver_def Let_def sys_simps attach_eq stub_kind_of_def)
qed

lemma PostInit_fails:
  "hosts s h = Some x \<Longrightarrow> h_stub x \<noteq> None \<Longrightarrow> PostInit h s = Inl (DcheckFailed ''call init more then once.'')"
  "hosts s h = Some x \<Longrightarrow> h_stub x = None \<Longrightarrow> g_factory s = None \<Longrightarrow>
     PostInit h s = Inl (DcheckFailed ''need create Factory first.'')"
  by (auto simp: PostInit_def CreateStub_def GetFactory_def sys_simps dcheck_def)

end
