(* ===== verification/FactoryInv.thy ===== *)
theory FactoryInv imports OscInv begin

text \<open>
  The two notifications of \<open>factory.cc\<close>.  \<open>OnDataProduced\<close> leaves the factory's list
  alone: it instantiates \<open>quiet_notification\<close>, so \<open>FOR_EACH_OBSERVER\<close> is a plain loop.
  \<open>OnFactoryDestroy\<close> removes each stub from the list it is called from and deletes it: it
  instantiates \<open>reentrant_notification\<close>, and the notification is shown to take every stub
  away.  From there: every operation of \<open>Factory\<close> and every closure keeps the invariant, and
  the only failures left are debug checks.
\<close>

section \<open>Reading and writing the list\<close>

lemma observers_of_put:
  "observers_of f s = Some l0 \<Longrightarrow> observers_of f (put_observers f l s) = Some l"
  by (auto simp: observers_of_def put_observers_def put_factory_def)

lemma observers_lens: "list_lens (observers_of f) (put_observers f)"
  by (auto simp: list_lens_def observers_of_def put_observers_def put_factory_def fun_upd_idem split: option.splits)

lemma put_observers_simps [simp]:
  "stubs (put_observers f l s) = stubs s" "hosts (put_observers f l s) = hosts s"
  "queue (put_observers f l s) = queue s" "delayed (put_observers f l s) = delayed s"
  "g_factory (put_observers f l s) = g_factory s" "next_addr (put_observers f l s) = next_addr s"
  "produce_id (put_observers f l s) = produce_id s" "now_time (put_observers f l s) = now_time s"
  "now_ticks (put_observers f l s) = now_ticks s" "ext_count (put_observers f l s) = ext_count s"
  by (auto simp: put_observers_def put_factory_def split: option.splits)

section \<open>Production: the callbacks\<close>

definition freq_step :: "stub_kind \<Rightarrow> time \<Rightarrow> bool \<times> stub_kind" where
  "freq_step kind now =
     (case kind of
        FactoryStub \<Rightarrow> (True, FactoryStub)
      | FreqFactoryHostStub freq last_notify \<Rightarrow>
          (case freq_decide freq now last_notify of (notify, t) \<Rightarrow> (notify, FreqFactoryHostStub freq t)))"

text \<open>The abstract effect of a stub's callback: at most one closure for the host, on the host's thread.\<close>

definition produce_effect :: "factory_data \<Rightarrow> observer \<Rightarrow> sys \<Rightarrow> sys" where
  "produce_effect data obs s =
     (case obs of
        ExtObs n \<Rightarrow> s\<lparr>ext_count := (ext_count s)(n := ext_count s n + 1)\<rparr>
      | StubObs i \<Rightarrow>
          (case stubs s i of None \<Rightarrow> s
           | Some st \<Rightarrow> (case hosts s (st_observer st) of None \<Rightarrow> s
              | Some x \<Rightarrow>
                  (let (notify, kind) = freq_step (st_kind st) (now_time s);
                       s1 = put_stub i (st\<lparr>st_kind := kind\<rparr>) s
                   in if notify then PostTask (h_host_thread x) (BindHostData (st_observer st) data) s1 else s1))))"

lemma put_stub_same: "stubs s i = Some st \<Longrightarrow> st_kind st = k \<Longrightarrow> put_stub i (st\<lparr>st_kind := k\<rparr>) s = s"
  by (auto simp: put_stub_def fun_upd_idem)

lemma FreqStub_effect:
  "stubs s i = Some st \<Longrightarrow> hosts s (st_observer st) = Some x \<Longrightarrow>
   FreqStub_OnDataProduced i data s = Inr (produce_effect data (StubObs i) s)"
proof (cases "st_kind st")
  case FactoryStub
  assume a: "stubs s i = Some st" "hosts s (st_observer st) = Some x"
  with FactoryStub show ?thesis
    by (simp add: FreqStub_OnDataProduced_def FactoryStub_OnDataProduced_def produce_effect_def
        freq_step_def get_stub_def get_host_def put_stub_same)
next
  case (FreqFactoryHostStub q l)
  assume a: "stubs s i = Some st" "hosts s (st_observer st) = Some x"
  with FreqFactoryHostStub show ?thesis
    by (auto simp: FreqStub_OnDataProduced_def FactoryStub_OnDataProduced_def produce_effect_def
        freq_step_def get_stub_def get_host_def put_stub_def Let_def split: prod.splits)
qed

lemma observer_produced_frame:
  assumes "observer_OnDataProduced data obs s = Inr s'"
  shows "factories s' = factories s \<and> hosts s' = hosts s"
  using assms
  by (auto simp: observer_OnDataProduced_def FreqStub_OnDataProduced_def FactoryStub_OnDataProduced_def
      get_stub_def get_host_def put_stub_def Let_def bindR_eq_Inr PostTask_def
      split: observer.splits option.splits stub_kind.splits if_splits prod.splits)

lemma observer_produced_list:
  "observer_OnDataProduced data obs s = Inr s' \<Longrightarrow> observers_of f s' = observers_of f s"
  using observer_produced_frame by (simp add: observers_of_def)

lemma observer_produced_commute:
  "observer_OnDataProduced data obs (put_observers f l s) =
   bindR (observer_OnDataProduced data obs s) (\<lambda>s'. Inr (put_observers f l s'))"
  by (auto simp: observer_OnDataProduced_def FreqStub_OnDataProduced_def FactoryStub_OnDataProduced_def
      get_stub_def get_host_def put_stub_def put_observers_def put_factory_def Let_def PostTask_def
      split: observer.splits option.splits stub_kind.splits if_splits prod.splits)

interpretation produced: quiet_notification "observers_of f" "put_observers f" "observer_OnDataProduced data"
  for f data
  by unfold_locales (simp_all add: observers_lens observer_produced_list observer_produced_commute)

text \<open>The notification is a loop over the registered observers, and its fuel suffices.\<close>

lemma length_live: "length (live ps) \<le> length ps"
  by (induction ps) (auto split: option.splits)

lemma NotifyProduced_fold:
  assumes "sys_inv d s" "factories s f = Some x"
  shows "NotifyProduced f s = fold_res (observer_OnDataProduced (f_data x)) (live (observers (f_observers x))) s"
proof -
  have l: "observers_of f s = Some (f_observers x)" using assms(2) by (simp add: observers_of_def)
  have "length (live (observers (f_observers x))) < notify_fuel f s"
    using length_live [of "observers (f_observers x)"] by (simp add: notify_fuel_def l olist_size_def)
  then show ?thesis
    using produced.for_each_quiet [OF l] inv_factory [OF assms]
    by (simp add: NotifyProduced_def run_notification_def get_factory_def assms(2))
qed

lemma produce_effect_inv:
  assumes "sys_inv d s" "\<And>i. obs = StubObs i \<Longrightarrow> registered i f s"
  shows "observer_OnDataProduced data obs s = Inr (produce_effect data obs s)"
    and "sys_inv d (produce_effect data obs s)"
    and "factories (produce_effect data obs s) = factories s \<and> hosts (produce_effect data obs s) = hosts s"
proof -
  have *: "observer_OnDataProduced data obs s = Inr (produce_effect data obs s) \<and> sys_inv d (produce_effect data obs s)"
  proof (cases obs)
    case (StubObs i)
    with assms obtain st x where st: "stubs s i = Some st" "hosts s (st_observer st) = Some x"
      by (metis inv_registered)
    have p: "sys_inv d (put_stub i (st\<lparr>st_kind := k\<rparr>) s)" for k
      by (rule put_stub_inv [OF assms(1) st(1)]) auto
    have q: "sys_inv d (PostTask t (BindHostData (st_observer st) data) (put_stub i (st\<lparr>st_kind := k\<rparr>) s))" for t k
      by (rule PostTask_inv [OF p]) (simp add: st(2) put_stub_def)
    from st p q StubObs FreqStub_effect [OF st] show ?thesis
      by (auto simp: observer_OnDataProduced_def produce_effect_def Let_def split: prod.splits)
  next
    case (ExtObs n)
    have "sys_inv d (s\<lparr>ext_count := (ext_count s)(n := ext_count s n + 1)\<rparr>)"
      by (rule sys_inv_frame [OF assms(1)]) (auto simp: closures_of_def)
    with ExtObs show ?thesis by (simp add: observer_OnDataProduced_def produce_effect_def)
  qed
  then show "observer_OnDataProduced data obs s = Inr (produce_effect data obs s)"
    and "sys_inv d (produce_effect data obs s)" by auto
  from observer_produced_frame [OF this(1)]
  show "factories (produce_effect data obs s) = factories s \<and> hosts (produce_effect data obs s) = hosts s" .
qed

lemma registered_frame: "factories s' = factories s \<Longrightarrow> registered i f s' = registered i f s"
  by (simp add: registered_def)

lemma produce_fold:
  assumes "sys_inv d s" "\<And>i. StubObs i \<in> set obss \<Longrightarrow> registered i f s"
  shows "fold_res (observer_OnDataProduced data) obss s = Inr (fold (produce_effect data) obss s) \<and>
    sys_inv d (fold (produce_effect data) obss s) \<and>
    factories (fold (produce_effect data) obss s) = factories s \<and> hosts (fold (produce_effect data) obss s) = hosts s"
  using assms
proof (induction obss arbitrary: s)
  case Nil
  then show ?case by simp
next
  case (Cons obs obss)
  have r: "\<And>i. obs = StubObs i \<Longrightarrow> registered i f s" using Cons.prems(2) by simp
  note e = produce_effect_inv [OF Cons.prems(1) r]
  have "\<And>i. StubObs i \<in> set obss \<Longrightarrow> registered i f (produce_effect data obs s)"
    using Cons.prems(2) registered_frame [of "produce_effect data obs s" s] e(3) [where data = data] by simp
  from Cons.IH [OF e(2) this] e(1,3) [where data = data] show ?case by simp
qed

section \<open>Destruction: the callbacks\<close>

text \<open>The abstract effect of \<open>OnFactoryDestroy\<close>: two closures for the host, and the stub is gone.\<close>

definition destroy_effect :: "fid \<Rightarrow> observer \<Rightarrow> sys \<Rightarrow> sys" where
  "destroy_effect f obs s =
     (case obs of
        ExtObs n \<Rightarrow> s
      | StubObs i \<Rightarrow>
          (case stubs s i of None \<Rightarrow> s
           | Some st \<Rightarrow> (case hosts s (st_observer st) of None \<Rightarrow> s
              | Some x \<Rightarrow>
                  (let h = st_observer st; t = h_host_thread x
                   in PostTask t (BindReplyDestroy h) (PostTask t (BindHostFactoryDestroy h) (detach i f h s))))))"

lemma destroy_effect_eq:
  "stubs s i = Some st \<Longrightarrow> hosts s (st_observer st) = Some x \<Longrightarrow>
   destroy_effect f (StubObs i) s = PostTask (h_host_thread x) (BindReplyDestroy (st_observer st))
     (PostTask (h_host_thread x) (BindHostFactoryDestroy (st_observer st)) (detach i f (st_observer st) s))"
  by (simp add: destroy_effect_def Let_def)

lemma OnFactoryDestroy_effect:
  assumes "sys_inv d s" "registered i f s"
  shows "FactoryStub_OnFactoryDestroy i s = Inr (destroy_effect f (StubObs i) s)"
proof -
  obtain st x o' where r: "stubs s i = Some st" "st_factory st = Some f" "factories s f = Some x"
    "hosts s (st_observer st) = Some o'" "h_stub o' = Some i"
    using inv_registered [OF assms] by metis
  then show ?thesis
    by (simp add: FactoryStub_OnFactoryDestroy_def Factory_RemoveObserver_def Stub_Destroy_def
        PostDestroy_def delete_stub_def Let_def destroy_effect_def detach_def sys_simps)
qed

lemma dom_hosts_detach: "dom (hosts s) \<subseteq> dom (hosts (detach i f h s))"
  by (auto simp: detach_def split: option.splits)

lemma destroy_effect_inv:
  assumes "sys_inv d s" "\<And>i. obs = StubObs i \<Longrightarrow> registered i f s"
  shows "observer_OnFactoryDestroy obs s = Inr (destroy_effect f obs s)"
    and "sys_inv d (destroy_effect f obs s)"
    and "dom (hosts s) \<subseteq> dom (hosts (destroy_effect f obs s))"
    and "registered j g (destroy_effect f obs s) \<longleftrightarrow> registered j g s \<and> obs \<noteq> StubObs j"
proof -
  have *: "observer_OnFactoryDestroy obs s = Inr (destroy_effect f obs s) \<and> sys_inv d (destroy_effect f obs s) \<and>
     dom (hosts s) \<subseteq> dom (hosts (destroy_effect f obs s)) \<and>
     (registered j g (destroy_effect f obs s) \<longleftrightarrow> registered j g s \<and> obs \<noteq> StubObs j)"
  proof (cases obs)
    case (StubObs i)
    with assms have r: "registered i f s" by simp
    then obtain st o' where st: "stubs s i = Some st" "hosts s (st_observer st) = Some o'"
      using inv_registered [OF assms(1)] by metis
    note dt = detach_inv [OF assms(1) r st(1) refl] registered_detach [OF assms(1) r st(1) refl]
    have dm: "dom (hosts s) \<subseteq> dom (hosts (detach i f (st_observer st) s))" by (rule dom_hosts_detach)
    then have h: "hosts (detach i f (st_observer st) s) (st_observer st) \<noteq> None" using st(2) by blast
    have "sys_inv d (destroy_effect f obs s)"
      unfolding StubObs destroy_effect_eq [OF st] using h by (intro PostTask_inv dt(1)) auto
    then show ?thesis
      using OnFactoryDestroy_effect [OF assms(1) r] StubObs dt(2) dm
      by (auto simp: observer_OnFactoryDestroy_def destroy_effect_eq [OF st])
  next
    case (ExtObs n)
    with assms(1) show ?thesis by (simp add: observer_OnFactoryDestroy_def destroy_effect_def)
  qed
  then show "observer_OnFactoryDestroy obs s = Inr (destroy_effect f obs s)"
    and "sys_inv d (destroy_effect f obs s)"
    and "dom (hosts s) \<subseteq> dom (hosts (destroy_effect f obs s))"
    and "registered j g (destroy_effect f obs s) \<longleftrightarrow> registered j g s \<and> obs \<noteq> StubObs j" by auto
qed

text \<open>What the callback may do to any list, in any state: the contract of a reentrant notification.\<close>

definition list_ok :: "observer olist \<Rightarrow> observer olist \<Rightarrow> bool" where
  "list_ok l l' \<longleftrightarrow> (olist_inv l \<longrightarrow> 0 < notify_depth l \<longrightarrow>
     olist_inv l' \<and> notify_depth l' = notify_depth l \<and> ntype l' = ntype l \<and> slots_le (observers l) (observers l'))"

definition list_step :: "fid \<Rightarrow> sys \<Rightarrow> sys \<Rightarrow> bool" where
  "list_step f s s' \<longleftrightarrow> rel_option list_ok (observers_of f s) (observers_of f s')"

lemma list_ok_refl [simp]: "list_ok l l"
  by (simp add: list_ok_def)

lemma list_ok_trans: "list_ok l1 l2 \<Longrightarrow> list_ok l2 l3 \<Longrightarrow> list_ok l1 l3"
  unfolding list_ok_def using slots_le_trans [of "observers l1" "observers l2" "observers l3"] by auto

lemma list_step_same: "observers_of f s' = observers_of f s \<Longrightarrow> list_step f s s'"
  by (cases "observers_of f s") (auto simp: list_step_def)

lemma list_step_trans: "list_step f s s1 \<Longrightarrow> list_step f s1 s2 \<Longrightarrow> list_step f s s2"
  by (auto simp: list_step_def rel_option_iff intro: list_ok_trans split: option.splits)

lemma list_step_remove: "Factory_RemoveObserver g obs s = Inr s' \<Longrightarrow> list_step f s s'"
proof -
  assume "Factory_RemoveObserver g obs s = Inr s'"
  then obtain x where x: "factories s g = Some x"
    "s' = put_factory g (x\<lparr>f_observers := RemoveObserver (Some obs) (f_observers x)\<rparr>) s"
    by (auto simp: Factory_RemoveObserver_def get_factory_def split: option.splits)
  have "list_ok (f_observers x) (RemoveObserver (Some obs) (f_observers x))"
    using RemoveObserver_contract [of "f_observers x" obs] by (auto simp: list_ok_def)
  with x show ?thesis
    by (cases "factories s f") (auto simp: list_step_def observers_of_def put_factory_def)
qed

lemma delete_stub_list_step: "delete_stub i s = Inr s' \<Longrightarrow> list_step f s s'"
proof -
  assume a: "delete_stub i s = Inr s'"
  then consider "observers_of f s' = observers_of f s"
    | g s1 where "Factory_RemoveObserver g (StubObs i) s = Inr s1" "observers_of f s' = observers_of f s1"
    by (auto simp: delete_stub_def bindR_eq_Inr observers_of_def split: option.splits if_splits)
  then show ?thesis
  proof cases
    case 1
    then show ?thesis by (rule list_step_same)
  next
    case 2
    then show ?thesis using list_step_trans [OF list_step_remove list_step_same] by blast
  qed
qed

lemma PostDestroy_list_step: "PostDestroy h s = Inr s' \<Longrightarrow> list_step f s s'"
proof -
  assume "PostDestroy h s = Inr s'"
  then obtain i s1 where "delete_stub i s = Inr s1" "observers_of f s' = observers_of f s1"
    by (auto simp: PostDestroy_def bindR_eq_Inr put_host_def observers_of_def split: option.splits)
  then show ?thesis using list_step_trans [OF delete_stub_list_step list_step_same] by blast
qed

lemma FactoryStub_OnFactoryDestroy_cases:
  assumes "FactoryStub_OnFactoryDestroy i s = Inr s'"
  obtains st g s1 s2 s3 where "stubs s i = Some st" "st_factory st = Some g"
    "Factory_RemoveObserver g (StubObs i) s = Inr s1" "factories s2 = factories s1"
    "PostDestroy (st_observer st) s2 = Inr s3" "factories s' = factories s3"
proof -
  from assms obtain st where st: "stubs s i = Some st"
    by (auto simp: FactoryStub_OnFactoryDestroy_def get_stub_def split: option.splits)
  with assms obtain g where g: "st_factory st = Some g"
    by (auto simp: FactoryStub_OnFactoryDestroy_def get_stub_def split: option.splits)
  from assms st g obtain s1 and o' :: host where a:
    "Factory_RemoveObserver g (StubObs i) s = Inr s1"
    "Stub_Destroy i (PostTask (h_host_thread o') (BindHostFactoryDestroy (st_observer st))
       (put_stub i (st\<lparr>st_factory := None\<rparr>) s1)) = Inr s'"
    by (auto simp: FactoryStub_OnFactoryDestroy_def get_stub_def get_host_def bindR_eq_Inr split: option.splits)
  define s2 where "s2 = PostTask (h_host_thread o') (BindHostFactoryDestroy (st_observer st))
       (put_stub i (st\<lparr>st_factory := None\<rparr>) s1)"
  from a(2) obtain s3 where "PostDestroy (st_observer st) s2 = Inr s3" "factories s' = factories s3"
    by (auto simp: Stub_Destroy_def Let_def get_stub_def bindR_eq_Inr put_stub_def s2_def)
  with a(1) st g show thesis by (intro that [of st g s1 s2 s3]) (auto simp: s2_def put_stub_def)
qed

lemma OnFactoryDestroy_list_step: "observer_OnFactoryDestroy obs s = Inr s' \<Longrightarrow> list_step f s s'"
proof (cases obs)
  case (StubObs i)
  assume "observer_OnFactoryDestroy obs s = Inr s'"
  with StubObs have "FactoryStub_OnFactoryDestroy i s = Inr s'" by (simp add: observer_OnFactoryDestroy_def)
  then obtain st :: stub and g s1 s2 s3 where r: "Factory_RemoveObserver g (StubObs i) s = Inr s1" "factories s2 = factories s1"
    "PostDestroy (st_observer st) s2 = Inr s3" "factories s' = factories s3"
    by (elim FactoryStub_OnFactoryDestroy_cases) blast
  have "list_step f s1 s2" "list_step f s3 s'"
    using r(2,4) by (auto intro!: list_step_same simp: observers_of_def)
  with list_step_remove [OF r(1)] PostDestroy_list_step [OF r(3)] show ?thesis
    by (blast intro: list_step_trans)
qed (auto simp: observer_OnFactoryDestroy_def intro: list_step_same)

interpretation destroyed: reentrant_notification "observers_of f" observer_OnFactoryDestroy "put_observers f"
  for f
proof (unfold_locales, goal_cases)
  case (1 s l x s' l')
  then show ?case using OnFactoryDestroy_list_step [of x s s' f] by (simp add: list_step_def list_ok_def)
next
  case (2 s l0 l)
  then show ?case by (rule observers_of_put)
next
  case (3 s l)
  then show ?case by (simp add: observers_of_def put_observers_def)
qed

section \<open>Destruction: the whole notification\<close>

text \<open>What a destroyed factory does to one observer, the factory itself aside.\<close>

definition bereave :: "observer \<Rightarrow> sys \<Rightarrow> sys" where
  "bereave obs s =
     (case obs of
        ExtObs n \<Rightarrow> s
      | StubObs i \<Rightarrow>
          (case stubs s i of None \<Rightarrow> s
           | Some st \<Rightarrow> (case hosts s (st_observer st) of None \<Rightarrow> s
              | Some x \<Rightarrow>
                  (let h = st_observer st; t = h_host_thread x
                   in PostTask t (BindReplyDestroy h) (PostTask t (BindHostFactoryDestroy h)
                        (s\<lparr>stubs := (stubs s)(i := None), hosts := (hosts s)(h \<mapsto> x\<lparr>h_stub := None\<rparr>)\<rparr>))))))"

lemma bereave_factories [simp]:
  "bereave obs (s\<lparr>factories := F\<rparr>) = (bereave obs s)\<lparr>factories := F\<rparr>"
  "factories (bereave obs s) = factories s" "g_factory (bereave obs s) = g_factory s"
  by (auto simp: bereave_def Let_def PostTask_def split: observer.splits option.splits)

lemma fold_bereave_factories [simp]:
  "fold bereave obss (s\<lparr>factories := F\<rparr>) = (fold bereave obss s)\<lparr>factories := F\<rparr>"
  "factories (fold bereave obss s) = factories s" "g_factory (fold bereave obss s) = g_factory s"
  by (induction obss arbitrary: s) auto

lemma destroy_effect_bereave:
  assumes "sys_inv d s" "\<And>i. obs = StubObs i \<Longrightarrow> registered i f s" "factories s f = Some x"
  obtains y where "destroy_effect f obs s = (bereave obs s)\<lparr>factories := (factories s)(f \<mapsto> y)\<rparr>"
    "f_observers y = (case obs of ExtObs n \<Rightarrow> f_observers x | StubObs i \<Rightarrow> RemoveObserver (Some obs) (f_observers x))"
proof (cases obs)
  case (StubObs i)
  with assms have r: "registered i f s" by simp
  then obtain st where st: "stubs s i = Some st" using inv_registered [OF assms(1)] by metis
  obtain o' where e: "hosts s (st_observer st) = Some o'"
    "detach i f (st_observer st) s = s\<lparr>factories := (factories s)(f \<mapsto> x\<lparr>f_observers := RemoveObserver (Some (StubObs i)) (f_observers x)\<rparr>),
             stubs := (stubs s)(i := None), hosts := (hosts s)(st_observer st \<mapsto> o'\<lparr>h_stub := None\<rparr>)\<rparr>"
    using detach_eq [OF assms(1) r st refl] assms(3) by (metis option.inject)
  with StubObs st show thesis
    by (intro that [of "x\<lparr>f_observers := RemoveObserver (Some (StubObs i)) (f_observers x)\<rparr>"])
      (simp_all add: destroy_effect_eq bereave_def Let_def PostTask_def)
next
  case (ExtObs n)
  with assms(3) show thesis
    by (intro that [of x]) (simp_all add: destroy_effect_def bereave_def fun_upd_idem)
qed

lemma pending_distinct: "olist_inv l \<Longrightarrow> distinct (pending it l)"
proof -
  let ?ps = "observers l" and ?m = "upto_index it (observers l)"
  assume "olist_inv l"
  then have "distinct (live ?ps)" by (simp add: olist_inv_def)
  moreover have "live ?ps = live (take (index it) (take ?m ?ps)) @ live (drop (index it) (take ?m ?ps)) @ live (drop ?m ?ps)"
    by (metis append_assoc append_take_drop_id live_append)
  ultimately have "distinct (live (drop (index it) (take ?m ?ps)))" by (metis distinct_append)
  then show ?thesis by (simp add: pending_def)
qed

lemma RemoveObserver_length: "notify_depth l \<noteq> 0 \<Longrightarrow> length (observers (RemoveObserver p l)) = length (observers l)"
  by (simp add: RemoveObserver_def split: option.splits)

lemma destroy_loop:
  assumes "sys_inv d s" "0 < d f" "factories s f = Some x" "max_index it = None"
    and "\<And>i. registered i f s \<Longrightarrow> StubObs i \<in> set (pending it (f_observers x))"
    and "length (observers (f_observers x)) - index it < n"
  shows "\<exists>s' y. notify_loop n (observers_of f) observer_OnFactoryDestroy it s = Some (Inr s') \<and>
    s' = (fold bereave (pending it (f_observers x)) s)\<lparr>factories := (factories s)(f \<mapsto> y)\<rparr> \<and>
    sys_inv d s' \<and> (\<forall>i. \<not> registered i f s') \<and> dom (hosts s) \<subseteq> dom (hosts s')"
  using assms
proof (induction n arbitrary: s it x)
  case 0
  then show ?case by simp
next
  case (Suc n)
  let ?l = "f_observers x"
  have l: "observers_of f s = Some ?l" using Suc.prems(3) by (simp add: observers_of_def)
  have li: "olist_inv ?l" "notify_depth ?l = d f" using inv_factory [OF Suc.prems(1,3)] by auto
  obtain nx it' where g: "GetNext it (Some ?l) = (nx, it')" by (cases "GetNext it (Some ?l)")
  show ?case
  proof (cases nx)
    case None
    have p: "pending it ?l = []" using GetNext_pending(1) g None by blast
    then have "\<not> registered i f s" for i using Suc.prems(5) [of i] by auto
    with g None l p Suc.prems(1,3) show ?thesis
      by (intro exI [of _ s] exI [of _ x]) (simp add: fun_upd_idem)
  next
    case (Some obs)
    with g have g': "GetNext it (Some ?l) = (Some obs, it')" by simp
    note gp = GetNext_pending(2) [OF g']
    have r: "registered i f s" if "obs = StubObs i" for i
      using GetNext_registered [OF g'] that Suc.prems(3) by (simp add: registered_def)
    note e = destroy_effect_inv [OF Suc.prems(1) r]
    obtain y where y: "destroy_effect f obs s = (bereave obs s)\<lparr>factories := (factories s)(f \<mapsto> y)\<rparr>"
      "f_observers y = (case obs of ExtObs n \<Rightarrow> ?l | StubObs i \<Rightarrow> RemoveObserver (Some obs) ?l)"
      using destroy_effect_bereave [OF Suc.prems(1) r Suc.prems(3)] by blast
    have fy: "factories (destroy_effect f obs s) f = Some y" using y(1) by simp
    have "obs \<notin> set (pending it' ?l)" using pending_distinct [OF li(1), of it] gp by simp
    then have pe: "pending it' (f_observers y) = pending it' ?l"
      using y(2) li Suc.prems(2) pending_RemoveObserver [of ?l it' obs]
      by (auto simp: olist_inv_def removeAll_id split: observer.splits)
    have len: "length (observers (f_observers y)) = length (observers ?l)"
      using y(2) li Suc.prems(2) by (auto simp: RemoveObserver_length split: observer.splits)
    have reg: "StubObs i \<in> set (pending it' (f_observers y))" if "registered i f (destroy_effect f obs s)" for i
      using that e(4) [where j = i and g = f] Suc.prems(5) [of i] gp pe by auto
    have lt: "length (observers (f_observers y)) - index it' < n"
      using Suc.prems(6) gp len upto_index_le [of it "observers ?l"] by linarith
    have m: "max_index it' = None" using gp Suc.prems(4) by simp
    obtain s' z where ih: "notify_loop n (observers_of f) observer_OnFactoryDestroy it' (destroy_effect f obs s) = Some (Inr s')"
      "s' = (fold bereave (pending it' (f_observers y)) (destroy_effect f obs s))\<lparr>factories :=
          (factories (destroy_effect f obs s))(f \<mapsto> z)\<rparr>"
      "sys_inv d s'" "\<forall>i. \<not> registered i f s'" "dom (hosts (destroy_effect f obs s)) \<subseteq> dom (hosts s')"
      using Suc.IH [OF e(2) Suc.prems(2) fy m reg lt] by blast
    have "s' = (fold bereave (pending it ?l) s)\<lparr>factories := (factories s)(f \<mapsto> z)\<rparr>"
      using ih(2) gp pe by (simp add: y(1))
    moreover have "notify_loop (Suc n) (observers_of f) observer_OnFactoryDestroy it s = Some (Inr s')"
      using g' l e(1) ih(1) by simp
    ultimately show ?thesis using ih(3-5) e(3) by blast
  qed
qed

lemma free_factory_inv:
  assumes "sys_inv d s" "\<And>i. \<not> registered i f s" "\<And>g. g \<noteq> f \<Longrightarrow> d' g = d g"
  shows "sys_inv d' (s\<lparr>factories := (factories s)(f := None), g_factory := None\<rparr>)"
proof -
  let ?s = "s\<lparr>factories := (factories s)(f := None), g_factory := None\<rparr>"
  have reg: "registered i g ?s = registered i g s" for i g
    using assms(2) [of i] by (auto simp: registered_def)
  have "factories_ok d' ?s"
    using assms(1,3) by (auto simp: sys_inv_def factories_ok_def)
  moreover have "stubs_ok ?s"
    using assms(1) unfolding sys_inv_def stubs_ok_def reg by simp
  moreover have "hosts_ok ?s" "queues_ok ?s"
    using assms(1) by (auto simp: sys_inv_def hosts_ok_def queues_ok_def closures_of_def)
  ultimately show ?thesis by (simp add: sys_inv_def)
qed

lemma put_depth_inv:
  assumes "sys_inv d s" "factories s f = Some x" "0 < k"
  shows "sys_inv (d(f := k)) (put_observers f ((f_observers x)\<lparr>notify_depth := k\<rparr>) s)"
proof -
  let ?s = "put_observers f ((f_observers x)\<lparr>notify_depth := k\<rparr>) s"
  have e: "?s = s\<lparr>factories := (factories s)(f \<mapsto> x\<lparr>f_observers := (f_observers x)\<lparr>notify_depth := k\<rparr>\<rparr>)\<rparr>"
    using assms(2) by (simp add: put_observers_def put_factory_def)
  have reg: "registered i g ?s = registered i g s" for i g
    using assms(2) by (auto simp: registered_def e)
  have "factories_ok (d(f := k)) ?s"
    using assms inv_factory [OF assms(1)] unfolding sys_inv_def factories_ok_def by (auto simp: e olist_inv_def)
  moreover have "stubs_ok ?s"
    using assms(1) unfolding sys_inv_def stubs_ok_def reg by simp
  moreover have "hosts_ok ?s" "queues_ok ?s"
    using assms(1) by (auto simp: sys_inv_def hosts_ok_def queues_ok_def closures_of_def)
  ultimately show ?thesis by (simp add: sys_inv_def)
qed

text \<open>
  \<open>Factory::Destroy\<close> always succeeds: each registered stub is taken away in registration
  order with its two closures posted, and the factory is gone.
\<close>

lemma Factory_Destroy_result:
  assumes "idle_inv s" "factories s f = Some x"
  shows "Factory_Destroy f s =
      Inr ((fold bereave (live (observers (f_observers x))) s)\<lparr>factories := (factories s)(f := None), g_factory := None\<rparr>)"
    and "idle_inv ((fold bereave (live (observers (f_observers x))) s)\<lparr>factories := (factories s)(f := None), g_factory := None\<rparr>)"
    and "dom (hosts s) \<subseteq> dom (hosts (fold bereave (live (observers (f_observers x))) s))"
proof -
  let ?l = "f_observers x"
  let ?r = "(fold bereave (live (observers ?l)) s)\<lparr>factories := (factories s)(f := None), g_factory := None\<rparr>"
  have l: "observers_of f s = Some ?l" using assms(2) by (simp add: observers_of_def)
  note li = inv_factory [OF assms]
  have "Factory_Destroy f s = Inr ?r \<and> idle_inv ?r \<and> dom (hosts s) \<subseteq> dom (hosts (fold bereave (live (observers ?l)) s))"
  proof (cases "might_have_observers ?l")
    case False
    then have e: "observers ?l = []" by (simp add: might_have_observers_def olist_size_def)
    then have "NotifyDestroy f s = Inr s"
      using l False by (simp add: NotifyDestroy_def run_notification_def for_each_observer_def)
    then have "Factory_Destroy f s = Inr ?r"
      using assms(2) e by (simp add: Factory_Destroy_def get_factory_def put_factory_def)
    moreover have "idle_inv ?r"
      using free_factory_inv [OF assms(1), of f] assms(2) e by (simp add: registered_def)
    ultimately show ?thesis using e by simp
  next
    case True
    define it where "it = \<lparr>index = 0, max_index = None\<rparr>"
    define l1 where "l1 = ?l\<lparr>notify_depth := 1\<rparr>"
    define s1 where "s1 = put_observers f l1 s"
    have b: "iter_begin ?l = (it, l1)"
      using li by (simp add: iter_begin_def it_def l1_def)
    have fx: "factories s1 f = Some (x\<lparr>f_observers := l1\<rparr>)"
      using assms(2) by (simp add: s1_def put_observers_def put_factory_def)
    have fs1: "factories s1 = (factories s)(f \<mapsto> x\<lparr>f_observers := l1\<rparr>)" "s1 = s\<lparr>factories := (factories s)(f \<mapsto> x\<lparr>f_observers := l1\<rparr>)\<rparr>"
      using assms(2) by (simp_all add: s1_def put_observers_def put_factory_def)
    have p: "pending it l1 = live (observers ?l)" using pending_begin [OF b] .
    have inv: "sys_inv ((\<lambda>_. 0)(f := 1)) s1"
      unfolding s1_def l1_def by (rule put_depth_inv [OF assms]) simp
    have reg: "StubObs i \<in> set (pending it l1)" if "registered i f s1" for i
      using that p fx by (simp add: registered_def l1_def)
    obtain s' y where r: "notify_loop (notify_fuel f s) (observers_of f) observer_OnFactoryDestroy it s1 = Some (Inr s')"
      "s' = (fold bereave (pending it l1) s1)\<lparr>factories := (factories s1)(f \<mapsto> y)\<rparr>"
      "sys_inv ((\<lambda>_. 0)(f := 1)) s'" "\<forall>i. \<not> registered i f s'" "dom (hosts s1) \<subseteq> dom (hosts s')"
      using destroy_loop [OF inv _ fx, of it "notify_fuel f s"] reg
      by (auto simp: it_def l1_def notify_fuel_def l olist_size_def)
    have l': "observers_of f s' = Some (f_observers y)" using r(2) by (simp add: observers_of_def)
    have s'y: "factories s' f = Some y" using r(2) by simp
    have "NotifyDestroy f s = Inr (put_observers f (iter_end (f_observers y)) s')"
      using True l b r(1) l'
      by (simp add: NotifyDestroy_def run_notification_def for_each_observer_def s1_def)
    then have "Factory_Destroy f s = Inr (s'\<lparr>factories := (factories s')(f := None), g_factory := None\<rparr>)"
      using s'y by (simp add: Factory_Destroy_def get_factory_def put_factory_def put_observers_def)
    moreover have "s'\<lparr>factories := (factories s')(f := None), g_factory := None\<rparr> = ?r"
      using r(2) p fs1 by simp
    moreover have "idle_inv (s'\<lparr>factories := (factories s')(f := None), g_factory := None\<rparr>)"
      using free_factory_inv [OF r(3), of f "\<lambda>_. 0"] r(4) by simp
    moreover have "hosts s' = hosts (fold bereave (live (observers ?l)) s)" "hosts s1 = hosts s"
      using r(2) p fs1(2) by simp_all
    ultimately show ?thesis using r(5) by simp
  qed
  then show "Factory_Destroy f s = Inr ?r" "idle_inv ?r"
    "dom (hosts s) \<subseteq> dom (hosts (fold bereave (live (observers ?l)) s))" by auto
qed

end
