(* ===== verification/OscSystem.thy ===== *)
theory OscSystem imports FactoryInv begin

text \<open>
  The program as a transition system.  A step is one task of one thread (the head of its
  FIFO, or the earliest delayed task once it is due), the passing of time, a call of the
  client, or the deletion of a host by its last reference.  Tasks are atomic; the threads
  interleave in any order.  What is proved about every reachable state: the invariant of
  \<open>OscInv\<close>, hence memory safety.
\<close>

section \<open>Operations of the factory keep the invariant\<close>

definition sound :: "sys \<Rightarrow> sys res \<Rightarrow> bool" where
  "sound s r \<longleftrightarrow>
     (case r of
        Inl e \<Rightarrow> (\<exists>m. e = DcheckFailed m)
      | Inr s' \<Rightarrow> idle_inv s' \<and> dom (hosts s) \<subseteq> dom (hosts s'))"

lemma sound_Inr [simp]: "sound s (Inr s') \<longleftrightarrow> idle_inv s' \<and> dom (hosts s) \<subseteq> dom (hosts s')"
  by (simp add: sound_def)

lemma sound_Inl [simp]: "sound s (Inl e) \<longleftrightarrow> (\<exists>m. e = DcheckFailed m)"
  by (simp add: sound_def)

lemma sound_same_hosts: "sound s' r \<Longrightarrow> dom (hosts s) \<subseteq> dom (hosts s') \<Longrightarrow> sound s r"
  by (auto simp: sound_def split: sum.splits)

lemma produce_effect_produce_id [simp]:
  "produce_id (produce_effect data obs s) = produce_id s"
  "delayed (produce_effect data obs s) = delayed s"
  "next_addr (produce_effect data obs s) = next_addr s"
  by (auto simp: produce_effect_def Let_def put_stub_def split: observer.splits option.splits prod.splits)

lemma fold_produce_effect_produce_id [simp]:
  "produce_id (fold (produce_effect data) obss s) = produce_id s"
  "delayed (fold (produce_effect data) obss s) = delayed s"
  "next_addr (fold (produce_effect data) obss s) = next_addr s"
  by (induction obss arbitrary: s) auto

definition produced_data :: "int \<Rightarrow> factory_data" where
  "produced_data i = \<lparr>fd_data = data_string i, fd_id = i\<rparr>"

lemma Produce_result:
  assumes "idle_inv s" "factories s f = Some x"
  shows "Produce f s = Inr ((fold (produce_effect (produced_data (produce_id s))) (live (observers (f_observers x)))
      (put_factory f (x\<lparr>f_data := produced_data (produce_id s)\<rparr>) s))\<lparr>produce_id := int32_succ (produce_id s)\<rparr>)"
    and "sound s (Produce f s)"
proof -
  let ?data = "produced_data (produce_id s)"
  let ?s1 = "put_factory f (x\<lparr>f_data := ?data\<rparr>) s"
  have d: "set_data (data_string (produce_id s)) (set_id (produce_id s) new_FactoryData) = ?data"
    by (simp add: set_data_def set_id_def new_FactoryData_def produced_data_def)
  have i1: "idle_inv ?s1" by (rule put_factory_inv [OF assms]) auto
  have f1: "factories ?s1 f = Some (x\<lparr>f_data := ?data\<rparr>)" by (simp add: put_factory_def)
  have reg: "registered i f ?s1" if "StubObs i \<in> set (live (observers (f_observers x)))" for i
    using that f1 by (simp add: registered_def)
  note fold = produce_fold [OF i1, of "live (observers (f_observers x))", OF reg]
  have p: "produce_id ?s1 = produce_id s" "hosts ?s1 = hosts s" by (simp_all add: put_factory_def)
  show e: "Produce f s = Inr ((fold (produce_effect ?data) (live (observers (f_observers x))) ?s1)\<lparr>produce_id := int32_succ (produce_id s)\<rparr>)"
    using fold NotifyProduced_fold [OF i1 f1]
    by (simp add: Produce_def get_factory_def assms(2) d p Let_def)
  have "idle_inv ((fold (produce_effect ?data) (live (observers (f_observers x))) ?s1)\<lparr>produce_id := int32_succ (produce_id s)\<rparr>)"
    by (rule sys_inv_frame [of "\<lambda>_. 0" "fold (produce_effect ?data) (live (observers (f_observers x))) ?s1"])
      (use fold in \<open>auto simp: closures_of_def\<close>)
  then show "sound s (Produce f s)" using e fold p by simp
qed

lemma PostDelayedTask_simps [simp]:
  "factories (PostDelayedTask t c d s) = factories s" "stubs (PostDelayedTask t c d s) = stubs s"
  "hosts (PostDelayedTask t c d s) = hosts s" "g_factory (PostDelayedTask t c d s) = g_factory s"
  "next_addr (PostDelayedTask t c d s) = next_addr s" "produce_id (PostDelayedTask t c d s) = produce_id s"
  "now_time (PostDelayedTask t c d s) = now_time s"
  by (simp_all add: PostDelayedTask_def)

lemma Schedule_sound:
  assumes "idle_inv s" "factories s f = Some x"
  shows "sound s (Schedule f s)"
proof -
  let ?s1 = "put_factory f (x\<lparr>f_last_ticks := now_ticks s\<rparr>) s"
  have i1: "idle_inv ?s1" by (rule put_factory_inv [OF assms]) auto
  let ?s2 = "PostDelayedTask (f_thread x) (BindSchedule f (f_weak_gen x))
        (FromMicroseconds (int (micros_per_item (nat (f_speed x))))) ?s1"
  have i2: "idle_inv ?s2" by (rule PostDelayedTask_inv [OF i1]) simp
  have f2: "factories ?s2 f = Some (x\<lparr>f_last_ticks := now_ticks s\<rparr>)" by (simp add: put_factory_def)
  have h: "hosts ?s2 = hosts s" "hosts ?s1 = hosts s" by (simp_all add: put_factory_def)
  have "0 < f_speed x" using inv_factory [OF assms] by simp
  then show ?thesis
    using Produce_result(2) [OF i2 f2] i1 h
    by (auto simp: Schedule_def get_factory_def assms(2) Let_def sound_def split: sum.splits)
qed

lemma new_Factory_inv: "idle_inv s \<Longrightarrow> idle_inv (snd (new_Factory t s))"
proof -
  assume inv: "idle_inv s"
  let ?s = "snd (new_Factory t s)"
  have fn: "factories s (next_addr s) = None"
    using inv_factory [OF inv, of "next_addr s"] by (cases "factories s (next_addr s)") auto
  have reg: "registered i g ?s = registered i g s" for i g
    using fn by (auto simp: registered_def new_Factory_def Let_def put_factory_def new_olist_def)
  have "factories_ok (\<lambda>_. 0) ?s"
    unfolding factories_ok_def
  proof (intro conjI allI impI)
    fix f x
    assume "factories ?s f = Some x"
    then have "factories s f = Some x \<or> f = next_addr s \<and> f_observers x = new_olist NOTIFY_ALL \<and> f_speed x = 1000"
      by (auto simp: new_Factory_def Let_def put_factory_def split: if_splits)
    moreover have "next_addr ?s = Suc (next_addr s)" by (simp add: new_Factory_def Let_def put_factory_def)
    ultimately show "f < next_addr ?s" "olist_inv (f_observers x)" "notify_depth (f_observers x) = 0"
      "ntype (f_observers x) = NOTIFY_ALL" "0 < f_speed x"
      using inv_factory [OF inv, of f x] new_olist_inv [of NOTIFY_ALL] by (auto simp: new_olist_def)
  qed (use inv_current [OF inv] in \<open>auto simp: new_Factory_def Let_def put_factory_def\<close>)
  moreover have "stubs_ok ?s" "hosts_ok ?s" "queues_ok ?s"
    using inv unfolding sys_inv_def stubs_ok_def hosts_ok_def queues_ok_def reg
    by (auto simp: new_Factory_def Let_def put_factory_def closures_of_def intro: less_SucI)
  ultimately show ?thesis by (simp add: sys_inv_def)
qed

lemma Start_sound: "idle_inv s \<Longrightarrow> factories s f = Some x \<Longrightarrow> sound s (Start f s)"
  by (auto simp: Start_def get_factory_def intro!: PostTask_inv put_factory_inv) (auto simp: put_factory_def)

lemma Stop_sound: "idle_inv s \<Longrightarrow> factories s f = Some x \<Longrightarrow> sound s (Stop f s)"
  by (auto simp: Stop_def get_factory_def intro!: put_factory_inv) (auto simp: put_factory_def)

lemma new_host_sound:
  assumes "idle_inv s"
  shows "sound s (bindR (new_host t1 t2 q s) (\<lambda>(h, s'). Inr s'))"
proof (cases "case q of None \<Rightarrow> True | Some f \<Rightarrow> 0 < f")
  case False
  then show ?thesis by (auto simp: new_host_def dcheck_def split: option.splits)
next
  case True
  let ?x = "\<lparr>h_stub = None, h_task_thread = t1, h_host_thread = t2,
           h_init = False, h_destroy = False, h_data = None, h_receive = 0, h_destroy_time = 0,
           h_factory_destroy = 0, h_init_freq = q\<rparr>"
  let ?s = "put_host (next_addr s) ?x (s\<lparr>next_addr := Suc (next_addr s)\<rparr>)"
  have hn: "hosts s (next_addr s) = None"
    using assms unfolding sys_inv_def hosts_ok_def by (metis less_irrefl not_None_eq)
  have reg: "registered i g ?s = registered i g s" for i g
    by (simp add: registered_def put_host_def)
  have "factories_ok (\<lambda>_. 0) ?s"
    using assms unfolding sys_inv_def factories_ok_def by (auto simp: put_host_def intro: less_SucI)
  moreover have "st_observer st \<noteq> next_addr s" if "stubs s i = Some st" for i st
    using assms hn that unfolding sys_inv_def stubs_ok_def by (metis option.distinct(1))
  then have "stubs_ok ?s"
    using assms unfolding sys_inv_def stubs_ok_def reg
    by (auto simp: put_host_def intro: less_SucI)
  moreover have "hosts_ok ?s" "queues_ok ?s"
    using assms unfolding sys_inv_def hosts_ok_def queues_ok_def
    by (auto simp: put_host_def closures_of_def intro: less_SucI)
  ultimately have "idle_inv ?s" by (simp add: sys_inv_def)
  with True show ?thesis
    by (auto simp: new_host_def dcheck_def Let_def put_host_def split: option.splits)
qed

section \<open>Running closures\<close>

lemma dom_put_host: "hosts s h = Some x \<Longrightarrow> dom (hosts (put_host h y s)) = dom (hosts s)"
  by (auto simp: put_host_def)

lemma PostInit_sound:
  assumes "idle_inv s" "hosts s h = Some x"
  shows "sound s (PostInit h s)"
proof (cases "h_stub x = None \<and> g_factory s \<noteq> None")
  case True
  then obtain f where f: "h_stub x = None" "g_factory s = Some f" by auto
  obtain y where y: "factories s f = Some y" using inv_current [OF assms(1) f(2)] by blast
  have "dom (hosts s) \<subseteq> dom (hosts (attach f h s))" by (auto simp: attach_eq [OF y assms(2)])
  then show ?thesis
    using PostInit_attach [OF assms f] attach_inv [OF assms(1) y assms(2) f(1)] by simp
next
  case False
  then show ?thesis using PostInit_fails [OF assms(2)] by (cases "h_stub x") auto
qed

lemma PostDestroy_sound:
  assumes "idle_inv s" "hosts s h = Some x"
  shows "sound s (PostDestroy h s)"
proof (cases "h_stub x")
  case None
  then show ?thesis using PostDestroy_none [OF assms(2)] by simp
next
  case (Some i)
  obtain st f where st: "stubs s i = Some st" "st_observer st = h" "registered i f s"
    using inv_host_stub [OF assms Some] by metis
  show ?thesis
    using PostDestroy_detach [OF assms(1) st(3,1,2)] detach_inv [OF assms(1) st(3,1,2)] dom_hosts_detach by simp
qed

lemma host_update_sound:
  "idle_inv s \<Longrightarrow> hosts s h = Some x \<Longrightarrow> h_stub y = h_stub x \<Longrightarrow> sound s (Inr (put_host h y s))"
  by (simp add: put_host_inv dom_put_host)

lemma run_closure_sound:
  "idle_inv s \<Longrightarrow> (\<And>h. h \<in> set (closure_hosts c) \<Longrightarrow> hosts s h \<noteq> None) \<Longrightarrow> sound s (run_closure c s)"
proof (induction c arbitrary: s)
  case (BindSchedule f gen)
  then show ?case by (auto intro: Schedule_sound split: option.splits)
next
  case (BindPostInit h)
  then show ?case by (auto intro: PostInit_sound)
next
  case (BindReplyInit h)
  then show ?case by (fastforce simp: ReplyInit_def get_host_def dcheck_def simp del: sound_Inr intro: host_update_sound)
next
  case (BindPostDestroy h)
  then show ?case by (auto intro: PostDestroy_sound)
next
  case (BindReplyDestroy h)
  then show ?case by (fastforce simp: ReplyDestroy_def OnDestroy_def get_host_def simp del: sound_Inr intro: host_update_sound)
next
  case (BindHostData h data)
  then show ?case by (fastforce simp: Host_OnDataProduced_def get_host_def simp del: sound_Inr intro: host_update_sound)
next
  case (BindHostFactoryDestroy h)
  then show ?case by (fastforce simp: Host_OnFactoryDestory_def get_host_def simp del: sound_Inr intro: host_update_sound)
next
  case (BindRelayRun task reply origin)
  then have s: "sound s (run_closure task s)" by simp
  show ?case
  proof (cases "run_closure task s")
    case (Inl e)
    with s show ?thesis by simp
  next
    case (Inr s1)
    with s have s1: "idle_inv s1" "dom (hosts s) \<subseteq> dom (hosts s1)" by simp_all
    with BindRelayRun.prems(2) have "\<And>h. h \<in> set (closure_hosts reply) \<Longrightarrow> hosts s1 h \<noteq> None" by auto
    then have "idle_inv (PostTask origin (BindRelayReply reply) s1)" using s1 by (intro PostTask_inv) auto
    with Inr s1 show ?thesis by simp
  qed
next
  case (BindRelayReply reply)
  then show ?case by simp
qed

section \<open>Steps\<close>

text \<open>The earliest delayed task, the first posted of those with the same time, if it is due.\<close>

fun take_due :: "time_ticks \<Rightarrow> (time_ticks \<times> closure) list \<Rightarrow> (closure \<times> (time_ticks \<times> closure) list) option" where
  "take_due now [] = None"
| "take_due now ((t, c) # ds) =
     (if t \<le> now \<and> list_all (\<lambda>(t', c'). t \<le> t') ds then Some (c, ds)
      else map_option (\<lambda>(c', ds'). (c', (t, c) # ds')) (take_due now ds))"

datatype action =
    Run tid
  | Fire tid
  | Tick time_delta time
  | NewFactory tid
  | CallStart fid
  | CallStop fid
  | CallFactoryDestroy fid
  | CallAddObserver fid nat
  | CallRemoveObserver fid nat
  | NewHost tid tid "int option"
  | CallInit tid hid
  | CallDestroy tid hid
  | DeleteHost hid

definition unreferenced :: "hid \<Rightarrow> sys \<Rightarrow> bool" where
  "unreferenced h s \<longleftrightarrow> (\<forall>t c. c \<in> set (closures_of t s) \<longrightarrow> h \<notin> set (closure_hosts c)) \<and>
     (\<forall>i st. stubs s i = Some st \<longrightarrow> st_observer st \<noteq> h)"

text \<open>
  The client calls methods only of objects it holds: a factory it has not destroyed, a host
  it has a reference to.  It registers an observer of its own at most once.
\<close>

inductive step :: "sys \<Rightarrow> action \<Rightarrow> sys res \<Rightarrow> bool" where
  run: "queue s t = c # cs \<Longrightarrow> step s (Run t) (run_closure c (s\<lparr>queue := (queue s)(t := cs)\<rparr>))"
| fire: "take_due (now_ticks s) (delayed s t) = Some (c, ds) \<Longrightarrow>
    step s (Fire t) (run_closure c (s\<lparr>delayed := (delayed s)(t := ds)\<rparr>))"
| tick: "TimeDelta 0 \<le> d \<Longrightarrow>
    step s (Tick d w) (Inr (s\<lparr>now_ticks := ticks_plus (now_ticks s) d, now_time := w\<rparr>))"
| new_factory: "step s (NewFactory t) (Inr (snd (new_Factory t s)))"
| start: "factories s f \<noteq> None \<Longrightarrow> step s (CallStart f) (Start f s)"
| stop: "factories s f \<noteq> None \<Longrightarrow> step s (CallStop f) (Stop f s)"
| factory_destroy: "factories s f \<noteq> None \<Longrightarrow> step s (CallFactoryDestroy f) (Factory_Destroy f s)"
| add: "factories s f = Some x \<Longrightarrow> \<not> HasObserver (Some (ExtObs n)) (f_observers x) \<Longrightarrow>
    step s (CallAddObserver f n) (Factory_AddObserver f (ExtObs n) s)"
| remove: "factories s f \<noteq> None \<Longrightarrow> step s (CallRemoveObserver f n) (Factory_RemoveObserver f (ExtObs n) s)"
| new_host: "step s (NewHost t1 t2 q) (bindR (new_host t1 t2 q s) (\<lambda>(h, s'). Inr s'))"
| init: "hosts s h \<noteq> None \<Longrightarrow> step s (CallInit cur h) (Init cur h s)"
| destroy: "hosts s h \<noteq> None \<Longrightarrow> step s (CallDestroy cur h) (Destroy cur h s)"
| delete_host: "hosts s h = Some x \<Longrightarrow> unreferenced h s \<Longrightarrow>
    step s (DeleteHost h) (bindR (host_destructor_check x) (\<lambda>_. Inr (s\<lparr>hosts := (hosts s)(h := None)\<rparr>)))"

inductive_cases step_cases: "step s a r"

inductive reachable :: "sys \<Rightarrow> bool" where
  start: "reachable init_sys"
| step: "reachable s \<Longrightarrow> step s a (Inr s') \<Longrightarrow> reachable s'"

definition ok_result :: "sys res \<Rightarrow> bool" where
  "ok_result r \<longleftrightarrow> (case r of Inl e \<Rightarrow> (\<exists>m. e = DcheckFailed m) | Inr s' \<Rightarrow> idle_inv s')"

lemma sound_ok: "sound s r \<Longrightarrow> ok_result r"
  by (auto simp: sound_def ok_result_def split: sum.splits)

lemma take_due_subset: "take_due now ds = Some (c, ds') \<Longrightarrow> c \<in> set (map snd ds) \<and> set ds' \<subseteq> set ds"
  by (induction ds arbitrary: c ds') (force split: if_splits)+

lemma popped_inv:
  assumes "idle_inv s" "\<And>t. set (closures_of t s') \<subseteq> set (closures_of t s)"
    "factories s' = factories s" "stubs s' = stubs s" "hosts s' = hosts s" "g_factory s' = g_factory s"
    "next_addr s' = next_addr s"
  shows "idle_inv s'"
proof -
  have reg: "registered i f s' = registered i f s" for i f using assms(3) by (simp add: registered_def)
  show ?thesis using assms(1,2) unfolding inv_defs reg assms(3-7) by blast
qed

lemma run_step_ok:
  assumes "idle_inv s" "\<And>t. set (closures_of t s') \<subseteq> set (closures_of t s)" "c \<in> set (closures_of t s)"
    "factories s' = factories s" "stubs s' = stubs s" "hosts s' = hosts s" "g_factory s' = g_factory s"
    "next_addr s' = next_addr s"
  shows "sound s' (run_closure c s')"
  using popped_inv [OF assms(1,2,4-8)] inv_closure [OF assms(1,3)] assms(6) by (intro run_closure_sound) auto

lemma delete_host_inv:
  assumes inv: "idle_inv s" and u: "unreferenced h s"
  shows "idle_inv (s\<lparr>hosts := (hosts s)(h := None)\<rparr>)"
proof -
  let ?s = "s\<lparr>hosts := (hosts s)(h := None)\<rparr>"
  have reg: "registered i g ?s = registered i g s" for i g by (simp add: registered_def)
  have "factories_ok (\<lambda>_. 0) ?s" using inv unfolding sys_inv_def factories_ok_def by simp
  moreover have "stubs_ok ?s"
    using inv u unfolding sys_inv_def stubs_ok_def reg unreferenced_def by simp
  moreover have "hosts_ok ?s" using inv unfolding sys_inv_def hosts_ok_def by simp
  moreover have "queues_ok ?s"
    using inv u unfolding sys_inv_def queues_ok_def unreferenced_def by (auto simp: closures_of_def)
  ultimately show ?thesis by (simp add: sys_inv_def)
qed

lemma add_observer_inv:
  assumes "idle_inv s" "factories s f = Some x" "\<not> HasObserver (Some (ExtObs n)) (f_observers x)"
  shows "ok_result (Factory_AddObserver f (ExtObs n) s)"
proof -
  let ?l = "(f_observers x)\<lparr>observers := observers (f_observers x) @ [Some (ExtObs n)]\<rparr>"
  let ?s = "put_factory f (x\<lparr>f_observers := ?l\<rparr>) s"
  have reg: "registered i g ?s = registered i g s" for i g
    using assms(2) by (auto simp: registered_def put_factory_def)
  have li: "olist_inv ?l" using inv_factory [OF assms(1,2)] assms(3) by (auto simp: olist_inv_def)
  have "factories_ok (\<lambda>_. 0) ?s"
    using assms(1,2) li unfolding sys_inv_def factories_ok_def by (auto simp: put_factory_def)
  moreover have "stubs_ok ?s" using assms(1) unfolding sys_inv_def stubs_ok_def reg by (simp add: put_factory_def)
  moreover have "hosts_ok ?s" "queues_ok ?s"
    using assms(1) by (auto simp: sys_inv_def hosts_ok_def queues_ok_def closures_of_def put_factory_def)
  ultimately have "idle_inv ?s" by (simp add: sys_inv_def)
  with assms(2,3) show ?thesis
    by (simp add: Factory_AddObserver_def get_factory_def AddObserver_def ok_result_def)
qed

lemma remove_observer_inv:
  assumes "idle_inv s" "factories s f = Some x"
  shows "ok_result (Factory_RemoveObserver f (ExtObs n) s)"
proof -
  let ?l = "RemoveObserver (Some (ExtObs n)) (f_observers x)"
  let ?s = "put_factory f (x\<lparr>f_observers := ?l\<rparr>) s"
  note fx = inv_factory [OF assms]
  have reg: "registered i g ?s = registered i g s" for i g
    using assms(2) set_RemoveObserver [of "f_observers x" "StubObs i" "ExtObs n"] fx
    by (auto simp: registered_def put_factory_def)
  have li: "olist_inv ?l" using fx by (simp add: RemoveObserver_inv)
  have "factories_ok (\<lambda>_. 0) ?s"
    using assms(1,2) li unfolding sys_inv_def factories_ok_def by (auto simp: put_factory_def)
  moreover have "stubs_ok ?s" using assms(1) unfolding sys_inv_def stubs_ok_def reg by (simp add: put_factory_def)
  moreover have "hosts_ok ?s" "queues_ok ?s"
    using assms(1) by (auto simp: sys_inv_def hosts_ok_def queues_ok_def closures_of_def put_factory_def)
  ultimately have "idle_inv ?s" by (simp add: sys_inv_def)
  with assms(2) show ?thesis
    by (simp add: Factory_RemoveObserver_def get_factory_def ok_result_def)
qed

lemma step_ok:
  assumes "step s a r" "idle_inv s"
  shows "ok_result r"
  using assms(1)
proof cases
  case (run t c cs)
  have "sound (s\<lparr>queue := (queue s)(t := cs)\<rparr>) r"
    unfolding run(2) by (rule run_step_ok [OF assms(2), where t = t]) (use run(3) in \<open>auto simp: closures_of_def\<close>)
  then show ?thesis by (rule sound_ok)
next
  case (fire t c ds)
  have "sound (s\<lparr>delayed := (delayed s)(t := ds)\<rparr>) r"
    unfolding fire(2) using take_due_subset [OF fire(3)]
    by (intro run_step_ok [OF assms(2), where t = t]) (auto simp: closures_of_def)
  then show ?thesis by (rule sound_ok)
next
  case (tick d w)
  then show ?thesis by (auto simp: ok_result_def closures_of_def intro: sys_inv_frame [OF assms(2)])
next
  case (new_factory t)
  then show ?thesis using new_Factory_inv [OF assms(2)] by (simp add: ok_result_def)
next
  case (start f)
  then show ?thesis using Start_sound [OF assms(2)] by (auto intro: sound_ok)
next
  case (stop f)
  then show ?thesis using Stop_sound [OF assms(2)] by (auto intro: sound_ok)
next
  case (factory_destroy f)
  then show ?thesis using Factory_Destroy_result [OF assms(2)] by (auto simp: ok_result_def)
next
  case (add f x n)
  then show ?thesis using add_observer_inv [OF assms(2)] by simp
next
  case (remove f n)
  then show ?thesis using remove_observer_inv [OF assms(2)] by auto
next
  case (new_host t1 t2 q)
  then show ?thesis using new_host_sound [OF assms(2)] by (auto intro: sound_ok)
next
  case (init h cur)
  then show ?thesis
    using assms(2) by (auto simp: Init_def get_host_def dcheck_def PostTaskAndReply_def ok_result_def intro!: PostTask_inv)
next
  case (destroy h cur)
  then show ?thesis
    using assms(2) by (auto simp: Destroy_def get_host_def dcheck_def PostTaskAndReply_def ok_result_def intro!: PostTask_inv)
next
  case (delete_host h x)
  then show ?thesis
    using delete_host_inv [OF assms(2)] by (auto simp: host_destructor_check_def dcheck_def ok_result_def)
qed

lemma reachable_inv: "reachable s \<Longrightarrow> idle_inv s"
  by (induction rule: reachable.induct) (use init_sys_inv step_ok in \<open>fastforce simp: ok_result_def\<close>)+

section \<open>Runs\<close>

text \<open>Running one operation, a failing one leaving the state as it was: to build concrete runs.\<close>

definition after :: "sys \<Rightarrow> (sys \<Rightarrow> sys res) \<Rightarrow> sys" where
  "after s f = (case f s of Inl e \<Rightarrow> s | Inr s' \<Rightarrow> s')"

definition run_head :: "tid \<Rightarrow> sys \<Rightarrow> sys res" where
  "run_head t s =
     (case queue s t of
        [] \<Rightarrow> Inr s
      | c # cs \<Rightarrow> run_closure c (s\<lparr>queue := (queue s)(t := cs)\<rparr>))"

lemma reachable_after: "reachable s \<Longrightarrow> step s a (f s) \<Longrightarrow> reachable (after s f)"
  by (auto simp: after_def intro: reachable.step split: sum.splits)

lemma reachable_run_head: "reachable s \<Longrightarrow> reachable (after s (run_head t))"
proof (cases "queue s t")
  case (Cons c cs)
  assume "reachable s"
  moreover from step.run [OF Cons] have "step s (Run t) (run_head t s)" by (simp add: run_head_def Cons)
  ultimately show ?thesis by (rule reachable_after)
qed (simp add: after_def run_head_def)

text \<open>
  The set-up of the unit test: a factory on thread 0 (address 0), a host (address 1) that
  lives on thread 1, initialised.
\<close>

definition demo_hosted :: sys where
  "demo_hosted =
     after (after init_sys (\<lambda>s. Inr (snd (new_Factory 0 s))))
       (\<lambda>s. bindR (new_host 0 1 None s) (\<lambda>(h, s'). Inr s'))"

definition demo_posted :: sys where "demo_posted = after demo_hosted (Init 1 1)"

definition demo_attached :: sys where "demo_attached = after demo_posted (run_head 0)"

definition demo_sys :: sys where "demo_sys = after demo_attached (run_head 1)"

lemma demo_hosted_reachable: "reachable demo_hosted"
  unfolding demo_hosted_def
  by (intro reachable_after [where f = "\<lambda>s. bindR (new_host 0 1 None s) (\<lambda>(h, s'). Inr s')"]
      reachable_after [where f = "\<lambda>s. Inr (snd (new_Factory 0 s))"]) (rule reachable.start step.new_factory step.new_host)+

lemma demo_hosted_facts: "hosts demo_hosted 1 \<noteq> None" by code_simp

lemma demo_posted_reachable: "reachable demo_posted"
  unfolding demo_posted_def
  by (rule reachable_after [where f = "Init 1 1", OF demo_hosted_reachable step.init [OF demo_hosted_facts]])

lemma demo_sys_reachable: "reachable demo_sys" "reachable demo_attached"
  unfolding demo_sys_def demo_attached_def
  by (intro reachable_run_head demo_posted_reachable)+

lemma demo_sys_facts:
  "factories demo_sys 0 \<noteq> None" "map_option f_observers (factories demo_sys 0) = Some \<lparr>observers = [Some (StubObs 2)],
     notify_depth = 0, ntype = NOTIFY_ALL\<rparr>"
  "map_option h_init (hosts demo_sys 1) = Some True"
  by code_simp+

section \<open>Properties\<close>

text \<open>
  C1: memory safety.  Whatever the client does and however the threads interleave, a step
  of the program never dereferences NULL, a deleted factory, stub or host; the only failure
  is a debug check.  And in every reachable state a stub's factory pointer, the factory's
  observer pointers and a host's stub pointer agree.
\<close>

theorem program_memory_safe:
  assumes "reachable s" "step s a r"
  shows "(\<forall>e. r = Inl e \<longrightarrow> (\<exists>m. e = DcheckFailed m)) \<and>
    (\<forall>i st. stubs s i = Some st \<longrightarrow>
       (\<exists>f x h. st_factory st = Some f \<and> factories s f = Some x \<and> HasObserver (Some (StubObs i)) (f_observers x) \<and>
          hosts s (st_observer st) = Some h \<and> h_stub h = Some i)) \<and>
    (\<forall>f x i. factories s f = Some x \<longrightarrow> HasObserver (Some (StubObs i)) (f_observers x) \<longrightarrow> stubs s i \<noteq> None) \<and>
    (\<forall>h x i. hosts s h = Some x \<longrightarrow> h_stub x = Some i \<longrightarrow> stubs s i \<noteq> None)"
proof -
  note inv = reachable_inv [OF assms(1)]
  have "\<forall>e. r = Inl e \<longrightarrow> (\<exists>m. e = DcheckFailed m)"
    using step_ok [OF assms(2) inv] by (auto simp: ok_result_def)
  moreover have "\<exists>f x h. st_factory st = Some f \<and> factories s f = Some x \<and> HasObserver (Some (StubObs i)) (f_observers x) \<and>
          hosts s (st_observer st) = Some h \<and> h_stub h = Some i" if "stubs s i = Some st" for i st
  proof -
    obtain f where f: "st_factory st = Some f" "registered i f s" using inv_stub [OF inv \<open>stubs s i = Some st\<close>] .
    obtain st' x h where "stubs s i = Some st'" "factories s f = Some x" "Some (StubObs i) \<in> set (observers (f_observers x))"
      "hosts s (st_observer st') = Some h" "h_stub h = Some i" using inv_registered [OF inv f(2)] by metis
    with f(1) that show ?thesis by auto
  qed
  moreover have "stubs s i \<noteq> None" if "factories s f = Some x" "HasObserver (Some (StubObs i)) (f_observers x)" for f x i
  proof -
    have "registered i f s" using that by (simp add: registered_def)
    then show ?thesis using inv_registered [OF inv] by (metis option.distinct(1))
  qed
  moreover have "stubs s i \<noteq> None" if "hosts s h = Some x" "h_stub x = Some i" for h x i
    using inv_host_stub [OF inv that] by (metis option.distinct(1))
  ultimately show ?thesis by blast
qed

theorem program_memory_safe_witness:
  "Factory_Destroy 0 demo_sys \<noteq> Inl (UseAfterFree ''Stub'')"
  using program_memory_safe [OF demo_sys_reachable(1) step.factory_destroy [OF demo_sys_facts(1)], THEN conjunct1]
  by auto

text \<open>
  C2: \<open>Factory::Destroy\<close> always completes.  Every registered stub is taken away in
  registration order (its host is sent \<open>OnFactoryDestory\<close> and then \<open>ReplyDestroy\<close> on the
  host's own thread), the factory is freed, no stub is left that points to it, and nothing
  else of the state changes.
\<close>

theorem factory_destroy_detaches_all:
  assumes "reachable s" "factories s f = Some x"
  shows "\<exists>s'. Factory_Destroy f s = Inr s' \<and> factories s' = (factories s)(f := None) \<and> g_factory s' = None \<and>
    (\<forall>i st. stubs s' i = Some st \<longrightarrow> st_factory st \<noteq> Some f) \<and>
    s' = (fold bereave (live (observers (f_observers x))) s)\<lparr>factories := (factories s)(f := None), g_factory := None\<rparr>"
proof -
  let ?s' = "(fold bereave (live (observers (f_observers x))) s)\<lparr>factories := (factories s)(f := None), g_factory := None\<rparr>"
  note r = Factory_Destroy_result [OF reachable_inv [OF assms(1)] assms(2)]
  have "st_factory st \<noteq> Some f" if "stubs ?s' i = Some st" for i st
  proof -
    obtain g where g: "st_factory st = Some g" "registered i g ?s'" using inv_stub [OF r(2) \<open>stubs ?s' i = Some st\<close>] .
    then have "factories ?s' g \<noteq> None" unfolding registered_def by (cases "factories ?s' g") simp_all
    then have "g \<noteq> f" by auto
    with g(1) show ?thesis by simp
  qed
  then have "\<forall>i st. stubs ?s' i = Some st \<longrightarrow> st_factory st \<noteq> Some f" by blast
  with r(1) show ?thesis by (intro exI [of _ ?s']) simp
qed

theorem factory_destroy_detaches_all_witness:
  "\<exists>s'. Factory_Destroy 0 demo_sys = Inr s' \<and> factories s' 0 = None \<and> g_factory s' = None"
proof -
  obtain x where "factories demo_sys 0 = Some x" using demo_sys_facts(1) by blast
  from factory_destroy_detaches_all [OF demo_sys_reachable(1) this] obtain s' where
    "Factory_Destroy 0 demo_sys = Inr s'" "factories s' = (factories demo_sys)(0 := None)" "g_factory s' = None"
    by blast
  then show ?thesis by (intro exI [of _ s']) simp
qed

end
