(* ===== verification/OscDelivery.thy ===== *)
theory OscDelivery imports OscSystem begin

text \<open>
  What reaches the hosts.  \<open>data_for h cs\<close> is the data on its way to host \<open>h\<close> in a queue;
  \<open>Produce\<close> appends one datum for each stub of the factory whose limiter lets it pass, and
  nothing else; over a whole run the data handed to a host is numbered in strictly
  increasing order, and \<open>receive_\<close> counts it.
\<close>

section \<open>Data on its way\<close>

fun data_for :: "hid \<Rightarrow> closure list \<Rightarrow> factory_data list" where
  "data_for h [] = []"
| "data_for h (BindHostData h' d # cs) = (if h' = h then d # data_for h cs else data_for h cs)"
| "data_for h (c # cs) = data_for h cs"

lemma data_for_append [simp]: "data_for h (xs @ ys) = data_for h xs @ data_for h ys"
  by (induction h xs rule: data_for.induct) auto

lemma data_for_referenced: "data_for h cs \<noteq> [] \<Longrightarrow> \<exists>c\<in>set cs. h \<in> set (closure_hosts c)"
  by (induction h cs rule: data_for.induct) (auto split: if_splits)

definition sends :: "observer \<Rightarrow> hid \<Rightarrow> tid \<Rightarrow> sys \<Rightarrow> bool" where
  "sends obs h t s \<longleftrightarrow>
     (case obs of ExtObs n \<Rightarrow> False
      | StubObs i \<Rightarrow> (case (stubs s i, hosts s h) of
          (Some st, Some x) \<Rightarrow> st_observer st = h \<and> h_host_thread x = t \<and> fst (freq_step (st_kind st) (now_time s))
        | _ \<Rightarrow> False))"

lemma queue_produce_effect:
  "data_for h (queue (produce_effect data obs s) t) = data_for h (queue s t) @ (if sends obs h t s then [data] else [])"
  by (auto simp: produce_effect_def sends_def Let_def put_stub_def PostTask_def split: observer.splits option.splits prod.splits)

lemma sends_other:
  "obs \<noteq> obs' \<Longrightarrow> sends obs' h t (produce_effect data obs s) = sends obs' h t s"
  by (cases obs; cases obs')
    (auto simp: produce_effect_def sends_def Let_def put_stub_def PostTask_def split: option.splits prod.splits)

lemma queue_fold_produce:
  "distinct obss \<Longrightarrow> data_for h (queue (fold (produce_effect data) obss s) t) =
     data_for h (queue s t) @ replicate (length (filter (\<lambda>obs. sends obs h t s) obss)) data"
proof (induction obss arbitrary: s)
  case Nil
  then show ?case by simp
next
  case (Cons obs obss)
  then have "filter (\<lambda>o'. sends o' h t (produce_effect data obs s)) obss = filter (\<lambda>o'. sends o' h t s) obss"
    by (intro filter_cong refl sends_other) auto
  with Cons show ?case by (simp add: queue_produce_effect replicate_app_Cons_same)
qed

text \<open>The stub of a host lets the datum pass.\<close>

definition notified :: "hid \<Rightarrow> fid \<Rightarrow> sys \<Rightarrow> bool" where
  "notified h f s \<longleftrightarrow>
     (case hosts s h of None \<Rightarrow> False
      | Some x \<Rightarrow> (case h_stub x of None \<Rightarrow> False
         | Some i \<Rightarrow> (case stubs s i of None \<Rightarrow> False
            | Some st \<Rightarrow> st_factory st = Some f \<and> fst (freq_step (st_kind st) (now_time s)))))"

lemma senders:
  assumes inv: "idle_inv s" and f: "factories s f = Some x" and h: "hosts s h = Some o'"
  shows "length (filter (\<lambda>obs. sends obs h t s) (live (observers (f_observers x)))) =
    (if t = h_host_thread o' \<and> notified h f s then 1 else 0)"
proof -
  let ?obss = "live (observers (f_observers x))"
  have d: "distinct ?obss" using inv_factory [OF inv f] by (simp add: olist_inv_def)
  have sender: "\<exists>i. obs = StubObs i \<and> h_stub o' = Some i \<and> t = h_host_thread o' \<and> notified h f s"
    if a: "obs \<in> set ?obss" "sends obs h t s" for obs
  proof -
    obtain i st where i: "obs = StubObs i" "stubs s i = Some st" "st_observer st = h" "t = h_host_thread o'"
      "fst (freq_step (st_kind st) (now_time s))"
      using a(2) h by (auto simp: sends_def split: observer.splits option.splits)
    have "registered i f s" using a(1) i(1) f by (simp add: registered_def)
    then have "st_factory st = Some f" "h_stub o' = Some i"
      using inv_registered [OF inv] i(2,3) h by (metis option.inject)+
    with i h show ?thesis by (simp add: notified_def)
  qed
  have conv: "\<exists>i. h_stub o' = Some i \<and> StubObs i \<in> set ?obss \<and> sends (StubObs i) h t s"
    if n: "t = h_host_thread o'" "notified h f s"
  proof -
    obtain i st where i: "h_stub o' = Some i" "stubs s i = Some st" "st_factory st = Some f"
      "fst (freq_step (st_kind st) (now_time s))"
      using n(2) h by (auto simp: notified_def split: option.splits)
    obtain st' g where "stubs s i = Some st'" "st_observer st' = h" "st_factory st' = Some g" "registered i g s"
      using inv_host_stub [OF inv h i(1)] by metis
    with i have "st_observer st = h" "registered i f s" by auto
    with i n h f show ?thesis by (auto simp: sends_def registered_def)
  qed
  show ?thesis
  proof (cases "t = h_host_thread o' \<and> notified h f s")
    case True
    then obtain i where i: "h_stub o' = Some i" "StubObs i \<in> set ?obss" "sends (StubObs i) h t s"
      using conv [OF conjunct1 [OF True] conjunct2 [OF True]] by blast
    have "set (filter (\<lambda>obs. sends obs h t s) ?obss) = {StubObs i}"
    proof (intro equalityI subsetI)
      fix obs
      assume "obs \<in> set (filter (\<lambda>obs. sends obs h t s) ?obss)"
      with sender [of obs] i(1) show "obs \<in> {StubObs i}" by auto
    qed (use i in simp)
    then have "card (set (filter (\<lambda>obs. sends obs h t s) ?obss)) = 1" by simp
    with d True show ?thesis by (simp only: distinct_card [OF distinct_filter [OF d]]) simp
  next
    case False
    then have "filter (\<lambda>obs. sends obs h t s) ?obss = []" using sender by (auto simp: filter_empty_conv)
    with False show ?thesis by simp
  qed
qed

text \<open>Setting the data of the factory changes none of these.\<close>

lemma Produce_queue:
  assumes inv: "idle_inv s" and f: "factories s f = Some x" and h: "hosts s h = Some o'"
    and p: "Produce f s = Inr s'"
  shows "data_for h (queue s' t) = data_for h (queue s t) @
    (if t = h_host_thread o' \<and> notified h f s then [produced_data (produce_id s)] else [])"
proof -
  let ?d = "produced_data (produce_id s)"
  let ?s1 = "put_factory f (x\<lparr>f_data := ?d\<rparr>) s"
  have d: "distinct (live (observers (f_observers x)))" using inv_factory [OF inv f] by (simp add: olist_inv_def)
  have "sends obs h t ?s1 = sends obs h t s" for obs
    by (auto simp: sends_def put_factory_def split: observer.splits option.splits)
  then have c: "length (filter (\<lambda>obs. sends obs h t ?s1) (live (observers (f_observers x)))) =
    (if t = h_host_thread o' \<and> notified h f s then 1 else 0)"
    using senders [OF inv f h, of t] by simp
  have "queue s' t = queue (fold (produce_effect ?d) (live (observers (f_observers x))) ?s1) t"
    using Produce_result(1) [OF inv f] p by simp
  then show ?thesis
    using queue_fold_produce [OF d, of h ?d ?s1 t] c by (simp add: put_factory_def)
qed

section \<open>What an operation may do to the deliveries\<close>

fun no_data :: "closure \<Rightarrow> bool" where
  "no_data (BindHostData h d) = False"
| "no_data (BindRelayRun task reply origin) = (no_data task \<and> no_data reply)"
| "no_data (BindRelayReply reply) = no_data reply"
| "no_data c = True"

fun simple_closure :: "closure \<Rightarrow> bool" where
  "simple_closure (BindHostData h d) = True"
| "simple_closure c = no_data c"

definition simple_queues :: "sys \<Rightarrow> bool" where
  "simple_queues s \<longleftrightarrow> (\<forall>t. list_all simple_closure (queue s t) \<and> list_all (\<lambda>(w, c). no_data c) (delayed s t))"

lemma no_data_simple: "no_data c \<Longrightarrow> simple_closure c \<and> data_for h (c # cs) = data_for h cs"
  by (cases c) auto

definition same_hosts :: "sys \<Rightarrow> sys \<Rightarrow> bool" where
  "same_hosts s s' \<longleftrightarrow> (\<forall>h. map_option (\<lambda>x. (h_host_thread x, h_receive x)) (hosts s' h) =
                          map_option (\<lambda>x. (h_host_thread x, h_receive x)) (hosts s h))"

definition delivers :: "nat \<Rightarrow> sys \<Rightarrow> sys \<Rightarrow> bool" where
  "delivers n s s' \<longleftrightarrow> same_hosts s s' \<and> next_addr s \<le> next_addr s' \<and> produce_id s' = produce_id s + int n \<and>
     (simple_queues s \<longrightarrow> simple_queues s') \<and>
     (\<forall>h x t. hosts s h = Some x \<longrightarrow>
        (\<exists>new. data_for h (queue s' t) = data_for h (queue s t) @ new \<and> (new \<noteq> [] \<longrightarrow> t = h_host_thread x) \<and>
           sorted_wrt (<) (map fd_id new) \<and> (\<forall>d\<in>set new. produce_id s \<le> fd_id d \<and> fd_id d < produce_id s')))"

lemma delivers_neutral:
  assumes "same_hosts s s'" "next_addr s \<le> next_addr s'" "produce_id s' = produce_id s"
    "simple_queues s \<Longrightarrow> simple_queues s'" "\<And>h t. data_for h (queue s' t) = data_for h (queue s t)"
  shows "delivers 0 s s'"
  using assms unfolding delivers_def by auto

lemma delivers_refl [simp]: "delivers 0 s s"
  by (rule delivers_neutral) (auto simp: same_hosts_def)

lemma delivers_trans:
  assumes "delivers k1 s1 s2" "delivers k2 s2 s3"
  shows "delivers (k1 + k2) s1 s3"
  unfolding delivers_def
proof (intro conjI allI impI)
  fix h x t
  assume x: "hosts s1 h = Some x"
  from assms(1) have "map_option (\<lambda>x. (h_host_thread x, h_receive x)) (hosts s2 h) = Some (h_host_thread x, h_receive x)"
    unfolding delivers_def same_hosts_def using x by simp
  then obtain y where y: "hosts s2 h = Some y" "h_host_thread y = h_host_thread x" by auto
  obtain n1 where n1: "data_for h (queue s2 t) = data_for h (queue s1 t) @ n1" "n1 \<noteq> [] \<longrightarrow> t = h_host_thread x"
    "sorted_wrt (<) (map fd_id n1)" "\<forall>d\<in>set n1. produce_id s1 \<le> fd_id d \<and> fd_id d < produce_id s2"
    using assms(1) x unfolding delivers_def by blast
  obtain n2 where n2: "data_for h (queue s3 t) = data_for h (queue s2 t) @ n2" "n2 \<noteq> [] \<longrightarrow> t = h_host_thread y"
    "sorted_wrt (<) (map fd_id n2)" "\<forall>d\<in>set n2. produce_id s2 \<le> fd_id d \<and> fd_id d < produce_id s3"
    using assms(2) y(1) unfolding delivers_def by blast
  have "produce_id s1 \<le> produce_id s2" "produce_id s2 \<le> produce_id s3" using assms by (auto simp: delivers_def)
  have sorted: "sorted_wrt (<) (map fd_id (n1 @ n2))"
    unfolding map_append sorted_wrt_append
  proof (intro conjI ballI)
    fix i j
    assume "i \<in> set (map fd_id n1)" "j \<in> set (map fd_id n2)"
    with n1(4) n2(4) show "i < j" by fastforce
  qed (use n1(3) n2(3) in auto)
  have bound: "produce_id s1 \<le> fd_id d \<and> fd_id d < produce_id s3" if "d \<in> set (n1 @ n2)" for d
    using that n1(4) n2(4) \<open>produce_id s1 \<le> produce_id s2\<close> \<open>produce_id s2 \<le> produce_id s3\<close> by fastforce
  have "n1 @ n2 \<noteq> [] \<longrightarrow> t = h_host_thread x" using n1(2) n2(2) y(2) by auto
  with sorted bound n1(1) n2(1) show "\<exists>new. data_for h (queue s3 t) = data_for h (queue s1 t) @ new \<and> (new \<noteq> [] \<longrightarrow> t = h_host_thread x) \<and>
     sorted_wrt (<) (map fd_id new) \<and> (\<forall>d\<in>set new. produce_id s1 \<le> fd_id d \<and> fd_id d < produce_id s3)"
    by (intro exI [of _ "n1 @ n2"]) simp
qed (use assms in \<open>auto simp: delivers_def same_hosts_def\<close>)

lemmas delivers_trans0 = delivers_trans [where ?k1.0 = 0 and ?k2.0 = 0, simplified]

lemma simple_PostTask: "simple_queues s \<Longrightarrow> simple_closure c \<Longrightarrow> simple_queues (PostTask t c s)"
  by (auto simp: simple_queues_def PostTask_def)

lemma delivers_PostTask: "no_data c \<Longrightarrow> delivers 0 s (PostTask t c s)"
proof (rule delivers_neutral)
  assume c: "no_data c"
  show "simple_queues s \<Longrightarrow> simple_queues (PostTask t c s)" using simple_PostTask no_data_simple [OF c] by blast
  show "data_for h (queue (PostTask t c s) t') = data_for h (queue s t')" for h t'
    using no_data_simple [OF c, of h "[]"] by (simp add: PostTask_def)
qed (auto simp: same_hosts_def)

lemma delivers_hosts:
  "hosts s h = Some x \<Longrightarrow> h_host_thread y = h_host_thread x \<Longrightarrow> h_receive y = h_receive x \<Longrightarrow>
   delivers 0 s (put_host h y s)"
  by (rule delivers_neutral) (auto simp: same_hosts_def put_host_def simple_queues_def)

lemma delivers_attach: "delivers 0 s (attach f h s)"
  by (rule delivers_neutral) (auto simp: same_hosts_def attach_def simple_queues_def split: option.splits)

lemma delivers_detach: "delivers 0 s (detach i f h s)"
  by (rule delivers_neutral) (auto simp: same_hosts_def detach_def simple_queues_def split: option.splits)

lemma delivers_bereave: "delivers 0 s (bereave obs s)"
proof -
  have "delivers 0 s (s\<lparr>stubs := (stubs s)(i := None), hosts := (hosts s)(h \<mapsto> x\<lparr>h_stub := None\<rparr>)\<rparr>)"
    if "hosts s h = Some x" for i h x
    using that by (intro delivers_neutral) (auto simp: same_hosts_def simple_queues_def)
  then show ?thesis
    by (auto simp: bereave_def Let_def split: observer.splits option.splits
        intro!: delivers_trans0 [OF delivers_trans0 [OF _ delivers_PostTask] delivers_PostTask])
qed

lemma delivers_fold_bereave: "delivers 0 s (fold bereave obss s)"
  by (induction obss arbitrary: s) (auto intro: delivers_trans0 delivers_bereave)

lemma simple_fold_produce: "simple_queues s \<Longrightarrow> simple_queues (fold (produce_effect data) obss s)"
proof (induction obss arbitrary: s)
  case (Cons obs obss)
  have "simple_queues (put_stub i st s)" for i st using Cons.prems by (simp add: simple_queues_def put_stub_def)
  then have "simple_queues (produce_effect data obs s)"
    using Cons.prems
    by (auto simp: produce_effect_def Let_def simple_queues_def [of "s\<lparr>ext_count := _\<rparr>"] simple_queues_def [of s]
        intro!: simple_PostTask split: observer.splits option.splits prod.splits)
  with Cons.IH show ?case by simp
qed simp

lemma delivers_Produce:
  assumes inv: "idle_inv s" and x: "factories s f = Some x" and p: "Produce f s = Inr s'"
    and n: "produce_id s < 2 ^ 31 - 1"
  shows "delivers 1 s s'"
proof -
  let ?d = "produced_data (produce_id s)"
  let ?s1 = "put_factory f (x\<lparr>f_data := ?d\<rparr>) s"
  let ?s2 = "fold (produce_effect ?d) (live (observers (f_observers x))) ?s1"
  have s': "s' = ?s2\<lparr>produce_id := produce_id s + 1\<rparr>" using Produce_result(1) [OF inv x] p n by simp
  have i1: "idle_inv ?s1" by (rule put_factory_inv [OF inv x]) auto
  have f1: "factories ?s1 f = Some (x\<lparr>f_data := ?d\<rparr>)" by (simp add: put_factory_def)
  have "registered i f ?s1" if "StubObs i \<in> set (live (observers (f_observers x)))" for i
    using that f1 by (simp add: registered_def)
  then have h: "hosts ?s2 = hosts ?s1" using produce_fold [OF i1] by blast
  have sq: "simple_queues s'" if "simple_queues s"
    using simple_fold_produce [of ?s1 ?d "live (observers (f_observers x))"] that
    by (simp add: s' simple_queues_def put_factory_def)
  show ?thesis
    unfolding delivers_def
  proof (intro conjI allI impI)
    fix h y t
    assume "hosts s h = Some y"
    from Produce_queue [OF inv x this p, of t]
    show "\<exists>new. data_for h (queue s' t) = data_for h (queue s t) @ new \<and> (new \<noteq> [] \<longrightarrow> t = h_host_thread y) \<and>
      sorted_wrt (<) (map fd_id new) \<and> (\<forall>d\<in>set new. produce_id s \<le> fd_id d \<and> fd_id d < produce_id s')"
      by (intro exI [of _ "if t = h_host_thread y \<and> notified h f s then [?d] else []"]) (simp add: s' produced_data_def)
  qed (use h sq in \<open>auto simp: s' same_hosts_def put_factory_def\<close>)
qed

lemma delivers_Schedule:
  assumes inv: "idle_inv s" and x: "factories s f = Some x" and p: "Schedule f s = Inr s'"
    and n: "produce_id s < 2 ^ 31 - 1"
  shows "\<exists>k\<le>1. delivers k s s'"
proof -
  let ?s1 = "put_factory f (x\<lparr>f_last_ticks := now_ticks s\<rparr>) s"
  let ?s2 = "PostDelayedTask (f_thread x) (BindSchedule f (f_weak_gen x))
        (FromMicroseconds (int (micros_per_item (nat (f_speed x))))) ?s1"
  have i1: "idle_inv ?s1" by (rule put_factory_inv [OF inv x]) auto
  have i2: "idle_inv ?s2" by (rule PostDelayedTask_inv [OF i1]) simp
  have f2: "factories ?s2 f = Some (x\<lparr>f_last_ticks := now_ticks s\<rparr>)" by (simp add: put_factory_def)
  have d1: "delivers 0 s ?s1" by (rule delivers_neutral) (auto simp: same_hosts_def put_factory_def simple_queues_def)
  have d2: "delivers 0 ?s1 ?s2"
    by (cases "TimeDelta 0 < FromMicroseconds (int (micros_per_item (nat (f_speed x))))")
      (auto simp: PostDelayedTask_def intro!: delivers_PostTask delivers_neutral simp: same_hosts_def simple_queues_def)
  have "s' = ?s1 \<or> Produce f ?s2 = Inr s'"
    using p x by (auto simp: Schedule_def get_factory_def Let_def bindR_eq_Inr split: if_splits)
  then show ?thesis
  proof
    assume "s' = ?s1"
    with d1 show ?thesis by (intro exI [of _ 0]) simp
  next
    assume "Produce f ?s2 = Inr s'"
    moreover have "produce_id ?s2 < 2 ^ 31 - 1" using n by (simp add: put_factory_def)
    ultimately have "delivers 1 ?s2 s'" using delivers_Produce [OF i2 f2] by blast
    from delivers_trans [OF delivers_trans0 [OF d1 d2] this] show ?thesis by (intro exI [of _ 1]) simp
  qed
qed

lemma delivers_none: "delivers 0 s s' \<Longrightarrow> \<exists>k\<le>1. delivers k s s'"
  by (rule exI [of _ 0]) simp

lemma delivers_run_closure:
  "idle_inv s \<Longrightarrow> (\<And>h. h \<in> set (closure_hosts c) \<Longrightarrow> hosts s h \<noteq> None) \<Longrightarrow> no_data c \<Longrightarrow>
   run_closure c s = Inr s' \<Longrightarrow> produce_id s < 2 ^ 31 - 1 \<Longrightarrow> \<exists>k\<le>1. delivers k s s'"
proof (induction c arbitrary: s s')
  case (BindSchedule f gen)
  then show ?case using delivers_Schedule [of s f _ s'] delivers_none [OF delivers_refl, of s]
    by (auto simp del: power_numeral split: option.splits if_splits)
next
  case (BindPostInit h)
  then obtain x where x: "hosts s h = Some x" by auto
  then have "h_stub x = None \<and> g_factory s \<noteq> None"
    using BindPostInit.prems(4) PostInit_fails [OF x] by (cases "h_stub x") auto
  then have "s' = attach (the (g_factory s)) h s"
    using PostInit_attach [OF BindPostInit.prems(1) x] BindPostInit.prems(4) by auto
  then show ?case using delivers_none [OF delivers_attach] by simp
next
  case (BindReplyInit h)
  then show ?case by (auto simp: ReplyInit_def get_host_def bindR_eq_Inr intro!: delivers_none delivers_hosts)
next
  case (BindPostDestroy h)
  then obtain x where x: "hosts s h = Some x" by auto
  with BindPostDestroy.prems(4) obtain i where i: "h_stub x = Some i"
    using PostDestroy_none [OF x] by (cases "h_stub x") auto
  obtain st f where "stubs s i = Some st" "st_observer st = h" "registered i f s"
    using inv_host_stub [OF BindPostDestroy.prems(1) x i] by metis
  with PostDestroy_detach [OF BindPostDestroy.prems(1), of i f st h] BindPostDestroy.prems(4)
  have "s' = detach i f h s" by simp
  then show ?case using delivers_none [OF delivers_detach] by simp
next
  case (BindReplyDestroy h)
  then show ?case by (auto simp: ReplyDestroy_def OnDestroy_def get_host_def bindR_eq_Inr intro!: delivers_none delivers_hosts)
next
  case (BindHostData h d)
  then show ?case by simp
next
  case (BindHostFactoryDestroy h)
  then show ?case by (auto simp: Host_OnFactoryDestory_def get_host_def bindR_eq_Inr intro!: delivers_none delivers_hosts)
next
  case (BindRelayRun task reply origin)
  from BindRelayRun.prems(4) obtain s1 where s1: "run_closure task s = Inr s1"
    "s' = PostTask origin (BindRelayReply reply) s1" by (auto simp: bindR_eq_Inr)
  obtain k where k: "k \<le> 1" "delivers k s s1"
    using BindRelayRun.IH(1) [OF BindRelayRun.prems(1) _ _ s1(1) BindRelayRun.prems(5)] BindRelayRun.prems(2,3) by auto
  have "delivers 0 s1 s'" unfolding s1(2) using BindRelayRun.prems(3) by (intro delivers_PostTask) simp
  from delivers_trans [OF k(2) this] k(1) show ?case by auto
next
  case (BindRelayReply reply)
  then show ?case by simp
qed

section \<open>Runs with the data handed over\<close>

definition handed :: "action \<Rightarrow> sys \<Rightarrow> hid \<Rightarrow> int list" where
  "handed a s h =
     (case a of
        Run t \<Rightarrow> (case queue s t of
            BindHostData h' d # cs \<Rightarrow> if h' = h then [fd_id d] else []
          | _ \<Rightarrow> [])
      | _ \<Rightarrow> [])"

text \<open>
  A run, with the ids handed to each host so far and the number of productions so far (the
  steps that changed the production counter).
\<close>

inductive run_log :: "sys \<Rightarrow> (hid \<Rightarrow> int list) \<Rightarrow> nat \<Rightarrow> bool" where
  start: "run_log init_sys (\<lambda>_. []) 0"
| step: "run_log s lg n \<Longrightarrow> step s a (Inr s') \<Longrightarrow>
    run_log s' (\<lambda>h. lg h @ handed a s h) (if produce_id s' = produce_id s then n else Suc n)"

lemma run_log_reachable: "run_log s lg n \<Longrightarrow> reachable s"
  by (induction rule: run_log.induct) (auto intro: reachable.intros)

definition host_log_ok :: "int list \<Rightarrow> hid \<Rightarrow> host \<Rightarrow> sys \<Rightarrow> bool" where
  "host_log_ok lg h x s \<longleftrightarrow>
     sorted_wrt (<) (lg @ map fd_id (data_for h (queue s (h_host_thread x)))) \<and>
     (\<forall>i\<in>set (map fd_id (data_for h (queue s (h_host_thread x)))). i < produce_id s) \<and>
     (\<forall>t. t \<noteq> h_host_thread x \<longrightarrow> data_for h (queue s t) = []) \<and> h_receive x = int (length lg)"

definition log_inv :: "(hid \<Rightarrow> int list) \<Rightarrow> sys \<Rightarrow> bool" where
  "log_inv lg s \<longleftrightarrow>
     (\<forall>h. sorted_wrt (<) (lg h) \<and> (\<forall>i\<in>set (lg h). i < produce_id s)) \<and>
     (\<forall>h x. hosts s h = Some x \<longrightarrow> host_log_ok (lg h) h x s) \<and>
     (\<forall>h\<ge>next_addr s. lg h = []) \<and> simple_queues s"

lemma log_inv_delivers:
  assumes "log_inv lg s" "delivers n s s'"
  shows "log_inv lg s'"
proof -
  have p: "produce_id s \<le> produce_id s'" "next_addr s \<le> next_addr s'" using assms(2) by (auto simp: delivers_def)
  have "host_log_ok (lg h) h x s'" if x: "hosts s' h = Some x" for h x
  proof -
    from assms(2) have "map_option (\<lambda>x. (h_host_thread x, h_receive x)) (hosts s' h) =
        map_option (\<lambda>x. (h_host_thread x, h_receive x)) (hosts s h)"
      unfolding delivers_def same_hosts_def by blast
    with x obtain y where y: "hosts s h = Some y" "h_host_thread y = h_host_thread x" "h_receive y = h_receive x"
      by (cases "hosts s h") auto
    with assms(1) have ok: "host_log_ok (lg h) h y s" by (simp add: log_inv_def)
    obtain new where new: "data_for h (queue s' (h_host_thread x)) = data_for h (queue s (h_host_thread x)) @ new"
      "sorted_wrt (<) (map fd_id new)" "\<forall>d\<in>set new. produce_id s \<le> fd_id d \<and> fd_id d < produce_id s'"
      using assms(2) y(1) unfolding delivers_def by blast
    have lb: "i < produce_id s" if "i \<in> set (lg h @ map fd_id (data_for h (queue s (h_host_thread x))))" for i
      using that ok assms(1) y(2) by (auto simp: host_log_ok_def log_inv_def)
    have "sorted_wrt (<) (lg h @ map fd_id (data_for h (queue s' (h_host_thread x))))"
      unfolding new(1) map_append append_assoc [symmetric] sorted_wrt_append [of _ _ "map fd_id new"]
    proof (intro conjI ballI)
      fix i j
      assume "i \<in> set (lg h @ map fd_id (data_for h (queue s (h_host_thread x))))" "j \<in> set (map fd_id new)"
      with lb [of i] new(3) show "i < j" by fastforce
    qed (use ok new(2) y(2) in \<open>auto simp: host_log_ok_def\<close>)
    moreover have "\<forall>i\<in>set (map fd_id (data_for h (queue s' (h_host_thread x)))). i < produce_id s'"
      using new lb p by fastforce
    moreover have "data_for h (queue s' t) = []" if "t \<noteq> h_host_thread x" for t
    proof -
      obtain n where "data_for h (queue s' t) = data_for h (queue s t) @ n" "n \<noteq> [] \<longrightarrow> t = h_host_thread y"
        using assms(2) y(1) unfolding delivers_def by blast
      with that y(2) ok show ?thesis by (simp add: host_log_ok_def)
    qed
    ultimately show ?thesis using ok y(3) by (simp add: host_log_ok_def)
  qed
  with assms p show ?thesis
    unfolding log_inv_def delivers_def by fastforce
qed

lemma log_inv_pop:
  assumes "log_inv lg s" "queue s t = c # cs" "no_data c"
  shows "log_inv lg (s\<lparr>queue := (queue s)(t := cs)\<rparr>)"
proof (rule log_inv_delivers [OF assms(1) delivers_neutral])
  show "data_for h (queue (s\<lparr>queue := (queue s)(t := cs)\<rparr>) t') = data_for h (queue s t')" for h t'
    using no_data_simple [OF assms(3), of h cs] assms(2) by simp
  show "simple_queues s \<Longrightarrow> simple_queues (s\<lparr>queue := (queue s)(t := cs)\<rparr>)"
    using assms(2) by (auto simp: simple_queues_def dest: spec [of _ t])
qed (auto simp: same_hosts_def)

lemma log_inv_hand_over:
  assumes li: "log_inv lg s" and q: "queue s t = BindHostData h d # cs" and x: "hosts s h = Some x"
    and fresh: "h < next_addr s"
  shows "log_inv (\<lambda>k. lg k @ (if h = k then [fd_id d] else []))
     (put_host h (x\<lparr>h_data := Some d, h_receive := h_receive x + 1\<rparr>) (s\<lparr>queue := (queue s)(t := cs)\<rparr>))"
proof -
  let ?x = "x\<lparr>h_data := Some d, h_receive := h_receive x + 1\<rparr>"
  define s' where "s' = put_host h ?x (s\<lparr>queue := (queue s)(t := cs)\<rparr>)"
  let ?lg = "\<lambda>k. lg k @ (if h = k then [fd_id d] else [])"
  have ok: "host_log_ok (lg h) h x s" using li x by (simp add: log_inv_def)
  have t: "t = h_host_thread x" using ok q by (auto simp: host_log_ok_def)
  have s'_eqs: "queue s' = (queue s)(t := cs)" "produce_id s' = produce_id s" "next_addr s' = next_addr s"
    "delayed s' = delayed s" "hosts s' = (hosts s)(h \<mapsto> ?x)" by (simp_all add: put_host_def s'_def)
  have "host_log_ok (?lg k) k y s'" if y: "hosts s' k = Some y" for k y
  proof (cases "k = h")
    case True
    with y have y': "y = ?x" by (simp add: s'_eqs)
    have "data_for h (queue s (h_host_thread x)) = d # data_for h (queue s' (h_host_thread x))"
      using q t by (simp add: s'_eqs)
    with True ok t show ?thesis unfolding y' by (simp add: host_log_ok_def s'_eqs)
  next
    case False
    with y have y': "hosts s k = Some y" by (simp add: s'_eqs)
    have "data_for k (queue s' t') = data_for k (queue s t')" for t' using q False by (simp add: s'_eqs)
    moreover have "host_log_ok (lg k) k y s" using li y' by (simp add: log_inv_def)
    ultimately show ?thesis using False by (simp add: host_log_ok_def s'_eqs)
  qed
  moreover have "sorted_wrt (<) (?lg k) \<and> (\<forall>i\<in>set (?lg k). i < produce_id s')" for k
    using li ok q t by (auto simp: log_inv_def host_log_ok_def s'_eqs sorted_wrt_append)
  moreover have "\<forall>k\<ge>next_addr s'. ?lg k = []" using li fresh by (auto simp: log_inv_def s'_eqs)
  moreover have "simple_queues s'"
    using li q by (auto simp: log_inv_def simple_queues_def s'_eqs dest: spec [of _ t])
  ultimately show ?thesis by (simp add: log_inv_def flip: s'_def)
qed

lemma queue_not_for_new:
  assumes "idle_inv s" "hosts s h = None"
  shows "data_for h (queue s t) = []"
proof (rule ccontr)
  assume "data_for h (queue s t) \<noteq> []"
  then obtain c where "c \<in> set (queue s t)" "h \<in> set (closure_hosts c)" using data_for_referenced by blast
  with assms inv_closure [OF assms(1), of c t h] show False by (simp add: closures_of_def)
qed

lemma log_inv_other_hosts:
  assumes "log_inv lg s" "queue s' = queue s" "delayed s' = delayed s" "produce_id s' = produce_id s"
    "next_addr s \<le> next_addr s'"
    "\<And>h x. hosts s' h = Some x \<Longrightarrow> hosts s h = Some x \<or> h = next_addr s \<and> h_receive x = 0 \<and> (\<forall>t. data_for h (queue s t) = [])"
  shows "log_inv lg s'"
proof -
  have "host_log_ok (lg h) h x s'" if "hosts s' h = Some x" for h x
    using assms(6) [OF that] assms(1) by (auto simp: log_inv_def host_log_ok_def assms(2,4))
  with assms(1-5) show ?thesis by (auto simp: log_inv_def simple_queues_def)
qed

text \<open>A step counts at most one production.\<close>

definition counted :: "sys \<Rightarrow> sys \<Rightarrow> bool" where
  "counted s s' \<longleftrightarrow> produce_id s' = produce_id s \<or> produce_id s' = produce_id s + 1"

lemma delivers_counted: "delivers k s s' \<Longrightarrow> k \<le> 1 \<Longrightarrow> counted s s'"
  by (cases k) (auto simp: delivers_def counted_def)

lemma log_inv_call:
  assumes "log_inv lg s" "delivers k s s'" "k \<le> 1" "\<And>t. a \<noteq> Run t"
  shows "log_inv (\<lambda>h. lg h @ handed a s h) s' \<and> counted s s'"
proof -
  have "\<forall>t. a \<noteq> Run t" using assms(4) by blast
  then have "log_inv (\<lambda>h. lg h @ handed a s h) s'"
    using log_inv_delivers [OF assms(1,2)] by (cases a) (simp_all add: handed_def)
  with delivers_counted [OF assms(2,3)] show ?thesis by simp
qed

lemmas log_inv_quiet = log_inv_call [where k = 0, OF _ _ zero_le]

lemma Factory_observers_deliver:
  "Factory_AddObserver f obs s = Inr s' \<Longrightarrow> delivers 0 s s'"
  "Factory_RemoveObserver f obs s = Inr s' \<Longrightarrow> delivers 0 s s'"
  by (auto simp: Factory_AddObserver_def Factory_RemoveObserver_def bindR_eq_Inr put_factory_def
      same_hosts_def simple_queues_def intro!: delivers_neutral)

lemma Start_Stop_deliver:
  "Start f s = Inr s' \<Longrightarrow> delivers 0 s s'" "Stop f s = Inr s' \<Longrightarrow> delivers 0 s s'"
proof -
  have p: "delivers 0 s (put_factory f x s)" for x
    by (rule delivers_neutral) (auto simp: same_hosts_def put_factory_def simple_queues_def)
  then show "Stop f s = Inr s' \<Longrightarrow> delivers 0 s s'"
    by (auto simp: Stop_def bindR_eq_Inr split: if_splits)
  show "Start f s = Inr s' \<Longrightarrow> delivers 0 s s'"
    using delivers_trans0 [OF p delivers_PostTask] by (auto simp: Start_def bindR_eq_Inr split: if_splits)
qed

lemma step_log_inv:
  assumes "step s a (Inr s')" "idle_inv s" "log_inv lg s" "produce_id s < 2 ^ 31 - 1"
  shows "log_inv (\<lambda>h. lg h @ handed a s h) s' \<and> counted s s'"
  using assms(1)
proof cases
  case (run t c cs)
  let ?s = "s\<lparr>queue := (queue s)(t := cs)\<rparr>"
  have hs: "\<And>h. h \<in> set (closure_hosts c) \<Longrightarrow> hosts s h \<noteq> None"
    using inv_closure [OF assms(2), of c t] run(3) by (simp add: closures_of_def)
  show ?thesis
  proof (cases "no_data c")
    case True
    have "idle_inv ?s"
      by (rule popped_inv [OF assms(2)]) (use run(3) in \<open>auto simp: closures_of_def\<close>)
    then obtain k where k: "k \<le> 1" "delivers k ?s s'"
      using delivers_run_closure [of ?s c s'] True run(2) hs assms(4) by auto
    have "log_inv lg ?s" by (rule log_inv_pop [OF assms(3) run(3) True])
    from log_inv_delivers [OF this k(2)] have "log_inv lg s'" .
    moreover have "handed a s h = []" for h using True run(1,3) by (cases c) (auto simp: handed_def)
    moreover have "counted s s'" using delivers_counted [OF k(2,1)] by (simp add: counted_def)
    ultimately show ?thesis by simp
  next
    case False
    then obtain h d where c: "c = BindHostData h d"
      using assms(3) run(3) by (cases c) (auto simp: log_inv_def simple_queues_def dest: spec [of _ t])
    obtain x where x: "hosts s h = Some x" using hs c by auto
    have "h < next_addr s" using assms(2) x unfolding sys_inv_def hosts_ok_def by blast
    from log_inv_hand_over [OF assms(3) _ x this, of t d cs] run c x
    show ?thesis by (simp add: handed_def Host_OnDataProduced_def get_host_def counted_def put_host_def)
  qed
next
  case (fire t c ds)
  let ?s = "s\<lparr>delayed := (delayed s)(t := ds)\<rparr>"
  have sub: "c \<in> set (map snd (delayed s t))" "set ds \<subseteq> set (delayed s t)" using take_due_subset [OF fire(3)] by auto
  have nd: "no_data c" using sub(1) assms(3) by (fastforce simp: log_inv_def simple_queues_def list_all_iff)
  have hs: "\<And>h. h \<in> set (closure_hosts c) \<Longrightarrow> hosts s h \<noteq> None"
    using inv_closure [OF assms(2), of c t] sub(1) by (simp add: closures_of_def)
  have "idle_inv ?s"
    by (rule popped_inv [OF assms(2)]) (use sub(2) in \<open>auto simp: closures_of_def\<close>)
  then obtain k where k: "k \<le> 1" "delivers k ?s s'"
    using delivers_run_closure [of ?s c s'] nd fire(2) hs assms(4) by auto
  have "delivers 0 s ?s"
    using sub(2) by (intro delivers_neutral) (fastforce simp: same_hosts_def simple_queues_def list_all_iff split: if_splits)+
  from delivers_trans [OF this k(2)] have "delivers k s s'" by simp
  then show ?thesis by (rule log_inv_call [OF assms(3) _ k(1)]) (simp add: fire(1))
next
  case (tick d w)
  have "delivers 0 s s'" unfolding tick
    using tick by (intro delivers_neutral) (auto simp: same_hosts_def simple_queues_def)
  then show ?thesis by (rule log_inv_quiet [OF assms(3)]) (simp add: tick(1))
next
  case (new_factory t)
  have "delivers 0 s s'" using new_factory
    by (intro delivers_neutral) (auto simp: same_hosts_def simple_queues_def new_Factory_def Let_def put_factory_def)
  then show ?thesis by (rule log_inv_quiet [OF assms(3)]) (simp add: new_factory(1))
next
  case (start f)
  then have "delivers 0 s s'" using Start_Stop_deliver(1) by simp
  then show ?thesis by (rule log_inv_quiet [OF assms(3)]) (simp add: start(1))
next
  case (stop f)
  then have "delivers 0 s s'" using Start_Stop_deliver(2) by simp
  then show ?thesis by (rule log_inv_quiet [OF assms(3)]) (simp add: stop(1))
next
  case (factory_destroy f)
  then obtain x where x: "factories s f = Some x" by auto
  let ?s = "fold bereave (live (observers (f_observers x))) s"
  have "delivers 0 ?s (?s\<lparr>factories := (factories s)(f := None), g_factory := None\<rparr>)"
    by (rule delivers_neutral) (auto simp: same_hosts_def simple_queues_def)
  moreover have "s' = ?s\<lparr>factories := (factories s)(f := None), g_factory := None\<rparr>"
    using Factory_Destroy_result(1) [OF assms(2) x] factory_destroy(2) by simp
  ultimately have "delivers 0 s s'" using delivers_trans0 [OF delivers_fold_bereave] by simp
  then show ?thesis by (rule log_inv_quiet [OF assms(3)]) (simp add: factory_destroy(1))
next
  case (add f x n)
  then have "delivers 0 s s'" using Factory_observers_deliver(1) by metis
  then show ?thesis by (rule log_inv_quiet [OF assms(3)]) (simp add: add(1))
next
  case (remove f n)
  then have "delivers 0 s s'" using Factory_observers_deliver(2) by metis
  then show ?thesis by (rule log_inv_quiet [OF assms(3)]) (simp add: remove(1))
next
  case (new_host t1 t2 q)
  have n: "hosts s (next_addr s) = None"
    using assms(2) unfolding sys_inv_def hosts_ok_def by (metis less_irrefl not_None_eq)
  have s': "s' = put_host (next_addr s) \<lparr>h_stub = None, h_task_thread = t1, h_host_thread = t2, h_init = False,
      h_destroy = False, h_data = None, h_receive = 0, h_destroy_time = 0, h_factory_destroy = 0, h_init_freq = q\<rparr>
      (s\<lparr>next_addr := Suc (next_addr s)\<rparr>)"
    using new_host(2) by (cases q) (auto simp: new_host_def Let_def dcheck_def split: if_splits)
  have "log_inv lg s'"
    by (rule log_inv_other_hosts [OF assms(3)])
      (auto simp: s' put_host_def queue_not_for_new [OF assms(2) n] split: if_splits)
  moreover have "counted s s'" by (simp add: s' counted_def put_host_def)
  ultimately show ?thesis by (simp add: handed_def new_host(1))
next
  case (init h cur)
  from init(2) [symmetric] have "delivers 0 s s'"
    by (auto simp: Init_def bindR_eq_Inr PostTaskAndReply_def intro!: delivers_PostTask)
  then show ?thesis by (rule log_inv_quiet [OF assms(3)]) (simp add: init(1))
next
  case (destroy h cur)
  from destroy(2) [symmetric] have "delivers 0 s s'"
    by (auto simp: Destroy_def bindR_eq_Inr PostTaskAndReply_def intro!: delivers_PostTask)
  then show ?thesis by (rule log_inv_quiet [OF assms(3)]) (simp add: destroy(1))
next
  case (delete_host h x)
  from delete_host(2) [symmetric] have s': "s' = s\<lparr>hosts := (hosts s)(h := None)\<rparr>" by (auto simp: bindR_eq_Inr)
  have "log_inv lg s'"
    by (rule log_inv_other_hosts [OF assms(3)]) (auto simp: s' split: if_splits)
  moreover have "counted s s'" by (simp add: s' counted_def)
  ultimately show ?thesis by (simp add: handed_def delete_host(1))
qed

lemma run_log_inv: "run_log s lg n \<Longrightarrow> n < 2 ^ 31 - 1 \<Longrightarrow> log_inv lg s \<and> produce_id s = int n"
proof (induction rule: run_log.induct)
  case start
  show ?case by (simp add: log_inv_def simple_queues_def init_sys_def)
next
  case (step s lg n a s')
  then have n: "n < 2 ^ 31 - 1" by (simp split: if_splits)
  with step.IH have ih: "log_inv lg s" "produce_id s = int n" by blast+
  have "produce_id s < 2 ^ 31 - 1" using n ih(2) by simp
  from step_log_inv [OF step.hyps(2) reachable_inv [OF run_log_reachable [OF step.hyps(1)]] ih(1) this] ih(2)
  show ?case by (auto simp: counted_def)
qed

section \<open>Properties\<close>

text \<open>
  C4: one production.  In every reachable state \<open>Produce\<close> succeeds, numbers the datum with
  the counter, leaves it as the factory's last data, and puts exactly one copy of it at the
  end of the queue of each host whose stub of this factory lets it pass, on the host's own
  thread; no other host and no other queue receives anything.  The counter, a 32-bit
  \<open>int\<close>, advances by one as long as it is below its largest value.
\<close>

theorem produce_delivers_once:
  assumes "reachable s" "factories s f = Some x" "produce_id s < 2 ^ 31 - 1"
  shows "\<exists>s'. Produce f s = Inr s' \<and> produce_id s' = produce_id s + 1 \<and>
    GetLastData f s' = Inr \<lparr>fd_data = data_string (produce_id s), fd_id = produce_id s\<rparr> \<and> hosts s' = hosts s \<and>
    (\<forall>h o' t. hosts s h = Some o' \<longrightarrow>
       data_for h (queue s' t) = data_for h (queue s t) @
         (if t = h_host_thread o' \<and> notified h f s then [\<lparr>fd_data = data_string (produce_id s), fd_id = produce_id s\<rparr>] else []))"
proof -
  note inv = reachable_inv [OF assms(1)]
  let ?d = "produced_data (produce_id s)"
  let ?s1 = "put_factory f (x\<lparr>f_data := ?d\<rparr>) s"
  let ?s2 = "fold (produce_effect ?d) (live (observers (f_observers x))) ?s1"
  note r = Produce_result [OF inv assms(2), unfolded int32_succ_below [OF assms(3)]]
  have i1: "idle_inv ?s1" by (rule put_factory_inv [OF inv assms(2)]) auto
  have f1: "factories ?s1 f = Some (x\<lparr>f_data := ?d\<rparr>)" by (simp add: put_factory_def)
  have "registered i f ?s1" if "StubObs i \<in> set (live (observers (f_observers x)))" for i
    using that f1 by (simp add: registered_def)
  then have "factories ?s2 = factories ?s1" "hosts ?s2 = hosts ?s1"
    using produce_fold [OF i1] by blast+
  then have "GetLastData f (?s2\<lparr>produce_id := produce_id s + 1\<rparr>) = Inr ?d" "hosts ?s2 = hosts s"
    by (simp_all add: GetLastData_def get_factory_def put_factory_def)
  then show ?thesis
    using r(1) Produce_queue [OF inv assms(2) _ r(1)]
    by (intro exI [of _ "?s2\<lparr>produce_id := produce_id s + 1\<rparr>"]) (simp add: produced_data_def)
qed

theorem produce_delivers_once_witness:
  "\<exists>s'. Produce 0 demo_sys = Inr s' \<and> data_for 1 (queue s' 1) = [\<lparr>fd_data = ''Data id:0.'', fd_id = 0\<rparr>]"
proof -
  obtain x where x: "factories demo_sys 0 = Some x" using demo_sys_facts(1) by blast
  have d: "data_string 0 = ''Data id:0.''" by code_simp
  have f: "produce_id demo_sys = 0" "notified 1 0 demo_sys" "map_option h_host_thread (hosts demo_sys 1) = Some 1"
    "data_for 1 (queue demo_sys 1) = []"
    by code_simp+
  then obtain o' where o': "hosts demo_sys 1 = Some o'" "h_host_thread o' = 1" by auto
  have "produce_id demo_sys < 2 ^ 31 - 1" using f(1) by simp
  from produce_delivers_once [OF demo_sys_reachable(1) x this] obtain s' where
    s': "Produce 0 demo_sys = Inr s'" and all: "\<forall>h o' t. hosts demo_sys h = Some o' \<longrightarrow>
       data_for h (queue s' t) = data_for h (queue demo_sys t) @
         (if t = h_host_thread o' \<and> notified h 0 demo_sys
          then [\<lparr>fd_data = data_string (produce_id demo_sys), fd_id = produce_id demo_sys\<rparr>] else [])" by blast
  from all [rule_format, OF o'(1), of 1] have "data_for 1 (queue s' 1) = [\<lparr>fd_data = ''Data id:0.'', fd_id = 0\<rparr>]"
    using f o'(2) d by simp
  with s' show ?thesis by blast
qed

text \<open>
  C3: ordered delivery.  Over a whole run of fewer than \<open>2 ^ 31 - 1\<close> productions, so that
  the 32-bit counter of \<open>Produce\<close> does not overflow, with any interleaving of the threads,
  any client calls, several factories, restarts and destructions, the counter is the number
  of productions; the data a host has been handed followed by the data still on its way is
  numbered in strictly increasing order (nothing is delivered twice or overtakes), all below
  the counter, all waiting on the host's own thread; and \<open>receive()\<close> is the number of data
  handed over.  After the overflow the ids start again, and the order is lost.
\<close>

theorem ordered_delivery:
  assumes "run_log s lg n" "n < 2 ^ 31 - 1" "hosts s h = Some x"
  shows "produce_id s = int n \<and>
    sorted_wrt (<) (lg h @ map fd_id (data_for h (queue s (h_host_thread x)))) \<and>
    (\<forall>i\<in>set (lg h @ map fd_id (data_for h (queue s (h_host_thread x)))). i < produce_id s) \<and>
    (\<forall>t. t \<noteq> h_host_thread x \<longrightarrow> data_for h (queue s t) = []) \<and>
    h_receive x = int (length (lg h))"
  using run_log_inv [OF assms(1,2)] assms(3) by (auto simp: log_inv_def host_log_ok_def)

text \<open>A concrete run: the set-up of the unit test, a start, and one run of the schedule.\<close>

definition has_log :: "nat \<Rightarrow> sys \<Rightarrow> bool" where
  "has_log k s \<longleftrightarrow> (\<exists>lg n. n \<le> k \<and> run_log s lg n)"

lemma has_log_start: "has_log 0 init_sys"
  unfolding has_log_def by (intro exI [of _ "\<lambda>_. []"] exI [of _ 0]) (simp add: run_log.start)

lemma has_log_after:
  assumes "has_log k s" "step s a (f s)"
  shows "has_log (Suc k) (after s f)"
proof (cases "f s")
  case (Inl e)
  with assms(1) show ?thesis unfolding has_log_def after_def by (auto intro: le_SucI)
next
  case (Inr s')
  obtain lg n where "n \<le> k" "run_log s lg n" using assms(1) unfolding has_log_def by blast
  with run_log.step [of s lg n a s'] assms(2) Inr have
    "run_log s' (\<lambda>h. lg h @ handed a s h) (if produce_id s' = produce_id s then n else Suc n)" by simp
  moreover have "(if produce_id s' = produce_id s then n else Suc n) \<le> Suc k" using \<open>n \<le> k\<close> by simp
  ultimately show ?thesis unfolding has_log_def after_def using Inr by auto
qed

lemma has_log_run_head: "has_log k s \<Longrightarrow> has_log (Suc k) (after s (run_head t))"
proof (cases "queue s t")
  case Nil
  assume "has_log k s"
  with Nil show ?thesis unfolding has_log_def by (auto simp: after_def run_head_def intro: le_SucI)
next
  case (Cons c cs)
  assume "has_log k s"
  moreover from step.run [OF Cons] have "step s (Run t) (run_head t s)" by (simp add: run_head_def Cons)
  ultimately show ?thesis by (rule has_log_after)
qed

lemma demo_sys_has_log: "has_log 5 demo_sys"
proof -
  have "has_log 2 demo_hosted"
    using has_log_after [where f = "\<lambda>s. bindR (new_host 0 1 None s) (\<lambda>(h, s'). Inr s')",
        OF has_log_after [where f = "\<lambda>s. Inr (snd (new_Factory 0 s))", OF has_log_start step.new_factory] step.new_host]
    by (simp add: demo_hosted_def numeral_2_eq_2)
  from has_log_after [where f = "Init 1 1", OF this step.init [OF demo_hosted_facts]]
  have "has_log 3 demo_posted" by (simp add: demo_posted_def)
  from has_log_run_head [OF has_log_run_head [OF this, of 0], of 1]
  show ?thesis by (simp add: demo_sys_def demo_attached_def)
qed

definition demo_started :: sys where
  "demo_started = after demo_sys (Start 0)"

definition demo_produced :: sys where
  "demo_produced = after demo_started (run_head 0)"

lemma demo_produced_has_log: "has_log 7 demo_produced"
proof -
  from has_log_after [where f = "Start 0", OF demo_sys_has_log step.start [OF demo_sys_facts(1)]]
  have "has_log 6 demo_started" by (simp add: demo_started_def)
  from has_log_run_head [OF this, of 0] show ?thesis by (simp add: demo_produced_def)
qed

definition demo_posted_again :: sys where
  "demo_posted_again =
     (let s = demo_started\<lparr>queue := (queue demo_started)(0 := [])\<rparr>
      in PostDelayedTask 0 (BindSchedule 0 0) (TimeDelta 1000)
           (put_factory 0 ((the (factories s 0))\<lparr>f_last_ticks := now_ticks s\<rparr>) s))"

lemma demo_produced_eq:
  "demo_produced = (case Produce 0 demo_posted_again of Inl e \<Rightarrow> demo_started | Inr s' \<Rightarrow> s')"
proof -
  have "queue demo_started 0 = [BindSchedule 0 0]" by code_simp
  moreover have "map_option (\<lambda>x. (f_start x, f_speed x, f_thread x, f_weak_gen x)) (factories demo_started 0) =
      Some (True, 1000, 0, 0)" by code_simp
  moreover have "micros_per_item 1000 = 1000" using micros_per_item_div [of 1000] by simp
  ultimately have "run_head 0 demo_started = Produce 0 demo_posted_again"
    by (auto simp: demo_posted_again_def run_head_def Schedule_def get_factory_def Let_def dcheck_def FromMicroseconds_def)
  then show ?thesis by (simp add: demo_produced_def after_def)
qed

theorem ordered_delivery_witness:
  "\<exists>lg n x. run_log demo_produced lg n \<and> n = 1 \<and> hosts demo_produced 1 = Some x \<and> h_receive x = 0 \<and> lg 1 = [] \<and>
     map fd_id (data_for 1 (queue demo_produced 1)) = [0]"
proof -
  obtain lg n where lg: "n \<le> 7" "run_log demo_produced lg n" using demo_produced_has_log unfolding has_log_def by blast
  have f: "map_option h_receive (hosts demo_produced 1) = Some 0" "produce_id demo_produced = 1"
    "map fd_id (data_for 1 (queue demo_produced 1)) = [0]" unfolding demo_produced_eq by code_simp+
  then obtain x where x: "hosts demo_produced 1 = Some x" "h_receive x = 0" by auto
  from lg(1) have "n < 2 ^ 31 - 1" by simp
  from ordered_delivery [OF lg(2) this x(1)] f x(2) have "n = 1" "lg 1 = []" by auto
  with lg(2) f(3) x show ?thesis by (intro exI [of _ lg] exI [of _ n] exI [of _ x] conjI)
qed

end
