(* ===== verification/OscTiming.thy ===== *)
theory OscTiming imports OscDelivery begin

text \<open>
  Rates: what a running schedule posts, the restart of a stopped factory, and the frequency
  limiter of \<open>FreqFactoryHostStub\<close> over a sequence of productions.
\<close>

section \<open>The schedule\<close>

lemma Produce_delayed:
  assumes "idle_inv s" "factories s f = Some x" "Produce f s = Inr s'"
  shows "delayed s' = delayed s" "now_ticks s' = now_ticks s"
proof -
  have n: "now_ticks (fold (produce_effect d) obss s) = now_ticks s" for d obss s
  proof (induction obss arbitrary: s)
    case (Cons obs obss)
    have "now_ticks (produce_effect d obs s) = now_ticks s"
      by (auto simp: produce_effect_def Let_def put_stub_def split: observer.splits option.splits prod.splits)
    with Cons show ?case by simp
  qed simp
  from Produce_result(1) [OF assms(1,2)] assms(3)
  show "delayed s' = delayed s" "now_ticks s' = now_ticks s"
    by (auto simp: put_factory_def n)
qed

text \<open>
  One run of \<open>Schedule\<close> on a started factory posts exactly one successor, due
  \<open>1000000 div speed\<close> microseconds later, and produces one datum; on a stopped factory it
  posts nothing and produces nothing, so the chain of schedules ends.
\<close>

theorem schedule_reposts_once:
  assumes "reachable s" "factories s f = Some x" "f_speed x \<le> 1000000"
  shows "\<exists>s'. Schedule f s = Inr s' \<and>
    (if f_start x
     then produce_id s' = int32_succ (produce_id s) \<and>
       delayed s' = (delayed s)(f_thread x := delayed s (f_thread x) @
         [(ticks_plus (now_ticks s) (TimeDelta (1000000 div f_speed x)), BindSchedule f (f_weak_gen x))])
     else produce_id s' = produce_id s \<and> delayed s' = delayed s \<and> queue s' = queue s)"
proof -
  note inv = reachable_inv [OF assms(1)]
  have sp: "0 < f_speed x" using inv_factory [OF inv assms(2)] by simp
  let ?s1 = "put_factory f (x\<lparr>f_last_ticks := now_ticks s\<rparr>) s"
  let ?us = "int (micros_per_item (nat (f_speed x)))"
  have us: "?us = 1000000 div f_speed x"
    using micros_per_item_div [of "nat (f_speed x)"] sp by (simp add: zdiv_int)
  have "f_speed x div f_speed x \<le> 1000000 div f_speed x" using zdiv_mono1 [OF assms(3) sp] .
  with sp us have pos: "0 < ?us" by simp
  let ?s2 = "PostDelayedTask (f_thread x) (BindSchedule f (f_weak_gen x)) (FromMicroseconds ?us) ?s1"
  have i1: "idle_inv ?s1" by (rule put_factory_inv [OF inv assms(2)]) auto
  have i2: "idle_inv ?s2" by (rule PostDelayedTask_inv [OF i1]) simp
  have f2: "factories ?s2 f = Some (x\<lparr>f_last_ticks := now_ticks s\<rparr>)" by (simp add: put_factory_def)
  show ?thesis
  proof (cases "f_start x")
    case False
    with assms(2) show ?thesis
      by (intro exI [of _ ?s1]) (simp add: Schedule_def get_factory_def Let_def put_factory_def)
  next
    case True
    obtain s' where s': "Produce f ?s2 = Inr s'" "produce_id s' = int32_succ (produce_id ?s2)"
      using Produce_result(1) [OF i2 f2] by simp
    have "TimeDelta 0 < FromMicroseconds ?us" using pos by (simp add: less_time_delta_def delta_less_def FromMicroseconds_def)
    with Produce_delayed(1) [OF i2 f2 s'(1)] us
    have "delayed s' = (delayed s)(f_thread x := delayed s (f_thread x) @
         [(ticks_plus (now_ticks s) (TimeDelta (1000000 div f_speed x)), BindSchedule f (f_weak_gen x))])"
      by (simp add: PostDelayedTask_def put_factory_def FromMicroseconds_def)
    moreover have "Schedule f s = Inr s'"
      using True sp assms(2) s'(1) by (simp add: Schedule_def get_factory_def Let_def)
    ultimately show ?thesis using True s'(2) by (intro exI [of _ s']) (simp add: put_factory_def)
  qed
qed

theorem schedule_reposts_once_witness:
  "\<exists>s' x. factories demo_sys 0 = Some x \<and> Schedule 0 demo_sys = Inr s' \<and> produce_id s' = produce_id demo_sys"
proof -
  obtain x where x: "factories demo_sys 0 = Some x" using demo_sys_facts(1) by blast
  have "map_option f_speed (factories demo_sys 0) = Some 1000" "map_option f_start (factories demo_sys 0) = Some False"
    by code_simp+
  with x have "f_speed x \<le> 1000000" "\<not> f_start x" by auto
  with schedule_reposts_once [OF demo_sys_reachable(1) x] x show ?thesis by auto
qed

text \<open>
  Stopping and starting again before the pending schedule has run leaves two live
  schedules queued: each will repost itself, so the factory produces at twice its speed from
  then on.
\<close>

theorem restart_doubles_schedule:
  assumes "factories s f = Some x" "\<not> f_start x"
  shows "\<exists>s1 s2 s3. Start f s = Inr s1 \<and> Stop f s1 = Inr s2 \<and> Start f s2 = Inr s3 \<and>
    queue s3 (f_thread x) = queue s (f_thread x) @ [BindSchedule f (f_weak_gen x), BindSchedule f (f_weak_gen x)] \<and>
    (\<exists>y. factories s3 f = Some y \<and> f_start y \<and> f_weak_gen y = f_weak_gen x)"
proof -
  let ?c = "BindSchedule f (f_weak_gen x)" and ?t = "f_thread x"
  let ?s1 = "PostTask ?t ?c (put_factory f (x\<lparr>f_start := True\<rparr>) s)"
  let ?s2 = "put_factory f (x\<lparr>f_start := False\<rparr>) ?s1"
  let ?s3 = "PostTask ?t ?c (put_factory f (x\<lparr>f_start := True\<rparr>) ?s2)"
  have "Start f s = Inr ?s1" using assms by (simp add: Start_def get_factory_def)
  moreover have "Stop f ?s1 = Inr ?s2" by (simp add: Stop_def get_factory_def put_factory_def)
  moreover have "Start f ?s2 = Inr ?s3" by (simp add: Start_def get_factory_def put_factory_def)
  moreover have "queue ?s3 ?t = queue s ?t @ [?c, ?c]" by (simp add: PostTask_def put_factory_def)
  moreover have "\<exists>y. factories ?s3 f = Some y \<and> f_start y \<and> f_weak_gen y = f_weak_gen x"
    by (simp add: put_factory_def)
  ultimately show ?thesis by blast
qed

theorem restart_doubles_schedule_witness:
  "\<exists>s1 s2 s3. Start 0 demo_sys = Inr s1 \<and> Stop 0 s1 = Inr s2 \<and> Start 0 s2 = Inr s3 \<and>
    length (queue s3 0) = length (queue demo_sys 0) + 2"
proof -
  obtain x where x: "factories demo_sys 0 = Some x" using demo_sys_facts(1) by blast
  have "map_option f_start (factories demo_sys 0) = Some False" "map_option f_thread (factories demo_sys 0) = Some 0"
    by code_simp+
  with x have a: "\<not> f_start x" "f_thread x = 0" by auto
  from restart_doubles_schedule [OF x a(1)] a(2) show ?thesis by fastforce
qed

text \<open>
  A schedule posted before its factory was destroyed does nothing when it runs: its weak
  pointer has become NULL.
\<close>

theorem stale_schedule_ignored:
  assumes "reachable s" "factories s f = Some x" "Factory_Destroy f s = Inr s'"
  shows "run_closure (BindSchedule f gen) s' = Inr s'"
proof -
  have "factories s' f = None"
    using Factory_Destroy_result(1) [OF reachable_inv [OF assms(1)] assms(2)] assms(3) by auto
  then show ?thesis by simp
qed

theorem stale_schedule_ignored_witness:
  "\<exists>s'. Factory_Destroy 0 demo_sys = Inr s' \<and> run_closure (BindSchedule 0 0) s' = Inr s'"
proof -
  obtain x where x: "factories demo_sys 0 = Some x" using demo_sys_facts(1) by blast
  obtain s' where s': "Factory_Destroy 0 demo_sys = Inr s'"
    using Factory_Destroy_result(1) [OF reachable_inv [OF demo_sys_reachable(1)] x] by simp
  with stale_schedule_ignored [OF demo_sys_reachable(1) x s'] show ?thesis by blast
qed

section \<open>The two destructions racing\<close>

text \<open>
  C6: a host's \<open>Destroy\<close>, legal when it is called, fails the debug check of \<open>PostDestroy\<close>
  when the factory is destroyed before the posted task runs: the factory's destruction has
  already taken the stub away.
\<close>

theorem destroy_race:
  assumes "reachable s" "factories s f = Some x" "hosts s h = Some o'" "h_init o'" "\<not> h_destroy o'"
    "h_stub o' = Some i" "HasObserver (Some (StubObs i)) (f_observers x)"
  shows "\<exists>s1 s2. Destroy cur h s = Inr s1 \<and> Factory_Destroy f s1 = Inr s2 \<and>
    BindRelayRun (BindPostDestroy h) (BindReplyDestroy h) cur \<in> set (queue s2 (h_task_thread o')) \<and>
    run_closure (BindRelayRun (BindPostDestroy h) (BindReplyDestroy h) cur) s2 =
      Inl (DcheckFailed ''no create stub before.'')"
proof -
  let ?c = "BindRelayRun (BindPostDestroy h) (BindReplyDestroy h) cur"
  let ?s1 = "PostTask (h_task_thread o') ?c s"
  note inv = reachable_inv [OF assms(1)]
  have d: "Destroy cur h s = Inr ?s1"
    using assms(3-5) by (simp add: Destroy_def get_host_def PostTaskAndReply_def)
  have i1: "idle_inv ?s1" using assms(3) by (intro PostTask_inv [OF inv]) auto
  have x1: "factories ?s1 f = Some x" using assms(2) by simp
  note r = Factory_Destroy_result [OF i1 x1]
  let ?s2 = "(fold bereave (live (observers (f_observers x))) ?s1)\<lparr>factories := (factories ?s1)(f := None), g_factory := None\<rparr>"
  have q: "set (queue u t) \<subseteq> set (queue (bereave obs u) t)" for obs u t
    by (auto simp: bereave_def Let_def PostTask_def split: observer.splits option.splits)
  have qf: "set (queue u t) \<subseteq> set (queue (fold bereave obss u) t)" for obss u t
  proof (induction obss arbitrary: u)
    case (Cons obs obss)
    with q [of u t obs] show ?case by (simp add: subset_trans)
  qed simp
  have mem: "?c \<in> set (queue ?s2 (h_task_thread o'))"
    using qf [of ?s1 "h_task_thread o'"] by (auto simp: PostTask_def)
  obtain y where y: "hosts ?s2 h = Some y" using r(3) assms(3) by auto
  have gone: "stubs ?s2 i = None"
  proof (rule ccontr)
    assume "stubs ?s2 i \<noteq> None"
    then obtain st where st: "stubs ?s2 i = Some st" by auto
    obtain g where g: "st_factory st = Some g" "registered i g ?s2" using inv_stub [OF r(2) st] .
    then have "g \<noteq> f" by (auto simp: registered_def)
    with g(2) have "registered i g s" by (simp add: registered_def)
    moreover have "registered i f s" using assms(2,7) by (simp add: registered_def)
    ultimately show False using registered_unique [OF inv] \<open>g \<noteq> f\<close> by blast
  qed
  have keeps: "h_stub b = Some i \<or> h_stub b = None" if "hosts u h = Some a" "h_stub a = Some i \<or> h_stub a = None"
    "hosts (bereave obs u) h = Some b" for obs u a b
    using that by (auto simp: bereave_def Let_def split: observer.splits option.splits if_splits)
  have stays: "\<exists>b. hosts (bereave obs u) h = Some b" if "hosts u h = Some a" for obs u a
    using that by (auto simp: bereave_def Let_def split: observer.splits option.splits)
  have "h_stub b = Some i \<or> h_stub b = None" if "hosts u h = Some a" "h_stub a = Some i \<or> h_stub a = None"
    "hosts (fold bereave obss u) h = Some b" for obss u a b
    using that
  proof (induction obss arbitrary: u a)
    case (Cons obs obss)
    then show ?case using keeps stays by (metis fold_simps(2))
  qed auto
  from this [of ?s1 o' "live (observers (f_observers x))" y] y assms(3,6)
  have "h_stub y = Some i \<or> h_stub y = None" by simp
  moreover have "h_stub y \<noteq> Some i"
    using inv_host_stub [OF r(2) y, of i] gone by auto
  ultimately have "PostDestroy h ?s2 = Inl (DcheckFailed ''no create stub before.'')"
    using PostDestroy_none [OF y] by simp
  with d r(1) mem show ?thesis by (intro exI [of _ ?s1] exI [of _ ?s2]) simp
qed

theorem destroy_race_witness:
  "\<exists>s1 s2. Destroy 1 1 demo_sys = Inr s1 \<and> Factory_Destroy 0 s1 = Inr s2 \<and>
    run_closure (BindRelayRun (BindPostDestroy 1) (BindReplyDestroy 1) 1) s2 =
      Inl (DcheckFailed ''no create stub before.'')"
proof -
  obtain x where x: "factories demo_sys 0 = Some x" using demo_sys_facts(1) by blast
  obtain o' where o': "hosts demo_sys 1 = Some o'" using demo_sys_facts(3) by auto
  have "map_option h_destroy (hosts demo_sys 1) = Some False" "map_option h_stub (hosts demo_sys 1) = Some (Some 2)"
    by code_simp+
  with o' demo_sys_facts(3) have "h_init o'" "\<not> h_destroy o'" "h_stub o' = Some 2" by auto
  moreover have "HasObserver (Some (StubObs 2)) (f_observers x)" using demo_sys_facts(2) x by simp
  ultimately show ?thesis using destroy_race [OF demo_sys_reachable(1) x o'] by blast
qed

section \<open>The frequency limiter\<close>

text \<open>The limiter over the clock readings of successive productions: how often it notifies, and its state.\<close>

fun limiter :: "int \<Rightarrow> time \<Rightarrow> time list \<Rightarrow> nat \<times> time" where
  "limiter freq last_notify [] = (0, last_notify)"
| "limiter freq last_notify (now # rest) =
     (case freq_decide freq now last_notify of (notify, t) \<Rightarrow>
        (case limiter freq t rest of (n, t') \<Rightarrow> (if notify then Suc n else n, t')))"

definition period :: "int \<Rightarrow> int" where
  "period freq = 1000000 div freq"

lemma period_pos: "0 < freq \<Longrightarrow> freq \<le> 1000000 \<Longrightarrow> 0 < period freq"
  using zdiv_mono1 [of freq 1000000 freq] by (simp add: period_def)

lemma freq_decide_running:
  assumes "0 < freq" "time_us last_notify \<noteq> 0"
  shows "freq_decide freq now last_notify =
    (if time_us last_notify + period freq \<le> time_us now
     then (True, Time (time_us last_notify + period freq)) else (False, last_notify))"
proof -
  have "int (micros_per_notify (nat freq)) = period freq"
    using micros_per_notify_div [of "nat freq"] assms(1) by (simp add: zdiv_int period_def)
  with assms(2) show ?thesis
    by (simp add: freq_decide_def time_is_null_def Let_def FromMicroseconds_def time_plus_def)
qed

lemma freq_decide_first: "time_us last_notify = 0 \<Longrightarrow> freq_decide freq now last_notify = (True, now)"
  by (simp add: freq_decide_def time_is_null_def)

text \<open>Never faster than the frequency: every notification moves the state one period on, never past the clock.\<close>

lemma limiter_advances:
  assumes "0 < freq" "0 < period freq" "0 < time_us t" "limiter freq t nows = (n, t')"
  shows "time_us t' = time_us t + int n * period freq \<and> (n = 0 \<or> time_us t' \<le> Max (time_us ` set nows))"
  using assms(3,4)
proof (induction nows arbitrary: t n t')
  case Nil
  then show ?case by simp
next
  case (Cons now rest)
  obtain ok t1 where d: "freq_decide freq now t = (ok, t1)" by (cases "freq_decide freq now t")
  obtain m t2 where r: "limiter freq t1 rest = (m, t2)" by (cases "limiter freq t1 rest")
  from d Cons.prems(1) assms(1) have t1: "if ok then time_us t1 = time_us t + period freq \<and> time_us t1 \<le> time_us now
      else t1 = t"
    by (auto simp: freq_decide_running split: if_splits)
  with Cons.prems(1) assms(2) have "0 < time_us t1" by (auto split: if_splits)
  from Cons.IH [OF this r] have ih: "time_us t2 = time_us t1 + int m * period freq"
    "m = 0 \<or> time_us t2 \<le> Max (time_us ` set rest)" by auto
  have n: "n = (if ok then Suc m else m)" "t' = t2" using Cons.prems(2) d r by auto
  have mx: "time_us now \<le> Max (time_us ` set (now # rest))" by simp
  have "m = 0 \<or> time_us t2 \<le> Max (time_us ` set (now # rest))"
    using ih(2) r by (cases "rest = []") auto
  moreover have "time_us t2 \<le> Max (time_us ` set (now # rest))" if "m = 0" "ok"
  proof -
    have "time_us t2 \<le> time_us now" using ih(1) t1 that by simp
    with mx show ?thesis by linarith
  qed
  ultimately show ?case using n t1 ih(1) by (auto simp: algebra_simps)
qed

text \<open>The readings do not go back and follow each other within one period.\<close>

fun steady :: "int \<Rightarrow> time \<Rightarrow> time list \<Rightarrow> bool" where
  "steady p t [] = True"
| "steady p t (now # rest) \<longleftrightarrow> time_us t \<le> time_us now \<and> time_us now \<le> time_us t + p \<and> steady p now rest"

lemma limiter_steady:
  assumes "0 < freq" "0 < period freq" "0 < time_us t" "time_us t \<le> time_us now" "time_us now < time_us t + period freq"
    "steady (period freq) now nows" "limiter freq t nows = (n, t')"
  shows "time_us t' \<le> time_us (last (now # nows)) \<and> time_us (last (now # nows)) < time_us t' + period freq"
  using assms(3-7)
proof (induction nows arbitrary: t now n t')
  case Nil
  then show ?case by simp
next
  case (Cons now' rest)
  obtain ok t1 where d: "freq_decide freq now' t = (ok, t1)" by (cases "freq_decide freq now' t")
  obtain m t2 where r: "limiter freq t1 rest = (m, t2)" by (cases "limiter freq t1 rest")
  have t': "t' = t2" using Cons.prems(5) d r by auto
  have st: "time_us now \<le> time_us now'" "time_us now' \<le> time_us now + period freq" "steady (period freq) now' rest"
    using Cons.prems(4) by auto
  have t1: "if time_us t + period freq \<le> time_us now' then t1 = Time (time_us t + period freq) else t1 = t"
    using d freq_decide_running [OF assms(1), of t now'] Cons.prems(1) by (auto split: if_splits)
  have "0 < time_us t1 \<and> time_us t1 \<le> time_us now' \<and> time_us now' < time_us t1 + period freq"
    using t1 st Cons.prems(1-3) assms(2) by (auto split: if_splits)
  then show ?case using Cons.IH [of t1 now' m t2] st(3) r t' by simp
qed

text \<open>
  C5: the cumulative bound of the limiter, for a frequency from 1 to 1000000.  On a fresh
  stub, however productions are spaced, the number of notifications so far is at most one
  more than the whole periods between the first reading of the clock and the latest; and
  when productions follow each other within one period, exactly that many: no drift
  accumulates, because a notification moves the state one period on and not to the current
  time.  The bound counts from the first reading only and is not one on the rate of the
  moment: after a gap in the productions the state is periods behind the clock, and every
  production notifies until it has caught up (\<open>limiter_bursts\<close>).
\<close>

theorem limiter_holds_frequency:
  assumes "0 < freq" "freq \<le> 1000000" "0 < time_us now" "limiter freq (Time 0) (now # nows) = (n, t')"
  shows "int n \<le> 1 + (Max (time_us ` set (now # nows)) - time_us now) div (1000000 div freq) \<and>
    (steady (1000000 div freq) now nows \<longrightarrow>
       int n = 1 + (time_us (last (now # nows)) - time_us now) div (1000000 div freq))"
proof -
  let ?p = "period freq"
  have p: "0 < ?p" by (rule period_pos [OF assms(1,2)])
  obtain m where m: "limiter freq now nows = (m, t')" "n = Suc m"
    using assms(4) by (auto simp: freq_decide_first split: prod.splits)
  note adv = limiter_advances [OF assms(1) p assms(3) m(1)]
  have "int m * ?p \<le> Max (time_us ` set (now # nows)) - time_us now"
  proof (cases "m = 0")
    case True
    then show ?thesis by simp
  next
    case False
    with adv have le: "time_us t' \<le> Max (time_us ` set nows)" by simp
    have "nows \<noteq> []" using m(1) False by auto
    then have "Max (time_us ` set nows) \<le> Max (time_us ` set (now # nows))" by (intro Max_mono) auto
    with le adv show ?thesis by simp
  qed
  then have "int m \<le> (Max (time_us ` set (now # nows)) - time_us now) div ?p"
    using zdiv_mono1 [of "int m * ?p" _ ?p] p by fastforce
  moreover have "int m = (time_us (last (now # nows)) - time_us now) div ?p" if st: "steady ?p now nows"
  proof -
    from limiter_steady [OF assms(1) p assms(3) order_refl _ st m(1)] p
    have "time_us t' \<le> time_us (last (now # nows))" "time_us (last (now # nows)) < time_us t' + ?p" by simp_all
    with adv have "?p * int m \<le> time_us (last (now # nows)) - time_us now"
      "time_us (last (now # nows)) - time_us now < ?p * int m + ?p" by (auto simp: mult.commute)
    then show ?thesis using p by (intro int_div_pos_eq [symmetric, where r = "time_us (last (now # nows)) - time_us now - ?p * int m"]) auto
  qed
  ultimately show ?thesis using m(2) by (simp add: period_def)
qed

lemma limiter_bursts:
  "fst (limiter 250000 (Time 0) [Time 10, Time 30, Time 31, Time 32, Time 33]) = 5"
  by (simp add: freq_decide_first freq_decide_running period_def)

theorem limiter_holds_frequency_witness:
  "int (fst (limiter 250000 (Time 0) [Time 10, Time 12, Time 15, Time 18, Time 22])) = 1 + (22 - 10) div 4"
proof -
  obtain n t' where l: "limiter 250000 (Time 0) [Time 10, Time 12, Time 15, Time 18, Time 22] = (n, t')"
    by (cases "limiter 250000 (Time 0) [Time 10, Time 12, Time 15, Time 18, Time 22]")
  have "steady (1000000 div 250000) (Time 10) [Time 12, Time 15, Time 18, Time 22]" by simp
  with limiter_holds_frequency [OF _ _ _ l] have "int n = 1 + (22 - 10) div (1000000 div 250000)" by simp
  with l show ?thesis by simp
qed

end
