(* ===== verification/OscProtocol.thy ===== *)
theory OscProtocol imports OscTiming begin

text \<open>
  The life cycle of a host as a state machine, and a condition on the calls of the client,
  \<open>polite\<close>, under which no debug check of the program can fail: \<open>Init\<close> once, on the host's
  thread, while a factory exists; \<open>Destroy\<close> once, on the host's thread, after initialisation
  and not after the factory took the stub away; a factory destroyed only while no \<open>Init\<close> or
  \<open>Destroy\<close> is on its way to the factory thread.  The sources document no such protocol: the
  condition is this development's, it is sufficient, and it looks at state a client cannot
  see (the stub pointer and the queues).  \<open>OscTiming.destroy_race\<close> shows that the last part
  cannot be dropped: a \<open>Destroy\<close> that passes the checks of the program, followed by the
  destruction of the factory, reaches a failing one.
\<close>

section \<open>Phases of a host\<close>

text \<open>
  \<open>Initing\<close>: \<open>Init\<close> was called.  \<open>Bound\<close>: the stub exists, the reply is on its way.
  \<open>Ready\<close>.  \<open>Leaving\<close>: \<open>Destroy\<close> was called.  \<open>Gone\<close>: the stub is gone, the reply is on
  its way.  \<open>Orphaned\<close>: the factory was destroyed while the host was \<open>Bound\<close>.
\<close>

datatype phase = Fresh | Initing | Bound | Ready | Leaving | Gone | Orphaned | Done

definition life :: "hid \<Rightarrow> closure \<Rightarrow> bool" where
  "life h c \<longleftrightarrow> h \<in> set (closure_hosts c) \<and>
     (case c of BindHostData _ _ \<Rightarrow> False | BindHostFactoryDestroy _ \<Rightarrow> False | _ \<Rightarrow> True)"

definition in_life :: "hid \<Rightarrow> sys \<Rightarrow> tid \<Rightarrow> closure list" where
  "in_life h s = (\<lambda>t. filter (life h) (queue s t))"

definition only :: "tid \<Rightarrow> closure list \<Rightarrow> tid \<Rightarrow> closure list" where
  "only t cs = (\<lambda>_. [])(t := cs)"

definition relay_init :: "hid \<Rightarrow> tid \<Rightarrow> closure" where
  "relay_init h t = BindRelayRun (BindPostInit h) (BindReplyInit h) t"

definition relay_destroy :: "hid \<Rightarrow> tid \<Rightarrow> closure" where
  "relay_destroy h t = BindRelayRun (BindPostDestroy h) (BindReplyDestroy h) t"

fun in_phase :: "phase \<Rightarrow> hid \<Rightarrow> host \<Rightarrow> (tid \<Rightarrow> closure list) \<Rightarrow> bool \<Rightarrow> bool" where
  "in_phase Fresh h x L g \<longleftrightarrow> \<not> h_init x \<and> \<not> h_destroy x \<and> h_stub x = None \<and> h_destroy_time x = 0 \<and> L = (\<lambda>_. [])"
| "in_phase Initing h x L g \<longleftrightarrow> \<not> h_init x \<and> \<not> h_destroy x \<and> h_stub x = None \<and> h_destroy_time x = 0 \<and> g \<and>
     L = only (h_task_thread x) [relay_init h (h_host_thread x)]"
| "in_phase Bound h x L g \<longleftrightarrow> \<not> h_init x \<and> \<not> h_destroy x \<and> h_stub x \<noteq> None \<and> h_destroy_time x = 0 \<and>
     L = only (h_host_thread x) [BindRelayReply (BindReplyInit h)]"
| "in_phase Ready h x L g \<longleftrightarrow> h_init x \<and> \<not> h_destroy x \<and> h_stub x \<noteq> None \<and> h_destroy_time x = 0 \<and> L = (\<lambda>_. [])"
| "in_phase Leaving h x L g \<longleftrightarrow> h_init x \<and> \<not> h_destroy x \<and> h_stub x \<noteq> None \<and> h_destroy_time x = 0 \<and>
     L = only (h_task_thread x) [relay_destroy h (h_host_thread x)]"
| "in_phase Gone h x L g \<longleftrightarrow> h_init x \<and> \<not> h_destroy x \<and> h_stub x = None \<and> h_destroy_time x = 0 \<and>
     (L = only (h_host_thread x) [BindRelayReply (BindReplyDestroy h)] \<or> L = only (h_host_thread x) [BindReplyDestroy h])"
| "in_phase Orphaned h x L g \<longleftrightarrow> \<not> h_init x \<and> \<not> h_destroy x \<and> h_stub x = None \<and> h_destroy_time x = 0 \<and>
     L = only (h_host_thread x) [BindRelayReply (BindReplyInit h), BindReplyDestroy h]"
| "in_phase Done h x L g \<longleftrightarrow> h_init x \<and> h_destroy x \<and> h_stub x = None \<and> h_destroy_time x = 1 \<and> L = (\<lambda>_. [])"

definition host_phase :: "hid \<Rightarrow> sys \<Rightarrow> bool" where
  "host_phase h s \<longleftrightarrow>
     (\<forall>x. hosts s h = Some x \<longrightarrow> (\<exists>p. in_phase p h x (in_life h s) (g_factory s \<noteq> None)))"

fun known_closure :: "closure \<Rightarrow> bool" where
  "known_closure (BindSchedule f g) = True"
| "known_closure (BindHostData h d) = True"
| "known_closure (BindHostFactoryDestroy h) = True"
| "known_closure (BindReplyDestroy h) = True"
| "known_closure (BindRelayReply r) = (case r of BindReplyInit h \<Rightarrow> True | BindReplyDestroy h \<Rightarrow> True | _ \<Rightarrow> False)"
| "known_closure (BindRelayRun task reply t) =
     ((\<exists>h. task = BindPostInit h \<and> reply = BindReplyInit h) \<or> (\<exists>h. task = BindPostDestroy h \<and> reply = BindReplyDestroy h))"
| "known_closure c = False"

definition known_queues :: "sys \<Rightarrow> bool" where
  "known_queues s \<longleftrightarrow> (\<forall>t. (\<forall>c\<in>set (queue s t). known_closure c) \<and>
     (\<forall>(w, c)\<in>set (delayed s t). \<exists>f g. c = BindSchedule f g))"

definition protocol_inv :: "sys \<Rightarrow> bool" where
  "protocol_inv s \<longleftrightarrow> idle_inv s \<and> known_queues s \<and> (\<forall>h. host_phase h s)"

section \<open>The condition on the client\<close>

text \<open>
  \<open>Init\<close>: on the host's own thread, the host neither initialised nor destroyed, without a
  stub and with no part of a handshake of it queued anywhere, while a factory exists.
  \<open>Destroy\<close>: on the host's own thread, initialised, not destroyed, its stub still there, no
  part of a handshake queued.  \<open>Factory::Destroy\<close>: no handshake of any host waits on any
  thread to be run.  A frequency is positive.  Everything else is free.
\<close>

fun polite :: "sys \<Rightarrow> action \<Rightarrow> bool" where
  "polite s (CallInit cur h) \<longleftrightarrow>
     (\<exists>x. hosts s h = Some x \<and> cur = h_host_thread x \<and> \<not> h_init x \<and> \<not> h_destroy x \<and> h_stub x = None \<and>
        in_life h s = (\<lambda>_. []) \<and> g_factory s \<noteq> None)"
| "polite s (CallDestroy cur h) \<longleftrightarrow>
     (\<exists>x. hosts s h = Some x \<and> cur = h_host_thread x \<and> h_init x \<and> \<not> h_destroy x \<and> h_stub x \<noteq> None \<and>
        in_life h s = (\<lambda>_. []))"
| "polite s (CallFactoryDestroy f) \<longleftrightarrow> (\<forall>t task reply cur. BindRelayRun task reply cur \<notin> set (queue s t))"
| "polite s (NewHost t1 t2 q) \<longleftrightarrow> (case q of None \<Rightarrow> True | Some freq \<Rightarrow> 0 < freq)"
| "polite s a \<longleftrightarrow> True"

inductive polite_run :: "sys \<Rightarrow> bool" where
  start: "polite_run init_sys"
| step: "polite_run s \<Longrightarrow> step s a (Inr s') \<Longrightarrow> polite s a \<Longrightarrow> polite_run s'"

section \<open>Frames\<close>

text \<open>What \<open>host_phase\<close> looks at.\<close>

definition phase_view :: "hid \<Rightarrow> sys \<Rightarrow> (tid \<times> tid \<times> bool \<times> bool \<times> bool \<times> int) option \<times> (tid \<Rightarrow> closure list)" where
  "phase_view h s =
     (map_option (\<lambda>x. (h_task_thread x, h_host_thread x, h_init x, h_destroy x, h_stub x = None, h_destroy_time x))
        (hosts s h), in_life h s)"

lemma in_phase_cong:
  "h_task_thread x = h_task_thread y \<Longrightarrow> h_host_thread x = h_host_thread y \<Longrightarrow> h_init x = h_init y \<Longrightarrow>
   h_destroy x = h_destroy y \<Longrightarrow> (h_stub x = None) = (h_stub y = None) \<Longrightarrow> h_destroy_time x = h_destroy_time y \<Longrightarrow>
   (g \<longrightarrow> g') \<Longrightarrow> in_phase p h x L g \<Longrightarrow> in_phase p h y L g'"
  by (cases p) auto

lemma host_phase_view:
  assumes "host_phase h s" "phase_view h s' = phase_view h s" "g_factory s \<noteq> None \<Longrightarrow> g_factory s' \<noteq> None"
  shows "host_phase h s'"
  unfolding host_phase_def
proof (intro allI impI)
  fix y
  assume y: "hosts s' h = Some y"
  with assms(2) obtain x where x: "hosts s h = Some x" "h_task_thread x = h_task_thread y"
    "h_host_thread x = h_host_thread y" "h_init x = h_init y" "h_destroy x = h_destroy y"
    "(h_stub x = None) = (h_stub y = None)" "h_destroy_time x = h_destroy_time y" "in_life h s' = in_life h s"
    by (cases "hosts s h") (auto simp: phase_view_def)
  with assms(1) obtain p where "in_phase p h x (in_life h s) (g_factory s \<noteq> None)" by (auto simp: host_phase_def)
  with in_phase_cong [OF x(2-7)] assms(3) x(8) show "\<exists>p. in_phase p h y (in_life h s') (g_factory s' \<noteq> None)"
    by metis
qed

lemma in_life_PostTask: "in_life h (PostTask t c s) = (in_life h s)(t := in_life h s t @ (if life h c then [c] else []))"
  by (auto simp: in_life_def PostTask_def)

lemma in_life_pop: "queue s t = c # cs \<Longrightarrow> in_life h (s\<lparr>queue := (queue s)(t := cs)\<rparr>) =
    (in_life h s)(t := (if life h c then tl (in_life h s t) else in_life h s t))"
  by (auto simp: in_life_def)

lemma in_life_frames [simp]:
  "in_life h (put_host k x s) = in_life h s" "in_life h (put_factory f y s) = in_life h s"
  "in_life h (put_stub i z s) = in_life h s" "in_life h (attach f k s) = in_life h s"
  "in_life h (detach i f k s) = in_life h s"
  by (auto simp: in_life_def put_host_def put_factory_def put_stub_def attach_def detach_def split: option.splits)

lemma life_simps [simp]:
  "\<not> life h (BindHostData k d)" "\<not> life h (BindHostFactoryDestroy k)" "\<not> life h (BindSchedule f g)"
  "life h (BindReplyDestroy k) \<longleftrightarrow> h = k" "life h (relay_init k t) \<longleftrightarrow> h = k" "life h (relay_destroy k t) \<longleftrightarrow> h = k"
  "life h (BindRelayReply (BindReplyInit k)) \<longleftrightarrow> h = k" "life h (BindRelayReply (BindReplyDestroy k)) \<longleftrightarrow> h = k"
  by (auto simp: life_def relay_init_def relay_destroy_def)

lemma only_simps [simp]:
  "only t [] = (\<lambda>_. [])" "only t cs t = cs" "(only t cs)(t := ds) = only t ds" "(\<lambda>_. [])(t := ds) = only t ds"
  by (auto simp: only_def)

lemma known_PostTask: "known_queues s \<Longrightarrow> known_closure c \<Longrightarrow> known_queues (PostTask t c s)"
  by (auto simp: known_queues_def PostTask_def)

lemma known_frame: "queue s' = queue s \<Longrightarrow> delayed s' = delayed s \<Longrightarrow> known_queues s' = known_queues s"
  by (simp add: known_queues_def)

lemma view_PostTask: "\<not> life h c \<Longrightarrow> phase_view h (PostTask t c s) = phase_view h s"
  by (simp add: phase_view_def in_life_PostTask)

lemma view_pop: "queue s t = c # cs \<Longrightarrow> \<not> life h c \<Longrightarrow> phase_view h (s\<lparr>queue := (queue s)(t := cs)\<rparr>) = phase_view h s"
  by (simp add: phase_view_def in_life_pop)

lemma view_other_host: "k \<noteq> h \<Longrightarrow> phase_view h (put_host k x s) = phase_view h s"
  by (simp add: phase_view_def) (simp add: put_host_def)

lemma view_attach: "k \<noteq> h \<Longrightarrow> phase_view h (attach f k s) = phase_view h s"
  by (simp add: phase_view_def) (simp add: attach_def split: option.splits)

lemma view_detach: "k \<noteq> h \<Longrightarrow> phase_view h (detach i f k s) = phase_view h s"
  by (simp add: phase_view_def) (simp add: detach_def split: option.splits)

lemma view_put_factory: "phase_view h (put_factory f y s) = phase_view h s"
  by (simp add: phase_view_def) (simp add: put_factory_def)

lemma view_produce_id: "phase_view h (s\<lparr>produce_id := i\<rparr>) = phase_view h s"
  by (simp add: phase_view_def in_life_def)

lemma view_put_stub: "phase_view h (put_stub i z s) = phase_view h s"
  by (simp add: phase_view_def) (simp add: put_stub_def)

lemma view_delayed: "phase_view h (s\<lparr>delayed := d\<rparr>) = phase_view h s"
  by (simp add: phase_view_def in_life_def)

lemma view_produce_effect: "phase_view h (produce_effect data obs s) = phase_view h s"
  by (auto simp: produce_effect_def Let_def view_PostTask view_put_stub phase_view_def [of h "s\<lparr>ext_count := _\<rparr>"]
      phase_view_def [of h s] in_life_def split: observer.splits option.splits prod.splits)

lemma view_fold_produce: "phase_view h (fold (produce_effect data) obss s) = phase_view h s"
  by (induction obss arbitrary: s) (auto simp: view_produce_effect)

lemma known_fold_produce: "known_queues s \<Longrightarrow> known_queues (fold (produce_effect data) obss s)"
proof (induction obss arbitrary: s)
  case (Cons obs obss)
  have "known_queues (put_stub i st s)" for i st using Cons.prems by (simp add: known_queues_def put_stub_def)
  then have "known_queues (produce_effect data obs s)"
    using Cons.prems
    by (auto simp: produce_effect_def Let_def known_frame [of "s\<lparr>ext_count := _\<rparr>" s]
        intro!: known_PostTask split: observer.splits option.splits prod.splits)
  with Cons.IH show ?case by simp
qed simp

lemma g_fold_produce: "g_factory (fold (produce_effect data) obss s) = g_factory s"
proof (induction obss arbitrary: s)
  case (Cons obs obss)
  have "g_factory (produce_effect data obs s) = g_factory s"
    by (auto simp: produce_effect_def Let_def put_stub_def split: observer.splits option.splits prod.splits)
  with Cons show ?case by simp
qed simp

text \<open>An operation that changes nothing a phase looks at.\<close>

definition phase_frame :: "sys \<Rightarrow> sys \<Rightarrow> bool" where
  "phase_frame s s' \<longleftrightarrow> (\<forall>h. phase_view h s' = phase_view h s) \<and> (known_queues s \<longrightarrow> known_queues s') \<and>
     (g_factory s \<noteq> None \<longrightarrow> g_factory s' \<noteq> None)"

lemma phase_frame_trans: "phase_frame s1 s2 \<Longrightarrow> phase_frame s2 s3 \<Longrightarrow> phase_frame s1 s3"
  by (auto simp: phase_frame_def)

lemma phase_frame_inv:
  "phase_frame s s' \<Longrightarrow> known_queues s \<Longrightarrow> \<forall>h. host_phase h s \<Longrightarrow> idle_inv s' \<Longrightarrow> protocol_inv s'"
  unfolding protocol_inv_def phase_frame_def using host_phase_view by blast

lemma frame_put_factory: "phase_frame s (put_factory f y s)"
proof -
  have "known_queues (put_factory f y s) = known_queues s" "g_factory (put_factory f y s) = g_factory s"
    by (simp_all add: put_factory_def known_queues_def)
  then show ?thesis by (simp add: phase_frame_def view_put_factory)
qed

lemma frame_PostSchedule: "phase_frame s (PostTask t (BindSchedule f g) s)"
  by (auto simp: phase_frame_def view_PostTask intro: known_PostTask)

lemma frame_PostDelayed: "phase_frame s (PostDelayedTask t (BindSchedule f g) d s)"
proof (cases "TimeDelta 0 < d")
  case True
  then show ?thesis by (auto simp: phase_frame_def PostDelayedTask_def view_delayed known_queues_def)
qed (simp add: PostDelayedTask_def frame_PostSchedule)

lemma frame_Produce:
  assumes "idle_inv s" "factories s f = Some x"
  shows "\<exists>s'. Produce f s = Inr s' \<and> phase_frame s s'"
proof -
  let ?d = "produced_data (produce_id s)"
  let ?s1 = "put_factory f (x\<lparr>f_data := ?d\<rparr>) s"
  let ?s2 = "fold (produce_effect ?d) (live (observers (f_observers x))) ?s1"
  have "phase_frame ?s1 ?s2" by (auto simp: phase_frame_def view_fold_produce known_fold_produce g_fold_produce)
  moreover have "phase_frame ?s2 (?s2\<lparr>produce_id := int32_succ (produce_id s)\<rparr>)"
    by (auto simp: phase_frame_def view_produce_id known_queues_def)
  ultimately have "phase_frame s (?s2\<lparr>produce_id := int32_succ (produce_id s)\<rparr>)"
    using phase_frame_trans frame_put_factory by blast
  with Produce_result(1) [OF assms] show ?thesis by blast
qed

lemma frame_Schedule:
  assumes "idle_inv s" "factories s f = Some x"
  shows "\<exists>s'. Schedule f s = Inr s' \<and> phase_frame s s'"
proof -
  let ?s1 = "put_factory f (x\<lparr>f_last_ticks := now_ticks s\<rparr>) s"
  let ?s2 = "PostDelayedTask (f_thread x) (BindSchedule f (f_weak_gen x))
        (FromMicroseconds (int (micros_per_item (nat (f_speed x))))) ?s1"
  have i1: "idle_inv ?s1" by (rule put_factory_inv [OF assms]) auto
  have i2: "idle_inv ?s2" by (rule PostDelayedTask_inv [OF i1]) simp
  have f2: "factories ?s2 f = Some (x\<lparr>f_last_ticks := now_ticks s\<rparr>)" by (simp add: put_factory_def)
  have sp: "0 < f_speed x" using inv_factory [OF assms] by simp
  have fr: "phase_frame s ?s1" "phase_frame ?s1 ?s2" by (rule frame_put_factory, rule frame_PostDelayed)
  obtain s' where s': "Produce f ?s2 = Inr s'" "phase_frame ?s2 s'" using frame_Produce [OF i2 f2] by blast
  have "Schedule f s = Inr (if f_start x then s' else ?s1)"
    using s'(1) sp assms(2) by (simp add: Schedule_def get_factory_def Let_def)
  then show ?thesis using fr s'(2) phase_frame_trans by (metis (full_types))
qed

section \<open>The life cycle steps\<close>

lemma host_phase_own:
  assumes "hosts s h = Some x" "in_phase p h x (in_life h s) (g_factory s \<noteq> None)"
  shows "host_phase h s"
  using assms by (auto simp: host_phase_def)

lemma others_own:
  assumes "\<forall>k. host_phase k s" "\<And>k. k \<noteq> h \<Longrightarrow> phase_view k s' = phase_view k s"
    "g_factory s' = g_factory s" "host_phase h s'"
  shows "\<forall>k. host_phase k s'"
proof
  fix k
  have a: "host_phase k s" using assms(1) by (rule spec)
  have c: "g_factory s \<noteq> None \<Longrightarrow> g_factory s' \<noteq> None" by (simp only: assms(3) not_False_eq_True)
  show "host_phase k s'"
  proof (cases "k = h")
    case True
    with assms(4) show ?thesis by simp
  next
    case False
    show ?thesis by (rule host_phase_view [OF a assms(2) [OF False] c])
  qed
qed

text \<open>A life cycle closure at the head of a queue fixes the phase of its host.\<close>

lemma head_phase:
  assumes "protocol_inv s" "queue s t = c # cs" "life h c"
  obtains x p where "hosts s h = Some x" "in_phase p h x (in_life h s) (g_factory s \<noteq> None)"
    "hd (in_life h s t) = c" "in_life h s t \<noteq> []"
proof -
  have "h \<in> set (closure_hosts c)" using assms(3) by (simp add: life_def)
  moreover have "idle_inv s" using assms(1) by (simp add: protocol_inv_def)
  ultimately have "hosts s h \<noteq> None"
    using inv_closure [of "\<lambda>_. 0" s c t h] assms(2) by (simp add: closures_of_def)
  then obtain x where x: "hosts s h = Some x" by auto
  then obtain p where "in_phase p h x (in_life h s) (g_factory s \<noteq> None)"
    using assms(1) by (auto simp: protocol_inv_def host_phase_def)
  moreover have "in_life h s t = c # filter (life h) cs" using assms(2,3) by (simp add: in_life_def)
  ultimately show thesis using that x by simp
qed

lemma only_hd: "hd (only t cs t') = c \<Longrightarrow> only t cs t' \<noteq> [] \<Longrightarrow> t' = t \<and> hd cs = c"
  by (cases "t' = t") (simp_all add: only_def del: only_simps)

lemma only_single: "L = only u [d] \<Longrightarrow> hd (L t) = c \<Longrightarrow> L t \<noteq> [] \<Longrightarrow> L = only t [c]"
  by (cases "t = u") (simp_all add: only_def del: only_simps)

lemma known_cases:
  "known_closure c \<Longrightarrow> (\<exists>h. life h c) \<or> (\<exists>f g. c = BindSchedule f g) \<or> (\<exists>h d. c = BindHostData h d) \<or>
     (\<exists>h. c = BindHostFactoryDestroy h)"
  by (cases c) (auto simp: life_def split: closure.splits)

lemma run_relay_init:
  assumes inv: "protocol_inv s" and q: "queue s t = relay_init h cur # cs"
  shows "\<exists>s'. run_closure (relay_init h cur) (s\<lparr>queue := (queue s)(t := cs)\<rparr>) = Inr s' \<and> known_queues s' \<and> (\<forall>k. host_phase k s')"
proof -
  let ?s = "s\<lparr>queue := (queue s)(t := cs)\<rparr>"
  obtain x p where x: "hosts s h = Some x" and p: "in_phase p h x (in_life h s) (g_factory s \<noteq> None)"
    and hd: "hd (in_life h s t) = relay_init h cur" "in_life h s t \<noteq> []"
    using head_phase [OF inv q, of h] by auto
  have i: "idle_inv ?s"
    by (rule popped_inv [of s]) (use inv q in \<open>auto simp: protocol_inv_def closures_of_def\<close>)
  from p hd have "p = Initing"
    by (cases p) (auto dest!: only_hd simp: relay_init_def relay_destroy_def)
  with p hd have f: "\<not> h_init x" "\<not> h_destroy x" "h_stub x = None" "h_destroy_time x = 0" "g_factory s \<noteq> None"
    "in_life h s = only (h_task_thread x) [relay_init h (h_host_thread x)]" "t = h_task_thread x" "cur = h_host_thread x"
    by (auto dest!: only_hd simp: relay_init_def)
  obtain f' y where f': "g_factory ?s = Some f'" "factories ?s f' = Some y"
    using f(5) inv_current [OF i] by (cases "g_factory s") auto
  let ?s1 = "attach f' h ?s"
  let ?s2 = "PostTask cur (BindRelayReply (BindReplyInit h)) ?s1"
  have x': "hosts ?s h = Some x" using x by simp
  have "run_closure (relay_init h cur) ?s = Inr ?s2"
    using PostInit_attach [OF i x' f(3) f'(1)] by (simp add: relay_init_def)
  moreover have "known_queues ?s2"
  proof (rule known_PostTask)
    have "known_queues ?s"
      using inv q by (auto simp: protocol_inv_def known_queues_def dest: spec [of _ t])
    then show "known_queues ?s1" by (simp add: known_queues_def attach_eq [OF f'(2) x'])
  qed simp
  moreover have "\<forall>k. host_phase k ?s2"
  proof (rule others_own [of s])
    show "\<forall>k. host_phase k s" using inv by (simp add: protocol_inv_def)
    show "phase_view k ?s2 = phase_view k s" if "k \<noteq> h" for k
      using that view_pop [OF q, of k] by (simp add: view_PostTask view_attach)
    show "g_factory ?s2 = g_factory s" by (simp add: attach_eq [OF f'(2) x'])
    have "in_life h ?s = (\<lambda>_. [])"
      using in_life_pop [OF q, of h] f(6,7) by simp
    then have L: "in_life h ?s2 = only cur [BindRelayReply (BindReplyInit h)]" by (simp add: in_life_PostTask)
    have H: "hosts ?s2 h = Some (x\<lparr>h_data := Some (f_data y), h_stub := Some (next_addr s)\<rparr>)"
      by (simp add: attach_eq [OF f'(2) x'])
    show "host_phase h ?s2"
    proof (rule host_phase_own [where p = Bound, OF H])
      show "in_phase Bound h (x\<lparr>h_data := Some (f_data y), h_stub := Some (next_addr s)\<rparr>) (in_life h ?s2) (g_factory ?s2 \<noteq> None)"
        using f(1-4,8) L by simp
    qed
  qed
  ultimately show ?thesis by blast
qed

lemma known_pop: "known_queues s \<Longrightarrow> queue s t = c # cs \<Longrightarrow> known_queues (s\<lparr>queue := (queue s)(t := cs)\<rparr>)"
  by (auto simp: known_queues_def dest: spec [of _ t])

lemma in_life_pop_own:
  assumes "queue s t = c # cs" "life h c" "in_life h s = only t (c # L)"
  shows "in_life h (s\<lparr>queue := (queue s)(t := cs)\<rparr>) = only t L"
  using in_life_pop [OF assms(1), of h] assms(2,3) by simp

text \<open>A step of the head closure that ends with an update of its own host.\<close>

lemma host_update_step:
  assumes inv: "protocol_inv s" and q: "queue s t = c # cs" and l: "\<And>k. life k c \<Longrightarrow> k = h"
    and y: "in_phase p h y (in_life h (s\<lparr>queue := (queue s)(t := cs)\<rparr>)) (g_factory s \<noteq> None)"
  shows "known_queues (put_host h y (s\<lparr>queue := (queue s)(t := cs)\<rparr>)) \<and>
    (\<forall>k. host_phase k (put_host h y (s\<lparr>queue := (queue s)(t := cs)\<rparr>)))"
proof -
  let ?s = "s\<lparr>queue := (queue s)(t := cs)\<rparr>"
  let ?s' = "put_host h y ?s"
  have "known_queues ?s" using known_pop [OF _ q] inv by (simp add: protocol_inv_def)
  then have "known_queues ?s'" by (simp add: known_queues_def put_host_def)
  moreover have "\<forall>k. host_phase k ?s'"
  proof (rule others_own [of s])
    show "\<forall>k. host_phase k s" using inv by (simp add: protocol_inv_def)
    show "phase_view k ?s' = phase_view k s" if "k \<noteq> h" for k
      using that l [of k] view_pop [OF q, of k] view_other_host [of h k y ?s] by auto
    show "g_factory ?s' = g_factory s" by (simp add: put_host_def)
    show "host_phase h ?s'"
    proof (rule host_phase_own [where p = p])
      show "hosts ?s' h = Some y" by (simp add: put_host_def)
      show "in_phase p h y (in_life h ?s') (g_factory ?s' \<noteq> None)" using y by (simp only: in_life_frames) (simp add: put_host_def)
    qed
  qed
  ultimately show ?thesis ..
qed

lemma run_reply_init:
  assumes inv: "protocol_inv s" and q: "queue s t = BindRelayReply (BindReplyInit h) # cs"
  shows "\<exists>s'. run_closure (BindRelayReply (BindReplyInit h)) (s\<lparr>queue := (queue s)(t := cs)\<rparr>) = Inr s' \<and>
    known_queues s' \<and> (\<forall>k. host_phase k s')"
proof -
  let ?s = "s\<lparr>queue := (queue s)(t := cs)\<rparr>"
  obtain x p where x: "hosts s h = Some x" and p: "in_phase p h x (in_life h s) (g_factory s \<noteq> None)"
    and hd: "hd (in_life h s t) = BindRelayReply (BindReplyInit h)" "in_life h s t \<noteq> []"
    using head_phase [OF inv q, of h] by auto
  from p hd have "p = Bound \<or> p = Orphaned"
    by (cases p) (auto dest!: only_hd simp: relay_init_def relay_destroy_def)
  then obtain p' where p': "\<not> h_destroy x" "in_phase p' h (x\<lparr>h_init := True\<rparr>) (in_life h ?s) (g_factory s \<noteq> None)"
  proof
    assume "p = Bound"
    with p hd have f: "\<not> h_init x" "\<not> h_destroy x" "h_stub x \<noteq> None" "h_destroy_time x = 0"
      "in_life h s = only t [BindRelayReply (BindReplyInit h)]" by (auto dest!: only_hd)
    from in_life_pop_own [OF q _ f(5)] have "in_life h ?s = (\<lambda>_. [])" by simp
    with f show thesis by (intro that [of Ready]) auto
  next
    assume "p = Orphaned"
    with p hd have f: "\<not> h_init x" "\<not> h_destroy x" "h_stub x = None" "h_destroy_time x = 0" "t = h_host_thread x"
      "in_life h s = only t [BindRelayReply (BindReplyInit h), BindReplyDestroy h]" by (auto dest!: only_hd)
    from in_life_pop_own [OF q _ f(6)] have "in_life h ?s = only t [BindReplyDestroy h]" by simp
    with f show thesis by (intro that [of Gone]) auto
  qed
  have "run_closure (BindRelayReply (BindReplyInit h)) ?s = Inr (put_host h (x\<lparr>h_init := True\<rparr>) ?s)"
    using x p'(1) by (simp add: ReplyInit_def get_host_def)
  with host_update_step [OF inv q _ p'(2)] show ?thesis by (metis life_simps(7))
qed

lemma run_reply_destroy:
  assumes inv: "protocol_inv s" and q: "queue s t = c # cs"
    and c: "c = BindRelayReply (BindReplyDestroy h) \<or> c = BindReplyDestroy h"
  shows "\<exists>s'. run_closure c (s\<lparr>queue := (queue s)(t := cs)\<rparr>) = Inr s' \<and> known_queues s' \<and> (\<forall>k. host_phase k s')"
proof -
  let ?s = "s\<lparr>queue := (queue s)(t := cs)\<rparr>"
  have l: "life k c \<longleftrightarrow> k = h" for k using c by auto
  obtain x p where x: "hosts s h = Some x" and p: "in_phase p h x (in_life h s) (g_factory s \<noteq> None)"
    and hd: "hd (in_life h s t) = c" "in_life h s t \<noteq> []"
    using head_phase [OF inv q, of h] l by auto
  from p hd c have "p = Gone"
    by (cases p) (auto dest!: only_hd simp: relay_init_def relay_destroy_def)
  with p have f: "h_init x" "\<not> h_destroy x" "h_stub x = None" "h_destroy_time x = 0" "in_life h s = only t [c]"
    using only_single [of "in_life h s" _ _ t c] hd by auto
  have L: "in_life h ?s = (\<lambda>_. [])" using in_life_pop_own [OF q _ f(5)] l by simp
  have y: "in_phase Done h (OnDestroy (x\<lparr>h_destroy := True\<rparr>)) (in_life h ?s) (g_factory s \<noteq> None)"
    using f L by (simp add: OnDestroy_def)
  have "run_closure c ?s = Inr (put_host h (OnDestroy (x\<lparr>h_destroy := True\<rparr>)) ?s)"
    using x c by (auto simp: ReplyDestroy_def get_host_def)
  with host_update_step [OF inv q _ y] l show ?thesis by metis
qed

lemma run_relay_destroy:
  assumes inv: "protocol_inv s" and q: "queue s t = relay_destroy h cur # cs"
  shows "\<exists>s'. run_closure (relay_destroy h cur) (s\<lparr>queue := (queue s)(t := cs)\<rparr>) = Inr s' \<and> known_queues s' \<and> (\<forall>k. host_phase k s')"
proof -
  let ?s = "s\<lparr>queue := (queue s)(t := cs)\<rparr>"
  obtain x p where x: "hosts s h = Some x" and p: "in_phase p h x (in_life h s) (g_factory s \<noteq> None)"
    and hd: "hd (in_life h s t) = relay_destroy h cur" "in_life h s t \<noteq> []"
    using head_phase [OF inv q, of h] by auto
  have i: "idle_inv ?s"
    by (rule popped_inv [of s]) (use inv q in \<open>auto simp: protocol_inv_def closures_of_def\<close>)
  from p hd have "p = Leaving"
    by (cases p) (auto dest!: only_hd simp: relay_init_def relay_destroy_def)
  with p hd have f: "h_init x" "\<not> h_destroy x" "h_stub x \<noteq> None" "h_destroy_time x = 0"
    "in_life h s = only t [relay_destroy h cur]" "cur = h_host_thread x"
    by (auto dest!: only_hd simp: relay_destroy_def)
  have x': "hosts ?s h = Some x" using x by simp
  obtain j where j: "h_stub x = Some j" using f(3) by auto
  obtain st f' where st: "stubs ?s j = Some st" "st_observer st = h" "registered j f' ?s"
    using inv_host_stub [OF i x' j] by metis
  obtain y o' where e: "hosts ?s h = Some o'"
    "detach j f' h ?s = ?s\<lparr>factories := (factories ?s)(f' \<mapsto> y\<lparr>f_observers := RemoveObserver (Some (StubObs j)) (f_observers y)\<rparr>),
             stubs := (stubs ?s)(j := None), hosts := (hosts ?s)(h \<mapsto> o'\<lparr>h_stub := None\<rparr>)\<rparr>"
    using detach_eq [OF i st(3,1,2)] by metis
  then have ox: "o' = x" using x' by simp
  let ?s2 = "PostTask cur (BindRelayReply (BindReplyDestroy h)) (detach j f' h ?s)"
  have run: "run_closure (relay_destroy h cur) ?s = Inr ?s2"
    using PostDestroy_detach [OF i st(3,1,2)] by (simp add: relay_destroy_def)
  have "known_queues ?s" using known_pop [OF _ q] inv by (simp add: protocol_inv_def)
  then have "known_queues (detach j f' h ?s)" using e(2) by (simp add: known_queues_def)
  then have known: "known_queues ?s2" by (intro known_PostTask) simp_all
  have "\<forall>k. host_phase k ?s2"
  proof (rule others_own [of s])
    show "\<forall>k. host_phase k s" using inv by (simp add: protocol_inv_def)
    show "phase_view k ?s2 = phase_view k s" if "k \<noteq> h" for k
      using that view_pop [OF q, of k] by (simp add: view_PostTask view_detach)
    show "g_factory ?s2 = g_factory s" using e(2) by simp
    have "in_life h ?s = (\<lambda>_. [])" using in_life_pop_own [OF q _ f(5)] by simp
    then have L: "in_life h ?s2 = only cur [BindRelayReply (BindReplyDestroy h)]" by (simp add: in_life_PostTask)
    have H: "hosts ?s2 h = Some (x\<lparr>h_stub := None\<rparr>)" using e(2) ox by simp
    show "host_phase h ?s2"
    proof (rule host_phase_own [where p = Gone, OF H])
      show "in_phase Gone h (x\<lparr>h_stub := None\<rparr>) (in_life h ?s2) (g_factory ?s2 \<noteq> None)"
        using f(1,2,4,6) L by simp
    qed
  qed
  with run known show ?thesis by blast
qed

text \<open>A task that is not part of a life cycle.\<close>

lemma run_other:
  assumes inv: "protocol_inv s" and q: "queue s t = c # cs" and c: "known_closure c" "\<And>h. \<not> life h c"
  shows "\<exists>s'. run_closure c (s\<lparr>queue := (queue s)(t := cs)\<rparr>) = Inr s' \<and> known_queues s' \<and> (\<forall>k. host_phase k s')"
proof -
  let ?s = "s\<lparr>queue := (queue s)(t := cs)\<rparr>"
  have i: "idle_inv ?s"
    by (rule popped_inv [of s]) (use inv q in \<open>auto simp: protocol_inv_def closures_of_def\<close>)
  have known: "known_queues ?s" using known_pop [OF _ q] inv by (simp add: protocol_inv_def)
  have ph: "host_phase k ?s" for k
  proof (rule host_phase_view [of k s])
    show "host_phase k s" using inv by (simp add: protocol_inv_def)
    show "phase_view k ?s = phase_view k s" by (rule view_pop [OF q c(2)])
  qed simp
  have upd: "known_queues (put_host h y ?s) \<and> (\<forall>k. host_phase k (put_host h y ?s))"
    if "hosts ?s h = Some x" "h_task_thread y = h_task_thread x" "h_host_thread y = h_host_thread x" "h_init y = h_init x"
      "h_destroy y = h_destroy x" "h_stub y = h_stub x" "h_destroy_time y = h_destroy_time x" for h x y
  proof -
    have "phase_view k (put_host h y ?s) = phase_view k ?s" for k
    proof (cases "k = h")
      case True
      with that show ?thesis by (simp add: phase_view_def) (simp add: put_host_def)
    qed (simp add: view_other_host)
    then have "host_phase k (put_host h y ?s)" for k
      using host_phase_view [OF ph] by (simp add: put_host_def [of h y ?s])
    then show ?thesis using known by (simp add: known_queues_def put_host_def)
  qed
  have alive: "\<And>h. h \<in> set (closure_hosts c) \<Longrightarrow> hosts s h \<noteq> None"
    using inv_closure [of "\<lambda>_. 0" s c t] inv q by (simp add: protocol_inv_def closures_of_def)
  show ?thesis
  proof (cases c)
    case (BindSchedule f g)
    show ?thesis
    proof (cases "\<exists>x. factories s f = Some x \<and> f_weak_gen x = g")
      case True
      then obtain x where x: "factories ?s f = Some x" "f_weak_gen x = g" by auto
      from frame_Schedule [OF i x(1)] obtain s' where s': "Schedule f ?s = Inr s'" "phase_frame ?s s'" by blast
      have "host_phase k s'" for k
        using s'(2) host_phase_view [OF ph] unfolding phase_frame_def by blast
      with s' known x show ?thesis by (auto simp: BindSchedule phase_frame_def)
    next
      case False
      then have "run_closure c ?s = Inr ?s" by (auto simp: BindSchedule split: option.splits)
      with known ph show ?thesis by blast
    qed
  next
    case (BindHostData h d)
    then obtain x where x: "hosts ?s h = Some x" using alive by auto
    from upd [OF x, of "x\<lparr>h_data := Some d, h_receive := h_receive x + 1\<rparr>"] x
    show ?thesis by (simp add: BindHostData Host_OnDataProduced_def get_host_def)
  next
    case (BindHostFactoryDestroy h)
    then obtain x where x: "hosts ?s h = Some x" using alive by auto
    from upd [OF x, of "x\<lparr>h_factory_destroy := h_factory_destroy x + 1\<rparr>"] x
    show ?thesis by (simp add: BindHostFactoryDestroy Host_OnFactoryDestory_def get_host_def)
  qed (use known_cases [OF c(1)] c(2) in auto)
qed

section \<open>The factory's destruction\<close>

definition no_relay :: "sys \<Rightarrow> bool" where
  "no_relay s \<longleftrightarrow> (\<forall>t task reply cur. BindRelayRun task reply cur \<notin> set (queue s t))"

definition stubs_hosted :: "sys \<Rightarrow> bool" where
  "stubs_hosted s \<longleftrightarrow>
     (\<forall>i st. stubs s i = Some st \<longrightarrow> (\<exists>x. hosts s (st_observer st) = Some x \<and> h_stub x = Some i))"

definition bereave_inv :: "sys \<Rightarrow> bool" where
  "bereave_inv s \<longleftrightarrow> known_queues s \<and> (\<forall>k. host_phase k s) \<and> stubs_hosted s \<and> no_relay s"

lemma no_relay_phase:
  assumes "no_relay s" "in_phase p h x (in_life h s) g"
  shows "p \<noteq> Initing \<and> p \<noteq> Leaving"
proof -
  have "in_life h s t \<noteq> [relay_init h u] \<and> in_life h s t \<noteq> [relay_destroy h u]" for t u
  proof -
    have "set (in_life h s t) \<subseteq> set (queue s t)" by (auto simp: in_life_def)
    then show ?thesis using assms(1) unfolding no_relay_def relay_init_def relay_destroy_def
      by (metis insert_subset list.simps(15))
  qed
  from this [of "h_task_thread x" "h_host_thread x"] show ?thesis using assms(2) by (cases p) auto
qed

lemma bereave_step:
  assumes "bereave_inv s"
  shows "bereave_inv (bereave obs s)"
proof (cases "\<exists>i st. obs = StubObs i \<and> stubs s i = Some st")
  case False
  then have "bereave obs s = s" by (auto simp: bereave_def split: observer.splits option.splits)
  with assms show ?thesis by simp
next
  case True
  then obtain i st where i: "obs = StubObs i" "stubs s i = Some st" by blast
  let ?h = "st_observer st"
  obtain x where x: "hosts s ?h = Some x" "h_stub x = Some i"
    using assms i(2) unfolding bereave_inv_def stubs_hosted_def by blast
  let ?t = "h_host_thread x"
  let ?s0 = "s\<lparr>stubs := (stubs s)(i := None), hosts := (hosts s)(?h \<mapsto> x\<lparr>h_stub := None\<rparr>)\<rparr>"
  let ?s' = "PostTask ?t (BindReplyDestroy ?h) (PostTask ?t (BindHostFactoryDestroy ?h) ?s0)"
  have b: "bereave obs s = ?s'" using i x(1) by (simp add: bereave_def Let_def)
  have q0: "queue ?s0 = queue s" "delayed ?s0 = delayed s" "g_factory ?s' = g_factory s" by simp_all
  have "known_queues ?s0" using assms by (simp add: bereave_inv_def known_queues_def)
  then have known: "known_queues ?s'" by (intro known_PostTask) simp_all
  have relay: "no_relay ?s'" using assms by (auto simp: bereave_inv_def no_relay_def PostTask_def)
  have hosted: "stubs_hosted ?s'"
    unfolding stubs_hosted_def
  proof (intro allI impI)
    fix j st'
    assume "stubs ?s' j = Some st'"
    then have j: "stubs s j = Some st'" "j \<noteq> i" by (auto split: if_splits)
    then obtain y where y: "hosts s (st_observer st') = Some y" "h_stub y = Some j"
      using assms unfolding bereave_inv_def stubs_hosted_def by blast
    then have "st_observer st' \<noteq> ?h" using x j(2) by auto
    with y show "\<exists>x. hosts ?s' (st_observer st') = Some x \<and> h_stub x = Some j" by simp
  qed
  have phases: "\<forall>k. host_phase k ?s'"
  proof (rule others_own [of s])
    show "\<forall>k. host_phase k s" using assms by (simp add: bereave_inv_def)
    show "phase_view k ?s' = phase_view k s" if "k \<noteq> ?h" for k
      using that by (simp add: view_PostTask) (simp add: phase_view_def in_life_def)
    show "g_factory ?s' = g_factory s" by simp
    obtain p where p: "in_phase p ?h x (in_life ?h s) (g_factory s \<noteq> None)"
      using assms x(1) by (auto simp: bereave_inv_def host_phase_def)
    have np: "p \<noteq> Initing" "p \<noteq> Leaving"
      using no_relay_phase [OF _ p] assms by (auto simp: bereave_inv_def)
    have L: "in_life ?h ?s' = (in_life ?h s)(?t := in_life ?h s ?t @ [BindReplyDestroy ?h])"
      by (simp add: in_life_PostTask) (simp add: in_life_def)
    have H: "hosts ?s' ?h = Some (x\<lparr>h_stub := None\<rparr>)" by simp
    have "p = Bound \<or> p = Ready" using p np x(2) by (cases p) auto
    then show "host_phase ?h ?s'"
    proof
      assume "p = Bound"
      with p L show ?thesis by (intro host_phase_own [where p = Orphaned, OF H]) auto
    next
      assume "p = Ready"
      with p L show ?thesis by (intro host_phase_own [where p = Gone, OF H]) auto
    qed
  qed
  show ?thesis unfolding b using known relay hosted phases by (simp add: bereave_inv_def)
qed

lemma bereave_fold: "bereave_inv s \<Longrightarrow> bereave_inv (fold bereave obss s)"
  by (induction obss arbitrary: s) (auto intro: bereave_step)

section \<open>Every polite step succeeds\<close>

lemma protocol_client:
  assumes inv: "protocol_inv s" and h: "hosts s h = Some x" and c: "life h c" "\<And>k. life k c \<Longrightarrow> k = h" "known_closure c"
    and L: "in_life h s = (\<lambda>_. [])" and p: "in_phase p h x (only t [c]) (g_factory s \<noteq> None)"
  shows "known_queues (PostTask t c s) \<and> (\<forall>k. host_phase k (PostTask t c s))"
proof
  show "known_queues (PostTask t c s)" using inv c(3) by (simp add: protocol_inv_def known_PostTask)
  show "\<forall>k. host_phase k (PostTask t c s)"
  proof (rule others_own [of s])
    show "\<forall>k. host_phase k s" using inv by (simp add: protocol_inv_def)
    show "phase_view k (PostTask t c s) = phase_view k s" if "k \<noteq> h" for k
      using that c(2) by (intro view_PostTask) blast
    show "host_phase h (PostTask t c s)"
      using h p c(1) L by (intro host_phase_own [where p = p]) (simp_all add: in_life_PostTask)
  qed simp
qed

lemma protocol_quiet:
  assumes "protocol_inv s" "\<And>h. phase_view h s' = phase_view h s" "queue s' = queue s" "delayed s' = delayed s"
    "g_factory s \<noteq> None \<Longrightarrow> g_factory s' \<noteq> None"
  shows "known_queues s' \<and> (\<forall>k. host_phase k s')"
  using assms host_phase_view [OF _ assms(2) assms(5)] by (simp add: protocol_inv_def known_queues_def)

lemma protocol_run_head:
  assumes inv: "protocol_inv s" and q: "queue s t = c # cs"
  shows "\<exists>s'. run_closure c (s\<lparr>queue := (queue s)(t := cs)\<rparr>) = Inr s' \<and> known_queues s' \<and> (\<forall>k. host_phase k s')"
proof -
  have k: "known_closure c" using inv q by (auto simp: protocol_inv_def known_queues_def dest: spec [of _ t])
  show ?thesis
  proof (cases "\<exists>h. life h c")
    case False
    then show ?thesis using run_other [OF inv q k] by blast
  next
    case True
    then consider h where "c = BindReplyDestroy h" | h where "c = BindRelayReply (BindReplyInit h)"
      | h where "c = BindRelayReply (BindReplyDestroy h)" | h u where "c = relay_init h u" | h u where "c = relay_destroy h u"
      using k by (cases c) (auto simp: relay_init_def relay_destroy_def split: closure.splits)
    then show ?thesis
    proof cases
      case 1
      then show ?thesis using run_reply_destroy [OF inv q] by blast
    next
      case 2
      then show ?thesis using run_reply_init [OF inv] q by blast
    next
      case 3
      then show ?thesis using run_reply_destroy [OF inv q] by blast
    next
      case 4
      then show ?thesis using run_relay_init [OF inv] q by blast
    next
      case 5
      then show ?thesis using run_relay_destroy [OF inv] q by blast
    qed
  qed
qed

lemma protocol_factory_destroy:
  assumes inv: "protocol_inv s" and f: "factories s f = Some x" and n: "no_relay s"
  shows "\<exists>s'. Factory_Destroy f s = Inr s' \<and> known_queues s' \<and> (\<forall>k. host_phase k s')"
proof -
  have i: "idle_inv s" using inv by (simp add: protocol_inv_def)
  let ?s1 = "fold bereave (live (observers (f_observers x))) s"
  let ?s2 = "?s1\<lparr>factories := (factories s)(f := None), g_factory := None\<rparr>"
  have "stubs_hosted s" using i unfolding sys_inv_def stubs_ok_def stubs_hosted_def by blast
  then have "bereave_inv s" using inv n by (simp add: bereave_inv_def protocol_inv_def)
  then have b: "bereave_inv ?s1" by (rule bereave_fold)
  have "known_queues ?s2" using b by (simp add: bereave_inv_def known_queues_def)
  moreover have "host_phase k ?s2" for k
    unfolding host_phase_def
  proof (intro allI impI)
    fix y
    assume y: "hosts ?s2 k = Some y"
    then obtain p where p: "in_phase p k y (in_life k ?s1) (g_factory ?s1 \<noteq> None)"
      using b by (auto simp: bereave_inv_def host_phase_def)
    have "p \<noteq> Initing" using no_relay_phase [OF _ p] b by (simp add: bereave_inv_def)
    moreover have "in_life k ?s2 = in_life k ?s1" by (simp add: in_life_def)
    ultimately show "\<exists>p. in_phase p k y (in_life k ?s2) (g_factory ?s2 \<noteq> None)"
      using p by (intro exI [of _ p]) (cases p; simp)
  qed
  ultimately show ?thesis using Factory_Destroy_result(1) [OF i f] by blast
qed

lemma polite_step:
  assumes inv: "protocol_inv s" and st: "step s a r" and pol: "polite s a"
  shows "\<exists>s'. r = Inr s' \<and> protocol_inv s'"
proof -
  have i: "idle_inv s" using inv by (simp add: protocol_inv_def)
  have fin: "\<exists>s'. r = Inr s' \<and> protocol_inv s'" if "\<exists>s'. r = Inr s' \<and> known_queues s' \<and> (\<forall>k. host_phase k s')"
    using that step_ok [OF st i] by (auto simp: ok_result_def protocol_inv_def)
  have quiet: "\<exists>s'. r = Inr s' \<and> protocol_inv s'" if "r = Inr s'" "\<And>h. phase_view h s' = phase_view h s"
    "queue s' = queue s" "delayed s' = delayed s" "g_factory s \<noteq> None \<Longrightarrow> g_factory s' \<noteq> None" for s'
    using fin protocol_quiet [OF inv that(2-5)] that(1) by blast
  show ?thesis
    using st
  proof cases
    case (run t c cs)
    show ?thesis using protocol_run_head [OF inv run(3)] run(2) by (intro fin) simp
  next
    case (fire t c ds)
    have sub: "c \<in> set (map snd (delayed s t))" "set ds \<subseteq> set (delayed s t)" using take_due_subset [OF fire(3)] by auto
    obtain f g where c: "c = BindSchedule f g"
      using sub(1) inv by (auto simp: protocol_inv_def known_queues_def dest!: spec [of _ t])
    let ?s = "s\<lparr>delayed := (delayed s)(t := ds)\<rparr>"
    have i': "idle_inv ?s"
      by (rule popped_inv [OF i]) (use sub(2) in \<open>auto simp: closures_of_def\<close>)
    have kn: "known_queues ?s"
      using inv sub(2) by (fastforce simp: protocol_inv_def known_queues_def)
    have ph: "host_phase k ?s" for k
      using inv host_phase_view [of k s ?s] by (simp add: protocol_inv_def view_delayed)
    show ?thesis
    proof (cases "\<exists>x. factories s f = Some x \<and> f_weak_gen x = g")
      case True
      then obtain x where x: "factories ?s f = Some x" "f_weak_gen x = g" by auto
      from frame_Schedule [OF i' x(1)] obtain s' where s': "Schedule f ?s = Inr s'" "phase_frame ?s s'" by blast
      have "host_phase k s'" for k
        using s'(2) host_phase_view [OF ph] unfolding phase_frame_def by blast
      with s' kn x show ?thesis by (intro fin) (auto simp: fire(2) c phase_frame_def)
    next
      case False
      then have "r = Inr ?s" by (auto simp: fire(2) c split: option.splits)
      with kn ph show ?thesis by (intro fin) blast
    qed
  next
    case (tick d w)
    then show ?thesis by (intro quiet [of "s\<lparr>now_ticks := ticks_plus (now_ticks s) d, now_time := w\<rparr>"])
        (auto simp: phase_view_def in_life_def)
  next
    case (new_factory t)
    then show ?thesis by (intro quiet [of "snd (new_Factory t s)"])
        (auto simp: phase_view_def in_life_def new_Factory_def Let_def put_factory_def)
  next
    case (start f)
    then obtain x where x: "factories s f = Some x" by auto
    have "phase_frame s (PostTask (f_thread x) (BindSchedule f (f_weak_gen x)) (put_factory f (x\<lparr>f_start := True\<rparr>) s))"
      by (rule phase_frame_trans [OF frame_put_factory frame_PostSchedule])
    then have "protocol_inv s'" if "r = Inr s'" "s' \<noteq> s" for s'
      using that x start(2) step_ok [OF st i] inv
      by (intro phase_frame_inv [of s]) (auto simp: Start_def get_factory_def ok_result_def protocol_inv_def split: if_splits)
    with inv have "protocol_inv s'" if "r = Inr s'" for s' using that by (cases "s' = s") auto
    moreover obtain s' where "r = Inr s'" using start(2) x by (cases "f_start x") (auto simp: Start_def get_factory_def)
    ultimately show ?thesis by blast
  next
    case (stop f)
    then obtain x where x: "factories s f = Some x" by auto
    have "protocol_inv s'" if "r = Inr s'" "s' \<noteq> s" for s'
      using that x stop(2) step_ok [OF st i] inv frame_put_factory [of s f "x\<lparr>f_start := False\<rparr>"]
      by (intro phase_frame_inv [of s]) (auto simp: Stop_def get_factory_def ok_result_def protocol_inv_def split: if_splits)
    with inv have "protocol_inv s'" if "r = Inr s'" for s' using that by (cases "s' = s") auto
    moreover obtain s' where "r = Inr s'" using stop(2) x by (cases "f_start x") (auto simp: Stop_def get_factory_def)
    ultimately show ?thesis by blast
  next
    case (factory_destroy f)
    then obtain x where "factories s f = Some x" by auto
    from protocol_factory_destroy [OF inv this] pol factory_destroy show ?thesis
      by (intro fin) (simp add: no_relay_def)
  next
    case (add f x n)
    let ?s = "put_factory f (x\<lparr>f_observers := (f_observers x)\<lparr>observers := observers (f_observers x) @ [Some (ExtObs n)]\<rparr>\<rparr>) s"
    have "r = Inr ?s" using add by (simp add: Factory_AddObserver_def get_factory_def AddObserver_def)
    then show ?thesis by (rule quiet) (auto simp: view_put_factory, auto simp: put_factory_def)
  next
    case (remove f n)
    then obtain x where "factories s f = Some x" by auto
    with remove have "r = Inr (put_factory f (x\<lparr>f_observers := RemoveObserver (Some (ExtObs n)) (f_observers x)\<rparr>) s)"
      by (simp add: Factory_RemoveObserver_def get_factory_def)
    then show ?thesis by (rule quiet) (auto simp: view_put_factory, auto simp: put_factory_def)
  next
    case (new_host t1 t2 q)
    let ?h = "next_addr s"
    let ?x = "\<lparr>h_stub = None, h_task_thread = t1, h_host_thread = t2, h_init = False,
      h_destroy = False, h_data = None, h_receive = 0, h_destroy_time = 0, h_factory_destroy = 0, h_init_freq = q\<rparr>"
    let ?s = "put_host ?h ?x (s\<lparr>next_addr := Suc (next_addr s)\<rparr>)"
    have r: "r = Inr ?s"
      using new_host pol by (cases q) (auto simp: new_host_def Let_def)
    have n: "hosts s ?h = None"
      using i unfolding sys_inv_def hosts_ok_def by (metis less_irrefl not_None_eq)
    have L: "in_life ?h ?s = (\<lambda>_. [])"
    proof
      fix t
      have "c \<in> set (queue s t) \<Longrightarrow> ?h \<notin> set (closure_hosts c)" for c
        using inv_closure [OF i, of c t ?h] n by (auto simp: closures_of_def)
      then show "in_life ?h ?s t = []" by (auto simp: in_life_def put_host_def life_def filter_empty_conv)
    qed
    have "known_queues ?s" using inv by (simp add: protocol_inv_def known_queues_def put_host_def)
    moreover have "\<forall>k. host_phase k ?s"
    proof (rule others_own [of s])
      show "\<forall>k. host_phase k s" using inv by (simp add: protocol_inv_def)
      show "phase_view k ?s = phase_view k s" if "k \<noteq> ?h" for k
        using that by (simp add: view_other_host) (simp add: phase_view_def in_life_def)
      show "g_factory ?s = g_factory s" by (simp add: put_host_def)
      show "host_phase ?h ?s"
      proof (rule host_phase_own [where p = Fresh])
        show "hosts ?s ?h = Some ?x" by (simp add: put_host_def)
        show "in_phase Fresh ?h ?x (in_life ?h ?s) (g_factory ?s \<noteq> None)" unfolding L by simp
      qed
    qed
    ultimately show ?thesis using r by (intro fin) blast
  next
    case (init h cur)
    then obtain x where x: "hosts s h = Some x" "cur = h_host_thread x" "\<not> h_init x" "\<not> h_destroy x" "h_stub x = None"
      "in_life h s = (\<lambda>_. [])" "g_factory s \<noteq> None" using pol by auto
    obtain p where p: "in_phase p h x (in_life h s) (g_factory s \<noteq> None)"
      using inv x(1) by (auto simp: protocol_inv_def host_phase_def)
    have "h_destroy_time x = 0" using p x(3) by (cases p) auto
    with x have "in_phase Initing h x (only (h_task_thread x) [relay_init h cur]) (g_factory s \<noteq> None)" by simp
    from protocol_client [OF inv x(1) _ _ _ x(6) this]
    have "known_queues (PostTask (h_task_thread x) (relay_init h cur) s) \<and>
        (\<forall>k. host_phase k (PostTask (h_task_thread x) (relay_init h cur) s))"
      by (simp add: relay_init_def [of h cur] life_def)
    moreover have "r = Inr (PostTask (h_task_thread x) (relay_init h cur) s)"
      using init(2) x(1,3) by (simp add: Init_def get_host_def PostTaskAndReply_def relay_init_def)
    ultimately show ?thesis by (intro fin) blast
  next
    case (destroy h cur)
    then obtain x where x: "hosts s h = Some x" "cur = h_host_thread x" "h_init x" "\<not> h_destroy x" "h_stub x \<noteq> None"
      "in_life h s = (\<lambda>_. [])" using pol by auto
    obtain p where p: "in_phase p h x (in_life h s) (g_factory s \<noteq> None)"
      using inv x(1) by (auto simp: protocol_inv_def host_phase_def)
    have "h_destroy_time x = 0" using p x(4) by (cases p) auto
    with x have "in_phase Leaving h x (only (h_task_thread x) [relay_destroy h cur]) (g_factory s \<noteq> None)" by simp
    from protocol_client [OF inv x(1) _ _ _ x(6) this]
    have "known_queues (PostTask (h_task_thread x) (relay_destroy h cur) s) \<and>
        (\<forall>k. host_phase k (PostTask (h_task_thread x) (relay_destroy h cur) s))"
      by (simp add: relay_destroy_def [of h cur] life_def)
    moreover have "r = Inr (PostTask (h_task_thread x) (relay_destroy h cur) s)"
      using destroy(2) x(1,3,4) by (simp add: Destroy_def get_host_def PostTaskAndReply_def relay_destroy_def)
    ultimately show ?thesis by (intro fin) blast
  next
    case (delete_host h x)
    let ?s = "s\<lparr>hosts := (hosts s)(h := None)\<rparr>"
    obtain p where p: "in_phase p h x (in_life h s) (g_factory s \<noteq> None)"
      using inv delete_host(3) by (auto simp: protocol_inv_def host_phase_def)
    have "in_life h s t = []" for t
      using delete_host(4) by (auto simp: unreferenced_def in_life_def life_def closures_of_def filter_empty_conv)
    then have L: "in_life h s = (\<lambda>_. [])" by auto
    have "h_stub x = None"
    proof (rule ccontr)
      assume "h_stub x \<noteq> None"
      then obtain j st where "stubs s j = Some st" "st_observer st = h"
        using inv_host_stub [OF i delete_host(3)] by (metis not_Some_eq)
      with delete_host(4) show False unfolding unreferenced_def by blast
    qed
    with p L have "host_destructor_check x = Inr ()"
      by (cases p) (auto simp: host_destructor_check_def dest: fun_cong [where x = "h_task_thread x"] fun_cong [where x = "h_host_thread x"])
    then have r: "r = Inr ?s" using delete_host(2) by simp
    have "host_phase k ?s" for k
      using inv by (auto simp: protocol_inv_def host_phase_def in_life_def)
    then show ?thesis using r inv by (intro fin) (auto simp: protocol_inv_def known_queues_def)
  qed
qed

lemma polite_run_inv: "polite_run s \<Longrightarrow> protocol_inv s"
proof (induction rule: polite_run.induct)
  case start
  show ?case
    using init_sys_inv by (simp add: protocol_inv_def known_queues_def host_phase_def init_sys_def)
next
  case (step s a s')
  then show ?case using polite_step by fastforce
qed

section \<open>Properties\<close>

text \<open>
  C12: a sufficient condition for the debug checks.  When every call of the client meets
  \<open>polite\<close> (the development's own condition, spelt out above), no debug check ever fails, in
  any interleaving: every step of the program, the deletion of a host by its last reference
  included, succeeds; and in every state reached a host has been told of its destruction at
  most once, never before it was initialised, with no stub left.
\<close>

theorem protocol_never_fails:
  assumes "polite_run s" "step s a r" "polite s a"
  shows "(\<exists>s'. r = Inr s') \<and>
    (\<forall>h x. hosts s h = Some x \<longrightarrow> h_destroy_time x \<le> 1 \<and> (h_destroy_time x = 1 \<longleftrightarrow> h_destroy x) \<and>
       (h_destroy x \<longrightarrow> h_init x \<and> h_stub x = None))"
proof -
  note inv = polite_run_inv [OF assms(1)]
  have "h_destroy_time x \<le> 1 \<and> (h_destroy_time x = 1 \<longleftrightarrow> h_destroy x) \<and> (h_destroy x \<longrightarrow> h_init x \<and> h_stub x = None)"
    if x: "hosts s h = Some x" for h x
  proof -
    obtain p where "in_phase p h x (in_life h s) (g_factory s \<noteq> None)"
      using inv x by (auto simp: protocol_inv_def host_phase_def)
    then show ?thesis by (cases p) auto
  qed
  with polite_step [OF inv assms(2,3)] show ?thesis by blast
qed

theorem protocol_never_fails_witness:
  "\<exists>s'. Init 1 1 demo_hosted = Inr s'"
proof -
  have n: "step init_sys (NewFactory 0) (Inr (snd (new_Factory 0 init_sys)))" by (rule step.new_factory)
  let ?s1 = "snd (new_Factory 0 init_sys)"
  have p1: "polite_run ?s1" by (rule polite_run.step [OF polite_run.start n]) simp
  have d: "(case new_host 0 1 None ?s1 of Inl e \<Rightarrow> Inl e | Inr (h, s') \<Rightarrow> Inr s') = Inr demo_hosted"
    by (simp add: demo_hosted_def after_def new_host_def Let_def)
  then have "step ?s1 (NewHost 0 1 None) (Inr demo_hosted)"
    using step.new_host [of ?s1 0 1 None] by (simp add: bindR_def)
  then have p2: "polite_run demo_hosted" by (rule polite_run.step [OF p1]) simp
  obtain x where x: "hosts demo_hosted 1 = Some x" using demo_hosted_facts by auto
  have f: "map_option h_host_thread (hosts demo_hosted 1) = Some 1" "map_option h_init (hosts demo_hosted 1) = Some False"
    "map_option h_destroy (hosts demo_hosted 1) = Some False" "map_option h_stub (hosts demo_hosted 1) = Some None"
    "g_factory demo_hosted = Some 0"
    by code_simp+
  have "queue demo_hosted = (\<lambda>_. [])"
    by (simp add: demo_hosted_def after_def new_host_def new_Factory_def init_sys_def Let_def put_host_def put_factory_def)
  then have "in_life 1 demo_hosted = (\<lambda>_. [])" by (simp add: in_life_def)
  with x f have "polite demo_hosted (CallInit 1 1)" by simp
  from protocol_never_fails [OF p2 step.init [OF demo_hosted_facts] this] show ?thesis by blast
qed

end
