(* ===== verification/RefCount.thy ===== *)
theory RefCount imports Prelude begin

text \<open>
  \<open>base/memory/ref_counted.h\<close>, \<open>ref_counted.cc\<close> and \<open>base/atomic_ref_count.h\<close>: the two
  reference-count base classes and \<open>scoped_refptr\<close>.  Objects live in a heap indexed by
  address; deleting one removes it, and touching an address without object is a
  use-after-free.  The smart pointers are named variables holding an address or NULL.
  The atomic operations are single steps, as in the source; the counts are unbounded
  (the 32-bit counter would need \<open>2\<^sup>3\<^sup>1\<close> references to overflow).  What an object's own
  destructor does to its members is the client's code and not part of this theory.
\<close>

section \<open>The counters\<close>

record rc_obj =
  ref_count :: int
  in_dtor :: bool

definition new_rc :: rc_obj where
  "new_rc = \<lparr>ref_count = 0, in_dtor = False\<rparr>"

definition AtomicRefCountIncN :: "int \<Rightarrow> int \<Rightarrow> int" where
  "AtomicRefCountIncN c increment = c + increment"

definition AtomicRefCountDecN :: "int \<Rightarrow> int \<Rightarrow> bool \<times> int" where
  "AtomicRefCountDecN c decrement = (let c' = c + (- decrement) in (c' \<noteq> 0, c'))"

definition AtomicRefCountInc :: "int \<Rightarrow> int" where
  "AtomicRefCountInc c = AtomicRefCountIncN c 1"

definition AtomicRefCountDec :: "int \<Rightarrow> bool \<times> int" where
  "AtomicRefCountDec c = AtomicRefCountDecN c 1"

definition AtomicRefCountIsOne :: "int \<Rightarrow> bool" where
  "AtomicRefCountIsOne c \<longleftrightarrow> c = 1"

definition AtomicRefCountIsZero :: "int \<Rightarrow> bool" where
  "AtomicRefCountIsZero c \<longleftrightarrow> c = 0"

text \<open>\<open>RefCountedBase\<close>: single-threaded counting.\<close>

definition RC_HasOneRef :: "'m rc_obj_scheme \<Rightarrow> bool" where
  "RC_HasOneRef ob \<longleftrightarrow> ref_count ob = 1"

definition RC_AddRef :: "'m rc_obj_scheme \<Rightarrow> 'm rc_obj_scheme res" where
  "RC_AddRef ob = bindR (dcheck (\<not> in_dtor ob) ''!in_dtor_'')
     (\<lambda>_. Inr (ob\<lparr>ref_count := ref_count ob + 1\<rparr>))"

definition RC_Release :: "'m rc_obj_scheme \<Rightarrow> (bool \<times> 'm rc_obj_scheme) res" where
  "RC_Release ob = bindR (dcheck (\<not> in_dtor ob) ''!in_dtor_'')
     (\<lambda>_. let ob' = ob\<lparr>ref_count := ref_count ob - 1\<rparr>
          in if ref_count ob' = 0 then Inr (True, ob'\<lparr>in_dtor := True\<rparr>) else Inr (False, ob'))"

definition RC_destructor :: "'m rc_obj_scheme \<Rightarrow> unit res" where
  "RC_destructor ob = dcheck (in_dtor ob) ''RefCounted object deleted without calling Release()''"

text \<open>\<open>RefCountedThreadSafeBase\<close>.\<close>

definition TS_HasOneRef :: "'m rc_obj_scheme \<Rightarrow> bool" where
  "TS_HasOneRef ob \<longleftrightarrow> AtomicRefCountIsOne (ref_count ob)"

definition TS_AddRef :: "'m rc_obj_scheme \<Rightarrow> 'm rc_obj_scheme res" where
  "TS_AddRef ob = bindR (dcheck (\<not> in_dtor ob) ''!in_dtor_'')
     (\<lambda>_. Inr (ob\<lparr>ref_count := AtomicRefCountInc (ref_count ob)\<rparr>))"

definition TS_Release :: "'m rc_obj_scheme \<Rightarrow> (bool \<times> 'm rc_obj_scheme) res" where
  "TS_Release ob = bindR (dcheck (\<not> in_dtor ob) ''!in_dtor_'')
     (\<lambda>_. bindR (dcheck (\<not> AtomicRefCountIsZero (ref_count ob)) ''!AtomicRefCountIsZero'')
     (\<lambda>_. let (nonzero, c) = AtomicRefCountDec (ref_count ob); ob' = ob\<lparr>ref_count := c\<rparr>
          in if \<not> nonzero then Inr (True, ob'\<lparr>in_dtor := True\<rparr>) else Inr (False, ob')))"

definition TS_destructor :: "'m rc_obj_scheme \<Rightarrow> unit res" where
  "TS_destructor ob =
     dcheck (in_dtor ob) ''RefCountedThreadSafe object deleted without calling Release()''"

lemmas atomic_defs = AtomicRefCountIncN_def AtomicRefCountDecN_def AtomicRefCountInc_def
  AtomicRefCountDec_def AtomicRefCountIsOne_def AtomicRefCountIsZero_def

text \<open>Both classes count alike as long as no reference is released twice.\<close>

lemma release_agree: "ref_count ob \<noteq> 0 \<Longrightarrow> TS_Release ob = RC_Release ob"
  by (simp add: TS_Release_def RC_Release_def atomic_defs Let_def)

lemma addref_agree: "TS_AddRef ob = RC_AddRef ob"
  by (simp add: TS_AddRef_def RC_AddRef_def atomic_defs)

section \<open>Heap and smart pointers\<close>

record ('v, 'm) rstate =
  objs :: "nat \<Rightarrow> 'm rc_obj_scheme option"
  ptrs :: "'v \<Rightarrow> nat ptr"

definition Obj_AddRef :: "nat ptr \<Rightarrow> ('v, 'm) rstate \<Rightarrow> ('v, 'm) rstate res" where
  "Obj_AddRef p st =
     (case p of
        None \<Rightarrow> Inr st
      | Some a \<Rightarrow>
          (case objs st a of
             None \<Rightarrow> Inl (UseAfterFree ''AddRef'')
           | Some ob \<Rightarrow> bindR (TS_AddRef ob) (\<lambda>ob'. Inr (st\<lparr>objs := (objs st)(a \<mapsto> ob')\<rparr>))))"

text \<open>\<open>RefCountedThreadSafe::Release\<close>: the last release runs \<open>Traits::Destruct\<close>, which deletes.\<close>

definition Obj_Release :: "nat ptr \<Rightarrow> ('v, 'm) rstate \<Rightarrow> ('v, 'm) rstate res" where
  "Obj_Release p st =
     (case p of
        None \<Rightarrow> Inr st
      | Some a \<Rightarrow>
          (case objs st a of
             None \<Rightarrow> Inl (UseAfterFree ''Release'')
           | Some ob \<Rightarrow>
               bindR (TS_Release ob) (\<lambda>(last, ob').
                 if last
                 then bindR (TS_destructor ob') (\<lambda>_. Inr (st\<lparr>objs := (objs st)(a := None)\<rparr>))
                 else Inr (st\<lparr>objs := (objs st)(a \<mapsto> ob')\<rparr>))))"

definition set_ptr :: "'v \<Rightarrow> nat ptr \<Rightarrow> ('v, 'm) rstate \<Rightarrow> ('v, 'm) rstate" where
  "set_ptr v p st = st\<lparr>ptrs := (ptrs st)(v := p)\<rparr>"

definition refptr_construct :: "'v \<Rightarrow> nat ptr \<Rightarrow> ('v, 'm) rstate \<Rightarrow> ('v, 'm) rstate res" where
  "refptr_construct v p st = Obj_AddRef p (set_ptr v p st)"

definition refptr_copy :: "'v \<Rightarrow> 'v \<Rightarrow> ('v, 'm) rstate \<Rightarrow> ('v, 'm) rstate res" where
  "refptr_copy v r st = Obj_AddRef (ptrs st r) (set_ptr v (ptrs st r) st)"

definition refptr_destruct :: "'v \<Rightarrow> ('v, 'm) rstate \<Rightarrow> ('v, 'm) rstate res" where
  "refptr_destruct v st = Obj_Release (ptrs st v) (set_ptr v None st)"

definition refptr_release :: "'v \<Rightarrow> ('v, 'm) rstate \<Rightarrow> nat ptr \<times> ('v, 'm) rstate" where
  "refptr_release v st = (ptrs st v, set_ptr v None st)"

definition refptr_assign :: "'v \<Rightarrow> nat ptr \<Rightarrow> ('v, 'm) rstate \<Rightarrow> ('v, 'm) rstate res" where
  "refptr_assign v p st =
     bindR (Obj_AddRef p st) (\<lambda>st1.
       let old_ptr = ptrs st1 v in Obj_Release old_ptr (set_ptr v p st1))"

definition refptr_assign_var :: "'v \<Rightarrow> 'v \<Rightarrow> ('v, 'm) rstate \<Rightarrow> ('v, 'm) rstate res" where
  "refptr_assign_var v r st = refptr_assign v (ptrs st r) st"

definition refptr_swap :: "'v \<Rightarrow> 'v \<Rightarrow> ('v, 'm) rstate \<Rightarrow> ('v, 'm) rstate" where
  "refptr_swap v r st = (let p = ptrs st v in set_ptr r p (set_ptr v (ptrs st r) st))"

definition new_object :: "nat \<Rightarrow> 'm rc_obj_scheme \<Rightarrow> ('v, 'm) rstate \<Rightarrow> ('v, 'm) rstate" where
  "new_object a ob st = st\<lparr>objs := (objs st)(a \<mapsto> ob)\<rparr>"

section \<open>Invariant: every count is the number of references\<close>

text \<open>
  \<open>ext a\<close> is the number of references to \<open>a\<close> held outside the named pointers
  (temporaries, and what \<open>release()\<close> handed to the caller).
\<close>

definition holders :: "('v, 'm) rstate \<Rightarrow> nat \<Rightarrow> 'v set" where
  "holders st a = {v. ptrs st v = Some a}"

definition counted :: "(nat \<Rightarrow> nat) \<Rightarrow> ('v, 'm) rstate \<Rightarrow> bool" where
  "counted ext st \<longleftrightarrow> finite {v. ptrs st v \<noteq> None} \<and>
     (\<forall>a. objs st a = None \<longrightarrow> holders st a = {} \<and> ext a = 0) \<and>
     (\<forall>a ob. objs st a = Some ob \<longrightarrow> ref_count ob = int (card (holders st a) + ext a) \<and> \<not> in_dtor ob)"

definition rc_inv :: "(nat \<Rightarrow> nat) \<Rightarrow> ('v, 'm) rstate \<Rightarrow> bool" where
  "rc_inv ext st \<longleftrightarrow> counted ext st \<and> (\<forall>a ob. objs st a = Some ob \<longrightarrow> ref_count ob \<noteq> 0)"

lemma counted_obj: "counted ext st \<Longrightarrow> objs st a = Some ob \<Longrightarrow>
  ref_count ob = int (card (holders st a) + ext a) \<and> \<not> in_dtor ob"
  unfolding counted_def by blast

lemma counted_none: "counted ext st \<Longrightarrow> objs st a = None \<Longrightarrow> holders st a = {} \<and> ext a = 0"
  unfolding counted_def by blast

lemma counted_held: "counted ext st \<Longrightarrow> ptrs st v = Some a \<Longrightarrow> \<exists>ob. objs st a = Some ob"
  using counted_none [of ext st a] by (cases "objs st a") (auto simp: holders_def)

lemma finite_holders: "counted ext st \<Longrightarrow> finite (holders st a)"
  unfolding counted_def holders_def by (auto elim: rev_finite_subset)

lemma holders_objs [simp]: "holders (st\<lparr>objs := h\<rparr>) a = holders st a"
  by (simp add: holders_def)

text \<open>Taking a reference into a temporary, and moving it between a temporary and a pointer.\<close>

lemma counted_AddRef:
  assumes "counted ext st" "objs st a = Some ob"
  shows "Obj_AddRef (Some a) st = Inr (st\<lparr>objs := (objs st)(a \<mapsto> ob\<lparr>ref_count := ref_count ob + 1\<rparr>)\<rparr>)"
    and "counted (ext(a := Suc (ext a))) (st\<lparr>objs := (objs st)(a \<mapsto> ob\<lparr>ref_count := ref_count ob + 1\<rparr>)\<rparr>)"
proof -
  note ob = counted_obj [OF assms]
  then show "Obj_AddRef (Some a) st = Inr (st\<lparr>objs := (objs st)(a \<mapsto> ob\<lparr>ref_count := ref_count ob + 1\<rparr>)\<rparr>)"
    using assms(2) by (simp add: Obj_AddRef_def TS_AddRef_def atomic_defs)
  show "counted (ext(a := Suc (ext a))) (st\<lparr>objs := (objs st)(a \<mapsto> ob\<lparr>ref_count := ref_count ob + 1\<rparr>)\<rparr>)"
    using assms ob by (simp add: counted_def)
qed

lemma holders_set_ptr:
  "holders (set_ptr v p st) a = (if p = Some a then insert v (holders st a) else holders st a - {v})"
  by (auto simp: holders_def set_ptr_def)

lemma objs_set_ptr [simp]: "objs (set_ptr v p st) = objs st"
  by (simp add: set_ptr_def)

lemma ptrs_set_ptr [simp]: "ptrs (set_ptr v p st) = (ptrs st)(v := p)"
  by (simp add: set_ptr_def)

lemma finite_set_ptr: "finite {w. ptrs st w \<noteq> None} \<Longrightarrow> finite {w. ptrs (set_ptr v p st) w \<noteq> None}"
  by (rule finite_subset [of _ "insert v {w. ptrs st w \<noteq> None}"]) auto

lemma counted_store:
  assumes "counted (ext(a := Suc (ext a))) st" "ptrs st v = None"
  shows "counted ext (set_ptr v (Some a) st)"
proof -
  have v: "v \<notin> holders st b" "finite (holders st b)" for b
    using assms finite_holders by (auto simp: holders_def)
  have "finite {w. ptrs (set_ptr v (Some a) st) w \<noteq> None}"
    using assms(1) by (intro finite_set_ptr) (simp add: counted_def)
  moreover have "objs st a \<noteq> None" using counted_none [OF assms(1), of a] by auto
  moreover have "objs st b = None \<longrightarrow> holders (set_ptr v (Some a) st) b = {} \<and> ext b = 0" for b
    using v [of b] counted_none [OF assms(1), of b]
    by (cases "objs st b") (auto simp: holders_set_ptr split: if_splits)
  moreover have "objs st b = Some ob \<longrightarrow>
      ref_count ob = int (card (holders (set_ptr v (Some a) st) b) + ext b) \<and> \<not> in_dtor ob" for b ob
    using v [of b] counted_obj [OF assms(1), of b ob] by (auto simp: holders_set_ptr)
  ultimately show ?thesis by (simp add: counted_def)
qed

lemma counted_unstore:
  assumes "counted ext st" "ptrs st v = Some a"
  shows "counted (ext(a := Suc (ext a))) (set_ptr v None st)"
proof -
  have v: "v \<in> holders st b \<longleftrightarrow> a = b" "finite (holders st b)" for b
    using assms finite_holders by (auto simp: holders_def)
  have "finite {w. ptrs (set_ptr v None st) w \<noteq> None}"
    using assms(1) by (intro finite_set_ptr) (simp add: counted_def)
  moreover have "objs st a \<noteq> None" using counted_held [OF assms] by auto
  moreover have "objs st b = None \<longrightarrow> holders (set_ptr v None st) b = {} \<and> (b \<noteq> a \<longrightarrow> ext b = 0)" for b
    using counted_none [OF assms(1), of b] by (auto simp: holders_set_ptr)
  moreover have "objs st b = Some ob \<longrightarrow>
      ref_count ob = int (card (holders (set_ptr v None st) b) + (ext(a := Suc (ext a))) b) \<and> \<not> in_dtor ob" for b ob
  proof (cases "a = b")
    case True
    then have "card (holders st b) = Suc (card (holders st b - {v}))"
      using v [of b] by (metis card.remove)
    with True show ?thesis using counted_obj [OF assms(1), of b ob] by (simp add: holders_set_ptr)
  next
    case False
    then show ?thesis using v [of b] counted_obj [OF assms(1), of b ob] by (simp add: holders_set_ptr)
  qed
  ultimately show ?thesis by (auto simp: counted_def)
qed

lemma counted_Release:
  assumes "counted (ext(a := Suc (ext a))) st" "objs st a = Some ob"
  shows "Obj_Release (Some a) st =
      Inr (st\<lparr>objs := (objs st)(a := (if ref_count ob = 1 then None else Some (ob\<lparr>ref_count := ref_count ob - 1\<rparr>)))\<rparr>)"
    and "counted ext (st\<lparr>objs := (objs st)(a := (if ref_count ob = 1 then None else Some (ob\<lparr>ref_count := ref_count ob - 1\<rparr>)))\<rparr>)"
proof -
  note ob = counted_obj [OF assms]
  then have "ref_count ob \<noteq> 0" by simp
  with ob show "Obj_Release (Some a) st =
      Inr (st\<lparr>objs := (objs st)(a := (if ref_count ob = 1 then None else Some (ob\<lparr>ref_count := ref_count ob - 1\<rparr>)))\<rparr>)"
    using assms(2) by (simp add: Obj_Release_def TS_Release_def TS_destructor_def atomic_defs Let_def)
  have "counted ext (st\<lparr>objs := (objs st)(a := None)\<rparr>)" if "ref_count ob = 1"
  proof -
    have "card (holders st a) = 0" "ext a = 0" using ob that by simp_all
    then have "holders st a = {}" using finite_holders [OF assms(1), of a] by simp
    then show ?thesis using assms(1) \<open>ext a = 0\<close> by (auto simp: counted_def split: if_splits)
  qed
  moreover have "counted ext (st\<lparr>objs := (objs st)(a := Some (ob\<lparr>ref_count := ref_count ob - 1\<rparr>))\<rparr>)"
    using assms(1) ob by (auto simp: counted_def split: if_splits)
  ultimately show "counted ext (st\<lparr>objs := (objs st)(a := (if ref_count ob = 1 then None else Some (ob\<lparr>ref_count := ref_count ob - 1\<rparr>)))\<rparr>)"
    by simp
qed

section \<open>The smart pointer keeps the counts\<close>

lemma set_ptr_objs_comm: "set_ptr v p (st\<lparr>objs := h\<rparr>) = (set_ptr v p st)\<lparr>objs := h\<rparr>"
  by (simp add: set_ptr_def)

lemma set_ptr_set_ptr [simp]: "set_ptr v p (set_ptr v q st) = set_ptr v p st"
  by (simp add: set_ptr_def)

lemma set_ptr_same: "ptrs st v = p \<Longrightarrow> set_ptr v p st = st"
  by (cases st) (auto simp: set_ptr_def)

lemma Obj_Release_set_ptr:
  assumes "Obj_Release q st = Inr st'"
  shows "Obj_Release q (set_ptr v p st) = Inr (set_ptr v p st')"
proof (cases q)
  case None
  with assms show ?thesis by (simp add: Obj_Release_def)
next
  case (Some a)
  with assms obtain ob where ob: "objs st a = Some ob" by (cases "objs st a") (auto simp: Obj_Release_def)
  with assms Some obtain l ob' where r: "TS_Release ob = Inr (l, ob')"
    by (cases "TS_Release ob") (auto simp: Obj_Release_def)
  from assms Some ob r show ?thesis
    by (cases l; cases "TS_destructor ob'") (auto simp: Obj_Release_def set_ptr_def)
qed

lemma refptr_destruct_ok:
  assumes "rc_inv ext st"
  shows "\<exists>st'. refptr_destruct v st = Inr st' \<and> rc_inv ext st' \<and> ptrs st' = (ptrs st)(v := None)"
proof (cases "ptrs st v")
  case None
  then have e: "set_ptr v None st = st" by (rule set_ptr_same)
  show ?thesis
    by (intro exI [of _ st]) (use None assms e in \<open>simp add: refptr_destruct_def Obj_Release_def fun_upd_idem\<close>)
next
  case (Some a)
  have c: "counted ext st" using assms by (simp add: rc_inv_def)
  note u = counted_unstore [OF c Some]
  obtain ob where ob: "objs st a = Some ob" using counted_held [OF c Some] by blast
  then have ob': "objs (set_ptr v None st) a = Some ob" by simp
  note r = counted_Release [OF u ob']
  have "rc_inv ext ((set_ptr v None st)\<lparr>objs := (objs st)(a := if ref_count ob = 1 then None
      else Some (ob\<lparr>ref_count := ref_count ob - 1\<rparr>))\<rparr>)"
    using r(2) assms by (auto simp: rc_inv_def split: if_splits)
  with r(1) Some show ?thesis by (auto simp: refptr_destruct_def)
qed

lemma refptr_construct_ok:
  assumes "rc_inv ext st" "ptrs st v = None" "case p of None \<Rightarrow> True | Some a \<Rightarrow> objs st a \<noteq> None"
  shows "\<exists>st'. refptr_construct v p st = Inr st' \<and> rc_inv ext st' \<and> ptrs st' = (ptrs st)(v := p)"
proof (cases p)
  case None
  with assms show ?thesis by (auto simp: refptr_construct_def Obj_AddRef_def set_ptr_same fun_upd_idem)
next
  case (Some a)
  with assms obtain ob where ob: "objs st a = Some ob" by auto
  have c: "counted ext st" using assms by (simp add: rc_inv_def)
  let ?h = "(objs st)(a \<mapsto> ob\<lparr>ref_count := ref_count ob + 1\<rparr>)"
  have "counted ext (set_ptr v (Some a) (st\<lparr>objs := ?h\<rparr>))"
    by (rule counted_store) (use counted_AddRef(2) [OF c ob] assms(2) in auto)
  then have "rc_inv ext ((set_ptr v (Some a) st)\<lparr>objs := ?h\<rparr>)"
    using assms(1) counted_obj [OF c ob] by (auto simp: rc_inv_def set_ptr_objs_comm)
  moreover have "refptr_construct v p st = Inr ((set_ptr v (Some a) st)\<lparr>objs := ?h\<rparr>)"
    using Some ob counted_obj [OF c ob]
    by (simp add: refptr_construct_def Obj_AddRef_def TS_AddRef_def atomic_defs)
  ultimately show ?thesis using Some by auto
qed

text \<open>
  Assignment is a copy into a temporary, the destruction of the old value, and the move of
  the temporary: the order that makes self-assignment safe.
\<close>

lemma refptr_assign_counted:
  assumes "counted ext st" "case p of None \<Rightarrow> True | Some a \<Rightarrow> objs st a \<noteq> None"
    and "\<forall>a ob. objs st a = Some ob \<longrightarrow> ref_count ob \<noteq> 0 \<or> p = Some a"
  shows "\<exists>st'. refptr_assign v p st = Inr st' \<and> rc_inv ext st' \<and> ptrs st' = (ptrs st)(v := p)"
proof -
  obtain st1 ext1 where add: "Obj_AddRef p st = Inr st1" and c1: "counted ext1 st1"
    and ptrs1: "ptrs st1 = ptrs st" and pos1: "\<forall>a ob. objs st1 a = Some ob \<longrightarrow> ref_count ob \<noteq> 0"
    and ext1: "ext1 = (case p of None \<Rightarrow> ext | Some a \<Rightarrow> ext(a := Suc (ext a)))"
  proof (cases p)
    case None
    with that [of st ext] assms show thesis by (auto simp: Obj_AddRef_def)
  next
    case (Some a)
    with assms(2) obtain ob where ob: "objs st a = Some ob" by auto
    note r = counted_AddRef [OF assms(1) ob]
    have "\<forall>b ob'. ((objs st)(a \<mapsto> ob\<lparr>ref_count := ref_count ob + 1\<rparr>)) b = Some ob' \<longrightarrow> ref_count ob' \<noteq> 0"
      using Some assms(3) counted_obj [OF assms(1) ob] by (auto split: if_splits)
    with that [OF _ r(2)] r(1) Some show thesis by simp
  qed
  obtain st2 where rel: "refptr_destruct v st1 = Inr st2" and inv2: "rc_inv ext1 st2"
    and ptrs2: "ptrs st2 = (ptrs st1)(v := None)"
    using refptr_destruct_ok [of ext1 st1 v] c1 pos1 by (auto simp: rc_inv_def)
  have "Obj_Release (ptrs st1 v) (set_ptr v p (set_ptr v None st1)) = Inr (set_ptr v p st2)"
    using rel Obj_Release_set_ptr by (fastforce simp: refptr_destruct_def)
  then have "Obj_Release (ptrs st1 v) (set_ptr v p st1) = Inr (set_ptr v p st2)" by simp
  then have "refptr_assign v p st = Inr (set_ptr v p st2)"
    using add by (simp add: refptr_assign_def)
  moreover have "rc_inv ext (set_ptr v p st2)"
  proof (cases p)
    case None
    then have "set_ptr v p st2 = st2" using ptrs2 by (simp add: set_ptr_same)
    with None ext1 inv2 show ?thesis by simp
  next
    case (Some a)
    have "counted ext (set_ptr v (Some a) st2)"
      by (rule counted_store) (use inv2 ext1 Some ptrs2 in \<open>auto simp: rc_inv_def\<close>)
    with inv2 Some show ?thesis by (simp add: rc_inv_def)
  qed
  ultimately show ?thesis using ptrs1 ptrs2 by simp
qed

lemma refptr_assign_ok:
  assumes "rc_inv ext st" "case p of None \<Rightarrow> True | Some a \<Rightarrow> objs st a \<noteq> None"
  shows "\<exists>st'. refptr_assign v p st = Inr st' \<and> rc_inv ext st' \<and> ptrs st' = (ptrs st)(v := p)"
  using assms by (intro refptr_assign_counted) (auto simp: rc_inv_def)

lemma refptr_assign_new_ok:
  assumes "rc_inv ext st" "objs st a = None" "ref_count ob = 0" "\<not> in_dtor ob"
  shows "\<exists>st'. refptr_assign v (Some a) (new_object a ob st) = Inr st' \<and> rc_inv ext st' \<and>
     ptrs st' = (ptrs st)(v := Some a)"
proof -
  have c: "counted ext st" using assms by (simp add: rc_inv_def)
  have h: "holders st a = {} \<and> ext a = 0" using counted_none [OF c assms(2)] .
  have "counted ext (new_object a ob st)"
    using c h assms(3,4) by (auto simp: counted_def new_object_def)
  then have "\<exists>st'. refptr_assign v (Some a) (new_object a ob st) = Inr st' \<and> rc_inv ext st' \<and>
     ptrs st' = (ptrs (new_object a ob st))(v := Some a)"
    by (rule refptr_assign_counted) (use assms in \<open>auto simp: rc_inv_def new_object_def\<close>)
  then show ?thesis by (simp add: new_object_def)
qed

lemma refptr_swap_ok: "rc_inv ext st \<Longrightarrow> v \<noteq> r \<Longrightarrow> rc_inv ext (refptr_swap v r st)"
proof -
  assume inv: "rc_inv ext st" and "v \<noteq> r"
  define f where "f = (\<lambda>w. if w = v then r else if w = r then v else w)"
  have sw: "ptrs (refptr_swap v r st) w = ptrs st (f w)" and ob: "objs (refptr_swap v r st) = objs st" for w
    using \<open>v \<noteq> r\<close> by (auto simp: refptr_swap_def Let_def f_def)
  have inj: "inj f" and ff: "f (f w) = w" for w using \<open>v \<noteq> r\<close> by (auto simp: f_def inj_def)
  have im: "{w. P (f w)} = f ` {w. P w}" for P
    using ff by (auto simp: image_iff) metis
  have "holders (refptr_swap v r st) a = f ` holders st a" for a
    unfolding holders_def sw by (rule im)
  moreover have "{w. ptrs (refptr_swap v r st) w \<noteq> None} = f ` {w. ptrs st w \<noteq> None}"
    unfolding sw by (rule im)
  ultimately have "counted ext (refptr_swap v r st)"
    using inv inj by (simp add: rc_inv_def counted_def ob card_image inj_on_subset [OF inj])
  with inv show ?thesis by (simp add: rc_inv_def ob)
qed

text \<open>An object exists exactly as long as somebody refers to it.\<close>

lemma alive_iff_referenced:
  assumes "rc_inv ext st"
  shows "objs st a \<noteq> None \<longleftrightarrow> holders st a \<noteq> {} \<or> ext a \<noteq> 0"
proof -
  have c: "counted ext st" using assms by (simp add: rc_inv_def)
  show ?thesis
  proof (cases "objs st a")
    case None
    with counted_none [OF c] show ?thesis by simp
  next
    case (Some ob)
    then have "ref_count ob \<noteq> 0" using assms by (simp add: rc_inv_def)
    then have "card (holders st a) \<noteq> 0 \<or> ext a \<noteq> 0" using counted_obj [OF c Some] by linarith
    with Some show ?thesis by auto
  qed
qed

section \<open>Clients of scoped_refptr\<close>

text \<open>What client code does with smart pointers, one statement at a time.\<close>

datatype ('v, 'm) sp_op =
    Copy 'v 'v                          \<comment> \<open>\<open>scoped_refptr v(r)\<close>\<close>
  | Assign 'v 'v                        \<comment> \<open>\<open>v = r\<close>\<close>
  | AssignNew 'v nat "'m rc_obj_scheme" \<comment> \<open>\<open>v = new T\<close> at a fresh address\<close>
  | Destruct 'v                         \<comment> \<open>end of \<open>v\<close>'s scope\<close>
  | Swap 'v 'v                          \<comment> \<open>\<open>v.swap(r)\<close>\<close>

fun sp_step :: "('v, 'm) sp_op \<Rightarrow> ('v, 'm) rstate \<Rightarrow> ('v, 'm) rstate res" where
  "sp_step (Copy v r) st = refptr_copy v r st"
| "sp_step (Assign v r) st = refptr_assign_var v r st"
| "sp_step (AssignNew v a ob) st = refptr_assign v (Some a) (new_object a ob st)"
| "sp_step (Destruct v) st = refptr_destruct v st"
| "sp_step (Swap v r) st = Inr (refptr_swap v r st)"

text \<open>A constructor runs on an unconstructed variable; \<open>new\<close> returns an unused address.\<close>

fun sp_ok :: "('v, 'm) sp_op \<Rightarrow> ('v, 'm) rstate \<Rightarrow> bool" where
  "sp_ok (Copy v r) st \<longleftrightarrow> ptrs st v = None"
| "sp_ok (Assign v r) st \<longleftrightarrow> True"
| "sp_ok (AssignNew v a ob) st \<longleftrightarrow> objs st a = None \<and> ref_count ob = 0 \<and> \<not> in_dtor ob"
| "sp_ok (Destruct v) st \<longleftrightarrow> True"
| "sp_ok (Swap v r) st \<longleftrightarrow> v \<noteq> r"

lemma held_alive: "rc_inv ext st \<Longrightarrow> case ptrs st r of None \<Rightarrow> True | Some a \<Rightarrow> objs st a \<noteq> None"
  by (auto simp: rc_inv_def split: option.splits dest: counted_held)

text \<open>
  C10: client code that only copies, assigns, swaps and destroys smart pointers and puts
  new objects into them never trips a check of the counter, never touches a deleted
  object, and keeps every object alive exactly as long as something refers to it.
\<close>

theorem scoped_refptr_safe:
  assumes "rc_inv ext st" "sp_ok op st"
  shows "\<exists>st'. sp_step op st = Inr st' \<and> rc_inv ext st' \<and>
     (\<forall>a. objs st' a \<noteq> None \<longleftrightarrow> holders st' a \<noteq> {} \<or> ext a \<noteq> 0)"
proof -
  have "\<exists>st'. sp_step op st = Inr st' \<and> rc_inv ext st'"
  proof (cases op)
    case (Copy v r)
    then show ?thesis
      using refptr_construct_ok [OF assms(1) _ held_alive [OF assms(1)], of v r] assms(2)
      by (auto simp: refptr_copy_def refptr_construct_def)
  next
    case (Assign v r)
    then show ?thesis
      using refptr_assign_ok [OF assms(1) held_alive [OF assms(1)], of v r] by (auto simp: refptr_assign_var_def)
  next
    case (AssignNew v a ob)
    then show ?thesis using refptr_assign_new_ok [OF assms(1), of a ob v] assms(2) by auto
  next
    case (Destruct v)
    then show ?thesis using refptr_destruct_ok [OF assms(1), of v] by auto
  next
    case (Swap v r)
    then show ?thesis using refptr_swap_ok [OF assms(1), of v r] assms(2) by auto
  qed
  then show ?thesis using alive_iff_referenced by blast
qed

lemma empty_rc_inv: "rc_inv (\<lambda>_. 0) \<lparr>objs = (\<lambda>_. None), ptrs = (\<lambda>_. None)\<rparr>"
  by (simp add: rc_inv_def counted_def holders_def)

theorem scoped_refptr_safe_witness:
  "\<exists>st'. sp_step (AssignNew (0::nat) 7 new_rc) \<lparr>objs = (\<lambda>_. None), ptrs = (\<lambda>_. None)\<rparr> = Inr st' \<and>
     (objs st' 7 \<noteq> None \<longleftrightarrow> holders st' 7 \<noteq> {})"
  using scoped_refptr_safe [OF empty_rc_inv, of "AssignNew (0::nat) 7 new_rc"] by (auto simp: new_rc_def)

text \<open>
  Self-assignment of a smart pointer, and assignment of a pointer that already holds
  the same object, leaves counts and heap exactly as they were, even for the last reference.
\<close>

theorem scoped_refptr_self_assign:
  assumes "rc_inv ext st" "ptrs st r = ptrs st v"
  shows "refptr_assign_var v r st = Inr st"
proof (cases "ptrs st v")
  case None
  then have e: "set_ptr v None st = st" by (rule set_ptr_same)
  with None assms show ?thesis by (simp add: refptr_assign_var_def refptr_assign_def Obj_AddRef_def Obj_Release_def)
next
  case (Some a)
  have c: "counted ext st" using assms by (simp add: rc_inv_def)
  obtain ob where ob: "objs st a = Some ob" using counted_held [OF c Some] by blast
  have "ref_count ob \<noteq> 0" using ob assms(1) by (simp add: rc_inv_def)
  then have pos: "0 < ref_count ob" using counted_obj [OF c ob] by linarith
  let ?st1 = "st\<lparr>objs := (objs st)(a \<mapsto> ob\<lparr>ref_count := ref_count ob + 1\<rparr>)\<rparr>"
  have same: "set_ptr v (Some a) ?st1 = ?st1" using Some by (simp add: set_ptr_same)
  have "Obj_Release (Some a) ?st1 = Inr st"
    using pos ob counted_obj [OF c ob]
    by (simp add: Obj_Release_def TS_Release_def atomic_defs Let_def fun_upd_idem)
  then show ?thesis
    using Some assms(2) counted_AddRef(1) [OF c ob] same
    by (simp add: refptr_assign_var_def refptr_assign_def)
qed

theorem scoped_refptr_self_assign_witness:
  "refptr_assign_var (0::nat) 0 \<lparr>objs = [7 \<mapsto> \<lparr>ref_count = 1, in_dtor = False\<rparr>], ptrs = [0 \<mapsto> 7]\<rparr>
   = Inr \<lparr>objs = [7 \<mapsto> \<lparr>ref_count = 1, in_dtor = False\<rparr>], ptrs = [0 \<mapsto> 7]\<rparr>"
proof (rule scoped_refptr_self_assign [where ext = "\<lambda>_. 0"])
  have "{v::nat. v = 0} = {0}" by auto
  then show "rc_inv (\<lambda>_. 0) \<lparr>objs = [7 \<mapsto> \<lparr>ref_count = 1, in_dtor = False\<rparr>], ptrs = [0::nat \<mapsto> 7]\<rparr>"
    by (simp add: rc_inv_def counted_def holders_def)
qed simp

end
