(* ===== verification/Numbers.thy ===== *)
theory Numbers imports Prelude "HOL-Library.Word" begin

text \<open>
  \<open>base/string_number_conversions.cc\<close>: integers to text and back.  The templates are
  modelled once, over code units: \<open>std::string\<close> and \<open>string16\<close> are both lists of
  integers.  A parse returns the C++ result and the value left in \<open>*output\<close>; the arithmetic
  wraps to the value type where the source does not check.  \<open>DoubleToString\<close> and
  \<open>StringToDouble\<close> only call third-party code and are not modelled.
\<close>

type_synonym units = "int list"

definition codes :: "string \<Rightarrow> units" where
  "codes s = map of_char s"

section \<open>IntToStringT\<close>

definition TestNeg :: "bool \<Rightarrow> int \<Rightarrow> bool" where
  "TestNeg neg value = (if neg then value < 0 else False)"

definition ToUnsigned :: "nat \<Rightarrow> bool \<Rightarrow> int \<Rightarrow> nat" where
  "ToUnsigned bytes neg value =
     (if neg then nat ((if value < 0 then - value else value) mod 2 ^ (8 * bytes))
      else nat (value mod 2 ^ (8 * bytes)))"

text \<open>The loop that fills the buffer from the back; \<open>pos\<close> is the offset of \<open>it\<close> in the buffer.\<close>

function i2s_loop :: "nat \<Rightarrow> bool \<Rightarrow> nat \<Rightarrow> units \<Rightarrow> units res" where
  "i2s_loop pos is_neg n out =
     bindR (dcheck (pos - 1 \<noteq> 0) ''it != outbuf.begin()'') (\<lambda>_.
       let out' = (int (n mod 10) + 48) # out; n' = n div 10 in
       if n' = 0 then
         if is_neg then bindR (dcheck (pos - 1 - 1 \<noteq> 0) ''it != outbuf.begin()'') (\<lambda>_. Inr (45 # out'))
         else Inr out'
       else i2s_loop (pos - 1) is_neg n' out')"
  by pat_completeness auto
termination
  by (relation "measure (\<lambda>(pos, is_neg, n, out). n)") auto

declare i2s_loop.simps [simp del]

definition IntToStringT :: "nat \<Rightarrow> bool \<Rightarrow> int \<Rightarrow> units res" where
  "IntToStringT bytes neg value =
     i2s_loop (3 * bytes + 1) (TestNeg neg value) (ToUnsigned bytes neg value) []"

definition IntToString :: "32 word \<Rightarrow> units res" where "IntToString value = IntToStringT 4 True (sint value)"
definition IntToString16 :: "32 word \<Rightarrow> units res" where "IntToString16 value = IntToStringT 4 True (sint value)"
definition UintToString :: "32 word \<Rightarrow> units res" where "UintToString value = IntToStringT 4 False (uint value)"
definition UintToString16 :: "32 word \<Rightarrow> units res" where "UintToString16 value = IntToStringT 4 False (uint value)"
definition Int64ToString :: "64 word \<Rightarrow> units res" where "Int64ToString value = IntToStringT 8 True (sint value)"
definition Int64ToString16 :: "64 word \<Rightarrow> units res" where "Int64ToString16 value = IntToStringT 8 True (sint value)"
definition Uint64ToString :: "64 word \<Rightarrow> units res" where "Uint64ToString value = IntToStringT 8 False (uint value)"
definition Uint64ToString16 :: "64 word \<Rightarrow> units res" where "Uint64ToString16 value = IntToStringT 8 False (uint value)"

section \<open>IteratorRangeToNumber\<close>

definition CharToDigit :: "int \<Rightarrow> int \<Rightarrow> int option" where
  "CharToDigit base c =
     (if base \<le> 10 then (if 48 \<le> c \<and> c < 48 + base then Some (c - 48) else None)
      else if 48 \<le> c \<and> c \<le> 57 then Some (c - 48)
      else if 97 \<le> c \<and> c < 97 + base - 10 then Some (c - 97 + 10)
      else if 65 \<le> c \<and> c < 65 + base - 10 then Some (c - 65 + 10)
      else None)"

text \<open>\<open>isspace\<close> in the C locale.\<close>

definition LocalIsWhitespace :: "int \<Rightarrow> bool" where
  "LocalIsWhitespace c \<longleftrightarrow> c = 32 \<or> (9 \<le> c \<and> c \<le> 13)"

record traits =
  tr_min :: int
  tr_max :: int
  tr_base :: int
  tr_wrap :: "int \<Rightarrow> int"  \<comment> \<open>conversion to the value type\<close>

definition wrap_signed :: "nat \<Rightarrow> int \<Rightarrow> int" where
  "wrap_signed w n = (n + 2 ^ (w - 1)) mod 2 ^ w - 2 ^ (w - 1)"

definition wrap_unsigned :: "nat \<Rightarrow> int \<Rightarrow> int" where
  "wrap_unsigned w n = n mod 2 ^ w"

definition signed_traits :: "nat \<Rightarrow> int \<Rightarrow> traits" where
  "signed_traits w base = \<lparr>tr_min = - (2 ^ (w - 1)), tr_max = 2 ^ (w - 1) - 1, tr_base = base, tr_wrap = wrap_signed w\<rparr>"

definition unsigned_traits :: "nat \<Rightarrow> int \<Rightarrow> traits" where
  "unsigned_traits w base = \<lparr>tr_min = 0, tr_max = 2 ^ w - 1, tr_base = base, tr_wrap = wrap_unsigned w\<rparr>"

text \<open>\<open>HexIteratorRangeToIntTraits\<close>: an \<open>int\<close> whose \<open>max\<close> is that of \<open>unsigned int\<close>.\<close>

definition hex_int_traits :: traits where
  "hex_int_traits = (signed_traits 32 16)\<lparr>tr_max := 2 ^ 32 - 1\<rparr>"

definition Positive_CheckBounds :: "traits \<Rightarrow> int \<Rightarrow> int \<Rightarrow> int option" where
  \<comment> \<open>\<open>Some v\<close>: out of bounds, \<open>*output\<close> becomes \<open>v\<close>\<close>
  "Positive_CheckBounds tr out d =
     (let q = tr_wrap tr (tr_max tr div tr_base tr) in
      if out > q \<or> (out = q \<and> d > tr_max tr mod tr_base tr) then Some (tr_wrap tr (tr_max tr)) else None)"

definition Negative_CheckBounds :: "traits \<Rightarrow> int \<Rightarrow> int \<Rightarrow> int option" where
  "Negative_CheckBounds tr out d =
     (let q = tr_min tr sdiv tr_base tr in
      if out < q \<or> (out = q \<and> d > 0 - tr_min tr smod tr_base tr) then Some (tr_min tr) else None)"

definition Sign_CheckBounds :: "bool \<Rightarrow> traits \<Rightarrow> int \<Rightarrow> int \<Rightarrow> int option" where
  "Sign_CheckBounds neg = (if neg then Negative_CheckBounds else Positive_CheckBounds)"

definition Sign_Increment :: "bool \<Rightarrow> traits \<Rightarrow> int \<Rightarrow> int \<Rightarrow> int" where
  "Sign_Increment neg tr d out = tr_wrap tr (if neg then out - d else out + d)"

fun digit_loop :: "bool \<Rightarrow> traits \<Rightarrow> bool \<Rightarrow> units \<Rightarrow> int \<Rightarrow> bool \<times> int" where
  "digit_loop neg tr first [] out = (True, out)"
| "digit_loop neg tr first (c # cs) out =
     (case CharToDigit (tr_base tr) c of
        None \<Rightarrow> (False, out)
      | Some d \<Rightarrow>
          if first then digit_loop neg tr False cs (Sign_Increment neg tr d out)
          else (case Sign_CheckBounds neg tr out d of
              Some v \<Rightarrow> (False, v)
            | None \<Rightarrow> digit_loop neg tr False cs (Sign_Increment neg tr d (tr_wrap tr (out * tr_base tr)))))"

definition Base_Invoke :: "bool \<Rightarrow> traits \<Rightarrow> units \<Rightarrow> bool \<times> int" where
  "Base_Invoke neg tr cs =
     (if cs = [] then (False, 0)
      else digit_loop neg tr True
        (if tr_base tr = 16 \<and> 2 < length cs \<and> cs ! 0 = 48 \<and> (cs ! 1 = 120 \<or> cs ! 1 = 88) then drop 2 cs else cs) 0)"

definition Number_Invoke :: "traits \<Rightarrow> units \<Rightarrow> bool \<times> int" where
  "Number_Invoke tr input =
     (let rest = dropWhile LocalIsWhitespace input;
          valid = (rest = input);
          (ok, v) = (case rest of
              c # cs \<Rightarrow> if c = 45 then Base_Invoke True tr cs
                        else Base_Invoke False tr (if c = 43 then cs else rest)
            | [] \<Rightarrow> Base_Invoke False tr [])
      in (valid \<and> ok, v))"

definition StringToIntImpl :: "traits \<Rightarrow> units \<Rightarrow> bool \<times> int" where
  "StringToIntImpl tr input = Number_Invoke tr input"

definition StringToInt :: "units \<Rightarrow> bool \<times> int" where "StringToInt = StringToIntImpl (signed_traits 32 10)"
definition StringToUint :: "units \<Rightarrow> bool \<times> int" where "StringToUint = StringToIntImpl (unsigned_traits 32 10)"
definition StringToInt64 :: "units \<Rightarrow> bool \<times> int" where "StringToInt64 = StringToIntImpl (signed_traits 64 10)"
definition StringToUint64 :: "units \<Rightarrow> bool \<times> int" where "StringToUint64 = StringToIntImpl (unsigned_traits 64 10)"
definition StringToSizeT :: "units \<Rightarrow> bool \<times> int" where "StringToSizeT = StringToIntImpl (unsigned_traits 64 10)"
definition HexStringToInt :: "units \<Rightarrow> bool \<times> int" where "HexStringToInt = Number_Invoke hex_int_traits"

section \<open>Bytes in hexadecimal\<close>

definition kHexChars :: "int list" where
  "kHexChars = [48, 49, 50, 51, 52, 53, 54, 55, 56, 57, 65, 66, 67, 68, 69, 70]"

definition HexEncode :: "8 word list \<Rightarrow> units" where
  "HexEncode bytes = concat (map (\<lambda>b. [kHexChars ! unat (and (drop_bit 4 b) 15), kHexChars ! unat (and b 15)]) bytes)"

fun hex_bytes_loop :: "units \<Rightarrow> 8 word list \<Rightarrow> bool \<times> 8 word list" where
  "hex_bytes_loop (c1 # c2 # cs) output =
     (case CharToDigit 16 c1 of None \<Rightarrow> (False, output)
      | Some msb \<Rightarrow> (case CharToDigit 16 c2 of None \<Rightarrow> (False, output)
          | Some lsb \<Rightarrow> hex_bytes_loop cs (output @ [or (push_bit 4 (word_of_int msb)) (word_of_int lsb)])))"
| "hex_bytes_loop cs output = (True, output)"

definition HexStringToBytes :: "units \<Rightarrow> bool \<times> 8 word list" where
  "HexStringToBytes input =
     (if length input = 0 \<or> length input mod 2 \<noteq> 0 then (False, []) else hex_bytes_loop input [])"

section \<open>Decimal digits\<close>

fun digits10 :: "nat \<Rightarrow> units" where
  "digits10 n = (if n < 10 then [int n + 48] else digits10 (n div 10) @ [int (n mod 10) + 48])"

declare digits10.simps [simp del]

definition dec_value :: "int \<Rightarrow> units \<Rightarrow> int" where
  "dec_value out ds = foldl (\<lambda>a c. a * 10 + (c - 48)) out ds"

definition is_digit :: "int \<Rightarrow> bool" where
  "is_digit c \<longleftrightarrow> 48 \<le> c \<and> c \<le> 57"

lemma dec_value_simps [simp]:
  "dec_value out [] = out" "dec_value out (c # cs) = dec_value (out * 10 + (c - 48)) cs"
  "dec_value out (cs @ [c]) = dec_value out cs * 10 + (c - 48)"
  by (simp_all add: dec_value_def)

lemma digits10_value: "dec_value 0 (digits10 n) = int n"
proof (induction n rule: digits10.induct)
  case (1 n)
  have "int (n div 10) * 10 + int (n mod 10) = int n"
    by (metis div_mult_mod_eq of_nat_add of_nat_mult of_nat_numeral)
  with 1 show ?case by (cases "n < 10") (simp_all add: digits10.simps [of n])
qed

lemma digits10_digits: "c \<in> set (digits10 n) \<Longrightarrow> is_digit c"
proof (induction n rule: digits10.induct)
  case (1 n)
  then show ?case by (cases "n < 10") (auto simp: digits10.simps [of n] is_digit_def)
qed

lemma digits10_nonempty [simp]: "digits10 n \<noteq> []"
  by (simp add: digits10.simps [of n])

lemma digits10_length: "n < 10 ^ k \<Longrightarrow> 0 < k \<Longrightarrow> length (digits10 n) \<le> k"
proof (induction n arbitrary: k rule: digits10.induct)
  case (1 n)
  show ?case
  proof (cases "n < 10")
    case True
    with "1.prems" show ?thesis by (simp add: digits10.simps [of n])
  next
    case False
    then have "1 < k" using "1.prems" by (cases k; cases "k - 1") auto
    then have "10 ^ k = 10 * (10::nat) ^ (k - 1)" by (cases k) auto
    with "1.prems" have "n div 10 < 10 ^ (k - 1)" by simp
    with "1.IH" [OF False, of "k - 1"] \<open>1 < k\<close> False show ?thesis by (simp add: digits10.simps [of n])
  qed
qed

lemma i2s_loop_digits:
  "length (digits10 n) + 2 \<le> pos \<Longrightarrow> i2s_loop pos neg n out = Inr ((if neg then [45] else []) @ digits10 n @ out)"
proof (induction pos neg n out rule: i2s_loop.induct)
  case (1 pos neg n out)
  show ?case
  proof (cases "n < 10")
    case True
    with "1.prems" show ?thesis
      by (simp add: i2s_loop.simps [of pos] digits10.simps [of n] dcheck_def)
  next
    case False
    then have "n div 10 \<noteq> 0" by auto
    then show ?thesis
      using "1.IH" [of "(int (n mod 10) + 48) # out" "n div 10"] "1.prems" False
      by (simp add: i2s_loop.simps [of pos] digits10.simps [of n] dcheck_def)
  qed
qed

text \<open>The buffer is long enough for every value of 32 and of 64 bits.\<close>

lemma IntToStringT_digits:
  assumes "ToUnsigned bytes neg value < 10 ^ k" "0 < k" "k + 2 \<le> 3 * bytes + 1"
  shows "IntToStringT bytes neg value = Inr ((if TestNeg neg value then [45] else []) @ digits10 (ToUnsigned bytes neg value))"
  using i2s_loop_digits [of "ToUnsigned bytes neg value" "3 * bytes + 1"] digits10_length [OF assms(1,2)] assms(3)
  by (simp add: IntToStringT_def)

section \<open>Parsing decimal digits\<close>

definition decimal_ok :: "traits \<Rightarrow> bool" where
  "decimal_ok tr \<longleftrightarrow> tr_base tr = 10 \<and> tr_min tr \<le> 0 \<and> 9 \<le> tr_max tr \<and>
     (\<forall>n. tr_min tr \<le> n \<longrightarrow> n \<le> tr_max tr \<longrightarrow> tr_wrap tr n = n)"

lemma wrap_signed_id: "0 < w \<Longrightarrow> - (2 ^ (w - 1)) \<le> n \<Longrightarrow> n \<le> 2 ^ (w - 1) - 1 \<Longrightarrow> wrap_signed w n = n"
proof -
  assume "0 < w" "- (2 ^ (w - 1)) \<le> n" "n \<le> 2 ^ (w - 1) - 1"
  moreover from this have "(2::int) ^ w = 2 * 2 ^ (w - 1)" by (cases w) auto
  ultimately show ?thesis by (simp add: wrap_signed_def)
qed

lemma decimal_traits:
  "decimal_ok (signed_traits 32 10)" "decimal_ok (unsigned_traits 32 10)"
  "decimal_ok (signed_traits 64 10)" "decimal_ok (unsigned_traits 64 10)"
  using wrap_signed_id [of 32] wrap_signed_id [of 64]
  by (auto simp: decimal_ok_def signed_traits_def unsigned_traits_def wrap_unsigned_def)

lemma CharToDigit_10: "CharToDigit 10 c = (if is_digit c then Some (c - 48) else None)"
  by (auto simp: CharToDigit_def is_digit_def)

lemma dec_value_mono: "(\<And>c. c \<in> set ds \<Longrightarrow> is_digit c) \<Longrightarrow> 0 \<le> out \<Longrightarrow> out \<le> dec_value out ds"
proof (induction ds arbitrary: out)
  case (Cons c ds)
  then have "is_digit c" by simp
  then have "0 \<le> out * 10 + (c - 48)" "out \<le> out * 10 + (c - 48)" using Cons.prems(2) by (auto simp: is_digit_def)
  with Cons.IH [of "out * 10 + (c - 48)"] Cons.prems(1) show ?case by fastforce
qed simp

lemma last_digit_bound:
  assumes "0 \<le> (d::int)" "d \<le> 9"
  shows "(n div 10 < out \<or> (out = n div 10 \<and> n mod 10 < d)) \<longleftrightarrow> \<not> out * 10 + d \<le> n"
proof -
  define q r where "q = n div 10" and "r = n mod 10"
  then have "n div 10 = q" "n mod 10 = r" "n = 10 * q + r" "0 \<le> r" "r < 10" by simp_all
  then show ?thesis using assms by auto
qed

lemma positive_bounds:
  assumes "decimal_ok tr" "0 \<le> out" "0 \<le> d" "d \<le> 9"
  shows "Positive_CheckBounds tr out d = (if out * 10 + d \<le> tr_max tr then None else Some (tr_max tr))"
proof -
  have "tr_max tr div 10 \<le> tr_max tr" "tr_min tr \<le> tr_max tr div 10" using assms(1) by (auto simp: decimal_ok_def)
  then have "tr_wrap tr (tr_max tr div 10) = tr_max tr div 10" "tr_wrap tr (tr_max tr) = tr_max tr"
    using assms(1) by (auto simp: decimal_ok_def)
  moreover have "(out > tr_max tr div 10 \<or> (out = tr_max tr div 10 \<and> d > tr_max tr mod 10)) \<longleftrightarrow> \<not> out * 10 + d \<le> tr_max tr"
    by (rule last_digit_bound [OF assms(3,4)])
  ultimately show ?thesis using assms(1) by (auto simp: Positive_CheckBounds_def Let_def decimal_ok_def)
qed

lemma trunc_div_neg: "(n::int) \<le> 0 \<Longrightarrow> n sdiv 10 = - ((- n) div 10) \<and> n smod 10 = - ((- n) mod 10)"
  by (cases "n = 0") (simp_all only: signed_divide_int_def signed_modulo_int_def sgn_if abs_if, simp_all)

lemma negative_bounds:
  assumes "decimal_ok tr" "0 \<le> out" "0 \<le> d" "d \<le> 9"
  shows "Negative_CheckBounds tr (- out) d = (if tr_min tr \<le> - (out * 10 + d) then None else Some (tr_min tr))"
proof -
  define n where "n = - tr_min tr"
  have m: "tr_min tr = - n" "- n \<le> 0" "tr_base tr = 10" using assms(1) by (auto simp: decimal_ok_def n_def)
  have t: "(- n) sdiv 10 = - (n div 10)" "(- n) smod 10 = - (n mod 10)"
    using trunc_div_neg [OF m(2)] unfolding minus_minus by blast+
  have "(n div 10 < out \<or> (out = n div 10 \<and> d > n mod 10)) \<longleftrightarrow> \<not> out * 10 + d \<le> n"
    by (rule last_digit_bound [OF assms(3,4)])
  then have "(- out < - (n div 10) \<or> (- out = - (n div 10) \<and> d > n mod 10)) \<longleftrightarrow> \<not> - n \<le> - (out * 10 + d)"
    by (simp only: neg_less_iff_less neg_equal_iff_equal neg_le_iff_le)
  then show ?thesis
    unfolding Negative_CheckBounds_def Let_def m(1,3) t diff_minus_eq_add add_0_left by (simp only: if_not_P if_P split: if_split) blast
qed

definition sign_of :: "bool \<Rightarrow> int \<Rightarrow> int" where
  "sign_of neg n = (if neg then - n else n)"

definition in_bounds :: "traits \<Rightarrow> int \<Rightarrow> bool" where
  "in_bounds tr n \<longleftrightarrow> tr_min tr \<le> n \<and> n \<le> tr_max tr"

definition clamp :: "traits \<Rightarrow> int \<Rightarrow> int" where
  "clamp tr n = max (tr_min tr) (min (tr_max tr) n)"

lemma sign_bounds:
  assumes "decimal_ok tr" "0 \<le> out" "0 \<le> d" "d \<le> 9"
  shows "Sign_CheckBounds neg tr (sign_of neg out) d =
    (if in_bounds tr (sign_of neg (out * 10 + d)) then None else Some (clamp tr (sign_of neg (out * 10 + d))))"
proof -
  have "tr_min tr \<le> 0" "0 \<le> tr_max tr" using assms(1) by (auto simp: decimal_ok_def)
  then show ?thesis
    using assms positive_bounds [OF assms] negative_bounds [OF assms]
    by (auto simp: Sign_CheckBounds_def sign_of_def in_bounds_def clamp_def)
qed

lemma digit_loop_spec:
  assumes ok: "decimal_ok tr" and rest: "rest = [] \<or> \<not> is_digit (hd rest)"
  shows "0 \<le> out \<Longrightarrow> in_bounds tr (sign_of neg out) \<Longrightarrow> (\<And>c. c \<in> set ds \<Longrightarrow> is_digit c) \<Longrightarrow>
    digit_loop neg tr False (ds @ rest) (sign_of neg out) =
      (rest = [] \<and> in_bounds tr (sign_of neg (dec_value out ds)), clamp tr (sign_of neg (dec_value out ds)))"
proof (induction ds arbitrary: out)
  case Nil
  have "digit_loop neg tr False rest (sign_of neg out) = (rest = [], sign_of neg out)"
    using rest ok by (cases rest) (auto simp: decimal_ok_def CharToDigit_10)
  with Nil(2) show ?case by (auto simp: clamp_def in_bounds_def)
next
  case (Cons c ds)
  define d where "d = c - 48"
  have d: "0 \<le> d" "d \<le> 9" "CharToDigit (tr_base tr) c = Some d"
    using Cons.prems(3) [of c] ok by (auto simp: d_def is_digit_def decimal_ok_def CharToDigit_10)
  let ?n = "out * 10 + d"
  have n: "0 \<le> ?n" using Cons.prems(1) d by simp
  have base: "tr_base tr = 10" using ok by (simp add: decimal_ok_def)
  show ?case
  proof (cases "in_bounds tr (sign_of neg ?n)")
    case True
    have "in_bounds tr (sign_of neg (out * 10))"
      using True d Cons.prems(1) ok by (auto simp: in_bounds_def sign_of_def decimal_ok_def split: if_splits)
    then have "tr_wrap tr (sign_of neg out * 10) = sign_of neg out * 10"
      using ok by (auto simp: in_bounds_def sign_of_def decimal_ok_def split: if_splits)
    then have "Sign_Increment neg tr d (tr_wrap tr (sign_of neg out * 10)) = sign_of neg ?n"
      using True ok by (auto simp: Sign_Increment_def sign_of_def in_bounds_def decimal_ok_def)
    with Cons.IH [OF n True] Cons.prems(3) d True sign_bounds [OF ok Cons.prems(1) d(1,2), of neg]
    show ?thesis by (simp add: base d_def)
  next
    case False
    have "?n \<le> dec_value ?n ds" using Cons.prems(3) n by (intro dec_value_mono) auto
    with False ok have "\<not> in_bounds tr (sign_of neg (dec_value ?n ds))"
      "clamp tr (sign_of neg (dec_value ?n ds)) = clamp tr (sign_of neg ?n)"
      using n by (auto simp: in_bounds_def clamp_def sign_of_def decimal_ok_def)
    with False d sign_bounds [OF ok Cons.prems(1) d(1,2), of neg] show ?thesis by (simp add: d_def)
  qed
qed

lemma Base_Invoke_spec:
  assumes ok: "decimal_ok tr" and neg: "neg \<Longrightarrow> tr_min tr \<le> - 9" and rest: "rest = [] \<or> \<not> is_digit (hd rest)"
    and ds: "ds \<noteq> []" "\<And>c. c \<in> set ds \<Longrightarrow> is_digit c"
  shows "Base_Invoke neg tr (ds @ rest) =
      (rest = [] \<and> in_bounds tr (sign_of neg (dec_value 0 ds)), clamp tr (sign_of neg (dec_value 0 ds)))"
proof -
  obtain c cs where c: "ds = c # cs" using ds(1) by (cases ds) auto
  have d: "0 \<le> c - 48" "c - 48 \<le> 9" "CharToDigit (tr_base tr) c = Some (c - 48)"
    using ds(2) [of c] ok c by (auto simp: is_digit_def decimal_ok_def CharToDigit_10)
  have b: "in_bounds tr (sign_of neg (c - 48))"
    using d neg ok by (auto simp: in_bounds_def sign_of_def decimal_ok_def)
  then have "Sign_Increment neg tr (c - 48) 0 = sign_of neg (c - 48)"
    using ok by (auto simp: Sign_Increment_def sign_of_def in_bounds_def decimal_ok_def)
  then show ?thesis
    using digit_loop_spec [OF ok rest d(1) b, of cs] ds(2) d(3) c ok
    by (simp add: Base_Invoke_def decimal_ok_def)
qed

lemma Number_Invoke_spec:
  assumes ok: "decimal_ok tr" and neg: "sg = [45] \<Longrightarrow> tr_min tr \<le> - 9"
    and ws: "\<And>c. c \<in> set ws \<Longrightarrow> LocalIsWhitespace c" and sg: "sg \<in> {[], [43], [45]}"
    and ds: "ds \<noteq> []" "\<And>c. c \<in> set ds \<Longrightarrow> is_digit c" and rest: "rest = [] \<or> \<not> is_digit (hd rest)"
  shows "Number_Invoke tr (ws @ sg @ ds @ rest) =
    (let v = sign_of (sg = [45]) (dec_value 0 ds) in (ws = [] \<and> rest = [] \<and> in_bounds tr v, clamp tr v))"
proof -
  obtain c cs where c: "ds = c # cs" "is_digit c" using ds by (cases ds) auto
  have "\<not> LocalIsWhitespace (hd (sg @ ds @ rest))" "sg @ ds @ rest \<noteq> []"
    using sg c by (auto simp: LocalIsWhitespace_def is_digit_def)
  then have dw: "dropWhile LocalIsWhitespace (ws @ sg @ ds @ rest) = sg @ ds @ rest"
    using ws by (simp add: dropWhile_append2 dropWhile_eq_self_iff)
  have v: "(sg @ ds @ rest = ws @ sg @ ds @ rest) = (ws = [])" by auto
  have cd: "c \<noteq> 43" "c \<noteq> 45" using c(2) by (auto simp: is_digit_def)
  consider "sg = []" | "sg = [43]" | "sg = [45]" using sg by auto
  then show ?thesis
  proof cases
    case 1
    then show ?thesis using Base_Invoke_spec [OF ok _ rest ds, of False] dw v c(1) cd
      by (simp add: Number_Invoke_def Let_def)
  next
    case 2
    then show ?thesis using Base_Invoke_spec [OF ok _ rest ds, of False] dw v
      by (simp add: Number_Invoke_def Let_def)
  next
    case 3
    then show ?thesis using Base_Invoke_spec [OF ok neg [OF 3] rest ds, of True] dw v
      by (simp add: Number_Invoke_def Let_def)
  qed
qed

section \<open>Round trips\<close>

lemma sign_of_abs: "sign_of (v < 0) \<bar>v\<bar> = v"
  by (simp add: sign_of_def)

lemma digits_of_value:
  assumes "decimal_ok tr" "v < 0 \<Longrightarrow> tr_min tr \<le> - 9" "in_bounds tr v"
  shows "Number_Invoke tr ((if v < 0 then [45] else []) @ digits10 (nat \<bar>v\<bar>)) = (True, v)"
proof -
  have sg: "(if v < 0 then [45] else []) \<in> {[], [43], [45::int]}" "((if v < 0 then [45] else []) = [45::int]) = (v < 0)"
    by simp_all
  have "clamp tr v = v" using assms(3) by (auto simp: clamp_def in_bounds_def)
  then show ?thesis
    using Number_Invoke_spec [OF assms(1), where ws = "[]" and sg = "if v < 0 then [45] else []"
      and ds = "digits10 (nat \<bar>v\<bar>)" and rest = "[]"] assms(2,3) sg
    by (simp add: digits10_value digits10_digits sign_of_abs Let_def)
qed

lemma signed_text:
  assumes "- (2 ^ (8 * bytes - 1)) \<le> v" "v < 2 ^ (8 * bytes - 1)" "0 < bytes" "2 ^ (8 * bytes) \<le> (10::nat) ^ k" "0 < k" "k + 2 \<le> 3 * bytes + 1"
  shows "IntToStringT bytes True v = Inr ((if v < 0 then [45] else []) @ digits10 (nat \<bar>v\<bar>))"
proof -
  have two: "(2::int) ^ (8 * bytes) = 2 * 2 ^ (8 * bytes - 1)" using assms(3) by (cases "8 * bytes") auto
  have "\<bar>v\<bar> < 2 ^ (8 * bytes)" unfolding two using assms(1,2) by auto
  then have u: "ToUnsigned bytes True v = nat \<bar>v\<bar>" by (auto simp: ToUnsigned_def)
  have "nat \<bar>v\<bar> < 2 ^ (8 * bytes)"
    using \<open>\<bar>v\<bar> < 2 ^ (8 * bytes)\<close> by (simp add: nat_less_iff)
  then have "nat \<bar>v\<bar> < 10 ^ k" using assms(4) by (rule less_le_trans)
  then show ?thesis using IntToStringT_digits [of bytes True v k] assms(5,6) by (simp add: u TestNeg_def)
qed

lemma unsigned_text:
  assumes "0 \<le> v" "v < 2 ^ (8 * bytes)" "2 ^ (8 * bytes) \<le> (10::nat) ^ k" "0 < k" "k + 2 \<le> 3 * bytes + 1"
  shows "IntToStringT bytes False v = Inr ((if v < 0 then [45] else []) @ digits10 (nat \<bar>v\<bar>))"
proof -
  have u: "ToUnsigned bytes False v = nat v" using assms(1,2) by (simp add: ToUnsigned_def)
  have "nat v < 2 ^ (8 * bytes)" using assms(1,2) by (simp add: nat_less_iff)
  then have "nat v < 10 ^ k" using assms(3) by (rule less_le_trans)
  then show ?thesis using IntToStringT_digits [of bytes False v k] assms(1,4,5) by (simp add: u TestNeg_def)
qed

text \<open>
  C13: every 32-bit and 64-bit integer, signed or not, is formatted without ever failing the
  debug checks on the bounds of the buffer, and parsing the text gives back the integer.
\<close>

theorem number_text_roundtrip:
  "(\<exists>s. IntToString (i :: 32 word) = Inr s \<and> StringToInt s = (True, sint i)) \<and>
   (\<exists>s. UintToString (u :: 32 word) = Inr s \<and> StringToUint s = (True, uint u)) \<and>
   (\<exists>s. Int64ToString (l :: 64 word) = Inr s \<and> StringToInt64 s = (True, sint l)) \<and>
   (\<exists>s. Uint64ToString (m :: 64 word) = Inr s \<and> StringToUint64 s = (True, uint m))"
proof -
  have i: "- (2 ^ 31) \<le> sint i" "sint i < 2 ^ 31" using sint_ge [of i] sint_lt [of i] by simp_all
  have l: "- (2 ^ 63) \<le> sint l" "sint l < 2 ^ 63" using sint_ge [of l] sint_lt [of l] by simp_all
  have u: "0 \<le> uint u" "uint u < 2 ^ 32" using uint_bounded [of u] by simp_all
  have m: "0 \<le> uint m" "uint m < 2 ^ 64" using uint_bounded [of m] by simp_all
  have "IntToString i = Inr ((if sint i < 0 then [45] else []) @ digits10 (nat \<bar>sint i\<bar>))"
    using signed_text [of 4 "sint i" 10] i by (simp add: IntToString_def)
  moreover have "Int64ToString l = Inr ((if sint l < 0 then [45] else []) @ digits10 (nat \<bar>sint l\<bar>))"
    using signed_text [of 8 "sint l" 20] l by (simp add: Int64ToString_def)
  moreover have "UintToString u = Inr ((if uint u < 0 then [45] else []) @ digits10 (nat \<bar>uint u\<bar>))"
    using unsigned_text [of "uint u" 4 10] u by (simp add: UintToString_def)
  moreover have "Uint64ToString m = Inr ((if uint m < 0 then [45] else []) @ digits10 (nat \<bar>uint m\<bar>))"
    using unsigned_text [of "uint m" 8 20] m by (simp add: Uint64ToString_def)
  moreover have "StringToInt ((if sint i < 0 then [45] else []) @ digits10 (nat \<bar>sint i\<bar>)) = (True, sint i)"
    unfolding StringToInt_def StringToIntImpl_def
    by (rule digits_of_value [OF decimal_traits(1)]) (use i in \<open>simp_all add: signed_traits_def in_bounds_def\<close>)
  moreover have "StringToInt64 ((if sint l < 0 then [45] else []) @ digits10 (nat \<bar>sint l\<bar>)) = (True, sint l)"
    unfolding StringToInt64_def StringToIntImpl_def
    by (rule digits_of_value [OF decimal_traits(3)]) (use l in \<open>simp_all add: signed_traits_def in_bounds_def\<close>)
  moreover have "StringToUint ((if uint u < 0 then [45] else []) @ digits10 (nat \<bar>uint u\<bar>)) = (True, uint u)"
    unfolding StringToUint_def StringToIntImpl_def
    by (rule digits_of_value [OF decimal_traits(2)]) (use u in \<open>simp_all add: unsigned_traits_def in_bounds_def\<close>)
  moreover have "StringToUint64 ((if uint m < 0 then [45] else []) @ digits10 (nat \<bar>uint m\<bar>)) = (True, uint m)"
    unfolding StringToUint64_def StringToIntImpl_def
    by (rule digits_of_value [OF decimal_traits(4)]) (use m in \<open>simp_all add: unsigned_traits_def in_bounds_def\<close>)
  ultimately show ?thesis by blast
qed

text \<open>
  C14: parsing is best effort.  On whitespace, an optional sign, decimal digits and a rest that is
  no digit, the value is the number clamped to the range of the type, and the result is true only
  if there was no whitespace, no rest and no overflow.  On underflow this is the smallest value of
  the type, where the comment in \<open>string_number_conversions.h\<close> promises the maximum.
\<close>

theorem string_to_int_best_effort:
  assumes "\<forall>c\<in>set ws. LocalIsWhitespace c" "sg \<in> {[], [43], [45]}" "ds \<noteq> []" "\<forall>c\<in>set ds. is_digit c"
    and "rest = [] \<or> \<not> is_digit (hd rest)"
  shows "StringToInt (ws @ sg @ ds @ rest) =
     (let v = sign_of (sg = [45]) (dec_value 0 ds) in
      (ws = [] \<and> rest = [] \<and> - (2 ^ 31) \<le> v \<and> v < 2 ^ 31, max (- (2 ^ 31)) (min (2 ^ 31 - 1) v))) \<and>
    StringToInt64 (ws @ sg @ ds @ rest) =
     (let v = sign_of (sg = [45]) (dec_value 0 ds) in
      (ws = [] \<and> rest = [] \<and> - (2 ^ 63) \<le> v \<and> v < 2 ^ 63, max (- (2 ^ 63)) (min (2 ^ 63 - 1) v)))"
proof -
  have "tr_min (signed_traits 32 10) \<le> -9" "tr_min (signed_traits 64 10) \<le> -9"
    by (simp_all add: signed_traits_def)
  note spec = Number_Invoke_spec [OF decimal_traits(1) this(1) _ assms(2,3) _ assms(5)]
    Number_Invoke_spec [OF decimal_traits(3) this(2) _ assms(2,3) _ assms(5)]
  show ?thesis
    unfolding StringToInt_def StringToInt64_def StringToIntImpl_def using spec assms(1,4)
    by (auto simp: Let_def in_bounds_def clamp_def signed_traits_def)
qed

theorem string_to_int_best_effort_witness:
  "StringToInt ([32] @ [45] @ [57, 57, 57, 57, 57, 57, 57, 57, 57, 57] @ [120]) = (False, - (2 ^ 31))"
  using string_to_int_best_effort [of "[32]" "[45]" "[57, 57, 57, 57, 57, 57, 57, 57, 57, 57]" "[120]"]
  by (simp add: LocalIsWhitespace_def is_digit_def sign_of_def Let_def)


section \<open>Hexadecimal bytes\<close>

lemma hex_digit_of_nibble: "n < 16 \<Longrightarrow> CharToDigit 16 (kHexChars ! n) = Some (int n)"
proof -
  assume "n < 16"
  then have "n \<in> set [0..<16]" by simp
  moreover have "\<forall>k\<in>set [0..<16]. CharToDigit 16 (kHexChars ! k) = Some (int k)" by code_simp
  ultimately show ?thesis by blast
qed

lemma nibble_bound: "unat (and (b :: 8 word) 15) < 16"
proof -
  have "and b 15 \<le> 15" by (rule word_and_le1)
  then show ?thesis by (simp add: word_le_nat_alt)
qed

lemma byte_of_nibble: "word_of_int (int (unat w)) = (w :: 8 word)"
  by simp

lemma nibbles_join: "or (push_bit 4 (and (drop_bit 4 b) 15)) (and b 15) = (b :: 8 word)"
proof -
  have m: "(15 :: 8 word) = mask 4" by (simp add: mask_eq_exp_minus_1)
  show ?thesis unfolding m by (rule bit_word_eqI) (auto simp: bit_simps)
qed

lemma HexEncode_Cons:
  "HexEncode (b # bs) = kHexChars ! unat (and (drop_bit 4 b) 15) # kHexChars ! unat (and b 15) # HexEncode bs"
  by (simp only: HexEncode_def list.map concat.simps append.simps)

lemma hex_loop_roundtrip: "hex_bytes_loop (HexEncode bs) out = (True, out @ bs)"
proof (induction bs arbitrary: out)
  case Nil
  show ?case by (simp add: HexEncode_def)
next
  case (Cons b bs)
  show ?case
    unfolding HexEncode_Cons hex_bytes_loop.simps hex_digit_of_nibble [OF nibble_bound] option.case
      byte_of_nibble nibbles_join Cons.IH by simp
qed

text \<open>
  Decoding the hexadecimal text of a non-empty byte array gives back the bytes.
\<close>

theorem hex_bytes_roundtrip: "bs \<noteq> [] \<Longrightarrow> HexStringToBytes (HexEncode bs) = (True, bs)"
proof -
  assume "bs \<noteq> []"
  moreover have "length (HexEncode bs) = 2 * length bs" by (induction bs) (auto simp: HexEncode_def)
  ultimately show ?thesis by (simp add: HexStringToBytes_def hex_loop_roundtrip)
qed

theorem hex_bytes_roundtrip_witness:
  "HexStringToBytes (HexEncode [0xAF, 1]) = (True, [0xAF, 1])"
  using hex_bytes_roundtrip [of "[0xAF, 1]"] by simp

lemma unsigned_accepts_negative:
  assumes "0 < d" "d \<le> 9"
  shows "StringToUint [45, 48 + d] = (True, 2 ^ 32 - d) \<and> StringToUint64 [45, 48 + d] = (True, 2 ^ 64 - d)"
proof -
  have "(0 - d) mod 2 ^ 32 = 2 ^ 32 - d" "(0 - d) mod 2 ^ 64 = 2 ^ 64 - d"
    using assms by (simp_all add: zmod_zminus1_eq_if)
  then show ?thesis using assms
    by (simp add: StringToUint_def StringToUint64_def StringToIntImpl_def Number_Invoke_def LocalIsWhitespace_def
      Base_Invoke_def unsigned_traits_def CharToDigit_def Sign_Increment_def wrap_unsigned_def)
qed

lemma hex_samples:
  "HexStringToInt (codes ''FFFFFFFF'') = (True, - 1)" "HexStringToInt (codes ''0x80000000'') = (True, - (2 ^ 31))"
  "HexStringToInt (codes ''100000000'') = (False, - 1)" "HexStringToInt (codes ''FFFFFFFFF'') = (True, - 1)"
  "HexStringToInt (codes ''8000000012345678'') = (True, 305419896)"
  by code_simp+

text \<open>
  Two overflow checks miss, although the header says the result is false when the number
  is out of range.  The unsigned parsers accept a minus sign and a digit that is not zero, and
  give the number wrapped around.  \<open>HexStringToInt\<close> compares the signed intermediate value,
  so after eight digits with the top bit set every further digit is accepted.
\<close>

theorem overflow_checks_missed:
  assumes "0 < d" "d \<le> 9"
  shows "StringToUint [45, 48 + d] = (True, 2 ^ 32 - d) \<and> StringToUint64 [45, 48 + d] = (True, 2 ^ 64 - d) \<and>
    HexStringToInt (codes ''FFFFFFFF'') = (True, - 1) \<and> HexStringToInt (codes ''100000000'') = (False, - 1) \<and>
    HexStringToInt (codes ''FFFFFFFFF'') = (True, - 1) \<and> HexStringToInt (codes ''8000000012345678'') = (True, 305419896)"
  using unsigned_accepts_negative [OF assms] hex_samples by blast

theorem overflow_checks_missed_witness: "StringToUint [45, 49] = (True, 4294967295)"
  using overflow_checks_missed [of 1] by simp

end
