(* ===== verification/PickleModel.thy ===== *)
theory PickleModel imports Prelude "HOL-Library.Word" begin

text \<open>
  \<open>base/pickle.h\<close> and \<open>base/pickle.cc\<close>: values packed into a buffer with a header.  The
  buffer is the list of bytes that \<open>header_\<close> points to, allocated bytes beyond the payload
  included; pointers into it are offsets; every access is checked against the allocation and
  fails with \<open>OutOfBounds\<close> outside it.  Integers are little endian, \<open>long\<close> and \<open>size_t\<close>
  have 64 bits, \<open>wchar_t\<close> has 32, as on the Linux the program is built for.  \<open>realloc\<close> is an
  argument: for a size it fails or gives the contents of the fresh bytes.
\<close>

type_synonym bytes = "8 word list"
type_synonym allocator = "nat \<Rightarrow> (nat \<Rightarrow> 8 word) option"

section \<open>Bytes\<close>

primrec le_bytes :: "nat \<Rightarrow> nat \<Rightarrow> bytes" where
  "le_bytes 0 n = []"
| "le_bytes (Suc k) n = word_of_nat (n mod 256) # le_bytes k (n div 256)"

primrec le_value :: "bytes \<Rightarrow> nat" where
  "le_value [] = 0"
| "le_value (b # bs) = unat b + 256 * le_value bs"

definition le_words :: "nat \<Rightarrow> nat \<Rightarrow> bytes \<Rightarrow> nat list" where
  "le_words k n bs = map (\<lambda>i. le_value (take k (drop (k * i) bs))) [0..<n]"

definition peek :: "bytes \<Rightarrow> nat \<Rightarrow> nat \<Rightarrow> bytes res" where
  "peek buf off n = (if off + n \<le> length buf then Inr (take n (drop off buf)) else Inl (OutOfBounds ''read''))"

definition poke :: "bytes \<Rightarrow> nat \<Rightarrow> bytes \<Rightarrow> bytes res" where
  "poke buf off d =
     (if off + length d \<le> length buf then Inr (take off buf @ d @ drop (off + length d) buf)
      else Inl (OutOfBounds ''write''))"

definition to_int32 :: "nat \<Rightarrow> int" where
  "to_int32 n = sint (word_of_nat n :: 32 word)"

definition to_size_t :: "int \<Rightarrow> nat" where
  "to_size_t n = nat (n mod 2 ^ 64)"

definition AlignInt :: "nat \<Rightarrow> nat \<Rightarrow> nat" where
  "AlignInt i alignment = (i + (alignment - i mod alignment) mod alignment) mod 2 ^ 64"

section \<open>Pickle\<close>

record pickle =
  p_header :: "bytes option"
  p_header_size :: nat
  p_capacity :: nat
  p_variable_buffer_offset :: nat

definition kPayloadUnit :: nat where "kPayloadUnit = 64"

definition kCapacityReadOnly :: nat where "kCapacityReadOnly = 2 ^ 64 - 1"

definition header_bytes :: "pickle \<Rightarrow> bytes res" where
  "header_bytes p = (case p_header p of None \<Rightarrow> Inl (NullDeref ''header_'') | Some b \<Rightarrow> Inr b)"

definition payload_size :: "pickle \<Rightarrow> nat res" where
  "payload_size p = bindR (header_bytes p) (\<lambda>b. bindR (peek b 0 4) (\<lambda>x. Inr (le_value x)))"

definition set_bytes :: "nat \<Rightarrow> bytes \<Rightarrow> pickle \<Rightarrow> pickle res" where
  "set_bytes off d p = bindR (header_bytes p) (\<lambda>b. bindR (poke b off d) (\<lambda>b'. Inr (p\<lparr>p_header := Some b'\<rparr>)))"

definition set_payload_size :: "nat \<Rightarrow> pickle \<Rightarrow> pickle res" where
  "set_payload_size n = set_bytes 0 (le_bytes 4 n)"

definition pickle_size :: "pickle \<Rightarrow> nat res" where
  "pickle_size p = bindR (payload_size p) (\<lambda>n. Inr (p_header_size p + n))"

definition realloc_bytes :: "bytes option \<Rightarrow> nat \<Rightarrow> (nat \<Rightarrow> 8 word) \<Rightarrow> bytes" where
  "realloc_bytes old n junk =
     (let b = (case old of None \<Rightarrow> [] | Some b \<Rightarrow> b) in take n b @ map junk [length b..<n])"

definition Resize :: "allocator \<Rightarrow> nat \<Rightarrow> pickle \<Rightarrow> (bool \<times> pickle) res" where
  "Resize mem new_capacity p =
     (let cap = AlignInt new_capacity kPayloadUnit in
      bindR (dcheck (p_capacity p \<noteq> kCapacityReadOnly) ''capacity_ != kCapacityReadOnly'') (\<lambda>_.
        case mem cap of None \<Rightarrow> Inr (False, p)
        | Some junk \<Rightarrow> Inr (True, p\<lparr>p_header := Some (realloc_bytes (p_header p) cap junk), p_capacity := cap\<rparr>)))"

definition Pickle_default :: "allocator \<Rightarrow> pickle res" where
  "Pickle_default mem =
     bindR (Resize mem kPayloadUnit \<lparr>p_header = None, p_header_size = 4, p_capacity = 0, p_variable_buffer_offset = 0\<rparr>)
       (\<lambda>(_, p). set_payload_size 0 p)"

definition Pickle_header :: "allocator \<Rightarrow> int \<Rightarrow> pickle res" where
  "Pickle_header mem header_size =
     bindR (dcheck (4 \<le> to_size_t header_size) ''header_size >= sizeof(Header)'') (\<lambda>_.
     bindR (dcheck (header_size \<le> int kPayloadUnit) ''header_size <= kPayloadUnit'') (\<lambda>_.
     bindR (Resize mem kPayloadUnit
         \<lparr>p_header = None, p_header_size = AlignInt (to_size_t header_size) 4, p_capacity = 0, p_variable_buffer_offset = 0\<rparr>)
       (\<lambda>(_, p). set_payload_size 0 p)))"

text \<open>The constructor from a block of data; \<open>int - uint32\<close> is computed with 32 bits.\<close>

definition Pickle_data :: "bytes \<Rightarrow> pickle" where
  "Pickle_data data =
     (let data_len = length data;
          hs0 = (if 4 \<le> data_len then nat ((int data_len - int (le_value (take 4 data))) mod 2 ^ 32) else 0);
          hs1 = (if hs0 > data_len then 0 else hs0);
          hs2 = (if hs1 \<noteq> AlignInt hs1 4 then 0 else hs1)
      in \<lparr>p_header = (if hs2 = 0 then None else Some data), p_header_size = hs2, p_capacity = kCapacityReadOnly,
          p_variable_buffer_offset = 0\<rparr>)"

definition Pickle_copy :: "allocator \<Rightarrow> pickle \<Rightarrow> pickle res" where
  "Pickle_copy mem other =
     bindR (pickle_size other) (\<lambda>n.
     bindR (Resize mem n \<lparr>p_header = None, p_header_size = p_header_size other, p_capacity = 0,
         p_variable_buffer_offset = p_variable_buffer_offset other\<rparr>) (\<lambda>(resized, p).
     bindR (dcheck resized ''resized'') (\<lambda>_.
     bindR (header_bytes other) (\<lambda>b.
     bindR (peek b 0 n) (\<lambda>d. set_bytes 0 d p)))))"

text \<open>The argument \<open>same\<close> says whether \<open>this\<close> is the address of \<open>other\<close>.\<close>

definition Pickle_assign :: "allocator \<Rightarrow> bool \<Rightarrow> pickle \<Rightarrow> pickle \<Rightarrow> pickle res" where
  "Pickle_assign mem same p other =
     (if same then Inl (NotReached ''operator='')
      else
        let p1 = (if p_capacity p = kCapacityReadOnly then p\<lparr>p_header := None, p_capacity := 0\<rparr> else p);
            p2 = (if p_header_size p1 \<noteq> p_header_size other
                  then p1\<lparr>p_header := None, p_header_size := p_header_size other\<rparr> else p1)
        in bindR (pickle_size other) (\<lambda>n.
           bindR (Resize mem n p2) (\<lambda>(resized, p3).
           bindR (dcheck resized ''resized'') (\<lambda>_.
           bindR (header_bytes other) (\<lambda>b.
           bindR (peek b 0 n) (\<lambda>d.
           bindR (set_bytes 0 d p3) (\<lambda>p4.
             Inr (p4\<lparr>p_variable_buffer_offset := p_variable_buffer_offset other\<rparr>))))))))"

section \<open>Writing\<close>

text \<open>\<open>BeginWrite\<close> returns the offset of the bytes to write from \<open>header_\<close>, or NULL.\<close>

definition BeginWrite :: "allocator \<Rightarrow> nat \<Rightarrow> pickle \<Rightarrow> (nat ptr \<times> pickle) res" where
  "BeginWrite mem len p =
     bindR (payload_size p) (\<lambda>n.
       let off = AlignInt n 4; new_size = (off + len) mod 2 ^ 64; needed_size = (p_header_size p + new_size) mod 2 ^ 64 in
       bindR (if needed_size > p_capacity p then Resize mem (max (p_capacity p * 2 mod 2 ^ 64) needed_size) p else Inr (True, p))
         (\<lambda>(ok, p1).
           if \<not> ok then Inr (None, p1)
           else bindR (dcheck (len \<le> 2 ^ 32 - 1) ''length <= kuint32max'') (\<lambda>_.
             bindR (set_payload_size (new_size mod 2 ^ 32) p1) (\<lambda>p2. Inr (Some (p_header_size p2 + off), p2)))))"

definition EndWrite :: "nat \<Rightarrow> int \<Rightarrow> pickle \<Rightarrow> pickle res" where
  "EndWrite dest len p =
     (let r = to_size_t len mod 4 in
      if r \<noteq> 0 then set_bytes (dest + to_size_t len) (replicate (4 - r) 0) p else Inr p)"

definition WriteBytes :: "allocator \<Rightarrow> bytes \<Rightarrow> int \<Rightarrow> pickle \<Rightarrow> (bool \<times> pickle) res" where
  "WriteBytes mem data data_len p =
     bindR (dcheck (kCapacityReadOnly \<noteq> p_capacity p) ''oops: pickle is readonly'') (\<lambda>_.
     bindR (BeginWrite mem (to_size_t data_len) p) (\<lambda>(dest, p1).
       case dest of None \<Rightarrow> Inr (False, p1)
       | Some dst \<Rightarrow>
           bindR (peek data 0 (to_size_t data_len)) (\<lambda>d.
           bindR (set_bytes dst d p1) (\<lambda>p2.
           bindR (EndWrite dst data_len p2) (\<lambda>p3. Inr (True, p3))))))"

definition WriteInt :: "allocator \<Rightarrow> 32 word \<Rightarrow> pickle \<Rightarrow> (bool \<times> pickle) res" where
  "WriteInt mem value = WriteBytes mem (le_bytes 4 (unat value)) 4"

definition WriteBool :: "allocator \<Rightarrow> bool \<Rightarrow> pickle \<Rightarrow> (bool \<times> pickle) res" where
  "WriteBool mem value = WriteInt mem (if value then 1 else 0)"

definition WriteLongUsingDangerousNonPortableLessPersistableForm :: "allocator \<Rightarrow> 64 word \<Rightarrow> pickle \<Rightarrow> (bool \<times> pickle) res" where
  "WriteLongUsingDangerousNonPortableLessPersistableForm mem value = WriteBytes mem (le_bytes 8 (unat value)) 8"

definition WriteUInt16 :: "allocator \<Rightarrow> 16 word \<Rightarrow> pickle \<Rightarrow> (bool \<times> pickle) res" where
  "WriteUInt16 mem value = WriteBytes mem (le_bytes 2 (unat value)) 2"

definition WriteUInt32 :: "allocator \<Rightarrow> 32 word \<Rightarrow> pickle \<Rightarrow> (bool \<times> pickle) res" where
  "WriteUInt32 mem value = WriteBytes mem (le_bytes 4 (unat value)) 4"

definition WriteInt64 :: "allocator \<Rightarrow> 64 word \<Rightarrow> pickle \<Rightarrow> (bool \<times> pickle) res" where
  "WriteInt64 mem value = WriteBytes mem (le_bytes 8 (unat value)) 8"

definition WriteUInt64 :: "allocator \<Rightarrow> 64 word \<Rightarrow> pickle \<Rightarrow> (bool \<times> pickle) res" where
  "WriteUInt64 mem value = WriteBytes mem (le_bytes 8 (unat value)) 8"

text \<open>\<open>if (!WriteInt(n)) return false; return WriteBytes(data, len);\<close>\<close>

definition write_sized :: "allocator \<Rightarrow> 32 word \<Rightarrow> bytes \<Rightarrow> int \<Rightarrow> pickle \<Rightarrow> (bool \<times> pickle) res" where
  "write_sized mem n data len p =
     bindR (WriteInt mem n p) (\<lambda>(ok, p1). if \<not> ok then Inr (False, p1) else WriteBytes mem data len p1)"

definition WriteString :: "allocator \<Rightarrow> bytes \<Rightarrow> pickle \<Rightarrow> (bool \<times> pickle) res" where
  "WriteString mem value = write_sized mem (word_of_nat (length value)) value (to_int32 (length value))"

definition WriteWString :: "allocator \<Rightarrow> 32 word list \<Rightarrow> pickle \<Rightarrow> (bool \<times> pickle) res" where
  "WriteWString mem value =
     write_sized mem (word_of_nat (length value)) (concat (map (\<lambda>w. le_bytes 4 (unat w)) value)) (to_int32 (length value * 4))"

definition WriteString16 :: "allocator \<Rightarrow> 16 word list \<Rightarrow> pickle \<Rightarrow> (bool \<times> pickle) res" where
  "WriteString16 mem value =
     write_sized mem (word_of_nat (length value)) (concat (map (\<lambda>w. le_bytes 2 (unat w)) value))
       (to_int32 (to_size_t (to_int32 (length value)) * 2))"

definition WriteData :: "allocator \<Rightarrow> bytes \<Rightarrow> int \<Rightarrow> pickle \<Rightarrow> (bool \<times> pickle) res" where
  "WriteData mem data len p =
     (if len < 0 then Inr (False, p) else write_sized mem (word_of_int len) data len p)"

definition BeginWriteData :: "allocator \<Rightarrow> int \<Rightarrow> pickle \<Rightarrow> (nat ptr \<times> pickle) res" where
  "BeginWriteData mem len p =
     bindR (dcheck (p_variable_buffer_offset p = 0) ''There can only be one variable buffer in a Pickle'') (\<lambda>_.
     if len < 0 then Inr (None, p)
     else bindR (WriteInt mem (word_of_int len) p) (\<lambda>(ok, p1).
       if \<not> ok then Inr (None, p1)
       else bindR (BeginWrite mem (to_size_t len) p1) (\<lambda>(data_ptr, p2).
         case data_ptr of None \<Rightarrow> Inr (None, p2)
         | Some d \<Rightarrow> bindR (EndWrite d len (p2\<lparr>p_variable_buffer_offset := d - 4\<rparr>)) (\<lambda>p3. Inr (Some d, p3)))))"

definition TrimWriteData :: "int \<Rightarrow> pickle \<Rightarrow> pickle res" where
  "TrimWriteData new_length p =
     bindR (dcheck (p_variable_buffer_offset p \<noteq> 0) ''variable_buffer_offset_ != 0'') (\<lambda>_.
     bindR (header_bytes p) (\<lambda>b.
     bindR (peek b (p_variable_buffer_offset p) 4) (\<lambda>x.
       let cur_length = sint (word_of_nat (le_value x) :: 32 word) in
       if new_length < 0 \<or> new_length > cur_length then Inl (NotReached ''Invalid length in TrimWriteData.'')
       else bindR (payload_size p) (\<lambda>n.
         bindR (set_payload_size (nat ((int n - (cur_length - new_length)) mod 2 ^ 32)) p) (\<lambda>p1.
           set_bytes (p_variable_buffer_offset p) (le_bytes 4 (nat (new_length mod 2 ^ 32))) p1)))))"

section \<open>PickleIterator\<close>

record pickle_iterator =
  it_buffer :: bytes  \<comment> \<open>the block both pointers point into\<close>
  it_read_ptr :: nat
  it_read_end_ptr :: nat

definition PickleIterator :: "pickle \<Rightarrow> pickle_iterator res" where
  "PickleIterator p =
     (case p_header p of
        None \<Rightarrow> Inr \<lparr>it_buffer = [], it_read_ptr = p_header_size p, it_read_end_ptr = 0\<rparr>
      | Some b \<Rightarrow> bindR (payload_size p) (\<lambda>n.
          Inr \<lparr>it_buffer = b, it_read_ptr = p_header_size p, it_read_end_ptr = p_header_size p + n\<rparr>))"

text \<open>
  The pointers are positions in the block.  A payload stands behind its header, so position 0 is only reached when the
  pickle has no header, and is \<open>NULL\<close> then, which callers take for a failure.
\<close>

definition current_read_ptr :: "pickle_iterator \<Rightarrow> nat ptr" where
  "current_read_ptr it = (if it_read_ptr it = 0 then None else Some (it_read_ptr it))"

definition GetReadPointerAndAdvance_type :: "nat \<Rightarrow> pickle_iterator \<Rightarrow> nat ptr \<times> pickle_iterator" where
  "GetReadPointerAndAdvance_type sz it =
     (if it_read_ptr it + sz > it_read_end_ptr it then (None, it)
      else (current_read_ptr it, it\<lparr>it_read_ptr := it_read_ptr it + (if sz < 4 then AlignInt sz 4 else sz)\<rparr>))"

definition GetReadPointerAndAdvance :: "int \<Rightarrow> pickle_iterator \<Rightarrow> nat ptr \<times> pickle_iterator" where
  "GetReadPointerAndAdvance num_bytes it =
     (if num_bytes < 0 \<or> int (it_read_end_ptr it) - int (it_read_ptr it) < num_bytes then (None, it)
      else (current_read_ptr it, it\<lparr>it_read_ptr := it_read_ptr it + AlignInt (to_size_t num_bytes) 4\<rparr>))"

definition GetReadPointerAndAdvance_elements :: "int \<Rightarrow> nat \<Rightarrow> pickle_iterator \<Rightarrow> nat ptr \<times> pickle_iterator" where
  "GetReadPointerAndAdvance_elements num_elements size_element it =
     (let num_bytes = sint (word_of_int (num_elements * int size_element) :: 64 word);
          num_bytes32 = sint (word_of_int num_bytes :: 32 word)
      in if num_bytes \<noteq> num_bytes32 then (None, it) else GetReadPointerAndAdvance num_bytes32 it)"

definition ReadBuiltinType :: "nat \<Rightarrow> pickle_iterator \<Rightarrow> (nat option \<times> pickle_iterator) res" where
  "ReadBuiltinType sz it =
     (case GetReadPointerAndAdvance_type sz it of
        (None, it1) \<Rightarrow> Inr (None, it1)
      | (Some read_from, it1) \<Rightarrow> bindR (peek (it_buffer it) read_from sz) (\<lambda>bs. Inr (Some (le_value bs), it1)))"

definition map_read :: "('a \<Rightarrow> 'b) \<Rightarrow> ('a option \<times> pickle_iterator) res \<Rightarrow> ('b option \<times> pickle_iterator) res" where
  "map_read f m = bindR m (\<lambda>(r, it). Inr (map_option f r, it))"

definition ReadBool :: "pickle_iterator \<Rightarrow> (bool option \<times> pickle_iterator) res" where
  "ReadBool it = map_read (\<lambda>n. n \<noteq> 0) (ReadBuiltinType 1 it)"

definition ReadInt :: "pickle_iterator \<Rightarrow> (32 word option \<times> pickle_iterator) res" where
  "ReadInt it = map_read word_of_nat (ReadBuiltinType 4 it)"

definition ReadLong :: "pickle_iterator \<Rightarrow> (64 word option \<times> pickle_iterator) res" where
  "ReadLong it = map_read word_of_nat (ReadBuiltinType 8 it)"

definition ReadUInt16 :: "pickle_iterator \<Rightarrow> (16 word option \<times> pickle_iterator) res" where
  "ReadUInt16 it = map_read word_of_nat (ReadBuiltinType 2 it)"

definition ReadUInt32 :: "pickle_iterator \<Rightarrow> (32 word option \<times> pickle_iterator) res" where
  "ReadUInt32 it = map_read word_of_nat (ReadBuiltinType 4 it)"

definition ReadInt64 :: "pickle_iterator \<Rightarrow> (64 word option \<times> pickle_iterator) res" where
  "ReadInt64 it = map_read word_of_nat (ReadBuiltinType 8 it)"

definition ReadUInt64 :: "pickle_iterator \<Rightarrow> (64 word option \<times> pickle_iterator) res" where
  "ReadUInt64 it = map_read word_of_nat (ReadBuiltinType 8 it)"

text \<open>The bytes that \<open>read_from\<close> points to, for a reader that then uses \<open>n\<close> of them.\<close>

definition read_block :: "nat ptr \<times> pickle_iterator \<Rightarrow> nat \<Rightarrow> (bytes option \<times> pickle_iterator) res" where
  "read_block r n =
     (case r of (None, it) \<Rightarrow> Inr (None, it)
      | (Some read_from, it) \<Rightarrow> bindR (peek (it_buffer it) read_from n) (\<lambda>bs. Inr (Some bs, it)))"

definition ReadBytes :: "int \<Rightarrow> pickle_iterator \<Rightarrow> (bytes option \<times> pickle_iterator) res" where
  "ReadBytes len it = read_block (GetReadPointerAndAdvance len it) (nat len)"

definition read_sized :: "(int \<Rightarrow> pickle_iterator \<Rightarrow> ('a option \<times> pickle_iterator) res) \<Rightarrow> pickle_iterator \<Rightarrow>
    ('a option \<times> pickle_iterator) res" where
  "read_sized rd it =
     bindR (ReadInt it) (\<lambda>(r, it1). case r of None \<Rightarrow> Inr (None, it1) | Some len \<Rightarrow> rd (sint len) it1)"

definition ReadString :: "pickle_iterator \<Rightarrow> (bytes option \<times> pickle_iterator) res" where
  "ReadString = read_sized (\<lambda>len it. read_block (GetReadPointerAndAdvance len it) (nat len))"

definition ReadWString :: "pickle_iterator \<Rightarrow> (32 word list option \<times> pickle_iterator) res" where
  "ReadWString = read_sized (\<lambda>len it.
     map_read (\<lambda>bs. map word_of_nat (le_words 4 (nat len) bs))
       (read_block (GetReadPointerAndAdvance_elements len 4 it) (4 * nat len)))"

definition ReadString16 :: "pickle_iterator \<Rightarrow> (16 word list option \<times> pickle_iterator) res" where
  "ReadString16 = read_sized (\<lambda>len it.
     map_read (\<lambda>bs. map word_of_nat (le_words 2 (nat len) bs))
       (read_block (GetReadPointerAndAdvance_elements len 2 it) (2 * nat len)))"

definition ReadData :: "pickle_iterator \<Rightarrow> (bytes option \<times> pickle_iterator) res" where
  "ReadData = read_sized ReadBytes"

definition ReadLength :: "pickle_iterator \<Rightarrow> (32 word option \<times> pickle_iterator) res" where
  "ReadLength it = bindR (ReadInt it) (\<lambda>(r, it1).
     Inr (case r of None \<Rightarrow> None | Some n \<Rightarrow> if sint n \<ge> 0 then Some n else None, it1))"

definition SkipBytes :: "int \<Rightarrow> pickle_iterator \<Rightarrow> bool \<times> pickle_iterator" where
  "SkipBytes num_bytes it = (case GetReadPointerAndAdvance num_bytes it of (r, it1) \<Rightarrow> (r \<noteq> None, it1))"

section \<open>FindNext\<close>

text \<open>The range starts at the address \<open>start\<close>; the result is the address after the pickle.\<close>

definition FindNext :: "nat \<Rightarrow> nat \<Rightarrow> bytes \<Rightarrow> nat ptr res" where
  "FindNext header_size start blk =
     bindR (dcheck (header_size = AlignInt header_size 4) ''header_size == AlignInt(header_size)'') (\<lambda>_.
     bindR (dcheck (header_size \<le> kPayloadUnit) ''header_size <= kPayloadUnit'') (\<lambda>_.
       let range_end = start + length blk in
       if length blk < 4 then Inr None
       else
         let payload_base = (start + header_size) mod 2 ^ 64;
             payload_end = (payload_base + le_value (take 4 blk)) mod 2 ^ 64
         in Inr (if payload_end < payload_base then None
                 else if payload_end > range_end then None else Some payload_end)))"

end
