(* ===== verification/Pickles.thy ===== *)
theory Pickles imports PickleModel begin

text \<open>
  Correctness of the pickle: what each write appends to the payload and that it stays inside the
  allocation, that reading an untrusted block never leaves it, that values written are read
  back in order, and how \<open>FindNext\<close> splits a stream.
\<close>

named_theorems pickle_simps

section \<open>Bytes and alignment\<close>

lemma length_le_bytes [simp]: "length (le_bytes k n) = k"
  by (induction k arbitrary: n) auto

lemma le_value_le_bytes: "le_value (le_bytes k n) = n mod 256 ^ k"
proof (induction k arbitrary: n)
  case (Suc k)
  have "n mod (256 * 256 ^ k) = n mod 256 + 256 * (n div 256 mod 256 ^ k)"
    by (simp add: mod_mult2_eq)
  moreover have "unat (word_of_nat (n mod 256) :: 8 word) = n mod 256"
    by (simp add: unsigned_of_nat take_bit_eq_mod)
  ultimately show ?case by (simp add: Suc)
qed simp

lemma le_value_bound: "le_value bs < 256 ^ length bs"
proof (induction bs)
  case (Cons b bs)
  have "unat b < 256" using unsigned_less [of b] by simp
  with Cons show ?case by simp
qed simp

definition padlen :: "nat \<Rightarrow> nat" where
  "padlen n = (4 - n mod 4) mod 4"

definition al4 :: "nat \<Rightarrow> nat" where
  "al4 n = n + padlen n"

lemma round_up:
  fixes n a :: nat
  assumes "0 < a"
  shows "a dvd n + (a - n mod a) mod a" "(a - n mod a) mod a < a"
proof -
  show "(a - n mod a) mod a < a" using assms by simp
  show "a dvd n + (a - n mod a) mod a"
  proof (cases "n mod a = 0")
    case False
    then have "(a - n mod a) mod a = a - n mod a" by (intro mod_less) (use assms in simp)
    moreover have "n + (a - n mod a) = n div a * a + a"
      using assms by (metis add.assoc div_mult_mod_eq le_add_diff_inverse less_imp_le mod_less_divisor)
    ultimately show ?thesis by simp
  qed auto
qed

lemma al4_bounds: "n \<le> al4 n" "al4 n < n + 4" "4 dvd al4 n"
  using round_up [of 4 n] by (simp_all add: al4_def padlen_def)

lemma AlignInt_4: "n + 4 \<le> 2 ^ 64 \<Longrightarrow> AlignInt n 4 = al4 n"
  using al4_bounds [of n] by (simp add: AlignInt_def al4_def padlen_def)

lemma al4_least: "n \<le> m \<Longrightarrow> 4 dvd m \<Longrightarrow> al4 n \<le> m"
proof -
  assume m: "n \<le> m" "4 dvd m"
  obtain j k where "al4 n = 4 * j" "m = 4 * k" using al4_bounds(3) [of n] m(2) by (auto elim!: dvdE)
  with m(1) al4_bounds(2) [of n] show "al4 n \<le> m" by presburger
qed

lemma padlen_al4: "padlen (al4 n + k) = padlen k"
proof -
  obtain m where "al4 n = 4 * m" using al4_bounds(3) [of n] by (auto elim: dvdE)
  then have "(al4 n + k) mod 4 = k mod 4" by simp
  then show ?thesis by (simp only: padlen_def)
qed

lemma AlignInt_64:
  assumes "n < 2 ^ 40"
  shows "64 dvd AlignInt n 64" "n \<le> AlignInt n 64" "AlignInt n 64 < n + 64"
proof -
  have "AlignInt n 64 = n + (64 - n mod 64) mod 64"
    using assms round_up(2) [of 64 n] by (simp add: AlignInt_def)
  then show "64 dvd AlignInt n 64" "n \<le> AlignInt n 64" "AlignInt n 64 < n + 64"
    using round_up [of 64 n] by simp_all
qed

lemma poke_middle: "length b = length d \<Longrightarrow> off = length a \<Longrightarrow> poke (a @ b @ c) off d = Inr (a @ d @ c)"
  by (simp add: poke_def)

lemma peek_middle: "off = length a \<Longrightarrow> n = length b \<Longrightarrow> peek (a @ b @ c) off n = Inr b"
  by (simp add: peek_def)

lemma peek_ok: "off + n \<le> length buf \<Longrightarrow> peek buf off n = Inr (take n (drop off buf))"
  by (simp add: peek_def)

section \<open>What a pickle holds\<close>

text \<open>
  \<open>holds p extra pl\<close>: the buffer has the size field, the \<open>extra\<close> bytes of the header, the payload
  \<open>pl\<close>, zeros up to the next multiple of four, and spare room; it fills the capacity exactly.
\<close>

definition holds :: "pickle \<Rightarrow> bytes \<Rightarrow> bytes \<Rightarrow> bool" where
  "holds p extra pl \<longleftrightarrow> (\<exists>spare.
     p_header p = Some (le_bytes 4 (length pl) @ extra @ pl @ replicate (padlen (length pl)) 0 @ spare) \<and>
     p_header_size p = 4 + length extra \<and> 4 dvd length extra \<and> length extra \<le> 64 \<and> length pl < 2 ^ 32 \<and>
     p_capacity p = 4 + length extra + al4 (length pl) + length spare \<and> 64 dvd p_capacity p \<and> p_capacity p < 2 ^ 35)"

lemma holds_payload_size: "holds p extra pl \<Longrightarrow> payload_size p = Inr (length pl)"
  by (auto simp: holds_def payload_size_def header_bytes_def peek_def le_value_le_bytes)

lemma holds_not_readonly: "holds p extra pl \<Longrightarrow> p_capacity p \<noteq> kCapacityReadOnly"
  by (auto simp: holds_def kCapacityReadOnly_def)

definition append4 :: "bytes \<Rightarrow> bytes \<Rightarrow> bytes" where
  "append4 pl d = pl @ replicate (padlen (length pl)) 0 @ d"

lemma length_append4 [simp]: "length (append4 pl d) = al4 (length pl) + length d"
  by (simp add: append4_def al4_def)

text \<open>After \<open>BeginWrite\<close> the size field is already that of the longer payload.\<close>

lemma BeginWrite_cases:
  assumes h: "holds p extra pl" and fits: "al4 (length pl) + n < 2 ^ 32"
  obtains (fail) "BeginWrite mem n p = Inr (None, p)" "\<exists>c. mem c = None"
  | (room) p' block spare where "BeginWrite mem n p = Inr (Some (4 + length extra + al4 (length pl)), p')"
      "p_header p' = Some (le_bytes 4 (al4 (length pl) + n) @ extra @ pl @ replicate (padlen (length pl)) 0 @ block @ spare)"
      "length block = al4 n" "p_header_size p' = 4 + length extra"
      "p_capacity p' = 4 + length extra + al4 (length pl) + al4 n + length spare"
      "64 dvd p_capacity p'" "p_capacity p' < 2 ^ 35"
      "p_variable_buffer_offset p' = p_variable_buffer_offset p"
proof -
  obtain spare where b: "p_header p = Some (le_bytes 4 (length pl) @ extra @ pl @ replicate (padlen (length pl)) 0 @ spare)"
    and hs: "p_header_size p = 4 + length extra" "4 dvd length extra" "length extra \<le> 64" "length pl < 2 ^ 32"
    and cap: "p_capacity p = 4 + length extra + al4 (length pl) + length spare" "64 dvd p_capacity p" "p_capacity p < 2 ^ 35"
    using h by (auto simp: holds_def)
  define need where "need = 4 + length extra + (al4 (length pl) + n)"
  have need: "need < 2 ^ 33" using hs(3) fits by (simp add: need_def)
  have off: "AlignInt (length pl) 4 = al4 (length pl)" by (rule AlignInt_4) (use hs(4) in simp)
  define grown where "grown = AlignInt (max (p_capacity p * 2) need) 64"
  have BW: "BeginWrite mem n p =
    bindR (if need > p_capacity p then Resize mem (max (p_capacity p * 2) need) p else Inr (True, p))
         (\<lambda>(ok, p1).
           if \<not> ok then Inr (None, p1)
           else bindR (set_payload_size (al4 (length pl) + n) p1) (\<lambda>p2. Inr (Some (p_header_size p2 + al4 (length pl)), p2)))"
    unfolding BeginWrite_def holds_payload_size [OF h] bindR_Inr off Let_def hs(1)
    using fits need cap(3) by (simp add: need_def cong: if_cong)
  have enlarge: thesis if p1: "p_header p1 = Some (le_bytes 4 (length pl) @ extra @ pl @ replicate (padlen (length pl)) 0 @ s1)"
      "p_capacity p1 = 4 + length extra + al4 (length pl) + length s1" "64 dvd p_capacity p1" "p_capacity p1 < 2 ^ 35"
      "p_header_size p1 = 4 + length extra" "p_variable_buffer_offset p1 = p_variable_buffer_offset p"
      and enough: "need \<le> p_capacity p1"
      and R: "(if need > p_capacity p then Resize mem (max (p_capacity p * 2) need) p else Inr (True, p)) = Inr (True, p1)"
    for p1 s1
  proof -
    have "n \<le> length s1" using enough p1(2) by (simp add: need_def)
    moreover have "4 dvd 4 + length extra + al4 (length pl) + length s1"
      using dvd_trans [of 4 64 "p_capacity p1"] p1(2,3) by simp
    then have "4 dvd length s1"
      using hs(2) al4_bounds(3) [of "length pl"] by (metis dvd_add_right_iff dvd_refl)
    ultimately have "al4 n \<le> length s1" by (rule al4_least)
    then have s1: "s1 = take (al4 n) s1 @ drop (al4 n) s1" "length (take (al4 n) s1) = al4 n" by simp_all
    let ?p' = "p1\<lparr>p_header := Some (le_bytes 4 (al4 (length pl) + n) @ extra @ pl @ replicate (padlen (length pl)) 0 @
      take (al4 n) s1 @ drop (al4 n) s1)\<rparr>"
    have "set_payload_size (al4 (length pl) + n) p1 = Inr ?p'"
      unfolding set_payload_size_def set_bytes_def header_bytes_def p1(1)
      using poke_middle [of "le_bytes 4 (length pl)" "le_bytes 4 (al4 (length pl) + n)" 0 "[]"] by simp
    then have BW': "BeginWrite mem n p = Inr (Some (4 + length extra + al4 (length pl)), ?p')"
      by (simp add: BW R p1(5))
    show thesis
      by (rule room [OF BW', where block = "take (al4 n) s1" and spare = "drop (al4 n) s1"]) (use p1 \<open>al4 n \<le> length s1\<close> in simp_all)
  qed
  show thesis
  proof (cases "need > p_capacity p")
    case False
    then show thesis using enlarge [OF b cap hs(1) refl] by simp
  next
    case True
    have g: "max (p_capacity p * 2) need < 2 ^ 34" using True need by simp
    then have al: "64 dvd grown" "max (p_capacity p * 2) need \<le> grown" "grown < max (p_capacity p * 2) need + 64"
      using AlignInt_64 [of "max (p_capacity p * 2) need"] unfolding grown_def by auto
    have "grown < 2 ^ 34 + 64" using al(3) g by linarith
    then have "grown < 2 ^ 35" by simp
    with al have gr: "64 dvd grown" "need \<le> grown" "p_capacity p \<le> grown" "grown < 2 ^ 35" by auto
    have len: "length (le_bytes 4 (length pl) @ extra @ pl @ replicate (padlen (length pl)) 0 @ spare) = p_capacity p"
      by (simp add: cap(1) al4_def)
    show thesis
    proof (cases "mem grown")
      case None
      then have "Resize mem (max (p_capacity p * 2) need) p = Inr (False, p)"
        using holds_not_readonly [OF h] by (simp add: Resize_def Let_def grown_def kPayloadUnit_def)
      then show thesis using fail True None by (auto simp: BW)
    next
      case (Some junk)
      let ?s1 = "spare @ map junk [p_capacity p..<grown]"
      let ?p1 = "p\<lparr>p_header := Some (le_bytes 4 (length pl) @ extra @ pl @ replicate (padlen (length pl)) 0 @ ?s1), p_capacity := grown\<rparr>"
      have "realloc_bytes (p_header p) grown junk =
        le_bytes 4 (length pl) @ extra @ pl @ replicate (padlen (length pl)) 0 @ ?s1"
        unfolding realloc_bytes_def b option.case Let_def len using gr(3) len by simp
      then have "Resize mem (max (p_capacity p * 2) need) p = Inr (True, ?p1)"
        using holds_not_readonly [OF h] Some by (simp add: Resize_def Let_def grown_def [symmetric] kPayloadUnit_def)
      then show thesis using enlarge [of ?p1 ?s1] gr True hs(1) cap(1) by simp
    qed
  qed
qed

lemma EndWrite_pads:
  assumes "p_header p = Some (pre @ d @ r @ post)" "length r = padlen (length d)" "length d < 2 ^ 31" "dest = length pre"
  shows "EndWrite dest (int (length d)) p = Inr (p\<lparr>p_header := Some (pre @ d @ replicate (padlen (length d)) 0 @ post)\<rparr>)"
proof -
  have sz: "to_size_t (int (length d)) = length d" using assms(3) by (simp add: to_size_t_def)
  show ?thesis
  proof (cases "length d mod 4 = 0")
    case True
    then have "r = []" "padlen (length d) = 0" using assms(2) by (simp_all add: padlen_def)
    with True assms(1) show ?thesis by (simp add: EndWrite_def sz)
  next
    case False
    then have pad: "padlen (length d) = 4 - length d mod 4" by (simp add: padlen_def)
    with assms(1,2,4) have "set_bytes (dest + length d) (replicate (4 - length d mod 4) 0) p =
        Inr (p\<lparr>p_header := Some (pre @ d @ replicate (padlen (length d)) 0 @ post)\<rparr>)"
      using poke_middle [of r "replicate (4 - length d mod 4) 0" "dest + length d" "pre @ d" post]
      by (simp add: set_bytes_def header_bytes_def)
    with False show ?thesis by (simp add: EndWrite_def sz)
  qed
qed

text \<open>A write appends at the next aligned offset, or fails without changing the pickle.\<close>

lemma WriteBytes_cases:
  assumes h: "holds p extra pl" and fits: "al4 (length pl) + length d < 2 ^ 32" "length d < 2 ^ 31"
  obtains (fail) "WriteBytes mem d (int (length d)) p = Inr (False, p)" "\<exists>c. mem c = None"
  | (wrote) p' where "WriteBytes mem d (int (length d)) p = Inr (True, p')" "holds p' extra (append4 pl d)"
      "p_variable_buffer_offset p' = p_variable_buffer_offset p"
proof -
  have sz: "to_size_t (int (length d)) = length d" using fits(2) by (simp add: to_size_t_def)
  have ro: "dcheck (kCapacityReadOnly \<noteq> p_capacity p) ''oops: pickle is readonly'' = Inr ()"
    using holds_not_readonly [OF h] by simp
  show thesis
  proof (cases rule: BeginWrite_cases [OF h fits(1), of mem])
    case 1
    then show thesis using fail ro by (simp add: WriteBytes_def sz)
  next
    case (2 p1 block spare)
    let ?pre = "le_bytes 4 (al4 (length pl) + length d) @ extra @ pl @ replicate (padlen (length pl)) 0"
    define dst where "dst = 4 + length extra + al4 (length pl)"
    have dst: "dst = length ?pre" by (simp add: dst_def al4_def)
    obtain old r where block: "block = old @ r" "length old = length d" "length r = padlen (length d)"
      using 2(3) by (metis al4_def append_take_drop_id length_drop length_take add_diff_cancel_left' le_add1 min.absorb2)
    let ?p2 = "p1\<lparr>p_header := Some (?pre @ d @ r @ spare)\<rparr>"
    have "set_bytes dst d p1 = Inr ?p2"
      using poke_middle [of old d dst ?pre "r @ spare"] block dst 2(2)
      by (simp add: set_bytes_def header_bytes_def)
    moreover have "EndWrite dst (int (length d)) ?p2 =
        Inr (?p2\<lparr>p_header := Some (?pre @ d @ replicate (padlen (length d)) 0 @ spare)\<rparr>)"
      by (rule EndWrite_pads [OF _ block(3) fits(2) dst]) simp
    ultimately have W: "WriteBytes mem d (int (length d)) p = Inr (True, ?p2\<lparr>p_header := Some (?pre @ d @ replicate (padlen (length d)) 0 @ spare)\<rparr>)"
      using 2(1) ro by (simp add: WriteBytes_def sz peek_def dst_def)
    have "holds (?p2\<lparr>p_header := Some (?pre @ d @ replicate (padlen (length d)) 0 @ spare)\<rparr>) extra (append4 pl d)"
      using h 2(4-7) fits(1) padlen_al4 [of "length pl" "length d"]
      by (auto simp: holds_def append4_def al4_def add.assoc intro!: exI [of _ spare])
    with W show thesis using wrote 2(8) by simp
  qed
qed


section \<open>Values\<close>

text \<open>The values a client packs, one constructor for each pair of methods.\<close>

datatype pvalue =
    VBool bool | VInt "32 word" | VLong "64 word" | VUInt16 "16 word" | VUInt32 "32 word"
  | VInt64 "64 word" | VUInt64 "64 word" | VString bytes | VWString "32 word list" | VString16 "16 word list" | VData bytes

datatype pkind = KBool | KInt | KLong | KUInt16 | KUInt32 | KInt64 | KUInt64 | KString | KWString | KString16 | KData

primrec kind_of :: "pvalue \<Rightarrow> pkind" where
  "kind_of (VBool _) = KBool" | "kind_of (VInt _) = KInt" | "kind_of (VLong _) = KLong"
| "kind_of (VUInt16 _) = KUInt16" | "kind_of (VUInt32 _) = KUInt32" | "kind_of (VInt64 _) = KInt64"
| "kind_of (VUInt64 _) = KUInt64" | "kind_of (VString _) = KString" | "kind_of (VWString _) = KWString"
| "kind_of (VString16 _) = KString16" | "kind_of (VData _) = KData"

primrec write_value :: "allocator \<Rightarrow> pvalue \<Rightarrow> pickle \<Rightarrow> (bool \<times> pickle) res" where
  "write_value mem (VBool b) = WriteBool mem b"
| "write_value mem (VInt n) = WriteInt mem n"
| "write_value mem (VLong n) = WriteLongUsingDangerousNonPortableLessPersistableForm mem n"
| "write_value mem (VUInt16 n) = WriteUInt16 mem n"
| "write_value mem (VUInt32 n) = WriteUInt32 mem n"
| "write_value mem (VInt64 n) = WriteInt64 mem n"
| "write_value mem (VUInt64 n) = WriteUInt64 mem n"
| "write_value mem (VString s) = WriteString mem s"
| "write_value mem (VWString s) = WriteWString mem s"
| "write_value mem (VString16 s) = WriteString16 mem s"
| "write_value mem (VData s) = WriteData mem s (int (length s))"

primrec read_value :: "pkind \<Rightarrow> pickle_iterator \<Rightarrow> (pvalue option \<times> pickle_iterator) res" where
  "read_value KBool it = map_read VBool (ReadBool it)"
| "read_value KInt it = map_read VInt (ReadInt it)"
| "read_value KLong it = map_read VLong (ReadLong it)"
| "read_value KUInt16 it = map_read VUInt16 (ReadUInt16 it)"
| "read_value KUInt32 it = map_read VUInt32 (ReadUInt32 it)"
| "read_value KInt64 it = map_read VInt64 (ReadInt64 it)"
| "read_value KUInt64 it = map_read VUInt64 (ReadUInt64 it)"
| "read_value KString it = map_read VString (ReadString it)"
| "read_value KWString it = map_read VWString (ReadWString it)"
| "read_value KString16 it = map_read VString16 (ReadString16 it)"
| "read_value KData it = map_read VData (ReadData it)"

text \<open>Writing and reading a sequence, as a client does: up to the first call that returns false.\<close>

primrec write_values :: "allocator \<Rightarrow> pvalue list \<Rightarrow> pickle \<Rightarrow> (bool \<times> pickle) res" where
  "write_values mem [] p = Inr (True, p)"
| "write_values mem (v # vs) p =
     bindR (write_value mem v p) (\<lambda>(ok, p1). if ok then write_values mem vs p1 else Inr (False, p1))"

primrec read_values :: "pkind list \<Rightarrow> pickle_iterator \<Rightarrow> (pvalue list \<times> pickle_iterator) res" where
  "read_values [] it = Inr ([], it)"
| "read_values (k # ks) it = bindR (read_value k it) (\<lambda>(r, it1).
     case r of None \<Rightarrow> Inr ([], it1)
     | Some v \<Rightarrow> bindR (read_values ks it1) (\<lambda>(vs, it2). Inr (v # vs, it2)))"

text \<open>The blocks a value adds to the payload, each at an aligned offset.\<close>

primrec blocks :: "pvalue \<Rightarrow> bytes list" where
  "blocks (VBool b) = [le_bytes 4 (if b then 1 else 0)]"
| "blocks (VInt n) = [le_bytes 4 (unat n)]"
| "blocks (VLong n) = [le_bytes 8 (unat n)]"
| "blocks (VUInt16 n) = [le_bytes 2 (unat n)]"
| "blocks (VUInt32 n) = [le_bytes 4 (unat n)]"
| "blocks (VInt64 n) = [le_bytes 8 (unat n)]"
| "blocks (VUInt64 n) = [le_bytes 8 (unat n)]"
| "blocks (VString s) = [le_bytes 4 (length s), s]"
| "blocks (VWString s) = [le_bytes 4 (length s), concat (map (\<lambda>w. le_bytes 4 (unat w)) s)]"
| "blocks (VString16 s) = [le_bytes 4 (length s), concat (map (\<lambda>w. le_bytes 2 (unat w)) s)]"
| "blocks (VData s) = [le_bytes 4 (length s), s]"

definition layout :: "bytes \<Rightarrow> pvalue list \<Rightarrow> bytes" where
  "layout pl vs = foldl append4 pl (concat (map blocks vs))"

definition blocks_size :: "pvalue list \<Rightarrow> nat" where
  "blocks_size vs = sum_list (map (\<lambda>c. al4 (length c)) (concat (map blocks vs)))"

lemma layout_simps [simp]: "layout pl [] = pl" "layout pl (v # vs) = layout (foldl append4 pl (blocks v)) vs"
  by (simp_all add: layout_def)

lemma blocks_size_simps [simp]:
  "blocks_size [] = 0" "blocks_size (v # vs) = sum_list (map (\<lambda>c. al4 (length c)) (blocks v)) + blocks_size vs"
  by (simp_all add: blocks_size_def)

lemma al4_al4_add: "al4 (al4 m + n) = al4 m + al4 n"
  by (simp add: al4_def [of "al4 m + n"] padlen_al4) (simp add: al4_def)

lemma WriteInt_word: "unat (word_of_nat n :: 32 word) = n mod 2 ^ 32"
  by (simp add: unsigned_of_nat take_bit_eq_mod)

lemma to_int32_small: "n < 2 ^ 31 \<Longrightarrow> to_int32 n = int n"
  by (simp add: to_int32_def signed_of_nat signed_take_bit_int_eq_self)

lemma write_sized_cases:
  assumes h: "holds p extra pl" and fits: "al4 (length pl) + 4 + al4 (length d) < 2 ^ 32" "length d < 2 ^ 31"
  obtains (fail) p' where "write_sized mem n d (int (length d)) p = Inr (False, p')" "\<exists>c. mem c = None"
  | (wrote) p' where "write_sized mem n d (int (length d)) p = Inr (True, p')"
      "holds p' extra (append4 (append4 pl (le_bytes 4 (unat n))) d)"
proof -
  have f1: "al4 (length pl) + length (le_bytes 4 (unat n)) < 2 ^ 32" "length (le_bytes 4 (unat n)) < 2 ^ 31"
    using fits(1) by simp_all
  show thesis
  proof (cases rule: WriteBytes_cases [OF h f1, of mem])
    case 1
    then show thesis using fail by (simp add: write_sized_def WriteInt_def)
  next
    case (2 p1)
    have "al4 (al4 (length pl) + 4) = al4 (length pl) + 4" by (simp add: al4_al4_add al4_def [of 4] padlen_def)
    moreover have "length d \<le> al4 (length d)" by (rule al4_bounds)
    ultimately have f2: "al4 (length (append4 pl (le_bytes 4 (unat n)))) + length d < 2 ^ 32" using fits(1) by simp
    show thesis
    proof (cases rule: WriteBytes_cases [OF 2(2) f2 fits(2), of mem])
      case 1
      then show thesis using fail 2(1) by (simp add: write_sized_def WriteInt_def)
    next
      case (2 p2)
      then show thesis using wrote \<open>WriteBytes mem (le_bytes 4 (unat n)) (int (length (le_bytes 4 (unat n)))) p = Inr (True, p1)\<close>
        by (simp add: write_sized_def WriteInt_def)
    qed
  qed
qed


definition value_fits :: "pvalue \<Rightarrow> bool" where
  "value_fits v \<longleftrightarrow> (\<forall>c\<in>set (blocks v). length c < 2 ^ 31)"

lemma length_words: "length (concat (map (\<lambda>w. le_bytes k (unat w)) ws)) = k * length ws"
  by (induction ws) auto

lemma write_value_cases:
  assumes h: "holds p extra pl" and fits: "al4 (length pl) + sum_list (map (\<lambda>c. al4 (length c)) (blocks v)) < 2 ^ 32" "value_fits v"
  obtains (fail) p' where "write_value mem v p = Inr (False, p')" "\<exists>c. mem c = None"
  | (wrote) p' where "write_value mem v p = Inr (True, p')" "holds p' extra (foldl append4 pl (blocks v))"
proof -
  have al: "n \<le> al4 n" for n by (rule al4_bounds)
  have one: thesis if "blocks v = [d]" "write_value mem v p = WriteBytes mem d (int (length d)) p" for d
  proof -
    have "al4 (length pl) + length d < 2 ^ 32" using fits(1) that(1) al [of "length d"] by simp
    moreover have "length d < 2 ^ 31" using fits(2) that(1) by (simp add: value_fits_def)
    ultimately show thesis
      by (cases rule: WriteBytes_cases [OF h, of d mem]) (use that in \<open>auto intro: fail wrote\<close>)
  qed
  have two: thesis if "blocks v = [le_bytes 4 (unat n), d]" "write_value mem v p = write_sized mem n d (int (length d)) p" for n d
  proof -
    have "al4 (length pl) + 4 + al4 (length d) < 2 ^ 32" using fits(1) that(1) by (simp add: al4_def [of 4] padlen_def)
    moreover have "length d < 2 ^ 31" using fits(2) that(1) by (simp add: value_fits_def)
    ultimately show thesis
      by (cases rule: write_sized_cases [OF h, of d mem n]) (use that in \<open>auto intro: fail wrote\<close>)
  qed
  have len: "n < 2 ^ 31 \<Longrightarrow> unat (word_of_nat n :: 32 word) = n" "n < 2 ^ 31 \<Longrightarrow> word_of_int (int n) = (word_of_nat n :: 32 word)" for n
    by (simp_all add: WriteInt_word)
  show thesis
  proof (cases v)
    case (VString s)
    then show thesis using two [of "word_of_nat (length s)" s] fits(2)
      by (simp add: value_fits_def WriteString_def len to_int32_small)
  next
    case (VWString s)
    then have "length s * 4 < 2 ^ 31" using fits(2) by (simp add: value_fits_def length_words)
    with VWString show thesis using two [of "word_of_nat (length s)"]
      by (simp add: WriteWString_def len to_int32_small length_words mult.commute)
  next
    case (VString16 s)
    then have n: "length s * 2 < 2 ^ 31" using fits(2) by (simp add: value_fits_def length_words)
    then have "to_size_t (to_int32 (length s)) = length s" by (simp add: to_int32_small to_size_t_def)
    with n VString16 show thesis using two [of "word_of_nat (length s)"]
      by (simp add: WriteString16_def len to_int32_small length_words mult.commute)
  next
    case (VData s)
    then show thesis using two [of "word_of_nat (length s)" s] fits(2)
      by (simp add: value_fits_def WriteData_def len)
  qed (use one in \<open>auto simp: WriteBool_def WriteInt_def WriteLongUsingDangerousNonPortableLessPersistableForm_def
      WriteUInt16_def WriteUInt32_def WriteInt64_def WriteUInt64_def\<close>)
qed

lemma write_values_cases:
  assumes "holds p extra pl" "al4 (length pl) + blocks_size vs < 2 ^ 32" "\<forall>v\<in>set vs. value_fits v"
  obtains (fail) p' where "write_values mem vs p = Inr (False, p')" "\<exists>c. mem c = None"
  | (wrote) p' where "write_values mem vs p = Inr (True, p')" "holds p' extra (layout pl vs)"
  using assms
proof (induction vs arbitrary: p pl thesis)
  case (Cons v vs)
  have f: "al4 (length pl) + sum_list (map (\<lambda>c. al4 (length c)) (blocks v)) < 2 ^ 32" "value_fits v"
    using Cons.prems(4,5) by simp_all
  show ?case
  proof (cases rule: write_value_cases [OF Cons.prems(3) f, of mem])
    case 1
    then show ?thesis using Cons.prems(1) by simp
  next
    case (2 p1)
    have "al4 (length (foldl append4 pl bs)) = al4 (length pl) + sum_list (map (\<lambda>c. al4 (length c)) bs)" for bs
      by (induction bs arbitrary: pl) (simp_all add: al4_al4_add)
    then have "al4 (length (foldl append4 pl (blocks v))) + blocks_size vs < 2 ^ 32" using Cons.prems(4) by simp
    moreover have "\<forall>v\<in>set vs. value_fits v" using Cons.prems(5) by simp
    ultimately show ?thesis
      using Cons.IH [OF _ _ 2(2)] Cons.prems(1,2) 2(1) by simp blast
  qed
qed (simp add: layout_def)


section \<open>Reading back\<close>

text \<open>\<open>reading it pl seen\<close>: the iterator walks over the payload \<open>pl\<close>, of which it has read the prefix \<open>seen\<close>.\<close>

definition reading :: "pickle_iterator \<Rightarrow> bytes \<Rightarrow> bytes \<Rightarrow> bool" where
  "reading it pl seen \<longleftrightarrow> (\<exists>pre post rest. pre \<noteq> [] \<and> it_buffer it = pre @ pl @ post \<and> pl = seen @ rest \<and>
     it_read_ptr it = length pre + al4 (length seen) \<and> it_read_end_ptr it = length pre + length pl)"

lemma reading_block:
  assumes "reading it pl seen" "pl = append4 seen c @ rest"
  shows "it_read_ptr it + length c \<le> it_read_end_ptr it" "current_read_ptr it = Some (it_read_ptr it)"
    and "n \<le> length c \<Longrightarrow> peek (it_buffer it) (it_read_ptr it) n = Inr (take n c)"
    and "reading (it\<lparr>it_read_ptr := it_read_ptr it + al4 (length c)\<rparr>) pl (append4 seen c)"
proof -
  obtain pre post where it: "it_buffer it = pre @ pl @ post"
    "it_read_ptr it = length pre + al4 (length seen)" "it_read_end_ptr it = length pre + length pl" and pre: "pre \<noteq> []"
    using assms(1) by (auto simp: reading_def)
  show "current_read_ptr it = Some (it_read_ptr it)" using it(2) pre by (simp add: current_read_ptr_def)
  show "it_read_ptr it + length c \<le> it_read_end_ptr it" by (simp add: it assms(2))
  show "peek (it_buffer it) (it_read_ptr it) n = Inr (take n c)" if "n \<le> length c"
  proof -
    have b: "it_buffer it = (pre @ seen @ replicate (padlen (length seen)) 0) @ take n c @ (drop n c @ rest @ post)"
      by (simp add: it assms(2) append4_def)
    show ?thesis unfolding b by (rule peek_middle) (use that in \<open>simp_all add: it al4_def\<close>)
  qed
  show "reading (it\<lparr>it_read_ptr := it_read_ptr it + al4 (length c)\<rparr>) pl (append4 seen c)"
    unfolding reading_def using it pre assms(2) by (auto simp: al4_al4_add)
qed

lemma read_builtin:
  assumes "reading it pl seen" "pl = append4 seen c @ rest" "sz \<le> length c"
    and "al4 (length c) = (if sz < 4 then AlignInt sz 4 else sz)"
  shows "\<exists>it'. ReadBuiltinType sz it = Inr (Some (le_value (take sz c)), it') \<and> reading it' pl (append4 seen c)"
  using reading_block [OF assms(1,2)] assms(3,4)
  by (auto simp: ReadBuiltinType_def GetReadPointerAndAdvance_type_def)

lemma small_aligned: "al4 4 = 4" "al4 8 = 8" "al4 2 = 4" "AlignInt 1 4 = 4" "AlignInt (Suc 0) 4 = 4" "AlignInt 2 4 = 4"
  by (simp_all add: al4_def padlen_def AlignInt_def)

lemma read_int:
  assumes "reading it pl seen" "pl = append4 seen (le_bytes 4 n) @ rest"
  shows "\<exists>it'. ReadInt it = Inr (Some (word_of_nat n), it') \<and> reading it' pl (append4 seen (le_bytes 4 n))"
proof -
  have w: "(word_of_nat (n mod 4294967296) :: 32 word) = word_of_nat n"
    by (rule word_unat_eq_iff [THEN iffD2]) (simp add: unsigned_of_nat take_bit_eq_mod)
  show ?thesis
    using read_builtin [OF assms, of 4] by (auto simp: ReadInt_def map_read_def small_aligned le_value_le_bytes w)
qed

lemma read_bytes:
  assumes "reading it pl seen" "pl = append4 seen c @ rest" "length c < 2 ^ 31"
  shows "\<exists>it'. read_block (GetReadPointerAndAdvance (int (length c)) it) (length c) = Inr (Some c, it') \<and>
    reading it' pl (append4 seen c)"
proof -
  have "AlignInt (to_size_t (int (length c))) 4 = al4 (length c)"
    using assms(3) AlignInt_4 [of "length c"] by (simp add: to_size_t_def)
  then show ?thesis
    using reading_block [OF assms(1,2)] by (auto simp: read_block_def GetReadPointerAndAdvance_def)
qed

lemma sint_small: "n < 2 ^ 31 \<Longrightarrow> sint (word_of_nat n :: 32 word) = int n"
  by (simp add: signed_of_nat signed_take_bit_int_eq_self)

lemma elements_small:
  assumes "n * k < 2 ^ 31"
  shows "GetReadPointerAndAdvance_elements (int n) k = GetReadPointerAndAdvance (int (k * n))"
proof -
  define m where "m = n * k"
  have m: "int n * int k = int m" "int m < 2 ^ 31"
    using assms unfolding m_def [symmetric] by (simp add: m_def, simp)
  then have "sint (word_of_int (int m) :: 64 word) = int m" "sint (word_of_int (int m) :: 32 word) = int m"
    by (simp_all add: signed_of_nat signed_take_bit_int_eq_self)
  then show ?thesis unfolding GetReadPointerAndAdvance_elements_def fun_eq_iff m(1) Let_def
    by (simp add: m_def mult.commute)
qed

lemma le_words_concat:
  "(\<forall>w\<in>set ws. unat w < 256 ^ k) \<Longrightarrow> le_words k (length ws) (concat (map (\<lambda>w. le_bytes k (unat w)) ws)) = map unat ws"
proof (induction ws)
  case (Cons w ws)
  have "le_words k (length (w # ws)) (concat (map (\<lambda>w. le_bytes k (unat w)) (w # ws))) =
      le_value (le_bytes k (unat w)) # le_words k (length ws) (concat (map (\<lambda>w. le_bytes k (unat w)) ws))"
    by (simp add: le_words_def upt_conv_Cons map_Suc_upt [symmetric] del: upt_Suc)
  with Cons show ?case by (simp add: le_value_le_bytes)
qed (simp add: le_words_def)

lemma words_of_bytes:
  "map word_of_nat (le_words 4 (length ws) (concat (map (\<lambda>w. le_bytes 4 (unat w)) ws))) = (ws :: 32 word list)"
  "map word_of_nat (le_words 2 (length vs) (concat (map (\<lambda>w. le_bytes 2 (unat w)) vs))) = (vs :: 16 word list)"
proof -
  have "unat w < 256 ^ 4" for w :: "32 word" using unsigned_less [of w] by simp
  then show "map word_of_nat (le_words 4 (length ws) (concat (map (\<lambda>w. le_bytes 4 (unat w)) ws))) = ws"
    by (simp add: le_words_concat o_def)
  have "unat w < 256 ^ 2" for w :: "16 word" using unsigned_less [of w] by simp
  then show "map word_of_nat (le_words 2 (length vs) (concat (map (\<lambda>w. le_bytes 2 (unat w)) vs))) = vs"
    by (simp add: le_words_concat o_def)
qed


lemma read_sized_back:
  assumes r: "reading it pl seen" "pl = append4 (append4 seen (le_bytes 4 n)) d @ rest" and n: "n < 2 ^ 31"
    and rd: "\<And>it1. reading it1 pl (append4 seen (le_bytes 4 n)) \<Longrightarrow>
      \<exists>it'. rd (int n) it1 = Inr (Some x, it') \<and> reading it' pl (append4 (append4 seen (le_bytes 4 n)) d)"
  shows "\<exists>it'. read_sized rd it = Inr (Some x, it') \<and> reading it' pl (append4 (append4 seen (le_bytes 4 n)) d)"
proof -
  have "pl = append4 seen (le_bytes 4 n) @ (replicate (padlen (length (append4 seen (le_bytes 4 n)))) 0 @ d @ rest)"
    using r(2) by (simp add: append4_def [of "append4 seen (le_bytes 4 n)"])
  from read_int [OF r(1) this] obtain it1 where "ReadInt it = Inr (Some (word_of_nat n), it1)"
    "reading it1 pl (append4 seen (le_bytes 4 n))" by blast
  then show ?thesis using rd sint_small [OF n] by (auto simp: read_sized_def)
qed

lemma word_back:
  fixes w :: "'a::len word"
  assumes "LENGTH('a) \<le> 8 * k"
  shows "word_of_nat (unat w mod 256 ^ k) = w"
proof -
  have "unat w < 2 ^ LENGTH('a)" by (rule unsigned_less)
  also have "(2::nat) ^ LENGTH('a) \<le> 2 ^ (8 * k)" using assms by (simp add: power_increasing)
  also have "(2::nat) ^ (8 * k) = 256 ^ k" by (simp add: power_mult)
  finally show ?thesis by simp
qed

lemma read_value_back:
  assumes r: "reading it pl seen" "pl = foldl append4 seen (blocks v) @ rest" and fits: "value_fits v"
  shows "\<exists>it'. read_value (kind_of v) it = Inr (Some v, it') \<and> reading it' pl (foldl append4 seen (blocks v))"
proof (cases v)
  case (VBool b)
  have "le_bytes 4 n = word_of_nat (n mod 256) # le_bytes 3 (n div 256)" for n
    using le_bytes.simps(2) [of 3 n] by simp
  then have "take 1 (le_bytes 4 (if b then 1 else 0)) = [if b then 1 else 0]" by simp
  then show ?thesis using read_builtin [OF r(1), of "le_bytes 4 (if b then 1 else 0)" rest 1] r(2) VBool
    by (auto simp: ReadBool_def map_read_def small_aligned)
next
  case (VString s)
  then have s: "length s < 2 ^ 31" using fits by (simp add: value_fits_def)
  show ?thesis
    using read_sized_back [OF r(1), of "length s" s rest "\<lambda>len it. read_block (GetReadPointerAndAdvance len it) (nat len)" s]
      read_bytes [OF _ _ s] r(2) s VString
    by (auto simp: ReadString_def map_read_def)
next
  case (VData s)
  then have s: "length s < 2 ^ 31" using fits by (simp add: value_fits_def)
  show ?thesis
    using read_sized_back [OF r(1), of "length s" s rest ReadBytes s] read_bytes [OF _ _ s] r(2) s VData
    by (auto simp: ReadData_def ReadBytes_def map_read_def)
next
  case (VWString s)
  let ?d = "concat (map (\<lambda>w. le_bytes 4 (unat w)) s)"
  have s: "length s * 4 < 2 ^ 31" "length ?d < 2 ^ 31" "length s < 2 ^ 31"
    using fits VWString by (simp_all add: value_fits_def length_words)
  show ?thesis
    using read_sized_back [OF r(1), of "length s" ?d rest "\<lambda>len it. map_read (\<lambda>bs. map word_of_nat (le_words 4 (nat len) bs))
       (read_block (GetReadPointerAndAdvance_elements len 4 it) (4 * nat len))" s]
      read_bytes [OF _ _ s(2)] r(2) s VWString words_of_bytes(1) [of s]
    by (fastforce simp: ReadWString_def map_read_def elements_small length_words)
next
  case (VString16 s)
  let ?d = "concat (map (\<lambda>w. le_bytes 2 (unat w)) s)"
  have s: "length s * 2 < 2 ^ 31" "length ?d < 2 ^ 31" "length s < 2 ^ 31"
    using fits VString16 by (simp_all add: value_fits_def length_words)
  show ?thesis
    using read_sized_back [OF r(1), of "length s" ?d rest "\<lambda>len it. map_read (\<lambda>bs. map word_of_nat (le_words 2 (nat len) bs))
       (read_block (GetReadPointerAndAdvance_elements len 2 it) (2 * nat len))" s]
      read_bytes [OF _ _ s(2)] r(2) s VString16 words_of_bytes(2) [of s]
    by (fastforce simp: ReadString16_def map_read_def elements_small length_words)
next
  case (VInt n)
  then show ?thesis using read_int [OF r(1), of "unat n" rest] r(2) by (auto simp: map_read_def)
next
  case (VUInt16 n)
  then show ?thesis using read_builtin [OF r(1), of "le_bytes 2 (unat n)" rest 2] r(2) word_back [of 2 n]
    by (auto simp: ReadUInt16_def map_read_def small_aligned le_value_le_bytes)
next
  case (VUInt32 n)
  then show ?thesis using read_builtin [OF r(1), of "le_bytes 4 (unat n)" rest 4] r(2) word_back [of 4 n]
    by (auto simp: ReadUInt32_def map_read_def small_aligned le_value_le_bytes)
next
  case (VLong n)
  then show ?thesis using read_builtin [OF r(1), of "le_bytes 8 (unat n)" rest 8] r(2) word_back [of 8 n]
    by (auto simp: ReadLong_def map_read_def small_aligned le_value_le_bytes)
next
  case (VInt64 n)
  then show ?thesis using read_builtin [OF r(1), of "le_bytes 8 (unat n)" rest 8] r(2) word_back [of 8 n]
    by (auto simp: ReadInt64_def map_read_def small_aligned le_value_le_bytes)
next
  case (VUInt64 n)
  then show ?thesis using read_builtin [OF r(1), of "le_bytes 8 (unat n)" rest 8] r(2) word_back [of 8 n]
    by (auto simp: ReadUInt64_def map_read_def small_aligned le_value_le_bytes)
qed

lemma foldl_append4_prefix: "\<exists>rest. foldl append4 pl cs = pl @ rest"
proof (induction cs arbitrary: pl)
  case (Cons c cs)
  obtain rest where "foldl append4 (append4 pl c) cs = append4 pl c @ rest" using Cons by blast
  then show ?case by (simp add: append4_def [of pl c])
qed simp

lemma read_values_back:
  assumes "reading it (layout seen vs) seen" "\<forall>v\<in>set vs. value_fits v"
  shows "\<exists>it'. read_values (map kind_of vs) it = Inr (vs, it') \<and> reading it' (layout seen vs) (layout seen vs)"
  using assms
proof (induction vs arbitrary: seen it)
  case (Cons v vs)
  obtain rest where rest: "layout (foldl append4 seen (blocks v)) vs = foldl append4 seen (blocks v) @ rest"
    using foldl_append4_prefix by (metis layout_def)
  have "value_fits v" using Cons.prems(2) by simp
  with read_value_back [OF Cons.prems(1)] rest obtain it1 where
    "read_value (kind_of v) it = Inr (Some v, it1)" "reading it1 (layout seen (v # vs)) (foldl append4 seen (blocks v))"
    by auto
  with Cons.IH [of it1 "foldl append4 seen (blocks v)"] Cons.prems(2) show ?case by auto
qed simp


section \<open>A stream of pickles\<close>

text \<open>The bytes that are sent: \<open>data()\<close> and \<open>size()\<close> of the pickle.\<close>

definition pickle_wire :: "pickle \<Rightarrow> bytes res" where
  "pickle_wire p = bindR (pickle_size p) (\<lambda>n. bindR (header_bytes p) (\<lambda>b. peek b 0 n))"

lemma holds_wire: "holds p extra pl \<Longrightarrow> pickle_wire p = Inr (le_bytes 4 (length pl) @ extra @ pl)"
  using holds_payload_size [of p extra pl]
  by (auto simp: pickle_wire_def pickle_size_def holds_def header_bytes_def peek_def)

lemma Pickle_data_wire:
  assumes "4 dvd length extra" "length extra \<le> 64" "length pl < 2 ^ 31 - 68"
  shows "Pickle_data (le_bytes 4 (length pl) @ extra @ pl) =
    \<lparr>p_header = Some (le_bytes 4 (length pl) @ extra @ pl), p_header_size = 4 + length extra,
     p_capacity = kCapacityReadOnly, p_variable_buffer_offset = 0\<rparr>"
proof -
  obtain m where m: "length extra = 4 * m" using assms(1) by (auto elim: dvdE)
  have "nat (4 + int (length extra)) = 4 + length extra" by simp
  moreover from this have "nat ((int (4 + length extra + length pl) - int (length pl)) mod 2 ^ 32) = 4 + length extra"
    using assms(2) by simp
  moreover have "AlignInt (4 + length extra) 4 = 4 + length extra"
    using AlignInt_4 [of "4 + length extra"] assms(2) by (simp add: al4_def padlen_def m)
  ultimately show ?thesis
    using assms(3) by (simp add: Pickle_data_def Let_def le_value_le_bytes add.assoc)
qed

lemma FindNext_wire:
  assumes "4 dvd length extra" "4 + length extra \<le> 64" "length pl < 2 ^ 32" "start + length stream < 2 ^ 64"
    and "stream = le_bytes 4 (length pl) @ extra @ pl @ tail"
  shows "FindNext (4 + length extra) start stream = Inr (Some (start + (4 + length extra + length pl)))"
proof -
  obtain m where m: "length extra = 4 * m" using assms(1) by (auto elim: dvdE)
  have "AlignInt (4 + length extra) 4 = 4 + length extra"
    using AlignInt_4 [of "4 + length extra"] assms(2) by (simp add: al4_def padlen_def m)
  then show ?thesis using assms(2-5)
    by (simp add: FindNext_def kPayloadUnit_def Let_def le_value_le_bytes add.assoc)
qed

lemma reading_start:
  assumes "p_header p = Some (le_bytes 4 (length pl) @ extra @ pl @ post)" "p_header_size p = 4 + length extra" "length pl < 2 ^ 32"
  shows "\<exists>it. PickleIterator p = Inr it \<and> reading it pl []"
proof -
  have "payload_size p = Inr (length pl)"
    using assms by (simp add: payload_size_def header_bytes_def peek_def le_value_le_bytes)
  moreover have "reading \<lparr>it_buffer = le_bytes 4 (length pl) @ extra @ pl @ post, it_read_ptr = 4 + length extra,
      it_read_end_ptr = 4 + length extra + length pl\<rparr> pl []"
    unfolding reading_def
    by (rule exI [of _ "le_bytes 4 (length pl) @ extra"], rule exI [of _ post], rule exI [of _ pl]) (simp add: al4_def padlen_def flip: length_0_conv)
  ultimately show ?thesis using assms by (simp add: PickleIterator_def)
qed

lemma holds_default:
  assumes "Pickle_default mem = Inr p"
  shows "holds p [] []"
proof (cases "mem 64")
  case None
  then have "AlignInt 64 64 = 64" by (simp add: AlignInt_def)
  with None assms show ?thesis
    by (simp add: Pickle_default_def Resize_def kPayloadUnit_def kCapacityReadOnly_def set_payload_size_def set_bytes_def header_bytes_def)
next
  case (Some junk)
  have "AlignInt 64 64 = 64" by (simp add: AlignInt_def)
  with Some assms have "p = \<lparr>p_header = Some (le_bytes 4 0 @ drop 4 (map junk [0..<64])), p_header_size = 4, p_capacity = 64, p_variable_buffer_offset = 0\<rparr>"
    by (simp add: Pickle_default_def Resize_def kPayloadUnit_def kCapacityReadOnly_def set_payload_size_def set_bytes_def
      header_bytes_def realloc_bytes_def poke_def)
  then show ?thesis by (auto simp: holds_def al4_def padlen_def intro!: exI [of _ "drop 4 (map junk [0..<64])"])
qed

text \<open>
  C15: values of any kind written in order to a new pickle are read back, from the pickle itself
  and, after the pickle was sent inside a stream and found there by \<open>FindNext\<close>, from a pickle
  over the received bytes.  The hypotheses bound the sizes to what an \<open>int\<close> length holds and say
  that no write reported a failure.
\<close>

theorem pickle_roundtrip:
  assumes new: "Pickle_default mem = Inr p0" and wrote: "write_values mem vs p0 = Inr (True, p)"
    and fits: "blocks_size vs < 2 ^ 31 - 68" "\<forall>v\<in>set vs. value_fits v"
    and wire: "pickle_wire p = Inr wire" and room: "start + length (wire @ tail) < 2 ^ 64"
  shows "(\<exists>it it'. PickleIterator p = Inr it \<and> read_values (map kind_of vs) it = Inr (vs, it')) \<and>
    FindNext 4 start (wire @ tail) = Inr (Some (start + length wire)) \<and>
    (\<exists>it it'. PickleIterator (Pickle_data wire) = Inr it \<and> read_values (map kind_of vs) it = Inr (vs, it'))"
proof -
  let ?pl = "layout [] vs"
  have "al4 0 = 0" by (simp add: al4_def padlen_def)
  then have h: "holds p [] ?pl"
    using write_values_cases [OF holds_default [OF new], of vs mem] fits wrote by (auto simp: al4_def padlen_def)
  have size: "al4 (length (foldl append4 pl cs)) = al4 (length pl) + sum_list (map (\<lambda>c. al4 (length c)) cs)" for pl cs
    by (induction cs arbitrary: pl) (simp_all add: al4_al4_add)
  have "length ?pl \<le> blocks_size vs"
    using al4_bounds(1) [of "length ?pl"] size [of "[]"] \<open>al4 0 = 0\<close> by (simp add: layout_def blocks_size_def)
  then have len: "length ?pl < 2 ^ 31 - 68" using fits(1) by simp
  have w: "wire = le_bytes 4 (length ?pl) @ ?pl" using holds_wire [OF h] wire by simp
  have reread: "\<exists>it it'. PickleIterator q = Inr it \<and> read_values (map kind_of vs) it = Inr (vs, it')"
    if "p_header q = Some (le_bytes 4 (length ?pl) @ [] @ ?pl @ post)" "p_header_size q = 4" for q post
    using reading_start [OF that(1)] that(2) len read_values_back [of _ "[]" vs] fits(2) by fastforce
  obtain post where "p_header p = Some (le_bytes 4 (length ?pl) @ [] @ ?pl @ post)" "p_header_size p = 4"
    using h by (auto simp: holds_def)
  moreover have "FindNext 4 start (wire @ tail) = Inr (Some (start + length wire))"
    using FindNext_wire [of "[]" ?pl start "wire @ tail" tail] len room by (simp add: w)
  moreover have "Pickle_data wire = \<lparr>p_header = Some wire, p_header_size = 4, p_capacity = kCapacityReadOnly, p_variable_buffer_offset = 0\<rparr>"
    using Pickle_data_wire [of "[]" ?pl] len by (simp add: w)
  ultimately show ?thesis using reread [of p] reread [of "Pickle_data wire" "[]"] by (simp add: w)
qed


lemma default_pickle:
  assumes "\<And>c. mem c \<noteq> None"
  obtains p where "Pickle_default mem = Inr p"
proof -
  obtain junk where "mem 64 = Some junk" using assms by auto
  moreover have "AlignInt 64 64 = 64" by (simp add: AlignInt_def)
  ultimately show thesis using that
    by (simp add: Pickle_default_def Resize_def kPayloadUnit_def kCapacityReadOnly_def set_payload_size_def set_bytes_def
      header_bytes_def realloc_bytes_def poke_def)
qed

definition sample_values :: "pvalue list" where
  "sample_values = [VBool True, VUInt16 7, VString [104, 105], VString16 [65], VData []]"

lemma sample_fits: "blocks_size sample_values = 28" "\<forall>v\<in>set sample_values. value_fits v"
  by (simp_all add: sample_values_def al4_def padlen_def value_fits_def)

theorem pickle_roundtrip_witness:
  "\<exists>p0 p wire. Pickle_default (\<lambda>n. Some (\<lambda>_. 255)) = Inr p0 \<and>
     write_values (\<lambda>n. Some (\<lambda>_. 255)) sample_values p0 = Inr (True, p) \<and> pickle_wire p = Inr wire \<and>
     (\<exists>it it'. PickleIterator (Pickle_data wire) = Inr it \<and>
        read_values [KBool, KUInt16, KString, KString16, KData] it = Inr (sample_values, it'))"
proof -
  let ?mem = "\<lambda>n. Some (\<lambda>_. 255) :: (nat \<Rightarrow> 8 word) option"
  obtain p0 where new: "Pickle_default ?mem = Inr p0" by (rule default_pickle [of ?mem]) simp_all
  have "al4 (length ([]::bytes)) + blocks_size sample_values < 2 ^ 32" by (simp add: sample_fits al4_def padlen_def)
  then obtain p where w: "write_values ?mem sample_values p0 = Inr (True, p)" and h: "holds p [] (layout [] sample_values)"
    using write_values_cases [OF holds_default [OF new], of sample_values ?mem] sample_fits(2) by auto
  obtain wire where wire: "pickle_wire p = Inr wire" "wire = le_bytes 4 (length (layout [] sample_values)) @ [] @ layout [] sample_values"
    using holds_wire [OF h] by simp
  have "length (layout [] sample_values) < 100" by (simp add: sample_values_def al4_def padlen_def)
  then show ?thesis
    using pickle_roundtrip [OF new w _ sample_fits(2) wire(1), of 0 "[]"] new w wire
    by (simp add: sample_fits(1)) (simp add: sample_values_def)
qed

section \<open>Untrusted data\<close>

text \<open>What a reader may call, in any order and whatever the earlier calls returned.\<close>

datatype read_op = ReadValue pkind | ReadBlob int | ReadSize | Skip int

primrec run_op :: "read_op \<Rightarrow> pickle_iterator \<Rightarrow> pickle_iterator res" where
  "run_op (ReadValue k) it = bindR (read_value k it) (\<lambda>(_, it1). Inr it1)"
| "run_op (ReadBlob n) it = bindR (ReadBytes n it) (\<lambda>(_, it1). Inr it1)"
| "run_op ReadSize it = bindR (ReadLength it) (\<lambda>(_, it1). Inr it1)"
| "run_op (Skip n) it = Inr (snd (SkipBytes n it))"

primrec run_ops :: "read_op list \<Rightarrow> pickle_iterator \<Rightarrow> pickle_iterator res" where
  "run_ops [] it = Inr it"
| "run_ops (x # xs) it = bindR (run_op x it) (run_ops xs)"

definition inside :: "pickle_iterator \<Rightarrow> bool" where
  "inside it \<longleftrightarrow> it_read_end_ptr it \<le> length (it_buffer it)"

definition safe_read :: "('a option \<times> pickle_iterator) res \<Rightarrow> bool" where
  "safe_read m \<longleftrightarrow> (\<exists>r it. m = Inr (r, it) \<and> inside it)"

lemma safe_map_read [pickle_simps]: "safe_read (map_read f m) = safe_read m"
  by (cases m) (auto simp: safe_read_def map_read_def)

lemma safe_builtin [pickle_simps]: "inside it \<Longrightarrow> safe_read (ReadBuiltinType sz it)"
  by (auto simp: safe_read_def inside_def ReadBuiltinType_def GetReadPointerAndAdvance_type_def current_read_ptr_def peek_def)

lemma safe_block [pickle_simps]: "inside it \<Longrightarrow> safe_read (read_block (GetReadPointerAndAdvance n it) (nat n))"
  by (auto simp: safe_read_def inside_def read_block_def GetReadPointerAndAdvance_def current_read_ptr_def peek_def)

lemma safe_elements [pickle_simps]:
  assumes "inside it" "k \<le> 4"
  shows "safe_read (read_block (GetReadPointerAndAdvance_elements (sint (len :: 32 word)) k it) (k * nat (sint len)))"
proof -
  have l: "- (2 ^ 31) \<le> sint len" "sint len < 2 ^ 31" using sint_ge [of len] sint_lt [of len] by simp_all
  have k: "0 \<le> int k" "int k \<le> 4" using assms(2) by simp_all
  have "sint len * int k \<le> 2 ^ 31 * 4" "- (2 ^ 31 * 4) \<le> sint len * int k"
    using mult_mono [of "sint len" "2 ^ 31" "int k" 4] mult_mono [of "- sint len" "2 ^ 31" "int k" 4] l k by simp_all
  then have "sint (word_of_int (sint len * int k) :: 64 word) = sint len * int k"
    by (subst signed_of_int) (simp add: signed_take_bit_int_eq_self del: of_int_mult)
  moreover have "nat (sint len * int k) = k * nat (sint len)" by (simp add: nat_mult_distrib mult.commute)
  ultimately show ?thesis
    using safe_block [OF assms(1), of "sint len * int k"]
    by (auto simp: GetReadPointerAndAdvance_elements_def Let_def read_block_def safe_read_def assms(1))
qed

lemma safe_sized:
  assumes "inside it" "\<And>len it1. inside it1 \<Longrightarrow> safe_read (rd (sint (len :: 32 word)) it1)"
  shows "safe_read (read_sized rd it)"
proof -
  have "safe_read (ReadInt it)" using assms(1) by (simp add: ReadInt_def pickle_simps)
  then obtain r it1 where "ReadInt it = Inr (r, it1)" "inside it1" by (auto simp: safe_read_def)
  then show ?thesis using assms(2) by (cases r) (auto simp: read_sized_def safe_read_def)
qed

lemma safe_value: "inside it \<Longrightarrow> safe_read (read_value k it)"
  by (cases k) (auto simp: pickle_simps ReadBool_def ReadInt_def ReadLong_def ReadUInt16_def ReadUInt32_def ReadInt64_def
      ReadUInt64_def ReadString_def ReadWString_def ReadString16_def ReadData_def ReadBytes_def intro!: safe_sized)

lemma safe_op: "inside it \<Longrightarrow> \<exists>it'. run_op x it = Inr it' \<and> inside it'"
proof (cases x)
  case (ReadValue k)
  moreover assume "inside it"
  ultimately show ?thesis using safe_value [of it k] by (auto simp: safe_read_def)
next
  case (ReadBlob n)
  moreover assume "inside it"
  ultimately show ?thesis using safe_block [of it n] by (auto simp: safe_read_def ReadBytes_def)
next
  case ReadSize
  moreover assume "inside it"
  ultimately show ?thesis using safe_value [of it KInt] by (auto simp: safe_read_def ReadLength_def map_read_def res_simps)
next
  case (Skip n)
  moreover assume "inside it"
  ultimately show ?thesis by (auto simp: SkipBytes_def GetReadPointerAndAdvance_def inside_def)
qed

lemma Pickle_data_bounds:
  assumes "length d < 2 ^ 31" "p_header (Pickle_data d) = Some b"
  shows "b = d \<and> 4 \<le> length d \<and> p_header_size (Pickle_data d) + le_value (take 4 d) = length d"
proof -
  define ps where "ps = le_value (take 4 d)"
  have hdr: "b = d" and ne: "p_header_size (Pickle_data d) \<noteq> 0"
    using assms(2) by (auto simp: Pickle_data_def Let_def split: if_splits)
  have hs: "p_header_size (Pickle_data d) = nat ((int (length d) - int ps) mod 2 ^ 32)"
    "p_header_size (Pickle_data d) \<le> length d" "4 \<le> length d"
    using ne by (auto simp: Pickle_data_def Let_def ps_def split: if_splits)
  have ps: "ps < 2 ^ 32" using le_value_bound [of "take 4 d"] hs(3) by (simp add: ps_def min_absorb2)
  have "ps \<le> length d"
  proof (rule ccontr)
    assume "\<not> ps \<le> length d"
    then have "(int (length d) - int ps) mod 2 ^ 32 = int (length d) - int ps + 2 ^ 32"
      using ps mod_pos_pos_trivial [of "int (length d) - int ps + 2 ^ 32" "2 ^ 32"] by simp
    then show False using hs(1,2) ps by simp
  qed
  then show ?thesis using hs assms(1) hdr by (simp add: ps_def)
qed

text \<open>
  C16: a pickle made from any block of untrusted bytes can be read by any sequence of calls
  without ever touching a byte outside the block.
\<close>

theorem untrusted_pickle_reads_inside:
  assumes "length d < 2 ^ 31"
  shows "\<exists>it it'. PickleIterator (Pickle_data d) = Inr it \<and> run_ops ops it = Inr it' \<and> it_read_end_ptr it \<le> length d"
proof -
  have "\<exists>it. PickleIterator (Pickle_data d) = Inr it \<and> inside it \<and> it_read_end_ptr it \<le> length d"
  proof (cases "p_header (Pickle_data d)")
    case None
    then show ?thesis by (simp add: PickleIterator_def inside_def)
  next
    case (Some b)
    then show ?thesis using Pickle_data_bounds [OF assms Some]
      by (auto simp: PickleIterator_def inside_def payload_size_def header_bytes_def peek_def)
  qed
  then obtain it where it: "PickleIterator (Pickle_data d) = Inr it" "inside it" "it_read_end_ptr it \<le> length d" by blast
  have "\<exists>it'. run_ops ops it = Inr it'" using it(2)
  proof (induction ops arbitrary: it)
    case (Cons x ops)
    obtain it1 where "run_op x it = Inr it1" "inside it1" using safe_op [OF Cons.prems] by blast
    then show ?case using Cons.IH by simp
  qed simp
  with it show ?thesis by blast
qed

theorem untrusted_pickle_reads_inside_witness:
  "\<exists>it it'. PickleIterator (Pickle_data [255, 255, 255, 127, 9]) = Inr it \<and>
    run_ops [ReadValue KString, Skip 4, ReadValue KWString] it = Inr it' \<and> it_read_end_ptr it \<le> length [255, 255, 255, 127, 9 :: 8 word]"
  by (rule untrusted_pickle_reads_inside) simp


section \<open>Copies\<close>

lemma Resize_room:
  assumes "Resize mem n p = Inr (True, p')" "n < 2 ^ 40"
  shows "\<exists>b. p_header p' = Some b \<and> n \<le> length b \<and> p_header_size p' = p_header_size p"
proof -
  have "n \<le> AlignInt n 64" by (rule AlignInt_64) (rule assms)
  moreover have "length (realloc_bytes h k junk) = k" for h k junk by (simp add: realloc_bytes_def Let_def)
  ultimately show ?thesis using assms(1)
    by (auto simp: Resize_def Let_def kPayloadUnit_def res_simps split: option.splits)
qed

lemma wire_parts:
  assumes "pickle_wire p = Inr w"
  obtains b where "p_header p = Some b" "pickle_size p = Inr (length w)" "w = take (length w) b" "length w \<le> length b"
    "length w = p_header_size p + le_value (take 4 b)"
  using assms
  by (auto simp: pickle_wire_def pickle_size_def payload_size_def header_bytes_def peek_def res_simps split: option.splits if_splits)

lemma wire_of_copy:
  assumes "pickle_wire p = Inr w" "4 \<le> p_header_size p" "p_header q = Some (w @ rest)" "p_header_size q = p_header_size p"
  shows "pickle_wire q = Inr w"
proof -
  obtain b where b: "w = take (length w) b" "length w = p_header_size p + le_value (take 4 b)"
    by (rule wire_parts [OF assms(1)])
  have "4 \<le> length w" using b(2) assms(2) by simp
  then have "take 4 w = take 4 b" by (subst b(1)) (simp add: min_def)
  with \<open>4 \<le> length w\<close> b(2) assms(3,4) show ?thesis
    by (simp add: pickle_wire_def pickle_size_def payload_size_def header_bytes_def peek_def)
qed

text \<open>
  A copy-constructed or assigned pickle, whatever the target was before, has the same bytes
  on the wire as the original; and where it fails, it is because memory ran out.
\<close>

theorem copies_equal_on_wire:
  assumes w: "pickle_wire other = Inr w" "4 \<le> p_header_size other" "length w < 2 ^ 40" and mem: "\<forall>c. mem c \<noteq> None"
  shows "(\<exists>q. Pickle_copy mem other = Inr q \<and> pickle_wire q = Inr w) \<and>
    (\<exists>q. Pickle_assign mem False self other = Inr q \<and> pickle_wire q = Inr w \<and>
         p_variable_buffer_offset q = p_variable_buffer_offset other)"
proof -
  obtain b where b: "p_header other = Some b" "pickle_size other = Inr (length w)" "w = take (length w) b" "length w \<le> length b"
    by (rule wire_parts [OF w(1)])
  have peek: "peek b 0 (length w) = Inr w" using b(3,4) by (simp add: peek_def)
  have fill: "\<exists>p1 q. Resize mem (length w) p0 = Inr (True, p1) \<and> set_bytes 0 w p1 = Inr q \<and> pickle_wire q = Inr w \<and>
      (\<forall>v. pickle_wire (q\<lparr>p_variable_buffer_offset := v\<rparr>) = Inr w)"
    if ro: "p_capacity p0 \<noteq> kCapacityReadOnly" and hs: "p_header_size p0 = p_header_size other" for p0
  proof -
    obtain junk where "mem (AlignInt (length w) kPayloadUnit) = Some junk" using mem by blast
    then obtain p1 where R: "Resize mem (length w) p0 = Inr (True, p1)"
      using ro by (simp add: Resize_def Let_def)
    from Resize_room [OF R w(3)] obtain c where c: "p_header p1 = Some c" "length w \<le> length c" "p_header_size p1 = p_header_size p0"
      by blast
    then have "set_bytes 0 w p1 = Inr (p1\<lparr>p_header := Some (w @ drop (length w) c)\<rparr>)"
      by (simp add: set_bytes_def header_bytes_def poke_def)
    moreover have "pickle_wire (p1\<lparr>p_header := Some (w @ drop (length w) c), p_variable_buffer_offset := v\<rparr>) = Inr w" for v
      using c(3) hs by (auto intro!: wire_of_copy [OF w(1,2)])
    moreover have "pickle_wire (p1\<lparr>p_header := Some (w @ drop (length w) c)\<rparr>) = Inr w"
      using c(3) hs by (auto intro!: wire_of_copy [OF w(1,2)])
    ultimately show ?thesis using R by auto
  qed
  have "\<exists>q. Pickle_copy mem other = Inr q \<and> pickle_wire q = Inr w"
    using fill [of "\<lparr>p_header = None, p_header_size = p_header_size other, p_capacity = 0,
         p_variable_buffer_offset = p_variable_buffer_offset other\<rparr>"] b(1,2) peek
    by (auto simp: Pickle_copy_def header_bytes_def kCapacityReadOnly_def)
  moreover
  define p1 where "p1 = (if p_capacity self = kCapacityReadOnly then self\<lparr>p_header := None, p_capacity := 0\<rparr> else self)"
  define p2 where "p2 = (if p_header_size p1 \<noteq> p_header_size other then p1\<lparr>p_header := None, p_header_size := p_header_size other\<rparr> else p1)"
  have "p_capacity p2 \<noteq> kCapacityReadOnly" "p_header_size p2 = p_header_size other"
    by (simp_all add: p1_def p2_def kCapacityReadOnly_def)
  from fill [OF this] b(1,2) peek
  have "\<exists>q. Pickle_assign mem False self other = Inr q \<and> pickle_wire q = Inr w \<and>
         p_variable_buffer_offset q = p_variable_buffer_offset other"
    unfolding Pickle_assign_def Let_def p1_def [symmetric] p2_def [symmetric] by (auto simp: header_bytes_def)
  ultimately show ?thesis by blast
qed

theorem copies_equal_on_wire_witness:
  "\<exists>q. Pickle_copy (\<lambda>n. Some (\<lambda>_. 7)) (Pickle_data (le_bytes 4 1 @ [42])) = Inr q \<and> pickle_wire q = Inr (le_bytes 4 1 @ [42])"
proof -
  let ?p = "Pickle_data (le_bytes 4 1 @ [42])"
  have p: "?p = \<lparr>p_header = Some (le_bytes 4 1 @ [42]), p_header_size = 4, p_capacity = kCapacityReadOnly, p_variable_buffer_offset = 0\<rparr>"
    using Pickle_data_wire [of "[]" "[42]"] by simp
  have "pickle_wire ?p = Inr (le_bytes 4 1 @ [42])" "4 \<le> p_header_size ?p"
    unfolding p by (simp_all add: pickle_wire_def pickle_size_def payload_size_def header_bytes_def peek_def le_value_le_bytes)
  from copies_equal_on_wire [OF this, of "\<lambda>n. Some (\<lambda>_. 7)"] show ?thesis by simp
qed

end
