(* ===== verification/Hashing.thy ===== *)
theory Hashing imports Prelude "HOL-Library.Word" begin

text \<open>
  What the two hash functions share: 32-bit words as bytes, hashing in blocks of 64 bytes, and a
  locale for a context that absorbs data in pieces of any size.
\<close>

section \<open>Words and bytes\<close>

definition load32 :: "8 word list \<Rightarrow> 32 word" where
  "load32 b = or (push_bit 16 (or (push_bit 8 (ucast (b ! 3))) (ucast (b ! 2)))) (or (push_bit 8 (ucast (b ! 1))) (ucast (b ! 0)))"

definition store32 :: "32 word \<Rightarrow> 8 word list" where
  "store32 t = [ucast t, ucast (drop_bit 8 t), ucast (drop_bit 16 t), ucast (drop_bit 24 t)]"

lemma length_store32 [simp]: "length (store32 t) = 4"
  by (simp add: store32_def)

lemma store32_load32: "length b = 4 \<Longrightarrow> store32 (load32 b) = b"
proof -
  assume "length b = 4"
  then obtain b0 b1 b2 b3 where b: "b = [b0, b1, b2, b3]"
    by (auto simp: numeral_eq_Suc length_Suc_conv)
  have "ucast (load32 b) = b0" "ucast (drop_bit 8 (load32 b)) = b1" "ucast (drop_bit 16 (load32 b)) = b2"
    "ucast (drop_bit 24 (load32 b)) = b3"
    by (rule bit_word_eqI; auto simp: b load32_def bit_simps dest: bit_imp_le_length)+
  then show ?thesis by (simp add: store32_def b)
qed

lemma load32_store32: "load32 (store32 t) = t"
proof (rule bit_word_eqI)
  fix n
  assume "n < LENGTH(32)"
  then consider "n < 8" | "8 \<le> n" "n < 16" | "16 \<le> n" "n < 24" | "24 \<le> n" "n < 32" by fastforce
  then show "bit (load32 (store32 t)) n = bit t n"
    by cases (auto simp: load32_def store32_def bit_simps)
qed

fun words32 :: "8 word list \<Rightarrow> 32 word list" where
  "words32 (a # b # c # d # bs) = load32 [a, b, c, d] # words32 bs"
| "words32 _ = []"

lemma length_words32: "length (words32 bs) = length bs div 4"
  by (induction bs rule: words32.induct) auto

definition rotl :: "nat \<Rightarrow> 32 word \<Rightarrow> 32 word" where
  "rotl n x = or (push_bit n x) (drop_bit (32 - n) x)"

text \<open>
  The same in the words of the standards, to which the references of the hash functions refer:
  the number four bytes stand for, least significant first, its bytes, and the library's rotation.
\<close>

primrec le_value :: "8 word list \<Rightarrow> nat" where
  "le_value [] = 0"
| "le_value (b # bs) = unat b + 256 * le_value bs"

definition le_word :: "8 word list \<Rightarrow> 32 word" where
  "le_word b = word_of_nat (le_value b)"

definition le_bytes :: "32 word \<Rightarrow> 8 word list" where
  "le_bytes t = map (\<lambda>i. word_of_nat (unat t div 256 ^ i)) [0, 1, 2, 3]"

fun le_words :: "8 word list \<Rightarrow> 32 word list" where
  "le_words (a # b # c # d # bs) = le_word [a, b, c, d] # le_words bs"
| "le_words _ = []"

lemma unat_byte: "unat (ucast t :: 8 word) = unat (t :: 32 word) mod 256"
  using unsigned_of_nat [where ?'a = nat and ?'b = 8, of "unat t"] by (simp add: take_bit_eq_mod)

lemma store32_le: "store32 t = le_bytes t"
proof -
  have "ucast (drop_bit n t) = (word_of_nat (unat t div 2 ^ n) :: 8 word)" for n
    by (rule word_unat_eq_iff [THEN iffD2])
      (simp only: unat_byte unat_drop_bit_eq drop_bit_eq_div [of n "unat t"], simp add: unsigned_of_nat take_bit_eq_mod)
  from this [of 0] this [of 8] this [of 16] this [of 24] show ?thesis
    by (simp add: store32_def le_bytes_def)
qed

lemma store32_le_fun: "store32 = le_bytes"
  by (simp add: fun_eq_iff store32_le)

lemma digits_256:
  "n mod 256 + (256 * (n div 256 mod 256) + (65536 * (n div 65536 mod 256) + 16777216 * (n div 16777216))) = (n :: nat)"
proof -
  have d: "n div 65536 = n div 256 div 256" "n div 16777216 = n div 256 div 256 div 256"
    by (simp_all add: div_mult2_eq [symmetric])
  have c: "m mod 256 + 256 * (m div 256) = m" for m :: nat by simp
  have "n = n mod 256 + 256 * (n div 256 mod 256 + 256 * (n div 256 div 256 mod 256 + 256 * (n div 256 div 256 div 256)))"
    by (simp only: c)
  then show ?thesis unfolding d by (simp only: distrib_left mult.assoc [symmetric])
qed

lemma le_value_bytes: "le_value (le_bytes t) = unat t"
proof -
  have "unat t < 2 ^ 32" using unsigned_less [of t] by simp
  then show ?thesis by (simp add: le_bytes_def unat_byte unsigned_of_nat take_bit_eq_mod digits_256)
qed

lemma load32_le:
  assumes "length b = 4"
  shows "load32 b = le_word b"
proof -
  have "le_word (store32 (load32 b)) = load32 b" by (simp add: store32_le le_word_def le_value_bytes)
  then show ?thesis by (simp add: store32_load32 [OF assms])
qed

lemma words32_le: "words32 bs = le_words bs"
  by (induction bs rule: words32.induct) (simp_all add: load32_le)

lemma rotl_word_rotl: "n < 32 \<Longrightarrow> rotl n x = word_rotl n x"
proof (rule bit_word_eqI)
  fix i
  assume "n < 32" "i < LENGTH(32)"
  moreover have "i + 32 - n = 32 + i - n" by presburger
  ultimately show "bit (rotl n x) i = bit (word_rotl n x) i"
    by (cases "i < n") (auto simp: rotl_def bit_simps mod_if dest: bit_imp_le_length)
qed

section \<open>Blocks\<close>

function absorb :: "('h \<Rightarrow> 8 word list \<Rightarrow> 'h) \<Rightarrow> 'h \<Rightarrow> 8 word list \<Rightarrow> 'h \<times> 8 word list" where
  "absorb compress h bs = (if length bs < 64 then (h, bs) else absorb compress (compress h (take 64 bs)) (drop 64 bs))"
  by pat_completeness auto
termination
  by (relation "measure (\<lambda>(c, h, bs). length bs)") auto

declare absorb.simps [simp del]

lemma absorb_short [simp]: "length bs < 64 \<Longrightarrow> absorb compress h bs = (h, bs)"
  by (simp add: absorb.simps)

lemma absorb_block: "64 \<le> length bs \<Longrightarrow> absorb compress h bs = absorb compress (compress h (take 64 bs)) (drop 64 bs)"
  by (simp add: absorb.simps [of compress h bs])

lemma absorb_rest: "length (snd (absorb compress h bs)) = length bs mod 64"
proof (induction compress h bs rule: absorb.induct)
  case (1 compress h bs)
  show ?case
  proof (cases "length bs < 64")
    case False
    then have "(length bs - 64) mod 64 = length bs mod 64" by (simp add: le_mod_geq)
    with 1 False show ?thesis by (simp add: absorb_block)
  qed simp
qed

lemma absorb_append:
  "absorb compress h (xs @ ys) = (case absorb compress h xs of (h', r) \<Rightarrow> absorb compress h' (r @ ys))"
proof (induction compress h xs rule: absorb.induct)
  case (1 compress h xs)
  show ?case
  proof (cases "length xs < 64")
    case False
    then have "absorb compress h (xs @ ys) = absorb compress (compress h (take 64 xs)) (drop 64 xs @ ys)"
      by (simp add: absorb_block)
    with 1 False show ?thesis by (simp add: absorb_block [of xs])
  qed simp
qed

text \<open>Padding: a byte 0x80 and zeros until eight bytes are left in the last block, then the length.\<close>

definition pad_message :: "(nat \<Rightarrow> 8 word list) \<Rightarrow> 8 word list \<Rightarrow> 8 word list" where
  "pad_message len msg = msg @ [0x80] @ replicate ((64 + 55 - length msg mod 64) mod 64) 0 @ len (8 * length msg)"

section \<open>A context that absorbs data in pieces\<close>

text \<open>
  \<open>view\<close> gives the hash of the complete blocks, the bytes waiting in the buffer, and the bit
  count modulo some \<open>2 ^ w\<close>.
\<close>

locale block_stream =
  fixes compress :: "'h \<Rightarrow> 8 word list \<Rightarrow> 'h"
    and ok :: "'c \<Rightarrow> bool"
    and view :: "'c \<Rightarrow> 'h \<times> 8 word list"
    and count :: "'c \<Rightarrow> nat"
    and modulus :: nat
    and update :: "'c \<Rightarrow> 8 word list \<Rightarrow> 'c"
  assumes update_ok: "ok c \<Longrightarrow> ok (update c d)"
    and update_view: "ok c \<Longrightarrow> view (update c d) = absorb compress (fst (view c)) (snd (view c) @ d)"
    and update_count: "ok c \<Longrightarrow> count (update c d) = (count c + 8 * length d) mod modulus"
begin

lemma pieces_ok: "ok c \<Longrightarrow> ok (foldl update c ds)"
  by (induction ds arbitrary: c) (simp_all add: update_ok)

lemma pieces_view:
  assumes "ok c" "length (snd (view c)) < 64"
  shows "view (foldl update c ds) = absorb compress (fst (view c)) (snd (view c) @ concat ds)"
  using assms
proof (induction ds arbitrary: c)
  case Nil
  then show ?case by simp
next
  case (Cons d ds)
  have "length (snd (view (update c d))) < 64"
    by (simp add: update_view [OF Cons.prems(1)] absorb_rest)
  with Cons.IH [OF update_ok [OF Cons.prems(1)]] show ?case
    using absorb_append [of compress "fst (view c)" "snd (view c) @ d" "concat ds"]
    by (simp add: update_view [OF Cons.prems(1)] split: prod.splits)
qed

lemma pieces_count:
  assumes "ok c" "count c < modulus"
  shows "count (foldl update c ds) = (count c + 8 * length (concat ds)) mod modulus"
  using assms
proof (induction ds arbitrary: c)
  case (Cons d ds)
  have "count (update c d) < modulus" using Cons.prems by (simp add: update_count)
  with Cons.IH [OF update_ok [OF Cons.prems(1)]] show ?case
    by (simp add: update_count [OF Cons.prems(1)] mod_add_right_eq algebra_simps)
qed simp

end

end
