(* ===== verification/Md5.thy ===== *)
theory Md5 imports Hashing Numbers begin

text \<open>
  \<open>base/md5.cc\<close>.  The program has four registers; a step that assigns to \<open>w\<close> from \<open>x, y, z\<close> is
  followed by one that assigns to \<open>z\<close> from \<open>w, x, y\<close>, so the steps are a table that is folded
  over a rotating tuple.  Shown: the steps follow the pattern of RFC 1321, and hashing data in
  pieces through a context gives the digest of the whole message with the standard padding.
\<close>

section \<open>The transform\<close>

definition F1 :: "32 word \<Rightarrow> 32 word \<Rightarrow> 32 word \<Rightarrow> 32 word" where
  "F1 x y z = xor z (and x (xor y z))"

definition F2 :: "32 word \<Rightarrow> 32 word \<Rightarrow> 32 word \<Rightarrow> 32 word" where
  "F2 x y z = F1 z x y"

definition F3 :: "32 word \<Rightarrow> 32 word \<Rightarrow> 32 word \<Rightarrow> 32 word" where
  "F3 x y z = xor x (xor y z)"

definition F4 :: "32 word \<Rightarrow> 32 word \<Rightarrow> 32 word \<Rightarrow> 32 word" where
  "F4 x y z = xor y (or x (not z))"

definition MD5STEP :: "(32 word \<Rightarrow> 32 word \<Rightarrow> 32 word \<Rightarrow> 32 word) \<Rightarrow> 32 word \<Rightarrow> 32 word \<Rightarrow> 32 word \<Rightarrow> 32 word \<Rightarrow>
    32 word \<Rightarrow> nat \<Rightarrow> 32 word" where
  "MD5STEP f w x y z dat s = rotl s (w + f x y z + dat) + x"

definition md5_steps :: "((32 word \<Rightarrow> 32 word \<Rightarrow> 32 word \<Rightarrow> 32 word) \<times> nat \<times> 32 word \<times> nat) list" where
  "md5_steps = [
    (F1, 0, 0xd76aa478, 7), (F1, 1, 0xe8c7b756, 12), (F1, 2, 0x242070db, 17), (F1, 3, 0xc1bdceee, 22),
    (F1, 4, 0xf57c0faf, 7), (F1, 5, 0x4787c62a, 12), (F1, 6, 0xa8304613, 17), (F1, 7, 0xfd469501, 22),
    (F1, 8, 0x698098d8, 7), (F1, 9, 0x8b44f7af, 12), (F1, 10, 0xffff5bb1, 17), (F1, 11, 0x895cd7be, 22),
    (F1, 12, 0x6b901122, 7), (F1, 13, 0xfd987193, 12), (F1, 14, 0xa679438e, 17), (F1, 15, 0x49b40821, 22),
    (F2, 1, 0xf61e2562, 5), (F2, 6, 0xc040b340, 9), (F2, 11, 0x265e5a51, 14), (F2, 0, 0xe9b6c7aa, 20),
    (F2, 5, 0xd62f105d, 5), (F2, 10, 0x02441453, 9), (F2, 15, 0xd8a1e681, 14), (F2, 4, 0xe7d3fbc8, 20),
    (F2, 9, 0x21e1cde6, 5), (F2, 14, 0xc33707d6, 9), (F2, 3, 0xf4d50d87, 14), (F2, 8, 0x455a14ed, 20),
    (F2, 13, 0xa9e3e905, 5), (F2, 2, 0xfcefa3f8, 9), (F2, 7, 0x676f02d9, 14), (F2, 12, 0x8d2a4c8a, 20),
    (F3, 5, 0xfffa3942, 4), (F3, 8, 0x8771f681, 11), (F3, 11, 0x6d9d6122, 16), (F3, 14, 0xfde5380c, 23),
    (F3, 1, 0xa4beea44, 4), (F3, 4, 0x4bdecfa9, 11), (F3, 7, 0xf6bb4b60, 16), (F3, 10, 0xbebfbc70, 23),
    (F3, 13, 0x289b7ec6, 4), (F3, 0, 0xeaa127fa, 11), (F3, 3, 0xd4ef3085, 16), (F3, 6, 0x04881d05, 23),
    (F3, 9, 0xd9d4d039, 4), (F3, 12, 0xe6db99e5, 11), (F3, 15, 0x1fa27cf8, 16), (F3, 2, 0xc4ac5665, 23),
    (F4, 0, 0xf4292244, 6), (F4, 7, 0x432aff97, 10), (F4, 14, 0xab9423a7, 15), (F4, 5, 0xfc93a039, 21),
    (F4, 12, 0x655b59c3, 6), (F4, 3, 0x8f0ccc92, 10), (F4, 10, 0xffeff47d, 15), (F4, 1, 0x85845dd1, 21),
    (F4, 8, 0x6fa87e4f, 6), (F4, 15, 0xfe2ce6e0, 10), (F4, 6, 0xa3014314, 15), (F4, 13, 0x4e0811a1, 21),
    (F4, 4, 0xf7537e82, 6), (F4, 11, 0xbd3af235, 10), (F4, 2, 0x2ad7d2bb, 15), (F4, 9, 0xeb86d391, 21)]"

type_synonym registers = "32 word \<times> 32 word \<times> 32 word \<times> 32 word"

definition md5_step :: "32 word list \<Rightarrow> ((32 word \<Rightarrow> 32 word \<Rightarrow> 32 word \<Rightarrow> 32 word) \<times> nat \<times> 32 word \<times> nat) \<Rightarrow>
    registers \<Rightarrow> registers" where
  "md5_step inp st r =
     (case st of (f, i, k, s) \<Rightarrow> case r of (w, x, y, z) \<Rightarrow> (z, MD5STEP f w x y z (inp ! i + k) s, x, y))"

definition MD5Transform :: "32 word list \<Rightarrow> 32 word list \<Rightarrow> 32 word list" where
  "MD5Transform buf inp =
     (case fold (md5_step inp) md5_steps (buf ! 0, buf ! 1, buf ! 2, buf ! 3) of
        (a, b, c, d) \<Rightarrow> [buf ! 0 + a, buf ! 1 + b, buf ! 2 + c, buf ! 3 + d])"

section \<open>The context\<close>

record md5_context =
  m_buf :: "32 word list"
  m_bits0 :: "32 word"
  m_bits1 :: "32 word"
  m_in :: "8 word list"

primrec byteReverse :: "nat \<Rightarrow> 8 word list \<Rightarrow> 8 word list" where
  "byteReverse 0 buf = buf"
| "byteReverse (Suc longs) buf = store32 (load32 (take 4 buf)) @ byteReverse longs (drop 4 buf)"

definition overwrite :: "8 word list \<Rightarrow> nat \<Rightarrow> 8 word list \<Rightarrow> 8 word list" where
  "overwrite buf off d = take off buf @ d @ drop (off + length d) buf"

definition MD5Init :: "md5_context \<Rightarrow> md5_context" where
  "MD5Init ctx = ctx\<lparr>m_buf := [0x67452301, 0xefcdab89, 0x98badcfe, 0x10325476], m_bits0 := 0, m_bits1 := 0\<rparr>"

text \<open>\<open>byteReverse(ctx->in, 16); MD5Transform(ctx->buf, (uint32 *)ctx->in)\<close>\<close>

definition transform_in :: "md5_context \<Rightarrow> md5_context" where
  "transform_in ctx =
     (let i = byteReverse 16 (m_in ctx) in ctx\<lparr>m_in := i, m_buf := MD5Transform (m_buf ctx) (words32 i)\<rparr>)"

function md5_blocks :: "md5_context \<Rightarrow> 8 word list \<Rightarrow> md5_context \<times> 8 word list" where
  "md5_blocks ctx buf =
     (if length buf \<ge> 64 then md5_blocks (transform_in (ctx\<lparr>m_in := overwrite (m_in ctx) 0 (take 64 buf)\<rparr>)) (drop 64 buf)
      else (ctx, buf))"
  by pat_completeness auto
termination
  by (relation "measure (\<lambda>(ctx, buf). length buf)") auto

declare md5_blocks.simps [simp del]

definition MD5Update :: "md5_context \<Rightarrow> 8 word list \<Rightarrow> md5_context" where
  "MD5Update ctx dat =
     (let t = m_bits0 ctx;
          bits0 = t + push_bit 3 (word_of_nat (length dat));
          bits1 = (if bits0 < t then m_bits1 ctx + 1 else m_bits1 ctx) + word_of_nat (length dat div 2 ^ 29);
          ctx1 = ctx\<lparr>m_bits0 := bits0, m_bits1 := bits1\<rparr>;
          used = unat (and (drop_bit 3 t) 0x3f)
      in if used \<noteq> 0 \<and> length dat < 64 - used then ctx1\<lparr>m_in := overwrite (m_in ctx1) used dat\<rparr>
         else
           let (ctx2, buf) =
                 (if used \<noteq> 0
                  then (transform_in (ctx1\<lparr>m_in := overwrite (m_in ctx1) used (take (64 - used) dat)\<rparr>), drop (64 - used) dat)
                  else (ctx1, dat));
               (ctx3, rest) = md5_blocks ctx2 buf
           in ctx3\<lparr>m_in := overwrite (m_in ctx3) 0 rest\<rparr>)"

definition MD5Final :: "md5_context \<Rightarrow> 8 word list \<times> md5_context" where
  "MD5Final ctx =
     (let used = unat (and (drop_bit 3 (m_bits0 ctx)) 0x3f);
          ctx1 = ctx\<lparr>m_in := overwrite (m_in ctx) used [0x80]\<rparr>;
          free = 64 - 1 - used;
          ctx2 = (if free < 8
            then let c = transform_in (ctx1\<lparr>m_in := overwrite (m_in ctx1) (used + 1) (replicate free 0)\<rparr>)
                 in c\<lparr>m_in := overwrite (m_in c) 0 (replicate 56 0)\<rparr>
            else ctx1\<lparr>m_in := overwrite (m_in ctx1) (used + 1) (replicate (free - 8) 0)\<rparr>);
          i1 = byteReverse 14 (m_in ctx2);
          i2 = overwrite i1 56 (store32 (m_bits0 ctx2));
          i3 = overwrite i2 60 (store32 (m_bits1 ctx2));
          buf = MD5Transform (m_buf ctx2) (words32 i3)
      in (byteReverse 4 (concat (map store32 buf)),
          \<lparr>m_buf = [0, 0, 0, 0], m_bits0 = 0, m_bits1 = 0, m_in = replicate 64 0\<rparr>))"

definition zEncode :: "int list" where
  "zEncode = [48, 49, 50, 51, 52, 53, 54, 55, 56, 57, 97, 98, 99, 100, 101, 102]"

definition MD5DigestToBase16 :: "8 word list \<Rightarrow> units" where
  "MD5DigestToBase16 digest =
     concat (map (\<lambda>a. [zEncode ! unat (and (drop_bit 4 a) 0xf), zEncode ! unat (and a 0xf)]) digest)"

text \<open>The context of \<open>MD5Sum\<close> is an uninitialised local variable: an argument.\<close>

definition MD5Sum :: "md5_context \<Rightarrow> 8 word list \<Rightarrow> 8 word list" where
  "MD5Sum ctx dat = fst (MD5Final (MD5Update (MD5Init ctx) dat))"

definition MD5String :: "md5_context \<Rightarrow> 8 word list \<Rightarrow> units" where
  "MD5String ctx str = MD5DigestToBase16 (MD5Sum ctx str)"


section \<open>The steps follow RFC 1321\<close>

lemma F1_select: "F1 x y z = or (and x y) (and (not x) z)"
  by (rule bit_word_eqI) (auto simp: F1_def bit_simps)

definition rfc_function :: "nat \<Rightarrow> 32 word \<Rightarrow> 32 word \<Rightarrow> 32 word \<Rightarrow> 32 word" where
  "rfc_function i x y z =
     (if i < 16 then or (and x y) (and (not x) z)
      else if i < 32 then or (and x z) (and y (not z))
      else if i < 48 then xor (xor x y) z
      else xor y (or x (not z)))"

definition rfc_index :: "nat \<Rightarrow> nat" where
  "rfc_index i = (if i < 16 then i else if i < 32 then (5 * i + 1) mod 16 else if i < 48 then (3 * i + 5) mod 16 else 7 * i mod 16)"

definition rfc_shift :: "nat \<Rightarrow> nat" where
  "rfc_shift i = [[7, 12, 17, 22], [5, 9, 14, 20], [4, 11, 16, 23], [6, 10, 15, 21]] ! (i div 16) ! (i mod 4)"

lemma step_functions: "map fst md5_steps = replicate 16 F1 @ replicate 16 F2 @ replicate 16 F3 @ replicate 16 F4"
  by (simp add: md5_steps_def numeral_eq_Suc)

lemma step_numbers: "map (\<lambda>(f, i, k, s). (i, s)) md5_steps = map (\<lambda>i. (rfc_index i, rfc_shift i)) [0..<64]"
  by (simp add: md5_steps_def upt_rec [of _ 64] rfc_index_def rfc_shift_def)

text \<open>The table \<open>T\<close> of the RFC, \<open>4294967296 * |sin (i + 1)|\<close> rounded down, written out.\<close>

definition md5_table :: "32 word list" where
  "md5_table = [
    0xd76aa478, 0xe8c7b756, 0x242070db, 0xc1bdceee, 0xf57c0faf, 0x4787c62a, 0xa8304613, 0xfd469501,
    0x698098d8, 0x8b44f7af, 0xffff5bb1, 0x895cd7be, 0x6b901122, 0xfd987193, 0xa679438e, 0x49b40821,
    0xf61e2562, 0xc040b340, 0x265e5a51, 0xe9b6c7aa, 0xd62f105d, 0x02441453, 0xd8a1e681, 0xe7d3fbc8,
    0x21e1cde6, 0xc33707d6, 0xf4d50d87, 0x455a14ed, 0xa9e3e905, 0xfcefa3f8, 0x676f02d9, 0x8d2a4c8a,
    0xfffa3942, 0x8771f681, 0x6d9d6122, 0xfde5380c, 0xa4beea44, 0x4bdecfa9, 0xf6bb4b60, 0xbebfbc70,
    0x289b7ec6, 0xeaa127fa, 0xd4ef3085, 0x04881d05, 0xd9d4d039, 0xe6db99e5, 0x1fa27cf8, 0xc4ac5665,
    0xf4292244, 0x432aff97, 0xab9423a7, 0xfc93a039, 0x655b59c3, 0x8f0ccc92, 0xffeff47d, 0x85845dd1,
    0x6fa87e4f, 0xfe2ce6e0, 0xa3014314, 0x4e0811a1, 0xf7537e82, 0xbd3af235, 0x2ad7d2bb, 0xeb86d391]"

lemma step_table: "map (\<lambda>(f, i, k, s). k) md5_steps = md5_table"
  by (simp add: md5_steps_def md5_table_def)

definition rfc_step :: "32 word list \<Rightarrow> nat \<Rightarrow> registers \<Rightarrow> registers" where
  "rfc_step m i r = (case r of (a, b, c, d) \<Rightarrow>
     (d, b + word_rotl (rfc_shift i) (a + rfc_function i b c d + m ! rfc_index i + md5_table ! i), b, c))"

definition rfc_transform :: "32 word list \<Rightarrow> 32 word list \<Rightarrow> 32 word list" where
  "rfc_transform h m =
     (case fold (rfc_step m) [0..<64] (h ! 0, h ! 1, h ! 2, h ! 3) of
        (a, b, c, d) \<Rightarrow> [h ! 0 + a, h ! 1 + b, h ! 2 + c, h ! 3 + d])"

lemma length_steps: "length md5_steps = 64"
  by (simp add: md5_steps_def)

lemma nth_steps:
  assumes "i < 64"
  shows "\<exists>f. md5_steps ! i = (f, rfc_index i, md5_table ! i, rfc_shift i) \<and> (\<forall>x y z. f x y z = rfc_function i x y z)"
proof -
  obtain f j k s where st: "md5_steps ! i = (f, j, k, s)" by (cases "md5_steps ! i") auto
  have "map (\<lambda>(f, i, k, s). (i, s)) md5_steps ! i = (j, s)" using assms st by (simp add: length_steps)
  then have js: "j = rfc_index i" "s = rfc_shift i" using assms by (simp_all add: step_numbers)
  have k: "md5_table ! i = k" using assms st by (simp add: step_table [symmetric] length_steps)
  have "map fst md5_steps ! i = f" using assms st by (simp add: length_steps)
  then have "f = (if i < 16 then F1 else if i < 32 then F2 else if i < 48 then F3 else F4)"
    using assms by (auto simp: step_functions nth_append split: if_splits)
  moreover have "F2 x y z = or (and x z) (and y (not z))" for x y z
    by (rule bit_word_eqI) (auto simp: F1_def F2_def bit_simps)
  ultimately have "f x y z = rfc_function i x y z" for x y z
    by (simp add: rfc_function_def F1_select F3_def F4_def xor.assoc)
  with st js k show ?thesis by blast
qed

lemma rfc_shift_less: "i < 64 \<Longrightarrow> rfc_shift i < 32"
proof -
  assume "i < 64"
  then have "i div 16 = 0 \<or> i div 16 = 1 \<or> i div 16 = 2 \<or> i div 16 = 3" by linarith
  moreover have "i mod 4 = 0 \<or> i mod 4 = 1 \<or> i mod 4 = 2 \<or> i mod 4 = 3" by linarith
  ultimately show ?thesis by (elim disjE) (simp_all add: rfc_shift_def)
qed

lemma transform_rfc: "MD5Transform h m = rfc_transform h m"
proof -
  have "fold (md5_step m) md5_steps r = fold (rfc_step m) [0..<64] r" for r
  proof -
    have st: "md5_steps = map (\<lambda>i. md5_steps ! i) [0..<64]" using map_nth [of md5_steps] by (simp add: length_steps)
    have eq: "md5_step m (md5_steps ! i) r = rfc_step m i r" if "i < 64" for i r
      using nth_steps [OF that] rotl_word_rotl [OF rfc_shift_less [OF that]]
      by (auto simp: md5_step_def MD5STEP_def rfc_step_def add.commute add.left_commute split: prod.splits)
    have "fold (md5_step m) (map (\<lambda>i. md5_steps ! i) xs) r = fold (rfc_step m) xs r" if "\<forall>i\<in>set xs. i < 64" for xs r
      using that by (induction xs arbitrary: r) (simp_all add: eq)
    then show ?thesis by (subst st) simp
  qed
  then show ?thesis by (simp add: MD5Transform_def rfc_transform_def)
qed

section \<open>The buffer\<close>

lemma byteReverse_id: "4 * n \<le> length buf \<Longrightarrow> byteReverse n buf = buf"
proof (induction n arbitrary: buf)
  case (Suc n)
  then have "byteReverse n (drop 4 buf) = drop 4 buf" "length (take 4 buf) = 4" by simp_all
  then show ?case by (simp add: store32_load32)
qed simp

definition md5_compress :: "32 word list \<Rightarrow> 8 word list \<Rightarrow> 32 word list" where
  "md5_compress h b = MD5Transform h (words32 b)"

lemma transform_in_eq: "length (m_in c) = 64 \<Longrightarrow> transform_in c = c\<lparr>m_buf := md5_compress (m_buf c) (m_in c)\<rparr>"
  by (simp add: transform_in_def Let_def byteReverse_id md5_compress_def)

lemma length_overwrite: "off + length d \<le> length buf \<Longrightarrow> length (overwrite buf off d) = length buf"
  by (simp add: overwrite_def)

lemma overwrite_all: "length d = length buf \<Longrightarrow> overwrite buf 0 d = d"
  by (simp add: overwrite_def)

lemma take_overwrite: "n = off + length d \<Longrightarrow> off \<le> length buf \<Longrightarrow> take n (overwrite buf off d) = take off buf @ d"
  by (simp add: overwrite_def)

lemma md5_blocks_absorb:
  assumes "length (m_in c) = 64"
  shows "md5_blocks c buf = (let c' = fst (md5_blocks c buf) in (c', snd (absorb md5_compress (m_buf c) buf))) \<and>
    m_buf (fst (md5_blocks c buf)) = fst (absorb md5_compress (m_buf c) buf) \<and> length (m_in (fst (md5_blocks c buf))) = 64 \<and>
    m_bits0 (fst (md5_blocks c buf)) = m_bits0 c \<and> m_bits1 (fst (md5_blocks c buf)) = m_bits1 c"
  using assms
proof (induction c buf rule: md5_blocks.induct)
  case (1 c buf)
  show ?case
  proof (cases "length buf \<ge> 64")
    case True
    have i: "overwrite (m_in c) 0 (take 64 buf) = take 64 buf" using True 1(2) by (simp add: overwrite_all)
    then have t: "transform_in (c\<lparr>m_in := overwrite (m_in c) 0 (take 64 buf)\<rparr>) =
        c\<lparr>m_in := take 64 buf, m_buf := md5_compress (m_buf c) (take 64 buf)\<rparr>"
      using True by (simp add: transform_in_eq)
    show ?thesis
      using "1.IH" [OF True] True by (simp add: md5_blocks.simps [of c] t absorb_block Let_def)
  qed (use 1(2) in \<open>simp add: md5_blocks.simps [of c] Let_def\<close>)
qed

definition md5_count :: "md5_context \<Rightarrow> nat" where
  "md5_count c = unat (m_bits0 c) + 2 ^ 32 * unat (m_bits1 c)"

definition md5_view :: "md5_context \<Rightarrow> 32 word list \<times> 8 word list" where
  "md5_view c = (m_buf c, take (md5_count c div 8 mod 64) (m_in c))"

definition md5_ok :: "md5_context \<Rightarrow> bool" where
  "md5_ok c \<longleftrightarrow> length (m_in c) = 64"

lemma used_bytes: "unat (and (drop_bit 3 (m_bits0 c)) 0x3f) = md5_count c div 8 mod 64"
proof -
  have m: "(0x3f :: 32 word) = mask 6" by (simp add: mask_eq_exp_minus_1)
  have "unat (and (drop_bit 3 (m_bits0 c)) (mask 6)) = unat (m_bits0 c) div 8 mod 64"
    by (simp add: take_bit_eq_mask [symmetric] unsigned_take_bit_eq unsigned_drop_bit_eq take_bit_eq_mod drop_bit_eq_div unat_div_distrib unat_mod_distrib)
  moreover have "md5_count c div 8 mod 64 = unat (m_bits0 c) div 8 mod 64"
  proof -
    have "2 ^ 32 * unat (m_bits1 c) = 8 * (64 * (2 ^ 23 * unat (m_bits1 c)))" by simp
    moreover have "(a + 8 * b) div 8 = b + a div (8::nat)" for a b by (rule div_mult_self2) simp
    ultimately show ?thesis unfolding md5_count_def by (simp only: mod_mult_self4)
  qed
  ultimately show ?thesis by (simp only: m)
qed

lemma carry_add:
  fixes a b n :: nat
  assumes "a < 2 ^ 32"
  shows "(a + n mod 2 ^ 32) mod 2 ^ 32 + 2 ^ 32 * ((b + (a + n mod 2 ^ 32) div 2 ^ 32 + n div 2 ^ 32) mod 2 ^ 32) =
    (a + 2 ^ 32 * b + n) mod 2 ^ 64"
proof -
  define x where "x = a + n mod 2 ^ 32"
  have "a + 2 ^ 32 * b + n = x + 2 ^ 32 * (b + n div 2 ^ 32)"
    unfolding x_def using mult_div_mod_eq [of "2 ^ 32" n] by simp
  then have "(a + 2 ^ 32 * b + n) mod (2 ^ 32 * 2 ^ 32) =
      2 ^ 32 * ((x + 2 ^ 32 * (b + n div 2 ^ 32)) div 2 ^ 32 mod 2 ^ 32) + (x + 2 ^ 32 * (b + n div 2 ^ 32)) mod 2 ^ 32"
    by (simp only: mod_mult2_eq)
  also have "(x + 2 ^ 32 * (b + n div 2 ^ 32)) div 2 ^ 32 = b + x div 2 ^ 32 + n div 2 ^ 32" by simp
  also have "(x + 2 ^ 32 * (b + n div 2 ^ 32)) mod 2 ^ 32 = x mod 2 ^ 32" by (simp only: mod_mult_self2)
  finally show ?thesis by (simp add: x_def)
qed

lemma md5_bits_carry:
  fixes lo hi :: "32 word"
  assumes lo': "lo' = lo + push_bit 3 (word_of_nat n)"
    and hi': "hi' = (if lo' < lo then hi + 1 else hi) + word_of_nat (n div 2 ^ 29)"
  shows "unat lo' + 2 ^ 32 * unat hi' = (unat lo + 2 ^ 32 * unat hi + 8 * n) mod 2 ^ 64"
proof -
  define x where "x = 8 * n mod 2 ^ 32"
  have lo: "unat lo < 2 ^ 32" using unsigned_less [of lo] by simp
  have "unat (push_bit 3 (word_of_nat n) :: 32 word) = x"
    by (simp add: x_def push_bit_eq_mult unat_word_ariths unsigned_of_nat take_bit_eq_mod mod_mult_right_eq mult.commute)
  then have l: "unat lo' = (unat lo + x) mod 2 ^ 32" by (simp add: lo' unat_word_ariths)
  have "x < 2 ^ 32" by (simp add: x_def)
  then have c: "(if lo' < lo then 1 else 0) = (unat lo + x) div 2 ^ 32"
  proof (cases "unat lo + x < 2 ^ 32")
    case False
    then have "(unat lo + x) mod 2 ^ 32 = unat lo + x - 2 ^ 32" using lo \<open>x < 2 ^ 32\<close> by (simp add: le_mod_geq)
    moreover have "(unat lo + x) div 2 ^ 32 = 1" using False lo \<open>x < 2 ^ 32\<close> by (simp add: div_nat_eqI)
    ultimately show ?thesis using False \<open>x < 2 ^ 32\<close> lo by (simp add: word_less_nat_alt l)
  qed (simp add: word_less_nat_alt l)
  have "8 * n div 2 ^ 32 = n div 2 ^ 29"
    using div_mult_mult1 [of 8 n "2 ^ 29"] by simp
  then have "unat hi' = (unat hi + (if lo' < lo then 1 else 0) + 8 * n div 2 ^ 32) mod 2 ^ 32"
    by (simp add: hi' unat_word_ariths unsigned_of_nat take_bit_eq_mod mod_add_left_eq mod_add_right_eq)
  then show ?thesis
    unfolding l c x_def using carry_add [OF lo, of "8 * n" "unat hi"] by simp
qed

lemma count_used: "(k + 8 * n) mod 2 ^ 64 div 8 mod 64 = (k div 8 mod 64 + n) mod (64::nat)"
proof -
  have "(k + 8 * n) mod (8 * 2 ^ 61) = 8 * ((k + 8 * n) div 8 mod 2 ^ 61) + (k + 8 * n) mod 8"
    by (rule mod_mult2_eq)
  then have "(k + 8 * n) mod 2 ^ 64 div 8 = (k div 8 + n) mod 2 ^ 61" by (simp add: add.commute)
  moreover have "(k div 8 + n) mod 2 ^ 61 mod 64 = (k div 8 + n) mod 64" by (rule mod_mod_cancel) simp
  ultimately show ?thesis by (simp add: mod_add_left_eq)
qed

text \<open>The context after the bit count, after a buffer that is not filled, and after whole blocks.\<close>

lemma MD5Update_cases:
  fixes c d
  defines "used \<equiv> md5_count c div 8 mod 64"
  assumes ok: "md5_ok c"
  obtains (result) c' where "MD5Update c d = c'" "md5_ok c'" "md5_count c' = (md5_count c + 8 * length d) mod 2 ^ 64"
    "md5_view c' = absorb md5_compress (m_buf c) (take used (m_in c) @ d)"
proof -
  define lo where "lo = m_bits0 c + push_bit 3 (word_of_nat (length d))"
  define hi where "hi = (if lo < m_bits0 c then m_bits1 c + 1 else m_bits1 c) + word_of_nat (length d div 2 ^ 29)"
  define c1 where "c1 = c\<lparr>m_bits0 := lo, m_bits1 := hi\<rparr>"
  have cnt: "md5_count x = (md5_count c + 8 * length d) mod 2 ^ 64" if "m_bits0 x = lo" "m_bits1 x = hi" for x
    using md5_bits_carry [OF lo_def hi_def] that by (simp add: md5_count_def)
  have len: "length (m_in c) = 64" using ok by (simp add: md5_ok_def)
  have u: "used < 64" by (simp add: used_def)
  have pos: "md5_count x div 8 mod 64 = (used + length d) mod 64" if "m_bits0 x = lo" "m_bits1 x = hi" for x
    unfolding cnt [OF that] used_def by (rule count_used)
  have upd: "MD5Update c d =
      (if used \<noteq> 0 \<and> length d < 64 - used then c1\<lparr>m_in := overwrite (m_in c) used d\<rparr>
       else case (if used \<noteq> 0
                  then (transform_in (c1\<lparr>m_in := overwrite (m_in c) used (take (64 - used) d)\<rparr>), drop (64 - used) d)
                  else (c1, d)) of (c2, buf) \<Rightarrow>
         case md5_blocks c2 buf of (c3, rest) \<Rightarrow> c3\<lparr>m_in := overwrite (m_in c3) 0 rest\<rparr>)"
    unfolding MD5Update_def Let_def used_bytes used_def [symmetric] lo_def [symmetric] hi_def [symmetric] c1_def [symmetric]
    by (simp add: c1_def)
  have blocks: thesis if R: "MD5Update c d = (case md5_blocks c2 buf of (c3, rest) \<Rightarrow> c3\<lparr>m_in := overwrite (m_in c3) 0 rest\<rparr>)"
      and l2: "length (m_in c2) = 64" and b2: "m_bits0 c2 = lo" "m_bits1 c2 = hi"
      and a2: "absorb md5_compress (m_buf c2) buf = absorb md5_compress (m_buf c) (take used (m_in c) @ d)" for c2 buf
  proof -
    obtain c3 where c3: "md5_blocks c2 buf = (c3, snd (absorb md5_compress (m_buf c2) buf))"
      "m_buf c3 = fst (absorb md5_compress (m_buf c2) buf)" "length (m_in c3) = 64" "m_bits0 c3 = lo" "m_bits1 c3 = hi"
      using md5_blocks_absorb [OF l2, of buf] b2 by (simp add: Let_def prod_eq_iff)
    let ?rest = "snd (absorb md5_compress (m_buf c) (take used (m_in c) @ d))"
    have r: "length ?rest = (used + length d) mod 64" using u len by (simp add: absorb_rest)
    then have "length ?rest \<le> 64" by (simp add: less_imp_le)
    show thesis
    proof (rule result)
      show "MD5Update c d = c3\<lparr>m_in := overwrite (m_in c3) 0 ?rest\<rparr>" by (simp add: R c3(1) a2)
      show "md5_ok (c3\<lparr>m_in := overwrite (m_in c3) 0 ?rest\<rparr>)"
        using \<open>length ?rest \<le> 64\<close> c3(3) by (simp add: md5_ok_def length_overwrite)
      show "md5_count (c3\<lparr>m_in := overwrite (m_in c3) 0 ?rest\<rparr>) = (md5_count c + 8 * length d) mod 2 ^ 64"
        by (rule cnt) (simp_all add: c3)
      have "md5_count (c3\<lparr>m_in := overwrite (m_in c3) 0 ?rest\<rparr>) div 8 mod 64 = length ?rest"
        unfolding r by (rule pos) (simp_all add: c3)
      then show "md5_view (c3\<lparr>m_in := overwrite (m_in c3) 0 ?rest\<rparr>) = absorb md5_compress (m_buf c) (take used (m_in c) @ d)"
        using c3(2) a2 by (simp add: md5_view_def take_overwrite prod_eq_iff)
    qed
  qed
  consider "used \<noteq> 0 \<and> length d < 64 - used" | "used \<noteq> 0" "64 - used \<le> length d" | "used = 0" by linarith
  then show thesis
  proof cases
    case 1
    let ?c' = "c1\<lparr>m_in := overwrite (m_in c) used d\<rparr>"
    have room: "used + length d < 64" using 1 by linarith
    then have "md5_count ?c' div 8 mod 64 = used + length d" by (subst pos) (simp_all add: c1_def)
    then have "md5_view ?c' = absorb md5_compress (m_buf c) (take used (m_in c) @ d)"
      using 1 len by (simp add: md5_view_def take_overwrite c1_def)
    moreover have "md5_ok ?c'" using room len by (simp add: md5_ok_def length_overwrite)
    moreover have "md5_count ?c' = (md5_count c + 8 * length d) mod 2 ^ 64" by (rule cnt) (simp_all add: c1_def)
    ultimately show thesis using result 1 upd by simp
  next
    case 2
    define w where "w = take used (m_in c) @ take (64 - used) d"
    have w: "length w = 64" "overwrite (m_in c) used (take (64 - used) d) = w"
      using 2 len u by (simp_all add: w_def overwrite_def)
    show thesis
    proof (rule blocks [of "c1\<lparr>m_in := w, m_buf := md5_compress (m_buf c) w\<rparr>" "drop (64 - used) d"])
      show "MD5Update c d = (case md5_blocks (c1\<lparr>m_in := w, m_buf := md5_compress (m_buf c) w\<rparr>) (drop (64 - used) d) of
          (c3, rest) \<Rightarrow> c3\<lparr>m_in := overwrite (m_in c3) 0 rest\<rparr>)"
        using 2 w upd by (simp add: transform_in_eq c1_def)
      have "take 64 (take used (m_in c) @ d) = w" "drop 64 (take used (m_in c) @ d) = drop (64 - used) d"
        using 2 len u by (simp_all add: w_def)
      then show "absorb md5_compress (m_buf (c1\<lparr>m_in := w, m_buf := md5_compress (m_buf c) w\<rparr>)) (drop (64 - used) d) =
          absorb md5_compress (m_buf c) (take used (m_in c) @ d)"
        using 2 len u by (subst (2) absorb_block) simp_all
    qed (simp_all add: w c1_def)
  next
    case 3
    show thesis by (rule blocks [of c1 d]) (use 3 upd len in \<open>simp_all add: c1_def\<close>)
  qed
qed

interpretation md5: block_stream md5_compress md5_ok md5_view md5_count "2 ^ 64" MD5Update
proof
  fix c d
  assume ok: "md5_ok c"
  show "md5_ok (MD5Update c d)" "md5_count (MD5Update c d) = (md5_count c + 8 * length d) mod 2 ^ 64"
    "md5_view (MD5Update c d) = absorb md5_compress (fst (md5_view c)) (snd (md5_view c) @ d)"
    by (rule MD5Update_cases [OF ok, of d]; simp add: md5_view_def)+
qed


section \<open>The digest\<close>

definition md5_length :: "nat \<Rightarrow> 8 word list" where
  "md5_length n = le_bytes (word_of_nat n) @ le_bytes (word_of_nat (n div 2 ^ 32))"

definition md5_initial :: "32 word list" where
  "md5_initial = [0x67452301, 0xefcdab89, 0x98badcfe, 0x10325476]"

text \<open>The digest as RFC 1321 defines it: pad the whole message, then fold the transform over its blocks.\<close>

definition md5_reference :: "8 word list \<Rightarrow> 8 word list" where
  "md5_reference msg =
     concat (map le_bytes (fst (absorb (\<lambda>h b. rfc_transform h (le_words b)) md5_initial (pad_message md5_length msg))))"

lemma md5_compress_rfc: "md5_compress = (\<lambda>h b. rfc_transform h (le_words b))"
  by (simp add: fun_eq_iff md5_compress_def transform_rfc words32_le)

lemma length_transform: "length (MD5Transform h m) = 4"
  by (simp add: MD5Transform_def split: prod.splits)

lemma md5_length_count: "md5_length (md5_count c) = store32 (m_bits0 c) @ store32 (m_bits1 c)"
proof -
  have "unat (m_bits0 c) < 2 ^ 32" using unsigned_less [of "m_bits0 c"] by simp
  then have "md5_count c div 2 ^ 32 = unat (m_bits1 c)" by (simp add: md5_count_def)
  moreover have "(word_of_nat (md5_count c) :: 32 word) = m_bits0 c"
    unfolding md5_count_def word_unat_eq_iff unsigned_of_nat take_bit_eq_mod
    using \<open>unat (m_bits0 c) < 2 ^ 32\<close> by simp
  ultimately show ?thesis by (simp add: md5_length_def store32_le)
qed

lemma md5_length_mod: "md5_length (n mod 2 ^ 64) = md5_length n"
proof -
  have "n mod (2 ^ 32 * 2 ^ 32) = 2 ^ 32 * (n div 2 ^ 32 mod 2 ^ 32) + n mod 2 ^ 32" by (rule mod_mult2_eq)
  then have m: "n mod 2 ^ 64 = 2 ^ 32 * (n div 2 ^ 32 mod 2 ^ 32) + n mod 2 ^ 32" by simp
  have "n mod 2 ^ 64 div 2 ^ 32 = n div 2 ^ 32 mod 2 ^ 32" unfolding m by simp
  moreover have "(word_of_nat (n mod 2 ^ 64) :: 32 word) = word_of_nat n"
    by (rule word_unat_eq_iff [THEN iffD2]) (simp add: unsigned_of_nat take_bit_eq_mod mod_mod_cancel)
  moreover have "(word_of_nat (n div 2 ^ 32 mod 2 ^ 32) :: 32 word) = word_of_nat (n div 2 ^ 32)"
    by (rule word_unat_eq_iff [THEN iffD2]) (simp add: unsigned_of_nat take_bit_eq_mod)
  ultimately show ?thesis by (simp add: md5_length_def)
qed

lemma MD5Final_digest:
  assumes ok: "md5_ok c" and v: "md5_view c = (h, pend)"
  shows "fst (MD5Final c) = concat (map store32 (fst (absorb md5_compress h
    (pend @ [0x80] @ replicate ((64 + 55 - length pend) mod 64) 0 @ md5_length (md5_count c)))))"
proof -
  define used where "used = length pend"
  have len: "length (m_in c) = 64" using ok by (simp add: md5_ok_def)
  have u: "used < 64" "md5_count c div 8 mod 64 = used" and h: "m_buf c = h" and p: "take used (m_in c) = pend"
    using v len by (auto simp: md5_view_def used_def min_def)
  have lp: "length pend = used" by (simp add: used_def)
  let ?len = "store32 (m_bits0 c) @ store32 (m_bits1 c)"
  have fin: "byteReverse 4 (concat (map store32 (MD5Transform x y))) = concat (map store32 (MD5Transform x y))" for x y
  proof (rule byteReverse_id)
    have "length (concat (map store32 xs)) = 4 * length xs" for xs by (induction xs) simp_all
    then show "4 * 4 \<le> length (concat (map store32 (MD5Transform x y)))" by (simp add: length_transform)
  qed
  have tail: "overwrite (overwrite (b56 @ r) 56 (store32 x)) 60 (store32 y) = b56 @ store32 x @ store32 y"
    if "length b56 = 56" "length r = 8" for b56 r x y
    using that by (simp add: overwrite_def)
  show ?thesis
  proof (cases "used < 56")
    case True
    define r where "r = drop 56 (m_in c)"
    define b where "b = pend @ [0x80] @ replicate (55 - used) 0"
    have b: "length b = 56" "length r = 8" using True used_def len by (simp_all add: b_def r_def)
    have "overwrite (overwrite (m_in c) used [0x80]) (used + 1) (replicate (55 - used) 0) = b @ r"
      using True len p lp Suc_diff_le [of used 55] by (simp add: overwrite_def b_def r_def)
    moreover have free: "\<not> 63 - used < 8" using True by linarith
    ultimately have "fst (MD5Final c) = concat (map store32 (md5_compress h (b @ ?len)))"
      using True b fin h free by (simp add: MD5Final_def Let_def used_bytes u byteReverse_id tail md5_compress_def)
    moreover have "(64 + 55 - used) mod 64 = 55 - used" using True by (simp add: mod_if)
    ultimately show ?thesis
      using b by (simp add: used_def [symmetric] md5_length_count absorb_block b_def)
  next
    case False
    define b where "b = pend @ [0x80] @ replicate (63 - used) 0"
    have b: "length b = 64" using False u used_def by (simp add: b_def)
    have first: "overwrite (overwrite (m_in c) used [0x80]) (used + 1) (replicate (63 - used) 0) = b"
      using False u len p lp by (simp add: overwrite_def b_def)
    have second: "overwrite b 0 (replicate 56 0) = replicate 56 0 @ drop 56 b" by (simp add: overwrite_def)
    have free: "63 - used < 8" using False by linarith
    have fin2: "fst (MD5Final c) = concat (map store32 (md5_compress (md5_compress h b) (replicate 56 0 @ ?len)))"
      using False b u fin h first second free
      by (simp add: MD5Final_def Let_def used_bytes transform_in_eq byteReverse_id tail md5_compress_def)
    have "(64 + 55 - used) mod 64 = 63 - used + 56" using False u by (simp add: mod_if)
    then have whole: "pend @ [0x80] @ replicate ((64 + 55 - used) mod 64) 0 @ ?len = b @ replicate 56 0 @ ?len"
      by (simp only: replicate_add b_def append_assoc)
    have "absorb md5_compress h (b @ replicate 56 0 @ ?len) = (md5_compress (md5_compress h b) (replicate 56 0 @ ?len), [])"
      using b by (simp add: absorb_block)
    then show ?thesis unfolding used_def [symmetric] md5_length_count whole fin2 by simp
  qed
qed

text \<open>
  C17: hashing data in any pieces through one context gives the MD5 digest of their concatenation
  as the RFC defines it: padding, 64-bit bit count with its carry, block boundaries inside and
  across the pieces, the steps of the transform with their constants.  The reference has its own
  table, shifts, functions, initial value, byte order and rotation; it shares no definition with
  the model of the code.
\<close>

theorem md5_pieces:
  assumes "length (m_in ctx) = 64"
  shows "fst (MD5Final (foldl MD5Update (MD5Init ctx) pieces)) = md5_reference (concat pieces)"
proof -
  let ?i = "MD5Init ctx" and ?c = "foldl MD5Update (MD5Init ctx) pieces"
  have ok: "md5_ok ?i" using assms by (simp add: md5_ok_def MD5Init_def)
  have v0: "md5_view ?i = (md5_initial, [])" "md5_count ?i = 0"
    by (simp_all add: md5_view_def md5_count_def MD5Init_def md5_initial_def)
  obtain h pend where v: "md5_view ?c = (h, pend)" by (cases "md5_view ?c")
  have a: "absorb md5_compress md5_initial (concat pieces) = (h, pend)"
    using md5.pieces_view [OF ok, of pieces] v v0 by simp
  have "length pend = length (concat pieces) mod 64"
    using absorb_rest [of md5_compress md5_initial "concat pieces"] a by simp
  moreover have "md5_length (md5_count ?c) = md5_length (8 * length (concat pieces))"
    using md5.pieces_count [OF ok, of pieces] v0 md5_length_mod [of "8 * length (concat pieces)"] by simp
  ultimately show ?thesis
    using MD5Final_digest [OF md5.pieces_ok [OF ok] v] absorb_append [of md5_compress md5_initial "concat pieces"] a
    by (simp add: md5_reference_def md5_compress_rfc [symmetric] store32_le_fun [symmetric] pad_message_def)
qed

theorem md5_pieces_witness:
  "fst (MD5Final (foldl MD5Update (MD5Init \<lparr>m_buf = [], m_bits0 = 9, m_bits1 = 9, m_in = replicate 64 1\<rparr>) [[97], replicate 200 98])) =
   md5_reference (97 # replicate 200 98)"
  using md5_pieces [of "\<lparr>m_buf = [], m_bits0 = 9, m_bits1 = 9, m_in = replicate 64 1\<rparr>" "[[97], replicate 200 98]"] by simp

end
