(* ===== verification/Sha1.thy ===== *)
theory Sha1 imports Hashing begin

text \<open>
  \<open>base/sha1_portable.cc\<close>.  \<open>W\<close> and \<open>M\<close> share their storage: the model keeps \<open>W\<close>, and a store to
  \<open>M[i]\<close> replaces a byte of \<open>W[i / 4]\<close>.  Shown: any sequence of updates gives the digest of FIPS
  180-3 for the whole message, as long as it is shorter than 2^29 bytes; the length field has 32
  bits only.
\<close>

record sha1 =
  sh_regs :: "32 word list"  \<comment> \<open>\<open>A, B, C, D, E\<close>\<close>
  sh_H :: "32 word list"
  sh_W :: "32 word list"
  sh_cursor :: nat
  sh_l :: "32 word"

definition sha_f :: "nat \<Rightarrow> 32 word \<Rightarrow> 32 word \<Rightarrow> 32 word \<Rightarrow> 32 word" where
  "sha_f t B C D =
     (if t < 20 then or (and B C) (and (not B) D)
      else if t < 40 then xor (xor B C) D
      else if t < 60 then or (or (and B C) (and B D)) (and C D)
      else xor (xor B C) D)"

definition sha_S :: "nat \<Rightarrow> 32 word \<Rightarrow> 32 word" where
  "sha_S n X = or (push_bit n X) (drop_bit (32 - n) X)"

definition sha_K :: "nat \<Rightarrow> 32 word" where
  "sha_K t = (if t < 20 then 0x5a827999 else if t < 40 then 0x6ed9eba1 else if t < 60 then 0x8f1bbcdc else 0xca62c1d6)"

definition swapends :: "32 word \<Rightarrow> 32 word" where
  "swapends t = or (or (or (drop_bit 24 (and t 0xff000000)) (drop_bit 8 (and t 0xff0000)))
     (push_bit 8 (and t 0xff00))) (push_bit 24 (and t 0xff))"

definition sha_Init :: "sha1 \<Rightarrow> sha1" where
  "sha_Init s = s\<lparr>sh_regs := [0, 0, 0, 0, 0], sh_cursor := 0, sh_l := 0,
     sh_H := [0x67452301, 0xefcdab89, 0x98badcfe, 0x10325476, 0xc3d2e1f0]\<rparr>"

definition sha_expand :: "nat \<Rightarrow> 32 word list \<Rightarrow> 32 word list" where
  "sha_expand t W = W[t := sha_S 1 (xor (xor (xor (W ! (t - 3)) (W ! (t - 8))) (W ! (t - 14))) (W ! (t - 16)))]"

definition sha_round :: "32 word list \<Rightarrow> nat \<Rightarrow> 32 word list \<Rightarrow> 32 word list" where
  "sha_round W t r =
     (let A = r ! 0; B = r ! 1; C = r ! 2; D = r ! 3; E = r ! 4;
          TEMP = sha_S 5 A + sha_f t B C D + E + W ! t + sha_K t
      in [TEMP, A, sha_S 30 B, C, D])"

definition sha_Process :: "sha1 \<Rightarrow> sha1" where
  "sha_Process s =
     (let W1 = fold (\<lambda>t W. W[t := swapends (W ! t)]) [0..<16] (sh_W s);
          W2 = fold sha_expand [16..<80] W1;
          H = sh_H s;
          r = fold (sha_round W2) [0..<80] [H ! 0, H ! 1, H ! 2, H ! 3, H ! 4]
      in s\<lparr>sh_W := W2, sh_regs := r,
           sh_H := [H ! 0 + r ! 0, H ! 1 + r ! 1, H ! 2 + r ! 2, H ! 3 + r ! 3, H ! 4 + r ! 4], sh_cursor := 0\<rparr>)"

text \<open>\<open>M[i] = b\<close>, and \<open>M[cursor++] = b\<close>\<close>

definition store_M :: "nat \<Rightarrow> 8 word \<Rightarrow> sha1 \<Rightarrow> sha1" where
  "store_M i b s = s\<lparr>sh_W := (sh_W s)[i div 4 := load32 ((store32 (sh_W s ! (i div 4)))[i mod 4 := b])]\<rparr>"

definition push_M :: "8 word \<Rightarrow> sha1 \<Rightarrow> sha1" where
  "push_M b s = (store_M (sh_cursor s) b s)\<lparr>sh_cursor := sh_cursor s + 1\<rparr>"

primrec sha_Update :: "sha1 \<Rightarrow> 8 word list \<Rightarrow> sha1" where
  "sha_Update s [] = s"
| "sha_Update s (d # ds) =
     (let s1 = push_M d s; s2 = (if sh_cursor s1 \<ge> 64 then sha_Process s1 else s1)
      in sha_Update (s2\<lparr>sh_l := sh_l s2 + 8\<rparr>) ds)"

text \<open>\<open>while (cursor < limit) M[cursor++] = 0\<close>\<close>

function zero_to :: "nat \<Rightarrow> sha1 \<Rightarrow> sha1" where
  "zero_to limit s = (if sh_cursor s < limit then zero_to limit (push_M 0 s) else s)"
  by pat_completeness auto
termination
  by (relation "measure (\<lambda>(limit, s). limit - sh_cursor s)") (auto simp: push_M_def)

declare zero_to.simps [simp del]

definition sha_Pad :: "sha1 \<Rightarrow> sha1" where
  "sha_Pad s =
     (let s1 = push_M 0x80 s;
          s2 = (if sh_cursor s1 > 64 - 8 then sha_Process (zero_to 64 s1) else s1);
          s3 = zero_to (64 - 4) s2; l = sh_l s3
      in store_M (64 - 1) (ucast (and l 0xff))
          (store_M (64 - 2) (ucast (drop_bit 8 (and l 0xff00)))
            (store_M (64 - 3) (ucast (drop_bit 16 (and l 0xff0000)))
              (store_M (64 - 4) (ucast (drop_bit 24 (and l 0xff000000))) s3))))"

definition sha_Final :: "sha1 \<Rightarrow> sha1" where
  "sha_Final s = (let s1 = sha_Process (sha_Pad s) in s1\<lparr>sh_H := map swapends (sh_H s1)\<rparr>)"

definition sha_Digest :: "sha1 \<Rightarrow> 8 word list" where
  "sha_Digest s = concat (map store32 (sh_H s))"

text \<open>The object is an uninitialised local variable: an argument.\<close>

definition SHA1HashBytes :: "sha1 \<Rightarrow> 8 word list \<Rightarrow> 8 word list" where
  "SHA1HashBytes sha dat = take 20 (sha_Digest (sha_Final (sha_Update (sha_Init sha) dat)))"

definition SHA1HashString :: "sha1 \<Rightarrow> 8 word list \<Rightarrow> 8 word list" where
  "SHA1HashString sha str = SHA1HashBytes sha str"

section \<open>The block function of FIPS 180-3\<close>

definition be_word :: "8 word list \<Rightarrow> 32 word" where
  "be_word b = le_word (rev b)"

fun be_words :: "8 word list \<Rightarrow> 32 word list" where
  "be_words (a # b # c # d # bs) = be_word [a, b, c, d] # be_words bs"
| "be_words _ = []"

fun fips_W :: "32 word list \<Rightarrow> nat \<Rightarrow> 32 word" where
  "fips_W M t =
     (if t < 16 then M ! t
      else word_rotl 1 (xor (xor (xor (fips_W M (t - 3)) (fips_W M (t - 8))) (fips_W M (t - 14))) (fips_W M (t - 16))))"

declare fips_W.simps [simp del]

definition fips_f :: "nat \<Rightarrow> 32 word \<Rightarrow> 32 word \<Rightarrow> 32 word \<Rightarrow> 32 word" where
  "fips_f t x y z =
     (if t < 20 then xor (and x y) (and (not x) z)
      else if 40 \<le> t \<and> t < 60 then xor (xor (and x y) (and x z)) (and y z)
      else xor (xor x y) z)"

definition fips_K :: "nat \<Rightarrow> 32 word" where
  "fips_K t = [0x5a827999, 0x6ed9eba1, 0x8f1bbcdc, 0xca62c1d6] ! (t div 20)"

definition fips_round :: "32 word list \<Rightarrow> nat \<Rightarrow> 32 word list \<Rightarrow> 32 word list" where
  "fips_round M t r =
     [word_rotl 5 (r ! 0) + fips_f t (r ! 1) (r ! 2) (r ! 3) + r ! 4 + fips_K t + fips_W M t, r ! 0, word_rotl 30 (r ! 1), r ! 2, r ! 3]"

definition fips_compress :: "32 word list \<Rightarrow> 8 word list \<Rightarrow> 32 word list" where
  "fips_compress H block =
     (let r = fold (fips_round (be_words block)) [0..<80] [H ! 0, H ! 1, H ! 2, H ! 3, H ! 4]
      in [H ! 0 + r ! 0, H ! 1 + r ! 1, H ! 2 + r ! 2, H ! 3 + r ! 3, H ! 4 + r ! 4])"

definition sha1_length :: "nat \<Rightarrow> 8 word list" where
  "sha1_length n = rev (le_bytes (word_of_nat (n div 2 ^ 32))) @ rev (le_bytes (word_of_nat n))"

definition sha1_initial :: "32 word list" where
  "sha1_initial = [0x67452301, 0xefcdab89, 0x98badcfe, 0x10325476, 0xc3d2e1f0]"

definition sha1_reference :: "8 word list \<Rightarrow> 8 word list" where
  "sha1_reference msg = concat (map (\<lambda>h. rev (le_bytes h)) (fst (absorb fips_compress sha1_initial (pad_message sha1_length msg))))"


section \<open>The block function of the code\<close>

lemma byte_masks:
  "(0xff :: 32 word) = mask 8" "(0xff00 :: 32 word) = push_bit 8 (mask 8)"
  "(0xff0000 :: 32 word) = push_bit 16 (mask 8)" "(0xff000000 :: 32 word) = push_bit 24 (mask 8)"
  by (simp_all add: mask_eq_exp_minus_1 push_bit_eq_mult)

lemma swapends_store32: "store32 (swapends t) = rev (store32 t)"
proof -
  have "ucast (swapends t) = (ucast (drop_bit 24 t) :: 8 word)" "ucast (drop_bit 8 (swapends t)) = (ucast (drop_bit 16 t) :: 8 word)"
    "ucast (drop_bit 16 (swapends t)) = (ucast (drop_bit 8 t) :: 8 word)" "ucast (drop_bit 24 (swapends t)) = (ucast t :: 8 word)"
    unfolding swapends_def byte_masks by (rule bit_word_eqI; auto simp: bit_simps)+
  then show ?thesis by (simp add: store32_def)
qed

lemma be_word_store32: "be_word (store32 t) = swapends t"
  using load32_le [of "store32 (swapends t)"] by (simp add: be_word_def swapends_store32 [symmetric] load32_store32)

lemma be_words_store32: "be_words (concat (map store32 ws)) = map swapends ws"
proof (induction ws)
  case (Cons w ws)
  obtain a b c d where w: "store32 w = [a, b, c, d]" by (simp add: store32_def)
  with be_word_store32 [of w] Cons show ?case by simp
qed simp

lemma sha_S_rotl: "n < 32 \<Longrightarrow> sha_S n = word_rotl n"
  by (simp add: fun_eq_iff sha_S_def rotl_def flip: rotl_word_rotl)

lemma sha_K_fips: "t < 80 \<Longrightarrow> sha_K t = fips_K t"
proof -
  assume "t < 80"
  then consider "t < 20" "t div 20 = 0" | "20 \<le> t" "t < 40" "t div 20 = 1" | "40 \<le> t" "t < 60" "t div 20 = 2"
    | "60 \<le> t" "t div 20 = 3" by linarith
  then show ?thesis by cases (simp_all add: sha_K_def fips_K_def)
qed

lemma sha_f_fips: "sha_f t x y z = fips_f t x y z"
  unfolding sha_f_def fips_f_def
  by (cases "t < 20"; cases "t < 40"; cases "t < 60"; simp; rule bit_word_eqI; auto simp: bit_simps)

lemma fold_update: "n \<le> length W \<Longrightarrow> fold (\<lambda>t W. W[t := f (W ! t)]) [0..<n] W = map f (take n W) @ drop n W"
proof (induction n)
  case (Suc n)
  have "drop n W = W ! n # drop (Suc n) W" "take (Suc n) W = take n W @ [W ! n]"
    using Suc.prems by (simp_all add: Cons_nth_drop_Suc take_Suc_conv_app_nth)
  with Suc show ?case by (simp add: nth_append list_update_append)
qed simp

definition sha_block :: "sha1 \<Rightarrow> 8 word list" where
  "sha_block s = concat (map store32 (take 16 (sh_W s)))"

lemma length_sha_block: "length (sh_W s) = 80 \<Longrightarrow> length (sha_block s) = 64"
proof -
  have "length (concat (map store32 ws)) = 4 * length ws" for ws by (induction ws) simp_all
  then show "length (sh_W s) = 80 \<Longrightarrow> length (sha_block s) = 64" by (simp add: sha_block_def)
qed

lemma schedule:
  assumes "length W = 80" "16 \<le> n" "n \<le> 80" "\<forall>t<16. W ! t = fips_W M t"
  shows "length (fold sha_expand [16..<n] W) = 80 \<and> (\<forall>t<n. fold sha_expand [16..<n] W ! t = fips_W M t)"
  using assms(2,3)
proof (induction n rule: nat_induct_at_least)
  case base
  then show ?case using assms by simp
next
  case (Suc n)
  let ?W = "fold sha_expand [16..<n] W"
  have IH: "length ?W = 80" "\<forall>t<n. ?W ! t = fips_W M t" using Suc by auto
  have "?W ! (n - k) = fips_W M (n - k)" if "0 < k" "k \<le> 16" for k using IH(2) that Suc.hyps by simp
  then have "sha_S 1 (xor (xor (xor (?W ! (n - 3)) (?W ! (n - 8))) (?W ! (n - 14))) (?W ! (n - 16))) = fips_W M n"
    using Suc.hyps by (simp add: sha_S_rotl fips_W.simps [of M n])
  then have "sha_expand n ?W = ?W[n := fips_W M n]" by (simp add: sha_expand_def [of n ?W])
  moreover have "fold sha_expand [16..<Suc n] W = sha_expand n ?W" using Suc.hyps by simp
  ultimately show ?case using IH Suc.prems by (auto simp: nth_list_update less_Suc_eq)
qed

lemma Process_compress:
  assumes "length (sh_W s) = 80"
  shows "sh_H (sha_Process s) = fips_compress (sh_H s) (sha_block s)" "length (sh_W (sha_Process s)) = 80"
    "sh_cursor (sha_Process s) = 0" "sh_l (sha_Process s) = sh_l s"
proof -
  define M where "M = map swapends (take 16 (sh_W s))"
  define W1 where "W1 = fold (\<lambda>t W. W[t := swapends (W ! t)]) [0..<16] (sh_W s)"
  define W2 where "W2 = fold sha_expand [16..<80] W1"
  have M: "be_words (sha_block s) = M" by (simp add: M_def sha_block_def be_words_store32)
  have W1: "W1 = M @ drop 16 (sh_W s)" using assms by (simp add: W1_def M_def fold_update)
  then have "length W1 = 80" "\<forall>t<16. W1 ! t = fips_W M t"
    using assms by (simp_all add: M_def nth_append fips_W.simps)
  then have W2: "length W2 = 80" "\<forall>t<80. W2 ! t = fips_W M t"
    using schedule [of W1 80 M] by (simp_all add: W2_def)
  have R: "fold (sha_round W2) ts r = fold (fips_round M) ts r" if "\<forall>t\<in>set ts. t < 80" for ts r
    using that W2(2)
    by (induction ts arbitrary: r) (simp_all add: sha_round_def fips_round_def Let_def sha_f_fips sha_S_rotl sha_K_fips ac_simps)
  have rounds: "fold (sha_round W2) [0..<80] = fold (fips_round M) [0..<80]"
    by (rule ext, rule R) (simp only: set_upt atLeastLessThan_iff, simp)
  define r where "r = fold (fips_round M) [0..<80] [sh_H s ! 0, sh_H s ! 1, sh_H s ! 2, sh_H s ! 3, sh_H s ! 4]"
  have P: "sha_Process s = s\<lparr>sh_W := W2, sh_regs := r, sh_H := fips_compress (sh_H s) (sha_block s), sh_cursor := 0\<rparr>"
    unfolding sha_Process_def Let_def W1_def [symmetric] W2_def [symmetric] rounds fips_compress_def M r_def by (rule refl)
  show "sh_H (sha_Process s) = fips_compress (sh_H s) (sha_block s)" "length (sh_W (sha_Process s)) = 80"
    "sh_cursor (sha_Process s) = 0" "sh_l (sha_Process s) = sh_l s"
    unfolding P using W2(1) by simp_all
qed

section \<open>The buffer\<close>

lemma store_word_byte:
  "i < 4 * length ws \<Longrightarrow>
    concat (map store32 (ws[i div 4 := load32 ((store32 (ws ! (i div 4)))[i mod 4 := b])])) = (concat (map store32 ws))[i := b]"
proof (induction ws arbitrary: i)
  case (Cons w ws)
  show ?case
  proof (cases "i < 4")
    case True
    then show ?thesis by (simp add: store32_load32 list_update_append)
  next
    case False
    then obtain j where j: "i = j + 4" by (metis add.commute le_Suc_ex not_less)
    have d: "(j + 4) div 4 = Suc (j div 4)" "(j + 4) mod 4 = j mod 4" by simp_all
    show ?thesis using Cons j unfolding j d by (simp add: list_update_append)
  qed
qed simp

lemma store_M_block:
  assumes "length (sh_W s) = 80" "i < 64"
  shows "sha_block (store_M i b s) = (sha_block s)[i := b]"
proof -
  have "i div 4 < 16" using assms(2) by simp
  then have "take 16 (sh_W (store_M i b s)) =
      (take 16 (sh_W s))[i div 4 := load32 ((store32 (take 16 (sh_W s) ! (i div 4)))[i mod 4 := b])]"
    using assms by (simp add: store_M_def take_update_swap)
  then show ?thesis using store_word_byte [of i "take 16 (sh_W s)" b] assms by (simp add: sha_block_def)
qed

lemma store_M_frame [simp]:
  "length (sh_W (store_M i b s)) = length (sh_W s)" "sh_H (store_M i b s) = sh_H s"
  "sh_cursor (store_M i b s) = sh_cursor s" "sh_l (store_M i b s) = sh_l s"
  by (simp_all add: store_M_def)

lemma push_M_frame [simp]:
  "length (sh_W (push_M b s)) = length (sh_W s)" "sh_H (push_M b s) = sh_H s"
  "sh_cursor (push_M b s) = sh_cursor s + 1" "sh_l (push_M b s) = sh_l s"
  by (simp_all add: push_M_def)

lemma push_M_taken:
  assumes "length (sh_W s) = 80" "sh_cursor s < 64"
  shows "take (sh_cursor s + 1) (sha_block (push_M b s)) = take (sh_cursor s) (sha_block s) @ [b]"
proof -
  have "sha_block (push_M b s) = (sha_block s)[sh_cursor s := b]"
    using store_M_block [OF assms] by (simp add: push_M_def sha_block_def)
  moreover have "sh_cursor s < length (sha_block s)" using assms by (simp add: length_sha_block)
  ultimately show ?thesis by (simp add: take_Suc_conv_app_nth)
qed


section \<open>Updates\<close>

definition sha_ok :: "sha1 \<Rightarrow> bool" where
  "sha_ok s \<longleftrightarrow> length (sh_W s) = 80 \<and> sh_cursor s < 64"

definition sha_view :: "sha1 \<Rightarrow> 32 word list \<times> 8 word list" where
  "sha_view s = (sh_H s, take (sh_cursor s) (sha_block s))"

lemma sha_pending: "sha_ok s \<Longrightarrow> length (snd (sha_view s)) = sh_cursor s"
  by (simp add: sha_ok_def sha_view_def length_sha_block)

lemma update_byte:
  fixes s :: sha1 and d :: "8 word" and n :: "32 word"
  assumes "sha_ok s"
  defines "s1 \<equiv> push_M d s"
  defines "s2 \<equiv> (if sh_cursor s1 \<ge> 64 then sha_Process s1 else s1)\<lparr>sh_l := n\<rparr>"
  shows "sha_ok s2" "sha_view s2 = absorb fips_compress (fst (sha_view s)) (snd (sha_view s) @ [d])"
proof -
  have ok: "length (sh_W s) = 80" "sh_cursor s < 64" using assms(1) by (simp_all add: sha_ok_def)
  have s1: "length (sh_W s1) = 80" "sh_H s1 = sh_H s" "sh_cursor s1 = sh_cursor s + 1"
    "take (sh_cursor s + 1) (sha_block s1) = snd (sha_view s) @ [d]"
    using push_M_taken [OF ok] ok by (simp_all add: s1_def sha_view_def)
  have len: "length (sha_block s1) = 64" by (rule length_sha_block) (rule s1)
  have same: "sha_block (x\<lparr>sh_l := n\<rparr>) = sha_block x" for x by (simp add: sha_block_def)
  show "sha_ok s2" using Process_compress [OF s1(1)] s1 ok by (auto simp: s2_def sha_ok_def)
  show "sha_view s2 = absorb fips_compress (fst (sha_view s)) (snd (sha_view s) @ [d])"
  proof (cases "sh_cursor s = 63")
    case True
    then have "snd (sha_view s) @ [d] = sha_block s1" using s1(4) len by simp
    then show ?thesis
      using True Process_compress [OF s1(1)] s1(2,3) len
      by (simp add: s2_def sha_view_def absorb_block same)
  next
    case False
    then have "length (snd (sha_view s) @ [d]) < 64" using ok sha_pending [OF assms(1)] by simp
    then show ?thesis using False ok s1 by (simp add: s2_def sha_view_def same)
  qed
qed

lemma sha_Update_absorbs:
  "sha_ok s \<Longrightarrow> sha_ok (sha_Update s ds) \<and>
    sha_view (sha_Update s ds) = absorb fips_compress (fst (sha_view s)) (snd (sha_view s) @ ds) \<and>
    sh_l (sha_Update s ds) = sh_l s + word_of_nat (8 * length ds)"
proof (induction ds arbitrary: s)
  case Nil
  then show ?case using sha_pending [OF Nil] by (simp add: sha_ok_def)
next
  case (Cons d ds)
  define p where "p = (if sh_cursor (push_M d s) \<ge> 64 then sha_Process (push_M d s) else push_M d s)"
  define s2 where "s2 = p\<lparr>sh_l := sh_l p + 8\<rparr>"
  have "length (sh_W (push_M d s)) = 80" using Cons.prems by (simp add: sha_ok_def)
  then have "sh_l p = sh_l s" using Process_compress(4) by (simp add: p_def)
  then have l: "sh_l s2 = sh_l s + 8" by (simp add: s2_def)
  have U: "sha_Update s (d # ds) = sha_Update s2 ds" by (simp only: sha_Update.simps Let_def p_def s2_def)
  have byte: "sha_ok s2" "sha_view s2 = absorb fips_compress (fst (sha_view s)) (snd (sha_view s) @ [d])"
    using update_byte [OF Cons.prems, where d = d and n = "sh_l p + 8"] by (simp_all only: p_def [symmetric] s2_def)
  have "absorb fips_compress (fst (sha_view s)) (snd (sha_view s) @ d # ds) =
      absorb fips_compress (fst (sha_view s2)) (snd (sha_view s2) @ ds)"
    using absorb_append [of fips_compress "fst (sha_view s)" "snd (sha_view s) @ [d]" ds] byte(2)
    by (simp split: prod.splits)
  with Cons.IH [OF byte(1)] show ?case unfolding U by (simp add: l)
qed

interpretation sha: block_stream fips_compress sha_ok sha_view "\<lambda>s. unat (sh_l s)" "2 ^ 32" sha_Update
proof
  fix s d
  assume ok: "sha_ok s"
  from sha_Update_absorbs [OF ok, of d]
  show "sha_ok (sha_Update s d)" "sha_view (sha_Update s d) = absorb fips_compress (fst (sha_view s)) (snd (sha_view s) @ d)"
    "unat (sh_l (sha_Update s d)) = (unat (sh_l s) + 8 * length d) mod 2 ^ 32"
    by (simp_all add: unat_word_ariths unsigned_of_nat take_bit_eq_mod mod_add_right_eq del: of_nat_mult)
qed

section \<open>The digest\<close>

lemma zero_to_fills:
  assumes "length (sh_W s) = 80" "sh_cursor s \<le> limit" "limit \<le> 64"
  shows "length (sh_W (zero_to limit s)) = 80 \<and> sh_H (zero_to limit s) = sh_H s \<and> sh_l (zero_to limit s) = sh_l s \<and>
    sh_cursor (zero_to limit s) = limit \<and>
    take limit (sha_block (zero_to limit s)) = take (sh_cursor s) (sha_block s) @ replicate (limit - sh_cursor s) 0"
  using assms
proof (induction limit s rule: zero_to.induct)
  case (1 limit s)
  show ?case
  proof (cases "sh_cursor s < limit")
    case True
    have "replicate (limit - sh_cursor s) (0 :: 8 word) = 0 # replicate (limit - (sh_cursor s + 1)) 0"
      using True by (simp add: Suc_diff_Suc [symmetric])
    then show ?thesis
      using "1.IH" [OF True] "1.prems" True push_M_taken [of s 0] by (simp add: zero_to.simps [of limit s])
  qed (use "1.prems" in \<open>simp add: zero_to.simps [of limit s]\<close>)
qed

lemma length_bytes_of_l:
  "[ucast (drop_bit 24 (and l 0xff000000)), ucast (drop_bit 16 (and l 0xff0000)), ucast (drop_bit 8 (and l 0xff00)),
     ucast (and l 0xff)] = rev (store32 l)"
proof -
  have "ucast (drop_bit 24 (and l 0xff000000)) = (ucast (drop_bit 24 l) :: 8 word)"
    "ucast (drop_bit 16 (and l 0xff0000)) = (ucast (drop_bit 16 l) :: 8 word)"
    "ucast (drop_bit 8 (and l 0xff00)) = (ucast (drop_bit 8 l) :: 8 word)" "ucast (and l 0xff) = (ucast l :: 8 word)"
    unfolding byte_masks by (rule bit_word_eqI; auto simp: bit_simps)+
  then show ?thesis by (simp add: store32_def)
qed

lemma list_of_four: "length v = 4 \<Longrightarrow> \<exists>w x y z. v = [w, x, y, z]"
  by (auto simp: numeral_eq_Suc length_Suc_conv)

lemma update_last_four:
  assumes "length v = 64"
  shows "v[60 := a, 61 := b, 62 := c, 63 := d] = take 60 v @ [a, b, c, d]"
proof -
  have "length (drop 60 v) = 4" using assms by simp
  then obtain w x y z where "drop 60 v = [w, x, y, z]" using list_of_four by blast
  then have v: "v = take 60 v @ [w, x, y, z]" by (metis append_take_drop_id)
  have "length (take 60 v) = 60" using assms by simp
  then show ?thesis by (subst v) (simp add: list_update_append)
qed


lemma replicate_4: "replicate 4 x = [x, x, x, x]"
  by (simp add: numeral_eq_Suc)

lemma Pad_block:
  assumes "sha_ok s" "sha_view s = (h, pend)"
  shows "sh_H (sha_Process (sha_Pad s)) = fst (absorb fips_compress h
    (pend @ [0x80] @ replicate ((64 + 55 - length pend) mod 64) 0 @ [0, 0, 0, 0] @ rev (store32 (sh_l s))))"
proof -
  define used where "used = sh_cursor s"
  have ok: "length (sh_W s) = 80" "used < 64" using assms(1) by (simp_all add: sha_ok_def used_def)
  have p: "take used (sha_block s) = pend" "sh_H s = h" "length pend = used"
    using assms(2) sha_pending [OF assms(1)] by (simp_all add: sha_view_def used_def)
  define s1 where "s1 = push_M 0x80 s"
  have s1: "length (sh_W s1) = 80" "sh_H s1 = h" "sh_cursor s1 = used + 1" "sh_l s1 = sh_l s"
    "take (used + 1) (sha_block s1) = pend @ [0x80]"
    using push_M_taken [of s "0x80"] ok p by (simp_all add: s1_def used_def)
  define s2 where "s2 = (if sh_cursor s1 > 64 - 8 then sha_Process (zero_to 64 s1) else s1)"
  define s3 where "s3 = zero_to (64 - 4) s2"
  let ?len = "rev (store32 (sh_l s))"
  have last: "sh_H (sha_Process (sha_Pad s)) = fips_compress (sh_H s3) (take 60 (sha_block s3) @ ?len)"
    if "length (sh_W s3) = 80" "sh_l s3 = sh_l s"
  proof -
    let ?s4 = "store_M 60 (ucast (drop_bit 24 (and (sh_l s) 0xff000000))) s3"
    let ?s5 = "store_M 61 (ucast (drop_bit 16 (and (sh_l s) 0xff0000))) ?s4"
    let ?s6 = "store_M 62 (ucast (drop_bit 8 (and (sh_l s) 0xff00))) ?s5"
    let ?s7 = "store_M 63 (ucast (and (sh_l s) 0xff)) ?s6"
    have "sha_Pad s = ?s7"
      unfolding sha_Pad_def Let_def s1_def [symmetric] s2_def [symmetric] s3_def [symmetric] that(2) by simp
    moreover have "sha_block ?s7 = take 60 (sha_block s3) @ ?len"
      using update_last_four [OF length_sha_block [OF that(1)]] length_bytes_of_l [of "sh_l s"]
      by (simp add: store_M_block that(1))
    ultimately show ?thesis using Process_compress(1) [of ?s7] that(1) by simp
  qed
  show ?thesis
  proof (cases "used < 56")
    case True
    then have "s2 = s1" using s1(3) by (simp add: s2_def)
    then have s3: "length (sh_W s3) = 80" "sh_H s3 = h" "sh_l s3 = sh_l s"
      "take 60 (sha_block s3) = pend @ [0x80] @ replicate (59 - used) 0"
      using zero_to_fills [of s1 60] s1 True by (simp_all add: s3_def)
    have "64 + 55 - used = (55 - used) + 64" "55 - used < 64" using True by linarith+
    then have "(64 + 55 - used) mod 64 = 55 - used" by (simp only: mod_add_self2 mod_less)
    then have "59 - used = (64 + 55 - used) mod 64 + 4" using True by linarith
    then have z: "replicate (59 - used) (0 :: 8 word) = replicate ((64 + 55 - used) mod 64) 0 @ [0, 0, 0, 0]"
      by (simp only: replicate_add replicate_4)
    have "length (take 60 (sha_block s3) @ ?len) = 64" using length_sha_block [OF s3(1)] by simp
    then show ?thesis
      using last [OF s3(1,3)] s3(2) absorb_block [of "take 60 (sha_block s3) @ ?len" fips_compress h]
      unfolding s3(4) z p(3) by simp
  next
    case False
    let ?z = "zero_to 64 s1"
    have z: "length (sh_W ?z) = 80" "sh_H ?z = h" "sh_l ?z = sh_l s" "sha_block ?z = pend @ [0x80] @ replicate (63 - used) 0"
      using zero_to_fills [of s1 64] s1 ok length_sha_block [of ?z] by simp_all
    have s2: "s2 = sha_Process ?z" using False s1(3) by (simp add: s2_def)
    have s3: "length (sh_W s3) = 80" "sh_H s3 = fips_compress h (sha_block ?z)" "sh_l s3 = sh_l s"
      "take 60 (sha_block s3) = replicate 60 0"
      using zero_to_fills [of s2 60] Process_compress [OF z(1)] z(2,3) by (simp_all add: s3_def s2)
    have "64 + 55 - used < 64" "64 + 55 - used = (63 - used) + 56" using False ok by linarith+
    then have "(64 + 55 - used) mod 64 = (63 - used) + 56" by (simp only: mod_less)
    then have "pend @ [0x80] @ replicate ((64 + 55 - used) mod 64) 0 @ [0, 0, 0, 0] @ ?len =
        sha_block ?z @ (replicate 56 0 @ [0, 0, 0, 0] @ ?len)"
      by (simp only: replicate_add z(4) append_assoc)
    also have "replicate 56 0 @ [0, 0, 0, 0] = (replicate 60 0 :: 8 word list)"
      using replicate_add [of 56 4 "0 :: 8 word"] by (simp add: replicate_4)
    then have "replicate 56 0 @ [0, 0, 0, 0] @ ?len = replicate 60 0 @ ?len" by (metis append_assoc)
    finally have whole: "pend @ [0x80] @ replicate ((64 + 55 - used) mod 64) 0 @ [0, 0, 0, 0] @ ?len =
        sha_block ?z @ (replicate 60 0 @ ?len)" .
    have "absorb fips_compress h (sha_block ?z @ (replicate 60 0 @ ?len)) =
        (fips_compress (fips_compress h (sha_block ?z)) (replicate 60 0 @ ?len), [])"
      using length_sha_block [OF z(1)] by (simp add: absorb_block)
    then show ?thesis
      using last [OF s3(1,3)] unfolding p(3) whole s3(2,4) by simp
  qed
qed

text \<open>
  C18: for messages of less than 2^32 bits any sequence of updates of an initialised object, and
  \<open>SHA1HashBytes\<close> in particular, gives the SHA-1 digest of FIPS 180-3.  The reference has its own
  constants, functions, initial value, byte order and rotation.
\<close>

theorem sha1_pieces:
  assumes "length (sh_W sha) = 80" "8 * length (concat pieces) < 2 ^ 32"
  shows "sha_Digest (sha_Final (foldl sha_Update (sha_Init sha) pieces)) = sha1_reference (concat pieces) \<and>
    SHA1HashBytes sha (concat pieces) = sha1_reference (concat pieces)"
proof -
  have digest: "sha_Digest (sha_Final (foldl sha_Update (sha_Init sha) ds)) = sha1_reference (concat ds)"
    if small: "8 * length (concat ds) < 2 ^ 32" for ds
  proof -
    let ?i = "sha_Init sha" and ?s = "foldl sha_Update (sha_Init sha) ds"
    have i: "sha_ok ?i" "sha_view ?i = (sha1_initial, [])" "sh_l ?i = 0"
      using assms(1) by (simp_all add: sha_ok_def sha_view_def sha_Init_def sha1_initial_def)
    obtain h pend where v: "sha_view ?s = (h, pend)" by (cases "sha_view ?s")
    have a: "absorb fips_compress sha1_initial (concat ds) = (h, pend)"
      using sha.pieces_view [OF i(1), of ds] v i by simp
    have "length pend = length (concat ds) mod 64"
      using absorb_rest [of fips_compress sha1_initial "concat ds"] a by simp
    have "unat (sh_l ?s) = 8 * length (concat ds)"
      using sha.pieces_count [OF i(1), of ds] i(3) small by simp
    moreover have "sh_l ?s = word_of_nat (unat (sh_l ?s))" by simp
    ultimately have "sh_l ?s = word_of_nat (8 * length (concat ds))" by simp
    moreover have "8 * length (concat ds) div 2 ^ 32 = 0" using small by simp
    ultimately have len: "sha1_length (8 * length (concat ds)) = [0, 0, 0, 0] @ rev (store32 (sh_l ?s))"
      by (simp add: sha1_length_def store32_le_fun [symmetric] store32_def)
    have "sh_H (sha_Process (sha_Pad ?s)) =
        fst (absorb fips_compress sha1_initial (pad_message sha1_length (concat ds)))"
      using Pad_block [OF sha.pieces_ok [OF i(1)] v] absorb_append [of fips_compress sha1_initial "concat ds"] a
        \<open>length pend = length (concat ds) mod 64\<close>
      by (simp add: pad_message_def len)
    then show ?thesis
      by (simp add: sha_Digest_def sha_Final_def Let_def sha1_reference_def swapends_store32 store32_le_fun [symmetric] o_def)
  qed
  have "length (fst (absorb fips_compress h bs)) = 5" if "length h = 5" for h bs
    using that by (induction fips_compress h bs rule: absorb.induct)
      (simp add: absorb.simps [of fips_compress] fips_compress_def Let_def)
  moreover have "length (concat (map (\<lambda>h. rev (le_bytes h)) hs)) = 4 * length hs" for hs
    by (induction hs) (simp_all add: le_bytes_def)
  ultimately have "length (sha1_reference m) = 20" for m
    by (simp add: sha1_reference_def sha1_initial_def)
  with digest [OF assms(2)] digest [of "[concat pieces]"] assms(2) show ?thesis
    by (simp add: SHA1HashBytes_def)
qed


theorem sha1_pieces_witness:
  "SHA1HashBytes \<lparr>sh_regs = [], sh_H = [], sh_W = replicate 80 7, sh_cursor = 3, sh_l = 4\<rparr> [97, 98, 99] = sha1_reference [97, 98, 99]"
  using sha1_pieces [of "\<lparr>sh_regs = [], sh_H = [], sh_W = replicate 80 7, sh_cursor = 3, sh_l = 4\<rparr>" "[[97], [98, 99]]"]
  by simp

end
