(* ===== verification/StringOps.thy ===== *)
theory StringOps imports Prelude "HOL-Library.Word" begin

text \<open>
  \<open>base/string_util.cc\<close> and the inline functions of \<open>base/string_util.h\<close>.  A string of any
  character type is a list of code units; a character array ending in NUL is the list of the
  characters before it, except in \<open>lcpyT\<close>, which reads and writes memory.  The members of
  \<open>std::basic_string\<close> are the functions of the first section; \<open>npos\<close> is \<open>None\<close>.
\<close>

type_synonym ustring = "int list"

section \<open>Members of the string class\<close>

definition find_first :: "(int \<Rightarrow> bool) \<Rightarrow> nat \<Rightarrow> ustring \<Rightarrow> nat option" where
  "find_first P i s =
     (let n = i + length (takeWhile (\<lambda>c. \<not> P c) (drop i s)) in if n < length s then Some n else None)"

definition find_last :: "(int \<Rightarrow> bool) \<Rightarrow> ustring \<Rightarrow> nat option" where
  "find_last P s =
     (let n = length (takeWhile (\<lambda>c. \<not> P c) (rev s)) in if n < length s then Some (length s - 1 - n) else None)"

definition find_sub :: "ustring \<Rightarrow> nat \<Rightarrow> ustring \<Rightarrow> nat option" where
  "find_sub t i s = find (\<lambda>j. take (length t) (drop j s) = t) [i..<length s - length t + 1]"

definition substr :: "nat \<Rightarrow> nat \<Rightarrow> ustring \<Rightarrow> ustring" where
  "substr pos n s = take n (drop pos s)"

definition replace_at :: "nat \<Rightarrow> nat \<Rightarrow> ustring \<Rightarrow> ustring \<Rightarrow> ustring" where
  "replace_at pos n r s = take pos s @ r @ drop (pos + n) s"

lemma find_first_bounds: "find_first P i s = Some f \<Longrightarrow> i \<le> f \<and> f < length s"
  by (auto simp: find_first_def Let_def split: if_splits)

lemma find_sub_bounds: "find_sub t i s = Some j \<Longrightarrow> i \<le> j \<and> j + length t \<le> length s \<and> take (length t) (drop j s) = t"
proof -
  assume "find_sub t i s = Some j"
  then obtain k where k: "k < length [i..<length s - length t + 1]" "take (length t) (drop j s) = t"
    "j = [i..<length s - length t + 1] ! k"
    by (auto simp only: find_sub_def find_Some_iff)
  then have "j \<in> set [i..<length s - length t + 1]" by (metis nth_mem)
  then have "i \<le> j" "j \<le> length s" by auto
  moreover from k(2) have "length t \<le> length s - j" by (metis length_drop length_take min.cobounded1)
  ultimately show ?thesis using k(2) by simp
qed

section \<open>Classification\<close>

definition ToLowerASCII :: "int \<Rightarrow> int" where
  "ToLowerASCII c = (if 65 \<le> c \<and> c \<le> 90 then c + 32 else c)"

definition ToUpperASCII :: "int \<Rightarrow> int" where
  "ToUpperASCII c = (if 97 \<le> c \<and> c \<le> 122 then c + (- 32) else c)"

definition CaseInsensitiveCompareASCII :: "int \<Rightarrow> int \<Rightarrow> bool" where
  "CaseInsensitiveCompareASCII x y = (ToLowerASCII x = ToLowerASCII y)"

text \<open>\<open>tolower\<close> in the C locale.\<close>

definition CaseInsensitiveCompare :: "int \<Rightarrow> int \<Rightarrow> bool" where
  "CaseInsensitiveCompare x y = (ToLowerASCII x = ToLowerASCII y)"

definition StringToLowerASCII :: "ustring \<Rightarrow> ustring" where
  "StringToLowerASCII s = map ToLowerASCII s"

definition StringToUpperASCII :: "ustring \<Rightarrow> ustring" where
  "StringToUpperASCII s = map ToUpperASCII s"

definition IsAsciiWhitespace :: "int \<Rightarrow> bool" where
  "IsAsciiWhitespace c \<longleftrightarrow> c = 32 \<or> c = 13 \<or> c = 10 \<or> c = 9"

definition IsAsciiAlpha :: "int \<Rightarrow> bool" where
  "IsAsciiAlpha c \<longleftrightarrow> (65 \<le> c \<and> c \<le> 90) \<or> (97 \<le> c \<and> c \<le> 122)"

definition IsAsciiDigit :: "int \<Rightarrow> bool" where
  "IsAsciiDigit c \<longleftrightarrow> 48 \<le> c \<and> c \<le> 57"

definition IsHexDigit :: "int \<Rightarrow> bool" where
  "IsHexDigit c \<longleftrightarrow> (48 \<le> c \<and> c \<le> 57) \<or> (65 \<le> c \<and> c \<le> 70) \<or> (97 \<le> c \<and> c \<le> 102)"

definition HexDigitToInt :: "int \<Rightarrow> int res" where
  "HexDigitToInt c =
     bindR (dcheck (IsHexDigit c) ''IsHexDigit(c)'') (\<lambda>_.
       Inr (if 48 \<le> c \<and> c \<le> 57 then c - 48
            else if 65 \<le> c \<and> c \<le> 70 then c - 65 + 10
            else if 97 \<le> c \<and> c \<le> 102 then c - 97 + 10 else 0))"

definition kWhitespaceWide :: ustring where
  "kWhitespaceWide = [0x0009, 0x000A, 0x000B, 0x000C, 0x000D, 0x0020, 0x0085, 0x00A0, 0x1680, 0x180E, 0x2000, 0x2001,
     0x2002, 0x2003, 0x2004, 0x2005, 0x2006, 0x2007, 0x2008, 0x2009, 0x200A, 0x200C, 0x2028, 0x2029, 0x202F, 0x205F, 0x3000]"

definition kWhitespaceASCII :: ustring where
  "kWhitespaceASCII = [0x09, 0x0A, 0x0B, 0x0C, 0x0D, 0x20]"

text \<open>\<open>wcschr(s, 0)\<close> finds the terminating NUL, so \<open>IsWhitespace(0)\<close> is true.\<close>

definition IsWhitespace :: "int \<Rightarrow> bool" where
  "IsWhitespace c \<longleftrightarrow> c \<in> set kWhitespaceWide \<or> c = 0"

section \<open>IsWprintfFormatPortable\<close>

fun wprintf_scan :: "ustring \<Rightarrow> bool" and wprintf_spec :: "bool \<Rightarrow> ustring \<Rightarrow> bool" where
  "wprintf_scan [] = True"
| "wprintf_scan (c # cs) = (if c = 37 then wprintf_spec False cs else wprintf_scan cs)"
| "wprintf_spec modifier_l [] = True"
| "wprintf_spec modifier_l (c # cs) =
     (if c \<noteq> 108 \<and> (((c = 115 \<or> c = 99) \<and> \<not> modifier_l) \<or> c \<in> {83, 67, 70, 68, 79, 85}) then False
      else if c \<in> {100, 105, 111, 117, 120, 88, 101, 69, 102, 103, 71, 97, 65, 99, 115, 112, 110, 37} then wprintf_scan cs
      else wprintf_spec (modifier_l \<or> c = 108) cs)"

definition IsWprintfFormatPortable :: "ustring \<Rightarrow> bool" where
  "IsWprintfFormatPortable format = wprintf_scan format"

section \<open>Replacing and removing characters\<close>

function replace_chars_loop :: "ustring \<Rightarrow> ustring \<Rightarrow> ustring \<Rightarrow> nat \<Rightarrow> ustring" where
  "replace_chars_loop chars r out from_pos =
     (case find_first (\<lambda>c. c \<in> set chars) from_pos out of
        None \<Rightarrow> out
      | Some found \<Rightarrow> replace_chars_loop chars r (replace_at found 1 r out) (found + length r))"
  by pat_completeness auto
termination
proof (relation "measure (\<lambda>(chars, r, out, from_pos). length out - from_pos)", simp)
  fix chars r out :: ustring and from_pos found
  assume "find_first (\<lambda>c. c \<in> set chars) from_pos out = Some found"
  from find_first_bounds [OF this]
  show "((chars, r, replace_at found 1 r out, found + length r), chars, r, out, from_pos)
      \<in> measure (\<lambda>(chars, r, out, from_pos). length out - from_pos)"
    by (auto simp: replace_at_def)
qed

declare replace_chars_loop.simps [simp del]

definition ReplaceCharsT :: "ustring \<Rightarrow> ustring \<Rightarrow> ustring \<Rightarrow> bool \<times> ustring" where
  "ReplaceCharsT input replace_chars replace_with =
     (find_first (\<lambda>c. c \<in> set replace_chars) 0 input \<noteq> None, replace_chars_loop replace_chars replace_with input 0)"

definition ReplaceChars :: "ustring \<Rightarrow> ustring \<Rightarrow> ustring \<Rightarrow> bool \<times> ustring" where
  "ReplaceChars = ReplaceCharsT"

definition RemoveChars :: "ustring \<Rightarrow> ustring \<Rightarrow> bool \<times> ustring" where
  "RemoveChars input remove_chars = ReplaceChars input remove_chars []"

section \<open>Trimming\<close>

definition TRIM_NONE :: nat where "TRIM_NONE = 0"
definition TRIM_LEADING :: nat where "TRIM_LEADING = 1"
definition TRIM_TRAILING :: nat where "TRIM_TRAILING = 2"
definition TRIM_ALL :: nat where "TRIM_ALL = or TRIM_LEADING TRIM_TRAILING"

definition TrimStringT :: "ustring \<Rightarrow> ustring \<Rightarrow> nat \<Rightarrow> nat \<times> ustring" where
  "TrimStringT input trim_chars positions =
     (let last_char = length input - 1;
          first_good = (if and positions TRIM_LEADING \<noteq> 0 then find_first (\<lambda>c. c \<notin> set trim_chars) 0 input else Some 0);
          last_good = (if and positions TRIM_TRAILING \<noteq> 0 then find_last (\<lambda>c. c \<notin> set trim_chars) input else Some last_char)
      in if input = [] then (TRIM_NONE, [])
         else case (first_good, last_good) of
           (Some f, Some l) \<Rightarrow>
             (or (if f = 0 then TRIM_NONE else TRIM_LEADING) (if l = last_char then TRIM_NONE else TRIM_TRAILING),
              substr f (l - f + 1) input)
         | _ \<Rightarrow> (positions, []))"

definition TrimString :: "ustring \<Rightarrow> ustring \<Rightarrow> bool \<times> ustring" where
  "TrimString input trim_chars = (case TrimStringT input trim_chars TRIM_ALL of (p, out) \<Rightarrow> (p \<noteq> TRIM_NONE, out))"

definition TrimWhitespace16 :: "ustring \<Rightarrow> nat \<Rightarrow> nat \<times> ustring" where
  "TrimWhitespace16 input positions = TrimStringT input kWhitespaceWide positions"

definition TrimWhitespaceASCII :: "ustring \<Rightarrow> nat \<Rightarrow> nat \<times> ustring" where
  "TrimWhitespaceASCII input positions = TrimStringT input kWhitespaceASCII positions"

definition TrimWhitespace :: "ustring \<Rightarrow> nat \<Rightarrow> nat \<times> ustring" where
  "TrimWhitespace input positions = TrimWhitespaceASCII input positions"

section \<open>Collapsing white space\<close>

text \<open>\<open>out\<close> is the first \<open>chars_written\<close> characters of \<open>result\<close>.\<close>

fun collapse_loop :: "bool \<Rightarrow> ustring \<Rightarrow> bool \<Rightarrow> bool \<Rightarrow> ustring \<Rightarrow> ustring" where
  "collapse_loop brk out in_whitespace already_trimmed [] =
     (if in_whitespace \<and> \<not> already_trimmed then butlast out else out)"
| "collapse_loop brk out in_whitespace already_trimmed (c # cs) =
     (if IsWhitespace c then
        let out1 = (if \<not> in_whitespace then out @ [32] else out) in
        if brk \<and> \<not> already_trimmed \<and> (c = 10 \<or> c = 13) then collapse_loop brk (butlast out1) True True cs
        else collapse_loop brk out1 True already_trimmed cs
      else collapse_loop brk (out @ [c]) False False cs)"

definition CollapseWhitespaceT :: "ustring \<Rightarrow> bool \<Rightarrow> ustring" where
  "CollapseWhitespaceT s trim_sequences_with_line_breaks = collapse_loop trim_sequences_with_line_breaks [] True True s"

definition CollapseWhitespace :: "ustring \<Rightarrow> bool \<Rightarrow> ustring" where
  "CollapseWhitespace = CollapseWhitespaceT"

definition CollapseWhitespaceASCII :: "ustring \<Rightarrow> bool \<Rightarrow> ustring" where
  "CollapseWhitespaceASCII = CollapseWhitespaceT"

section \<open>Predicates on strings\<close>

fun ContainsOnlyWhitespaceASCII :: "ustring \<Rightarrow> bool" where
  "ContainsOnlyWhitespaceASCII [] = True"
| "ContainsOnlyWhitespaceASCII (c # cs) = (if \<not> IsAsciiWhitespace c then False else ContainsOnlyWhitespaceASCII cs)"

definition ContainsOnlyWhitespace :: "ustring \<Rightarrow> bool" where
  "ContainsOnlyWhitespace s = (find_first (\<lambda>c. c \<notin> set kWhitespaceWide) 0 s = None)"

fun ContainsOnlyCharsT :: "ustring \<Rightarrow> ustring \<Rightarrow> bool" where
  "ContainsOnlyCharsT [] characters = True"
| "ContainsOnlyCharsT (c # cs) characters =
     (if find_first (\<lambda>x. x = c) 0 characters = None then False else ContainsOnlyCharsT cs characters)"

definition ContainsOnlyChars :: "ustring \<Rightarrow> ustring \<Rightarrow> bool" where
  "ContainsOnlyChars = ContainsOnlyCharsT"

text \<open>\<open>w\<close> is the number of bits of the character type.\<close>

fun DoIsStringASCII :: "nat \<Rightarrow> ustring \<Rightarrow> bool" where
  "DoIsStringASCII w [] = True"
| "DoIsStringASCII w (c # cs) = (if c mod 2 ^ w > 0x7F then False else DoIsStringASCII w cs)"

definition IsStringASCII :: "nat \<Rightarrow> ustring \<Rightarrow> bool" where
  "IsStringASCII = DoIsStringASCII"

definition to_char :: "int \<Rightarrow> int" where
  "to_char c = (c + 128) mod 256 - 128"

definition WideToASCII :: "ustring \<Rightarrow> ustring res" where
  "WideToASCII wide = bindR (dcheck (IsStringASCII 32 wide) ''IsStringASCII(wide)'') (\<lambda>_. Inr (map to_char wide))"

definition UTF16ToASCII :: "ustring \<Rightarrow> ustring res" where
  "UTF16ToASCII utf16 = bindR (dcheck (IsStringASCII 16 utf16) ''IsStringASCII(utf16)'') (\<lambda>_. Inr (map to_char utf16))"

fun latin1_loop :: "ustring \<Rightarrow> ustring \<Rightarrow> bool \<times> ustring" where
  "latin1_loop out [] = (True, out)"
| "latin1_loop out (c # cs) = (if c > 255 then (False, []) else latin1_loop (out @ [to_char c]) cs)"

definition WideToLatin1 :: "ustring \<Rightarrow> bool \<times> ustring" where
  "WideToLatin1 wide = latin1_loop [] wide"

fun DoLowerCaseEqualsASCII :: "ustring \<Rightarrow> ustring \<Rightarrow> bool" where
  "DoLowerCaseEqualsASCII [] b = (b = [])"
| "DoLowerCaseEqualsASCII (c # cs) b =
     (case b of [] \<Rightarrow> False | d # ds \<Rightarrow> if ToLowerASCII c \<noteq> d then False else DoLowerCaseEqualsASCII cs ds)"

definition LowerCaseEqualsASCII :: "ustring \<Rightarrow> ustring \<Rightarrow> bool" where
  "LowerCaseEqualsASCII = DoLowerCaseEqualsASCII"

definition EqualsASCII :: "ustring \<Rightarrow> ustring \<Rightarrow> bool" where
  "EqualsASCII a b = (if length a \<noteq> length b then False else b = a)"

text \<open>\<open>strncasecmp\<close> of two NUL-terminated strings in the C locale, compared with zero.\<close>

fun strncasecmp_equal :: "nat \<Rightarrow> ustring \<Rightarrow> ustring \<Rightarrow> bool" where
  "strncasecmp_equal 0 a b = True"
| "strncasecmp_equal (Suc n) [] [] = True"
| "strncasecmp_equal (Suc n) (x # a) (y # b) = (ToLowerASCII x = ToLowerASCII y \<and> (x = 0 \<or> strncasecmp_equal n a b))"
| "strncasecmp_equal (Suc n) [] (y # b) = (y = 0)"
| "strncasecmp_equal (Suc n) (x # a) [] = (x = 0)"

definition StartsWithASCII :: "ustring \<Rightarrow> ustring \<Rightarrow> bool \<Rightarrow> bool" where
  "StartsWithASCII str search case_sensitive =
     (if case_sensitive then substr 0 (length search) str = search else strncasecmp_equal (length search) str search)"

definition StartsWithT :: "ustring \<Rightarrow> ustring \<Rightarrow> bool \<Rightarrow> bool" where
  "StartsWithT str search case_sensitive =
     (if case_sensitive then substr 0 (length search) str = search
      else if length search > length str then False
      else list_all2 CaseInsensitiveCompare search (take (length search) str))"

definition StartsWith :: "ustring \<Rightarrow> ustring \<Rightarrow> bool \<Rightarrow> bool" where
  "StartsWith = StartsWithT"

definition EndsWithT :: "ustring \<Rightarrow> ustring \<Rightarrow> bool \<Rightarrow> bool" where
  "EndsWithT str search case_sensitive =
     (let str_length = length str; search_length = length search in
      if search_length > str_length then False
      else if case_sensitive then substr (str_length - search_length) search_length str = search
      else list_all2 CaseInsensitiveCompare search (drop (str_length - search_length) str))"

definition EndsWith :: "ustring \<Rightarrow> ustring \<Rightarrow> bool \<Rightarrow> bool" where
  "EndsWith = EndsWithT"

section \<open>What trimming leaves\<close>

lemma trim_id:
  assumes "p = [] \<or> hd p \<notin> set kWhitespaceASCII \<and> List.last p \<notin> set kWhitespaceASCII"
  shows "snd (TrimWhitespace p TRIM_ALL) = p"
proof (cases "p = []")
  case False
  then have "takeWhile (\<lambda>c. c \<in> set kWhitespaceASCII) p = []" "takeWhile (\<lambda>c. c \<in> set kWhitespaceASCII) (rev p) = []"
    using assms by (auto simp: takeWhile_eq_Nil_iff hd_rev)
  then have "find_first (\<lambda>c. c \<notin> set kWhitespaceASCII) 0 p = Some 0" "find_last (\<lambda>c. c \<notin> set kWhitespaceASCII) p = Some (length p - 1)"
    using False by (simp_all add: find_first_def find_last_def Let_def)
  moreover have "and TRIM_ALL TRIM_LEADING \<noteq> 0" "and TRIM_ALL TRIM_TRAILING \<noteq> 0" by (simp_all add: TRIM_ALL_def TRIM_LEADING_def TRIM_TRAILING_def)
  ultimately show ?thesis using False
    by (simp add: TrimWhitespace_def TrimWhitespaceASCII_def TrimStringT_def Let_def substr_def)
qed (simp add: TrimWhitespace_def TrimWhitespaceASCII_def TrimStringT_def)

lemma find_first_0: "find_first P 0 s = Some f \<Longrightarrow> f < length s \<and> P (s ! f) \<and> (\<forall>i<f. \<not> P (s ! i))"
proof -
  assume "find_first P 0 s = Some f"
  then have f: "f = length (takeWhile (\<lambda>c. \<not> P c) s)" "f < length s" by (auto simp: find_first_def Let_def split: if_splits)
  moreover have "P (s ! f)" using nth_length_takeWhile [of "\<lambda>c. \<not> P c" s] f by simp
  moreover have "\<not> P (s ! i)" if "i < f" for i
    using that f(1) set_takeWhileD [of "s ! i" "\<lambda>c. \<not> P c" s] nth_mem [of i "takeWhile (\<lambda>c. \<not> P c) s"] takeWhile_nth [of i "\<lambda>c. \<not> P c" s] by simp
  ultimately show ?thesis by simp
qed

lemma find_first_None: "find_first P i s = None \<longleftrightarrow> (\<forall>c\<in>set (drop i s). \<not> P c)"
proof -
  have "\<not> i + length (takeWhile (\<lambda>c. \<not> P c) (drop i s)) < length s \<longleftrightarrow> length (takeWhile (\<lambda>c. \<not> P c) (drop i s)) = length (drop i s)"
    using length_takeWhile_le [of "\<lambda>c. \<not> P c" "drop i s"] by auto
  also have "\<dots> \<longleftrightarrow> takeWhile (\<lambda>c. \<not> P c) (drop i s) = drop i s"
    by (metis takeWhile_eq_take take_all_iff order_refl)
  also have "\<dots> \<longleftrightarrow> (\<forall>c\<in>set (drop i s). \<not> P c)" by (auto simp: takeWhile_eq_all_conv)
  finally have "(\<not> i + length (takeWhile (\<lambda>c. \<not> P c) (drop i s)) < length s) = (\<forall>c\<in>set (drop i s). \<not> P c)" .
  moreover have "((if b then Some n else None) = None) = (\<not> b)" for b and n :: nat by simp
  ultimately show ?thesis unfolding find_first_def Let_def by (simp only:)
qed

lemma find_last_rev: "find_last P s = map_option (\<lambda>n. length s - 1 - n) (find_first P 0 (rev s))"
  by (simp add: find_last_def find_first_def Let_def)

lemma find_last_nth: "find_last P s = Some l \<Longrightarrow> l < length s \<and> P (s ! l)"
proof -
  assume "find_last P s = Some l"
  then obtain n where n: "find_first P 0 (rev s) = Some n" "l = length s - 1 - n" by (auto simp: find_last_rev)
  then have "n < length s" "P (rev s ! n)" using find_first_0 [OF n(1)] by auto
  then show ?thesis using n(2) by (auto simp: rev_nth)
qed

lemma find_last_snoc [simp]: "find_last P (d @ [c]) = (if P c then Some (length d) else find_last P d)"
  by (auto simp: find_last_def Let_def)

lemma find_last_Nil [simp]: "find_last P [] = None"
  by (simp add: find_last_def)

lemma find_last_append: "find_last P (d @ w) = (case find_last P w of None \<Rightarrow> find_last P d | Some k \<Rightarrow> Some (length d + k))"
  by (induction w rule: rev_induct) (auto simp flip: append_assoc split: option.split)

lemma trim_ends:
  "snd (TrimWhitespace s TRIM_ALL) = [] \<or>
   hd (snd (TrimWhitespace s TRIM_ALL)) \<notin> set kWhitespaceASCII \<and> List.last (snd (TrimWhitespace s TRIM_ALL)) \<notin> set kWhitespaceASCII"
proof -
  let ?P = "\<lambda>c. c \<notin> set kWhitespaceASCII"
  have "and TRIM_ALL TRIM_LEADING \<noteq> 0" "and TRIM_ALL TRIM_TRAILING \<noteq> 0" by (simp_all add: TRIM_ALL_def TRIM_LEADING_def TRIM_TRAILING_def)
  then have e: "snd (TrimWhitespace s TRIM_ALL) = (if s = [] then [] else case (find_first ?P 0 s, find_last ?P s) of
      (Some f, Some l) \<Rightarrow> substr f (l - f + 1) s | _ \<Rightarrow> [])"
    by (simp add: TrimWhitespace_def TrimWhitespaceASCII_def TrimStringT_def Let_def split: option.split)
  show ?thesis
  proof (cases "\<exists>f l. find_first ?P 0 s = Some f \<and> find_last ?P s = Some l")
    case True
    then obtain f l where fl: "find_first ?P 0 s = Some f" "find_last ?P s = Some l" by blast
    have f: "f < length s" "?P (s ! f)" "\<forall>i<f. \<not> ?P (s ! i)" using find_first_0 [OF fl(1)] by auto
    have l: "l < length s" "?P (s ! l)" using find_last_nth [OF fl(2)] by auto
    have fl': "f \<le> l" using f(3) l(2) not_le by blast
    have "snd (TrimWhitespace s TRIM_ALL) = substr f (l - f + 1) s" using e fl f(1) by auto
    moreover have "hd (substr f (l - f + 1) s) = s ! f" using f(1) by (simp add: substr_def hd_drop_conv_nth)
    moreover have "List.last (substr f (l - f + 1) s) = s ! l" using f(1) l(1) fl' by (simp add: substr_def last_conv_nth)
    ultimately show ?thesis using f(2) l(2) by simp
  next
    case False
    then show ?thesis using e by (cases "find_first ?P 0 s"; cases "find_last ?P s") auto
  qed
qed

lemma trim_trim [simp]: "snd (TrimWhitespace (snd (TrimWhitespace s TRIM_ALL)) TRIM_ALL) = snd (TrimWhitespace s TRIM_ALL)"
  by (rule trim_id) (rule trim_ends)

end
