(* ===== verification/StringAlgos.thy ===== *)
theory StringAlgos imports StringOps begin

text \<open>
  The loops of \<open>base/string_util.cc\<close> (replacing substrings, tokenizing, joining, placeholders,
  wildcard patterns, \<open>strlcpy\<close>) and \<open>base/string_split.cc\<close>, \<open>base/string_tokenizer.h\<close>.
\<close>

section \<open>Replacing substrings\<close>

text \<open>An empty \<open>find_this\<close> fails the debug check; the loop stops for every other one.\<close>

function replace_sub_loop :: "ustring \<Rightarrow> ustring \<Rightarrow> bool \<Rightarrow> ustring \<Rightarrow> nat \<Rightarrow> ustring" where
  "replace_sub_loop find_this replace_with replace_all str from_pos =
     (case find_sub find_this from_pos str of
        None \<Rightarrow> str
      | Some offs \<Rightarrow>
          let str' = replace_at offs (length find_this) replace_with str in
          if \<not> replace_all \<or> find_this = [] then str'
          else replace_sub_loop find_this replace_with replace_all str' (offs + length replace_with))"
  by pat_completeness auto
termination
proof (relation "measure (\<lambda>(t, r, a, str, from_pos). length str - from_pos)", simp)
  fix t r str :: ustring and a from_pos offs x
  assume "find_sub t from_pos str = Some offs" "x = replace_at offs (length t) r str" "\<not> (\<not> a \<or> t = [])"
  with find_sub_bounds [of t from_pos str offs]
  have "from_pos \<le> offs" "offs + length t \<le> length str" "x = replace_at offs (length t) r str" "0 < length t" by auto
  moreover from this have "length str - (length t + offs) < length str - from_pos" by linarith
  ultimately show "((t, r, a, x, offs + length r), t, r, a, str, from_pos)
      \<in> measure (\<lambda>(t, r, a, str, from_pos). length str - from_pos)"
    by (simp add: replace_at_def)
qed

declare replace_sub_loop.simps [simp del]

definition DoReplaceSubstringsAfterOffset :: "ustring \<Rightarrow> nat option \<Rightarrow> ustring \<Rightarrow> ustring \<Rightarrow> bool \<Rightarrow> ustring res" where
  "DoReplaceSubstringsAfterOffset str start_offset find_this replace_with replace_all =
     (case start_offset of
        None \<Rightarrow> Inr str
      | Some off \<Rightarrow>
          if off \<ge> length str then Inr str
          else bindR (dcheck (find_this \<noteq> []) ''!find_this.empty()'') (\<lambda>_.
            Inr (replace_sub_loop find_this replace_with replace_all str off)))"

definition ReplaceFirstSubstringAfterOffset :: "ustring \<Rightarrow> nat option \<Rightarrow> ustring \<Rightarrow> ustring \<Rightarrow> ustring res" where
  "ReplaceFirstSubstringAfterOffset str off t r = DoReplaceSubstringsAfterOffset str off t r False"

definition ReplaceSubstringsAfterOffset :: "ustring \<Rightarrow> nat option \<Rightarrow> ustring \<Rightarrow> ustring \<Rightarrow> ustring res" where
  "ReplaceSubstringsAfterOffset str off t r = DoReplaceSubstringsAfterOffset str off t r True"

section \<open>Tokenize and JoinString\<close>

function tokenize_loop :: "ustring \<Rightarrow> ustring \<Rightarrow> nat option \<Rightarrow> ustring list \<Rightarrow> ustring list" where
  "tokenize_loop str delims start tokens =
     (case start of
        None \<Rightarrow> tokens
      | Some s \<Rightarrow>
          case find_first (\<lambda>c. c \<in> set delims) (s + 1) str of
            None \<Rightarrow> tokens @ [drop s str]
          | Some e \<Rightarrow> tokenize_loop str delims (find_first (\<lambda>c. c \<notin> set delims) (e + 1) str) (tokens @ [substr s (e - s) str]))"
  by pat_completeness auto
termination
proof (relation "measure (\<lambda>(str, delims, start, tokens). case start of None \<Rightarrow> 0 | Some s \<Rightarrow> length str + 1 - s)", simp)
  fix str delims :: ustring and start tokens s e
  assume a: "start = Some s" "find_first (\<lambda>c. c \<in> set delims) (s + 1) str = Some e"
  show "((str, delims, find_first (\<lambda>c. c \<notin> set delims) (e + 1) str, tokens @ [substr s (e - s) str]), str, delims, start, tokens)
      \<in> measure (\<lambda>(str, delims, start, tokens). case start of None \<Rightarrow> 0 | Some s \<Rightarrow> length str + 1 - s)"
    using a find_first_bounds [OF a(2)] find_first_bounds [of "\<lambda>c. c \<notin> set delims" "e + 1" str]
    by (auto split: option.splits)
qed

declare tokenize_loop.simps [simp del]

definition TokenizeT :: "ustring \<Rightarrow> ustring \<Rightarrow> ustring list" where
  "TokenizeT str delimiters = tokenize_loop str delimiters (find_first (\<lambda>c. c \<notin> set delimiters) 0 str) []"

definition Tokenize :: "ustring \<Rightarrow> ustring \<Rightarrow> nat \<times> ustring list" where
  "Tokenize str delimiters = (let tokens = TokenizeT str delimiters in (length tokens, tokens))"

fun JoinStringT :: "ustring list \<Rightarrow> int \<Rightarrow> ustring" where
  "JoinStringT [] sep = []"
| "JoinStringT (p # ps) sep = foldl (\<lambda>result q. result @ [sep] @ q) p ps"

definition JoinString :: "ustring list \<Rightarrow> int \<Rightarrow> ustring" where
  "JoinString = JoinStringT"

section \<open>ReplaceStringPlaceholders\<close>

record replacement_offset =
  ro_parameter :: nat
  ro_offset :: nat

definition CompareParameter :: "replacement_offset \<Rightarrow> replacement_offset \<Rightarrow> bool" where
  "CompareParameter elem1 elem2 = (ro_parameter elem1 < ro_parameter elem2)"

definition insert_lower_bound :: "replacement_offset \<Rightarrow> replacement_offset list \<Rightarrow> replacement_offset list" where
  "insert_lower_bound x xs =
     takeWhile (\<lambda>y. CompareParameter y x) xs @ x # dropWhile (\<lambda>y. CompareParameter y x) xs"

definition parse_index :: "ustring \<Rightarrow> nat" where
  "parse_index ds = foldl (\<lambda>index c. (index * 10 mod 2 ^ 64 + nat ((c - 48) mod 2 ^ 64)) mod 2 ^ 64) 0 ds"

function placeholders :: "ustring list \<Rightarrow> ustring \<Rightarrow> ustring \<Rightarrow> replacement_offset list \<Rightarrow>
    (ustring \<times> replacement_offset list) res" where
  "placeholders subst [] formatted r_offsets = Inr (formatted, r_offsets)"
| "placeholders subst (c # cs) formatted r_offsets =
     (if c = 36 then
        (case cs of
           [] \<Rightarrow> placeholders subst [] formatted r_offsets
         | d # ds \<Rightarrow>
             bindR (dcheck (36 = d \<or> 49 \<le> d) ''Invalid placeholder'') (\<lambda>_.
               if 36 = d then
                 placeholders subst (dropWhile (\<lambda>x. x = 36) cs) (formatted @ takeWhile (\<lambda>x. x = 36) cs) r_offsets
               else
                 let index = (parse_index (takeWhile (\<lambda>x. 48 \<le> x \<and> x \<le> 57) cs) + (2 ^ 64 - 1)) mod 2 ^ 64;
                     r_offset = \<lparr>ro_parameter = index, ro_offset = length formatted\<rparr>
                 in placeholders subst (dropWhile (\<lambda>x. 48 \<le> x \<and> x \<le> 57) cs)
                      (if index < length subst then formatted @ subst ! index else formatted)
                      (insert_lower_bound r_offset r_offsets)))
      else placeholders subst cs (formatted @ [c]) r_offsets)"
  by pat_completeness auto
termination
  by (relation "measure (\<lambda>(subst, fmt, formatted, r_offsets). length fmt)")
    (auto simp: length_dropWhile_le less_Suc_eq_le intro: le_SucI)

text \<open>The result and what is appended to \<open>offsets\<close>; a caller that passes NULL drops the latter.\<close>

definition DoReplaceStringPlaceholders :: "ustring \<Rightarrow> ustring list \<Rightarrow> (ustring \<times> nat list) res" where
  "DoReplaceStringPlaceholders format_string subst =
     bindR (placeholders subst format_string [] []) (\<lambda>(formatted, r_offsets). Inr (formatted, map ro_offset r_offsets))"

definition ReplaceStringPlaceholders :: "ustring \<Rightarrow> ustring list \<Rightarrow> (ustring \<times> nat list) res" where
  "ReplaceStringPlaceholders = DoReplaceStringPlaceholders"

definition ReplaceStringPlaceholders_one :: "ustring \<Rightarrow> ustring \<Rightarrow> (ustring \<times> nat) res" where
  "ReplaceStringPlaceholders_one format_string a =
     bindR (ReplaceStringPlaceholders format_string [a]) (\<lambda>(result, offsets).
       bindR (dcheck (length offsets = 1) ''offsets.size() == 1'') (\<lambda>_. Inr (result, offsets ! 0)))"

section \<open>MatchPattern\<close>

text \<open>
  \<open>next\<close> is the decoder: for a string that is not empty it gives the code point (or the
  sentinel -1) and how many units after the first one it takes.
\<close>

type_synonym decoder = "ustring \<Rightarrow> int \<times> nat"

definition advance_char :: "decoder \<Rightarrow> ustring \<Rightarrow> ustring" where
  "advance_char nxt s = drop (Suc (snd (nxt s))) s"

definition IsWildcard :: "int \<Rightarrow> bool" where
  "IsWildcard character \<longleftrightarrow> character = 42 \<or> character = 63"

function EatSameChars :: "decoder \<Rightarrow> ustring option \<Rightarrow> ustring \<Rightarrow> ustring \<Rightarrow> ustring \<times> ustring" where
  "EatSameChars nxt escape pattern string =
     (if pattern = [] \<or> string = [] then (pattern, string)
      else if escape = None \<and> IsWildcard (hd pattern) then (pattern, string)
      else if escape = None \<and> hd pattern = 92 then EatSameChars nxt (Some pattern) (advance_char nxt pattern) string
      else if fst (nxt pattern) = fst (nxt string) \<and> fst (nxt pattern) \<noteq> - 1
        then EatSameChars nxt None (advance_char nxt pattern) (advance_char nxt string)
      else (case escape of None \<Rightarrow> pattern | Some e \<Rightarrow> e, string))"
  by pat_completeness auto
termination
  by (relation "measure (\<lambda>(nxt, escape, pattern, string). length pattern)") (auto simp: advance_char_def)

declare EatSameChars.simps [simp del]

function EatWildcard :: "decoder \<Rightarrow> ustring \<Rightarrow> ustring" where
  "EatWildcard nxt pattern =
     (if pattern = [] then pattern
      else if \<not> IsWildcard (hd pattern) then pattern
      else EatWildcard nxt (advance_char nxt pattern))"
  by pat_completeness auto
termination
  by (relation "measure (\<lambda>(nxt, pattern). length pattern)") (auto simp: advance_char_def)

declare EatWildcard.simps [simp del]

definition kMaxDepth :: nat where "kMaxDepth = 16"

text \<open>\<open>eval++\<close> steps through the non-empty suffixes of the string.\<close>

primrec nonempty_suffixes :: "ustring \<Rightarrow> ustring list" where
  "nonempty_suffixes [] = []"
| "nonempty_suffixes (c # cs) = (c # cs) # nonempty_suffixes cs"

function MatchPatternT :: "decoder \<Rightarrow> nat \<Rightarrow> ustring \<Rightarrow> ustring \<Rightarrow> bool" where
  "MatchPatternT nxt depth eval pattern0 =
     (if depth > kMaxDepth then False
      else
        let (pattern, string) = EatSameChars nxt None pattern0 eval in
        if string = [] then EatWildcard nxt pattern = []
        else if pattern = [] then False
        else
          let next_pattern = advance_char nxt pattern in
          if hd pattern = 63 \<and> (MatchPatternT nxt (depth + 1) string next_pattern \<or>
                                MatchPatternT nxt (depth + 1) (advance_char nxt string) next_pattern) then True
          else if hd pattern = 42 then
            (if list_ex (\<lambda>e. MatchPatternT nxt (depth + 1) e (EatWildcard nxt next_pattern)) (nonempty_suffixes string) then True
             else EatWildcard nxt pattern = [])
          else False)"
  by pat_completeness auto
termination
  by (relation "measure (\<lambda>(nxt, depth, eval, pattern). Suc kMaxDepth - depth)") (auto simp: kMaxDepth_def)

declare MatchPatternT.simps [simp del]

definition MatchPattern :: "decoder \<Rightarrow> ustring \<Rightarrow> ustring \<Rightarrow> bool" where
  "MatchPattern nxt eval pattern = MatchPatternT nxt 0 eval pattern"

section \<open>strlcpy\<close>

text \<open>Memory is a list of units; reads and writes outside it are faults.\<close>

definition mem_read :: "ustring \<Rightarrow> nat \<Rightarrow> int res" where
  "mem_read m i = (if i < length m then Inr (m ! i) else Inl (OutOfBounds ''read''))"

definition mem_write :: "ustring \<Rightarrow> nat \<Rightarrow> int \<Rightarrow> ustring res" where
  "mem_write m i x = (if i < length m then Inr (m[i := x]) else Inl (OutOfBounds ''write''))"

text \<open>The copy loop: \<open>Some i\<close> when it returned, \<open>None\<close> when it ran to \<open>dst_size\<close>.\<close>

function lcpy_loop :: "ustring \<Rightarrow> nat \<Rightarrow> nat \<Rightarrow> ustring \<Rightarrow> (nat option \<times> ustring) res" where
  "lcpy_loop src dst_size i dst =
     (if i < dst_size then
        bindR (mem_read src i) (\<lambda>c. bindR (mem_write dst i c) (\<lambda>dst1.
          if c = 0 then Inr (Some i, dst1) else lcpy_loop src dst_size (i + 1) dst1))
      else Inr (None, dst))"
  by pat_completeness auto
termination
  by (relation "measure (\<lambda>(src, dst_size, i, dst). dst_size - i)") auto

declare lcpy_loop.simps [simp del]

text \<open>\<open>while (src[dst_size]) ++dst_size\<close>; the read outside \<open>src\<close> bounds it.\<close>

function count_rest :: "ustring \<Rightarrow> nat \<Rightarrow> nat res" where
  "count_rest src n =
     (if n < length src then (if src ! n \<noteq> 0 then count_rest src (n + 1) else Inr n) else Inl (OutOfBounds ''read''))"
  by pat_completeness auto
termination
  by (relation "measure (\<lambda>(src, n). length src - n)") auto

declare count_rest.simps [simp del]

definition lcpyT :: "ustring \<Rightarrow> ustring \<Rightarrow> nat \<Rightarrow> (nat \<times> ustring) res" where
  "lcpyT dst src dst_size =
     bindR (lcpy_loop src dst_size 0 dst) (\<lambda>(r, dst1).
       case r of Some i \<Rightarrow> Inr (i, dst1)
       | None \<Rightarrow>
           bindR (if dst_size \<noteq> 0 then mem_write dst1 (dst_size - 1) 0 else Inr dst1) (\<lambda>dst2.
             bindR (count_rest src dst_size) (\<lambda>n. Inr (n, dst2))))"

definition strlcpy :: "ustring \<Rightarrow> ustring \<Rightarrow> nat \<Rightarrow> (nat \<times> ustring) res" where
  "strlcpy = lcpyT"

definition wcslcpy :: "ustring \<Rightarrow> ustring \<Rightarrow> nat \<Rightarrow> (nat \<times> ustring) res" where
  "wcslcpy = lcpyT"

section \<open>string_split.cc\<close>

text \<open>The body of the loop for the indices \<open>is\<close>; \<open>r\<close> is the result so far, \<open>last\<close> the start of the piece.\<close>

fun split_loop :: "ustring \<Rightarrow> int \<Rightarrow> bool \<Rightarrow> nat list \<Rightarrow> nat \<Rightarrow> ustring list \<Rightarrow> ustring list" where
  "split_loop str s trim [] last_start r = r"
| "split_loop str s trim (i # is) last_start r =
     (let c = length str in
      if i = c \<or> str ! i = s then
        let tmp0 = substr last_start (i - last_start) str;
            tmp = (if trim then snd (TrimWhitespace tmp0 TRIM_ALL) else tmp0);
            r1 = (if i \<noteq> c \<or> r \<noteq> [] \<or> tmp \<noteq> [] then r @ [tmp] else r)
        in split_loop str s trim is (i + 1) r1
      else split_loop str s trim is last_start r)"

definition SplitStringT :: "ustring \<Rightarrow> int \<Rightarrow> bool \<Rightarrow> ustring list" where
  "SplitStringT str s trim_whitespace = split_loop str s trim_whitespace [0..<length str + 1] 0 []"

definition SplitString :: "ustring \<Rightarrow> int \<Rightarrow> ustring list res" where
  "SplitString str c =
     bindR (dcheck (c \<ge> 0) ''c >= 0'') (\<lambda>_. bindR (dcheck (c < 0x7F) ''c < 0x7F'') (\<lambda>_. Inr (SplitStringT str c True)))"

text \<open>\<open>CBU16_IS_SINGLE\<close>: not a surrogate.\<close>

definition is_single16 :: "int \<Rightarrow> bool" where
  "is_single16 c \<longleftrightarrow> \<not> (0xd800 \<le> c \<and> c \<le> 0xdfff)"

definition SplitString16 :: "ustring \<Rightarrow> int \<Rightarrow> ustring list res" where
  "SplitString16 str c = bindR (dcheck (is_single16 c) ''CBU16_IS_SINGLE(c)'') (\<lambda>_. Inr (SplitStringT str c True))"

definition SplitStringDontTrim16 :: "ustring \<Rightarrow> int \<Rightarrow> ustring list res" where
  "SplitStringDontTrim16 str c = bindR (dcheck (is_single16 c) ''CBU16_IS_SINGLE(c)'') (\<lambda>_. Inr (SplitStringT str c False))"

definition SplitStringDontTrim :: "(ustring \<Rightarrow> bool) \<Rightarrow> ustring \<Rightarrow> int \<Rightarrow> ustring list res" where
  "SplitStringDontTrim is_utf8 str c =
     bindR (dcheck (is_utf8 str) ''IsStringUTF8(str)'') (\<lambda>_. bindR (dcheck (c \<ge> 0) ''c >= 0'') (\<lambda>_.
     bindR (dcheck (c < 0x7F) ''c < 0x7F'') (\<lambda>_. Inr (SplitStringT str c False))))"

definition SplitStringIntoKeyValues :: "ustring \<Rightarrow> int \<Rightarrow> bool \<times> ustring \<times> ustring list" where
  "SplitStringIntoKeyValues line delim =
     (case find_first (\<lambda>c. c = delim) 0 line of
        None \<Rightarrow> (False, [], [])
      | Some end_key_pos \<Rightarrow>
          let key = substr 0 end_key_pos line;
              remains = substr end_key_pos (length line - end_key_pos) line
          in case find_first (\<lambda>c. c \<noteq> delim) 0 remains of
               None \<Rightarrow> (False, key, [])
             | Some b \<Rightarrow> (True, key, [substr b (length remains - b) remains]))"

fun pairs_loop :: "int \<Rightarrow> ustring list \<Rightarrow> bool \<Rightarrow> (ustring \<times> ustring) list \<Rightarrow> (bool \<times> (ustring \<times> ustring) list) res" where
  "pairs_loop delim [] success kv = Inr (success, kv)"
| "pairs_loop delim (p # ps) success kv =
     (if p = [] then pairs_loop delim ps success kv
      else case SplitStringIntoKeyValues p delim of (ok, key, value) \<Rightarrow>
        bindR (dcheck (length value \<le> 1) ''value.size() <= 1'') (\<lambda>_.
          pairs_loop delim ps (success \<and> ok) (kv @ [(key, if value = [] then [] else value ! 0)])))"

definition SplitStringIntoKeyValuePairs :: "ustring \<Rightarrow> int \<Rightarrow> int \<Rightarrow> (bool \<times> (ustring \<times> ustring) list) res" where
  "SplitStringIntoKeyValuePairs line delim pair_delim =
     bindR (SplitString line pair_delim) (\<lambda>pairs. pairs_loop delim pairs True [])"

text \<open>With an empty separator the search never advances: the fuel runs out and the result is \<open>None\<close>.\<close>

fun split_sub_loop :: "nat \<Rightarrow> ustring \<Rightarrow> ustring \<Rightarrow> nat \<Rightarrow> ustring list \<Rightarrow> ustring list option" where
  "split_sub_loop 0 str s begin_index r = None"
| "split_sub_loop (Suc fuel) str s begin_index r =
     (case find_sub s begin_index str of
        None \<Rightarrow> Some (r @ [snd (TrimWhitespace (drop begin_index str) TRIM_ALL)])
      | Some end_index \<Rightarrow>
          split_sub_loop fuel str s (end_index + length s)
            (r @ [snd (TrimWhitespace (substr begin_index (end_index - begin_index) str) TRIM_ALL)]))"

definition SplitStringUsingSubstrT :: "nat \<Rightarrow> ustring \<Rightarrow> ustring \<Rightarrow> ustring list option" where
  "SplitStringUsingSubstrT fuel str s = split_sub_loop fuel str s 0 []"

definition SplitStringUsingSubstr :: "nat \<Rightarrow> ustring \<Rightarrow> ustring \<Rightarrow> ustring list option" where
  "SplitStringUsingSubstr = SplitStringUsingSubstrT"

definition html_space :: "int \<Rightarrow> bool" where
  "html_space c \<longleftrightarrow> c = 32 \<or> c = 9 \<or> c = 10 \<or> c = 11 \<or> c = 12 \<or> c = 13"

fun along_loop :: "ustring \<Rightarrow> nat list \<Rightarrow> bool \<Rightarrow> nat \<Rightarrow> ustring list \<Rightarrow> ustring list" where
  "along_loop str [] last_was_ws start r =
     (if \<not> last_was_ws then r @ [substr start (length str - start) str] else r)"
| "along_loop str (i # is) last_was_ws start r =
     (if html_space (str ! i) then
        (if \<not> last_was_ws then along_loop str is True start (if i > 0 then r @ [substr start (i - start) str] else r)
         else along_loop str is last_was_ws start r)
      else if last_was_ws then along_loop str is False i r
      else along_loop str is last_was_ws start r)"

definition SplitStringAlongWhitespaceT :: "ustring \<Rightarrow> ustring list" where
  "SplitStringAlongWhitespaceT str = (if length str = 0 then [] else along_loop str [0..<length str] False 0 [])"

definition SplitStringAlongWhitespace :: "ustring \<Rightarrow> ustring list" where
  "SplitStringAlongWhitespace = SplitStringAlongWhitespaceT"

section \<open>string_tokenizer.h\<close>

text \<open>\<open>start_pos_\<close> is 0; the iterators are offsets into the string.\<close>

record tokenizer =
  tk_string :: ustring
  tk_begin :: nat
  tk_end :: nat
  tk_delims :: ustring
  tk_quotes :: ustring
  tk_return_delims :: bool
  tk_is_delim :: bool

definition tokenizer_Init :: "ustring \<Rightarrow> ustring \<Rightarrow> tokenizer" where
  "tokenizer_Init s delims = \<lparr>tk_string = s, tk_begin = 0, tk_end = 0, tk_delims = delims, tk_quotes = [],
     tk_return_delims = False, tk_is_delim = False\<rparr>"

definition set_options :: "bool \<Rightarrow> tokenizer \<Rightarrow> tokenizer" where
  "set_options return_delims t = t\<lparr>tk_return_delims := return_delims\<rparr>"

definition set_quote_chars :: "ustring \<Rightarrow> tokenizer \<Rightarrow> tokenizer" where
  "set_quote_chars quotes t = t\<lparr>tk_quotes := quotes\<rparr>"

definition tokenizer_Reset :: "tokenizer \<Rightarrow> tokenizer" where
  "tokenizer_Reset t = t\<lparr>tk_end := 0\<rparr>"

definition token :: "tokenizer \<Rightarrow> ustring" where
  "token t = substr (tk_begin t) (tk_end t - tk_begin t) (tk_string t)"

definition IsDelim :: "tokenizer \<Rightarrow> int \<Rightarrow> bool" where
  "IsDelim t c = (find_first (\<lambda>x. x = c) 0 (tk_delims t) \<noteq> None)"

definition IsQuote :: "tokenizer \<Rightarrow> int \<Rightarrow> bool" where
  "IsQuote t c = (find_first (\<lambda>x. x = c) 0 (tk_quotes t) \<noteq> None)"

record advance_state =
  as_in_quote :: bool
  as_in_escape :: bool
  as_quote_char :: int

definition new_advance_state :: advance_state where
  "new_advance_state = \<lparr>as_in_quote = False, as_in_escape = False, as_quote_char = 0\<rparr>"

definition AdvanceOne :: "tokenizer \<Rightarrow> advance_state \<Rightarrow> int \<Rightarrow> bool \<times> advance_state" where
  "AdvanceOne t st c =
     (if as_in_quote st then
        (True, if as_in_escape st then st\<lparr>as_in_escape := False\<rparr>
               else if c = 92 then st\<lparr>as_in_escape := True\<rparr>
               else if c = as_quote_char st then st\<lparr>as_in_quote := False\<rparr> else st)
      else if IsDelim t c then (False, st)
      else (True, st\<lparr>as_quote_char := c, as_in_quote := IsQuote t c\<rparr>))"

function quick_scan :: "tokenizer \<Rightarrow> tokenizer" where
  "quick_scan t =
     (if tk_end t < length (tk_string t) \<and> find_first (\<lambda>x. x = tk_string t ! tk_end t) 0 (tk_delims t) = None
      then quick_scan (t\<lparr>tk_end := tk_end t + 1\<rparr>) else t)"
  by pat_completeness auto
termination
  by (relation "measure (\<lambda>t. length (tk_string t) - tk_end t)") auto

declare quick_scan.simps [simp del]

function quick_skip :: "tokenizer \<Rightarrow> bool \<times> tokenizer" where
  "quick_skip t =
     (let t1 = t\<lparr>tk_begin := tk_end t\<rparr> in
      if tk_end t1 < length (tk_string t1) then
        (let t2 = t1\<lparr>tk_end := tk_end t1 + 1\<rparr> in
         if find_first (\<lambda>x. x = tk_string t2 ! tk_begin t2) 0 (tk_delims t2) = None then (True, t2) else quick_skip t2)
      else (False, t1))"
  by pat_completeness auto
termination
  by (relation "measure (\<lambda>t. length (tk_string t) - tk_end t)") auto

declare quick_skip.simps [simp del]

definition QuickGetNext :: "tokenizer \<Rightarrow> bool \<times> tokenizer" where
  "QuickGetNext t =
     (case quick_skip (t\<lparr>tk_is_delim := False\<rparr>) of
        (False, t1) \<Rightarrow> (False, t1)
      | (True, t1) \<Rightarrow> (True, quick_scan t1))"

function full_scan :: "advance_state \<Rightarrow> tokenizer \<Rightarrow> tokenizer" where
  "full_scan st t =
     (if tk_end t < length (tk_string t) then
        (case AdvanceOne t st (tk_string t ! tk_end t) of
           (True, st1) \<Rightarrow> full_scan st1 (t\<lparr>tk_end := tk_end t + 1\<rparr>)
         | (False, st1) \<Rightarrow> t)
      else t)"
  by pat_completeness auto
termination
  by (relation "measure (\<lambda>(st, t). length (tk_string t) - tk_end t)") auto

declare full_scan.simps [simp del]

text \<open>\<open>Some st\<close>: the loop was left by \<open>break\<close>; \<open>None\<close> with true: a delimiter is returned as token.\<close>

function full_skip :: "advance_state \<Rightarrow> tokenizer \<Rightarrow> bool \<times> advance_state option \<times> tokenizer" where
  "full_skip st t =
     (let t1 = t\<lparr>tk_begin := tk_end t\<rparr> in
      if tk_end t1 < length (tk_string t1) then
        (let t2 = t1\<lparr>tk_end := tk_end t1 + 1\<rparr> in
         case AdvanceOne t2 st (tk_string t2 ! tk_begin t2) of
           (True, st1) \<Rightarrow> (True, Some st1, t2)
         | (False, st1) \<Rightarrow>
             if tk_return_delims t2 then (True, None, t2\<lparr>tk_is_delim := True\<rparr>) else full_skip st1 t2)
      else (False, None, t1))"
  by pat_completeness auto
termination
  by (relation "measure (\<lambda>(st, t). length (tk_string t) - tk_end t)") auto

declare full_skip.simps [simp del]

definition FullGetNext :: "tokenizer \<Rightarrow> bool \<times> tokenizer" where
  "FullGetNext t =
     (case full_skip new_advance_state (t\<lparr>tk_is_delim := False\<rparr>) of
        (False, st, t1) \<Rightarrow> (False, t1)
      | (True, None, t1) \<Rightarrow> (True, t1)
      | (True, Some st, t1) \<Rightarrow> (True, full_scan st t1))"

definition StringTokenizer_GetNext :: "tokenizer \<Rightarrow> bool \<times> tokenizer" where
  "StringTokenizer_GetNext t = (if tk_quotes t = [] \<and> \<not> tk_return_delims t then QuickGetNext t else FullGetNext t)"

end
