(* ===== verification/Strings.thy ===== *)
theory Strings imports StringAlgos begin

text \<open>
  The four ways of the library to cut a string into words agree with one reference, the maximal
  runs of characters that are not separators.
\<close>

section \<open>Searching\<close>

lemma find_first_Some:
  assumes "find_first P i s = Some f"
  shows "drop i s = takeWhile (\<lambda>c. \<not> P c) (drop i s) @ drop f s" "f = i + length (takeWhile (\<lambda>c. \<not> P c) (drop i s))"
    "f < length s" "P (s ! f)" "dropWhile (\<lambda>c. \<not> P c) (drop i s) = drop f s"
proof -
  let ?t = "takeWhile (\<lambda>c. \<not> P c) (drop i s)"
  show f: "f = i + length ?t" "f < length s" using assms by (auto simp: find_first_def Let_def split: if_splits)
  show dw: "dropWhile (\<lambda>c. \<not> P c) (drop i s) = drop f s"
    by (simp add: dropWhile_eq_drop f(1) add.commute)
  then show "drop i s = ?t @ drop f s" by (metis takeWhile_dropWhile_id)
  have "drop f s = s ! f # drop (Suc f) s" by (rule Cons_nth_drop_Suc [symmetric]) (rule f)
  then have "hd (dropWhile (\<lambda>c. \<not> P c) (drop i s)) = s ! f" "dropWhile (\<lambda>c. \<not> P c) (drop i s) \<noteq> []" by (simp_all add: dw)
  then show "P (s ! f)" using hd_dropWhile [of "\<lambda>c. \<not> P c" "drop i s"] by simp
qed

lemma find_eq: "(find_first (\<lambda>x. x = c) 0 cs = None) = (c \<notin> set cs)"
  by (auto simp: find_first_None)

lemma find_first_step:
  "length s \<le> i \<Longrightarrow> find_first P i s = None"
  "i < length s \<Longrightarrow> P (s ! i) \<Longrightarrow> find_first P i s = Some i"
  "i < length s \<Longrightarrow> \<not> P (s ! i) \<Longrightarrow> find_first P i s = find_first P (Suc i) s"
  by (simp_all add: find_first_def Cons_nth_drop_Suc [symmetric])

section \<open>Words\<close>

text \<open>The maximal runs of characters that are not separators.\<close>

function runs :: "(int \<Rightarrow> bool) \<Rightarrow> ustring \<Rightarrow> ustring list" where
  "runs P [] = []"
| "runs P (c # cs) =
     (if P c then runs P cs else (c # takeWhile (\<lambda>c. \<not> P c) cs) # runs P (dropWhile (\<lambda>c. \<not> P c) cs))"
  by pat_completeness auto
termination
  by (relation "measure (\<lambda>(P, s). length s)") (auto simp: length_dropWhile_le le_imp_less_Suc)

lemma runs_none: "(\<forall>c\<in>set s. P c) \<Longrightarrow> runs P s = []"
  by (induction P s rule: runs.induct) auto

lemma runs_skip: "runs P s = runs P (dropWhile P s)"
  by (induction s) auto

lemma runs_word:
  assumes "w \<noteq> []" "\<forall>c\<in>set w. \<not> P c" "rest = [] \<or> P (hd rest)"
  shows "runs P (w @ rest) = w # runs P rest"
proof -
  obtain c cs where w: "w = c # cs" using assms(1) by (cases w) auto
  have "takeWhile (\<lambda>c. \<not> P c) (cs @ rest) = cs" "dropWhile (\<lambda>c. \<not> P c) (cs @ rest) = rest"
    using assms(2,3) w by (cases rest; simp add: takeWhile_append2 dropWhile_append2)+
  then show ?thesis using assms(2) w by simp
qed

subsection \<open>Tokenize\<close>

lemma tokenize_runs:
  "tokenize_loop str d (find_first (\<lambda>c. c \<notin> set d) i str) toks = toks @ runs (\<lambda>c. c \<in> set d) (drop i str)"
proof (induction "length str - i" arbitrary: i toks rule: less_induct)
  case less
  let ?P = "\<lambda>c. c \<in> set d"
  show ?case
  proof (cases "find_first (\<lambda>c. c \<notin> set d) i str")
    case None
    then have "runs ?P (drop i str) = []" by (intro runs_none) (simp add: find_first_None)
    with None show ?thesis by (simp add: tokenize_loop.simps)
  next
    case (Some s)
    note S = find_first_Some [OF Some]
    have ds: "drop s str = str ! s # drop (s + 1) str" using S(3) by (simp add: Cons_nth_drop_Suc)
    have "runs ?P (drop i str) = runs ?P (drop s str)" using runs_skip [of ?P "drop i str"] S(5) by simp
    also have "\<dots> = (str ! s # takeWhile (\<lambda>c. \<not> ?P c) (drop (s + 1) str)) # runs ?P (dropWhile (\<lambda>c. \<not> ?P c) (drop (s + 1) str))"
      using S(4) by (simp add: ds)
    finally have R: "runs ?P (drop i str) =
      (str ! s # takeWhile (\<lambda>c. \<not> ?P c) (drop (s + 1) str)) # runs ?P (dropWhile (\<lambda>c. \<not> ?P c) (drop (s + 1) str))" .
    show ?thesis
    proof (cases "find_first ?P (s + 1) str")
      case None
      then have "runs ?P (drop s str) = [drop s str]"
        using runs_word [of "drop s str" ?P "[]"] S(4) ds by (simp add: find_first_None)
      then show ?thesis using None Some runs_skip [of ?P "drop i str"] S(5)
        by (simp add: tokenize_loop.simps [of str d "Some s"])
    next
      case (Some e)
      note E = find_first_Some [OF Some]
      have tok: "substr s (e - s) str = str ! s # takeWhile (\<lambda>c. \<not> ?P c) (drop (s + 1) str)"
        using E(1,2) by (simp add: substr_def ds) (metis append_eq_conv_conj)
      have "drop e str = str ! e # drop (e + 1) str" using E(3) by (simp add: Cons_nth_drop_Suc)
      then have "runs ?P (dropWhile (\<lambda>c. \<not> ?P c) (drop (s + 1) str)) = runs ?P (drop (e + 1) str)"
        using E(4,5) by simp
      moreover have "length str - (e + 1) < length str - i"
        using E(2,3) S(2,3) by linarith
      ultimately show ?thesis
        using less [of "e + 1" "toks @ [substr s (e - s) str]"] Some
        unfolding R \<open>find_first (\<lambda>c. c \<notin> set d) i str = Some s\<close>
        by (simp add: tokenize_loop.simps [of str d "Some s"] tok)
    qed
  qed
qed

lemma TokenizeT_runs: "TokenizeT str d = runs (\<lambda>c. c \<in> set d) str"
  using tokenize_runs [of str d 0 "[]"] by (simp add: TokenizeT_def)

subsection \<open>SplitStringAlongWhitespace\<close>

lemma along_runs:
  assumes "i \<le> length str"
  shows "start < i \<Longrightarrow> (\<forall>c\<in>set (substr start (i - start) str). \<not> html_space c) \<Longrightarrow>
      along_loop str [i..<length str] False start r = r @ runs html_space (drop start str)"
    and "along_loop str [i..<length str] True start r = r @ runs html_space (drop i str)"
  using assms
proof (induction "length str - i" arbitrary: i start r)
  case 0
  {
    case 1
    then have "i = length str" "drop start str \<noteq> []" "\<forall>c\<in>set (drop start str). \<not> html_space c"
      using 0 by (simp_all add: substr_def)
    then show ?case using runs_word [of "drop start str" html_space "[]"] by (simp add: substr_def)
  next
    case 2
    then show ?case using 0 by simp
  }
next
  case (Suc k)
  then have i: "i < length str" "length str - Suc i = k" "[i..<length str] = i # [Suc i..<length str]"
    by (auto simp: upt_conv_Cons)
  have di: "drop i str = str ! i # drop (Suc i) str" using i(1) by (simp add: Cons_nth_drop_Suc)
  note IH1 = Suc.hyps(1) [of "Suc i"] and IH2 = Suc.hyps(2) [of "Suc i"]
  {
    case 1
    let ?q = "substr start (i - start) str"
    have q: "drop start str = ?q @ drop i str" "?q \<noteq> []"
      using 1(1) i(1) by (auto simp: substr_def) (metis append_take_drop_id drop_drop le_add_diff_inverse2 less_imp_le)
    show ?case
    proof (cases "html_space (str ! i)")
      case True
      have "runs html_space (drop start str) = ?q # runs html_space (drop (Suc i) str)"
        using runs_word [of ?q html_space "drop i str"] q 1(2) True by (simp add: di)
      then show ?thesis using True 1(1) IH2 [of start "r @ [?q]"] i by (simp add: substr_def)
    next
      case False
      have "substr start (Suc i - start) str = ?q @ [str ! i]"
        using 1(1) i(1) by (simp add: substr_def Suc_diff_le take_Suc_conv_app_nth)
      then show ?thesis using False 1 IH1 [of start r] i by simp
    qed
  next
    case 2
    show ?case
    proof (cases "html_space (str ! i)")
      case True
      then show ?thesis using IH2 [of start r] i by (simp add: di)
    next
      case False
      have "substr i (Suc i - i) str = [str ! i]" by (simp add: substr_def di)
      then show ?thesis using False IH1 [of i r] i by simp
    qed
  }
qed


lemma SplitStringAlongWhitespaceT_runs: "SplitStringAlongWhitespaceT str = runs html_space str"
proof (cases str)
  case (Cons c cs)
  have "0 < length str" using Cons by simp
  then have "[0..<length str] = 0 # [1..<length str]" by (simp add: upt_conv_Cons)
  then show ?thesis
    using along_runs(1) [of 1 str 0 "[]"] along_runs(2) [of 1 str 0 "[]"] Cons
    by (auto simp: SplitStringAlongWhitespaceT_def substr_def)
qed (simp add: SplitStringAlongWhitespaceT_def)

subsection \<open>CollapseWhitespace\<close>

lemma JoinStringT_snoc: "ps \<noteq> [] \<Longrightarrow> JoinStringT (ps @ [p]) sep = JoinStringT ps sep @ [sep] @ p"
  by (cases ps) simp_all

lemma JoinStringT_append_last: "JoinStringT (ps @ [p @ q]) sep = JoinStringT (ps @ [p]) sep @ q"
  by (cases ps) simp_all

text \<open>Inside a word \<open>p\<close>, and between words, with the words \<open>ps\<close> already written.\<close>

lemma collapse_runs:
  shows "p \<noteq> [] \<Longrightarrow> \<forall>c\<in>set p. \<not> IsWhitespace c \<Longrightarrow>
      collapse_loop False (JoinStringT (ps @ [p]) 32) False False s = JoinStringT (ps @ runs IsWhitespace (p @ s)) 32"
    and "collapse_loop False (if ps = [] then [] else JoinStringT ps 32 @ [32]) True (ps = []) s =
      JoinStringT (ps @ runs IsWhitespace s) 32"
proof (induction s arbitrary: p ps)
  case Nil
  {
    case 1
    then show ?case using runs_word [of p IsWhitespace "[]"] by simp
  next
    case 2
    then show ?case by simp
  }
next
  case (Cons c s)
  {
    case 1
    show ?case
    proof (cases "IsWhitespace c")
      case True
      then have "runs IsWhitespace (p @ c # s) = p # runs IsWhitespace s"
        using runs_word [OF 1(1,2), of "c # s"] by simp
      then show ?thesis using True Cons.IH(2) [of "ps @ [p]"] by simp
    next
      case False
      then show ?thesis using Cons.IH(1) [of "p @ [c]" ps] 1 by (simp add: JoinStringT_append_last)
    qed
  next
    case 2
    show ?case
    proof (cases "IsWhitespace c")
      case True
      then show ?thesis using Cons.IH(2) [of ps] by simp
    next
      case False
      then have "(if ps = [] then [] else JoinStringT ps 32 @ [32]) @ [c] = JoinStringT (ps @ [[c]]) 32"
        by (simp add: JoinStringT_snoc)
      then show ?thesis using False Cons.IH(1) [of "[c]" ps] by simp
    qed
  }
qed

lemma CollapseWhitespaceT_runs: "CollapseWhitespaceT s False = JoinStringT (runs IsWhitespace s) 32"
  using collapse_runs(2) [of "[]" s] by (simp add: CollapseWhitespaceT_def)

text \<open>
  The words with the gap before each.  With trimming, a gap between two words that holds a line
  break is dropped, any other gap becomes one space.
\<close>

function gap_words :: "(int \<Rightarrow> bool) \<Rightarrow> ustring \<Rightarrow> (ustring \<times> ustring) list" where
  "gap_words P s =
     (let r = dropWhile P s in
      if r = [] then [] else (takeWhile P s, takeWhile (\<lambda>c. \<not> P c) r) # gap_words P (dropWhile (\<lambda>c. \<not> P c) r))"
  by pat_completeness auto
termination
proof (relation "measure (\<lambda>(P, s). length s)")
  fix P and s r :: ustring
  assume r: "r = dropWhile P s" "r \<noteq> []"
  then have "\<not> P (hd r)" using hd_dropWhile [of P s] by simp
  then have "length (dropWhile (\<lambda>c. \<not> P c) r) < length r"
    using r(2) length_dropWhile_le [of "\<lambda>c. \<not> P c" "tl r"] by (cases r) (simp_all add: le_imp_less_Suc)
  with r(1) length_dropWhile_le [of P s]
  show "((P, dropWhile (\<lambda>c. \<not> P c) r), (P, s)) \<in> measure (\<lambda>(P, s). length s)" by simp
qed simp

declare gap_words.simps [simp del]

definition gap_text :: "bool \<Rightarrow> ustring \<Rightarrow> ustring" where
  "gap_text trim g = (if trim \<and> (10 \<in> set g \<or> 13 \<in> set g) then [] else [32])"

definition later_words :: "bool \<Rightarrow> (ustring \<times> ustring) list \<Rightarrow> ustring" where
  "later_words trim gws = concat (map (\<lambda>(g, w). gap_text trim g @ w) gws)"

definition collapsed :: "bool \<Rightarrow> ustring \<Rightarrow> ustring" where
  "collapsed trim s =
     (case gap_words IsWhitespace s of [] \<Rightarrow> [] | (g, w) # gws \<Rightarrow> w @ later_words trim gws)"

text \<open>The rest of the output from the word at the start of \<open>r\<close> on.\<close>

definition from_word :: "bool \<Rightarrow> ustring \<Rightarrow> ustring" where
  "from_word trim r = takeWhile (\<lambda>c. \<not> IsWhitespace c) r @
     later_words trim (gap_words IsWhitespace (dropWhile (\<lambda>c. \<not> IsWhitespace c) r))"

lemma later_words_gap:
  "later_words trim (gap_words IsWhitespace s) =
     (let r = dropWhile IsWhitespace s in if r = [] then [] else gap_text trim (takeWhile IsWhitespace s) @ from_word trim r)"
  by (subst gap_words.simps) (simp add: Let_def later_words_def from_word_def)

lemma from_word_Nil [simp]: "from_word trim [] = []"
  by (simp add: from_word_def gap_words.simps later_words_def)

lemma from_word_Cons: "\<not> IsWhitespace c \<Longrightarrow> from_word trim (c # r) = c # from_word trim r"
  by (simp add: from_word_def)

lemma from_word_gap: "IsWhitespace c \<Longrightarrow> from_word trim (c # s) =
   (let r = dropWhile IsWhitespace s in if r = [] then [] else gap_text trim (c # takeWhile IsWhitespace s) @ from_word trim r)"
  using later_words_gap [of trim "c # s"] by (simp add: from_word_def)

lemma collapse_from:
  shows "collapse_loop trim out False False s = out @ from_word trim s"
    and "collapse_loop trim (out @ [32]) True False s = out @
      (let r = dropWhile IsWhitespace s in if r = [] then [] else gap_text trim (takeWhile IsWhitespace s) @ from_word trim r)"
    and "collapse_loop trim out True True s = out @ from_word trim (dropWhile IsWhitespace s)"
proof (induction s arbitrary: out)
  case (Cons c s)
  {
    case 1
    show ?case
    proof (cases "IsWhitespace c")
      case True
      then show ?thesis using Cons.IH(2,3) [of out]
        by (cases "trim \<and> (c = 10 \<or> c = 13)") (auto simp: from_word_gap Let_def gap_text_def simp del: dropWhile_eq_Nil_conv)
    next
      case False
      then show ?thesis using Cons.IH(1) [of "out @ [c]"] by (simp add: from_word_Cons)
    qed
  next
    case 2
    show ?case
    proof (cases "IsWhitespace c")
      case True
      then show ?thesis using Cons.IH(2,3) [of out]
        by (cases "trim \<and> (c = 10 \<or> c = 13)") (auto simp: Let_def gap_text_def simp del: dropWhile_eq_Nil_conv)
    next
      case False
      then show ?thesis using Cons.IH(1) [of "out @ [32, c]"] by (simp add: from_word_Cons gap_text_def)
    qed
  next
    case 3
    show ?case
      using Cons.IH(1) [of "out @ [c]"] Cons.IH(3) [of out] by (simp add: from_word_Cons)
  }
qed simp_all

lemma CollapseWhitespaceT_collapsed: "CollapseWhitespaceT s trim = collapsed trim s"
  using collapse_from(3) [of trim "[]" s]
  by (simp add: CollapseWhitespaceT_def collapsed_def gap_words.simps [of IsWhitespace s] Let_def from_word_def
      gap_words.simps [of IsWhitespace "[]"] later_words_def del: dropWhile_eq_Nil_conv split: list.split)

subsection \<open>The tokenizer\<close>

primrec take_tokens :: "(tokenizer \<Rightarrow> bool \<times> tokenizer) \<Rightarrow> nat \<Rightarrow> tokenizer \<Rightarrow> ustring list" where
  "take_tokens get 0 t = []"
| "take_tokens get (Suc n) t = (case get t of (ok, t1) \<Rightarrow> if ok then token t1 # take_tokens get n t1 else [])"

lemma quick_skip_spec:
  "tk_end t \<le> length (tk_string t) \<Longrightarrow> quick_skip t =
     (case find_first (\<lambda>c. c \<notin> set (tk_delims t)) (tk_end t) (tk_string t) of
        None \<Rightarrow> (False, t\<lparr>tk_begin := length (tk_string t), tk_end := length (tk_string t)\<rparr>)
      | Some s \<Rightarrow> (True, t\<lparr>tk_begin := s, tk_end := s + 1\<rparr>))"
proof (induction t rule: quick_skip.induct)
  case (1 t)
  let ?s = "tk_string t" and ?i = "tk_end t"
  consider "?i = length ?s" | "?i < length ?s" "?s ! ?i \<in> set (tk_delims t)" | "?i < length ?s" "?s ! ?i \<notin> set (tk_delims t)"
    using "1.prems" by linarith
  then show ?case
  proof cases
    case 1
    then show ?thesis by (subst quick_skip.simps) (simp add: Let_def find_first_step)
  next
    case 2
    then show ?thesis using "1.IH" [OF refl _ refl]
      by (subst quick_skip.simps) (simp add: Let_def find_eq find_first_step(3) split: option.splits)
  next
    case 3
    then have "find_first (\<lambda>c. c \<notin> set (tk_delims t)) ?i ?s = Some ?i" by (rule find_first_step(2))
    with 3 show ?thesis by (subst quick_skip.simps) (simp add: Let_def find_eq)
  qed
qed

lemma quick_scan_spec:
  "tk_end t \<le> length (tk_string t) \<Longrightarrow>
   quick_scan t = t\<lparr>tk_end := tk_end t + length (takeWhile (\<lambda>c. c \<notin> set (tk_delims t)) (drop (tk_end t) (tk_string t)))\<rparr>"
proof (induction t rule: quick_scan.induct)
  case (1 t)
  let ?s = "tk_string t" and ?i = "tk_end t"
  consider "?i = length ?s" | "?i < length ?s" "?s ! ?i \<in> set (tk_delims t)" | "?i < length ?s" "?s ! ?i \<notin> set (tk_delims t)"
    using "1.prems" by linarith
  then show ?case
  proof cases
    case 1
    then show ?thesis by (simp add: quick_scan.simps [of t])
  next
    case 2
    then show ?thesis by (simp add: quick_scan.simps [of t] find_eq Cons_nth_drop_Suc [symmetric])
  next
    case 3
    then show ?thesis using "1.IH" by (simp add: quick_scan.simps [of t] find_eq Cons_nth_drop_Suc [symmetric])
  qed
qed

lemma quick_tokens:
  "length (tk_string t) - tk_end t < n \<Longrightarrow> tk_end t \<le> length (tk_string t) \<Longrightarrow>
   take_tokens QuickGetNext n t = runs (\<lambda>c. c \<in> set (tk_delims t)) (drop (tk_end t) (tk_string t))"
proof (induction n arbitrary: t)
  case (Suc n)
  let ?s = "tk_string t" and ?P = "\<lambda>c. c \<in> set (tk_delims t)"
  show ?case
  proof (cases "find_first (\<lambda>c. \<not> ?P c) (tk_end t) ?s")
    case None
    then have "runs ?P (drop (tk_end t) ?s) = []" by (intro runs_none) (simp add: find_first_None)
    with None Suc.prems show ?thesis by (simp add: QuickGetNext_def quick_skip_spec)
  next
    case (Some f)
    note S = find_first_Some [OF Some]
    let ?w = "takeWhile (\<lambda>c. \<not> ?P c) (drop (Suc f) ?s)"
    let ?e = "f + 1 + length ?w"
    have d: "drop f ?s = ?s ! f # drop (Suc f) ?s" using S(3) by (simp add: Cons_nth_drop_Suc)
    have e: "drop ?e ?s = dropWhile (\<lambda>c. \<not> ?P c) (drop (Suc f) ?s)" "?e \<le> length ?s"
      using length_takeWhile_le [of "\<lambda>c. \<not> ?P c" "drop (Suc f) ?s"] S(3)
      by (simp_all add: dropWhile_eq_drop add.commute)
    have G: "QuickGetNext t = (True, t\<lparr>tk_is_delim := False, tk_begin := f, tk_end := ?e\<rparr>)"
      using Some S(3) Suc.prems(2) by (simp add: QuickGetNext_def quick_skip_spec quick_scan_spec)
    have "token (t\<lparr>tk_is_delim := False, tk_begin := f, tk_end := ?e\<rparr>) = ?s ! f # ?w"
      by (simp add: token_def substr_def d takeWhile_eq_take [symmetric])
    moreover have "runs ?P (drop (tk_end t) ?s) = (?s ! f # ?w) # runs ?P (drop ?e ?s)"
      using runs_skip [of ?P "drop (tk_end t) ?s"] S(4,5) d e(1) by simp
    moreover have "length ?s - ?e < n" using Suc.prems S(2,3) by simp
    ultimately show ?thesis using Suc.IH [of "t\<lparr>tk_is_delim := False, tk_begin := f, tk_end := ?e\<rparr>"] e(2) G by simp
  qed
qed simp

text \<open>Without quotes and returned delimiters the general \<open>GetNext\<close> does what the quick one does.\<close>

lemma AdvanceOne_plain:
  assumes "tk_quotes t = []" "\<not> as_in_quote st"
  shows "fst (AdvanceOne t st c) = (c \<notin> set (tk_delims t))" "\<not> as_in_quote (snd (AdvanceOne t st c))"
  using assms by (auto simp: AdvanceOne_def IsDelim_def IsQuote_def find_eq)

lemma full_scan_plain:
  "tk_quotes t = [] \<Longrightarrow> \<not> as_in_quote st \<Longrightarrow> full_scan st t = quick_scan t"
proof (induction st t rule: full_scan.induct)
  case (1 st t)
  obtain ok st1 where A: "AdvanceOne t st (tk_string t ! tk_end t) = (ok, st1)" by (cases "AdvanceOne t st (tk_string t ! tk_end t)")
  have ok: "ok = (tk_string t ! tk_end t \<notin> set (tk_delims t))" "\<not> as_in_quote st1"
    using AdvanceOne_plain [OF "1.prems", of "tk_string t ! tk_end t"] A by simp_all
  show ?case
    using "1.IH" [OF _ A [symmetric]] A "1.prems" ok
    by (simp add: full_scan.simps [of st t] quick_scan.simps [of t] find_eq)
qed

lemma full_skip_plain:
  "tk_quotes t = [] \<Longrightarrow> \<not> tk_return_delims t \<Longrightarrow> \<not> as_in_quote st \<Longrightarrow>
   \<exists>st1. \<not> as_in_quote st1 \<and> full_skip st t = (case quick_skip t of (b, t1) \<Rightarrow> (b, if b then Some st1 else None, t1))"
proof (induction st t rule: full_skip.induct)
  case (1 st t)
  let ?t2 = "t\<lparr>tk_begin := tk_end t, tk_end := tk_end t + 1\<rparr>"
  obtain ok st1 where A: "AdvanceOne ?t2 st (tk_string t ! tk_end t) = (ok, st1)"
    by (cases "AdvanceOne ?t2 st (tk_string t ! tk_end t)")
  have ok: "ok = (tk_string t ! tk_end t \<notin> set (tk_delims t))" "\<not> as_in_quote st1"
    using AdvanceOne_plain [of ?t2 st "tk_string t ! tk_end t"] A "1.prems" by simp_all
  consider "\<not> tk_end t < length (tk_string t)" | "tk_end t < length (tk_string t)" ok | "tk_end t < length (tk_string t)" "\<not> ok"
    by blast
  then show ?case
  proof cases
    case 1
    then show ?thesis using "1.prems"(3) by (subst full_skip.simps, subst quick_skip.simps) (auto simp: Let_def)
  next
    case 2
    then show ?thesis using ok A by (subst full_skip.simps, subst quick_skip.simps) (auto simp: Let_def find_eq)
  next
    case 3
    have "full_skip st t = full_skip st1 ?t2" "quick_skip t = quick_skip ?t2"
      using 3 ok A "1.prems"(2) by (subst full_skip.simps quick_skip.simps, simp add: Let_def find_eq)+
    moreover have "\<exists>st'. \<not> as_in_quote st' \<and>
        full_skip st1 ?t2 = (case quick_skip ?t2 of (b, t1) \<Rightarrow> (b, if b then Some st' else None, t1))"
      using "1.IH" [OF refl _ refl, of ok st1] 3 A ok "1.prems" by simp
    ultimately show ?thesis by simp
  qed
qed

lemma FullGetNext_plain:
  assumes "tk_quotes t = []" "\<not> tk_return_delims t" "tk_end t \<le> length (tk_string t)"
  shows "FullGetNext t = QuickGetNext t"
proof -
  let ?t = "t\<lparr>tk_is_delim := False\<rparr>"
  obtain st1 where st1: "\<not> as_in_quote st1"
    "full_skip new_advance_state ?t = (case quick_skip ?t of (b, t1) \<Rightarrow> (b, if b then Some st1 else None, t1))"
    using full_skip_plain [of ?t new_advance_state] assms by (auto simp: new_advance_state_def)
  obtain b t1 where q: "quick_skip ?t = (b, t1)" by (cases "quick_skip ?t")
  have "tk_quotes t1 = []" using q assms by (auto simp: quick_skip_spec split: option.splits)
  then show ?thesis using st1 q full_scan_plain by (cases b) (simp_all add: FullGetNext_def QuickGetNext_def)
qed

lemma QuickGetNext_keeps:
  assumes "tk_end t \<le> length (tk_string t)"
  shows "tk_quotes (snd (QuickGetNext t)) = tk_quotes t \<and> tk_return_delims (snd (QuickGetNext t)) = tk_return_delims t \<and>
    tk_end (snd (QuickGetNext t)) \<le> length (tk_string (snd (QuickGetNext t)))"
proof -
  have scan: "tk_quotes (quick_scan u) = tk_quotes u \<and> tk_return_delims (quick_scan u) = tk_return_delims u \<and>
      tk_end (quick_scan u) \<le> length (tk_string (quick_scan u))" if "tk_end u \<le> length (tk_string u)" for u
    using that length_takeWhile_le [of "\<lambda>c. c \<notin> set (tk_delims u)" "drop (tk_end u) (tk_string u)"]
    by (simp add: quick_scan_spec)
  show ?thesis
    using assms scan [of "t\<lparr>tk_is_delim := False, tk_begin := s, tk_end := Suc s\<rparr>" for s] find_first_Some(3)
    by (fastforce simp: QuickGetNext_def quick_skip_spec split: option.splits)
qed

text \<open>A fresh tokenizer, with no quotes and no returned delimiters, iterated by either loop.\<close>

lemma take_tokens_cong:
  assumes "\<And>t. tk_quotes t = [] \<Longrightarrow> \<not> tk_return_delims t \<Longrightarrow> tk_end t \<le> length (tk_string t) \<Longrightarrow> get t = QuickGetNext t"
    and "tk_quotes t = []" "\<not> tk_return_delims t" "tk_end t \<le> length (tk_string t)"
  shows "take_tokens get n t = take_tokens QuickGetNext n t"
  using assms(2-4)
proof (induction n arbitrary: t)
  case (Suc n)
  obtain ok t1 where q: "QuickGetNext t = (ok, t1)" by (cases "QuickGetNext t")
  then have "get t = (ok, t1)" using assms(1) Suc.prems by simp
  then show ?case using q QuickGetNext_keeps [OF Suc.prems(3)] Suc.prems Suc.IH [of t1] by simp
qed simp

lemma both_loops_quick:
  assumes "tk_quotes t = []" "\<not> tk_return_delims t" "tk_end t \<le> length (tk_string t)"
  shows "take_tokens StringTokenizer_GetNext n t = take_tokens QuickGetNext n t"
    and "take_tokens FullGetNext n t = take_tokens QuickGetNext n t"
  by (rule take_tokens_cong [OF _ assms], simp add: StringTokenizer_GetNext_def)
    (rule take_tokens_cong [OF FullGetNext_plain assms])

text \<open>
  C19: the ways of cutting a string into words agree with one reference, the maximal runs of
  characters that are not separators: \<open>Tokenize\<close>, every call of the iteration of a
  \<open>StringTokenizer\<close> without quotes and returned delimiters, by its quick and by its general loop,
  and \<open>SplitStringAlongWhitespace\<close>.  \<open>CollapseWhitespace\<close> joins the words by one space; with
  trimming it joins two words with nothing where the white space between them has a line break.
\<close>

theorem word_functions_agree:
  "TokenizeT s d = runs (\<lambda>c. c \<in> set d) s \<and>
   take_tokens StringTokenizer_GetNext (length s + 1) (tokenizer_Init s d) = runs (\<lambda>c. c \<in> set d) s \<and>
   take_tokens FullGetNext (length s + 1) (tokenizer_Init s d) = runs (\<lambda>c. c \<in> set d) s \<and>
   SplitStringAlongWhitespaceT s = runs html_space s \<and>
   CollapseWhitespaceT s False = JoinStringT (runs IsWhitespace s) 32 \<and>
   CollapseWhitespaceT s trim = collapsed trim s"
proof -
  have t: "tk_quotes (tokenizer_Init s d) = []" "\<not> tk_return_delims (tokenizer_Init s d)"
    "tk_end (tokenizer_Init s d) \<le> length (tk_string (tokenizer_Init s d))"
    by (simp_all add: tokenizer_Init_def)
  have "take_tokens QuickGetNext (length s + 1) (tokenizer_Init s d) = runs (\<lambda>c. c \<in> set d) s"
    using quick_tokens [of "tokenizer_Init s d" "length s + 1"] by (simp add: tokenizer_Init_def del: take_tokens.simps)
  then show ?thesis
    unfolding both_loops_quick [OF t]
    using CollapseWhitespaceT_runs [of s] CollapseWhitespaceT_collapsed [of s trim]
    by (simp add: TokenizeT_runs SplitStringAlongWhitespaceT_runs del: take_tokens.simps)
qed

end
