(* ===== verification/Splitting.thy ===== *)
theory Splitting imports StringAlgos begin

text \<open>
  \<open>SplitString\<close> and \<open>JoinString\<close> are inverse, and replacing substrings is the leftmost
  replacement of non-overlapping occurrences.
\<close>

section \<open>Splitting and joining\<close>

text \<open>The pieces between the separators; there is always one more than separators.\<close>

primrec pieces :: "int \<Rightarrow> ustring \<Rightarrow> ustring list" where
  "pieces c [] = [[]]"
| "pieces c (x # xs) = (if x = c then [] # pieces c xs else (x # hd (pieces c xs)) # tl (pieces c xs))"

lemma pieces_not_Nil [simp]: "pieces c s \<noteq> []"
  by (cases s) simp_all

lemma pieces_word:
  assumes "c \<notin> set q"
  shows "pieces c q = [q]" "pieces c (q @ c # s) = q # pieces c s"
  using assms by (induction q) simp_all

text \<open>What \<open>SplitStringT\<close> does with the pieces: \<open>g\<close> trims them or not, a lone empty piece is dropped.\<close>

definition split_ref :: "bool \<Rightarrow> int \<Rightarrow> ustring \<Rightarrow> ustring list" where
  "split_ref trim c s =
     (let ps = map (\<lambda>p. if trim then snd (TrimWhitespace p TRIM_ALL) else p) (pieces c s) in if ps = [[]] then [] else ps)"

lemma split_loop_pieces:
  assumes "i \<le> length str" "l \<le> i" "c \<notin> set (substr l (i - l) str)"
  shows "split_loop str c trim [i..<length str + 1] l r =
    (let ps = map (\<lambda>p. if trim then snd (TrimWhitespace p TRIM_ALL) else p) (pieces c (drop l str))
     in if r = [] \<and> ps = [[]] then [] else r @ ps)"
  using assms
proof (induction "length str - i" arbitrary: i l r)
  case 0
  then have i: "i = length str" by simp
  then have "substr l (i - l) str = drop l str" by (simp add: substr_def)
  then show ?case using 0 i pieces_word(1) [of c "drop l str"] by (simp add: Let_def)
next
  case (Suc k)
  let ?q = "substr l (i - l) str"
  have i: "i < length str" "length str - Suc i = k" "[i..<length str + 1] = i # [Suc i..<length str + 1]"
    using Suc.hyps(2) by (auto simp: upt_conv_Cons)
  have di: "drop i str = str ! i # drop (Suc i) str" using i(1) by (simp add: Cons_nth_drop_Suc)
  have q: "drop l str = ?q @ drop i str"
    using Suc.prems(2) by (simp add: substr_def) (metis append_take_drop_id drop_drop le_add_diff_inverse2)
  note IH = Suc.hyps(1) [OF i(2) [symmetric]]
  show ?case
  proof (cases "str ! i = c")
    case True
    have "pieces c (drop l str) = ?q # pieces c (drop (Suc i) str)"
      unfolding q di True by (rule pieces_word(2) [OF Suc.prems(3)])
    then show ?thesis using IH [of "Suc i"] True i by (simp add: Let_def substr_def)
  next
    case False
    have "substr l (Suc i - l) str = ?q @ [str ! i]"
      using Suc.prems(2) i(1) by (simp add: substr_def Suc_diff_le take_Suc_conv_app_nth)
    then show ?thesis using IH [of l r] False Suc.prems i by simp
  qed
qed

lemma SplitStringT_pieces: "SplitStringT str c trim = split_ref trim c str"
  using split_loop_pieces [of 0 str 0 c trim "[]"]
  by (simp add: SplitStringT_def split_ref_def substr_def Let_def)

lemma foldl_join: "foldl (\<lambda>r q. r @ [c] @ q) (a @ p) ps = a @ foldl (\<lambda>r q. r @ [c] @ q) p ps"
  by (induction ps arbitrary: p) simp_all

lemma JoinStringT_Cons: "ps \<noteq> [] \<Longrightarrow> JoinStringT (p # ps) c = p @ c # JoinStringT ps c"
  using foldl_join [of c "p @ [c]"] by (cases ps) simp_all

lemma JoinStringT_one [simp]: "JoinStringT [p] c = p"
  by simp

lemma JoinStringT_head: "JoinStringT ((x # p) # ps) c = x # JoinStringT (p # ps) c"
  using foldl_join [of c "[x]" p ps] by simp

lemma join_pieces: "JoinStringT (pieces c s) c = s"
proof (induction s)
  case (Cons x s)
  then show ?case
    using JoinStringT_Cons [of "pieces c s" "[]" c] JoinStringT_head [of x "hd (pieces c s)" "tl (pieces c s)" c]
    by (simp del: JoinStringT.simps)
qed simp

lemma pieces_join: "ps \<noteq> [] \<Longrightarrow> \<forall>p\<in>set ps. c \<notin> set p \<Longrightarrow> pieces c (JoinStringT ps c) = ps"
proof (induction ps)
  case (Cons p ps)
  then show ?case
    by (cases "ps = []") (simp_all add: pieces_word JoinStringT_Cons del: JoinStringT.simps(2))
qed simp

text \<open>
  Splitting and joining are inverse.  Joining the untrimmed pieces of a string gives the
  string back; splitting a joined list gives the list back, unless it is the list with just the
  empty string, whose text splits into nothing; with trimming each piece loses the white space
  around it, and a string with nothing but white space and no separator splits into nothing.
\<close>

theorem split_join:
  assumes "ps \<noteq> [[]]" "\<forall>p\<in>set ps. c \<notin> set p"
  shows "JoinString (SplitStringT s c False) c = s \<and>
    SplitStringT (JoinString ps c) c False = ps \<and>
    SplitStringT s c True =
      (let ts = map (\<lambda>p. snd (TrimWhitespace p TRIM_ALL)) (pieces c s) in if ts = [[]] then [] else ts)"
proof (intro conjI)
  show "JoinString (SplitStringT s c False) c = s"
    using join_pieces [of c s] by (auto simp: SplitStringT_pieces split_ref_def JoinString_def Let_def)
  show "SplitStringT (JoinString ps c) c False = ps"
    using pieces_join [of ps c] assms
    by (cases "ps = []") (simp_all add: SplitStringT_pieces split_ref_def JoinString_def Let_def)
qed (simp add: SplitStringT_pieces split_ref_def)

theorem split_join_witness:
  "SplitStringT (JoinString [[65], [], [66, 32]] 44) 44 False = [[65], [], [66, 32]]"
  using split_join [of "[[65], [], [66, 32]]" 44] by simp

section \<open>Replacing substrings\<close>

text \<open>The reference: scan from the left, put \<open>r\<close> for \<open>t\<close> and go on behind it.\<close>

function replace_left :: "bool \<Rightarrow> ustring \<Rightarrow> ustring \<Rightarrow> ustring \<Rightarrow> ustring" where
  "replace_left all t r s =
     (if s = [] \<or> t = [] then s
      else if take (length t) s = t then r @ (if all then replace_left all t r (drop (length t) s) else drop (length t) s)
      else hd s # replace_left all t r (tl s))"
  by pat_completeness auto
termination
  by (relation "measure (\<lambda>(all, t, r, s). length s)") auto

declare replace_left.simps [simp del]

lemma find_sub_step:
  "length s < i + length t \<Longrightarrow> find_sub t i s = None"
  "i + length t \<le> length s \<Longrightarrow> find_sub t i s = (if take (length t) (drop i s) = t then Some i else find_sub t (Suc i) s)"
proof -
  show "length s < i + length t \<Longrightarrow> find_sub t i s = None"
    using find_sub_bounds [of t i s] by (cases "find_sub t i s") fastforce+
  assume "i + length t \<le> length s"
  then have "[i..<length s - length t + 1] = i # [Suc i..<length s - length t + 1]" by (intro upt_conv_Cons) linarith
  then show "find_sub t i s = (if take (length t) (drop i s) = t then Some i else find_sub t (Suc i) s)"
    unfolding find_sub_def by simp
qed

lemma replace_left_short: "length s < length t \<Longrightarrow> replace_left all t r s = s"
proof (induction s)
  case (Cons c s)
  have "take (length t) (c # s) \<noteq> t" using Cons.prems by (metis length_take min.absorb1 nat_less_le min_def)
  then show ?case using Cons by (simp add: replace_left.simps [of all t r "c # s"])
qed (simp add: replace_left.simps)

lemma replace_left_find:
  assumes "t \<noteq> []"
  shows "replace_left all t r (drop i s) =
    (case find_sub t i s of None \<Rightarrow> drop i s
     | Some k \<Rightarrow> take (k - i) (drop i s) @ r @
         (if all then replace_left all t r (drop (k + length t) s) else drop (k + length t) s))"
proof (induction "length s - i" arbitrary: i rule: less_induct)
  case less
  show ?case
  proof (cases "i + length t \<le> length s")
    case False
    then have "length (drop i s) < length t" using assms by (cases t) auto
    with False show ?thesis by (simp add: find_sub_step(1) replace_left_short)
  next
    case True
    with assms have i: "i < length s" by (cases t) auto
    have d: "drop i s = s ! i # drop (Suc i) s" using i by (simp add: Cons_nth_drop_Suc)
    show ?thesis
    proof (cases "take (length t) (drop i s) = t")
      case True
      then show ?thesis using assms i \<open>i + length t \<le> length s\<close> find_sub_step(2) [of i t s]
        by (simp add: replace_left.simps [of all t r "drop i s"] add.commute)
    next
      case False
      have IH: "replace_left all t r (drop (Suc i) s) =
        (case find_sub t (Suc i) s of None \<Rightarrow> drop (Suc i) s
         | Some k \<Rightarrow> take (k - Suc i) (drop (Suc i) s) @ r @
             (if all then replace_left all t r (drop (k + length t) s) else drop (k + length t) s))"
        using less [of "Suc i"] i by simp
      have L: "replace_left all t r (drop i s) = s ! i # replace_left all t r (drop (Suc i) s)"
        using False assms i by (simp add: replace_left.simps [of all t r "drop i s"]) (simp add: d)
      have "take (k - i) (drop i s) = s ! i # take (k - Suc i) (drop (Suc i) s)" if "find_sub t (Suc i) s = Some k" for k
        using find_sub_bounds [OF that] by (simp add: d take_Cons')
      then show ?thesis unfolding L IH using False True find_sub_step(2) [of i t s]
        by (simp add: d split: option.split)
    qed
  qed
qed

lemma replace_sub_loop_left:
  assumes "t \<noteq> []"
  shows "i \<le> length str \<Longrightarrow> replace_sub_loop t r all str i = take i str @ replace_left all t r (drop i str)"
proof (induction "length str - i" arbitrary: i str rule: less_induct)
  case less
  show ?case
  proof (cases "find_sub t i str")
    case None
    then show ?thesis using assms by (simp add: replace_sub_loop.simps [of t r all str i] replace_left_find)
  next
    case (Some k)
    note B = find_sub_bounds [OF Some]
    let ?s = "replace_at k (length t) r str"
    have t: "0 < length t" using assms by simp
    have k: "k \<le> length str" using B by linarith
    have len: "length ?s = k + length r + (length str - (k + length t))" using k by (simp add: replace_at_def)
    have pre: "take (k + length r) ?s = take k str @ r" "drop (k + length r) ?s = drop (k + length t) str"
      using k by (simp_all add: replace_at_def)
    have ik: "take k str = take i str @ take (k - i) (drop i str)"
      using B by (metis le_add_diff_inverse take_add)
    have dec: "length ?s - (k + length r) < length str - i" using len B t by linarith
    show ?thesis
    proof (cases all)
      case True
      have "replace_sub_loop t r all str i = replace_sub_loop t r all ?s (k + length r)"
        using Some True assms by (subst replace_sub_loop.simps) (simp add: Let_def)
      also have "\<dots> = take (k + length r) ?s @ replace_left all t r (drop (k + length r) ?s)"
        using less(1) [OF dec] len by simp
      finally show ?thesis using Some True assms ik pre by (simp add: replace_left_find)
    next
      case False
      then show ?thesis using Some assms ik
        by (subst replace_sub_loop.simps) (simp add: Let_def replace_at_def replace_left_find)
    qed
  qed
qed

text \<open>
  Replacing substrings from an offset on leaves what is before the offset and replaces in the
  rest the first occurrence, or every one of the leftmost occurrences that do not overlap, also
  where the replacement contains the text that is looked for; an offset behind the string
  changes nothing, and an empty text to look for is refused.
\<close>

theorem replace_substrings:
  "ReplaceSubstringsAfterOffset str (Some off) t r =
     (if length str \<le> off then Inr str else if t = [] then Inl (DcheckFailed ''!find_this.empty()'')
      else Inr (take off str @ replace_left True t r (drop off str))) \<and>
   ReplaceFirstSubstringAfterOffset str (Some off) t r =
     (if length str \<le> off then Inr str else if t = [] then Inl (DcheckFailed ''!find_this.empty()'')
      else Inr (take off str @ replace_left False t r (drop off str))) \<and>
   ReplaceSubstringsAfterOffset str None t r = Inr str"
  by (simp add: ReplaceSubstringsAfterOffset_def ReplaceFirstSubstringAfterOffset_def
      DoReplaceSubstringsAfterOffset_def replace_sub_loop_left dcheck_def)

end
