(* ===== verification/Patterns.thy ===== *)
theory Patterns imports StringAlgos begin

text \<open>
  \<open>MatchPattern\<close> decides the language of its patterns as long as they have at most sixteen
  wildcards, and \<open>strlcpy\<close> writes a terminated prefix and nothing outside its buffer.
\<close>

section \<open>The language of patterns\<close>

datatype ptoken = TLit int | TQ | TStar | TBad

fun parse_pattern :: "ustring \<Rightarrow> ptoken list" where
  "parse_pattern [] = []"
| "parse_pattern (c # cs) =
     (if c = 42 then TStar # parse_pattern cs
      else if c = 63 then TQ # parse_pattern cs
      else if c = 92 then (case cs of [] \<Rightarrow> [TBad] | d # ds \<Rightarrow> TLit d # parse_pattern ds)
      else TLit c # parse_pattern cs)"

text \<open>The string is cut into a part for each token: one unit, none or one, any number, no string at all.\<close>

fun token_match :: "ptoken list \<Rightarrow> ustring \<Rightarrow> bool" where
  "token_match [] s = (s = [])"
| "token_match (TLit c # ts) s = (case s of [] \<Rightarrow> False | x # s1 \<Rightarrow> x = c \<and> token_match ts s1)"
| "token_match (TQ # ts) s = (token_match ts s \<or> (case s of [] \<Rightarrow> False | x # s1 \<Rightarrow> token_match ts s1))"
| "token_match (TStar # ts) s = (token_match ts s \<or> (case s of [] \<Rightarrow> False | x # s1 \<Rightarrow> token_match (TStar # ts) s1))"
| "token_match (TBad # ts) s = False"

definition wildcards :: "ustring \<Rightarrow> nat" where
  "wildcards p = length (filter (\<lambda>t. t = TQ \<or> t = TStar) (parse_pattern p))"

text \<open>A decoder that reads ASCII one unit at a time.\<close>

definition ascii_decoder :: "decoder \<Rightarrow> bool" where
  "ascii_decoder nxt \<longleftrightarrow> (\<forall>c cs. 0 \<le> c \<longrightarrow> c < 128 \<longrightarrow> nxt (c # cs) = (c, 0))"

definition ascii :: "ustring \<Rightarrow> bool" where
  "ascii s \<longleftrightarrow> (\<forall>c\<in>set s. 0 \<le> c \<and> c < 128)"

lemma ascii_simps [simp]: "ascii []" "ascii (c # s) \<longleftrightarrow> 0 \<le> c \<and> c < 128 \<and> ascii s" "ascii (s @ t) \<longleftrightarrow> ascii s \<and> ascii t"
  by (auto simp: ascii_def)

lemma ascii_tl: "ascii s \<Longrightarrow> ascii (tl s)"
  by (cases s) simp_all

lemma decoder_ascii:
  assumes "ascii_decoder nxt" "ascii s" "s \<noteq> []"
  shows "nxt s = (hd s, 0)" "advance_char nxt s = tl s" "hd s \<noteq> - 1"
  using assms by (cases s; simp add: ascii_decoder_def advance_char_def)+

lemma EatWildcard_ascii:
  "ascii_decoder nxt \<Longrightarrow> ascii p \<Longrightarrow> EatWildcard nxt p = dropWhile IsWildcard p"
proof (induction p)
  case (Cons c p)
  then show ?case using decoder_ascii(2) [of nxt "c # p"]
    by (subst EatWildcard.simps) simp
qed (simp add: EatWildcard.simps)

lemma match_empty: "token_match (parse_pattern p) [] \<longleftrightarrow> dropWhile IsWildcard p = []"
  by (induction p rule: parse_pattern.induct) (auto simp: IsWildcard_def split: list.splits)

lemma match_star: "token_match (TStar # ts) s \<longleftrightarrow> (\<exists>e\<in>set (nonempty_suffixes s). token_match ts e) \<or> token_match ts []"
  by (induction s) auto

lemma match_star_wild:
  "token_match (TStar # TStar # ts) s = token_match (TStar # ts) s"
  "token_match (TStar # TQ # ts) s = token_match (TStar # ts) s"
  by (induction s) auto

lemma match_star_collapse:
  "token_match (TStar # parse_pattern (dropWhile IsWildcard p)) s = token_match (TStar # parse_pattern p) s"
proof (induction p)
  case (Cons c p)
  show ?case
  proof (cases "c = 42 \<or> c = 63")
    case True
    then have "parse_pattern (c # p) = TStar # parse_pattern p \<or> parse_pattern (c # p) = TQ # parse_pattern p"
      "dropWhile IsWildcard (c # p) = dropWhile IsWildcard p" by (auto simp: IsWildcard_def)
    then show ?thesis using Cons match_star_wild [of "parse_pattern p" s] by metis
  qed (simp add: IsWildcard_def)
qed simp

lemma wildcards_collapse: "wildcards (dropWhile IsWildcard p) \<le> wildcards p"
  by (induction p) (auto simp: IsWildcard_def wildcards_def)

subsection \<open>Eating the common prefix\<close>

text \<open>
  The part of the pattern that is read: after an escape character the pattern begins one
  character earlier.
\<close>

definition pattern_from :: "ustring option \<Rightarrow> ustring \<Rightarrow> ustring" where
  "pattern_from escape p = (case escape of None \<Rightarrow> p | Some e \<Rightarrow> e)"

text \<open>
  What is eaten is the same on both sides; the rest starts with a wildcard, or a side has
  ended, or the next character does not match.
\<close>

definition eaten :: "ustring \<Rightarrow> ustring \<Rightarrow> ustring \<Rightarrow> ustring \<Rightarrow> bool" where
  "eaten p s p' s' \<longleftrightarrow> ascii p' \<and> ascii s' \<and>
     (if s' = [] then token_match (parse_pattern p) s = (dropWhile IsWildcard p' = [])
      else if p' = [] then \<not> token_match (parse_pattern p) s
      else if IsWildcard (hd p') then token_match (parse_pattern p) s = token_match (parse_pattern p') s' \<and> wildcards p' \<le> wildcards p
      else \<not> token_match (parse_pattern p) s)"

lemma eaten_literal:
  "eaten p s p' s' \<Longrightarrow> parse_pattern q = TLit c # parse_pattern p \<Longrightarrow> eaten q (c # s) p' s'"
  by (auto simp: eaten_def wildcards_def split: if_splits)

lemma eaten_mismatch:
  assumes "parse_pattern q = TLit c # ts" "\<not> IsWildcard (hd q)" "c \<noteq> d" "ascii q" "ascii (d # s)"
  shows "eaten q (d # s) q (d # s)"
proof -
  have "q \<noteq> []" using assms(1) by auto
  then show ?thesis using assms by (simp add: eaten_def)
qed

lemma EatSameChars_match:
  assumes "EatSameChars nxt escape p s = (p', s')" "ascii_decoder nxt" "ascii p" "ascii s"
    "\<forall>e. escape = Some e \<longrightarrow> e = 92 # p \<and> s \<noteq> []"
  shows "eaten (pattern_from escape p) s p' s'"
  using assms
proof (induction nxt escape p s arbitrary: p' s' rule: EatSameChars.induct)
  case (1 nxt escape p s)
  note E = "1.prems"(1) [unfolded EatSameChars.simps [of nxt escape p s]]
  show ?case
  proof (cases "p = [] \<or> s = []")
    case True
    then show ?thesis using E "1.prems" match_empty [of p]
      by (cases escape) (auto simp: pattern_from_def IsWildcard_def eaten_def)
  next
    case False
    then obtain c cs d ds where p: "p = c # cs" and s: "s = d # ds" by (cases p; cases s) auto
    have nxt: "nxt p = (c, 0)" "nxt s = (d, 0)" "advance_char nxt p = cs" "advance_char nxt s = ds" "c \<noteq> - 1"
      using decoder_ascii [of nxt p] decoder_ascii [of nxt s] "1.prems" p s by auto
    have asc: "ascii cs" "ascii ds" using "1.prems" p s by simp_all
    have literal: "parse_pattern (pattern_from escape p) = TLit c # parse_pattern cs" if "escape \<noteq> None \<or> \<not> IsWildcard c \<and> c \<noteq> 92"
      using that p "1.prems"(5) by (cases escape) (auto simp: pattern_from_def IsWildcard_def)
    consider "escape = None" "IsWildcard c" | "escape = None" "c = 92"
      | "escape \<noteq> None \<or> \<not> IsWildcard c \<and> c \<noteq> 92" "c = d" | "escape \<noteq> None \<or> \<not> IsWildcard c \<and> c \<noteq> 92" "c \<noteq> d"
      by blast
    then show ?thesis
    proof cases
      case 1
      then show ?thesis using E False p "1.prems" by (auto simp: pattern_from_def eaten_def)
    next
      case 2
      then have "EatSameChars nxt (Some p) cs s = (p', s')" using E p s nxt by (simp add: IsWildcard_def)
      then have "eaten (pattern_from (Some p) cs) s p' s'"
        using "1.IH"(1) [of p' s'] 2 False asc "1.prems" p nxt(3) by (simp add: IsWildcard_def)
      then show ?thesis using 2(1) by (simp add: pattern_from_def)
    next
      case 3
      then have "EatSameChars nxt None cs ds = (p', s')" using E p s nxt by (auto simp: IsWildcard_def split: if_splits)
      then have "eaten (pattern_from None cs) ds p' s'"
        using "1.IH"(2) [of p' s'] 3 p s nxt asc "1.prems"(2) by auto
      then show ?thesis using eaten_literal literal [OF 3(1)] 3(2) s by (simp add: pattern_from_def)
    next
      case 4
      then have "(p', s') = (pattern_from escape p, s)" using E p s nxt
        by (auto simp: pattern_from_def IsWildcard_def split: if_splits option.splits)
      moreover have "\<not> IsWildcard (hd (pattern_from escape p))" "ascii (pattern_from escape p)"
        using 4(1) p "1.prems" by (cases escape; auto simp: pattern_from_def IsWildcard_def)+
      ultimately show ?thesis using eaten_mismatch literal [OF 4(1)] 4(2) s "1.prems"(4) by simp
    qed
  qed
qed

subsection \<open>Matching\<close>

lemma ascii_suffix: "e \<in> set (nonempty_suffixes s) \<Longrightarrow> ascii s \<Longrightarrow> ascii e"
  by (induction s) auto

lemma MatchPatternT_step:
  assumes "ascii_decoder nxt" "d \<le> 16" "EatSameChars nxt None p e = (p', s')" "ascii p'" "ascii s'"
  shows "MatchPatternT nxt d e p =
    (if s' = [] then dropWhile IsWildcard p' = []
     else case p' of [] \<Rightarrow> False
     | c # np \<Rightarrow>
         if c = 63 then MatchPatternT nxt (d + 1) s' np \<or> MatchPatternT nxt (d + 1) (tl s') np
         else if c = 42 then (\<exists>e\<in>set (nonempty_suffixes s'). MatchPatternT nxt (d + 1) e (dropWhile IsWildcard np)) \<or>
           dropWhile IsWildcard np = []
         else False)"
proof (cases "s' = [] \<or> p' = []")
  case True
  then show ?thesis using assms EatWildcard_ascii [OF assms(1,4)]
    by (subst MatchPatternT.simps) (auto simp: kMaxDepth_def split: list.split)
next
  case False
  then obtain c np where p': "p' = c # np" by (cases p') auto
  have "hd p' = c" "advance_char nxt p' = np" "advance_char nxt s' = tl s'"
    using decoder_ascii(2) [OF assms(1)] assms(4,5) False p' by auto
  moreover have "EatWildcard nxt np = dropWhile IsWildcard np" "c = 42 \<Longrightarrow> EatWildcard nxt (42 # np) = dropWhile IsWildcard np"
    using EatWildcard_ascii [OF assms(1)] assms(4) p' by (auto simp: IsWildcard_def)
  moreover have "\<not> d > kMaxDepth" using assms(2) by (simp add: kMaxDepth_def)
  ultimately show ?thesis unfolding MatchPatternT.simps [of nxt d e p]
    using False p' by (auto simp: assms(3) Let_def list_ex_iff IsWildcard_def)
qed

lemma MatchPatternT_match:
  assumes "ascii_decoder nxt"
  shows "ascii e \<Longrightarrow> ascii p \<Longrightarrow> (MatchPatternT nxt d e p \<longrightarrow> token_match (parse_pattern p) e) \<and>
    (d + wildcards p \<le> 16 \<longrightarrow> token_match (parse_pattern p) e \<longrightarrow> MatchPatternT nxt d e p)"
proof (induction "17 - d" arbitrary: d e p rule: less_induct)
  case less
  show ?case
  proof (cases "d \<le> 16")
    case False
    then show ?thesis by (subst MatchPatternT.simps) (simp add: kMaxDepth_def)
  next
    case True
    obtain p' s' where E: "EatSameChars nxt None p e = (p', s')" by (cases "EatSameChars nxt None p e")
    have eaten: "eaten p e p' s'" using EatSameChars_match [OF E assms less(3,2)] by (simp add: pattern_from_def)
    then have asc: "ascii p'" "ascii s'" by (simp_all add: eaten_def)
    note M = MatchPatternT_step [OF assms True E asc]
    have "17 - (d + 1) < 17 - d" using True by simp
    note IH = less(1) [OF this]
    consider "s' = []" | "s' \<noteq> []" "p' = []" | c np where "s' \<noteq> []" "p' = c # np" "\<not> IsWildcard c"
      | np where "s' \<noteq> []" "p' = 63 # np" | np where "s' \<noteq> []" "p' = 42 # np"
      by (cases p') (auto simp: IsWildcard_def)
    then show ?thesis
    proof cases
      case 4
      have w: "token_match (parse_pattern p) e = token_match (parse_pattern p') s'" "wildcards np < wildcards p"
        using eaten 4 by (simp_all add: eaten_def IsWildcard_def wildcards_def)
      obtain x s1 where s': "s' = x # s1" using 4(1) by (cases s') auto
      have np: "ascii np" "ascii s1" using asc 4(2) s' by simp_all
      show ?thesis using IH [OF asc(2) np(1)] IH [OF np(2,1)] M w s' 4(2) by auto
    next
      case 5
      let ?q = "dropWhile IsWildcard np"
      have w: "token_match (parse_pattern p) e = token_match (parse_pattern p') s'" "wildcards ?q < wildcards p"
        using eaten 5 wildcards_collapse [of np] by (simp_all add: eaten_def IsWildcard_def wildcards_def)
      have q: "ascii ?q" using asc(1) 5(2) by (auto simp: ascii_def dest: set_dropWhileD)
      have IH': "(MatchPatternT nxt (d + 1) e1 ?q \<longrightarrow> token_match (parse_pattern ?q) e1) \<and>
          (d + wildcards p \<le> 16 \<longrightarrow> token_match (parse_pattern ?q) e1 \<longrightarrow> MatchPatternT nxt (d + 1) e1 ?q)"
        if "e1 \<in> set (nonempty_suffixes s')" for e1
        using IH [OF ascii_suffix [OF that asc(2)] q] w(2) by simp
      have "parse_pattern p' = TStar # parse_pattern np" using 5(2) by simp
      then have T: "token_match (parse_pattern p) e \<longleftrightarrow>
          (\<exists>e1\<in>set (nonempty_suffixes s'). token_match (parse_pattern ?q) e1) \<or> ?q = []"
        using w(1) match_star_collapse [of np s'] match_star [of "parse_pattern ?q" s'] match_empty [of ?q]
        by simp
      have "MatchPatternT nxt d e p \<longleftrightarrow>
          (\<exists>e1\<in>set (nonempty_suffixes s'). MatchPatternT nxt (d + 1) e1 ?q) \<or> ?q = []"
        using M 5 by simp
      then show ?thesis unfolding T using IH' by blast
    qed (use M eaten in \<open>simp_all add: eaten_def IsWildcard_def\<close>)
  qed
qed

text \<open>
  C20: on ASCII strings and ASCII patterns, and for a decoder that reads ASCII as it is (the
  decoders are a parameter), \<open>MatchPattern\<close> accepts only what the pattern language says: a question
  mark stands for one character or none, a star for any number, a backslash takes the next
  character literally, and a pattern that ends in a lone backslash matches nothing.  With at
  most sixteen wildcards it accepts all of it; the depth limit costs matches only beyond that.
\<close>

theorem match_pattern_language:
  assumes "ascii_decoder nxt" "ascii eval" "ascii pattern"
  shows "(MatchPattern nxt eval pattern \<longrightarrow> token_match (parse_pattern pattern) eval) \<and>
    (wildcards pattern \<le> 16 \<longrightarrow> MatchPattern nxt eval pattern = token_match (parse_pattern pattern) eval)"
  using MatchPatternT_match [OF assms, of 0] by (auto simp: MatchPattern_def)

theorem match_pattern_language_witness:
  "MatchPattern (\<lambda>s. (hd s, 0)) [97, 42, 98, 99] [97, 92, 42, 42, 63]"
proof -
  have "ascii_decoder (\<lambda>s. (hd s, 0))" by (simp add: ascii_decoder_def)
  then show ?thesis
    using match_pattern_language [of "\<lambda>s. (hd s, 0)" "[97, 42, 98, 99]" "[97, 92, 42, 42, 63]"]
    by (simp add: wildcards_def)
qed

section \<open>strlcpy\<close>

lemma lcpy_loop_spec:
  assumes "0 \<notin> set src" "n \<le> length dst"
  shows "i \<le> length src \<Longrightarrow> i \<le> n \<Longrightarrow>
    lcpy_loop (src @ 0 # rest) n i (take i src @ drop i dst) =
      (if length src < n then Inr (Some (length src), src @ 0 # drop (Suc (length src)) dst)
       else Inr (None, take n src @ drop n dst))"
proof (induction "n - i" arbitrary: i)
  case 0
  then show ?case by (simp add: lcpy_loop.simps)
next
  case (Suc k)
  then have i: "i < n" "n - Suc i = k" "i < length dst" using assms by simp_all
  have d: "drop i dst = dst ! i # drop (Suc i) dst" using i(3) by (simp add: Cons_nth_drop_Suc)
  show ?case
  proof (cases "i = length src")
    case True
    with i have "lcpy_loop (src @ 0 # rest) n i (take i src @ drop i dst) = Inr (Some i, (src @ drop i dst)[i := 0])"
      by (subst lcpy_loop.simps) (simp add: mem_read_def mem_write_def)
    then show ?thesis using True i d by (simp add: list_update_append)
  next
    case False
    then have j: "i < length src" using Suc.prems by simp
    then have "(src @ 0 # rest) ! i = src ! i" "src ! i \<noteq> 0"
      using assms(1) nth_mem [of i src] by (simp add: nth_append, metis)
    moreover have "(take i src @ drop i dst)[i := src ! i] = take (Suc i) src @ drop (Suc i) dst"
      using j by (simp add: d take_Suc_conv_app_nth list_update_append)
    ultimately show ?thesis using Suc.hyps(1) [of "Suc i"] i j
      by (simp add: lcpy_loop.simps [of _ n i] mem_read_def mem_write_def)
  qed
qed

lemma count_rest_spec:
  assumes "0 \<notin> set src"
  shows "n \<le> length src \<Longrightarrow> count_rest (src @ 0 # rest) n = Inr (length src)"
proof (induction "length src - n" arbitrary: n)
  case 0
  then show ?case by (simp add: count_rest.simps nth_append)
next
  case (Suc k)
  then have n: "n < length src" "length src - Suc n = k" by simp_all
  then have "(src @ 0 # rest) ! n \<noteq> 0" using assms by (metis nth_append nth_mem)
  then show ?case using Suc.hyps(1) [of "Suc n"] n by (simp add: count_rest.simps [of _ n])
qed

text \<open>
  \<open>strlcpy\<close> into a buffer of at least the size it is given neither reads behind the
  terminator of the source nor writes behind the size; it leaves as much of the text as fits,
  terminated, the rest of the buffer unchanged, and returns the length of the whole text, so that the
  caller can see that it was cut.  With size 0 nothing is written.
\<close>

theorem strlcpy_in_bounds:
  assumes "0 \<notin> set src" "n \<le> length dst"
  shows "strlcpy dst (src @ 0 # rest) n = Inr (length src,
    if n = 0 then dst
    else let k = min (n - 1) (length src) in take k src @ 0 # drop (Suc k) dst)"
proof (cases "length src < n")
  case True
  then show ?thesis using lcpy_loop_spec [OF assms, of 0 rest] by (simp add: strlcpy_def lcpyT_def min_absorb2)
next
  case False
  have "lcpy_loop (src @ 0 # rest) n 0 dst = Inr (None, take n src @ drop n dst)"
    using lcpy_loop_spec [OF assms, of 0 rest] False by simp
  moreover have "(take n src @ drop n dst) [n - 1 := 0] = take (n - 1) src @ 0 # drop n dst" if "n \<noteq> 0"
    using that False take_Suc_conv_app_nth [of "n - 1" src] by (simp add: list_update_append)
  ultimately show ?thesis using False assms(2) count_rest_spec [OF assms(1), of n rest]
    by (cases n) (simp_all add: strlcpy_def lcpyT_def mem_write_def)
qed

theorem strlcpy_in_bounds_witness:
  "strlcpy [1, 2, 3, 4] ([65, 66, 67] @ 0 # [9]) 3 = Inr (3, [65, 66, 0, 4])"
  using strlcpy_in_bounds [of "[65, 66, 67]" 3 "[1, 2, 3, 4]" "[9]"] by simp

end
