(* ===== verification/FilePaths.thy ===== *)
theory FilePaths imports Strings begin

text \<open>
  \<open>base/file_path.cc\<close> as it is built for systems without drive letters and with \<open>/\<close> as the only
  separator.  A \<open>FilePath\<close> is its string.  The methods that convert between encodings, the comparisons for
  Windows and Mac OS X and the pickling are left out.
\<close>

section \<open>Separators\<close>

type_synonym file_path = ustring

definition kSeparators :: ustring where "kSeparators = [47]"
definition kCurrentDirectory :: ustring where "kCurrentDirectory = [46]"
definition kParentDirectory :: ustring where "kParentDirectory = [46, 46]"
definition kExtensionSeparator :: int where "kExtensionSeparator = 46"

definition kCommonDoubleExtensions :: "ustring list" where
  "kCommonDoubleExtensions = [[103, 122], [122], [98, 122, 50]]"

definition FindDriveLetter :: "ustring \<Rightarrow> nat option" where
  "FindDriveLetter path = None"

text \<open>\<open>letter + 1\<close>; \<open>npos\<close> is the greatest number, and one more is 0.\<close>

definition after_drive :: "ustring \<Rightarrow> nat" where
  "after_drive path = (case FindDriveLetter path of None \<Rightarrow> 0 | Some letter \<Rightarrow> letter + 1)"

definition IsSeparator :: "int \<Rightarrow> bool" where
  "IsSeparator character = list_ex (\<lambda>s. character = s) kSeparators"

definition IsPathAbsolute :: "ustring \<Rightarrow> bool" where
  "IsPathAbsolute path \<longleftrightarrow> length path > 0 \<and> IsSeparator (path ! 0)"

definition AreAllSeparators :: "ustring \<Rightarrow> bool" where
  "AreAllSeparators input = list_all IsSeparator input"

definition IsEmptyOrSpecialCase :: "ustring \<Rightarrow> bool" where
  "IsEmptyOrSpecialCase path \<longleftrightarrow> path = [] \<or> path = kCurrentDirectory \<or> path = kParentDirectory"

fun strip_loop :: "nat \<Rightarrow> ustring \<Rightarrow> nat \<Rightarrow> nat option \<Rightarrow> ustring" where
  "strip_loop start path 0 last_stripped = path"
| "strip_loop start path (Suc n) last_stripped =
     (let pos = Suc n in
      if pos > start \<and> IsSeparator (path ! (pos - 1)) then
        (if pos \<noteq> start + 1 \<or> last_stripped = Some (start + 2) \<or> \<not> IsSeparator (path ! (start - 1))
         then strip_loop start (take (pos - 1) path) n (Some pos)
         else strip_loop start path n last_stripped)
      else path)"

definition StripTrailingSeparatorsInternal :: "file_path \<Rightarrow> file_path" where
  "StripTrailingSeparatorsInternal path = strip_loop (after_drive path + 1) path (length path) None"

definition StripTrailingSeparators :: "file_path \<Rightarrow> file_path" where
  "StripTrailingSeparators path = StripTrailingSeparatorsInternal path"

definition IsAbsolute :: "file_path \<Rightarrow> bool" where
  "IsAbsolute path = IsPathAbsolute path"

section \<open>DirName, BaseName and Append\<close>

definition DirName :: "file_path \<Rightarrow> file_path" where
  "DirName path =
     (let new_path = StripTrailingSeparatorsInternal path;
          letter1 = after_drive new_path;
          cut = (case find_last IsSeparator new_path of
                   None \<Rightarrow> take letter1 new_path
                 | Some last_separator \<Rightarrow>
                     if last_separator = letter1 then take (letter1 + 1) new_path
                     else if last_separator = letter1 + 1 \<and> IsSeparator (new_path ! letter1) then take (letter1 + 2) new_path
                     else if last_separator \<noteq> 0 then take last_separator new_path
                     else new_path);
          stripped = StripTrailingSeparatorsInternal cut
      in if length stripped = 0 then kCurrentDirectory else stripped)"

definition BaseName :: "file_path \<Rightarrow> file_path" where
  "BaseName path =
     (let new_path = StripTrailingSeparatorsInternal path;
          new_path1 = (case FindDriveLetter new_path of None \<Rightarrow> new_path | Some letter \<Rightarrow> drop (letter + 1) new_path)
      in case find_last IsSeparator new_path1 of
           None \<Rightarrow> new_path1
         | Some last_separator \<Rightarrow>
             if last_separator < length new_path1 - 1 then drop (last_separator + 1) new_path1 else new_path1)"

definition FilePath_Append :: "file_path \<Rightarrow> ustring \<Rightarrow> file_path res" where
  "FilePath_Append path component =
     bindR (dcheck (\<not> IsPathAbsolute component) ''!IsPathAbsolute(component)'') (\<lambda>_.
       if path = kCurrentDirectory then Inr component
       else
         let new_path = StripTrailingSeparatorsInternal path;
             joined = (if length component > 0 \<and> length new_path > 0 then
                         (if \<not> IsSeparator (new_path ! (length new_path - 1)) then
                            (if after_drive new_path \<noteq> length new_path then new_path @ [kSeparators ! 0] else new_path)
                          else new_path)
                       else new_path)
         in Inr (joined @ component))"

section \<open>Extensions\<close>

definition ExtensionSeparatorPosition :: "ustring \<Rightarrow> nat option" where
  "ExtensionSeparatorPosition path =
     (if path = kCurrentDirectory \<or> path = kParentDirectory then None
      else case find_last (\<lambda>c. c = kExtensionSeparator) path of
             None \<Rightarrow> None
           | Some last_dot \<Rightarrow>
               if last_dot = 0 then Some last_dot
               else if \<not> list_ex (LowerCaseEqualsASCII (drop (last_dot + 1) path)) kCommonDoubleExtensions then Some last_dot
               else
                 let last_separator = find_last IsSeparator (take last_dot path) in
                 case find_last (\<lambda>c. c = kExtensionSeparator) (take last_dot path) of
                   None \<Rightarrow> Some last_dot
                 | Some penultimate_dot \<Rightarrow>
                     if (last_separator = None \<or> penultimate_dot > the last_separator) \<and>
                        last_dot - penultimate_dot \<le> 5 \<and> last_dot - penultimate_dot > 1
                     then Some penultimate_dot else Some last_dot)"

definition Extension :: "file_path \<Rightarrow> ustring" where
  "Extension path =
     (let base = BaseName path in
      case ExtensionSeparatorPosition base of None \<Rightarrow> [] | Some dot \<Rightarrow> drop dot base)"

definition RemoveExtension :: "file_path \<Rightarrow> file_path" where
  "RemoveExtension path =
     (if Extension path = [] then path
      else case ExtensionSeparatorPosition path of None \<Rightarrow> path | Some dot \<Rightarrow> substr 0 dot path)"

definition InsertBeforeExtension :: "file_path \<Rightarrow> ustring \<Rightarrow> file_path" where
  "InsertBeforeExtension path sfx =
     (if sfx = [] then path
      else if IsEmptyOrSpecialCase (BaseName path) then []
      else RemoveExtension path @ sfx @ Extension path)"

definition AddExtension :: "file_path \<Rightarrow> ustring \<Rightarrow> file_path" where
  "AddExtension path extension =
     (if IsEmptyOrSpecialCase (BaseName path) then []
      else if extension = [] \<or> extension = [kExtensionSeparator] then path
      else (if extension ! 0 \<noteq> kExtensionSeparator \<and> last path \<noteq> kExtensionSeparator
            then path @ [kExtensionSeparator] else path) @ extension)"

definition ReplaceExtension :: "file_path \<Rightarrow> ustring \<Rightarrow> file_path" where
  "ReplaceExtension path extension =
     (if IsEmptyOrSpecialCase (BaseName path) then []
      else
        let no_ext = RemoveExtension path in
        if extension = [] \<or> extension = [kExtensionSeparator] then no_ext
        else (if extension ! 0 \<noteq> kExtensionSeparator then no_ext @ [kExtensionSeparator] else no_ext) @ extension)"

section \<open>Comparison without case, and text in ASCII\<close>

text \<open>\<open>strcasecmp\<close> in the C locale, on the strings up to their first NUL.\<close>

fun strcasecmp :: "ustring \<Rightarrow> ustring \<Rightarrow> int" where
  "strcasecmp [] [] = 0"
| "strcasecmp [] (y # b) = (if y = 0 then 0 else - 1)"
| "strcasecmp (x # a) [] = (if x = 0 then 0 else 1)"
| "strcasecmp (x # a) (y # b) =
     (if ToLowerASCII x = ToLowerASCII y then (if x = 0 then 0 else strcasecmp a b)
      else ToLowerASCII x mod 256 - ToLowerASCII y mod 256)"

definition CompareIgnoreCase :: "ustring \<Rightarrow> ustring \<Rightarrow> int" where
  "CompareIgnoreCase string1 string2 =
     (let comparison = strcasecmp string1 string2 in
      if comparison < 0 then - 1 else if comparison > 0 then 1 else 0)"

definition CompareEqualIgnoreCase :: "ustring \<Rightarrow> ustring \<Rightarrow> bool" where
  "CompareEqualIgnoreCase string1 string2 \<longleftrightarrow> CompareIgnoreCase string1 string2 = 0"

definition CompareLessIgnoreCase :: "ustring \<Rightarrow> ustring \<Rightarrow> bool" where
  "CompareLessIgnoreCase string1 string2 \<longleftrightarrow> CompareIgnoreCase string1 string2 < 0"

definition MatchesExtension :: "file_path \<Rightarrow> ustring \<Rightarrow> bool res" where
  "MatchesExtension path extension =
     bindR (dcheck (extension = [] \<or> extension ! 0 = kExtensionSeparator) ''extension[0] == kExtensionSeparator'') (\<lambda>_.
       let current_extension = Extension path in
       Inr (if length current_extension \<noteq> length extension then False
            else CompareEqualIgnoreCase extension current_extension))"

definition InsertBeforeExtensionASCII :: "file_path \<Rightarrow> ustring \<Rightarrow> file_path res" where
  "InsertBeforeExtensionASCII path sfx =
     bindR (dcheck (IsStringASCII 8 sfx) ''IsStringASCII(suffix)'') (\<lambda>_. Inr (InsertBeforeExtension path sfx))"

definition AppendASCII :: "file_path \<Rightarrow> ustring \<Rightarrow> file_path res" where
  "AppendASCII path component =
     bindR (dcheck (IsStringASCII 8 component) ''IsStringASCII(component)'') (\<lambda>_. FilePath_Append path component)"

definition MaybeAsASCII :: "file_path \<Rightarrow> ustring" where
  "MaybeAsASCII path = (if IsStringASCII 8 path then path else [])"

definition NormalizePathSeparators :: "file_path \<Rightarrow> file_path" where
  "NormalizePathSeparators path = path"

section \<open>The form of stripped paths\<close>

lemma IsSeparator_eq [simp]: "IsSeparator c \<longleftrightarrow> c = 47"
  by (simp add: IsSeparator_def kSeparators_def)

lemma after_drive_0 [simp]: "after_drive p = 0"
  by (simp add: after_drive_def FindDriveLetter_def)

lemma AreAllSeparators_eq: "AreAllSeparators p \<longleftrightarrow> set p \<subseteq> {47}"
  by (auto simp: AreAllSeparators_def list_all_iff)

text \<open>A path is its separators alone, or something that does not end in one followed by separators.\<close>

lemma path_cases:
  obtains n where "p = replicate n 47" | q c n where "p = q @ [c] @ replicate n 47" "c \<noteq> (47::int)"
proof (cases "set p \<subseteq> {47}")
  case True
  then have "p = replicate (length p) 47" by (intro replicate_length_same [symmetric]) auto
  then show ?thesis using that(1) by blast
next
  case False
  let ?t = "takeWhile (\<lambda>c. c = 47) (rev p)" and ?d = "dropWhile (\<lambda>c. c = 47) (rev p)"
  have "?d \<noteq> []" using False by (auto simp: dropWhile_eq_Nil_conv)
  then obtain c d where d: "?d = c # d" by (cases ?d) auto
  have c: "c \<noteq> 47" using hd_dropWhile [OF \<open>?d \<noteq> []\<close>] d by simp
  have "set ?t \<subseteq> {47}" by (auto dest: set_takeWhileD)
  then have t: "?t = replicate (length ?t) 47" by (intro replicate_length_same [symmetric]) auto
  have "rev p = ?t @ c # d" using takeWhile_dropWhile_id [of "\<lambda>c. c = 47" "rev p"] d by simp
  then have "p = rev d @ [c] @ rev ?t" by (metis append.assoc append_Cons append_Nil rev.simps(2) rev_append rev_rev_ident)
  then have "p = rev d @ [c] @ replicate (length ?t) 47" using t by (metis rev_replicate)
  then show ?thesis using that(2) c by blast
qed

lemma rep_nth: "(x # replicate n x) ! n = x"
  by (induction n) simp_all

lemma rep_take: "take n (x # replicate n x) = replicate n x"
  by (induction n) simp_all

lemmas strip_step = strip_loop.simps(2) [unfolded Let_def]
declare strip_loop.simps(2) [simp del]

lemma strip_loop_tail:
  assumes "c \<noteq> 47"
  shows "strip_loop 1 (q @ [c] @ replicate n 47) (length q + 1 + n) ls = q @ [c]"
proof (induction n arbitrary: ls)
  case 0
  then show ?case using assms by (cases q) (simp_all add: strip_step nth_append)
next
  case (Suc n)
  let ?p = "q @ [c] @ replicate (Suc n) 47"
  have nth: "?p ! (length q + 1 + n) = 47" by (simp add: nth_append rep_nth)
  have take: "take (length q + 1 + n) ?p = q @ [c] @ replicate n 47" by (simp add: rep_take)
  have "\<not> (length q + n = 0 \<and> ?p ! 0 = 47)" using assms by (cases q) simp_all
  then have "strip_loop 1 ?p (Suc (length q + 1 + n)) ls =
      strip_loop 1 (take (length q + 1 + n) ?p) (length q + 1 + n) (Some (Suc (length q + 1 + n)))"
    using nth assms by (subst strip_step) auto
  then show ?case using Suc unfolding take by simp
qed

lemma strip_word [simp]: "c \<noteq> 47 \<Longrightarrow> StripTrailingSeparatorsInternal (q @ [c] @ replicate n 47) = q @ [c]"
  using strip_loop_tail [of c q n None] by (simp add: StripTrailingSeparatorsInternal_def)

lemma strip_loop_seps: "strip_loop 1 (replicate (Suc n) 47) (Suc n) (Some (Suc (Suc n))) = [47]"
proof (induction n)
  case 0
  then show ?case by (simp add: strip_step)
next
  case (Suc n)
  have take: "take (Suc n) (replicate (Suc (Suc n)) 47) = replicate (Suc n) (47::int)" by (simp add: rep_take)
  have "replicate (Suc (Suc n)) 47 ! Suc n = (47::int)" by (rule nth_replicate) simp
  then have "strip_loop 1 (replicate (Suc (Suc n)) 47) (Suc (Suc n)) (Some (Suc (Suc (Suc n)))) =
      strip_loop 1 (take (Suc n) (replicate (Suc (Suc n)) 47)) (Suc n) (Some (Suc (Suc n)))"
    by (subst strip_step) (auto simp del: replicate_Suc take_replicate)
  then show ?case using Suc take by simp
qed

lemma strip_seps [simp]:
  "StripTrailingSeparatorsInternal (replicate n 47) = (if n \<le> 2 then replicate n 47 else [47])"
proof -
  consider "n = 0" | "n = 1" | "n = 2" | m where "n = Suc (Suc (Suc m))" by (metis One_nat_def Suc_1 old.nat.exhaust)
  then show ?thesis
  proof cases
    case 4
    have "take (Suc (Suc m)) (replicate (Suc (Suc (Suc m))) 47) = replicate (Suc (Suc m)) (47::int)" by (simp add: rep_take)
    moreover have "replicate (Suc (Suc (Suc m))) 47 ! Suc (Suc m) = (47::int)" by (rule nth_replicate) simp
    ultimately have "strip_loop 1 (replicate n 47) n None = strip_loop 1 (replicate (Suc (Suc m)) 47) (Suc (Suc m)) (Some n)"
      unfolding 4 by (subst strip_step) (simp del: replicate_Suc take_replicate)
    then show ?thesis using strip_loop_seps [of "Suc m"] 4 by (simp add: StripTrailingSeparatorsInternal_def)
  qed (simp_all add: StripTrailingSeparatorsInternal_def strip_step numeral_2_eq_2)
qed

lemma strip_root [simp]:
  "StripTrailingSeparatorsInternal [] = []"
  "StripTrailingSeparatorsInternal [47] = [47]"
  "StripTrailingSeparatorsInternal [47, 47] = [47, 47]"
  using strip_seps [of 0] strip_seps [of 1] strip_seps [of 2] by (simp_all add: numeral_2_eq_2)

text \<open>Directory and base name of a path that has a last name \<open>w\<close>.\<close>

lemma find_last_word:
  assumes "\<forall>c\<in>set w. \<not> P c"
  shows "find_last P (d @ w) = find_last P d"
proof -
  have "takeWhile (\<lambda>c. \<not> P c) (rev (d @ w)) = rev w @ takeWhile (\<lambda>c. \<not> P c) (rev d)"
    using assms by (simp add: takeWhile_append)
  then show ?thesis by (simp add: find_last_def Let_def)
qed

lemma path_names:
  obtains n where "p = replicate n (47::int)"
  | d w n where "p = d @ w @ replicate n 47" "w \<noteq> []" "47 \<notin> set w" "d = [] \<or> (\<exists>d'. d = d' @ [47])"
proof (cases rule: path_cases [of p])
  case (2 q c n)
  let ?w = "rev (takeWhile (\<lambda>c. c \<noteq> 47) (rev (q @ [c])))" and ?d = "rev (dropWhile (\<lambda>c. c \<noteq> 47) (rev (q @ [c])))"
  have "rev (rev (q @ [c])) = ?d @ ?w" by (simp only: rev_append [symmetric] takeWhile_dropWhile_id)
  then have "p = ?d @ ?w @ replicate n 47" using 2(1) by simp
  moreover have "?w \<noteq> []" using 2(2) by simp
  moreover have "47 \<notin> set ?w" by (auto dest: set_takeWhileD)
  moreover have "?d = [] \<or> (\<exists>d'. ?d = d' @ [47])"
  proof (cases "dropWhile (\<lambda>c. c \<noteq> 47) (rev (q @ [c]))")
    case (Cons x xs)
    then have "x = 47" using hd_dropWhile [of "\<lambda>c. c \<noteq> 47" "rev (q @ [c])"] by simp
    then show ?thesis using Cons by simp
  qed simp
  ultimately show ?thesis by (rule that(2))
qed (rule that(1))

lemma strip_last_word:
  assumes "w \<noteq> []" "47 \<notin> set w"
  shows "StripTrailingSeparatorsInternal (d @ w @ replicate n 47) = d @ w"
proof -
  obtain v c where "w = v @ [c]" using assms(1) by (cases w rule: rev_cases) auto
  then show ?thesis using strip_word [of c "d @ v" n] assms(2) by simp
qed

lemma strip_nonempty: "p \<noteq> [] \<Longrightarrow> StripTrailingSeparatorsInternal p \<noteq> []"
proof (cases rule: path_cases [of p])
  case (1 n)
  then show "p \<noteq> [] \<Longrightarrow> ?thesis" by simp
next
  case (2 q c n)
  then show ?thesis using strip_word [of c q n] by simp
qed

lemma names_of_word:
  assumes "w \<noteq> []" "47 \<notin> set w" "d = [] \<or> (\<exists>d'. d = d' @ [47])" "p = d @ w @ replicate n 47"
  shows DirName_word: "DirName p = (if d = [] then [46] else if d = [47] \<or> d = [47, 47] then d else StripTrailingSeparatorsInternal (butlast d))"
    and BaseName_word: "BaseName p = w"
proof -
  have s: "StripTrailingSeparatorsInternal p = d @ w" unfolding assms(4) by (rule strip_last_word [OF assms(1,2)])
  have f: "find_last IsSeparator (d @ w) = (if d = [] then None else Some (length d - 1))"
    using assms(2,3) by (subst find_last_word) auto
  have "d \<noteq> [] \<Longrightarrow> length d - 1 < length (d @ w) - 1" using assms(1) by (cases d; cases w) auto
  then show "BaseName p = w" by (auto simp: BaseName_def s f FindDriveLetter_def Let_def)
  show "DirName p = (if d = [] then [46] else if d = [47] \<or> d = [47, 47] then d else StripTrailingSeparatorsInternal (butlast d))"
  proof (cases d rule: rev_cases)
    case Nil
    then show ?thesis using f by (simp add: DirName_def s kCurrentDirectory_def)
  next
    case (snoc d' x)
    then have x: "x = 47" using assms(3) by auto
    have new: "find_last IsSeparator (d @ w) = Some (length d')" using f snoc by simp
    consider "d' = []" | "d' = [47]" | "d' \<noteq> []" "d' \<noteq> [47]" by blast
    then show ?thesis
    proof cases
      case 3
      have "\<not> (length d' = 1 \<and> IsSeparator ((d @ w) ! 0))" using 3 snoc by (cases d') auto
      then have "DirName p = (let t = StripTrailingSeparatorsInternal (take (length d') (d @ w)) in if length t = 0 then [46] else t)"
        using 3 by (auto simp: DirName_def s new Let_def kCurrentDirectory_def)
      also have "take (length d') (d @ w) = d'" using snoc by simp
      finally show ?thesis using 3 strip_nonempty [of d'] snoc by (simp add: Let_def)
    qed (use new snoc x in \<open>simp_all add: DirName_def s Let_def\<close>)
  qed
qed

lemma find_last_root [simp]: "find_last IsSeparator [47] = Some 0" "find_last IsSeparator [47, 47] = Some 1"
  using find_last_snoc [of IsSeparator "[]" 47] find_last_snoc [of IsSeparator "[47]" 47] by simp_all

lemma DirName_seps [simp]: "DirName (replicate n 47) = (if n = 0 then [46] else if n = 2 then [47, 47] else [47])"
proof -
  consider "n = 0" | "n = 1" | "n = 2" | "n \<ge> 3" by linarith
  then show ?thesis
    by cases (simp_all add: DirName_def Let_def kCurrentDirectory_def numeral_2_eq_2)
qed

lemma BaseName_seps [simp]: "BaseName (replicate n 47) = (if n = 0 then [] else if n = 2 then [47, 47] else [47])"
proof -
  consider "n = 0" | "n = 1" | "n = 2" | "n \<ge> 3" by linarith
  then show ?thesis
    by cases (simp_all add: BaseName_def Let_def FindDriveLetter_def numeral_2_eq_2)
qed

lemma strip_length: "length (StripTrailingSeparatorsInternal p) \<le> length p"
proof (cases rule: path_cases [of p])
  case (2 q c n)
  then show ?thesis using strip_word [of c q n] by simp
qed simp

lemma DirName_smaller:
  assumes "p \<noteq> DirName p"
  shows "(if DirName p = [46] then 0 else if DirName p = [] then 1 else length (DirName p)) <
         (if p = [46] then 0 else if p = [] then 1 else length p)"
proof (cases rule: path_names [of p])
  case (1 n)
  have r: "replicate 2 47 = [47, 47::int]" "replicate n 47 \<noteq> [46::int]"
    by (simp_all add: numeral_2_eq_2) (cases n, simp_all)
  have "n \<noteq> 1" using assms 1 by auto
  then show ?thesis using assms 1 by (auto simp: r split: if_splits)
next
  case (2 d w n)
  note D = DirName_word [OF 2(2-4) 2(1)]
  have w: "length w > 0" using 2(2) by simp
  consider "d = []" | "d = [47] \<or> d = [47, 47]" | "d \<noteq> []" "d \<noteq> [47]" "d \<noteq> [47, 47]" by blast
  then show ?thesis
  proof cases
    case 1
    then show ?thesis using D assms w by auto
  next
    case 2
    then show ?thesis using D w \<open>p = d @ w @ replicate n 47\<close> by auto
  next
    case 3
    then have "length (DirName p) < length d" using D strip_length [of "butlast d"]
      by (simp add: le_less_trans [OF _ diff_less])
    moreover have "length d \<noteq> 1" using 3 2(4) by auto
    then have "p \<noteq> [46]" "p \<noteq> []" "butlast d \<noteq> []" using 3 2(1) by (cases d; auto)+
    then have "DirName p \<noteq> []" using 3 D strip_nonempty [of "butlast d"] by simp
    ultimately show ?thesis using 2(1) \<open>p \<noteq> [46]\<close> \<open>p \<noteq> []\<close> by auto
  qed
qed

section \<open>Components\<close>

function comps_loop :: "file_path \<Rightarrow> ustring list \<Rightarrow> file_path \<times> ustring list" where
  "comps_loop current ret_val =
     (if current \<noteq> DirName current then
        let base = BaseName current in
        comps_loop (DirName current) (if \<not> AreAllSeparators base then ret_val @ [base] else ret_val)
      else (current, ret_val))"
  by pat_completeness auto

termination comps_loop
  by (relation "measure (\<lambda>(p, _). if p = [46] then 0 else if p = [] then 1 else length p)") (use DirName_smaller in auto)

text \<open>The root is the name that is left when the loop ends; no path has a drive letter.\<close>

definition comps_root :: "file_path \<Rightarrow> ustring list" where
  "comps_root current =
     (let base = BaseName current in
      (if base \<noteq> [] \<and> base \<noteq> kCurrentDirectory then [BaseName current] else []) @
      (case FindDriveLetter (DirName current) of None \<Rightarrow> [] | Some letter \<Rightarrow> [substr 0 (letter + 1) (DirName current)]))"

definition GetComponents :: "file_path \<Rightarrow> ustring list" where
  "GetComponents path =
     (if path = [] then []
      else let (current, ret_val) = comps_loop path [] in rev (ret_val @ comps_root current))"

fun same_prefix :: "ustring list \<Rightarrow> ustring list \<Rightarrow> ustring list option" where
  "same_prefix [] child = Some child"
| "same_prefix (p # parent) [] = None"
| "same_prefix (p # parent) (c # child) = (if p \<noteq> c then None else same_prefix parent child)"

fun append_all :: "file_path \<Rightarrow> ustring list \<Rightarrow> file_path res" where
  "append_all path [] = Inr path"
| "append_all path (c # child) = bindR (FilePath_Append path c) (\<lambda>path1. append_all path1 child)"

definition AppendRelativePath :: "file_path \<Rightarrow> file_path \<Rightarrow> file_path option \<Rightarrow> (bool \<times> file_path option) res" where
  "AppendRelativePath parent child path =
     (let parent_components = GetComponents parent; child_components = GetComponents child in
      if parent_components = [] \<or> length parent_components \<ge> length child_components then Inr (False, path)
      else case same_prefix parent_components child_components of
             None \<Rightarrow> Inr (False, path)
           | Some rest \<Rightarrow> (case path of None \<Rightarrow> Inr (True, None)
                          | Some p \<Rightarrow> bindR (append_all p rest) (\<lambda>p1. Inr (True, Some p1))))"

definition IsParent :: "file_path \<Rightarrow> file_path \<Rightarrow> bool res" where
  "IsParent path child = bindR (AppendRelativePath path child None) (\<lambda>(b, _). Inr b)"

definition ReferencesParent :: "file_path \<Rightarrow> bool" where
  "ReferencesParent path = list_ex (\<lambda>component. component = kParentDirectory) (GetComponents path)"

section \<open>The components of a path\<close>

text \<open>The names between separators, and the name of the root before them.\<close>

abbreviation names :: "file_path \<Rightarrow> ustring list" where
  "names p \<equiv> runs (\<lambda>c. c = 47) p"

definition path_root :: "file_path \<Rightarrow> ustring list" where
  "path_root p =
     (let n = length (takeWhile (\<lambda>c. c = 47) p) in
      if n = 0 then [] else if n = 2 \<or> n = 3 \<and> n < length p then [[47, 47]] else [[47]])"

text \<open>The first name of a relative path is left out when it is \<open>.\<close>, unless only separators follow it.\<close>

definition path_components :: "file_path \<Rightarrow> ustring list" where
  "path_components p =
     path_root p @
     (if path_root p = [] \<and> names p \<noteq> [] \<and> hd (names p) = [46] \<and> (p = [46] \<or> length (names p) > 1)
      then tl (names p) else names p)"

lemma runs_split: "P c \<Longrightarrow> runs P (s @ c # t) = runs P s @ runs P t"
proof (induction P s rule: runs.induct)
  case (2 P x cs)
  show ?case
  proof (cases "P x")
    case False
    show ?thesis
    proof (cases "\<exists>y\<in>set cs. P y")
      case True
      then obtain y where "y \<in> set cs" "P y" by blast
      then show ?thesis using 2 False by (simp add: takeWhile_append1 dropWhile_append1)
    next
      case none: False
      then have tw: "takeWhile (\<lambda>c. \<not> P c) cs = cs" and dw: "dropWhile (\<lambda>c. \<not> P c) cs = []"
        by (auto simp: takeWhile_eq_all_conv dropWhile_eq_Nil_conv)
      have "takeWhile (\<lambda>c. \<not> P c) (cs @ c # t) = cs" "dropWhile (\<lambda>c. \<not> P c) (cs @ c # t) = c # t"
        using none 2(3) tw by (auto simp: takeWhile_append dropWhile_append)
      then show ?thesis using 2(3) False by (simp add: tw dw)
    qed
  qed (use 2 in simp)
qed simp

lemma names_seps: "names (replicate n 47) = []"
  by (rule runs_none) simp

lemma names_word:
  assumes "w \<noteq> []" "47 \<notin> set w" "d = [] \<or> (\<exists>d'. d = d' @ [47])"
  shows "names (d @ w @ replicate n 47) = names d @ [w]"
proof -
  have w: "names (w @ replicate n 47) = [w]"
    using runs_word [of w "\<lambda>c. c = 47" "replicate n 47"] assms(1,2) names_seps [of n] by (cases n) auto
  from assms(3) show ?thesis
  proof
    assume "\<exists>d'. d = d' @ [47]"
    then obtain d' where "d = d' @ [47]" ..
    then show ?thesis
      using runs_split [of "\<lambda>c. c = 47" 47 d' "w @ replicate n 47"] runs_split [of "\<lambda>c. c = 47" 47 d' "[]"] w by simp
  qed (simp add: w)
qed

text \<open>More names after a path.\<close>

lemma path_root_append: "c \<noteq> 47 \<Longrightarrow> path_root (q @ [c] @ t) = path_root (q @ [c])"
proof -
  assume c: "c \<noteq> 47"
  then have "takeWhile (\<lambda>c. c = 47) (q @ [c] @ t) = takeWhile (\<lambda>c. c = 47) (q @ [c])" by (simp add: takeWhile_append)
  moreover have "length (takeWhile (\<lambda>c. c = 47) (q @ [c])) \<le> length q"
    using c length_takeWhile_le [of "\<lambda>c. c = 47" q] by (simp add: takeWhile_append)
  ultimately show ?thesis by (simp add: path_root_def Let_def)
qed

lemma names_nonempty: "x \<in> set p \<Longrightarrow> x \<noteq> 47 \<Longrightarrow> names p \<noteq> []"
proof -
  have "names s = [] \<Longrightarrow> set s \<subseteq> {47}" for s :: ustring
    by (induction "\<lambda>c. c = (47::int)" s rule: runs.induct) (auto split: if_splits)
  then show "x \<in> set p \<Longrightarrow> x \<noteq> 47 \<Longrightarrow> ?thesis" by blast
qed

lemma single_name:
  assumes "names (q @ [c]) = [w]" "c \<noteq> 47" "path_root (q @ [c]) = []"
  shows "q @ [c] = w"
proof (cases "47 \<in> set (q @ [c])")
  case True
  then obtain a b where ab: "q @ [c] = a @ 47 # b" by (metis split_list)
  then have "names a @ names b = [w]" using assms(1) runs_split [of "\<lambda>c. c = 47" 47 a b] by simp
  moreover have "a \<noteq> []" "hd a \<noteq> 47"
    using assms(3) ab by (cases a; auto simp: path_root_def Let_def split: if_splits)+
  then have "names a \<noteq> []" by (intro names_nonempty [of "hd a"]) auto
  moreover have "c \<in> set b" using assms(2) ab by (cases b rule: rev_cases) auto
  then have "names b \<noteq> []" using assms(2) by (intro names_nonempty [of c])
  ultimately show ?thesis by (cases "names a"; cases "names b") auto
next
  case False
  then show ?thesis using names_word [of "q @ [c]" "[]" 0] assms(1) by simp
qed

lemma path_components_append:
  assumes "c \<noteq> 47" "names t \<noteq> []"
  shows "path_components (q @ [c] @ 47 # t) = path_components (q @ [c]) @ names t"
proof -
  have n: "names (q @ [c] @ 47 # t) = names (q @ [c]) @ names t" using runs_split [of "\<lambda>c. c = 47" 47 "q @ [c]" t] by simp
  have ne: "names (q @ [c]) \<noteq> []" using assms(1) by (intro names_nonempty [of c]) auto
  have more: "length (names (q @ [c]) @ names t) > 1" using ne assms(2) by (cases "names (q @ [c])"; cases "names t") auto
  have "q @ [c] = [46] \<or> length (names (q @ [c])) > 1" if "path_root (q @ [c]) = []" "hd (names (q @ [c])) = [46]"
  proof (cases "tl (names (q @ [c]))")
    case Nil
    then have "names (q @ [c]) = [[46]]" using ne that by (cases "names (q @ [c])") auto
    then show ?thesis using single_name [OF _ assms(1) that(1)] by blast
  next
    case (Cons a list)
    then show ?thesis using ne by (cases "names (q @ [c])") auto
  qed
  then show ?thesis using ne more assms(2) path_root_append [OF assms(1), of q "47 # t"]
    unfolding path_components_def n by (auto simp: tl_append split: list.split)
qed

text \<open>The loop of \<open>GetComponents\<close>.\<close>

declare comps_loop.simps [simp del]

lemma comps_loop_acc: "comps_loop p (r' @ r) = (case comps_loop p r of (q, x) \<Rightarrow> (q, r' @ x))"
proof (induction p r rule: comps_loop.induct)
  case (1 p r)
  show ?case
  proof (cases "p = DirName p")
    case False
    let ?n = "if \<not> AreAllSeparators (BaseName p) then r @ [BaseName p] else r"
    have "comps_loop p (r' @ r) = comps_loop (DirName p) (r' @ ?n)" using False by (subst comps_loop.simps) simp
    moreover have "comps_loop p r = comps_loop (DirName p) ?n" using False by (subst comps_loop.simps) simp
    ultimately show ?thesis using 1 [OF False refl] by simp
  qed (simp add: comps_loop.simps [of p])
qed

lemma comps_root_at_most: "rev (comps_root p) = comps_root p"
  by (simp add: comps_root_def Let_def FindDriveLetter_def)

lemma DirName_nonempty: "DirName p \<noteq> []"
  by (auto simp: DirName_def Let_def kCurrentDirectory_def)

lemma GetComponents_end: "p = DirName p \<Longrightarrow> GetComponents p = comps_root p"
  using DirName_nonempty [of p] by (simp add: GetComponents_def comps_loop.simps [of p] comps_root_at_most)

lemma GetComponents_step:
  assumes "p \<noteq> DirName p" "p \<noteq> []"
  shows "GetComponents p = GetComponents (DirName p) @ (if AreAllSeparators (BaseName p) then [] else [BaseName p])"
proof -
  let ?n = "if \<not> AreAllSeparators (BaseName p) then [BaseName p] else []"
  obtain q x where q: "comps_loop (DirName p) [] = (q, x)" by (cases "comps_loop (DirName p) []")
  have "comps_loop p [] = comps_loop (DirName p) ?n" using assms(1) by (subst comps_loop.simps) simp
  also have "\<dots> = (q, ?n @ x)" using comps_loop_acc [of "DirName p" ?n "[]"] q by simp
  finally show ?thesis using assms(2) DirName_nonempty [of p] q by (simp add: GetComponents_def comps_root_at_most)
qed

lemma root_of_seps: "takeWhile (\<lambda>c. c = 47) (replicate n 47 @ w) = replicate n (47::int) @ takeWhile (\<lambda>c. c = 47) w"
  by (induction n) simp_all

lemma path_components_seps: "path_components (replicate n 47) = (if n = 0 then [] else if n = 2 then [[47, 47]] else [[47]])"
  using root_of_seps [of n "[]"] by (simp add: path_components_def path_root_def Let_def names_seps)

lemma path_components_root: "path_components [] = []" "path_components [47] = [[47]]" "path_components [47, 47] = [[47, 47]]"
  using path_components_seps [of 0] path_components_seps [of 1] path_components_seps [of 2] by (simp_all add: numeral_2_eq_2)

lemma GetComponents_seps: "GetComponents (replicate n 47) = path_components (replicate n 47)"
proof -
  have e: "GetComponents [47] = [[47]]" "GetComponents [47, 47] = [[47, 47]]"
    using GetComponents_end [of "[47]"] GetComponents_end [of "[47, 47]"] DirName_seps [of 1] DirName_seps [of 2] BaseName_seps [of 1] BaseName_seps [of 2]
    by (simp_all add: comps_root_def FindDriveLetter_def kCurrentDirectory_def numeral_2_eq_2)
  consider "n = 0" | "n = 1" | "n = 2" | "n \<ge> 3" by linarith
  then show ?thesis
  proof cases
    case 4
    then have "length (replicate n (47::int)) \<noteq> length [47::int]" by simp
    then have "replicate n (47::int) \<noteq> [47]" by metis
    then show ?thesis using 4 GetComponents_step [of "replicate n 47"] e
      by (simp add: path_components_seps AreAllSeparators_def)
  next
    case 1
    then show ?thesis by (simp add: path_components_root GetComponents_def)
  qed (simp_all add: path_components_root e numeral_2_eq_2)
qed

text \<open>A path with a single name, and one with one name more than its directory.\<close>

lemma path_components_name:
  assumes "w \<noteq> []" "47 \<notin> set w"
  shows "path_components (replicate k 47 @ w @ replicate n 47) =
    (if k = 0 then (if w = [46] \<and> n = 0 then [] else [w]) else if k = 2 \<or> k = 3 then [[47, 47], w] else [[47], w])"
proof -
  have "takeWhile (\<lambda>c. c = 47) (w @ replicate n 47) = []" using assms by (cases w) auto
  then have t: "takeWhile (\<lambda>c. c = 47) (replicate k 47 @ w @ replicate n 47) = replicate k 47" by (simp add: root_of_seps)
  have d: "replicate k 47 = [] \<or> (\<exists>d'. replicate k (47::int) = d' @ [47])"
    by (cases k) (auto simp: replicate_append_same [symmetric])
  have e: "w @ replicate n 47 = [46] \<longleftrightarrow> w = [46] \<and> n = 0" using assms by (cases w; cases n) auto
  have "names (replicate k 47 @ w @ replicate n 47) = [w]" using names_word [OF assms d, of n] names_seps [of k] by simp
  then show ?thesis using assms(1) by (auto simp: path_components_def path_root_def t Let_def e)
qed

lemma path_components_dir:
  assumes "w \<noteq> []" "47 \<notin> set w" "d = d' @ [47]" "d' \<noteq> []" "d' \<noteq> [47]"
  shows "path_components (d @ w @ replicate n 47) = path_components (StripTrailingSeparatorsInternal d') @ [w]"
proof (cases rule: path_cases [of d'])
  case (1 k)
  then have d: "d = replicate (Suc k) 47" using assms(3) by (simp add: replicate_append_same [symmetric])
  have "k \<noteq> 0" "k \<noteq> 1" using assms(4,5) 1 by auto
  then show ?thesis using path_components_name [OF assms(1,2), of "Suc k" n]
    unfolding d 1 strip_seps by (auto simp: path_components_seps path_components_root simp del: replicate_Suc)
next
  case (2 q c k)
  let ?t = "replicate k 47 @ w @ replicate n 47"
  have k: "replicate k 47 = [] \<or> (\<exists>d'. replicate k (47::int) = d' @ [47])"
    by (cases k) (auto simp: replicate_append_same [symmetric])
  have t: "names ?t = [w]" using names_word [OF assms(1,2) k, of n] names_seps [of k] by simp
  have "d @ w @ replicate n 47 = q @ [c] @ 47 # ?t" using assms(3) 2(1) by (simp add: replicate_app_Cons_same)
  then show ?thesis using path_components_append [OF 2(2), of ?t q] strip_word [OF 2(2), of q k] t 2(1) by simp
qed

text \<open>
  C26: the components of a path are its root and the names between its separators.  One separator or
  four and more in front are the root \<open>/\<close>; two are the root \<open>//\<close>, and so are three when a
  name follows.  A relative path loses a first name \<open>.\<close>.
\<close>

theorem components_of_path: "GetComponents p = path_components p"
proof (induction "length p" arbitrary: p rule: less_induct)
  case less
  show ?case
  proof (cases rule: path_names [of p])
    case (1 n)
    then show ?thesis by (simp add: GetComponents_seps)
  next
    case (2 d w n)
    note D = DirName_word [OF 2(2-4) 2(1)] and B = BaseName_word [OF 2(2-4) 2(1)]
    have w: "\<not> AreAllSeparators w" using 2(2,3) by (cases w) (auto simp: AreAllSeparators_def)
    note step = GetComponents_step [of p, unfolded B, simplified w]
    have p: "p \<noteq> []" using 2(1,2) by simp
    have dot: "GetComponents [46] = []"
      using DirName_word [of "[46]" "[]" "[46]" 0] BaseName_word [of "[46]" "[]" "[46]" 0] GetComponents_end [of "[46]"]
      by (simp add: comps_root_def FindDriveLetter_def kCurrentDirectory_def)
    consider "d = []" | k where "d = replicate k 47" "k = 1 \<or> k = 2" | d' where "d = d' @ [47]" "d' \<noteq> []" "d' \<noteq> [47]"
    proof (cases "d = []")
      case False
      then obtain d' where d': "d = d' @ [47]" using 2(4) by blast
      show ?thesis
      proof (cases "d' = [] \<or> d' = [47]")
        case True
        then show ?thesis using d' that(2) [of 1] that(2) [of 2] by (auto simp: numeral_2_eq_2)
      next
        case False
        then show ?thesis using d' that(3) by simp
      qed
    qed (rule that(1))
    then show ?thesis
    proof cases
      case d: 1
      have e: "p = [46] \<longleftrightarrow> w = [46] \<and> n = 0" using 2(1-3) d by (cases w; cases n) auto
      have c: "path_components p = (if p = [46] then [] else [w])" using path_components_name [OF 2(2,3), of 0 n] 2(1) d e by simp
      show ?thesis
      proof (cases "p = [46]")
        case True
        then show ?thesis using c dot by simp
      next
        case False
        then show ?thesis using step p dot D d c by simp
      qed
    next
      case (2 k)
      then have "DirName p = replicate k 47" using D by (auto simp: numeral_2_eq_2)
      then show ?thesis using 2 p step GetComponents_seps [of k] path_components_seps [of k] path_components_name [of w k n]
          \<open>p = d @ w @ replicate n 47\<close> \<open>w \<noteq> []\<close> \<open>47 \<notin> set w\<close> by auto
    next
      case (3 d')
      then have "DirName p = StripTrailingSeparatorsInternal d'" using D by auto
      moreover have "length (StripTrailingSeparatorsInternal d') < length p" using strip_length [of d'] 2(1) 3 by simp
      moreover from calculation have "p \<noteq> DirName p" by (metis less_irrefl)
      ultimately show ?thesis
        using p step less [of "StripTrailingSeparatorsInternal d'"] path_components_dir [OF 2(2,3) 3, of n] 2(1) by auto
    qed
  qed
qed

text \<open>Three separators in front of a name become the alternate root, four the root.\<close>

lemma directory_of_leading_separators:
  "DirName [47, 47, 47, 97] = [47, 47]"
  "DirName [47, 47, 47, 47, 97] = [47]"
  by code_simp+

section \<open>Relative paths\<close>

lemma same_prefix_iff: "same_prefix a b = Some r \<longleftrightarrow> b = a @ r"
  by (induction a b rule: same_prefix.induct) auto

lemma names_parts: "x \<in> set (names p) \<Longrightarrow> x \<noteq> [] \<and> 47 \<notin> set x"
  by (induction "\<lambda>c. c = (47::int)" p rule: runs.induct) (auto split: if_splits dest: set_takeWhileD)

lemma later_components:
  assumes "GetComponents p = a @ r" "a \<noteq> []" "x \<in> set r"
  shows "x \<noteq> [] \<and> 47 \<notin> set x"
proof -
  define xs where "xs = (if path_root p = [] \<and> names p \<noteq> [] \<and> hd (names p) = [46] \<and> (p = [46] \<or> length (names p) > 1)
      then tl (names p) else names p)"
  have xs: "a @ r = path_root p @ xs" using assms(1) by (simp add: components_of_path path_components_def xs_def)
  have sub: "set xs \<subseteq> set (names p)" by (cases "names p") (auto simp: xs_def)
  have "path_root p = [] \<or> (\<exists>s. path_root p = [s])" by (simp add: path_root_def Let_def)
  then have "set r \<subseteq> set xs" using xs assms(2) by (cases a) auto
  then show ?thesis using assms(3) sub names_parts by blast
qed

definition joined :: "ustring \<Rightarrow> ustring list \<Rightarrow> ustring" where
  "joined x xs = x @ concat (map (\<lambda>y. 47 # y) xs)"

lemma names_joined: "\<forall>y\<in>set (x # xs). y \<noteq> [] \<and> 47 \<notin> set y \<Longrightarrow> names (joined x xs) = x # xs"
proof (induction xs arbitrary: x)
  case Nil
  then show ?case using names_word [of x "[]" 0] by (simp add: joined_def)
next
  case (Cons y ys)
  have "names x = [x]" using names_word [of x "[]" 0] Cons(2) by simp
  then show ?case using runs_split [of "\<lambda>c. c = 47" 47 x "joined y ys"] Cons by (simp add: joined_def)
qed

lemma append_word:
  assumes "x \<noteq> []" "47 \<notin> set x" "c \<noteq> 47" "q @ [c] \<noteq> [46]"
  shows "FilePath_Append (q @ [c] @ replicate n 47) x =
    (if q @ [c] @ replicate n 47 = [46] then Inr x else Inr (q @ [c] @ 47 # x))"
proof -
  have "\<not> IsPathAbsolute x" using assms(1,2) by (cases x) (auto simp: IsPathAbsolute_def)
  moreover have "(q @ [c]) ! (length (q @ [c]) - 1) = c" by simp
  ultimately show ?thesis
    using assms strip_word [OF assms(3), of q n] by (simp add: FilePath_Append_def dcheck_def kCurrentDirectory_def kSeparators_def Let_def)
qed

lemma append_all_names:
  assumes "\<forall>y\<in>set xs. y \<noteq> [] \<and> 47 \<notin> set y" "c \<noteq> 47" "q @ [c] \<noteq> [46]"
  shows "append_all (q @ [c]) xs = Inr (joined (q @ [c]) xs)"
  using assms
proof (induction xs arbitrary: q c)
  case (Cons y ys)
  obtain y' e where y: "y = y' @ [e]" using Cons(2) by (cases y rule: rev_cases) auto
  have "append_all (q @ [c]) (y # ys) = append_all ((q @ [c] @ 47 # y') @ [e]) ys"
    using append_word [of y c q 0] Cons(2-4) y by simp
  also have "\<dots> = Inr (joined ((q @ [c] @ 47 # y') @ [e]) ys)"
    using Cons(2) y by (intro Cons(1)) auto
  finally show ?case using y by (simp add: joined_def)
qed (simp add: joined_def)

text \<open>One path put behind another.\<close>

lemma FilePath_Append_components:
  assumes "GetComponents p \<noteq> []" "[46] \<notin> set (GetComponents p)" "r \<noteq> []" "hd r \<noteq> 47"
  shows "\<exists>q. FilePath_Append p r = Inr q \<and> GetComponents q = GetComponents p @ names r"
proof (cases rule: path_cases [of p])
  case (1 k)
  obtain j where j: "j = 1 \<or> j = 2" "StripTrailingSeparatorsInternal p = replicate j 47" "GetComponents p = [replicate j 47]"
  proof -
    have "k \<noteq> 0" using assms(1) 1 by (cases k) (auto simp: components_of_path path_components_root)
    then show ?thesis
      using that [of 1] that [of 2] 1 components_of_path [of p] path_components_seps [of k]
      by (cases "k = 1"; cases "k = 2") (auto simp: numeral_2_eq_2)
  qed
  have "\<not> IsPathAbsolute r" using assms(3,4) by (cases r) (auto simp: IsPathAbsolute_def)
  moreover have "p \<noteq> [46]" using 1 by (cases k) auto
  moreover have "replicate j 47 ! (length (replicate j (47::int)) - 1) = 47" using j(1) by auto
  ultimately have a: "FilePath_Append p r = Inr (replicate j 47 @ r)"
    by (simp add: FilePath_Append_def kCurrentDirectory_def j(2) Let_def)
  have "takeWhile (\<lambda>c. c = 47) r = []" using assms(3,4) by (cases r) auto
  then have "path_root (replicate j 47 @ r) = [replicate j 47]"
    using j(1) by (auto simp: path_root_def root_of_seps Let_def numeral_2_eq_2)
  moreover have "names (replicate j 47 @ r) = names r" using j(1) by (auto simp: numeral_2_eq_2)
  ultimately show ?thesis using a j(3) by (simp add: components_of_path path_components_def)
next
  case (2 q c n)
  have ne: "q @ [c] \<noteq> [46]"
  proof
    assume e: "q @ [c] = [46]"
    then have "GetComponents p = (if n = 0 then [] else [[46]])"
      using path_components_name [of "[46]" 0 n] 2(1) by (simp add: components_of_path)
    then show False using assms(1,2) by (simp split: if_splits)
  qed
  then have "p \<noteq> [46]" using 2 by (cases q; cases n) auto
  moreover have "\<not> IsPathAbsolute r" using assms(3,4) by (cases r) (auto simp: IsPathAbsolute_def)
  ultimately have a: "FilePath_Append p r = Inr (q @ [c] @ 47 # r)"
    using assms(3) strip_word [OF 2(2), of q n] 2 by (simp add: FilePath_Append_def kCurrentDirectory_def kSeparators_def Let_def)
  have "names p = names (q @ [c])"
    using 2(1) runs_split [of "\<lambda>c. c = 47" 47 "q @ [c]" "replicate (n - 1) 47"] names_seps [of "n - 1"] by (cases n) auto
  then have "path_components p = path_components (q @ [c])"
    using path_root_append [OF 2(2), of q "replicate n 47"] 2(1) ne \<open>p \<noteq> [46]\<close> by (simp add: path_components_def)
  moreover have "names r \<noteq> []" using assms(3,4) by (intro names_nonempty [of "hd r"]) auto
  ultimately show ?thesis using a path_components_append [OF 2(2), of r q] by (simp add: components_of_path)
qed

text \<open>
  C27: when \<open>AppendRelativePath\<close> tells the way from a parent to a child, and no component of the child
  is \<open>.\<close>, then that way put behind the parent has the components of the child again.
\<close>

theorem relative_path_leads_to_child:
  assumes "AppendRelativePath parent child (Some []) = Inr (True, Some r)"
    and "kCurrentDirectory \<notin> set (GetComponents child)"
  shows "\<exists>p. FilePath_Append parent r = Inr p \<and> GetComponents p = GetComponents child"
proof -
  obtain rest where rest: "GetComponents child = GetComponents parent @ rest" "append_all [] rest = Inr r"
    "GetComponents parent \<noteq> []" "rest \<noteq> []"
    using assms(1) by (auto simp: AppendRelativePath_def Let_def same_prefix_iff bindR_eq_Inr split: if_splits option.splits)
  then obtain x xs where x: "rest = x # xs" by (cases rest) auto
  have parts: "\<forall>y\<in>set (x # xs). y \<noteq> [] \<and> 47 \<notin> set y" using later_components [OF rest(1,3)] x by blast
  obtain q c where q: "x = q @ [c]" using parts by (cases x rule: rev_cases) auto
  have "FilePath_Append [] x = Inr x"
    using parts by (cases x) (auto simp: FilePath_Append_def IsPathAbsolute_def kCurrentDirectory_def StripTrailingSeparatorsInternal_def)
  moreover have "x \<noteq> [46]" using assms(2) rest(1) x by (auto simp: kCurrentDirectory_def)
  ultimately have "r = joined x xs" using rest(2) x q append_all_names [of xs c q] parts by auto
  moreover have "hd x \<noteq> 47" using parts list.set_sel(1) [of x] by (metis list.set_intros(1))
  ultimately have "names r = rest" "r \<noteq> []" "hd r \<noteq> 47" using names_joined [OF parts] x parts
    by (auto simp: joined_def hd_append)
  then show ?thesis
    using FilePath_Append_components [OF rest(3), of r] rest(1) assms(2) by (simp add: kCurrentDirectory_def)
qed

theorem relative_path_leads_to_child_witness:
  "\<exists>p. FilePath_Append [47, 97] [98, 47, 99] = Inr p \<and> GetComponents p = GetComponents [47, 97, 47, 98, 47, 99]"
  by (rule relative_path_leads_to_child; code_simp)

section \<open>Names and extensions\<close>

lemma ExtensionSeparatorPosition_dir:
  assumes "47 \<notin> set w" "d = [] \<or> (\<exists>d'. d = d' @ [47])" "ExtensionSeparatorPosition w = Some k"
  shows "ExtensionSeparatorPosition (d @ w) = Some (length d + k)"
proof (cases "d = []")
  case False
  let ?dot = "\<lambda>c. c = kExtensionSeparator"
  obtain d' where d: "d = d' @ [47]" using assms(2) False by blast
  have sep: "find_last IsSeparator (d @ take i w) = Some (length d - 1)" for i
    using assms(1) d by (subst find_last_word) (auto dest: in_set_takeD)
  have none: "find_last IsSeparator (take i w) = None" for i
    using assms(1) find_last_nth [of IsSeparator "take i w"] by (cases "find_last IsSeparator (take i w)") (auto dest!: nth_mem in_set_takeD)
  have dots: "find_last ?dot d = Some j \<Longrightarrow> j < length d - 1" for j
    using find_last_nth [of ?dot d' j] d by (auto simp: kExtensionSeparator_def split: if_splits)
  have spec: "w \<noteq> kCurrentDirectory" "w \<noteq> kParentDirectory" using assms(3) by (auto simp: ExtensionSeparatorPosition_def)
  have spec': "d @ w \<noteq> kCurrentDirectory" "d @ w \<noteq> kParentDirectory"
    using d by (auto simp: kCurrentDirectory_def kParentDirectory_def append_eq_Cons_conv)
  obtain l where l: "find_last ?dot w = Some l" using assms(3) spec by (auto simp: ExtensionSeparatorPosition_def split: option.splits)
  then have fl: "find_last ?dot (d @ w) = Some (length d + l)" by (simp add: find_last_append)
  note E = ExtensionSeparatorPosition_def [of w] ExtensionSeparatorPosition_def [of "d @ w"]
  show ?thesis
  proof (cases "find_last ?dot (take l w)")
    case None
    then have "k = l" using assms(3) spec l by (auto simp: E split: if_splits)
    then show ?thesis using spec' fl None dots sep [of l]
      by (cases "find_last ?dot d") (auto simp: E(2) find_last_append Let_def)
  next
    case (Some j)
    then have "l \<noteq> 0" using find_last_nth by fastforce
    have "length d - Suc 0 < length d + i" for i using False by (cases d) simp_all
    note this [simp]
    then show ?thesis using assms(3) spec spec' l fl Some sep [of l] none [of l] False
      by (auto simp: E find_last_append Let_def split: if_splits)
  qed
qed (use assms in simp)

text \<open>
  A path without its trailing separators is what \<open>RemoveExtension\<close> leaves of it and its extension,
  also when the extension is a double one as \<open>.tar.gz\<close>.
\<close>

theorem extension_splits_path:
  "RemoveExtension (StripTrailingSeparators p) @ Extension p = StripTrailingSeparators p"
proof (cases rule: path_names [of p])
  case (1 n)
  have e: "ExtensionSeparatorPosition s = None" if "s = [] \<or> s = [47] \<or> s = [47, 47]" for s
    using that by (auto simp: ExtensionSeparatorPosition_def find_last_def kExtensionSeparator_def)
  have "Extension (replicate k 47) = []" for k using e by (auto simp: Extension_def Let_def)
  moreover obtain k where "StripTrailingSeparators p = replicate k 47"
    using 1 that [of n] that [of 1] by (cases "n \<le> 2") (auto simp: StripTrailingSeparators_def)
  ultimately show ?thesis using 1 by (simp add: RemoveExtension_def)
next
  case (2 d w n)
  have s: "StripTrailingSeparators p = d @ w" using strip_last_word [OF 2(2,3)] 2(1) by (simp add: StripTrailingSeparators_def)
  have B: "BaseName p = w" "BaseName (d @ w) = w" using BaseName_word [OF 2(2-4)] 2(1) BaseName_word [OF 2(2-4), of "d @ w" 0] by simp_all
  show ?thesis
  proof (cases "ExtensionSeparatorPosition w")
    case (Some k)
    have "k < length w"
      using Some find_last_nth by (fastforce simp: ExtensionSeparatorPosition_def Let_def split: if_splits option.splits)
    then show ?thesis using ExtensionSeparatorPosition_dir [OF 2(3,4) Some]
      by (simp add: s RemoveExtension_def Extension_def B Some substr_def)
  qed (simp add: s RemoveExtension_def Extension_def B)
qed

text \<open>With a separator behind it the double extension is found in the base name but not in the path.\<close>

lemma double_extension_before_separator:
  "ReplaceExtension [97, 46, 116, 97, 114, 46, 103, 122, 47] [98] = [97, 46, 116, 97, 114, 46, 98]"
  "ReplaceExtension [97, 46, 116, 97, 114, 46, 103, 122] [98] = [97, 46, 98]"
  by code_simp+

end
