(* ===== verification/Utf.thy ===== *)
theory Utf imports StringOps begin

text \<open>
  Unicode in \<open>base/\<close>: the macros of \<open>third_party/icu/icu_utf.h\<close> with \<open>icu_utf.cc\<close>, the characters of
  \<open>utf_string_conversion_utils.h\<close> and \<open>.cc\<close> and the conversions of \<open>utf_string_conversions.cc\<close>.  A byte
  is given by its value from 0 to 255, a code unit of 16 bits by its value.
\<close>

unbundle bit_operations_syntax

section \<open>Reading UTF-8\<close>

definition CBU_SENTINEL :: int where "CBU_SENTINEL = - 1"

definition CBU_IS_UNICODE_NONCHAR :: "int \<Rightarrow> bool" where
  "CBU_IS_UNICODE_NONCHAR c \<longleftrightarrow> c \<ge> 0xfdd0 \<and> (c \<le> 0xfdef \<or> c AND 0xfffe = 0xfffe) \<and> c \<le> 0x10ffff"

definition CBU_IS_SURROGATE :: "int \<Rightarrow> bool" where
  "CBU_IS_SURROGATE c \<longleftrightarrow> (c mod 2 ^ 32) AND 0xfffff800 = 0xd800"

definition utf8_countTrailBytes :: "nat list" where
  "utf8_countTrailBytes =
     replicate 192 0 @ replicate 32 1 @ replicate 16 2 @ replicate 5 3 @ replicate 3 3 @ replicate 4 4 @
     replicate 2 5 @ replicate 2 0"

definition CBU8_COUNT_TRAIL_BYTES :: "int \<Rightarrow> nat" where
  "CBU8_COUNT_TRAIL_BYTES leadByte = utf8_countTrailBytes ! nat (leadByte mod 256)"

definition CBU8_MASK_LEAD_BYTE :: "int \<Rightarrow> nat \<Rightarrow> int" where
  "CBU8_MASK_LEAD_BYTE leadByte countTrailBytes = leadByte AND (2 ^ (6 - countTrailBytes) - 1)"

definition CBU8_IS_LEAD :: "int \<Rightarrow> bool" where
  "CBU8_IS_LEAD c \<longleftrightarrow> (c - 0xc0) mod 256 < 0x3e"

definition CBU8_IS_TRAIL :: "int \<Rightarrow> bool" where
  "CBU8_IS_TRAIL c \<longleftrightarrow> c AND 0xc0 = 0x80"

definition utf8_minLegal :: "int list" where
  "utf8_minLegal = [0, 0x80, 0x800, 0x10000]"

definition utf8_errorValue :: "int list" where
  "utf8_errorValue = [0x15, 0x9f, 0xffff, 0x10ffff, 0x3ffffff, 0x7fffffff]"

text \<open>A buffer is read by a function that fails outside of it.\<close>

type_synonym reader = "nat \<Rightarrow> int res"

definition buffer :: "ustring \<Rightarrow> reader" where
  "buffer s i = (if i < length s then Inr (s ! i) else Inl (OutOfBounds ''s[i]''))"

text \<open>One trail byte: the code point so far, the position and what is illegal.\<close>

definition trail_byte :: "reader \<Rightarrow> nat \<times> int \<times> int \<Rightarrow> (nat \<times> int \<times> int) res" where
  "trail_byte s = (\<lambda>(i, c, illegal). bindR (s i) (\<lambda>trail.
     Inr (i + 1, (push_bit 6 c) OR (trail AND 0x3f), illegal OR ((trail AND 0xc0) XOR 0x80))))"

definition trail_bytes :: "reader \<Rightarrow> nat \<Rightarrow> nat \<Rightarrow> int \<Rightarrow> (nat \<times> int \<times> int) res" where
  "trail_bytes s count i c =
     (if count \<ge> 4 then Inr (i, c, 1)
      else if count = 3 then
        bindR (s i) (\<lambda>trail.
          let c1 = (push_bit 6 c) OR (trail AND 0x3f) in
          if c1 < 0x110 then
            bindR (trail_byte s (i + 1, c1, (trail AND 0xc0) XOR 0x80)) (trail_byte s)
          else Inr (i + 1, c1, 1))
      else if count = 2 then bindR (trail_byte s (i, c, 0)) (trail_byte s)
      else trail_byte s (i, c, 0))"

fun skip_trails :: "reader \<Rightarrow> nat \<Rightarrow> nat \<Rightarrow> (nat \<times> nat) res" where
  "skip_trails s i 0 = Inr (i, 0)"
| "skip_trails s i (Suc count) =
     bindR (s i) (\<lambda>b. if CBU8_IS_TRAIL b then skip_trails s (i + 1) count else Inr (i, Suc count))"

definition utf8_nextCharSafeBody :: "reader \<Rightarrow> nat \<Rightarrow> nat \<Rightarrow> int \<Rightarrow> int \<Rightarrow> (int \<times> nat) res" where
  "utf8_nextCharSafeBody s pi len c strict =
     (let count = CBU8_COUNT_TRAIL_BYTES c in
      if pi + count \<le> len then
        if count = 0 then Inr (if strict \<ge> 0 then 0x15 else CBU_SENTINEL, pi)
        else bindR (trail_bytes s count pi (CBU8_MASK_LEAD_BYTE c count)) (\<lambda>(i, c1, illegal).
          if illegal \<noteq> 0 \<or> c1 < utf8_minLegal ! count \<or> (CBU_IS_SURROGATE c1 \<and> strict \<noteq> - 2) then
            bindR (skip_trails s pi count) (\<lambda>(i', count').
              Inr (if strict \<ge> 0 then utf8_errorValue ! (count - count') else CBU_SENTINEL, i'))
          else if strict > 0 \<and> CBU_IS_UNICODE_NONCHAR c1 then Inr (utf8_errorValue ! count, i)
          else Inr (c1, i))
      else
        bindR (skip_trails s pi (len - pi)) (\<lambda>(i', _).
          Inr (if strict \<ge> 0 then utf8_errorValue ! (i' - pi) else CBU_SENTINEL, i')))"

definition CBU8_NEXT :: "reader \<Rightarrow> nat \<Rightarrow> nat \<Rightarrow> (int \<times> nat) res" where
  "CBU8_NEXT s i len =
     bindR (s i) (\<lambda>c.
       if c \<ge> 0x80 then
         if CBU8_IS_LEAD c then utf8_nextCharSafeBody s (i + 1) len c (- 1)
         else Inr (CBU_SENTINEL, i + 1)
       else Inr (c, i + 1))"

definition CBU8_APPEND_UNSAFE :: "int \<Rightarrow> ustring" where
  "CBU8_APPEND_UNSAFE c =
     (let u = c mod 2 ^ 32 in
      if u \<le> 0x7f then [c mod 256]
      else if u \<le> 0x7ff then [((drop_bit 6 c) OR 0xc0) mod 256, ((c AND 0x3f) OR 0x80) mod 256]
      else if u \<le> 0xffff then
        [((drop_bit 12 c) OR 0xe0) mod 256, (((drop_bit 6 c) AND 0x3f) OR 0x80) mod 256, ((c AND 0x3f) OR 0x80) mod 256]
      else
        [((drop_bit 18 c) OR 0xf0) mod 256, (((drop_bit 12 c) AND 0x3f) OR 0x80) mod 256,
         (((drop_bit 6 c) AND 0x3f) OR 0x80) mod 256, ((c AND 0x3f) OR 0x80) mod 256])"

section \<open>UTF-16\<close>

definition CBU16_IS_TRAIL :: "int \<Rightarrow> bool" where
  "CBU16_IS_TRAIL c \<longleftrightarrow> (c mod 2 ^ 32) AND 0xfffffc00 = 0xdc00"

definition CBU16_IS_SURROGATE_LEAD :: "int \<Rightarrow> bool" where
  "CBU16_IS_SURROGATE_LEAD c \<longleftrightarrow> c AND 0x400 = 0"

definition CBU16_GET_SUPPLEMENTARY :: "int \<Rightarrow> int \<Rightarrow> int" where
  "CBU16_GET_SUPPLEMENTARY lead trail =
     (push_bit 10 lead + trail - (push_bit 10 0xd800 + 0xdc00 - 0x10000)) mod 2 ^ 32"

definition CBU16_LENGTH :: "int \<Rightarrow> nat" where
  "CBU16_LENGTH c = (if c \<le> 0xffff then 1 else 2)"

definition CBU16_APPEND_UNSAFE :: "int \<Rightarrow> ustring" where
  "CBU16_APPEND_UNSAFE c =
     (if c \<le> 0xffff then [c mod 2 ^ 16]
      else [(drop_bit 10 c + 0xd7c0) mod 2 ^ 16, ((c AND 0x3ff) OR 0xdc00) mod 2 ^ 16])"

section \<open>Characters\<close>

definition IsValidCodepoint :: "int \<Rightarrow> bool" where
  "IsValidCodepoint code_point \<longleftrightarrow> code_point < 0xD800 \<or> (code_point \<ge> 0xE000 \<and> code_point \<le> 0x10FFFF)"

definition IsValidCharacter :: "int \<Rightarrow> bool" where
  "IsValidCharacter code_point \<longleftrightarrow>
     code_point < 0xD800 \<or> (code_point \<ge> 0xE000 \<and> code_point < 0xFDD0) \<or>
     (code_point > 0xFDEF \<and> code_point \<le> 0x10FFFF \<and> code_point AND 0xFFFE \<noteq> 0xFFFE)"

text \<open>A character is read from a position; the answer is whether it is valid, its last position and its code point.\<close>

definition ReadUnicodeCharacter8 :: "reader \<Rightarrow> nat \<Rightarrow> nat \<Rightarrow> (bool \<times> nat \<times> int) res" where
  "ReadUnicodeCharacter8 src src_len char_index =
     bindR (CBU8_NEXT src char_index src_len) (\<lambda>(code_point, i).
       Inr (IsValidCodepoint (code_point mod 2 ^ 32), i - 1, code_point mod 2 ^ 32))"

definition ReadUnicodeCharacter16 :: "reader \<Rightarrow> nat \<Rightarrow> nat \<Rightarrow> (bool \<times> nat \<times> int) res" where
  "ReadUnicodeCharacter16 src src_len char_index =
     bindR (src char_index) (\<lambda>u.
       if CBU_IS_SURROGATE u then
         if \<not> CBU16_IS_SURROGATE_LEAD u \<or> char_index + 1 \<ge> src_len then Inr (False, char_index, u)
         else bindR (src (char_index + 1)) (\<lambda>v.
           if \<not> CBU16_IS_TRAIL v then Inr (False, char_index, u)
           else let c = CBU16_GET_SUPPLEMENTARY u v in Inr (IsValidCodepoint c, char_index + 1, c))
       else Inr (IsValidCodepoint u, char_index, u))"

definition ReadUnicodeCharacter32 :: "reader \<Rightarrow> nat \<Rightarrow> nat \<Rightarrow> (bool \<times> nat \<times> int) res" where
  "ReadUnicodeCharacter32 src src_len char_index =
     bindR (src char_index) (\<lambda>u. Inr (IsValidCodepoint (u mod 2 ^ 32), char_index, u mod 2 ^ 32))"

definition WriteUnicodeCharacter8 :: "int \<Rightarrow> ustring \<Rightarrow> nat \<times> ustring" where
  "WriteUnicodeCharacter8 code_point output =
     (if code_point \<le> 0x7f then (1, output @ [code_point])
      else let units = CBU8_APPEND_UNSAFE code_point in (length units, output @ units))"

definition WriteUnicodeCharacter16 :: "int \<Rightarrow> ustring \<Rightarrow> nat \<times> ustring" where
  "WriteUnicodeCharacter16 code_point output =
     (if CBU16_LENGTH code_point = 1 then (1, output @ [code_point mod 2 ^ 16])
      else (2, output @ CBU16_APPEND_UNSAFE code_point))"

definition WriteUnicodeCharacter32 :: "int \<Rightarrow> ustring \<Rightarrow> nat \<times> ustring" where
  "WriteUnicodeCharacter32 code_point output = (1, output @ [code_point])"

section \<open>Conversions\<close>

text \<open>
  The turns of the loop are bounded by the length of the source: each turn reads one unit at least
  (law \<open>read_sound\<close> of the locale \<open>unicode_reader\<close>).
\<close>

fun convert_loop :: "(nat \<Rightarrow> nat \<Rightarrow> (bool \<times> nat \<times> int) res) \<Rightarrow> (int \<Rightarrow> ustring \<Rightarrow> nat \<times> ustring) \<Rightarrow>
    nat \<Rightarrow> nat \<Rightarrow> nat \<Rightarrow> bool \<Rightarrow> ustring \<Rightarrow> (bool \<times> ustring) res" where
  "convert_loop rd wr len 0 i success output = Inr (success, output)"
| "convert_loop rd wr len (Suc turns) i success output =
     (if i < len then
        bindR (rd len i) (\<lambda>(ok, last_index, code_point).
          if ok then convert_loop rd wr len turns (last_index + 1) success (snd (wr code_point output))
          else convert_loop rd wr len turns (last_index + 1) False (snd (wr 0xFFFD output)))
      else Inr (success, output))"

definition ConvertUnicode :: "(nat \<Rightarrow> nat \<Rightarrow> (bool \<times> nat \<times> int) res) \<Rightarrow> (int \<Rightarrow> ustring \<Rightarrow> nat \<times> ustring) \<Rightarrow>
    nat \<Rightarrow> (bool \<times> ustring) res" where
  "ConvertUnicode rd wr src_len = convert_loop rd wr src_len src_len 0 True []"

definition UTF8ToUTF16 :: "ustring \<Rightarrow> (bool \<times> ustring) res" where
  "UTF8ToUTF16 src = ConvertUnicode (ReadUnicodeCharacter8 (buffer src)) WriteUnicodeCharacter16 (length src)"

definition UTF16ToUTF8 :: "ustring \<Rightarrow> (bool \<times> ustring) res" where
  "UTF16ToUTF8 src = ConvertUnicode (ReadUnicodeCharacter16 (buffer src)) WriteUnicodeCharacter8 (length src)"

definition UTF8ToWide :: "ustring \<Rightarrow> (bool \<times> ustring) res" where
  "UTF8ToWide src = ConvertUnicode (ReadUnicodeCharacter8 (buffer src)) WriteUnicodeCharacter32 (length src)"

definition WideToUTF8 :: "ustring \<Rightarrow> (bool \<times> ustring) res" where
  "WideToUTF8 src = ConvertUnicode (ReadUnicodeCharacter32 (buffer src)) WriteUnicodeCharacter8 (length src)"

definition WideToUTF16 :: "ustring \<Rightarrow> (bool \<times> ustring) res" where
  "WideToUTF16 src = ConvertUnicode (ReadUnicodeCharacter32 (buffer src)) WriteUnicodeCharacter16 (length src)"

definition UTF16ToWide :: "ustring \<Rightarrow> (bool \<times> ustring) res" where
  "UTF16ToWide src = ConvertUnicode (ReadUnicodeCharacter16 (buffer src)) WriteUnicodeCharacter32 (length src)"

definition ASCIIToWide :: "ustring \<Rightarrow> ustring res" where
  "ASCIIToWide ascii = bindR (dcheck (IsStringASCII 8 ascii) ''IsStringASCII(ascii)'') (\<lambda>_. Inr ascii)"

definition ASCIIToUTF16 :: "ustring \<Rightarrow> ustring res" where
  "ASCIIToUTF16 ascii = bindR (dcheck (IsStringASCII 8 ascii) ''IsStringASCII(ascii)'') (\<lambda>_. Inr ascii)"

text \<open>\<open>IsStringUTF8\<close> of \<open>string_util.cc\<close>; the turns are bounded in the same way.\<close>

fun is_utf8_loop :: "ustring \<Rightarrow> nat \<Rightarrow> nat \<Rightarrow> bool res" where
  "is_utf8_loop str 0 char_index = Inr True"
| "is_utf8_loop str (Suc turns) char_index =
     (if char_index < length str then
        bindR (CBU8_NEXT (buffer str) char_index (length str)) (\<lambda>(code_point, i).
          if \<not> IsValidCharacter (code_point mod 2 ^ 32) then Inr False else is_utf8_loop str turns i)
      else Inr True)"

definition IsStringUTF8 :: "ustring \<Rightarrow> bool res" where
  "IsStringUTF8 str = is_utf8_loop str (length str) 0"

section \<open>Bits\<close>

lemma and_low: "x AND (2 ^ n - 1) = x mod 2 ^ n" for x :: int
  using take_bit_eq_mask [of n x] by (simp add: take_bit_eq_mod mask_eq_exp_minus_1)

lemma and_not_low: "x AND NOT (mask n) = x - x mod 2 ^ n" for x :: int
proof -
  have "(x AND mask n) OR (x AND NOT (mask n)) = x" by (simp flip: bit.conj_disj_distrib)
  moreover have "(x AND mask n) AND (x AND NOT (mask n)) = 0"
    by (metis and.assoc and.left_commute and.right_neutral and_zero_eq bit.conj_cancel_right)
  ultimately have "(x AND mask n) + (x AND NOT (mask n)) = x" using plus_and_or [of "x AND mask n" "x AND NOT (mask n)"] by simp
  then show ?thesis by (simp add: take_bit_eq_mod flip: take_bit_eq_mask)
qed

lemma and_high: "0 \<le> x \<Longrightarrow> x < 2 ^ m \<Longrightarrow> x AND (mask m AND NOT (mask n)) = x - x mod 2 ^ n" for x :: int
proof -
  assume "0 \<le> x" "x < 2 ^ m"
  then have "x AND mask m = x" by (simp add: take_bit_int_eq_self flip: take_bit_eq_mask)
  then show ?thesis unfolding and.assoc [symmetric] by (simp only: and_not_low)
qed

lemma or_add: "0 \<le> t \<Longrightarrow> t < 2 ^ n \<Longrightarrow> (push_bit n c) OR t = c * 2 ^ n + (t::int)"
proof -
  assume t: "0 \<le> t" "t < 2 ^ n"
  then have "t = t AND mask n" by (simp add: take_bit_int_eq_self flip: take_bit_eq_mask)
  moreover have "push_bit n c AND mask n = 0" by (simp add: take_bit_push_bit flip: take_bit_eq_mask)
  ultimately have "push_bit n c AND t = 0" by (metis and.assoc and.commute and_zero_eq)
  then show ?thesis using plus_and_or [of "push_bit n c" t] by (simp add: push_bit_eq_mult)
qed

lemma masks:
  "x AND 0x3f = x mod 64" "x AND 0x3ff = x mod 1024"
  "0 \<le> b \<Longrightarrow> b < 256 \<Longrightarrow> b AND 0xc0 = b - b mod 64"
  "0 \<le> b \<Longrightarrow> b < 2 ^ 32 \<Longrightarrow> b AND 0xfffff800 = b - b mod 2048"
  "0 \<le> b \<Longrightarrow> b < 2 ^ 32 \<Longrightarrow> b AND 0xfffffc00 = b - b mod 1024"
  for x b :: int
  using and_low [of x 6] and_low [of x 10] and_high [of b 8 6] and_high [of b 32 11] and_high [of b 32 10]
  by (simp_all add: mask_eq_exp_minus_1)

lemma marks:
  "0 \<le> t \<Longrightarrow> t < 64 \<Longrightarrow> t OR 0x80 = 0x80 + t" "0 \<le> t \<Longrightarrow> t < 32 \<Longrightarrow> t OR 0xc0 = 0xc0 + t"
  "0 \<le> t \<Longrightarrow> t < 16 \<Longrightarrow> t OR 0xe0 = 0xe0 + t" "0 \<le> t \<Longrightarrow> t < 8 \<Longrightarrow> t OR 0xf0 = 0xf0 + t"
  "0 \<le> t \<Longrightarrow> t < 1024 \<Longrightarrow> t OR 0xdc00 = 0xdc00 + t"
  for t :: int
  using or_add [of t 6 2] or_add [of t 6 3] or_add [of t 5 7] or_add [of t 4 15] or_add [of t 10 55]
  by (simp_all add: push_bit_eq_mult or.commute)

lemma sub_mod_eq: "0 < n \<Longrightarrow> b - b mod n = k * n \<longleftrightarrow> k * n \<le> b \<and> b < k * n + n" for b n k :: int
proof
  assume n: "0 < n" and "b - b mod n = k * n"
  then show "k * n \<le> b \<and> b < k * n + n" using pos_mod_bound [OF n, of b] pos_mod_sign [OF n, of b] by linarith
next
  assume n: "0 < n" and b: "k * n \<le> b \<and> b < k * n + n"
  then have "b div n = k" by (intro int_div_pos_eq [of _ _ _ "b - k * n"]) auto
  then show "b - b mod n = k * n" by (simp add: minus_mod_eq_div_mult)
qed

lemma add_mod: "0 \<le> t \<Longrightarrow> t < n \<Longrightarrow> (k * n + t) mod n = t" for t n k :: int
  by (simp add: mod_pos_pos_trivial)

lemma div_step: "0 < n \<Longrightarrow> c div (n * 64) * 64 + c div n mod 64 = c div n" for c n :: int
  using zdiv_zmult2_eq [of 64 c n] div_mult_mod_eq [of "c div n" 64] by simp

lemma trail_iff: "0 \<le> b \<Longrightarrow> b < 256 \<Longrightarrow> CBU8_IS_TRAIL b \<longleftrightarrow> 0x80 \<le> b \<and> b < 0xc0"
  using sub_mod_eq [of 64 b 2] by (simp add: CBU8_IS_TRAIL_def masks)

lemma surrogate_iff: "0 \<le> c \<Longrightarrow> c < 2 ^ 32 \<Longrightarrow> CBU_IS_SURROGATE c \<longleftrightarrow> 0xd800 \<le> c \<and> c \<le> 0xdfff"
  using sub_mod_eq [of 2048 c 27] by (auto simp: CBU_IS_SURROGATE_def masks)

lemma trail16_iff: "0 \<le> c \<Longrightarrow> c < 2 ^ 32 \<Longrightarrow> CBU16_IS_TRAIL c \<longleftrightarrow> 0xdc00 \<le> c \<and> c \<le> 0xdfff"
  using sub_mod_eq [of 1024 c 55] by (auto simp: CBU16_IS_TRAIL_def masks)

lemma lead16_iff: "0xd800 \<le> c \<Longrightarrow> c \<le> 0xdfff \<Longrightarrow> CBU16_IS_SURROGATE_LEAD c \<longleftrightarrow> c \<le> 0xdbff"
proof -
  assume c: "0xd800 \<le> c" "c \<le> 0xdfff"
  have "c AND 0x400 = 0 \<longleftrightarrow> \<not> bit c 10" using and_exp_eq_0_iff_not_bit [of c 10] by simp
  also have "\<dots> \<longleftrightarrow> even (c div 1024)" by (simp add: bit_iff_odd)
  also have "c div 1024 = (if c \<le> 0xdbff then 54 else 55)"
    using int_div_pos_eq [of c 1024 54 "c - 54 * 1024"] int_div_pos_eq [of c 1024 55 "c - 55 * 1024"] c by auto
  finally show ?thesis by (simp add: CBU16_IS_SURROGATE_LEAD_def)
qed

section \<open>Encodings\<close>

abbreviation utf8 :: "int \<Rightarrow> ustring" where "utf8 \<equiv> CBU8_APPEND_UNSAFE"

lemma utf8_eq:
  assumes "0 \<le> c" "c \<le> 0x10ffff"
  shows "utf8 c =
    (if c < 0x80 then [c]
     else if c < 0x800 then [0xc0 + c div 64, 0x80 + c mod 64]
     else if c < 0x10000 then [0xe0 + c div 4096, 0x80 + c div 64 mod 64, 0x80 + c mod 64]
     else [0xf0 + c div 262144, 0x80 + c div 4096 mod 64, 0x80 + c div 64 mod 64, 0x80 + c mod 64])"
proof -
  have r: "c mod 4294967296 = c" using assms by simp
  have m: "0 \<le> t mod 64" "t mod 64 < 64" for t :: int by simp_all
  consider "c < 0x80" | "0x80 \<le> c" "c < 0x800" | "0x800 \<le> c" "c < 0x10000" | "0x10000 \<le> c" by linarith
  then show ?thesis
  proof cases
    case 1
    then show ?thesis using assms by (simp add: CBU8_APPEND_UNSAFE_def r)
  next
    case 2
    then have "0 \<le> c div 64" "c div 64 < 32" by auto
    then show ?thesis using 2 m [of c] by (simp add: CBU8_APPEND_UNSAFE_def r drop_bit_eq_div masks marks Let_def)
  next
    case 3
    then have "0 \<le> c div 4096" "c div 4096 < 16" by auto
    then show ?thesis using 3 m [of c] m [of "c div 64"] by (simp add: CBU8_APPEND_UNSAFE_def r drop_bit_eq_div masks marks Let_def)
  next
    case 4
    then have "0 \<le> c div 262144" "c div 262144 < 8" using assms by auto
    then show ?thesis using 4 m [of c] m [of "c div 64"] m [of "c div 4096"]
      by (simp add: CBU8_APPEND_UNSAFE_def r drop_bit_eq_div masks marks Let_def)
  qed
qed

lemma count_trails:
  "0 \<le> b \<Longrightarrow> b < 256 \<Longrightarrow> CBU8_COUNT_TRAIL_BYTES b =
    (if b < 0xc0 then 0 else if b < 0xe0 then 1 else if b < 0xf0 then 2 else if b < 0xf8 then 3 else if b < 0xfc then 4
     else if b < 0xfe then 5 else 0)"
proof -
  assume b: "0 \<le> b" "b < 256"
  then obtain k where k: "b = int k" "k < 256" by (metis int_nat_eq nat_less_iff of_nat_numeral zero_le_imp_eq_int of_nat_less_iff)
  consider "k < 192" | "192 \<le> k" "k < 224" | "224 \<le> k" "k < 240" | "240 \<le> k" "k < 245" | "245 \<le> k" "k < 248" |
    "248 \<le> k" "k < 252" | "252 \<le> k" "k < 254" | "254 \<le> k" by linarith
  then show ?thesis
    by cases (use k(2) in \<open>simp_all add: k(1) CBU8_COUNT_TRAIL_BYTES_def utf8_countTrailBytes_def nth_append less_diff_conv2\<close>)
qed

lemma mask_lead: "k \<le> 6 \<Longrightarrow> CBU8_MASK_LEAD_BYTE b k = b mod 2 ^ (6 - k)"
  by (simp add: CBU8_MASK_LEAD_BYTE_def and_low)

lemma lead_iff: "0 \<le> b \<Longrightarrow> b < 256 \<Longrightarrow> CBU8_IS_LEAD b \<longleftrightarrow> 0xc0 \<le> b \<and> b < 0xfe"
proof -
  assume b: "0 \<le> b" "b < 256"
  have "(b - 192) mod 256 = (if b < 192 then b + 64 else b - 192)"
  proof (cases "b < 192")
    case True
    have "(b - 192) mod 256 = (b - 192 + 256) mod 256" by (rule mod_add_self2 [symmetric])
    also have "\<dots> = b - 192 + 256" using True b by (intro mod_pos_pos_trivial) auto
    finally show ?thesis using True by simp
  qed (use b in simp)
  then show ?thesis using b by (auto simp: CBU8_IS_LEAD_def)
qed

text \<open>What \<open>CBU8_NEXT\<close> makes of the encoding of a code point.\<close>

lemma trail_byte_eq:
  assumes "s i = Inr b" "0 \<le> b" "b < 256"
  shows "trail_byte s (i, c, illegal) = Inr (i + 1, c * 64 + b mod 64, illegal OR ((b - b mod 64) XOR 0x80))"
  using assms or_add [of "b mod 64" 6 c] by (simp add: trail_byte_def masks)

lemma trail_byte_ok:
  assumes "s i = Inr (0x80 + t)" "0 \<le> t" "t < 64"
  shows "trail_byte s (i, c, illegal) = Inr (i + 1, c * 64 + t, illegal)"
proof -
  have "(0x80 + t) mod 64 = t" using add_mod [of t 64 2] assms(2,3) by simp
  then show ?thesis using trail_byte_eq [of s i "0x80 + t"] assms by simp
qed

lemma next_utf8:
  assumes c: "0 \<le> c" "c \<le> 0x10ffff" "IsValidCodepoint c"
    and s: "\<And>k. k < length (utf8 c) \<Longrightarrow> s (i + k) = Inr (utf8 c ! k)" "i + length (utf8 c) \<le> len"
  shows "CBU8_NEXT s i len = Inr (c, i + length (utf8 c))"
proof -
  note e = utf8_eq [OF c(1,2)]
  have m: "0 \<le> t mod 64" "t mod 64 < 64" for t :: int by simp_all
  have sur: "\<not> CBU_IS_SURROGATE c" using c surrogate_iff [of c] by (auto simp: IsValidCodepoint_def)
  consider "c < 0x80" | "0x80 \<le> c" "c < 0x800" | "0x800 \<le> c" "c < 0x10000" | "0x10000 \<le> c" by linarith
  then show ?thesis
  proof cases
    case 1
    then show ?thesis using s(1) [of 0] by (simp add: e CBU8_NEXT_def)
  next
    case 2
    let ?a = "c div 64"
    have a: "2 \<le> ?a" "?a < 32" using 2 by auto
    then have k: "CBU8_COUNT_TRAIL_BYTES (192 + ?a) = 1" "CBU8_IS_LEAD (192 + ?a)"
      by (subst count_trails lead_iff; simp)+
    have l: "(192 + ?a) mod 32 = ?a" using add_mod [of ?a 32 6] a by simp
    have "trail_byte s (i + 1, ?a, 0) = Inr (i + 2, c, 0)"
      using s(1) [of 1] 2 m [of c] trail_byte_ok [of s "i + 1" "c mod 64" ?a 0] by (simp add: e)
    then show ?thesis using s(1) [of 0] s(2) 2 a k l sur
      by (simp add: e CBU8_NEXT_def utf8_nextCharSafeBody_def trail_bytes_def mask_lead utf8_minLegal_def Let_def)
  next
    case 3
    let ?a = "c div 4096" and ?b = "c div 64 mod 64"
    have a: "0 \<le> ?a" "?a < 16" using 3 by auto
    then have k: "CBU8_COUNT_TRAIL_BYTES (224 + ?a) = 2" "CBU8_IS_LEAD (224 + ?a)"
      by (subst count_trails lead_iff; simp)+
    have l: "(224 + ?a) mod 16 = ?a" using add_mod [of ?a 16 14] a by simp
    have "trail_byte s (i + 1, ?a, 0) = Inr (i + 2, ?a * 64 + ?b, 0)"
      using s(1) [of 1] 3 m [of "c div 64"] trail_byte_ok [of s "i + 1" ?b ?a 0] by (simp add: e)
    moreover have "?a * 64 + ?b = c div 64" using div_step [of 64 c] by simp
    moreover have "trail_byte s (i + 2, c div 64, 0) = Inr (i + 3, c, 0)"
      using s(1) [of 2] 3 m [of c] trail_byte_ok [of s "i + 2" "c mod 64" "c div 64" 0] by (simp add: e)
    ultimately show ?thesis using s(1) [of 0] s(2) 3 a k l sur
      by (simp add: e CBU8_NEXT_def utf8_nextCharSafeBody_def trail_bytes_def mask_lead utf8_minLegal_def Let_def)
  next
    case 4
    let ?a = "c div 262144" and ?b = "c div 4096 mod 64" and ?d = "c div 64 mod 64"
    have a: "0 \<le> ?a" "?a < 5" using 4 c by auto
    then have k: "CBU8_COUNT_TRAIL_BYTES (240 + ?a) = 3" "CBU8_IS_LEAD (240 + ?a)"
      by (subst count_trails lead_iff; simp)+
    have l: "(240 + ?a) mod 8 = ?a" using add_mod [of ?a 8 30] a by simp
    have b: "?a * 64 + ?b = c div 4096" using div_step [of 4096 c] by simp
    have "c div 4096 < 0x110" using c by auto
    moreover have "(push_bit 6 ?a) OR ((128 + ?b) AND 63) = c div 4096"
    proof -
      have "(128 + ?b) mod 64 = ?b" using add_mod [of ?b 64 2] by simp
      then show ?thesis using or_add [of ?b 6 ?a] b by (simp add: masks)
    qed
    moreover have "((128 + ?b) AND 192) XOR 128 = 0"
    proof -
      have "(128 + ?b) mod 64 = ?b" using add_mod [of ?b 64 2] by simp
      then show ?thesis using masks(3) [of "128 + ?b"] m [of "c div 4096"] by simp
    qed
    moreover have "trail_byte s (i + 2, c div 4096, 0) = Inr (i + 3, c div 64, 0)"
    proof -
      have "c div 4096 * 64 + ?d = c div 64" using div_step [of 64 c] by simp
      then show ?thesis using s(1) [of 2] 4 m [of "c div 64"] trail_byte_ok [of s "i + 2" ?d "c div 4096" 0] by (simp add: e)
    qed
    moreover have "trail_byte s (i + 3, c div 64, 0) = Inr (i + 4, c, 0)"
      using s(1) [of 3] 4 m [of c] trail_byte_ok [of s "i + 3" "c mod 64" "c div 64" 0] by (simp add: e)
    ultimately show ?thesis using s(1) [of 0] s(1) [of 1] s(2) 4 a k l sur
      by (simp add: e CBU8_NEXT_def utf8_nextCharSafeBody_def trail_bytes_def mask_lead utf8_minLegal_def Let_def)
  qed
qed

end
