(* ===== verification/Unicode.thy ===== *)
theory Unicode imports Utf begin

text \<open>
  What the conversions of \<open>Utf\<close> compute: the encodings of UTF-8 and UTF-16 as functions on code points, and
  the loop of the conversions for any encoding (a locale).
\<close>

unbundle bit_operations_syntax

section \<open>What is read is what was encoded\<close>

text \<open>Whatever \<open>CBU8_NEXT\<close> accepts is the encoding of what it returns.\<close>

lemma skip_trails_bounds:
  assumes "\<And>k. i \<le> k \<Longrightarrow> k < i + n \<Longrightarrow> \<exists>b. s k = Inr b"
  shows "\<exists>j m. skip_trails s i n = Inr (j, m) \<and> i \<le> j \<and> j \<le> i + n"
  using assms
proof (induction n arbitrary: i)
  case (Suc n)
  obtain b where b: "s i = Inr b" using Suc(2) [of i] by auto
  have "\<exists>j m. skip_trails s (Suc i) n = Inr (j, m) \<and> Suc i \<le> j \<and> j \<le> Suc i + n" using Suc(2) by (intro Suc(1)) auto
  then show ?case using b by auto
qed simp

lemma xor_zero: "a XOR b = 0 \<longleftrightarrow> a = (b::int)"
  by (metis xor.assoc xor.left_neutral xor.right_neutral xor_self_eq)

lemma trail_mark: "0 \<le> b \<Longrightarrow> b < 256 \<Longrightarrow> (b - b mod 64) XOR 0x80 = 0 \<longleftrightarrow> b = 0x80 + b mod 64" for b :: int
  by (auto simp: xor_zero)

lemma div_mod_digits: "0 \<le> y \<Longrightarrow> y < n \<Longrightarrow> (x * n + y) div n = x \<and> (x * n + y) mod n = y" for x y n :: int
  by (simp add: div_pos_pos_trivial)

lemma utf8_two: "2 \<le> x \<Longrightarrow> x < 32 \<Longrightarrow> 0 \<le> y \<Longrightarrow> y < 64 \<Longrightarrow> utf8 (x * 64 + y) = [192 + x, 128 + y]"
  using div_mod_digits [of y 64 x] utf8_eq [of "x * 64 + y"] by simp

lemma utf8_three:
  assumes "0 \<le> x" "x < 16" "0 \<le> y" "y < 64" "0 \<le> z" "z < 64" "0x800 \<le> (x * 64 + y) * 64 + z"
  shows "utf8 ((x * 64 + y) * 64 + z) = [224 + x, 128 + y, 128 + z]"
proof -
  let ?c = "(x * 64 + y) * 64 + z"
  have d: "?c div 64 = x * 64 + y" "?c mod 64 = z" using div_mod_digits [of z 64 "x * 64 + y"] assms by simp_all
  then have "?c div 4096 = x" "?c div 64 mod 64 = y"
    using zdiv_zmult2_eq [of 64 ?c 64] div_mod_digits [of y 64 x] assms by simp_all
  then show ?thesis using utf8_eq [of ?c] d assms by simp
qed

lemma utf8_four:
  assumes "0 \<le> w" "0 \<le> x" "x < 64" "0 \<le> y" "y < 64" "0 \<le> z" "z < 64"
    "0x10000 \<le> ((w * 64 + x) * 64 + y) * 64 + z" "((w * 64 + x) * 64 + y) * 64 + z \<le> 0x10ffff"
  shows "utf8 (((w * 64 + x) * 64 + y) * 64 + z) = [240 + w, 128 + x, 128 + y, 128 + z]"
proof -
  define c where "c = ((w * 64 + x) * 64 + y) * 64 + z"
  have d: "c div 64 = (w * 64 + x) * 64 + y" "c mod 64 = z"
    unfolding c_def using div_mod_digits [of z 64 "(w * 64 + x) * 64 + y"] assms by simp_all
  then have e: "c div 4096 = w * 64 + x" "c div 64 mod 64 = y"
    using zdiv_zmult2_eq [of 64 c 64] div_mod_digits [of y 64 "w * 64 + x"] assms by simp_all
  then have f: "c div 262144 = w" "c div 4096 mod 64 = x"
    using zdiv_zmult2_eq [of 64 c 4096] div_mod_digits [of x 64 w] assms by simp_all
  have "0x10000 \<le> c" "c \<le> 0x10ffff" using assms by (simp_all add: c_def)
  then have "utf8 c = [240 + w, 128 + x, 128 + y, 128 + z]" using utf8_eq [of c] by (simp add: d(2) e(2) f)
  then show ?thesis by (simp add: c_def)
qed

lemma next_some:
  assumes s: "\<And>k. k < len \<Longrightarrow> \<exists>b. s k = Inr b \<and> 0 \<le> b \<and> b < 256" and i: "i < len"
  obtains (bad) j where "CBU8_NEXT s i len = Inr (- 1, j)" "i < j" "j \<le> len"
  | (good) c where "CBU8_NEXT s i len = Inr (c, i + length (utf8 c))" "0 \<le> c" "c \<le> 0x10ffff" "IsValidCodepoint c"
      "\<And>k. k < length (utf8 c) \<Longrightarrow> s (i + k) = Inr (utf8 c ! k)" "i + length (utf8 c) \<le> len"
proof -
  obtain b where b: "s i = Inr b" "0 \<le> b" "b < 256" using s i by blast
  let ?n = "CBU8_COUNT_TRAIL_BYTES b"
  show ?thesis
  proof (cases "0xc0 \<le> b \<and> b < 0xfe")
    case False
    show ?thesis
    proof (cases "b < 0x80")
      case True
      then have "IsValidCodepoint b" "utf8 b = [b]" using b utf8_eq [of b] by (auto simp: IsValidCodepoint_def)
      then show ?thesis using b i True by (intro good [of b]) (auto simp: CBU8_NEXT_def)
    next
      case False': False
      then have "CBU8_NEXT s i len = Inr (- 1, i + 1)" using b False lead_iff [OF b(2,3)] by (auto simp: CBU8_NEXT_def CBU_SENTINEL_def)
      then show ?thesis using i by (intro bad [of "i + 1"]) auto
    qed
  next
    case lead: True
    then have n0: "CBU8_NEXT s i len = utf8_nextCharSafeBody s (i + 1) len b (- 1)"
      using b lead_iff [OF b(2,3)] by (auto simp: CBU8_NEXT_def)
    have n: "?n \<noteq> 0" using count_trails [OF b(2,3)] lead by auto
    show ?thesis
    proof (cases "i + 1 + ?n \<le> len")
      case False
      obtain j m where j: "skip_trails s (i + 1) (len - (i + 1)) = Inr (j, m)" "i + 1 \<le> j" "j \<le> len"
      proof -
        have "\<exists>j m. skip_trails s (i + 1) (len - (i + 1)) = Inr (j, m) \<and> i + 1 \<le> j \<and> j \<le> i + 1 + (len - (i + 1))"
        proof (rule skip_trails_bounds)
          fix k
          assume "k < i + 1 + (len - (i + 1))"
          then have "k < len" using i by simp
          then show "\<exists>b. s k = Inr b" using s [of k] by blast
        qed
        then show ?thesis using that i by auto
      qed
      then have "CBU8_NEXT s i len = Inr (- 1, j)" using n0 False by (simp add: utf8_nextCharSafeBody_def CBU_SENTINEL_def)
      then show ?thesis using j by (intro bad) auto
    next
      case room: True
      obtain j m where j: "skip_trails s (i + 1) ?n = Inr (j, m)" "i + 1 \<le> j" "j \<le> i + 1 + ?n"
        using skip_trails_bounds [of "i + 1" ?n s] s room by (metis order_less_le_trans)
      have fail: ?thesis if "trail_bytes s ?n (i + 1) (CBU8_MASK_LEAD_BYTE b ?n) = Inr (e, c, x)"
        "x \<noteq> 0 \<or> c < utf8_minLegal ! ?n \<or> CBU_IS_SURROGATE c" for e c x
      proof -
        have "CBU8_NEXT s i len = Inr (- 1, j)"
          using n0 n room that j by (simp add: utf8_nextCharSafeBody_def CBU_SENTINEL_def Let_def)
        then show ?thesis using j room by (intro bad [of j]) auto
      qed
      have ok: "CBU8_NEXT s i len = Inr (c, e)" if "trail_bytes s ?n (i + 1) (CBU8_MASK_LEAD_BYTE b ?n) = Inr (e, c, 0)"
        "\<not> (c < utf8_minLegal ! ?n \<or> CBU_IS_SURROGATE c)" for e c
        using n0 n room that by (simp add: utf8_nextCharSafeBody_def CBU_SENTINEL_def Let_def)
      have byte: "\<exists>t. s k = Inr t \<and> 0 \<le> t \<and> t < 256" if "k < i + 1 + ?n" for k using that room s by simp
      have m: "0 \<le> t mod 64" "t mod 64 < 64" for t :: int by simp_all
      have least: "utf8_minLegal ! Suc 0 = 0x80" "utf8_minLegal ! 2 = 0x800" "utf8_minLegal ! 3 = 0x10000"
        by (simp_all add: utf8_minLegal_def)
      have valid: "IsValidCodepoint c" if "\<not> CBU_IS_SURROGATE c" "0 \<le> c" "c \<le> 0x10ffff" for c
        using that surrogate_iff [of c] by (auto simp: IsValidCodepoint_def)
      consider "b < 0xe0" | "0xe0 \<le> b" "b < 0xf0" | "0xf0 \<le> b" "b < 0xf8" | "0xf8 \<le> b" by linarith
      then show ?thesis
      proof cases
        case 1
        then have n1: "?n = 1" "CBU8_MASK_LEAD_BYTE b 1 = b - 192"
          using count_trails [OF b(2,3)] lead add_mod [of "b - 192" 32 6] by (auto simp: mask_lead)
        obtain t where t: "s (i + 1) = Inr t" "0 \<le> t" "t < 256" using byte [of "i + 1"] n1 by auto
        let ?c = "(b - 192) * 64 + t mod 64"
        have tb: "trail_bytes s ?n (i + 1) (CBU8_MASK_LEAD_BYTE b ?n) = Inr (i + 2, ?c, (t - t mod 64) XOR 0x80)"
          using trail_byte_eq [of s "i + 1" t "b - 192" 0] t n1(2) by (simp add: n1(1) trail_bytes_def)
        show ?thesis
        proof (cases "(t - t mod 64) XOR 0x80 \<noteq> 0 \<or> ?c < utf8_minLegal ! ?n \<or> CBU_IS_SURROGATE ?c")
          case False
          then have t': "t = 128 + t mod 64" and c: "0x80 \<le> ?c" using trail_mark [OF t(2,3)] by (auto simp: n1 least)
          have u: "utf8 ?c = [b, t]" using utf8_two [of "b - 192" "t mod 64"] c 1 lead m [of t] t' by simp
          have "CBU8_NEXT s i len = Inr (?c, i + length (utf8 ?c))" using ok [of "i + 2" ?c] tb False u by simp
          moreover have "?c \<le> 0x10ffff" using 1 m [of t] by simp
          ultimately show ?thesis using valid [of ?c] False c room n1 b t u
            by (intro good [of ?c]) (auto simp: less_Suc_eq_0_disj)
        qed (rule fail [OF tb])
      next
        case 2
        then have n2: "?n = 2" "CBU8_MASK_LEAD_BYTE b 2 = b - 224"
          using count_trails [OF b(2,3)] lead add_mod [of "b - 224" 16 14] by (auto simp: mask_lead)
        obtain t t' where t: "s (i + 1) = Inr t" "0 \<le> t" "t < 256" "s (i + 2) = Inr t'" "0 \<le> t'" "t' < 256"
          using byte [of "i + 1"] byte [of "i + 2"] n2 by auto
        let ?c = "((b - 224) * 64 + t mod 64) * 64 + t' mod 64"
        have tb: "trail_bytes s ?n (i + 1) (CBU8_MASK_LEAD_BYTE b ?n) =
            Inr (i + 3, ?c, ((t - t mod 64) XOR 0x80) OR ((t' - t' mod 64) XOR 0x80))"
          using trail_byte_eq [of s "i + 1" t "b - 224" 0] trail_byte_eq [of s "i + 2" t'] t by (simp add: n2 trail_bytes_def)
        show ?thesis
        proof (cases "((t - t mod 64) XOR 0x80) OR ((t' - t' mod 64) XOR 0x80) \<noteq> 0 \<or> ?c < utf8_minLegal ! ?n \<or> CBU_IS_SURROGATE ?c")
          case False
          then have t': "t = 128 + t mod 64" "t' = 128 + t' mod 64" and c: "0x800 \<le> ?c"
            using trail_mark [OF t(2,3)] trail_mark [OF t(5,6)] by (auto simp: n2 least or_eq_0_iff)
          have u: "utf8 ?c = [b, t, t']" using utf8_three [of "b - 224" "t mod 64" "t' mod 64"] c 2 m [of t] m [of t'] t' by simp
          have "CBU8_NEXT s i len = Inr (?c, i + length (utf8 ?c))" using ok [of "i + 3" ?c] tb False u by simp
          moreover have "?c \<le> 0x10ffff" using 2 m [of t] m [of t'] by simp
          ultimately show ?thesis using valid [of ?c] False c room n2 b t u
            by (intro good [of ?c]) (auto simp: less_Suc_eq_0_disj numeral_2_eq_2)
        qed (rule fail [OF tb])
      next
        case 3
        then have n3: "?n = 3" "CBU8_MASK_LEAD_BYTE b 3 = b - 240"
          using count_trails [OF b(2,3)] lead add_mod [of "b - 240" 8 30] by (auto simp: mask_lead)
        obtain t t' t'' where t: "s (i + 1) = Inr t" "0 \<le> t" "t < 256" "s (i + 2) = Inr t'" "0 \<le> t'" "t' < 256"
          "s (i + 3) = Inr t''" "0 \<le> t''" "t'' < 256"
          using byte [of "i + 1"] byte [of "i + 2"] byte [of "i + 3"] n3 by auto
        let ?a = "(b - 240) * 64 + t mod 64"
        let ?c = "(?a * 64 + t' mod 64) * 64 + t'' mod 64"
        let ?x = "(((t - t mod 64) XOR 0x80) OR ((t' - t' mod 64) XOR 0x80)) OR ((t'' - t'' mod 64) XOR 0x80)"
        have a: "(push_bit 6 (b - 240)) OR (t AND 0x3f) = ?a" "(t AND 0xc0) XOR 0x80 = (t - t mod 64) XOR 0x80"
          using or_add [of "t mod 64" 6 "b - 240"] t by (simp_all add: masks)
        show ?thesis
        proof (cases "?a < 0x110")
          case True
          have tb: "trail_bytes s ?n (i + 1) (CBU8_MASK_LEAD_BYTE b ?n) = Inr (i + 4, ?c, ?x)"
          proof -
            have "trail_byte s (Suc (Suc (Suc i)), c, x) = Inr (i + 4, c * 64 + t'' mod 64, x OR ((t'' - t'' mod 64) XOR 0x80))" for c x
              using trail_byte_eq [of s "i + 3" t'' c x] t by (simp add: numeral_3_eq_3)
            then show ?thesis
              using True a t trail_byte_eq [of s "i + 2" t'] by (simp add: n3 trail_bytes_def Let_def)
          qed
          show ?thesis
          proof (cases "?x \<noteq> 0 \<or> ?c < utf8_minLegal ! ?n \<or> CBU_IS_SURROGATE ?c")
            case False
            then have t': "t = 128 + t mod 64" "t' = 128 + t' mod 64" "t'' = 128 + t'' mod 64" and c: "0x10000 \<le> ?c"
              using trail_mark [OF t(2,3)] trail_mark [OF t(5,6)] trail_mark [OF t(8,9)] by (auto simp: n3 least or_eq_0_iff)
            have c': "?c \<le> 0x10ffff" using True m [of t'] m [of t''] by simp
            have "utf8 ?c = [240 + (b - 240), 128 + t mod 64, 128 + t' mod 64, 128 + t'' mod 64]"
              by (rule utf8_four [OF _ m(1) m(2) m(1) m(2) m(1) m(2) c c']) (use 3 in simp)
            then have u: "utf8 ?c = [b, t, t', t'']" by (simp only: t' [symmetric]) simp
            have x: "CBU8_NEXT s i len = Inr (?c, i + 4)" using ok [of "i + 4" ?c] tb False by simp
            obtain c where eq: "c = ?c" by simp
            note u = u [folded eq] and x = x [folded eq] and c = c [folded eq] c' [folded eq]
            show ?thesis
            proof (rule good [of c])
              show "CBU8_NEXT s i len = Inr (c, i + length (utf8 c))" using x by (simp add: u)
              show "IsValidCodepoint c" using valid [of c] False c eq by simp
              fix k
              assume "k < length (utf8 c)"
              then consider "k = 0" | "k = 1" | "k = 2" | "k = 3" by (fastforce simp: u)
              then show "s (i + k) = Inr (utf8 c ! k)" by cases (use b t in \<open>simp_all add: u\<close>)
            qed (use c room n3 in \<open>simp_all add: u\<close>)
          qed (rule fail [OF tb])
        next
          case False
          then have "trail_bytes s ?n (i + 1) (CBU8_MASK_LEAD_BYTE b ?n) = Inr (i + 2, ?a, 1)"
            using a t by (simp add: n3 trail_bytes_def Let_def)
          then show ?thesis by (rule fail) simp
        qed
      next
        case 4
        then have "?n \<ge> 4" using count_trails [OF b(2,3)] lead by auto
        then have "trail_bytes s ?n (i + 1) (CBU8_MASK_LEAD_BYTE b ?n) = Inr (i + 1, CBU8_MASK_LEAD_BYTE b ?n, 1)"
          by (simp add: trail_bytes_def)
        then show ?thesis by (rule fail) simp
      qed
    qed
  qed
qed

section \<open>The conversions\<close>

text \<open>
  An encoding of code points by units: what a reader finds where a code point is encoded, and that it
  finds nothing else where it succeeds.  The loop of the conversions is correct for any reader with
  these laws and any writer of an encoding.
\<close>

definition valid :: "int \<Rightarrow> bool" where
  "valid c \<longleftrightarrow> 0 \<le> c \<and> IsValidCodepoint c"

definition encode :: "(int \<Rightarrow> ustring) \<Rightarrow> int list \<Rightarrow> ustring" where
  "encode enc cs = concat (map enc cs)"

locale unicode_reader =
  fixes rd :: "ustring \<Rightarrow> nat \<Rightarrow> nat \<Rightarrow> (bool \<times> nat \<times> int) res"
    and enc :: "int \<Rightarrow> ustring"
    and unit :: "int \<Rightarrow> bool"
  assumes enc_nonempty: "valid c \<Longrightarrow> enc c \<noteq> []"
    and enc_units: "valid c \<Longrightarrow> list_all unit (enc c)"
    and reads: "\<lbrakk>valid c; i + length (enc c) \<le> length s; take (length (enc c)) (drop i s) = enc c\<rbrakk>
      \<Longrightarrow> rd s (length s) i = Inr (True, i + length (enc c) - 1, c)"
    and read_sound: "\<lbrakk>list_all unit s; i < length s\<rbrakk> \<Longrightarrow> \<exists>ok j c. rd s (length s) i = Inr (ok, j, c) \<and> i \<le> j \<and> j < length s \<and>
      (ok \<longrightarrow> valid c \<and> j + 1 = i + length (enc c) \<and> take (length (enc c)) (drop i s) = enc c)"
begin

lemma loop_encoded:
  assumes "list_all valid cs" "\<And>c out. valid c \<Longrightarrow> snd (wr c out) = out @ enc' c"
    and "drop i s = encode enc cs" "length cs \<le> turns" "i \<le> length s"
  shows "convert_loop (rd s) wr (length s) turns i ok out = Inr (ok, out @ encode enc' cs)"
  using assms
proof (induction cs arbitrary: i turns out)
  case Nil
  then show ?case by (cases turns) (auto simp: encode_def)
next
  case (Cons c cs)
  obtain n where n: "turns = Suc n" using Cons(5) by (cases turns) auto
  have d: "drop i s = enc c @ encode enc cs" using Cons(4) by (simp add: encode_def)
  then have t: "take (length (enc c)) (drop i s) = enc c" by simp
  have ne: "enc c \<noteq> []" using Cons(2) enc_nonempty by simp
  have len: "i + length (enc c) \<le> length s" using d Cons(6) by (metis add_le_cancel_left le_add1 le_add_diff_inverse length_append length_drop)
  have r: "rd s (length s) i = Inr (True, i + length (enc c) - 1, c)" using reads [OF _ len t] Cons(2) by simp
  have i: "i + length (enc c) - 1 + 1 = i + length (enc c)" "i < length s" using ne len by (cases "enc c"; simp)+
  have "drop (i + length (enc c)) s = encode enc cs" using d by (metis add.commute append_eq_conv_conj drop_drop)
  then have "convert_loop (rd s) wr (length s) n (i + length (enc c)) ok (out @ enc' c) = Inr (ok, (out @ enc' c) @ encode enc' cs)"
    using Cons len by (intro Cons(1)) (auto simp: n)
  then show ?case using i r Cons(2,3) by (simp add: n encode_def)
qed

lemma convert_encoded:
  assumes "list_all valid cs" "\<And>c out. valid c \<Longrightarrow> snd (wr c out) = out @ enc' c"
  shows "ConvertUnicode (rd (encode enc cs)) wr (length (encode enc cs)) = Inr (True, encode enc' cs)"
proof -
  have "length cs \<le> length (encode enc cs)" using assms(1)
  proof (induction cs)
    case (Cons c cs)
    then show ?case using enc_nonempty [of c] by (cases "enc c") (auto simp: encode_def)
  qed simp
  then show ?thesis using loop_encoded [where wr = wr and enc' = enc' and s = "encode enc cs" and i = 0, OF assms] by (simp add: ConvertUnicode_def)
qed

lemma loop_sound:
  assumes "list_all unit s" "\<And>c out. valid c \<Longrightarrow> snd (wr c out) = out @ enc' c" "length s \<le> i + turns" "i \<le> length s"
  shows "\<exists>ok' cs. convert_loop (rd s) wr (length s) turns i ok out = Inr (ok', out @ encode enc' cs) \<and> list_all valid cs \<and>
    (ok' \<longrightarrow> ok \<and> drop i s = encode enc cs)"
  using assms(3,4)
proof (induction turns arbitrary: i ok out)
  case 0
  then show ?case by (intro exI [of _ ok] exI [of _ "[]"]) (simp add: encode_def)
next
  case (Suc n)
  show ?case
  proof (cases "i < length s")
    case True
    then obtain k j c where r: "rd s (length s) i = Inr (k, j, c)" "i \<le> j" "j < length s"
      "k \<longrightarrow> valid c \<and> j + 1 = i + length (enc c) \<and> take (length (enc c)) (drop i s) = enc c"
      using read_sound [OF assms(1)] by blast
    let ?c = "if k then c else 0xFFFD"
    have v: "valid ?c" using r(4) by (auto simp: valid_def IsValidCodepoint_def)
    obtain ok' cs where IH: "convert_loop (rd s) wr (length s) n (j + 1) (ok \<and> k) (out @ enc' ?c) = Inr (ok', (out @ enc' ?c) @ encode enc' cs)"
      "list_all valid cs" "ok' \<longrightarrow> (ok \<and> k) \<and> drop (j + 1) s = encode enc cs"
      using Suc(1) [of "j + 1" "ok \<and> k" "out @ enc' ?c"] r Suc(2) by auto
    have "convert_loop (rd s) wr (length s) (Suc n) i ok out = Inr (ok', out @ encode enc' (?c # cs))"
      using True r(1) IH(1) assms(2) [OF v] by (cases k) (simp_all add: encode_def)
    moreover have "drop i s = encode enc (?c # cs)" if "ok'"
    proof -
      have k: "k" "drop (j + 1) s = encode enc cs" using IH(3) that by auto
      have "drop i s = take (length (enc c)) (drop i s) @ drop (length (enc c)) (drop i s)" by (simp only: append_take_drop_id)
      also have "\<dots> = enc c @ drop (j + 1) s" using r(4) k(1) by (simp add: add.commute)
      finally show ?thesis using k by (simp add: encode_def)
    qed
    ultimately show ?thesis using IH(2,3) v by (intro exI [of _ ok'] exI [of _ "?c # cs"]) auto
  qed (intro exI [of _ ok] exI [of _ "[]"], use Suc in \<open>auto simp: encode_def\<close>)
qed

lemma convert_sound:
  assumes "list_all unit s" "\<And>c out. valid c \<Longrightarrow> snd (wr c out) = out @ enc' c"
  obtains ok cs where "ConvertUnicode (rd s) wr (length s) = Inr (ok, encode enc' cs)" "list_all valid cs" "ok \<Longrightarrow> s = encode enc cs"
  using loop_sound [where wr = wr and enc' = enc' and i = 0 and turns = "length s" and ok = True and out = "[]", OF assms] that by (auto simp: ConvertUnicode_def)

end

text \<open>The three encodings.\<close>

abbreviation byte :: "int \<Rightarrow> bool" where "byte b \<equiv> 0 \<le> b \<and> b < 256"
abbreviation unit16 :: "int \<Rightarrow> bool" where "unit16 u \<equiv> 0 \<le> u \<and> u < 2 ^ 16"
abbreviation unit32 :: "int \<Rightarrow> bool" where "unit32 u \<equiv> - (2 ^ 31) \<le> u \<and> u < 2 ^ 31"

abbreviation utf16 :: "int \<Rightarrow> ustring" where "utf16 \<equiv> CBU16_APPEND_UNSAFE"

lemma valid_range: "valid c \<Longrightarrow> 0 \<le> c \<and> c \<le> 0x10ffff \<and> IsValidCodepoint c"
  by (auto simp: valid_def IsValidCodepoint_def)

lemma take_drop_nth: "take n (drop i s) = e \<Longrightarrow> length e = n \<Longrightarrow> k < n \<Longrightarrow> i + n \<le> length s \<Longrightarrow> s ! (i + k) = e ! k"
  by auto

lemma nth_take_drop: "i + length e \<le> length s \<Longrightarrow> (\<And>k. k < length e \<Longrightarrow> s ! (i + k) = e ! k) \<Longrightarrow> take (length e) (drop i s) = e"
  by (simp add: list_eq_iff_nth_eq)

lemma utf8_bytes: "valid c \<Longrightarrow> list_all byte (utf8 c)"
proof -
  assume "valid c"
  then have c: "0 \<le> c" "c \<le> 0x10ffff" using valid_range by auto
  have m: "0 \<le> t mod 64" "t mod 64 < 64" for t :: int by simp_all
  have "c < 0x800 \<Longrightarrow> c div 64 < 32" "c < 0x10000 \<Longrightarrow> c div 4096 < 16" "c div 262144 < 8" using c by auto
  moreover have "0 \<le> c div 64" "0 \<le> c div 4096" "0 \<le> c div 262144" using c by auto
  ultimately show ?thesis using c m [of c] m [of "c div 64"] m [of "c div 4096"] by (auto simp: utf8_eq)
qed

interpretation utf8: unicode_reader "\<lambda>s. ReadUnicodeCharacter8 (buffer s)" utf8 byte
proof
  fix c i s
  assume c: "valid c" and l: "i + length (utf8 c) \<le> length s" and t: "take (length (utf8 c)) (drop i s) = utf8 c"
  have "CBU8_NEXT (buffer s) i (length s) = Inr (c, i + length (utf8 c))"
    using valid_range [OF c] l take_drop_nth [OF t refl _ l] by (intro next_utf8) (auto simp: buffer_def)
  moreover have "c mod 2 ^ 32 = c" using valid_range [OF c] by simp
  ultimately show "ReadUnicodeCharacter8 (buffer s) (length s) i = Inr (True, i + length (utf8 c) - 1, c)"
    using valid_range [OF c] by (simp add: ReadUnicodeCharacter8_def)
next
  fix s i
  assume s: "list_all byte s" and i: "i < length s"
  have bytes: "\<exists>b. buffer s k = Inr b \<and> 0 \<le> b \<and> b < 256" if "k < length s" for k
    using that s by (simp add: buffer_def list_all_length)
  show "\<exists>ok j c. ReadUnicodeCharacter8 (buffer s) (length s) i = Inr (ok, j, c) \<and> i \<le> j \<and> j < length s \<and>
      (ok \<longrightarrow> valid c \<and> j + 1 = i + length (utf8 c) \<and> take (length (utf8 c)) (drop i s) = utf8 c)"
  proof (rule next_some [of "length s" "buffer s" i])
    fix j
    assume bad: "CBU8_NEXT (buffer s) i (length s) = Inr (- 1, j)" "i < j" "j \<le> length s"
    have "ReadUnicodeCharacter8 (buffer s) (length s) i = Inr (False, j - 1, 0xffffffff)"
      by (simp add: ReadUnicodeCharacter8_def IsValidCodepoint_def bad(1))
    moreover have "i \<le> j - 1" "j - 1 < length s" using bad by auto
    ultimately show ?thesis by blast
  next
    fix c
    assume good: "CBU8_NEXT (buffer s) i (length s) = Inr (c, i + length (utf8 c))" "0 \<le> c" "c \<le> 0x10ffff" "IsValidCodepoint c"
      "\<And>k. k < length (utf8 c) \<Longrightarrow> buffer s (i + k) = Inr (utf8 c ! k)" "i + length (utf8 c) \<le> length s"
    have "c mod 2 ^ 32 = c" using good by simp
    then have "ReadUnicodeCharacter8 (buffer s) (length s) i = Inr (True, i + length (utf8 c) - 1, c)"
      using good by (simp add: ReadUnicodeCharacter8_def)
    moreover have "i \<le> i + length (utf8 c) - 1" "i + length (utf8 c) - 1 + 1 = i + length (utf8 c)"
      using good utf8_eq [of c] by (auto split: if_splits)
    moreover have "take (length (utf8 c)) (drop i s) = utf8 c"
      using good(5,6) by (intro nth_take_drop) (auto simp: buffer_def split: if_splits)
    ultimately show ?thesis using good
      by (intro exI [of _ True] exI [of _ "i + length (utf8 c) - 1"] exI [of _ c]) (auto simp: valid_def)
  qed (use bytes i in auto)
next
  fix c
  assume "valid c"
  then show "utf8 c \<noteq> []" using valid_range utf8_eq [of c] by (auto split: if_splits)
qed (rule utf8_bytes)

lemma utf16_eq:
  assumes "0 \<le> c" "c \<le> 0x10ffff"
  shows "utf16 c = (if c \<le> 0xffff then [c] else [c div 1024 + 0xd7c0, 0xdc00 + c mod 1024])"
proof -
  have "0 \<le> c div 1024" "c div 1024 < 1088" "0 \<le> c mod 1024" "c mod 1024 < 1024" using assms by auto
  then show ?thesis using assms by (simp add: CBU16_APPEND_UNSAFE_def drop_bit_eq_div masks marks)
qed

lemma supplementary:
  assumes "0xd800 \<le> u" "u \<le> 0xdbff" "0xdc00 \<le> v" "v \<le> 0xdfff"
  shows "CBU16_GET_SUPPLEMENTARY u v = (u - 0xd7c0) * 1024 + (v - 0xdc00)"
  using assms by (simp add: CBU16_GET_SUPPLEMENTARY_def push_bit_eq_mult)

lemma read16_pair:
  assumes "0xd800 \<le> u" "u \<le> 0xdbff" "0xdc00 \<le> v" "v \<le> 0xdfff" "i + 1 < length s" "s ! i = u" "s ! (i + 1) = v"
  defines "c \<equiv> (u - 0xd7c0) * 1024 + (v - 0xdc00)"
  shows "ReadUnicodeCharacter16 (buffer s) (length s) i = Inr (True, i + 1, c)" "valid c" "utf16 c = [u, v]"
proof -
  have r: "0x10000 \<le> c" "c \<le> 0x10ffff" using assms by simp_all
  then show v: "valid c" by (simp add: valid_def IsValidCodepoint_def)
  have "CBU_IS_SURROGATE u" "CBU16_IS_SURROGATE_LEAD u" "CBU16_IS_TRAIL v"
    using assms surrogate_iff [of u] lead16_iff [of u] trail16_iff [of v] by auto
  then show "ReadUnicodeCharacter16 (buffer s) (length s) i = Inr (True, i + 1, c)"
    using assms supplementary [OF assms(1-4)] v by (simp add: ReadUnicodeCharacter16_def buffer_def valid_def Let_def)
  have "c div 1024 = u - 0xd7c0 \<and> c mod 1024 = v - 0xdc00" unfolding c_def by (rule div_mod_digits) (use assms in simp_all)
  then show "utf16 c = [u, v]" using utf16_eq [of c] r by simp
qed

lemma read16_single:
  assumes "0 \<le> u" "u \<le> 0xffff" "u < 0xd800 \<or> 0xdfff < u" "i < length s" "s ! i = u"
  shows "ReadUnicodeCharacter16 (buffer s) (length s) i = Inr (True, i, u)" "valid u" "utf16 u = [u]"
  using assms surrogate_iff [of u] utf16_eq [of u]
  by (auto simp: ReadUnicodeCharacter16_def buffer_def valid_def IsValidCodepoint_def)

interpretation utf16: unicode_reader "\<lambda>s. ReadUnicodeCharacter16 (buffer s)" utf16 unit16
proof
  fix c
  assume "valid c"
  then have c: "0 \<le> c" "c \<le> 0x10ffff" using valid_range by auto
  then show "utf16 c \<noteq> []" using utf16_eq [of c] by simp
  have "0 \<le> c div 1024" "c div 1024 < 1088" "0 \<le> c mod 1024" "c mod 1024 < 1024" using c by auto
  then show "list_all unit16 (utf16 c)" using utf16_eq [OF c] c by auto
next
  fix c i s
  assume c: "valid c" and l: "i + length (utf16 c) \<le> length s" and t: "take (length (utf16 c)) (drop i s) = utf16 c"
  note r = valid_range [OF c]
  show "ReadUnicodeCharacter16 (buffer s) (length s) i = Inr (True, i + length (utf16 c) - 1, c)"
  proof (cases "c \<le> 0xffff")
    case True
    then have e: "utf16 c = [c]" using utf16_eq [of c] r by simp
    have "s ! i = c" using take_drop_nth [OF t refl _ l, of 0] e by simp
    moreover have "c < 0xd800 \<or> 0xdfff < c" using r by (auto simp: IsValidCodepoint_def)
    ultimately show ?thesis using read16_single [of c i s] r True l e by simp
  next
    case False
    then have e: "utf16 c = [c div 1024 + 0xd7c0, 0xdc00 + c mod 1024]" using utf16_eq [of c] r by simp
    have "s ! i = c div 1024 + 0xd7c0" "s ! (i + 1) = 0xdc00 + c mod 1024"
      using take_drop_nth [OF t refl _ l, of 0] take_drop_nth [OF t refl _ l, of 1] e by simp_all
    moreover have "64 \<le> c div 1024" "c div 1024 < 1088" "0 \<le> c mod 1024" "c mod 1024 < 1024" using r False by auto
    ultimately show ?thesis using read16_pair(1) [of "c div 1024 + 0xd7c0" "0xdc00 + c mod 1024" i s] l e by simp
  qed
next
  fix s i
  assume s: "list_all unit16 s" and i: "i < length s"
  let ?u = "s ! i"
  have u: "0 \<le> ?u" "?u \<le> 0xffff" using s i by (auto simp: list_all_length)
  show "\<exists>ok j c. ReadUnicodeCharacter16 (buffer s) (length s) i = Inr (ok, j, c) \<and> i \<le> j \<and> j < length s \<and>
      (ok \<longrightarrow> valid c \<and> j + 1 = i + length (utf16 c) \<and> take (length (utf16 c)) (drop i s) = utf16 c)"
  proof (cases "?u < 0xd800 \<or> 0xdfff < ?u")
    case True
    have "take 1 (drop i s) = [?u]" using i by (simp add: take_Suc_conv_app_nth)
    then show ?thesis using read16_single [OF u True i refl] i by auto
  next
    case False
    then have sur: "CBU_IS_SURROGATE ?u" using surrogate_iff [of ?u] u by auto
    show ?thesis
    proof (cases "?u \<le> 0xdbff \<and> i + 1 < length s \<and> 0xdc00 \<le> s ! (i + 1) \<and> s ! (i + 1) \<le> 0xdfff")
      case True
      define c where "c = (?u - 0xd7c0) * 1024 + (s ! (i + 1) - 0xdc00)"
      have c: "ReadUnicodeCharacter16 (buffer s) (length s) i = Inr (True, i + 1, c)" "valid c" "utf16 c = [?u, s ! (i + 1)]"
        using read16_pair [of ?u "s ! (i + 1)" i s] True False by (simp_all add: c_def)
      have "take 2 (drop i s) = [?u, s ! (i + 1)]"
        using Cons_nth_drop_Suc [of i s] Cons_nth_drop_Suc [of "i + 1" s] True i
        by (metis One_nat_def Suc_1 Suc_eq_plus1 take0 take_Suc_Cons)
      then show ?thesis using c True by (intro exI [of _ True] exI [of _ "i + 1"] exI [of _ c]) (simp add: numeral_2_eq_2)
    next
      case bad: False
      have "ReadUnicodeCharacter16 (buffer s) (length s) i = Inr (False, i, ?u)"
      proof (cases "?u \<le> 0xdbff \<and> i + 1 < length s")
        case True
        then have "unit16 (s ! (i + 1))" using s by (auto simp: list_all_length)
        then have "\<not> CBU16_IS_TRAIL (s ! (i + 1))" using trail16_iff [of "s ! (i + 1)"] bad True by auto
        then show ?thesis using True sur i by (simp add: ReadUnicodeCharacter16_def buffer_def)
      next
        case f: False
        then show ?thesis using sur i lead16_iff [of ?u] False by (auto simp: ReadUnicodeCharacter16_def buffer_def)
      qed
      then show ?thesis using i by blast
    qed
  qed
qed

interpretation utf32: unicode_reader "\<lambda>s. ReadUnicodeCharacter32 (buffer s)" "\<lambda>c. [c]" unit32
proof
  fix c i s
  assume c: "valid c" and l: "i + length [c] \<le> length s" and t: "take (length [c]) (drop i s) = [c]"
  have "s ! i = c" using take_drop_nth [OF t refl _ l, of 0] by simp
  moreover have "c mod 4294967296 = c" using valid_range [OF c] by simp
  ultimately show "ReadUnicodeCharacter32 (buffer s) (length s) i = Inr (True, i + length [c] - 1, c)"
    using l valid_range [OF c] by (simp add: ReadUnicodeCharacter32_def buffer_def)
next
  fix s i
  assume s: "list_all unit32 s" and i: "i < length s"
  let ?u = "s ! i"
  have u: "unit32 ?u" using s i by (simp add: list_all_length)
  have t: "take 1 (drop i s) = [?u]" using i by (simp add: take_Suc_conv_app_nth)
  have "?u mod 2 ^ 32 = (if 0 \<le> ?u then ?u else ?u + 2 ^ 32)"
  proof (cases "0 \<le> ?u")
    case False
    have "?u mod 2 ^ 32 = (?u + 2 ^ 32) mod 2 ^ 32" by (rule mod_add_self2 [symmetric])
    also have "\<dots> = ?u + 2 ^ 32" using u False by (intro mod_pos_pos_trivial) auto
    finally show ?thesis using False by simp
  qed (use u in simp)
  then have r: "ReadUnicodeCharacter32 (buffer s) (length s) i =
      Inr (IsValidCodepoint (if 0 \<le> ?u then ?u else ?u + 2 ^ 32), i, if 0 \<le> ?u then ?u else ?u + 2 ^ 32)"
    using i by (simp add: ReadUnicodeCharacter32_def buffer_def)
  moreover have "\<not> IsValidCodepoint (?u + 2 ^ 32)" using u by (simp add: IsValidCodepoint_def)
  ultimately show "\<exists>ok j c. ReadUnicodeCharacter32 (buffer s) (length s) i = Inr (ok, j, c) \<and> i \<le> j \<and> j < length s \<and>
      (ok \<longrightarrow> valid c \<and> j + 1 = i + length [c] \<and> take (length [c]) (drop i s) = [c])"
    using i t by (auto simp: valid_def)
next
  fix c
  assume "valid c"
  then show "list_all unit32 [c]" using valid_range by fastforce
qed simp

lemma writers:
  "valid c \<Longrightarrow> snd (WriteUnicodeCharacter8 c out) = out @ utf8 c"
  "valid c \<Longrightarrow> snd (WriteUnicodeCharacter16 c out) = out @ utf16 c"
  "valid c \<Longrightarrow> snd (WriteUnicodeCharacter32 c out) = out @ [c]"
  using valid_range [of c] utf8_eq [of c]
  by (auto simp: WriteUnicodeCharacter8_def WriteUnicodeCharacter16_def WriteUnicodeCharacter32_def CBU16_LENGTH_def CBU16_APPEND_UNSAFE_def Let_def)

text \<open>There and back: \<open>f\<close> never fails, its result converts back with success, and to the source exactly when \<open>f\<close> succeeded.\<close>

definition lossless :: "(ustring \<Rightarrow> (bool \<times> ustring) res) \<Rightarrow> (ustring \<Rightarrow> (bool \<times> ustring) res) \<Rightarrow> ustring \<Rightarrow> bool" where
  "lossless f g s \<longleftrightarrow> (\<exists>ok t u. f s = Inr (ok, t) \<and> g t = Inr (True, u) \<and> (ok \<longleftrightarrow> u = s))"

lemma convert_lossless:
  assumes r1: "unicode_reader rd1 enc1 unit1" and r2: "unicode_reader rd2 enc2 unit2"
    and w1: "\<And>c out. valid c \<Longrightarrow> snd (wr1 c out) = out @ enc1 c" and w2: "\<And>c out. valid c \<Longrightarrow> snd (wr2 c out) = out @ enc2 c"
    and s: "list_all unit1 s"
  shows "lossless (\<lambda>s. ConvertUnicode (rd1 s) wr2 (length s)) (\<lambda>s. ConvertUnicode (rd2 s) wr1 (length s)) s"
proof -
  obtain ok cs where cs: "ConvertUnicode (rd1 s) wr2 (length s) = Inr (ok, encode enc2 cs)" "list_all valid cs" "ok \<Longrightarrow> s = encode enc1 cs"
    using unicode_reader.convert_sound [OF r1 s, where wr = wr2 and enc' = enc2, OF w2] by blast
  have again: "ConvertUnicode (rd2 (encode enc2 cs)) wr1 (length (encode enc2 cs)) = Inr (True, encode enc1 cs)"
    by (rule unicode_reader.convert_encoded [OF r2 cs(2) w1])
  have "ok" if "encode enc1 cs = s"
  proof -
    have "ConvertUnicode (rd1 (encode enc1 cs)) wr2 (length (encode enc1 cs)) = Inr (True, encode enc2 cs)"
      by (rule unicode_reader.convert_encoded [OF r1 cs(2) w2])
    then show ?thesis using cs(1) that by simp
  qed
  then show ?thesis unfolding lossless_def using cs again by auto
qed

lemmas readers = utf8.unicode_reader_axioms utf16.unicode_reader_axioms utf32.unicode_reader_axioms

text \<open>
  C28: the six conversions between UTF-8, UTF-16 and wide strings.  Any sequence of bytes, 16-bit
  or 32-bit units converts to either other form without reading outside of it; the result is
  always well-formed, so that it converts back with success, and it goes back to the source
  exactly when the first conversion reported success.
\<close>

theorem utf8_utf16_roundtrip:
  assumes "list_all byte s" "list_all unit16 u" "list_all unit32 w"
  shows "lossless UTF8ToUTF16 UTF16ToUTF8 s \<and> lossless UTF8ToWide WideToUTF8 s \<and>
    lossless UTF16ToUTF8 UTF8ToUTF16 u \<and> lossless UTF16ToWide WideToUTF16 u \<and>
    lossless WideToUTF8 UTF8ToWide w \<and> lossless WideToUTF16 UTF16ToWide w"
  unfolding UTF8ToUTF16_def [abs_def] UTF16ToUTF8_def [abs_def] UTF8ToWide_def [abs_def] WideToUTF8_def [abs_def]
    UTF16ToWide_def [abs_def] WideToUTF16_def [abs_def]
  by (intro conjI convert_lossless [OF readers(1,2) writers(1,2) assms(1)]
      convert_lossless [OF readers(1,3) writers(1,3) assms(1)] convert_lossless [OF readers(2,1) writers(2,1) assms(2)]
      convert_lossless [OF readers(2,3) writers(2,3) assms(2)] convert_lossless [OF readers(3,1) writers(3,1) assms(3)]
      convert_lossless [OF readers(3,2) writers(3,2) assms(3)])

theorem utf8_utf16_roundtrip_witness:
  "lossless UTF8ToUTF16 UTF16ToUTF8 [0x61, 0xe2, 0x82, 0xac] \<and> lossless WideToUTF16 UTF16ToWide [0x1f600, - 1]"
proof -
  have "list_all byte [0x61, 0xe2, 0x82, 0xac]" "list_all unit16 [0xd83d]" "list_all unit32 [0x1f600, - 1]" by simp_all
  from utf8_utf16_roundtrip [OF this] show ?thesis by blast
qed

end
