(* ===== verification/Utf8Strings.thy ===== *)
theory Utf8Strings imports Unicode begin

text \<open>
  The strings that \<open>IsStringUTF8\<close> accepts: encodings of characters.  They are what the values of
  \<open>base/values.cc\<close> may hold.
\<close>

definition char_ok :: "int \<Rightarrow> bool" where
  "char_ok c \<longleftrightarrow> valid c \<and> IsValidCharacter c"

definition utf8_string :: "ustring \<Rightarrow> bool" where
  "utf8_string s \<longleftrightarrow> (\<exists>cs. list_all char_ok cs \<and> s = encode utf8 cs)"

lemma encode_simps [simp]: "encode e [] = []" "encode e (c # cs) = e c @ encode e cs" "encode e (cs @ ds) = encode e cs @ encode e ds"
  by (simp_all add: encode_def)

lemma utf8_nonempty: "valid c \<Longrightarrow> utf8 c \<noteq> []"
  by (rule utf8.enc_nonempty)

text \<open>The first byte of an encoding is a sign of its length only.\<close>

lemma utf8_first: "valid c \<Longrightarrow> c < 0x80 \<and> utf8 c = [c] \<or> 0x80 \<le> c \<and> list_all (\<lambda>b. 0x80 \<le> b \<and> b < 256) (utf8 c)"
proof -
  assume v: "valid c"
  then have c: "0 \<le> c" "c \<le> 0x10ffff" using valid_range by auto
  have m: "0x80 \<le> 0x80 + t mod 64" "0x80 + t mod 64 < 256" for t :: int using pos_mod_bound [of 64 t] by simp_all
  consider "c < 0x80" | "0x80 \<le> c" "c < 0x800" | "0x800 \<le> c" "c < 0x10000" | "0x10000 \<le> c" by linarith
  then show ?thesis
  proof cases
    case 2
    then have "0 \<le> c div 64" "c div 64 < 32" by auto
    then show ?thesis using 2 c m [of c] by (simp add: utf8_eq)
  next
    case 3
    then have "0 \<le> c div 4096" "c div 4096 < 16" by auto
    then show ?thesis using 3 c m [of c] m [of "c div 64"] by (simp add: utf8_eq)
  next
    case 4
    then have d: "0 \<le> c div 262144" "c div 262144 < 8" using c by auto
    have "utf8 c = [0xf0 + c div 262144, 0x80 + c div 4096 mod 64, 0x80 + c div 64 mod 64, 0x80 + c mod 64]"
      using utf8_eq [OF c] 4 by simp
    then show ?thesis using 4 d m by simp
  next
    case 1
    then show ?thesis using utf8_eq [OF c] by simp
  qed
qed

lemma is_utf8_loop_iff:
  assumes "list_all byte s" "i \<le> length s" "length s \<le> i + turns"
  shows "is_utf8_loop s turns i = Inr (utf8_string (drop i s))"
  using assms(2,3)
proof (induction turns arbitrary: i)
  case 0
  then show ?case by (auto simp: utf8_string_def intro!: exI [of _ "[]"])
next
  case (Suc n)
  show ?case
  proof (cases "i < length s")
    case True
    have bytes: "\<exists>b. buffer s k = Inr b \<and> 0 \<le> b \<and> b < 256" if "k < length s" for k
      using that assms(1) by (simp add: buffer_def list_all_length)
    have nx: "CBU8_NEXT (buffer s) i (length s) = Inr (c, i + length (utf8 c))" "i + length (utf8 c) \<le> length s"
      if "char_ok c" "drop i s = utf8 c @ rest" for c rest
    proof -
      have c: "valid c" using that(1) by (simp add: char_ok_def)
      have "length (drop i s) = length (utf8 c) + length rest" using that(2) by simp
      then show l: "i + length (utf8 c) \<le> length s" using True by simp
      have t: "take (length (utf8 c)) (drop i s) = utf8 c" using that(2) by simp
      show "CBU8_NEXT (buffer s) i (length s) = Inr (c, i + length (utf8 c))"
        using valid_range [OF c] l take_drop_nth [OF t refl _ l] by (intro next_utf8) (auto simp: buffer_def)
    qed
    show ?thesis
    proof (rule next_some [of "length s" "buffer s" i])
      fix j
      assume bad: "CBU8_NEXT (buffer s) i (length s) = Inr (- 1, j)"
      have "\<not> utf8_string (drop i s)"
      proof
        assume "utf8_string (drop i s)"
        then obtain cs where cs: "list_all char_ok cs" "drop i s = encode utf8 cs" by (auto simp: utf8_string_def)
        then obtain c cs' where "cs = c # cs'" using True by (cases cs) auto
        then show False using nx [of c "encode utf8 cs'"] cs bad by (auto simp: char_ok_def valid_def)
      qed
      then show ?thesis using True bad by (simp add: IsValidCharacter_def)
    next
      fix c
      assume good: "CBU8_NEXT (buffer s) i (length s) = Inr (c, i + length (utf8 c))" "0 \<le> c" "c \<le> 0x10ffff" "IsValidCodepoint c"
        "\<And>k. k < length (utf8 c) \<Longrightarrow> buffer s (i + k) = Inr (utf8 c ! k)" "i + length (utf8 c) \<le> length s"
      have v: "valid c" using good by (simp add: valid_def)
      have cm: "c mod 2 ^ 32 = c" using good by simp
      have "take (length (utf8 c)) (drop i s) = utf8 c"
        using good(5,6) by (intro nth_take_drop) (auto simp: buffer_def split: if_splits)
      then have d: "drop i s = utf8 c @ drop (i + length (utf8 c)) s" by (metis add.commute append_take_drop_id drop_drop)
      have "is_utf8_loop s (Suc n) i = (if IsValidCharacter c then is_utf8_loop s n (i + length (utf8 c)) else Inr False)"
        using True good(1) cm by simp
      also have "\<dots> = Inr (IsValidCharacter c \<and> utf8_string (drop (i + length (utf8 c)) s))"
      proof -
        have "length s \<le> i + length (utf8 c) + n" using Suc(3) utf8_nonempty [OF v] by (cases "utf8 c") auto
        then show ?thesis using Suc(1) [of "i + length (utf8 c)"] good(6) by simp
      qed
      also have "IsValidCharacter c \<and> utf8_string (drop (i + length (utf8 c)) s) \<longleftrightarrow> utf8_string (drop i s)"
      proof
        assume "IsValidCharacter c \<and> utf8_string (drop (i + length (utf8 c)) s)"
        then obtain cs where "IsValidCharacter c" "list_all char_ok cs" "drop (i + length (utf8 c)) s = encode utf8 cs"
          by (auto simp: utf8_string_def)
        then show "utf8_string (drop i s)" using d v by (auto simp: utf8_string_def char_ok_def intro!: exI [of _ "c # cs"])
      next
        assume "utf8_string (drop i s)"
        then obtain cs where cs: "list_all char_ok cs" "drop i s = encode utf8 cs" by (auto simp: utf8_string_def)
        then obtain c' cs' where c': "cs = c' # cs'" using True by (cases cs) auto
        then have "c' = c" using nx(1) [of c' "encode utf8 cs'"] cs good(1) by auto
        then show "IsValidCharacter c \<and> utf8_string (drop (i + length (utf8 c)) s)"
          using cs c' d by (auto simp: utf8_string_def char_ok_def intro!: exI [of _ cs'])
      qed
      finally show ?thesis .
    qed (use bytes True in auto)
  next
    case False
    then show ?thesis using Suc by (auto simp: utf8_string_def intro!: exI [of _ "[]"])
  qed
qed

lemma IsStringUTF8_iff: "list_all byte s \<Longrightarrow> IsStringUTF8 s = Inr (utf8_string s)"
  using is_utf8_loop_iff [of s 0 "length s"] by (simp add: IsStringUTF8_def)

lemma utf8_string_bytes: "utf8_string s \<Longrightarrow> list_all byte s"
proof -
  assume "utf8_string s"
  then obtain cs where "list_all char_ok cs" "s = encode utf8 cs" by (auto simp: utf8_string_def)
  then show ?thesis
  proof (induction cs arbitrary: s)
    case (Cons c cs)
    then show ?case using utf8_bytes [of c] by (simp add: char_ok_def)
  qed simp
qed

lemma utf8_string_ok [simp]: "utf8_string s \<Longrightarrow> IsStringUTF8 s = Inr True"
  using IsStringUTF8_iff [OF utf8_string_bytes] by simp

text \<open>A character below 128 splits such a string into two of them.\<close>

lemma utf8_string_split:
  assumes "utf8_string (a @ x # b)" "0 \<le> x" "x < 0x80"
  shows "utf8_string a \<and> utf8_string b"
proof -
  obtain cs where cs: "list_all char_ok cs" "a @ x # b = encode utf8 cs" using assms(1) by (auto simp: utf8_string_def)
  then show ?thesis
  proof (induction cs arbitrary: a)
    case (Cons c cs)
    have v: "valid c" using Cons(2) by (simp add: char_ok_def)
    show ?case
    proof (cases "length (utf8 c) \<le> length a")
      case True
      define a' where "a' = drop (length (utf8 c)) a"
      have "take (length (utf8 c)) (a @ x # b) = utf8 c" using Cons(3) by simp
      then have "take (length (utf8 c)) a = utf8 c" using True by simp
      then have a': "a = utf8 c @ a'" unfolding a'_def by (metis append_take_drop_id)
      then have a'': "a' @ x # b = encode utf8 cs" using Cons(3) by simp
      then have "utf8_string a' \<and> utf8_string b" using Cons(1) Cons(2) by simp
      then obtain ds where "list_all char_ok ds" "a' = encode utf8 ds" by (auto simp: utf8_string_def)
      then have "utf8_string a" using a' Cons(2) by (auto simp: utf8_string_def intro!: exI [of _ "c # ds"])
      then show ?thesis using \<open>utf8_string a' \<and> utf8_string b\<close> by simp
    next
      case False
      then have "x \<in> set (utf8 c)" using Cons(3) by (metis append_eq_append_conv_if encode_simps(2) in_set_conv_decomp le_eq_less_or_eq nat_le_linear nth_append_length nth_mem nth_append)
      then have c: "utf8 c = [c]" "x = c" using utf8_first [OF v] assms(3) by (auto simp: list_all_iff)
      moreover from c have a: "a = []" using False by (cases a) auto
      ultimately have "a = []" "b = encode utf8 cs" using Cons(3) by auto
      moreover have "utf8_string []" by (auto simp: utf8_string_def intro!: exI [of _ "[]"])
      moreover have "utf8_string (encode utf8 cs)" using Cons(2) by (auto simp: utf8_string_def)
      ultimately show ?thesis by simp
    qed
  qed simp
qed

end
