(* ===== verification/Values.thy ===== *)
theory Values imports Utf8Strings "HOL-Library.List_Lexorder" begin

text \<open>
  \<open>base/values.cc\<close>: values as the data of JSON, with the operations of dictionaries and lists.  A value owns
  its children, so it is a tree; what a method changes is returned.  A method that answers through an
  out parameter returns an option.  \<open>'d\<close> are the doubles other than infinities and NaN.  The classes
  for binary data hold bytes.
\<close>

datatype 'd val =
    NullValue
  | BooleanValue bool
  | IntegerValue "32 word"
  | DoubleValue 'd
  | StringValue ustring
  | BinaryValue ustring
  | DictionaryValue "(ustring \<times> 'd val) list"
  | ListValue "'d val list"

text \<open>A \<open>std::map\<close>: entries in the order of their keys.\<close>

type_synonym 'd dict = "(ustring \<times> 'd val) list"

section \<open>Values\<close>

definition new_StringValue :: "ustring \<Rightarrow> 'd val res" where
  "new_StringValue in_value = bindR (IsStringUTF8 in_value) (\<lambda>b. bindR (dcheck b ''IsStringUTF8(in_value)'') (\<lambda>_. Inr (StringValue in_value)))"

definition new_StringValue16 :: "ustring \<Rightarrow> 'd val res" where
  "new_StringValue16 in_value = bindR (UTF16ToUTF8 in_value) (\<lambda>(_, s). Inr (StringValue s))"

fun GetAsBoolean :: "'d val \<Rightarrow> bool option" where
  "GetAsBoolean (BooleanValue b) = Some b"
| "GetAsBoolean _ = None"

fun GetAsInteger :: "'d val \<Rightarrow> 32 word option" where
  "GetAsInteger (IntegerValue i) = Some i"
| "GetAsInteger _ = None"

text \<open>\<open>of_int32\<close> converts an \<open>int\<close> to a double.\<close>

fun GetAsDouble :: "(32 word \<Rightarrow> 'd) \<Rightarrow> 'd val \<Rightarrow> 'd option" where
  "GetAsDouble of_int32 (DoubleValue d) = Some d"
| "GetAsDouble of_int32 (IntegerValue i) = Some (of_int32 i)"
| "GetAsDouble of_int32 _ = None"

fun GetAsString :: "'d val \<Rightarrow> ustring option" where
  "GetAsString (StringValue s) = Some s"
| "GetAsString _ = None"

fun GetAsString16 :: "'d val \<Rightarrow> ustring option res" where
  "GetAsString16 (StringValue s) = bindR (UTF8ToUTF16 s) (\<lambda>(_, t). Inr (Some t))"
| "GetAsString16 _ = Inr None"

fun GetAsBinary :: "'d val \<Rightarrow> ustring option" where
  "GetAsBinary (BinaryValue b) = Some b"
| "GetAsBinary _ = None"

fun GetAsList :: "'d val \<Rightarrow> 'd val list option" where
  "GetAsList (ListValue l) = Some l"
| "GetAsList _ = None"

fun GetAsDictionary :: "'d val \<Rightarrow> 'd dict option" where
  "GetAsDictionary (DictionaryValue d) = Some d"
| "GetAsDictionary _ = None"

section \<open>Dictionaries\<close>

definition utf8_check :: "ustring \<Rightarrow> string \<Rightarrow> unit res" where
  "utf8_check s msg = bindR (IsStringUTF8 s) (\<lambda>b. dcheck b msg)"

definition HasKey :: "ustring \<Rightarrow> 'd dict \<Rightarrow> bool res" where
  "HasKey key d = bindR (utf8_check key ''IsStringUTF8(key)'') (\<lambda>_. Inr (map_of d key \<noteq> None))"

fun SetWithoutPathExpansion :: "ustring \<Rightarrow> 'd val \<Rightarrow> 'd dict \<Rightarrow> 'd dict" where
  "SetWithoutPathExpansion key in_value [] = [(key, in_value)]"
| "SetWithoutPathExpansion key in_value ((k, v) # d) =
     (if key < k then (key, in_value) # (k, v) # d
      else if key = k then (k, in_value) # d
      else (k, v) # SetWithoutPathExpansion key in_value d)"

definition GetWithoutPathExpansion :: "ustring \<Rightarrow> 'd dict \<Rightarrow> 'd val option res" where
  "GetWithoutPathExpansion key d = bindR (utf8_check key ''IsStringUTF8(key)'') (\<lambda>_. Inr (map_of d key))"

definition via_get :: "('k \<Rightarrow> 'd dict \<Rightarrow> 'd val option res) \<Rightarrow> ('d val \<Rightarrow> 'a option) \<Rightarrow> 'k \<Rightarrow> 'd dict \<Rightarrow> 'a option res" where
  "via_get get as key d = bindR (get key d) (\<lambda>r. Inr (case r of None \<Rightarrow> None | Some value \<Rightarrow> as value))"

definition GetIntegerWithoutPathExpansion :: "ustring \<Rightarrow> 'd dict \<Rightarrow> 32 word option res" where
  "GetIntegerWithoutPathExpansion = via_get GetWithoutPathExpansion GetAsInteger"

definition GetDoubleWithoutPathExpansion :: "(32 word \<Rightarrow> 'd) \<Rightarrow> ustring \<Rightarrow> 'd dict \<Rightarrow> 'd option res" where
  "GetDoubleWithoutPathExpansion of_int32 = via_get GetWithoutPathExpansion (GetAsDouble of_int32)"

definition GetStringWithoutPathExpansion :: "ustring \<Rightarrow> 'd dict \<Rightarrow> ustring option res" where
  "GetStringWithoutPathExpansion = via_get GetWithoutPathExpansion GetAsString"

definition GetDictionaryWithoutPathExpansion :: "ustring \<Rightarrow> 'd dict \<Rightarrow> 'd dict option res" where
  "GetDictionaryWithoutPathExpansion = via_get GetWithoutPathExpansion GetAsDictionary"

definition GetListWithoutPathExpansion :: "ustring \<Rightarrow> 'd dict \<Rightarrow> 'd val list option res" where
  "GetListWithoutPathExpansion = via_get GetWithoutPathExpansion GetAsList"

text \<open>
  The loops over a path: \<open>current_path\<close> up to its next dot, in the dictionary reached so far.  The inner call
  of \<open>GetDictionary\<close> has a key without dots, for which \<open>Get\<close> does not loop; its check of the path is that of
  the key.
\<close>

function get_loop :: "ustring \<Rightarrow> 'd dict \<Rightarrow> 'd val option res" where
  "get_loop current_path current_dictionary =
     (case find_first (\<lambda>c. c = 46) 0 current_path of
        None \<Rightarrow> GetWithoutPathExpansion current_path current_dictionary
      | Some delimiter_position \<Rightarrow>
          let key = substr 0 delimiter_position current_path in
          bindR (utf8_check key ''IsStringUTF8(path)'') (\<lambda>_.
          bindR (GetDictionaryWithoutPathExpansion key current_dictionary) (\<lambda>child.
            case child of None \<Rightarrow> Inr None
            | Some child_dictionary \<Rightarrow> get_loop (drop (delimiter_position + 1) current_path) child_dictionary)))"
  by pat_completeness auto
termination
  by (relation "measure (\<lambda>(p, d). length p)") (auto simp: find_first_def Let_def split: if_splits)

definition Dict_Get :: "ustring \<Rightarrow> 'd dict \<Rightarrow> 'd val option res" where
  "Dict_Get path d = bindR (utf8_check path ''IsStringUTF8(path)'') (\<lambda>_. get_loop path d)"

definition Dict_GetBoolean :: "ustring \<Rightarrow> 'd dict \<Rightarrow> bool option res" where "Dict_GetBoolean = via_get Dict_Get GetAsBoolean"
definition Dict_GetInteger :: "ustring \<Rightarrow> 'd dict \<Rightarrow> 32 word option res" where "Dict_GetInteger = via_get Dict_Get GetAsInteger"
definition Dict_GetDouble :: "(32 word \<Rightarrow> 'd) \<Rightarrow> ustring \<Rightarrow> 'd dict \<Rightarrow> 'd option res" where
  "Dict_GetDouble of_int32 = via_get Dict_Get (GetAsDouble of_int32)"
definition Dict_GetString :: "ustring \<Rightarrow> 'd dict \<Rightarrow> ustring option res" where "Dict_GetString = via_get Dict_Get GetAsString"
definition Dict_GetString16 :: "ustring \<Rightarrow> 'd dict \<Rightarrow> ustring option res" where
  "Dict_GetString16 path d = bindR (Dict_Get path d) (\<lambda>r. case r of None \<Rightarrow> Inr None | Some value \<Rightarrow> GetAsString16 value)"
definition Dict_GetStringASCII :: "ustring \<Rightarrow> 'd dict \<Rightarrow> ustring option res" where
  "Dict_GetStringASCII path d = bindR (Dict_GetString path d) (\<lambda>r. case r of None \<Rightarrow> Inr None
     | Some out \<Rightarrow> if \<not> IsStringASCII 8 out then Inl (NotReached ''GetStringASCII'') else Inr (Some out))"
definition Dict_GetBinary :: "ustring \<Rightarrow> 'd dict \<Rightarrow> ustring option res" where "Dict_GetBinary = via_get Dict_Get GetAsBinary"
definition Dict_GetDictionary :: "ustring \<Rightarrow> 'd dict \<Rightarrow> 'd dict option res" where "Dict_GetDictionary = via_get Dict_Get GetAsDictionary"
definition Dict_GetList :: "ustring \<Rightarrow> 'd dict \<Rightarrow> 'd val list option res" where "Dict_GetList = via_get Dict_Get GetAsList"

text \<open>The dictionary that the loop of \<open>Set\<close> changes is a child; it is put back under its key.\<close>

function set_loop :: "ustring \<Rightarrow> 'd val \<Rightarrow> 'd dict \<Rightarrow> 'd dict res" where
  "set_loop current_path in_value current_dictionary =
     (case find_first (\<lambda>c. c = 46) 0 current_path of
        None \<Rightarrow> Inr (SetWithoutPathExpansion current_path in_value current_dictionary)
      | Some delimiter_position \<Rightarrow>
          let key = substr 0 delimiter_position current_path in
          bindR (utf8_check key ''IsStringUTF8(path)'') (\<lambda>_.
          bindR (GetDictionaryWithoutPathExpansion key current_dictionary) (\<lambda>child.
            let child_dictionary = (case child of None \<Rightarrow> [] | Some c \<Rightarrow> c) in
            bindR (set_loop (drop (delimiter_position + 1) current_path) in_value child_dictionary) (\<lambda>changed.
              Inr (SetWithoutPathExpansion key (DictionaryValue changed) current_dictionary)))))"
  by pat_completeness auto
termination
  by (relation "measure (\<lambda>(p, v, d). length p)") (auto simp: find_first_def Let_def split: if_splits)

definition Dict_Set :: "ustring \<Rightarrow> 'd val \<Rightarrow> 'd dict \<Rightarrow> 'd dict res" where
  "Dict_Set path in_value d = bindR (utf8_check path ''IsStringUTF8(path)'') (\<lambda>_. set_loop path in_value d)"

definition Dict_SetBoolean :: "ustring \<Rightarrow> bool \<Rightarrow> 'd dict \<Rightarrow> 'd dict res" where
  "Dict_SetBoolean path in_value = Dict_Set path (BooleanValue in_value)"
definition Dict_SetInteger :: "ustring \<Rightarrow> 32 word \<Rightarrow> 'd dict \<Rightarrow> 'd dict res" where
  "Dict_SetInteger path in_value = Dict_Set path (IntegerValue in_value)"
definition Dict_SetDouble :: "ustring \<Rightarrow> 'd \<Rightarrow> 'd dict \<Rightarrow> 'd dict res" where
  "Dict_SetDouble path in_value = Dict_Set path (DoubleValue in_value)"
definition Dict_SetString :: "ustring \<Rightarrow> ustring \<Rightarrow> 'd dict \<Rightarrow> 'd dict res" where
  "Dict_SetString path in_value d = bindR (new_StringValue in_value) (\<lambda>v. Dict_Set path v d)"
definition Dict_SetString16 :: "ustring \<Rightarrow> ustring \<Rightarrow> 'd dict \<Rightarrow> 'd dict res" where
  "Dict_SetString16 path in_value d = bindR (new_StringValue16 in_value) (\<lambda>v. Dict_Set path v d)"

definition RemoveWithoutPathExpansion :: "ustring \<Rightarrow> 'd dict \<Rightarrow> ('d val option \<times> 'd dict) res" where
  "RemoveWithoutPathExpansion key d = bindR (utf8_check key ''IsStringUTF8(key)'') (\<lambda>_.
     Inr (case map_of d key of None \<Rightarrow> (None, d) | Some entry \<Rightarrow> (Some entry, filter (\<lambda>(k, v). k \<noteq> key) d)))"

text \<open>\<open>put_loop\<close> puts a changed dictionary back at the end of a path that \<open>GetDictionary\<close> has found.\<close>

function put_loop :: "ustring \<Rightarrow> 'd dict \<Rightarrow> 'd dict \<Rightarrow> 'd dict" where
  "put_loop path changed d =
     (case find_first (\<lambda>c. c = 46) 0 path of
        None \<Rightarrow> SetWithoutPathExpansion path (DictionaryValue changed) d
      | Some p \<Rightarrow> (case map_of d (substr 0 p path) of
            Some (DictionaryValue child) \<Rightarrow>
              SetWithoutPathExpansion (substr 0 p path) (DictionaryValue (put_loop (drop (p + 1) path) changed child)) d
          | _ \<Rightarrow> d))"
  by pat_completeness auto
termination
  by (relation "measure (\<lambda>(p, c, d). length p)") (auto simp: find_first_def Let_def split: if_splits)

definition Dict_Remove :: "ustring \<Rightarrow> 'd dict \<Rightarrow> ('d val option \<times> 'd dict) res" where
  "Dict_Remove path d = bindR (utf8_check path ''IsStringUTF8(path)'') (\<lambda>_.
     case find_last (\<lambda>c. c = 46) path of
       None \<Rightarrow> RemoveWithoutPathExpansion path d
     | Some delimiter_position \<Rightarrow>
         let prefix_path = substr 0 delimiter_position path in
         bindR (Dict_GetDictionary prefix_path d) (\<lambda>r. case r of
           None \<Rightarrow> Inr (None, d)
         | Some current_dictionary \<Rightarrow>
             bindR (RemoveWithoutPathExpansion (drop (delimiter_position + 1) path) current_dictionary) (\<lambda>(out, changed).
               Inr (out, put_loop prefix_path changed d))))"

section \<open>Copies, comparison and merging\<close>

text \<open>An iteration over the keys looks each key up again, with the check of \<open>GetWithoutPathExpansion\<close>.\<close>

fun DeepCopy :: "'d val \<Rightarrow> 'd val res" and copy_entries :: "'d dict \<Rightarrow> 'd dict \<Rightarrow> 'd dict res" and copy_list :: "'d val list \<Rightarrow> 'd val list res" where
  "DeepCopy (StringValue s) = new_StringValue s"
| "DeepCopy (DictionaryValue d) = bindR (copy_entries d []) (\<lambda>c. Inr (DictionaryValue c))"
| "DeepCopy (ListValue l) = bindR (copy_list l) (\<lambda>c. Inr (ListValue c))"
| "DeepCopy NullValue = Inr NullValue"
| "DeepCopy (BooleanValue b) = Inr (BooleanValue b)"
| "DeepCopy (IntegerValue i) = Inr (IntegerValue i)"
| "DeepCopy (DoubleValue x) = Inr (DoubleValue x)"
| "DeepCopy (BinaryValue x) = Inr (BinaryValue x)"
| "copy_entries [] result = Inr result"
| "copy_entries ((k, v) # d) result = bindR (DeepCopy v) (\<lambda>c. copy_entries d (SetWithoutPathExpansion k c result))"
| "copy_list [] = Inr []"
| "copy_list (v # l) = bindR (DeepCopy v) (\<lambda>c. bindR (copy_list l) (\<lambda>cs. Inr (c # cs)))"

text \<open>\<open>deq\<close> compares doubles.\<close>

fun Equals :: "('d \<Rightarrow> 'd \<Rightarrow> bool) \<Rightarrow> 'd val \<Rightarrow> 'd val \<Rightarrow> bool res"
  and dict_Equals :: "('d \<Rightarrow> 'd \<Rightarrow> bool) \<Rightarrow> 'd dict \<Rightarrow> 'd dict \<Rightarrow> bool res"
  and list_Equals :: "('d \<Rightarrow> 'd \<Rightarrow> bool) \<Rightarrow> 'd val list \<Rightarrow> 'd val list \<Rightarrow> bool res" where
  "Equals deq NullValue other = Inr (other = NullValue)"
| "Equals deq (BooleanValue b) other = Inr (case other of BooleanValue c \<Rightarrow> b = c | _ \<Rightarrow> False)"
| "Equals deq (IntegerValue i) other = Inr (case other of IntegerValue j \<Rightarrow> i = j | _ \<Rightarrow> False)"
| "Equals deq (DoubleValue x) other = Inr (case other of DoubleValue y \<Rightarrow> deq x y | _ \<Rightarrow> False)"
| "Equals deq (StringValue s) other = Inr (case other of StringValue t \<Rightarrow> s = t | _ \<Rightarrow> False)"
| "Equals deq (BinaryValue s) other = Inr (case other of BinaryValue t \<Rightarrow> s = t | _ \<Rightarrow> False)"
| "Equals deq (DictionaryValue d) other = (case other of DictionaryValue e \<Rightarrow> dict_Equals deq d e | _ \<Rightarrow> Inr False)"
| "Equals deq (ListValue l) other = (case other of ListValue m \<Rightarrow> list_Equals deq l m | _ \<Rightarrow> Inr False)"
| "dict_Equals deq [] e = Inr (e = [])"
| "dict_Equals deq ((k, v) # d) e = (case e of [] \<Rightarrow> Inr False | (k', v') # e' \<Rightarrow>
     if k \<noteq> k' then Inr False
     else bindR (utf8_check k ''IsStringUTF8(key)'') (\<lambda>_.
       bindR (Equals deq v v') (\<lambda>b. if \<not> b then Inr False else dict_Equals deq d e')))"
| "list_Equals deq [] m = Inr (m = [])"
| "list_Equals deq (v # l) m = (case m of [] \<Rightarrow> Inr False | v' # m' \<Rightarrow>
     bindR (Equals deq v v') (\<lambda>b. if \<not> b then Inr False else list_Equals deq l m'))"

fun CopyWithoutEmptyChildren :: "'d val \<Rightarrow> 'd val option res"
  and prune_entries :: "'d dict \<Rightarrow> 'd dict \<Rightarrow> 'd dict res" and prune_list :: "'d val list \<Rightarrow> 'd val list res" where
  "CopyWithoutEmptyChildren (ListValue l) =
     bindR (prune_list l) (\<lambda>copy. Inr (if copy \<noteq> [] then Some (ListValue copy) else None))"
| "CopyWithoutEmptyChildren (DictionaryValue d) =
     bindR (prune_entries d []) (\<lambda>copy. Inr (if copy \<noteq> [] then Some (DictionaryValue copy) else None))"
| "CopyWithoutEmptyChildren NullValue = bindR (DeepCopy NullValue) (\<lambda>c. Inr (Some c))"
| "CopyWithoutEmptyChildren (BooleanValue b) = bindR (DeepCopy (BooleanValue b)) (\<lambda>c. Inr (Some c))"
| "CopyWithoutEmptyChildren (IntegerValue i) = bindR (DeepCopy (IntegerValue i)) (\<lambda>c. Inr (Some c))"
| "CopyWithoutEmptyChildren (DoubleValue x) = bindR (DeepCopy (DoubleValue x)) (\<lambda>c. Inr (Some c))"
| "CopyWithoutEmptyChildren (StringValue s) = bindR (DeepCopy (StringValue s)) (\<lambda>c. Inr (Some c))"
| "CopyWithoutEmptyChildren (BinaryValue s) = bindR (DeepCopy (BinaryValue s)) (\<lambda>c. Inr (Some c))"
| "prune_entries [] copy = Inr copy"
| "prune_entries ((k, child) # d) copy =
     bindR (utf8_check k ''IsStringUTF8(key)'') (\<lambda>_. bindR (CopyWithoutEmptyChildren child) (\<lambda>child_copy.
       prune_entries d (case child_copy of None \<Rightarrow> copy | Some c \<Rightarrow> SetWithoutPathExpansion k c copy)))"
| "prune_list [] = Inr []"
| "prune_list (v # l) = bindR (CopyWithoutEmptyChildren v) (\<lambda>child_copy. bindR (prune_list l) (\<lambda>rest.
     Inr (case child_copy of None \<Rightarrow> rest | Some c \<Rightarrow> c # rest)))"

definition DeepCopyWithoutEmptyChildren :: "'d dict \<Rightarrow> 'd dict res" where
  "DeepCopyWithoutEmptyChildren d = bindR (CopyWithoutEmptyChildren (DictionaryValue d)) (\<lambda>copy.
     Inr (case copy of Some (DictionaryValue c) \<Rightarrow> c | _ \<Rightarrow> []))"

fun MergeDictionary :: "'d dict \<Rightarrow> 'd dict \<Rightarrow> 'd dict res" and merge_entry :: "'d val \<Rightarrow> ustring \<Rightarrow> 'd dict \<Rightarrow> 'd dict res" where
  "MergeDictionary [] this = Inr this"
| "MergeDictionary ((key, merge_value) # rest) this =
     bindR (utf8_check key ''IsStringUTF8(key)'') (\<lambda>_. bindR (merge_entry merge_value key this) (MergeDictionary rest))"
| "merge_entry (DictionaryValue merge_dict) key this = bindR (GetDictionaryWithoutPathExpansion key this) (\<lambda>r. case r of
       Some sub_dict \<Rightarrow> bindR (MergeDictionary merge_dict sub_dict) (\<lambda>merged. Inr (SetWithoutPathExpansion key (DictionaryValue merged) this))
     | None \<Rightarrow> bindR (DeepCopy (DictionaryValue merge_dict)) (\<lambda>c. Inr (SetWithoutPathExpansion key c this)))"
| "merge_entry v key this = bindR (DeepCopy v) (\<lambda>c. Inr (SetWithoutPathExpansion key c this))"

definition Dict_Swap :: "'d dict \<Rightarrow> 'd dict \<Rightarrow> 'd dict \<times> 'd dict" where
  "Dict_Swap this other = (other, this)"

section \<open>Lists\<close>

definition List_Set :: "nat \<Rightarrow> 'd val option \<Rightarrow> 'd val list \<Rightarrow> bool \<times> 'd val list" where
  "List_Set index in_value l =
     (case in_value of None \<Rightarrow> (False, l)
      | Some v \<Rightarrow> (True, if index \<ge> length l then (l @ replicate (index - length l) NullValue) @ [v] else l[index := v]))"

definition List_Get :: "nat \<Rightarrow> 'd val list \<Rightarrow> 'd val option" where
  "List_Get index l = (if index \<ge> length l then None else Some (l ! index))"

definition via_list_get :: "('d val \<Rightarrow> 'a option) \<Rightarrow> nat \<Rightarrow> 'd val list \<Rightarrow> 'a option" where
  "via_list_get as index l = (case List_Get index l of None \<Rightarrow> None | Some value \<Rightarrow> as value)"

definition List_GetBoolean :: "nat \<Rightarrow> 'd val list \<Rightarrow> bool option" where "List_GetBoolean = via_list_get GetAsBoolean"
definition List_GetInteger :: "nat \<Rightarrow> 'd val list \<Rightarrow> 32 word option" where "List_GetInteger = via_list_get GetAsInteger"
definition List_GetDouble :: "(32 word \<Rightarrow> 'd) \<Rightarrow> nat \<Rightarrow> 'd val list \<Rightarrow> 'd option" where
  "List_GetDouble of_int32 = via_list_get (GetAsDouble of_int32)"
definition List_GetString :: "nat \<Rightarrow> 'd val list \<Rightarrow> ustring option" where "List_GetString = via_list_get GetAsString"
definition List_GetString16 :: "nat \<Rightarrow> 'd val list \<Rightarrow> ustring option res" where
  "List_GetString16 index l = (case List_Get index l of None \<Rightarrow> Inr None | Some value \<Rightarrow> GetAsString16 value)"
definition List_GetBinary :: "nat \<Rightarrow> 'd val list \<Rightarrow> ustring option" where "List_GetBinary = via_list_get GetAsBinary"
definition List_GetDictionary :: "nat \<Rightarrow> 'd val list \<Rightarrow> 'd dict option" where "List_GetDictionary = via_list_get GetAsDictionary"
definition List_GetList :: "nat \<Rightarrow> 'd val list \<Rightarrow> 'd val list option" where "List_GetList = via_list_get GetAsList"

definition List_RemoveAt :: "nat \<Rightarrow> 'd val list \<Rightarrow> 'd val option \<times> 'd val list" where
  "List_RemoveAt index l = (if index \<ge> length l then (None, l) else (Some (l ! index), take index l @ drop (index + 1) l))"

fun find_loop :: "('d val \<Rightarrow> 'd val \<Rightarrow> bool res) \<Rightarrow> 'd val \<Rightarrow> nat \<Rightarrow> 'd val list \<Rightarrow> nat option res" where
  "find_loop eq value i [] = Inr None"
| "find_loop eq value i (v # l) = bindR (eq v value) (\<lambda>b. if b then Inr (Some i) else find_loop eq value (i + 1) l)"

definition List_Remove :: "('d \<Rightarrow> 'd \<Rightarrow> bool) \<Rightarrow> 'd val \<Rightarrow> 'd val list \<Rightarrow> (nat option \<times> 'd val list) res" where
  "List_Remove deq value l = bindR (find_loop (Equals deq) value 0 l) (\<lambda>r.
     Inr (case r of None \<Rightarrow> (None, l) | Some i \<Rightarrow> (Some i, take i l @ drop (i + 1) l)))"

definition List_Erase :: "nat \<Rightarrow> 'd val list \<Rightarrow> ('d val \<times> 'd val list) res" where
  "List_Erase iter l = (if iter < length l then Inr (l ! iter, take iter l @ drop (iter + 1) l) else Inl (OutOfBounds ''*iter''))"

definition List_Append :: "'d val \<Rightarrow> 'd val list \<Rightarrow> 'd val list" where
  "List_Append in_value l = l @ [in_value]"

definition List_AppendIfNotPresent :: "('d \<Rightarrow> 'd \<Rightarrow> bool) \<Rightarrow> 'd val \<Rightarrow> 'd val list \<Rightarrow> (bool \<times> 'd val list) res" where
  "List_AppendIfNotPresent deq in_value l = bindR (find_loop (Equals deq) in_value 0 l) (\<lambda>r.
     Inr (case r of None \<Rightarrow> (True, l @ [in_value]) | Some _ \<Rightarrow> (False, l)))"

definition List_Insert :: "nat \<Rightarrow> 'd val \<Rightarrow> 'd val list \<Rightarrow> bool \<times> 'd val list" where
  "List_Insert index in_value l = (if index > length l then (False, l) else (True, take index l @ [in_value] @ drop index l))"

definition List_Find :: "('d \<Rightarrow> 'd \<Rightarrow> bool) \<Rightarrow> 'd val \<Rightarrow> 'd val list \<Rightarrow> nat res" where
  "List_Find deq value l = bindR (find_loop (\<lambda>second first. Equals deq first second) value 0 l) (\<lambda>r.
     Inr (case r of None \<Rightarrow> length l | Some i \<Rightarrow> i))"

definition List_Swap :: "'d val list \<Rightarrow> 'd val list \<Rightarrow> 'd val list \<times> 'd val list" where
  "List_Swap this other = (other, this)"

section \<open>Paths\<close>

text \<open>What a path means: its keys one after the other.\<close>

function path_keys :: "ustring \<Rightarrow> ustring list" where
  "path_keys p = (case find_first (\<lambda>c. c = 46) 0 p of None \<Rightarrow> [p] | Some i \<Rightarrow> take i p # path_keys (drop (i + 1) p))"
  by pat_completeness auto
termination
  by (relation "measure length") (auto simp: find_first_def Let_def split: if_splits)

declare path_keys.simps [simp del] put_loop.simps [simp del] get_loop.simps [simp del] set_loop.simps [simp del]

fun at_keys :: "ustring list \<Rightarrow> 'd dict \<Rightarrow> 'd val option" where
  "at_keys [] d = None"
| "at_keys [k] d = map_of d k"
| "at_keys (k # ks) d = (case map_of d k of Some (DictionaryValue c) \<Rightarrow> at_keys ks c | _ \<Rightarrow> None)"

fun set_keys :: "ustring list \<Rightarrow> 'd val \<Rightarrow> 'd dict \<Rightarrow> 'd dict" where
  "set_keys [] v d = d"
| "set_keys [k] v d = SetWithoutPathExpansion k v d"
| "set_keys (k # ks) v d = SetWithoutPathExpansion k
     (DictionaryValue (set_keys ks v (case map_of d k of Some (DictionaryValue c) \<Rightarrow> c | _ \<Rightarrow> []))) d"

lemma map_of_Set [simp]: "map_of (SetWithoutPathExpansion k v d) = (map_of d)(k \<mapsto> v)"
  by (induction d) (auto split: if_splits)

lemma path_keys_nonempty: "path_keys p \<noteq> []"
  by (subst path_keys.simps) (simp split: option.split)

lemma find_first_split: "find_first P 0 s = Some i \<Longrightarrow> s = take i s @ s ! i # drop (i + 1) s \<and> P (s ! i) \<and> i < length s"
proof -
  assume a: "find_first P 0 s = Some i"
  then have i: "i = length (takeWhile (\<lambda>c. \<not> P c) s)" "i < length s" by (auto simp: find_first_def Let_def split: if_splits)
  then have "P (s ! i)" using nth_length_takeWhile [of "\<lambda>c. \<not> P c" s] by simp
  then show ?thesis using i id_take_nth_drop [of i s] by simp
qed

lemma dots:
  assumes "utf8_string p" "find_first (\<lambda>c. c = 46) 0 p = Some i"
  shows "utf8_string (take i p)" "utf8_string (drop (i + 1) p)" "length (drop (i + 1) p) < length p"
proof -
  note f = find_first_split [OF assms(2)]
  then have "p = take i p @ 46 # drop (i + 1) p" by metis
  then have "utf8_string (take i p @ 46 # drop (i + 1) p)" using assms(1) by simp
  from utf8_string_split [OF this] show "utf8_string (take i p)" "utf8_string (drop (i + 1) p)" by simp_all
  show "length (drop (i + 1) p) < length p" using conjunct2 [OF conjunct2 [OF f]] by simp
qed

lemma GetDictionary_eq [simp]: "utf8_string k \<Longrightarrow> GetDictionaryWithoutPathExpansion k d =
    Inr (case map_of d k of Some (DictionaryValue c) \<Rightarrow> Some c | _ \<Rightarrow> None)"
  by (simp add: GetDictionaryWithoutPathExpansion_def via_get_def GetWithoutPathExpansion_def utf8_check_def split: option.split val.split)

lemma path_keys_dot:
  assumes "find_first (\<lambda>c. c = 46) 0 p = Some i"
  obtains k ks where "path_keys (drop (i + 1) p) = k # ks" "path_keys p = take i p # k # ks"
  using assms path_keys_nonempty [of "drop (i + 1) p"] by (cases "path_keys (drop (i + 1) p)") (auto simp: path_keys.simps [of p])

lemma get_loop_keys: "utf8_string p \<Longrightarrow> get_loop p d = Inr (at_keys (path_keys p) d)"
proof (induction "length p" arbitrary: p d rule: less_induct)
  case less
  show ?case
  proof (cases "find_first (\<lambda>c. c = 46) 0 p")
    case None
    then show ?thesis using less(2)
      by (simp add: get_loop.simps [of p] path_keys.simps [of p] GetWithoutPathExpansion_def utf8_check_def)
  next
    case (Some i)
    note p = dots [OF less(2) Some]
    obtain k ks where "path_keys (drop (i + 1) p) = k # ks" "path_keys p = take i p # k # ks" by (rule path_keys_dot [OF Some])
    then show ?thesis using Some p less(1) [OF p(3,2)]
      by (simp add: get_loop.simps [of p] utf8_check_def substr_def Let_def split: option.split val.split)
  qed
qed

lemma set_loop_keys: "utf8_string p \<Longrightarrow> set_loop p v d = Inr (set_keys (path_keys p) v d)"
proof (induction "length p" arbitrary: p d rule: less_induct)
  case less
  show ?case
  proof (cases "find_first (\<lambda>c. c = 46) 0 p")
    case None
    then show ?thesis by (simp add: set_loop.simps [of p] path_keys.simps [of p])
  next
    case (Some i)
    note p = dots [OF less(2) Some]
    obtain k ks where "path_keys (drop (i + 1) p) = k # ks" "path_keys p = take i p # k # ks" by (rule path_keys_dot [OF Some])
    then show ?thesis using Some p less(1) [OF p(3,2)]
      by (simp add: set_loop.simps [of p] utf8_check_def substr_def Let_def split: option.split val.split)
  qed
qed

lemma at_set_same: "ks \<noteq> [] \<Longrightarrow> at_keys ks (set_keys ks v d) = Some v"
  by (induction ks v d rule: set_keys.induct) auto

lemma at_set_other: "\<not> prefix ks ls \<Longrightarrow> \<not> prefix ls ks \<Longrightarrow> at_keys ls (set_keys ks v d) = at_keys ls d"
proof (induction ks v d arbitrary: ls rule: set_keys.induct)
  case (2 k v d)
  then obtain l ls' where "ls = l # ls'" "l \<noteq> k" by (cases ls) auto
  then show ?case by (cases ls') auto
next
  case (3 k k' ks v d)
  then obtain l ls' where l: "ls = l # ls'" by (cases ls) auto
  show ?case
  proof (cases "l = k")
    case True
    then have n: "\<not> prefix (k' # ks) ls'" "\<not> prefix ls' (k' # ks)" using 3(2,3) l by auto
    then obtain m ms where m: "ls' = m # ms" by (cases ls') auto
    have e: "at_keys ls' [] = None" unfolding m by (cases ms) auto
    show ?thesis using 3(1) [OF n] l True m e by (auto split: option.split val.split)
  next
    case False
    then show ?thesis using l by (cases ls') auto
  qed
qed simp

lemma at_keys_append:
  "ks \<noteq> [] \<Longrightarrow> ls \<noteq> [] \<Longrightarrow>
   at_keys (ks @ ls) d = (case at_keys ks d of Some (DictionaryValue c) \<Rightarrow> at_keys ls c | _ \<Rightarrow> None)"
proof (induction ks d rule: at_keys.induct)
  case (2 k d)
  then obtain l ls' where "ls = l # ls'" by (cases ls) auto
  then show ?case by (simp split: option.split val.split)
next
  case (3 k k' ks d)
  then show ?case by (auto split: option.split val.split)
qed simp

lemma at_keys_snoc:
  "ks \<noteq> [] \<Longrightarrow> at_keys (ks @ [k]) d = (case at_keys ks d of Some (DictionaryValue c) \<Rightarrow> map_of c k | _ \<Rightarrow> None)"
  by (simp add: at_keys_append split: option.split val.split)

lemma find_first_append:
  "find_first P 0 (a @ b) = (case find_first P 0 a of Some i \<Rightarrow> Some i | None \<Rightarrow> map_option ((+) (length a)) (find_first P 0 b))"
proof (cases "find_first P 0 a")
  case None
  then have "takeWhile (\<lambda>c. \<not> P c) a = a" by (simp add: find_first_None)
  then show ?thesis using None by (simp add: find_first_def Let_def takeWhile_append)
next
  case (Some i)
  note f = find_first_0 [OF Some]
  have "takeWhile (\<lambda>c. \<not> P c) (a @ b) = takeWhile (\<lambda>c. \<not> P c) a"
    using f by (intro takeWhile_append1 [of "a ! i"]) auto
  with Some show ?thesis by (simp add: find_first_def Let_def split: if_splits)
qed

text \<open>Removing: the path is cut at its last dot, which leaves its last key.\<close>

lemma path_keys_last:
  "path_keys p = (case find_last (\<lambda>c. c = 46) p of None \<Rightarrow> [p] | Some j \<Rightarrow> path_keys (take j p) @ [drop (j + 1) p])"
proof (induction "length p" arbitrary: p rule: less_induct)
  case less
  show ?case
  proof (cases "find_first (\<lambda>c. c = 46) 0 p")
    case None
    then have "\<forall>c\<in>set p. c \<noteq> 46" by (simp add: find_first_None)
    then have "find_last (\<lambda>c. c = 46) p = None"
      using find_last_nth [of "\<lambda>c. c = 46" p] by (cases "find_last (\<lambda>c. c = 46) p") (auto dest: nth_mem)
    with None show ?thesis by (simp add: path_keys.simps [of p])
  next
    case (Some i)
    note f = find_first_split [OF Some]
    let ?r = "drop (i + 1) p"
    have p: "p = take i p @ 46 # ?r" and l: "length (take i p) = i" using f by (metis, simp)
    have "find_last (\<lambda>c. c = 46) (take i p @ [46] @ ?r) =
        (case find_last (\<lambda>c. c = 46) ?r of None \<Rightarrow> Some i | Some k \<Rightarrow> Some (i + 1 + k))"
      using l by (simp add: find_last_append [of _ "take i p @ [46]", simplified] split: option.split)
    then have last: "find_last (\<lambda>c. c = 46) p = (case find_last (\<lambda>c. c = 46) ?r of None \<Rightarrow> Some i | Some k \<Rightarrow> Some (i + 1 + k))"
      using p by simp
    have shorter: "length ?r < length p" using f by (simp only: length_drop) linarith
    have keys: "path_keys p = take i p # path_keys ?r" using Some by (simp add: path_keys.simps [of p])
    have none: "find_first (\<lambda>c. c = 46) 0 (take i p) = None"
      using find_first_0 [OF Some] by (auto simp: find_first_None in_set_conv_nth)
    show ?thesis
    proof (cases "find_last (\<lambda>c. c = 46) ?r")
      case None
      have "path_keys ?r = [?r]" using less [OF shorter] None by simp
      moreover have "path_keys (take i p) = [take i p]" using none by (simp add: path_keys.simps [of "take i p"])
      ultimately show ?thesis using keys last None by simp
    next
      case (Some k)
      have "path_keys ?r = path_keys (take k ?r) @ [drop (k + 1) ?r]" using less [OF shorter] Some by simp
      moreover have "path_keys (take (i + 1 + k) p) = take i p # path_keys (take k ?r)"
      proof -
        have "take (i + 1 + k) p = take i p @ 46 # take k ?r"
          using l by (subst p) (simp add: take_Cons')
        moreover have "find_first (\<lambda>c. c = 46) 0 (take i p @ 46 # take k ?r) = Some i"
          using none l by (simp add: find_first_append) (simp add: find_first_def)
        ultimately show ?thesis using l by (subst path_keys.simps) simp
      qed
      ultimately show ?thesis using keys last Some by (simp add: add.commute add.left_commute)
    qed
  qed
qed

lemma put_loop_keys:
  "at_keys (path_keys p) d = Some (DictionaryValue c) \<Longrightarrow>
   put_loop p changed d = set_keys (path_keys p) (DictionaryValue changed) d"
proof (induction "length p" arbitrary: p d rule: less_induct)
  case less
  show ?case
  proof (cases "find_first (\<lambda>c. c = 46) 0 p")
    case None
    then show ?thesis by (simp add: put_loop.simps [of p] path_keys.simps [of p])
  next
    case (Some i)
    have "length (drop (i + 1) p) < length p" using find_first_0 [OF Some] by (simp only: length_drop) linarith
    note IH = less(1) [OF this]
    obtain k ks where k: "path_keys (drop (i + 1) p) = k # ks" "path_keys p = take i p # k # ks" by (rule path_keys_dot [OF Some])
    then obtain e where e: "map_of d (take i p) = Some (DictionaryValue e)" "at_keys (k # ks) e = Some (DictionaryValue c)"
      using less(2) by (auto split: option.splits val.splits)
    then show ?thesis using Some k IH [of e] by (simp add: put_loop.simps [of p] substr_def)
  qed
qed

lemma map_of_remove: "map_of (filter (\<lambda>(k', v). k' \<noteq> k) d) l = (if l = k then None else map_of d l)"
  by (induction d) auto

text \<open>
  Removing what is found at a path gives it back, nothing is found there any more, and paths that
  are neither a part of it nor go through it lead to what they did.
\<close>

lemma remove_found:
  assumes "utf8_string path" "at_keys (path_keys path) d = Some v"
  shows "\<exists>d'. Dict_Remove path d = Inr (Some v, d') \<and> at_keys (path_keys path) d' = None \<and>
    (\<forall>ls. \<not> prefix (path_keys path) ls \<longrightarrow> \<not> prefix ls (path_keys path) \<longrightarrow> at_keys ls d' = at_keys ls d)"
proof (cases "find_last (\<lambda>c. c = 46) path")
  case None
  then have keys: "path_keys path = [path]" using path_keys_last [of path] by simp
  let ?d = "filter (\<lambda>(k, v). k \<noteq> path) d"
  have "Dict_Remove path d = Inr (Some v, ?d)"
    using None keys assms by (simp add: Dict_Remove_def RemoveWithoutPathExpansion_def utf8_check_def)
  moreover have "at_keys ls ?d = at_keys ls d" if n: "\<not> prefix [path] ls" "\<not> prefix ls [path]" for ls
  proof -
    obtain l ls' where "ls = l # ls'" "l \<noteq> path" using n by (cases ls) auto
    then show ?thesis by (cases ls') (simp_all add: map_of_remove)
  qed
  ultimately show ?thesis using keys by (intro exI [of _ ?d]) (simp add: map_of_remove)
next
  case (Some j)
  let ?p = "take j path" and ?k = "drop (j + 1) path"
  note j = find_last_nth [OF Some]
  have keys: "path_keys path = path_keys ?p @ [?k]" using path_keys_last [of path] Some by simp
  note ne = path_keys_nonempty [of ?p]
  have "path = ?p @ 46 # ?k" using j id_take_nth_drop [of j path] by simp
  then have "utf8_string (?p @ 46 # ?k)" using assms(1) by simp
  from utf8_string_split [OF this] have utf8: "utf8_string ?p" "utf8_string ?k" by simp_all
  obtain c where c: "at_keys (path_keys ?p) d = Some (DictionaryValue c)" "map_of c ?k = Some v"
    using assms(2) unfolding keys at_keys_snoc [OF ne] by (auto split: option.splits val.splits)
  let ?c = "filter (\<lambda>(k, v). k \<noteq> ?k) c"
  let ?d = "set_keys (path_keys ?p) (DictionaryValue ?c) d"
  have "Dict_GetDictionary ?p d = Inr (Some c)"
    using c(1) utf8(1) by (simp add: Dict_GetDictionary_def via_get_def Dict_Get_def utf8_check_def get_loop_keys)
  then have "Dict_Remove path d = Inr (Some v, ?d)"
    using Some assms(1) c utf8(2) put_loop_keys [OF c(1)]
    by (simp add: Dict_Remove_def RemoveWithoutPathExpansion_def utf8_check_def substr_def Let_def)
  moreover have at: "at_keys (path_keys ?p) ?d = Some (DictionaryValue ?c)" by (rule at_set_same [OF ne])
  have "at_keys (path_keys path) ?d = None"
    unfolding keys at_keys_snoc [OF ne] at by (simp add: map_of_remove)
  moreover have "at_keys ls ?d = at_keys ls d" if n: "\<not> prefix (path_keys path) ls" "\<not> prefix ls (path_keys path)" for ls
  proof (cases "prefix (path_keys ?p) ls")
    case True
    then obtain ms where ms: "ls = path_keys ?p @ ms" by (auto simp: prefix_def)
    then obtain l ls' where l: "ms = l # ls'" "l \<noteq> ?k" using n unfolding keys by (cases ms) auto
    have "at_keys ms ?c = at_keys ms c" using l by (cases ls') (simp_all add: map_of_remove)
    then show ?thesis using l(1) at c(1) by (simp add: ms at_keys_append [OF ne])
  next
    case False
    moreover have "\<not> prefix ls (path_keys ?p)" using n(2) unfolding keys by auto
    ultimately show ?thesis by (rule at_set_other)
  qed
  ultimately show ?thesis by (intro exI [of _ ?d]) simp
qed

text \<open>
  C29: after \<open>Set\<close> with a path, \<open>Get\<close> with the same path yields the value, and \<open>Get\<close> with any path that is
  neither a part of it nor goes through it yields what it did before.  \<open>Remove\<close> with the path then
  gives the value back; after it \<open>Get\<close> finds nothing there, and the other paths are still as before.
  No check fails.
\<close>

theorem dictionary_set_get:
  assumes "utf8_string path"
  shows "\<exists>d' d''. Dict_Set path v d = Inr d' \<and> Dict_Get path d' = Inr (Some v) \<and>
    Dict_Remove path d' = Inr (Some v, d'') \<and> Dict_Get path d'' = Inr None \<and>
    (\<forall>other. utf8_string other \<longrightarrow> \<not> prefix (path_keys path) (path_keys other) \<longrightarrow> \<not> prefix (path_keys other) (path_keys path) \<longrightarrow>
      Dict_Get other d' = Dict_Get other d \<and> Dict_Get other d'' = Dict_Get other d)"
proof -
  let ?d' = "set_keys (path_keys path) v d"
  have at: "at_keys (path_keys path) ?d' = Some v" by (rule at_set_same [OF path_keys_nonempty])
  obtain d'' where d'': "Dict_Remove path ?d' = Inr (Some v, d'')" "at_keys (path_keys path) d'' = None"
    "\<And>ls. \<not> prefix (path_keys path) ls \<Longrightarrow> \<not> prefix ls (path_keys path) \<Longrightarrow> at_keys ls d'' = at_keys ls ?d'"
    using remove_found [OF assms at] by blast
  have get: "Dict_Get p e = Inr (at_keys (path_keys p) e)" if "utf8_string p" for p and e :: "'a dict"
    using that by (simp add: Dict_Get_def utf8_check_def get_loop_keys)
  have "Dict_Set path v d = Inr ?d'" using assms by (simp add: Dict_Set_def utf8_check_def set_loop_keys)
  then show ?thesis
    using d'' at by (intro exI [of _ ?d'] exI [of _ d'']) (simp add: get assms at_set_other)
qed

theorem dictionary_set_get_witness:
  "\<exists>d' d''. Dict_Set [97, 46, 98] NullValue ([] :: unit dict) = Inr d' \<and> Dict_Get [97, 46, 98] d' = Inr (Some NullValue) \<and>
    Dict_Remove [97, 46, 98] d' = Inr (Some NullValue, d'') \<and> Dict_Get [97, 46, 98] d'' = Inr None"
proof -
  have "list_all char_ok [97, 46, 98]" "[97, 46, 98] = encode utf8 [97, 46, 98]"
    by (simp_all add: char_ok_def valid_def IsValidCodepoint_def IsValidCharacter_def utf8_eq)
  then have "utf8_string [97, 46, 98]" unfolding utf8_string_def by blast
  from dictionary_set_get [OF this, of NullValue "[] :: unit dict"] show ?thesis by blast
qed

section \<open>Well-formed values\<close>

text \<open>Strings and keys are in UTF-8, and the entries of a map are in order.\<close>

fun val_ok :: "'d val \<Rightarrow> bool" where
  "val_ok (StringValue s) \<longleftrightarrow> utf8_string s"
| "val_ok (DictionaryValue d) \<longleftrightarrow> sorted_wrt (<) (map fst d) \<and> (\<forall>e\<in>set d. utf8_string (fst e) \<and> val_ok (snd e))"
| "val_ok (ListValue l) \<longleftrightarrow> (\<forall>v\<in>set l. val_ok v)"
| "val_ok _ \<longleftrightarrow> True"

abbreviation dict_ok :: "'d dict \<Rightarrow> bool" where "dict_ok d \<equiv> val_ok (DictionaryValue d)"

lemma Set_last: "\<forall>k'\<in>set (map fst d). k' < k \<Longrightarrow> SetWithoutPathExpansion k v d = d @ [(k, v)]"
  by (induction d) (auto simp: less_le_not_le)

lemma set_Set: "set (SetWithoutPathExpansion k v d) \<subseteq> insert (k, v) (set d)"
  by (induction d) (auto split: if_splits)

lemma sorted_Set: "sorted_wrt (<) (map fst d) \<Longrightarrow> sorted_wrt (<) (map fst (SetWithoutPathExpansion k v d))"
proof (induction d)
  case (Cons e d)
  obtain k' v' where e: "e = (k', v')" by (cases e) auto
  have "\<forall>x\<in>set (SetWithoutPathExpansion k v d). x = (k, v) \<or> x \<in> set d" using set_Set [of k v d] by blast
  then show ?case using Cons e by (fastforce split: if_splits)
qed simp

lemma Set_ok: "dict_ok d \<Longrightarrow> utf8_string k \<Longrightarrow> val_ok v \<Longrightarrow> dict_ok (SetWithoutPathExpansion k v d)"
  using sorted_Set [of d k v] set_Set [of k v d] by fastforce

lemma DeepCopy_ok:
  fixes v :: "'d val" and d r :: "'d dict" and l :: "'d val list"
  shows "val_ok v \<Longrightarrow> DeepCopy v = Inr v"
  and "\<lbrakk>\<forall>e\<in>set d. val_ok (snd e); sorted_wrt (<) (map fst (r @ d))\<rbrakk> \<Longrightarrow> copy_entries d r = Inr (r @ d)"
  and "\<forall>v\<in>set l. val_ok v \<Longrightarrow> copy_list l = Inr l"
proof (induction v and d r and l rule: DeepCopy_copy_entries_copy_list.induct)
  case (10 k v d r)
  then have e: "SetWithoutPathExpansion k v r = r @ [(k, v)]" by (intro Set_last) (auto simp: sorted_wrt_append)
  have "copy_entries d (r @ [(k, v)]) = Inr ((r @ [(k, v)]) @ d)"
    using 10(2) [of v] 10(3,4) unfolding e by (simp add: sorted_wrt_append)
  then show ?case using 10(1,3) e by simp
qed (auto simp: new_StringValue_def)

lemma Equals_ok:
  fixes v w :: "'d val" and d e :: "'d dict" and l m :: "'d val list"
  shows "\<lbrakk>deq = (=); val_ok v\<rbrakk> \<Longrightarrow> Equals deq v w = Inr (v = w)"
  and "\<lbrakk>deq = (=); \<forall>x\<in>set d. utf8_string (fst x) \<and> val_ok (snd x)\<rbrakk> \<Longrightarrow> dict_Equals deq d e = Inr (d = e)"
  and "\<lbrakk>deq = (=); \<forall>v\<in>set l. val_ok v\<rbrakk> \<Longrightarrow> list_Equals deq l m = Inr (l = m)"
  by (induction deq v w and deq d e and deq l m rule: Equals_dict_Equals_list_Equals.induct)
    (auto simp: utf8_check_def split: val.split list.split)

text \<open>
  Copying a well-formed value gives the same value, and \<open>Equals\<close> tells it apart from another exactly
  when they differ (doubles compared as such), without a failed check.
\<close>

theorem deep_copy_and_equals:
  assumes "val_ok v"
  shows "DeepCopy v = Inr v \<and> Equals (=) v w = Inr (v = w)"
  using DeepCopy_ok(1) [OF assms] Equals_ok(1) [OF refl assms] by simp

theorem deep_copy_and_equals_witness:
  "DeepCopy (ListValue [NullValue] :: unit val) = Inr (ListValue [NullValue]) \<and>
   Equals (=) (ListValue [NullValue] :: unit val) NullValue = Inr (ListValue [NullValue] = (NullValue :: unit val))"
  by (rule deep_copy_and_equals) simp

end
