(* ===== verification/JsonWriter.thy ===== *)
theory JsonWriter imports Values Numbers begin

text \<open>
  \<open>base/json/string_escape.cc\<close> and \<open>base/json/json_writer.cc\<close>: a value to text.  Doubles come with
  \<open>DoubleToString\<close> and with the integer they are equal to, when there is one.
\<close>

section \<open>Quoting\<close>

definition JsonSingleEscapeChar :: "int \<Rightarrow> ustring option" where
  "JsonSingleEscapeChar c =
     (if c = 8 then Some [92, 98] else if c = 12 then Some [92, 102] else if c = 10 then Some [92, 110]
      else if c = 13 then Some [92, 114] else if c = 9 then Some [92, 116] else if c = 92 then Some [92, 92]
      else if c = 34 then Some [92, 34] else None)"

definition hex_digit :: "int \<Rightarrow> int" where
  "hex_digit n = (if n < 10 then 48 + n else 55 + n)"

text \<open>\<open>"\u%04X"\<close> for a number below 65536.\<close>

definition unicode_escape :: "int \<Rightarrow> ustring" where
  "unicode_escape c = [92, 117, hex_digit (c div 4096), hex_digit (c div 256 mod 16), hex_digit (c div 16 mod 16), hex_digit (c mod 16)]"

fun quote_loop :: "ustring \<Rightarrow> ustring \<Rightarrow> ustring" where
  "quote_loop [] dst = dst"
| "quote_loop (c # str) dst =
     quote_loop str (dst @ (case JsonSingleEscapeChar c of Some e \<Rightarrow> e
       | None \<Rightarrow> if c < 32 \<or> c > 126 \<or> c = 60 \<or> c = 62 then unicode_escape c else [c]))"

definition JsonDoubleQuoteT :: "ustring \<Rightarrow> bool \<Rightarrow> ustring \<Rightarrow> ustring" where
  "JsonDoubleQuoteT str put_in_quotes dst =
     (let dst1 = (if put_in_quotes then dst @ [34] else dst);
          dst2 = quote_loop str dst1
      in if put_in_quotes then dst2 @ [34] else dst2)"

definition JsonDoubleQuote :: "ustring \<Rightarrow> bool \<Rightarrow> ustring \<Rightarrow> ustring" where
  "JsonDoubleQuote = JsonDoubleQuoteT"

definition GetDoubleQuotedJson :: "ustring \<Rightarrow> ustring" where
  "GetDoubleQuotedJson str = JsonDoubleQuote str True []"

section \<open>The writer\<close>

record writer =
  w_escape :: bool
  w_omit_binary_values :: bool
  w_omit_double_type_preservation :: bool
  w_pretty_print :: bool

record 'd doubles =
  d_to_string :: "'d \<Rightarrow> ustring"            \<comment> \<open>\<open>DoubleToString\<close>\<close>
  d_integer :: "'d \<Rightarrow> int option"            \<comment> \<open>the integer that is equal to it\<close>
  d_from_string :: "ustring \<Rightarrow> 'd option"    \<comment> \<open>\<open>StringToDouble\<close>, when it succeeds with a finite result\<close>

definition OPTIONS_DO_NOT_ESCAPE :: nat where "OPTIONS_DO_NOT_ESCAPE = 1"
definition OPTIONS_OMIT_BINARY_VALUES :: nat where "OPTIONS_OMIT_BINARY_VALUES = 2"
definition OPTIONS_OMIT_DOUBLE_TYPE_PRESERVATION :: nat where "OPTIONS_OMIT_DOUBLE_TYPE_PRESERVATION = 4"
definition OPTIONS_PRETTY_PRINT :: nat where "OPTIONS_PRETTY_PRINT = 8"

definition kPrettyPrintLineEnding :: ustring where "kPrettyPrintLineEnding = [10]"

text \<open>\<open>"%d"\<close>.\<close>

definition printf_d :: "int \<Rightarrow> ustring" where
  "printf_d i = (if i < 0 then [45] else []) @ digits10 (nat \<bar>i\<bar>)"

definition real_text :: "ustring \<Rightarrow> ustring" where
  "real_text real =
     (let real1 = (if 46 \<notin> set real \<and> 101 \<notin> set real \<and> 69 \<notin> set real then real @ [46, 48] else real)
      in if real1 ! 0 = 46 then 48 # real1
         else if length real1 > 1 \<and> real1 ! 0 = 45 \<and> real1 ! 1 = 46 then 45 # 48 # drop 1 real1
         else real1)"

text \<open>The bounds are compared as doubles: \<open>kint64max\<close> becomes \<open>2 ^ 63\<close>, whose conversion back is undefined.\<close>

definition double_text :: "'d doubles \<Rightarrow> writer \<Rightarrow> 'd \<Rightarrow> ustring res" where
  "double_text ds w value =
     (case d_integer ds value of
        Some n \<Rightarrow> if w_omit_double_type_preservation w \<and> n \<le> 2 ^ 63 \<and> n \<ge> - (2 ^ 63) then
                    if n = 2 ^ 63 then Inl (OutOfBounds ''static_cast<int64>(value)'') else Int64ToString (word_of_int n)
                  else Inr (real_text (d_to_string ds value))
      | None \<Rightarrow> Inr (real_text (d_to_string ds value)))"

definition IndentLine :: "nat \<Rightarrow> ustring \<Rightarrow> ustring" where
  "IndentLine depth json = json @ replicate (depth * 3) 32"

definition AppendQuotedString :: "ustring \<Rightarrow> ustring \<Rightarrow> ustring res" where
  "AppendQuotedString str json = bindR (UTF8ToUTF16 str) (\<lambda>(_, t). Inr (JsonDoubleQuote t True json))"

definition pretty :: "writer \<Rightarrow> ustring \<Rightarrow> ustring" where
  "pretty w s = (if w_pretty_print w then s else [])"

definition is_binary :: "'d val \<Rightarrow> bool" where
  "is_binary v = (case v of BinaryValue _ \<Rightarrow> True | _ \<Rightarrow> False)"

fun BuildJSONString :: "'d doubles \<Rightarrow> writer \<Rightarrow> 'd val \<Rightarrow> nat \<Rightarrow> ustring \<Rightarrow> ustring res"
  and list_items :: "'d doubles \<Rightarrow> writer \<Rightarrow> nat \<Rightarrow> 'd val list \<Rightarrow> nat \<Rightarrow> ustring \<Rightarrow> ustring res"
  and dict_items :: "'d doubles \<Rightarrow> writer \<Rightarrow> bool \<Rightarrow> 'd dict \<Rightarrow> nat \<Rightarrow> ustring \<Rightarrow> ustring res" where
  "BuildJSONString ds w NullValue depth json = Inr (json @ [110, 117, 108, 108])"
| "BuildJSONString ds w (BooleanValue value) depth json =
     Inr (json @ (if value then [116, 114, 117, 101] else [102, 97, 108, 115, 101]))"
| "BuildJSONString ds w (IntegerValue value) depth json = Inr (json @ printf_d (sint value))"
| "BuildJSONString ds w (DoubleValue value) depth json = bindR (double_text ds w value) (\<lambda>s. Inr (json @ s))"
| "BuildJSONString ds w (StringValue value) depth json =
     (if w_escape w then bindR (UTF8ToUTF16 value) (\<lambda>(_, t). Inr (JsonDoubleQuote t True json))
      else Inr (JsonDoubleQuote value True json))"
| "BuildJSONString ds w (ListValue l) depth json =
     bindR (list_items ds w 0 l depth (json @ [91] @ pretty w [32])) (\<lambda>json1. Inr (json1 @ pretty w [32] @ [93]))"
| "BuildJSONString ds w (DictionaryValue d) depth json =
     bindR (dict_items ds w True d depth (json @ [123] @ pretty w kPrettyPrintLineEnding)) (\<lambda>json1.
       Inr ((if w_pretty_print w then IndentLine depth (json1 @ kPrettyPrintLineEnding) else json1) @ [125]))"
| "BuildJSONString ds w (BinaryValue b) depth json =
     (if \<not> w_omit_binary_values w then Inl (NotReached ''Cannot serialize binary value.'') else Inr json)"
| "list_items ds w i [] depth json = Inr json"
| "list_items ds w i (value # l) depth json =
     (if w_omit_binary_values w \<and> is_binary value then list_items ds w (i + 1) l depth json
      else bindR (BuildJSONString ds w value depth (if i \<noteq> 0 then json @ [44] @ pretty w [32] else json))
        (list_items ds w (i + 1) l depth))"
| "dict_items ds w first [] depth json = Inr json"
| "dict_items ds w first ((key, value) # d) depth json =
     bindR (utf8_check key ''IsStringUTF8(key)'') (\<lambda>_.
       if w_omit_binary_values w \<and> is_binary value then dict_items ds w False d depth json
       else
         let json1 = (if \<not> first then json @ [44] @ pretty w kPrettyPrintLineEnding else json);
             json2 = (if w_pretty_print w then IndentLine (depth + 1) json1 else json1)
         in bindR (AppendQuotedString key json2) (\<lambda>json3.
            bindR (BuildJSONString ds w value (depth + 1) (json3 @ [58] @ pretty w [32])) (dict_items ds w False d depth)))"

definition WriteWithOptions :: "'d doubles \<Rightarrow> 'd val \<Rightarrow> nat \<Rightarrow> ustring res" where
  "WriteWithOptions ds node options =
     (let escape = \<not> (and options OPTIONS_DO_NOT_ESCAPE \<noteq> 0);
          omit_binary_values = (and options OPTIONS_OMIT_BINARY_VALUES \<noteq> 0);
          omit_double_type_preservation = (and options OPTIONS_OMIT_DOUBLE_TYPE_PRESERVATION \<noteq> 0);
          pretty_print = (and options OPTIONS_PRETTY_PRINT \<noteq> 0);
          w = \<lparr>w_escape = escape, w_omit_binary_values = omit_binary_values,
               w_omit_double_type_preservation = omit_double_type_preservation, w_pretty_print = pretty_print\<rparr>
      in bindR (BuildJSONString ds w node 0 []) (\<lambda>json.
         Inr (if pretty_print then json @ kPrettyPrintLineEnding else json)))"

definition Write :: "'d doubles \<Rightarrow> 'd val \<Rightarrow> ustring res" where
  "Write ds node = WriteWithOptions ds node 0"

end
