(* ===== verification/JsonParser.thy ===== *)
theory JsonParser imports JsonWriter begin

text \<open>
  \<open>base/json/json_parser.cc\<close> and \<open>json_reader.cc\<close>: text to values.  The record \<open>parser\<close> has the fields of
  \<open>JSONParser\<close>; positions are offsets from \<open>start_pos_\<close>, and \<open>end_pos_\<close> is the length of the input.
  \<open>after_\<close> is the byte behind the input, where it can be read: the terminator of the string that
  \<open>Parse\<close> copies the input to, or with \<open>JSON_DETACHABLE_CHILDREN\<close> whatever the caller has there.  A \<open>StringPiece\<close> in a
  value (\<open>JSONStringValue\<close>) is its contents.  Inputs are shorter than \<open>2 ^ 31\<close> bytes.
\<close>

section \<open>The state\<close>

datatype json_error =
    JSON_NO_ERROR | JSON_INVALID_ESCAPE | JSON_SYNTAX_ERROR | JSON_UNEXPECTED_TOKEN | JSON_TRAILING_COMMA
  | JSON_TOO_MUCH_NESTING | JSON_UNEXPECTED_DATA_AFTER_ROOT | JSON_UNSUPPORTED_ENCODING | JSON_UNQUOTED_DICTIONARY_KEY

datatype token =
    T_OBJECT_BEGIN | T_OBJECT_END | T_ARRAY_BEGIN | T_ARRAY_END | T_STRING | T_NUMBER | T_BOOL_TRUE | T_BOOL_FALSE
  | T_NULL | T_LIST_SEPARATOR | T_OBJECT_PAIR_SEPARATOR | T_END_OF_INPUT | T_INVALID_TOKEN

record parser =
  p_options :: nat
  p_mem :: ustring
  p_after :: "int option"
  p_pos :: nat
  p_index :: nat
  p_stack_depth :: nat
  p_line_number :: int
  p_index_last_line :: nat
  p_error_code :: json_error
  p_error_line :: int
  p_error_column :: int

definition kStackMaxDepth :: nat where "kStackMaxDepth = 100"
definition kExtendedASCIIStart :: int where "kExtendedASCIIStart = 0x80"
definition JSON_PARSE_RFC :: nat where "JSON_PARSE_RFC = 0"
definition JSON_ALLOW_TRAILING_COMMAS :: nat where "JSON_ALLOW_TRAILING_COMMAS = 1"
definition JSON_DETACHABLE_CHILDREN :: nat where "JSON_DETACHABLE_CHILDREN = 2"

definition has_option :: "nat \<Rightarrow> parser \<Rightarrow> bool" where
  "has_option opt p \<longleftrightarrow> and (p_options p) opt \<noteq> 0"

definition new_JSONParser :: "nat \<Rightarrow> parser" where
  "new_JSONParser options =
     \<lparr>p_options = options, p_mem = [], p_after = None, p_pos = 0, p_index = 0, p_stack_depth = 0, p_line_number = 0,
      p_index_last_line = 0, p_error_code = JSON_NO_ERROR, p_error_line = 0, p_error_column = 0\<rparr>"

text \<open>The byte at an offset.\<close>

definition peek :: "parser \<Rightarrow> reader" where
  "peek p i =
     (if i < length (p_mem p) then Inr (p_mem p ! i)
      else if i = length (p_mem p) then (case p_after p of Some b \<Rightarrow> Inr b | None \<Rightarrow> Inl (OutOfBounds ''start_pos_[i]''))
      else Inl (OutOfBounds ''start_pos_[i]''))"

definition deref :: "parser \<Rightarrow> int res" where
  "deref p = peek p (p_pos p)"

definition CanConsume :: "parser \<Rightarrow> nat \<Rightarrow> bool" where
  "CanConsume p n \<longleftrightarrow> p_pos p + n \<le> length (p_mem p)"

definition NextNChars :: "nat \<Rightarrow> parser \<Rightarrow> parser res" where
  "NextNChars n p = bindR (dcheck (CanConsume p n) ''CanConsume(n)'') (\<lambda>_. Inr (p\<lparr>p_index := p_index p + n, p_pos := p_pos p + n\<rparr>))"

definition NextChar :: "parser \<Rightarrow> parser res" where
  "NextChar p = bindR (dcheck (CanConsume p 1) ''CanConsume(1)'') (\<lambda>_. Inr (p\<lparr>p_index := p_index p + 1, p_pos := p_pos p + 1\<rparr>))"

declare CanConsume_def [simp]

text \<open>\<open>*NextChar()\<close>.\<close>

definition next_deref :: "parser \<Rightarrow> (int \<times> parser) res" where
  "next_deref p = bindR (NextChar p) (\<lambda>p1. bindR (deref p1) (\<lambda>c. Inr (c, p1)))"

definition ReportError :: "json_error \<Rightarrow> int \<Rightarrow> parser \<Rightarrow> parser" where
  "ReportError code column_adjust p =
     p\<lparr>p_error_code := code, p_error_line := p_line_number p,
       p_error_column := int (p_index p) - int (p_index_last_line p) + column_adjust\<rparr>"

section \<open>How operations end\<close>

text \<open>\<open>ends F m Q\<close>: the operation fails with a fault of \<open>F\<close> or its result satisfies \<open>Q\<close>.\<close>

definition ends :: "fault set \<Rightarrow> 'a res \<Rightarrow> ('a \<Rightarrow> bool) \<Rightarrow> bool" where
  "ends F m Q \<longleftrightarrow> (case m of Inl e \<Rightarrow> e \<in> F | Inr x \<Rightarrow> Q x)"

lemma ends_simps [simp]: "ends F (Inr x) Q \<longleftrightarrow> Q x" "ends F (Inl e) Q \<longleftrightarrow> e \<in> F"
  by (simp_all add: ends_def)

lemma ends_bind [simp]: "ends F (bindR m f) Q \<longleftrightarrow> ends F m (\<lambda>x. ends F (f x) Q)"
  by (cases m) auto

lemma ends_dcheck [simp]: "ends F (dcheck b msg) Q \<longleftrightarrow> (if b then Q () else DcheckFailed msg \<in> F)"
  by (simp add: dcheck_def)

lemma ends_if: "ends F (if b then m else n) Q \<longleftrightarrow> (if b then ends F m Q else ends F n Q)"
  by simp

lemma ends_mono: "ends F m Q \<Longrightarrow> (\<And>x. m = Inr x \<Longrightarrow> Q x \<Longrightarrow> R x) \<Longrightarrow> ends F m R"
  by (cases m) auto

lemma ends_Inr: "ends F m Q \<Longrightarrow> m = Inr x \<Longrightarrow> Q x"
  by simp

section \<open>Whitespace, comments and tokens\<close>

lemma next_deref_Inr: "next_deref p = Inr (c, p1) \<Longrightarrow> p_mem p1 = p_mem p \<and> p_pos p1 = p_pos p + 1"
  by (auto simp: next_deref_def NextChar_def res_simps)

lemma NextChar_Inr: "NextChar p = Inr p1 \<Longrightarrow> p_mem p1 = p_mem p \<and> p_pos p1 = p_pos p + 1"
  by (auto simp: NextChar_def res_simps)

lemma bindR_cong [fundef_cong]:
  "m = n \<Longrightarrow> (\<And>x. n = Inr x \<Longrightarrow> f x = g x) \<Longrightarrow> bindR m f = bindR n g"
  by (cases n) auto

text \<open>The two loops of \<open>EatComment\<close>.\<close>

function line_comment :: "parser \<Rightarrow> (bool \<times> parser) res" where
  "line_comment p =
     (if CanConsume p 1 then
        bindR (next_deref p) (\<lambda>(next_char, p1). if next_char = 10 \<or> next_char = 13 then Inr (True, p1) else line_comment p1)
      else Inr (False, p))"
  by pat_completeness auto
termination
  by (relation "measure (\<lambda>p. length (p_mem p) - p_pos p)") (auto simp: CanConsume_def dest!: next_deref_Inr)

function block_comment :: "parser \<Rightarrow> (bool \<times> parser) res" where
  "block_comment p =
     (if CanConsume p 2 then
        bindR (next_deref p) (\<lambda>(c, p1).
          if c = 42 then
            bindR (next_deref p1) (\<lambda>(d, p2).
              if d = 47 then bindR (NextChar p2) (\<lambda>p3. Inr (True, p3)) else block_comment p2)
          else block_comment p1)
      else Inr (False, p))"
  by pat_completeness auto
termination
  by (relation "measure (\<lambda>p. length (p_mem p) - p_pos p)") (auto simp: CanConsume_def dest!: next_deref_Inr)

declare line_comment.simps [simp del] block_comment.simps [simp del]

definition EatComment :: "parser \<Rightarrow> (bool \<times> parser) res" where
  "EatComment p = bindR (deref p) (\<lambda>c.
     if c \<noteq> 47 \<or> \<not> CanConsume p 1 then Inr (False, p)
     else bindR (next_deref p) (\<lambda>(next_char, p1).
       if next_char = 47 then line_comment p1
       else if next_char = 42 then block_comment p1
       else Inr (False, p1)))"

lemma line_comment_Inr: "line_comment p = Inr (b, p1) \<Longrightarrow> p_mem p1 = p_mem p \<and> p_pos p \<le> p_pos p1"
proof (induction p arbitrary: b p1 rule: line_comment.induct)
  case (1 p)
  show ?case
  proof (cases "CanConsume p 1")
    case True
    then obtain c q where q: "next_deref p = Inr (c, q)" using "1.prems" by (auto simp: line_comment.simps [of p] res_simps)
    show ?thesis
      using "1.IH" [OF True q refl] "1.prems" next_deref_Inr [OF q] True q
      by (cases "c = 10 \<or> c = 13") (auto simp: line_comment.simps [of p])
  qed (use "1.prems" in \<open>simp add: line_comment.simps [of p]\<close>)
qed

lemma block_comment_Inr: "block_comment p = Inr (b, p1) \<Longrightarrow> p_mem p1 = p_mem p \<and> p_pos p \<le> p_pos p1"
proof (induction p arbitrary: b p1 rule: block_comment.induct)
  case (1 p)
  note unfold = block_comment.simps [of p]
  show ?case
  proof (cases "CanConsume p 2")
    case True
    then obtain c q where q: "next_deref p = Inr (c, q)" using "1.prems" by (auto simp: unfold res_simps)
    show ?thesis
    proof (cases "c = 42")
      case c: True
      then obtain d r where r: "next_deref q = Inr (d, r)" using "1.prems" True q by (auto simp: unfold res_simps)
      show ?thesis
        using "1.IH"(1) [OF True q refl c r refl] "1.prems" next_deref_Inr [OF q] next_deref_Inr [OF r] True q c r
        by (cases "d = 47") (auto simp: unfold res_simps dest!: NextChar_Inr)
    next
      case False
      show ?thesis using "1.IH"(2) [OF True q refl False] "1.prems" next_deref_Inr [OF q] True q False by (auto simp: unfold)
    qed
  qed (use "1.prems" in \<open>simp add: unfold\<close>)
qed

lemma EatComment_Inr: "EatComment p = Inr (True, p1) \<Longrightarrow> p_mem p1 = p_mem p \<and> p_pos p < p_pos p1"
  by (auto simp: EatComment_def res_simps split: if_splits dest!: next_deref_Inr line_comment_Inr block_comment_Inr)

function EatWhitespaceAndComments :: "parser \<Rightarrow> parser res" where
  "EatWhitespaceAndComments p =
     (if p_pos p < length (p_mem p) then
        bindR (deref p) (\<lambda>c.
          if c = 13 \<or> c = 10 then
            bindR (NextChar (p\<lparr>p_index_last_line := p_index p, p_line_number := p_line_number p + 1\<rparr>)) EatWhitespaceAndComments
          else if c = 32 \<or> c = 9 then bindR (NextChar p) EatWhitespaceAndComments
          else if c = 47 then bindR (EatComment p) (\<lambda>(eaten, p1). if eaten then EatWhitespaceAndComments p1 else Inr p1)
          else Inr p)
      else Inr p)"
  by pat_completeness auto
termination
  by (relation "measure (\<lambda>p. length (p_mem p) - p_pos p)") (auto dest!: NextChar_Inr EatComment_Inr)

declare EatWhitespaceAndComments.simps [simp del]

definition token_of :: "int \<Rightarrow> token" where
  "token_of c =
     (if c = 123 then T_OBJECT_BEGIN else if c = 125 then T_OBJECT_END else if c = 91 then T_ARRAY_BEGIN
      else if c = 93 then T_ARRAY_END else if c = 34 then T_STRING
      else if (48 \<le> c \<and> c \<le> 57) \<or> c = 45 then T_NUMBER
      else if c = 116 then T_BOOL_TRUE else if c = 102 then T_BOOL_FALSE else if c = 110 then T_NULL
      else if c = 44 then T_LIST_SEPARATOR else if c = 58 then T_OBJECT_PAIR_SEPARATOR else T_INVALID_TOKEN)"

definition GetNextToken :: "parser \<Rightarrow> (token \<times> parser) res" where
  "GetNextToken p = bindR (EatWhitespaceAndComments p) (\<lambda>p1.
     if \<not> CanConsume p1 1 then Inr (T_END_OF_INPUT, p1) else bindR (deref p1) (\<lambda>c. Inr (token_of c, p1)))"

section \<open>Strings\<close>

text \<open>\<open>StringBuilder\<close>: a piece of the input, or a string once it is converted.\<close>

record builder =
  b_pos :: nat
  b_length :: nat
  b_string :: "ustring option"

definition new_StringBuilder :: "nat \<Rightarrow> builder" where
  "new_StringBuilder pos = \<lparr>b_pos = pos, b_length = 0, b_string = None\<rparr>"

definition piece :: "parser \<Rightarrow> nat \<Rightarrow> nat \<Rightarrow> ustring res" where
  "piece p i n = (if i + n \<le> length (p_mem p) then Inr (take n (drop i (p_mem p))) else Inl (OutOfBounds ''StringPiece''))"

definition Append :: "int \<Rightarrow> builder \<Rightarrow> builder res" where
  "Append c b = bindR (dcheck (c \<ge> 0) ''DCHECK_GE(c, 0)'') (\<lambda>_. bindR (dcheck (c < 128) ''DCHECK_LT(c, 128)'') (\<lambda>_.
     Inr (case b_string b of Some s \<Rightarrow> b\<lparr>b_string := Some (s @ [c])\<rparr> | None \<Rightarrow> b\<lparr>b_length := b_length b + 1\<rparr>)))"

definition AppendString :: "ustring \<Rightarrow> builder \<Rightarrow> builder res" where
  "AppendString str b = (case b_string b of None \<Rightarrow> Inl (DcheckFailed ''string_'') | Some s \<Rightarrow> Inr (b\<lparr>b_string := Some (s @ str)\<rparr>))"

definition Convert :: "parser \<Rightarrow> builder \<Rightarrow> builder res" where
  "Convert p b =
     (case b_string b of Some s \<Rightarrow> Inr b
      | None \<Rightarrow> bindR (piece p (b_pos b) (b_length b)) (\<lambda>s. Inr (b\<lparr>b_string := Some s\<rparr>)))"

definition CanBeStringPiece :: "builder \<Rightarrow> bool" where
  "CanBeStringPiece b \<longleftrightarrow> b_string b = None"

definition AsStringPiece :: "parser \<Rightarrow> builder \<Rightarrow> ustring res" where
  "AsStringPiece p b = (if b_string b \<noteq> None then Inr [] else piece p (b_pos b) (b_length b))"

definition AsString :: "parser \<Rightarrow> builder \<Rightarrow> ustring res" where
  "AsString p b = bindR (Convert p b) (\<lambda>b1. Inr (the (b_string b1)))"

text \<open>
  \<open>HexStringToInt\<close> of a piece.  It reads the digits one at a time up to the first that is none; when the byte
  behind the input cannot be read, it fails there only if it gets that far.
\<close>

definition hex_piece :: "parser \<Rightarrow> nat \<Rightarrow> nat \<Rightarrow> (bool \<times> int) res" where
  "hex_piece p i n =
     (let digits = drop i (p_mem p) in
      if i + n \<le> length (p_mem p) then Inr (HexStringToInt (take n digits))
      else if i + n = length (p_mem p) + 1 then
        (case p_after p of Some b \<Rightarrow> Inr (HexStringToInt (digits @ [b]))
         | None \<Rightarrow> if fst (HexStringToInt (dropWhile LocalIsWhitespace digits @ [48])) then Inl (OutOfBounds ''StringPiece'')
                   else Inr (False, 0))
      else Inl (OutOfBounds ''StringPiece''))"

definition DecodeUTF8 :: "parser \<Rightarrow> int \<Rightarrow> builder \<Rightarrow> builder res" where
  "DecodeUTF8 p point dest =
     (if point < kExtendedASCIIStart then Append point dest
      else bindR (Convert p dest) (AppendString (CBU8_APPEND_UNSAFE point)))"

text \<open>What \<open>append\<close> takes from \<open>code_unit8\<close> ends before the first zero.\<close>

definition DecodeUTF16 :: "parser \<Rightarrow> (ustring option \<times> parser) res" where
  "DecodeUTF16 p =
     (if \<not> CanConsume p 4 then Inr (None, p)
      else bindR (hex_piece p (p_pos p) 4) (\<lambda>(ok, code_unit16_high).
        if \<not> ok then Inr (None, p)
        else bindR (NextNChars 3 p) (\<lambda>p1.
          if CBU_IS_SURROGATE code_unit16_high then
            if \<not> CBU16_IS_SURROGATE_LEAD code_unit16_high then Inr (None, p1)
            else if \<not> CanConsume p1 6 then Inr (None, p1)
            else bindR (next_deref p1) (\<lambda>(c, p2).
              if c \<noteq> 92 then Inr (None, p2)
              else bindR (next_deref p2) (\<lambda>(d, p3).
                if d \<noteq> 117 then Inr (None, p3)
                else bindR (NextChar p3) (\<lambda>p4.
                  bindR (hex_piece p4 (p_pos p4) 4) (\<lambda>(ok, code_unit16_low).
                    if \<not> ok then Inr (None, p4)
                    else bindR (NextNChars 3 p4) (\<lambda>p5.
                      if \<not> CBU16_IS_TRAIL code_unit16_low then Inr (None, p5)
                      else let code_point = CBU16_GET_SUPPLEMENTARY code_unit16_high code_unit16_low
                           in Inr (Some (takeWhile (\<lambda>b. b \<noteq> 0) (CBU8_APPEND_UNSAFE code_point)), p5))))))
          else Inr (Some (takeWhile (\<lambda>b. b \<noteq> 0) (CBU8_APPEND_UNSAFE code_unit16_high)), p1))))"

datatype outcome = Failed | Closed builder | Continue builder

definition simple_escape :: "int \<Rightarrow> int option" where
  "simple_escape c =
     (if c = 34 then Some 34 else if c = 92 then Some 92 else if c = 47 then Some 47 else if c = 98 then Some 8
      else if c = 102 then Some 12 else if c = 110 then Some 10 else if c = 114 then Some 13 else if c = 116 then Some 9
      else if c = 118 then Some 11 else None)"

text \<open>An escape sequence: the parser is wound to the backslash, and the builder is converted.\<close>

definition escape_sequence :: "builder \<Rightarrow> parser \<Rightarrow> (outcome \<times> parser) res" where
  "escape_sequence b p =
     (if \<not> CanConsume p 1 then Inr (Failed, ReportError JSON_INVALID_ESCAPE 0 p)
      else bindR (next_deref p) (\<lambda>(c, p1).
        if c = 120 then
          if \<not> CanConsume p1 2 then Inr (Failed, ReportError JSON_INVALID_ESCAPE 1 p1)
          else bindR (NextChar p1) (\<lambda>p2. bindR (hex_piece p2 (p_pos p2) 2) (\<lambda>(ok, hex_digit).
            if \<not> ok then Inr (Failed, ReportError JSON_INVALID_ESCAPE (- 1) p2)
            else bindR (NextChar p2) (\<lambda>p3.
              bindR (if hex_digit < kExtendedASCIIStart then Append hex_digit b else DecodeUTF8 p3 hex_digit b) (\<lambda>b1.
                Inr (Continue b1, p3)))))
        else if c = 117 then
          if \<not> CanConsume p1 5 then Inr (Failed, ReportError JSON_INVALID_ESCAPE 0 p1)
          else bindR (NextChar p1) (\<lambda>p2. bindR (DecodeUTF16 p2) (\<lambda>(utf8_units, p3).
            case utf8_units of None \<Rightarrow> Inr (Failed, ReportError JSON_INVALID_ESCAPE (- 1) p3)
            | Some units \<Rightarrow> bindR (AppendString units b) (\<lambda>b1. Inr (Continue b1, p3))))
        else case simple_escape c of
            Some d \<Rightarrow> bindR (Append d b) (\<lambda>b1. Inr (Continue b1, p1))
          | None \<Rightarrow> Inr (Failed, ReportError JSON_INVALID_ESCAPE 0 p1)))"

text \<open>One turn of the loop of \<open>ConsumeStringRaw\<close>.\<close>

definition string_turn :: "builder \<Rightarrow> parser \<Rightarrow> (outcome \<times> parser) res" where
  "string_turn b p =
     (let p1 = p\<lparr>p_pos := p_index p\<rparr> in
      bindR (CBU8_NEXT (peek p1) (p_index p1) (length (p_mem p1))) (\<lambda>(next_char, i).
        let p2 = p1\<lparr>p_index := i\<rparr> in
        if next_char < 0 \<or> \<not> IsValidCharacter next_char then Inr (Failed, ReportError JSON_UNSUPPORTED_ENCODING 1 p2)
        else if next_char = 92 then bindR (Convert p2 b) (\<lambda>b1. escape_sequence b1 p2)
        else if next_char = 34 then Inr (Closed b, p2\<lparr>p_index := p_index p2 - 1\<rparr>)
        else bindR (if next_char < kExtendedASCIIStart then Append next_char b else DecodeUTF8 p2 next_char b) (\<lambda>b1.
          Inr (Continue b1, p2))))"

text \<open>Every turn that goes on has moved the index.\<close>

lemma skip_trails_mono: "ends UNIV (skip_trails s i n) (\<lambda>(j, m). i \<le> j)"
  by (induction s i n rule: skip_trails.induct) (fastforce simp: ends_def bindR_def split: sum.splits dest: Suc_leD)+

lemma trail_byte_mono: "ends UNIV (trail_byte s x) (\<lambda>(j, c, ill). j = fst x + 1)"
  by (cases x) (auto simp: trail_byte_def ends_def bindR_def split: sum.splits)

lemma trail_bytes_mono: "ends UNIV (trail_bytes s n i c) (\<lambda>(j, c, ill). i \<le> j)"
proof -
  have t: "ends UNIV (trail_byte s (i, c, x)) (\<lambda>y. ends UNIV (trail_byte s y) (\<lambda>(j, c, ill). k \<le> j))" if "k \<le> i" for i c x k
    by (rule ends_mono [OF trail_byte_mono], rule ends_mono [OF trail_byte_mono]) (use that in auto)
  have u: "ends UNIV (trail_byte s (i, c, x)) (\<lambda>(j, c, ill). i \<le> j)" for c x
    by (rule ends_mono [OF trail_byte_mono]) auto
  show ?thesis using t [of i i] u by (cases "s i") (auto simp: trail_bytes_def Let_def intro!: t)
qed

lemma CBU8_NEXT_mono: "ends UNIV (CBU8_NEXT s i n) (\<lambda>(c, j). i < j)"
proof -
  have b: "ends UNIV (utf8_nextCharSafeBody s j n c x) (\<lambda>(c, k). j \<le> k)" for j c x
  proof -
    have *: "ends UNIV (skip_trails s j m) (\<lambda>y. ends UNIV (f y) (\<lambda>(c, k). j \<le> k))"
      if "\<And>i' m'. j \<le> i' \<Longrightarrow> ends UNIV (f (i', m')) (\<lambda>(c, k). j \<le> k)" for m and f :: "nat \<times> nat \<Rightarrow> (int \<times> nat) res"
      by (rule ends_mono [OF skip_trails_mono]) (use that in auto)
    show ?thesis
      unfolding utf8_nextCharSafeBody_def Let_def
      by (auto intro!: * ends_mono [OF trail_bytes_mono])
  qed
  show ?thesis by (cases "s i") (auto simp: CBU8_NEXT_def intro!: ends_mono [OF b])
qed

lemma CBU8_NEXT_Inr: "CBU8_NEXT s i n = Inr (c, j) \<Longrightarrow> i < j \<and> (\<exists>b. s i = Inr b)"
  using CBU8_NEXT_mono [of s i n] by (cases "s i") (auto simp: CBU8_NEXT_def)

lemma ends_any: "(\<And>x. Q x) \<Longrightarrow> ends UNIV m Q"
  by (cases m) auto

lemmas ends_opaque = ends_any [where m = "deref p" for p] ends_any [where m = "hex_piece p i n" for p i n]
  ends_any [where m = "Append c b" for c b] ends_any [where m = "AppendString s b" for s b]
  ends_any [where m = "DecodeUTF8 p c b" for p c b] ends_any [where m = "Convert p b" for p b]

lemma DecodeUTF16_mono: "ends UNIV (DecodeUTF16 p) (\<lambda>(u, q). p_mem q = p_mem p \<and> p_index p \<le> p_index q)"
  unfolding DecodeUTF16_def
  by (auto simp: NextChar_def NextNChars_def next_deref_def Let_def intro!: ends_opaque)

lemma escape_sequence_mono: "ends UNIV (escape_sequence b p) (\<lambda>(r, q). p_mem q = p_mem p \<and> p_index p \<le> p_index q)"
  unfolding escape_sequence_def
  by (auto simp: NextChar_def next_deref_def ReportError_def split: option.split intro!: ends_opaque ends_mono [OF DecodeUTF16_mono])

lemma string_turn_Inr: "string_turn b p = Inr (Continue b1, q) \<Longrightarrow> p_mem q = p_mem p \<and> p_index p < p_index q \<and> p_index p \<le> length (p_mem p)"
  by (auto simp: string_turn_def Let_def res_simps peek_def split: if_splits dest!: CBU8_NEXT_Inr ends_Inr [OF escape_sequence_mono])

function string_loop :: "builder \<Rightarrow> parser \<Rightarrow> (builder option \<times> parser) res" where
  "string_loop b p =
     (if CanConsume p 1 then
        bindR (string_turn b p) (\<lambda>(r, p1).
          case r of Failed \<Rightarrow> Inr (None, p1) | Closed b1 \<Rightarrow> Inr (Some b1, p1) | Continue b1 \<Rightarrow> string_loop b1 p1)
      else Inr (None, ReportError JSON_SYNTAX_ERROR 0 p))"
  by pat_completeness auto
termination
  by (relation "measure (\<lambda>(b, p). Suc (length (p_mem p)) - p_index p)") (auto dest!: string_turn_Inr)

declare string_loop.simps [simp del]

definition ConsumeStringRaw :: "parser \<Rightarrow> (builder option \<times> parser) res" where
  "ConsumeStringRaw p = bindR (deref p) (\<lambda>c.
     if c \<noteq> 34 then Inr (None, ReportError JSON_UNEXPECTED_TOKEN 1 p)
     else bindR (NextChar p) (\<lambda>p1. string_loop (new_StringBuilder (p_pos p1)) p1))"

definition ConsumeString :: "parser \<Rightarrow> ('d val option \<times> parser) res" where
  "ConsumeString p = bindR (ConsumeStringRaw p) (\<lambda>(r, p1). case r of None \<Rightarrow> Inr (None, p1)
     | Some string \<Rightarrow>
         if CanBeStringPiece string \<and> \<not> has_option JSON_DETACHABLE_CHILDREN p1 then
           bindR (AsStringPiece p1 string) (\<lambda>s. Inr (Some (StringValue s), p1))
         else bindR (AsString p1 string) (\<lambda>s. bindR (new_StringValue s) (\<lambda>v. Inr (Some v, p1))))"

section \<open>Numbers and literals\<close>

function read_digits :: "int \<Rightarrow> nat \<Rightarrow> parser \<Rightarrow> (nat \<times> parser) res" where
  "read_digits c len p =
     (if CanConsume p 1 \<and> IsAsciiDigit c then bindR (next_deref p) (\<lambda>(c1, p1). read_digits c1 (len + 1) p1)
      else Inr (len, p))"
  by pat_completeness auto
termination
  by (relation "measure (\<lambda>(c, len, p). length (p_mem p) - p_pos p)") (auto dest!: next_deref_Inr)

declare read_digits.simps [simp del]

definition ReadInt :: "bool \<Rightarrow> parser \<Rightarrow> (bool \<times> parser) res" where
  "ReadInt allow_leading_zeros p = bindR (deref p) (\<lambda>first. bindR (read_digits first 0 p) (\<lambda>(len, p1).
     Inr (if len = 0 then False else if \<not> allow_leading_zeros \<and> len > 1 \<and> first = 48 then False else True, p1)))"

text \<open>The optional parts of a number; \<open>False\<close> where the number is wrong.\<close>

definition read_fraction :: "parser \<Rightarrow> (bool \<times> parser) res" where
  "read_fraction p = bindR (deref p) (\<lambda>c.
     if c = 46 then
       if \<not> CanConsume p 1 then Inr (False, p) else bindR (NextChar p) (ReadInt True)
     else Inr (True, p))"

definition read_exponent :: "parser \<Rightarrow> (bool \<times> parser) res" where
  "read_exponent p = bindR (deref p) (\<lambda>c.
     if c = 101 \<or> c = 69 then
       bindR (NextChar p) (\<lambda>p1. bindR (deref p1) (\<lambda>d.
         bindR (if d = 45 \<or> d = 43 then NextChar p1 else Inr p1) (ReadInt True)))
     else Inr (True, p))"

definition read_number :: "parser \<Rightarrow> (bool \<times> parser) res" where
  "read_number p = bindR (deref p) (\<lambda>c. bindR (if c = 45 then NextChar p else Inr p) (\<lambda>p1.
     bindR (ReadInt False p1) (\<lambda>(ok, p2). if \<not> ok then Inr (False, p2) else
     bindR (read_fraction p2) (\<lambda>(ok, p3). if \<not> ok then Inr (False, p3) else read_exponent p3))))"

text \<open>\<open>end_index\<close> is the index after the parts that were there.\<close>

definition finish_number :: "'d doubles \<Rightarrow> nat \<Rightarrow> nat \<Rightarrow> parser \<Rightarrow> ('d val option \<times> parser) res" where
  "finish_number ds num_start start_index p =
     (let end_index = p_index p; exit_pos = p_pos p - 1; exit_index = p_index p - 1 in
      bindR (GetNextToken p) (\<lambda>(token, p1).
        if token \<noteq> T_OBJECT_END \<and> token \<noteq> T_ARRAY_END \<and> token \<noteq> T_LIST_SEPARATOR \<and> token \<noteq> T_END_OF_INPUT
        then Inr (None, ReportError JSON_SYNTAX_ERROR 1 p1)
        else
          let p2 = p1\<lparr>p_pos := exit_pos, p_index := exit_index\<rparr> in
          bindR (piece p2 num_start (end_index - start_index)) (\<lambda>num_string.
            let (ok, num_int) = StringToInt num_string in
            if ok then Inr (Some (IntegerValue (word_of_int num_int)), p2)
            else case d_from_string ds num_string of Some num_double \<Rightarrow> Inr (Some (DoubleValue num_double), p2)
              | None \<Rightarrow> Inr (None, p2))))"

definition ConsumeNumber :: "'d doubles \<Rightarrow> parser \<Rightarrow> ('d val option \<times> parser) res" where
  "ConsumeNumber ds p = bindR (read_number p) (\<lambda>(ok, p1).
     if \<not> ok then Inr (None, ReportError JSON_SYNTAX_ERROR 1 p1) else finish_number ds (p_pos p) (p_index p) p1)"

text \<open>\<open>strncmp\<close> stops at the first difference.\<close>

fun StringsAreEqual :: "parser \<Rightarrow> nat \<Rightarrow> ustring \<Rightarrow> bool res" where
  "StringsAreEqual p one [] = Inr True"
| "StringsAreEqual p one (c # two) = bindR (peek p one) (\<lambda>b. if b = c then StringsAreEqual p (one + 1) two else Inr False)"

definition consume_literal :: "ustring \<Rightarrow> 'd val \<Rightarrow> parser \<Rightarrow> ('d val option \<times> parser) res" where
  "consume_literal literal value p =
     (let len = length literal in
      bindR (if \<not> CanConsume p (len - 1) then Inr False else StringsAreEqual p (p_pos p) literal) (\<lambda>ok.
        if \<not> ok then Inr (None, ReportError JSON_SYNTAX_ERROR 1 p)
        else bindR (NextNChars (len - 1) p) (\<lambda>p1. Inr (Some value, p1))))"

definition ConsumeLiteral :: "parser \<Rightarrow> ('d val option \<times> parser) res" where
  "ConsumeLiteral p = bindR (deref p) (\<lambda>c.
     if c = 116 then consume_literal [116, 114, 117, 101] (BooleanValue True) p
     else if c = 102 then consume_literal [102, 97, 108, 115, 101] (BooleanValue False) p
     else if c = 110 then consume_literal [110, 117, 108, 108] NullValue p
     else Inr (None, ReportError JSON_UNEXPECTED_TOKEN 1 p))"

section \<open>Lists, dictionaries and the whole input\<close>

text \<open>
  \<open>StackMarker\<close> counts the containers around; its destructor runs on every return.  \<open>turns\<close> bounds the depth
  of the recursion of the model; \<open>enough_turns\<close> is enough for any input (\<open>JsonSafety\<close>).
\<close>

definition marker_enter :: "parser \<Rightarrow> parser res" where
  "marker_enter p = (let p1 = p\<lparr>p_stack_depth := p_stack_depth p + 1\<rparr> in
     bindR (dcheck (p_stack_depth p1 \<le> kStackMaxDepth) ''DCHECK_LE(*depth_, kStackMaxDepth)'') (\<lambda>_. Inr p1))"

definition marker_leave :: "'a \<times> parser \<Rightarrow> ('a \<times> parser) res" where
  "marker_leave = (\<lambda>(r, p). Inr (r, p\<lparr>p_stack_depth := p_stack_depth p - 1\<rparr>))"

definition IsTooDeep :: "parser \<Rightarrow> bool" where
  "IsTooDeep p \<longleftrightarrow> p_stack_depth p \<ge> kStackMaxDepth"

text \<open>A key with its separator, up to the token of the value.\<close>

definition dictionary_key :: "parser \<Rightarrow> ((builder \<times> token) option \<times> parser) res" where
  "dictionary_key p =
     bindR (ConsumeStringRaw p) (\<lambda>(raw, p1). case raw of None \<Rightarrow> Inr (None, p1) | Some key \<Rightarrow>
       bindR (NextChar p1) (\<lambda>p2. bindR (GetNextToken p2) (\<lambda>(token, p3).
         if token \<noteq> T_OBJECT_PAIR_SEPARATOR then Inr (None, ReportError JSON_SYNTAX_ERROR 1 p3)
         else bindR (NextChar p3) (\<lambda>p4. bindR (GetNextToken p4) (\<lambda>(token, p5). Inr (Some (key, token), p5))))))"

text \<open>
  What follows a value, in both containers: a comma or the closing token.  The error of a dictionary is one
  column before that of a list.
\<close>

definition after_value :: "token \<Rightarrow> int \<Rightarrow> parser \<Rightarrow> (token option \<times> parser) res" where
  "after_value closing column_adjust p =
     bindR (NextChar p) (\<lambda>p1. bindR (GetNextToken p1) (\<lambda>(token, p2).
       if token = T_LIST_SEPARATOR then
         bindR (NextChar p2) (\<lambda>p3. bindR (GetNextToken p3) (\<lambda>(token, p4).
           if token = closing \<and> \<not> has_option JSON_ALLOW_TRAILING_COMMAS p4
           then Inr (None, ReportError JSON_TRAILING_COMMA 1 p4)
           else Inr (Some token, p4)))
       else if token \<noteq> closing then Inr (None, ReportError JSON_SYNTAX_ERROR column_adjust p2)
       else Inr (Some token, p2)))"

text \<open>Into a container, if it is not too deep: past the opening token and to the next one.\<close>

definition open_container :: "(token \<Rightarrow> parser \<Rightarrow> ('a option \<times> parser) res) \<Rightarrow> parser \<Rightarrow> ('a option \<times> parser) res" where
  "open_container loop p =
     bindR (marker_enter p) (\<lambda>p1.
       bindR
         (if IsTooDeep p1 then Inr (None, ReportError JSON_TOO_MUCH_NESTING 1 p1)
          else bindR (NextChar p1) (\<lambda>p2. bindR (GetNextToken p2) (\<lambda>(token, p3). loop token p3)))
         marker_leave)"

declare bindR_cong [fundef_cong del]

fun ParseToken :: "'d doubles \<Rightarrow> nat \<Rightarrow> token \<Rightarrow> parser \<Rightarrow> ('d val option \<times> parser) res"
  and ConsumeDictionary :: "'d doubles \<Rightarrow> nat \<Rightarrow> parser \<Rightarrow> ('d val option \<times> parser) res"
  and dictionary_loop :: "'d doubles \<Rightarrow> nat \<Rightarrow> 'd dict \<Rightarrow> token \<Rightarrow> parser \<Rightarrow> ('d val option \<times> parser) res"
  and ConsumeList :: "'d doubles \<Rightarrow> nat \<Rightarrow> parser \<Rightarrow> ('d val option \<times> parser) res"
  and consume_list_loop :: "'d doubles \<Rightarrow> nat \<Rightarrow> 'd val list \<Rightarrow> token \<Rightarrow> parser \<Rightarrow> ('d val option \<times> parser) res" where
  "ParseToken ds 0 token p = Inl OutOfTurns"
| "ParseToken ds (Suc turns) token p =
     (if token = T_OBJECT_BEGIN then ConsumeDictionary ds turns p
      else if token = T_ARRAY_BEGIN then ConsumeList ds turns p
      else if token = T_STRING then ConsumeString p
      else if token = T_NUMBER then ConsumeNumber ds p
      else if token = T_BOOL_TRUE \<or> token = T_BOOL_FALSE \<or> token = T_NULL then ConsumeLiteral p
      else Inr (None, ReportError JSON_UNEXPECTED_TOKEN 1 p))"
| "ConsumeDictionary ds 0 p = Inl OutOfTurns"
| "ConsumeDictionary ds (Suc turns) p = bindR (deref p) (\<lambda>c.
     if c \<noteq> 123 then Inr (None, ReportError JSON_UNEXPECTED_TOKEN 1 p)
     else open_container (dictionary_loop ds turns []) p)"
| "dictionary_loop ds 0 dict token p = Inl OutOfTurns"
| "dictionary_loop ds (Suc turns) dict token p =
     (if token = T_OBJECT_END then Inr (Some (DictionaryValue dict), p)
      else if token \<noteq> T_STRING then Inr (None, ReportError JSON_UNQUOTED_DICTIONARY_KEY 1 p)
      else bindR (dictionary_key p) (\<lambda>(k, p1). case k of None \<Rightarrow> Inr (None, p1) | Some (key, token) \<Rightarrow>
        bindR (ParseToken ds turns token p1) (\<lambda>(r, p2). case r of None \<Rightarrow> Inr (None, p2) | Some value \<Rightarrow>
          bindR (AsString p2 key) (\<lambda>key.
          bindR (after_value T_OBJECT_END 0 p2) (\<lambda>(t, p3). case t of None \<Rightarrow> Inr (None, p3)
            | Some token \<Rightarrow> dictionary_loop ds turns (SetWithoutPathExpansion key value dict) token p3)))))"
| "ConsumeList ds 0 p = Inl OutOfTurns"
| "ConsumeList ds (Suc turns) p = bindR (deref p) (\<lambda>c.
     if c \<noteq> 91 then Inr (None, ReportError JSON_UNEXPECTED_TOKEN 1 p)
     else open_container (consume_list_loop ds turns []) p)"
| "consume_list_loop ds 0 l token p = Inl OutOfTurns"
| "consume_list_loop ds (Suc turns) l token p =
     (if token = T_ARRAY_END then Inr (Some (ListValue l), p)
      else bindR (ParseToken ds turns token p) (\<lambda>(r, p1). case r of None \<Rightarrow> Inr (None, p1) | Some item \<Rightarrow>
        bindR (after_value T_ARRAY_END 1 p1) (\<lambda>(t, p2). case t of None \<Rightarrow> Inr (None, p2)
          | Some token \<Rightarrow> consume_list_loop ds turns (l @ [item]) token p2)))"

definition enough_turns :: "parser \<Rightarrow> nat" where
  "enough_turns p = 3 * length (p_mem p) + 3"

definition ParseNextToken :: "'d doubles \<Rightarrow> parser \<Rightarrow> ('d val option \<times> parser) res" where
  "ParseNextToken ds p = bindR (GetNextToken p) (\<lambda>(token, p1). ParseToken ds (enough_turns p1) token p1)"

text \<open>\<open>behind\<close> is the byte behind the caller's input, if it can be read.\<close>

definition start_parse :: "ustring \<Rightarrow> int option \<Rightarrow> parser \<Rightarrow> parser" where
  "start_parse input behind p =
     p\<lparr>p_mem := input, p_after := (if has_option JSON_DETACHABLE_CHILDREN p then behind else Some 0),
       p_pos := 0, p_index := 0, p_line_number := 1, p_index_last_line := 0,
       p_error_code := JSON_NO_ERROR, p_error_line := 0, p_error_column := 0\<rparr>"

definition skip_bom :: "parser \<Rightarrow> parser res" where
  "skip_bom p =
     (if CanConsume p 3 \<and> p_mem p ! p_pos p = 0xEF \<and> p_mem p ! (p_pos p + 1) = 0xBB \<and> p_mem p ! (p_pos p + 2) = 0xBF
      then NextNChars 3 p else Inr p)"

definition Parse :: "'d doubles \<Rightarrow> ustring \<Rightarrow> int option \<Rightarrow> parser \<Rightarrow> ('d val option \<times> parser) res" where
  "Parse ds input behind p =
     bindR (skip_bom (start_parse input behind p)) (\<lambda>p1.
     bindR (ParseNextToken ds p1) (\<lambda>(r, p2). case r of None \<Rightarrow> Inr (None, p2) | Some root \<Rightarrow>
       bindR (GetNextToken p2) (\<lambda>(token, p3).
       bindR (if token \<noteq> T_END_OF_INPUT then
                if \<not> CanConsume p3 1 then Inr (False, p3)
                else bindR (NextChar p3) (\<lambda>p4. bindR (GetNextToken p4) (\<lambda>(token, p5). Inr (token = T_END_OF_INPUT, p5)))
              else Inr (True, p3)) (\<lambda>(at_end, p6).
         if \<not> at_end then Inr (None, ReportError JSON_UNEXPECTED_DATA_AFTER_ROOT 1 p6)
         else if \<not> has_option JSON_DETACHABLE_CHILDREN p6 then
           (case root of StringValue s \<Rightarrow> bindR (DeepCopy root) (\<lambda>copy. Inr (Some copy, p6)) | _ \<Rightarrow> Inr (Some root, p6))
         else Inr (Some root, p6)))))"

section \<open>\<open>JSONReader\<close>\<close>

definition Read_json :: "'d doubles \<Rightarrow> ustring \<Rightarrow> nat \<Rightarrow> int option \<Rightarrow> 'd val option res" where
  "Read_json ds json options behind = bindR (Parse ds json behind (new_JSONParser options)) (\<lambda>(root, p). Inr root)"

fun ErrorCodeToString :: "json_error \<Rightarrow> ustring" where
  "ErrorCodeToString JSON_NO_ERROR = []"
| "ErrorCodeToString JSON_INVALID_ESCAPE = codes ''Invalid escape sequence.''"
| "ErrorCodeToString JSON_SYNTAX_ERROR = codes ''Syntax error.''"
| "ErrorCodeToString JSON_UNEXPECTED_TOKEN = codes ''Unexpected token.''"
| "ErrorCodeToString JSON_TRAILING_COMMA = codes ''Trailing comma not allowed.''"
| "ErrorCodeToString JSON_TOO_MUCH_NESTING = codes ''Too much nesting.''"
| "ErrorCodeToString JSON_UNEXPECTED_DATA_AFTER_ROOT = codes ''Unexpected data after root element.''"
| "ErrorCodeToString JSON_UNSUPPORTED_ENCODING = codes ''Unsupported encoding. JSON must be UTF-8.''"
| "ErrorCodeToString JSON_UNQUOTED_DICTIONARY_KEY = codes ''Dictionary keys must be quoted.''"

definition FormatErrorMessage :: "int \<Rightarrow> int \<Rightarrow> ustring \<Rightarrow> ustring" where
  "FormatErrorMessage line column description =
     (if line \<noteq> 0 \<or> column \<noteq> 0 then
        codes ''Line: '' @ printf_d line @ codes '', column: '' @ printf_d column @ codes '', '' @ description
      else description)"

definition GetErrorMessage :: "parser \<Rightarrow> ustring" where
  "GetErrorMessage p = FormatErrorMessage (p_error_line p) (p_error_column p) (ErrorCodeToString (p_error_code p))"

definition ReadAndReturnError :: "'d doubles \<Rightarrow> ustring \<Rightarrow> nat \<Rightarrow> int option \<Rightarrow> ('d val + json_error \<times> ustring) res" where
  "ReadAndReturnError ds json options behind =
     bindR (Parse ds json behind (new_JSONParser options)) (\<lambda>(root, p).
       Inr (case root of Some v \<Rightarrow> Inl v | None \<Rightarrow> Inr (p_error_code p, GetErrorMessage p)))"

definition ReadToValue :: "'d doubles \<Rightarrow> ustring \<Rightarrow> int option \<Rightarrow> parser \<Rightarrow> ('d val option \<times> parser) res" where
  "ReadToValue ds json behind parser = Parse ds json behind parser"

end
