(* ===== verification/JsonSafety.thy ===== *)
theory JsonSafety imports JsonParser begin

text \<open>
  The parser on arbitrary bytes: it reads only the input and its terminator, the bound on its recursion is
  never used up, and the only checks that can fail are those of characters and of string values.
\<close>

section \<open>States between tokens\<close>

definition same :: "parser \<Rightarrow> parser \<Rightarrow> bool" where
  "same p q \<longleftrightarrow> p_options q = p_options p \<and> p_mem q = p_mem p \<and> p_after q = p_after p \<and> p_stack_depth q = p_stack_depth p"

definition wound :: "parser \<Rightarrow> bool" where
  "wound p \<longleftrightarrow> p_index p = p_pos p \<and> p_pos p \<le> length (p_mem p)"

definition readable :: "parser \<Rightarrow> bool" where
  "readable p \<longleftrightarrow> list_all byte (p_mem p) \<and> p_after p = Some 0"

abbreviation rest :: "parser \<Rightarrow> nat" where "rest p \<equiv> length (p_mem p) - p_pos p"

lemma same_refl [simp]: "same p p"
  by (simp add: same_def)

lemma same_trans: "same p q \<Longrightarrow> same q r \<Longrightarrow> same p r"
  by (simp add: same_def)

lemma same_mem: "same p q \<Longrightarrow> p_mem q = p_mem p"
  by (simp add: same_def)

lemma same_readable: "same p q \<Longrightarrow> readable p \<Longrightarrow> readable q"
  by (simp add: same_def readable_def)

lemma same_updates [simp]:
  "same p (q\<lparr>p_pos := x\<rparr>) = same p q" "same p (q\<lparr>p_index := x\<rparr>) = same p q" "same p (q\<lparr>p_index_last_line := x\<rparr>) = same p q"
  "same p (q\<lparr>p_line_number := y\<rparr>) = same p q" "same p (ReportError e c q) = same p q"
  "same (p\<lparr>p_pos := x\<rparr>) q = same p q" "same (p\<lparr>p_index := x\<rparr>) q = same p q" "same (p\<lparr>p_index_last_line := x\<rparr>) q = same p q"
  "same (p\<lparr>p_line_number := y\<rparr>) q = same p q"
  by (simp_all add: same_def ReportError_def)

lemma error_code_ReportError [simp]: "p_error_code (ReportError e c q) = e"
  by (simp add: ReportError_def)

text \<open>One character on.\<close>

definition forth :: "parser \<Rightarrow> parser" where
  "forth p = p\<lparr>p_index := p_index p + 1, p_pos := p_pos p + 1\<rparr>"

definition cur :: "parser \<Rightarrow> int" where
  "cur p = (if p_pos p < length (p_mem p) then p_mem p ! p_pos p else 0)"

lemma forth_simps [simp]:
  "same p (forth q) = same p q" "same (forth p) q = same p q" "p_pos (forth p) = p_pos p + 1" "p_mem (forth p) = p_mem p"
  "p_index (forth p) = p_index p + 1" "p_after (forth p) = p_after p" "p_options (forth p) = p_options p"
  "p_stack_depth (forth p) = p_stack_depth p"
  by (simp_all add: forth_def)

lemma readable_forth [simp]: "readable (forth p) = readable p"
  by (simp add: readable_def forth_def)

lemma wound_forth: "wound p \<Longrightarrow> p_pos p < length (p_mem p) \<Longrightarrow> wound (forth p)"
  by (simp add: wound_def)

lemma NextChar_forth: "p_pos p < length (p_mem p) \<Longrightarrow> NextChar p = Inr (forth p)"
  by (simp add: NextChar_def forth_def)

lemma byte_ok: "readable p \<Longrightarrow> i \<le> length (p_mem p) \<Longrightarrow> peek p i = Inr (if i < length (p_mem p) then p_mem p ! i else 0)"
  by (simp add: peek_def readable_def)

lemma deref_ok: "readable p \<Longrightarrow> p_pos p \<le> length (p_mem p) \<Longrightarrow> deref p = Inr (cur p)"
  by (simp add: deref_def byte_ok cur_def)

lemma next_deref_ok: "readable p \<Longrightarrow> p_pos p < length (p_mem p) \<Longrightarrow> next_deref p = Inr (cur (forth p), forth p)"
  using deref_ok [of "forth p"] by (simp add: next_deref_def NextChar_forth)

lemma less_length: "wound p \<Longrightarrow> p_pos p \<le> length (p_mem p)"
  by (simp add: wound_def)

definition moved :: "parser \<Rightarrow> parser \<Rightarrow> bool" where
  "moved p q \<longleftrightarrow> same p q \<and> wound q \<and> p_pos p \<le> p_pos q"

lemma line_comment_ends:
  "readable p \<Longrightarrow> wound p \<Longrightarrow> ends F (line_comment p) (\<lambda>(b, q). moved p q \<and> (b \<longrightarrow> p_pos p < p_pos q))"
proof (induction "rest p" arbitrary: p rule: less_induct)
  case less
  show ?case
  proof (cases "p_pos p < length (p_mem p)")
    case True
    note n = next_deref_ok [OF less(2) True] and w = wound_forth [OF less(3) True]
    have "ends F (line_comment (forth p)) (\<lambda>(b, q). moved (forth p) q \<and> (b \<longrightarrow> p_pos (forth p) < p_pos q))"
      using less(2) w True by (intro less(1)) auto
    then have "ends F (line_comment (forth p)) (\<lambda>(b, q). moved p q \<and> (b \<longrightarrow> p_pos p < p_pos q))"
      by (rule ends_mono) (auto simp: moved_def)
    then show ?thesis using True n w by (subst line_comment.simps) (auto simp: moved_def)
  qed (use less in \<open>subst line_comment.simps, simp add: moved_def\<close>)
qed

lemma block_comment_ends:
  "readable p \<Longrightarrow> wound p \<Longrightarrow> ends F (block_comment p) (\<lambda>(b, q). moved p q \<and> (b \<longrightarrow> p_pos p < p_pos q))"
proof (induction "rest p" arbitrary: p rule: less_induct)
  case less
  show ?case
  proof (cases "p_pos p + 2 \<le> length (p_mem p)")
    case True
    then have l: "p_pos p < length (p_mem p)" "p_pos (forth p) < length (p_mem (forth p))" by auto
    note n = next_deref_ok [OF less(2) l(1)] and w = wound_forth [OF less(3) l(1)]
    have r: "readable (forth p)" using less(2) by simp
    note n' = next_deref_ok [OF r l(2)] and w' = wound_forth [OF w l(2)]
    have *: "ends F (block_comment q) (\<lambda>(b, q). moved p q \<and> (b \<longrightarrow> p_pos p < p_pos q))"
      if "q = forth p \<or> q = forth (forth p)" for q
    proof -
      have "ends F (block_comment q) (\<lambda>(b, r). moved q r \<and> (b \<longrightarrow> p_pos q < p_pos r))"
        using that less(2) w w' l by (intro less(1)) auto
      then show ?thesis by (rule ends_mono) (use that in \<open>auto simp: moved_def\<close>)
    qed
    have e: "cur (forth (forth p)) = 47 \<Longrightarrow> p_pos (forth (forth p)) < length (p_mem (forth (forth p)))"
      by (simp add: cur_def split: if_splits)
    have "NextChar (forth (forth p)) = Inr (forth (forth (forth p)))" "wound (forth (forth (forth p)))"
      if "cur (forth (forth p)) = 47"
      using NextChar_forth [OF e [OF that]] wound_forth [OF w' e [OF that]] by auto
    then show ?thesis using True n n' * by (subst block_comment.simps) (auto simp: moved_def)
  qed (use less in \<open>subst block_comment.simps, simp add: moved_def\<close>)
qed

lemma EatComment_ends:
  assumes "readable p" "wound p" "p_pos p < length (p_mem p)"
  shows "ends F (EatComment p) (\<lambda>(b, q). moved p q \<and> (b \<longrightarrow> p_pos p < p_pos q))"
proof -
  note w = wound_forth [OF assms(2,3)]
  have r: "readable (forth p)" using assms(1) by simp
  have "ends F (line_comment (forth p)) (\<lambda>(b, q). moved p q \<and> (b \<longrightarrow> p_pos p < p_pos q))"
    "ends F (block_comment (forth p)) (\<lambda>(b, q). moved p q \<and> (b \<longrightarrow> p_pos p < p_pos q))"
    by (rule ends_mono [OF line_comment_ends [OF r w]] ends_mono [OF block_comment_ends [OF r w]]; auto simp: moved_def)+
  then show ?thesis
    using deref_ok [OF assms(1)] next_deref_ok [OF assms(1,3)] assms(2,3) w by (auto simp: EatComment_def moved_def)
qed

lemma EatWhitespaceAndComments_ends:
  "readable p \<Longrightarrow> wound p \<Longrightarrow> ends F (EatWhitespaceAndComments p) (moved p)"
proof (induction "rest p" arbitrary: p rule: less_induct)
  case less
  show ?case
  proof (cases "p_pos p < length (p_mem p)")
    case True
    have go: "ends F (EatWhitespaceAndComments q) (moved p)" if "readable q" "wound q" "same p q" "p_pos p < p_pos q" for q
    proof -
      have "ends F (EatWhitespaceAndComments q) (moved q)"
        using that True less_length [of q] by (intro less(1)) (auto simp: same_def)
      then show ?thesis by (rule ends_mono) (use that in \<open>auto simp: moved_def intro: same_trans\<close>)
    qed
    let ?p = "p\<lparr>p_index_last_line := p_index p, p_line_number := p_line_number p + 1\<rparr>"
    have new: "ends F (NextChar q) (\<lambda>q. ends F (EatWhitespaceAndComments q) (moved p))" if "q = p \<or> q = ?p" for q
      using that True less(2,3) NextChar_forth [of q] wound_forth [of q] by (auto intro!: go simp: readable_def wound_def)
    have com: "ends F (EatComment p) (\<lambda>(b, q). ends F (if b then EatWhitespaceAndComments q else Inr q) (moved p))"
      by (rule ends_mono [OF EatComment_ends [OF less(2,3) True]])
        (auto simp: moved_def intro!: go intro: same_readable [OF _ less(2)])
    show ?thesis
      using True deref_ok [OF less(2)] new [of p] new [of ?p] com less(3)
      by (subst EatWhitespaceAndComments.simps) (auto simp: moved_def case_prod_unfold)
  qed (use less in \<open>subst EatWhitespaceAndComments.simps, simp add: moved_def\<close>)
qed

definition at_token :: "parser \<Rightarrow> token \<Rightarrow> bool" where
  "at_token p t \<longleftrightarrow> t = (if p_pos p < length (p_mem p) then token_of (p_mem p ! p_pos p) else T_END_OF_INPUT)"

lemma GetNextToken_ends:
  assumes "readable p" "wound p"
  shows "ends F (GetNextToken p) (\<lambda>(t, q). moved p q \<and> at_token q t)"
proof -
  have "ends F (if \<not> CanConsume q 1 then Inr (T_END_OF_INPUT, q) else bindR (deref q) (\<lambda>c. Inr (token_of c, q)))
      (\<lambda>(t, q). moved p q \<and> at_token q t)" if "moved p q" for q
    using that deref_ok [of q] same_readable [OF _ assms(1), of q] by (auto simp: at_token_def cur_def moved_def wound_def)
  then show ?thesis unfolding GetNextToken_def ends_bind by (intro ends_mono [OF EatWhitespaceAndComments_ends [OF assms]])
qed

section \<open>Strings\<close>

text \<open>The checks that an input can fail.\<close>

definition input_checks :: "fault set" where
  "input_checks = {DcheckFailed ''DCHECK_GE(c, 0)'', DcheckFailed ''IsStringUTF8(in_value)''}"

definition reported :: "parser \<Rightarrow> bool" where
  "reported p \<longleftrightarrow> p_error_code p \<noteq> JSON_NO_ERROR"

lemma reported_ReportError [simp]: "reported (ReportError e c p) \<longleftrightarrow> e \<noteq> JSON_NO_ERROR"
  by (simp add: reported_def)

text \<open>A builder that is still a piece of the input holds what was read, without escapes, up to offset \<open>i\<close>.\<close>

definition pieced :: "parser \<Rightarrow> nat \<Rightarrow> builder \<Rightarrow> bool" where
  "pieced p i b \<longleftrightarrow> (case b_string b of Some s \<Rightarrow> list_all byte s
     | None \<Rightarrow> b_pos b + b_length b = i \<and> list_all (\<lambda>c. 0 \<le> c \<and> c < 128) (take (b_length b) (drop (b_pos b) (p_mem p))))"

definition converted :: "builder \<Rightarrow> bool" where
  "converted b \<longleftrightarrow> (\<exists>s. b_string b = Some s \<and> list_all byte s)"

lemma pieced_converted [simp]: "converted b \<Longrightarrow> pieced p i b"
  by (auto simp: pieced_def converted_def)

lemma pieced_same: "p_mem q = p_mem p \<Longrightarrow> pieced q i b = pieced p i b"
  by (simp add: pieced_def split: option.split)

lemma Convert_ends: "pieced p i b \<Longrightarrow> i \<le> length (p_mem p) \<Longrightarrow> ends F (Convert p b) converted"
  by (auto simp: Convert_def piece_def pieced_def converted_def list_all_iff split: option.splits)

lemma take_Suc_if: "take (Suc n) xs = take n xs @ (if n < length xs then [xs ! n] else [])"
  by (simp add: take_Suc_conv_app_nth)

lemma Append_ends:
  assumes "pieced p i b" "DcheckFailed ''DCHECK_GE(c, 0)'' \<in> F \<or> 0 \<le> c" "c < 128" "i < length (p_mem p) \<longrightarrow> p_mem p ! i = c \<or> converted b"
  shows "ends F (Append c b) (pieced p (i + 1))"
  using assms by (auto simp: Append_def pieced_def converted_def take_Suc_if less_diff_conv add.commute split: option.split)

lemma ascii_bytes: "list_all (\<lambda>c. 0 \<le> c \<and> c < 128) s \<Longrightarrow> list_all byte s"
  by (auto simp: list_all_iff)

lemma unsafe_bytes: "list_all byte (CBU8_APPEND_UNSAFE c)"
  by (simp add: CBU8_APPEND_UNSAFE_def Let_def)

lemma unsafe_takeWhile: "list_all byte (takeWhile P (CBU8_APPEND_UNSAFE c))"
  using unsafe_bytes [of c] by (auto simp: list_all_iff dest: set_takeWhileD)

lemma AppendString_ends: "converted b \<Longrightarrow> list_all byte s \<Longrightarrow> ends F (AppendString s b) converted"
  by (auto simp: AppendString_def converted_def)

lemma DecodeUTF8_ends:
  "pieced p i b \<Longrightarrow> i \<le> length (p_mem p) \<Longrightarrow> 0x80 \<le> c \<Longrightarrow> ends F (DecodeUTF8 p c b) converted"
  by (auto simp: DecodeUTF8_def kExtendedASCIIStart_def intro!: ends_mono [OF Convert_ends] AppendString_ends unsafe_bytes)

lemma hex_piece_ends:
  "readable p \<Longrightarrow> i + n \<le> length (p_mem p) + 1 \<Longrightarrow> ends F (hex_piece p i n) (\<lambda>x. True)"
  by (auto simp: hex_piece_def readable_def Let_def)

text \<open>Between the characters of a string the index is one past the position, unless the input is at its end.\<close>

definition inside :: "parser \<Rightarrow> bool" where
  "inside p \<longleftrightarrow> p_pos p \<le> length (p_mem p) \<and> p_pos p < p_index p \<and> (p_pos p < length (p_mem p) \<longrightarrow> p_index p \<le> length (p_mem p))"

lemma NextNChars_forth: "p_pos p + n \<le> length (p_mem p) \<Longrightarrow> NextNChars n p = Inr ((forth ^^ n) p)"
proof -
  have "(forth ^^ n) p = p\<lparr>p_index := p_index p + n, p_pos := p_pos p + n\<rparr>"
    by (induction n) (simp_all add: forth_def)
  then show "p_pos p + n \<le> length (p_mem p) \<Longrightarrow> ?thesis" by (simp add: NextNChars_def)
qed

lemma DecodeUTF16_ends:
  assumes "readable p" "p_index p = p_pos p + 1"
  shows "ends F (DecodeUTF16 p) (\<lambda>(u, q). same p q \<and> (\<forall>s. u = Some s \<longrightarrow> list_all byte s) \<and> (u \<noteq> None \<longrightarrow> p_pos q \<le> length (p_mem q) \<and> p_pos p < p_pos q \<and> p_index q = p_pos q + 1))"
proof -
  let ?Q = "\<lambda>(u, q). same p q \<and> (\<forall>s. u = Some s \<longrightarrow> list_all byte s) \<and> (u \<noteq> None \<longrightarrow> p_pos q \<le> length (p_mem q) \<and> p_pos p < p_pos q \<and> p_index q = p_pos q + 1)"
  let ?p1 = "(forth ^^ 3) p"
  let ?p2 = "forth ?p1" let ?p3 = "forth ?p2" let ?p4 = "forth ?p3" let ?p5 = "(forth ^^ 3) ?p4"
  have "ends F (DecodeUTF16 p) ?Q" if len: "p_pos p + 4 \<le> length (p_mem p)"
  proof -
    have n: "NextNChars 3 p = Inr ?p1" using len by (intro NextNChars_forth) simp
    have "ends F (bindR (NextNChars 3 p) (\<lambda>p1.
          if CBU_IS_SURROGATE hi then
            if \<not> CBU16_IS_SURROGATE_LEAD hi then Inr (None, p1)
            else if \<not> CanConsume p1 6 then Inr (None, p1)
            else bindR (next_deref p1) (\<lambda>(c, p2).
              if c \<noteq> 92 then Inr (None, p2)
              else bindR (next_deref p2) (\<lambda>(d, p3).
                if d \<noteq> 117 then Inr (None, p3)
                else bindR (NextChar p3) (\<lambda>p4.
                  bindR (hex_piece p4 (p_pos p4) 4) (\<lambda>(ok, code_unit16_low).
                    if \<not> ok then Inr (None, p4)
                    else bindR (NextNChars 3 p4) (\<lambda>p5.
                      if \<not> CBU16_IS_TRAIL code_unit16_low then Inr (None, p5)
                      else let code_point = CBU16_GET_SUPPLEMENTARY hi code_unit16_low
                           in Inr (Some (takeWhile (\<lambda>b. b \<noteq> 0) (CBU8_APPEND_UNSAFE code_point)), p5))))))
          else Inr (Some (takeWhile (\<lambda>b. b \<noteq> 0) (CBU8_APPEND_UNSAFE hi)), p1))) ?Q" for hi
    proof (cases "p_pos p + 9 \<le> length (p_mem p)")
      case True
      then have l: "p_pos ?p1 < length (p_mem ?p1)" "p_pos ?p2 < length (p_mem ?p2)" "p_pos ?p3 < length (p_mem ?p3)" "p_pos ?p4 + 3 \<le> length (p_mem ?p4)"
        by (simp_all add: numeral_3_eq_3)
      have r: "readable ?p1" "readable ?p2" "readable ?p4" using assms(1) by (simp_all add: numeral_3_eq_3)
      have h: "ends F (hex_piece ?p4 (p_pos ?p4) 4) (\<lambda>x. True)" using r(3) l(4) by (intro hex_piece_ends) simp_all
      show ?thesis
        using n next_deref_ok [OF r(1) l(1)] next_deref_ok [OF r(2) l(2)] NextChar_forth [OF l(3)] NextNChars_forth [OF l(4)] True assms(2) ends_mono [OF h]
        by (simp add: Let_def numeral_3_eq_3 case_prod_unfold unsafe_takeWhile)
    qed (use n len assms(2) in \<open>auto simp: numeral_3_eq_3 unsafe_takeWhile\<close>)
    then show ?thesis using len assms(1) unfolding DecodeUTF16_def
      by (auto intro!: ends_mono [OF hex_piece_ends])
  qed
  then show ?thesis by (cases "p_pos p + 4 \<le> length (p_mem p)") (auto simp: DecodeUTF16_def)
qed

lemma ge_check [simp]: "DcheckFailed ''DCHECK_GE(c, 0)'' \<in> input_checks" "DcheckFailed ''IsStringUTF8(in_value)'' \<in> input_checks"
  by (simp_all add: input_checks_def)

lemma Append_converted: "converted b \<Longrightarrow> c < 128 \<Longrightarrow> ends input_checks (Append c b) converted"
  by (auto simp: Append_def converted_def)

lemma inside_end: "p_pos q \<le> length (p_mem q) \<Longrightarrow> p_index q = p_pos q + 1 \<Longrightarrow> inside q"
  by (simp add: inside_def)

definition escaped :: "parser \<Rightarrow> outcome \<times> parser \<Rightarrow> bool" where
  "escaped p = (\<lambda>(r, q). same p q \<and>
     (case r of Failed \<Rightarrow> reported q | Closed b \<Rightarrow> False | Continue b \<Rightarrow> converted b \<and> inside q \<and> p_index p < p_index q))"

lemma escape_sequence_ends:
  assumes "readable p" "p_index p = p_pos p + 1" "p_pos p < length (p_mem p)" "converted b"
  shows "ends input_checks (escape_sequence b p) (escaped p)"
proof -
  let ?p1 = "forth p" let ?p2 = "forth ?p1" let ?p3 = "forth ?p2"
  let ?c = "cur ?p1"
  note n = next_deref_ok [OF assms(1,3)]
  have r: "readable ?p1" "readable ?p2" "readable ?p3" using assms(1) by simp_all
  have x: "ends input_checks (bindR (NextChar ?p1) (\<lambda>p2. bindR (hex_piece p2 (p_pos p2) 2) (\<lambda>(ok, hex_digit).
            if \<not> ok then Inr (Failed, ReportError JSON_INVALID_ESCAPE (- 1) p2)
            else bindR (NextChar p2) (\<lambda>p3.
              bindR (if hex_digit < kExtendedASCIIStart then Append hex_digit b else DecodeUTF8 p3 hex_digit b) (\<lambda>b1.
                Inr (Continue b1, p3)))))) (escaped p)" if l: "p_pos ?p1 + 2 \<le> length (p_mem ?p1)"
  proof -
    have l1: "p_pos ?p1 < length (p_mem ?p1)" using l by simp
    have h: "ends input_checks (hex_piece ?p2 (p_pos ?p2) 2) (\<lambda>x. True)" using l r by (intro hex_piece_ends) simp_all
    have c: "ends input_checks (if v < kExtendedASCIIStart then Append v b else DecodeUTF8 ?p3 v b) converted" for v
      using Append_converted [OF assms(4)] DecodeUTF8_ends [of ?p3 0 b] assms(4) by (simp add: kExtendedASCIIStart_def)
    have "ends input_checks (if v < kExtendedASCIIStart then Append v b else DecodeUTF8 ?p3 v b) (\<lambda>b1. escaped p (Continue b1, ?p3))" for v
      by (rule ends_mono [OF c]) (use l assms(2) in \<open>auto simp: escaped_def intro!: inside_end\<close>)
    then have "ends input_checks ((\<lambda>(ok, hex_digit).
            if \<not> ok then Inr (Failed, ReportError JSON_INVALID_ESCAPE (- 1) ?p2)
            else bindR (NextChar ?p2) (\<lambda>p3.
              bindR (if hex_digit < kExtendedASCIIStart then Append hex_digit b else DecodeUTF8 p3 hex_digit b) (\<lambda>b1.
                Inr (Continue b1, p3)))) x) (escaped p)" for x
      using l NextChar_forth [of ?p2] by (cases x) (auto simp: escaped_def [of p])
    then show ?thesis unfolding NextChar_forth [OF l1] bindR_Inr ends_bind by (intro ends_mono [OF h])
  qed
  have u: "ends input_checks (bindR (NextChar ?p1) (\<lambda>p2. bindR (DecodeUTF16 p2) (\<lambda>(utf8_units, p3).
            case utf8_units of None \<Rightarrow> Inr (Failed, ReportError JSON_INVALID_ESCAPE (- 1) p3)
            | Some units \<Rightarrow> bindR (AppendString units b) (\<lambda>b1. Inr (Continue b1, p3))))) (escaped p)" if l: "p_pos ?p1 + 5 \<le> length (p_mem ?p1)"
  proof -
    have "p_index ?p2 = p_pos ?p2 + 1" using assms(2) by simp
    note d = DecodeUTF16_ends [OF r(2) this]
    have l1: "p_pos ?p1 < length (p_mem ?p1)" using l by simp
    have "ends input_checks ((\<lambda>(utf8_units, p3). case utf8_units of None \<Rightarrow> Inr (Failed, ReportError JSON_INVALID_ESCAPE (- 1) p3)
            | Some units \<Rightarrow> bindR (AppendString units b) (\<lambda>b1. Inr (Continue b1, p3))) (v, q)) (escaped p)"
      if "same ?p2 q" "\<forall>s. v = Some s \<longrightarrow> list_all byte s" "v \<noteq> None \<Longrightarrow> p_pos q \<le> length (p_mem q) \<and> p_pos ?p2 < p_pos q \<and> p_index q = p_pos q + 1" for v q
      using that assms(2) by (cases v) (auto simp: escaped_def intro!: ends_mono [OF AppendString_ends [OF assms(4)]] inside_end)
    then show ?thesis unfolding NextChar_forth [OF l1] bindR_Inr ends_bind by (intro ends_mono [OF d]) auto
  qed
  have s: "ends input_checks (Append d b) (\<lambda>b1. escaped p (Continue b1, ?p1))" if "simple_escape c = Some d" for c d
  proof -
    have "d < 128" using that by (auto simp: simple_escape_def split: if_splits)
    then show ?thesis
      by (intro ends_mono [OF Append_converted [OF assms(4)]]) (use assms in \<open>auto simp: escaped_def intro!: inside_end\<close>)
  qed
  show ?thesis
    using assms(3) n x u s [of ?c] by (auto simp: escape_sequence_def split: option.split) (auto simp: escaped_def)
qed

definition turned :: "parser \<Rightarrow> outcome \<times> parser \<Rightarrow> bool" where
  "turned p = (\<lambda>(r, q). same p q \<and>
     (case r of Failed \<Rightarrow> reported q
      | Closed b \<Rightarrow> wound q \<and> p_pos q < length (p_mem q) \<and> p_index p \<le> p_pos q \<and> pieced q (p_pos q) b
      | Continue b \<Rightarrow> inside q \<and> pieced q (p_index q) b \<and> p_index p < p_index q))"

lemma string_turn_ends:
  assumes p: "readable p" "p_index p \<le> length (p_mem p)" and b: "pieced p (p_index p) b"
  shows "ends input_checks (string_turn b p) (turned p)"
proof -
  let ?p1 = "p\<lparr>p_pos := p_index p\<rparr>"
  let ?n = "length (p_mem p)" let ?i = "p_index p"
  have r: "readable ?p1" using p(1) by (simp add: readable_def)
  let ?rest = "\<lambda>next_char i.
        let p2 = ?p1\<lparr>p_index := i\<rparr> in
        if next_char < 0 \<or> \<not> IsValidCharacter next_char then Inr (Failed, ReportError JSON_UNSUPPORTED_ENCODING 1 p2)
        else if next_char = 92 then bindR (Convert p2 b) (\<lambda>b1. escape_sequence b1 p2)
        else if next_char = 34 then Inr (Closed b, p2\<lparr>p_index := p_index p2 - 1\<rparr>)
        else bindR (if next_char < kExtendedASCIIStart then Append next_char b else DecodeUTF8 p2 next_char b) (\<lambda>b1.
          Inr (Continue b1, p2))"
  have single: "ends input_checks (?rest c (?i + 1)) (turned p)"
    if c: "?i < ?n \<and> p_mem p ! ?i = c \<or> ?i = ?n \<and> c = 0" "c < 0x80" for c
  proof -
    let ?p2 = "?p1\<lparr>p_index := ?i + 1\<rparr>"
    have r2: "readable ?p2" using p(1) by (simp add: readable_def)
    have "ends input_checks (Append c b) (pieced p (?i + 1))" using b c by (intro Append_ends) auto
    then have a: "ends input_checks (Append c b) (\<lambda>b1. turned p (Continue b1, ?p2))"
      by (rule ends_mono) (use c p(2) in \<open>auto simp: turned_def inside_def pieced_def split: option.splits\<close>)
    have e: "ends input_checks (Convert ?p2 b) (\<lambda>b1. ends input_checks (escape_sequence b1 ?p2) (turned p))" if "c = 92"
    proof -
      have l: "?i < ?n" using that c by auto
      have "pieced ?p2 ?i b" using b by (simp add: pieced_def split: option.splits)
      then have cv: "ends input_checks (Convert ?p2 b) converted" using p(2) by (intro Convert_ends) auto
      show ?thesis
      proof (rule ends_mono [OF cv])
        fix b1
        assume "converted b1"
        then have "ends input_checks (escape_sequence b1 ?p2) (escaped ?p2)" using l r2 by (intro escape_sequence_ends) simp_all
        then show "ends input_checks (escape_sequence b1 ?p2) (turned p)"
          by (rule ends_mono) (auto simp: escaped_def turned_def split: outcome.splits)
      qed
    qed
    have q: "turned p (Closed b, ?p2\<lparr>p_index := ?i\<rparr>)" if "c = 34"
      using that c b by (auto simp: turned_def wound_def pieced_def split: option.splits)
    show ?thesis using a e q c(2) by (auto simp: Let_def turned_def kExtendedASCIIStart_def)
  qed
  have t: "ends input_checks (string_turn b p) (turned p) \<longleftrightarrow> ends input_checks (?rest c j) (turned p)"
    if "CBU8_NEXT (peek ?p1) ?i ?n = Inr (c, j)" for c j
    using that by (simp add: string_turn_def Let_def)
  show ?thesis
  proof (cases "?i < ?n")
    case False
    then have "CBU8_NEXT (peek ?p1) ?i ?n = Inr (0, ?i + 1)" using p(2) byte_ok [OF r, of ?i] by (simp add: CBU8_NEXT_def)
    from t [OF this] show ?thesis using single [of 0] False p(2) by simp
  next
    case True
    have bytes: "\<exists>b. peek ?p1 k = Inr b \<and> 0 \<le> b \<and> b < 256" if "k < ?n" for k
      using that byte_ok [OF r, of k] p(1) by (simp add: readable_def list_all_length)
    show ?thesis
    proof (rule next_some [of ?n "peek ?p1" ?i])
      fix j
      assume "CBU8_NEXT (peek ?p1) ?i ?n = Inr (- 1, j)"
      then show ?thesis by (simp add: string_turn_def Let_def turned_def)
    next
      fix c
      assume good: "CBU8_NEXT (peek ?p1) ?i ?n = Inr (c, ?i + length (utf8 c))" "0 \<le> c" "c \<le> 0x10ffff" "IsValidCodepoint c"
        "\<And>k. k < length (utf8 c) \<Longrightarrow> peek ?p1 (?i + k) = Inr (utf8 c ! k)" "?i + length (utf8 c) \<le> ?n"
      have v: "valid c" using good by (simp add: valid_def)
      note t = t [OF good(1)]
      show ?thesis
      proof (cases "c < 0x80")
        case True
        then have "utf8 c = [c]" using utf8_first [OF v] by auto
        then show ?thesis using t single [of c] good(5) [of 0] byte_ok [OF r, of ?i] True \<open>?i < ?n\<close> by (auto simp: peek_def)
      next
        case False
        let ?p2 = "?p1\<lparr>p_index := ?i + length (utf8 c)\<rparr>"
        have "pieced ?p2 ?i b" using b by (simp add: pieced_def split: option.splits)
        then have d: "ends input_checks (DecodeUTF8 ?p2 c b) converted" using False p(2) by (intro DecodeUTF8_ends) auto
        have "ends input_checks (DecodeUTF8 ?p2 c b) (\<lambda>b1. turned p (Continue b1, ?p2))"
          by (rule ends_mono [OF d]) (use True good(6) utf8_nonempty [OF v] in \<open>auto simp: turned_def inside_def\<close>)
        then show ?thesis using t False by (auto simp: Let_def turned_def kExtendedASCIIStart_def)
      qed
    qed (use bytes True in auto)
  qed
qed

lemma string_loop_ends:
  assumes "readable p" "p_pos p \<le> length (p_mem p)" "p_pos p < length (p_mem p) \<longrightarrow> p_index p \<le> length (p_mem p)" "pieced p (p_index p) b"
  shows "ends input_checks (string_loop b p) (\<lambda>(r, q). same p q \<and>
    (case r of None \<Rightarrow> reported q | Some b \<Rightarrow> wound q \<and> p_pos q < length (p_mem q) \<and> p_index p \<le> p_pos q \<and> pieced q (p_pos q) b))"
  using assms
proof (induction "Suc (length (p_mem p)) - p_index p" arbitrary: p b rule: less_induct)
  case less
  show ?case
  proof (cases "p_pos p < length (p_mem p)")
    case True
    let ?Q = "\<lambda>(r, q). same p q \<and>
      (case r of None \<Rightarrow> reported q | Some b \<Rightarrow> wound q \<and> p_pos q < length (p_mem q) \<and> p_index p \<le> p_pos q \<and> pieced q (p_pos q) b)"
    have i: "p_index p \<le> length (p_mem p)" using less(4) True by simp
    have "ends input_checks (case r of Failed \<Rightarrow> Inr (None, q) | Closed b1 \<Rightarrow> Inr (Some b1, q) | Continue b1 \<Rightarrow> string_loop b1 q) ?Q"
      if "turned p (r, q)" for r q
    proof (cases r)
      case (Continue c)
      then have c: "same p q" "inside q" "pieced q (p_index q) c" "p_index p < p_index q" using that by (auto simp: turned_def)
      have m: "p_mem q = p_mem p" using c(1) by (simp add: same_def)
      have "ends input_checks (string_loop c q) (\<lambda>(r, q'). same q q' \<and>
        (case r of None \<Rightarrow> reported q' | Some b \<Rightarrow> wound q' \<and> p_pos q' < length (p_mem q') \<and> p_index q \<le> p_pos q' \<and> pieced q' (p_pos q') b))"
        using c i same_readable [OF c(1) less(2)] by (intro less(1)) (auto simp: m inside_def)
      then show ?thesis unfolding Continue outcome.case
        by (rule ends_mono) (use c in \<open>auto split: option.splits intro: same_trans\<close>)
    qed (use that in \<open>auto simp: turned_def\<close>)
    then show ?thesis using True unfolding string_loop.simps [of b p]
      by (auto intro!: ends_mono [OF string_turn_ends [OF less(2) i less(5)]])
  qed (simp add: string_loop.simps [of b p])
qed

definition after_string :: "parser \<Rightarrow> builder option \<times> parser \<Rightarrow> bool" where
  "after_string p = (\<lambda>(r, q). same p q \<and>
     (case r of None \<Rightarrow> reported q | Some b \<Rightarrow> wound q \<and> p_pos q < length (p_mem q) \<and> p_pos p < p_pos q \<and> pieced q (p_pos q) b))"

lemma ConsumeStringRaw_ends:
  assumes "readable p" "wound p" "p_pos p < length (p_mem p)"
  shows "ends input_checks (ConsumeStringRaw p) (after_string p)"
proof -
  have "ends input_checks (string_loop (new_StringBuilder (p_pos (forth p))) (forth p)) (after_string p)"
    by (rule ends_mono [OF string_loop_ends])
      (use assms in \<open>auto simp: after_string_def wound_def new_StringBuilder_def pieced_def split: option.splits\<close>)
  then show ?thesis using NextChar_forth [OF assms(3)] deref_ok [OF assms(1)] assms(3)
    by (auto simp: ConsumeStringRaw_def after_string_def)
qed


section \<open>Values\<close>

text \<open>
  What the parser makes: strings are in UTF-8, the entries of a dictionary are in order, and containers are nested
  at most \<open>n\<close> deep.  Keys need not be in UTF-8.
\<close>

fun json_value :: "'d val \<Rightarrow> bool" where
  "json_value (StringValue s) \<longleftrightarrow> utf8_string s"
| "json_value (BinaryValue s) \<longleftrightarrow> False"
| "json_value (DictionaryValue d) \<longleftrightarrow> sorted_wrt (<) (map fst d) \<and> (\<forall>e\<in>set d. json_value (snd e))"
| "json_value (ListValue l) \<longleftrightarrow> (\<forall>v\<in>set l. json_value v)"
| "json_value _ \<longleftrightarrow> True"

fun nested :: "nat \<Rightarrow> 'd val \<Rightarrow> bool" where
  "nested n (DictionaryValue d) \<longleftrightarrow> 0 < n \<and> (\<forall>e\<in>set d. nested (n - 1) (snd e))"
| "nested n (ListValue l) \<longleftrightarrow> 0 < n \<and> (\<forall>v\<in>set l. nested (n - 1) v)"
| "nested n _ \<longleftrightarrow> True"

lemma ascii_utf8_string: "list_all (\<lambda>c. 0 \<le> c \<and> c < 128) s \<Longrightarrow> utf8_string s"
proof -
  assume a: "list_all (\<lambda>c. 0 \<le> c \<and> c < 128) s"
  have e: "utf8 c = [c]" "char_ok c" if "0 \<le> c" "c < 128" for c
    using that utf8_eq [of c] by (auto simp: char_ok_def valid_def IsValidCodepoint_def IsValidCharacter_def)
  have "s = encode utf8 s" "list_all char_ok s" using a by (induction s) (auto simp: e)
  then show ?thesis unfolding utf8_string_def by blast
qed

text \<open>
  The text of a number in JSON, and inputs all of whose numbers a double can hold (every piece that
  reads as a number counts).
\<close>

definition digit_run :: "ustring \<Rightarrow> bool" where
  "digit_run s \<longleftrightarrow> s \<noteq> [] \<and> list_all IsAsciiDigit s"

definition json_number :: "ustring \<Rightarrow> bool" where
  "json_number t \<longleftrightarrow> (\<exists>sg i f e. t = sg @ i @ f @ e \<and> sg \<in> {[], [45]} \<and>
     digit_run i \<and> (1 < length i \<longrightarrow> hd i \<noteq> 48) \<and>
     (f = [] \<or> (\<exists>ds. f = 46 # ds \<and> digit_run ds)) \<and>
     (e = [] \<or> (\<exists>c es ds. e = c # es @ ds \<and> c \<in> {101, 69} \<and> es \<in> {[], [45], [43]} \<and> digit_run ds)))"

definition all_doubles :: "'d doubles \<Rightarrow> ustring \<Rightarrow> bool" where
  "all_doubles ds input \<longleftrightarrow> (\<forall>a t b. input = a @ t @ b \<longrightarrow> json_number t \<longrightarrow> d_from_string ds t \<noteq> None)"

lemma all_doubles_None:
  "d_from_string ds (take n (drop i m)) = None \<Longrightarrow> json_number (take n (drop i m)) \<Longrightarrow> \<not> all_doubles ds m"
  unfolding all_doubles_def by (metis append_take_drop_id)

text \<open>The input between two states.\<close>

definition passed :: "parser \<Rightarrow> parser \<Rightarrow> ustring" where
  "passed p q = take (p_pos q - p_pos p) (drop (p_pos p) (p_mem p))"

definition after_token :: "'d doubles \<Rightarrow> parser \<Rightarrow> 'd val option \<times> parser \<Rightarrow> bool" where
  "after_token ds p = (\<lambda>(r, q). same p q \<and>
     (case r of None \<Rightarrow> all_doubles ds (p_mem p) \<longrightarrow> reported q
      | Some v \<Rightarrow> wound q \<and> p_pos p \<le> p_pos q \<and> p_pos q < length (p_mem q) \<and> json_value v \<and> nested (99 - p_stack_depth p) v))"

lemma new_StringValue_ends: "list_all byte s \<Longrightarrow> ends input_checks (new_StringValue s) (\<lambda>v. v = StringValue s \<and> utf8_string s)"
  by (simp add: new_StringValue_def IsStringUTF8_iff)

lemma piece_ends: "pieced q i b \<Longrightarrow> b_string b = None \<Longrightarrow> i \<le> length (p_mem q) \<Longrightarrow>
    ends F (piece q (b_pos b) (b_length b)) (\<lambda>s. list_all (\<lambda>c. 0 \<le> c \<and> c < 128) s)"
  by (simp add: piece_def pieced_def)

lemma ConsumeString_ends:
  fixes ds :: "'d doubles"
  assumes "readable p" "wound p" "p_pos p < length (p_mem p)"
  shows "ends input_checks (ConsumeString p) (after_token ds p)"
proof -
  have "ends input_checks ((case r of None \<Rightarrow> Inr (None, q)
     | Some string \<Rightarrow>
         if CanBeStringPiece string \<and> \<not> has_option JSON_DETACHABLE_CHILDREN q then
           bindR (AsStringPiece q string) (\<lambda>s. Inr (Some (StringValue s), q))
         else bindR (AsString q string) (\<lambda>s. bindR (new_StringValue s) (\<lambda>v. Inr (Some v, q)))) :: ('d val option \<times> parser) res) (after_token ds p)"
    if a: "after_string p (r, q)" for r q
  proof (cases r)
    case (Some b)
    then have b: "same p q" "wound q" "p_pos q < length (p_mem q)" "p_pos p < p_pos q" "pieced q (p_pos q) b"
      using a by (auto simp: after_string_def)
    have l: "p_pos q \<le> length (p_mem q)" using b(3) by simp
    have P: "ends input_checks (AsStringPiece q b) (\<lambda>s. after_token ds p (Some (StringValue s), q))" if "CanBeStringPiece b"
      using that b piece_ends [OF b(5) _ l, of input_checks]
      by (auto simp: CanBeStringPiece_def AsStringPiece_def after_token_def intro!: ends_mono [OF piece_ends [OF b(5) _ l]] ascii_utf8_string)
    have n: "ends input_checks (new_StringValue s :: 'd val res) (\<lambda>v. after_token ds p (Some v, q))" if "list_all byte s" for s
      by (rule ends_mono [OF new_StringValue_ends [OF that]]) (use b in \<open>auto simp: after_token_def\<close>)
    have "ends input_checks (AsString q b) (\<lambda>s. ends input_checks (new_StringValue s :: 'd val res) (\<lambda>v. after_token ds p (Some v, q)))"
      unfolding AsString_def ends_bind by (rule ends_mono [OF Convert_ends [OF b(5) l]]) (auto simp: converted_def intro: n)
    then show ?thesis using P Some by simp
  qed (use a in \<open>auto simp: after_string_def after_token_def\<close>)
  then show ?thesis unfolding ConsumeString_def ends_bind
    by (intro ends_mono [OF ConsumeStringRaw_ends [OF assms]]) auto
qed

section \<open>Numbers and literals\<close>

lemma moved_forth: "wound p \<Longrightarrow> p_pos p < length (p_mem p) \<Longrightarrow> moved p (forth p)"
  by (auto simp: moved_def intro: wound_forth)

lemma moved_trans: "moved p q \<Longrightarrow> moved q r \<Longrightarrow> moved p r"
  by (auto simp: moved_def intro: same_trans)

lemma moved_same: "moved p q \<Longrightarrow> same p q"
  by (simp add: moved_def)

lemma moved_readable: "moved p q \<Longrightarrow> readable p \<Longrightarrow> readable q"
  by (auto simp: moved_def intro: same_readable)

lemma passed_trans: "moved p q \<Longrightarrow> moved q r \<Longrightarrow> passed p r = passed p q @ passed q r"
proof -
  assume m: "moved p q" "moved q r"
  then have e: "p_pos r - p_pos p = (p_pos q - p_pos p) + (p_pos r - p_pos q)" "p_mem q = p_mem p"
    "p_pos q - p_pos p + p_pos p = p_pos q"
    by (auto simp: moved_def same_def)
  show ?thesis unfolding passed_def e(1,2) take_add drop_drop e(3) by (rule refl)
qed

lemma passed_forth: "p_pos p < length (p_mem p) \<Longrightarrow> passed p (forth p) = [cur p]"
  by (simp add: passed_def cur_def take_Suc_conv_app_nth)

lemma passed_same [simp]: "passed p p = []"
  by (simp add: passed_def)

lemma length_passed: "moved p q \<Longrightarrow> length (passed p q) = p_pos q - p_pos p"
  by (auto simp: passed_def moved_def wound_def same_def)

lemma read_digits_ends:
  "readable p \<Longrightarrow> wound p \<Longrightarrow> ends F (read_digits (cur p) n p)
     (\<lambda>(m, q). moved p q \<and> p_pos q + n = p_pos p + m \<and> list_all IsAsciiDigit (passed p q))"
proof (induction "rest p" arbitrary: n p rule: less_induct)
  case less
  show ?case
  proof (cases "p_pos p < length (p_mem p) \<and> IsAsciiDigit (cur p)")
    case True
    then have l: "p_pos p < length (p_mem p)" by simp
    note f = moved_forth [OF less(3) l]
    have "ends F (read_digits (cur (forth p)) (n + 1) (forth p))
        (\<lambda>(m, q). moved (forth p) q \<and> p_pos q + (n + 1) = p_pos (forth p) + m \<and> list_all IsAsciiDigit (passed (forth p) q))"
      using less(2) wound_forth [OF less(3) l] l by (intro less(1)) auto
    then have "ends F (read_digits (cur (forth p)) (n + 1) (forth p))
        (\<lambda>(m, q). moved p q \<and> p_pos q + n = p_pos p + m \<and> list_all IsAsciiDigit (passed p q))"
      by (rule ends_mono) (use moved_trans [OF f] passed_trans [OF f] passed_forth [OF l] True in auto)
    then show ?thesis using True next_deref_ok [OF less(2) l] by (simp add: read_digits.simps [of "cur p"])
  qed (use less(3) in \<open>auto simp: read_digits.simps [of "cur p"] moved_def\<close>)
qed

lemma ReadInt_ends:
  assumes "readable p" "wound p"
  shows "ends F (ReadInt z p) (\<lambda>(ok, q). moved p q \<and> (ok \<longrightarrow> p_pos p < p_pos q \<and> digit_run (passed p q) \<and>
    (z \<or> length (passed p q) \<le> 1 \<or> hd (passed p q) \<noteq> 48)))"
proof -
  have hd: "hd (passed p q) = cur p" if "moved p q" "p_pos p < p_pos q" for q
  proof -
    have "p_pos q \<le> length (p_mem p)" using that(1) by (auto simp: moved_def wound_def same_def)
    then show ?thesis using that(2) by (simp add: passed_def cur_def hd_drop_conv_nth)
  qed
  have "ends F (read_digits (cur p) 0 p) (\<lambda>(m, q). moved p q \<and> m = length (passed p q) \<and> list_all IsAsciiDigit (passed p q) \<and>
      (m \<noteq> 0 \<longrightarrow> p_pos p < p_pos q \<and> hd (passed p q) = cur p))"
    by (rule ends_mono [OF read_digits_ends [OF assms]]) (auto simp: length_passed hd)
  then show ?thesis using deref_ok [OF assms(1) less_length [OF assms(2)]]
    by (auto simp: ReadInt_def digit_run_def elim!: ends_mono)
qed

lemma cur_inside: "cur p \<noteq> 0 \<Longrightarrow> p_pos p < length (p_mem p)"
  by (simp add: cur_def split: if_splits)

definition fraction_text :: "ustring \<Rightarrow> bool" where
  "fraction_text f \<longleftrightarrow> f = [] \<or> (\<exists>ds. f = 46 # ds \<and> digit_run ds)"

definition exponent_text :: "ustring \<Rightarrow> bool" where
  "exponent_text e \<longleftrightarrow> e = [] \<or> (\<exists>c es ds. e = c # es @ ds \<and> c \<in> {101, 69} \<and> es \<in> {[], [45], [43]} \<and> digit_run ds)"

lemma read_parts_ends:
  assumes "readable p" "wound p"
  shows "ends F (read_fraction p) (\<lambda>(ok, q). moved p q \<and> (ok \<longrightarrow> fraction_text (passed p q)))"
    "ends F (read_exponent p) (\<lambda>(ok, q). moved p q \<and> (ok \<longrightarrow> exponent_text (passed p q)))"
proof -
  have d: "deref p = Inr (cur p)" using deref_ok [OF assms(1) less_length [OF assms(2)]] .
  have R: "ends F (ReadInt True q) (\<lambda>(ok, r). moved p r \<and> (ok \<longrightarrow> (\<exists>ds. passed p r = passed p q @ ds \<and> digit_run ds)))"
    if m: "moved p q" for q
  proof (rule ends_mono [OF ReadInt_ends])
    show "readable q" "wound q" using moved_readable [OF m assms(1)] m by (simp_all add: moved_def)
  next
    fix x
    assume x: "case x of (ok, r) \<Rightarrow> moved q r \<and> (ok \<longrightarrow> p_pos q < p_pos r \<and> digit_run (passed q r) \<and>
      (True \<or> length (passed q r) \<le> 1 \<or> hd (passed q r) \<noteq> 48))"
    obtain ok r where r: "x = (ok, r)" by (cases x)
    with x have q: "moved q r" "ok \<Longrightarrow> digit_run (passed q r)" by simp_all
    then show "case x of (ok, r) \<Rightarrow> moved p r \<and> (ok \<longrightarrow> (\<exists>ds. passed p r = passed p q @ ds \<and> digit_run ds))"
      using r moved_trans [OF m q(1)] passed_trans [OF m q(1)] by simp
  qed
  have f: "moved p (forth p)" "NextChar p = Inr (forth p)" "passed p (forth p) = [cur p]" if "cur p \<noteq> 0"
    using that moved_forth [OF assms(2) cur_inside] NextChar_forth [OF cur_inside] passed_forth [OF cur_inside] by auto
  have "ends F (ReadInt True (forth p)) (\<lambda>(ok, q). moved p q \<and> (ok \<longrightarrow> fraction_text (passed p q)))" if "cur p = 46"
    by (rule ends_mono [OF R [OF f(1)]]) (use that f(3) in \<open>auto simp: fraction_text_def\<close>)
  then show "ends F (read_fraction p) (\<lambda>(ok, q). moved p q \<and> (ok \<longrightarrow> fraction_text (passed p q)))"
    using d f(2) assms(2) by (cases "cur p = 46") (simp_all add: read_fraction_def moved_def fraction_text_def)
  have "ends F (bindR (deref (forth p)) (\<lambda>d. bindR (if d = 45 \<or> d = 43 then NextChar (forth p) else Inr (forth p)) (ReadInt True)))
      (\<lambda>(ok, q). moved p q \<and> (ok \<longrightarrow> exponent_text (passed p q)))"
    if e: "cur p \<in> {101, 69}"
  proof -
    have nz: "cur p \<noteq> 0" using e by auto
    note m = f(1) [OF nz]
    have w: "wound (forth p)" using m by (simp add: moved_def)
    have d': "deref (forth p) = Inr (cur (forth p))" using deref_ok [of "forth p"] assms(1) less_length [OF w] by simp
    have plain: "ends F (ReadInt True (forth p)) (\<lambda>(ok, q). moved p q \<and> (ok \<longrightarrow> exponent_text (passed p q)))"
    proof (rule ends_mono [OF R [OF m]])
      fix x
      assume x: "case x of (ok, r) \<Rightarrow> moved p r \<and> (ok \<longrightarrow> (\<exists>ds. passed p r = passed p (forth p) @ ds \<and> digit_run ds))"
      obtain ok r where xr: "x = (ok, r)" by (cases x)
      have "exponent_text (passed p r)" if k: ok
      proof -
        obtain ds where "passed p r = cur p # [] @ ds" "digit_run ds" using x xr k f(3) [OF nz] by auto
        with e show ?thesis unfolding exponent_text_def by blast
      qed
      with x xr show "case x of (ok, q) \<Rightarrow> moved p q \<and> (ok \<longrightarrow> exponent_text (passed p q))" by simp
    qed
    show ?thesis
    proof (cases "cur (forth p) = 45 \<or> cur (forth p) = 43")
      case True
      then have nz2: "cur (forth p) \<noteq> 0" by auto
      note l2 = cur_inside [OF nz2]
      have m2: "moved p (forth (forth p))" using moved_trans [OF m moved_forth [OF w l2]] .
      have t2: "passed p (forth (forth p)) = [cur p, cur (forth p)]"
        using passed_trans [OF m moved_forth [OF w l2]] f(3) [OF nz] passed_forth [OF l2] by simp
      have "ends F (ReadInt True (forth (forth p))) (\<lambda>(ok, q). moved p q \<and> (ok \<longrightarrow> exponent_text (passed p q)))"
      proof (rule ends_mono [OF R [OF m2]])
        fix x
        assume x: "case x of (ok, r) \<Rightarrow> moved p r \<and> (ok \<longrightarrow> (\<exists>ds. passed p r = passed p (forth (forth p)) @ ds \<and> digit_run ds))"
        obtain ok r where xr: "x = (ok, r)" by (cases x)
        have "exponent_text (passed p r)" if k: ok
        proof -
          obtain ds where "passed p r = cur p # [cur (forth p)] @ ds" "digit_run ds" using x xr k t2 by auto
          with e True show ?thesis unfolding exponent_text_def by blast
        qed
        with x xr show "case x of (ok, q) \<Rightarrow> moved p q \<and> (ok \<longrightarrow> exponent_text (passed p q))" by simp
      qed
      then show ?thesis using True d' NextChar_forth [OF l2] by simp
    next
      case False
      then show ?thesis using plain d' by simp
    qed
  qed
  then show "ends F (read_exponent p) (\<lambda>(ok, q). moved p q \<and> (ok \<longrightarrow> exponent_text (passed p q)))"
    using d f(2) assms(2)
    by (cases "cur p = 101"; cases "cur p = 69") (simp_all add: read_exponent_def moved_def [of p p] exponent_text_def [of "[]"])
qed

lemma failed_token [simp]: "after_token ds p (None, ReportError e c q) \<longleftrightarrow> same p q \<and> (e \<noteq> JSON_NO_ERROR \<or> \<not> all_doubles ds (p_mem p))"
  by (auto simp: after_token_def)

lemma finish_number_ends:
  assumes "readable p" "wound p" "moved p q" "p_pos p < p_pos q" "json_number (passed p q)"
  shows "ends input_checks (finish_number ds (p_pos p) (p_index p) q) (after_token ds p)"
proof -
  let ?num = "take (p_index q - p_index p) (drop (p_pos p) (p_mem p))"
  have r: "readable q" "wound q" using moved_readable [OF assms(3,1)] assms(3) by (auto simp: moved_def)
  have w: "p_index q = p_pos q" "p_pos q \<le> length (p_mem p)" "p_index p = p_pos p" using assms by (auto simp: moved_def wound_def same_def)
  have num: "ends input_checks (let p2 = q1\<lparr>p_pos := p_pos q - 1, p_index := p_index q - 1\<rparr> in
          bindR (piece p2 (p_pos p) (p_index q - p_index p)) (\<lambda>num_string.
            let (ok, num_int) = StringToInt num_string in
            if ok then Inr (Some (IntegerValue (word_of_int num_int)), p2)
            else case d_from_string ds num_string of Some num_double \<Rightarrow> Inr (Some (DoubleValue num_double), p2)
              | None \<Rightarrow> Inr (None, p2))) (after_token ds p)" if m: "moved q q1" for q1
  proof -
    let ?p2 = "q1\<lparr>p_pos := p_pos q - 1, p_index := p_index q - 1\<rparr>"
    have s: "same p q1" using m assms(3) by (auto simp: moved_def intro: same_trans)
    then have e: "p_mem q1 = p_mem p" by (simp add: same_def)
    have k: "piece ?p2 (p_pos p) (p_index q - p_index p) = Inr ?num" using w assms(4) e by (simp add: piece_def)
    have ok: "after_token ds p (Some v, ?p2)" if "json_value v" "\<And>n. nested n v" for v
      using that w assms(4) e s by (auto simp: after_token_def wound_def)
    show ?thesis
    proof (cases "fst (StringToInt ?num)")
      case True
      then show ?thesis using k ok [of "IntegerValue n" for n] by (simp add: case_prod_unfold Let_def del: One_nat_def)
    next
      case False
      have "json_number ?num" using assms(5) w by (simp add: passed_def)
      then have "d_from_string ds ?num = None \<Longrightarrow> after_token ds p (None, ?p2)"
        using s all_doubles_None [of ds "p_index q - p_index p" "p_pos p" "p_mem p"] by (auto simp: after_token_def)
      then show ?thesis using False k ok [of "DoubleValue n" for n]
        by (simp add: case_prod_unfold Let_def split: option.split del: One_nat_def)
    qed
  qed
  have "same p q1" if "moved q q1" for q1 using that assms(3) by (auto simp: moved_def intro: same_trans)
  then show ?thesis unfolding finish_number_def Let_def ends_bind
    by (intro ends_mono [OF GetNextToken_ends [OF r]]) (use num in \<open>auto simp: Let_def simp del: One_nat_def\<close>)
qed

lemma json_number_parts:
  "digit_run i \<Longrightarrow> length i \<le> 1 \<or> hd i \<noteq> 48 \<Longrightarrow> fraction_text f \<Longrightarrow> exponent_text e \<Longrightarrow> sg \<in> {[], [45]} \<Longrightarrow>
   json_number (sg @ i @ f @ e)"
  unfolding json_number_def fraction_text_def exponent_text_def
  by (intro exI conjI impI) (rule refl | assumption | simp)+

lemma read_number_ends:
  assumes "readable p" "wound p" "p_pos p < length (p_mem p)"
  shows "ends F (read_number p) (\<lambda>(ok, q). moved p q \<and> (ok \<longrightarrow> p_pos p < p_pos q \<and> json_number (passed p q)))"
proof -
  let ?Q = "\<lambda>(ok, q). moved p q \<and> (ok \<longrightarrow> p_pos p < p_pos q \<and> json_number (passed p q))"
  have tail: "ends F (if \<not> ok then Inr (False, p2) else bindR (read_fraction p2) (\<lambda>(ok, p3). if \<not> ok then Inr (False, p3) else read_exponent p3)) ?Q"
    if m: "moved p p1" "passed p p1 \<in> {[], [45]}" "moved p1 p2"
      and i: "ok \<Longrightarrow> p_pos p1 < p_pos p2 \<and> digit_run (passed p1 p2) \<and> (length (passed p1 p2) \<le> 1 \<or> hd (passed p1 p2) \<noteq> 48)" for p1 p2 ok
  proof (cases ok)
    case True
    note m2 = moved_trans [OF m(1,3)]
    have r2: "readable p2" "wound p2" using moved_readable [OF m2 assms(1)] m2 by (auto simp: moved_def)
    have "ends F (read_exponent p3) ?Q" if m3: "moved p2 p3" "fraction_text (passed p2 p3)" for p3
    proof -
      have "readable p3" "wound p3" using moved_readable [OF m3(1) r2(1)] m3 by (auto simp: moved_def)
      then show ?thesis
      proof (rule ends_mono [OF read_parts_ends(2)])
        fix x
        assume x: "case x of (ok, q) \<Rightarrow> moved p3 q \<and> (ok \<longrightarrow> exponent_text (passed p3 q))"
        obtain ok' q where q: "x = (ok', q)" by (cases x)
        have m4: "moved p3 q" "moved p2 q" "moved p q" using x q moved_trans [OF m3(1)] moved_trans [OF m2] by auto
        have t: "passed p q = passed p p1 @ passed p1 p2 @ passed p2 p3 @ passed p3 q"
          using passed_trans [OF m2 m4(2)] passed_trans [OF m(1,3)] passed_trans [OF m3(1) m4(1)] by simp
        have "json_number (passed p q)" if ok'
          unfolding t using i [OF True] m(2) m3(2) x q that by (intro json_number_parts) auto
        moreover have "p_pos p < p_pos q" using i [OF True] m4(2) m(1) by (auto simp: moved_def)
        ultimately show "?Q x" using q m4(3) by simp
      qed
    qed
    then show ?thesis using True m2
      by (auto intro!: ends_mono [OF read_parts_ends(1) [OF r2]] intro: moved_trans)
  qed (use moved_trans [OF m(1,3)] in simp)
  have i: "ends F (bindR (ReadInt False p1) (\<lambda>(ok, p2). if \<not> ok then Inr (False, p2) else
     bindR (read_fraction p2) (\<lambda>(ok, p3). if \<not> ok then Inr (False, p3) else read_exponent p3))) ?Q"
    if m: "moved p p1" "passed p p1 \<in> {[], [45]}" for p1
  proof -
    have "readable p1" "wound p1" using moved_readable [OF m(1) assms(1)] m(1) by (auto simp: moved_def)
    from ReadInt_ends [OF this, of F False] show ?thesis unfolding ends_bind
    proof (rule ends_mono)
      fix x
      assume x: "case x of (ok, q) \<Rightarrow> moved p1 q \<and> (ok \<longrightarrow> p_pos p1 < p_pos q \<and> digit_run (passed p1 q) \<and>
        (False \<or> length (passed p1 q) \<le> 1 \<or> hd (passed p1 q) \<noteq> 48))"
      obtain ok q where q: "x = (ok, q)" by (cases x)
      show "ends F (case x of (ok, p2) \<Rightarrow> if \<not> ok then Inr (False, p2) else
          bindR (read_fraction p2) (\<lambda>(ok, p3). if \<not> ok then Inr (False, p3) else read_exponent p3)) ?Q"
        using tail [OF m, of q ok] x unfolding q prod.case by blast
    qed
  qed
  have d: "deref p = Inr (cur p)" using deref_ok [OF assms(1)] assms(3) by simp
  show ?thesis
  proof (cases "cur p = 45")
    case True
    then have "passed p (forth p) \<in> {[], [45]}" using passed_forth [OF assms(3)] by simp
    from i [OF moved_forth [OF assms(2,3)] this] True d NextChar_forth [OF assms(3)] show ?thesis
      by (simp only: read_number_def bindR_Inr if_True simp_thms)
  next
    case False
    have "moved p p" using assms(2) by (simp add: moved_def)
    from i [OF this] False d show ?thesis
      by (simp only: read_number_def bindR_Inr if_False passed_same insert_iff simp_thms)
  qed
qed

lemma ConsumeNumber_ends:
  assumes "readable p" "wound p" "p_pos p < length (p_mem p)"
  shows "ends input_checks (ConsumeNumber ds p) (after_token ds p)"
  unfolding ConsumeNumber_def ends_bind
  by (rule ends_mono [OF read_number_ends [OF assms]]) (auto intro: finish_number_ends [OF assms(1,2)] moved_same)

lemma StringsAreEqual_ends:
  assumes "readable p"
  shows "i \<le> length (p_mem p) \<Longrightarrow> 0 \<notin> set s \<Longrightarrow> ends F (StringsAreEqual p i s) (\<lambda>b. b \<longrightarrow> i + length s \<le> length (p_mem p))"
proof (induction s arbitrary: i)
  case (Cons c s)
  show ?case
  proof (cases "i < length (p_mem p)")
    case True
    then have "ends F (StringsAreEqual p (i + 1) s) (\<lambda>b. b \<longrightarrow> i + 1 + length s \<le> length (p_mem p))" using Cons by (intro Cons(1)) auto
    then show ?thesis using byte_ok [OF assms, of i] True by simp
  qed (use Cons byte_ok [OF assms, of i] in auto)
qed simp

lemma consume_literal_ends:
  assumes p: "readable p" "wound p" and s: "0 \<notin> set s" "s \<noteq> []" and v: "json_value v" "\<And>n. nested n v"
  shows "ends input_checks (consume_literal s v p) (after_token ds p)"
proof -
  let ?n = "length s - 1"
  have "ends input_checks (NextNChars ?n p) (\<lambda>q. after_token ds p (Some v, q))" if "p_pos p + length s \<le> length (p_mem p)"
    using that p s v by (cases s) (auto simp: NextNChars_def after_token_def wound_def)
  then have "ends input_checks (if \<not> b then Inr (None, ReportError JSON_SYNTAX_ERROR 1 p)
        else bindR (NextNChars ?n p) (\<lambda>p1. Inr (Some v, p1))) (after_token ds p)" if "b \<longrightarrow> p_pos p + length s \<le> length (p_mem p)" for b
    using that by (cases b) simp_all
  moreover have "ends input_checks (if \<not> CanConsume p ?n then Inr False else StringsAreEqual p (p_pos p) s) (\<lambda>b. b \<longrightarrow> p_pos p + length s \<le> length (p_mem p))"
    using StringsAreEqual_ends [OF p(1) less_length [OF p(2)] s(1)] by simp
  ultimately show ?thesis unfolding consume_literal_def Let_def ends_bind by (blast intro: ends_mono)
qed

lemma ConsumeLiteral_ends:
  assumes "readable p" "wound p"
  shows "ends input_checks (ConsumeLiteral p) (after_token ds p)"
  using deref_ok [OF assms(1) less_length [OF assms(2)]]
  by (auto simp: ConsumeLiteral_def intro!: consume_literal_ends [OF assms])

section \<open>Containers\<close>

lemma after_value_ends:
  assumes "readable p" "wound p" "p_pos p < length (p_mem p)"
  shows "ends F (after_value closing adj p) (\<lambda>(t, q). same p q \<and>
    (case t of None \<Rightarrow> reported q | Some t \<Rightarrow> wound q \<and> p_pos p < p_pos q \<and> at_token q t))"
proof -
  let ?Q = "\<lambda>(t, q). same p q \<and> (case t of None \<Rightarrow> reported q | Some t \<Rightarrow> wound q \<and> p_pos p < p_pos q \<and> at_token q t)"
  have two: "ends F (bindR (NextChar q) (\<lambda>p3. bindR (GetNextToken p3) (\<lambda>(token, p4).
           if token = closing \<and> \<not> has_option JSON_ALLOW_TRAILING_COMMAS p4
           then Inr (None, ReportError JSON_TRAILING_COMMA 1 p4) else Inr (Some token, p4)))) ?Q"
    if m: "moved (forth p) q" and t: "p_pos q < length (p_mem q)" for q
  proof -
    have r: "readable q" "wound q" using moved_readable [OF m] assms(1) m by (auto simp: moved_def)
    have "readable (forth q)" "wound (forth q)" using r wound_forth [OF r(2) t] by simp_all
    from GetNextToken_ends [OF this] show ?thesis unfolding NextChar_forth [OF t] bindR_Inr ends_bind
      by (rule ends_mono) (use m in \<open>auto simp: moved_def intro: same_trans\<close>)
  qed
  have w: "readable (forth p)" "wound (forth p)" using assms wound_forth by auto
  have "ends F (if token = T_LIST_SEPARATOR then
         bindR (NextChar q) (\<lambda>p3. bindR (GetNextToken p3) (\<lambda>(token, p4).
           if token = closing \<and> \<not> has_option JSON_ALLOW_TRAILING_COMMAS p4
           then Inr (None, ReportError JSON_TRAILING_COMMA 1 p4)
           else Inr (Some token, p4)))
       else if token \<noteq> closing then Inr (None, ReportError JSON_SYNTAX_ERROR adj q)
       else Inr (Some token, q)) ?Q" if "moved (forth p) q" "at_token q token" for token q
  proof (cases "token = T_LIST_SEPARATOR")
    case True
    then show ?thesis using two [OF that(1)] that(2) by (auto simp: at_token_def split: if_splits)
  qed (use that in \<open>auto simp: moved_def\<close>)
  then show ?thesis unfolding after_value_def NextChar_forth [OF assms(3)] bindR_Inr ends_bind
    by (intro ends_mono [OF GetNextToken_ends [OF w]]) auto
qed

lemma dictionary_key_ends:
  assumes "readable p" "wound p" "p_pos p < length (p_mem p)"
  shows "ends input_checks (dictionary_key p) (\<lambda>(k, q). same p q \<and>
    (case k of None \<Rightarrow> reported q | Some (key, t) \<Rightarrow> wound q \<and> p_pos p < p_pos q \<and> at_token q t \<and> (\<exists>i\<le>length (p_mem q). pieced q i key)))"
proof -
  let ?Q = "\<lambda>(k, q). same p q \<and>
    (case k of None \<Rightarrow> reported q | Some (key, t) \<Rightarrow> wound q \<and> p_pos p < p_pos q \<and> at_token q t \<and> (\<exists>i\<le>length (p_mem q). pieced q i key))"
  have val: "ends input_checks (bindR (NextChar q) (\<lambda>p4. bindR (GetNextToken p4) (\<lambda>(token, p5). Inr (Some (key, token), p5)))) ?Q"
    if q: "same p q" "wound q" "p_pos p < p_pos q" "p_pos q < length (p_mem q)" "i \<le> length (p_mem q)" "pieced q i key" for q key i
  proof -
    have "readable (forth q)" "wound (forth q)" using q same_readable [OF q(1) assms(1)] wound_forth by auto
    from GetNextToken_ends [OF this] show ?thesis unfolding NextChar_forth [OF q(4)] bindR_Inr ends_bind
    proof (rule ends_mono, clarsimp)
      fix t r
      assume "moved (forth q) r" "at_token r t"
      moreover from this have "p_mem r = p_mem q" by (simp add: moved_def same_def)
      ultimately show "same p r \<and> wound r \<and> p_pos p < p_pos r \<and> (\<exists>i\<le>length (p_mem r). pieced r i key)"
        using q pieced_same [of r q] by (auto simp: moved_def intro: same_trans)
    qed
  qed
  have sep: "ends input_checks (bindR (NextChar q) (\<lambda>p2. bindR (GetNextToken p2) (\<lambda>(token, p3).
         if token \<noteq> T_OBJECT_PAIR_SEPARATOR then Inr (None, ReportError JSON_SYNTAX_ERROR 1 p3)
         else bindR (NextChar p3) (\<lambda>p4. bindR (GetNextToken p4) (\<lambda>(token, p5). Inr (Some (key, token), p5)))))) ?Q"
    if q: "same p q" "wound q" "p_pos p < p_pos q" "p_pos q < length (p_mem q)" "pieced q (p_pos q) key" for q key
  proof -
    have w: "readable (forth q)" "wound (forth q)" using q same_readable [OF q(1) assms(1)] wound_forth by auto
    have "ends input_checks (if token \<noteq> T_OBJECT_PAIR_SEPARATOR then Inr (None, ReportError JSON_SYNTAX_ERROR 1 r)
         else bindR (NextChar r) (\<lambda>p4. bindR (GetNextToken p4) (\<lambda>(token, p5). Inr (Some (key, token), p5)))) ?Q"
      if m: "moved (forth q) r" "at_token r token" for token r
    proof -
      have e: "same q r" "p_mem r = p_mem q" using m(1) by (auto simp: moved_def same_def)
      show ?thesis
      proof (cases "token = T_OBJECT_PAIR_SEPARATOR")
        case True
        then have "p_pos r < length (p_mem r)" using m(2) by (auto simp: at_token_def split: if_splits)
        then show ?thesis unfolding True
          using val [of r "p_pos q" key] m(1) q same_trans [OF q(1) e(1)] pieced_same [OF e(2)] e by (auto simp: moved_def)
      qed (use same_trans [OF q(1) e(1)] in auto)
    qed
    then show ?thesis unfolding NextChar_forth [OF q(4)] bindR_Inr ends_bind
      by (intro ends_mono [OF GetNextToken_ends [OF w]]) auto
  qed
  show ?thesis unfolding dictionary_key_def ends_bind
  proof (rule ends_mono [OF ConsumeStringRaw_ends [OF assms]])
    fix x
    assume "after_string p x"
    then show "ends input_checks (case x of (None, p1) \<Rightarrow> Inr (None, p1) | (Some key, p1) \<Rightarrow>
       bindR (NextChar p1) (\<lambda>p2. bindR (GetNextToken p2) (\<lambda>(token, p3).
         if token \<noteq> T_OBJECT_PAIR_SEPARATOR then Inr (None, ReportError JSON_SYNTAX_ERROR 1 p3)
         else bindR (NextChar p3) (\<lambda>p4. bindR (GetNextToken p4) (\<lambda>(token, p5). Inr (Some (key, token), p5)))))) ?Q"
      using sep [of "snd x"] by (cases x; cases "fst x") (auto simp: after_string_def)
  qed
qed

lemma open_container_ends:
  fixes ds :: "'d doubles" and loop :: "token \<Rightarrow> parser \<Rightarrow> ('d val option \<times> parser) res"
  assumes p: "readable p" "wound p" "p_pos p < length (p_mem p)" "p_stack_depth p \<le> 99"
    and loop: "\<And>q t. \<lbrakk>readable q; wound q; p_mem q = p_mem p; p_pos p < p_pos q; p_stack_depth q = p_stack_depth p + 1; p_stack_depth p < 99; at_token q t\<rbrakk>
      \<Longrightarrow> ends input_checks (loop t q) (\<lambda>(r, q'). same q q' \<and> (case r of None \<Rightarrow> all_doubles ds (p_mem q) \<longrightarrow> reported q'
        | Some v \<Rightarrow> wound q' \<and> p_pos q \<le> p_pos q' \<and> p_pos q' < length (p_mem q') \<and> json_value v \<and> nested (99 - p_stack_depth p) v))"
  shows "ends input_checks (open_container loop p) (after_token ds p)"
proof -
  let ?p1 = "p\<lparr>p_stack_depth := p_stack_depth p + 1\<rparr>"
  have e: "marker_enter p = Inr ?p1" using p(4) by (simp add: marker_enter_def kStackMaxDepth_def)
  have restored: "same p (q\<lparr>p_stack_depth := p_stack_depth q - 1\<rparr>)" if "same ?p1 q" for q
    using that by (simp add: same_def)
  show ?thesis
  proof (cases "p_stack_depth p < 99")
    case False
    then show ?thesis using e p(4)
      by (simp add: open_container_def IsTooDeep_def kStackMaxDepth_def marker_leave_def after_token_def reported_def ReportError_def same_def)
  next
    case True
    have l: "p_pos ?p1 < length (p_mem ?p1)" using p(3) by simp
    have w: "readable (forth ?p1)" "wound (forth ?p1)" using p by (auto simp: readable_def wound_def)
    have "ends input_checks (loop t q) (\<lambda>x. ends input_checks (marker_leave x) (after_token ds p))"
      if m: "moved (forth ?p1) q" "at_token q t" for q t
    proof -
      have q: "readable q" "wound q" "p_mem q = p_mem p" "p_pos p < p_pos q" "p_stack_depth q = p_stack_depth p + 1" "same ?p1 q"
        using m(1) moved_readable [OF m(1) w(1)] by (auto simp: moved_def same_def)
      show ?thesis
      proof (rule ends_mono [OF loop [OF q(1-5) True m(2)]])
        fix x :: "'d val option \<times> parser"
        assume "case x of (r, q') \<Rightarrow> same q q' \<and> (case r of None \<Rightarrow> all_doubles ds (p_mem q) \<longrightarrow> reported q'
          | Some v \<Rightarrow> wound q' \<and> p_pos q \<le> p_pos q' \<and> p_pos q' < length (p_mem q') \<and> json_value v \<and> nested (99 - p_stack_depth p) v)"
        then show "ends input_checks (marker_leave x) (after_token ds p)"
          using restored [of "snd x"] same_trans [OF q(6), of "snd x"] q(3,4)
          by (cases x; cases "fst x") (auto simp: marker_leave_def after_token_def reported_def wound_def)
      qed
    qed
    then have "ends input_checks (GetNextToken (forth ?p1)) (\<lambda>x. ends input_checks (case x of (t, q) \<Rightarrow> loop t q)
        (\<lambda>x. ends input_checks (marker_leave x) (after_token ds p)))"
      by (intro ends_mono [OF GetNextToken_ends [OF w]]) auto
    then show ?thesis using True NextChar_forth [OF l] e by (simp add: open_container_def IsTooDeep_def kStackMaxDepth_def)
  qed
qed

definition in_loop :: "'d doubles \<Rightarrow> parser \<Rightarrow> 'd val option \<times> parser \<Rightarrow> bool" where
  "in_loop ds q = (\<lambda>(r, q'). same q q' \<and> (case r of None \<Rightarrow> all_doubles ds (p_mem q) \<longrightarrow> reported q'
    | Some v \<Rightarrow> wound q' \<and> p_pos q \<le> p_pos q' \<and> p_pos q' < length (p_mem q') \<and> json_value v \<and> nested (100 - p_stack_depth q) v))"

definition good_state :: "parser \<Rightarrow> token \<Rightarrow> bool" where
  "good_state p t \<longleftrightarrow> readable p \<and> wound p \<and> at_token p t \<and> p_stack_depth p \<le> 99"

lemma token_inside: "at_token p t \<Longrightarrow> t \<noteq> T_END_OF_INPUT \<Longrightarrow> p_pos p < length (p_mem p)"
  by (auto simp: at_token_def split: if_splits)

text \<open>A set of entries stays in order, and its values keep a property.\<close>

lemma Set_values: "\<forall>e\<in>set d. P (snd e) \<Longrightarrow> P v \<Longrightarrow> \<forall>e\<in>set (SetWithoutPathExpansion k v d). P (snd e)"
  using set_Set [of k v d] by fastforce

lemma tokens_end:
  shows "\<And>t p. good_state p t \<Longrightarrow> 3 * rest p + 2 \<le> turns \<Longrightarrow> ends input_checks (ParseToken ds turns t p) (after_token ds p)"
    and "\<And>d t p. \<lbrakk>good_state p t; 1 \<le> p_stack_depth p; 3 * rest p + 3 \<le> turns; json_value (DictionaryValue d); nested (100 - p_stack_depth p) (DictionaryValue d)\<rbrakk>
      \<Longrightarrow> ends input_checks (dictionary_loop ds turns d t p) (in_loop ds p)"
    and "\<And>l t p. \<lbrakk>good_state p t; 1 \<le> p_stack_depth p; 3 * rest p + 3 \<le> turns; json_value (ListValue l); nested (100 - p_stack_depth p) (ListValue l)\<rbrakk>
      \<Longrightarrow> ends input_checks (consume_list_loop ds turns l t p) (in_loop ds p)"
proof (induction turns rule: less_induct)
  case (less turns)
  {
    case (1 t p)
    then obtain n where n: "turns = Suc n" by (cases turns) auto
    have p: "readable p" "wound p" "at_token p t" "p_stack_depth p \<le> 99" using 1 by (auto simp: good_state_def)
    have container: "ends input_checks (open_container loop p) (after_token ds p)"
      if "p_pos p < length (p_mem p)" "loop = dictionary_loop ds (n - 1) [] \<or> loop = consume_list_loop ds (n - 1) []" for loop
    proof (rule open_container_ends [OF p(1,2) that(1) p(4)])
      fix q t
      assume q: "readable q" "wound q" "p_mem q = p_mem p" "p_pos p < p_pos q" "p_stack_depth q = p_stack_depth p + 1" "p_stack_depth p < 99" "at_token q t"
      have m: "3 * rest q + 3 \<le> n - 1" "n - 1 < turns" "100 - p_stack_depth q = 99 - p_stack_depth p" "0 < 99 - p_stack_depth p"
        using 1(2) q that(1) n by auto
      have "good_state q t" "1 \<le> p_stack_depth q" using q by (simp_all add: good_state_def)
      then have "ends input_checks (loop t q) (in_loop ds q)"
        using that(2) m by (auto intro!: less(2) less(3))
      then show "ends input_checks (loop t q) (\<lambda>(r, q'). same q q' \<and> (case r of None \<Rightarrow> all_doubles ds (p_mem q) \<longrightarrow> reported q'
        | Some v \<Rightarrow> wound q' \<and> p_pos q \<le> p_pos q' \<and> p_pos q' < length (p_mem q') \<and> json_value v \<and> nested (99 - p_stack_depth p) v))"
        by (rule ends_mono) (auto simp: in_loop_def m(3) split: option.splits)
    qed
    show ?case
    proof (cases "p_pos p < length (p_mem p)")
      case True
      then obtain m where m: "n = Suc m" using 1(2) n by (cases n) auto
      have d: "deref p = Inr (cur p)" using deref_ok [OF p(1)] True by simp
      show ?thesis
        using container [OF True] ConsumeString_ends [OF p(1,2) True] ConsumeNumber_ends [OF p(1,2) True] ConsumeLiteral_ends [OF p(1,2)] d
        by (auto simp: n m)
    next
      case False
      then have "t = T_END_OF_INPUT" using p(3) by (simp add: at_token_def)
      then show ?thesis by (simp add: n)
    qed
  next
    case (2 d t p)
    then obtain n where n: "turns = Suc n" by (cases turns) auto
    have p: "readable p" "wound p" "p_stack_depth p \<le> 99" using 2(1) by (auto simp: good_state_def)
    let ?store = "\<lambda>key x. case x of (r, p2) \<Rightarrow> (case r of None \<Rightarrow> Inr (None, p2) | Some value \<Rightarrow>
          bindR (AsString p2 key) (\<lambda>key.
          bindR (after_value T_OBJECT_END 0 p2) (\<lambda>(t, p3). case t of None \<Rightarrow> Inr (None, p3)
            | Some token \<Rightarrow> dictionary_loop ds n (SetWithoutPathExpansion key value d) token p3)))"
    have after: "ends input_checks (?store key x) (in_loop ds p)"
      if k: "same p q" "p_pos p < p_pos q" "i \<le> length (p_mem q)" "pieced q i key" and a: "after_token ds q x" for key x q i
    proof -
      obtain r q1 where x: "x = (r, q1)" by (cases x)
      show ?thesis
      proof (cases r)
        case None
        then show ?thesis using a x same_trans [OF k(1)] same_mem [OF k(1)] by (auto simp: after_token_def in_loop_def)
      next
        case (Some v)
        have a: "same q q1" "wound q1" "p_pos q \<le> p_pos q1" "p_pos q1 < length (p_mem q1)" "json_value v" "nested (99 - p_stack_depth q) v"
          using a x Some by (auto simp: after_token_def)
        have s: "same p q1" by (rule same_trans [OF k(1) a(1)])
        have st: "p_stack_depth q = p_stack_depth p" "p_mem q1 = p_mem q" using k(1) a(1) by (simp_all add: same_def)
        have "ends input_checks (AsString q1 key) (\<lambda>s. True)"
          unfolding AsString_def using Convert_ends [of q1 i key input_checks] k(3,4) st(2) pieced_same [OF st(2)] by (auto elim!: ends_mono)
        moreover have "ends input_checks (bindR (after_value T_OBJECT_END 0 q1) (\<lambda>(t, p3). case t of None \<Rightarrow> Inr (None, p3)
            | Some token \<Rightarrow> dictionary_loop ds n (SetWithoutPathExpansion s v d) token p3)) (in_loop ds p)" for s
          unfolding ends_bind
        proof (rule ends_mono [OF after_value_ends [OF same_readable [OF s p(1)] a(2,4)]])
          fix y
          assume y: "case y of (t, q2) \<Rightarrow> same q1 q2 \<and> (case t of None \<Rightarrow> reported q2 | Some t \<Rightarrow> wound q2 \<and> p_pos q1 < p_pos q2 \<and> at_token q2 t)"
          obtain u q2 where u: "y = (u, q2)" by (cases y)
          have s2: "same p q2" using y u same_trans [OF s] by auto
          show "ends input_checks (case y of (t, p3) \<Rightarrow> (case t of None \<Rightarrow> Inr (None, p3)
            | Some token \<Rightarrow> dictionary_loop ds n (SetWithoutPathExpansion s v d) token p3)) (in_loop ds p)"
          proof (cases u)
            case (Some t2)
            have q2: "good_state q2 t2" "p_stack_depth q2 = p_stack_depth p" "p_mem q2 = p_mem p" "p_pos p < p_pos q2"
              using y u Some s2 same_readable [OF s2 p(1)] p(3) k(2) a(3) by (auto simp: good_state_def same_def)
            have "3 * rest q2 + 3 \<le> n"
              using 2(3) n q2 less_length [of q2] y u Some by auto
            moreover have "json_value (DictionaryValue (SetWithoutPathExpansion s v d))"
              using 2(4) a(5) sorted_Set [of d s v] Set_values [of d json_value v s] by simp
            moreover have "nested (100 - p_stack_depth q2) (DictionaryValue (SetWithoutPathExpansion s v d))"
              using 2(5) a(6) q2(2) st(1) Set_values [of d "nested (100 - p_stack_depth p - 1)" v s] by simp
            ultimately have "ends input_checks (dictionary_loop ds n (SetWithoutPathExpansion s v d) t2 q2) (in_loop ds q2)"
              using q2 2(2) n by (intro less(2)) auto
            then show ?thesis unfolding u Some prod.case option.case
              by (rule ends_mono) (use q2 in \<open>auto simp: in_loop_def split: option.splits intro: same_trans [OF s2]\<close>)
          qed (use y u s2 in \<open>auto simp: in_loop_def\<close>)
        qed
        ultimately show ?thesis by (auto simp: x Some elim: ends_mono)
      qed
    qed
    show ?case
    proof (cases "t = T_STRING")
      case False
      then show ?thesis using 2 token_inside [of p t] by (auto simp: n in_loop_def good_state_def)
    next
      case True
      have l: "p_pos p < length (p_mem p)" using 2(1) True by (auto simp: good_state_def intro: token_inside)
      have "ends input_checks (case k of None \<Rightarrow> Inr (None, q) | Some (key, token) \<Rightarrow> bindR (ParseToken ds n token q) (?store key)) (in_loop ds p)"
        if a: "same p q" "case k of None \<Rightarrow> reported q | Some (key, t) \<Rightarrow> wound q \<and> p_pos p < p_pos q \<and> at_token q t \<and> (\<exists>i\<le>length (p_mem q). pieced q i key)" for k q
      proof (cases k)
        case (Some kt)
        obtain key t2 where kt: "kt = (key, t2)" by (cases kt)
        obtain i where q: "wound q" "p_pos p < p_pos q" "at_token q t2" "i \<le> length (p_mem q)" "pieced q i key" using a Some kt by auto
        have g: "good_state q t2" "p_mem q = p_mem p" using q a(1) p same_readable [OF a(1) p(1)] by (auto simp: good_state_def same_def)
        have "ends input_checks (ParseToken ds n t2 q) (after_token ds q)"
          using g 2(3) n q(2) less_length [OF q(1)] by (intro less(1)) auto
        then show ?thesis unfolding Some kt option.case prod.case ends_bind
          by (rule ends_mono) (rule after [OF a(1) q(2,4,5)])
      qed (use a in \<open>auto simp: in_loop_def\<close>)
      then have "ends input_checks (bindR (dictionary_key p) (\<lambda>(k, q). case k of None \<Rightarrow> Inr (None, q)
          | Some (key, token) \<Rightarrow> bindR (ParseToken ds n token q) (?store key))) (in_loop ds p)"
        unfolding ends_bind by (intro ends_mono [OF dictionary_key_ends [OF p(1,2) l]]) auto
      then show ?thesis using True by (simp add: n)
    qed
  next
    case (3 l t p)
    then obtain n where n: "turns = Suc n" by (cases turns) auto
    have p: "readable p" "wound p" "p_stack_depth p \<le> 99" using 3(1) by (auto simp: good_state_def)
    show ?case
    proof (cases "t = T_ARRAY_END")
      case True
      then show ?thesis using 3 token_inside [of p t] by (auto simp: n in_loop_def good_state_def)
    next
      case False
      have after: "ends input_checks (case r of None \<Rightarrow> Inr (None, q) | Some item \<Rightarrow>
        bindR (after_value T_ARRAY_END 1 q) (\<lambda>(t, p2). case t of None \<Rightarrow> Inr (None, p2)
          | Some token \<Rightarrow> consume_list_loop ds n (l @ [item]) token p2)) (in_loop ds p)" if a: "after_token ds p (r, q)" for r q
      proof (cases r)
        case (Some v)
        have a: "same p q" "wound q" "p_pos p \<le> p_pos q" "p_pos q < length (p_mem q)" "json_value v" "nested (99 - p_stack_depth p) v"
          using a Some by (auto simp: after_token_def)
        show ?thesis unfolding Some option.case ends_bind
        proof (rule ends_mono [OF after_value_ends [OF same_readable [OF a(1) p(1)] a(2,4)]])
          fix y
          assume y: "case y of (t, q2) \<Rightarrow> same q q2 \<and> (case t of None \<Rightarrow> reported q2 | Some t \<Rightarrow> wound q2 \<and> p_pos q < p_pos q2 \<and> at_token q2 t)"
          obtain u q2 where u: "y = (u, q2)" by (cases y)
          have s2: "same p q2" using y u same_trans [OF a(1)] by auto
          show "ends input_checks (case y of (t, p2) \<Rightarrow> (case t of None \<Rightarrow> Inr (None, p2)
            | Some token \<Rightarrow> consume_list_loop ds n (l @ [v]) token p2)) (in_loop ds p)"
          proof (cases u)
            case (Some t2)
            have q2: "good_state q2 t2" "p_stack_depth q2 = p_stack_depth p" "p_mem q2 = p_mem p" "p_pos p < p_pos q2"
              using y u Some s2 same_readable [OF s2 p(1)] p(3) a(3) by (auto simp: good_state_def same_def)
            have "3 * rest q2 + 3 \<le> n" using 3(3) n q2 less_length [of q2] y u Some by auto
            moreover have "nested (100 - p_stack_depth q2) (ListValue (l @ [v]))" using 3(5) a(6) q2(2) by auto
            ultimately have "ends input_checks (consume_list_loop ds n (l @ [v]) t2 q2) (in_loop ds q2)"
              using q2 3(2,4) n a(5) by (intro less(3)) auto
            then show ?thesis unfolding u Some prod.case option.case
              by (rule ends_mono) (use q2 in \<open>auto simp: in_loop_def split: option.splits intro: same_trans [OF s2]\<close>)
          qed (use y u s2 in \<open>auto simp: in_loop_def\<close>)
        qed
      qed (use a in \<open>auto simp: after_token_def in_loop_def\<close>)
      have P: "ends input_checks (ParseToken ds n t p) (after_token ds p)" using 3(1,3) n by (intro less(1)) auto
      show ?thesis unfolding n consume_list_loop.simps Let_def if_not_P [OF False] ends_bind
      proof (rule ends_mono [OF P])
        fix x
        assume "after_token ds p x"
        then show "ends input_checks (case x of (r, q) \<Rightarrow> (case r of None \<Rightarrow> Inr (None, q) | Some item \<Rightarrow>
          bindR (after_value T_ARRAY_END 1 q) (\<lambda>(t, p2). case t of None \<Rightarrow> Inr (None, p2)
            | Some token \<Rightarrow> consume_list_loop ds n (l @ [item]) token p2))) (in_loop ds p)" by (cases x) (simp only: prod.case after)
      qed
    qed
  }
qed

section \<open>The whole input\<close>

lemma after_token_readable: "after_token ds p (Some v, q) \<Longrightarrow> readable p \<Longrightarrow> readable q \<and> wound q \<and> p_pos q < length (p_mem q)"
  by (auto simp: after_token_def intro: same_readable)

lemma ParseNextToken_ends:
  assumes "readable p" "wound p" "p_stack_depth p \<le> 99"
  shows "ends input_checks (ParseNextToken ds p) (after_token ds p)"
proof -
  have "ends input_checks (ParseToken ds (enough_turns q) t q) (after_token ds p)" if m: "moved p q" "at_token q t" for q t
  proof -
    have "good_state q t" using m assms moved_readable [OF m(1)] by (auto simp: good_state_def moved_def same_def)
    then have "ends input_checks (ParseToken ds (enough_turns q) t q) (after_token ds q)"
      by (rule tokens_end(1)) (simp add: enough_turns_def)
    then show ?thesis
      by (rule ends_mono) (use m(1) in \<open>auto simp: after_token_def moved_def same_def split: option.splits\<close>)
  qed
  then show ?thesis unfolding ParseNextToken_def ends_bind by (intro ends_mono [OF GetNextToken_ends [OF assms(1,2)]]) auto
qed

definition parsed :: "'d doubles \<Rightarrow> ustring \<Rightarrow> parser \<Rightarrow> 'd val option \<times> parser \<Rightarrow> bool" where
  "parsed ds input p = (\<lambda>(r, q). p_stack_depth q = p_stack_depth p \<and>
     (case r of None \<Rightarrow> all_doubles ds input \<longrightarrow> reported q | Some v \<Rightarrow> json_value v \<and> nested (99 - p_stack_depth p) v))"

lemma skip_bom_ends:
  "readable p \<Longrightarrow> wound p \<Longrightarrow> ends F (skip_bom p) (\<lambda>q. readable q \<and> wound q \<and> same p q)"
  by (auto simp: skip_bom_def NextNChars_def readable_def wound_def same_def)

lemma Parse_ends:
  fixes ds :: "'d doubles"
  assumes "list_all byte input" "p_stack_depth p \<le> 99" "has_option JSON_DETACHABLE_CHILDREN p \<Longrightarrow> behind = Some 0"
  shows "ends input_checks (Parse ds input behind p) (parsed ds input p)"
proof -
  let ?p0 = "start_parse input behind p"
  have p0: "readable ?p0" "wound ?p0" "p_stack_depth ?p0 = p_stack_depth p" "p_mem ?p0 = input"
    using assms by (auto simp: start_parse_def readable_def wound_def)
  obtain p1 where p1: "skip_bom ?p0 = Inr p1" "readable p1" "wound p1" "p_stack_depth p1 = p_stack_depth p" "p_mem p1 = input"
    using skip_bom_ends [OF p0(1,2), of "{}"] p0(3,4) by (cases "skip_bom ?p0") (auto simp: same_def)
  have p1': "p_stack_depth p1 \<le> 99" using p1(4) assms(2) by simp
  let ?rest = "\<lambda>x. case x of (r, p2) \<Rightarrow> (case r of None \<Rightarrow> Inr (None, p2) | Some root \<Rightarrow>
       bindR (GetNextToken p2) (\<lambda>(token, p3).
       bindR (if token \<noteq> T_END_OF_INPUT then
                if \<not> CanConsume p3 1 then Inr (False, p3)
                else bindR (NextChar p3) (\<lambda>p4. bindR (GetNextToken p4) (\<lambda>(token, p5). Inr (token = T_END_OF_INPUT, p5)))
              else Inr (True, p3)) (\<lambda>(at_end, p6).
         if \<not> at_end then Inr (None, ReportError JSON_UNEXPECTED_DATA_AFTER_ROOT 1 p6)
         else if \<not> has_option JSON_DETACHABLE_CHILDREN p6 then
           (case root of StringValue s \<Rightarrow> bindR (DeepCopy root) (\<lambda>copy. Inr (Some copy, p6)) | _ \<Rightarrow> Inr (Some root, p6))
         else Inr (Some root, p6))))"
  have "ends input_checks (?rest x) (parsed ds input p)" if a: "after_token ds p1 x" for x :: "'d val option \<times> parser"
  proof -
    obtain r p2 where x: "x = (r, p2)" by (cases x)
    show ?thesis
    proof (cases r)
      case (Some root)
      have v: "json_value root" "nested (99 - p_stack_depth p) root" "same p1 p2" using a x Some p1(4) by (auto simp: after_token_def)
      have p2: "readable p2" "wound p2" using a after_token_readable [of ds p1 root p2] x Some p1(2) by auto
      let ?fin = "\<lambda>(at_end, p6). if \<not> at_end then Inr (None, ReportError JSON_UNEXPECTED_DATA_AFTER_ROOT 1 p6)
         else if \<not> has_option JSON_DETACHABLE_CHILDREN p6 then
           (case root of StringValue s \<Rightarrow> bindR (DeepCopy root) (\<lambda>copy. Inr (Some copy, p6)) | _ \<Rightarrow> Inr (Some root, p6))
         else Inr (Some root, p6)"
      have fin: "ends input_checks (?fin (b, q)) (parsed ds input p)" if "same p2 q" for b q
      proof -
        have "p_stack_depth q = p_stack_depth p" using that v(3) p1(4) by (simp add: same_def)
        then show ?thesis using v(1,2)
          by (cases root) (auto simp: parsed_def new_StringValue_def ReportError_def reported_def)
      qed
      have "ends input_checks (bindR (if token \<noteq> T_END_OF_INPUT then
                if \<not> CanConsume q 1 then Inr (False, q)
                else bindR (NextChar q) (\<lambda>p4. bindR (GetNextToken p4) (\<lambda>(token, p5). Inr (token = T_END_OF_INPUT, p5)))
              else Inr (True, q)) ?fin) (parsed ds input p)" if m: "moved p2 q" for q token
      proof (cases "token \<noteq> T_END_OF_INPUT \<and> CanConsume q 1")
        case True
        then have l: "p_pos q < length (p_mem q)" by simp
        have "readable (forth q)" "wound (forth q)" using m moved_readable [OF m p2(1)] wound_forth [OF _ l] by (auto simp: moved_def)
        from GetNextToken_ends [OF this]
        have "ends input_checks (GetNextToken (forth q)) (\<lambda>(token, p5). ends input_checks (?fin (token = T_END_OF_INPUT, p5)) (parsed ds input p))"
        proof (rule ends_mono)
          fix x
          assume "case x of (t, r) \<Rightarrow> moved (forth q) r \<and> at_token r t"
          then have "same p2 (snd x)" using moved_same [OF m] by (auto simp: moved_def intro: same_trans)
          from fin [OF this] show "case x of (token, p5) \<Rightarrow> ends input_checks (?fin (token = T_END_OF_INPUT, p5)) (parsed ds input p)"
            by (simp only: case_prod_unfold)
        qed
        then show ?thesis using True NextChar_forth [OF l] by (simp add: case_prod_unfold)
      qed (use fin [OF moved_same [OF m], of True] fin [OF moved_same [OF m], of False] in auto)
      then show ?thesis unfolding x Some prod.case option.case
        by (simp only: ends_bind) (intro ends_mono [OF GetNextToken_ends [OF p2]], auto)
    qed (use a x p1(4,5) in \<open>auto simp: parsed_def after_token_def same_def\<close>)
  qed
  then have "ends input_checks (bindR (ParseNextToken ds p1) ?rest) (parsed ds input p)"
    unfolding ends_bind by (intro ends_mono [OF ParseNextToken_ends [OF p1(2,3) p1']])
  then show ?thesis by (simp add: Parse_def p1(1) case_prod_unfold)
qed

text \<open>
  C30: on any bytes the parser reads nothing but the input and the terminator behind it, its bound on turns is
  never used up and its depth check never fails: it returns with its stack depth as before, or stops at a check
  of a character (a negative hexadecimal escape) or of a string value (an escape that is no valid character).
\<close>

theorem json_parse_reads_inside:
  assumes "list_all byte input" "p_stack_depth p = 0" "has_option JSON_DETACHABLE_CHILDREN p \<Longrightarrow> behind = Some 0"
  shows "(\<exists>e\<in>input_checks. Parse ds input behind p = Inl e) \<or>
    (\<exists>r q. Parse ds input behind p = Inr (r, q) \<and> p_stack_depth q = 0)"
  using Parse_ends [of input p behind ds] assms(1,2,3)
  by (cases "Parse ds input behind p") (auto simp: parsed_def)

definition unit_doubles :: "unit doubles" where
  "unit_doubles = \<lparr>d_to_string = (\<lambda>_. [48]), d_integer = (\<lambda>_. Some 0), d_from_string = (\<lambda>_. Some ())\<rparr>"

theorem json_parse_reads_inside_witness:
  "(\<exists>e\<in>input_checks. Parse unit_doubles [91, 49] None (new_JSONParser 0) = Inl e) \<or>
    (\<exists>r q. Parse unit_doubles [91, 49] None (new_JSONParser 0) = Inr (r, q) \<and> p_stack_depth q = 0)"
  by (rule json_parse_reads_inside) (simp_all add: new_JSONParser_def has_option_def)

text \<open>
  C31: a value that was parsed is well-formed: its strings are in UTF-8, each dictionary has its keys once and in
  order, and containers are nested at most 99 deep.  (Keys are not checked.)
\<close>

theorem json_values_well_formed:
  assumes "list_all byte input" "p_stack_depth p = 0" "has_option JSON_DETACHABLE_CHILDREN p \<Longrightarrow> behind = Some 0"
    and "Parse ds input behind p = Inr (Some v, q)"
  shows "json_value v \<and> nested 99 v"
  using Parse_ends [of input p behind ds] assms by (simp add: parsed_def)

definition parsed_list :: parser where
  "parsed_list = \<lparr>p_options = 0, p_mem = [91, 49, 93], p_after = Some 0, p_pos = 3, p_index = 3, p_stack_depth = 0,
     p_line_number = 1, p_index_last_line = 0, p_error_code = JSON_NO_ERROR, p_error_line = 0, p_error_column = 0\<rparr>"

lemma parse_list_with_one:
  "Parse unit_doubles [91, 49, 93] None (new_JSONParser 0) = Inr (Some (ListValue [IntegerValue 1]), parsed_list)"
  by code_simp

theorem json_values_well_formed_witness:
  "json_value (ListValue [IntegerValue 1] :: unit val) \<and> nested 99 (ListValue [IntegerValue 1] :: unit val)"
  by (rule json_values_well_formed [OF _ _ _ parse_list_with_one]) (simp_all add: new_JSONParser_def has_option_def)

text \<open>
  C33: when the parser returns NULL it has reported an error, for inputs in which every piece that
  reads as a JSON number is converted by \<open>StringToDouble\<close>.  (A number out of the range of a double
  is the exception: the parser then returns NULL and reports nothing.)
\<close>

theorem json_errors_reported:
  assumes "list_all byte input" "p_stack_depth p = 0" "has_option JSON_DETACHABLE_CHILDREN p \<Longrightarrow> behind = Some 0"
    and "\<And>a t b. input = a @ t @ b \<Longrightarrow> json_number t \<Longrightarrow> d_from_string ds t \<noteq> None"
    and "Parse ds input behind p = Inr (None, q)"
  shows "p_error_code q \<noteq> JSON_NO_ERROR"
proof -
  have "all_doubles ds input" using assms(4) unfolding all_doubles_def by blast
  then show ?thesis using Parse_ends [of input p behind ds] assms(1-3,5) by (simp add: parsed_def reported_def)
qed

text \<open>A conversion that fails on all but the digit 1: \<open>[1}\<close>, whose bracket is not closed.\<close>

definition one_double :: "unit doubles" where
  "one_double = \<lparr>d_to_string = (\<lambda>_. [48]), d_integer = (\<lambda>_. Some 0), d_from_string = (\<lambda>t. if t = [49] then Some () else None)\<rparr>"

lemma json_number_chars: "json_number t \<Longrightarrow> t \<noteq> [] \<and> 91 \<notin> set t \<and> 125 \<notin> set t"
proof -
  assume "json_number t"
  then obtain sg i f e where t: "t = sg @ i @ f @ e" "sg \<in> {[], [45]}" "digit_run i"
    "f = [] \<or> (\<exists>ds. f = 46 # ds \<and> digit_run ds)"
    "e = [] \<or> (\<exists>c es ds. e = c # es @ ds \<and> c \<in> {101, 69} \<and> es \<in> {[], [45], [43]} \<and> digit_run ds)"
    unfolding json_number_def by blast
  have d: "x \<notin> set ds" if "digit_run ds" "x > 57" for x ds
    using that by (auto simp: digit_run_def IsAsciiDigit_def list_all_iff)
  have "x \<notin> set e" if "x \<in> {91, 125}" for x
    using t(5) that d by auto
  moreover have "x \<notin> set f" if "x \<in> {91, 125}" for x
    using t(4) that d by auto
  moreover have "x \<notin> set sg" "x \<notin> set i" if "x \<in> {91, 125}" for x
    using t(2,3) that d by auto
  ultimately show ?thesis using t(1,3) by (auto simp: digit_run_def)
qed

theorem json_errors_reported_witness:
  "\<exists>q. Parse one_double [91, 49, 125] None (new_JSONParser 0) = Inr (None, q) \<and> p_error_code q \<noteq> JSON_NO_ERROR"
proof -
  have "case Parse one_double [91, 49, 125] None (new_JSONParser 0) of Inr (None, q) \<Rightarrow> True | _ \<Rightarrow> False" by code_simp
  then obtain q where q: "Parse one_double [91, 49, 125] None (new_JSONParser 0) = Inr (None, q)"
    by (auto split: sum.splits prod.splits option.splits)
  have "d_from_string one_double t \<noteq> None" if "[91, 49, 125] = a @ t @ b" "json_number t" for a t b
  proof -
    have "t = [49]" using that(1) json_number_chars [OF that(2)] by (auto simp: Cons_eq_append_conv)
    then show ?thesis by (simp add: one_double_def)
  qed
  with json_errors_reported [OF _ _ _ _ q] q show ?thesis by (simp add: new_JSONParser_def has_option_def)
qed

end
