(* ===== verification/JsonRoundTrip.thy ===== *)
theory JsonRoundTrip imports JsonSafety begin

text \<open>
  Writing a value and reading the text again gives the value: \<open>JSONWriter\<close> and \<open>JSONParser\<close> agree.
\<close>

section \<open>Reading on\<close>

text \<open>The text that is left at the position of a parser, and what it means to have read \<open>n\<close> characters.\<close>

definition sees :: "parser \<Rightarrow> ustring \<Rightarrow> bool" where
  "sees p s \<longleftrightarrow> readable p \<and> wound p \<and> drop (p_pos p) (p_mem p) = s"

definition on :: "nat \<Rightarrow> parser \<Rightarrow> parser \<Rightarrow> bool" where
  "on n p q \<longleftrightarrow> same p q \<and> wound q \<and> p_pos q = p_pos p + n"

lemma sees_on: "sees p s \<Longrightarrow> on n p q \<Longrightarrow> sees q (drop n s)"
  by (auto simp: sees_def on_def same_def readable_def add.commute)

lemma on_trans: "on n p q \<Longrightarrow> on m q r \<Longrightarrow> on (n + m) p r"
  by (auto simp: on_def intro: same_trans)

lemma on_0: "sees p s \<Longrightarrow> on 0 p p"
  by (simp add: sees_def on_def)

lemma on_same: "on n p q \<Longrightarrow> same p q"
  by (simp add: on_def)

lemma sees_nth: "drop i m = c # s \<Longrightarrow> i < length m \<and> m ! i = c \<and> drop (Suc i) m = s"
  by (metis Cons_nth_drop_Suc drop_all list.distinct(1) list.inject not_le_imp_less)

lemma drop_more: "drop i m = a @ s \<Longrightarrow> length a = n \<Longrightarrow> drop (i + n) m = s"
  by (metis add.commute append_eq_conv_conj drop_drop)

lemma sees_Cons:
  assumes "sees p (c # s)"
  shows "p_pos p < length (p_mem p)" "p_mem p ! p_pos p = c" "deref p = Inr c" "NextChar p = Inr (forth p)"
    "on 1 p (forth p)" "sees (forth p) s"
proof -
  have d: "p_pos p < length (p_mem p)" "p_mem p ! p_pos p = c" "drop (Suc (p_pos p)) (p_mem p) = s"
    using sees_nth [of "p_pos p" "p_mem p" c s] assms by (auto simp: sees_def)
  then show "p_pos p < length (p_mem p)" "p_mem p ! p_pos p = c" by auto
  show "NextChar p = Inr (forth p)" using d by (simp add: NextChar_forth)
  show "deref p = Inr c" using assms d deref_ok [of p] by (simp add: sees_def cur_def)
  show "on 1 p (forth p)" "sees (forth p) s" using assms d wound_forth [of p] by (auto simp: on_def sees_def)
qed

lemma sees_Nil: "sees p [] \<Longrightarrow> p_pos p = length (p_mem p) \<and> deref p = Inr 0"
  using deref_ok [of p] by (auto simp: sees_def wound_def cur_def)

lemma next_deref_sees: "sees p (c # d # s) \<Longrightarrow> next_deref p = Inr (d, forth p)"
  using sees_Cons [of p c "d # s"] sees_Cons(3) [of "forth p" d s] by (simp add: next_deref_def)

section \<open>Tokens\<close>

abbreviation blank :: "int \<Rightarrow> bool" where "blank c \<equiv> c = 32 \<or> c = 10"

definition starts_token :: "ustring \<Rightarrow> bool" where
  "starts_token s \<longleftrightarrow> s = [] \<or> hd s \<notin> {9, 10, 13, 32, 47}"

lemma eat_blanks:
  "sees p (ws @ s) \<Longrightarrow> list_all blank ws \<Longrightarrow> starts_token s \<Longrightarrow> \<exists>q. EatWhitespaceAndComments p = Inr q \<and> on (length ws) p q"
proof (induction ws arbitrary: p)
  case Nil
  then show ?case
  proof (cases s)
    case (Cons c s')
    then show ?thesis using Nil sees_Cons [of p c s'] on_0 [of p]
      by (subst EatWhitespaceAndComments.simps) (auto simp: starts_token_def)
  qed (use sees_Nil [of p] on_0 [of p] in \<open>subst EatWhitespaceAndComments.simps, auto\<close>)
next
  case (Cons c ws)
  define p' where "p' = (if c = 10 then p\<lparr>p_index_last_line := p_index p, p_line_number := p_line_number p + 1\<rparr> else p)"
  have p: "sees p (c # (ws @ s))" using Cons(2) by simp
  then have p': "sees p' (c # (ws @ s))" "on 0 p p'" by (auto simp: p'_def sees_def wound_def readable_def on_def)
  obtain q where q: "EatWhitespaceAndComments (forth p') = Inr q" "on (length ws) (forth p') q"
    using Cons(1) [OF sees_Cons(6) [OF p'(1)]] Cons(3,4) by auto
  have "on (0 + (1 + length ws)) p q" by (rule on_trans [OF p'(2) on_trans [OF sees_Cons(5) [OF p'(1)] q(2)]])
  moreover have "EatWhitespaceAndComments p = Inr q"
    using Cons(3) sees_Cons(1,3) [OF p] sees_Cons(4) [OF p'(1)] q(1)
    by (subst EatWhitespaceAndComments.simps) (auto simp: p'_def)
  ultimately show ?case by auto
qed

definition first_token :: "ustring \<Rightarrow> token" where
  "first_token s = (if s = [] then T_END_OF_INPUT else token_of (hd s))"

lemma next_token:
  assumes "sees p (ws @ s)" "list_all blank ws" "starts_token s"
  shows "\<exists>q. GetNextToken p = Inr (first_token s, q) \<and> on (length ws) p q \<and> sees q s"
proof -
  obtain q where q: "EatWhitespaceAndComments p = Inr q" "on (length ws) p q" using eat_blanks [OF assms] by auto
  have s: "sees q s" using sees_on [OF assms(1) q(2)] by simp
  show ?thesis
    using q s sees_Nil [of q] sees_Cons [of q "hd s" "tl s"] by (cases s) (auto simp: GetNextToken_def first_token_def)
qed

section \<open>Characters of a string\<close>

definition quoted_unit :: "int \<Rightarrow> ustring" where
  "quoted_unit c = (case JsonSingleEscapeChar c of Some e \<Rightarrow> e
     | None \<Rightarrow> if c < 32 \<or> c > 126 \<or> c = 60 \<or> c = 62 then unicode_escape c else [c])"

lemma quote_loop_units: "quote_loop str dst = dst @ concat (map quoted_unit str)"
  by (induction str arbitrary: dst) (simp_all add: quoted_unit_def)

lemma JsonDoubleQuote_units: "JsonDoubleQuote str True dst = dst @ 34 # concat (map quoted_unit str) @ [34]"
  by (simp add: JsonDoubleQuote_def JsonDoubleQuoteT_def quote_loop_units)

lemma hex_digit_back: "0 \<le> n \<Longrightarrow> n < 16 \<Longrightarrow> CharToDigit 16 (hex_digit n) = Some n \<and> 48 \<le> hex_digit n \<and> hex_digit n \<le> 70"
  by (auto simp: CharToDigit_def hex_digit_def)

lemma hex_step:
  assumes "0 \<le> n" "n < 16" "0 \<le> out" "out < 4096"
  shows "digit_loop False hex_int_traits False (hex_digit n # cs) out = digit_loop False hex_int_traits False cs (out * 16 + n)"
proof -
  have w: "wrap_signed 32 k = k" if "0 \<le> k" "k < 2 ^ 20" for k using that by (intro wrap_signed_id) auto
  have "Sign_CheckBounds False hex_int_traits out n = None"
    using assms w [of out] by (simp add: Sign_CheckBounds_def Positive_CheckBounds_def hex_int_traits_def signed_traits_def wrap_signed_def)
  moreover have "Sign_Increment False hex_int_traits n (tr_wrap hex_int_traits (out * tr_base hex_int_traits)) = out * 16 + n"
    using assms w [of "out * 16"] w [of "out * 16 + n"] by (simp add: Sign_Increment_def hex_int_traits_def signed_traits_def)
  ultimately show ?thesis using hex_digit_back [OF assms(1,2)] by (simp add: hex_int_traits_def signed_traits_def)
qed

lemma hex_first:
  assumes "0 \<le> n" "n < 16"
  shows "digit_loop False hex_int_traits True (hex_digit n # cs) 0 = digit_loop False hex_int_traits False cs n"
  using hex_digit_back [OF assms] assms wrap_signed_id [of 32 n]
  by (simp add: Sign_Increment_def hex_int_traits_def signed_traits_def)

lemma HexStringToInt_four:
  assumes "0 \<le> a" "a < 16" "0 \<le> b" "b < 16" "0 \<le> c" "c < 16" "0 \<le> d" "d < 16"
  shows "HexStringToInt [hex_digit a, hex_digit b, hex_digit c, hex_digit d] = (True, ((a * 16 + b) * 16 + c) * 16 + d)"
proof -
  have "digit_loop False hex_int_traits True [hex_digit a, hex_digit b, hex_digit c, hex_digit d] 0 = (True, ((a * 16 + b) * 16 + c) * 16 + d)"
    using assms by (simp del: digit_loop.simps add: hex_first hex_step, simp)
  moreover have "hex_digit b \<noteq> 120" "hex_digit b \<noteq> 88" "\<not> LocalIsWhitespace (hex_digit a)" "hex_digit a \<noteq> 45" "hex_digit a \<noteq> 43"
    using hex_digit_back [of a] hex_digit_back [of b] assms by (auto simp: LocalIsWhitespace_def)
  ultimately show ?thesis by (simp add: HexStringToInt_def Number_Invoke_def Base_Invoke_def)
qed

lemma four_nibbles: "((u div 4096 * 16 + u div 256 mod 16) * 16 + u div 16 mod 16) * 16 + u mod 16 = (u :: int)"
proof -
  have "u div 4096 = u div 256 div 16" "u div 256 = u div 16 div 16" by (simp_all add: div_mult2_eq [symmetric] zdiv_zmult2_eq [symmetric])
  then show ?thesis by (metis div_mult_mod_eq)
qed

lemma HexStringToInt_escape:
  assumes "0 \<le> u" "u < 65536"
  shows "HexStringToInt (drop 2 (unicode_escape u)) = (True, u)"
proof -
  have "0 \<le> u div 4096" "u div 4096 < 16" using assms by auto
  moreover have "0 \<le> x mod 16" "x mod 16 < 16" for x :: int by simp_all
  ultimately have "HexStringToInt [hex_digit (u div 4096), hex_digit (u div 256 mod 16), hex_digit (u div 16 mod 16), hex_digit (u mod 16)] = (True, u)"
    using HexStringToInt_four [of "u div 4096" "u div 256 mod 16" "u div 16 mod 16" "u mod 16"] unfolding four_nibbles by blast
  then show ?thesis by (simp add: unicode_escape_def)
qed

text \<open>The parser inside of a string: the builder has what was read, the index is where reading goes on.\<close>

definition go :: "nat \<Rightarrow> parser \<Rightarrow> parser" where
  "go n p = p\<lparr>p_index := p_index p + n, p_pos := p_pos p + n\<rparr>"

lemma go_simps [simp]: "p_mem (go n p) = p_mem p" "p_pos (go n p) = p_pos p + n" "p_index (go n p) = p_index p + n"
  "same p (go n q) = same p q" "readable (go n p) = readable p" "go n (go m p) = go (m + n) p"
  by (simp_all add: go_def same_def readable_def)

lemma go_moves: "p_pos p + n \<le> length (p_mem p) \<Longrightarrow> NextNChars n p = Inr (go n p)"
  "p_pos p < length (p_mem p) \<Longrightarrow> NextChar p = Inr (go 1 p)"
  by (simp_all add: NextNChars_def NextChar_def go_def)

definition built :: "parser \<Rightarrow> nat \<Rightarrow> ustring \<Rightarrow> builder \<Rightarrow> bool" where
  "built p i out b \<longleftrightarrow> (case b_string b of Some s \<Rightarrow> s = out
     | None \<Rightarrow> b_pos b + b_length b = i \<and> i \<le> length (p_mem p) \<and> take (b_length b) (drop (b_pos b) (p_mem p)) = out)"

definition in_string :: "parser \<Rightarrow> builder \<Rightarrow> ustring \<Rightarrow> ustring \<Rightarrow> bool" where
  "in_string p b out s \<longleftrightarrow> readable p \<and> p_pos p \<le> p_index p \<and> p_index p \<le> length (p_mem p) \<and>
     drop (p_index p) (p_mem p) = s \<and> built p (p_index p) out b"

lemma built_mem: "p_mem q = p_mem p \<Longrightarrow> built q i out b = built p i out b"
  by (simp add: built_def split: option.split)

lemma built_Convert: "built p i out b \<Longrightarrow> p_mem q = p_mem p \<Longrightarrow> \<exists>b'. Convert q b = Inr b' \<and> b_string b' = Some out"
  by (auto simp: built_def Convert_def piece_def split: option.splits)

lemma built_Append:
  assumes "built p i out b" "0 \<le> c" "c < 128" "drop i (p_mem p) = c # s" "p_mem q = p_mem p"
  shows "\<exists>b'. Append c b = Inr b' \<and> built q (i + 1) (out @ [c]) b'"
proof (cases "b_string b")
  case None
  then have b: "b_pos b + b_length b = i" "take (b_length b) (drop (b_pos b) (p_mem p)) = out" using assms(1) by (auto simp: built_def)
  have "i < length (p_mem p)" "p_mem p ! i = c" using sees_nth [OF assms(4)] by auto
  then have "take (b_length b + 1) (drop (b_pos b) (p_mem p)) = out @ [c]" "i + 1 \<le> length (p_mem p)"
    using b by (auto simp: take_Suc_conv_app_nth)
  then show ?thesis using None b(1) assms(2,3,5) by (auto simp: Append_def built_def)
qed (use assms in \<open>auto simp: Append_def built_def\<close>)

lemma converted_Append: "b_string b = Some out \<Longrightarrow> 0 \<le> c \<Longrightarrow> c < 128 \<Longrightarrow> \<exists>b'. Append c b = Inr b' \<and> built q i (out @ [c]) b'"
  by (simp add: Append_def built_def)

lemma next_ascii: "peek p i = Inr c \<Longrightarrow> c < 128 \<Longrightarrow> CBU8_NEXT (peek p) i n = Inr (c, i + 1)"
  by (simp add: CBU8_NEXT_def)

lemma string_turn_ascii:
  assumes "in_string p b out (c # s)" "0 \<le> c" "c < 128"
  shows "string_turn b p = (let p2 = p\<lparr>p_pos := p_index p, p_index := p_index p + 1\<rparr> in
    if c = 92 then bindR (Convert p2 b) (\<lambda>b1. escape_sequence b1 p2)
    else if c = 34 then Inr (Closed b, p2\<lparr>p_index := p_index p\<rparr>)
    else bindR (Append c b) (\<lambda>b1. Inr (Continue b1, p2)))"
proof -
  have l: "p_index p < length (p_mem p)" "p_mem p ! p_index p = c" using sees_nth [of "p_index p" "p_mem p" c s] assms(1) by (auto simp: in_string_def)
  have "peek (p\<lparr>p_pos := p_index p\<rparr>) (p_index p) = Inr c" using l by (simp add: peek_def)
  moreover have "IsValidCharacter c" using assms(2,3) by (auto simp: IsValidCharacter_def)
  ultimately show ?thesis using next_ascii [of "p\<lparr>p_pos := p_index p\<rparr>" "p_index p" c] assms(2,3)
    by (simp add: string_turn_def Let_def kExtendedASCIIStart_def)
qed

definition turns_to :: "builder \<Rightarrow> parser \<Rightarrow> ustring \<Rightarrow> ustring \<Rightarrow> bool" where
  "turns_to b p out s \<longleftrightarrow> (\<exists>b' q. string_turn b p = Inr (Continue b', q) \<and> same p q \<and> in_string q b' out s)"

lemma turn_plain:
  assumes "in_string p b out (c # s)" "32 \<le> c" "c < 127" "c \<noteq> 34" "c \<noteq> 92"
  shows "turns_to b p (out @ [c]) s"
proof -
  have p: "readable p" "drop (p_index p) (p_mem p) = c # s" "built p (p_index p) out b" using assms(1) by (auto simp: in_string_def)
  obtain b' where b': "Append c b = Inr b'" "built p (p_index p + 1) (out @ [c]) b'"
    using built_Append [OF p(3) _ _ p(2) refl] assms(2,3) by auto
  let ?q = "p\<lparr>p_pos := p_index p, p_index := p_index p + 1\<rparr>"
  have "built ?q (p_index ?q) (out @ [c]) b'" using built_mem [of ?q p] b'(2) by simp
  moreover have "string_turn b p = Inr (Continue b', ?q)" using string_turn_ascii [OF assms(1)] assms(2-5) b'(1) by (simp add: Let_def)
  ultimately show ?thesis using p(1) sees_nth [OF p(2)]
    by (auto simp: turns_to_def in_string_def readable_def intro!: exI [of _ b'] exI [of _ ?q])
qed

lemma turn_escape:
  assumes "in_string p b out (92 # s)"
  obtains b1 p2 where "b_string b1 = Some out" "same p p2" "readable p2" "p_index p2 = p_pos p2 + 1" "drop (p_pos p2) (p_mem p2) = 92 # s"
    "string_turn b p = escape_sequence b1 p2"
proof -
  let ?p2 = "p\<lparr>p_pos := p_index p, p_index := p_index p + 1\<rparr>"
  have p: "readable p" "drop (p_index p) (p_mem p) = 92 # s" "built p (p_index p) out b" using assms(1) by (auto simp: in_string_def)
  obtain b1 where "Convert ?p2 b = Inr b1" "b_string b1 = Some out" using built_Convert [OF p(3), of ?p2] by auto
  then show thesis using that [of b1 ?p2] p string_turn_ascii [OF assms] by (auto simp: Let_def readable_def)
qed

lemma next_deref_go:
  assumes "drop (p_pos p) (p_mem p) = c # d # s"
  shows "next_deref p = Inr (d, go 1 p)"
  using sees_nth [OF assms] sees_nth [of "Suc (p_pos p)" "p_mem p" d s] go_moves(2) [of p]
  by (auto simp: next_deref_def deref_def peek_def)

lemma turn_simple:
  assumes "in_string p b out (92 # x # s)" "simple_escape x = Some d" "0 \<le> d" "d < 128" "x \<noteq> 120" "x \<noteq> 117"
  shows "turns_to b p (out @ [d]) s"
proof -
  obtain b1 p2 where p2: "b_string b1 = Some out" "same p p2" "readable p2" "p_index p2 = p_pos p2 + 1" "drop (p_pos p2) (p_mem p2) = 92 # x # s"
    "string_turn b p = escape_sequence b1 p2" by (rule turn_escape [OF assms(1)])
  have l: "p_pos p2 + 1 < length (p_mem p2)" "drop (p_pos p2 + 2) (p_mem p2) = s"
    using sees_nth [OF p2(5)] sees_nth [of "Suc (p_pos p2)" "p_mem p2" x s] by auto
  obtain b' where b': "Append d b1 = Inr b'" "built (go 1 p2) (p_index p2 + 1) (out @ [d]) b'"
    using converted_Append [OF p2(1) assms(3,4)] by blast
  have "escape_sequence b1 p2 = Inr (Continue b', go 1 p2)"
    using next_deref_go [OF p2(5)] l(1) assms b'(1) by (simp add: escape_sequence_def)
  then show ?thesis using p2 l b'(2)
    by (auto simp: turns_to_def in_string_def intro!: exI [of _ b'] exI [of _ "go 1 p2"])
qed

lemma DecodeUTF16_single:
  assumes "drop (p_pos p) (p_mem p) = drop 2 (unicode_escape u) @ s" "0 < u" "u < 65536" "valid u"
  shows "DecodeUTF16 p = Inr (Some (utf8 u), go 3 p)"
proof -
  have n: "length (drop 2 (unicode_escape u)) = 4" by (simp add: unicode_escape_def)
  have l: "p_pos p + 4 \<le> length (p_mem p)" using arg_cong [OF assms(1), of length] n by simp
  have t: "take 4 (drop (p_pos p) (p_mem p)) = drop 2 (unicode_escape u)" unfolding assms(1) using n by simp
  have h: "hex_piece p (p_pos p) 4 = Inr (True, u)" using l t HexStringToInt_escape [of u] assms(2,3) by (simp add: hex_piece_def Let_def)
  have "\<not> CBU_IS_SURROGATE u" using assms(4) surrogate_iff [of u] assms(2,3) by (auto simp: valid_def IsValidCodepoint_def)
  moreover have "takeWhile (\<lambda>b. b \<noteq> 0) (utf8 u) = utf8 u" using utf8_first [OF assms(4)] assms(2)
    by (auto simp: takeWhile_eq_all_conv list_all_iff)
  ultimately show ?thesis using l h by (simp add: DecodeUTF16_def go_moves)
qed

lemma DecodeUTF16_pair:
  assumes "drop (p_pos p) (p_mem p) = drop 2 (unicode_escape u) @ unicode_escape v @ s" "utf16 c = [u, v]" "valid c" "0x10000 \<le> c"
  shows "DecodeUTF16 p = Inr (Some (utf8 c), go 9 p)"
proof -
  have c: "0 \<le> c" "c \<le> 0x10ffff" using valid_range [OF assms(3)] by auto
  have uv: "u = c div 1024 + 0xd7c0" "v = 0xdc00 + c mod 1024" using utf16_eq [OF c] assms(2,4) by auto
  have d: "64 \<le> c div 1024" "c div 1024 < 1088" "0 \<le> c mod 1024" "c mod 1024 < 1024" using c assms(4) by auto
  then have r: "0xd800 \<le> u" "u \<le> 0xdbff" "0xdc00 \<le> v" "v \<le> 0xdfff" unfolding uv by simp_all
  have sup: "CBU16_GET_SUPPLEMENTARY u v = c" using supplementary [OF r] unfolding uv by simp
  have sur: "CBU_IS_SURROGATE u" "CBU16_IS_SURROGATE_LEAD u" "CBU16_IS_TRAIL v"
    using r surrogate_iff [of u] lead16_iff [of u] trail16_iff [of v] by auto
  have n: "length (drop 2 (unicode_escape x)) = 4" for x by (simp add: unicode_escape_def)
  have e: "unicode_escape v = 92 # 117 # drop 2 (unicode_escape v)" by (simp add: unicode_escape_def)
  have m: "drop (p_pos p) (p_mem p) = drop 2 (unicode_escape u) @ 92 # 117 # drop 2 (unicode_escape v) @ s" using assms(1) e by simp
  have l: "p_pos p + 10 \<le> length (p_mem p)" using arg_cong [OF m, of length] n by simp
  have t: "take 4 (drop (p_pos p) (p_mem p)) = drop 2 (unicode_escape u)" unfolding m using n by simp
  have h: "hex_piece p (p_pos p) 4 = Inr (True, u)" using l t HexStringToInt_escape [of u] r by (simp add: hex_piece_def Let_def)
  have m4: "drop (p_pos p + 4) (p_mem p) = 92 # 117 # drop 2 (unicode_escape v) @ s"
    by (rule drop_more [OF m n])
  have m6: "drop (p_pos p + 6) (p_mem p) = drop 2 (unicode_escape v) @ s"
    using drop_more [of "p_pos p + 4" "p_mem p" "[92, 117]" _ 2] m4 by (simp add: add.commute)
  have m3: "drop (p_pos (go 3 p)) (p_mem (go 3 p)) = p_mem p ! (p_pos p + 3) # 92 # 117 # drop 2 (unicode_escape v) @ s"
  proof -
    have "Suc (p_pos p + 3) = p_pos p + 4" by simp
    then show ?thesis using Cons_nth_drop_Suc [of "p_pos p + 3" "p_mem p"] l m4 by (simp add: add.commute del: Cons_nth_drop_Suc)
  qed
  have n3: "next_deref (go 3 p) = Inr (92, go 4 p)" using next_deref_go [OF m3] by simp
  have n4: "next_deref (go 4 p) = Inr (117, go 5 p)" using next_deref_go [of "go 4 p" 92 117] m4 by simp
  have h': "hex_piece (go 6 p) (p_pos p + 6) 4 = Inr (True, v)" using l m6 n HexStringToInt_escape [of v] r by (simp add: hex_piece_def Let_def)
  have z: "takeWhile (\<lambda>b. b \<noteq> 0) (utf8 c) = utf8 c" using utf8_first [OF assms(3)] assms(4)
    by (auto simp: takeWhile_eq_all_conv list_all_iff)
  show ?thesis using l h h' n3 n4 sur sup z by (simp add: DecodeUTF16_def go_moves Let_def)
qed

text \<open>\<open>d\<close> stands for the digits, \<open>n\<close> for their number.\<close>

lemma turn_unicode:
  assumes "in_string p b out (92 # 117 # d @ s)" "3 \<le> n" "length d = n + 1"
    "\<And>q. drop (p_pos q) (p_mem q) = d @ s \<Longrightarrow> DecodeUTF16 q = Inr (Some units, go n q)"
  shows "turns_to b p (out @ units) s"
proof -
  obtain b1 p2 where p2: "b_string b1 = Some out" "same p p2" "readable p2" "p_index p2 = p_pos p2 + 1"
    "drop (p_pos p2) (p_mem p2) = 92 # 117 # d @ s" "string_turn b p = escape_sequence b1 p2" by (rule turn_escape [OF assms(1)])
  have m: "drop (p_pos p2 + 2) (p_mem p2) = d @ s" using arg_cong [OF p2(5), of "drop 2"] by (simp add: add.commute)
  have l: "p_pos p2 + 3 + n \<le> length (p_mem p2)" using arg_cong [OF p2(5), of length] assms(3) by simp
  have D: "DecodeUTF16 (go 2 p2) = Inr (Some units, go (2 + n) p2)" using assms(4) [of "go 2 p2"] m by simp
  have "escape_sequence b1 p2 = Inr (Continue (b1\<lparr>b_string := Some (out @ units)\<rparr>), go (2 + n) p2)"
    using next_deref_go [OF p2(5)] l assms(2) D p2(1) by (simp add: escape_sequence_def go_moves AppendString_def numeral_2_eq_2)
  moreover have "drop (p_pos p2 + 3 + n) (p_mem p2) = s"
    using drop_more [OF m assms(3)] by (simp add: ac_simps numeral_3_eq_3)
  then have "in_string (go (2 + n) p2) (b1\<lparr>b_string := Some (out @ units)\<rparr>) (out @ units) s"
    using p2(3,4) l by (simp add: in_string_def built_def ac_simps numeral_3_eq_3)
  ultimately show ?thesis using p2(2,6) unfolding turns_to_def by (intro exI conjI) (assumption | simp)+
qed

section \<open>Strings\<close>

definition plain_char :: "int \<Rightarrow> bool" where
  "plain_char c \<longleftrightarrow> char_ok c \<and> c \<noteq> 0"

lemma unicode_escape_split: "unicode_escape u = 92 # 117 # drop 2 (unicode_escape u)"
  by (simp add: unicode_escape_def)

lemma turn_single:
  assumes "in_string p b out (unicode_escape c @ s)" "valid c" "0 < c" "c < 0x10000"
  shows "turns_to b p (out @ utf8 c) s"
proof (rule turn_unicode [where d = "drop 2 (unicode_escape c)" and n = 3])
  show "in_string p b out (92 # 117 # drop 2 (unicode_escape c) @ s)" using assms(1) by (subst (asm) unicode_escape_split) simp
  show "length (drop 2 (unicode_escape c)) = 3 + 1" by (simp add: unicode_escape_def)
  show "DecodeUTF16 q = Inr (Some (utf8 c), go 3 q)" if "drop (p_pos q) (p_mem q) = drop 2 (unicode_escape c) @ s" for q
    using DecodeUTF16_single [OF that] assms by simp
qed simp

lemma turn_pair:
  assumes "in_string p b out (unicode_escape u @ unicode_escape v @ s)" "utf16 c = [u, v]" "valid c" "0x10000 \<le> c"
  shows "turns_to b p (out @ utf8 c) s"
proof (rule turn_unicode [where d = "drop 2 (unicode_escape u) @ unicode_escape v" and n = 9])
  show "in_string p b out (92 # 117 # (drop 2 (unicode_escape u) @ unicode_escape v) @ s)" using assms(1) by (subst (asm) unicode_escape_split) simp
  show "length (drop 2 (unicode_escape u) @ unicode_escape v) = 9 + 1" by (simp add: unicode_escape_def)
  show "DecodeUTF16 q = Inr (Some (utf8 c), go 9 q)" if "drop (p_pos q) (p_mem q) = (drop 2 (unicode_escape u) @ unicode_escape v) @ s" for q
    using DecodeUTF16_pair [of q u v s c] that assms by simp
qed simp

lemma turn_char:
  assumes "in_string p b out (concat (map quoted_unit (utf16 c)) @ s)" "plain_char c"
  shows "turns_to b p (out @ utf8 c) s"
proof -
  have v: "valid c" "c \<noteq> 0" using assms(2) by (auto simp: plain_char_def char_ok_def)
  note c = valid_range [OF v(1)]
  show ?thesis
  proof (cases "c < 0x10000")
    case True
    then have u: "utf16 c = [c]" using utf16_eq [of c] c by simp
    have i: "in_string p b out (quoted_unit c @ s)" using assms(1) by (simp add: u)
    show ?thesis
    proof (cases "JsonSingleEscapeChar c")
      case None
      then have n: "c \<noteq> 34" "c \<noteq> 92" by (auto simp: JsonSingleEscapeChar_def)
      show ?thesis
      proof (cases "c < 32 \<or> c > 126 \<or> c = 60 \<or> c = 62")
        case True
        then show ?thesis using i None turn_single [of p b out c s] v c \<open>c < 0x10000\<close> by (simp add: quoted_unit_def)
      next
        case False
        moreover from this have "utf8 c = [c]" using utf8_eq [of c] c by simp
        ultimately show ?thesis using i None turn_plain [of p b out c s] n by (simp add: quoted_unit_def)
      qed
    next
      case (Some e)
      then obtain x where x: "e = [92, x]" "simple_escape x = Some c" "0 \<le> c" "c < 128" "x \<noteq> 120" "x \<noteq> 117"
        by (auto simp: JsonSingleEscapeChar_def simple_escape_def split: if_splits)
      then show ?thesis using i Some turn_simple [of p b out x s c] utf8_eq [of c] by (simp add: quoted_unit_def)
    qed
  next
    case False
    then have u: "utf16 c = [c div 1024 + 0xd7c0, 0xdc00 + c mod 1024]" using utf16_eq [of c] c by simp
    have "0 \<le> c mod 1024" "64 \<le> c div 1024" using False by auto
    then have q: "quoted_unit x = unicode_escape x" if "x \<in> set (utf16 c)" for x
      using that by (auto simp: u quoted_unit_def JsonSingleEscapeChar_def)
    show ?thesis using assms(1) turn_pair [OF _ u v(1)] False q by (simp add: u)
  qed
qed

lemma quoted_unit_nonempty: "quoted_unit u \<noteq> []"
  by (auto simp: quoted_unit_def JsonSingleEscapeChar_def unicode_escape_def)

lemma in_string_room: "in_string p b out (x # s) \<Longrightarrow> p_pos p + 1 \<le> length (p_mem p)"
  using sees_nth [of "p_index p" "p_mem p" x s] by (auto simp: in_string_def)

lemma string_chars:
  "\<lbrakk>in_string p b out (concat (map quoted_unit (encode utf16 cs)) @ 34 # s); list_all plain_char cs\<rbrakk> \<Longrightarrow>
   \<exists>b' q. string_loop b p = Inr (Some b', q) \<and> same p q \<and> p_index q = p_pos q \<and>
     drop (p_pos q) (p_mem q) = 34 # s \<and> built q (p_pos q) (out @ encode utf8 cs) b'"
proof (induction cs arbitrary: p b out)
  case Nil
  then have p: "in_string p b out (34 # s)" by simp
  let ?q = "p\<lparr>p_pos := p_index p, p_index := p_index p\<rparr>"
  have "string_turn b p = Inr (Closed b, ?q)" using string_turn_ascii [OF p] by (simp add: Let_def)
  then have "string_loop b p = Inr (Some b, ?q)" using in_string_room [OF p] by (subst string_loop.simps) simp
  moreover have "built ?q (p_index p) out b" using p built_mem [of ?q p] by (simp add: in_string_def)
  ultimately show ?case using p by (auto simp: in_string_def intro!: exI [of _ b] exI [of _ ?q])
next
  case (Cons c cs)
  let ?s = "concat (map quoted_unit (encode utf16 cs)) @ 34 # s"
  have i: "in_string p b out (concat (map quoted_unit (utf16 c)) @ ?s)" using Cons(2) by simp
  have c: "plain_char c" using Cons(3) by simp
  obtain b' q where q: "string_turn b p = Inr (Continue b', q)" "same p q" "in_string q b' (out @ utf8 c) ?s"
    using turn_char [OF i c] by (auto simp: turns_to_def)
  obtain x t where "concat (map quoted_unit (utf16 c)) @ ?s = x # t" by (cases "concat (map quoted_unit (utf16 c)) @ ?s") auto
  then have r: "p_pos p + 1 \<le> length (p_mem p)" using i in_string_room by simp
  obtain b'' r where "string_loop b' q = Inr (Some b'', r)" "same q r" "p_index r = p_pos r"
      "drop (p_pos r) (p_mem r) = 34 # s" "built r (p_pos r) ((out @ utf8 c) @ encode utf8 cs) b''"
    using Cons(1) [OF q(3)] Cons(3) by auto
  moreover have "string_loop b p = string_loop b' q" using r q(1) by (subst string_loop.simps) simp
  ultimately show ?case using same_trans [OF q(2)] by auto
qed

lemma read_string:
  assumes "sees p (JsonDoubleQuote (encode utf16 cs) True [] @ s)" "list_all plain_char cs"
  shows "\<exists>b q. ConsumeStringRaw p = Inr (Some b, q) \<and> on (length (JsonDoubleQuote (encode utf16 cs) True []) - 1) p q \<and>
    built q (p_pos q) (encode utf8 cs) b"
proof -
  let ?u = "concat (map quoted_unit (encode utf16 cs))"
  have p: "sees p (34 # ?u @ 34 # s)" using assms(1) by (simp add: JsonDoubleQuote_units)
  note f = sees_Cons [OF p]
  have "in_string (forth p) (new_StringBuilder (p_pos (forth p))) [] (?u @ 34 # s)"
    using f(6) by (auto simp: in_string_def sees_def wound_def built_def new_StringBuilder_def)
  then obtain b q where q: "string_loop (new_StringBuilder (p_pos (forth p))) (forth p) = Inr (Some b, q)" "same (forth p) q"
      "p_index q = p_pos q" "drop (p_pos q) (p_mem q) = 34 # s" "built q (p_pos q) (encode utf8 cs) b"
    using string_chars [of _ _ "[]"] assms(2) by fastforce
  have m: "p_mem q = p_mem p" using q(2) by (simp add: same_def)
  have l: "p_pos q < length (p_mem q)" using sees_nth [OF q(4)] by simp
  have "length (p_mem p) - p_pos p = length (34 # ?u @ 34 # s)" using p by (metis length_drop sees_def)
  moreover have "length (p_mem p) - p_pos q = length (34 # s)" using q(4) m by (metis length_drop)
  ultimately have "p_pos q = p_pos p + 1 + length ?u" using f(1) l m by simp
  then have "on (length (JsonDoubleQuote (encode utf16 cs) True []) - 1) p q"
    using q(2,3) l by (simp add: on_def wound_def JsonDoubleQuote_units)
  moreover have "ConsumeStringRaw p = Inr (Some b, q)" using f(3,4) q(1) by (simp add: ConsumeStringRaw_def)
  ultimately show ?thesis using q(5) by blast
qed

section \<open>Numbers\<close>

text \<open>What may follow a value.\<close>

definition value_end :: "ustring \<Rightarrow> bool" where
  "value_end s \<longleftrightarrow> (\<exists>ws t. s = ws @ t \<and> list_all blank ws \<and> (t = [] \<or> hd t \<in> {44, 93, 125}))"

definition not_digit :: "ustring \<Rightarrow> bool" where
  "not_digit s \<longleftrightarrow> s = [] \<or> \<not> is_digit (hd s)"

definition head0 :: "ustring \<Rightarrow> int" where
  "head0 s = (if s = [] then 0 else hd s)"

lemma deref_sees: "sees p s \<Longrightarrow> deref p = Inr (head0 s)"
  using sees_Nil [of p] sees_Cons(3) [of p "hd s" "tl s"] by (cases s) (auto simp: head0_def)

lemma value_end_head: "value_end s \<Longrightarrow> not_digit s \<and> head0 s \<notin> {46, 101, 69, 45}"
proof -
  assume "value_end s"
  then obtain ws t where s: "s = ws @ t" "list_all blank ws" "t = [] \<or> hd t \<in> {44, 93, 125}" by (auto simp: value_end_def)
  have "s = [] \<or> hd s \<in> {10, 32, 44, 93, 125}" using s by (cases ws) auto
  then show ?thesis by (auto simp: not_digit_def is_digit_def head0_def)
qed

lemma read_digits_sees:
  "sees p (ds @ s) \<Longrightarrow> \<forall>c\<in>set ds. is_digit c \<Longrightarrow> not_digit s \<Longrightarrow>
   \<exists>q. read_digits (head0 (ds @ s)) n p = Inr (n + length ds, q) \<and> on (length ds) p q"
proof (induction ds arbitrary: p n)
  case Nil
  then have "\<not> IsAsciiDigit (head0 s)" by (auto simp: not_digit_def is_digit_def IsAsciiDigit_def head0_def)
  then show ?case using on_0 [OF Nil(1)] by (subst read_digits.simps) simp
next
  case (Cons c ds)
  have p: "sees p (c # (ds @ s))" using Cons(2) by simp
  note f = sees_Cons [OF p]
  obtain q where q: "read_digits (head0 (ds @ s)) (n + 1) (forth p) = Inr (n + 1 + length ds, q)" "on (length ds) (forth p) q"
    using Cons(1) [OF f(6), of "n + 1"] Cons(3,4) by auto
  have "next_deref p = Inr (head0 (ds @ s), forth p)" using f(4) deref_sees [OF f(6)] by (simp add: next_deref_def)
  moreover have "IsAsciiDigit c" using Cons(3) by (simp add: is_digit_def IsAsciiDigit_def)
  ultimately have "read_digits (head0 ((c # ds) @ s)) n p = Inr (n + length (c # ds), q)"
    using q(1) f(1) by (subst read_digits.simps) (simp add: head0_def)
  then show ?case using on_trans [OF f(5) q(2)] by auto
qed

lemma ReadInt_sees:
  assumes "sees p (ds @ s)" "ds \<noteq> []" "\<forall>c\<in>set ds. is_digit c" "not_digit s" "zeros \<or> length ds = 1 \<or> hd ds \<noteq> 48"
  shows "\<exists>q. ReadInt zeros p = Inr (True, q) \<and> on (length ds) p q \<and> sees q s"
proof -
  obtain q where q: "read_digits (head0 (ds @ s)) 0 p = Inr (length ds, q)" "on (length ds) p q"
    using read_digits_sees [OF assms(1,3,4), of 0] by auto
  have "head0 (ds @ s) = hd ds" using assms(2) by (simp add: head0_def)
  then show ?thesis using q sees_on [OF assms(1) q(2)] deref_sees [OF assms(1)] assms(2,5) by (auto simp: ReadInt_def)
qed

definition digits :: "ustring \<Rightarrow> bool" where
  "digits s \<longleftrightarrow> s \<noteq> [] \<and> (\<forall>c\<in>set s. is_digit c)"

definition fraction_part :: "ustring \<Rightarrow> bool" where
  "fraction_part s \<longleftrightarrow> s = [] \<or> (\<exists>f. s = 46 # f \<and> digits f)"

definition exponent_part :: "ustring \<Rightarrow> bool" where
  "exponent_part s \<longleftrightarrow> s = [] \<or> (\<exists>e sg x. s = e # sg @ x \<and> e \<in> {101, 69} \<and> sg \<in> {[], [43], [45]} \<and> digits x)"

definition number_text :: "ustring \<Rightarrow> bool" where
  "number_text t \<longleftrightarrow> (\<exists>sg i f e. t = sg @ i @ f @ e \<and> sg \<in> {[], [45]} \<and> digits i \<and> (length i = 1 \<or> hd i \<noteq> 48) \<and>
     fraction_part f \<and> exponent_part e)"

lemma read_fraction_sees:
  assumes "sees p (f @ s)" "fraction_part f" "not_digit s" "head0 s \<noteq> 46"
  shows "\<exists>q. read_fraction p = Inr (True, q) \<and> on (length f) p q \<and> sees q s"
proof (cases "f = []")
  case False
  then obtain d where f: "f = 46 # d" "digits d" using assms(2) by (auto simp: fraction_part_def)
  then have p: "sees p (46 # (d @ s))" using assms(1) by simp
  obtain q where "ReadInt True (forth p) = Inr (True, q)" "on (length d) (forth p) q" "sees q s"
    using ReadInt_sees [OF sees_Cons(6) [OF p], of True] f(2) assms(3) by (auto simp: digits_def)
  then show ?thesis using sees_Cons [OF p] on_trans [OF sees_Cons(5) [OF p], of "length d" q] f by (auto simp: read_fraction_def)
qed (use assms deref_sees [of p s] on_0 in \<open>auto simp: read_fraction_def\<close>)

lemma read_exponent_sees:
  assumes "sees p (e @ s)" "exponent_part e" "not_digit s" "head0 s \<notin> {101, 69}"
  shows "\<exists>q. read_exponent p = Inr (True, q) \<and> on (length e) p q \<and> sees q s"
proof (cases "e = []")
  case False
  then obtain c sg x where e: "e = c # sg @ x" "c \<in> {101, 69}" "sg \<in> {[], [43], [45]}" "digits x" using assms(2) by (auto simp: exponent_part_def)
  then have p: "sees p (c # (sg @ x @ s))" using assms(1) by simp
  have x: "head0 (x @ s) \<noteq> 43" "head0 (x @ s) \<noteq> 45" using e(4) by (cases x; auto simp: digits_def head0_def is_digit_def)+
  obtain d p2 where p2: "deref (forth p) = Inr d" "(if d = 45 \<or> d = 43 then NextChar (forth p) else Inr (forth p)) = Inr p2"
      "on (length sg) (forth p) p2" "sees p2 (x @ s)"
  proof (cases "sg = []")
    case True
    then have q: "sees (forth p) (x @ s)" using sees_Cons(6) [OF p] by simp
    show thesis by (rule that [of "head0 (x @ s)" "forth p"]) (use deref_sees [OF q] x q on_0 [OF q] True in auto)
  next
    case False
    then obtain d where d: "sg = [d]" "d = 43 \<or> d = 45" using e(3) by auto
    then have q: "sees (forth p) (d # (x @ s))" using sees_Cons(6) [OF p] by simp
    show thesis by (rule that [of d "forth (forth p)"]) (use sees_Cons [OF q] d in auto)
  qed
  obtain q where q: "ReadInt True p2 = Inr (True, q)" "on (length x) p2 q" "sees q s"
    using ReadInt_sees [OF p2(4), of True] e(4) assms(3) by (auto simp: digits_def)
  have "on (1 + (length sg + length x)) p q" by (rule on_trans [OF sees_Cons(5) [OF p] on_trans [OF p2(3) q(2)]])
  moreover have "read_exponent p = Inr (True, q)"
    using sees_Cons(3,4) [OF p] e(2) p2(1,2) q(1) by (simp add: read_exponent_def disj_commute)
  ultimately show ?thesis using q(3) e(1) by auto
qed (use assms deref_sees [of p s] on_0 in \<open>auto simp: read_exponent_def\<close>)

lemma read_number_sees:
  assumes "sees p (t @ s)" "number_text t" "not_digit s" "head0 s \<notin> {46, 101, 69}"
  shows "\<exists>q. read_number p = Inr (True, q) \<and> on (length t) p q \<and> sees q s"
proof -
  obtain sg i f e where t: "t = sg @ i @ f @ e" "sg \<in> {[], [45]}" "digits i" "length i = 1 \<or> hd i \<noteq> 48" "fraction_part f" "exponent_part e"
    using assms(2) by (auto simp: number_text_def)
  have i: "head0 (i @ r) \<noteq> 45" for r using t(3) by (cases i) (auto simp: digits_def head0_def is_digit_def)
  have es: "not_digit (e @ s)" "head0 (e @ s) \<noteq> 46" using t(6) assms(3,4) by (auto simp: exponent_part_def not_digit_def head0_def is_digit_def)
  then have fs: "not_digit (f @ e @ s)" using t(5) by (auto simp: fraction_part_def not_digit_def is_digit_def)
  obtain d p1 where p1: "deref p = Inr d" "(if d = 45 then NextChar p else Inr p) = Inr p1" "on (length sg) p p1" "sees p1 (i @ f @ e @ s)"
  proof (cases "sg = []")
    case True
    then have p: "sees p (i @ f @ e @ s)" using assms(1) t(1) by simp
    show thesis by (rule that [of "head0 (i @ f @ e @ s)" p]) (use deref_sees [OF p] i p on_0 [OF p] True in auto)
  next
    case False
    then have p: "sees p (45 # (i @ f @ e @ s))" "sg = [45]" using assms(1) t(1,2) by auto
    show thesis by (rule that [of 45 "forth p"]) (use sees_Cons [OF p(1)] p(2) in auto)
  qed
  obtain p2 where p2: "ReadInt False p1 = Inr (True, p2)" "on (length i) p1 p2" "sees p2 (f @ e @ s)"
    using ReadInt_sees [OF p1(4) _ _ fs, of False] t(3,4) by (auto simp: digits_def)
  obtain p3 where p3: "read_fraction p2 = Inr (True, p3)" "on (length f) p2 p3" "sees p3 (e @ s)"
    using read_fraction_sees [OF p2(3) t(5) es] by auto
  obtain q where q: "read_exponent p3 = Inr (True, q)" "on (length e) p3 q" "sees q s"
    using read_exponent_sees [OF p3(3) t(6) assms(3)] assms(4) by auto
  have "on (length sg + (length i + (length f + length e))) p q"
    by (rule on_trans [OF p1(3) on_trans [OF p2(2) on_trans [OF p3(2) q(2)]]])
  moreover have "read_number p = Inr (True, q)" using p1(1,2) p2(1) p3(1) q(1) by (simp add: read_number_def)
  ultimately show ?thesis using q(3) t(1) by auto
qed

text \<open>A number that is read is an integer, if it fits, and a double otherwise.\<close>

definition number_value :: "'d doubles \<Rightarrow> ustring \<Rightarrow> 'd val option" where
  "number_value ds t = (if fst (StringToInt t) then Some (IntegerValue (word_of_int (snd (StringToInt t))))
     else map_option DoubleValue (d_from_string ds t))"

lemma number_text_nonempty: "number_text t \<Longrightarrow> t \<noteq> []"
  by (auto simp: number_text_def digits_def)

lemma ConsumeNumber_sees:
  assumes "sees p (t @ s)" "number_text t" "value_end s"
  shows "\<exists>q. ConsumeNumber ds p = Inr (number_value ds t, q) \<and> on (length t - 1) p q"
proof -
  obtain q where q: "read_number p = Inr (True, q)" "on (length t) p q" "sees q s"
    using read_number_sees [OF assms(1,2)] value_end_head [OF assms(3)] by auto
  obtain ws u where s: "s = ws @ u" "list_all blank ws" "u = [] \<or> hd u \<in> {44, 93, 125}" using assms(3) by (auto simp: value_end_def)
  have "starts_token u" using s(3) by (auto simp: starts_token_def)
  then obtain r where r: "GetNextToken q = Inr (first_token u, r)" "on (length ws) q r"
    using next_token [of q ws u] q(3) s(1,2) by auto
  have u: "first_token u \<in> {T_OBJECT_END, T_ARRAY_END, T_LIST_SEPARATOR, T_END_OF_INPUT}"
    using s(3) by (auto simp: first_token_def token_of_def)
  define e where "e = r\<lparr>p_pos := p_pos q - 1, p_index := p_index q - 1\<rparr>"
  have w: "p_index q = p_pos q" "p_index p = p_pos p" "p_pos q = p_pos p + length t" "same p q" "same q r" "p_pos q \<le> length (p_mem q)"
    using q(2) r(2) assms(1) by (auto simp: on_def wound_def sees_def)
  have e: "on (length t - 1) p e"
    using w number_text_nonempty [OF assms(2)] same_trans [OF w(4,5)] by (cases t) (auto simp: e_def on_def wound_def same_def)
  have "p_mem e = p_mem p" using e by (simp add: on_def same_def)
  then have P: "piece e (p_pos p) (p_index q - p_index p) = Inr t"
    using assms(1) w by (auto simp: piece_def sees_def same_def)
  have "finish_number ds (p_pos p) (p_index p) q = Inr (number_value ds t, e)"
  proof -
    have "\<not> (first_token u \<noteq> T_OBJECT_END \<and> first_token u \<noteq> T_ARRAY_END \<and> first_token u \<noteq> T_LIST_SEPARATOR \<and> first_token u \<noteq> T_END_OF_INPUT)"
      using u by auto
    then show ?thesis using P
      by (auto simp: finish_number_def Let_def r(1) number_value_def case_prod_unfold e_def [symmetric] simp del: One_nat_def split: option.split)
  qed
  then show ?thesis using q(1) e by (simp add: ConsumeNumber_def)
qed

section \<open>Texts of numbers\<close>

lemma StringToInt_part:
  assumes "sg \<in> {[], [45]}" "digits i" "fraction_part f" "exponent_part e"
  shows "fst (StringToInt (sg @ i @ f @ e)) \<longrightarrow> f = [] \<and> e = []"
proof -
  have "f @ e = [] \<or> \<not> is_digit (hd (f @ e))" using assms(3,4) by (auto simp: fraction_part_def exponent_part_def is_digit_def)
  then have "fst (StringToInt ([] @ sg @ i @ f @ e)) \<longrightarrow> f @ e = []" unfolding StringToInt_def StringToIntImpl_def
    by (subst Number_Invoke_spec [OF decimal_traits(1)]) (use assms(1,2) in \<open>auto simp: digits_def signed_traits_def Let_def\<close>)
  then show ?thesis by simp
qed

lemma printf_d_text: "number_text (printf_d i)"
proof -
  have z: "hd (digits10 n) = 48 \<Longrightarrow> length (digits10 n) = 1" for n
  proof (induction n rule: digits10.induct)
    case (1 n)
    show ?case
    proof (cases "n < 10")
      case False
      then have "hd (digits10 (n div 10)) = 48" using 1(2) by (simp add: digits10.simps [of n])
      then have l: "length (digits10 (n div 10)) = 1" using 1(1) False by blast
      then have "n div 10 < 10" by (rule contrapos_pp) (simp add: digits10.simps [of "n div 10"])
      then have "digits10 (n div 10) = [int (n div 10) + 48]" by (simp add: digits10.simps [of "n div 10"])
      then have "n div 10 = 0" using \<open>hd (digits10 (n div 10)) = 48\<close> by simp
      then show ?thesis using False by auto
    qed (simp add: digits10.simps [of n])
  qed
  show ?thesis unfolding number_text_def printf_d_def
    by (rule exI [of _ "if i < 0 then [45] else []"], rule exI [of _ "digits10 (nat \<bar>i\<bar>)"], rule exI [of _ "[]"], rule exI [of _ "[]"])
      (use z [of "nat \<bar>i\<bar>"] digits10_digits in \<open>auto simp: digits_def fraction_part_def exponent_part_def\<close>)
qed

lemma printf_d_value: "number_value ds (printf_d (sint (i :: 32 word))) = Some (IntegerValue i)"
proof -
  have "- (2 ^ 31) \<le> sint i" "sint i < 2 ^ 31" using sint_ge [of i] sint_lt [of i] by simp_all
  then have "StringToInt (printf_d (sint i)) = (True, sint i)" unfolding StringToInt_def StringToIntImpl_def printf_d_def
    by (intro digits_of_value decimal_traits) (auto simp: signed_traits_def in_bounds_def)
  then show ?thesis by (simp add: number_value_def)
qed

text \<open>What the model relies on of \<open>DoubleToString\<close> and \<open>StringToDouble\<close>: the form of the text, and that it reads back.\<close>

definition double_format :: "ustring \<Rightarrow> bool" where
  "double_format s \<longleftrightarrow> (\<exists>sg i f e. s = sg @ i @ f @ e \<and> sg \<in> {[], [45]} \<and>
     (digits i \<and> (length i = 1 \<or> hd i \<noteq> 48) \<or> i = [] \<and> f \<noteq> []) \<and> fraction_part f \<and> exponent_part e)"

definition json_double :: "'d doubles \<Rightarrow> 'd \<Rightarrow> bool" where
  "json_double ds x \<longleftrightarrow> double_format (d_to_string ds x) \<and> d_from_string ds (real_text (d_to_string ds x)) = Some x"

lemma real_text_number:
  assumes "double_format s"
  shows "number_text (real_text s) \<and> \<not> fst (StringToInt (real_text s))"
proof -
  obtain sg i f e where s: "s = sg @ i @ f @ e" "sg \<in> {[], [45]}" "digits i \<and> (length i = 1 \<or> hd i \<noteq> 48) \<or> i = [] \<and> f \<noteq> []"
    "fraction_part f" "exponent_part e" using assms by (auto simp: double_format_def)
  define f' where "f' = (if f = [] \<and> e = [] then [46, 48] else f)"
  define i' where "i' = (if i = [] then [48] else i)"
  have d: "d \<notin> {46, 101, 69}" if "is_digit d" for d using that by (auto simp: is_digit_def)
  have n: "(46 \<notin> set s \<and> 101 \<notin> set s \<and> 69 \<notin> set s) \<longleftrightarrow> f = [] \<and> e = []"
  proof
    assume "f = [] \<and> e = []"
    moreover from this have "i = [] \<or> (\<forall>c\<in>set i. is_digit c)" using s(3) by (auto simp: digits_def)
    ultimately show "46 \<notin> set s \<and> 101 \<notin> set s \<and> 69 \<notin> set s" using s(1,2) d by auto
  qed (use s(1,4,5) in \<open>auto simp: fraction_part_def exponent_part_def\<close>)
  have "(if 46 \<notin> set s \<and> 101 \<notin> set s \<and> 69 \<notin> set s then s @ [46, 48] else s) = sg @ i @ f' @ e"
    unfolding n using s(1) by (simp add: f'_def)
  then have r: "real_text s = (let real1 = sg @ i @ f' @ e in if real1 ! 0 = 46 then 48 # real1
         else if length real1 > 1 \<and> real1 ! 0 = 45 \<and> real1 ! 1 = 46 then 45 # 48 # drop 1 real1 else real1)"
    by (simp only: real_text_def Let_def)
  have f': "fraction_part f'" "f' \<noteq> [] \<or> e \<noteq> []" "i = [] \<Longrightarrow> \<exists>g. f' = 46 # g"
    using s(3,4) by (auto simp: f'_def fraction_part_def digits_def is_digit_def)
  have i': "digits i'" "length i' = 1 \<or> hd i' \<noteq> 48" using s(3) by (auto simp: i'_def digits_def is_digit_def)
  have "real_text s = sg @ i' @ f' @ e"
  proof (cases i)
    case Nil
    then show ?thesis using f'(3) s(2) by (auto simp: r Let_def i'_def)
  next
    case (Cons c cs)
    then have "is_digit c" using s(3) by (auto simp: digits_def)
    then show ?thesis using Cons s(2) by (auto simp: r Let_def i'_def is_digit_def)
  qed
  then show ?thesis using StringToInt_part [OF s(2) i'(1) f'(1) s(5)] f' i' s(2,5) unfolding number_text_def by auto
qed

lemma double_value: "json_double ds x \<Longrightarrow> number_value ds (real_text (d_to_string ds x)) = Some (DoubleValue x)"
  using real_text_number [of "d_to_string ds x"] by (simp add: json_double_def number_value_def)

section \<open>The text of a value\<close>

text \<open>The text that the writer makes: \<open>pr\<close> with white space; \<open>first\<close> before the first element.\<close>

definition str_text :: "ustring \<Rightarrow> ustring" where
  "str_text s = (case UTF8ToUTF16 s of Inr (_, t) \<Rightarrow> JsonDoubleQuote t True [] | Inl _ \<Rightarrow> [])"

abbreviation space :: "bool \<Rightarrow> ustring" where "space pr \<equiv> (if pr then [32] else [])"
abbreviation newline :: "bool \<Rightarrow> ustring" where "newline pr \<equiv> (if pr then [10] else [])"
abbreviation indent :: "bool \<Rightarrow> nat \<Rightarrow> ustring" where "indent pr depth \<equiv> (if pr then replicate (depth * 3) 32 else [])"

fun val_text :: "'d doubles \<Rightarrow> bool \<Rightarrow> nat \<Rightarrow> 'd val \<Rightarrow> ustring"
  and list_text :: "'d doubles \<Rightarrow> bool \<Rightarrow> nat \<Rightarrow> bool \<Rightarrow> 'd val list \<Rightarrow> ustring"
  and dict_text :: "'d doubles \<Rightarrow> bool \<Rightarrow> nat \<Rightarrow> bool \<Rightarrow> 'd dict \<Rightarrow> ustring" where
  "val_text ds pr depth NullValue = [110, 117, 108, 108]"
| "val_text ds pr depth (BooleanValue b) = (if b then [116, 114, 117, 101] else [102, 97, 108, 115, 101])"
| "val_text ds pr depth (IntegerValue i) = printf_d (sint i)"
| "val_text ds pr depth (DoubleValue x) = real_text (d_to_string ds x)"
| "val_text ds pr depth (StringValue s) = str_text s"
| "val_text ds pr depth (BinaryValue b) = []"
| "val_text ds pr depth (ListValue l) = 91 # space pr @ list_text ds pr depth True l @ space pr @ [93]"
| "val_text ds pr depth (DictionaryValue d) =
     123 # newline pr @ dict_text ds pr depth True d @ newline pr @ indent pr depth @ [125]"
| "list_text ds pr depth first [] = []"
| "list_text ds pr depth first (v # l) = (if first then [] else 44 # space pr) @ val_text ds pr depth v @ list_text ds pr depth False l"
| "dict_text ds pr depth first [] = []"
| "dict_text ds pr depth first ((k, v) # d) = (if first then [] else 44 # newline pr) @ indent pr (depth + 1) @ str_text k @
     58 # space pr @ val_text ds pr (depth + 1) v @ dict_text ds pr depth False d"

lemma list_all_blanks [simp]: "list_all blank (space pr)" "list_all blank (newline pr @ indent pr n)"
  by (auto simp: list_all_iff)

text \<open>Values that can be written: no binary ones, no zero in a string, doubles as described.\<close>

fun writable :: "'d doubles \<Rightarrow> 'd val \<Rightarrow> bool" where
  "writable ds (BinaryValue b) \<longleftrightarrow> False"
| "writable ds (DoubleValue x) \<longleftrightarrow> json_double ds x"
| "writable ds (StringValue s) \<longleftrightarrow> 0 \<notin> set s"
| "writable ds (ListValue l) \<longleftrightarrow> (\<forall>v\<in>set l. writable ds v)"
| "writable ds (DictionaryValue d) \<longleftrightarrow> (\<forall>e\<in>set d. 0 \<notin> set (fst e) \<and> writable ds (snd e))"
| "writable ds _ \<longleftrightarrow> True"

lemma plain_string:
  assumes "utf8_string s" "0 \<notin> set s"
  obtains cs where "list_all plain_char cs" "s = encode utf8 cs" "UTF8ToUTF16 s = Inr (True, encode utf16 cs)"
proof -
  obtain cs where cs: "list_all char_ok cs" "s = encode utf8 cs" using assms(1) by (auto simp: utf8_string_def)
  have z: "utf8 0 = [0]" using utf8_eq [of 0] by simp
  have "0 \<notin> set (encode utf8 cs) \<Longrightarrow> list_all char_ok cs \<Longrightarrow> list_all plain_char cs" using z
    by (induction cs) (auto simp: plain_char_def)
  then have "list_all plain_char cs" using cs assms(2) by simp
  moreover have v: "list_all valid cs" using cs(1) by (rule list.pred_mono_strong) (simp add: char_ok_def)
  have "UTF8ToUTF16 s = Inr (True, encode utf16 cs)"
    using utf8.convert_encoded [where wr = WriteUnicodeCharacter16 and enc' = utf16, OF v writers(2)] cs(2) by (simp add: UTF8ToUTF16_def)
  ultimately show thesis using that cs(2) by blast
qed

lemma write_string:
  assumes "utf8_string s" "0 \<notin> set s"
  shows "bindR (UTF8ToUTF16 s) (\<lambda>(_, t). Inr (JsonDoubleQuote t True json)) = Inr (json @ str_text s)"
  by (rule plain_string [OF assms]) (simp add: str_text_def JsonDoubleQuote_units)

definition text_writer :: "writer \<Rightarrow> bool" where
  "text_writer w \<longleftrightarrow> w_escape w \<and> \<not> w_omit_double_type_preservation w"

lemma write_value:
  fixes ds :: "'d doubles" and v :: "'d val" and l :: "'d val list" and d :: "'d dict"
  shows "\<lbrakk>text_writer w; val_ok v; writable ds v\<rbrakk> \<Longrightarrow>
      BuildJSONString ds w v depth json = Inr (json @ val_text ds (w_pretty_print w) depth v)"
    and "\<lbrakk>text_writer w; \<forall>v\<in>set l. val_ok v \<and> writable ds v\<rbrakk> \<Longrightarrow>
      list_items ds w i l depth json = Inr (json @ list_text ds (w_pretty_print w) depth (i = 0) l)"
    and "\<lbrakk>text_writer w; \<forall>e\<in>set d. utf8_string (fst e) \<and> 0 \<notin> set (fst e) \<and> val_ok (snd e) \<and> writable ds (snd e)\<rbrakk> \<Longrightarrow>
      dict_items ds w first d depth json = Inr (json @ dict_text ds (w_pretty_print w) depth first d)"
proof (induction ds w v depth json and ds w i l depth json and ds w first d depth json rule: BuildJSONString_list_items_dict_items.induct)
  case (4 ds w x depth json)
  then show ?case by (simp add: double_text_def text_writer_def split: option.split)
next
  case (5 ds w s depth json)
  then show ?case using write_string [of s json] by (simp add: text_writer_def)
next
  case (10 ds w i v l depth json)
  have nb: "\<not> is_binary v" using 10(5) by (auto simp: is_binary_def split: val.splits)
  then have b: "\<not> (w_omit_binary_values w \<and> is_binary v)" by simp
  show ?case using 10(2,3) [OF b] 10(4,5) nb by (simp add: pretty_def)
next
  case (12 ds w first k v d depth json)
  have nb: "\<not> is_binary v" using 12(5) by (auto simp: is_binary_def split: val.splits)
  then have b: "\<not> (w_omit_binary_values w \<and> is_binary v)" by simp
  have k: "utf8_string k" "0 \<notin> set k" using 12(5) by auto
  have Q: "AppendQuotedString k j = Inr (j @ str_text k)" for j using write_string [OF k] by (simp add: AppendQuotedString_def)
  show ?case using 12(2,3) [OF b refl refl] 12(4,5) nb k
    by (simp add: utf8_check_def Q IndentLine_def pretty_def kPrettyPrintLineEnding_def Let_def)
qed (auto simp: pretty_def kPrettyPrintLineEnding_def IndentLine_def)

section \<open>Reading values\<close>

definition reads :: "'d doubles \<Rightarrow> bool \<Rightarrow> 'd val \<Rightarrow> bool" where
  "reads ds pr v \<longleftrightarrow> (\<forall>depth p s turns. sees p (val_text ds pr depth v @ s) \<and> value_end s \<and> nested (99 - p_stack_depth p) v \<and>
     3 * length (val_text ds pr depth v) \<le> turns \<longrightarrow>
     (\<exists>q. ParseToken ds turns (first_token (val_text ds pr depth v)) p = Inr (Some v, q) \<and>
        on (length (val_text ds pr depth v) - 1) p q))"

lemma number_text_head: "number_text t \<Longrightarrow> \<exists>c u. t = c # u \<and> (c = 45 \<or> is_digit c)"
  by (auto simp: number_text_def digits_def neq_Nil_conv)

lemma str_text_head: "utf8_string s \<Longrightarrow> 0 \<notin> set s \<Longrightarrow> \<exists>u. str_text s = 34 # u"
  by (rule plain_string) (auto simp: str_text_def JsonDoubleQuote_units)

definition value_head :: "ustring \<Rightarrow> bool" where
  "value_head s \<longleftrightarrow> (\<exists>c t. s = c # t \<and> (c \<in> {123, 91, 34, 116, 102, 110, 45} \<or> is_digit c))"

lemma val_text_head: "val_ok v \<Longrightarrow> writable ds v \<Longrightarrow> value_head (val_text ds pr depth v)"
proof (cases v)
  case (IntegerValue i)
  then show ?thesis using number_text_head [OF printf_d_text, of "sint i"] by (auto simp: value_head_def)
next
  case (DoubleValue x)
  moreover assume "writable ds v"
  ultimately have "number_text (real_text (d_to_string ds x))" using real_text_number by (simp add: json_double_def)
  from number_text_head [OF this] show ?thesis using DoubleValue by (auto simp: value_head_def)
next
  case (StringValue s)
  moreover assume "val_ok v" "writable ds v"
  ultimately show ?thesis using str_text_head [of s] by (auto simp: value_head_def)
qed (auto simp: value_head_def)

lemma value_head_token: "value_head s \<Longrightarrow> starts_token (s @ t) \<and> first_token (s @ t) = first_token s \<and>
    first_token s \<notin> {T_OBJECT_END, T_ARRAY_END, T_LIST_SEPARATOR, T_END_OF_INPUT}"
  by (auto simp: value_head_def starts_token_def first_token_def token_of_def is_digit_def)

lemma literal_equal: "drop i (p_mem p) = lit @ s \<Longrightarrow> StringsAreEqual p i lit = Inr True"
proof (induction lit arbitrary: i)
  case (Cons c lit)
  then show ?case using sees_nth [of i "p_mem p" c "lit @ s"] by (simp add: peek_def)
qed simp

lemma literal_sees:
  assumes "sees p (lit @ s)" "lit \<noteq> []"
  shows "\<exists>q. consume_literal lit v p = Inr (Some v, q) \<and> on (length lit - 1) p q"
proof -
  have l: "p_pos p + length lit \<le> length (p_mem p)"
  proof -
    have "length (p_mem p) - p_pos p = length lit + length s" using assms(1) by (metis length_append length_drop sees_def)
    moreover have "p_pos p \<le> length (p_mem p)" using assms(1) by (simp add: sees_def wound_def)
    ultimately show ?thesis by simp
  qed
  have "StringsAreEqual p (p_pos p) lit = Inr True" using assms(1) by (intro literal_equal) (simp add: sees_def)
  then have "consume_literal lit v p = Inr (Some v, go (length lit - 1) p)"
    using l assms(2) by (simp add: consume_literal_def Let_def go_moves)
  moreover have "on (length lit - 1) p (go (length lit - 1) p)" using assms(1) l by (auto simp: on_def sees_def wound_def)
  ultimately show ?thesis by blast
qed

lemma reads_string:
  assumes "sees p (str_text x @ s)" "utf8_string x" "0 \<notin> set x"
  shows "\<exists>q. ConsumeString p = Inr (Some (StringValue x), q) \<and> on (length (str_text x) - 1) p q"
proof -
  obtain cs where cs: "list_all plain_char cs" "x = encode utf8 cs" "str_text x = JsonDoubleQuote (encode utf16 cs) True []"
    by (rule plain_string [OF assms(2,3)]) (auto simp: str_text_def)
  obtain b q where q: "ConsumeStringRaw p = Inr (Some b, q)" "on (length (str_text x) - 1) p q" "built q (p_pos q) x b"
    using read_string [of p cs s] assms(1) cs by auto
  have "ConsumeString p = Inr (Some (StringValue x), q)"
    using q(1,3) assms(2) by (auto simp: ConsumeString_def new_StringValue_def CanBeStringPiece_def AsStringPiece_def AsString_def Convert_def built_def piece_def split: option.splits)
  then show ?thesis using q(2) by blast
qed

lemma readsI:
  assumes "\<And>depth p s n. \<lbrakk>sees p (val_text ds pr depth v @ s); value_end s; nested (99 - p_stack_depth p) v; 3 * length (val_text ds pr depth v) \<le> Suc n\<rbrakk> \<Longrightarrow>
      \<exists>q. ParseToken ds (Suc n) (first_token (val_text ds pr depth v)) p = Inr (Some v, q) \<and> on (length (val_text ds pr depth v) - 1) p q"
    and "val_ok v" "writable ds v"
  shows "reads ds pr v"
  unfolding reads_def
proof (intro allI impI, elim conjE)
  fix depth p s turns
  assume a: "sees p (val_text ds pr depth v @ s)" "value_end s" "nested (99 - p_stack_depth p) v" "3 * length (val_text ds pr depth v) \<le> turns"
  obtain n where "turns = Suc n" using val_text_head [OF assms(2,3), of pr depth] a(4) by (cases turns) (auto simp: value_head_def)
  then show "\<exists>q. ParseToken ds turns (first_token (val_text ds pr depth v)) p = Inr (Some v, q) \<and> on (length (val_text ds pr depth v) - 1) p q"
    using assms(1) a by simp
qed

lemma reads_leaf:
  assumes "val_ok v" "writable ds v" "\<And>l. v \<noteq> ListValue l" "\<And>d. v \<noteq> DictionaryValue d"
  shows "reads ds pr v"
proof (rule readsI [OF _ assms(1,2)])
  fix depth p s n
  assume p: "sees p (val_text ds pr depth v @ s)" "value_end s"
  have num: "first_token t = T_NUMBER" if "number_text t" for t
    using number_text_head [OF that] by (auto simp: first_token_def token_of_def is_digit_def)
  show "\<exists>q. ParseToken ds (Suc n) (first_token (val_text ds pr depth v)) p = Inr (Some v, q) \<and> on (length (val_text ds pr depth v) - 1) p q"
  proof (cases v)
    case NullValue
    then have l: "sees p ([110, 117, 108, 108] @ s)" using p(1) by simp
    then show ?thesis using NullValue literal_sees [OF l, of NullValue] sees_Cons(3) [of p 110]
      by (simp add: first_token_def token_of_def ConsumeLiteral_def)
  next
    case (BooleanValue b)
    show ?thesis
    proof (cases b)
      case True
      then have l: "sees p ([116, 114, 117, 101] @ s)" using p(1) BooleanValue by simp
      then show ?thesis using BooleanValue True literal_sees [OF l, of "BooleanValue True"] sees_Cons(3) [of p 116]
        by (simp add: first_token_def token_of_def ConsumeLiteral_def)
    next
      case False
      then have l: "sees p ([102, 97, 108, 115, 101] @ s)" using p(1) BooleanValue by simp
      then show ?thesis using BooleanValue False literal_sees [OF l, of "BooleanValue False"] sees_Cons(3) [of p 102]
        by (simp add: first_token_def token_of_def ConsumeLiteral_def)
    qed
  next
    case (IntegerValue i)
    then show ?thesis using ConsumeNumber_sees [of p "printf_d (sint i)" s ds] p printf_d_text num [OF printf_d_text] printf_d_value [of ds i] by simp
  next
    case (DoubleValue x)
    then have x: "json_double ds x" using assms(2) by simp
    then have "number_text (real_text (d_to_string ds x))" using real_text_number by (simp add: json_double_def)
    then show ?thesis using DoubleValue ConsumeNumber_sees [of p "real_text (d_to_string ds x)" s ds] p num double_value [OF x] by simp
  next
    case (StringValue x)
    then have x: "utf8_string x" "0 \<notin> set x" using assms(1,2) by auto
    have "first_token (str_text x) = T_STRING" using str_text_head [OF x] by (auto simp: first_token_def token_of_def)
    then show ?thesis using StringValue reads_string [of p x s] p x by simp
  qed (use assms in auto)
qed

section \<open>Containers\<close>

lemma after_value_closing:
  assumes "sees p (c # ws @ k # s)" "list_all blank ws" "token_of k = closing" "k \<notin> {9, 10, 13, 32, 47}" "closing \<noteq> T_LIST_SEPARATOR"
  shows "\<exists>q. after_value closing a p = Inr (Some closing, q) \<and> on (1 + length ws) p q \<and> sees q (k # s)"
proof -
  note f = sees_Cons [OF assms(1)]
  obtain q where q: "GetNextToken (forth p) = Inr (first_token (k # s), q)" "on (length ws) (forth p) q" "sees q (k # s)"
    using next_token [OF f(6) assms(2)] assms(4) by (auto simp: starts_token_def)
  then show ?thesis using f(4) on_trans [OF f(5) q(2)] assms(3,5) by (auto simp: after_value_def first_token_def)
qed

lemma after_value_comma:
  assumes "sees p (c # 44 # ws @ s)" "list_all blank ws" "starts_token s" "first_token s \<noteq> closing"
  shows "\<exists>q. after_value closing a p = Inr (Some (first_token s), q) \<and> on (2 + length ws) p q \<and> sees q s"
proof -
  note f = sees_Cons [OF assms(1)]
  obtain q where q: "GetNextToken (forth p) = Inr (T_LIST_SEPARATOR, q)" "on 0 (forth p) q" "sees q (44 # ws @ s)"
    using next_token [of "forth p" "[]" "44 # ws @ s"] f(6) by (auto simp: starts_token_def first_token_def token_of_def)
  note g = sees_Cons [OF q(3)]
  obtain r where r: "GetNextToken (forth q) = Inr (first_token s, r)" "on (length ws) (forth q) r" "sees r s"
    using next_token [OF g(6) assms(2,3)] by auto
  have "on (1 + (0 + (1 + length ws))) p r" by (rule on_trans [OF f(5) on_trans [OF q(2) on_trans [OF g(5) r(2)]]])
  then show ?thesis using f(4) q(1) g(4) r assms(4) by (auto simp: after_value_def)
qed

lemma open_container_sees:
  assumes "sees p (c # ws @ s)" "list_all blank ws" "starts_token s" "p_stack_depth p < 99"
    and loop: "\<And>q. sees q s \<Longrightarrow> p_stack_depth q = Suc (p_stack_depth p) \<Longrightarrow> \<exists>r. loop (first_token s) q = Inr (Some v, r) \<and> on n q r"
  shows "\<exists>q. open_container loop p = Inr (Some v, q) \<and> on (1 + length ws + n) p q"
proof -
  let ?p = "p\<lparr>p_stack_depth := p_stack_depth p + 1\<rparr>"
  have p: "sees ?p (c # ws @ s)" using assms(1) by (simp add: sees_def readable_def wound_def)
  note f = sees_Cons [OF p]
  obtain q where q: "GetNextToken (forth ?p) = Inr (first_token s, q)" "on (length ws) (forth ?p) q" "sees q s"
    using next_token [OF f(6) assms(2,3)] by auto
  have "p_stack_depth q = Suc (p_stack_depth p)" using q(2) by (simp add: on_def same_def)
  then obtain r where r: "loop (first_token s) q = Inr (Some v, r)" "on n q r" using loop [OF q(3)] by auto
  have o: "on (1 + (length ws + n)) ?p r" by (rule on_trans [OF f(5) on_trans [OF q(2) r(2)]])
  have "open_container loop p = Inr (Some v, r\<lparr>p_stack_depth := p_stack_depth r - 1\<rparr>)"
    using assms(4) f(4) q(1) r(1) by (simp add: open_container_def marker_enter_def marker_leave_def IsTooDeep_def kStackMaxDepth_def)
  moreover have "on (1 + length ws + n) p (r\<lparr>p_stack_depth := p_stack_depth r - 1\<rparr>)"
    using o by (auto simp: on_def same_def wound_def)
  ultimately show ?thesis by blast
qed

text \<open>The last character of the text of a value and what follows.\<close>

lemma at_last:
  assumes "sees p (t @ s)" "t \<noteq> []" "on (length t - 1) p q"
  shows "sees q (List.last t # s)"
proof -
  have "drop (length t - 1) (t @ s) = List.last t # s" using assms(2) by (metis append_butlast_last_id append.assoc append_Cons append_Nil append_eq_conv_conj length_butlast)
  then show ?thesis using sees_on [OF assms(1,3)] by simp
qed

definition good :: "'d doubles \<Rightarrow> bool \<Rightarrow> nat \<Rightarrow> 'd val \<Rightarrow> bool" where
  "good ds pr n v \<longleftrightarrow> reads ds pr v \<and> val_ok v \<and> writable ds v \<and> nested n v"

lemma good_value:
  assumes "good ds pr (99 - p_stack_depth p) v" "sees p (val_text ds pr depth v @ s)" "value_end s" "3 * length (val_text ds pr depth v) \<le> turns"
  obtains c q where "ParseToken ds turns (first_token (val_text ds pr depth v)) p = Inr (Some v, q)"
    "on (length (val_text ds pr depth v) - 1) p q" "sees q (c # s)" "val_text ds pr depth v \<noteq> []"
proof -
  have h: "val_text ds pr depth v \<noteq> []" using val_text_head [of v ds pr depth] assms(1) by (auto simp: good_def value_head_def)
  obtain q where "ParseToken ds turns (first_token (val_text ds pr depth v)) p = Inr (Some v, q)"
    "on (length (val_text ds pr depth v) - 1) p q"
    using assms unfolding good_def reads_def by blast
  then show thesis using that at_last [OF assms(2) h] h by blast
qed

lemma list_loop_reads:
  "\<lbrakk>sees p (val_text ds pr depth v @ list_text ds pr depth False l @ space pr @ 93 # s); \<forall>x\<in>set (v # l). good ds pr (99 - p_stack_depth p) x;
    3 * length (val_text ds pr depth v @ list_text ds pr depth False l) + 2 \<le> turns\<rbrakk> \<Longrightarrow>
   \<exists>q. consume_list_loop ds turns xs (first_token (val_text ds pr depth v)) p = Inr (Some (ListValue (xs @ v # l)), q) \<and>
     on (length (val_text ds pr depth v @ list_text ds pr depth False l @ space pr)) p q"
proof (induction l arbitrary: v p turns xs)
  case Nil
  obtain n where n: "turns = Suc n" using Nil(3) by (cases turns) auto
  obtain m where m: "n = Suc m" using Nil(3) n by (cases n) auto
  let ?t = "val_text ds pr depth v"
  have p: "sees p (?t @ space pr @ 93 # s)" and g: "good ds pr (99 - p_stack_depth p) v" using Nil(1,2) by auto
  have ve: "value_end (space pr @ 93 # s)" unfolding value_end_def by (rule exI [of _ "space pr"]) auto
  have le: "3 * length ?t \<le> n" using Nil(3) n by simp
  obtain c q where q: "ParseToken ds n (first_token ?t) p = Inr (Some v, q)" "on (length ?t - 1) p q" "sees q (c # space pr @ 93 # s)" "?t \<noteq> []"
    by (rule good_value [OF g p ve le])
  obtain r where r: "after_value T_ARRAY_END 1 q = Inr (Some T_ARRAY_END, r)" "on (1 + length (space pr)) q r"
    using after_value_closing [OF q(3) list_all_blanks(1), of T_ARRAY_END 1] by (auto simp: token_of_def)
  have t: "first_token ?t \<noteq> T_ARRAY_END" using g val_text_head [of v ds pr depth] value_head_token by (auto simp: good_def)
  have "on (length ?t - 1 + (1 + length (space pr))) p r" by (rule on_trans [OF q(2) r(2)])
  then show ?case using q(1,4) r(1) t n m by (cases ?t) auto
next
  case (Cons v' l)
  obtain n where n: "turns = Suc n" using Cons(4) by (cases turns) auto
  let ?t = "val_text ds pr depth v" and ?t' = "val_text ds pr depth v'"
  let ?s = "?t' @ list_text ds pr depth False l @ space pr @ 93 # s"
  have p: "sees p (?t @ 44 # space pr @ ?s)" and g: "good ds pr (99 - p_stack_depth p) v" "good ds pr (99 - p_stack_depth p) v'" using Cons(2,3) by auto
  have ve: "value_end (44 # space pr @ ?s)" unfolding value_end_def by (rule exI [of _ "[]"]) auto
  have le: "3 * length ?t \<le> n" using Cons(4) n by simp
  obtain c q where q: "ParseToken ds n (first_token ?t) p = Inr (Some v, q)" "on (length ?t - 1) p q" "sees q (c # 44 # space pr @ ?s)" "?t \<noteq> []"
    by (rule good_value [OF g(1) p ve le])
  have h: "value_head ?t" "value_head ?t'" using g val_text_head by (auto simp: good_def)
  obtain r where r: "after_value T_ARRAY_END 1 q = Inr (Some (first_token ?t'), r)" "on (2 + length (space pr)) q r" "sees r ?s"
    using after_value_comma [OF q(3) list_all_blanks(1), of T_ARRAY_END 1] value_head_token [OF h(2), of "list_text ds pr depth False l @ space pr @ 93 # s"] by auto
  have o: "on (length ?t - 1 + (2 + length (space pr))) p r" by (rule on_trans [OF q(2) r(2)])
  have d: "p_stack_depth r = p_stack_depth p" using o by (simp add: on_def same_def)
  obtain u where u: "consume_list_loop ds n (xs @ [v]) (first_token ?t') r = Inr (Some (ListValue ((xs @ [v]) @ v' # l)), u)"
      "on (length (?t' @ list_text ds pr depth False l @ space pr)) r u"
    using Cons(1) [OF r(3), of n "xs @ [v]"] Cons(3,4) n d by auto
  have "on (length ?t - 1 + (2 + length (space pr)) + length (?t' @ list_text ds pr depth False l @ space pr)) p u" by (rule on_trans [OF o u(2)])
  then show ?case using q(1,4) r(1) u(1) value_head_token [OF h(1), of "[]"] n by (cases ?t) (auto simp: ac_simps)
qed

lemma dictionary_key_sees:
  assumes "sees p (str_text k @ 58 # ws @ s)" "utf8_string k" "0 \<notin> set k" "list_all blank ws" "value_head s"
  shows "\<exists>b q. dictionary_key p = Inr (Some (b, first_token s), q) \<and> on (length (str_text k) + 1 + length ws) p q \<and> sees q s \<and>
    (\<forall>r. p_mem r = p_mem q \<longrightarrow> AsString r b = Inr k)"
proof -
  obtain cs where cs: "list_all plain_char cs" "k = encode utf8 cs" "str_text k = JsonDoubleQuote (encode utf16 cs) True []"
    by (rule plain_string [OF assms(2,3)]) (auto simp: str_text_def)
  have ne: "str_text k \<noteq> []" using str_text_head [OF assms(2,3)] by auto
  obtain b q1 where q1: "ConsumeStringRaw p = Inr (Some b, q1)" "on (length (str_text k) - 1) p q1" "built q1 (p_pos q1) k b"
    using read_string [of p cs "58 # ws @ s"] assms(1) cs by auto
  note f = sees_Cons [OF at_last [OF assms(1) ne q1(2)]]
  obtain q2 where q2: "GetNextToken (forth q1) = Inr (T_OBJECT_PAIR_SEPARATOR, q2)" "on 0 (forth q1) q2" "sees q2 (58 # ws @ s)"
    using next_token [of "forth q1" "[]" "58 # ws @ s"] f(6) by (auto simp: starts_token_def first_token_def token_of_def)
  note g = sees_Cons [OF q2(3)]
  obtain q3 where q3: "GetNextToken (forth q2) = Inr (first_token s, q3)" "on (length ws) (forth q2) q3" "sees q3 s"
    using next_token [OF g(6) assms(4)] value_head_token [OF assms(5), of "[]"] by auto
  have o: "on (1 + (0 + (1 + length ws))) q1 q3" by (rule on_trans [OF f(5) on_trans [OF q2(2) on_trans [OF g(5) q3(2)]]])
  have "on (length (str_text k) - 1 + (1 + (0 + (1 + length ws)))) p q3" by (rule on_trans [OF q1(2) o])
  moreover have "p_mem q3 = p_mem q1" using o by (simp add: on_def same_def)
  then have "\<forall>r. p_mem r = p_mem q3 \<longrightarrow> AsString r b = Inr k" using built_Convert [OF q1(3)] by (fastforce simp: AsString_def)
  moreover have "dictionary_key p = Inr (Some (b, first_token s), q3)"
    using q1(1) f(4) q2(1) g(4) q3(1) by (simp add: dictionary_key_def)
  ultimately show ?thesis using q3(3) ne by (cases "str_text k") auto
qed

definition entry_text :: "'d doubles \<Rightarrow> bool \<Rightarrow> nat \<Rightarrow> ustring \<times> 'd val \<Rightarrow> ustring" where
  "entry_text ds pr depth e = str_text (fst e) @ 58 # space pr @ val_text ds pr (depth + 1) (snd e)"

definition good_entry :: "'d doubles \<Rightarrow> bool \<Rightarrow> nat \<Rightarrow> ustring \<times> 'd val \<Rightarrow> bool" where
  "good_entry ds pr n e \<longleftrightarrow> utf8_string (fst e) \<and> 0 \<notin> set (fst e) \<and> good ds pr n (snd e)"

text \<open>One turn of the loop, up to the token behind the value.\<close>

lemma dict_turn:
  assumes "sees p (entry_text ds pr depth e @ s)" "good_entry ds pr (99 - p_stack_depth p) e" "value_end s"
    "3 * length (entry_text ds pr depth e) \<le> n" "\<forall>k\<in>set (map fst xs). k < fst e"
  obtains c q where "on (length (entry_text ds pr depth e) - 1) p q" "sees q (c # s)" "entry_text ds pr depth e \<noteq> []"
    "dictionary_loop ds (Suc n) xs T_STRING p = bindR (after_value T_OBJECT_END 0 q) (\<lambda>(t, r). case t of None \<Rightarrow> Inr (None, r)
       | Some token \<Rightarrow> dictionary_loop ds n (xs @ [e]) token r)"
proof -
  obtain k v where e: "e = (k, v)" by (cases e)
  let ?t = "val_text ds pr (depth + 1) v"
  have k: "utf8_string k" "0 \<notin> set k" and g: "good ds pr (99 - p_stack_depth p) v" using assms(2) by (auto simp: good_entry_def e)
  have h: "value_head ?t" using g val_text_head by (auto simp: good_def)
  have p: "sees p (str_text k @ 58 # space pr @ (?t @ s))" using assms(1) by (simp add: entry_text_def e)
  have vh: "value_head (?t @ s)" using h by (auto simp: value_head_def)
  obtain b q where q: "dictionary_key p = Inr (Some (b, first_token (?t @ s)), q)" "on (length (str_text k) + 1 + length (space pr)) p q"
      "sees q (?t @ s)" "\<forall>r. p_mem r = p_mem q \<longrightarrow> AsString r b = Inr k"
    using dictionary_key_sees [OF p k list_all_blanks(1) vh] by auto
  have g': "good ds pr (99 - p_stack_depth q) v" using g q(2) by (simp add: on_def same_def)
  have le: "3 * length ?t \<le> n" using assms(4) by (simp add: entry_text_def e)
  obtain c r where r: "ParseToken ds n (first_token ?t) q = Inr (Some v, r)" "on (length ?t - 1) q r" "sees r (c # s)" "?t \<noteq> []"
    by (rule good_value [OF g' q(3) assms(3) le])
  have o: "on (length (str_text k) + 1 + length (space pr) + (length ?t - 1)) p r" by (rule on_trans [OF q(2) r(2)])
  have A: "AsString r b = Inr k" using q(4) r(2) by (simp add: on_def same_def)
  have S: "SetWithoutPathExpansion k v xs = xs @ [e]" using Set_last [of xs k v] assms(5) by (simp add: e)
  have ft: "first_token (?t @ s) = first_token ?t" using value_head_token [OF h] by simp
  have "dictionary_loop ds (Suc n) xs T_STRING p = bindR (after_value T_OBJECT_END 0 r) (\<lambda>(t, r). case t of None \<Rightarrow> Inr (None, r)
       | Some token \<Rightarrow> dictionary_loop ds n (xs @ [e]) token r)"
    using q(1) [unfolded ft] r(1) by (simp add: A S cong del: option.case_cong_weak)
  moreover have "on (length (entry_text ds pr depth e) - 1) p r" using o r(4) by (cases ?t; cases pr) (simp_all add: entry_text_def e)
  ultimately show thesis using that [of r c] r(3) by (simp add: entry_text_def)
qed

lemma dict_text_Cons: "dict_text ds pr depth first (e # d) =
    (if first then [] else 44 # newline pr) @ indent pr (depth + 1) @ entry_text ds pr depth e @ dict_text ds pr depth False d"
  by (cases e) (simp add: entry_text_def)

lemma entry_token: "good_entry ds pr n e \<Longrightarrow> starts_token (entry_text ds pr depth e @ s) \<and> first_token (entry_text ds pr depth e @ s) = T_STRING"
  using str_text_head [of "fst e"] by (auto simp: good_entry_def entry_text_def starts_token_def first_token_def token_of_def)

lemma dict_loop_reads:
  "\<lbrakk>sees p (entry_text ds pr depth e @ dict_text ds pr depth False d @ newline pr @ indent pr depth @ 125 # s);
    \<forall>x\<in>set (e # d). good_entry ds pr (99 - p_stack_depth p) x; sorted_wrt (<) (map fst (xs @ e # d));
    3 * length (entry_text ds pr depth e @ dict_text ds pr depth False d) + 2 \<le> turns\<rbrakk> \<Longrightarrow>
   \<exists>q. dictionary_loop ds turns xs T_STRING p = Inr (Some (DictionaryValue (xs @ e # d)), q) \<and>
     on (length (entry_text ds pr depth e @ dict_text ds pr depth False d @ newline pr @ indent pr depth)) p q"
proof (induction d arbitrary: e p turns xs)
  case Nil
  obtain n where n: "turns = Suc n" using Nil(4) by (cases turns) auto
  obtain m where m: "n = Suc m" using Nil(4) n by (cases n) auto
  let ?t = "entry_text ds pr depth e" and ?ws = "newline pr @ indent pr depth"
  have p: "sees p (?t @ ?ws @ 125 # s)" and g: "good_entry ds pr (99 - p_stack_depth p) e" using Nil(1,2) by auto
  have ve: "value_end (?ws @ 125 # s)" unfolding value_end_def using list_all_blanks(2) [of pr depth] by (intro exI [of _ ?ws] exI [of _ "125 # s"]) auto
  have le: "3 * length ?t \<le> n" using Nil(4) n by simp
  have so: "\<forall>k\<in>set (map fst xs). k < fst e" using Nil(3) by (auto simp: sorted_wrt_append)
  obtain c q where q: "on (length ?t - 1) p q" "sees q (c # ?ws @ 125 # s)" "?t \<noteq> []"
    "dictionary_loop ds (Suc n) xs T_STRING p = bindR (after_value T_OBJECT_END 0 q) (\<lambda>(t, r). case t of None \<Rightarrow> Inr (None, r)
       | Some token \<Rightarrow> dictionary_loop ds n (xs @ [e]) token r)"
    by (rule dict_turn [OF p g ve le so])
  obtain r where r: "after_value T_OBJECT_END 0 q = Inr (Some T_OBJECT_END, r)" "on (1 + length ?ws) q r"
    using after_value_closing [OF q(2) list_all_blanks(2), of T_OBJECT_END 0] by (auto simp: token_of_def)
  have "on (length ?t - 1 + (1 + length ?ws)) p r" by (rule on_trans [OF q(1) r(2)])
  moreover have "dictionary_loop ds turns xs T_STRING p = Inr (Some (DictionaryValue (xs @ [e])), r)" using q(4) r(1) n m by simp
  ultimately show ?case using q(3) by (cases ?t) auto
next
  case (Cons e' d)
  obtain n where n: "turns = Suc n" using Cons(5) by (cases turns) auto
  let ?t = "entry_text ds pr depth e" and ?t' = "entry_text ds pr depth e'" and ?ws = "newline pr @ indent pr (depth + 1)"
  let ?s = "?t' @ dict_text ds pr depth False d @ newline pr @ indent pr depth @ 125 # s"
  have p: "sees p (?t @ 44 # ?ws @ ?s)" and g: "good_entry ds pr (99 - p_stack_depth p) e" "good_entry ds pr (99 - p_stack_depth p) e'"
    using Cons(2,3) unfolding dict_text_Cons by auto
  have ve: "value_end (44 # ?ws @ ?s)" unfolding value_end_def by (rule exI [of _ "[]"]) auto
  have le: "3 * length ?t \<le> n" using Cons(5) n by simp
  have so: "\<forall>k\<in>set (map fst xs). k < fst e" using Cons(4) by (auto simp: sorted_wrt_append)
  obtain c q where q: "on (length ?t - 1) p q" "sees q (c # 44 # ?ws @ ?s)" "?t \<noteq> []"
    "dictionary_loop ds (Suc n) xs T_STRING p = bindR (after_value T_OBJECT_END 0 q) (\<lambda>(t, r). case t of None \<Rightarrow> Inr (None, r)
       | Some token \<Rightarrow> dictionary_loop ds n (xs @ [e]) token r)"
    by (rule dict_turn [OF p g(1) ve le so])
  note tk = entry_token [OF g(2), of depth "dict_text ds pr depth False d @ newline pr @ indent pr depth @ 125 # s"]
  obtain r where r: "after_value T_OBJECT_END 0 q = Inr (Some T_STRING, r)" "on (2 + length ?ws) q r" "sees r ?s"
    using after_value_comma [OF q(2) list_all_blanks(2), of T_OBJECT_END 0] tk by auto
  have o: "on (length ?t - 1 + (2 + length ?ws)) p r" by (rule on_trans [OF q(1) r(2)])
  have sd: "p_stack_depth r = p_stack_depth p" using o by (simp add: on_def same_def)
  have "3 * length (?t' @ dict_text ds pr depth False d) + 2 \<le> n" using Cons(5) n unfolding dict_text_Cons by simp
  then obtain u where u: "dictionary_loop ds n (xs @ [e]) T_STRING r = Inr (Some (DictionaryValue ((xs @ [e]) @ e' # d)), u)"
      "on (length (?t' @ dict_text ds pr depth False d @ newline pr @ indent pr depth)) r u"
    using Cons(1) [OF r(3), of "xs @ [e]" n] Cons(3,4) sd by auto
  have E: "length ?t - 1 + (2 + length ?ws) + length (?t' @ dict_text ds pr depth False d @ newline pr @ indent pr depth) =
      length (?t @ dict_text ds pr depth False (e' # d) @ newline pr @ indent pr depth)" using q(3) unfolding dict_text_Cons by (cases ?t) auto
  have "dictionary_loop ds turns xs T_STRING p = Inr (Some (DictionaryValue (xs @ e # e' # d)), u)" using q(4) r(1) u(1) n by simp
  then show ?case using on_trans [OF o u(2)] unfolding E by blast
qed

text \<open>Every value that can be written is read.\<close>

lemma reads_list:
  assumes "\<forall>x\<in>set l. reads ds pr x" "val_ok (ListValue l)" "writable ds (ListValue l)"
  shows "reads ds pr (ListValue l)"
proof (rule readsI [OF _ assms(2,3)])
  fix depth p s n
  let ?t = "val_text ds pr depth (ListValue l)"
  assume a: "sees p (?t @ s)" "value_end s" "nested (99 - p_stack_depth p) (ListValue l)" "3 * length ?t \<le> Suc n"
  obtain m where n: "n = Suc m" using a(4) by (cases n) auto
  let ?body = "list_text ds pr depth True l @ space pr @ 93 # s"
  have p: "sees p (91 # space pr @ ?body)" using a(1) by simp
  have d: "p_stack_depth p < 99" using a(3) by simp
  have "\<exists>q. open_container (consume_list_loop ds m []) p = Inr (Some (ListValue l), q) \<and> on (1 + length (space pr) + length (list_text ds pr depth True l @ space pr)) p q"
  proof (cases l)
    case Nil
    have p: "sees p (91 # (space pr @ space pr) @ 93 # s)" using a(1) Nil by simp
    have "list_all blank (space pr @ space pr)" by (simp add: list_all_append)
    moreover obtain k where "m = Suc k" using a(4) n by (cases m) auto
    ultimately show ?thesis using open_container_sees [OF p _ _ d, of "consume_list_loop ds m []" "ListValue []" 0] on_0 Nil
      by (fastforce simp: starts_token_def first_token_def token_of_def)
  next
    case (Cons v vs)
    let ?v = "val_text ds pr depth v"
    have p: "sees p (91 # space pr @ ?v @ list_text ds pr depth False vs @ space pr @ 93 # s)" using a(1) Cons by simp
    have h: "value_head ?v" using assms(2,3) Cons val_text_head [of v ds pr depth] by simp
    note tk = value_head_token [OF h, of "list_text ds pr depth False vs @ space pr @ 93 # s"]
    have "\<exists>r. consume_list_loop ds m [] (first_token ?v) q = Inr (Some (ListValue l), r) \<and> on (length (list_text ds pr depth True l @ space pr)) q r"
      if "sees q (?v @ list_text ds pr depth False vs @ space pr @ 93 # s)" "p_stack_depth q = Suc (p_stack_depth p)" for q
      using list_loop_reads [OF that(1), of m "[]"] that(2) a(3,4) assms Cons n by (auto simp: good_def)
    then show ?thesis using open_container_sees [OF p list_all_blanks(1) _ d, of "consume_list_loop ds m []" "ListValue l" "length (list_text ds pr depth True l @ space pr)"] tk
      by auto
  qed
  then obtain q where q: "open_container (consume_list_loop ds m []) p = Inr (Some (ListValue l), q)" "on (1 + length (space pr) + length (list_text ds pr depth True l @ space pr)) p q"
    by blast
  have "first_token ?t = T_ARRAY_BEGIN" by (simp add: first_token_def token_of_def)
  moreover have "ConsumeList ds n p = Inr (Some (ListValue l), q)" using sees_Cons(3) [OF p] q(1) n by simp
  ultimately have "ParseToken ds (Suc n) (first_token ?t) p = Inr (Some (ListValue l), q)" by simp
  then show "\<exists>q. ParseToken ds (Suc n) (first_token ?t) p = Inr (Some (ListValue l), q) \<and> on (length ?t - 1) p q"
    using q(2) by (auto simp: ac_simps)
qed

lemma reads_dictionary:
  assumes "\<forall>e\<in>set d. reads ds pr (snd e)" "val_ok (DictionaryValue d)" "writable ds (DictionaryValue d)"
  shows "reads ds pr (DictionaryValue d)"
proof (rule readsI [OF _ assms(2,3)])
  fix depth p s n
  let ?t = "val_text ds pr depth (DictionaryValue d)" and ?nl = "newline pr @ indent pr depth"
  assume a: "sees p (?t @ s)" "value_end s" "nested (99 - p_stack_depth p) (DictionaryValue d)" "3 * length ?t \<le> Suc n"
  obtain m where n: "n = Suc m" using a(4) by (cases n) auto
  have dp: "p_stack_depth p < 99" using a(3) by simp
  have "\<exists>q. open_container (dictionary_loop ds m []) p = Inr (Some (DictionaryValue d), q) \<and> on (length ?t - 1) p q"
  proof (cases d)
    case Nil
    have p: "sees p (123 # (newline pr @ ?nl) @ 125 # s)" using a(1) Nil by simp
    have "list_all blank (newline pr @ ?nl)" using list_all_blanks(2) [of pr depth] list_all_blanks(2) [of pr 0] by (simp add: list_all_append)
    moreover obtain k where "m = Suc k" using a(4) n by (cases m) auto
    ultimately show ?thesis using open_container_sees [OF p _ _ dp, of "dictionary_loop ds m []" "DictionaryValue []" 0] on_0 Nil
      by (fastforce simp: starts_token_def first_token_def token_of_def)
  next
    case (Cons e d')
    let ?e = "entry_text ds pr depth e" and ?ws = "newline pr @ indent pr (depth + 1)"
    let ?s = "?e @ dict_text ds pr depth False d' @ newline pr @ indent pr depth @ 125 # s"
    have p: "sees p (123 # ?ws @ ?s)" using a(1) Cons by (simp add: dict_text_Cons)
    have "good_entry ds pr (99 - Suc (p_stack_depth p)) x" if "x \<in> set d" for x
      using that assms a(3) by (auto simp: good_entry_def good_def)
    then have g: "\<forall>x\<in>set (e # d'). good_entry ds pr (99 - Suc (p_stack_depth p)) x" using Cons by simp
    then have tk: "starts_token ?s" "first_token ?s = T_STRING"
      using entry_token [of ds pr "99 - Suc (p_stack_depth p)" e depth "dict_text ds pr depth False d' @ newline pr @ indent pr depth @ 125 # s"] by auto
    have so: "sorted_wrt (<) (map fst ([] @ e # d'))" using assms(2) Cons by simp
    have le: "3 * length (?e @ dict_text ds pr depth False d') + 2 \<le> m" using a(4) n Cons by (simp add: dict_text_Cons)
    have "\<exists>r. dictionary_loop ds m [] (first_token ?s) q = Inr (Some (DictionaryValue d), r) \<and>
        on (length (?e @ dict_text ds pr depth False d' @ newline pr @ indent pr depth)) q r"
      if "sees q ?s" "p_stack_depth q = Suc (p_stack_depth p)" for q
      using dict_loop_reads [OF that(1) _ so le] g that(2) tk(2) Cons by simp
    from open_container_sees [where loop = "dictionary_loop ds m []" and v = "DictionaryValue d"
        and n = "length (?e @ dict_text ds pr depth False d' @ newline pr @ indent pr depth)", OF p list_all_blanks(2) tk(1) dp this]
    show ?thesis using Cons by (auto simp: dict_text_Cons ac_simps)
  qed
  then obtain q where q: "open_container (dictionary_loop ds m []) p = Inr (Some (DictionaryValue d), q)" "on (length ?t - 1) p q"
    by blast
  have "first_token ?t = T_OBJECT_BEGIN" by (simp add: first_token_def token_of_def)
  moreover have "deref p = Inr 123" using deref_sees [OF a(1)] by (simp add: head0_def)
  then have "ConsumeDictionary ds n p = Inr (Some (DictionaryValue d), q)" using q(1) n by simp
  ultimately have "ParseToken ds (Suc n) (first_token ?t) p = Inr (Some (DictionaryValue d), q)" by simp
  then show "\<exists>q. ParseToken ds (Suc n) (first_token ?t) p = Inr (Some (DictionaryValue d), q) \<and> on (length ?t - 1) p q"
    using q(2) by blast
qed

lemma reads_value: "val_ok v \<Longrightarrow> writable ds v \<Longrightarrow> reads ds pr v"
proof (induction v)
  case (ListValue l)
  then show ?case by (intro reads_list) auto
next
  case (DictionaryValue d)
  have "reads ds pr (snd e)" if "e \<in> set d" for e using DictionaryValue that by (cases e) fastforce
  then show ?case using DictionaryValue(2,3) by (intro reads_dictionary) auto
qed (rule reads_leaf; simp)+

section \<open>The whole text\<close>

text \<open>The text is in ASCII and ends in no white space.\<close>

lemma digits_ascii: "digits s \<Longrightarrow> list_all byte s"
  by (auto simp: digits_def list_all_iff is_digit_def)

lemma number_text_ascii: "number_text t \<Longrightarrow> list_all byte t"
  using digits_ascii by (fastforce simp: number_text_def fraction_part_def exponent_part_def list_all_append)

lemma number_text_last: "number_text t \<Longrightarrow> is_digit (List.last t)"
proof -
  have d: "is_digit (List.last x)" if "digits x" for x using that by (simp add: digits_def)
  assume "number_text t"
  then obtain sg i f e where t: "t = sg @ i @ f @ e" "digits i" "fraction_part f" "exponent_part e" by (auto simp: number_text_def)
  consider "e \<noteq> []" | "e = []" "f \<noteq> []" | "e = []" "f = []" by blast
  then show ?thesis
  proof cases
    case 1
    then obtain c sg' x where "e = c # sg' @ x" "digits x" using t(4) by (auto simp: exponent_part_def)
    moreover from this have "x \<noteq> []" by (simp add: digits_def)
    ultimately show ?thesis using d t(1) by simp
  next
    case 2
    then obtain x where "f = 46 # x" "digits x" using t(3) by (auto simp: fraction_part_def)
    moreover from this have "x \<noteq> []" by (simp add: digits_def)
    ultimately show ?thesis using d t(1) 2 by simp
  next
    case 3
    moreover have "i \<noteq> []" using t(2) by (simp add: digits_def)
    ultimately show ?thesis using d t(1,2) by simp
  qed
qed

lemma quoted_unit_ascii: "unit16 u \<Longrightarrow> list_all byte (quoted_unit u)"
proof -
  assume u: "unit16 u"
  then have "0 \<le> u div 4096" "u div 4096 < 16" by auto
  then have "byte (hex_digit (u div 4096))" "byte (hex_digit (x mod 16))" for x
    using u hex_digit_back [of "u div 4096"] hex_digit_back [of "x mod 16"] by auto
  then show ?thesis using u by (auto simp: quoted_unit_def JsonSingleEscapeChar_def unicode_escape_def split: option.splits if_splits)
qed

lemma str_text_ascii: "utf8_string s \<Longrightarrow> 0 \<notin> set s \<Longrightarrow> list_all byte (str_text s) \<and> List.last (str_text s) = 34"
proof (rule plain_string)
  fix cs
  assume cs: "list_all plain_char cs" "UTF8ToUTF16 s = Inr (True, encode utf16 cs)"
  have "list_all unit16 (encode utf16 cs)" using cs(1)
  proof (induction cs)
    case (Cons c cs)
    then have "valid c" by (simp add: plain_char_def char_ok_def)
    from utf16.enc_units [OF this] Cons show ?case by (simp add: list_all_append)
  qed simp
  then have "list_all byte (concat (map quoted_unit (encode utf16 cs)))"
    using quoted_unit_ascii by (fastforce simp: list_all_iff)
  then show ?thesis using cs(2) by (simp add: str_text_def JsonDoubleQuote_units)
qed

lemma text_ascii:
  fixes v :: "'d val" and l :: "'d val list" and d :: "'d dict"
  shows "val_ok v \<Longrightarrow> writable ds v \<Longrightarrow> list_all byte (val_text ds pr depth v)"
    and "\<forall>v\<in>set l. val_ok v \<and> writable ds v \<Longrightarrow> list_all byte (list_text ds pr depth first l)"
    and "\<forall>e\<in>set d. utf8_string (fst e) \<and> 0 \<notin> set (fst e) \<and> val_ok (snd e) \<and> writable ds (snd e) \<Longrightarrow>
      list_all byte (dict_text ds pr depth first d)"
proof (induction ds pr depth v and ds pr depth first l and ds pr depth first d rule: val_text_list_text_dict_text.induct)
  case (3 ds pr depth i)
  then show ?case using number_text_ascii [OF printf_d_text] by simp
next
  case (4 ds pr depth x)
  then show ?case using number_text_ascii [of "real_text (d_to_string ds x)"] real_text_number by (simp add: json_double_def)
next
  case (5 ds pr depth s)
  then show ?case using str_text_ascii [of s] by simp
next
  case (12 ds pr depth first k v d)
  then show ?case using str_text_ascii [of k] by (simp add: list_all_append) (simp add: list_all_iff)
qed (simp_all add: list_all_append, simp_all add: list_all_iff)

lemma text_last: "val_ok v \<Longrightarrow> writable ds v \<Longrightarrow> starts_token (List.last (val_text ds pr depth v) # s)"
proof (cases v)
  case (IntegerValue i)
  then show ?thesis using number_text_last [OF printf_d_text, of "sint i"] by (auto simp: starts_token_def is_digit_def)
next
  case (DoubleValue x)
  moreover assume "writable ds v"
  ultimately have "number_text (real_text (d_to_string ds x))" using real_text_number by (simp add: json_double_def)
  from number_text_last [OF this] show ?thesis using DoubleValue by (auto simp: starts_token_def is_digit_def)
next
  case (StringValue x)
  moreover assume "val_ok v" "writable ds v"
  ultimately show ?thesis using str_text_ascii [of x] by (simp add: starts_token_def)
qed (auto simp: starts_token_def)

lemma parse_text:
  assumes "val_ok v" "writable ds v" "nested 99 v" "has_option JSON_DETACHABLE_CHILDREN p \<Longrightarrow> behind = Some 0" "p_stack_depth p = 0"
  shows "\<exists>q. Parse ds (val_text ds pr 0 v @ newline pr) behind p = Inr (Some v, q)"
proof -
  let ?t = "val_text ds pr 0 v"
  let ?p = "start_parse (?t @ newline pr) behind p"
  have h: "value_head ?t" by (rule val_text_head [OF assms(1,2)])
  then have ne: "?t \<noteq> []" by (auto simp: value_head_def)
  have p: "sees ?p (?t @ newline pr)" "p_stack_depth ?p = 0" "p_mem ?p = ?t @ newline pr" "p_pos ?p = 0"
    using assms(4,5) text_ascii(1) [OF assms(1,2), of pr 0]
    by (auto simp: sees_def start_parse_def readable_def wound_def list_all_append)
  have bom: "skip_bom ?p = Inr ?p"
    using h p(3,4) by (auto simp: skip_bom_def value_head_def is_digit_def)
  obtain q where q: "GetNextToken ?p = Inr (first_token ?t, q)" "on 0 ?p q" "sees q (?t @ newline pr)"
    using next_token [of ?p "[]" "?t @ newline pr"] p(1) value_head_token [OF h] by auto
  have g: "good ds pr (99 - p_stack_depth q) v" using reads_value [OF assms(1,2)] assms q(2) p(2) by (simp add: good_def on_def same_def)
  have ve: "value_end (newline pr)" unfolding value_end_def by (rule exI [of _ "newline pr"]) auto
  have le: "3 * length ?t \<le> enough_turns q" using q(2) p(3) by (simp add: enough_turns_def on_def same_def)
  obtain c r where r: "ParseToken ds (enough_turns q) (first_token ?t) q = Inr (Some v, r)" "on (length ?t - 1) q r" "sees r (c # newline pr)"
    by (rule good_value [OF g q(3) ve le])
  have "sees r (List.last ?t # newline pr)" by (rule at_last [OF q(3) ne r(2)])
  moreover from this r(3) have c: "List.last ?t = c" by (simp add: sees_def)
  ultimately obtain u where u: "GetNextToken r = Inr (token_of c, u)" "sees u (c # newline pr)"
    using next_token [of r "[]" "c # newline pr"] text_last [OF assms(1,2), of pr 0 "newline pr"] by (auto simp: first_token_def)
  note f = sees_Cons [OF u(2)]
  have tok: "token_of c \<noteq> T_END_OF_INPUT" by (simp add: token_of_def)
  obtain w where w: "GetNextToken (forth u) = Inr (T_END_OF_INPUT, w)"
    using next_token [of "forth u" "newline pr" "[]"] f(6) list_all_blanks(2) [of pr 0] by (auto simp: starts_token_def first_token_def)
  have "\<And>s. v = StringValue s \<Longrightarrow> DeepCopy v = Inr v" using DeepCopy_ok(1) [OF assms(1)] by simp
  then have "Parse ds (?t @ newline pr) behind p = Inr (Some v, w)"
    using bom q(1) r(1) u(1) tok f(1,4) w by (cases v) (simp_all add: Parse_def ParseNextToken_def)
  then show ?thesis by blast
qed

text \<open>
  C32: what \<open>JSONWriter\<close> writes for a well-formed value, on one line or indented, \<open>JSONReader\<close> reads as the same value,
  with any of its options.  The value has no binary parts, no zero in a string, containers at most 99 deep, and doubles
  whose texts have the usual form and read back.
\<close>

theorem json_roundtrip:
  assumes "val_ok v" "writable ds v" "nested 99 v"
    and "and w_options OPTIONS_DO_NOT_ESCAPE = 0" "and w_options OPTIONS_OMIT_DOUBLE_TYPE_PRESERVATION = 0"
    and "and r_options JSON_DETACHABLE_CHILDREN \<noteq> 0 \<Longrightarrow> behind = Some 0"
  shows "\<exists>json. WriteWithOptions ds v w_options = Inr json \<and> Read_json ds json r_options behind = Inr (Some v)"
proof -
  define pr where "pr = (and w_options OPTIONS_PRETTY_PRINT \<noteq> 0)"
  have "WriteWithOptions ds v w_options = Inr (val_text ds pr 0 v @ newline pr)"
    using write_value(1) [of _ v ds 0 "[]"] assms(1,2,4,5)
    by (simp add: WriteWithOptions_def Let_def text_writer_def pr_def kPrettyPrintLineEnding_def)
  moreover have "\<exists>q. Parse ds (val_text ds pr 0 v @ newline pr) behind (new_JSONParser r_options) = Inr (Some v, q)"
    using assms by (intro parse_text) (auto simp: new_JSONParser_def has_option_def)
  ultimately show ?thesis by (auto simp: Read_json_def)
qed

definition sample_value :: "unit val" where
  "sample_value = ListValue [IntegerValue 1, DoubleValue (), StringValue [], DictionaryValue []]"

lemma sample_double: "json_double unit_doubles ()"
proof -
  have "double_format [48]" unfolding double_format_def
    by (rule exI [of _ "[]"], rule exI [of _ "[48]"], rule exI [of _ "[]"], rule exI [of _ "[]"])
      (simp add: digits_def is_digit_def fraction_part_def exponent_part_def)
  then show ?thesis by (simp add: json_double_def unit_doubles_def)
qed

theorem json_roundtrip_witness:
  "\<exists>json. WriteWithOptions unit_doubles sample_value 8 = Inr json \<and> Read_json unit_doubles json 1 None = Inr (Some sample_value)"
proof (rule json_roundtrip)
  show "val_ok sample_value" by (auto simp: sample_value_def utf8_string_def intro!: exI [of _ "[]"])
qed (simp_all add: sample_value_def sample_double OPTIONS_DO_NOT_ESCAPE_def OPTIONS_OMIT_DOUBLE_TYPE_PRESERVATION_def JSON_DETACHABLE_CHILDREN_def)

end
