(* ===== verification/PendingTasks.thy ===== *)
theory PendingTasks imports Times "HOL-Library.Word" "HOL-Library.Product_Lexorder" "HOL-Library.Multiset" begin

text \<open>
  \<open>base/pending_task.h\<close> and \<open>base/pending_task.cc\<close>: a posted closure with the time it is due,
  and the order in which the priority queue of delayed tasks gives them out.
\<close>

section \<open>PendingTask\<close>

text \<open>
  A closure is named by its bind state, NULL for a null closure.  The place it was posted from
  and the tracking information are left out.  A null \<open>delayed_run_time\<close> means at once.
\<close>

type_synonym closure = "nat option"

record pending_task =
  pt_task :: closure
  pt_delayed_run_time :: time_ticks
  pt_sequence_num :: "32 word"
  pt_nestable :: bool

definition new_PendingTask :: "closure \<Rightarrow> time_ticks \<Rightarrow> bool \<Rightarrow> pending_task" where
  "new_PendingTask task delayed_run_time nestable =
     \<lparr>pt_task = task, pt_delayed_run_time = delayed_run_time, pt_sequence_num = 0, pt_nestable = nestable\<rparr>"

text \<open>\<open>operator<\<close>: the greatest task is the one due first; the difference of the numbers is signed.\<close>

definition pending_less :: "pending_task \<Rightarrow> pending_task \<Rightarrow> bool" where
  "pending_less a b =
     (if pt_delayed_run_time a < pt_delayed_run_time b then False
      else if pt_delayed_run_time a > pt_delayed_run_time b then True
      else 0 < sint (pt_sequence_num a - pt_sequence_num b))"

section \<open>std::priority_queue\<close>

text \<open>The elements in some order; \<open>top\<close> is an element below no other one.\<close>

definition pq_push :: "pending_task \<Rightarrow> pending_task list \<Rightarrow> pending_task list" where
  "pq_push t q = q @ [t]"

definition pq_top :: "pending_task list \<Rightarrow> pending_task" where
  "pq_top q = foldl (\<lambda>m t. if pending_less m t then t else m) (hd q) (tl q)"

definition pq_pop :: "pending_task list \<Rightarrow> pending_task list" where
  "pq_pop q = remove1 (pq_top q) q"

lemma foldl_top_in: "foldl (\<lambda>m t. if pending_less m t then t else m) m q \<in> insert m (set q)"
proof (induction q arbitrary: m)
  case (Cons t q)
  show ?case using Cons.IH [of "if pending_less m t then t else m"] by (auto split: if_splits)
qed simp

lemma pq_top_in [simp]: "q \<noteq> [] \<Longrightarrow> pq_top q \<in> set q"
  using foldl_top_in [of "hd q" "tl q"] by (cases q) (simp_all add: pq_top_def)

lemma pq_pop_mset: "q \<noteq> [] \<Longrightarrow> mset q = add_mset (pq_top q) (mset (pq_pop q))"
  by (simp add: pq_pop_def)

lemma pq_pop_length [simp]: "q \<noteq> [] \<Longrightarrow> length (pq_pop q) < length q"
  by (metis pq_top_in pq_pop_def length_remove1 length_pos_if_in_set diff_less zero_less_one)

lemma pq_pop_subset: "set (pq_pop q) \<subseteq> set q"
  by (simp add: pq_pop_def set_remove1_subset)

function pq_drain :: "pending_task list \<Rightarrow> pending_task list" where
  "pq_drain q = (if q = [] then [] else pq_top q # pq_drain (pq_pop q))"
  by pat_completeness auto
termination
  by (relation "measure length") simp_all

declare pq_drain.simps [simp del]

section \<open>The order of the tasks\<close>

text \<open>Where the order is that of a key, the tasks come out in the order of their keys.\<close>

definition key_order :: "(pending_task \<Rightarrow> 'k::linorder) \<Rightarrow> pending_task list \<Rightarrow> bool" where
  "key_order k q \<longleftrightarrow> (\<forall>a\<in>set q. \<forall>b\<in>set q. pending_less a b \<longleftrightarrow> k b < k a)"

lemma foldl_top_min:
  assumes "\<forall>a\<in>insert m (set q). \<forall>b\<in>insert m (set q). pending_less a b \<longleftrightarrow> k b < k a" "x \<in> insert m (set q)"
  shows "k (foldl (\<lambda>m t. if pending_less m t then t else m) m q) \<le> (k x :: 'k::linorder)"
  using assms
proof (induction q arbitrary: m x)
  case (Cons t q)
  let ?m = "if pending_less m t then t else m"
  have min: "k ?m \<le> k m" "k ?m \<le> k t" using Cons.prems(1) by auto
  have sub: "\<forall>a\<in>insert ?m (set q). \<forall>b\<in>insert ?m (set q). pending_less a b \<longleftrightarrow> k b < k a"
    using Cons.prems(1) by auto
  show ?case
  proof (cases "x \<in> set q")
    case True
    then show ?thesis using Cons.IH [OF sub, of x] by simp
  next
    case False
    then show ?thesis using Cons.IH [OF sub, of ?m] Cons.prems(2) min by (auto split: if_splits)
  qed
qed simp

lemma pq_top_min: "key_order k q \<Longrightarrow> x \<in> set q \<Longrightarrow> k (pq_top q) \<le> k x"
  unfolding pq_top_def by (rule foldl_top_min) (cases q; auto simp: key_order_def)+

lemma drain_sorted: "key_order k q \<Longrightarrow> sorted (map k (pq_drain q)) \<and> mset (pq_drain q) = mset q"
proof (induction q rule: pq_drain.induct)
  case (1 q)
  show ?case
  proof (cases "q = []")
    case False
    have "key_order k (pq_pop q)" using "1.prems" pq_pop_subset [of q] unfolding key_order_def by blast
    note IH = "1.IH" [OF False this]
    have "set (pq_drain (pq_pop q)) \<subseteq> set q" using IH pq_pop_subset [of q] by (metis set_mset_mset)
    then have "\<forall>x\<in>set (pq_drain (pq_pop q)). k (pq_top q) \<le> k x" using pq_top_min [OF "1.prems"] by blast
    then show ?thesis using IH False pq_pop_mset [OF False] by (simp add: pq_drain.simps [of q])
  qed (simp add: pq_drain.simps)
qed

text \<open>The numbers \<open>AddToDelayedWorkQueue\<close> gives to the tasks \<open>ts\<close> when the counter stands at \<open>s\<close>.\<close>

primrec numbered :: "32 word \<Rightarrow> pending_task list \<Rightarrow> pending_task list" where
  "numbered s [] = []"
| "numbered s (t # ts) = t\<lparr>pt_sequence_num := s\<rparr> # numbered (s + 1) ts"

lemma numbered_simps [simp]: "length (numbered s ts) = length ts"
  "i < length ts \<Longrightarrow> numbered s ts ! i = (ts ! i)\<lparr>pt_sequence_num := s + of_nat i\<rparr>"
proof -
  show "length (numbered s ts) = length ts" by (induction ts arbitrary: s) simp_all
  show "i < length ts \<Longrightarrow> numbered s ts ! i = (ts ! i)\<lparr>pt_sequence_num := s + of_nat i\<rparr>"
    by (induction ts arbitrary: s i) (auto simp: nth_Cons less_Suc_eq_0_disj algebra_simps split: nat.split)
qed

lemma sint_difference:
  assumes "i < 2 ^ 31" "j < 2 ^ 31"
  shows "sint ((s + of_nat i) - (s + of_nat j) :: 32 word) = int i - int j"
proof -
  have "(s + of_nat i) - (s + of_nat j) = (of_int (int i - int j) :: 32 word)"
    by (simp only: of_int_diff of_int_of_nat_eq add_diff_cancel_left)
  moreover have "sint (of_int (int i - int j) :: 32 word) = int i - int j"
    unfolding signed_of_int using assms by (simp add: signed_take_bit_int_eq_self)
  ultimately show ?thesis by (simp only:)
qed

text \<open>The position a task was numbered at.\<close>

definition position :: "32 word \<Rightarrow> pending_task \<Rightarrow> nat" where
  "position s t = unat (pt_sequence_num t - s)"

lemma position_numbered:
  assumes "length ts \<le> 2 ^ 31" "i < length ts"
  shows "position s (numbered s ts ! i) = i"
proof -
  have "i < 2 ^ 32" using assms by simp
  then show ?thesis using assms(2) by (simp add: position_def unsigned_of_nat take_bit_eq_mod)
qed

lemma numbered_sorted: "length ts \<le> 2 ^ 31 \<Longrightarrow> map (position s) (numbered s ts) = [0..<length ts]"
  by (rule nth_equalityI) (simp_all add: position_numbered del: numbered_simps(2))

lemma numbered_order:
  assumes "length ts \<le> 2 ^ 31"
  shows "key_order (\<lambda>t. (pt_delayed_run_time t, position s t)) (numbered s ts)"
  unfolding key_order_def
proof (intro ballI)
  fix a b
  assume "a \<in> set (numbered s ts)" "b \<in> set (numbered s ts)"
  then obtain i j where i: "i < length ts" "a = numbered s ts ! i" and j: "j < length ts" "b = numbered s ts ! j"
    by (metis in_set_conv_nth numbered_simps(1))
  have seq: "0 < sint (pt_sequence_num a - pt_sequence_num b) \<longleftrightarrow> j < i"
    using i j assms sint_difference [of i j s] by simp
  have pos: "position s a = i" "position s b = j"
    unfolding i(2) j(2) using position_numbered [OF assms] i(1) j(1) by blast+
  show "pending_less a b \<longleftrightarrow> (pt_delayed_run_time b, position s b) < (pt_delayed_run_time a, position s a)"
    unfolding pending_less_def seq pos less_prod_def fst_conv snd_conv
    by (rule linorder_cases [of "pt_delayed_run_time a" "pt_delayed_run_time b"]; simp only: less_imp_le order_less_imp_not_less simp_thms if_True if_False less_irrefl order_refl not_le [symmetric]) 
qed

text \<open>
  C24: the delayed tasks of a loop come out earliest first, and those due at the same time in the
  order they were put in: the priority queue gives them as a stable sort by time.  The numbers
  may wrap around at any place; up to \<open>2^31\<close> tasks may be in the queue.
\<close>

theorem delayed_tasks_stable:
  assumes "length ts \<le> 2 ^ 31"
  shows "pq_drain (foldl (\<lambda>q t. pq_push t q) [] (numbered s ts)) = sort_key pt_delayed_run_time (numbered s ts)"
proof -
  let ?q = "numbered s ts"
  have push: "foldl (\<lambda>q t. pq_push t q) qs xs = qs @ xs" for qs xs :: "pending_task list"
    by (induction xs arbitrary: qs) (simp_all add: pq_push_def)
  have D: "sorted (map (\<lambda>t. (pt_delayed_run_time t, position s t)) (pq_drain ?q))" "mset (pq_drain ?q) = mset ?q"
    using drain_sorted [OF numbered_order [OF assms]] by blast+
  have "sort_key pt_delayed_run_time ?q = pq_drain ?q"
  proof (rule properties_for_sort_key)
    show "mset (pq_drain ?q) = mset ?q" by (rule D(2))
    show "sorted (map pt_delayed_run_time (pq_drain ?q))"
      using D(1) unfolding sorted_map by (rule sorted_wrt_mono_rel [rotated]) (auto simp: less_eq_prod_def less_le)
    fix k
    let ?f = "filter (\<lambda>x. pt_delayed_run_time k = pt_delayed_run_time x)"
    have inj: "inj_on (position s) (set ?q)" "sorted (map (position s) ?q)"
      using numbered_sorted [OF assms, of s] distinct_map [of "position s" ?q] by simp_all
    have "sorted (map (position s) (?f (pq_drain ?q)))"
      using sorted_wrt_filter [OF D(1) [unfolded sorted_map], of "\<lambda>x. pt_delayed_run_time k = pt_delayed_run_time x"]
      unfolding sorted_map by (rule sorted_wrt_mono_rel [rotated]) (auto simp: less_eq_prod_def less_le)
    moreover have "sorted (map (position s) (?f ?q))"
      using inj(2) by (simp add: sorted_filter)
    moreover have "mset (map (position s) (?f (pq_drain ?q))) = mset (map (position s) (?f ?q))"
      using D(2) by simp
    ultimately have "map (position s) (?f (pq_drain ?q)) = map (position s) (?f ?q)"
      by (metis properties_for_sort)
    then show "?f (pq_drain ?q) = ?f ?q"
      by (rule map_inj_on) (rule inj_on_subset [OF inj(1)], use mset_eq_setD [OF D(2)] in auto)
  qed
  then show ?thesis by (simp add: push)
qed

theorem delayed_tasks_stable_witness:
  "map pt_task (pq_drain (foldl (\<lambda>q t. pq_push t q) []
     (numbered (- 1) [new_PendingTask (Some 1) (TimeTicks 8) True, new_PendingTask (Some 2) (TimeTicks 5) True,
       new_PendingTask (Some 3) (TimeTicks 8) True]))) = [Some 2, Some 1, Some 3]"
  using delayed_tasks_stable [of "[new_PendingTask (Some 1) (TimeTicks 8) True, new_PendingTask (Some 2) (TimeTicks 5) True,
       new_PendingTask (Some 3) (TimeTicks 8) True]" "- 1"]
  by (simp add: new_PendingTask_def)

end
