(* ===== verification/MessageLoop.thy ===== *)
theory MessageLoop imports PendingTasks begin

text \<open>
  \<open>base/message_loop.cc\<close>, \<open>base/run_loop.cc\<close>, \<open>base/message_pump_default.cc\<close> and
  \<open>base/message_loop_proxy_impl.cc\<close>: a loop of the default type on its thread, the proxy other
  threads post through, and nested runs.

  One record holds the loop, its pump, the target of its proxy and the \<open>RunLoop\<close> objects, by
  number.  Other threads and the clock are a list of events that are still to come: after some
  microseconds, some tasks are posted through the proxy.  The loop's thread sees the next event
  at each place where it reads shared state: when it takes over the incoming queue, reads
  the clock, or waits.  The last three fields are not in the program; they record what was posted,
  what was started (with the depth of the run and the time) and what was deleted unrun.  Histograms,
  tracing and the observers of tasks and of the loop's destruction are left out.
\<close>

section \<open>State\<close>

record run_loop =
  rl_previous_run_loop :: "nat option"
  rl_run_depth :: nat
  rl_run_called :: bool
  rl_quit_called :: bool
  rl_running :: bool
  rl_quit_when_idle_received :: bool

text \<open>A post through the proxy: the closure, its delay, and whether it may run nested.\<close>

type_synonym posting = "closure \<times> time_delta \<times> bool"

record message_loop =
  l_incoming_queue :: "pending_task list"
  l_work_queue :: "pending_task list"
  l_delayed_work_queue :: "pending_task list"
  l_deferred_queue :: "pending_task list"
  l_nestable_tasks_allowed :: bool
  l_next_sequence_num :: "32 word"
  l_recent_time :: time_ticks
  l_run_loop :: "nat option"
  l_run_loops :: "run_loop list"
  l_keep_running :: bool
  l_delayed_work_time :: time_ticks
  l_event :: bool
  l_proxy_target :: bool
  l_clock :: time_ticks
  l_events :: "(nat \<times> posting list) list"
  l_posted :: "pending_task list"
  l_started :: "(pending_task \<times> nat \<times> time_ticks) list"
  l_deleted :: "pending_task list"

text \<open>
  What running a piece of the loop can come to: it returns, it waits for ever with no event
  to come, it fails, or the bound on the iterations is used up.
\<close>

datatype 'a outcome =
    is_Done: Done (result: 'a)
  | is_Blocked: Blocked (asleep: message_loop)
  | Broken fault
  | OutOfFuel

primrec bindO :: "'a outcome \<Rightarrow> ('a \<Rightarrow> 'b outcome) \<Rightarrow> 'b outcome" where
  "bindO (Done x) f = f x"
| "bindO (Blocked l) f = Blocked l"
| "bindO (Broken e) f = Broken e"
| "bindO OutOfFuel f = OutOfFuel"

definition lift_res :: "'a res \<Rightarrow> 'a outcome" where
  "lift_res r = (case r of Inl e \<Rightarrow> Broken e | Inr x \<Rightarrow> Done x)"

primrec fold_outcome :: "('x \<Rightarrow> 's \<Rightarrow> 's outcome) \<Rightarrow> 'x list \<Rightarrow> 's \<Rightarrow> 's outcome" where
  "fold_outcome f [] s = Done s"
| "fold_outcome f (x # xs) s = bindO (f x s) (fold_outcome f xs)"

section \<open>The pump's methods that do not run tasks\<close>

definition Pump_Quit :: "message_loop \<Rightarrow> message_loop" where
  "Pump_Quit l = l\<lparr>l_keep_running := False\<rparr>"

definition Pump_ScheduleWork :: "message_loop \<Rightarrow> message_loop" where
  "Pump_ScheduleWork l = l\<lparr>l_event := True\<rparr>"

definition Pump_ScheduleDelayedWork :: "time_ticks \<Rightarrow> message_loop \<Rightarrow> message_loop" where
  "Pump_ScheduleDelayedWork t l = l\<lparr>l_delayed_work_time := t\<rparr>"

section \<open>Posting\<close>

definition new_MessageLoop :: "time_ticks \<Rightarrow> (nat \<times> posting list) list \<Rightarrow> message_loop" where
  "new_MessageLoop clock events =
     \<lparr>l_incoming_queue = [], l_work_queue = [], l_delayed_work_queue = [], l_deferred_queue = [],
      l_nestable_tasks_allowed = True, l_next_sequence_num = 0, l_recent_time = null_ticks, l_run_loop = None,
      l_run_loops = [], l_keep_running = True, l_delayed_work_time = null_ticks, l_event = False, l_proxy_target = True,
      l_clock = clock, l_events = events, l_posted = [], l_started = [], l_deleted = []\<rparr>"

definition CalculateDelayedRuntime :: "time_delta \<Rightarrow> message_loop \<Rightarrow> time_ticks res" where
  "CalculateDelayedRuntime delay l =
     (if delay > TimeDelta 0 then Inr (ticks_plus (l_clock l) delay)
      else bindR (dcheck (InMilliseconds delay = 0) ''delay should not be negative'') (\<lambda>_. Inr null_ticks))"

definition AddToIncomingQueue :: "pending_task \<Rightarrow> message_loop \<Rightarrow> message_loop" where
  "AddToIncomingQueue pending_task l =
     (let was_empty = (l_incoming_queue l = []);
          l1 = l\<lparr>l_incoming_queue := l_incoming_queue l @ [pending_task], l_posted := l_posted l @ [pending_task]\<rparr>
      in if \<not> was_empty then l1 else Pump_ScheduleWork l1)"

definition Loop_PostTask :: "closure \<Rightarrow> message_loop \<Rightarrow> message_loop res" where
  "Loop_PostTask task l =
     bindR (dcheck (task \<noteq> None) ''!task.is_null()'') (\<lambda>_.
     bindR (CalculateDelayedRuntime (TimeDelta 0) l) (\<lambda>t. Inr (AddToIncomingQueue (new_PendingTask task t True) l)))"

definition Loop_PostDelayedTask :: "closure \<Rightarrow> time_delta \<Rightarrow> message_loop \<Rightarrow> message_loop res" where
  "Loop_PostDelayedTask task delay l =
     bindR (dcheck (task \<noteq> None) ''!task.is_null()'') (\<lambda>_.
     bindR (CalculateDelayedRuntime delay l) (\<lambda>t. Inr (AddToIncomingQueue (new_PendingTask task t True) l)))"

definition Loop_PostNonNestableTask :: "closure \<Rightarrow> message_loop \<Rightarrow> message_loop res" where
  "Loop_PostNonNestableTask task l =
     bindR (dcheck (task \<noteq> None) ''!task.is_null()'') (\<lambda>_.
     bindR (CalculateDelayedRuntime (TimeDelta 0) l) (\<lambda>t. Inr (AddToIncomingQueue (new_PendingTask task t False) l)))"

definition Loop_PostNonNestableDelayedTask :: "closure \<Rightarrow> time_delta \<Rightarrow> message_loop \<Rightarrow> message_loop res" where
  "Loop_PostNonNestableDelayedTask task delay l =
     bindR (dcheck (task \<noteq> None) ''!task.is_null()'') (\<lambda>_.
     bindR (CalculateDelayedRuntime delay l) (\<lambda>t. Inr (AddToIncomingQueue (new_PendingTask task t False) l)))"

subsection \<open>MessageLoopProxyImpl\<close>

definition PostTaskHelper :: "closure \<Rightarrow> time_delta \<Rightarrow> bool \<Rightarrow> message_loop \<Rightarrow> (bool \<times> message_loop) res" where
  "PostTaskHelper task delay nestable l =
     (if l_proxy_target l then
        bindR (if nestable then Loop_PostDelayedTask task delay l else Loop_PostNonNestableDelayedTask task delay l)
          (\<lambda>l1. Inr (True, l1))
      else Inr (False, l))"

definition Proxy_PostDelayedTask :: "closure \<Rightarrow> time_delta \<Rightarrow> message_loop \<Rightarrow> (bool \<times> message_loop) res" where
  "Proxy_PostDelayedTask task delay = PostTaskHelper task delay True"

definition Proxy_PostNonNestableDelayedTask :: "closure \<Rightarrow> time_delta \<Rightarrow> message_loop \<Rightarrow> (bool \<times> message_loop) res" where
  "Proxy_PostNonNestableDelayedTask task delay = PostTaskHelper task delay False"

definition Proxy_WillDestroyCurrentMessageLoop :: "message_loop \<Rightarrow> message_loop" where
  "Proxy_WillDestroyCurrentMessageLoop l = l\<lparr>l_proxy_target := False\<rparr>"

text \<open>A post whose result is not looked at.\<close>

definition post :: "posting \<Rightarrow> message_loop \<Rightarrow> message_loop res" where
  "post p l = (case p of (task, delay, nestable) \<Rightarrow>
     bindR (if nestable then Proxy_PostDelayedTask task delay l else Proxy_PostNonNestableDelayedTask task delay l)
       (\<lambda>(posted, l1). Inr l1))"

section \<open>The world around the loop\<close>

text \<open>The next event happens.\<close>

definition next_event :: "message_loop \<Rightarrow> message_loop res" where
  "next_event l =
     (case l_events l of
        [] \<Rightarrow> Inr l
      | (dt, posts) # es \<Rightarrow>
          fold_res post posts (l\<lparr>l_events := es, l_clock := ticks_plus (l_clock l) (TimeDelta (int dt))\<rparr>))"

definition Now :: "message_loop \<Rightarrow> (time_ticks \<times> message_loop) res" where
  "Now l = bindR (next_event l) (\<lambda>l1. Inr (l_clock l1, l1))"

section \<open>Running tasks\<close>

text \<open>\<open>run_loop_->run_depth_\<close>.\<close>

definition run_depth :: "message_loop \<Rightarrow> nat res" where
  "run_depth l = (case l_run_loop l of None \<Rightarrow> Inl (NullDeref ''run_loop_'') | Some i \<Rightarrow> Inr (rl_run_depth (l_run_loops l ! i)))"

definition depth_of :: "message_loop \<Rightarrow> nat" where
  "depth_of l = (case l_run_loop l of None \<Rightarrow> 0 | Some i \<Rightarrow> rl_run_depth (l_run_loops l ! i))"

text \<open>\<open>run\<close> is what \<open>Run\<close> of a closure does to the loop.\<close>

type_synonym runner = "closure \<Rightarrow> message_loop \<Rightarrow> message_loop outcome"

definition RunTask :: "runner \<Rightarrow> pending_task \<Rightarrow> message_loop \<Rightarrow> message_loop outcome" where
  "RunTask run pending_task l =
     bindO (lift_res (dcheck (l_nestable_tasks_allowed l) ''nestable_tasks_allowed_'')) (\<lambda>_.
     bindO (run (pt_task pending_task)
       (l\<lparr>l_nestable_tasks_allowed := False, l_started := l_started l @ [(pending_task, depth_of l, l_clock l)]\<rparr>)) (\<lambda>l1.
     Done (l1\<lparr>l_nestable_tasks_allowed := True\<rparr>)))"

definition DeferOrRunPendingTask :: "runner \<Rightarrow> pending_task \<Rightarrow> message_loop \<Rightarrow> (bool \<times> message_loop) outcome" where
  "DeferOrRunPendingTask run pending_task l =
     bindO (if pt_nestable pending_task then Done True else lift_res (bindR (run_depth l) (\<lambda>d. Inr (d = 1)))) (\<lambda>now.
       if now then bindO (RunTask run pending_task l) (\<lambda>l1. Done (True, l1))
       else Done (False, l\<lparr>l_deferred_queue := l_deferred_queue l @ [pending_task]\<rparr>))"

definition AddToDelayedWorkQueue :: "pending_task \<Rightarrow> message_loop \<Rightarrow> message_loop" where
  "AddToDelayedWorkQueue pending_task l =
     l\<lparr>l_delayed_work_queue := pq_push (pending_task\<lparr>pt_sequence_num := l_next_sequence_num l\<rparr>) (l_delayed_work_queue l),
       l_next_sequence_num := l_next_sequence_num l + 1\<rparr>"

definition ReloadWorkQueue :: "message_loop \<Rightarrow> message_loop res" where
  "ReloadWorkQueue l =
     (if l_work_queue l \<noteq> [] then Inr l
      else bindR (next_event l) (\<lambda>l1.
        if l_incoming_queue l1 = [] then Inr l1
        else Inr (l1\<lparr>l_incoming_queue := l_work_queue l1, l_work_queue := l_incoming_queue l1\<rparr>)))"

text \<open>The inner loop of \<open>DoWork\<close>, which ends when a task was run or the queue is empty.\<close>

primrec work_pass :: "runner \<Rightarrow> pending_task list \<Rightarrow> message_loop \<Rightarrow> (bool \<times> message_loop) outcome" where
  "work_pass run [] l = Done (False, l)"
| "work_pass run (p # ps) l =
     (let l1 = l\<lparr>l_work_queue := ps\<rparr> in
      if \<not> ticks_is_null (pt_delayed_run_time p) then
        (let l2 = AddToDelayedWorkQueue p l1 in
         work_pass run ps
           (if pt_task (pq_top (l_delayed_work_queue l2)) = pt_task p
            then Pump_ScheduleDelayedWork (pt_delayed_run_time p) l2 else l2))
      else bindO (DeferOrRunPendingTask run p l1) (\<lambda>(did, l2). if did then Done (True, l2) else work_pass run ps l2))"

section \<open>What posting changes\<close>

lemma AddToIncomingQueue_fields [simp]:
  "l_incoming_queue (AddToIncomingQueue p l) = l_incoming_queue l @ [p]"
  "l_posted (AddToIncomingQueue p l) = l_posted l @ [p]"
  "l_event (AddToIncomingQueue p l) = (l_event l \<or> l_incoming_queue l = [])"
  "l_work_queue (AddToIncomingQueue p l) = l_work_queue l"
  "l_delayed_work_queue (AddToIncomingQueue p l) = l_delayed_work_queue l"
  "l_deferred_queue (AddToIncomingQueue p l) = l_deferred_queue l"
  "l_nestable_tasks_allowed (AddToIncomingQueue p l) = l_nestable_tasks_allowed l"
  "l_recent_time (AddToIncomingQueue p l) = l_recent_time l"
  "l_run_loop (AddToIncomingQueue p l) = l_run_loop l"
  "l_run_loops (AddToIncomingQueue p l) = l_run_loops l"
  "l_keep_running (AddToIncomingQueue p l) = l_keep_running l"
  "l_delayed_work_time (AddToIncomingQueue p l) = l_delayed_work_time l"
  "l_proxy_target (AddToIncomingQueue p l) = l_proxy_target l"
  "l_clock (AddToIncomingQueue p l) = l_clock l"
  "l_events (AddToIncomingQueue p l) = l_events l"
  "l_started (AddToIncomingQueue p l) = l_started l"
  "l_deleted (AddToIncomingQueue p l) = l_deleted l"
  by (simp_all add: AddToIncomingQueue_def Pump_ScheduleWork_def Let_def)

text \<open>A new task is due at once or at a later time than the clock shows.\<close>

definition fresh :: "message_loop \<Rightarrow> pending_task \<Rightarrow> bool" where
  "fresh l p \<longleftrightarrow> pt_sequence_num p = 0 \<and>
     (ticks_is_null (pt_delayed_run_time p) \<or> l_clock l < pt_delayed_run_time p)"

lemmas post_defs = Loop_PostTask_def Loop_PostDelayedTask_def Loop_PostNonNestableTask_def
  Loop_PostNonNestableDelayedTask_def PostTaskHelper_def Proxy_PostDelayedTask_def
  Proxy_PostNonNestableDelayedTask_def post_def

lemma CalculateDelayedRuntime_fresh:
  "CalculateDelayedRuntime delay l = Inr t \<Longrightarrow> fresh l (new_PendingTask task t nestable)"
  by (auto simp: CalculateDelayedRuntime_def fresh_def new_PendingTask_def null_ticks_def ticks_is_null_def
      ticks_plus_def res_simps split: if_splits)

lemma post_cases:
  assumes "post p l = Inr l'"
  obtains "l' = l" "\<not> l_proxy_target l" | q where "l' = AddToIncomingQueue q l" "fresh l q" "l_proxy_target l"
proof -
  obtain task delay nestable where p: "p = (task, delay, nestable)" by (cases p)
  show ?thesis
  proof (cases "l_proxy_target l")
    case True
    then obtain t where "CalculateDelayedRuntime delay l = Inr t" "l' = AddToIncomingQueue (new_PendingTask task t nestable) l"
      using assms unfolding p post_defs by (cases nestable) (auto simp: res_simps)
    then show ?thesis using that(2) CalculateDelayedRuntime_fresh True by blast
  next
    case False
    then show ?thesis using assms that(1) unfolding p post_defs by (auto simp: split: if_splits)
  qed
qed

text \<open>What every post keeps holds after any number of posts.\<close>

lemma fold_post_rule:
  assumes "fold_res post ps l = Inr l'" "P l"
    and "\<And>q l. P l \<Longrightarrow> fresh l q \<Longrightarrow> l_proxy_target l \<Longrightarrow> P (AddToIncomingQueue q l)"
  shows "P l'"
  using assms(1,2)
proof (induction ps arbitrary: l)
  case (Cons p ps)
  then obtain l1 where l1: "post p l = Inr l1" "fold_res post ps l1 = Inr l'" by (auto simp: res_simps)
  from l1(1) have "P l1" by (cases rule: post_cases) (use Cons.prems(2) assms(3) in auto)
  then show ?case using Cons.IH l1(2) by blast
qed simp

text \<open>An event: the clock goes on, then there are posts.\<close>

lemma next_event_rule:
  assumes "next_event l = Inr l'" "P l"
    and "\<And>dt posts es. l_events l = (dt, posts) # es \<Longrightarrow>
      P (l\<lparr>l_events := es, l_clock := ticks_plus (l_clock l) (TimeDelta (int dt))\<rparr>)"
    and "\<And>q l. P l \<Longrightarrow> fresh l q \<Longrightarrow> l_proxy_target l \<Longrightarrow> P (AddToIncomingQueue q l)"
  shows "P l'"
proof (cases "l_events l")
  case Nil
  then show ?thesis using assms(1,2) by (simp add: next_event_def)
next
  case (Cons e es)
  then obtain dt posts where e: "l_events l = (dt, posts) # es" by (cases e) auto
  then have "fold_res post posts (l\<lparr>l_events := es, l_clock := ticks_plus (l_clock l) (TimeDelta (int dt))\<rparr>) = Inr l'"
    using assms(1) by (simp add: next_event_def)
  then show ?thesis using assms(3) [OF e] assms(4) by (rule fold_post_rule)
qed

lemma next_event_events: "next_event l = Inr l' \<Longrightarrow> l_events l' = tl (l_events l)"
proof (cases "l_events l")
  case (Cons e es)
  assume "next_event l = Inr l'"
  then show ?thesis using Cons fold_post_rule [where P = "\<lambda>l. l_events l = es"]
    by (auto simp: next_event_def split: prod.splits)
qed (simp add: next_event_def)

section \<open>DoWork, DoDelayedWork, DoIdleWork\<close>

lemma DeferOrRunPendingTask_False:
  "DeferOrRunPendingTask run p l = Done (False, l') \<Longrightarrow> l' = l\<lparr>l_deferred_queue := l_deferred_queue l @ [p]\<rparr> \<and> \<not> pt_nestable p"
  unfolding DeferOrRunPendingTask_def
  by (cases "RunTask run p l") (auto simp: lift_res_def run_depth_def split: if_splits option.splits)

lemma work_pass_False:
  "work_pass run ps l = Done (False, l') \<Longrightarrow>
   l_events l' = l_events l \<and> l_incoming_queue l' = l_incoming_queue l \<and> (ps \<noteq> [] \<longrightarrow> l_work_queue l' = [])"
proof (induction ps arbitrary: l)
  case (Cons p ps)
  let ?l1 = "l\<lparr>l_work_queue := ps\<rparr>"
  show ?case
  proof (cases "ticks_is_null (pt_delayed_run_time p)")
    case False
    then show ?thesis using Cons
      by (cases "ps = []") (auto simp: Let_def AddToDelayedWorkQueue_def Pump_ScheduleDelayedWork_def split: if_splits)
  next
    case True
    then obtain l2 where "DeferOrRunPendingTask run p ?l1 = Done (False, l2)" "work_pass run ps l2 = Done (False, l')"
      using Cons.prems by (cases "DeferOrRunPendingTask run p ?l1") (auto split: if_splits)
    with DeferOrRunPendingTask_False [OF this(1)] show ?thesis using Cons.IH [of l2] by (cases "ps = []") auto
  qed
qed simp

text \<open>The outer loop ends: each turn uses up an event or empties a queue.\<close>

function DoWork_loop :: "runner \<Rightarrow> message_loop \<Rightarrow> (bool \<times> message_loop) outcome" where
  "DoWork_loop run l =
     (case ReloadWorkQueue l of
        Inl e \<Rightarrow> Broken e
      | Inr l1 \<Rightarrow>
          if l_work_queue l1 = [] then Done (False, l1)
          else (case work_pass run (l_work_queue l1) l1 of
                  Done (did, l2) \<Rightarrow> if did then Done (True, l2) else DoWork_loop run l2
                | Blocked b \<Rightarrow> Blocked b
                | Broken e \<Rightarrow> Broken e
                | OutOfFuel \<Rightarrow> OutOfFuel))"
  by pat_completeness auto
termination
proof (relation "measures [\<lambda>(run, l). length (l_events l), \<lambda>(run, l). if l_incoming_queue l = [] then 0 else 1,
    \<lambda>(run, l). if l_work_queue l = [] then 0 else 1]", simp)
  fix run l l1 x did l2
  assume R: "ReloadWorkQueue l = Inr l1" and w: "l_work_queue l1 \<noteq> []"
    and p: "work_pass run (l_work_queue l1) l1 = Done x" "(did, l2) = x" "\<not> did"
  have F: "l_events l2 = l_events l1" "l_incoming_queue l2 = l_incoming_queue l1" "l_work_queue l2 = []"
    using work_pass_False [of run "l_work_queue l1" l1 l2] p w by auto
  show "((run, l2), run, l) \<in> measures [\<lambda>(run, l). length (l_events l),
    \<lambda>(run, l). if l_incoming_queue l = [] then 0 else 1, \<lambda>(run, l). if l_work_queue l = [] then 0 else 1]"
  proof (cases "l_work_queue l = []")
    case False
    then have "l1 = l" using R by (simp add: ReloadWorkQueue_def)
    then show ?thesis using F False by simp
  next
    case True
    then obtain l0 where l0: "next_event l = Inr l0"
      "l1 = (if l_incoming_queue l0 = [] then l0 else l0\<lparr>l_incoming_queue := l_work_queue l0, l_work_queue := l_incoming_queue l0\<rparr>)"
      using R by (cases "next_event l") (simp_all add: ReloadWorkQueue_def split: if_splits)
    have e: "l_events l2 = tl (l_events l)" using F(1) l0 next_event_events [OF l0(1)] by auto
    show ?thesis
    proof (cases "l_events l")
      case Nil
      then have "l0 = l" using l0(1) by (simp add: next_event_def)
      then show ?thesis using F l0(2) True w e Nil by (auto split: if_splits)
    qed (simp add: e)
  qed
qed

declare DoWork_loop.simps [simp del]

definition DoWork :: "runner \<Rightarrow> message_loop \<Rightarrow> (bool \<times> message_loop) outcome" where
  "DoWork run l = (if \<not> l_nestable_tasks_allowed l then Done (False, l) else DoWork_loop run l)"

text \<open>\<open>*next_delayed_work_time\<close> is the pump's \<open>delayed_work_time_\<close>.\<close>

definition DoDelayedWork :: "runner \<Rightarrow> message_loop \<Rightarrow> (bool \<times> message_loop) outcome" where
  "DoDelayedWork run l =
     (if \<not> l_nestable_tasks_allowed l \<or> l_delayed_work_queue l = []
      then Done (False, l\<lparr>l_recent_time := null_ticks, l_delayed_work_time := null_ticks\<rparr>)
      else
        let next_run_time = pt_delayed_run_time (pq_top (l_delayed_work_queue l)) in
        bindO (if next_run_time > l_recent_time l
               then lift_res (bindR (Now l) (\<lambda>(now, l1). Inr (l1\<lparr>l_recent_time := now\<rparr>))) else Done l) (\<lambda>l1.
          if next_run_time > l_recent_time l1 then Done (False, l1\<lparr>l_delayed_work_time := next_run_time\<rparr>)
          else
            let pending_task = pq_top (l_delayed_work_queue l1);
                l2 = l1\<lparr>l_delayed_work_queue := pq_pop (l_delayed_work_queue l1)\<rparr>;
                l3 = (if l_delayed_work_queue l2 \<noteq> []
                      then l2\<lparr>l_delayed_work_time := pt_delayed_run_time (pq_top (l_delayed_work_queue l2))\<rparr> else l2)
            in DeferOrRunPendingTask run pending_task l3))"

definition ProcessNextDelayedNonNestableTask :: "runner \<Rightarrow> message_loop \<Rightarrow> (bool \<times> message_loop) outcome" where
  "ProcessNextDelayedNonNestableTask run l =
     bindO (lift_res (run_depth l)) (\<lambda>d.
       if d \<noteq> 1 then Done (False, l)
       else case l_deferred_queue l of
              [] \<Rightarrow> Done (False, l)
            | p # ps \<Rightarrow> bindO (RunTask run p (l\<lparr>l_deferred_queue := ps\<rparr>)) (\<lambda>l1. Done (True, l1)))"

definition DoIdleWork :: "runner \<Rightarrow> message_loop \<Rightarrow> (bool \<times> message_loop) outcome" where
  "DoIdleWork run l =
     bindO (ProcessNextDelayedNonNestableTask run l) (\<lambda>(did, l1).
       if did then Done (True, l1)
       else case l_run_loop l1 of
              None \<Rightarrow> Broken (NullDeref ''run_loop_'')
            | Some i \<Rightarrow> Done (False, if rl_quit_when_idle_received (l_run_loops l1 ! i) then Pump_Quit l1 else l1))"

section \<open>MessagePumpDefault::Run\<close>

text \<open>\<open>event_\<close> is reset by the wait that it ends.\<close>

function Event_Wait :: "message_loop \<Rightarrow> message_loop outcome" where
  "Event_Wait l =
     (if l_event l then Done (l\<lparr>l_event := False\<rparr>)
      else if l_events l = [] then Blocked l
      else case next_event l of Inl e \<Rightarrow> Broken e | Inr l1 \<Rightarrow> Event_Wait l1)"
  by pat_completeness auto
termination
  by (relation "measure (\<lambda>l. length (l_events l))") (auto simp: next_event_events)

declare Event_Wait.simps [simp del]

function Event_TimedWait :: "nat \<Rightarrow> message_loop \<Rightarrow> message_loop outcome" where
  "Event_TimedWait delay l =
     (if l_event l then Done (l\<lparr>l_event := False\<rparr>)
      else case l_events l of
             [] \<Rightarrow> Done (l\<lparr>l_clock := ticks_plus (l_clock l) (TimeDelta (int delay))\<rparr>)
           | (dt, posts) # es \<Rightarrow>
               if delay \<le> dt
               then Done (l\<lparr>l_events := (dt - delay, posts) # es, l_clock := ticks_plus (l_clock l) (TimeDelta (int delay))\<rparr>)
               else (case next_event l of Inl e \<Rightarrow> Broken e | Inr l1 \<Rightarrow> Event_TimedWait (delay - dt) l1))"
  by pat_completeness auto
termination
  by (relation "measure (\<lambda>(delay, l). length (l_events l))") (auto simp: next_event_events)

declare Event_TimedWait.simps [simp del]

definition Pump_wait :: "message_loop \<Rightarrow> message_loop outcome" where
  "Pump_wait l =
     (if ticks_is_null (l_delayed_work_time l) then Event_Wait l
      else bindO (lift_res (Now l)) (\<lambda>(now, l1).
        let delay = ticks_diff (l_delayed_work_time l1) now in
        if delay > TimeDelta 0 then Event_TimedWait (nat (delta_us delay)) l1
        else Done (l1\<lparr>l_delayed_work_time := null_ticks\<rparr>)))"

primrec pump_loop :: "runner \<Rightarrow> nat \<Rightarrow> message_loop \<Rightarrow> message_loop outcome" where
  "pump_loop run 0 l = OutOfFuel"
| "pump_loop run (Suc n) l =
     bindO (DoWork run l) (\<lambda>(work, l1).
     if \<not> l_keep_running l1 then Done l1 else
     bindO (DoDelayedWork run l1) (\<lambda>(delayed, l2).
     if \<not> l_keep_running l2 then Done l2 else
     if work \<or> delayed then pump_loop run n l2 else
     bindO (DoIdleWork run l2) (\<lambda>(idle, l3).
     if \<not> l_keep_running l3 then Done l3 else
     if idle then pump_loop run n l3 else
     bindO (Pump_wait l3) (pump_loop run n))))"

definition Pump_Run :: "runner \<Rightarrow> nat \<Rightarrow> message_loop \<Rightarrow> message_loop outcome" where
  "Pump_Run run fuel l =
     bindO (lift_res (dcheck (l_keep_running l) ''Quit must have been called outside of Run!'')) (\<lambda>_.
     bindO (pump_loop run fuel l) (\<lambda>l1. Done (l1\<lparr>l_keep_running := True\<rparr>)))"

section \<open>RunLoop and quitting\<close>

definition set_run_loop :: "nat \<Rightarrow> (run_loop \<Rightarrow> run_loop) \<Rightarrow> message_loop \<Rightarrow> message_loop" where
  "set_run_loop i f l = l\<lparr>l_run_loops := (l_run_loops l)[i := f (l_run_loops l ! i)]\<rparr>"

definition new_RunLoop :: "message_loop \<Rightarrow> nat \<times> message_loop" where
  "new_RunLoop l = (length (l_run_loops l), l\<lparr>l_run_loops := l_run_loops l @
     [\<lparr>rl_previous_run_loop = None, rl_run_depth = 0, rl_run_called = False, rl_quit_called = False,
       rl_running = False, rl_quit_when_idle_received = False\<rparr>]\<rparr>)"

definition Loop_QuitWhenIdle :: "message_loop \<Rightarrow> message_loop res" where
  "Loop_QuitWhenIdle l =
     (case l_run_loop l of
        None \<Rightarrow> Inl (NotReached ''Must be inside Run to call Quit'')
      | Some i \<Rightarrow> Inr (set_run_loop i (\<lambda>r. r\<lparr>rl_quit_when_idle_received := True\<rparr>) l))"

definition Loop_QuitNow :: "message_loop \<Rightarrow> message_loop res" where
  "Loop_QuitNow l =
     (case l_run_loop l of None \<Rightarrow> Inl (NotReached ''Must be inside Run to call Quit'') | Some i \<Rightarrow> Inr (Pump_Quit l))"

definition SetNestableTasksAllowed :: "bool \<Rightarrow> message_loop \<Rightarrow> message_loop" where
  "SetNestableTasksAllowed allowed l =
     (if l_nestable_tasks_allowed l \<noteq> allowed then
        (let l1 = l\<lparr>l_nestable_tasks_allowed := allowed\<rparr> in
         if \<not> l_nestable_tasks_allowed l1 then l1 else Pump_ScheduleWork l1)
      else l)"

definition BeforeRun :: "nat \<Rightarrow> message_loop \<Rightarrow> (bool \<times> message_loop) res" where
  "BeforeRun i l =
     bindR (dcheck (\<not> rl_run_called (l_run_loops l ! i)) ''!run_called_'') (\<lambda>_.
       let l1 = set_run_loop i (\<lambda>r. r\<lparr>rl_run_called := True\<rparr>) l in
       if rl_quit_called (l_run_loops l1 ! i) then Inr (False, l1)
       else
         let previous = l_run_loop l1;
             depth = (case previous of Some p \<Rightarrow> rl_run_depth (l_run_loops l1 ! p) + 1 | None \<Rightarrow> 1);
             l2 = set_run_loop i (\<lambda>r. r\<lparr>rl_previous_run_loop := previous, rl_run_depth := depth\<rparr>) l1;
             l3 = l2\<lparr>l_run_loop := Some i\<rparr>
         in Inr (True, set_run_loop i (\<lambda>r. r\<lparr>rl_running := True\<rparr>) l3))"

definition AfterRun :: "nat \<Rightarrow> message_loop \<Rightarrow> message_loop res" where
  "AfterRun i l =
     (let l1 = set_run_loop i (\<lambda>r. r\<lparr>rl_running := False\<rparr>) l;
          previous = rl_previous_run_loop (l_run_loops l1 ! i);
          l2 = l1\<lparr>l_run_loop := previous\<rparr>
      in case previous of
           None \<Rightarrow> Inr l2
         | Some p \<Rightarrow> if rl_quit_called (l_run_loops l2 ! p) then Loop_QuitNow l2 else Inr l2)"

definition RunLoop_Run :: "runner \<Rightarrow> nat \<Rightarrow> nat \<Rightarrow> message_loop \<Rightarrow> message_loop outcome" where
  "RunLoop_Run run fuel i l =
     bindO (lift_res (BeforeRun i l)) (\<lambda>(go, l1).
       if \<not> go then Done l1
       else bindO (Pump_Run run fuel l1) (\<lambda>l2. lift_res (AfterRun i l2)))"

definition RunLoop_RunUntilIdle :: "runner \<Rightarrow> nat \<Rightarrow> nat \<Rightarrow> message_loop \<Rightarrow> message_loop outcome" where
  "RunLoop_RunUntilIdle run fuel i l =
     RunLoop_Run run fuel i (set_run_loop i (\<lambda>r. r\<lparr>rl_quit_when_idle_received := True\<rparr>) l)"

definition RunLoop_Quit :: "nat \<Rightarrow> message_loop \<Rightarrow> message_loop res" where
  "RunLoop_Quit i l =
     (let l1 = set_run_loop i (\<lambda>r. r\<lparr>rl_quit_called := True\<rparr>) l in
      if rl_running (l_run_loops l1 ! i) \<and> l_run_loop l1 = Some i then Loop_QuitNow l1 else Inr l1)"

definition Loop_Run :: "runner \<Rightarrow> nat \<Rightarrow> message_loop \<Rightarrow> message_loop outcome" where
  "Loop_Run run fuel l = (case new_RunLoop l of (i, l1) \<Rightarrow> RunLoop_Run run fuel i l1)"

definition Loop_RunUntilIdle :: "runner \<Rightarrow> nat \<Rightarrow> message_loop \<Rightarrow> message_loop outcome" where
  "Loop_RunUntilIdle run fuel l = (case new_RunLoop l of (i, l1) \<Rightarrow> RunLoop_RunUntilIdle run fuel i l1)"

section \<open>What closures do\<close>

text \<open>
  The calls on the loop a closure can make.  \<open>body\<close> gives those of each closure; \<open>fuel\<close> bounds
  the turns of each pump, and the number of nested runs is bounded by \<open>depth\<close>.
\<close>

datatype call =
    Post posting
  | PostNow closure bool
  | QuitWhenIdle
  | QuitNow
  | SetNestable bool
  | NestedRun
  | NestedRunUntilIdle
  | QuitRunLoop nat

definition do_call :: "runner \<Rightarrow> nat \<Rightarrow> call \<Rightarrow> message_loop \<Rightarrow> message_loop outcome" where
  "do_call run fuel c l =
     (case c of
        Post p \<Rightarrow> lift_res (post p l)
      | PostNow t nestable \<Rightarrow> lift_res (if nestable then Loop_PostTask t l else Loop_PostNonNestableTask t l)
      | QuitWhenIdle \<Rightarrow> lift_res (Loop_QuitWhenIdle l)
      | QuitNow \<Rightarrow> lift_res (Loop_QuitNow l)
      | SetNestable b \<Rightarrow> Done (SetNestableTasksAllowed b l)
      | NestedRun \<Rightarrow> Loop_Run run fuel l
      | NestedRunUntilIdle \<Rightarrow> Loop_RunUntilIdle run fuel l
      | QuitRunLoop i \<Rightarrow> lift_res (RunLoop_Quit i l))"

primrec run_closure :: "(nat \<Rightarrow> call list) \<Rightarrow> nat \<Rightarrow> nat \<Rightarrow> runner" where
  "run_closure body fuel 0 t l = OutOfFuel"
| "run_closure body fuel (Suc depth) t l =
     (case t of None \<Rightarrow> Broken (NullDeref ''task'')
      | Some i \<Rightarrow> fold_outcome (do_call (run_closure body fuel depth) fuel) (body i) l)"

section \<open>Destruction\<close>

text \<open>\<open>drops\<close> gives the tasks that deleting a closure posts.\<close>

definition delete_task :: "(nat \<Rightarrow> posting list) \<Rightarrow> pending_task \<Rightarrow> message_loop \<Rightarrow> message_loop res" where
  "delete_task drops p l =
     fold_res post (case pt_task p of None \<Rightarrow> [] | Some i \<Rightarrow> drops i) (l\<lparr>l_deleted := l_deleted l @ [p]\<rparr>)"

text \<open>The three loops; the last pops by the order of the priority queue.\<close>

primrec delete_work :: "(nat \<Rightarrow> posting list) \<Rightarrow> pending_task list \<Rightarrow> message_loop \<Rightarrow> message_loop res" where
  "delete_work drops [] l = Inr l"
| "delete_work drops (p # ps) l =
     (let l1 = l\<lparr>l_work_queue := ps\<rparr> in
      bindR (if \<not> ticks_is_null (pt_delayed_run_time p) then Inr (AddToDelayedWorkQueue p l1) else delete_task drops p l1)
        (delete_work drops ps))"

primrec delete_deferred :: "(nat \<Rightarrow> posting list) \<Rightarrow> pending_task list \<Rightarrow> message_loop \<Rightarrow> message_loop res" where
  "delete_deferred drops [] l = Inr l"
| "delete_deferred drops (p # ps) l = bindR (delete_task drops p (l\<lparr>l_deferred_queue := ps\<rparr>)) (delete_deferred drops ps)"

function delete_delayed :: "(nat \<Rightarrow> posting list) \<Rightarrow> pending_task list \<Rightarrow> message_loop \<Rightarrow> message_loop res" where
  "delete_delayed drops q l =
     (if q = [] then Inr l
      else case delete_task drops (pq_top q) (l\<lparr>l_delayed_work_queue := pq_pop q\<rparr>) of
             Inl e \<Rightarrow> Inl e
           | Inr l1 \<Rightarrow> delete_delayed drops (pq_pop q) l1)"
  by pat_completeness auto
termination
  by (relation "measure (\<lambda>(drops, q, l). length q)") auto

declare delete_delayed.simps [simp del]

definition DeletePendingTasks :: "(nat \<Rightarrow> posting list) \<Rightarrow> message_loop \<Rightarrow> (bool \<times> message_loop) res" where
  "DeletePendingTasks drops l =
     bindR (delete_work drops (l_work_queue l) l) (\<lambda>l1.
     bindR (delete_deferred drops (l_deferred_queue l1) l1) (\<lambda>l2.
     bindR (delete_delayed drops (l_delayed_work_queue l2) l2) (\<lambda>l3.
       Inr (l_work_queue l \<noteq> [] \<or> l_deferred_queue l1 \<noteq> [] \<or> l_delayed_work_queue l2 \<noteq> [], l3))))"

primrec destroy_loop :: "(nat \<Rightarrow> posting list) \<Rightarrow> nat \<Rightarrow> bool \<Rightarrow> message_loop \<Rightarrow> (bool \<times> message_loop) res" where
  "destroy_loop drops 0 did_work l = Inr (did_work, l)"
| "destroy_loop drops (Suc n) did_work l =
     bindR (DeletePendingTasks drops l) (\<lambda>(_, l1).
     bindR (ReloadWorkQueue l1) (\<lambda>l2.
     bindR (DeletePendingTasks drops l2) (\<lambda>(did_work, l3).
       if \<not> did_work then Inr (did_work, l3) else destroy_loop drops n did_work l3)))"

text \<open>
  \<open>last_posts\<close> are the posts that the \<open>DestructionObserver\<close>s make when they are told; nothing else
  of them is modelled.  Another thread can post until the proxy has taken its lock: one more
  event happens before \<open>WillDestroyCurrentMessageLoop\<close>.
\<close>

definition delete_MessageLoop :: "(nat \<Rightarrow> posting list) \<Rightarrow> posting list \<Rightarrow> message_loop \<Rightarrow> message_loop res" where
  "delete_MessageLoop drops last_posts l =
     bindR (dcheck (l_run_loop l = None) ''!run_loop_'') (\<lambda>_.
     bindR (destroy_loop drops 100 True l) (\<lambda>(did_work, l1).
     bindR (dcheck (\<not> did_work) ''!did_work'') (\<lambda>_.
     bindR (fold_res post last_posts l1) (\<lambda>l2.
     bindR (next_event l2) (\<lambda>l3.
       Inr (Proxy_WillDestroyCurrentMessageLoop l3))))))"

end
