(* ===== verification/MessageLoopInv.thy ===== *)
theory MessageLoopInv imports MessageLoop begin

text \<open>
  What a message loop guarantees, whatever its tasks and the other threads do: no task is lost or
  run twice, tasks that may run nested start in the order they were posted, none starts before
  its time, those that may not run nested never do, and a loop that waits for ever has nothing left
  to run.
\<close>

section \<open>The invariant\<close>

text \<open>The identity of a task: its number is only given on the way.\<close>

definition ident :: "pending_task \<Rightarrow> pending_task" where
  "ident p = p\<lparr>pt_sequence_num := 0\<rparr>"

definition pending :: "message_loop \<Rightarrow> pending_task list" where
  "pending l = l_work_queue l @ l_incoming_queue l @ l_delayed_work_queue l @ l_deferred_queue l"

definition conserved :: "message_loop \<Rightarrow> bool" where
  "conserved l \<longleftrightarrow> mset (map ident (l_posted l)) =
     mset (map (\<lambda>(p, d, t). ident p) (l_started l)) + mset (map ident (pending l)) + mset (map ident (l_deleted l))"

text \<open>To be run at once and wherever the loop is.\<close>

definition immediate :: "pending_task \<Rightarrow> bool" where
  "immediate p \<longleftrightarrow> pt_nestable p \<and> ticks_is_null (pt_delayed_run_time p)"

definition in_order :: "message_loop \<Rightarrow> bool" where
  "in_order l \<longleftrightarrow> filter immediate (l_posted l) =
     filter immediate (map fst (l_started l)) @ filter immediate (l_work_queue l @ l_incoming_queue l)"

definition well_started :: "message_loop \<Rightarrow> bool" where
  "well_started l \<longleftrightarrow> (\<forall>(p, d, t)\<in>set (l_started l). pt_delayed_run_time p \<le> t \<and> (\<not> pt_nestable p \<longrightarrow> d = 1))"

definition timely :: "message_loop \<Rightarrow> bool" where
  "timely l \<longleftrightarrow> null_ticks \<le> l_clock l \<and> l_recent_time l \<le> l_clock l \<and>
     (\<forall>p\<in>set (l_deferred_queue l). pt_delayed_run_time p \<le> l_clock l)"

definition sorted_out :: "message_loop \<Rightarrow> bool" where
  "sorted_out l \<longleftrightarrow> (\<forall>p\<in>set (l_delayed_work_queue l). \<not> ticks_is_null (pt_delayed_run_time p)) \<and>
     (\<forall>p\<in>set (l_deferred_queue l). \<not> pt_nestable p)"

definition runs_ok :: "message_loop \<Rightarrow> bool" where
  "runs_ok l \<longleftrightarrow> (\<forall>i. l_run_loop l = Some i \<longrightarrow> i < length (l_run_loops l) \<and> 0 < rl_run_depth (l_run_loops l ! i))"

definition loop_inv :: "message_loop \<Rightarrow> bool" where
  "loop_inv l \<longleftrightarrow> l_deleted l = [] \<and> conserved l \<and> in_order l \<and> well_started l \<and> timely l \<and> sorted_out l \<and> runs_ok l"

lemmas inv_defs = loop_inv_def conserved_def in_order_def well_started_def timely_def sorted_out_def runs_ok_def pending_def

lemma ident_simps [simp]: "ident (p\<lparr>pt_sequence_num := n\<rparr>) = ident p"
  by (simp add: ident_def)

text \<open>The stack of runs is as it was, and so is the depth.\<close>

definition frame :: "message_loop \<Rightarrow> message_loop \<Rightarrow> bool" where
  "frame l l' \<longleftrightarrow> l_run_loop l' = l_run_loop l \<and> length (l_run_loops l) \<le> length (l_run_loops l') \<and>
     (\<forall>i<length (l_run_loops l). rl_run_depth (l_run_loops l' ! i) = rl_run_depth (l_run_loops l ! i) \<and>
        rl_previous_run_loop (l_run_loops l' ! i) = rl_previous_run_loop (l_run_loops l ! i))"

lemma frame_refl [simp]: "frame l l"
  by (simp add: frame_def)

lemma frame_trans: "frame l l' \<Longrightarrow> frame l' l'' \<Longrightarrow> frame l l''"
  unfolding frame_def by (metis less_le_trans order_trans)

lemma frame_depth: "frame l l' \<Longrightarrow> loop_inv l \<Longrightarrow> depth_of l' = depth_of l"
  by (auto simp: frame_def depth_of_def inv_defs split: option.split)

lemma frame_depth_pos: "frame l l' \<Longrightarrow> loop_inv l \<Longrightarrow> 0 < depth_of l \<Longrightarrow> 0 < depth_of l'"
  by (simp add: frame_depth)

lemma depth_of_same: "l_run_loop l' = l_run_loop l \<Longrightarrow> l_run_loops l' = l_run_loops l \<Longrightarrow> depth_of l' = depth_of l"
  by (simp add: depth_of_def split: option.split)

lemma depth_of_update [simp]:
  "depth_of (l\<lparr>l_incoming_queue := x1\<rparr>) = depth_of l" "depth_of (l\<lparr>l_work_queue := x2\<rparr>) = depth_of l"
  "depth_of (l\<lparr>l_delayed_work_queue := x3\<rparr>) = depth_of l" "depth_of (l\<lparr>l_deferred_queue := x4\<rparr>) = depth_of l"
  "depth_of (l\<lparr>l_nestable_tasks_allowed := x5\<rparr>) = depth_of l" "depth_of (l\<lparr>l_recent_time := x6\<rparr>) = depth_of l"
  "depth_of (l\<lparr>l_started := x7\<rparr>) = depth_of l" "depth_of (l\<lparr>l_delayed_work_time := x8\<rparr>) = depth_of l"
  "depth_of (l\<lparr>l_next_sequence_num := x9\<rparr>) = depth_of l" "depth_of (l\<lparr>l_keep_running := x10\<rparr>) = depth_of l"
  by (simp_all add: depth_of_def split: option.split)

lemma frame_same: "l_run_loop l' = l_run_loop l \<Longrightarrow> l_run_loops l' = l_run_loops l \<Longrightarrow> frame l l'"
  by (simp add: frame_def)

section \<open>What the parts keep\<close>

lemma inv_post: "loop_inv l \<Longrightarrow> loop_inv (AddToIncomingQueue q l)"
  by (auto simp: inv_defs)

lemma inv_clock:
  assumes "loop_inv l"
  shows "loop_inv (l\<lparr>l_events := es, l_clock := ticks_plus (l_clock l) (TimeDelta (int dt))\<rparr>)"
proof -
  have "x \<le> ticks_plus (l_clock l) (TimeDelta (int dt))" if "x \<le> l_clock l" for x
    using that by (simp add: ticks_plus_def)
  then show ?thesis using assms by (auto simp: inv_defs simp del: time_order_defs)
qed

text \<open>Signalled: where the incoming queue is not empty the event is set.\<close>

definition signalled :: "message_loop \<Rightarrow> bool" where
  "signalled l \<longleftrightarrow> (l_incoming_queue l \<noteq> [] \<longrightarrow> l_event l)"

text \<open>What an event leaves as it was.\<close>

definition quiet :: "message_loop \<Rightarrow> message_loop \<Rightarrow> bool" where
  "quiet l l' \<longleftrightarrow> l_run_loop l' = l_run_loop l \<and> l_run_loops l' = l_run_loops l \<and>
     l_nestable_tasks_allowed l' = l_nestable_tasks_allowed l \<and> l_work_queue l' = l_work_queue l \<and>
     l_delayed_work_queue l' = l_delayed_work_queue l \<and> l_deferred_queue l' = l_deferred_queue l \<and>
     l_recent_time l' = l_recent_time l \<and> l_delayed_work_time l' = l_delayed_work_time l \<and>
     l_keep_running l' = l_keep_running l \<and> (signalled l \<longrightarrow> signalled l')"

lemma quiet_refl [simp]: "quiet l l"
  by (simp add: quiet_def)

lemma quiet_trans: "quiet l l' \<Longrightarrow> quiet l' l'' \<Longrightarrow> quiet l l''"
  by (simp add: quiet_def)

lemma quiet_frame: "quiet l l' \<Longrightarrow> frame l l'"
  by (simp add: quiet_def frame_def)

lemma post_ok:
  assumes "post p l = Inr l'" "loop_inv l"
  shows "loop_inv l' \<and> quiet l l'"
  using assms(1) by (cases rule: post_cases) (use assms(2) inv_post in \<open>auto simp: quiet_def signalled_def\<close>)

lemma next_event_ok:
  assumes "next_event l = Inr l'" "loop_inv l"
  shows "loop_inv l' \<and> quiet l l' \<and> (l_events l = [] \<longrightarrow> l' = l)"
proof -
  have "loop_inv l' \<and> quiet l l'"
    using assms(1)
  proof (rule next_event_rule [where P = "\<lambda>l'. loop_inv l' \<and> quiet l l'"])
    show "loop_inv l \<and> quiet l l" using assms(2) by simp
  next
    fix dt posts es
    show "loop_inv (l\<lparr>l_events := es, l_clock := ticks_plus (l_clock l) (TimeDelta (int dt))\<rparr>) \<and>
      quiet l (l\<lparr>l_events := es, l_clock := ticks_plus (l_clock l) (TimeDelta (int dt))\<rparr>)"
      using inv_clock [OF assms(2)] by (simp add: quiet_def signalled_def)
  next
    fix q l1
    assume "loop_inv l1 \<and> quiet l l1"
    then show "loop_inv (AddToIncomingQueue q l1) \<and> quiet l (AddToIncomingQueue q l1)"
      using inv_post by (auto simp: quiet_def signalled_def)
  qed
  then show ?thesis using assms(1) by (auto simp: next_event_def)
qed

lemma Reload_ok:
  assumes "ReloadWorkQueue l = Inr l'" "loop_inv l"
  shows "loop_inv l' \<and> frame l l' \<and> l_nestable_tasks_allowed l' = l_nestable_tasks_allowed l \<and>
    (l_work_queue l' = [] \<longrightarrow> l_incoming_queue l' = [])"
proof (cases "l_work_queue l = []")
  case False
  then show ?thesis using assms by (simp add: ReloadWorkQueue_def)
next
  case True
  then obtain l1 where l1: "next_event l = Inr l1"
    "l' = (if l_incoming_queue l1 = [] then l1 else l1\<lparr>l_incoming_queue := l_work_queue l1, l_work_queue := l_incoming_queue l1\<rparr>)"
    using assms(1) by (cases "next_event l") (simp_all add: ReloadWorkQueue_def split: if_splits)
  have E: "loop_inv l1" "quiet l l1" using next_event_ok [OF l1(1) assms(2)] by blast+
  then have w: "l_work_queue l1 = []" using True by (simp add: quiet_def)
  have "loop_inv l'" using E(1) w l1(2) by (auto simp: inv_defs)
  then show ?thesis using E w l1(2) by (auto simp: quiet_def frame_def)
qed

section \<open>Statements about outcomes\<close>

text \<open>A loop that waits for ever while tasks may run has none; at the outermost level none is deferred either.\<close>

definition blocked_ok :: "message_loop \<Rightarrow> bool" where
  "blocked_ok l \<longleftrightarrow> loop_inv l \<and> (l_nestable_tasks_allowed l \<longrightarrow>
     l_work_queue l = [] \<and> l_incoming_queue l = [] \<and> l_delayed_work_queue l = [] \<and>
     (depth_of l = 1 \<longrightarrow> l_deferred_queue l = []))"

text \<open>\<open>Q\<close> of the result; the check of \<open>nestable_tasks_allowed_\<close> never fails.\<close>

definition holds :: "('a \<Rightarrow> bool) \<Rightarrow> 'a outcome \<Rightarrow> bool" where
  "holds Q r = (case r of Done x \<Rightarrow> Q x | Blocked l \<Rightarrow> blocked_ok l
     | Broken e \<Rightarrow> e \<noteq> DcheckFailed ''nestable_tasks_allowed_'' | OutOfFuel \<Rightarrow> True)"

lemma holds_simps [simp]:
  "holds Q (Done x) = Q x" "holds Q (Blocked l) = blocked_ok l" "holds Q OutOfFuel"
  "holds Q (Broken e) = (e \<noteq> DcheckFailed ''nestable_tasks_allowed_'')"
  by (simp_all add: holds_def)

lemma holds_bind: "holds P m \<Longrightarrow> (\<And>x. m = Done x \<Longrightarrow> P x \<Longrightarrow> holds Q (f x)) \<Longrightarrow> holds Q (bindO m f)"
  by (cases m) simp_all

lemma holds_mono: "holds P m \<Longrightarrow> (\<And>x. P x \<Longrightarrow> Q x) \<Longrightarrow> holds Q m"
  by (cases m) simp_all

lemma holds_Done: "holds Q r \<Longrightarrow> holds (\<lambda>x. Q x \<and> r = Done x) r"
  by (cases r) simp_all

text \<open>The failures of the parts that run no task.\<close>

definition benign :: "fault \<Rightarrow> bool" where
  "benign e \<longleftrightarrow> e \<noteq> DcheckFailed ''nestable_tasks_allowed_''"

lemma post_benign: "post p l = Inl e \<Longrightarrow> benign e"
  unfolding post_defs CalculateDelayedRuntime_def by (auto simp: benign_def res_simps split: prod.splits if_splits)

lemma fold_post_benign: "fold_res post ps l = Inl e \<Longrightarrow> benign e"
  by (induction ps arbitrary: l) (auto simp: res_simps dest: post_benign)

lemma next_event_benign: "next_event l = Inl e \<Longrightarrow> benign e"
  by (auto simp: next_event_def dest: fold_post_benign split: list.splits)

lemma holds_lift: "(\<And>e. r = Inl e \<Longrightarrow> benign e) \<Longrightarrow> (\<And>x. r = Inr x \<Longrightarrow> Q x) \<Longrightarrow> holds Q (lift_res r)"
  by (cases r) (auto simp: lift_res_def benign_def)

section \<open>Anything that runs closures and keeps the invariant\<close>

text \<open>A task on its way: taken from its queue and neither started nor deferred yet.\<close>

definition in_hand :: "pending_task \<Rightarrow> message_loop \<Rightarrow> bool" where
  "in_hand p l \<longleftrightarrow> loop_inv (l\<lparr>l_work_queue := p # l_work_queue l\<rparr>) \<and> pt_delayed_run_time p \<le> l_clock l"

definition begin_task :: "pending_task \<Rightarrow> message_loop \<Rightarrow> message_loop" where
  "begin_task p l = l\<lparr>l_nestable_tasks_allowed := False, l_started := l_started l @ [(p, depth_of l, l_clock l)]\<rparr>"

lemma begin_in_hand:
  assumes "in_hand p l" "pt_nestable p \<or> depth_of l = 1"
  shows "loop_inv (begin_task p l)"
  using assms by (auto simp: in_hand_def begin_task_def inv_defs)

lemma begin_deferred:
  assumes "loop_inv l" "l_deferred_queue l = p # ps" "depth_of l = 1"
  shows "loop_inv (begin_task p (l\<lparr>l_deferred_queue := ps\<rparr>))"
  using assms by (auto simp: begin_task_def inv_defs immediate_def)

lemma defer_in_hand:
  assumes "in_hand p l" "\<not> pt_nestable p"
  shows "loop_inv (l\<lparr>l_deferred_queue := l_deferred_queue l @ [p]\<rparr>)"
  using assms by (auto simp: in_hand_def inv_defs immediate_def)

lemma delay_in_hand:
  assumes "loop_inv (l\<lparr>l_work_queue := p # l_work_queue l\<rparr>)" "\<not> ticks_is_null (pt_delayed_run_time p)"
  shows "loop_inv (AddToDelayedWorkQueue p l)"
  using assms by (auto simp: AddToDelayedWorkQueue_def pq_push_def inv_defs immediate_def)

lemma pop_in_hand:
  assumes "loop_inv l" "l_delayed_work_queue l \<noteq> []" "pt_delayed_run_time (pq_top (l_delayed_work_queue l)) \<le> l_clock l"
  shows "in_hand (pq_top (l_delayed_work_queue l)) (l\<lparr>l_delayed_work_queue := pq_pop (l_delayed_work_queue l)\<rparr>)"
proof -
  let ?q = "l_delayed_work_queue l"
  have "mset (map ident ?q) = add_mset (ident (pq_top ?q)) (mset (map ident (pq_pop ?q)))"
    using pq_pop_mset [OF assms(2)] by simp
  moreover have "\<not> ticks_is_null (pt_delayed_run_time (pq_top ?q))"
    using assms(1) pq_top_in [OF assms(2)] by (simp add: inv_defs)
  ultimately show ?thesis using assms pq_pop_subset [of ?q]
    by (auto simp: in_hand_def inv_defs immediate_def)
qed

text \<open>The outer loop of \<open>DoWork\<close>, by what each pass keeps.\<close>

lemma DoWork_loop_rule:
  assumes "P l"
    and "\<And>l l1. P l \<Longrightarrow> ReloadWorkQueue l = Inr l1 \<Longrightarrow> P l1 \<and> (l_work_queue l1 = [] \<longrightarrow> signalled l1)"
    and "\<And>l. P l \<Longrightarrow> holds (\<lambda>(did, l'). P l') (work_pass run (l_work_queue l) l)"
  shows "holds (\<lambda>(did, l'). P l' \<and> (\<not> did \<longrightarrow> l_work_queue l' = [] \<and> signalled l')) (DoWork_loop run l)"
  using assms
proof (induction run l rule: DoWork_loop.induct)
  case (1 run l)
  show ?case
  proof (cases "ReloadWorkQueue l")
    case (Inl e)
    then have "next_event l = Inl e" by (auto simp: ReloadWorkQueue_def res_simps split: if_splits)
    then show ?thesis using Inl next_event_benign by (simp add: DoWork_loop.simps [of run l] benign_def)
  next
    case (Inr l1)
    note l1 = "1.prems"(2) [OF "1.prems"(1) Inr]
    show ?thesis
    proof (cases "l_work_queue l1 = []")
      case True
      then show ?thesis using Inr l1 by (simp add: DoWork_loop.simps [of run l])
    next
      case False
      have pass: "holds (\<lambda>(did, l'). P l') (work_pass run (l_work_queue l1) l1)" using "1.prems"(3) l1 by blast
      show ?thesis
      proof (cases "work_pass run (l_work_queue l1) l1")
        case (Done x)
        then obtain did l2 where x: "work_pass run (l_work_queue l1) l1 = Done (did, l2)" by (cases x) auto
        then have "P l2" using pass by simp
        then show ?thesis using "1.IH" [OF Inr False x refl _ _ "1.prems"(2,3)] False Inr x
          by (cases did) (simp_all add: DoWork_loop.simps [of run l])
      qed (use pass False Inr in \<open>simp_all add: DoWork_loop.simps [of run l]\<close>)
    qed
  qed
qed

locale closure_runner =
  fixes run :: runner
  assumes run_ok: "loop_inv l \<Longrightarrow> 0 < depth_of l \<Longrightarrow> holds (\<lambda>l'. loop_inv l' \<and> frame l l') (run t l)"
begin

lemma RunTask_ok:
  assumes "loop_inv (begin_task p l)" "l_nestable_tasks_allowed l" "0 < depth_of l"
  shows "holds (\<lambda>l'. loop_inv l' \<and> frame l l' \<and> l_nestable_tasks_allowed l') (RunTask run p l)"
proof -
  have d: "0 < depth_of (begin_task p l)" using assms(3) by (simp add: begin_task_def)
  have "holds (\<lambda>l'. loop_inv l' \<and> frame (begin_task p l) l') (run (pt_task p) (begin_task p l))"
    by (rule run_ok [OF assms(1) d])
  then show ?thesis using assms(2) unfolding RunTask_def begin_task_def [symmetric]
    by (auto simp: lift_res_def elim!: holds_bind simp: inv_defs frame_def begin_task_def)
qed

lemma DeferOrRun_ok:
  assumes "in_hand p l" "l_nestable_tasks_allowed l" "0 < depth_of l"
  shows "holds (\<lambda>(did, l'). loop_inv l' \<and> frame l l' \<and> l_nestable_tasks_allowed l') (DeferOrRunPendingTask run p l)"
proof -
  obtain i where i: "l_run_loop l = Some i" using assms(3) by (auto simp: depth_of_def split: option.splits)
  show ?thesis
  proof (cases "pt_nestable p \<or> depth_of l = 1")
    case True
    then have "DeferOrRunPendingTask run p l = bindO (RunTask run p l) (\<lambda>l1. Done (True, l1))"
      using i by (auto simp: DeferOrRunPendingTask_def run_depth_def lift_res_def depth_of_def)
    then show ?thesis using RunTask_ok [OF begin_in_hand [OF assms(1) True] assms(2,3)] by (auto elim: holds_bind)
  next
    case False
    then have "DeferOrRunPendingTask run p l = Done (False, l\<lparr>l_deferred_queue := l_deferred_queue l @ [p]\<rparr>)"
      using i by (auto simp: DeferOrRunPendingTask_def run_depth_def lift_res_def depth_of_def)
    then show ?thesis using defer_in_hand [OF assms(1)] False assms(2) by (simp add: frame_same)
  qed
qed

lemma work_pass_ok:
  assumes "loop_inv l" "l_nestable_tasks_allowed l" "0 < depth_of l" "l_work_queue l = ps"
  shows "holds (\<lambda>(did, l'). loop_inv l' \<and> frame l l' \<and> l_nestable_tasks_allowed l') (work_pass run ps l)"
  using assms
proof (induction ps arbitrary: l)
  case (Cons p ps)
  let ?l1 = "l\<lparr>l_work_queue := ps\<rparr>"
  have l: "loop_inv (?l1\<lparr>l_work_queue := p # l_work_queue ?l1\<rparr>)" using Cons.prems(1) Cons.prems(4) [symmetric] by simp
  show ?case
  proof (cases "ticks_is_null (pt_delayed_run_time p)")
    case False
    let ?l2 = "AddToDelayedWorkQueue p ?l1"
    let ?l3 = "if pt_task (pq_top (l_delayed_work_queue ?l2)) = pt_task p
      then Pump_ScheduleDelayedWork (pt_delayed_run_time p) ?l2 else ?l2"
    have inv: "loop_inv ?l2" by (rule delay_in_hand [OF l False])
    then have inv3: "loop_inv ?l3" by (auto simp: Pump_ScheduleDelayedWork_def inv_defs)
    have same: "l_run_loop ?l3 = l_run_loop l" "l_run_loops ?l3 = l_run_loops l" "l_work_queue ?l3 = ps"
      "l_nestable_tasks_allowed ?l3 = l_nestable_tasks_allowed l"
      by (simp_all add: AddToDelayedWorkQueue_def Pump_ScheduleDelayedWork_def)
    have "holds (\<lambda>(did, l'). loop_inv l' \<and> frame ?l3 l' \<and> l_nestable_tasks_allowed l') (work_pass run ps ?l3)"
      by (rule Cons.IH) (use inv3 same depth_of_same [OF same(1,2)] Cons.prems in simp_all)
    then show ?thesis using False frame_trans [OF frame_same [OF same(1,2)]]
      by (auto simp: Let_def elim!: holds_mono)
  next
    case True
    have "pt_delayed_run_time p \<le> l_clock l"
      using True Cons.prems(1) by (simp add: inv_defs ticks_is_null_def null_ticks_def)
    then have h: "in_hand p ?l1" using l by (simp add: in_hand_def)
    have "holds (\<lambda>(did, l'). loop_inv l' \<and> frame ?l1 l' \<and> l_nestable_tasks_allowed l') (DeferOrRunPendingTask run p ?l1)"
      by (rule DeferOrRun_ok [OF h]) (use Cons.prems in simp_all)
    then have "holds (\<lambda>(did, l'). loop_inv l' \<and> frame l l' \<and> l_nestable_tasks_allowed l') (bindO (DeferOrRunPendingTask run p ?l1)
        (\<lambda>(did, l2). if did then Done (True, l2) else work_pass run ps l2))"
    proof (rule holds_bind, clarify)
      fix did l2
      assume D: "DeferOrRunPendingTask run p ?l1 = Done (did, l2)" and
        A: "loop_inv l2" "frame ?l1 l2" "l_nestable_tasks_allowed l2"
      have fr: "frame l l2" using A(2) by (simp add: frame_def)
      show "holds (\<lambda>(did, l'). loop_inv l' \<and> frame l l' \<and> l_nestable_tasks_allowed l')
          (if did then Done (True, l2) else work_pass run ps l2)"
      proof (cases did)
        case False
        with D have "l_work_queue l2 = ps" "depth_of l2 = depth_of l"
          using DeferOrRunPendingTask_False frame_depth [OF fr Cons.prems(1)] by fastforce+
        then have "holds (\<lambda>(did, l'). loop_inv l' \<and> frame l2 l' \<and> l_nestable_tasks_allowed l') (work_pass run ps l2)"
          using Cons.IH A Cons.prems(3) by simp
        then show ?thesis using False frame_trans [OF fr] by (auto elim: holds_mono)
      qed (use A fr in simp)
    qed
    then show ?thesis using True by (simp add: Let_def)
  qed
qed simp

lemma DoWork_loop_ok:
  assumes "loop_inv l" "l_nestable_tasks_allowed l" "0 < depth_of l"
  shows "holds (\<lambda>(did, l'). loop_inv l' \<and> frame l l' \<and> l_nestable_tasks_allowed l' \<and>
    (\<not> did \<longrightarrow> l_work_queue l' = [] \<and> signalled l')) (DoWork_loop run l)"
  using assms
proof -
  let ?P = "\<lambda>l'. loop_inv l' \<and> frame l l' \<and> l_nestable_tasks_allowed l'"
  have "holds (\<lambda>(did, l'). ?P l' \<and> (\<not> did \<longrightarrow> l_work_queue l' = [] \<and> signalled l')) (DoWork_loop run l)"
  proof (rule DoWork_loop_rule [where P = ?P])
    show "?P l" using assms by simp
  next
    fix l1 l2
    assume P: "?P l1" and R: "ReloadWorkQueue l1 = Inr l2"
    with Reload_ok [OF R] show "?P l2 \<and> (l_work_queue l2 = [] \<longrightarrow> signalled l2)"
      by (auto simp: signalled_def intro: frame_trans)
  next
    fix l1
    assume P: "?P l1"
    then have "0 < depth_of l1" using frame_depth_pos assms(1,3) by blast
    with P show "holds (\<lambda>(did, l'). ?P l') (work_pass run (l_work_queue l1) l1)"
      using work_pass_ok [of l1 "l_work_queue l1"] frame_trans by (auto elim!: holds_mono)
  qed
  then show ?thesis by (rule holds_mono) auto
qed

lemma DoWork_ok:
  assumes "loop_inv l" "0 < depth_of l"
  shows "holds (\<lambda>(did, l'). loop_inv l' \<and> frame l l' \<and> l_nestable_tasks_allowed l' = l_nestable_tasks_allowed l \<and>
    (l_nestable_tasks_allowed l \<and> \<not> did \<longrightarrow> l_work_queue l' = [] \<and> signalled l')) (DoWork run l)"
  using assms DoWork_loop_ok [OF assms(1) _ assms(2)] by (auto simp: DoWork_def elim!: holds_mono)

text \<open>Where no delayed task was run and none is left, the pump is told to wait without a limit, and only then.\<close>

lemma DoDelayedWork_ok:
  assumes "loop_inv l" "0 < depth_of l"
  shows "holds (\<lambda>(did, l'). loop_inv l' \<and> frame l l' \<and> l_nestable_tasks_allowed l' = l_nestable_tasks_allowed l \<and>
    (l_nestable_tasks_allowed l \<and> \<not> did \<and> l_work_queue l = [] \<and> signalled l \<longrightarrow> l_work_queue l' = [] \<and> signalled l' \<and>
       (ticks_is_null (l_delayed_work_time l') \<longrightarrow> l_delayed_work_queue l' = []))) (DoDelayedWork run l)"
proof (cases "\<not> l_nestable_tasks_allowed l \<or> l_delayed_work_queue l = []")
  case True
  have "loop_inv (l\<lparr>l_recent_time := null_ticks, l_delayed_work_time := null_ticks\<rparr>)"
    using assms(1) by (auto simp: inv_defs)
  then show ?thesis using True by (auto simp: DoDelayedWork_def frame_def signalled_def)
next
  case False
  then have allowed: "l_nestable_tasks_allowed l" by simp
  let ?t = "pt_delayed_run_time (pq_top (l_delayed_work_queue l))"
  let ?P = "\<lambda>l1. loop_inv l1 \<and> frame l l1 \<and> l_nestable_tasks_allowed l1 \<and> l_delayed_work_queue l1 = l_delayed_work_queue l \<and>
    (l_work_queue l = [] \<and> signalled l \<longrightarrow> l_work_queue l1 = [] \<and> signalled l1)"
  have now: "holds ?P (if ?t > l_recent_time l
      then lift_res (bindR (Now l) (\<lambda>(now, l1). Inr (l1\<lparr>l_recent_time := now\<rparr>))) else Done l)"
  proof (cases "?t > l_recent_time l")
    case True
    have "holds ?P (lift_res (bindR (Now l) (\<lambda>(now, l1). Inr (l1\<lparr>l_recent_time := now\<rparr>))))"
    proof (rule holds_lift)
      fix e
      assume "bindR (Now l) (\<lambda>(now, l1). Inr (l1\<lparr>l_recent_time := now\<rparr>)) = Inl e"
      then show "benign e" using next_event_benign by (auto simp: Now_def res_simps)
    next
      fix x
      assume "bindR (Now l) (\<lambda>(now, l1). Inr (l1\<lparr>l_recent_time := now\<rparr>)) = Inr x"
      then obtain l1 where l1: "next_event l = Inr l1" "x = l1\<lparr>l_recent_time := l_clock l1\<rparr>"
        by (auto simp: Now_def res_simps)
      then have E: "loop_inv l1" "quiet l l1" using next_event_ok assms(1) by blast+
      have "loop_inv x" using E(1) l1(2) by (auto simp: inv_defs)
      then show "?P x" using E(2) l1(2) False by (auto simp: quiet_def frame_def signalled_def)
    qed
    then show ?thesis using True by simp
  qed (use assms(1) False in simp)
  let ?Q = "\<lambda>(did, l'). loop_inv l' \<and> frame l l' \<and> l_nestable_tasks_allowed l' = l_nestable_tasks_allowed l \<and>
    (l_nestable_tasks_allowed l \<and> \<not> did \<and> l_work_queue l = [] \<and> signalled l \<longrightarrow> l_work_queue l' = [] \<and> signalled l' \<and>
       (ticks_is_null (l_delayed_work_time l') \<longrightarrow> l_delayed_work_queue l' = []))"
  have rest: "holds ?Q (if ?t > l_recent_time l1 then Done (False, l1\<lparr>l_delayed_work_time := ?t\<rparr>)
      else let pending_task = pq_top (l_delayed_work_queue l1);
               l2 = l1\<lparr>l_delayed_work_queue := pq_pop (l_delayed_work_queue l1)\<rparr>;
               l3 = (if l_delayed_work_queue l2 \<noteq> []
                     then l2\<lparr>l_delayed_work_time := pt_delayed_run_time (pq_top (l_delayed_work_queue l2))\<rparr> else l2)
           in DeferOrRunPendingTask run pending_task l3)" if P: "?P l1" for l1
  proof -
    have q: "l_delayed_work_queue l1 = l_delayed_work_queue l" "l_delayed_work_queue l1 \<noteq> []" using P False by simp_all
    have nonnull: "\<not> ticks_is_null (pt_delayed_run_time x)" if "x \<in> set (l_delayed_work_queue l1)" for x
      using P that by (simp add: inv_defs)
    have d1: "0 < depth_of l1" using frame_depth_pos P assms by blast
    show ?thesis
    proof (cases "?t > l_recent_time l1")
      case True
      have "loop_inv (l1\<lparr>l_delayed_work_time := ?t\<rparr>)" using P by (auto simp: inv_defs)
      then show ?thesis using True P False nonnull [of "pq_top (l_delayed_work_queue l1)"] q
        by (auto simp: frame_def signalled_def simp del: time_order_defs)
    next
      case False
      let ?p = "pq_top (l_delayed_work_queue l1)" and ?q1 = "pq_pop (l_delayed_work_queue l1)"
      let ?l2 = "l1\<lparr>l_delayed_work_queue := ?q1\<rparr>"
      define l3 where "l3 = (if ?q1 \<noteq> [] then ?l2\<lparr>l_delayed_work_time := pt_delayed_run_time (pq_top ?q1)\<rparr> else ?l2)"
      have "pt_delayed_run_time ?p \<le> l_clock l1" using False P q(1) by (auto simp: inv_defs)
      then have "in_hand ?p ?l2" using pop_in_hand [OF _ q(2)] P by blast
      then have h3: "in_hand ?p l3" by (auto simp: in_hand_def inv_defs l3_def)
      have fr3: "frame l l3" and al3: "l_nestable_tasks_allowed l3" and d3: "0 < depth_of l3"
        using P d1 by (simp_all add: l3_def frame_def)
      have same: "l_work_queue l3 = l_work_queue l1" "signalled l1 \<longrightarrow> signalled l3"
        by (simp_all add: l3_def signalled_def)
      have null: "ticks_is_null (l_delayed_work_time l3) \<longrightarrow> l_delayed_work_queue l3 = []"
        using nonnull [OF subsetD [OF pq_pop_subset pq_top_in]] by (simp add: l3_def)
      have "holds ?Q (DeferOrRunPendingTask run ?p l3)"
      proof (rule holds_mono [OF holds_Done [OF DeferOrRun_ok [OF h3 al3 d3]]])
        fix x
        assume x: "(case x of (did, l') \<Rightarrow> loop_inv l' \<and> frame l3 l' \<and> l_nestable_tasks_allowed l') \<and>
          DeferOrRunPendingTask run ?p l3 = Done x"
        obtain did l' where dl: "x = (did, l')" by (cases x)
        have D: "DeferOrRunPendingTask run ?p l3 = Done (did, l')" and
          A: "loop_inv l'" "frame l3 l'" "l_nestable_tasks_allowed l'" using x dl by simp_all
        have "\<not> did \<longrightarrow> l' = l3\<lparr>l_deferred_queue := l_deferred_queue l3 @ [?p]\<rparr>"
          using DeferOrRunPendingTask_False D by (cases did) fastforce+
        then show "?Q x" unfolding dl
          using A frame_trans [OF fr3 A(2)] P null same allowed by (auto simp: signalled_def)
      qed
      moreover have "(let pending_task = pq_top (l_delayed_work_queue l1); l2 = l1\<lparr>l_delayed_work_queue := pq_pop (l_delayed_work_queue l1)\<rparr>;
          l3 = (if l_delayed_work_queue l2 \<noteq> []
                then l2\<lparr>l_delayed_work_time := pt_delayed_run_time (pq_top (l_delayed_work_queue l2))\<rparr> else l2)
          in DeferOrRunPendingTask run pending_task l3) = DeferOrRunPendingTask run ?p l3"
        by (simp add: Let_def l3_def)
      ultimately show ?thesis unfolding if_not_P [OF False] by (simp only:)
    qed
  qed
  show ?thesis
    unfolding DoDelayedWork_def using False by (simp only: if_False Let_def) (rule holds_bind [OF now rest [unfolded Let_def]])
qed

lemma DoIdleWork_ok:
  assumes "loop_inv l" "0 < depth_of l" "depth_of l = 1 \<longrightarrow> l_nestable_tasks_allowed l"
  shows "holds (\<lambda>(did, l'). loop_inv l' \<and> frame l l' \<and> l_nestable_tasks_allowed l' = l_nestable_tasks_allowed l \<and>
    (\<not> did \<longrightarrow> (\<exists>k. l' = l\<lparr>l_keep_running := k\<rparr>) \<and> (depth_of l = 1 \<longrightarrow> l_deferred_queue l = []))) (DoIdleWork run l)"
proof -
  obtain i where i: "l_run_loop l = Some i" "rl_run_depth (l_run_loops l ! i) = depth_of l"
    using assms(2) by (auto simp: depth_of_def split: option.splits)
  have idle: "holds (\<lambda>(did, l'). loop_inv l' \<and> frame l l' \<and> l_nestable_tasks_allowed l' = l_nestable_tasks_allowed l \<and>
    (\<not> did \<longrightarrow> l' = l \<and> (depth_of l = 1 \<longrightarrow> l_deferred_queue l = []))) (ProcessNextDelayedNonNestableTask run l)"
  proof (cases "depth_of l = 1 \<and> l_deferred_queue l \<noteq> []")
    case False
    then show ?thesis using i assms(1)
      by (auto simp: ProcessNextDelayedNonNestableTask_def run_depth_def lift_res_def split: list.split)
  next
    case True
    then obtain p ps where p: "l_deferred_queue l = p # ps" by (cases "l_deferred_queue l") auto
    let ?l1 = "l\<lparr>l_deferred_queue := ps\<rparr>"
    have "holds (\<lambda>l'. loop_inv l' \<and> frame ?l1 l' \<and> l_nestable_tasks_allowed l') (RunTask run p ?l1)"
      by (rule RunTask_ok) (use begin_deferred [OF assms(1) p] True assms(3) in simp_all)
    then have "holds (\<lambda>(did, l'). loop_inv l' \<and> frame l l' \<and> l_nestable_tasks_allowed l' \<and> did)
        (bindO (RunTask run p ?l1) (\<lambda>l1. Done (True, l1)))"
      by (rule holds_bind) (simp add: frame_def)
    moreover have "ProcessNextDelayedNonNestableTask run l = bindO (RunTask run p ?l1) (\<lambda>l1. Done (True, l1))"
      using True i p by (simp add: ProcessNextDelayedNonNestableTask_def run_depth_def lift_res_def)
    ultimately show ?thesis using True assms(3) by (auto elim!: holds_mono)
  qed
  show ?thesis
    unfolding DoIdleWork_def
  proof (rule holds_bind [OF idle], clarify)
    fix did l1
    assume A: "loop_inv l1" "frame l l1" "l_nestable_tasks_allowed l1 = l_nestable_tasks_allowed l"
      "\<not> did \<longrightarrow> l1 = l \<and> (depth_of l = 1 \<longrightarrow> l_deferred_queue l = [])"
    have "loop_inv (Pump_Quit l1)" using A(1) by (auto simp: Pump_Quit_def inv_defs)
    then show "holds (\<lambda>(did, l'). loop_inv l' \<and> frame l l' \<and> l_nestable_tasks_allowed l' = l_nestable_tasks_allowed l \<and>
        (\<not> did \<longrightarrow> (\<exists>k. l' = l\<lparr>l_keep_running := k\<rparr>) \<and> (depth_of l = 1 \<longrightarrow> l_deferred_queue l = [])))
        (if did then Done (True, l1)
         else case l_run_loop l1 of None \<Rightarrow> Broken (NullDeref ''run_loop_'')
           | Some i \<Rightarrow> Done (False, if rl_quit_when_idle_received (l_run_loops l1 ! i) then Pump_Quit l1 else l1))"
    proof (cases did)
      case False
      then have l1: "l1 = l" "depth_of l = 1 \<longrightarrow> l_deferred_queue l = []" using A(4) by simp_all
      have "\<exists>k. Pump_Quit l = l\<lparr>l_keep_running := k\<rparr>" "\<exists>k. l = l\<lparr>l_keep_running := k\<rparr>"
        by (rule exI [of _ False], simp add: Pump_Quit_def, rule exI [of _ "l_keep_running l"], simp)
      moreover have "loop_inv (Pump_Quit l)" "frame l (Pump_Quit l)"
        "l_nestable_tasks_allowed (Pump_Quit l) = l_nestable_tasks_allowed l"
        using \<open>loop_inv (Pump_Quit l1)\<close> l1(1) by (simp_all add: Pump_Quit_def frame_def)
      ultimately show ?thesis using False i l1 A(1) by simp
    qed (use A in simp)
  qed
qed

end

section \<open>Waiting\<close>

lemma Event_Wait_ok:
  assumes "loop_inv l" "l_nestable_tasks_allowed l \<longrightarrow> l_work_queue l = [] \<and> signalled l \<and> l_delayed_work_queue l = []"
    "l_nestable_tasks_allowed l \<longrightarrow> depth_of l = 1 \<longrightarrow> l_deferred_queue l = []"
  shows "holds (\<lambda>l'. loop_inv l' \<and> frame l l' \<and> l_nestable_tasks_allowed l' = l_nestable_tasks_allowed l) (Event_Wait l)"
  using assms
proof (induction l rule: Event_Wait.induct)
  case (1 l)
  have off: "loop_inv (l\<lparr>l_event := False\<rparr>)" using "1.prems"(1) by (auto simp: inv_defs)
  consider "l_event l" | "\<not> l_event l" "l_events l = []" | "\<not> l_event l" "l_events l \<noteq> []" by blast
  then show ?case
  proof cases
    case 1
    then show ?thesis using off by (simp add: Event_Wait.simps [of l] frame_def)
  next
    case 2
    then show ?thesis using "1.prems" by (auto simp: Event_Wait.simps [of l] blocked_ok_def signalled_def)
  next
    case 3
    show ?thesis
    proof (cases "next_event l")
      case (Inl e)
      then show ?thesis using 3 next_event_benign [OF Inl] by (simp add: Event_Wait.simps [of l] benign_def)
    next
      case (Inr l1)
      then have E: "loop_inv l1" "quiet l l1" using next_event_ok "1.prems"(1) by blast+
      then have d: "depth_of l1 = depth_of l" by (intro depth_of_same) (simp_all add: quiet_def)
      have Q: "l_nestable_tasks_allowed l1 = l_nestable_tasks_allowed l" "l_work_queue l1 = l_work_queue l"
        "l_delayed_work_queue l1 = l_delayed_work_queue l" "l_deferred_queue l1 = l_deferred_queue l"
        and sig: "signalled l \<Longrightarrow> signalled l1" using E(2) by (simp_all add: quiet_def)
      have "holds (\<lambda>l'. loop_inv l' \<and> frame l1 l' \<and> l_nestable_tasks_allowed l' = l_nestable_tasks_allowed l1) (Event_Wait l1)"
      proof (rule "1.IH" [OF 3 Inr E(1)])
        show "l_nestable_tasks_allowed l1 \<longrightarrow> l_work_queue l1 = [] \<and> signalled l1 \<and> l_delayed_work_queue l1 = []"
          using Q sig "1.prems"(2) by simp
        show "l_nestable_tasks_allowed l1 \<longrightarrow> depth_of l1 = 1 \<longrightarrow> l_deferred_queue l1 = []"
          using Q d "1.prems"(3) by simp
      qed
      then have "holds (\<lambda>l'. loop_inv l' \<and> frame l l' \<and> l_nestable_tasks_allowed l' = l_nestable_tasks_allowed l) (Event_Wait l1)"
        by (rule holds_mono) (use Q(1) frame_trans [OF quiet_frame [OF E(2)]] in auto)
      then show ?thesis using 3 Inr by (simp add: Event_Wait.simps [of l])
    qed
  qed
qed

lemma Event_TimedWait_ok:
  assumes "loop_inv l"
  shows "holds (\<lambda>l'. loop_inv l' \<and> frame l l' \<and> l_nestable_tasks_allowed l' = l_nestable_tasks_allowed l) (Event_TimedWait delay l)"
  using assms
proof (induction delay l rule: Event_TimedWait.induct)
  case (1 delay l)
  have off: "loop_inv (l\<lparr>l_event := False\<rparr>)" using "1.prems"(1) by (auto simp: inv_defs)
  note later = inv_clock [OF "1.prems", of delay]
  have last: "loop_inv (l\<lparr>l_clock := ticks_plus (l_clock l) (TimeDelta (int delay))\<rparr>)"
    using later [of "l_events l"] by simp
  show ?case
  proof (cases "l_event l")
    case True
    then show ?thesis using off by (simp add: Event_TimedWait.simps [of delay l] frame_def)
  next
    case False
    show ?thesis
    proof (cases "l_events l")
      case Nil
      then show ?thesis using False last by (simp add: Event_TimedWait.simps [of delay l] frame_def)
    next
      case (Cons e es)
      obtain dt posts where e: "e = (dt, posts)" by (cases e)
      show ?thesis
      proof (cases "delay \<le> dt")
        case True
        then show ?thesis using False Cons e later by (simp add: Event_TimedWait.simps [of delay l] frame_def)
      next
        case long: False
        show ?thesis
        proof (cases "next_event l")
          case (Inl x)
          then show ?thesis using False Cons e long next_event_benign [OF Inl]
            by (simp add: Event_TimedWait.simps [of delay l] benign_def)
        next
          case (Inr l1)
          then have E: "loop_inv l1" "quiet l l1" using next_event_ok "1.prems" by blast+
          have "holds (\<lambda>l'. loop_inv l' \<and> frame l1 l' \<and> l_nestable_tasks_allowed l' = l_nestable_tasks_allowed l1)
              (Event_TimedWait (delay - dt) l1)"
            by (rule "1.IH" [OF False Cons e [symmetric] _ Inr E(1)]) (use long in simp_all)
          moreover have "Event_TimedWait delay l = Event_TimedWait (delay - dt) l1"
            using False Cons e long Inr by (simp add: Event_TimedWait.simps [of delay l])
          moreover have "l_nestable_tasks_allowed l1 = l_nestable_tasks_allowed l" using E(2) by (simp add: quiet_def)
          ultimately show ?thesis using frame_trans [OF quiet_frame [OF E(2)]] by (auto elim!: holds_mono)
        qed
      qed
    qed
  qed
qed

lemma Pump_wait_ok:
  assumes "loop_inv l" "l_nestable_tasks_allowed l \<longrightarrow> l_work_queue l = [] \<and> signalled l \<and>
      (ticks_is_null (l_delayed_work_time l) \<longrightarrow> l_delayed_work_queue l = [])"
    "l_nestable_tasks_allowed l \<longrightarrow> depth_of l = 1 \<longrightarrow> l_deferred_queue l = []"
  shows "holds (\<lambda>l'. loop_inv l' \<and> frame l l' \<and> l_nestable_tasks_allowed l' = l_nestable_tasks_allowed l) (Pump_wait l)"
proof (cases "ticks_is_null (l_delayed_work_time l)")
  case True
  then show ?thesis using assms Event_Wait_ok [of l] by (simp add: Pump_wait_def)
next
  case False
  have now: "holds (\<lambda>(now, l1). loop_inv l1 \<and> quiet l l1) (lift_res (Now l))"
    using next_event_ok [OF _ assms(1)] next_event_benign by (intro holds_lift) (fastforce simp: Now_def res_simps)+
  have "holds (\<lambda>l'. loop_inv l' \<and> frame l l' \<and> l_nestable_tasks_allowed l' = l_nestable_tasks_allowed l)
      (bindO (lift_res (Now l)) (\<lambda>(now, l1).
        let delay = ticks_diff (l_delayed_work_time l1) now in
        if delay > TimeDelta 0 then Event_TimedWait (nat (delta_us delay)) l1
        else Done (l1\<lparr>l_delayed_work_time := null_ticks\<rparr>)))"
  proof (rule holds_bind [OF now], clarify)
    fix now l1
    assume A: "loop_inv l1" "quiet l l1"
    have "loop_inv (l1\<lparr>l_delayed_work_time := null_ticks\<rparr>)" using A(1) by (auto simp: inv_defs)
    then show "holds (\<lambda>l'. loop_inv l' \<and> frame l l' \<and> l_nestable_tasks_allowed l' = l_nestable_tasks_allowed l)
      (let delay = ticks_diff (l_delayed_work_time l1) now in
        if delay > TimeDelta 0 then Event_TimedWait (nat (delta_us delay)) l1
        else Done (l1\<lparr>l_delayed_work_time := null_ticks\<rparr>))"
      using Event_TimedWait_ok [OF A(1)] A(2) frame_trans [OF quiet_frame [OF A(2)]]
      by (auto simp: Let_def quiet_def frame_def elim!: holds_mono)
  qed
  then show ?thesis using False by (simp add: Pump_wait_def)
qed

section \<open>The pump and the runs\<close>

context closure_runner begin

lemma pump_loop_ok:
  assumes "loop_inv l" "0 < depth_of l" "depth_of l = 1 \<longrightarrow> l_nestable_tasks_allowed l"
  shows "holds (\<lambda>l'. loop_inv l' \<and> frame l l' \<and> l_nestable_tasks_allowed l' = l_nestable_tasks_allowed l) (pump_loop run n l)"
  using assms
proof (induction n arbitrary: l)
  case (Suc n)
  let ?K = "\<lambda>l'. loop_inv l' \<and> frame l l' \<and> l_nestable_tasks_allowed l' = l_nestable_tasks_allowed l"
  have again: "holds ?K (pump_loop run n l')" if K: "?K l'" for l'
  proof -
    have "depth_of l' = depth_of l" using frame_depth K Suc.prems(1) by blast
    then have "holds (\<lambda>l''. loop_inv l'' \<and> frame l' l'' \<and> l_nestable_tasks_allowed l'' = l_nestable_tasks_allowed l') (pump_loop run n l')"
      using Suc.IH [of l'] K Suc.prems by simp
    then show ?thesis using K frame_trans by (auto elim!: holds_mono)
  qed
  let ?W = "\<lambda>(work, l1). ?K l1 \<and> (l_nestable_tasks_allowed l \<and> \<not> work \<longrightarrow> l_work_queue l1 = [] \<and> signalled l1)"
  have W: "holds ?W (DoWork run l)" using DoWork_ok [OF Suc.prems(1,2)] by (rule holds_mono) auto
  have D: "holds (\<lambda>(delayed, l2). ?K l2 \<and> (l_nestable_tasks_allowed l \<and> \<not> delayed \<and> \<not> work \<longrightarrow>
      l_work_queue l2 = [] \<and> signalled l2 \<and> (ticks_is_null (l_delayed_work_time l2) \<longrightarrow> l_delayed_work_queue l2 = [])))
      (DoDelayedWork run l1)" if "?W (work, l1)" for work l1
  proof -
    have "0 < depth_of l1" using frame_depth_pos Suc.prems that by blast
    then show ?thesis using DoDelayedWork_ok [of l1] that frame_trans [of l l1] by (auto elim!: holds_mono)
  qed
  have I: "holds (\<lambda>(idle, l3). ?K l3 \<and> (\<not> idle \<longrightarrow> (\<exists>k. l3 = l2\<lparr>l_keep_running := k\<rparr>) \<and>
      (depth_of l = 1 \<longrightarrow> l_deferred_queue l3 = []))) (DoIdleWork run l2)" if "?K l2" for l2
  proof -
    have d: "depth_of l2 = depth_of l" using frame_depth that Suc.prems(1) by blast
    then show ?thesis using DoIdleWork_ok [of l2] that Suc.prems frame_trans [of l l2] by (auto elim!: holds_mono)
  qed
  have wait: "holds ?K (bindO (Pump_wait l3) (pump_loop run n))"
    if K: "?K l3" and "l_nestable_tasks_allowed l \<longrightarrow> l_work_queue l3 = [] \<and> signalled l3 \<and>
      (ticks_is_null (l_delayed_work_time l3) \<longrightarrow> l_delayed_work_queue l3 = [])"
      "depth_of l = 1 \<longrightarrow> l_deferred_queue l3 = []" for l3
  proof (rule holds_bind)
    have d: "depth_of l3 = depth_of l" using frame_depth K Suc.prems(1) by blast
    show "holds ?K (Pump_wait l3)"
      using Pump_wait_ok [of l3] that d frame_trans [of l l3] by (auto elim!: holds_mono)
  qed (rule again)
  let ?h = "\<lambda>(idle, l3). if \<not> l_keep_running l3 then Done l3
    else if idle then pump_loop run n l3 else bindO (Pump_wait l3) (pump_loop run n)"
  let ?g = "\<lambda>work (delayed, l2). if \<not> l_keep_running l2 then Done l2
    else if work \<or> delayed then pump_loop run n l2 else bindO (DoIdleWork run l2) ?h"
  let ?calm = "\<lambda>l2. l_nestable_tasks_allowed l \<longrightarrow>
    l_work_queue l2 = [] \<and> signalled l2 \<and> (ticks_is_null (l_delayed_work_time l2) \<longrightarrow> l_delayed_work_queue l2 = [])"
  have H: "holds ?K (bindO (DoIdleWork run l2) ?h)" if K: "?K l2" "?calm l2" for l2
  proof (rule holds_bind [OF I [OF K(1)]])
    fix x
    assume x: "(\<lambda>(idle, l3). ?K l3 \<and> (\<not> idle \<longrightarrow> (\<exists>k. l3 = l2\<lparr>l_keep_running := k\<rparr>) \<and>
      (depth_of l = 1 \<longrightarrow> l_deferred_queue l3 = []))) x"
    obtain idle l3 where xl: "x = (idle, l3)" by (cases x)
    have K3: "?K l3" using x xl by simp
    show "holds ?K (?h x)"
    proof (cases "idle \<or> \<not> l_keep_running l3")
      case True
      then show ?thesis using again [OF K3] K3 xl by auto
    next
      case False
      then obtain k where "l3 = l2\<lparr>l_keep_running := k\<rparr>" and def3: "depth_of l = 1 \<longrightarrow> l_deferred_queue l3 = []" using x xl by auto
      then have "?calm l3" using K(2) by (simp add: signalled_def)
      then show ?thesis using False wait [OF K3 _ def3] xl by simp
    qed
  qed
  have G: "holds ?K (bindO (DoDelayedWork run l1) (?g work))" if w: "?W (work, l1)" for work l1
  proof (rule holds_bind [OF D [OF w]])
    fix x
    assume x: "(\<lambda>(delayed, l2). ?K l2 \<and> (l_nestable_tasks_allowed l \<and> \<not> delayed \<and> \<not> work \<longrightarrow>
      l_work_queue l2 = [] \<and> signalled l2 \<and> (ticks_is_null (l_delayed_work_time l2) \<longrightarrow> l_delayed_work_queue l2 = []))) x"
    obtain delayed l2 where xl: "x = (delayed, l2)" by (cases x)
    have K2: "?K l2" using x xl by simp
    show "holds ?K (?g work x)"
    proof (cases "work \<or> delayed \<or> \<not> l_keep_running l2")
      case True
      then show ?thesis using again [OF K2] K2 xl by auto
    next
      case False
      then have "?calm l2" using x xl by simp
      then show ?thesis using False H [OF K2] xl by simp
    qed
  qed
  have "holds ?K (bindO (DoWork run l) (\<lambda>(work, l1). if \<not> l_keep_running l1 then Done l1 else bindO (DoDelayedWork run l1) (?g work)))"
  proof (rule holds_bind [OF W])
    fix x
    assume x: "?W x"
    obtain work l1 where xl: "x = (work, l1)" by (cases x)
    show "holds ?K (case x of (work, l1) \<Rightarrow> if \<not> l_keep_running l1 then Done l1 else bindO (DoDelayedWork run l1) (?g work))"
      using G [of work l1] x xl by simp
  qed
  then show ?case by simp
qed simp

lemma Pump_Run_ok:
  assumes "loop_inv l" "0 < depth_of l" "depth_of l = 1 \<longrightarrow> l_nestable_tasks_allowed l"
  shows "holds (\<lambda>l'. loop_inv l' \<and> frame l l' \<and> l_nestable_tasks_allowed l' = l_nestable_tasks_allowed l) (Pump_Run run n l)"
proof -
  have "holds (\<lambda>l'. loop_inv l' \<and> frame l l' \<and> l_nestable_tasks_allowed l' = l_nestable_tasks_allowed l)
      (bindO (pump_loop run n l) (\<lambda>l1. Done (l1\<lparr>l_keep_running := True\<rparr>)))"
    by (rule holds_bind [OF pump_loop_ok [OF assms]]) (auto simp: inv_defs frame_def)
  then show ?thesis by (auto simp: Pump_Run_def lift_res_def dcheck_def)
qed

end

text \<open>The state in which a new run starts.\<close>

definition entered :: "bool \<Rightarrow> message_loop \<Rightarrow> message_loop" where
  "entered until_idle l =
     l\<lparr>l_run_loop := Some (length (l_run_loops l)),
       l_run_loops := l_run_loops l @ [\<lparr>rl_previous_run_loop = l_run_loop l, rl_run_depth = Suc (depth_of l), rl_run_called = True,
         rl_quit_called = False, rl_running = True, rl_quit_when_idle_received = until_idle\<rparr>]\<rparr>"

lemma entered_inv:
  assumes "loop_inv l"
  shows "loop_inv (entered b l)" "depth_of (entered b l) = Suc (depth_of l)"
    "l_nestable_tasks_allowed (entered b l) = l_nestable_tasks_allowed l"
  using assms by (auto simp: entered_def inv_defs depth_of_def)

lemma run_new:
  assumes "loop_inv l"
  shows "Loop_Run run f l = bindO (Pump_Run run f (entered False l)) (\<lambda>l2. lift_res (AfterRun (length (l_run_loops l)) l2))"
    "Loop_RunUntilIdle run f l = bindO (Pump_Run run f (entered True l)) (\<lambda>l2. lift_res (AfterRun (length (l_run_loops l)) l2))"
proof -
  have p: "p < length (l_run_loops l)" if "l_run_loop l = Some p" for p using assms that by (simp add: inv_defs)
  show "Loop_Run run f l = bindO (Pump_Run run f (entered False l)) (\<lambda>l2. lift_res (AfterRun (length (l_run_loops l)) l2))"
    "Loop_RunUntilIdle run f l = bindO (Pump_Run run f (entered True l)) (\<lambda>l2. lift_res (AfterRun (length (l_run_loops l)) l2))"
    using p by (auto simp: Loop_Run_def Loop_RunUntilIdle_def new_RunLoop_def RunLoop_Run_def RunLoop_RunUntilIdle_def
        BeforeRun_def set_run_loop_def Let_def lift_res_def dcheck_def entered_def depth_of_def nth_append split: option.split)
qed

lemma AfterRun_ok:
  assumes "loop_inv l" "frame (entered b l) l2" "loop_inv l2"
  shows "holds (\<lambda>l'. loop_inv l' \<and> frame l l' \<and> l_nestable_tasks_allowed l' = l_nestable_tasks_allowed l2)
    (lift_res (AfterRun (length (l_run_loops l)) l2))"
proof -
  let ?i = "length (l_run_loops l)"
  have len: "?i < length (l_run_loops l2)" using assms(2) by (simp add: frame_def entered_def)
  have prev: "rl_previous_run_loop (l_run_loops l2 ! ?i) = l_run_loop l"
    using assms(2) by (simp add: frame_def entered_def)
  have old: "rl_run_depth (l_run_loops l2 ! j) = rl_run_depth (l_run_loops l ! j) \<and>
      rl_previous_run_loop (l_run_loops l2 ! j) = rl_previous_run_loop (l_run_loops l ! j)" if "j < ?i" for j
    using assms(2) that by (simp add: frame_def entered_def nth_append)
  define l3 where "l3 = l2\<lparr>l_run_loops := (l_run_loops l2)[?i := (l_run_loops l2 ! ?i)\<lparr>rl_running := False\<rparr>], l_run_loop := l_run_loop l\<rparr>"
  have inv3: "loop_inv l3" "frame l l3" "l_nestable_tasks_allowed l3 = l_nestable_tasks_allowed l2"
    using assms(1,3) len old by (auto simp: l3_def inv_defs frame_def)
  have "loop_inv (Pump_Quit l3)" "frame l (Pump_Quit l3)" "l_nestable_tasks_allowed (Pump_Quit l3) = l_nestable_tasks_allowed l2"
    using inv3 by (auto simp: Pump_Quit_def inv_defs frame_def)
  moreover have "AfterRun ?i l2 = Inr l3 \<or> AfterRun ?i l2 = Inr (Pump_Quit l3)"
    using len prev by (auto simp: AfterRun_def set_run_loop_def Let_def Loop_QuitNow_def l3_def split: option.split)
  ultimately show ?thesis using inv3 by (auto simp: lift_res_def)
qed

section \<open>Every closure keeps the invariant\<close>

lemma lift_kept:
  assumes "\<And>e. r = Inl e \<Longrightarrow> benign e" "\<And>l'. r = Inr l' \<Longrightarrow> loop_inv l' \<and> quiet l l'"
  shows "holds (\<lambda>l'. loop_inv l' \<and> frame l l' \<and> l_nestable_tasks_allowed l' = l_nestable_tasks_allowed l) (lift_res r)"
proof (rule holds_lift)
  show "r = Inl e \<Longrightarrow> benign e" for e by (rule assms(1))
  show "r = Inr l' \<Longrightarrow> loop_inv l' \<and> frame l l' \<and> l_nestable_tasks_allowed l' = l_nestable_tasks_allowed l" for l'
    using assms(2) quiet_frame by (auto simp: quiet_def)
qed

lemma post_now:
  assumes "loop_inv l"
  shows "(if nestable then Loop_PostTask t l else Loop_PostNonNestableTask t l) = Inl e \<Longrightarrow> benign e"
    and "(if nestable then Loop_PostTask t l else Loop_PostNonNestableTask t l) = Inr l' \<Longrightarrow> loop_inv l' \<and> quiet l l'"
proof -
  show "(if nestable then Loop_PostTask t l else Loop_PostNonNestableTask t l) = Inl e \<Longrightarrow> benign e"
    unfolding post_defs CalculateDelayedRuntime_def by (auto simp: benign_def res_simps split: if_splits)
  assume "(if nestable then Loop_PostTask t l else Loop_PostNonNestableTask t l) = Inr l'"
  then obtain q where "l' = AddToIncomingQueue q l"
    unfolding post_defs by (cases nestable) (auto simp: res_simps)
  then show "loop_inv l' \<and> quiet l l'" using inv_post [OF assms] by (auto simp: quiet_def signalled_def)
qed

lemma set_run_loop_ok:
  assumes "loop_inv l" "\<And>r. rl_run_depth (f r) = rl_run_depth r \<and> rl_previous_run_loop (f r) = rl_previous_run_loop r"
  shows "loop_inv (set_run_loop i f l) \<and> frame l (set_run_loop i f l) \<and>
    l_nestable_tasks_allowed (set_run_loop i f l) = l_nestable_tasks_allowed l"
proof -
  have same: "rl_run_depth (l_run_loops (set_run_loop i f l) ! j) = rl_run_depth (l_run_loops l ! j) \<and>
      rl_previous_run_loop (l_run_loops (set_run_loop i f l) ! j) = rl_previous_run_loop (l_run_loops l ! j)"
    if "j < length (l_run_loops l)" for j
    using assms(2) that by (cases "j = i") (simp_all add: set_run_loop_def)
  have "frame l (set_run_loop i f l)" using same by (simp add: frame_def set_run_loop_def)
  moreover have "runs_ok (set_run_loop i f l)" using assms(1) same by (auto simp: inv_defs set_run_loop_def)
  then have "loop_inv (set_run_loop i f l)" using assms(1) by (simp add: inv_defs set_run_loop_def)
  ultimately show ?thesis by (simp add: set_run_loop_def)
qed

lemma Pump_Quit_ok:
  "loop_inv l \<Longrightarrow> loop_inv (Pump_Quit l) \<and> frame l (Pump_Quit l) \<and> l_nestable_tasks_allowed (Pump_Quit l) = l_nestable_tasks_allowed l"
  by (auto simp: Pump_Quit_def inv_defs frame_def)

context closure_runner begin

lemma run_new_ok:
  assumes "loop_inv l" "depth_of l = 0 \<longrightarrow> l_nestable_tasks_allowed l"
  shows "holds (\<lambda>l'. loop_inv l' \<and> frame l l' \<and> l_nestable_tasks_allowed l' = l_nestable_tasks_allowed l)
    (bindO (Pump_Run run f (entered b l)) (\<lambda>l2. lift_res (AfterRun (length (l_run_loops l)) l2)))"
proof -
  note E = entered_inv [OF assms(1), of b]
  have "holds (\<lambda>l'. loop_inv l' \<and> frame (entered b l) l' \<and> l_nestable_tasks_allowed l' = l_nestable_tasks_allowed l)
      (Pump_Run run f (entered b l))"
    using Pump_Run_ok [OF E(1)] E(2,3) assms(2) by simp
  then show ?thesis
  proof (rule holds_bind)
    fix l2
    assume A: "loop_inv l2 \<and> frame (entered b l) l2 \<and> l_nestable_tasks_allowed l2 = l_nestable_tasks_allowed l"
    then show "holds (\<lambda>l'. loop_inv l' \<and> frame l l' \<and> l_nestable_tasks_allowed l' = l_nestable_tasks_allowed l)
        (lift_res (AfterRun (length (l_run_loops l)) l2))"
      using AfterRun_ok [OF assms(1), of b l2] by (auto elim!: holds_mono)
  qed
qed

lemma do_call_ok:
  assumes "loop_inv l" "depth_of l = 0 \<longrightarrow> l_nestable_tasks_allowed l"
  shows "holds (\<lambda>l'. loop_inv l' \<and> frame l l' \<and>
    (c \<noteq> SetNestable False \<longrightarrow> l_nestable_tasks_allowed l \<longrightarrow> l_nestable_tasks_allowed l')) (do_call run fuel c l)"
proof (cases c)
  case (Post p)
  have "holds (\<lambda>l'. loop_inv l' \<and> frame l l' \<and> l_nestable_tasks_allowed l' = l_nestable_tasks_allowed l) (lift_res (post p l))"
    using post_benign post_ok [OF _ assms(1)] by (rule lift_kept)
  then show ?thesis using Post by (auto simp: do_call_def elim!: holds_mono)
next
  case (PostNow t nestable)
  let ?r = "if nestable then Loop_PostTask t l else Loop_PostNonNestableTask t l"
  have "holds (\<lambda>l'. loop_inv l' \<and> frame l l' \<and> l_nestable_tasks_allowed l' = l_nestable_tasks_allowed l) (lift_res ?r)"
    using post_now [OF assms(1)] by (intro lift_kept) blast+
  then show ?thesis using PostNow by (auto simp: do_call_def elim!: holds_mono)
next
  case (SetNestable b)
  have "loop_inv (SetNestableTasksAllowed b l)" using assms(1)
    by (auto simp: SetNestableTasksAllowed_def Pump_ScheduleWork_def Let_def inv_defs)
  then show ?thesis using SetNestable by (auto simp: do_call_def SetNestableTasksAllowed_def Pump_ScheduleWork_def Let_def frame_def)
next
  case NestedRun
  then have "do_call run fuel c l = bindO (Pump_Run run fuel (entered False l))
      (\<lambda>l2. lift_res (AfterRun (length (l_run_loops l)) l2))"
    by (simp add: do_call_def run_new [OF assms(1)])
  then show ?thesis using holds_mono [OF run_new_ok [OF assms]] by auto
next
  case NestedRunUntilIdle
  then have "do_call run fuel c l = bindO (Pump_Run run fuel (entered True l))
      (\<lambda>l2. lift_res (AfterRun (length (l_run_loops l)) l2))"
    by (simp add: do_call_def run_new [OF assms(1)])
  then show ?thesis using holds_mono [OF run_new_ok [OF assms]] by auto
next
  case QuitWhenIdle
  then show ?thesis using set_run_loop_ok [OF assms(1), of "\<lambda>r. r\<lparr>rl_quit_when_idle_received := True\<rparr>"]
    by (auto simp: do_call_def Loop_QuitWhenIdle_def lift_res_def split: option.split)
next
  case QuitNow
  then show ?thesis using Pump_Quit_ok [OF assms(1)]
    by (auto simp: do_call_def Loop_QuitNow_def lift_res_def split: option.split)
next
  case (QuitRunLoop i)
  note S = set_run_loop_ok [OF assms(1), of "\<lambda>r. r\<lparr>rl_quit_called := True\<rparr>" i]
  show ?thesis using QuitRunLoop S Pump_Quit_ok frame_trans
    by (auto simp: do_call_def RunLoop_Quit_def Loop_QuitNow_def lift_res_def Let_def)
qed

end

section \<open>Closures and programs\<close>

lemma fold_outcome_holds:
  assumes "P l" "\<And>l c. c \<in> set cs \<Longrightarrow> P l \<Longrightarrow> holds P (f c l)"
  shows "holds P (fold_outcome f cs l)"
  using assms
proof (induction cs arbitrary: l)
  case (Cons c cs)
  have "holds P (f c l)" using Cons.prems by simp
  then show ?case using Cons.IH Cons.prems(2) by (auto elim!: holds_bind)
qed simp

lemma closure_runner_run_closure: "closure_runner (run_closure body fuel depth)"
proof (induction depth)
  case 0
  show ?case by unfold_locales simp
next
  case (Suc depth)
  show ?case
  proof
    fix l t
    assume l: "loop_inv l" "0 < depth_of l"
    show "holds (\<lambda>l'. loop_inv l' \<and> frame l l') (run_closure body fuel (Suc depth) t l)"
    proof (cases t)
      case (Some i)
      have "holds (\<lambda>l'. loop_inv l' \<and> frame l l') (fold_outcome (do_call (run_closure body fuel depth) fuel) (body i) l)"
      proof (rule fold_outcome_holds)
        fix l1 c
        assume "loop_inv l1 \<and> frame l l1"
        then show "holds (\<lambda>l'. loop_inv l' \<and> frame l l') (do_call (run_closure body fuel depth) fuel c l1)"
          using closure_runner.do_call_ok [OF Suc.IH, of l1 c fuel] frame_depth_pos [of l l1] l frame_trans [of l l1]
          by (auto elim!: holds_mono)
      qed (use l in simp)
      then show ?thesis using Some by simp
    qed simp
  qed
qed

interpretation closures: closure_runner "run_closure body fuel depth" for body fuel depth
  by (rule closure_runner_run_closure)

end
