(* ===== verification/LoopProperties.thy ===== *)
theory LoopProperties imports MessageLoopInv begin

text \<open>
  The guarantees of the message loop for whole programs: tasks are run once, in order and in
  time, a sleeping loop has no tasks, a run until idle returns, and destruction leaves nothing
  behind.
\<close>

section \<open>Programs\<close>

text \<open>A program of the loop's thread: calls made outside of any run, the runs among them.\<close>

definition program :: "(nat \<Rightarrow> call list) \<Rightarrow> nat \<Rightarrow> nat \<Rightarrow> call list \<Rightarrow> time_ticks \<Rightarrow> (nat \<times> posting list) list \<Rightarrow> message_loop outcome" where
  "program body fuel depth calls clock events =
     fold_outcome (do_call (run_closure body fuel depth) fuel) calls (new_MessageLoop clock events)"

lemma new_loop_inv: "null_ticks \<le> clock \<Longrightarrow> loop_inv (new_MessageLoop clock events)"
  by (simp add: new_MessageLoop_def inv_defs)

lemma program_ok:
  assumes "null_ticks \<le> clock" "SetNestable False \<notin> set calls"
  shows "holds (\<lambda>l. loop_inv l \<and> l_run_loop l = None) (program body fuel depth calls clock events)"
proof -
  have "holds (\<lambda>l. loop_inv l \<and> l_run_loop l = None \<and> l_nestable_tasks_allowed l) (program body fuel depth calls clock events)"
    unfolding program_def
  proof (rule fold_outcome_holds)
    show "loop_inv (new_MessageLoop clock events) \<and> l_run_loop (new_MessageLoop clock events) = None \<and>
        l_nestable_tasks_allowed (new_MessageLoop clock events)"
      using new_loop_inv [OF assms(1)] by (simp add: new_MessageLoop_def)
  next
    fix l c
    assume c: "c \<in> set calls" and l: "loop_inv l \<and> l_run_loop l = None \<and> l_nestable_tasks_allowed l"
    have ne: "c \<noteq> SetNestable False" using c assms(2) by auto
    show "holds (\<lambda>l. loop_inv l \<and> l_run_loop l = None \<and> l_nestable_tasks_allowed l)
        (do_call (run_closure body fuel depth) fuel c l)"
      by (rule holds_mono [OF closures.do_call_ok]) (use l ne in \<open>auto simp: frame_def\<close>)
  qed
  then show ?thesis by (rule holds_mono) simp
qed

text \<open>
  C21: whatever the tasks do and other threads post, in every state in which the program returns
  or waits for ever each posted task is either started, exactly once, or still in one of the queues,
  exactly once; the tasks that may run at once and nested were started in the order of their posts;
  no task was started before its time; a task posted as not nestable was only started by an
  outermost run; and no task was ever started inside one that had not allowed it.
\<close>

theorem tasks_run_once_in_order:
  assumes "null_ticks \<le> clock" "SetNestable False \<notin> set calls"
  shows "case program body fuel depth calls clock events of
      Broken e \<Rightarrow> e \<noteq> DcheckFailed ''nestable_tasks_allowed_''
    | OutOfFuel \<Rightarrow> True
    | r \<Rightarrow> (\<forall>l. r = Done l \<or> r = Blocked l \<longrightarrow>
        mset (map ident (l_posted l)) = mset (map (\<lambda>(p, d, t). ident p) (l_started l)) + mset (map ident (pending l)) \<and>
        filter immediate (l_posted l) = filter immediate (map fst (l_started l)) @ filter immediate (l_work_queue l @ l_incoming_queue l) \<and>
        (\<forall>(p, d, t)\<in>set (l_started l). pt_delayed_run_time p \<le> t \<and> (\<not> pt_nestable p \<longrightarrow> d = 1)))"
  using program_ok [OF assms, of body fuel depth events]
  by (cases "program body fuel depth calls clock events") (auto simp: blocked_ok_def loop_inv_def conserved_def in_order_def well_started_def)

text \<open>A program with a task that posts two others, a task that is not nestable, and a post from another thread.\<close>

definition demo_body :: "nat \<Rightarrow> call list" where
  "demo_body i = (if i = 1 then [PostNow (Some 2) True, Post (Some 3, TimeDelta 5, False)] else [])"

definition demo_calls :: "call list \<Rightarrow> message_loop outcome" where
  "demo_calls calls = program demo_body 20 2 calls (TimeTicks 1) [(3, [(Some 5, TimeDelta 0, True)])]"

theorem tasks_run_once_in_order_witness:
  "is_Done (demo_calls [PostNow (Some 1) True, PostNow (Some 4) False, NestedRunUntilIdle]) \<and>
   mset (map ident (l_posted (result (demo_calls [PostNow (Some 1) True, PostNow (Some 4) False, NestedRunUntilIdle])))) =
   mset (map (\<lambda>(p, d, t). ident p) (l_started (result (demo_calls [PostNow (Some 1) True, PostNow (Some 4) False, NestedRunUntilIdle])))) +
   mset (map ident (pending (result (demo_calls [PostNow (Some 1) True, PostNow (Some 4) False, NestedRunUntilIdle]))))"
proof -
  let ?calls = "[PostNow (Some 1) True, PostNow (Some 4) False, NestedRunUntilIdle]"
  have d: "is_Done (demo_calls ?calls)" by code_simp
  have "null_ticks \<le> TimeTicks 1" by (simp add: null_ticks_def)
  then show ?thesis
    using tasks_run_once_in_order [of "TimeTicks 1" ?calls demo_body 20 2 "[(3, [(Some 5, TimeDelta 0, True)])]"] d
    unfolding demo_calls_def [symmetric] by (cases "demo_calls ?calls") simp_all
qed

text \<open>
  C22: no wake-up is lost: a loop that goes to sleep for ever in a state in which it may run tasks has
  run everything.  Nothing is left in the incoming, the work and the delayed queue, and in an outermost run each
  task ever posted has been started.
\<close>

theorem sleeping_loop_has_no_tasks:
  assumes "null_ticks \<le> clock" "SetNestable False \<notin> set calls"
    "program body fuel depth calls clock events = Blocked l" "l_nestable_tasks_allowed l"
  shows "l_work_queue l = [] \<and> l_incoming_queue l = [] \<and> l_delayed_work_queue l = [] \<and>
    (depth_of l = 1 \<longrightarrow> l_deferred_queue l = [] \<and>
       mset (map ident (l_posted l)) = mset (map (\<lambda>(p, d, t). ident p) (l_started l)))"
  using program_ok [OF assms(1,2), of body fuel depth events] assms(3,4)
  by (auto simp: blocked_ok_def loop_inv_def conserved_def pending_def)

theorem sleeping_loop_has_no_tasks_witness:
  "is_Blocked (demo_calls [PostNow (Some 1) True, PostNow (Some 4) False, NestedRun]) \<and>
   l_delayed_work_queue (asleep (demo_calls [PostNow (Some 1) True, PostNow (Some 4) False, NestedRun])) = []"
proof -
  let ?calls = "[PostNow (Some 1) True, PostNow (Some 4) False, NestedRun]"
  have b: "is_Blocked (demo_calls ?calls)" by code_simp
  have a: "l_nestable_tasks_allowed (asleep (demo_calls ?calls))" by code_simp
  have "null_ticks \<le> TimeTicks 1" by (simp add: null_ticks_def)
  then show ?thesis
    using sleeping_loop_has_no_tasks [of "TimeTicks 1" ?calls demo_body 20 2 "[(3, [(Some 5, TimeDelta 0, True)])]" "asleep (demo_calls ?calls)"] b a
    unfolding demo_calls_def [symmetric] by (cases "demo_calls ?calls") simp_all
qed

section \<open>A run until idle returns\<close>

text \<open>Tasks that only post tasks of lower number, and how many starts a task leads to.\<close>

definition ranked :: "(nat \<Rightarrow> call list) \<Rightarrow> bool" where
  "ranked body \<longleftrightarrow> (\<forall>i. \<exists>js. body i = map (\<lambda>j. PostNow (Some j) True) js \<and> (\<forall>j\<in>set js. j < i))"

function weight :: "(nat \<Rightarrow> call list) \<Rightarrow> nat \<Rightarrow> nat" where
  "weight body i =
     Suc (sum_list (map (\<lambda>c. case c of PostNow t b \<Rightarrow> (case t of Some j \<Rightarrow> if j < i then weight body j else 0 | None \<Rightarrow> 0) | _ \<Rightarrow> 0) (body i)))"
  by pat_completeness auto
termination
  by (relation "measure snd") auto

declare weight.simps [simp del]

definition load :: "(nat \<Rightarrow> call list) \<Rightarrow> pending_task list \<Rightarrow> nat" where
  "load body ps = sum_list (map (\<lambda>p. case pt_task p of None \<Rightarrow> 0 | Some i \<Rightarrow> weight body i) ps)"

lemma load_simps [simp]: "load body [] = 0" "load body (ps @ qs) = load body ps + load body qs"
  "load body (p # ps) = (case pt_task p of None \<Rightarrow> 0 | Some i \<Rightarrow> weight body i) + load body ps"
  by (simp_all add: load_def)

definition plain :: "nat \<Rightarrow> pending_task" where
  "plain j = new_PendingTask (Some j) null_ticks True"

lemma weight_ranked:
  assumes "body i = map (\<lambda>j. PostNow (Some j) True) js" "\<forall>j\<in>set js. j < i"
  shows "weight body i = Suc (load body (map plain js))"
  unfolding weight.simps [of body i] assms(1)
  using assms(2) by (induction js) (simp_all add: plain_def new_PendingTask_def)

text \<open>An outermost run until idle, with nothing but tasks to be run at once.\<close>

definition calm :: "message_loop \<Rightarrow> bool" where
  "calm l \<longleftrightarrow> l_events l = [] \<and> l_delayed_work_queue l = [] \<and> l_deferred_queue l = [] \<and> l_nestable_tasks_allowed l \<and>
     l_keep_running l \<and> (\<exists>i. l_run_loop l = Some i \<and> rl_run_depth (l_run_loops l ! i) = 1 \<and>
       rl_quit_when_idle_received (l_run_loops l ! i)) \<and> (\<forall>p\<in>set (l_work_queue l @ l_incoming_queue l). p \<in> range plain)"

definition posted_all :: "nat list \<Rightarrow> message_loop \<Rightarrow> message_loop" where
  "posted_all js l = foldl (\<lambda>l j. AddToIncomingQueue (plain j) l) l js"

lemma posted_all_fields [simp]:
  "l_incoming_queue (posted_all js l) = l_incoming_queue l @ map plain js"
  "l_work_queue (posted_all js l) = l_work_queue l" "l_delayed_work_queue (posted_all js l) = l_delayed_work_queue l"
  "l_deferred_queue (posted_all js l) = l_deferred_queue l" "l_events (posted_all js l) = l_events l"
  "l_nestable_tasks_allowed (posted_all js l) = l_nestable_tasks_allowed l" "l_keep_running (posted_all js l) = l_keep_running l"
  "l_run_loop (posted_all js l) = l_run_loop l" "l_run_loops (posted_all js l) = l_run_loops l"
  by (induction js arbitrary: l) (simp_all add: posted_all_def)

lemma post_calls: "fold_outcome (do_call run fuel) (map (\<lambda>j. PostNow (Some j) True) js) l = Done (posted_all js l)"
  by (induction js arbitrary: l)
    (simp_all add: posted_all_def do_call_def Loop_PostTask_def lift_res_def CalculateDelayedRuntime_def InMilliseconds_def plain_def)

declare run_closure.simps [simp del]

lemma DoWork_calm:
  assumes "calm l" "ranked body" "l_work_queue l @ l_incoming_queue l \<noteq> []"
  shows "\<exists>l'. DoWork (run_closure body fuel (Suc depth)) l = Done (True, l') \<and> calm l' \<and>
    Suc (load body (l_work_queue l' @ l_incoming_queue l')) = load body (l_work_queue l @ l_incoming_queue l)"
proof -
  let ?run = "run_closure body fuel (Suc depth)"
  obtain l1 where l1: "ReloadWorkQueue l = Inr l1" "calm l1" "l_work_queue l1 \<noteq> []"
    "load body (l_work_queue l1 @ l_incoming_queue l1) = load body (l_work_queue l @ l_incoming_queue l)"
  proof (cases "l_work_queue l = []")
    case True
    then have "ReloadWorkQueue l = Inr (l\<lparr>l_incoming_queue := [], l_work_queue := l_incoming_queue l\<rparr>)"
      using assms(1,3) by (simp add: ReloadWorkQueue_def next_event_def calm_def)
    then show ?thesis using assms(1,3) True by (intro that) (auto simp: calm_def)
  qed (use assms(1) that in \<open>simp add: ReloadWorkQueue_def\<close>)
  then obtain p ps where p: "l_work_queue l1 = p # ps" by (cases "l_work_queue l1") auto
  then obtain i where i: "p = plain i" using l1(2) by (auto simp: calm_def)
  obtain js where js: "body i = map (\<lambda>j. PostNow (Some j) True) js" "\<forall>j\<in>set js. j < i"
    using assms(2) unfolding ranked_def by blast
  let ?l2 = "(l1\<lparr>l_work_queue := ps, l_nestable_tasks_allowed := False, l_started := l_started l1 @ [(p, depth_of l1, l_clock l1)]\<rparr>)"
  let ?l' = "(posted_all js ?l2)\<lparr>l_nestable_tasks_allowed := True\<rparr>"
  have "RunTask ?run p (l1\<lparr>l_work_queue := ps\<rparr>) = Done ?l'"
    using l1(2) i js by (simp add: RunTask_def lift_res_def calm_def plain_def new_PendingTask_def post_calls run_closure.simps(2))
  then have "work_pass ?run (l_work_queue l1) l1 = Done (True, ?l')"
    using i p by (simp add: DeferOrRunPendingTask_def plain_def new_PendingTask_def null_ticks_def ticks_is_null_def)
  then have "DoWork ?run l = Done (True, ?l')"
    using l1(1,3) assms(1) by (simp add: DoWork_def DoWork_loop.simps [of ?run l] calm_def)
  moreover have "calm ?l'" using l1(2) p by (auto simp: calm_def)
  moreover have "Suc (load body (l_work_queue ?l' @ l_incoming_queue ?l')) = load body (l_work_queue l @ l_incoming_queue l)"
    unfolding l1(4) [symmetric] using p i weight_ranked [of body i js, OF js] by (simp add: plain_def new_PendingTask_def)
  ultimately show ?thesis by blast
qed

lemma pump_loop_returns:
  assumes "ranked body"
  shows "calm l \<Longrightarrow> load body (l_work_queue l @ l_incoming_queue l) < n \<Longrightarrow>
    \<exists>l'. pump_loop (run_closure body fuel (Suc depth)) n l = Done l' \<and> pending l' = []"
proof (induction n arbitrary: l)
  case (Suc n)
  let ?run = "run_closure body fuel (Suc depth)"
  let ?rest = "\<lambda>l. l\<lparr>l_recent_time := null_ticks, l_delayed_work_time := null_ticks\<rparr>"
  have delayed: "DoDelayedWork ?run l1 = Done (False, ?rest l1)" "calm (?rest l1)" if "calm l1" for l1
    using that by (simp_all add: DoDelayedWork_def calm_def)
  show ?case
  proof (cases "l_work_queue l @ l_incoming_queue l = []")
    case False
    then obtain l' where l': "DoWork ?run l = Done (True, l')" "calm l'"
      "Suc (load body (l_work_queue l' @ l_incoming_queue l')) = load body (l_work_queue l @ l_incoming_queue l)"
      using DoWork_calm [OF Suc.prems(1) assms] by blast
    have "\<exists>l''. pump_loop ?run n (?rest l') = Done l'' \<and> pending l'' = []"
      by (rule Suc.IH) (use delayed(2) [OF l'(2)] l'(3) Suc.prems(2) in simp_all)
    then show ?thesis using l'(1,2) delayed [OF l'(2)] by (simp add: calm_def)
  next
    case True
    then have "DoWork ?run l = Done (False, l)"
      using Suc.prems(1) by (simp add: DoWork_def DoWork_loop.simps [of ?run l] calm_def ReloadWorkQueue_def next_event_def)
    moreover have "DoIdleWork ?run (?rest l) = Done (False, Pump_Quit (?rest l))"
      using Suc.prems(1) by (auto simp: DoIdleWork_def ProcessNextDelayedNonNestableTask_def run_depth_def calm_def lift_res_def)
    ultimately show ?thesis using delayed [OF Suc.prems(1)] Suc.prems(1) True
      by (simp add: calm_def Pump_Quit_def pending_def)
  qed
qed simp

text \<open>
  C23: a run until idle comes to an end, for well-founded tasks on their own: where every task only
  posts nestable tasks of lower number without delay, and no other thread does anything, posting
  any tasks and running the loop until it is idle returns as soon as the bound on the turns of the
  pump is above the number of starts the tasks lead to, and then every task posted on the way has
  been started.  A task that posts itself again is outside of it, and so are delayed tasks, nested
  runs and quits.
\<close>

theorem run_until_idle_returns:
  assumes "ranked body" "null_ticks \<le> clock" "load body (map plain js) < fuel"
  shows "\<exists>l. program body fuel (Suc depth) (map (\<lambda>j. PostNow (Some j) True) js @ [NestedRunUntilIdle]) clock [] = Done l \<and>
    pending l = [] \<and> mset (map ident (l_posted l)) = mset (map (\<lambda>(p, d, t). ident p) (l_started l))"
proof -
  let ?run = "run_closure body fuel (Suc depth)" and ?l0 = "posted_all js (new_MessageLoop clock [])"
  let ?calls = "map (\<lambda>j. PostNow (Some j) True) js @ [NestedRunUntilIdle]"
  have append: "fold_outcome f (xs @ ys) l = bindO (fold_outcome f xs l) (fold_outcome f ys)" for f :: "call \<Rightarrow> message_loop \<Rightarrow> message_loop outcome" and xs ys l
  proof (induction xs arbitrary: l)
    case (Cons x xs)
    then show ?case by (cases "f x l") simp_all
  qed simp
  have P: "program body fuel (Suc depth) ?calls clock [] = Loop_RunUntilIdle ?run fuel ?l0"
    by (simp add: program_def append post_calls do_call_def) (cases "Loop_RunUntilIdle ?run fuel ?l0"; simp)
  have "holds (\<lambda>l. loop_inv l) (fold_outcome (do_call ?run fuel) (map (\<lambda>j. PostNow (Some j) True) js) (new_MessageLoop clock []))"
    by (rule holds_mono [OF program_ok [OF assms(2), of "map (\<lambda>j. PostNow (Some j) True) js" body fuel "Suc depth" "[]", unfolded program_def]]) auto
  then have inv: "loop_inv ?l0" by (simp add: post_calls)
  have i: "l_run_loops ?l0 = []" "l_run_loop ?l0 = None" by (simp_all add: new_MessageLoop_def)
  have "calm (entered True ?l0)" by (auto simp: calm_def entered_def new_MessageLoop_def depth_of_def)
  moreover have "load body (l_work_queue (entered True ?l0) @ l_incoming_queue (entered True ?l0)) < fuel"
    using assms(3) by (simp add: entered_def new_MessageLoop_def)
  ultimately obtain l1 where l1: "pump_loop ?run fuel (entered True ?l0) = Done l1" "pending l1 = []"
    using pump_loop_returns [OF assms(1)] by blast
  let ?l2 = "l1\<lparr>l_keep_running := True\<rparr>"
  have R: "Pump_Run ?run fuel (entered True ?l0) = Done ?l2"
    using l1(1) by (simp add: Pump_Run_def lift_res_def entered_def new_MessageLoop_def)
  note E = entered_inv [OF inv, of True]
  have F: "holds (\<lambda>l'. loop_inv l' \<and> frame (entered True ?l0) l' \<and> l_nestable_tasks_allowed l' = l_nestable_tasks_allowed (entered True ?l0))
      (Pump_Run ?run fuel (entered True ?l0))"
    by (rule closures.Pump_Run_ok [OF E(1)]) (use E(2,3) in \<open>simp_all add: new_MessageLoop_def\<close>)
  then have prev: "rl_previous_run_loop (l_run_loops ?l2 ! 0) = None" "0 < length (l_run_loops ?l2)"
    unfolding R using i by (auto simp: frame_def entered_def)
  then obtain l where l: "AfterRun 0 ?l2 = Inr l" "pending l = []"
    using l1(2) by (auto simp: AfterRun_def set_run_loop_def Let_def pending_def)
  have D: "program body fuel (Suc depth) ?calls clock [] = Done l"
    unfolding P run_new(2) [OF inv] R using l(1) i by (simp add: lift_res_def)
  then have "loop_inv l" using program_ok [OF assms(2), of ?calls body fuel "Suc depth" "[]"] by auto
  then show ?thesis using D l(2) by (auto simp: loop_inv_def conserved_def)
qed

theorem run_until_idle_returns_witness:
  "\<exists>l. program (\<lambda>i. if i = 2 then [PostNow (Some 1) True, PostNow (Some 0) True] else []) 9 1
      (map (\<lambda>j. PostNow (Some j) True) [2, 2] @ [NestedRunUntilIdle]) (TimeTicks 1) [] = Done l \<and> pending l = []"
proof -
  let ?body = "\<lambda>i :: nat. if i = 2 then [PostNow (Some 1) True, PostNow (Some 0) True] else []"
  have "\<exists>js. ?body i = map (\<lambda>j. PostNow (Some j) True) js \<and> (\<forall>j\<in>set js. j < i)" for i
    by (rule exI [of _ "if i = 2 then [1, 0] else []"]) simp
  then have "ranked ?body" unfolding ranked_def by blast
  moreover have "null_ticks \<le> TimeTicks 1" by (simp add: null_ticks_def)
  moreover have "load ?body (map plain [2, 2]) < 9"
    by (simp add: plain_def new_PendingTask_def weight.simps [of ?body])
  ultimately show ?thesis using run_until_idle_returns [of ?body "TimeTicks 1" "[2, 2]" 9 0] by auto
qed

section \<open>Destruction\<close>

lemma delete_task_ok:
  assumes "delete_task drops p l = Inr l'" "conserved (l\<lparr>l_deleted := l_deleted l @ [p]\<rparr>)"
  shows "conserved l' \<and> l_work_queue l' = l_work_queue l \<and> l_delayed_work_queue l' = l_delayed_work_queue l \<and>
    l_deferred_queue l' = l_deferred_queue l"
  using assms(1) unfolding delete_task_def
  by (rule fold_post_rule [where P = "\<lambda>l'. conserved l' \<and> l_work_queue l' = l_work_queue l \<and>
      l_delayed_work_queue l' = l_delayed_work_queue l \<and> l_deferred_queue l' = l_deferred_queue l"])
    (use assms(2) in \<open>auto simp: conserved_def pending_def\<close>)

lemma delete_work_ok:
  "delete_work drops ps l = Inr l' \<Longrightarrow> l_work_queue l = ps \<Longrightarrow> conserved l \<Longrightarrow>
   conserved l' \<and> l_work_queue l' = [] \<and> (ps = [] \<longrightarrow> l' = l)"
proof (induction ps arbitrary: l)
  case (Cons p ps)
  let ?l1 = "l\<lparr>l_work_queue := ps\<rparr>"
  obtain l2 where l2: "(if \<not> ticks_is_null (pt_delayed_run_time p) then Inr (AddToDelayedWorkQueue p ?l1) else delete_task drops p ?l1) = Inr l2"
    "delete_work drops ps l2 = Inr l'"
    using Cons.prems(1) by (auto simp: Let_def res_simps)
  have "conserved l2 \<and> l_work_queue l2 = ps"
  proof (cases "ticks_is_null (pt_delayed_run_time p)")
    case True
    have "conserved (?l1\<lparr>l_deleted := l_deleted ?l1 @ [p]\<rparr>)" using Cons.prems(2,3) by (simp add: conserved_def pending_def)
    then show ?thesis using True l2(1) delete_task_ok [of drops p ?l1 l2] by simp
  next
    case False
    then have "l2 = AddToDelayedWorkQueue p ?l1" using l2(1) by simp
    then show ?thesis using Cons.prems(2,3) by (simp add: AddToDelayedWorkQueue_def pq_push_def conserved_def pending_def)
  qed
  then show ?case using Cons.IH l2(2) by blast
qed simp

lemma delete_deferred_ok:
  "delete_deferred drops ps l = Inr l' \<Longrightarrow> l_deferred_queue l = ps \<Longrightarrow> conserved l \<Longrightarrow>
   conserved l' \<and> l_work_queue l' = l_work_queue l \<and> l_deferred_queue l' = [] \<and> (ps = [] \<longrightarrow> l' = l)"
proof (induction ps arbitrary: l)
  case (Cons p ps)
  let ?l1 = "l\<lparr>l_deferred_queue := ps\<rparr>"
  obtain l2 where l2: "delete_task drops p ?l1 = Inr l2" "delete_deferred drops ps l2 = Inr l'"
    using Cons.prems(1) by (auto simp: res_simps)
  have "conserved (?l1\<lparr>l_deleted := l_deleted ?l1 @ [p]\<rparr>)" using Cons.prems(2,3) by (simp add: conserved_def pending_def)
  then show ?case using delete_task_ok [OF l2(1)] Cons.IH [OF l2(2)] by simp
qed simp

lemma delete_delayed_ok:
  "delete_delayed drops q l = Inr l' \<Longrightarrow> l_delayed_work_queue l = q \<Longrightarrow> conserved l \<Longrightarrow>
   conserved l' \<and> l_work_queue l' = l_work_queue l \<and> l_deferred_queue l' = l_deferred_queue l \<and>
   l_delayed_work_queue l' = [] \<and> (q = [] \<longrightarrow> l' = l)"
proof (induction drops q l rule: delete_delayed.induct)
  case (1 drops q l)
  show ?case
  proof (cases "q = []")
    case False
    let ?l1 = "l\<lparr>l_delayed_work_queue := pq_pop q\<rparr>"
    obtain l2 where l2: "delete_task drops (pq_top q) ?l1 = Inr l2" "delete_delayed drops (pq_pop q) l2 = Inr l'"
      using "1.prems"(1) False by (cases "delete_task drops (pq_top q) ?l1") (simp_all add: delete_delayed.simps [of drops q l])
    have "mset (map ident q) = add_mset (ident (pq_top q)) (mset (map ident (pq_pop q)))" using pq_pop_mset [OF False] by simp
    then have "conserved (?l1\<lparr>l_deleted := l_deleted ?l1 @ [pq_top q]\<rparr>)"
      using "1.prems"(2,3) by (simp add: conserved_def pending_def)
    then show ?thesis using delete_task_ok [OF l2(1)] "1.IH" [OF False l2] False by simp
  qed (use "1.prems" in \<open>simp add: delete_delayed.simps\<close>)
qed

lemma DeletePendingTasks_ok:
  assumes "DeletePendingTasks drops l = Inr (did, l')" "conserved l"
  shows "conserved l' \<and> l_work_queue l' = [] \<and> l_deferred_queue l' = [] \<and> l_delayed_work_queue l' = [] \<and> (\<not> did \<longrightarrow> l' = l)"
proof -
  obtain l1 l2 where D: "delete_work drops (l_work_queue l) l = Inr l1" "delete_deferred drops (l_deferred_queue l1) l1 = Inr l2"
    "delete_delayed drops (l_delayed_work_queue l2) l2 = Inr l'"
    "did = (l_work_queue l \<noteq> [] \<or> l_deferred_queue l1 \<noteq> [] \<or> l_delayed_work_queue l2 \<noteq> [])"
    using assms(1) by (auto simp: DeletePendingTasks_def res_simps)
  have 1: "conserved l1" "l_work_queue l1 = []" "l_work_queue l = [] \<longrightarrow> l1 = l"
    using delete_work_ok [OF D(1) refl assms(2)] by simp_all
  have 2: "conserved l2" "l_work_queue l2 = []" "l_deferred_queue l2 = []" "l_deferred_queue l1 = [] \<longrightarrow> l2 = l1"
    using delete_deferred_ok [OF D(2) refl 1(1)] 1(2) by simp_all
  show ?thesis using delete_delayed_ok [OF D(3) refl 2(1)] 1 2 D(4) by auto
qed

lemma Reload_conserved:
  assumes "ReloadWorkQueue l = Inr l'" "conserved l"
  shows "conserved l' \<and> (l_work_queue l' = [] \<longrightarrow> l_incoming_queue l' = [])"
proof (cases "l_work_queue l = []")
  case False
  then show ?thesis using assms by (simp add: ReloadWorkQueue_def)
next
  case True
  then obtain l1 where l1: "next_event l = Inr l1"
    "l' = (if l_incoming_queue l1 = [] then l1 else l1\<lparr>l_incoming_queue := l_work_queue l1, l_work_queue := l_incoming_queue l1\<rparr>)"
    using assms(1) by (cases "next_event l") (simp_all add: ReloadWorkQueue_def split: if_splits)
  have "conserved l1"
    using l1(1) by (rule next_event_rule) (use assms(2) in \<open>auto simp: conserved_def pending_def\<close>)
  moreover have "l_work_queue l1 = []"
    using l1(1) by (rule next_event_rule [where P = "\<lambda>l1. l_work_queue l1 = []"]) (use True in auto)
  ultimately show ?thesis using l1(2) by (auto simp: conserved_def pending_def)
qed

lemma destroy_loop_ok:
  "destroy_loop drops n did l = Inr (False, l') \<Longrightarrow> conserved l \<Longrightarrow> n = 0 \<and> \<not> did \<or> conserved l' \<and> pending l' = []"
proof (induction n arbitrary: did l)
  case (Suc n)
  obtain d l1 l2 did' l3 where D: "DeletePendingTasks drops l = Inr (d, l1)" "ReloadWorkQueue l1 = Inr l2"
    "DeletePendingTasks drops l2 = Inr (did', l3)"
    "(if \<not> did' then Inr (did', l3) else destroy_loop drops n did' l3) = Inr (False, l')"
    using Suc.prems(1) by (auto simp: res_simps split: prod.splits)
  have 2: "conserved l2" "l_work_queue l2 = [] \<longrightarrow> l_incoming_queue l2 = []"
    using Reload_conserved [OF D(2)] DeletePendingTasks_ok [OF D(1) Suc.prems(2)] by blast+
  note 3 = DeletePendingTasks_ok [OF D(3) 2(1)]
  show ?case
  proof (cases did')
    case True
    then show ?thesis using Suc.IH [of did' l3] D(4) 3 by auto
  next
    case False
    then show ?thesis using D(4) 2 3 by (auto simp: pending_def)
  qed
qed simp

text \<open>What is posted after the last look at the queues stays in the incoming queue.\<close>

definition late :: "message_loop \<Rightarrow> message_loop \<Rightarrow> bool" where
  "late l l' \<longleftrightarrow> l_posted l' = l_posted l @ l_incoming_queue l' \<and> l_work_queue l' = l_work_queue l \<and>
     l_delayed_work_queue l' = l_delayed_work_queue l \<and> l_deferred_queue l' = l_deferred_queue l \<and>
     l_started l' = l_started l \<and> l_deleted l' = l_deleted l"

lemma late_posts:
  assumes "l_incoming_queue l = []" "fold_res post last_posts l = Inr l2" "next_event l2 = Inr l3"
  shows "late l l3" "last_posts = [] \<Longrightarrow> \<forall>e\<in>set (take 1 (l_events l)). snd e = [] \<Longrightarrow> l_incoming_queue l3 = []"
proof -
  have "late l l" using assms(1) by (simp add: late_def)
  then have "late l l2"
    using fold_post_rule [OF assms(2), of "late l"] by (auto simp: late_def)
  then show "late l l3"
    using \<open>late l l2\<close> by (intro next_event_rule [OF assms(3), of "late l"]) (auto simp: late_def)
  show "l_incoming_queue l3 = []" if "last_posts = []" "\<forall>e\<in>set (take 1 (l_events l)). snd e = []"
  proof -
    have "l2 = l" using assms(2) that(1) by simp
    with that(2) assms(1,3) show ?thesis by (cases "l_events l") (auto simp: next_event_def split: prod.splits)
  qed
qed

text \<open>
  C25: destroying a loop whose check on leftover work passes.  Each task ever posted was started
  or deleted, exactly once, those posted by the deletion of others included, except those that a
  destruction observer or another thread posts after the last \<open>ReloadWorkQueue\<close> and before the
  proxy is closed: they were accepted and are left in the incoming queue, and if there are none
  no task is left.  After it a post through the proxy is refused and changes nothing.
\<close>

theorem destruction_leaves_no_task:
  assumes "null_ticks \<le> clock" "SetNestable False \<notin> set calls"
    "program body fuel depth calls clock events = Done l" "delete_MessageLoop drops last_posts l = Inr l'"
  shows "l_work_queue l' = [] \<and> l_delayed_work_queue l' = [] \<and> l_deferred_queue l' = [] \<and>
    mset (map ident (l_posted l')) = mset (map (\<lambda>(p, d, t). ident p) (l_started l')) +
      mset (map ident (l_deleted l')) + mset (map ident (l_incoming_queue l')) \<and>
    (\<exists>l1. destroy_loop drops 100 True l = Inr (False, l1) \<and> pending l1 = [] \<and>
       l_posted l' = l_posted l1 @ l_incoming_queue l' \<and>
       (last_posts = [] \<and> (\<forall>e\<in>set (take 1 (l_events l1)). snd e = []) \<longrightarrow> pending l' = [])) \<and>
    PostTaskHelper task delay nestable l' = Inr (False, l')"
proof -
  have "conserved l"
    using program_ok [OF assms(1,2), of body fuel depth events] assms(3) by (simp add: loop_inv_def)
  obtain l1 l2 l3 where D: "destroy_loop drops 100 True l = Inr (False, l1)" "fold_res post last_posts l1 = Inr l2"
    "next_event l2 = Inr l3" "l' = Proxy_WillDestroyCurrentMessageLoop l3"
    using assms(4) unfolding delete_MessageLoop_def by (auto simp: res_simps dcheck_def split: if_splits)
  have c: "conserved l1" "pending l1 = []" using destroy_loop_ok [OF D(1) \<open>conserved l\<close>] by blast+
  then have "l_incoming_queue l1 = []" by (simp add: pending_def)
  note L = late_posts [OF this D(2,3)]
  have q: "l_work_queue l3 = []" "l_delayed_work_queue l3 = []" "l_deferred_queue l3 = []"
    using L(1) c(2) by (simp_all add: late_def pending_def)
  have "mset (map ident (l_posted l3)) = mset (map (\<lambda>(p, d, t). ident p) (l_started l3)) +
      mset (map ident (l_deleted l3)) + mset (map ident (l_incoming_queue l3))"
    using L(1) c by (simp add: late_def conserved_def)
  moreover have "l_posted l3 = l_posted l1 @ l_incoming_queue l3" using L(1) by (simp add: late_def)
  moreover have "last_posts = [] \<and> (\<forall>e\<in>set (take 1 (l_events l1)). snd e = []) \<longrightarrow> pending l3 = []"
    using L(2) q by (auto simp: pending_def)
  ultimately show ?thesis
    using D(1,4) c(2) q by (simp add: Proxy_WillDestroyCurrentMessageLoop_def PostTaskHelper_def pending_def)
qed

theorem destruction_leaves_no_task_witness:
  "\<exists>l'. delete_MessageLoop (\<lambda>i. if i = 7 then [(Some 8, TimeDelta 0, True)] else []) []
     (result (demo_calls [PostNow (Some 7) True])) = Inr l' \<and>
   mset (map ident (l_posted l')) = mset (map (\<lambda>(p, d, t). ident p) (l_started l')) +
      mset (map ident (l_deleted l')) + mset (map ident (l_incoming_queue l'))"
proof -
  let ?drops = "\<lambda>i :: nat. if i = 7 then [(Some 8, TimeDelta 0, True)] else [] :: posting list"
  let ?l = "result (demo_calls [PostNow (Some 7) True])"
  have d: "is_Done (demo_calls [PostNow (Some 7) True])" by code_simp
  have "\<not> isl (delete_MessageLoop ?drops [] ?l)" by code_simp
  then obtain l' where l': "delete_MessageLoop ?drops [] ?l = Inr l'" by (cases "delete_MessageLoop ?drops [] ?l") auto
  have "null_ticks \<le> TimeTicks 1" by (simp add: null_ticks_def)
  then have "mset (map ident (l_posted l')) = mset (map (\<lambda>(p, d, t). ident p) (l_started l')) +
      mset (map ident (l_deleted l')) + mset (map ident (l_incoming_queue l'))"
    using destruction_leaves_no_task [of "TimeTicks 1" "[PostNow (Some 7) True]" demo_body 20 2 "[(3, [(Some 5, TimeDelta 0, True)])]"
        ?l ?drops "[]" l' None "TimeDelta 0" True] d l'
    unfolding demo_calls_def [symmetric] by (cases "demo_calls [PostNow (Some 7) True]") simp_all
  with l' show ?thesis by blast
qed

end
