(* ===== verification/LinkedLists.thy ===== *)
theory LinkedLists imports Prelude begin

text \<open>
  \<open>base/linked_list.h\<close>: an intrusive, circular, doubly linked list.  The nodes are in a heap; the list itself is
  its root node.  The operations are the assignments of the source, one after the other, and fail where they
  go through a null or dangling pointer.  The theorem is that on a circle of nodes they are the operations on
  the list of the nodes.
\<close>

section \<open>Nodes\<close>

record link =
  ln_previous :: "nat ptr"
  ln_next :: "nat ptr"

type_synonym links = "nat \<rightharpoonup> link"

definition new_LinkNode :: link where
  "new_LinkNode = \<lparr>ln_previous = None, ln_next = None\<rparr>"

definition node :: "links \<Rightarrow> nat ptr \<Rightarrow> link res" where
  "node h p = (case p of None \<Rightarrow> Inl (NullDeref ''LinkNode'') | Some a \<Rightarrow>
     (case h a of None \<Rightarrow> Inl (UseAfterFree ''LinkNode'') | Some l \<Rightarrow> Inr l))"

definition previous :: "links \<Rightarrow> nat ptr \<Rightarrow> nat ptr res" where
  "previous h p = bindR (node h p) (\<lambda>l. Inr (ln_previous l))"

definition next_node :: "links \<Rightarrow> nat ptr \<Rightarrow> nat ptr res" where
  "next_node h p = bindR (node h p) (\<lambda>l. Inr (ln_next l))"

definition put_previous :: "nat ptr \<Rightarrow> nat ptr \<Rightarrow> links \<Rightarrow> links res" where
  "put_previous p x h = bindR (node h p) (\<lambda>l. Inr (h(the p \<mapsto> l\<lparr>ln_previous := x\<rparr>)))"

definition put_next :: "nat ptr \<Rightarrow> nat ptr \<Rightarrow> links \<Rightarrow> links res" where
  "put_next p x h = bindR (node h p) (\<lambda>l. Inr (h(the p \<mapsto> l\<lparr>ln_next := x\<rparr>)))"

definition InsertBefore :: "nat \<Rightarrow> nat ptr \<Rightarrow> links \<Rightarrow> links res" where
  "InsertBefore this e h =
     bindR (put_next (Some this) e h) (\<lambda>h.
     bindR (previous h e) (\<lambda>p. bindR (put_previous (Some this) p h) (\<lambda>h.
     bindR (previous h e) (\<lambda>p. bindR (put_next p (Some this) h) (\<lambda>h.
     put_previous e (Some this) h)))))"

definition InsertAfter :: "nat \<Rightarrow> nat ptr \<Rightarrow> links \<Rightarrow> links res" where
  "InsertAfter this e h =
     bindR (next_node h e) (\<lambda>n. bindR (put_next (Some this) n h) (\<lambda>h.
     bindR (put_previous (Some this) e h) (\<lambda>h.
     bindR (next_node h e) (\<lambda>n. bindR (put_previous n (Some this) h) (\<lambda>h.
     put_next e (Some this) h)))))"

definition RemoveFromList :: "nat \<Rightarrow> links \<Rightarrow> links res" where
  "RemoveFromList this h =
     bindR (previous h (Some this)) (\<lambda>p. bindR (next_node h (Some this)) (\<lambda>n. bindR (put_next p n h) (\<lambda>h.
     bindR (next_node h (Some this)) (\<lambda>n. bindR (previous h (Some this)) (\<lambda>p. put_previous n p h)))))"

section \<open>The list\<close>

definition new_LinkedList :: "nat \<Rightarrow> links \<Rightarrow> links" where
  "new_LinkedList root h = h(root \<mapsto> \<lparr>ln_previous = Some root, ln_next = Some root\<rparr>)"

definition LinkedList_Append :: "nat \<Rightarrow> nat \<Rightarrow> links \<Rightarrow> links res" where
  "LinkedList_Append root e h = InsertBefore e (Some root) h"

definition head_node :: "nat \<Rightarrow> links \<Rightarrow> nat ptr res" where "head_node root h = next_node h (Some root)"
definition tail_node :: "nat \<Rightarrow> links \<Rightarrow> nat ptr res" where "tail_node root h = previous h (Some root)"
definition end_node :: "nat \<Rightarrow> nat ptr" where "end_node root = Some root"

section \<open>Circles\<close>

definition nxt :: "links \<Rightarrow> nat \<Rightarrow> nat ptr" where "nxt h a = (case h a of None \<Rightarrow> None | Some l \<Rightarrow> ln_next l)"
definition prv :: "links \<Rightarrow> nat \<Rightarrow> nat ptr" where "prv h a = (case h a of None \<Rightarrow> None | Some l \<Rightarrow> ln_previous l)"

fun chain :: "links \<Rightarrow> nat list \<Rightarrow> bool" where
  "chain h (a # b # xs) \<longleftrightarrow> nxt h a = Some b \<and> prv h b = Some a \<and> chain h (b # xs)"
| "chain h _ \<longleftrightarrow> True"

text \<open>The list with root \<open>r\<close> holds the nodes \<open>ns\<close>.\<close>

definition is_list :: "links \<Rightarrow> nat \<Rightarrow> nat list \<Rightarrow> bool" where
  "is_list h r ns \<longleftrightarrow> distinct (r # ns) \<and> set (r # ns) \<subseteq> dom h \<and> chain h (r # ns @ [r])"

lemma chain_append: "chain h (xs @ a # ys) \<longleftrightarrow> chain h (xs @ [a]) \<and> chain h (a # ys)"
  by (induction h xs rule: chain.induct; cases ys) auto

lemma chain_cong:
  "(\<And>a. a \<in> set (butlast L) \<Longrightarrow> nxt h' a = nxt h a) \<Longrightarrow> (\<And>b. b \<in> set (tl L) \<Longrightarrow> prv h' b = prv h b) \<Longrightarrow> chain h' L = chain h L"
  by (induction h L rule: chain.induct) auto

lemma node_Inr: "node h p = Inr l \<longleftrightarrow> (\<exists>a. p = Some a \<and> h a = Some l)"
  by (auto simp: node_def split: option.splits)

lemma links_simps:
  "previous h (Some a) = Inr x \<longleftrightarrow> a \<in> dom h \<and> prv h a = x"
  "next_node h (Some a) = Inr x \<longleftrightarrow> a \<in> dom h \<and> nxt h a = x"
  by (auto simp: previous_def next_node_def node_def nxt_def prv_def split: option.splits)

lemma put_simps:
  assumes "a \<in> dom h"
  shows "\<exists>h'. put_next (Some a) x h = Inr h' \<and> nxt h' = (nxt h)(a := x) \<and> prv h' = prv h \<and> dom h' = dom h"
    and "\<exists>h'. put_previous (Some a) x h = Inr h' \<and> prv h' = (prv h)(a := x) \<and> nxt h' = nxt h \<and> dom h' = dom h"
proof -
  obtain l where l: "h a = Some l" using assms by auto
  have "nxt (h(a \<mapsto> l\<lparr>ln_next := x\<rparr>)) = (nxt h)(a := x)" "prv (h(a \<mapsto> l\<lparr>ln_next := x\<rparr>)) = prv h"
    "prv (h(a \<mapsto> l\<lparr>ln_previous := x\<rparr>)) = (prv h)(a := x)" "nxt (h(a \<mapsto> l\<lparr>ln_previous := x\<rparr>)) = nxt h"
    using l by (auto simp: nxt_def prv_def fun_eq_iff)
  moreover have "dom (h(a \<mapsto> y)) = dom h" for y using l by auto
  ultimately show "\<exists>h'. put_next (Some a) x h = Inr h' \<and> nxt h' = (nxt h)(a := x) \<and> prv h' = prv h \<and> dom h' = dom h"
    "\<exists>h'. put_previous (Some a) x h = Inr h' \<and> prv h' = (prv h)(a := x) \<and> nxt h' = nxt h \<and> dom h' = dom h"
    using l by (auto simp: put_next_def put_previous_def node_def)
qed

text \<open>Two neighbours \<open>p\<close>, \<open>e\<close> in the circle get \<open>t\<close> between them.\<close>

definition linked :: "links \<Rightarrow> nat \<Rightarrow> nat \<Rightarrow> nat \<Rightarrow> links \<Rightarrow> bool" where
  "linked h p t e h' \<longleftrightarrow> nxt h' = (nxt h)(t := Some e, p := Some t) \<and> prv h' = (prv h)(t := Some p, e := Some t) \<and> dom h' = dom h"

lemma InsertBefore_linked:
  assumes "t \<in> dom h" "e \<in> dom h" "p \<in> dom h" "prv h e = Some p" "t \<noteq> e" "t \<noteq> p"
  shows "\<exists>h'. InsertBefore t (Some e) h = Inr h' \<and> linked h p t e h'"
proof -
  obtain h1 where h1: "put_next (Some t) (Some e) h = Inr h1" "nxt h1 = (nxt h)(t := Some e)" "prv h1 = prv h" "dom h1 = dom h"
    using put_simps(1) [OF assms(1)] by blast
  obtain h2 where h2: "put_previous (Some t) (Some p) h1 = Inr h2" "prv h2 = (prv h1)(t := Some p)" "nxt h2 = nxt h1" "dom h2 = dom h"
    using put_simps(2) [of t h1 "Some p"] h1(4) assms(1) by metis
  obtain h3 where h3: "put_next (Some p) (Some t) h2 = Inr h3" "nxt h3 = (nxt h2)(p := Some t)" "prv h3 = prv h2" "dom h3 = dom h"
    using put_simps(1) [of p h2 "Some t"] h2(4) assms(3) by metis
  obtain h4 where h4: "put_previous (Some e) (Some t) h3 = Inr h4" "prv h4 = (prv h3)(e := Some t)" "nxt h4 = nxt h3" "dom h4 = dom h"
    using put_simps(2) [of e h3 "Some t"] h3(4) assms(2) by metis
  have "previous h1 (Some e) = Inr (Some p)" "previous h2 (Some e) = Inr (Some p)"
    using links_simps(1) assms h1 h2 by auto
  then show ?thesis using h1 h2 h3 h4 by (simp add: InsertBefore_def linked_def)
qed

lemma InsertAfter_linked:
  assumes "t \<in> dom h" "e \<in> dom h" "p \<in> dom h" "nxt h p = Some e" "t \<noteq> e" "t \<noteq> p"
  shows "\<exists>h'. InsertAfter t (Some p) h = Inr h' \<and> linked h p t e h'"
proof -
  obtain h1 where h1: "put_next (Some t) (Some e) h = Inr h1" "nxt h1 = (nxt h)(t := Some e)" "prv h1 = prv h" "dom h1 = dom h"
    using put_simps(1) [OF assms(1)] by blast
  obtain h2 where h2: "put_previous (Some t) (Some p) h1 = Inr h2" "prv h2 = (prv h1)(t := Some p)" "nxt h2 = nxt h1" "dom h2 = dom h"
    using put_simps(2) [of t h1 "Some p"] h1(4) assms(1) by metis
  obtain h3 where h3: "put_previous (Some e) (Some t) h2 = Inr h3" "prv h3 = (prv h2)(e := Some t)" "nxt h3 = nxt h2" "dom h3 = dom h"
    using put_simps(2) [of e h2 "Some t"] h2(4) assms(2) by metis
  obtain h4 where h4: "put_next (Some p) (Some t) h3 = Inr h4" "nxt h4 = (nxt h3)(p := Some t)" "prv h4 = prv h3" "dom h4 = dom h"
    using put_simps(1) [of p h3 "Some t"] h3(4) assms(3) by metis
  have "next_node h (Some p) = Inr (Some e)" "next_node h2 (Some p) = Inr (Some e)"
    using links_simps(2) assms h1 h2 by auto
  then show ?thesis using h1 h2 h3 h4 by (simp add: InsertAfter_def linked_def)
qed

lemma linked_chain:
  assumes c: "chain h (A @ p # e # B)" and d: "distinct (butlast (A @ p # e # B))" "distinct (tl (A @ p # e # B))"
    and t: "t \<notin> set (A @ p # e # B)" and l: "linked h p t e h'"
  shows "chain h' (A @ p # t # e # B)"
proof -
  have c1: "chain h (A @ [p])" "chain h (e # B)" using c chain_append [of h A p "e # B"] by auto
  have db: "p \<notin> set A" "p \<notin> set (butlast (e # B))" using d(1) by (auto simp: butlast_append)
  have dt: "e \<notin> set (tl (A @ [p]))" "e \<notin> set B" using d(2) by (cases A; auto)+
  have "chain h' (A @ [p])" using c1(1)
    by (subst chain_cong [where h = h]) (use db dt t l in \<open>auto simp: linked_def dest: list.set_sel(2) [rotated]\<close>)
  moreover have "chain h' (e # B)" using c1(2)
    by (subst chain_cong [where h = h]) (use db dt t l in \<open>auto simp: linked_def dest: in_set_butlastD split: if_splits\<close>)
  moreover have "nxt h' p = Some t" "prv h' t = Some p" "nxt h' t = Some e" "prv h' e = Some t" using l t by (auto simp: linked_def)
  ultimately show ?thesis using chain_append [of h' A p "t # e # B"] by simp
qed

text \<open>A neighbour pair of the circle, with what is before and behind it.\<close>

lemma is_list_insert:
  assumes "is_list h r (xs @ ys)" "t \<in> dom h" "t \<notin> set (r # xs @ ys)" "linked h (List.last (r # xs)) t (hd (ys @ [r])) h'"
  shows "is_list h' r (xs @ t # ys)"
proof -
  define A where "A = butlast (r # xs)"
  define B where "B = tl (ys @ [r])"
  define p where "p = List.last (r # xs)"
  define e where "e = hd (ys @ [r])"
  have eq: "r # xs = A @ [p]" "ys @ [r] = e # B" by (simp_all add: A_def p_def B_def e_def)
  then have c: "r # (xs @ ys) @ [r] = A @ p # e # B" "r # (xs @ t # ys) @ [r] = A @ p # t # e # B"
    by (metis append.assoc append_Cons append_Nil)+
  have d: "distinct (butlast (r # (xs @ ys) @ [r]))" "distinct (tl (r # (xs @ ys) @ [r]))" using assms(1) by (auto simp: is_list_def butlast_append)
  have "chain h' (A @ p # t # e # B)"
  proof (rule linked_chain)
    show "chain h (A @ p # e # B)" using assms(1) c(1) by (simp add: is_list_def)
    show "distinct (butlast (A @ p # e # B))" "distinct (tl (A @ p # e # B))" using d unfolding c(1) by auto
    show "t \<notin> set (A @ p # e # B)" unfolding c(1) [symmetric] using assms(3) by auto
    show "linked h p t e h'" using assms(4) by (simp add: p_def e_def)
  qed
  then show ?thesis using assms c(2) by (auto simp: is_list_def linked_def)
qed

lemma is_list_last:
  assumes "is_list h r (xs @ ys)"
  shows "nxt h (List.last (r # xs)) = Some (hd (ys @ [r]))" "prv h (hd (ys @ [r])) = Some (List.last (r # xs))"
proof -
  obtain A p e B where eq: "r # xs = A @ [p]" "ys @ [r] = e # B" by (metis append_butlast_last_id list.exhaust list.distinct(1) snoc_eq_iff_butlast)
  then have "r # (xs @ ys) @ [r] = A @ p # e # B" by (metis append.assoc append_Cons append_Nil)
  then have "chain h (A @ p # e # B)" using assms by (simp add: is_list_def)
  then have "nxt h p = Some e" "prv h e = Some p" using chain_append [of h A p "e # B"] by auto
  moreover have "List.last (r # xs) = p" "hd (ys @ [r]) = e" unfolding eq by auto
  ultimately show "nxt h (List.last (r # xs)) = Some (hd (ys @ [r]))" "prv h (hd (ys @ [r])) = Some (List.last (r # xs))" by auto
qed

lemma is_list_ends:
  assumes "is_list h r (xs @ ys)"
  shows "List.last (r # xs) \<in> dom h \<inter> set (r # xs @ ys)" "hd (ys @ [r]) \<in> dom h \<inter> set (r # xs @ ys)"
  using assms last_in_set [of "r # xs"] by (cases ys; auto simp: is_list_def)+

lemma InsertBefore_list:
  assumes "is_list h r (xs @ ys)" "t \<in> dom h" "t \<notin> set (r # xs @ ys)"
  shows "\<exists>h'. InsertBefore t (Some (hd (ys @ [r]))) h = Inr h' \<and> is_list h' r (xs @ t # ys) \<and> dom h' = dom h"
proof -
  note e = is_list_ends [OF assms(1)]
  have "t \<noteq> hd (ys @ [r])" "t \<noteq> List.last (r # xs)" using e assms(3) by blast+
  then obtain h' where "InsertBefore t (Some (hd (ys @ [r]))) h = Inr h'" "linked h (List.last (r # xs)) t (hd (ys @ [r])) h'"
    using InsertBefore_linked [OF assms(2), of "hd (ys @ [r])" "List.last (r # xs)"] e is_list_last [OF assms(1)] by blast
  then show ?thesis using is_list_insert [OF assms] by (auto simp: linked_def)
qed

lemma InsertAfter_list:
  assumes "is_list h r (xs @ ys)" "t \<in> dom h" "t \<notin> set (r # xs @ ys)"
  shows "\<exists>h'. InsertAfter t (Some (List.last (r # xs))) h = Inr h' \<and> is_list h' r (xs @ t # ys) \<and> dom h' = dom h"
proof -
  note e = is_list_ends [OF assms(1)]
  have "t \<noteq> hd (ys @ [r])" "t \<noteq> List.last (r # xs)" using e assms(3) by blast+
  then obtain h' where "InsertAfter t (Some (List.last (r # xs))) h = Inr h'" "linked h (List.last (r # xs)) t (hd (ys @ [r])) h'"
    using InsertAfter_linked [OF assms(2), of "hd (ys @ [r])" "List.last (r # xs)"] e is_list_last [OF assms(1)] by blast
  then show ?thesis using is_list_insert [OF assms] by (auto simp: linked_def)
qed

text \<open>Removal: the neighbours of \<open>t\<close> are joined; \<open>t\<close> keeps its own links.\<close>

lemma RemoveFromList_list:
  assumes "is_list h r (xs @ t # ys)"
  shows "\<exists>h'. RemoveFromList t h = Inr h' \<and> is_list h' r (xs @ ys) \<and> dom h' = dom h"
proof -
  define p where "p = List.last (r # xs)"
  define e where "e = hd (ys @ [r])"
  have t: "nxt h t = Some e" "prv h t = Some p"
    using is_list_last(1) [of h r "xs @ [t]" ys] is_list_last(2) [of h r xs "t # ys"] assms by (simp_all add: p_def e_def)
  have m: "p \<in> dom h" "e \<in> dom h" "t \<in> dom h"
    using is_list_ends(1) [of h r xs "t # ys"] is_list_ends(2) [of h r "xs @ [t]" ys] assms by (auto simp: p_def e_def is_list_def)
  have d: "distinct (r # xs @ t # ys)" using assms by (simp add: is_list_def)
  have tp: "t \<noteq> p" using d last_in_set [of "r # xs"] by (auto simp: p_def)
  have te: "t \<noteq> e" using d by (cases ys) (auto simp: e_def)
  obtain h1 where h1: "put_next (Some p) (Some e) h = Inr h1" "nxt h1 = (nxt h)(p := Some e)" "prv h1 = prv h" "dom h1 = dom h"
    using put_simps(1) [OF m(1)] by blast
  obtain h2 where h2: "put_previous (Some e) (Some p) h1 = Inr h2" "prv h2 = (prv h1)(e := Some p)" "nxt h2 = nxt h1" "dom h2 = dom h"
    using put_simps(2) [of e h1 "Some p"] h1(4) m(2) by metis
  have "previous h (Some t) = Inr (Some p)" "next_node h (Some t) = Inr (Some e)" "previous h1 (Some t) = Inr (Some p)" "next_node h1 (Some t) = Inr (Some e)"
    using links_simps m t tp h1 by auto
  then have "RemoveFromList t h = Inr h2" using h1 h2 by (simp add: RemoveFromList_def)
  moreover have "is_list h2 r (xs @ ys)"
  proof -
    obtain A B where eq: "r # xs = A @ [p]" "ys @ [r] = e # B" unfolding p_def e_def by (metis append_butlast_last_id list.distinct(1) list.exhaust_sel snoc_eq_iff_butlast)
    have c: "r # (xs @ t # ys) @ [r] = A @ p # t # e # B" "r # (xs @ ys) @ [r] = A @ p # e # B" using eq by (metis append.assoc append_Cons append_Nil)+
    have "chain h (A @ p # t # e # B)" using assms c(1) by (simp add: is_list_def)
    then have c1: "chain h (A @ [p])" "chain h (e # B)" using chain_append [of h A p "t # e # B"] by auto
    have db: "p \<notin> set A" "p \<notin> set (butlast (e # B))" "e \<notin> set (tl (A @ [p]))" "e \<notin> set B"
    proof -
      have "distinct (butlast (A @ p # t # e # B))" "distinct (tl (A @ p # t # e # B))"
        unfolding c(1) [symmetric] using d by (auto simp: butlast_append)
      then show "p \<notin> set A" "p \<notin> set (butlast (e # B))" "e \<notin> set (tl (A @ [p]))" "e \<notin> set B"
        by (cases A; auto simp: butlast_append)+
    qed
    have "chain h2 (A @ [p])" using c1(1) by (subst chain_cong [where h = h]) (use db h1 h2 in auto)
    moreover have "chain h2 (e # B)" using c1(2) by (subst chain_cong [where h = h]) (use db h1 h2 in auto)
    ultimately have "chain h2 (A @ p # e # B)" using h1 h2 chain_append [of h2 A p "e # B"] by simp
    then show ?thesis using assms c(2) h2(4) by (auto simp: is_list_def)
  qed
  ultimately show ?thesis using h2(4) by blast
qed

section \<open>Refinement of lists\<close>

datatype command = Insert_before nat nat | Insert_after nat nat | Unlink nat | Append_node nat

text \<open>What a caller may ask for, and the list it gets; \<open>alive\<close> are the nodes that exist.\<close>

fun list_command :: "nat \<Rightarrow> nat set \<Rightarrow> command \<Rightarrow> nat list \<Rightarrow> nat list option" where
  "list_command r alive (Insert_before t e) ns =
     (if t \<in> alive - set (r # ns) \<and> e \<in> set (r # ns) then Some (takeWhile (\<lambda>n. n \<noteq> e) ns @ t # dropWhile (\<lambda>n. n \<noteq> e) ns) else None)"
| "list_command r alive (Insert_after t e) ns =
     (if t \<in> alive - set (r # ns) \<and> e \<in> set (r # ns) then
        Some (if e = r then t # ns else takeWhile (\<lambda>n. n \<noteq> e) ns @ e # t # tl (dropWhile (\<lambda>n. n \<noteq> e) ns)) else None)"
| "list_command r alive (Unlink t) ns = (if t \<in> set ns then Some (remove1 t ns) else None)"
| "list_command r alive (Append_node t) ns = (if t \<in> alive - set (r # ns) then Some (ns @ [t]) else None)"

fun link_command :: "nat \<Rightarrow> command \<Rightarrow> links \<Rightarrow> links res" where
  "link_command r (Insert_before t e) h = InsertBefore t (Some e) h"
| "link_command r (Insert_after t e) h = InsertAfter t (Some e) h"
| "link_command r (Unlink t) h = RemoveFromList t h"
| "link_command r (Append_node t) h = LinkedList_Append r t h"

fun list_commands :: "nat \<Rightarrow> nat set \<Rightarrow> command list \<Rightarrow> nat list \<Rightarrow> nat list option" where
  "list_commands r alive [] ns = Some ns"
| "list_commands r alive (c # cs) ns = (case list_command r alive c ns of None \<Rightarrow> None | Some ns' \<Rightarrow> list_commands r alive cs ns')"

fun link_commands :: "nat \<Rightarrow> command list \<Rightarrow> links \<Rightarrow> links res" where
  "link_commands r [] h = Inr h"
| "link_commands r (c # cs) h = bindR (link_command r c h) (link_commands r cs)"

lemma split_at: "e \<in> set ns \<Longrightarrow> ns = takeWhile (\<lambda>n. n \<noteq> e) ns @ e # tl (dropWhile (\<lambda>n. n \<noteq> e) ns)"
  by (induction ns) auto

lemma remove1_split: "distinct (xs @ t # ys) \<Longrightarrow> remove1 t (xs @ t # ys) = xs @ ys"
  by (simp add: remove1_append)

lemma command_refines:
  assumes "is_list h r ns" "list_command r (dom h) c ns = Some ns'"
  shows "\<exists>h'. link_command r c h = Inr h' \<and> is_list h' r ns' \<and> dom h' = dom h"
proof (cases c)
  case (Insert_before t e)
  let ?xs = "takeWhile (\<lambda>n. n \<noteq> e) ns" and ?ys = "dropWhile (\<lambda>n. n \<noteq> e) ns"
  have t: "t \<in> dom h" "t \<notin> set (r # ?xs @ ?ys)" and e: "e = r \<or> e \<in> set ns" and ns': "ns' = ?xs @ t # ?ys"
    using assms(2) Insert_before by (auto split: if_splits)
  have d: "r \<notin> set ns" using assms(1) by (simp add: is_list_def)
  have "hd (?ys @ [r]) = e"
  proof (cases "e \<in> set ns")
    case True
    then have "?ys \<noteq> []" by (simp add: dropWhile_eq_Nil_conv)
    then show ?thesis using hd_dropWhile [of "\<lambda>n. n \<noteq> e" ns] by simp
  next
    case False
    then have y: "?ys = []" by (auto simp: dropWhile_eq_Nil_conv)
    show ?thesis unfolding y using e False by simp
  qed
  then show ?thesis using InsertBefore_list [of h r ?xs ?ys t] assms(1) t ns' Insert_before by simp
next
  case (Insert_after t e)
  then have t: "t \<in> dom h" "t \<notin> set (r # ns)" "e = r \<or> e \<in> set ns" using assms(2) by (auto split: if_splits)
  show ?thesis
  proof (cases "e = r")
    case True
    then show ?thesis using InsertAfter_list [of h r "[]" ns t] assms t Insert_after by auto
  next
    case False
    let ?xs = "takeWhile (\<lambda>n. n \<noteq> e) ns @ [e]" and ?ys = "tl (dropWhile (\<lambda>n. n \<noteq> e) ns)"
    have eq: "ns = ?xs @ ?ys" using split_at [of e ns] t(3) False by simp
    then have "is_list h r (?xs @ ?ys)" "t \<notin> set (r # ?xs @ ?ys)" using assms(1) t(2) by simp_all
    then show ?thesis using InsertAfter_list [of h r ?xs ?ys t] t(1) assms(2) Insert_after False by (auto split: if_splits)
  qed
next
  case (Unlink t)
  then have t: "t \<in> set ns" "ns' = remove1 t ns" using assms(2) by (auto split: if_splits)
  then obtain xs ys where eq: "ns = xs @ t # ys" by (meson split_list)
  then have "distinct (xs @ t # ys)" using assms(1) by (simp add: is_list_def)
  then have "ns' = xs @ ys" using remove1_split [of xs t ys] t(2) eq by simp
  then show ?thesis using RemoveFromList_list [of h r xs t ys] assms(1) eq Unlink by simp
next
  case (Append_node t)
  then have "t \<in> dom h" "t \<notin> set (r # ns @ [])" "ns' = ns @ t # []" using assms(2) by (auto split: if_splits)
  then show ?thesis using InsertBefore_list [of h r ns "[]" t] assms(1) Append_node by (simp add: LinkedList_Append_def)
qed

text \<open>
  C34: any sequence of permitted calls on a linked list, insertions next to any node or the end and removals, touches no
  null or dangling pointer and leaves the circle of the list that the same calls make, with its first and last nodes
  (or the end) at \<open>head\<close> and \<open>tail\<close>.
\<close>

theorem linked_list_refinement:
  assumes "is_list h r ns" "list_commands r (dom h) cs ns = Some ns'"
  shows "\<exists>h'. link_commands r cs h = Inr h' \<and> is_list h' r ns' \<and>
    head_node r h' = Inr (Some (hd (ns' @ [r]))) \<and> tail_node r h' = Inr (Some (List.last (r # ns')))"
  using assms
proof (induction cs arbitrary: h ns)
  case Nil
  then have l: "is_list h r ns'" "r \<in> dom h" by (auto simp: is_list_def)
  then show ?case using is_list_last(1) [of h r "[]" ns'] is_list_last(2) [of h r ns' "[]"] Nil
    by (auto simp: head_node_def tail_node_def links_simps)
next
  case (Cons c cs)
  obtain ns1 where c: "list_command r (dom h) c ns = Some ns1" "list_commands r (dom h) cs ns1 = Some ns'"
    using Cons(3) by (auto split: option.splits)
  obtain h1 where h1: "link_command r c h = Inr h1" "is_list h1 r ns1" "dom h1 = dom h" using command_refines [OF Cons(2) c(1)] by blast
  then show ?case using Cons(1) [OF h1(2)] c(2) by simp
qed

lemma new_LinkedList_empty: "is_list (new_LinkedList r h) r []"
  by (simp add: is_list_def new_LinkedList_def nxt_def prv_def)

theorem linked_list_refinement_witness:
  "\<exists>h'. link_commands 0 [Append_node 1, Append_node 2, Insert_before 3 2, Unlink 1]
        (new_LinkedList 0 [1 \<mapsto> new_LinkNode, 2 \<mapsto> new_LinkNode, 3 \<mapsto> new_LinkNode]) = Inr h' \<and> is_list h' 0 [3, 2] \<and>
    head_node 0 h' = Inr (Some (hd ([3, 2] @ [0]))) \<and> tail_node 0 h' = Inr (Some (List.last (0 # [3, 2])))"
  by (rule linked_list_refinement [OF new_LinkedList_empty]) (simp add: new_LinkedList_def)

end
