(* ===== verification/MruCache.thy ===== *)
theory MruCache imports Prelude "HOL-Library.Multiset" begin

text \<open>
  \<open>base/memory/mru_cache.h\<close>: a cache that keeps its entries in the order of their last use.  The list \<open>ordering_\<close>
  has nodes that iterators point to (numbers), the map \<open>index_\<close> leads from keys to nodes, and \<open>deletor_\<close> is
  called on payloads that leave; what it was called on is recorded.
\<close>

section \<open>The cache\<close>

record ('k, 'p) cache =
  ca_ordering :: "(nat \<times> 'k \<times> 'p) list"
  ca_index :: "('k \<times> nat) list"
  ca_max_size :: nat
  ca_fresh :: nat                     \<comment> \<open>the next node\<close>
  ca_deleted :: "'p list"             \<comment> \<open>the calls of \<open>deletor_\<close>\<close>

definition NO_AUTO_EVICT :: nat where "NO_AUTO_EVICT = 0"

definition new_MRUCache :: "nat \<Rightarrow> ('k, 'p) cache" where
  "new_MRUCache max_size = \<lparr>ca_ordering = [], ca_index = [], ca_max_size = max_size, ca_fresh = 0, ca_deleted = []\<rparr>"

definition cache_size :: "('k, 'p) cache \<Rightarrow> nat res" where
  "cache_size c = bindR (dcheck (length (ca_index c) = length (ca_ordering c)) ''index_.size() == ordering_.size()'') (\<lambda>_.
     Inr (length (ca_index c)))"

text \<open>Iterators: a node or the end.\<close>

definition cache_begin :: "('k, 'p) cache \<Rightarrow> nat option" where
  "cache_begin c = (case ca_ordering c of [] \<Rightarrow> None | e # _ \<Rightarrow> Some (fst e))"

definition following :: "nat \<Rightarrow> (nat \<times> 'e) list \<Rightarrow> nat option" where
  "following pos l = (case dropWhile (\<lambda>e. fst e \<noteq> pos) l of _ # e # _ \<Rightarrow> Some (fst e) | _ \<Rightarrow> None)"

definition Cache_Erase :: "nat option \<Rightarrow> ('k, 'p) cache \<Rightarrow> (nat option \<times> ('k, 'p) cache) res" where
  "Cache_Erase pos c = (case pos of None \<Rightarrow> Inl (OutOfBounds ''end()'') | Some i \<Rightarrow>
     (case map_of (ca_ordering c) i of None \<Rightarrow> Inl (UseAfterFree ''iterator'') | Some (k, p) \<Rightarrow>
        Inr (following i (ca_ordering c), c\<lparr>ca_deleted := ca_deleted c @ [p],
          ca_index := filter (\<lambda>x. fst x \<noteq> k) (ca_index c),
          ca_ordering := filter (\<lambda>e. fst e \<noteq> i) (ca_ordering c)\<rparr>)))"

text \<open>\<open>Erase(rbegin())\<close>.\<close>

definition Erase_rbegin :: "('k, 'p) cache \<Rightarrow> ('k, 'p) cache res" where
  "Erase_rbegin c = bindR (Cache_Erase (if ca_ordering c = [] then None else Some (fst (List.last (ca_ordering c)))) c) (\<lambda>(_, c). Inr c)"

fun shrink_loop :: "nat \<Rightarrow> ('k, 'p) cache \<Rightarrow> ('k, 'p) cache res" where
  "shrink_loop 0 c = Inr c"
| "shrink_loop (Suc n) c = bindR (Erase_rbegin c) (shrink_loop n)"

definition ShrinkToSize :: "nat \<Rightarrow> ('k, 'p) cache \<Rightarrow> ('k, 'p) cache res" where
  "ShrinkToSize new_size c = bindR (cache_size c) (\<lambda>i. shrink_loop (i - new_size) c)"

definition Cache_Put :: "'k \<Rightarrow> 'p \<Rightarrow> ('k, 'p) cache \<Rightarrow> (nat option \<times> ('k, 'p) cache) res" where
  "Cache_Put key payload c =
     bindR (case map_of (ca_index c) key of
              Some i \<Rightarrow> bindR (Cache_Erase (Some i) c) (\<lambda>(_, c). Inr c)
            | None \<Rightarrow> if ca_max_size c \<noteq> NO_AUTO_EVICT then ShrinkToSize (ca_max_size c - 1) c else Inr c) (\<lambda>c.
       let n = ca_fresh c;
           c1 = c\<lparr>ca_ordering := (n, key, payload) # ca_ordering c, ca_fresh := n + 1\<rparr>;
           c2 = (if map_of (ca_index c1) key = None then c1\<lparr>ca_index := (key, n) # ca_index c1\<rparr> else c1)
       in Inr (cache_begin c2, c2))"

definition Cache_Get :: "'k \<Rightarrow> ('k, 'p) cache \<Rightarrow> (nat option \<times> ('k, 'p) cache) res" where
  "Cache_Get key c = (case map_of (ca_index c) key of None \<Rightarrow> Inr (None, c) | Some i \<Rightarrow>
     (case map_of (ca_ordering c) i of None \<Rightarrow> Inl (UseAfterFree ''iterator'') | Some e \<Rightarrow>
        let c1 = c\<lparr>ca_ordering := (i, e) # filter (\<lambda>e. fst e \<noteq> i) (ca_ordering c)\<rparr> in Inr (cache_begin c1, c1)))"

definition Cache_Peek :: "'k \<Rightarrow> ('k, 'p) cache \<Rightarrow> nat option" where
  "Cache_Peek key c = map_of (ca_index c) key"

definition Cache_Clear :: "('k, 'p) cache \<Rightarrow> ('k, 'p) cache" where
  "Cache_Clear c = c\<lparr>ca_deleted := ca_deleted c @ map (\<lambda>e. snd (snd e)) (ca_ordering c), ca_index := [], ca_ordering := []\<rparr>"

lemma Cache_Erase_less: "Cache_Erase pos c = Inr (j, c') \<Longrightarrow> length (ca_ordering c') < length (ca_ordering c)"
proof -
  assume "Cache_Erase pos c = Inr (j, c')"
  then obtain i e where "map_of (ca_ordering c) i = Some e" "ca_ordering c' = filter (\<lambda>e. fst e \<noteq> i) (ca_ordering c)"
    by (auto simp: Cache_Erase_def split: option.splits)
  then show ?thesis using length_filter_less [of "(i, e)" "ca_ordering c" "\<lambda>e. fst e \<noteq> i"] map_of_SomeD by fastforce
qed

text \<open>\<open>~MRUCacheBase\<close>: erases from an iterator on.\<close>

function destroy_from :: "nat option \<Rightarrow> ('k, 'p) cache \<Rightarrow> ('k, 'p) cache res" where
  "destroy_from i c = (if i = None then Inr c else case Cache_Erase i c of Inl e \<Rightarrow> Inl e | Inr (j, c1) \<Rightarrow> destroy_from j c1)"
  by pat_completeness auto
termination by (relation "measure (\<lambda>(i, c). length (ca_ordering c))") (auto dest: Cache_Erase_less)

declare destroy_from.simps [simp del]

definition destroy_MRUCache :: "('k, 'p) cache \<Rightarrow> ('k, 'p) cache res" where
  "destroy_MRUCache c = destroy_from (cache_begin c) c"

section \<open>The invariant\<close>

definition entries :: "('k, 'p) cache \<Rightarrow> ('k \<times> 'p) list" where
  "entries c = map snd (ca_ordering c)"

definition key_nodes :: "('k, 'p) cache \<Rightarrow> ('k \<times> nat) set" where
  "key_nodes c = (\<lambda>(i, k, p). (k, i)) ` set (ca_ordering c)"

definition cache_ok :: "('k, 'p) cache \<Rightarrow> bool" where
  "cache_ok c \<longleftrightarrow> distinct (map fst (ca_ordering c)) \<and> distinct (map fst (entries c)) \<and> distinct (map fst (ca_index c)) \<and>
     set (ca_index c) = key_nodes c \<and> (\<forall>i\<in>fst ` set (ca_ordering c). i < ca_fresh c) \<and>
     (ca_max_size c \<noteq> NO_AUTO_EVICT \<longrightarrow> length (ca_ordering c) \<le> ca_max_size c)"

text \<open>A payload is in the cache or was deleted.\<close>

definition owned :: "('k, 'p) cache \<Rightarrow> 'p multiset" where
  "owned c = mset (map snd (entries c)) + mset (ca_deleted c)"

lemma new_cache_ok: "cache_ok (new_MRUCache n)"
  by (simp add: cache_ok_def new_MRUCache_def entries_def key_nodes_def)

lemma key_nodes_map: "key_nodes c = set (map (\<lambda>(i, k, p). (k, i)) (ca_ordering c))"
  by (simp add: key_nodes_def)

lemma index_length: "cache_ok c \<Longrightarrow> length (ca_index c) = length (ca_ordering c)"
proof -
  assume ok: "cache_ok c"
  have d: "distinct (ca_index c)" using ok by (simp add: cache_ok_def distinct_map)
  have m: "map fst (map (\<lambda>(i, k, p). (k, i)) (ca_ordering c)) = map fst (entries c)" by (auto simp: entries_def)
  have "distinct (map (\<lambda>(i, k, p). (k, i)) (ca_ordering c))"
    using ok m by (intro distinct_map [THEN iffD1, THEN conjunct1, of fst]) (simp add: cache_ok_def)
  then have "card (key_nodes c) = length (ca_ordering c)" unfolding key_nodes_map by (simp only: distinct_card length_map)
  then show ?thesis using ok distinct_card [OF d] by (simp add: cache_ok_def)
qed

lemma cache_size_ok: "cache_ok c \<Longrightarrow> cache_size c = Inr (length (entries c))"
  by (simp add: cache_size_def index_length entries_def)

lemma index_Some: "cache_ok c \<Longrightarrow> map_of (ca_index c) k = Some i \<longleftrightarrow> (\<exists>p. (i, k, p) \<in> set (ca_ordering c))"
proof -
  assume c: "cache_ok c"
  have "(k, i) \<in> key_nodes c \<longleftrightarrow> (\<exists>p. (i, k, p) \<in> set (ca_ordering c))" unfolding key_nodes_def by (force simp: image_iff)
  then show ?thesis using c by (simp add: cache_ok_def)
qed

lemma ordering_Some: "cache_ok c \<Longrightarrow> map_of (ca_ordering c) i = Some e \<longleftrightarrow> (i, e) \<in> set (ca_ordering c)"
  by (simp add: cache_ok_def)

lemma index_entries: "cache_ok c \<Longrightarrow> (\<exists>i. map_of (ca_index c) k = Some i) \<longleftrightarrow> k \<in> fst ` set (entries c)"
  by (force simp: index_Some entries_def)

lemma key_node: "cache_ok c \<Longrightarrow> (i, k, p) \<in> set (ca_ordering c) \<Longrightarrow> e \<in> set (ca_ordering c) \<Longrightarrow> fst e = i \<longleftrightarrow> fst (snd e) = k"
proof -
  assume c: "cache_ok c" and i: "(i, k, p) \<in> set (ca_ordering c)" and e: "e \<in> set (ca_ordering c)"
  have "inj_on fst (set (ca_ordering c))" "inj_on (fst \<circ> snd) (set (ca_ordering c))"
    using c by (simp_all add: cache_ok_def entries_def distinct_map comp_inj_on)
  then have "fst e = fst (i, k, p) \<Longrightarrow> e = (i, k, p)" "(fst \<circ> snd) e = (fst \<circ> snd) (i, k, p) \<Longrightarrow> e = (i, k, p)" using i e by (metis inj_onD)+
  then show ?thesis by (cases e) auto
qed

lemma filter_node: "cache_ok c \<Longrightarrow> (i, k, p) \<in> set (ca_ordering c) \<Longrightarrow>
    filter (\<lambda>e. fst e \<noteq> i) (ca_ordering c) = filter ((\<lambda>e. fst e \<noteq> k) \<circ> snd) (ca_ordering c)"
  using key_node [of c i k p] by (intro filter_cong) auto

lemma filter_remove1: "distinct (map fst l) \<Longrightarrow> (i, e) \<in> set l \<Longrightarrow> filter (\<lambda>x. fst x \<noteq> i) l = remove1 (i, e) l"
proof (induction l)
  case (Cons x l)
  show ?case
  proof (cases "x = (i, e)")
    case True
    then show ?thesis using Cons(2) by (force simp: filter_id_conv)
  next
    case False
    then have "(i, e) \<in> set l" using Cons(3) by auto
    moreover have "fst x \<notin> fst ` set l" using Cons(2) by simp
    ultimately have "fst x \<noteq> i" by (metis fst_conv image_eqI)
    then show ?thesis using Cons False by auto
  qed
qed simp

lemma Erase_ok:
  assumes "cache_ok c" "(i, k, p) \<in> set (ca_ordering c)"
  shows "\<exists>c'. Cache_Erase (Some i) c = Inr (following i (ca_ordering c), c') \<and> cache_ok c' \<and>
    ca_ordering c' = filter (\<lambda>e. fst e \<noteq> i) (ca_ordering c) \<and>
    entries c' = filter (\<lambda>e. fst e \<noteq> k) (entries c) \<and> owned c' = owned c \<and> ca_max_size c' = ca_max_size c"
proof -
  define c' where "c' = c\<lparr>ca_deleted := ca_deleted c @ [p], ca_index := filter (\<lambda>x. fst x \<noteq> k) (ca_index c),
    ca_ordering := filter (\<lambda>e. fst e \<noteq> i) (ca_ordering c)\<rparr>"
  have E: "Cache_Erase (Some i) c = Inr (following i (ca_ordering c), c')"
    using ordering_Some [OF assms(1), THEN iffD2, OF assms(2)] by (simp add: Cache_Erase_def c'_def)
  have en: "entries c' = filter (\<lambda>e. fst e \<noteq> k) (entries c)"
    using filter_node [OF assms] by (simp add: entries_def filter_map c'_def)
  have d: "distinct (map fst (ca_ordering c))" using assms(1) by (simp add: cache_ok_def)
  have "mset (ca_ordering c) = add_mset (i, k, p) (mset (ca_ordering c'))"
    using filter_remove1 [OF d assms(2)] assms(2) by (simp add: c'_def)
  then have "image_mset (\<lambda>e. snd (snd e)) (mset (ca_ordering c)) = add_mset p (image_mset (\<lambda>e. snd (snd e)) (mset (ca_ordering c')))" by simp
  then have ow: "owned c' = owned c" by (simp add: owned_def entries_def multiset.map_comp comp_def c'_def)
  have kn: "key_nodes c' = {x \<in> key_nodes c. fst x \<noteq> k}"
    using key_node [OF assms] by (force simp: key_nodes_def c'_def)
  have "cache_ok c'"
    unfolding cache_ok_def
  proof (intro conjI)
    show "distinct (map fst (entries c'))" unfolding en using assms(1) by (auto simp: cache_ok_def distinct_map inj_on_def)
    show "set (ca_index c') = key_nodes c'" using kn assms(1) by (auto simp: c'_def cache_ok_def)
    show "ca_max_size c' \<noteq> NO_AUTO_EVICT \<longrightarrow> length (ca_ordering c') \<le> ca_max_size c'"
      using assms(1) length_filter_le [of "\<lambda>e. fst e \<noteq> i" "ca_ordering c"] by (auto simp: c'_def cache_ok_def simp del: length_filter_le)
  qed (use assms(1) in \<open>auto simp: c'_def cache_ok_def distinct_map inj_on_def\<close>)
  then show ?thesis using E en ow by (intro exI [of _ c']) (simp add: c'_def)
qed

lemma Erase_rbegin_ok:
  assumes "cache_ok c" "entries c \<noteq> []"
  shows "\<exists>c'. Erase_rbegin c = Inr c' \<and> cache_ok c' \<and> entries c' = butlast (entries c) \<and> owned c' = owned c \<and> ca_max_size c' = ca_max_size c"
proof -
  obtain l i k p where l: "ca_ordering c = l @ [(i, k, p)]" using assms(2) by (cases "ca_ordering c" rule: rev_cases) (auto simp: entries_def)
  then obtain c' where c': "Cache_Erase (Some i) c = Inr (following i (ca_ordering c), c')" "cache_ok c'"
      "entries c' = filter (\<lambda>e. fst e \<noteq> k) (entries c)" "owned c' = owned c" "ca_max_size c' = ca_max_size c"
    using Erase_ok [OF assms(1), of i k p] by auto
  have "distinct (map fst (map snd l) @ [k])" using assms(1) by (simp add: cache_ok_def entries_def l)
  then have "k \<notin> fst ` set (map snd l)" by (simp add: image_image)
  then have "filter (\<lambda>e. fst e \<noteq> k) (entries c) = butlast (entries c)" using l by (force simp: entries_def filter_id_conv)
  then show ?thesis using c' l by (simp add: Erase_rbegin_def)
qed

lemma shrink_loop_ok:
  "cache_ok c \<Longrightarrow> n \<le> length (entries c) \<Longrightarrow> \<exists>c'. shrink_loop n c = Inr c' \<and> cache_ok c' \<and> entries c' = take (length (entries c) - n) (entries c) \<and>
    owned c' = owned c \<and> ca_max_size c' = ca_max_size c"
proof (induction n arbitrary: c)
  case (Suc n)
  have ne: "entries c \<noteq> []" using Suc(3) by auto
  obtain c1 where c1: "Erase_rbegin c = Inr c1" "cache_ok c1" "entries c1 = butlast (entries c)" "owned c1 = owned c" "ca_max_size c1 = ca_max_size c"
    using Erase_rbegin_ok [OF Suc(2) ne] by auto
  obtain c2 where "shrink_loop n c1 = Inr c2" "cache_ok c2" "entries c2 = take (length (entries c1) - n) (entries c1)"
      "owned c2 = owned c1" "ca_max_size c2 = ca_max_size c1"
    using Suc(1) [OF c1(2)] c1(3) Suc(3) by fastforce
  then show ?case using c1 Suc(3) by (simp add: take_butlast)
qed simp

lemma ShrinkToSize_ok:
  assumes "cache_ok c"
  shows "\<exists>c'. ShrinkToSize n c = Inr c' \<and> cache_ok c' \<and> entries c' = take n (entries c) \<and> owned c' = owned c \<and> ca_max_size c' = ca_max_size c"
proof (cases "n \<le> length (entries c)")
  case True
  then show ?thesis using shrink_loop_ok [OF assms, of "length (entries c) - n"] by (simp add: ShrinkToSize_def cache_size_ok [OF assms])
next
  case False
  then show ?thesis using assms by (simp add: ShrinkToSize_def cache_size_ok [OF assms])
qed

section \<open>Recency lists\<close>

definition without :: "'k \<Rightarrow> ('k \<times> 'p) list \<Rightarrow> ('k \<times> 'p) list" where
  "without k l = filter (\<lambda>e. fst e \<noteq> k) l"

definition lru_put :: "nat \<Rightarrow> 'k \<Rightarrow> 'p \<Rightarrow> ('k \<times> 'p) list \<Rightarrow> ('k \<times> 'p) list" where
  "lru_put capacity k p l =
     (k, p) # (if k \<in> fst ` set l then without k l else if capacity = NO_AUTO_EVICT then l else take (capacity - 1) l)"

definition lru_get :: "'k \<Rightarrow> ('k \<times> 'p) list \<Rightarrow> ('k \<times> 'p) list" where
  "lru_get k l = (case map_of l k of None \<Rightarrow> l | Some p \<Rightarrow> (k, p) # without k l)"

lemma push_ok:
  fixes c :: "('k, 'p) cache" and p :: 'p
  assumes "cache_ok c" "k \<notin> fst ` set (entries c)" "ca_max_size c \<noteq> NO_AUTO_EVICT \<Longrightarrow> length (entries c) < ca_max_size c"
  defines "c' \<equiv> c\<lparr>ca_ordering := (ca_fresh c, k, p) # ca_ordering c, ca_fresh := ca_fresh c + 1, ca_index := (k, ca_fresh c) # ca_index c\<rparr>"
  shows "cache_ok c'" "entries c' = (k, p) # entries c" "owned c' = add_mset p (owned c)"
proof -
  have "fst ` key_nodes c = fst ` set (entries c)" by (force simp: key_nodes_def entries_def image_iff)
  then have k: "k \<notin> fst ` set (ca_index c)" using assms(1,2) by (simp add: cache_ok_def)
  have n: "ca_fresh c \<notin> fst ` set (ca_ordering c)" using assms(1) by (auto simp: cache_ok_def)
  have kn: "key_nodes c' = insert (k, ca_fresh c) (key_nodes c)" "entries c' = (k, p) # entries c" "length (entries c) = length (ca_ordering c)"
    by (simp_all add: key_nodes_def c'_def entries_def)
  show "cache_ok c'" unfolding cache_ok_def kn
  proof (intro conjI)
    show "ca_max_size c' \<noteq> NO_AUTO_EVICT \<longrightarrow> length (ca_ordering c') \<le> ca_max_size c'" using assms(3) kn(3) by (auto simp: c'_def intro: Suc_leI)
    show "\<forall>i\<in>fst ` set (ca_ordering c'). i < ca_fresh c'" using assms(1) by (auto simp: c'_def cache_ok_def)
  qed (use assms(1,2) k n in \<open>simp_all add: c'_def cache_ok_def\<close>)
qed (simp_all add: c'_def entries_def owned_def)

lemma Put_ok:
  assumes "cache_ok c"
  shows "\<exists>i c'. Cache_Put k p c = Inr (Some i, c') \<and> map_of (ca_ordering c') i = Some (k, p) \<and> cache_ok c' \<and>
    entries c' = lru_put (ca_max_size c) k p (entries c) \<and> owned c' = add_mset p (owned c) \<and> ca_max_size c' = ca_max_size c"
proof -
  obtain c1 where c1: "(case map_of (ca_index c) k of
              Some i \<Rightarrow> bindR (Cache_Erase (Some i) c) (\<lambda>(_, c). Inr c)
            | None \<Rightarrow> if ca_max_size c \<noteq> NO_AUTO_EVICT then ShrinkToSize (ca_max_size c - 1) c else Inr c) = Inr c1"
      "cache_ok c1" "(k, p) # entries c1 = lru_put (ca_max_size c) k p (entries c)" "owned c1 = owned c" "ca_max_size c1 = ca_max_size c"
      "k \<notin> fst ` set (entries c1)" "ca_max_size c \<noteq> NO_AUTO_EVICT \<longrightarrow> length (entries c1) < ca_max_size c"
  proof (cases "map_of (ca_index c) k")
    case None
    then have k: "k \<notin> fst ` set (entries c)" using index_entries [OF assms, of k] by auto
    show thesis
    proof (cases "ca_max_size c = NO_AUTO_EVICT")
      case True
      then show ?thesis using that [of c] None assms k by (simp add: lru_put_def)
    next
      case False
      then obtain c' where c': "ShrinkToSize (ca_max_size c - 1) c = Inr c'" "cache_ok c'" "entries c' = take (ca_max_size c - 1) (entries c)"
          "owned c' = owned c" "ca_max_size c' = ca_max_size c"
        using ShrinkToSize_ok [OF assms] by blast
      have "k \<notin> fst ` set (entries c')" unfolding c'(3) using k set_take_subset [of "ca_max_size c - 1" "entries c"] by blast
      moreover have "(k, p) # entries c' = lru_put (ca_max_size c) k p (entries c)" using False k by (simp add: lru_put_def c'(3))
      moreover have "length (entries c') < ca_max_size c" using False by (simp add: c'(3) NO_AUTO_EVICT_def min_less_iff_disj)
      ultimately show ?thesis by (intro that [of c']) (simp_all only: None False c'(1,2,4,5) option.case if_True not_False_eq_True implies_True_equals simp_thms)
    qed
  next
    case (Some i)
    then obtain q where q: "(i, k, q) \<in> set (ca_ordering c)" using index_Some [OF assms] by blast
    then have k: "(k, q) \<in> set (entries c)" by (force simp: entries_def)
    obtain c' where c': "Cache_Erase (Some i) c = Inr (following i (ca_ordering c), c')" "cache_ok c'"
        "entries c' = filter (\<lambda>e. fst e \<noteq> k) (entries c)" "owned c' = owned c" "ca_max_size c' = ca_max_size c"
      using Erase_ok [OF assms q] by blast
    have "length (entries c') < length (entries c)" unfolding c'(3) by (rule length_filter_less [OF k]) simp
    moreover have "ca_max_size c \<noteq> NO_AUTO_EVICT \<longrightarrow> length (entries c) \<le> ca_max_size c" using assms by (simp add: cache_ok_def entries_def)
    moreover have kin: "k \<in> fst ` set (entries c)" using k by force
    moreover have "k \<notin> fst ` set (entries c')" unfolding c'(3) by auto
    ultimately have "ca_max_size c \<noteq> NO_AUTO_EVICT \<longrightarrow> length (entries c') < ca_max_size c"
      and kin: "k \<in> fst ` set (entries c)" and kout: "k \<notin> fst ` set (entries c')" by auto
    moreover have "(k, p) # entries c' = lru_put (ca_max_size c) k p (entries c)" using kin by (simp add: lru_put_def without_def c'(3))
    ultimately show thesis using c'(1,2,4,5) Some by (intro that [of c']) simp_all
  qed
  have n: "map_of (ca_index c1) k = None" using index_entries [OF c1(2), of k] c1(6) by (cases "map_of (ca_index c1) k") auto
  note push = push_ok [OF c1(2,6), of p]
  show ?thesis using c1(1,3,4,5,7) push n unfolding Cache_Put_def by (simp add: Let_def cache_begin_def)
qed

lemma Get_ok:
  assumes "cache_ok c"
  shows "\<exists>i c'. Cache_Get k c = Inr (i, c') \<and> cache_ok c' \<and> entries c' = lru_get k (entries c) \<and>
    (case i of None \<Rightarrow> map_of (entries c) k = None | Some j \<Rightarrow> (\<exists>p. map_of (entries c) k = Some p \<and> map_of (ca_ordering c') j = Some (k, p))) \<and>
    owned c' = owned c \<and> ca_max_size c' = ca_max_size c"
proof (cases "map_of (ca_index c) k")
  case None
  then have "k \<notin> fst ` set (entries c)" using index_entries [OF assms, of k] by auto
  then have "map_of (entries c) k = None" by (simp only: map_of_eq_None_iff not_False_eq_True)
  then show ?thesis using None assms by (simp add: Cache_Get_def lru_get_def)
next
  case (Some i)
  then obtain p where p: "(i, k, p) \<in> set (ca_ordering c)" using index_Some [OF assms] by blast
  then have m: "map_of (ca_ordering c) i = Some (k, p)" using ordering_Some [OF assms] by blast
  have e: "map_of (entries c) k = Some p" using p assms by (force simp: cache_ok_def entries_def)
  define c' where "c' = c\<lparr>ca_ordering := (i, k, p) # filter (\<lambda>e. fst e \<noteq> i) (ca_ordering c)\<rparr>"
  have d: "distinct (map fst (ca_ordering c))" using assms by (simp add: cache_ok_def)
  have ms: "mset (ca_ordering c') = mset (ca_ordering c)" using filter_remove1 [OF d p] p by (simp add: c'_def)
  have s: "set (ca_ordering c') = set (ca_ordering c)" by (rule mset_eq_setD [OF ms])
  have en: "entries c' = lru_get k (entries c)"
    using filter_node [OF assms p] e by (simp add: lru_get_def without_def entries_def filter_map c'_def)
  have me: "mset (entries c') = mset (entries c)" unfolding entries_def mset_map ms ..
  have "distinct (map fst (entries c'))" using assms mset_eq_imp_distinct_iff [of "map fst (entries c')" "map fst (entries c)"] me
    by (simp add: cache_ok_def)
  moreover have "distinct (map fst (ca_ordering c'))" using d mset_eq_imp_distinct_iff [of "map fst (ca_ordering c')" "map fst (ca_ordering c)"] ms by simp
  moreover have "length (ca_ordering c') = length (ca_ordering c)" by (rule mset_eq_length [OF ms])
  ultimately have "cache_ok c'" using assms s by (simp add: cache_ok_def key_nodes_def) (simp add: c'_def)
  moreover have "owned c' = owned c" unfolding owned_def mset_map me by (simp add: c'_def)
  ultimately show ?thesis using Some m e en by (simp add: Cache_Get_def Let_def cache_begin_def c'_def)
qed

lemma Clear_ok: "cache_ok (Cache_Clear c)" "entries (Cache_Clear c) = []" "owned (Cache_Clear c) = owned c" "ca_max_size (Cache_Clear c) = ca_max_size c"
  by (simp_all add: Cache_Clear_def cache_ok_def entries_def key_nodes_def owned_def multiset.map_comp comp_def)

lemma destroy_ok: "cache_ok c \<Longrightarrow> \<exists>c'. destroy_MRUCache c = Inr c' \<and> entries c' = [] \<and> owned c' = owned c"
proof (induction "length (ca_ordering c)" arbitrary: c)
  case 0
  then show ?case by (simp add: destroy_MRUCache_def cache_begin_def destroy_from.simps [of None] entries_def)
next
  case (Suc n)
  obtain i k p l where l: "ca_ordering c = (i, k, p) # l" using Suc(2) by (cases "ca_ordering c") auto
  obtain c1 where c1: "Cache_Erase (Some i) c = Inr (following i (ca_ordering c), c1)" "cache_ok c1"
      "ca_ordering c1 = filter (\<lambda>e. fst e \<noteq> i) (ca_ordering c)" "owned c1 = owned c"
    using Erase_ok [OF Suc(3), of i k p] l by auto
  have "i \<notin> fst ` set l" using Suc(3) l by (auto simp: cache_ok_def)
  then have o: "ca_ordering c1 = l" using c1(3) l by (force simp: filter_id_conv)
  have "following i (ca_ordering c) = cache_begin c1" using l o by (simp add: following_def cache_begin_def split: list.split)
  then have "destroy_MRUCache c = destroy_MRUCache c1" using c1(1) l by (simp add: destroy_MRUCache_def cache_begin_def destroy_from.simps [of "Some i"])
  then show ?case using Suc(1) [of c1] Suc(2) c1(2,4) o l by simp
qed

section \<open>Refinement\<close>

datatype ('k, 'p) request = Put_request 'k 'p | Get_request 'k | Peek_request 'k | Shrink_request nat | Clear_request

text \<open>The answer to a request is the payload at the iterator.\<close>

definition payload_at :: "nat option \<Rightarrow> ('k, 'p) cache \<Rightarrow> 'p option" where
  "payload_at i c = (case i of None \<Rightarrow> None | Some j \<Rightarrow> map_option snd (map_of (ca_ordering c) j))"

fun cache_request :: "('k, 'p) request \<Rightarrow> ('k, 'p) cache \<Rightarrow> ('p option \<times> ('k, 'p) cache) res" where
  "cache_request (Put_request k p) c = bindR (Cache_Put k p c) (\<lambda>(i, c1). Inr (payload_at i c1, c1))"
| "cache_request (Get_request k) c = bindR (Cache_Get k c) (\<lambda>(i, c1). Inr (payload_at i c1, c1))"
| "cache_request (Peek_request k) c = Inr (payload_at (Cache_Peek k c) c, c)"
| "cache_request (Shrink_request n) c = bindR (ShrinkToSize n c) (\<lambda>c1. Inr (None, c1))"
| "cache_request Clear_request c = Inr (None, Cache_Clear c)"

fun lru_request :: "nat \<Rightarrow> ('k, 'p) request \<Rightarrow> ('k \<times> 'p) list \<Rightarrow> 'p option \<times> ('k \<times> 'p) list" where
  "lru_request capacity (Put_request k p) l = (Some p, lru_put capacity k p l)"
| "lru_request capacity (Get_request k) l = (map_of l k, lru_get k l)"
| "lru_request capacity (Peek_request k) l = (map_of l k, l)"
| "lru_request capacity (Shrink_request n) l = (None, take n l)"
| "lru_request capacity Clear_request l = (None, [])"

definition put_payloads :: "('k, 'p) request list \<Rightarrow> 'p list" where
  "put_payloads rs = concat (map (\<lambda>r. case r of Put_request k p \<Rightarrow> [p] | _ \<Rightarrow> []) rs)"

fun cache_requests :: "('k, 'p) request list \<Rightarrow> ('k, 'p) cache \<Rightarrow> ('p option list \<times> ('k, 'p) cache) res" where
  "cache_requests [] c = Inr ([], c)"
| "cache_requests (r # rs) c = bindR (cache_request r c) (\<lambda>(a, c1). bindR (cache_requests rs c1) (\<lambda>(as, c2). Inr (a # as, c2)))"

fun lru_requests :: "nat \<Rightarrow> ('k, 'p) request list \<Rightarrow> ('k \<times> 'p) list \<Rightarrow> 'p option list \<times> ('k \<times> 'p) list" where
  "lru_requests capacity [] l = ([], l)"
| "lru_requests capacity (r # rs) l =
     (let (a, l1) = lru_request capacity r l; (as, l2) = lru_requests capacity rs l1 in (a # as, l2))"

lemma request_refines:
  assumes "cache_ok c"
  shows "\<exists>a c'. cache_request r c = Inr (a, c') \<and> cache_ok c' \<and> lru_request (ca_max_size c) r (entries c) = (a, entries c') \<and>
    owned c' = owned c + mset (put_payloads [r]) \<and> ca_max_size c' = ca_max_size c"
proof (cases r)
  case (Put_request k p)
  then show ?thesis using Put_ok [OF assms, of k p] by (auto simp: payload_at_def put_payloads_def)
next
  case (Get_request k)
  obtain i c' where c': "Cache_Get k c = Inr (i, c')" "cache_ok c'" "entries c' = lru_get k (entries c)"
    "case i of None \<Rightarrow> map_of (entries c) k = None | Some j \<Rightarrow> (\<exists>p. map_of (entries c) k = Some p \<and> map_of (ca_ordering c') j = Some (k, p))"
    "owned c' = owned c" "ca_max_size c' = ca_max_size c" using Get_ok [OF assms, of k] by blast
  then have "payload_at i c' = map_of (entries c) k" by (auto simp: payload_at_def split: option.splits)
  then show ?thesis using c' Get_request by (simp add: put_payloads_def)
next
  case (Peek_request k)
  have "payload_at (Cache_Peek k c) c = map_of (entries c) k"
  proof (cases "map_of (ca_index c) k")
    case None
    then have "k \<notin> fst ` set (entries c)" using index_entries [OF assms, of k] by auto
    then have "map_of (entries c) k = None" by (simp only: map_of_eq_None_iff not_False_eq_True)
    then show ?thesis using None by (simp add: payload_at_def Cache_Peek_def)
  next
    case (Some i)
    then obtain p where p: "(i, k, p) \<in> set (ca_ordering c)" using index_Some [OF assms] by blast
    then have "map_of (ca_ordering c) i = Some (k, p)" using ordering_Some [OF assms] by blast
    moreover have "map_of (entries c) k = Some p" using p assms by (force simp: cache_ok_def entries_def)
    ultimately show ?thesis using Some by (simp add: payload_at_def Cache_Peek_def)
  qed
  then show ?thesis using assms Peek_request by (simp add: put_payloads_def)
next
  case (Shrink_request n)
  then show ?thesis using ShrinkToSize_ok [OF assms, of n] by (auto simp: put_payloads_def)
next
  case Clear_request
  then show ?thesis using Clear_ok [of c] by (simp add: put_payloads_def)
qed

lemma requests_refine:
  "cache_ok c \<Longrightarrow> \<exists>as c'. cache_requests rs c = Inr (as, c') \<and> cache_ok c' \<and> lru_requests (ca_max_size c) rs (entries c) = (as, entries c') \<and>
    owned c' = owned c + mset (put_payloads rs) \<and> ca_max_size c' = ca_max_size c"
proof (induction rs arbitrary: c)
  case (Cons r rs)
  obtain a c1 where c1: "cache_request r c = Inr (a, c1)" "cache_ok c1" "lru_request (ca_max_size c) r (entries c) = (a, entries c1)"
    "owned c1 = owned c + mset (put_payloads [r])" "ca_max_size c1 = ca_max_size c" using request_refines [OF Cons(2)] by blast
  obtain as c2 where "cache_requests rs c1 = Inr (as, c2)" "cache_ok c2" "lru_requests (ca_max_size c1) rs (entries c1) = (as, entries c2)"
    "owned c2 = owned c1 + mset (put_payloads rs)" "ca_max_size c2 = ca_max_size c1" using Cons(1) [OF c1(2)] by blast
  then show ?case using c1 by (simp add: put_payloads_def)
qed (simp add: put_payloads_def)

text \<open>
  C35: a cache answers every sequence of requests like a list in the order of use that drops its tail: it fails no check
  and uses no dangling iterator, never holds more than its capacity, and by the time it is destroyed each payload that
  was put in has been given to the deletor exactly once.
\<close>

theorem mru_cache_refinement:
  "\<exists>as c c'. cache_requests rs (new_MRUCache n) = Inr (as, c) \<and> lru_requests n rs [] = (as, entries c) \<and>
     (n = NO_AUTO_EVICT \<or> length (entries c) \<le> n) \<and>
     destroy_MRUCache c = Inr c' \<and> mset (ca_deleted c') = mset (put_payloads rs)"
proof -
  have e: "entries (new_MRUCache n) = []" "owned (new_MRUCache n) = {#}" "ca_max_size (new_MRUCache n) = n"
    by (simp_all add: new_MRUCache_def entries_def owned_def)
  obtain as c where c: "cache_requests rs (new_MRUCache n) = Inr (as, c)" "cache_ok c" "lru_requests n rs [] = (as, entries c)"
    "owned c = mset (put_payloads rs)" "ca_max_size c = n"
    using requests_refine [OF new_cache_ok, of rs n] by (auto simp: e)
  obtain c' where "destroy_MRUCache c = Inr c'" "entries c' = []" "owned c' = owned c" using destroy_ok [OF c(2)] by blast
  moreover have "n = NO_AUTO_EVICT \<or> length (entries c) \<le> n" using c(2,5) by (auto simp: cache_ok_def entries_def)
  ultimately show ?thesis using c by (auto simp: owned_def)
qed

end
