(* ===== verification/Timers.thy ===== *)
theory Timers imports Times begin

text \<open>
  \<open>base/timer.cc\<close>: timers on one thread.  A \<open>Timer\<close> and the \<open>BaseTimerTaskInternal\<close> it has posted point to each
  other; the task stays in the queue of the thread when the timer abandons it, and the timer keeps a task that
  comes too early for the time it wants.  Timers and tasks live in heaps, the queue holds the posted tasks with the
  time from which they may run, and every reading of the clock may find it advanced.  Times are in
  microseconds, without bounds.  The delays that clients give are not negative: \<open>MessageLoop::PostDelayedTask\<close>
  checks that of the delay of every posted task, and the check is in the model.
\<close>

section \<open>State\<close>

record 'c timer =
  ti_scheduled_task :: "nat ptr"
  ti_delay :: int
  ti_user_task :: "'c option"
  ti_scheduled_run_time :: int
  ti_desired_run_time :: int
  ti_thread_id :: int
  ti_is_repeating :: bool
  ti_retain_user_task :: bool
  ti_is_running :: bool

record 'c timing =
  tw_timers :: "nat \<rightharpoonup> 'c timer"
  tw_tasks :: "nat \<rightharpoonup> nat ptr"        \<comment> \<open>\<open>BaseTimerTaskInternal\<close>: its \<open>timer_\<close>\<close>
  tw_queue :: "(nat \<times> int) list"      \<comment> \<open>posted tasks and the time from which they may run\<close>
  tw_executing :: "nat list"          \<comment> \<open>tasks whose user task is running, the innermost first\<close>
  tw_clock :: int
  tw_ticks :: "nat list"              \<comment> \<open>how far the clock advances at its next readings\<close>
  tw_fresh :: nat
  tw_thread :: int                    \<comment> \<open>\<open>PlatformThread::CurrentId()\<close>\<close>
  tw_promised :: "nat \<Rightarrow> int"          \<comment> \<open>no variable of the code: when the user task may run at the earliest\<close>

definition TimeTicks_Now :: "'c timing \<Rightarrow> int \<times> 'c timing" where
  "TimeTicks_Now w = (case tw_ticks w of [] \<Rightarrow> (tw_clock w, w)
     | d # ds \<Rightarrow> (tw_clock w + int d, w\<lparr>tw_clock := tw_clock w + int d, tw_ticks := ds\<rparr>))"

definition timer_at :: "nat \<Rightarrow> 'c timing \<Rightarrow> 'c timer res" where
  "timer_at a w = (case tw_timers w a of None \<Rightarrow> Inl (UseAfterFree ''Timer'') | Some T \<Rightarrow> Inr T)"

definition timer_task_at :: "nat \<Rightarrow> 'c timing \<Rightarrow> nat ptr res" where
  "timer_task_at t w = (case tw_tasks w t of None \<Rightarrow> Inl (UseAfterFree ''BaseTimerTaskInternal'') | Some p \<Rightarrow> Inr p)"

definition put_timer :: "nat \<Rightarrow> 'c timer \<Rightarrow> 'c timing \<Rightarrow> 'c timing" where
  "put_timer a T w = w\<lparr>tw_timers := (tw_timers w)(a \<mapsto> T)\<rparr>"

definition put_timer_task :: "nat \<Rightarrow> nat ptr \<Rightarrow> 'c timing \<Rightarrow> 'c timing" where
  "put_timer_task t p w = w\<lparr>tw_tasks := (tw_tasks w)(t \<mapsto> p)\<rparr>"

section \<open>The timer\<close>

definition new_Timer :: "bool \<Rightarrow> bool \<Rightarrow> 'c timer" where
  "new_Timer retain_user_task is_repeating = \<lparr>ti_scheduled_task = None, ti_delay = 0, ti_user_task = None,
     ti_scheduled_run_time = 0, ti_desired_run_time = 0, ti_thread_id = 0, ti_is_repeating = is_repeating,
     ti_retain_user_task = retain_user_task, ti_is_running = False\<rparr>"

definition new_Timer_with :: "int \<Rightarrow> 'c option \<Rightarrow> bool \<Rightarrow> 'c timer" where
  "new_Timer_with delay user_task is_repeating = (new_Timer True is_repeating)\<lparr>ti_delay := delay, ti_user_task := user_task\<rparr>"

definition Timer_Stop :: "'c timer \<Rightarrow> 'c timer" where
  "Timer_Stop T = (let T1 = T\<lparr>ti_is_running := False\<rparr> in if \<not> ti_retain_user_task T1 then T1\<lparr>ti_user_task := None\<rparr> else T1)"

definition SetTaskInfo :: "int \<Rightarrow> 'c option \<Rightarrow> 'c timer \<Rightarrow> 'c timer" where
  "SetTaskInfo delay user_task T = T\<lparr>ti_delay := delay, ti_user_task := user_task\<rparr>"

text \<open>
  \<open>PostDelayedTask\<close> of the thread's message loop, with its \<open>CalculateDelayedRuntime\<close>: the task of a positive delay
  gets the time it may run from; another has a null run time, does not read the clock and may run at once.
\<close>

definition PostTimerTask :: "nat \<Rightarrow> int \<Rightarrow> 'c timing \<Rightarrow> 'c timing res" where
  "PostTimerTask t delay w =
     (if delay > 0 then let (now, w1) = TimeTicks_Now w in Inr (w1\<lparr>tw_queue := tw_queue w1 @ [(t, now + delay)]\<rparr>)
      else bindR (dcheck (InMilliseconds (TimeDelta delay) = 0) ''delay should not be negative'') (\<lambda>_.
        Inr (w\<lparr>tw_queue := tw_queue w @ [(t, tw_clock w)]\<rparr>)))"

definition PostNewScheduledTask :: "nat \<Rightarrow> int \<Rightarrow> 'c timing \<Rightarrow> 'c timing res" where
  "PostNewScheduledTask this delay w =
     bindR (timer_at this w) (\<lambda>T.
     bindR (dcheck (ti_scheduled_task T = None) ''scheduled_task_ == NULL'') (\<lambda>_.
       let t = tw_fresh w;
           T1 = T\<lparr>ti_is_running := True, ti_scheduled_task := Some t\<rparr>;
           w1 = put_timer this T1 (put_timer_task t (Some this) (w\<lparr>tw_fresh := t + 1\<rparr>))
       in bindR (PostTimerTask t delay w1) (\<lambda>w2.
       let (now, w3) = TimeTicks_Now w2;
           T2 = T1\<lparr>ti_scheduled_run_time := now + delay, ti_desired_run_time := now + delay\<rparr>;
           T3 = (if ti_thread_id T2 = 0 then T2\<lparr>ti_thread_id := tw_thread w3\<rparr> else T2)
       in Inr (put_timer this T3 w3))))"

definition AbandonScheduledTask :: "nat \<Rightarrow> 'c timing \<Rightarrow> 'c timing res" where
  "AbandonScheduledTask this w =
     bindR (timer_at this w) (\<lambda>T.
     bindR (dcheck (ti_thread_id T = 0 \<or> ti_thread_id T = tw_thread w) ''thread_id_ == CurrentId()'') (\<lambda>_.
       case ti_scheduled_task T of None \<Rightarrow> Inr w
       | Some t \<Rightarrow> bindR (timer_task_at t w) (\<lambda>_.
           Inr (put_timer this (T\<lparr>ti_scheduled_task := None\<rparr>) (put_timer_task t None w)))))"

definition Timer_Reset :: "nat \<Rightarrow> 'c timing \<Rightarrow> 'c timing res" where
  "Timer_Reset this w =
     bindR (timer_at this w) (\<lambda>T.
     bindR (dcheck (ti_user_task T \<noteq> None) ''!user_task_.is_null()'') (\<lambda>_.
       if ti_scheduled_task T = None then PostNewScheduledTask this (ti_delay T) w
       else
         let (now, w1) = TimeTicks_Now w;
             T1 = T\<lparr>ti_desired_run_time := now + ti_delay T\<rparr>
         in if ti_desired_run_time T1 > ti_scheduled_run_time T1 then Inr (put_timer this (T1\<lparr>ti_is_running := True\<rparr>) w1)
            else bindR (AbandonScheduledTask this (put_timer this T1 w1)) (PostNewScheduledTask this (ti_delay T))))"

definition Timer_Start :: "nat \<Rightarrow> int \<Rightarrow> 'c option \<Rightarrow> 'c timing \<Rightarrow> 'c timing res" where
  "Timer_Start this delay user_task w =
     bindR (timer_at this w) (\<lambda>T. Timer_Reset this (put_timer this (SetTaskInfo delay user_task T) w))"

definition StopAndAbandon :: "nat \<Rightarrow> 'c timing \<Rightarrow> 'c timing res" where
  "StopAndAbandon this w =
     bindR (timer_at this w) (\<lambda>T. AbandonScheduledTask this (put_timer this (Timer_Stop T) w))"

definition delete_Timer :: "nat \<Rightarrow> 'c timing \<Rightarrow> 'c timing res" where
  "delete_Timer this w = bindR (StopAndAbandon this w) (\<lambda>w1. Inr (w1\<lparr>tw_timers := (tw_timers w1)(this := None)\<rparr>))"

text \<open>The last statement is the call of the closure: it is what the functions return.\<close>

definition run_user_task :: "nat \<Rightarrow> 'c timer \<Rightarrow> 'c timing \<Rightarrow> ('c option \<times> 'c timing) res" where
  "run_user_task this T w =
     (let task = ti_user_task T in
      bindR (if ti_is_repeating T then PostNewScheduledTask this (ti_delay T) w else Inr (put_timer this (Timer_Stop T) w)) (\<lambda>w1.
      case task of None \<Rightarrow> Inl (NullDeref ''task.Run()'') | Some c \<Rightarrow> Inr (Some c, w1)))"

definition RunScheduledTask :: "nat \<Rightarrow> 'c timing \<Rightarrow> ('c option \<times> 'c timing) res" where
  "RunScheduledTask this w =
     bindR (timer_at this w) (\<lambda>T.
       if \<not> ti_is_running T then Inr (None, w)
       else if ti_desired_run_time T > ti_scheduled_run_time T then
         let (now, w1) = TimeTicks_Now w in
         if ti_desired_run_time T > now
         then bindR (PostNewScheduledTask this (ti_desired_run_time T - now) w1) (\<lambda>w2. Inr (None, w2))
         else run_user_task this T w1
       else run_user_task this T w)"

section \<open>The posted task\<close>

definition TimerTask_Run :: "nat \<Rightarrow> 'c timing \<Rightarrow> ('c option \<times> 'c timing) res" where
  "TimerTask_Run this w =
     bindR (timer_task_at this w) (\<lambda>p. case p of None \<Rightarrow> Inr (None, w)
       | Some a \<Rightarrow> bindR (timer_at a w) (\<lambda>T.
           RunScheduledTask a (put_timer_task this None (put_timer a (T\<lparr>ti_scheduled_task := None\<rparr>) w))))"

definition delete_TimerTask :: "nat \<Rightarrow> 'c timing \<Rightarrow> 'c timing res" where
  "delete_TimerTask this w =
     bindR (timer_task_at this w) (\<lambda>p.
     bindR (case p of None \<Rightarrow> Inr w | Some a \<Rightarrow> StopAndAbandon a w) (\<lambda>w1.
       Inr (w1\<lparr>tw_tasks := (tw_tasks w1)(this := None)\<rparr>)))"

section \<open>A thread with timers\<close>

text \<open>
  What can happen: clients make, start, stop, reset and delete timers (the calls of a running user task are such
  events too, as the call of the user task is the last thing a task does); a posted task that is due is run; a user
  task ends and its task is deleted; the queue deletes a task without running it; time passes.  Clients give
  delays that are not negative, and reset a timer only when it has a user task.
\<close>

datatype 'c event =
    New_timer nat bool bool
  | New_timer_with nat int "'c option" bool
  | Start_timer nat int 'c
  | Stop_timer nat
  | Reset_timer nat
  | Delete_timer nat
  | Dispatch nat
  | Finish
  | Drop nat
  | Pass nat "nat list"

definition promise :: "nat \<Rightarrow> int \<Rightarrow> 'c timing \<Rightarrow> 'c timing" where
  "promise a x w = w\<lparr>tw_promised := (tw_promised w)(a := x)\<rparr>"

definition dequeue :: "nat \<Rightarrow> 'c timing \<Rightarrow> 'c timing" where
  "dequeue t w = w\<lparr>tw_queue := filter (\<lambda>q. fst q \<noteq> t) (tw_queue w)\<rparr>"

definition dispatch :: "nat \<Rightarrow> 'c timing \<Rightarrow> ('c option \<times> 'c timing) res" where
  "dispatch t w = bindR (TimerTask_Run t (dequeue t w)) (\<lambda>(c, w1).
     case c of None \<Rightarrow> bindR (delete_TimerTask t w1) (\<lambda>w2. Inr (None, w2))
     | Some _ \<Rightarrow> Inr (c, w1\<lparr>tw_executing := t # tw_executing w1\<rparr>))"

fun possible :: "'c event \<Rightarrow> 'c timing \<Rightarrow> bool" where
  "possible (New_timer a _ _) w \<longleftrightarrow> tw_timers w a = None"
| "possible (New_timer_with a d _ _) w \<longleftrightarrow> tw_timers w a = None \<and> 0 \<le> d"
| "possible (Start_timer a d _) w \<longleftrightarrow> tw_timers w a \<noteq> None \<and> 0 \<le> d"
| "possible (Stop_timer a) w \<longleftrightarrow> tw_timers w a \<noteq> None"
| "possible (Reset_timer a) w \<longleftrightarrow> (case tw_timers w a of None \<Rightarrow> False | Some T \<Rightarrow> ti_user_task T \<noteq> None)"
| "possible (Delete_timer a) w \<longleftrightarrow> tw_timers w a \<noteq> None"
| "possible (Dispatch t) w \<longleftrightarrow> list_ex (\<lambda>q. fst q = t \<and> snd q \<le> tw_clock w) (tw_queue w)"
| "possible Finish w \<longleftrightarrow> tw_executing w \<noteq> []"
| "possible (Drop t) w \<longleftrightarrow> list_ex (\<lambda>q. fst q = t) (tw_queue w)"
| "possible (Pass _ _) w \<longleftrightarrow> True"

definition quietly :: "'c timing res \<Rightarrow> ('c option \<times> 'c timing) res" where
  "quietly r = bindR r (\<lambda>w. Inr (None, w))"

fun happen :: "'c event \<Rightarrow> 'c timing \<Rightarrow> ('c option \<times> 'c timing) res" where
  "happen (New_timer a retain repeating) w = quietly (Inr (put_timer a (new_Timer retain repeating) w))"
| "happen (New_timer_with a d c repeating) w = quietly (Inr (put_timer a (new_Timer_with d c repeating) w))"
| "happen (Start_timer a d c) w = quietly (Timer_Start a d (Some c) (promise a (tw_clock w + d) w))"
| "happen (Stop_timer a) w = quietly (bindR (timer_at a w) (\<lambda>T. Inr (put_timer a (Timer_Stop T) w)))"
| "happen (Reset_timer a) w = quietly (bindR (timer_at a w) (\<lambda>T. Timer_Reset a (promise a (tw_clock w + ti_delay T) w)))"
| "happen (Delete_timer a) w = quietly (delete_Timer a w)"
| "happen (Dispatch t) w = bindR (dispatch t w) (\<lambda>(c, w1). Inr (c, case (c, tw_tasks w t) of
     (Some _, Some (Some a)) \<Rightarrow> promise a (tw_clock w + ti_delay (the (tw_timers w a))) w1 | _ \<Rightarrow> w1))"
| "happen Finish w = quietly (delete_TimerTask (hd (tw_executing w)) (w\<lparr>tw_executing := tl (tw_executing w)\<rparr>))"
| "happen (Drop t) w = quietly (delete_TimerTask t (dequeue t w))"
| "happen (Pass d ticks) w = quietly (Inr (w\<lparr>tw_clock := tw_clock w + int d, tw_ticks := ticks\<rparr>))"

inductive reachable :: "'c timing \<Rightarrow> bool" where
  start: "tw_timers w = Map.empty \<Longrightarrow> tw_tasks w = Map.empty \<Longrightarrow> tw_queue w = [] \<Longrightarrow> tw_executing w = [] \<Longrightarrow> reachable w"
| event: "reachable w \<Longrightarrow> possible e w \<Longrightarrow> happen e w = Inr (c, w') \<Longrightarrow> reachable w'"

section \<open>The invariant\<close>

text \<open>
  Timers and tasks point to each other; \<open>xs\<close> and \<open>ts\<close> are the tasks out of the queue that are still alive, and
  those in \<open>ts\<close> belong to no timer any more.
\<close>

definition scheduled_of :: "'c timing \<Rightarrow> nat \<Rightarrow> nat ptr" where
  "scheduled_of w a = Option.bind (tw_timers w a) ti_scheduled_task"

definition timer_of :: "'c timing \<Rightarrow> nat \<Rightarrow> nat ptr" where
  "timer_of w t = Option.bind (tw_tasks w t) id"

definition agree :: "(nat \<Rightarrow> nat ptr) \<Rightarrow> (nat \<Rightarrow> nat ptr) \<Rightarrow> bool" where
  "agree f g \<longleftrightarrow> (\<forall>a t. f a = Some t \<longleftrightarrow> g t = Some a)"

definition links_ok :: "nat list \<Rightarrow> nat list \<Rightarrow> 'c timing \<Rightarrow> bool" where
  "links_ok xs ts w \<longleftrightarrow> agree (scheduled_of w) (timer_of w) \<and> (\<forall>t\<in>set ts. timer_of w t = None) \<and>
     distinct (map fst (tw_queue w) @ xs @ ts) \<and> dom (tw_tasks w) = set (map fst (tw_queue w) @ xs @ ts) \<and>
     (\<forall>t\<in>dom (tw_tasks w). t < tw_fresh w)"

definition timer_ok :: "(nat \<times> int) list \<Rightarrow> int \<Rightarrow> int \<Rightarrow> 'c timer \<Rightarrow> bool" where
  "timer_ok q thread x T \<longleftrightarrow> 0 \<le> ti_delay T \<and> (ti_thread_id T = 0 \<or> ti_thread_id T = thread) \<and>
     (ti_is_running T \<longrightarrow> ti_scheduled_task T \<noteq> None \<and> ti_user_task T \<noteq> None \<and>
        ti_scheduled_run_time T \<le> ti_desired_run_time T \<and> x \<le> ti_desired_run_time T) \<and>
     (\<forall>t due. ti_scheduled_task T = Some t \<longrightarrow> (t, due) \<in> set q \<longrightarrow> due \<le> ti_scheduled_run_time T \<and>
        (ti_is_running T \<longrightarrow> ti_desired_run_time T = ti_scheduled_run_time T \<longrightarrow> x \<le> due))"

definition timers_ok :: "nat set \<Rightarrow> 'c timing \<Rightarrow> bool" where
  "timers_ok A w \<longleftrightarrow> (\<forall>a\<in>A. \<forall>T. tw_timers w a = Some T \<longrightarrow> timer_ok (tw_queue w) (tw_thread w) (tw_promised w a) T)"

definition timing_ok :: "'c timing \<Rightarrow> bool" where
  "timing_ok w \<longleftrightarrow> links_ok [] (tw_executing w) w \<and> timers_ok UNIV w"

lemma agreeD: "agree f g \<Longrightarrow> f a = Some t \<longleftrightarrow> g t = Some a"
  by (simp add: agree_def)

lemma agree_join:
  assumes "agree f g" "f a = None" "g t = None"
  shows "agree (f(a := Some t)) (g(t := Some a))"
  unfolding agree_def
proof (intro allI)
  fix b u
  show "(f(a := Some t)) b = Some u \<longleftrightarrow> (g(t := Some a)) u = Some b"
    using agreeD [OF assms(1), of b u] assms(2,3) by (cases "b = a"; cases "u = t") auto
qed

lemma agree_part:
  assumes "agree f g" "f a = Some t"
  shows "agree (f(a := None)) (g(t := None))"
  unfolding agree_def
proof (intro allI)
  fix b u
  show "(f(a := None)) b = Some u \<longleftrightarrow> (g(t := None)) u = Some b"
    using agreeD [OF assms(1), of b u] agreeD [OF assms(1), of a t] assms(2) by (cases "b = a"; cases "u = t") auto
qed

lemma links_ok_update [simp]:
  "links_ok xs ts (w\<lparr>tw_clock := x\<rparr>) = links_ok xs ts w" "links_ok xs ts (w\<lparr>tw_ticks := ds\<rparr>) = links_ok xs ts w"
  "links_ok xs ts (w\<lparr>tw_promised := f\<rparr>) = links_ok xs ts w" "links_ok xs ts (w\<lparr>tw_executing := es\<rparr>) = links_ok xs ts w"
  by (simp_all add: links_ok_def scheduled_of_def [abs_def] timer_of_def [abs_def])

lemma timers_ok_update [simp]:
  "timers_ok A (w\<lparr>tw_clock := x\<rparr>) = timers_ok A w" "timers_ok A (w\<lparr>tw_ticks := ds\<rparr>) = timers_ok A w"
  "timers_ok A (w\<lparr>tw_executing := es\<rparr>) = timers_ok A w" "timers_ok A (w\<lparr>tw_tasks := m\<rparr>) = timers_ok A w"
  by (simp_all add: timers_ok_def)

lemma timers_okI:
  "timers_ok (- {a}) w \<Longrightarrow> (\<And>T. tw_timers w a = Some T \<Longrightarrow> timer_ok (tw_queue w) (tw_thread w) (tw_promised w a) T) \<Longrightarrow> timers_ok UNIV w"
  by (auto simp: timers_ok_def)

lemma timers_okD: "timers_ok A w \<Longrightarrow> a \<in> A \<Longrightarrow> tw_timers w a = Some T \<Longrightarrow> timer_ok (tw_queue w) (tw_thread w) (tw_promised w a) T"
  by (simp add: timers_ok_def)

lemma timers_ok_mono: "timers_ok B w \<Longrightarrow> A \<subseteq> B \<Longrightarrow> timers_ok A w"
  by (auto simp: timers_ok_def)

lemma timers_ok_others [simp]:
  "timers_ok (- {a}) (put_timer a T w) = timers_ok (- {a}) w" "timers_ok (- {a}) (promise a x w) = timers_ok (- {a}) w"
  by (simp_all add: timers_ok_def put_timer_def promise_def)

lemma Now_eq: "\<exists>now ds. TimeTicks_Now w = (now, w\<lparr>tw_clock := now, tw_ticks := ds\<rparr>) \<and> tw_clock w \<le> now"
  by (cases w; cases "tw_ticks w") (auto simp: TimeTicks_Now_def)

lemma timer_at_Some [simp]: "tw_timers w a = Some T \<Longrightarrow> timer_at a w = Inr T"
  by (simp add: timer_at_def)

lemma put_timer_simps [simp]:
  "tw_timers (put_timer a T w) = (tw_timers w)(a \<mapsto> T)" "tw_tasks (put_timer a T w) = tw_tasks w" "tw_queue (put_timer a T w) = tw_queue w"
  "tw_executing (put_timer a T w) = tw_executing w" "tw_clock (put_timer a T w) = tw_clock w" "tw_thread (put_timer a T w) = tw_thread w"
  "tw_promised (put_timer a T w) = tw_promised w" "tw_fresh (put_timer a T w) = tw_fresh w"
  by (simp_all add: put_timer_def)

lemma put_scheduled: "scheduled_of (put_timer a T w) = (scheduled_of w)(a := ti_scheduled_task T)" "timer_of (put_timer a T w) = timer_of w"
  by (auto simp: scheduled_of_def timer_of_def)

lemma links_ok_put:
  "links_ok xs ts w \<Longrightarrow> ti_scheduled_task T = scheduled_of w a \<Longrightarrow> links_ok xs ts (put_timer a T w)"
  by (simp add: links_ok_def put_scheduled fun_upd_idem)

lemma alive_eq: "links_ok xs ts w \<Longrightarrow> dom (tw_tasks w) = fst ` set (tw_queue w) \<union> set xs \<union> set ts"
  by (auto simp: links_ok_def)

lemma queued_alive: "(t, x) \<in> set (tw_queue w) \<Longrightarrow> links_ok xs ts w \<Longrightarrow> t \<in> dom (tw_tasks w)"
  unfolding links_ok_def by (simp add: rev_image_eqI)

lemma alive_old: "t \<in> dom (tw_tasks w) \<Longrightarrow> links_ok xs ts w \<Longrightarrow> t < tw_fresh w"
  unfolding links_ok_def by blast

lemma not_queued: "links_ok xs ts w \<Longrightarrow> (tw_fresh w, x) \<notin> set (tw_queue w)"
  using queued_alive alive_old less_irrefl by metis

lemma PostTimerTask_ok:
  assumes "0 \<le> d"
  shows "\<exists>now ds due. PostTimerTask t d w = Inr (w\<lparr>tw_clock := now, tw_ticks := ds, tw_queue := tw_queue w @ [(t, due)]\<rparr>) \<and>
    tw_clock w \<le> now \<and> tw_clock w + d \<le> due \<and> due \<le> now + d"
proof (cases "d = 0")
  case True
  then show ?thesis
    by (intro exI [of _ "tw_clock w"] exI [of _ "tw_ticks w"] exI [of _ "tw_clock w"]) (simp add: PostTimerTask_def InMilliseconds_def)
next
  case False
  obtain now ds where n: "TimeTicks_Now w = (now, w\<lparr>tw_clock := now, tw_ticks := ds\<rparr>)" "tw_clock w \<le> now" using Now_eq by blast
  then show ?thesis using False assms by (intro exI [of _ now] exI [of _ ds] exI [of _ "now + d"]) (simp add: PostTimerTask_def)
qed

lemma Post_ok:
  assumes "links_ok xs ts w" "tw_timers w a = Some T" "ti_scheduled_task T = None" "0 \<le> d"
  shows "\<exists>w' due s. PostNewScheduledTask a d w = Inr w' \<and> links_ok xs ts w' \<and>
    tw_timers w' = (tw_timers w)(a \<mapsto> T\<lparr>ti_is_running := True, ti_scheduled_task := Some (tw_fresh w), ti_scheduled_run_time := s,
      ti_desired_run_time := s, ti_thread_id := if ti_thread_id T = 0 then tw_thread w else ti_thread_id T\<rparr>) \<and>
    tw_queue w' = tw_queue w @ [(tw_fresh w, due)] \<and> tw_clock w + d \<le> due \<and> due \<le> s \<and>
    tw_clock w \<le> tw_clock w' \<and> tw_executing w' = tw_executing w \<and> tw_promised w' = tw_promised w \<and> tw_thread w' = tw_thread w"
proof -
  define T1 where "T1 = T\<lparr>ti_is_running := True, ti_scheduled_task := Some (tw_fresh w)\<rparr>"
  define w1 where "w1 = put_timer a T1 (put_timer_task (tw_fresh w) (Some a) (w\<lparr>tw_fresh := tw_fresh w + 1\<rparr>))"
  obtain now ds due where p0: "PostTimerTask (tw_fresh w) d w1 = Inr (w1\<lparr>tw_clock := now, tw_ticks := ds, tw_queue := tw_queue w1 @ [(tw_fresh w, due)]\<rparr>)"
    and n: "tw_clock w1 \<le> now" "tw_clock w1 + d \<le> due" "due \<le> now + d" using PostTimerTask_ok [OF assms(4)] by blast
  define w2 where "w2 = w1\<lparr>tw_clock := now, tw_ticks := ds, tw_queue := tw_queue w1 @ [(tw_fresh w, due)]\<rparr>"
  have p: "PostTimerTask (tw_fresh w) d w1 = Inr w2" using p0 by (simp add: w2_def)
  obtain s ds' where m: "TimeTicks_Now w2 = (s, w2\<lparr>tw_clock := s, tw_ticks := ds'\<rparr>)" "tw_clock w2 \<le> s" using Now_eq by blast
  define T3 where "T3 = T\<lparr>ti_is_running := True, ti_scheduled_task := Some (tw_fresh w), ti_scheduled_run_time := s + d,
      ti_desired_run_time := s + d, ti_thread_id := if ti_thread_id T = 0 then tw_thread w else ti_thread_id T\<rparr>"
  define w' where "w' = put_timer a T3 (w2\<lparr>tw_clock := s, tw_ticks := ds'\<rparr>)"
  have th: "tw_thread w2 = tw_thread w" by (simp add: w2_def w1_def put_timer_task_def)
  have post: "PostNewScheduledTask a d w = Inr w'"
    unfolding PostNewScheduledTask_def timer_at_Some [OF assms(2)] bindR_Inr assms(3) Let_def
    unfolding T1_def [symmetric]
    unfolding w1_def [symmetric] p bindR_Inr m
    by (simp add: w'_def T1_def T3_def th)
  have nd: "tw_fresh w \<notin> dom (tw_tasks w)" using alive_old [OF _ assms(1), of "tw_fresh w"] by blast
  then have fresh: "timer_of w (tw_fresh w) = None" by (simp add: timer_of_def domIff)
  have new: "tw_fresh w \<notin> fst ` set (tw_queue w) \<union> set xs \<union> set ts" using nd unfolding alive_eq [OF assms(1)] .
  have upd: "scheduled_of w' = (scheduled_of w)(a := Some (tw_fresh w))" "timer_of w' = (timer_of w)(tw_fresh w := Some a)"
    "map fst (tw_queue w') = map fst (tw_queue w) @ [tw_fresh w]" "dom (tw_tasks w') = insert (tw_fresh w) (dom (tw_tasks w))" "tw_fresh w' = tw_fresh w + 1"
    by (auto simp: scheduled_of_def timer_of_def w'_def w2_def w1_def put_timer_task_def T3_def)
  have "links_ok xs ts w'" unfolding links_ok_def upd
  proof (intro conjI)
    show "agree ((scheduled_of w)(a := Some (tw_fresh w))) ((timer_of w)(tw_fresh w := Some a))"
      using assms fresh by (intro agree_join) (simp_all add: links_ok_def scheduled_of_def)
    show "\<forall>t\<in>set ts. ((timer_of w)(tw_fresh w := Some a)) t = None" using assms(1) new by (auto simp: links_ok_def)
    show "distinct ((map fst (tw_queue w) @ [tw_fresh w]) @ xs @ ts)" using assms(1) new by (auto simp: links_ok_def)
    show "insert (tw_fresh w) (dom (tw_tasks w)) = set ((map fst (tw_queue w) @ [tw_fresh w]) @ xs @ ts)" using alive_eq [OF assms(1)] by auto
    show "\<forall>t\<in>insert (tw_fresh w) (dom (tw_tasks w)). t < tw_fresh w + 1" using alive_old [OF _ assms(1)] by (auto simp: less_Suc_eq)
  qed
  moreover have "tw_timers w' = (tw_timers w)(a \<mapsto> T3)" "tw_queue w' = tw_queue w @ [(tw_fresh w, due)]" "tw_clock w + d \<le> due" "due \<le> s + d"
    "tw_clock w \<le> tw_clock w'" "tw_executing w' = tw_executing w" "tw_promised w' = tw_promised w" "tw_thread w' = tw_thread w"
    using n m(2) by (simp_all add: w'_def w2_def w1_def put_timer_task_def)
  ultimately show ?thesis using post unfolding T3_def by blast
qed

text \<open>What a call leaves alone.\<close>

definition kept :: "'c timing \<Rightarrow> 'c timing \<Rightarrow> bool" where
  "kept w w' \<longleftrightarrow> tw_executing w' = tw_executing w \<and> tw_promised w' = tw_promised w \<and> tw_thread w' = tw_thread w"

lemma kept_refl [simp]: "kept w w" by (simp add: kept_def)
lemma kept_trans: "kept u v \<Longrightarrow> kept v w \<Longrightarrow> kept u w" by (simp add: kept_def)
lemma kept_put [simp]: "kept w (put_timer a T w') = kept w w'" "kept (put_timer a T w) w' = kept w w'" by (simp_all add: kept_def)
lemma kept_time [simp]: "kept w (w'\<lparr>tw_clock := x, tw_ticks := ds\<rparr>) = kept w w'" "kept (w\<lparr>tw_clock := x, tw_ticks := ds\<rparr>) w' = kept w w'" by (simp_all add: kept_def)

abbreviation usable :: "'c timing \<Rightarrow> 'c timer \<Rightarrow> bool" where
  "usable w T \<equiv> 0 \<le> ti_delay T \<and> (ti_thread_id T = 0 \<or> ti_thread_id T = tw_thread w)"

lemma Abandon_ok:
  assumes "links_ok xs ts w" "tw_timers w a = Some T" "usable w T"
  shows "\<exists>w'. AbandonScheduledTask a w = Inr w' \<and> links_ok xs ts w' \<and> tw_timers w' = (tw_timers w)(a \<mapsto> T\<lparr>ti_scheduled_task := None\<rparr>) \<and>
    tw_queue w' = tw_queue w \<and> tw_clock w' = tw_clock w \<and> kept w w'"
proof (cases "ti_scheduled_task T")
  case None
  then have "T\<lparr>ti_scheduled_task := None\<rparr> = T" by simp
  then have "tw_timers w = (tw_timers w)(a \<mapsto> T\<lparr>ti_scheduled_task := None\<rparr>)" using assms(2) by (simp add: fun_upd_idem)
  then show ?thesis using assms None by (intro exI [of _ w]) (simp add: AbandonScheduledTask_def)
next
  case (Some t)
  then have sch: "scheduled_of w a = Some t" using assms(2) by (simp add: scheduled_of_def)
  then have own: "timer_of w t = Some a" using assms(1) agreeD by (fastforce simp: links_ok_def)
  then have t: "tw_tasks w t = Some (Some a)" by (auto simp: timer_of_def bind_eq_Some_conv)
  define w' where "w' = put_timer a (T\<lparr>ti_scheduled_task := None\<rparr>) (put_timer_task t None w)"
  have "scheduled_of w' = (scheduled_of w)(a := None)" "timer_of w' = (timer_of w)(t := None)"
    by (auto simp: w'_def scheduled_of_def timer_of_def put_timer_task_def)
  then have "links_ok xs ts w'" using assms(1) t agree_part [of "scheduled_of w" "timer_of w", OF _ sch]
    unfolding links_ok_def by (auto simp: w'_def put_timer_task_def)
  moreover have "AbandonScheduledTask a w = Inr w'" using assms Some t by (simp add: AbandonScheduledTask_def timer_task_at_def w'_def)
  ultimately show ?thesis by (intro exI [of _ w']) (simp add: w'_def put_timer_task_def kept_def)
qed

lemma timer_ok_queue: "links_ok xs ts w \<Longrightarrow> tw_timers w a = Some T \<Longrightarrow> timer_ok (tw_queue w) th x T \<Longrightarrow> timer_ok (tw_queue w @ [(tw_fresh w, due)]) th x T"
proof -
  assume l: "links_ok xs ts w" and T: "tw_timers w a = Some T" and ok: "timer_ok (tw_queue w) th x T"
  have "ti_scheduled_task T \<noteq> Some (tw_fresh w)"
  proof
    assume "ti_scheduled_task T = Some (tw_fresh w)"
    then have "timer_of w (tw_fresh w) = Some a" using l T agreeD by (fastforce simp: links_ok_def scheduled_of_def)
    then have "tw_fresh w \<in> dom (tw_tasks w)" by (auto simp: timer_of_def bind_eq_Some_conv)
    then show False using alive_old [OF _ l, of "tw_fresh w"] by blast
  qed
  then show ?thesis using ok by (auto simp: timer_ok_def)
qed

lemma Post_timer_ok:
  assumes "links_ok xs ts w" "tw_timers w a = Some T" "ti_scheduled_task T = None" "timers_ok (- {a}) w" "usable w T" "ti_user_task T \<noteq> None" "0 \<le> d"
  shows "\<exists>w' t s th T'. PostNewScheduledTask a d w = Inr w' \<and> links_ok xs ts w' \<and> timers_ok (- {a}) w' \<and> kept w w' \<and> tw_clock w \<le> tw_clock w' \<and>
    T' = T\<lparr>ti_is_running := True, ti_scheduled_task := Some t, ti_scheduled_run_time := s, ti_desired_run_time := s, ti_thread_id := th\<rparr> \<and>
    tw_timers w' = (tw_timers w)(a \<mapsto> T') \<and> (\<forall>x\<le>tw_clock w + d. timer_ok (tw_queue w') (tw_thread w') x T')"
proof -
  obtain w' due s where w': "PostNewScheduledTask a d w = Inr w'" "links_ok xs ts w'"
    "tw_timers w' = (tw_timers w)(a \<mapsto> T\<lparr>ti_is_running := True, ti_scheduled_task := Some (tw_fresh w), ti_scheduled_run_time := s,
      ti_desired_run_time := s, ti_thread_id := if ti_thread_id T = 0 then tw_thread w else ti_thread_id T\<rparr>)"
    "tw_queue w' = tw_queue w @ [(tw_fresh w, due)]" "tw_clock w + d \<le> due" "due \<le> s" "kept w w'" "tw_clock w \<le> tw_clock w'"
    using Post_ok [OF assms(1-3,7)] by (auto simp: kept_def)
  have q: "\<forall>x. (tw_fresh w, x) \<notin> set (tw_queue w)" using not_queued [OF assms(1)] by blast
  have "timers_ok (- {a}) w'" unfolding timers_ok_def
  proof (intro ballI allI impI)
    fix b U assume "b \<in> - {a}" "tw_timers w' b = Some U"
    then have U: "tw_timers w b = Some U" "b \<in> - {a}" using w'(3) by auto
    then show "timer_ok (tw_queue w') (tw_thread w') (tw_promised w' b) U"
      using timer_ok_queue [OF assms(1) U(1) timers_okD [OF assms(4) U(2,1)]] w'(4,7) by (simp add: kept_def)
  qed
  moreover have "\<forall>x\<le>tw_clock w + d. timer_ok (tw_queue w') (tw_thread w') x (the (tw_timers w' a))"
    using assms(5,6) w'(3-7) q by (auto simp: timer_ok_def kept_def)
  ultimately show ?thesis using w'(1-3,7,8) by (metis fun_upd_same option.sel)
qed

lemma Post_timers_ok:
  assumes "links_ok xs ts w" "tw_timers w a = Some T" "ti_scheduled_task T = None" "timers_ok (- {a}) w"
    "usable w T" "ti_user_task T \<noteq> None" "tw_promised w a \<le> tw_clock w + d" "0 \<le> d"
  shows "\<exists>w' t s th. PostNewScheduledTask a d w = Inr w' \<and> links_ok xs ts w' \<and> timers_ok UNIV w' \<and> kept w w' \<and> tw_clock w \<le> tw_clock w' \<and>
    tw_timers w' = (tw_timers w)(a \<mapsto> T\<lparr>ti_is_running := True, ti_scheduled_task := Some t, ti_scheduled_run_time := s, ti_desired_run_time := s, ti_thread_id := th\<rparr>)"
proof -
  obtain w' t s th T' where w': "PostNewScheduledTask a d w = Inr w'" "links_ok xs ts w'" "timers_ok (- {a}) w'" "kept w w'" "tw_clock w \<le> tw_clock w'"
    "T' = T\<lparr>ti_is_running := True, ti_scheduled_task := Some t, ti_scheduled_run_time := s, ti_desired_run_time := s, ti_thread_id := th\<rparr>"
    "tw_timers w' = (tw_timers w)(a \<mapsto> T')" "\<forall>x\<le>tw_clock w + d. timer_ok (tw_queue w') (tw_thread w') x T'"
    using Post_timer_ok [OF assms(1-6,8)] by blast
  have "timers_ok UNIV w'" by (rule timers_okI [OF w'(3)]) (use w'(4,7,8) assms(7) in \<open>simp add: kept_def\<close>)
  then show ?thesis using w' by blast
qed

lemma promise_simps [simp]:
  "tw_timers (promise a x w) = tw_timers w" "tw_queue (promise a x w) = tw_queue w" "tw_thread (promise a x w) = tw_thread w"
  "tw_clock (promise a x w) = tw_clock w" "tw_promised (promise a x w) = (tw_promised w)(a := x)" "tw_executing (promise a x w) = tw_executing w"
  "links_ok xs ts (promise a x w) = links_ok xs ts w" "tw_tasks (promise a x w) = tw_tasks w"
  by (simp_all add: promise_def)

lemma Stop_simps [simp]:
  "ti_scheduled_task (Timer_Stop T) = ti_scheduled_task T" "ti_is_running (Timer_Stop T) = False" "ti_thread_id (Timer_Stop T) = ti_thread_id T"
  "ti_delay (Timer_Stop T) = ti_delay T"
  "ti_scheduled_run_time (Timer_Stop T) = ti_scheduled_run_time T" "ti_is_repeating (Timer_Stop T) = ti_is_repeating T"
  by (simp_all add: Timer_Stop_def Let_def)

lemma stopped_ok: "timer_ok q th x T \<Longrightarrow> timer_ok q th y (Timer_Stop T)"
  by (auto simp: timer_ok_def)

text \<open>What is left of \<open>timer_ok\<close> for a timer that is about to be reset.\<close>

definition resting :: "'c timing \<Rightarrow> 'c timer \<Rightarrow> bool" where
  "resting w T \<longleftrightarrow> usable w T \<and> (\<forall>t due. ti_scheduled_task T = Some t \<longrightarrow> (t, due) \<in> set (tw_queue w) \<longrightarrow> due \<le> ti_scheduled_run_time T)"

lemma Reset_ok:
  assumes "links_ok xs ts w" "tw_timers w a = Some T" "timers_ok (- {a}) w" "resting w T" "ti_user_task T \<noteq> None"
    "tw_promised w a = tw_clock w + ti_delay T"
  shows "\<exists>w' T'. Timer_Reset a w = Inr w' \<and> links_ok xs ts w' \<and> timers_ok UNIV w' \<and> kept w w' \<and> tw_timers w' = (tw_timers w)(a \<mapsto> T') \<and>
    ti_is_running T' \<and> ti_user_task T' = ti_user_task T"
proof (cases "ti_scheduled_task T")
  case None
  have "usable w T" "0 \<le> ti_delay T" "tw_promised w a \<le> tw_clock w + ti_delay T" using assms(4,6) by (simp_all add: resting_def)
  then obtain w' t s th where w': "PostNewScheduledTask a (ti_delay T) w = Inr w'" "links_ok xs ts w'" "timers_ok UNIV w'" "kept w w'"
      "tw_timers w' = (tw_timers w)(a \<mapsto> T\<lparr>ti_is_running := True, ti_scheduled_task := Some t, ti_scheduled_run_time := s, ti_desired_run_time := s, ti_thread_id := th\<rparr>)"
    using Post_timers_ok [OF assms(1,2) None assms(3) _ assms(5)] by blast
  have "Timer_Reset a w = Inr w'" using w'(1) None assms(2,5) by (simp add: Timer_Reset_def)
  then show ?thesis using w' by (intro exI [of _ w'] exI [of _ "the (tw_timers w' a)"]) simp
next
  case (Some t)
  obtain now ds where n: "TimeTicks_Now w = (now, w\<lparr>tw_clock := now, tw_ticks := ds\<rparr>)" "tw_clock w \<le> now" using Now_eq by blast
  define w1 where "w1 = w\<lparr>tw_clock := now, tw_ticks := ds\<rparr>"
  define T1 where "T1 = T\<lparr>ti_desired_run_time := now + ti_delay T\<rparr>"
  have sch: "scheduled_of w1 a = Some t" using assms(2) Some by (simp add: scheduled_of_def w1_def)
  have w1: "links_ok xs ts w1" "timers_ok (- {a}) w1" "kept w w1" using assms(1,3) by (simp_all add: w1_def kept_def)
  show ?thesis
  proof (cases "now + ti_delay T > ti_scheduled_run_time T")
    case True
    define w' where "w' = put_timer a (T1\<lparr>ti_is_running := True\<rparr>) w1"
    have "Timer_Reset a w = Inr w'" using assms(2,5) Some True n by (simp add: Timer_Reset_def w'_def T1_def w1_def)
    moreover have "links_ok xs ts w'" unfolding w'_def by (rule links_ok_put [OF w1(1)]) (simp add: sch T1_def Some)
    moreover have "timers_ok UNIV w'"
      by (rule timers_okI [of a]) (use w1 n assms(4-6) Some True in \<open>auto simp: w'_def timer_ok_def resting_def T1_def w1_def\<close>)
    ultimately show ?thesis using w1(3) by (intro exI [of _ w'] exI [of _ "T1\<lparr>ti_is_running := True\<rparr>"]) (simp add: w'_def w1_def T1_def)
  next
    case False
    define w2 where "w2 = put_timer a T1 w1"
    have "links_ok xs ts w2" unfolding w2_def by (rule links_ok_put [OF w1(1)]) (simp add: sch T1_def Some)
    then obtain w3 where w3: "AbandonScheduledTask a w2 = Inr w3" "links_ok xs ts w3" "tw_timers w3 = (tw_timers w2)(a \<mapsto> T1\<lparr>ti_scheduled_task := None\<rparr>)"
      "tw_queue w3 = tw_queue w2" "tw_clock w3 = tw_clock w2" "kept w2 w3"
      using Abandon_ok [of xs ts w2 a T1] assms(4) by (auto simp: w2_def T1_def w1_def resting_def)
    have k: "kept w w3" using w3(6) by (simp add: w2_def w1_def)
    have 3: "timers_ok (- {a}) w3" using w1(2) w3(3-6) by (auto simp: timers_ok_def w2_def kept_def)
    have "tw_promised w3 a \<le> tw_clock w3 + ti_delay T" using assms(6) n(2) w3(5) k by (simp add: kept_def w2_def w1_def)
    then obtain w' u s th where w': "PostNewScheduledTask a (ti_delay T) w3 = Inr w'" "links_ok xs ts w'" "timers_ok UNIV w'" "kept w3 w'"
        "tw_timers w' = (tw_timers w3)(a \<mapsto> T1\<lparr>ti_scheduled_task := None, ti_is_running := True, ti_scheduled_task := Some u, ti_scheduled_run_time := s,
            ti_desired_run_time := s, ti_thread_id := th\<rparr>)"
      using Post_timers_ok [OF w3(2), of a "T1\<lparr>ti_scheduled_task := None\<rparr>" "ti_delay T"] w3(3) 3 assms(4,5) k by (auto simp: T1_def resting_def kept_def)
    have "Timer_Reset a w = Inr w'"
      using assms(2,5) Some False n w3(1) w'(1) by (simp add: Timer_Reset_def w2_def T1_def w1_def)
    then show ?thesis using w' w3(3) kept_trans [OF k w'(4)]
      by (intro exI [of _ w'] exI [of _ "the (tw_timers w' a)"]) (simp add: w2_def w1_def T1_def)
  qed
qed

lemma StopAndAbandon_ok:
  assumes "links_ok xs ts w" "tw_timers w a = Some T" "timers_ok UNIV w"
  shows "\<exists>w' T'. StopAndAbandon a w = Inr w' \<and> links_ok xs ts w' \<and> timers_ok UNIV w' \<and> kept w w' \<and> tw_timers w' = (tw_timers w)(a \<mapsto> T') \<and>
    ti_scheduled_task T' = None \<and> tw_queue w' = tw_queue w"
proof -
  define w1 where "w1 = put_timer a (Timer_Stop T) w"
  have ok: "timer_ok (tw_queue w) (tw_thread w) (tw_promised w a) T" using timers_okD [OF assms(3) _ assms(2)] by simp
  have "links_ok xs ts w1" unfolding w1_def by (rule links_ok_put [OF assms(1)]) (simp add: scheduled_of_def assms(2))
  then obtain w' where w': "AbandonScheduledTask a w1 = Inr w'" "links_ok xs ts w'" "tw_timers w' = (tw_timers w1)(a \<mapsto> (Timer_Stop T)\<lparr>ti_scheduled_task := None\<rparr>)"
      "tw_queue w' = tw_queue w1" "kept w1 w'"
    using Abandon_ok [of xs ts w1 a "Timer_Stop T"] ok by (auto simp: w1_def timer_ok_def)
  have "timers_ok UNIV w'"
  proof (rule timers_okI [of a])
    show "timers_ok (- {a}) w'" using timers_ok_mono [OF assms(3), of "- {a}"] w'(3-5) by (auto simp: timers_ok_def w1_def kept_def)
  qed (use ok w'(3-5) in \<open>auto simp: timer_ok_def w1_def kept_def\<close>)
  moreover have "StopAndAbandon a w = Inr w'" using w'(1) assms(2) by (simp add: StopAndAbandon_def w1_def)
  ultimately show ?thesis using w' by (intro exI [of _ w'] exI [of _ "(Timer_Stop T)\<lparr>ti_scheduled_task := None\<rparr>"]) (simp add: w1_def)
qed

lemma delete_Timer_ok:
  assumes "links_ok xs ts w" "tw_timers w a = Some T" "timers_ok UNIV w"
  shows "\<exists>w'. delete_Timer a w = Inr w' \<and> links_ok xs ts w' \<and> timers_ok UNIV w' \<and> kept w w'"
proof -
  obtain w1 T' where w1: "StopAndAbandon a w = Inr w1" "links_ok xs ts w1" "timers_ok UNIV w1" "kept w w1" "tw_timers w1 = (tw_timers w)(a \<mapsto> T')"
    "ti_scheduled_task T' = None" using StopAndAbandon_ok [OF assms] by blast
  define w' where "w' = w1\<lparr>tw_timers := (tw_timers w1)(a := None)\<rparr>"
  have "scheduled_of w' = scheduled_of w1" "timer_of w' = timer_of w1" using w1(5,6) by (auto simp: w'_def scheduled_of_def timer_of_def)
  then have "links_ok xs ts w'" using w1(2) by (simp add: links_ok_def w'_def)
  moreover have "timers_ok UNIV w'" using w1(3) by (auto simp: timers_ok_def w'_def)
  ultimately show ?thesis using w1(1,4) by (intro exI [of _ w']) (simp add: delete_Timer_def w'_def kept_def)
qed

lemma run_user_task_ok:
  assumes "links_ok xs ts w" "tw_timers w a = Some T" "ti_scheduled_task T = None" "timers_ok (- {a}) w" "usable w T" "ti_user_task T = Some c"
  shows "\<exists>w' T'. run_user_task a T w = Inr (Some c, w') \<and> links_ok xs ts w' \<and> timers_ok (- {a}) w' \<and> kept w w' \<and> tw_clock w \<le> tw_clock w' \<and>
    tw_timers w' = (tw_timers w)(a \<mapsto> T') \<and> ti_is_running T' = ti_is_repeating T \<and>
    (\<forall>x\<le>tw_clock w + ti_delay T. timer_ok (tw_queue w') (tw_thread w') x T')"
proof (cases "ti_is_repeating T")
  case True
  obtain w' t s th T' where w': "PostNewScheduledTask a (ti_delay T) w = Inr w'" "links_ok xs ts w'" "timers_ok (- {a}) w'" "kept w w'" "tw_clock w \<le> tw_clock w'"
    "T' = T\<lparr>ti_is_running := True, ti_scheduled_task := Some t, ti_scheduled_run_time := s, ti_desired_run_time := s, ti_thread_id := th\<rparr>"
    "tw_timers w' = (tw_timers w)(a \<mapsto> T')" "\<forall>x\<le>tw_clock w + ti_delay T. timer_ok (tw_queue w') (tw_thread w') x T'"
    using Post_timer_ok [OF assms(1-5), of "ti_delay T"] assms(5,6) by auto
  have "run_user_task a T w = Inr (Some c, w')" using True w'(1) assms(6) by (simp add: run_user_task_def)
  then show ?thesis using w' True by (intro exI [of _ w'] exI [of _ T']) simp
next
  case False
  have "links_ok xs ts (put_timer a (Timer_Stop T) w)" by (rule links_ok_put [OF assms(1)]) (simp add: scheduled_of_def assms(2))
  then show ?thesis using assms False
    by (intro exI [of _ "put_timer a (Timer_Stop T) w"] exI [of _ "Timer_Stop T"]) (simp add: run_user_task_def timer_ok_def)
qed

text \<open>
  A turn of a timer's task: nothing for a stopped timer; a further task when the timer was reset to a later time,
  which will run the user task; the user task otherwise.
\<close>

lemma RunScheduledTask_ok:
  assumes "links_ok xs ts w" "tw_timers w a = Some T" "ti_scheduled_task T = None" "timers_ok (- {a}) w" "usable w T"
    "ti_is_running T \<Longrightarrow> ti_user_task T \<noteq> None \<and> ti_scheduled_run_time T \<le> ti_desired_run_time T \<and> tw_promised w a \<le> ti_desired_run_time T"
  shows "\<exists>c w' T'. RunScheduledTask a w = Inr (c, w') \<and> links_ok xs ts w' \<and> timers_ok (- {a}) w' \<and> kept w w' \<and> tw_clock w \<le> tw_clock w' \<and>
    tw_timers w' = (tw_timers w)(a \<mapsto> T') \<and>
    (case c of None \<Rightarrow> timers_ok UNIV w' \<and> ti_is_running T' = ti_is_running T \<and> (ti_is_running T \<longrightarrow>
         tw_clock w < ti_desired_run_time T \<and> ti_scheduled_run_time T < ti_desired_run_time T \<and>
         ti_user_task T' = ti_user_task T \<and> ti_desired_run_time T' = ti_scheduled_run_time T')
     | Some u \<Rightarrow> ti_is_running T \<and> ti_user_task T = Some u \<and> ti_is_running T' = ti_is_repeating T \<and>
         (ti_desired_run_time T = ti_scheduled_run_time T \<or> ti_desired_run_time T \<le> tw_clock w') \<and>
         (\<forall>x\<le>tw_clock w + ti_delay T. timer_ok (tw_queue w') (tw_thread w') x T'))"
proof (cases "ti_is_running T")
  case False
  have "timers_ok UNIV w" by (rule timers_okI [OF assms(4)]) (use assms(2,3,5) False in \<open>simp add: timer_ok_def\<close>)
  then show ?thesis using assms False by (intro exI [of _ None] exI [of _ w] exI [of _ T]) (simp add: RunScheduledTask_def fun_upd_idem)
next
  case run: True
  then obtain c where c: "ti_user_task T = Some c" using assms(6) by auto
  show ?thesis
  proof (cases "ti_desired_run_time T > ti_scheduled_run_time T")
    case False
    then have eq: "ti_desired_run_time T = ti_scheduled_run_time T" using assms(6) run by simp
    obtain w' T' where w': "run_user_task a T w = Inr (Some c, w')" "links_ok xs ts w'" "timers_ok (- {a}) w'" "kept w w'" "tw_clock w \<le> tw_clock w'"
      "tw_timers w' = (tw_timers w)(a \<mapsto> T')" "ti_is_running T' = ti_is_repeating T" "\<forall>x\<le>tw_clock w + ti_delay T. timer_ok (tw_queue w') (tw_thread w') x T'"
      using run_user_task_ok [OF assms(1-5) c] by blast
    have "RunScheduledTask a w = Inr (Some c, w')" using assms(2) run False w'(1) by (simp add: RunScheduledTask_def)
    then show ?thesis using w' run c eq by (intro exI [of _ "Some c"] exI [of _ w'] exI [of _ T']) simp
  next
    case later: True
    obtain now ds where n: "TimeTicks_Now w = (now, w\<lparr>tw_clock := now, tw_ticks := ds\<rparr>)" "tw_clock w \<le> now" using Now_eq by blast
    define w1 where "w1 = w\<lparr>tw_clock := now, tw_ticks := ds\<rparr>"
    have w1: "links_ok xs ts w1" "tw_timers w1 a = Some T" "timers_ok (- {a}) w1" "usable w1 T" "kept w w1" "tw_clock w1 = now"
      using assms(1,2,4,5) by (simp_all add: w1_def kept_def)
    show ?thesis
    proof (cases "ti_desired_run_time T > now")
      case True
      have "tw_promised w1 a \<le> tw_clock w1 + (ti_desired_run_time T - now)" using assms(6) run by (simp add: w1_def)
      moreover have "ti_user_task T \<noteq> None" "0 \<le> ti_desired_run_time T - now" using c True by simp_all
      ultimately obtain w' t s th where w': "PostNewScheduledTask a (ti_desired_run_time T - now) w1 = Inr w'" "links_ok xs ts w'" "timers_ok UNIV w'" "kept w1 w'" "tw_clock w1 \<le> tw_clock w'"
        "tw_timers w' = (tw_timers w1)(a \<mapsto> T\<lparr>ti_is_running := True, ti_scheduled_task := Some t, ti_scheduled_run_time := s, ti_desired_run_time := s, ti_thread_id := th\<rparr>)"
        using Post_timers_ok [OF w1(1,2) assms(3) w1(3,4)] by blast
      have "RunScheduledTask a w = Inr (None, w')" using assms(2) run later True n(1) w'(1) by (simp add: RunScheduledTask_def w1_def)
      then show ?thesis using w' run n(2) True later kept_trans [OF w1(5) w'(4)] timers_ok_mono [OF w'(3), of "- {a}"]
        by (intro exI [of _ None] exI [of _ w'] exI [of _ "the (tw_timers w' a)"]) (simp add: w1_def)
    next
      case False
      obtain w' T' where w': "run_user_task a T w1 = Inr (Some c, w')" "links_ok xs ts w'" "timers_ok (- {a}) w'" "kept w1 w'" "tw_clock w1 \<le> tw_clock w'"
        "tw_timers w' = (tw_timers w1)(a \<mapsto> T')" "ti_is_running T' = ti_is_repeating T" "\<forall>x\<le>tw_clock w1 + ti_delay T. timer_ok (tw_queue w') (tw_thread w') x T'"
        using run_user_task_ok [OF w1(1,2) assms(3) w1(3,4) c] by blast
      have "RunScheduledTask a w = Inr (Some c, w')" using assms(2) run later False n(1) w'(1) by (simp add: RunScheduledTask_def w1_def)
      then show ?thesis using w' run c n(2) False kept_trans [OF w1(5) w'(4)]
        by (intro exI [of _ "Some c"] exI [of _ w'] exI [of _ T']) (simp add: w1_def)
    qed
  qed
qed

lemma dequeue_ok:
  assumes "links_ok [] ts w" "(t, due) \<in> set (tw_queue w)"
  shows "links_ok [t] ts (dequeue t w)"
proof -
  have s: "scheduled_of (dequeue t w) = scheduled_of w" "timer_of (dequeue t w) = timer_of w" by (simp_all add: fun_eq_iff dequeue_def scheduled_of_def timer_of_def)
  have q: "set (map fst (tw_queue (dequeue t w))) = set (map fst (tw_queue w)) - {t}" by (auto simp: dequeue_def)
  have t: "t \<in> set (map fst (tw_queue w))" using assms(2) by (simp add: rev_image_eqI)
  have d: "distinct (map fst (tw_queue (dequeue t w)))" using assms(1) by (simp add: links_ok_def dequeue_def distinct_map_filter)
  then show ?thesis using assms(1) q t unfolding links_ok_def s distinct_append set_append by (auto simp: dequeue_def)
qed

lemma dequeue_timers_ok: "timers_ok A w \<Longrightarrow> timers_ok A (dequeue t w)"
  by (auto simp: timers_ok_def timer_ok_def dequeue_def)

lemma idle_ok: "links_ok (t # xs) ts w \<Longrightarrow> timer_of w t = None \<Longrightarrow> links_ok xs (t # ts) w"
  by (auto simp: links_ok_def)

lemma remove_idle:
  assumes "links_ok xs (t # ts) w" "timers_ok UNIV w"
  shows "\<exists>w'. delete_TimerTask t w = Inr w' \<and> links_ok xs ts w' \<and> timers_ok UNIV w' \<and> kept w w' \<and> tw_timers w' = tw_timers w \<and> tw_queue w' = tw_queue w \<and> tw_clock w' = tw_clock w"
proof -
  define w' where "w' = w\<lparr>tw_tasks := (tw_tasks w)(t := None)\<rparr>"
  have "t \<in> dom (tw_tasks w)" "timer_of w t = None" using assms(1) by (auto simp: links_ok_def)
  then have t: "tw_tasks w t = Some None" by (auto simp: timer_of_def split: option.splits)
  have s: "scheduled_of w' = scheduled_of w" "timer_of w' = timer_of w" using t by (auto simp: fun_eq_iff w'_def scheduled_of_def timer_of_def)
  have "dom (tw_tasks w') = dom (tw_tasks w) - {t}" by (auto simp: w'_def)
  then have "links_ok xs ts w'" using assms(1) unfolding links_ok_def s by (auto simp: w'_def)
  then show ?thesis using t assms(2) by (intro exI [of _ w']) (simp add: delete_TimerTask_def timer_task_at_def w'_def kept_def)
qed

section \<open>Every event\<close>

lemma timing_okD:
  assumes "timing_ok w"
  shows "links_ok [] (tw_executing w) w" "timers_ok UNIV w"
  using assms by (simp_all add: timing_ok_def)

lemma timing_okI: "links_ok [] (tw_executing w) w' \<Longrightarrow> timers_ok UNIV w' \<Longrightarrow> kept w w' \<Longrightarrow> timing_ok w'"
  by (simp add: timing_ok_def kept_def)

lemma attached:
  assumes "links_ok xs ts w" "timer_of w t = Some a"
  obtains T where "tw_timers w a = Some T" "ti_scheduled_task T = Some t" "tw_tasks w t = Some (Some a)" "t \<notin> set ts"
proof -
  have "scheduled_of w a = Some t" "t \<notin> set ts" using assms agreeD [of "scheduled_of w" "timer_of w" a t] by (auto simp: links_ok_def)
  then show thesis using that assms(2) by (auto simp: scheduled_of_def timer_of_def bind_eq_Some_conv)
qed

lemma dispatch_idle:
  assumes "timing_ok w" "(t, due) \<in> set (tw_queue w)" "timer_of w t = None"
  shows "\<exists>w'. dispatch t w = Inr (None, w') \<and> timing_ok w' \<and> tw_timers w' = tw_timers w"
proof -
  define w0 where "w0 = dequeue t w"
  have k: "kept w w0" "tw_timers w0 = tw_timers w" "tw_tasks w0 = tw_tasks w" by (simp_all add: w0_def dequeue_def kept_def)
  have l: "links_ok [t] (tw_executing w) w0" unfolding w0_def by (rule dequeue_ok [OF timing_okD(1) [OF assms(1)] assms(2)])
  have "t \<in> dom (tw_tasks w)" by (rule queued_alive [OF assms(2) timing_okD(1) [OF assms(1)]])
  then have t: "tw_tasks w0 t = Some None" "timer_of w0 t = None" using assms(3) k(3) by (auto simp: timer_of_def split: option.splits)
  have "timers_ok UNIV w0" unfolding w0_def by (rule dequeue_timers_ok [OF timing_okD(2) [OF assms(1)]])
  then obtain w' where w': "delete_TimerTask t w0 = Inr w'" "links_ok [] (tw_executing w) w'" "timers_ok UNIV w'" "kept w0 w'" "tw_timers w' = tw_timers w0"
    using remove_idle [OF idle_ok [OF l t(2)]] by blast
  have "dispatch t w = Inr (None, w')" using t(1) w'(1) by (simp add: dispatch_def TimerTask_Run_def timer_task_at_def w0_def [symmetric])
  then show ?thesis using timing_okI [OF w'(2,3) kept_trans [OF k(1) w'(4)]] w'(5) k(2) by simp
qed

lemma dispatch_timer:
  assumes "timing_ok w" "(t, due) \<in> set (tw_queue w)" "tw_timers w a = Some T" "ti_scheduled_task T = Some t"
  shows "\<exists>c w' T'. dispatch t w = Inr (c, w') \<and> tw_timers w' = (tw_timers w)(a \<mapsto> T') \<and> tw_clock w \<le> tw_clock w' \<and> tw_promised w' = tw_promised w \<and>
    (case c of None \<Rightarrow> timing_ok w' \<and> ti_is_running T' = ti_is_running T \<and> (ti_is_running T \<longrightarrow>
         tw_clock w < ti_desired_run_time T \<and> ti_scheduled_run_time T < ti_desired_run_time T \<and>
         ti_user_task T' = ti_user_task T \<and> ti_desired_run_time T' = ti_scheduled_run_time T')
     | Some u \<Rightarrow> timing_ok (promise a (tw_clock w + ti_delay T) w') \<and> ti_is_running T \<and> ti_user_task T = Some u \<and> ti_is_running T' = ti_is_repeating T \<and>
         (ti_desired_run_time T = ti_scheduled_run_time T \<or> ti_desired_run_time T \<le> tw_clock w'))"
proof -
  define w0 where "w0 = dequeue t w"
  define T0 where "T0 = T\<lparr>ti_scheduled_task := None\<rparr>"
  define w1 where "w1 = put_timer_task t None (put_timer a T0 w0)"
  have k: "kept w w1" "tw_clock w1 = tw_clock w" by (simp_all add: w1_def w0_def dequeue_def kept_def put_timer_task_def)
  have l0: "links_ok [t] (tw_executing w) w0" unfolding w0_def by (rule dequeue_ok [OF timing_okD(1) [OF assms(1)] assms(2)])
  have sch: "scheduled_of w0 a = Some t" using assms(3,4) by (simp add: w0_def scheduled_of_def dequeue_def)
  then have own: "timer_of w0 t = Some a" using l0 agreeD [of "scheduled_of w0" "timer_of w0" a t] by (simp add: links_ok_def)
  then have task: "tw_tasks w0 t = Some (Some a)" by (auto simp: timer_of_def bind_eq_Some_conv)
  have upd: "scheduled_of w1 = (scheduled_of w0)(a := None)" "timer_of w1 = (timer_of w0)(t := None)"
    by (auto simp: w1_def scheduled_of_def timer_of_def put_timer_task_def T0_def)
  have "agree (scheduled_of w1) (timer_of w1)" unfolding upd using l0 by (intro agree_part sch) (simp add: links_ok_def)
  then have l1: "links_ok [] (t # tw_executing w) w1" using l0 upd(2) task unfolding links_ok_def by (auto simp: w1_def put_timer_task_def)
  have t1: "timers_ok (- {a}) w1" using dequeue_timers_ok [OF timers_ok_mono [OF timing_okD(2) [OF assms(1)]], of "- {a}" t]
    by (auto simp: timers_ok_def w1_def put_timer_task_def w0_def)
  have ok: "timer_ok (tw_queue w) (tw_thread w) (tw_promised w a) T" using timers_okD [OF timing_okD(2) [OF assms(1)] UNIV_I assms(3)] .
  have T0: "tw_timers w1 a = Some T0" "ti_scheduled_task T0 = None" "usable w1 T0" using ok k(1) by (simp_all add: w1_def put_timer_task_def T0_def timer_ok_def kept_def)
  have run: "ti_is_running T0 \<Longrightarrow> ti_user_task T0 \<noteq> None \<and> ti_scheduled_run_time T0 \<le> ti_desired_run_time T0 \<and> tw_promised w1 a \<le> ti_desired_run_time T0"
    using ok k(1) by (simp add: T0_def timer_ok_def kept_def)
  obtain c w2 T' where r: "RunScheduledTask a w1 = Inr (c, w2)" "links_ok [] (t # tw_executing w) w2" "timers_ok (- {a}) w2" "kept w1 w2" "tw_clock w1 \<le> tw_clock w2"
      "tw_timers w2 = (tw_timers w1)(a \<mapsto> T')"
      "case c of None \<Rightarrow> timers_ok UNIV w2 \<and> ti_is_running T' = ti_is_running T0 \<and> (ti_is_running T0 \<longrightarrow>
         tw_clock w1 < ti_desired_run_time T0 \<and> ti_scheduled_run_time T0 < ti_desired_run_time T0 \<and>
         ti_user_task T' = ti_user_task T0 \<and> ti_desired_run_time T' = ti_scheduled_run_time T')
     | Some u \<Rightarrow> ti_is_running T0 \<and> ti_user_task T0 = Some u \<and> ti_is_running T' = ti_is_repeating T0 \<and>
         (ti_desired_run_time T0 = ti_scheduled_run_time T0 \<or> ti_desired_run_time T0 \<le> tw_clock w2) \<and>
         (\<forall>x\<le>tw_clock w1 + ti_delay T0. timer_ok (tw_queue w2) (tw_thread w2) x T')"
    using RunScheduledTask_ok [OF l1 T0(1,2) t1 T0(3) run] by blast
  have R: "TimerTask_Run t (dequeue t w) = Inr (c, w2)"
    using task assms(3) r(1) by (simp add: TimerTask_Run_def timer_task_at_def w0_def [symmetric] w1_def T0_def) (simp add: w0_def dequeue_def)
  have tm: "tw_timers w2 = (tw_timers w)(a \<mapsto> T')" using r(6) by (simp add: w1_def put_timer_task_def w0_def dequeue_def)
  have k2: "kept w w2" by (rule kept_trans [OF k(1) r(4)])
  show ?thesis
  proof (cases c)
    case None
    then obtain w' where w': "delete_TimerTask t w2 = Inr w'" "links_ok [] (tw_executing w) w'" "timers_ok UNIV w'" "kept w2 w'" "tw_timers w' = tw_timers w2" "tw_clock w' = tw_clock w2"
      using remove_idle [OF r(2)] r(7) by auto
    have "dispatch t w = Inr (None, w')" using R None w'(1) by (simp add: dispatch_def)
    moreover have "timing_ok w'" by (rule timing_okI [OF w'(2,3) kept_trans [OF k2 w'(4)]])
    moreover have "tw_promised w' = tw_promised w" using k2 w'(4) by (simp add: kept_def)
    ultimately show ?thesis using r(5,7) k(2) None tm w'(5,6) by (intro exI [of _ None] exI [of _ w'] exI [of _ T']) (simp add: T0_def)
  next
    case (Some u)
    define w' where "w' = w2\<lparr>tw_executing := t # tw_executing w2\<rparr>"
    have "dispatch t w = Inr (Some u, w')" using R Some by (simp add: dispatch_def w'_def)
    moreover have "timers_ok UNIV (promise a (tw_clock w + ti_delay T) w')"
      by (rule timers_okI [of a]) (use r(3,7) Some k(2) tm in \<open>auto simp: w'_def T0_def\<close>)
    then have "timing_ok (promise a (tw_clock w + ti_delay T) w')" using r(2) k2 by (simp add: timing_ok_def w'_def kept_def)
    ultimately show ?thesis using r(5,7) k(2) Some tm k2 by (intro exI [of _ "Some u"] exI [of _ w'] exI [of _ T']) (simp add: T0_def w'_def kept_def)
  qed
qed

lemma drop_ok:
  assumes "timing_ok w" "(t, due) \<in> set (tw_queue w)"
  shows "\<exists>w'. delete_TimerTask t (dequeue t w) = Inr w' \<and> timing_ok w'"
proof -
  define w0 where "w0 = dequeue t w"
  have k: "kept w w0" by (simp add: w0_def dequeue_def kept_def)
  have l: "links_ok [t] (tw_executing w) w0" unfolding w0_def by (rule dequeue_ok [OF timing_okD(1) [OF assms(1)] assms(2)])
  have ok: "timers_ok UNIV w0" unfolding w0_def by (rule dequeue_timers_ok [OF timing_okD(2) [OF assms(1)]])
  show ?thesis
  proof (cases "timer_of w0 t")
    case None
    then show ?thesis using remove_idle [OF idle_ok [OF l] ok] timing_okI kept_trans [OF k] by (auto simp: w0_def)
  next
    case (Some a)
    obtain T where T: "tw_timers w0 a = Some T" "ti_scheduled_task T = Some t" "tw_tasks w0 t = Some (Some a)" by (rule attached [OF l Some])
    obtain w1 T' where w1: "StopAndAbandon a w0 = Inr w1" "links_ok [t] (tw_executing w) w1" "timers_ok UNIV w1" "kept w0 w1"
        "tw_timers w1 = (tw_timers w0)(a \<mapsto> T')" "ti_scheduled_task T' = None"
      using StopAndAbandon_ok [OF l T(1) ok] by blast
    have "timer_of w1 t = None"
    proof (cases "timer_of w1 t")
      case (Some b)
      then obtain U where U: "tw_timers w1 b = Some U" "ti_scheduled_task U = Some t" using attached [OF w1(2)] by metis
      then have "b \<noteq> a" "tw_timers w0 b = Some U" using w1(5,6) by (auto split: if_splits)
      then have "timer_of w0 t = Some b" using l U(2) agreeD [of "scheduled_of w0" "timer_of w0" b t] by (simp add: links_ok_def scheduled_of_def)
      then show ?thesis using \<open>b \<noteq> a\<close> \<open>timer_of w0 t = Some a\<close> by simp
    qed
    then obtain w' where w': "delete_TimerTask t w1 = Inr w'" "links_ok [] (tw_executing w) w'" "timers_ok UNIV w'" "kept w1 w'"
      using remove_idle [OF idle_ok [OF w1(2)] w1(3)] by blast
    have "tw_tasks w1 t = Some None"
    proof -
      have "t \<in> dom (tw_tasks w1)" using alive_eq [OF w1(2)] by simp
      then show ?thesis using \<open>timer_of w1 t = None\<close> by (auto simp: timer_of_def split: option.splits)
    qed
    then have "delete_TimerTask t w0 = Inr w'" using T(3) w1(1) w'(1) by (simp add: delete_TimerTask_def timer_task_at_def)
    then show ?thesis using timing_okI [OF w'(2,3) kept_trans [OF kept_trans [OF k w1(4)] w'(4)]] by (simp add: w0_def)
  qed
qed

lemma restart_ok:
  assumes "timing_ok w" "tw_timers w a = Some T" "ti_user_task U \<noteq> None" "0 \<le> ti_delay U" "ti_scheduled_task U = ti_scheduled_task T"
    "ti_thread_id U = ti_thread_id T" "ti_scheduled_run_time U = ti_scheduled_run_time T"
  shows "\<exists>w'. Timer_Reset a (put_timer a U (promise a (tw_clock w + ti_delay U) w)) = Inr w' \<and> timing_ok w'"
proof -
  define w0 where "w0 = put_timer a U (promise a (tw_clock w + ti_delay U) w)"
  have ok: "timer_ok (tw_queue w) (tw_thread w) (tw_promised w a) T" using timers_okD [OF timing_okD(2) [OF assms(1)] UNIV_I assms(2)] .
  have "links_ok [] (tw_executing w) w0" unfolding w0_def
    by (rule links_ok_put) (use timing_okD(1) [OF assms(1)] assms(2,5) in \<open>simp_all add: scheduled_of_def\<close>)
  moreover have "timers_ok (- {a}) w0" using timers_ok_mono [OF timing_okD(2) [OF assms(1)], of "- {a}"] by (simp add: w0_def)
  moreover have "resting w0 U" using ok assms(4-7) by (simp add: resting_def timer_ok_def w0_def)
  ultimately obtain w' where "Timer_Reset a w0 = Inr w'" "links_ok [] (tw_executing w) w'" "timers_ok UNIV w'" "kept w0 w'"
    using Reset_ok [of "[]" "tw_executing w" w0 a U] assms(3) by (auto simp: w0_def)
  then show ?thesis by (intro exI [of _ w']) (simp add: w0_def timing_ok_def kept_def)
qed

lemma put_idle_timer_ok:
  assumes "timing_ok w" "ti_scheduled_task U = scheduled_of w a" "timer_ok (tw_queue w) (tw_thread w) (tw_promised w a) U"
  shows "timing_ok (put_timer a U w)"
proof (rule timing_okI [of w])
  show "links_ok [] (tw_executing w) (put_timer a U w)" by (rule links_ok_put [OF timing_okD(1) [OF assms(1)] assms(2)])
  show "timers_ok UNIV (put_timer a U w)"
    by (rule timers_okI [of a]) (use timers_ok_mono [OF timing_okD(2) [OF assms(1)], of "- {a}"] assms(3) in auto)
qed simp

lemma event_ok:
  assumes "timing_ok w" "possible e w"
  shows "\<exists>c w'. happen e w = Inr (c, w') \<and> timing_ok w'"
proof (cases e)
  case (New_timer a retain repeating)
  then show ?thesis using assms by (auto simp: quietly_def scheduled_of_def new_Timer_def timer_ok_def intro!: put_idle_timer_ok)
next
  case (New_timer_with a d c repeating)
  then show ?thesis using assms by (auto simp: quietly_def scheduled_of_def new_Timer_with_def new_Timer_def timer_ok_def intro!: put_idle_timer_ok)
next
  case (Start_timer a d c)
  then obtain T where T: "tw_timers w a = Some T" using assms(2) by auto
  obtain w' where "Timer_Reset a (put_timer a (SetTaskInfo d (Some c) T) (promise a (tw_clock w + d) w)) = Inr w'" "timing_ok w'"
    using restart_ok [OF assms(1) T, of "SetTaskInfo d (Some c) T"] assms(2) Start_timer by (auto simp: SetTaskInfo_def)
  then show ?thesis using T Start_timer by (simp add: quietly_def Timer_Start_def)
next
  case (Stop_timer a)
  then obtain T where T: "tw_timers w a = Some T" using assms(2) by auto
  have "timing_ok (put_timer a (Timer_Stop T) w)"
    by (rule put_idle_timer_ok [OF assms(1)])
       (use T timers_okD [OF timing_okD(2) [OF assms(1)] UNIV_I T] in \<open>simp_all add: scheduled_of_def stopped_ok\<close>)
  then show ?thesis using T Stop_timer by (simp add: quietly_def)
next
  case (Reset_timer a)
  then obtain T where T: "tw_timers w a = Some T" "ti_user_task T \<noteq> None" using assms(2) by (auto split: option.splits)
  then have "put_timer a T (promise a (tw_clock w + ti_delay T) w) = promise a (tw_clock w + ti_delay T) w"
    by (cases w) (simp add: put_timer_def promise_def fun_upd_idem)
  moreover have "0 \<le> ti_delay T" using timers_okD [OF timing_okD(2) [OF assms(1)] UNIV_I T(1)] by (simp add: timer_ok_def)
  ultimately show ?thesis using restart_ok [OF assms(1) T(1,2)] T(1) Reset_timer by (auto simp: quietly_def)
next
  case (Delete_timer a)
  then obtain T where T: "tw_timers w a = Some T" using assms(2) by auto
  then show ?thesis using delete_Timer_ok [OF timing_okD(1) [OF assms(1)] T timing_okD(2) [OF assms(1)]] timing_okI Delete_timer by (auto simp: quietly_def)
next
  case (Dispatch t)
  then obtain due where due: "(t, due) \<in> set (tw_queue w)" using assms(2) by (auto simp: list_ex_iff)
  show ?thesis
  proof (cases "timer_of w t")
    case None
    then show ?thesis using dispatch_idle [OF assms(1) due] Dispatch by auto
  next
    case (Some a)
    then obtain T where T: "tw_timers w a = Some T" "ti_scheduled_task T = Some t" "tw_tasks w t = Some (Some a)" using attached [OF timing_okD(1) [OF assms(1)]] by metis
    then show ?thesis using dispatch_timer [OF assms(1) due T(1,2)] Dispatch by (auto split: option.splits)
  qed
next
  case Finish
  then obtain t es where e: "tw_executing w = t # es" using assms(2) by (cases "tw_executing w") auto
  define w0 where "w0 = w\<lparr>tw_executing := es\<rparr>"
  have "links_ok [] (t # es) w0" "timers_ok UNIV w0" using timing_okD [OF assms(1)] e by (simp_all add: w0_def)
  then obtain w' where "delete_TimerTask t w0 = Inr w'" "links_ok [] es w'" "timers_ok UNIV w'" "kept w0 w'" using remove_idle by blast
  then show ?thesis using Finish e by (intro exI [of _ None] exI [of _ w']) (simp add: quietly_def w0_def timing_ok_def kept_def)
next
  case (Drop t)
  then obtain due where "(t, due) \<in> set (tw_queue w)" using assms(2) by (auto simp: list_ex_iff)
  then obtain w' where "delete_TimerTask t (dequeue t w) = Inr w'" "timing_ok w'" using drop_ok [OF assms(1)] by blast
  then show ?thesis using Drop by (simp add: quietly_def)
next
  case (Pass d ticks)
  then show ?thesis using assms(1) by (simp add: quietly_def timing_ok_def)
qed

lemma reachable_ok: "reachable w \<Longrightarrow> timing_ok w"
proof (induction rule: reachable.induct)
  case (start w)
  then have "scheduled_of w = (\<lambda>_. None)" "timer_of w = (\<lambda>_. None)" by (auto simp: scheduled_of_def timer_of_def)
  then show ?case using start by (simp add: timing_ok_def links_ok_def timers_ok_def agree_def)
next
  case (event w e c w')
  then show ?case using event_ok by fastforce
qed

lemma dispatch_in_time:
  assumes "timing_ok w" "(t, due) \<in> set (tw_queue w)" "due \<le> tw_clock w" "tw_timers w a = Some T" "ti_scheduled_task T = Some t"
  shows "\<exists>c w' T'. happen (Dispatch t) w = Inr (c, w') \<and> tw_timers w' a = Some T' \<and>
    (case c of None \<Rightarrow> ti_is_running T \<longrightarrow> tw_clock w < ti_desired_run_time T \<and> ti_scheduled_run_time T < ti_desired_run_time T \<and>
         ti_is_running T' \<and> ti_user_task T' = ti_user_task T \<and> ti_desired_run_time T' = ti_scheduled_run_time T'
     | Some u \<Rightarrow> ti_is_running T \<and> ti_user_task T = Some u \<and> tw_promised w a \<le> tw_clock w' \<and> ti_is_running T' = ti_is_repeating T)"
proof -
  have ok: "timer_ok (tw_queue w) (tw_thread w) (tw_promised w a) T" using timers_okD [OF timing_okD(2) [OF assms(1)] UNIV_I assms(4)] .
  have "agree (scheduled_of w) (timer_of w)" using timing_okD(1) [OF assms(1)] by (simp add: links_ok_def)
  then have "timer_of w t = Some a" using agreeD [of "scheduled_of w" "timer_of w" a t] assms(4,5) by (simp add: scheduled_of_def)
  then have task: "tw_tasks w t = Some (Some a)" by (auto simp: timer_of_def bind_eq_Some_conv)
  obtain c w' T' where d: "dispatch t w = Inr (c, w')" "tw_timers w' = (tw_timers w)(a \<mapsto> T')" "tw_clock w \<le> tw_clock w'"
    "case c of None \<Rightarrow> timing_ok w' \<and> ti_is_running T' = ti_is_running T \<and> (ti_is_running T \<longrightarrow>
         tw_clock w < ti_desired_run_time T \<and> ti_scheduled_run_time T < ti_desired_run_time T \<and>
         ti_user_task T' = ti_user_task T \<and> ti_desired_run_time T' = ti_scheduled_run_time T')
     | Some u \<Rightarrow> timing_ok (promise a (tw_clock w + ti_delay T) w') \<and> ti_is_running T \<and> ti_user_task T = Some u \<and> ti_is_running T' = ti_is_repeating T \<and>
         (ti_desired_run_time T = ti_scheduled_run_time T \<or> ti_desired_run_time T \<le> tw_clock w')"
    using dispatch_timer [OF assms(1,2,4,5)] by blast
  show ?thesis
  proof (cases c)
    case None
    then show ?thesis using d by (intro exI [of _ None] exI [of _ w'] exI [of _ T']) simp
  next
    case (Some u)
    then have "tw_promised w a \<le> tw_clock w'" using d(3,4) ok assms(2,3,5) by (auto simp: timer_ok_def)
    then show ?thesis using d Some task assms(4)
      by (intro exI [of _ "Some u"] exI [of _ "promise a (tw_clock w + ti_delay T) w'"] exI [of _ T']) simp
  qed
qed

section \<open>Guarantees\<close>

text \<open>
  C36: whatever sequence of calls (with delays that are not negative), due tasks and deletions happens on a thread
  with timers, no step fails a debug check, the message loop's check of the delay among them, or follows a pointer to a timer or task that is gone; and a user task only ever starts when a due task is
  run that belongs to a timer that is running, is the task that timer was given last, and starts no earlier than the
  delay of the timer after it was last started, reset or, when it repeats, run.
\<close>

theorem timers_run_safely:
  assumes "reachable w" "possible e w"
  shows "\<exists>c w'. happen e w = Inr (c, w') \<and> (\<forall>u. c = Some u \<longrightarrow>
    (\<exists>a T t. e = Dispatch t \<and> tw_timers w a = Some T \<and> ti_scheduled_task T = Some t \<and> ti_is_running T \<and> ti_user_task T = Some u \<and>
       tw_promised w a \<le> tw_clock w'))"
proof -
  have ok: "timing_ok w" by (rule reachable_ok [OF assms(1)])
  obtain c w' where h: "happen e w = Inr (c, w')" using event_ok [OF ok assms(2)] by blast
  have "\<exists>a T t. e = Dispatch t \<and> tw_timers w a = Some T \<and> ti_scheduled_task T = Some t \<and> ti_is_running T \<and> ti_user_task T = Some u \<and> tw_promised w a \<le> tw_clock w'"
    if c: "c = Some u" for u
  proof (cases "\<exists>t. e = Dispatch t")
    case True
    then obtain t due where t: "e = Dispatch t" "(t, due) \<in> set (tw_queue w)" "due \<le> tw_clock w" using assms(2) by (auto simp: list_ex_iff)
    show ?thesis
    proof (cases "timer_of w t")
      case None
      then show ?thesis using dispatch_idle [OF ok t(2)] h c t(1) by auto
    next
      case (Some a)
      then obtain T where "tw_timers w a = Some T" "ti_scheduled_task T = Some t" using attached [OF timing_okD(1) [OF ok]] by metis
      then show ?thesis using dispatch_in_time [OF ok t(2,3)] h c t(1) by fastforce
    qed
  next
    case False
    then have "c = None" using h by (cases e) (auto simp: quietly_def res_simps)
    then show ?thesis using c by simp
  qed
  then show ?thesis using h by blast
qed

text \<open>
  C37: a running timer has a task in the queue that is due by the time the user task is wanted; when it is run then
  or later the user task starts, and a one-shot timer stops while a repeating one runs on.  When the task
  is run before that time, because the timer was reset meanwhile, it posts one further task with which the user task
  will start.
\<close>

theorem running_timer_fires:
  assumes "reachable w" "tw_timers w a = Some T" "ti_is_running T"
  shows "\<exists>t due u. ti_scheduled_task T = Some t \<and> (t, due) \<in> set (tw_queue w) \<and> due \<le> ti_desired_run_time T \<and> ti_user_task T = Some u \<and>
    (due \<le> tw_clock w \<longrightarrow> (\<exists>c w' T'. happen (Dispatch t) w = Inr (c, w') \<and> tw_timers w' a = Some T' \<and>
       (if ti_desired_run_time T \<le> tw_clock w \<or> ti_desired_run_time T = ti_scheduled_run_time T
        then c = Some u \<and> ti_is_running T' = ti_is_repeating T
        else c = Some u \<or> (c = None \<and> ti_is_running T' \<and> ti_user_task T' = Some u \<and> ti_desired_run_time T' = ti_scheduled_run_time T'))))"
proof -
  have ok: "timing_ok w" by (rule reachable_ok [OF assms(1)])
  have T: "timer_ok (tw_queue w) (tw_thread w) (tw_promised w a) T" using timers_okD [OF timing_okD(2) [OF ok] UNIV_I assms(2)] .
  then obtain t u where t: "ti_scheduled_task T = Some t" "ti_user_task T = Some u" "ti_scheduled_run_time T \<le> ti_desired_run_time T" using assms(3) by (auto simp: timer_ok_def)
  have l: "links_ok [] (tw_executing w) w" by (rule timing_okD(1) [OF ok])
  then have "timer_of w t = Some a" using agreeD [of "scheduled_of w" "timer_of w" a t] assms(2) t(1) by (simp add: links_ok_def scheduled_of_def)
  then obtain "tw_tasks w t = Some (Some a)" "t \<notin> set (tw_executing w)" using attached [OF l] by metis
  then have "t \<in> fst ` set (tw_queue w)" using alive_eq [OF l] by (auto simp: dom_def)
  then obtain due where due: "(t, due) \<in> set (tw_queue w)" by auto
  then have "due \<le> ti_desired_run_time T" using T t(1,3) by (fastforce simp: timer_ok_def)
  moreover have "\<exists>c w' T'. happen (Dispatch t) w = Inr (c, w') \<and> tw_timers w' a = Some T' \<and>
       (if ti_desired_run_time T \<le> tw_clock w \<or> ti_desired_run_time T = ti_scheduled_run_time T
        then c = Some u \<and> ti_is_running T' = ti_is_repeating T
        else c = Some u \<or> (c = None \<and> ti_is_running T' \<and> ti_user_task T' = Some u \<and> ti_desired_run_time T' = ti_scheduled_run_time T'))"
    if d: "due \<le> tw_clock w"
  proof -
    obtain c w' T' where "happen (Dispatch t) w = Inr (c, w')" "tw_timers w' a = Some T'"
      "case c of None \<Rightarrow> ti_is_running T \<longrightarrow> tw_clock w < ti_desired_run_time T \<and> ti_scheduled_run_time T < ti_desired_run_time T \<and>
         ti_is_running T' \<and> ti_user_task T' = ti_user_task T \<and> ti_desired_run_time T' = ti_scheduled_run_time T'
       | Some u \<Rightarrow> ti_is_running T \<and> ti_user_task T = Some u \<and> tw_promised w a \<le> tw_clock w' \<and> ti_is_running T' = ti_is_repeating T"
      using dispatch_in_time [OF ok due d assms(2) t(1)] by blast
    then show ?thesis using assms(3) t(2) by (intro exI [of _ c] exI [of _ w'] exI [of _ T']) (cases c; auto)
  qed
  ultimately show ?thesis using t(1,2) due by blast
qed

text \<open>A one-shot timer started at time 0 with a delay of 10 and reset at time 5; now it is 11.\<close>

definition example_timing :: "nat timing" where
  "example_timing = \<lparr>tw_timers = [5 \<mapsto> \<lparr>ti_scheduled_task = Some 0, ti_delay = 10, ti_user_task = Some 8, ti_scheduled_run_time = 11,
     ti_desired_run_time = 15, ti_thread_id = 1, ti_is_repeating = False, ti_retain_user_task = False, ti_is_running = True\<rparr>],
     tw_tasks = [0 \<mapsto> Some 5], tw_queue = [(0, 10)], tw_executing = [], tw_clock = 11, tw_ticks = [], tw_fresh = 1, tw_thread = 1,
     tw_promised = (\<lambda>_. 0)(5 := 15)\<rparr>"

lemmas timer_defs = quietly_def put_timer_def put_timer_task_def promise_def new_Timer_def Timer_Start_def SetTaskInfo_def Timer_Reset_def
  PostNewScheduledTask_def PostTimerTask_def TimeTicks_Now_def timer_at_def Let_def

lemma example_reachable: "reachable example_timing"
proof -
  define w0 :: "nat timing" where "w0 = \<lparr>tw_timers = Map.empty, tw_tasks = Map.empty, tw_queue = [], tw_executing = [], tw_clock = 0,
    tw_ticks = [0, 1], tw_fresh = 0, tw_thread = 1, tw_promised = \<lambda>_. 0\<rparr>"
  have 0: "reachable w0" by (rule reachable.start) (simp_all add: w0_def)
  define w1 where "w1 = put_timer 5 (new_Timer False False) w0"
  have 1: "reachable w1" by (rule reachable.event [OF 0, of "New_timer 5 False False" None]) (simp_all add: w0_def w1_def quietly_def)
  obtain w2 where w2: "happen (Start_timer 5 10 8) w1 = Inr (None, w2)" "w2 = \<lparr>tw_timers = [5 \<mapsto> \<lparr>ti_scheduled_task = Some 0, ti_delay = 10, ti_user_task = Some 8, ti_scheduled_run_time = 11,
     ti_desired_run_time = 11, ti_thread_id = 1, ti_is_repeating = False, ti_retain_user_task = False, ti_is_running = True\<rparr>],
     tw_tasks = [0 \<mapsto> Some 5], tw_queue = [(0, 10)], tw_executing = [], tw_clock = 1, tw_ticks = [], tw_fresh = 1, tw_thread = 1,
     tw_promised = (\<lambda>_. 0)(5 := 10)\<rparr>" by (simp add: w1_def w0_def timer_defs)
  have 2: "reachable w2" by (rule reachable.event [OF 1 _ w2(1)]) (simp add: w1_def)
  have 3: "reachable (w2\<lparr>tw_clock := 5\<rparr>)" by (rule reachable.event [OF 2, of "Pass 4 []" None]) (simp_all add: quietly_def w2(2))
  have 4: "reachable (example_timing\<lparr>tw_clock := 5\<rparr>)"
    by (rule reachable.event [OF 3, of "Reset_timer 5" None]) (simp_all add: timer_defs w2(2) example_timing_def)
  show ?thesis by (rule reachable.event [OF 4, of "Pass 6 []" None]) (simp_all add: quietly_def example_timing_def)
qed

theorem timers_run_safely_witness:
  "\<exists>c w'. happen (Dispatch 0) example_timing = Inr (c, w') \<and> (\<forall>u. c = Some u \<longrightarrow>
    (\<exists>a T t. Dispatch 0 = (Dispatch t :: nat event) \<and> tw_timers example_timing a = Some T \<and> ti_scheduled_task T = Some t \<and> ti_is_running T \<and> ti_user_task T = Some u \<and>
       tw_promised example_timing a \<le> tw_clock w'))"
  by (rule timers_run_safely [OF example_reachable]) (simp add: example_timing_def)

theorem running_timer_fires_witness:
  "\<exists>T. tw_timers example_timing 5 = Some T \<and> (\<exists>t due u. ti_scheduled_task T = Some t \<and> (t, due) \<in> set (tw_queue example_timing) \<and>
     due \<le> ti_desired_run_time T \<and> ti_user_task T = Some u)"
proof -
  obtain T where T: "tw_timers example_timing 5 = Some T" "ti_is_running T" by (simp add: example_timing_def)
  show ?thesis using running_timer_fires [OF example_reachable T] T(1) by blast
qed

end
