(* ===== verification/Versions.thy ===== *)
theory Versions imports Splitting Numbers begin

text \<open>
  \<open>base/version.cc\<close>: version numbers.  A \<open>Version\<close> is the vector of its components, the empty one is invalid.
  Reading and writing are inverse on valid versions, comparison is the lexicographic order of the components with
  zeros after the last, and a wildcard compares as many numbers as stand before it.
\<close>

section \<open>Parsing\<close>

type_synonym version = "16 word list"

fun version_numbers_loop :: "ustring list \<Rightarrow> version \<Rightarrow> (bool \<times> version) res" where
  "version_numbers_loop [] parsed = Inr (True, parsed)"
| "version_numbers_loop (it # rest) parsed =
     (let (ok, num) = StringToInt it in
      if \<not> ok then Inr (False, parsed)
      else if num < 0 then Inr (False, parsed)
      else if num > 0xFFFF then Inr (False, parsed)
      else bindR (IntToString (word_of_int num)) (\<lambda>s.
        if s \<noteq> it then Inr (False, parsed) else version_numbers_loop rest (parsed @ [word_of_int num])))"

definition ParseVersionNumbers :: "ustring \<Rightarrow> version \<Rightarrow> (bool \<times> version) res" where
  "ParseVersionNumbers version_str parsed =
     bindR (SplitString version_str 46) (\<lambda>numbers.
     if numbers = [] then Inr (False, parsed) else version_numbers_loop numbers parsed)"

definition Version_of :: "ustring \<Rightarrow> version res" where
  "Version_of version_str = bindR (ParseVersionNumbers version_str []) (\<lambda>(ok, parsed). Inr (if \<not> ok then [] else parsed))"

definition Version_IsValid :: "version \<Rightarrow> bool" where
  "Version_IsValid v \<longleftrightarrow> v \<noteq> []"

text \<open>\<open>c_str()\<close> as a string again: up to the first NUL.\<close>

definition c_string :: "ustring \<Rightarrow> ustring" where
  "c_string s = takeWhile (\<lambda>c. c \<noteq> 0) s"

definition IsValidWildcardString :: "ustring \<Rightarrow> bool res" where
  "IsValidWildcardString wildcard_string =
     (let version_string = (if EndsWith (c_string wildcard_string) [46, 42] False
                            then substr 0 (length wildcard_string - 2) wildcard_string else wildcard_string)
      in bindR (Version_of version_string) (\<lambda>version. Inr (Version_IsValid version)))"

section \<open>Comparison\<close>

fun compare_common :: "(16 word \<times> 16 word) list \<Rightarrow> int option" where
  "compare_common [] = None"
| "compare_common ((x, y) # ps) = (if x > y then Some 1 else if x < y then Some (- 1) else compare_common ps)"

definition CompareVersionComponents :: "version \<Rightarrow> version \<Rightarrow> int" where
  "CompareVersionComponents components1 components2 =
     (let count = min (length components1) (length components2) in
      case compare_common (zip (take count components1) (take count components2)) of Some r \<Rightarrow> r
      | None \<Rightarrow>
          if length components1 > length components2 then
            if list_ex (\<lambda>c. c > 0) (drop count components1) then 1 else 0
          else if length components1 < length components2 then
            if list_ex (\<lambda>c. c > 0) (drop count components2) then - 1 else 0
          else 0)"

definition Version_CompareTo :: "version \<Rightarrow> version \<Rightarrow> int res" where
  "Version_CompareTo v other =
     bindR (dcheck (Version_IsValid v) ''IsValid()'') (\<lambda>_. bindR (dcheck (Version_IsValid other) ''other.IsValid()'') (\<lambda>_.
     Inr (CompareVersionComponents v other)))"

definition Version_Equals :: "version \<Rightarrow> version \<Rightarrow> bool res" where
  "Version_Equals v that =
     bindR (dcheck (Version_IsValid v) ''IsValid()'') (\<lambda>_. bindR (dcheck (Version_IsValid that) ''that.IsValid()'') (\<lambda>_.
     bindR (Version_CompareTo v that) (\<lambda>r. Inr (r = 0))))"

definition IsOlderThan :: "version \<Rightarrow> ustring \<Rightarrow> bool res" where
  "IsOlderThan v version_str =
     bindR (Version_of version_str) (\<lambda>proposed_ver.
     if \<not> Version_IsValid proposed_ver then Inr False else bindR (Version_CompareTo v proposed_ver) (\<lambda>r. Inr (r < 0)))"

definition CompareToWildcardString :: "version \<Rightarrow> ustring \<Rightarrow> int res" where
  "CompareToWildcardString v wildcard_string =
     bindR (dcheck (Version_IsValid v) ''IsValid()'') (\<lambda>_.
     bindR (IsValidWildcardString wildcard_string) (\<lambda>valid. bindR (dcheck valid ''IsValidWildcardString(wildcard_string)'') (\<lambda>_.
     if \<not> EndsWith (c_string wildcard_string) [46, 42] False then
       bindR (Version_of wildcard_string) (\<lambda>version. bindR (dcheck (Version_IsValid version) ''version.IsValid()'') (\<lambda>_.
       Version_CompareTo v version))
     else
       bindR (ParseVersionNumbers (substr 0 (length wildcard_string - 2) wildcard_string) []) (\<lambda>(success, parsed).
       bindR (dcheck success ''success'') (\<lambda>_.
         let comparison = CompareVersionComponents v parsed in
         if comparison = - 1 \<or> comparison = 0 then Inr comparison
         else bindR (dcheck (length parsed > 0) ''parsed.size() > 0'') (\<lambda>_.
           let min_num_comp = min (length v) (length parsed) in
           Inr (if list_ex (\<lambda>i. v ! i \<noteq> parsed ! i) [0..<min_num_comp] then 1 else 0)))))))"

section \<open>Writing\<close>

fun version_text_loop :: "16 word list \<Rightarrow> ustring \<Rightarrow> ustring res" where
  "version_text_loop [] version_str = Inr version_str"
| "version_text_loop (c # cs) version_str = bindR (IntToString (ucast c)) (\<lambda>s. version_text_loop cs (version_str @ s @ [46]))"

definition Version_GetString :: "version \<Rightarrow> ustring res" where
  "Version_GetString v =
     bindR (dcheck (Version_IsValid v) ''IsValid()'') (\<lambda>_.
     let count = length v in
     bindR (version_text_loop (take (count - 1) v) []) (\<lambda>version_str.
     bindR (IntToString (ucast (v ! (count - 1)))) (\<lambda>s. Inr (version_str @ s))))"

section \<open>Reading what is written\<close>

definition number_text :: "16 word \<Rightarrow> ustring" where
  "number_text c = digits10 (unat c)"

lemma small_sint: "0 \<le> n \<Longrightarrow> n < 2 ^ 31 \<Longrightarrow> sint (word_of_int n :: 32 word) = n"
  by (simp add: sint_uint uint_word_of_int signed_take_bit_eq_take_bit_shift take_bit_eq_mod)

lemma IntToString_small:
  assumes "0 \<le> n" "n < 2 ^ 31"
  shows "IntToString (word_of_int n) = Inr (digits10 (nat n))"
  using signed_text [of 4 n 10] assms by (simp add: IntToString_def small_sint)

lemma unat_16: "uint (c :: 16 word) < 65536"
  using uint_lt2p [of c] by simp

lemma IntToString_component: "IntToString (ucast (c :: 16 word)) = Inr (number_text c)"
proof -
  have u: "(ucast c :: 32 word) = word_of_int (uint c)" by (simp add: unsigned_ucast_eq)
  show ?thesis using IntToString_small [of "uint c"] unat_16 [of c] unfolding u by (simp add: number_text_def)
qed

lemma StringToInt_number: "StringToInt (digits10 n) = (n < 2 ^ 31, min (int n) (2 ^ 31 - 1))"
proof -
  have "Number_Invoke (signed_traits 32 10) (digits10 n) = (in_bounds (signed_traits 32 10) (int n), clamp (signed_traits 32 10) (int n))"
    using Number_Invoke_spec [OF decimal_traits(1), where ws = "[]" and sg = "[]" and ds = "digits10 n" and rest = "[]"]
    by (simp add: digits10_value digits10_digits sign_of_def Let_def)
  then show ?thesis by (auto simp: StringToInt_def StringToIntImpl_def in_bounds_def clamp_def signed_traits_def)
qed

lemma number_text_chars: "c \<in> set (number_text x) \<Longrightarrow> 48 \<le> c \<and> c \<le> 57"
  using digits10_digits [of c "unat x"] by (simp add: number_text_def is_digit_def)

lemma trim_number: "snd (TrimWhitespace (number_text x) TRIM_ALL) = number_text x"
proof (rule trim_id)
  have "c \<notin> set kWhitespaceASCII" if "c \<in> set (number_text x)" for c using number_text_chars [OF that] by (auto simp: kWhitespaceASCII_def)
  moreover have "number_text x \<noteq> []" by (simp add: number_text_def)
  ultimately show "number_text x = [] \<or> hd (number_text x) \<notin> set kWhitespaceASCII \<and> List.last (number_text x) \<notin> set kWhitespaceASCII" by simp
qed

lemma split_numbers:
  assumes "v \<noteq> []"
  shows "SplitStringT (JoinString (map number_text v) 46) 46 True = map number_text v"
proof -
  have "\<forall>p\<in>set (map number_text v). 46 \<notin> set p" using number_text_chars by force
  then have p: "pieces 46 (JoinStringT (map number_text v) 46) = map number_text v" using assms by (intro pieces_join) auto
  have "map number_text v \<noteq> [[]]" by (cases v) (auto simp: number_text_def)
  then show ?thesis using p by (simp add: SplitStringT_pieces split_ref_def JoinString_def trim_number comp_def Let_def)
qed

lemma numbers_loop_reads: "version_numbers_loop (map number_text v) acc = Inr (True, acc @ v)"
proof (induction v arbitrary: acc)
  case (Cons c v)
  have u: "unat c < 65536" using unsigned_less [of c, where ?'a = nat] by simp
  have "StringToInt (number_text c) = (True, uint c)" using u unat_16 [of c] by (simp add: number_text_def StringToInt_number)
  moreover have "IntToString (word_of_int (uint c)) = Inr (number_text c)" using IntToString_small [of "uint c"] unat_16 [of c] by (simp add: number_text_def)
  ultimately show ?case using Cons unat_16 [of c] by (simp add: Let_def)
qed simp

lemma numbers_loop_canonical: "version_numbers_loop ns acc = Inr (True, r) \<Longrightarrow> \<exists>v. r = acc @ v \<and> ns = map number_text v"
proof (induction ns arbitrary: acc)
  case (Cons it ns)
  obtain ok num where n: "StringToInt it = (ok, num)" by force
  then have ok: "ok" "0 \<le> num" "num \<le> 65535" using Cons(2) by (auto simp: Let_def split: if_splits)
  define c :: "16 word" where "c = word_of_int num"
  have num: "uint c = num" using ok(2,3) by (simp add: c_def uint_word_of_int take_bit_eq_mod)
  have "IntToString (word_of_int num) = Inr (number_text c)" using IntToString_small [of num] ok num by (simp add: number_text_def unat_eq_nat_uint)
  then have "it = number_text c" "version_numbers_loop ns (acc @ [c]) = Inr (True, r)"
    using Cons(2) n ok by (auto simp: Let_def c_def split: if_splits)
  moreover from this obtain v where "r = (acc @ [c]) @ v" "ns = map number_text v" using Cons(1) by blast
  ultimately show ?case by (intro exI [of _ "c # v"]) simp
qed simp

lemma text_loop: "version_text_loop cs acc = Inr (acc @ concat (map (\<lambda>c. number_text c @ [46]) cs))"
  by (induction cs arbitrary: acc) (simp_all add: IntToString_component)

lemma join_last: "JoinStringT (ps @ [p]) c = concat (map (\<lambda>q. q @ [c]) ps) @ p"
  by (induction ps) (simp_all add: JoinStringT_Cons del: JoinStringT.simps)

lemma GetString_join: "v \<noteq> [] \<Longrightarrow> Version_GetString v = Inr (JoinString (map number_text v) 46)"
proof -
  assume v: "v \<noteq> []"
  have "v = take (length v - 1) v @ [v ! (length v - 1)]" using v by (metis append_butlast_last_id butlast_conv_take last_conv_nth)
  then have e: "map number_text v = map number_text (take (length v - 1) v) @ [number_text (v ! (length v - 1))]"
    by (metis list.simps(8,9) map_append)
  show ?thesis
    unfolding Version_GetString_def JoinString_def e join_last using v
    by (simp add: Version_IsValid_def text_loop IntToString_component comp_def Let_def del: One_nat_def)
qed

lemma Version_of_split:
  "Version_of s = (case version_numbers_loop (SplitStringT s 46 True) [] of Inl e \<Rightarrow> Inl e
     | Inr (ok, parsed) \<Rightarrow> Inr (if ok then parsed else []))"
  by (cases "SplitStringT s 46 True = []") (auto simp: Version_of_def ParseVersionNumbers_def SplitString_def bindR_def split: sum.splits prod.splits)

lemma Version_of_canonical: "Version_of s = Inr v \<Longrightarrow> v \<noteq> [] \<Longrightarrow> SplitStringT s 46 True = map number_text v"
  using numbers_loop_canonical [of "SplitStringT s 46 True" "[]" v] by (auto simp: Version_of_split split: sum.splits prod.splits if_splits)

lemma Version_of_text: "v \<noteq> [] \<Longrightarrow> Version_of (JoinString (map number_text v) 46) = Inr v"
  by (simp add: Version_of_split split_numbers numbers_loop_reads)

text \<open>
  The text that \<open>GetString\<close> writes for a valid version is read as this version again, and any text that is read
  as the version differs from it only by white space around the numbers.
\<close>

theorem version_text_roundtrip:
  assumes "v \<noteq> []"
  shows "\<exists>s. Version_GetString v = Inr s \<and> Version_of s = Inr v \<and>
    (\<forall>t. Version_of t = Inr v \<longrightarrow> JoinString (SplitStringT t 46 True) 46 = s)"
  using GetString_join [OF assms] Version_of_text [OF assms] Version_of_canonical [of _ v] assms by auto

theorem version_text_roundtrip_witness:
  "\<exists>s. Version_GetString [1, 20, 3] = Inr s \<and> Version_of s = Inr [1, 20, 3] \<and>
    (\<forall>t. Version_of t = Inr [1, 20, 3] \<longrightarrow> JoinString (SplitStringT t 46 True) 46 = s)"
  by (rule version_text_roundtrip) simp

section \<open>The order\<close>

text \<open>The numbers of a version, zeros after the last; \<open>older\<close> at the first number that differs.\<close>

definition version_number :: "version \<Rightarrow> nat \<Rightarrow> 16 word" where
  "version_number v i = (if i < length v then v ! i else 0)"

definition older :: "version \<Rightarrow> version \<Rightarrow> bool" where
  "older a b \<longleftrightarrow> (\<exists>k. (\<forall>i<k. version_number a i = version_number b i) \<and> version_number a k < version_number b k)"

definition order_of :: "version \<Rightarrow> version \<Rightarrow> int" where
  "order_of a b = (if older a b then - 1 else if older b a then 1 else 0)"

lemma version_number_simps [simp]:
  "version_number [] i = 0" "version_number (x # v) 0 = x" "version_number (x # v) (Suc i) = version_number v i"
  by (simp_all add: version_number_def)

lemma older_split:
  "older a b \<longleftrightarrow> version_number a 0 < version_number b 0 \<or>
     version_number a 0 = version_number b 0 \<and> (\<exists>k. (\<forall>i<k. version_number a (Suc i) = version_number b (Suc i)) \<and> version_number a (Suc k) < version_number b (Suc k))"
proof
  assume "older a b"
  then obtain k where k: "\<forall>i<k. version_number a i = version_number b i" "version_number a k < version_number b k" by (auto simp: older_def)
  then show "version_number a 0 < version_number b 0 \<or>
     version_number a 0 = version_number b 0 \<and> (\<exists>k. (\<forall>i<k. version_number a (Suc i) = version_number b (Suc i)) \<and> version_number a (Suc k) < version_number b (Suc k))"
    by (cases k) auto
next
  assume "version_number a 0 < version_number b 0 \<or>
     version_number a 0 = version_number b 0 \<and> (\<exists>k. (\<forall>i<k. version_number a (Suc i) = version_number b (Suc i)) \<and> version_number a (Suc k) < version_number b (Suc k))"
  then show "older a b"
  proof
    assume "version_number a 0 < version_number b 0"
    then show ?thesis unfolding older_def by (intro exI [of _ 0]) simp
  next
    assume r: "version_number a 0 = version_number b 0 \<and> (\<exists>k. (\<forall>i<k. version_number a (Suc i) = version_number b (Suc i)) \<and> version_number a (Suc k) < version_number b (Suc k))"
    then obtain k where "\<forall>i<k. version_number a (Suc i) = version_number b (Suc i)" "version_number a (Suc k) < version_number b (Suc k)" by auto
    then show ?thesis using r unfolding older_def by (intro exI [of _ "Suc k"]) (simp add: All_less_Suc2)
  qed
qed

lemma older_Cons: "older (x # a) (y # b) \<longleftrightarrow> x < y \<or> x = y \<and> older a b"
  unfolding older_split [of "x # a"] by (simp add: older_def)

lemma older_Nil: "older [] b \<longleftrightarrow> list_ex (\<lambda>c. c > 0) b" "\<not> older a []"
proof -
  show "older [] b \<longleftrightarrow> list_ex (\<lambda>c. c > 0) b"
  proof (induction b)
    case (Cons y b)
    have "older [] (y # b) \<longleftrightarrow> 0 < y \<or> y = 0 \<and> older [] b" unfolding older_split [of "[]" "y # b"] by (auto simp: older_def)
    then show ?case using Cons word_gt_0 [of y] by auto
  qed (simp add: older_def)
qed (simp add: older_def)

lemma order_of_Nil: "order_of [] b = (if list_ex (\<lambda>c. c > 0) b then - 1 else 0)" "order_of a [] = (if list_ex (\<lambda>c. c > 0) a then 1 else 0)"
  by (simp_all add: order_of_def older_Nil)

lemma order_of_Cons: "order_of (x # a) (y # b) = (if x > y then 1 else if x < y then - 1 else order_of a b)"
  by (auto simp: order_of_def older_Cons)

lemma compare_Cons: "CompareVersionComponents (x # a) (y # b) = (if x > y then 1 else if x < y then - 1 else CompareVersionComponents a b)"
  by (simp add: CompareVersionComponents_def Let_def cong del: option.case_cong_weak)

lemma CompareVersionComponents_order: "CompareVersionComponents a b = order_of a b"
proof (induction a arbitrary: b)
  case Nil
  then show ?case by (cases b) (simp_all add: order_of_Nil CompareVersionComponents_def)
next
  case (Cons x a)
  then show ?case by (cases b) (simp_all add: order_of_Nil order_of_Cons compare_Cons, simp add: CompareVersionComponents_def)
qed

lemma older_asym: "older a b \<Longrightarrow> \<not> older b a"
  unfolding older_def by (metis less_asym linorder_neqE_nat)

lemma order_of_zero: "order_of a b = 0 \<longleftrightarrow> version_number a = version_number b"
proof
  assume z: "order_of a b = 0"
  have "version_number a i = version_number b i" for i
  proof (induction i rule: less_induct)
    case (less i)
    then have "\<not> version_number a i < version_number b i" "\<not> version_number b i < version_number a i"
      using z unfolding order_of_def older_def by (metis one_neq_neg_one zero_neq_neg_one zero_neq_one)+
    then show ?case by (simp add: linorder_neq_iff)
  qed
  then show "version_number a = version_number b" by blast
next
  assume "version_number a = version_number b"
  then show "order_of a b = 0" by (simp add: order_of_def older_def)
qed

lemma order_of_cong: "version_number a = version_number a' \<Longrightarrow> order_of a b = order_of a' b"
  by (simp add: order_of_def older_def)

lemma order_of_range: "order_of a b = - 1 \<or> order_of a b = 0 \<or> order_of a b = 1"
  by (simp add: order_of_def)

lemma upt_Suc_map: "[0..<Suc n] = 0 # map Suc [0..<n]"
  by (simp add: upt_conv_Cons map_Suc_upt del: upt_Suc)

lemma wildcard_order:
  "(if order_of v p = - 1 \<or> order_of v p = 0 then order_of v p
    else if list_ex (\<lambda>i. v ! i \<noteq> p ! i) [0..<min (length v) (length p)] then 1 else 0) = order_of (map (version_number v) [0..<length p]) p"
proof (induction p arbitrary: v)
  case Nil
  then show ?case by (simp add: order_of_Nil)
next
  case (Cons y p)
  show ?case
  proof (cases v)
    case Nil
    have "version_number (map (version_number []) [0..<length (y # p)]) = version_number []"
      by (auto simp: fun_eq_iff version_number_def simp del: upt_Suc)
    then have e: "order_of (map (version_number []) [0..<length (y # p)]) (y # p) = order_of [] (y # p)" by (rule order_of_cong)
    show ?thesis unfolding Nil e unfolding order_of_Nil by simp
  next
    case v: (Cons x v')
    have m: "map (version_number v) [0..<length (y # p)] = x # map (version_number v') [0..<length p]"
      unfolding v by (simp add: upt_Suc_map comp_def del: upt_Suc)
    have e: "list_ex (\<lambda>i. v ! i \<noteq> (y # p) ! i) [0..<min (length v) (length (y # p))] \<longleftrightarrow> x \<noteq> y \<or> list_ex (\<lambda>i. v' ! i \<noteq> p ! i) [0..<min (length v') (length p)]"
      unfolding v by (simp add: list_ex_iff Bex_def Ex_less_Suc2 del: upt_Suc)
    show ?thesis unfolding e m unfolding v order_of_Cons using Cons.IH [of v'] by auto
  qed
qed

text \<open>
  C38: comparison is the lexicographic order on the numbers of the versions with zeros after the last, so that exactly one of
  older, newer and the same numbers holds; \<open>IsOlderThan\<close> agrees with it, and a wildcard \<open>.*\<close> compares only the
  numbers that stand before it.
\<close>

theorem version_order:
  assumes "v \<noteq> []" "Version_of s = Inr p" "p \<noteq> []" "0 \<notin> set s"
  shows "Version_CompareTo v p = Inr (order_of v p) \<and>
    (order_of v p = 0) = (version_number v = version_number p) \<and> order_of p v = - order_of v p \<and>
    IsOlderThan v s = Inr (older v p) \<and>
    CompareToWildcardString v (s @ [46, 42]) = Inr (order_of (map (version_number v) [0..<length p]) p)"
proof (intro conjI)
  show c: "Version_CompareTo v p = Inr (order_of v p)"
    using assms(1,3) by (simp add: Version_CompareTo_def Version_IsValid_def CompareVersionComponents_order)
  show "(order_of v p = 0) = (version_number v = version_number p)" by (rule order_of_zero)
  show "order_of p v = - order_of v p" using older_asym by (auto simp: order_of_def)
  show "IsOlderThan v s = Inr (older v p)"
    using assms(2,3) c by (simp add: IsOlderThan_def Version_IsValid_def) (simp add: order_of_def)
  have cs: "c_string (s @ [46, 42]) = s @ [46, 42]" using assms(4) by (auto simp: c_string_def takeWhile_eq_all_conv)
  then have e: "EndsWith (c_string (s @ [46, 42])) [46, 42] False"
    by (simp add: EndsWith_def EndsWithT_def CaseInsensitiveCompare_def)
  have st: "substr 0 (length (s @ [46, 42]) - 2) (s @ [46, 42]) = s" by (simp add: substr_def)
  have valid: "IsValidWildcardString (s @ [46, 42]) = Inr True" using e st assms(2,3) by (simp add: IsValidWildcardString_def Version_IsValid_def Let_def)
  obtain ok parsed where "ParseVersionNumbers s [] = Inr (ok, parsed)" "p = (if ok then parsed else [])"
    using assms(2) by (auto simp: Version_of_def res_simps)
  then have parsed: "ParseVersionNumbers s [] = Inr (True, p)" using assms(3) by (auto split: if_splits)
  show "CompareToWildcardString v (s @ [46, 42]) = Inr (order_of (map (version_number v) [0..<length p]) p)"
    unfolding CompareToWildcardString_def valid bindR_Inr st parsed CompareVersionComponents_order wildcard_order [symmetric]
    using assms(1,3) e by (simp add: Version_IsValid_def Let_def)
qed

theorem version_order_witness: "CompareToWildcardString [1, 2, 7] ([49, 46, 50] @ [46, 42]) = Inr (order_of (map (version_number [1, 2, 7]) [0..<length [1, 2 :: 16 word]]) [1, 2])"
proof -
  have "Version_of (JoinString (map number_text [1, 2]) 46) = Inr [1, 2]" by (rule Version_of_text) simp
  then have "Version_of [49, 46, 50] = Inr [1, 2]" by (simp add: number_text_def digits10.simps JoinString_def)
  then show ?thesis using version_order [of "[1, 2, 7]" "[49, 46, 50]" "[1, 2]"] by simp
qed

end
