(* ===== verification/CommandLines.thy ===== *)
theory CommandLines imports StringAlgos begin

text \<open>
  \<open>base/command_line.cc\<close> as it is built for systems without drive letters: command lines as vectors of a program,
  switches and arguments with a table of the switches.  Reading an argument vector is described by the lists
  of its switches and arguments, and reading the vector of a command line again gives the same command line.
\<close>

section \<open>Switches\<close>

definition kSwitchTerminator :: ustring where "kSwitchTerminator = [45, 45]"
definition kSwitchValueSeparator :: ustring where "kSwitchValueSeparator = [61]"
definition kSwitchPrefixes :: "ustring list" where "kSwitchPrefixes = [[45, 45], [45]]"

fun switch_prefix_loop :: "ustring list \<Rightarrow> ustring \<Rightarrow> nat" where
  "switch_prefix_loop [] string = 0"
| "switch_prefix_loop (p # rest) string =
     (if substr 0 (length p) string = p then length p else switch_prefix_loop rest string)"

definition GetSwitchPrefixLength :: "ustring \<Rightarrow> nat" where
  "GetSwitchPrefixLength string = switch_prefix_loop kSwitchPrefixes string"

definition IsSwitch :: "ustring \<Rightarrow> bool \<times> ustring \<times> ustring" where
  "IsSwitch string =
     (if GetSwitchPrefixLength string = 0 then (False, [], [])
      else case find_sub kSwitchValueSeparator 0 string of
        None \<Rightarrow> (True, string, [])
      | Some equals_position \<Rightarrow> (True, substr 0 equals_position string, drop (equals_position + 1) string))"

definition LowerASCIIOnWindows :: "ustring \<Rightarrow> ustring" where
  "LowerASCIIOnWindows string = string"

section \<open>Command lines\<close>

record command_line =
  cl_argv :: "ustring list"
  cl_switches :: "ustring \<rightharpoonup> ustring"
  cl_begin_args :: nat

definition new_CommandLine :: command_line where
  "new_CommandLine = \<lparr>cl_argv = [[]], cl_switches = Map.empty, cl_begin_args = 1\<rparr>"

definition AppendArgNative :: "ustring \<Rightarrow> command_line \<Rightarrow> command_line" where
  "AppendArgNative value c = c\<lparr>cl_argv := cl_argv c @ [value]\<rparr>"

definition AppendSwitchNative :: "ustring \<Rightarrow> ustring \<Rightarrow> command_line \<Rightarrow> command_line res" where
  "AppendSwitchNative switch_string value c =
     (let switch_key = LowerASCIIOnWindows switch_string;
          prefix_length = GetSwitchPrefixLength switch_string;
          c1 = c\<lparr>cl_switches := (cl_switches c)(drop prefix_length switch_key \<mapsto> value)\<rparr>;
          combined1 = (if prefix_length = 0 then hd kSwitchPrefixes @ switch_string else switch_string);
          combined2 = (if value \<noteq> [] then combined1 @ kSwitchValueSeparator @ value else combined1);
          b = cl_begin_args c1
      in if b > length (cl_argv c1) then Inl (OutOfBounds ''argv_.begin() + begin_args_'')
         else Inr (c1\<lparr>cl_argv := take b (cl_argv c1) @ combined2 # drop b (cl_argv c1), cl_begin_args := b + 1\<rparr>))"

fun append_loop :: "bool \<Rightarrow> ustring list \<Rightarrow> command_line \<Rightarrow> command_line res" where
  "append_loop parse_switches [] c = Inr c"
| "append_loop parse_switches (argi # rest) c =
     (let arg = snd (TrimWhitespace argi TRIM_ALL);
          parse = (parse_switches \<and> arg \<noteq> kSwitchTerminator);
          (is_switch, switch_string, switch_value) = IsSwitch arg
      in if parse \<and> is_switch then bindR (AppendSwitchNative switch_string switch_value c) (append_loop parse rest)
         else append_loop parse rest (AppendArgNative arg c))"

definition AppendSwitchesAndArguments :: "ustring list \<Rightarrow> command_line \<Rightarrow> command_line res" where
  "AppendSwitchesAndArguments argv c = append_loop True (tl argv) c"

definition SetProgram :: "ustring \<Rightarrow> command_line \<Rightarrow> command_line res" where
  "SetProgram program c =
     (case cl_argv c of [] \<Rightarrow> Inl (OutOfBounds ''argv_[0]'')
      | _ # rest \<Rightarrow> Inr (c\<lparr>cl_argv := snd (TrimWhitespace program TRIM_ALL) # rest\<rparr>))"

definition GetProgram :: "command_line \<Rightarrow> ustring res" where
  "GetProgram c = (case cl_argv c of [] \<Rightarrow> Inl (OutOfBounds ''argv_[0]'') | p # _ \<Rightarrow> Inr p)"

definition CommandLine_of_program :: "ustring \<Rightarrow> command_line res" where
  "CommandLine_of_program program = SetProgram program new_CommandLine"

definition InitFromArgv :: "ustring list \<Rightarrow> command_line \<Rightarrow> command_line res" where
  "InitFromArgv argv c =
     bindR (SetProgram (if argv = [] then [] else hd argv) (c\<lparr>cl_argv := [[]], cl_begin_args := 1\<rparr>)) (AppendSwitchesAndArguments argv)"

definition CommandLine_of_argv :: "ustring list \<Rightarrow> command_line res" where
  "CommandLine_of_argv argv = InitFromArgv argv new_CommandLine"

definition HasSwitch :: "ustring \<Rightarrow> command_line \<Rightarrow> bool" where
  "HasSwitch switch_string c \<longleftrightarrow> cl_switches c (LowerASCIIOnWindows switch_string) \<noteq> None"

definition GetSwitchValueNative :: "ustring \<Rightarrow> command_line \<Rightarrow> ustring" where
  "GetSwitchValueNative switch_string c =
     (case cl_switches c (LowerASCIIOnWindows switch_string) of None \<Rightarrow> [] | Some value \<Rightarrow> value)"

definition GetSwitchValueASCII :: "ustring \<Rightarrow> command_line \<Rightarrow> ustring" where
  "GetSwitchValueASCII switch_string c =
     (let value = GetSwitchValueNative switch_string c in if \<not> IsStringASCII 8 value then [] else value)"

definition GetSwitchValuePath :: "ustring \<Rightarrow> command_line \<Rightarrow> ustring" where
  "GetSwitchValuePath switch_string c = GetSwitchValueNative switch_string c"

definition AppendSwitch :: "ustring \<Rightarrow> command_line \<Rightarrow> command_line res" where
  "AppendSwitch switch_string c = AppendSwitchNative switch_string [] c"

definition AppendSwitchPath :: "ustring \<Rightarrow> ustring \<Rightarrow> command_line \<Rightarrow> command_line res" where
  "AppendSwitchPath switch_string path c = AppendSwitchNative switch_string path c"

definition AppendSwitchASCII :: "ustring \<Rightarrow> ustring \<Rightarrow> command_line \<Rightarrow> command_line res" where
  "AppendSwitchASCII switch_string value_string c = AppendSwitchNative switch_string value_string c"

fun CopySwitchesFrom :: "command_line \<Rightarrow> ustring list \<Rightarrow> command_line \<Rightarrow> command_line res" where
  "CopySwitchesFrom source [] c = Inr c"
| "CopySwitchesFrom source (s # rest) c =
     (if HasSwitch s source then bindR (AppendSwitchNative s (GetSwitchValueNative s source) c) (CopySwitchesFrom source rest)
      else CopySwitchesFrom source rest c)"

definition GetArgs :: "command_line \<Rightarrow> ustring list res" where
  "GetArgs c =
     (if cl_begin_args c > length (cl_argv c) then Inl (OutOfBounds ''argv_.begin() + begin_args_'')
      else Inr (remove1 kSwitchTerminator (drop (cl_begin_args c) (cl_argv c))))"

definition AppendArg :: "ustring \<Rightarrow> command_line \<Rightarrow> command_line" where
  "AppendArg value c = AppendArgNative value c"

definition AppendArgPath :: "ustring \<Rightarrow> command_line \<Rightarrow> command_line" where
  "AppendArgPath path c = AppendArgNative path c"

definition AppendArguments :: "command_line \<Rightarrow> bool \<Rightarrow> command_line \<Rightarrow> command_line res" where
  "AppendArguments other include_program c =
     bindR (if include_program then bindR (GetProgram other) (\<lambda>p. SetProgram p c) else Inr c) (AppendSwitchesAndArguments (cl_argv other))"

definition PrependWrapper :: "ustring \<Rightarrow> command_line \<Rightarrow> command_line res" where
  "PrependWrapper wrapper c =
     (if wrapper = [] then Inr c
      else bindR (SplitString wrapper 32) (\<lambda>wrapper_argv.
        Inr (c\<lparr>cl_argv := wrapper_argv @ cl_argv c, cl_begin_args := cl_begin_args c + length wrapper_argv\<rparr>)))"

fun command_string_loop :: "bool \<Rightarrow> ustring list \<Rightarrow> ustring \<Rightarrow> ustring" where
  "command_string_loop parse_switches [] string = string"
| "command_string_loop parse_switches (arg # rest) string =
     (let parse = (parse_switches \<and> arg \<noteq> kSwitchTerminator);
          (is_switch, switch_string, switch_value) = IsSwitch arg
      in command_string_loop parse rest
           (if parse \<and> is_switch
            then string @ [32] @ switch_string @ (if switch_value \<noteq> [] then kSwitchValueSeparator @ switch_value else [])
            else string @ [32] @ arg))"

definition GetCommandLineString :: "command_line \<Rightarrow> ustring res" where
  "GetCommandLineString c =
     (case cl_argv c of [] \<Rightarrow> Inl (OutOfBounds ''argv_[0]'') | p # rest \<Rightarrow> Inr (command_string_loop True rest p))"

section \<open>The command line of the process\<close>

definition CommandLine_Init :: "ustring list \<Rightarrow> command_line ptr \<Rightarrow> (bool \<times> command_line ptr) res" where
  "CommandLine_Init argv current =
     (if current \<noteq> None then Inr (False, current)
      else bindR (InitFromArgv argv new_CommandLine) (\<lambda>c. Inr (True, Some c)))"

definition CommandLine_Reset :: "command_line ptr \<Rightarrow> command_line ptr res" where
  "CommandLine_Reset current = bindR (dcheck (current \<noteq> None) ''current_process_commandline_'') (\<lambda>_. Inr None)"

definition ForCurrentProcess :: "command_line ptr \<Rightarrow> command_line ptr res" where
  "ForCurrentProcess current = bindR (dcheck (current \<noteq> None) ''current_process_commandline_'') (\<lambda>_. Inr current)"

section \<open>What an argument vector says\<close>

definition trimmed :: "ustring \<Rightarrow> ustring" where
  "trimmed s = snd (TrimWhitespace s TRIM_ALL)"

definition is_switch :: "ustring \<Rightarrow> bool" where
  "is_switch s \<longleftrightarrow> (\<exists>t. s = 45 # t)"

text \<open>The arguments up to the first \<open>--\<close>, and their switches.\<close>

definition switches_of :: "ustring list \<Rightarrow> ustring list" where
  "switches_of as = filter is_switch (takeWhile (\<lambda>a. a \<noteq> [45, 45]) as)"

definition arguments_of :: "ustring list \<Rightarrow> ustring list" where
  "arguments_of as = filter (\<lambda>a. \<not> is_switch a) (takeWhile (\<lambda>a. a \<noteq> [45, 45]) as) @ dropWhile (\<lambda>a. a \<noteq> [45, 45]) as"

text \<open>A switch is a name, after one or two dashes, and a value, after the first equals sign.\<close>

definition switch_part :: "ustring \<Rightarrow> ustring" where
  "switch_part s = takeWhile (\<lambda>c. c \<noteq> 61) s"

definition switch_name :: "ustring \<Rightarrow> ustring" where
  "switch_name s = (if take 2 (switch_part s) = [45, 45] then drop 2 (switch_part s) else drop 1 (switch_part s))"

definition switch_value :: "ustring \<Rightarrow> ustring" where
  "switch_value s = drop (length (switch_part s) + 1) s"

text \<open>How a switch is kept: without an equals sign that has no value behind it.\<close>

definition kept_switch :: "ustring \<Rightarrow> ustring" where
  "kept_switch s = (if switch_value s = [] then switch_part s else s)"

lemma GetSwitchPrefixLength_eq: "GetSwitchPrefixLength s = (if take 2 s = [45, 45] then 2 else if take 1 s = [45] then 1 else 0)"
  by (simp add: GetSwitchPrefixLength_def kSwitchPrefixes_def substr_def numeral_2_eq_2)

lemma prefix_length_switch: "GetSwitchPrefixLength s \<noteq> 0 \<longleftrightarrow> is_switch s"
  by (cases s) (auto simp: GetSwitchPrefixLength_eq is_switch_def)

lemma find_equals: "find_sub [61] 0 s = (if length (switch_part s) < length s then Some (length (switch_part s)) else None)"
proof (cases "61 \<in> set s")
  case True
  then obtain a b where s: "s = a @ 61 # b" "61 \<notin> set a" by (meson split_list_first)
  then have p: "switch_part s = a" unfolding switch_part_def s(1) by (subst takeWhile_append2) auto
  have "find (\<lambda>j. take (length [61]) (drop j s) = [61]) [0..<length s - length [61] + 1] = Some (length a)"
    unfolding find_Some_iff
    by (intro exI [of _ "length a"]) (use s in \<open>auto simp: nth_append take_Suc_conv_app_nth take_Suc hd_drop_conv_nth dest!: nth_mem\<close>)
  then show ?thesis using p s by (simp add: find_sub_def)
next
  case False
  then have "switch_part s = s" by (auto simp: switch_part_def takeWhile_eq_all_conv)
  moreover have "find (\<lambda>j. take (length [61]) (drop j s) = [61]) [0..<length s - length [61] + 1] = None"
    unfolding find_None_iff
  proof
    assume "\<exists>j. j \<in> set [0..<length s - length [61] + 1] \<and> take (length [61]) (drop j s) = [61]"
    then obtain j where "take 1 (drop j s) = [61]" by auto
    then have "61 \<in> set s" by (metis in_set_dropD in_set_takeD list.set_intros(1))
    then show False using False by simp
  qed
  ultimately show ?thesis by (simp add: find_sub_def)
qed

lemma IsSwitch_eq: "IsSwitch s = (if is_switch s then (True, switch_part s, switch_value s) else (False, [], []))"
proof -
  have t: "take (length (switch_part s)) s = switch_part s" by (simp add: switch_part_def takeWhile_eq_take [symmetric])
  show ?thesis using prefix_length_switch [of s] t takeWhile_eq_all_conv length_takeWhile_le [of "\<lambda>c. c \<noteq> 61" s]
    by (auto simp: IsSwitch_def kSwitchValueSeparator_def find_equals substr_def switch_value_def switch_part_def le_less)
qed

lemma switch_split: "switch_part s = s \<or> s = switch_part s @ 61 # switch_value s"
proof (cases "61 \<in> set s")
  case True
  then obtain a b where s: "s = a @ 61 # b" "61 \<notin> set a" by (meson split_list_first)
  then have "switch_part s = a" unfolding switch_part_def s(1) by (subst takeWhile_append2) auto
  then show ?thesis using s(1) by (simp add: switch_value_def)
qed (auto simp: switch_part_def takeWhile_eq_all_conv)

lemma kept_switch_eq: "kept_switch s = (if switch_value s \<noteq> [] then switch_part s @ 61 # switch_value s else switch_part s)"
  using switch_split [of s] by (auto simp: kept_switch_def switch_value_def)

lemma kept_switch_id: "s \<noteq> [] \<Longrightarrow> List.last s \<noteq> 61 \<Longrightarrow> kept_switch s = s"
  using switch_split [of s] unfolding kept_switch_def by (metis last_snoc)

lemma is_switch_part: "is_switch s \<Longrightarrow> is_switch (switch_part s)"
  by (auto simp: is_switch_def switch_part_def)

lemma switch_name_eq: "is_switch s \<Longrightarrow> drop (GetSwitchPrefixLength (switch_part s)) (switch_part s) = switch_name s"
  using is_switch_part [of s] by (auto simp: GetSwitchPrefixLength_eq switch_name_def is_switch_def)

lemma AppendSwitch_parsed:
  assumes "is_switch s" "cl_begin_args c \<le> length (cl_argv c)"
  shows "AppendSwitchNative (switch_part s) (switch_value s) c =
    Inr (c\<lparr>cl_argv := take (cl_begin_args c) (cl_argv c) @ kept_switch s # drop (cl_begin_args c) (cl_argv c),
      cl_switches := (cl_switches c)(switch_name s \<mapsto> switch_value s), cl_begin_args := cl_begin_args c + 1\<rparr>)"
  using assms prefix_length_switch [of "switch_part s"] is_switch_part [OF assms(1)]
  by (simp add: AppendSwitchNative_def LowerASCIIOnWindows_def switch_name_eq kSwitchValueSeparator_def kept_switch_eq Let_def)

text \<open>The table of the switches: of several with one name the last counts.\<close>

definition switch_table :: "ustring list \<Rightarrow> ustring \<rightharpoonup> ustring" where
  "switch_table ss = map_of (rev (map (\<lambda>s. (switch_name s, switch_value s)) ss))"

lemma switch_table_Cons: "m(switch_name s \<mapsto> switch_value s) ++ switch_table ss = m ++ switch_table (s # ss)"
  by (simp add: switch_table_def)

lemma switches_of_simps [simp]:
  "switches_of [] = []" "arguments_of [] = []"
  "switches_of (a # as) = (if a = [45, 45] then [] else if is_switch a then a # switches_of as else switches_of as)"
  "arguments_of (a # as) = (if a = [45, 45] then a # as else if is_switch a then arguments_of as else a # arguments_of as)"
  by (simp_all add: switches_of_def arguments_of_def)

lemma append_loop_eq:
  assumes "cl_begin_args c \<le> length (cl_argv c)"
  shows "append_loop parse as c =
    (let ts = map trimmed as; ss = (if parse then switches_of ts else []); rest = (if parse then arguments_of ts else ts) in
     Inr (c\<lparr>cl_argv := take (cl_begin_args c) (cl_argv c) @ map kept_switch ss @ drop (cl_begin_args c) (cl_argv c) @ rest,
       cl_switches := cl_switches c ++ switch_table ss, cl_begin_args := cl_begin_args c + length ss\<rparr>))"
  using assms
proof (induction as arbitrary: parse c)
  case Nil
  then show ?case by (simp add: switch_table_def)
next
  case (Cons a as)
  define t where "t = trimmed a"
  show ?case
  proof (cases "parse \<and> t \<noteq> [45, 45] \<and> is_switch t")
    case True
    define c1 where "c1 = c\<lparr>cl_argv := take (cl_begin_args c) (cl_argv c) @ kept_switch t # drop (cl_begin_args c) (cl_argv c),
      cl_switches := (cl_switches c)(switch_name t \<mapsto> switch_value t), cl_begin_args := cl_begin_args c + 1\<rparr>"
    have c1: "take (cl_begin_args c1) (cl_argv c1) = take (cl_begin_args c) (cl_argv c) @ [kept_switch t]"
      "drop (cl_begin_args c1) (cl_argv c1) = drop (cl_begin_args c) (cl_argv c)" "cl_begin_args c1 \<le> length (cl_argv c1)"
      using Cons.prems by (simp_all add: c1_def)
    have "append_loop parse (a # as) c = append_loop True as c1"
      using True Cons.prems by (simp add: t_def [symmetric] trimmed_def [symmetric] IsSwitch_eq AppendSwitch_parsed kSwitchTerminator_def Let_def c1_def)
    also note Cons.IH [OF c1(3), of True, unfolded if_True c1(1,2)]
    finally show ?thesis using True by (simp add: t_def [symmetric] c1_def switch_table_Cons Let_def del: fun_upd_apply)
  next
    case False
    let ?p = "parse \<and> t \<noteq> [45, 45]"
    have "append_loop parse (a # as) c = append_loop ?p as (AppendArgNative t c)"
      using False by (auto simp: t_def [symmetric] trimmed_def [symmetric] IsSwitch_eq kSwitchTerminator_def Let_def)
    then show ?thesis using False Cons.IH [of "AppendArgNative t c" ?p] Cons.prems
      by (auto simp: AppendArgNative_def t_def Let_def switch_table_def)
  qed
qed

lemma InitFromArgv_eq:
  "InitFromArgv argv c0 = (let as = map trimmed (tl argv) in Inr \<lparr>cl_argv = trimmed (if argv = [] then [] else hd argv) # map kept_switch (switches_of as) @ arguments_of as,
     cl_switches = cl_switches c0 ++ switch_table (switches_of as), cl_begin_args = length (switches_of as) + 1\<rparr>)"
  by (cases c0) (simp add: InitFromArgv_def SetProgram_def trimmed_def [symmetric] AppendSwitchesAndArguments_def append_loop_eq Let_def
      del: One_nat_def)

lemma CommandLine_of_argv_eq:
  "CommandLine_of_argv argv = (let as = map trimmed (tl argv) in Inr \<lparr>cl_argv = trimmed (if argv = [] then [] else hd argv) # map kept_switch (switches_of as) @ arguments_of as,
     cl_switches = switch_table (switches_of as), cl_begin_args = length (switches_of as) + 1\<rparr>)"
  by (simp add: CommandLine_of_argv_def InitFromArgv_eq new_CommandLine_def)

lemma switch_table_None: "switch_table ss k = None \<longleftrightarrow> k \<notin> switch_name ` set ss"
  by (simp add: switch_table_def map_of_eq_None_iff image_image)

text \<open>
  C39: a command line read from an argument vector, new or used before, holds the trimmed program, its switches and its
  arguments in their order, the switches before the arguments, where everything after the first \<open>--\<close> is an argument;
  \<open>GetArgs\<close> gives the arguments without the first \<open>--\<close>.  A switch is found by exactly its name without dashes,
  in the same case, with the value behind the first equals sign, the last of several with the same name; the comment in
  \<open>command_line.h\<close> calls switch names case-insensitive, but this build keeps and compares them as they are.  A
  command line that is used again still finds the switches it had before, with their values unless the new vector gives
  them others; a new one has none.
\<close>

theorem command_line_parsed:
  "\<exists>c. InitFromArgv argv c0 = Inr c \<and>
    (let as = map trimmed (tl argv); ss = switches_of as in
     cl_argv c = trimmed (if argv = [] then [] else hd argv) # map kept_switch ss @ arguments_of as \<and>
     cl_begin_args c = length ss + 1 \<and>
     GetArgs c = Inr (remove1 [45, 45] (arguments_of as)) \<and>
     (\<forall>k. HasSwitch k c \<longleftrightarrow> k \<in> switch_name ` set ss \<or> HasSwitch k c0) \<and>
     (\<forall>k s later earlier. ss = earlier @ s # later \<longrightarrow> switch_name s = k \<longrightarrow> k \<notin> switch_name ` set later \<longrightarrow>
        GetSwitchValueNative k c = switch_value s) \<and>
     (\<forall>k. k \<notin> switch_name ` set ss \<longrightarrow> GetSwitchValueNative k c = GetSwitchValueNative k c0) \<and>
     (\<forall>k. \<not> HasSwitch k new_CommandLine))"
proof -
  define p where "p = (if argv = [] then [] else hd argv)"
  let ?as = "map trimmed (tl argv)"
  let ?ss = "switches_of ?as"
  define c where "c = \<lparr>cl_argv = trimmed p # map kept_switch ?ss @ arguments_of ?as, cl_switches = cl_switches c0 ++ switch_table ?ss,
    cl_begin_args = length ?ss + 1\<rparr>"
  have "InitFromArgv argv c0 = Inr c" by (simp add: InitFromArgv_eq c_def p_def Let_def)
  moreover have "GetArgs c = Inr (remove1 [45, 45] (arguments_of ?as))" by (simp add: GetArgs_def c_def kSwitchTerminator_def)
  moreover have "HasSwitch k c \<longleftrightarrow> k \<in> switch_name ` set ?ss \<or> HasSwitch k c0" for k
    using switch_table_None [of ?ss k] by (auto simp: HasSwitch_def LowerASCIIOnWindows_def c_def map_add_def split: option.splits)
  moreover have "GetSwitchValueNative k c = switch_value s" if "?ss = earlier @ s # later" "switch_name s = k" "k \<notin> switch_name ` set later" for k s later earlier
  proof -
    have "map_of (rev (map (\<lambda>s. (switch_name s, switch_value s)) later)) k = None"
      using that(3) by (simp add: map_of_eq_None_iff image_image)
    then show ?thesis using that(1,2) by (simp add: GetSwitchValueNative_def LowerASCIIOnWindows_def c_def switch_table_def map_add_def)
  qed
  moreover have "GetSwitchValueNative k c = GetSwitchValueNative k c0" if "k \<notin> switch_name ` set ?ss" for k
    using that switch_table_None [of ?ss k] by (simp add: GetSwitchValueNative_def LowerASCIIOnWindows_def c_def map_add_def)
  moreover have "\<not> HasSwitch k new_CommandLine" for k by (simp add: HasSwitch_def new_CommandLine_def)
  ultimately show ?thesis unfolding Let_def p_def [symmetric] by (intro exI [of _ c] conjI allI impI) (simp_all add: c_def)
qed

text \<open>The vector \<open>p a --x=1 -x=2 -- -y\<close>, read into a command line that had the switch \<open>z\<close>.\<close>

theorem command_line_parsed_witness:
  "\<exists>c. InitFromArgv [[112], [97], [45, 45, 120, 61, 49], [45, 120, 61, 50], [45, 45], [45, 121]]
      (new_CommandLine\<lparr>cl_switches := [[122] \<mapsto> [51]]\<rparr>) = Inr c \<and>
    GetSwitchValueNative [120] c = [50] \<and> \<not> HasSwitch [121] c \<and> \<not> HasSwitch [88] c \<and> GetSwitchValueNative [122] c = [51] \<and>
    GetArgs c = Inr [[97], [45, 121]]"
proof -
  let ?argv = "[[112], [97], [45, 45, 120, 61, 49], [45, 120, 61, 50], [45, 45], [45, 121 :: int]]"
  let ?c0 = "new_CommandLine\<lparr>cl_switches := [[122] \<mapsto> [51]]\<rparr>"
  have as: "map trimmed (tl ?argv) = tl ?argv" by (simp add: trimmed_def trim_id kWhitespaceASCII_def)
  have ss: "switches_of (tl ?argv) = [[45, 45, 120, 61, 49]] @ [45, 120, 61, 50] # []"
    and rest: "arguments_of (tl ?argv) = [[97], [45, 45], [45, 121]]" by (simp_all add: is_switch_def)
  have names: "switch_name [45, 45, 120, 61, 49] = [120]" "switch_name [45, 120, 61, 50] = [120]" "switch_value [45, 120, 61, 50] = [50]"
    by (simp_all add: switch_name_def switch_value_def switch_part_def)
  have old: "HasSwitch k ?c0 \<longleftrightarrow> k = [122]" "GetSwitchValueNative [122] ?c0 = [51]" for k
    by (simp_all add: HasSwitch_def GetSwitchValueNative_def LowerASCIIOnWindows_def)
  obtain c where c: "InitFromArgv ?argv ?c0 = Inr c" "GetArgs c = Inr (remove1 [45, 45] (arguments_of (tl ?argv)))"
    "\<forall>k. HasSwitch k c \<longleftrightarrow> k \<in> switch_name ` set (switches_of (tl ?argv)) \<or> HasSwitch k ?c0"
    "\<forall>k s later earlier. switches_of (tl ?argv) = earlier @ s # later \<longrightarrow> switch_name s = k \<longrightarrow> k \<notin> switch_name ` set later \<longrightarrow>
        GetSwitchValueNative k c = switch_value s"
    "\<forall>k. k \<notin> switch_name ` set (switches_of (tl ?argv)) \<longrightarrow> GetSwitchValueNative k c = GetSwitchValueNative k ?c0"
    using command_line_parsed [of ?argv ?c0] unfolding as Let_def by blast
  have "GetSwitchValueNative [120] c = [50]" using c(4) [rule_format, OF ss names(2)] names(3) by simp
  moreover have "\<not> HasSwitch [121] c" "\<not> HasSwitch [88] c" using c(3) ss names old(1) by simp_all
  moreover have "GetSwitchValueNative [122] c = [51]" using c(5) ss names old(2) by simp
  moreover have "GetArgs c = Inr [[97], [45, 121]]" using c(2) rest by simp
  ultimately show ?thesis using c(1) by blast
qed

lemma trimmed_trimmed [simp]: "trimmed (trimmed s) = trimmed s"
  by (simp add: trimmed_def)

lemma parts_of_parts:
  "switches_of (switches_of as @ arguments_of as) = switches_of as" "arguments_of (switches_of as @ arguments_of as) = arguments_of as"
proof -
  have 1: "switches_of (xs @ ys) = xs @ switches_of ys \<and> arguments_of (xs @ ys) = arguments_of ys" if "\<forall>x\<in>set xs. is_switch x \<and> x \<noteq> [45, 45]" for xs ys
    using that by (induction xs) auto
  have 2: "\<forall>x\<in>set (switches_of as). is_switch x \<and> x \<noteq> [45, 45]" by (auto simp: switches_of_def dest: set_takeWhileD)
  have 3: "switches_of (arguments_of as) = [] \<and> arguments_of (arguments_of as) = arguments_of as"
    by (induction as) (auto simp: is_switch_def)
  show "switches_of (switches_of as @ arguments_of as) = switches_of as" "arguments_of (switches_of as @ arguments_of as) = arguments_of as"
    using 1 [OF 2] 3 by simp_all
qed

text \<open>
  Reading the vector of a command line that was read from an argument vector gives the same command line again,
  unless a switch ends in an equals sign with no value (it is kept without, so that \<open>--=\<close> turns into the end of the
  switches).
\<close>

theorem command_line_reparsed:
  assumes "\<forall>a\<in>set (tl argv). trimmed a = [] \<or> List.last (trimmed a) \<noteq> 61"
  shows "\<exists>c. CommandLine_of_argv argv = Inr c \<and> CommandLine_of_argv (cl_argv c) = Inr c"
proof -
  let ?as = "map trimmed (tl argv)"
  have sub: "set (switches_of ?as) \<subseteq> set ?as" "set (arguments_of ?as) \<subseteq> set ?as"
    by (auto simp: switches_of_def arguments_of_def dest: set_takeWhileD set_dropWhileD)
  have "kept_switch s = s" if "s \<in> set (switches_of ?as)" for s
  proof -
    have "is_switch s" using that by (auto simp: switches_of_def)
    moreover have "s = [] \<or> List.last s \<noteq> 61" using that sub(1) assms by auto
    ultimately show ?thesis by (intro kept_switch_id) (auto simp: is_switch_def)
  qed
  then have k: "map kept_switch (switches_of ?as) = switches_of ?as" by (simp add: map_idI)
  have t: "map trimmed (switches_of ?as @ arguments_of ?as) = switches_of ?as @ arguments_of ?as"
    using sub by (intro map_idI) auto
  show ?thesis using t by (simp add: CommandLine_of_argv_eq parts_of_parts k Let_def)
qed

theorem command_line_reparsed_witness:
  "\<exists>c. CommandLine_of_argv [[112], [97], [32, 45, 45, 120, 61, 49], [45, 45], [45, 121]] = Inr c \<and> CommandLine_of_argv (cl_argv c) = Inr c"
  by (rule command_line_reparsed)
     (simp add: trimmed_def TrimWhitespace_def TrimWhitespaceASCII_def TrimStringT_def find_first_def find_last_def substr_def kWhitespaceASCII_def
       TRIM_ALL_def TRIM_LEADING_def TRIM_TRAILING_def Let_def)

end
