(* ===== verification/StringPieces.thy ===== *)
theory StringPieces imports StringOps begin

text \<open>
  \<open>base/string_piece.cc\<close>: searching in string pieces.  A piece is the string of its characters (signed bytes), a position
  is a number, \<open>npos\<close> as a result is \<open>None\<close>.  The table of characters and the loops forwards and backwards find what
  the definitions of the searches say.
\<close>

section \<open>Operations\<close>

definition piece_at :: "ustring \<Rightarrow> nat \<Rightarrow> int res" where
  "piece_at self i = (if i < length self then Inr (self ! i) else Inl (OutOfBounds ''data()[i]''))"

definition piece_equal :: "ustring \<Rightarrow> ustring \<Rightarrow> bool" where
  "piece_equal x y = (if length x \<noteq> length y then False else take (length x) x = take (length x) y)"

definition CopyToString :: "ustring \<Rightarrow> ustring \<Rightarrow> ustring" where
  "CopyToString self target = take (length self) (if self \<noteq> [] then self else [])"

definition AppendToString :: "ustring \<Rightarrow> ustring \<Rightarrow> ustring" where
  "AppendToString self target = (if self \<noteq> [] then target @ take (length self) self else target)"

text \<open>What is written to the buffer; the difference of the sizes wraps around.\<close>

definition piece_copy :: "ustring \<Rightarrow> nat \<Rightarrow> nat \<Rightarrow> (nat \<times> ustring) res" where
  "piece_copy self n pos =
     (let ret = min (nat ((int (length self) - int pos) mod 2 ^ 64)) n in
      if pos + ret > length self then Inl (OutOfBounds ''memcpy'') else Inr (ret, substr pos ret self))"

definition piece_find :: "ustring \<Rightarrow> ustring \<Rightarrow> nat \<Rightarrow> nat option" where
  "piece_find self s pos =
     (if pos > length self then None
      else let xpos = (case find_sub s pos self of Some j \<Rightarrow> j | None \<Rightarrow> length self) in
           if xpos + length s \<le> length self then Some xpos else None)"

definition piece_find_char :: "ustring \<Rightarrow> int \<Rightarrow> nat \<Rightarrow> nat option" where
  "piece_find_char self c pos =
     (if pos \<ge> length self then None
      else let result = pos + length (takeWhile (\<lambda>x. x \<noteq> c) (drop pos self)) in
           if result \<noteq> length self then Some result else None)"

text \<open>\<open>std::find_end\<close>: where the last occurrence begins, or the end.\<close>

definition find_end :: "ustring \<Rightarrow> ustring \<Rightarrow> nat" where
  "find_end self s = (case find (\<lambda>j. take (length s) (drop j self) = s) (rev [0..<length self + 1 - length s]) of Some j \<Rightarrow> j | None \<Rightarrow> length self)"

definition piece_rfind :: "ustring \<Rightarrow> ustring \<Rightarrow> nat \<Rightarrow> nat option" where
  "piece_rfind self s pos =
     (if length self < length s then None
      else if s = [] then Some (min (length self) pos)
      else let end_pos = min (length self - length s) pos + length s;
               result = find_end (take end_pos self) s
           in if result \<noteq> end_pos then Some result else None)"

text \<open>The loops: forwards to the end, and backwards to 0.\<close>

function scan_up :: "(int \<Rightarrow> bool) \<Rightarrow> ustring \<Rightarrow> nat \<Rightarrow> nat option res" where
  "scan_up P self i =
     (if i < length self then bindR (piece_at self i) (\<lambda>c. if P c then Inr (Some i) else scan_up P self (i + 1)) else Inr None)"
  by pat_completeness auto
termination by (relation "measure (\<lambda>(P, self, i). length self - i)") auto

declare scan_up.simps [simp del]

fun scan_down :: "(int \<Rightarrow> bool) \<Rightarrow> ustring \<Rightarrow> nat \<Rightarrow> nat option res" where
  "scan_down P self i =
     bindR (piece_at self i) (\<lambda>c. if P c then Inr (Some i) else if i = 0 then Inr None else scan_down P self (i - 1))"

declare scan_down.simps [simp del]

definition piece_rfind_char :: "ustring \<Rightarrow> int \<Rightarrow> nat \<Rightarrow> nat option res" where
  "piece_rfind_char self c pos = (if length self = 0 then Inr None else scan_down (\<lambda>x. x = c) self (min pos (length self - 1)))"

definition unsigned_char :: "int \<Rightarrow> nat" where
  "unsigned_char c = nat (c mod 256)"

fun lookup_loop :: "ustring \<Rightarrow> bool list \<Rightarrow> bool list" where
  "lookup_loop [] table = table"
| "lookup_loop (c # cs) table = lookup_loop cs (table[unsigned_char c := True])"

definition BuildLookupTable :: "ustring \<Rightarrow> bool list" where
  "BuildLookupTable characters_wanted = lookup_loop characters_wanted (replicate 256 False)"

definition piece_find_first_of :: "ustring \<Rightarrow> ustring \<Rightarrow> nat \<Rightarrow> nat option res" where
  "piece_find_first_of self s pos =
     (if length self = 0 \<or> length s = 0 then Inr None
      else if length s = 1 then bindR (piece_at s 0) (\<lambda>c. Inr (piece_find_char self c pos))
      else let lookup = BuildLookupTable s in scan_up (\<lambda>c. lookup ! unsigned_char c) self pos)"

definition piece_find_first_not_of_char :: "ustring \<Rightarrow> int \<Rightarrow> nat \<Rightarrow> nat option res" where
  "piece_find_first_not_of_char self c pos = (if length self = 0 then Inr None else scan_up (\<lambda>x. x \<noteq> c) self pos)"

definition piece_find_first_not_of :: "ustring \<Rightarrow> ustring \<Rightarrow> nat \<Rightarrow> nat option res" where
  "piece_find_first_not_of self s pos =
     (if length self = 0 then Inr None
      else if length s = 0 then Inr (Some 0)
      else if length s = 1 then bindR (piece_at s 0) (\<lambda>c. piece_find_first_not_of_char self c pos)
      else let lookup = BuildLookupTable s in scan_up (\<lambda>c. \<not> lookup ! unsigned_char c) self pos)"

definition piece_find_last_of :: "ustring \<Rightarrow> ustring \<Rightarrow> nat \<Rightarrow> nat option res" where
  "piece_find_last_of self s pos =
     (if length self = 0 \<or> length s = 0 then Inr None
      else if length s = 1 then bindR (piece_at s 0) (\<lambda>c. piece_rfind_char self c pos)
      else let lookup = BuildLookupTable s in scan_down (\<lambda>c. lookup ! unsigned_char c) self (min pos (length self - 1)))"

definition piece_find_last_not_of_char :: "ustring \<Rightarrow> int \<Rightarrow> nat \<Rightarrow> nat option res" where
  "piece_find_last_not_of_char self c pos =
     (if length self = 0 then Inr None else scan_down (\<lambda>x. x \<noteq> c) self (min pos (length self - 1)))"

definition piece_find_last_not_of :: "ustring \<Rightarrow> ustring \<Rightarrow> nat \<Rightarrow> nat option res" where
  "piece_find_last_not_of self s pos =
     (if length self = 0 then Inr None
      else let i = min pos (length self - 1) in
        if length s = 0 then Inr (Some i)
        else if length s = 1 then bindR (piece_at s 0) (\<lambda>c. piece_find_last_not_of_char self c pos)
        else let lookup = BuildLookupTable s in scan_down (\<lambda>c. \<not> lookup ! unsigned_char c) self i)"

definition piece_substr :: "ustring \<Rightarrow> nat \<Rightarrow> nat \<Rightarrow> ustring" where
  "piece_substr self pos n =
     (let pos1 = (if pos > length self then length self else pos);
          n1 = (if n > length self - pos1 then length self - pos1 else n)
      in take n1 (drop pos1 self))"

section \<open>Specifications\<close>

text \<open>The first position from \<open>pos\<close> on, and the last up to \<open>pos\<close>, of those below \<open>n\<close> with a property.\<close>

definition first_from :: "(nat \<Rightarrow> bool) \<Rightarrow> nat \<Rightarrow> nat \<Rightarrow> nat option" where
  "first_from Q pos n = find Q [pos..<n]"

definition last_to :: "(nat \<Rightarrow> bool) \<Rightarrow> nat \<Rightarrow> nat \<Rightarrow> nat option" where
  "last_to Q pos n = find Q (rev [0..<min (pos + 1) n])"

definition occurs_at :: "ustring \<Rightarrow> ustring \<Rightarrow> nat \<Rightarrow> bool" where
  "occurs_at self s j \<longleftrightarrow> take (length s) (drop j self) = s"

definition signed_bytes :: "ustring \<Rightarrow> bool" where
  "signed_bytes s \<longleftrightarrow> (\<forall>c\<in>set s. - 128 \<le> c \<and> c \<le> 127)"

lemma scan_up_first: "scan_up P self i = Inr (first_from (\<lambda>j. P (self ! j)) i (length self))"
proof (induction P self i rule: scan_up.induct)
  case (1 P self i)
  show ?case
  proof (cases "i < length self")
    case True
    then show ?thesis using 1 by (subst scan_up.simps) (simp add: piece_at_def first_from_def upt_conv_Cons del: upt_Suc)
  qed (subst scan_up.simps, simp add: first_from_def)
qed

lemma scan_down_last: "i < length self \<Longrightarrow> scan_down P self i = Inr (last_to (\<lambda>j. P (self ! j)) i (length self))"
proof (induction i)
  case 0
  then have m: "min (Suc 0) (length self) = Suc 0" by (cases self) auto
  show ?case using 0 by (subst scan_down.simps) (simp add: piece_at_def last_to_def m)
next
  case (Suc i)
  then have "last_to Q (Suc i) (length self) = (if Q (Suc i) then Some (Suc i) else last_to Q i (length self))" for Q
    by (simp add: last_to_def min_def)
  then show ?case using Suc by (subst scan_down.simps) (simp add: piece_at_def)
qed

lemma last_to_min: "0 < n \<Longrightarrow> last_to Q (min pos (n - 1)) n = last_to Q pos n"
proof -
  assume "0 < n"
  then have "min (min pos (n - 1) + 1) n = min (pos + 1) n" by linarith
  then show ?thesis by (simp only: last_to_def)
qed

lemma scan_down_min: "self \<noteq> [] \<Longrightarrow> scan_down P self (min pos (length self - 1)) = Inr (last_to (\<lambda>j. P (self ! j)) pos (length self))"
  using scan_down_last [of "min pos (length self - 1)" self P] last_to_min [of "length self" "\<lambda>j. P (self ! j)" pos] by (simp add: min_less_iff_disj)

lemma lookup_loop_nth:
  assumes "length table = 256"
  shows "lookup_loop cs table ! unsigned_char c \<longleftrightarrow> table ! unsigned_char c \<or> (\<exists>x\<in>set cs. x mod 256 = c mod 256)"
  using assms
proof (induction cs arbitrary: table)
  case (Cons x cs)
  have "unsigned_char x < 256" "unsigned_char c < 256" by (simp_all add: unsigned_char_def nat_less_iff)
  moreover have "unsigned_char x = unsigned_char c \<longleftrightarrow> x mod 256 = c mod 256" by (simp add: unsigned_char_def eq_nat_nat_iff)
  ultimately show ?case using Cons by (auto simp: nth_list_update)
qed simp

lemma byte_mod: "- 128 \<le> (x::int) \<Longrightarrow> x \<le> 127 \<Longrightarrow> x mod 256 = (if x < 0 then x + 256 else x)"
proof -
  assume x: "- 128 \<le> x" "x \<le> 127"
  have "x mod 256 = (x + 256) mod 256" by simp
  also have "x < 0 \<Longrightarrow> \<dots> = x + 256" using x by (intro mod_pos_pos_trivial) auto
  finally show ?thesis using x mod_pos_pos_trivial [of x 256] by auto
qed

lemma lookup_table:
  assumes "signed_bytes s" "- 128 \<le> c" "c \<le> 127"
  shows "BuildLookupTable s ! unsigned_char c \<longleftrightarrow> c \<in> set s"
proof -
  have "unsigned_char c < 256" by (simp add: unsigned_char_def nat_less_iff)
  moreover have "(\<exists>x\<in>set s. x mod 256 = c mod 256) \<longleftrightarrow> c \<in> set s" using assms byte_mod [of c] by (auto simp: signed_bytes_def byte_mod split: if_splits)
  ultimately show ?thesis by (simp add: BuildLookupTable_def lookup_loop_nth)
qed

lemma first_from_cong: "(\<And>j. j < n \<Longrightarrow> P j = Q j) \<Longrightarrow> first_from P pos n = first_from Q pos n"
  by (auto simp: first_from_def intro: find_cong)

lemma last_to_cong: "(\<And>j. j < n \<Longrightarrow> P j = Q j) \<Longrightarrow> last_to P pos n = last_to Q pos n"
  by (auto simp: last_to_def intro: find_cong)

lemma table_char:
  assumes "signed_bytes self" "signed_bytes s" "j < length self"
  shows "BuildLookupTable s ! unsigned_char (self ! j) \<longleftrightarrow> self ! j \<in> set s"
  using assms lookup_table [of s "self ! j"] by (simp add: signed_bytes_def)

lemma find_char_first: "piece_find_char self c pos = first_from (\<lambda>j. self ! j = c) pos (length self)"
proof (cases "pos < length self")
  case True
  have "\<lbrakk>pos \<le> length self; xs = drop pos self\<rbrakk> \<Longrightarrow>
    (let result = pos + length (takeWhile (\<lambda>x. x \<noteq> c) xs) in if result \<noteq> length self then Some result else None) = first_from (\<lambda>j. self ! j = c) pos (length self)" for xs
  proof (induction xs arbitrary: pos)
    case Nil
    then show ?case by (simp add: first_from_def)
  next
    case (Cons x xs)
    then have p: "pos < length self" "x = self ! pos" "xs = drop (Suc pos) self"
      by (metis drop_all leI list.distinct(1), metis nth_via_drop, metis drop_Suc drop_tl list.sel(3))
    then show ?case using Cons(1) [of "Suc pos"] by (auto simp: first_from_def upt_conv_Cons Let_def simp del: upt_Suc)
  qed
  then show ?thesis using True by (simp add: piece_find_char_def)
qed (simp add: piece_find_char_def first_from_def)

lemma find_first: "piece_find self s pos = first_from (occurs_at self s) pos (length self + 1 - length s)"
proof (cases "pos \<le> length self")
  case True
  show ?thesis
  proof (cases "length s \<le> length self")
    case le: True
    then have n: "length self - length s + 1 = length self + 1 - length s" by simp
    have fs: "find_sub s pos self = first_from (occurs_at self s) pos (length self + 1 - length s)"
      by (simp only: find_sub_def n first_from_def occurs_at_def [abs_def])
    show ?thesis
    proof (cases "find_sub s pos self")
      case None
      then have "s \<noteq> []" using True by (auto simp: find_sub_def find_None_iff)
      then show ?thesis unfolding fs [symmetric] using None True by (simp add: piece_find_def)
    next
      case (Some j)
      then show ?thesis unfolding fs [symmetric] using True find_sub_bounds [OF Some] by (simp add: piece_find_def)
    qed
  next
    case False
    then have "length self + 1 - length s = 0" by simp
    then have "first_from (occurs_at self s) pos (length self + 1 - length s) = None" by (simp only: first_from_def) simp
    then show ?thesis using False by (simp add: piece_find_def split: option.splits)
  qed
qed (simp add: piece_find_def first_from_def)

lemma rfind_char_last: "piece_rfind_char self c pos = Inr (last_to (\<lambda>j. self ! j = c) pos (length self))"
proof (cases "self = []")
  case False
  then show ?thesis using scan_down_min [of self "\<lambda>x. x = c" pos] by (simp add: piece_rfind_char_def)
qed (simp add: piece_rfind_char_def last_to_def)

lemma last_to_bound: "last_to Q pos n = Some j \<Longrightarrow> j < n \<and> j \<le> pos"
proof -
  assume "last_to Q pos n = Some j"
  then have "j \<in> set (rev [0..<min (pos + 1) n])" unfolding last_to_def by (metis find_Some_iff nth_mem)
  then show ?thesis by auto
qed

lemma rfind_last: "piece_rfind self s pos = last_to (occurs_at self s) pos (length self + 1 - length s)"
proof (cases "length s \<le> length self")
  case le: True
  define m where "m = min (length self - length s) pos"
  have n: "min (pos + 1) (length self + 1 - length s) = m + 1" using le by (simp add: m_def)
  show ?thesis
  proof (cases "s = []")
    case True
    then show ?thesis using n by (simp add: piece_rfind_def last_to_def occurs_at_def m_def min.commute)
  next
    case False
    define e where "e = m + length s"
    have e: "e \<le> length self" "length (take e self) = e" "e + 1 - length s = m + 1" using le by (simp_all add: e_def m_def)
    have "find (\<lambda>j. take (length s) (drop j (take e self)) = s) (rev [0..<m + 1]) = find (occurs_at self s) (rev [0..<m + 1])"
      by (rule find_cong) (auto simp: occurs_at_def e_def drop_take)
    then have f: "find_end (take e self) s = (case last_to (occurs_at self s) pos (length self + 1 - length s) of Some j \<Rightarrow> j | None \<Rightarrow> e)"
      unfolding find_end_def e(2,3) last_to_def n by simp
    have "j \<noteq> e" if "last_to (occurs_at self s) pos (length self + 1 - length s) = Some j" for j
    proof -
      have "j < length self + 1 - length s \<and> j \<le> pos" by (rule last_to_bound [OF that])
      moreover have "0 < length s" using False by simp
      ultimately have "j \<le> m" "0 < length s" using le unfolding m_def by auto
      then show ?thesis unfolding e_def by linarith
    qed
    then show ?thesis using le False f
      by (cases "last_to (occurs_at self s) pos (length self + 1 - length s)") (simp_all add: piece_rfind_def Let_def e_def [symmetric] m_def [symmetric])
  qed
next
  case False
  then have "length self + 1 - length s = 0" by simp
  then have "last_to (occurs_at self s) pos (length self + 1 - length s) = None" by (simp only: last_to_def) simp
  then show ?thesis using False by (simp add: piece_rfind_def)
qed

lemma length_one: "length s = Suc 0 \<Longrightarrow> piece_at s 0 = Inr (s ! 0) \<and> set s = {s ! 0}"
  by (cases s) (auto simp: piece_at_def)

lemma find_False [simp]: "find (\<lambda>j. False) xs = None"
  by (induction xs) simp_all

lemma first_of_first:
  assumes "signed_bytes self" "signed_bytes s"
  shows "piece_find_first_of self s pos = Inr (first_from (\<lambda>j. self ! j \<in> set s) pos (length self))"
proof (cases "self = [] \<or> s = []")
  case True
  then show ?thesis by (auto simp: piece_find_first_of_def first_from_def find_None_iff)
next
  case False
  show ?thesis
  proof (cases "length s = 1")
    case True
    then show ?thesis using False length_one [of s] by (simp add: piece_find_first_of_def find_char_first)
  next
    case many: False
    then show ?thesis using False first_from_cong [of "length self", OF table_char [OF assms]] by (simp add: piece_find_first_of_def scan_up_first Let_def)
  qed
qed

lemma first_not_of_first:
  assumes "signed_bytes self" "signed_bytes s" "s \<noteq> []"
  shows "piece_find_first_not_of self s pos = Inr (first_from (\<lambda>j. self ! j \<notin> set s) pos (length self))"
proof (cases "self = []")
  case True
  then show ?thesis by (simp add: piece_find_first_not_of_def first_from_def)
next
  case False
  show ?thesis
  proof (cases "length s = 1")
    case True
    then show ?thesis using False assms(3) length_one [of s] by (simp add: piece_find_first_not_of_def piece_find_first_not_of_char_def scan_up_first)
  next
    case many: False
    have "first_from (\<lambda>j. \<not> BuildLookupTable s ! unsigned_char (self ! j)) pos (length self) = first_from (\<lambda>j. self ! j \<notin> set s) pos (length self)"
      by (rule first_from_cong) (simp add: table_char [OF assms(1,2)])
    then show ?thesis using False many assms(3) by (simp add: piece_find_first_not_of_def scan_up_first Let_def)
  qed
qed

lemma last_of_last:
  assumes "signed_bytes self" "signed_bytes s"
  shows "piece_find_last_of self s pos = Inr (last_to (\<lambda>j. self ! j \<in> set s) pos (length self))"
proof (cases "self = [] \<or> s = []")
  case True
  then show ?thesis by (auto simp: piece_find_last_of_def last_to_def find_None_iff)
next
  case False
  show ?thesis
  proof (cases "length s = 1")
    case True
    then show ?thesis using False length_one [of s] by (simp add: piece_find_last_of_def rfind_char_last)
  next
    case many: False
    have "last_to (\<lambda>j. BuildLookupTable s ! unsigned_char (self ! j)) pos (length self) = last_to (\<lambda>j. self ! j \<in> set s) pos (length self)"
      by (rule last_to_cong) (simp add: table_char [OF assms(1,2)])
    then show ?thesis using False many scan_down_min [of self "\<lambda>c. BuildLookupTable s ! unsigned_char c" pos] by (simp add: piece_find_last_of_def Let_def)
  qed
qed

lemma last_not_of_last:
  assumes "signed_bytes self" "signed_bytes s"
  shows "piece_find_last_not_of self s pos = Inr (last_to (\<lambda>j. self ! j \<notin> set s) pos (length self))"
proof (cases "self = []")
  case True
  then show ?thesis by (simp add: piece_find_last_not_of_def last_to_def)
next
  case False
  consider "s = []" | "length s = 1" | "s \<noteq> []" "length s \<noteq> 1" by auto
  then show ?thesis
  proof cases
    case 1
    have "min (pos + 1) (length self) = Suc (min pos (length self - 1))" using False by (cases self) auto
    then have "last_to (\<lambda>j. True) pos (length self) = Some (min pos (length self - 1))" by (simp add: last_to_def)
    then show ?thesis using 1 False by (simp add: piece_find_last_not_of_def)
  next
    case 2
    then have "s \<noteq> []" by auto
    then show ?thesis using 2 False length_one [of s] scan_down_min [of self "\<lambda>x. x \<noteq> s ! 0" pos]
      by (simp add: piece_find_last_not_of_def piece_find_last_not_of_char_def Let_def)
  next
    case 3
    have "last_to (\<lambda>j. \<not> BuildLookupTable s ! unsigned_char (self ! j)) pos (length self) = last_to (\<lambda>j. self ! j \<notin> set s) pos (length self)"
      by (rule last_to_cong) (simp add: table_char [OF assms(1,2)])
    then show ?thesis using False 3 scan_down_min [of self "\<lambda>c. \<not> BuildLookupTable s ! unsigned_char c" pos] by (simp add: piece_find_last_not_of_def Let_def)
  qed
qed

text \<open>
  C40: the searches in string pieces, through the loops, the table of characters and the special cases for one
  character, read inside the piece and find the first position from \<open>pos\<close> on, or the last up to \<open>pos\<close>, that they are
  to find.  The one exception is \<open>find_first_not_of\<close> with an empty set of characters to skip: it ignores \<open>pos\<close> and
  answers 0 for every piece that is not empty.
\<close>

theorem piece_searches:
  assumes "signed_bytes self" "signed_bytes s"
  shows "piece_find self s pos = first_from (occurs_at self s) pos (length self + 1 - length s) \<and>
    piece_find_char self c pos = first_from (\<lambda>j. self ! j = c) pos (length self) \<and>
    piece_rfind self s pos = last_to (occurs_at self s) pos (length self + 1 - length s) \<and>
    piece_rfind_char self c pos = Inr (last_to (\<lambda>j. self ! j = c) pos (length self)) \<and>
    piece_find_first_of self s pos = Inr (first_from (\<lambda>j. self ! j \<in> set s) pos (length self)) \<and>
    piece_find_first_not_of self s pos =
      Inr (if s = [] then (if self = [] then None else Some 0) else first_from (\<lambda>j. self ! j \<notin> set s) pos (length self)) \<and>
    piece_find_last_of self s pos = Inr (last_to (\<lambda>j. self ! j \<in> set s) pos (length self)) \<and>
    piece_find_last_not_of self s pos = Inr (last_to (\<lambda>j. self ! j \<notin> set s) pos (length self))"
  using find_first find_char_first rfind_last rfind_char_last first_of_first [OF assms] first_not_of_first [OF assms] last_of_last [OF assms] last_not_of_last [OF assms]
  by (auto simp: piece_find_first_not_of_def)

theorem piece_searches_witness:
  "piece_find_last_of [97, 98, - 61, 97] [- 61, 98] 9 = Inr (last_to (\<lambda>j. [97, 98, - 61, 97 :: int] ! j \<in> set [- 61, 98]) 9 (length [97, 98, - 61, 97 :: int]))"
proof -
  have b: "signed_bytes [97, 98, - 61, 97]" "signed_bytes [- 61, 98]" by (simp_all add: signed_bytes_def)
  show ?thesis by (rule piece_searches [OF b, THEN conjunct2, THEN conjunct2, THEN conjunct2, THEN conjunct2, THEN conjunct2, THEN conjunct2, THEN conjunct1])
qed

end
