(* ===== verification/Spec2Isabelle.thy ===== *)
theory Spec2Isabelle imports OscTiming OscProtocol RefCount Numbers Pickles Md5 Sha1 Strings Splitting Patterns FilePaths Unicode JsonRoundTrip LoopProperties LinkedLists MruCache Timers Versions CommandLines StringPieces begin

text \<open>
  A model of the oscilloscope data program (\<open>osc_data_process/\<close>) and of the parts of its base
  library (\<open>base/\<close>, from Chromium) with logic of their own, and the theorems that make them correct.

  The program.  A \<open>Factory\<close> on a task thread produces numbered data at some speed and tells its
  observers.  A \<open>FactoryHost\<close> on another thread wants the data: by \<open>Init\<close> it posts a task that creates
  a stub on the task thread; the stub is an observer of the factory and posts each datum back, where a
  \<open>FreqFactoryHost\<close>'s stub lets only so many per second pass; \<open>Destroy\<close> takes the stub away again.
  Pointers between factory, stub and host are raw, tasks hold references on hosts; what makes them safe is
  the handshake of \<open>ObserverCrossThread\<close>.  Underneath are the observer list, message loops, reference
  counts, time and the string, number, pickle and hash functions of \<open>base/\<close>.

  How code is modelled.  A function that can fail a debug check, touch NULL or a dead object or leave a
  buffer returns \<open>'a res\<close> (\<open>Inl\<close> the fault); records hold the fields of the classes, heaps are maps
  from addresses; integers of fixed width are words, or integers with the wrap-around written out, where
  it matters; loops are recursive functions with termination proofs.  Where a loop may run for ever its
  turns are bounded by a number: in \<open>SplitStringUsingSubstr\<close> (an empty separator never ends; one turn for each
  character and one more are enough for any other), in the pump of a message loop, for which
  \<open>run_until_idle_returns\<close> says how large a bound is enough (the statements about what holds in every state are
  for all bounds), and in the JSON parser, whose functions call each other: \<open>enough_turns\<close> is three for each byte of
  the input and three more, and \<open>json_parse_reads_inside\<close> says that it is never used up.

  The theories, in the order of the imports.

  \<^item> \<open>Prelude\<close>: results and faults, vectors of slots, the collections of simplification rules.
  \<^item> \<open>Times\<close> (\<open>base/time.h\<close>, \<open>time.cc\<close>): durations and times as linear orders, conversions; round trips and
    rounding.
  \<^item> \<open>Observers\<close> (\<open>base/observer_list.h\<close>): the list, its iterator and notifications whose callbacks change the
    list.  Locales state what a callback may do; they are interpreted on the list's own operations and, in
    \<open>FactoryInv\<close>, on the callbacks of the stubs.
  \<^item> \<open>RefCount\<close> (\<open>base/memory/ref_counted.h\<close>, \<open>ref_counted.cc\<close>, \<open>atomic_ref_count.h\<close>): the counters and
    \<open>scoped_refptr\<close> over a heap.
  \<^item> \<open>Doubles\<close>: the two divisions in floating point of the program, with rounding to 53 bits, are exact.
  \<^item> \<open>OscState\<close>, \<open>CrossThread\<close>, \<open>Factories\<close>: the state of the whole program and the operations of
    \<open>observer_cross_thread.cc\<close>, \<open>factory_host.cc\<close>, \<open>freq_factory_host.cc\<close> and \<open>factory.cc\<close>.
  \<^item> \<open>OscInv\<close>, \<open>FactoryInv\<close>, \<open>OscSystem\<close>: the invariant of the pointers, that each operation keeps it, and the
    program as a transition system of interleaved tasks; memory safety of every reachable state.
  \<^item> \<open>OscDelivery\<close>, \<open>OscTiming\<close>, \<open>OscProtocol\<close>: order and number of the data that reach the hosts, rates and
    schedules, and restrictions on the clients (\<open>polite\<close>, read off the checks of the code and stricter than its
    comments ask for) under which no debug check fails.  The \<open>static int id\<close> of the factory wraps as a 32-bit integer
    (\<open>int32_succ\<close>); what is said about the order of the data holds for fewer than \<open>2 ^ 31 - 1\<close> productions.
    The limiter is bounded by the number of notifications since its first reading of the clock, not within every
    interval: after a gap it catches up with one notification per production (\<open>limiter_bursts\<close>).
  \<^item> \<open>PendingTasks\<close>, \<open>MessageLoop\<close> (\<open>base/pending_task.cc\<close>, \<open>message_loop.cc\<close>, \<open>run_loop.cc\<close>,
    \<open>message_pump_default.cc\<close>, \<open>message_loop_proxy_impl.cc\<close>): the loop with nested runs, delayed and deferred tasks, its
    pump, proxy and destructor.  \<open>MessageLoopInv\<close> proves its invariant for any way of running closures (a locale),
    and interprets it on closures given by the calls they make; \<open>LoopProperties\<close> draws the guarantees for programs:
    tasks run once, in order, in time; no lost wake-up; runs until idle return, for tasks that post only tasks of
    a lower rank; destruction deletes every task but those another thread posts in the moment between the last
    reload of the work queue and the closing of the incoming queue, which it leaves queued.
    \<open>OscSystem\<close> uses queues of the same discipline (first in, first out; delayed ones by time).
  \<^item> \<open>Numbers\<close> (\<open>base/string_number_conversions.cc\<close>): integers and hexadecimal to text and back.
  \<^item> \<open>PickleModel\<close>, \<open>Pickles\<close> (\<open>base/pickle.h\<close>, \<open>pickle.cc\<close>): the buffer, writers and readers; round trips, safety on
    untrusted input.  Pointers are positions behind the header, 0 is the null pointer of a pickle without one.
  \<^item> \<open>Hashing\<close>, \<open>Md5\<close>, \<open>Sha1\<close> (\<open>base/md5.cc\<close>, \<open>sha1_portable.cc\<close>): a locale for contexts that absorb pieces, and the
    equality with the digests of RFC 1321 and FIPS 180-3, written out with tables of their own.
  \<^item> \<open>StringOps\<close>, \<open>StringAlgos\<close> (\<open>base/string_util.h\<close>, \<open>string_util.cc\<close>, \<open>string_split.cc\<close>, \<open>string_tokenizer.h\<close>), with their
    theorems in \<open>Strings\<close>, \<open>Splitting\<close> and \<open>Patterns\<close>.
  \<^item> \<open>FilePaths\<close> (\<open>base/file_path.cc\<close>, as built without drive letters): directory, base name, components, relative
    paths and extensions.
  \<^item> \<open>Utf\<close>, \<open>Unicode\<close> (\<open>base/utf_string_conversion_utils.cc\<close>, \<open>utf_string_conversions.cc\<close>,
    \<open>base/third_party/icu/icu_utf.cc\<close>): UTF-8, UTF-16 and wide strings.  A locale states what a reader of one encoding
    promises; it is interpreted on the three readers, and the round trips of all pairs rest on it.  \<open>Utf8Strings\<close> has
    the facts on well-formed UTF-8 that the theories on JSON use.
  \<^item> \<open>Values\<close> (\<open>base/values.cc\<close>): booleans, numbers, strings, lists and dictionaries with paths.
  \<^item> \<open>JsonWriter\<close>, \<open>JsonParser\<close> (\<open>base/json/json_writer.cc\<close>, \<open>string_escape.cc\<close>, \<open>json_parser.cc\<close>, \<open>json_reader.cc\<close>):
    values to text and back.  \<open>JsonSafety\<close>: on any bytes the parser stays inside the input, returns well-formed values
    and reports its errors, if every number of JSON in the input is in the range of a double.  \<open>JsonRoundTrip\<close>: what is written is read again, if the conversions of doubles
    (\<open>DoubleToString\<close>, \<open>StringToDouble\<close>, parameters) agree with each other.
  \<^item> \<open>LinkedLists\<close> (\<open>base/linked_list.h\<close>) and \<open>MruCache\<close> (\<open>base/memory/mru_cache.h\<close>): refinements of lists.
  \<^item> \<open>Timers\<close> (\<open>base/timer.cc\<close>): timers and the tasks they post, on a thread where calls, due tasks and deletions
    happen in any order and the clock may advance at each reading; no dangling pointers, user tasks in time, for
    clients whose delays are not negative, as the message loop checks.
  \<^item> \<open>Versions\<close> (\<open>base/version.cc\<close>): version numbers, their text and their order.
  \<^item> \<open>CommandLines\<close> (\<open>base/command_line.cc\<close>, as built for POSIX systems): switches, by their exact names, and
    arguments; what a used command line keeps when it reads another vector.
  \<^item> \<open>StringPieces\<close> (\<open>base/string_piece.cc\<close>): the searches, with the one that ignores its position.

  Not modelled: the demo \<open>main.cc\<close> (set-up code; parts of it call methods that do not exist), threads, locks,
  processes and files of the operating system (the model takes tasks as atomic and lets threads interleave in
  any order), the machinery of \<open>Bind\<close> and \<open>Callback\<close> (a closure is a value that names what it runs), logging, tracing
  and histograms, the conversions of doubles (vendored; parameters where code uses them), the hidden roots of the
  JSON parser, which only keep the input alive behind string pieces, other third-party code, the other message
  pumps, and those parts of \<open>base/\<close> that the program does not reach and that mostly wrap system calls.
\<close>

end
